(* ===== verification/Prelude.thy ===== *)
theory Prelude
  imports Main "HOL-Library.Word" "HOL-Library.Multiset" "HOL-Library.Char_ord" "HOL-Library.List_Lexorder"
begin

text \<open>
  Shared vocabulary of the development: machine types, the exceptions of the program, the
  state-and-exception programs in which the stateful operations are written, ordered association
  lists for \<^verbatim>\<open>std::map\<close>, and generic lemmas on lists and words that several components use.
\<close>

unbundle bit_operations_syntax

named_theorems prog_simps "evaluation rules of the state-and-exception programs"
named_theorems inv_intros "preservation of the component invariants"

subsection \<open>Machine types\<close>

type_synonym byte = "8 word"
type_synonym u16 = "16 word"
type_synonym u32 = "32 word"
type_synonym u64 = "64 word"

subsection \<open>Exceptions\<close>

text \<open>
  One constructor per exception class that the modelled code throws or lets pass; \<open>StdException\<close> is a bare
  \<^verbatim>\<open>std::exception\<close>, what \<^verbatim>\<open>throw ex\<close> makes of any exception caught as one. \<open>Deadlock\<close> stands
  for locking a non-recursive \<^verbatim>\<open>std::mutex\<close> that the same thread already holds, \<open>Aborted\<close> for the
  end of the process by a failed check of a library, \<open>Undefined\<close> for an
  operation whose behaviour the C++ standard leaves undefined (an index out of range, a call through
  a null member pointer, signed overflow).
\<close>

datatype exn =
    XKarma string
  | XDisconnect string
  | XError string
  | InvalidArgument string
  | OutOfRange string
  | LogicError string
  | RuntimeError string
  | StdException
  | OtherException
  | Deadlock
  | Aborted
  | Undefined

subsection \<open>State-and-exception programs\<close>

text \<open>
  A stateful operation takes the state and returns an exception or a result, with the new state: as
  in C++, what was written before a \<^verbatim>\<open>throw\<close> stays written.
\<close>

type_synonym ('s, 'a) prog = "'s \<Rightarrow> (exn + 'a) \<times> 's"

definition pret :: "'a \<Rightarrow> ('s, 'a) prog" where
  "pret x = (\<lambda>s. (Inr x, s))"

definition pthrow :: "exn \<Rightarrow> ('s, 'a) prog" where
  "pthrow e = (\<lambda>s. (Inl e, s))"

definition pbind :: "('s, 'a) prog \<Rightarrow> ('a \<Rightarrow> ('s, 'b) prog) \<Rightarrow> ('s, 'b) prog" where
  "pbind m f = (\<lambda>s. case m s of (Inl e, s') \<Rightarrow> (Inl e, s') | (Inr x, s') \<Rightarrow> f x s')"

definition pthen :: "('s, 'a) prog \<Rightarrow> ('s, 'b) prog \<Rightarrow> ('s, 'b) prog" where
  "pthen m n = pbind m (\<lambda>_. n)"

definition pget :: "('s \<Rightarrow> 'a) \<Rightarrow> ('s, 'a) prog" where
  "pget f = (\<lambda>s. (Inr (f s), s))"

definition pmodify :: "('s \<Rightarrow> 's) \<Rightarrow> ('s, unit) prog" where
  "pmodify f = (\<lambda>s. (Inr (), f s))"

definition plift :: "exn + 'a \<Rightarrow> ('s, 'a) prog" where
  "plift r = (\<lambda>s. (r, s))"

definition pcatch :: "('s, 'a) prog \<Rightarrow> (exn \<Rightarrow> ('s, 'a) prog) \<Rightarrow> ('s, 'a) prog" where
  "pcatch m h = (\<lambda>s. case m s of (Inl e, s') \<Rightarrow> h e s' | (Inr x, s') \<Rightarrow> (Inr x, s'))"

definition ebind :: "exn + 'a \<Rightarrow> ('a \<Rightarrow> exn + 'b) \<Rightarrow> exn + 'b" where
  "ebind m f = (case m of Inl e \<Rightarrow> Inl e | Inr x \<Rightarrow> f x)"

lemma pret_apply [simp, prog_simps]: "pret x s = (Inr x, s)"
  by (simp add: pret_def)

lemma pthrow_apply [simp, prog_simps]: "pthrow e s = (Inl e, s)"
  by (simp add: pthrow_def)

lemma pget_apply [simp, prog_simps]: "pget f s = (Inr (f s), s)"
  by (simp add: pget_def)

lemma pmodify_apply [simp, prog_simps]: "pmodify f s = (Inr (), f s)"
  by (simp add: pmodify_def)

lemma plift_apply [simp, prog_simps]: "plift r s = (r, s)"
  by (simp add: plift_def)

lemma pbind_apply [prog_simps]:
  "pbind m f s = (case m s of (Inl e, s') \<Rightarrow> (Inl e, s') | (Inr x, s') \<Rightarrow> f x s')"
  by (simp add: pbind_def)

lemma pbind_Inl [simp]: "m s = (Inl e, s') \<Longrightarrow> pbind m f s = (Inl e, s')"
  by (simp add: pbind_def)

lemma pbind_Inr [simp]: "m s = (Inr x, s') \<Longrightarrow> pbind m f s = f x s'"
  by (simp add: pbind_def)

lemma pthen_apply [prog_simps]:
  "pthen m n s = (case m s of (Inl e, s') \<Rightarrow> (Inl e, s') | (Inr x, s') \<Rightarrow> n s')"
  by (simp add: pthen_def pbind_def)

lemma pthen_Inl [simp]: "m s = (Inl e, s') \<Longrightarrow> pthen m n s = (Inl e, s')"
  by (simp add: pthen_apply)

lemma pthen_Inr [simp]: "m s = (Inr x, s') \<Longrightarrow> pthen m n s = n s'"
  by (simp add: pthen_apply)

lemma pcatch_Inl [simp]: "m s = (Inl e, s') \<Longrightarrow> pcatch m h s = h e s'"
  by (simp add: pcatch_def)

lemma pcatch_Inr [simp]: "m s = (Inr x, s') \<Longrightarrow> pcatch m h s = (Inr x, s')"
  by (simp add: pcatch_def)

lemma pcatch_apply [prog_simps]:
  "pcatch m h s = (case m s of (Inl e, s') \<Rightarrow> h e s' | (Inr x, s') \<Rightarrow> (Inr x, s'))"
  by (simp add: pcatch_def)

lemma ebind_simps [simp]: "ebind (Inl e) f = Inl e" "ebind (Inr x) f = f x"
  by (simp_all add: ebind_def)

lemma ebind_Inr_iff: "ebind m f = Inr y \<longleftrightarrow> (\<exists>x. m = Inr x \<and> f x = Inr y)"
  by (cases m) auto

text \<open>A predicate on the state that an operation keeps on every path, exceptions included.\<close>

definition preserves :: "('s \<Rightarrow> bool) \<Rightarrow> ('s, 'a) prog \<Rightarrow> bool" where
  "preserves P m \<longleftrightarrow> (\<forall>s. P s \<longrightarrow> P (snd (m s)))"

lemma preservesI: "(\<And>s. P s \<Longrightarrow> P (snd (m s))) \<Longrightarrow> preserves P m"
  by (simp add: preserves_def)

lemma preservesD: "preserves P m \<Longrightarrow> P s \<Longrightarrow> P (snd (m s))"
  by (simp add: preserves_def)

lemma preserves_pret [inv_intros]: "preserves P (pret x)"
  by (simp add: preserves_def)

lemma preserves_pthrow [inv_intros]: "preserves P (pthrow e)"
  by (simp add: preserves_def)

lemma preserves_pget [inv_intros]: "preserves P (pget f)"
  by (simp add: preserves_def)

lemma preserves_plift [inv_intros]: "preserves P (plift r)"
  by (simp add: preserves_def)

lemma preserves_pmodify: "(\<And>s. P s \<Longrightarrow> P (f s)) \<Longrightarrow> preserves P (pmodify f)"
  by (simp add: preserves_def)

lemma preserves_pbind [inv_intros]:
  "preserves P m \<Longrightarrow> (\<And>x. preserves P (f x)) \<Longrightarrow> preserves P (pbind m f)"
  by (fastforce simp: preserves_def pbind_def split: prod.splits sum.splits)

lemma preserves_pthen [inv_intros]:
  "preserves P m \<Longrightarrow> preserves P n \<Longrightarrow> preserves P (pthen m n)"
  by (simp add: pthen_def preserves_pbind)

lemma preserves_pcatch [inv_intros]:
  "preserves P m \<Longrightarrow> (\<And>e. preserves P (h e)) \<Longrightarrow> preserves P (pcatch m h)"
  by (fastforce simp: preserves_def pcatch_def split: prod.splits sum.splits)

subsection \<open>Ordered association lists: \<^verbatim>\<open>std::map\<close>\<close>

text \<open>
  A \<^verbatim>\<open>std::map\<close> is kept as its entries in key order, which is the order in which the code iterates
  over it. \<open>map_of\<close> looks a key up; \<open>omap_insert\<close> is \<^verbatim>\<open>m[k] = v\<close>; \<open>omap_erase\<close> is \<^verbatim>\<open>m.erase(k)\<close>.
\<close>

fun omap_insert :: "'k::linorder \<Rightarrow> 'v \<Rightarrow> ('k \<times> 'v) list \<Rightarrow> ('k \<times> 'v) list" where
  "omap_insert k v [] = [(k, v)]"
| "omap_insert k v ((k', v') # m) =
     (if k < k' then (k, v) # (k', v') # m
      else if k = k' then (k, v) # m
      else (k', v') # omap_insert k v m)"

definition omap_erase :: "'k \<Rightarrow> ('k \<times> 'v) list \<Rightarrow> ('k \<times> 'v) list" where
  "omap_erase k m = filter (\<lambda>e. fst e \<noteq> k) m"

definition omap_ok :: "('k::linorder \<times> 'v) list \<Rightarrow> bool" where
  "omap_ok m \<longleftrightarrow> sorted_wrt (<) (map fst m)"

lemma map_of_omap_insert [simp]:
  "map_of (omap_insert k v m) = (map_of m)(k \<mapsto> v)"
  by (induction k v m rule: omap_insert.induct) (auto simp: fun_eq_iff)

lemma set_fst_omap_insert [simp]:
  "fst ` set (omap_insert k v m) = insert k (fst ` set m)"
  by (induction k v m rule: omap_insert.induct) auto

lemma omap_ok_Nil [simp]: "omap_ok []"
  by (simp add: omap_ok_def)

lemma omap_ok_insert [simp]: "omap_ok m \<Longrightarrow> omap_ok (omap_insert k v m)"
  unfolding omap_ok_def
proof (induction k v m rule: omap_insert.induct)
  case (1 k v)
  then show ?case by simp
next
  case (2 k v k' v' m)
  have "\<forall>y \<in> set (map fst (omap_insert k v m)). y = k \<or> y \<in> fst ` set m"
    using set_fst_omap_insert [of k v m] by auto
  with 2 show ?case by (auto simp: not_less)
qed

lemma map_of_omap_erase [simp]: "map_of (omap_erase k m) = (map_of m)(k := None)"
  by (induction m) (auto simp: omap_erase_def fun_eq_iff)

lemma omap_ok_erase [simp]: "omap_ok m \<Longrightarrow> omap_ok (omap_erase k m)"
  by (induction m) (auto simp: omap_ok_def omap_erase_def)

lemma omap_ok_distinct: "omap_ok m \<Longrightarrow> distinct (map fst m)"
  by (induction m) (auto simp: omap_ok_def)

lemma length_omap_insert_new:
  "map_of m k = None \<Longrightarrow> length (omap_insert k v m) = Suc (length m)"
  by (induction k v m rule: omap_insert.induct) (auto split: if_splits)

lemma mset_omap_insert_new:
  "map_of m k = None \<Longrightarrow> mset (omap_insert k v m) = add_mset (k, v) (mset m)"
  by (induction k v m rule: omap_insert.induct) (auto split: if_splits)

subsection \<open>Hash tables\<close>

text \<open>
  A hash table is kept as its entries in the order of iteration, which the standard leaves open: a new entry is
  placed by a parameter \<open>ins\<close>, of which only this is assumed.
\<close>

definition hash_insert :: "('a \<Rightarrow> 'a list \<Rightarrow> 'a list) \<Rightarrow> bool" where
  "hash_insert ins \<longleftrightarrow> (\<forall>e cur. mset (ins e cur) = add_mset e (mset cur))"

lemma hash_insert_set: "hash_insert ins \<Longrightarrow> set (ins e cur) = insert e (set cur)"
  unfolding hash_insert_def by (metis set_mset_add_mset_insert set_mset_mset)

lemma hash_insert_distinct:
  assumes "hash_insert ins" "distinct (map fst cur)" "fst e \<notin> fst ` set cur"
  shows "distinct (map fst (ins e cur))"
proof -
  have "mset (ins e cur) = add_mset e (mset cur)" using assms(1) unfolding hash_insert_def by blast
  then have "mset (map fst (ins e cur)) = mset (map fst (e # cur))" by simp
  then have "distinct (map fst (ins e cur)) \<longleftrightarrow> distinct (map fst (e # cur))" by (rule mset_eq_imp_distinct_iff)
  then show ?thesis using assms(2,3) by simp
qed

subsection \<open>Lists and words\<close>

text \<open>Writing a sequence over part of a list.\<close>

definition overwrite :: "nat \<Rightarrow> 'a list \<Rightarrow> 'a list \<Rightarrow> 'a list" where
  "overwrite p xs st = take p st @ xs @ drop (p + length xs) st"

lemma nth_overwrite:
  assumes "p + length xs \<le> length st" "i < length st"
  shows "overwrite p xs st ! i = (if p \<le> i \<and> i < p + length xs then xs ! (i - p) else st ! i)"
  using assms by (auto simp: overwrite_def nth_append)

lemma length_overwrite [simp]:
  "p + length xs \<le> length st \<Longrightarrow> length (overwrite p xs st) = length st"
  by (simp add: overwrite_def)

lemma overwrite_Nil [simp]: "overwrite p [] st = st"
  by (simp add: overwrite_def)

lemma overwrite_Cons:
  assumes "p + length (x # xs) \<le> length st"
  shows "overwrite (Suc p) xs (st[p := x]) = overwrite p (x # xs) st"
  using assms by (simp add: overwrite_def upd_conv_take_nth_drop take_Suc_conv_app_nth add.commute [of p])

lemma take_drop_overwrite:
  assumes "p + length xs \<le> length st"
  shows "take (length xs) (drop p (overwrite p xs st)) = xs"
  using assms by (simp add: overwrite_def)

lemma unat_plus_small:
  fixes a b :: "'a::len word"
  assumes "unat a + unat b < 2 ^ LENGTH('a)"
  shows "unat (a + b) = unat a + unat b"
  using assms by (simp add: unat_word_ariths)

lemma unat_minus_small:
  fixes a b :: "'a::len word"
  assumes "unat b \<le> unat a"
  shows "unat (a - b) = unat a - unat b"
  using assms by (simp add: unat_sub word_le_nat_alt)

end
