(* ===== verification/BucketsOf.thy ===== *)
theory BucketsOf
  imports Prelude
begin

text \<open>
  \<^verbatim>\<open>cpp-utils/src/cpp/lib/BucketsOf.hpp\<close>: a table that gives every name a number and every number a
  slot. Slots live in buckets of a fixed size, so that a reference to a slot stays valid when the
  table grows. The locale \<open>name_table\<close> is the contract its two users (the monitoring counters and the
  karma accounts) rely on; it is interpreted here on the model of \<open>BucketsOf\<close>.
\<close>

subsection \<open>State and operations\<close>

record ('c, 'n) buckets_of =
  bo_buckets :: "'c list list"
  bo_names :: "('n \<times> nat) list"
  bo_size :: nat

definition bo_empty :: "('c, 'n) buckets_of" where
  "bo_empty = \<lparr>bo_buckets = [], bo_names = [], bo_size = 0\<rparr>"

text \<open>
  \<open>bs\<close> is the template argument \<^verbatim>\<open>BUCKET_SIZE\<close> and \<open>d\<close> the value-initialised \<^verbatim>\<open>CONTENTS\<close> with which
  \<^verbatim>\<open>new Bucket(BUCKET_SIZE)\<close> fills a bucket.
\<close>

definition bo_lockless_extend :: "nat \<Rightarrow> 'c \<Rightarrow> ('c, 'n) buckets_of \<Rightarrow> nat \<times> ('c, 'n) buckets_of" where
  "bo_lockless_extend bs d b =
     (let b1 = (if bs * length (bo_buckets b) \<le> bo_size b
                then b\<lparr>bo_buckets := bo_buckets b @ [replicate bs d]\<rparr> else b)
      in (bo_size b1, b1\<lparr>bo_size := bo_size b1 + 1\<rparr>))"

definition bo_get :: "nat \<Rightarrow> 'c \<Rightarrow> 'n::linorder \<Rightarrow> ('c, 'n) buckets_of \<Rightarrow> nat \<times> ('c, 'n) buckets_of" where
  "bo_get bs d name b =
     (case map_of (bo_names b) name of
        None \<Rightarrow>
          (let (x, b') = bo_lockless_extend bs d b
           in (x, b'\<lparr>bo_names := omap_insert name x (bo_names b')\<rparr>))
      | Some x \<Rightarrow> (x, b))"

definition bo_has :: "'n \<Rightarrow> ('c, 'n) buckets_of \<Rightarrow> bool" where
  "bo_has name b \<longleftrightarrow> map_of (bo_names b) name \<noteq> None"

definition bo_getNames :: "('c, 'n) buckets_of \<Rightarrow> ('n \<times> nat) list" where
  "bo_getNames b = bo_names b"

text \<open>
  \<^verbatim>\<open>access\<close> returns a reference; the model splits it into reading (\<open>bo_access\<close>) and writing
  (\<open>bo_put\<close>) the slot. An index outside every bucket is \<open>None\<close>: the code does not check it.
\<close>

definition bo_access :: "nat \<Rightarrow> nat \<Rightarrow> ('c, 'n) buckets_of \<Rightarrow> 'c option" where
  "bo_access bs i b =
     (if i div bs < length (bo_buckets b) \<and> i mod bs < length (bo_buckets b ! (i div bs))
      then Some (bo_buckets b ! (i div bs) ! (i mod bs)) else None)"

definition bo_put :: "nat \<Rightarrow> nat \<Rightarrow> 'c \<Rightarrow> ('c, 'n) buckets_of \<Rightarrow> ('c, 'n) buckets_of" where
  "bo_put bs i c b =
     b\<lparr>bo_buckets := (bo_buckets b)[i div bs := (bo_buckets b ! (i div bs))[i mod bs := c]]\<rparr>"

subsection \<open>Invariant\<close>

text \<open>
  Buckets are full-size, the buckets hold room for exactly the numbers given out (at most one bucket
  is partly used), the names are distinct and their numbers are exactly \<open>0, \<dots>, size - 1\<close>, and a slot
  that was not given out still holds the initial value.
\<close>

definition bo_inv :: "nat \<Rightarrow> 'c \<Rightarrow> ('c, 'n::linorder) buckets_of \<Rightarrow> bool" where
  "bo_inv bs d b \<longleftrightarrow>
     0 < bs \<and> (\<forall>k \<in> set (bo_buckets b). length k = bs) \<and>
     bo_size b \<le> bs * length (bo_buckets b) \<and>
     omap_ok (bo_names b) \<and>
     mset (map snd (bo_names b)) = mset [0..<bo_size b] \<and>
     (\<forall>i. bo_size b \<le> i \<and> i < bs * length (bo_buckets b) \<longrightarrow> bo_access bs i b = Some d)"

lemma bo_inv_empty: "0 < bs \<Longrightarrow> bo_inv bs d bo_empty"
  by (simp add: bo_inv_def bo_empty_def)

lemma bo_access_iff:
  assumes "0 < bs" "\<forall>k \<in> set (bo_buckets b). length k = bs"
  shows "bo_access bs i b =
           (if i < bs * length (bo_buckets b)
            then Some (bo_buckets b ! (i div bs) ! (i mod bs)) else None)"
proof -
  have "i div bs < length (bo_buckets b) \<longleftrightarrow> i < bs * length (bo_buckets b)"
    using assms(1) by (metis div_less_iff_less_mult mult.commute)
  then show ?thesis
    using assms by (auto simp: bo_access_def)
qed

lemma bo_ids:
  assumes "bo_inv bs d b"
  shows "map_of (bo_names b) n = Some i \<Longrightarrow> i < bo_size b"
    and "map_of (bo_names b) n = Some i \<Longrightarrow> map_of (bo_names b) m = Some i \<Longrightarrow> n = m"
    and "i < bo_size b \<Longrightarrow> \<exists>n. map_of (bo_names b) n = Some i"
proof -
  have ms: "mset (map snd (bo_names b)) = mset [0..<bo_size b]"
    and ok: "omap_ok (bo_names b)"
    using assms by (simp_all add: bo_inv_def)
  have st: "snd ` set (bo_names b) = {0..<bo_size b}"
    using mset_eq_setD [OF ms] by auto
  have ds: "distinct (map snd (bo_names b))"
    using ms by (metis distinct_upt mset_eq_imp_distinct_iff)
  have dk: "distinct (map fst (bo_names b))"
    using ok by (rule omap_ok_distinct)
  show "map_of (bo_names b) n = Some i \<Longrightarrow> i < bo_size b"
    using st by (force dest: map_of_SomeD)
  show "map_of (bo_names b) n = Some i \<Longrightarrow> map_of (bo_names b) m = Some i \<Longrightarrow> n = m"
    using ds by (fastforce dest!: map_of_SomeD simp: distinct_map inj_on_def)
  show "i < bo_size b \<Longrightarrow> \<exists>n. map_of (bo_names b) n = Some i"
  proof -
    assume "i < bo_size b"
    then have "i \<in> snd ` set (bo_names b)" by (simp add: st)
    then obtain n where "(n, i) \<in> set (bo_names b)" by auto
    then show "\<exists>n. map_of (bo_names b) n = Some i"
      using dk by (auto intro!: exI [of _ n])
  qed
qed

lemma bo_extend_props:
  assumes "bo_inv bs d b"
  defines "r \<equiv> bo_lockless_extend bs d b"
  shows "fst r = bo_size b" "bo_size (snd r) = Suc (bo_size b)" "bo_names (snd r) = bo_names b"
    and "\<forall>k \<in> set (bo_buckets (snd r)). length k = bs"
    and "Suc (bo_size b) \<le> bs * length (bo_buckets (snd r))"
    and "bs * length (bo_buckets b) \<le> bs * length (bo_buckets (snd r))"
    and "i < bs * length (bo_buckets b) \<Longrightarrow> bo_access bs i (snd r) = bo_access bs i b"
    and "bo_size b \<le> i \<Longrightarrow> i < bs * length (bo_buckets (snd r)) \<Longrightarrow> bo_access bs i (snd r) = Some d"
proof -
  note I = assms(1) [unfolded bo_inv_def]
  have bs: "0 < bs" using I by simp
  have len: "\<forall>k \<in> set (bo_buckets b). length k = bs" using I by simp
  show "fst r = bo_size b" "bo_size (snd r) = Suc (bo_size b)" "bo_names (snd r) = bo_names b"
    by (simp_all add: r_def bo_lockless_extend_def Let_def)
  show len': "\<forall>k \<in> set (bo_buckets (snd r)). length k = bs"
    using len by (auto simp: r_def bo_lockless_extend_def Let_def)
  show "Suc (bo_size b) \<le> bs * length (bo_buckets (snd r))"
    using I bs by (auto simp: r_def bo_lockless_extend_def Let_def)
  show "bs * length (bo_buckets b) \<le> bs * length (bo_buckets (snd r))"
    by (simp add: r_def bo_lockless_extend_def Let_def)
  show old: "bo_access bs i (snd r) = bo_access bs i b" if "i < bs * length (bo_buckets b)" for i
  proof -
    have "i div bs < length (bo_buckets b)"
      using that bs by (metis div_less_iff_less_mult mult.commute)
    then show ?thesis
      by (simp add: r_def bo_lockless_extend_def Let_def bo_access_def nth_append)
  qed
  show "bo_access bs i (snd r) = Some d"
    if "bo_size b \<le> i" "i < bs * length (bo_buckets (snd r))" for i
  proof (cases "i < bs * length (bo_buckets b)")
    case True
    then show ?thesis using old I that by simp
  next
    case False
    then have grow: "bs * length (bo_buckets b) \<le> bo_size b"
      using that by (auto simp: r_def bo_lockless_extend_def Let_def split: if_splits)
    then have lt: "i < bs * Suc (length (bo_buckets b))"
      using that by (simp add: r_def bo_lockless_extend_def Let_def)
    have "i div bs = length (bo_buckets b)"
      using False lt bs
      by (metis div_nat_eqI mult.commute not_less_iff_gr_or_eq order_le_less)
    then show ?thesis
      using grow bs by (simp add: r_def bo_lockless_extend_def Let_def bo_access_def nth_append)
  qed
qed

lemma bo_get_known:
  "map_of (bo_names b) n = Some i \<Longrightarrow> bo_get bs d n b = (i, b)"
  by (simp add: bo_get_def)

lemma bo_get_new:
  assumes "bo_inv bs d b" "map_of (bo_names b) n = None"
  shows "fst (bo_get bs d n b) = bo_size b"
    and "bo_size (snd (bo_get bs d n b)) = Suc (bo_size b)"
    and "bo_names (snd (bo_get bs d n b)) = omap_insert n (bo_size b) (bo_names b)"
    and "bo_buckets (snd (bo_get bs d n b)) = bo_buckets (snd (bo_lockless_extend bs d b))"
  using assms(2) bo_extend_props(1-3) [OF assms(1)]
  by (auto simp: bo_get_def split: prod.splits)

lemma bo_access_cong: "bo_buckets b = bo_buckets b' \<Longrightarrow> bo_access bs i b = bo_access bs i b'"
  by (simp add: bo_access_def)

lemma bo_get_inv:
  assumes "bo_inv bs d b"
  shows "bo_inv bs d (snd (bo_get bs d n b))"
proof (cases "map_of (bo_names b) n")
  case (Some i)
  then show ?thesis using assms by (simp add: bo_get_known)
next
  case None
  note new = bo_get_new [OF assms None] and ext = bo_extend_props [OF assms]
  have acc: "bo_access bs i (snd (bo_get bs d n b)) = bo_access bs i (snd (bo_lockless_extend bs d b))" for i
    by (rule bo_access_cong) (simp add: new)
  have "mset (map snd (omap_insert n (bo_size b) (bo_names b))) = mset [0..<Suc (bo_size b)]"
    using assms by (simp add: mset_omap_insert_new [OF None] bo_inv_def)
  then show ?thesis
    using assms ext(4-6,8) unfolding bo_inv_def new acc by auto
qed

lemma bo_get_lookup:
  assumes "bo_inv bs d b"
  shows "map_of (bo_names (snd (bo_get bs d n b))) = (map_of (bo_names b))(n \<mapsto> fst (bo_get bs d n b))"
proof (cases "map_of (bo_names b) n")
  case (Some i)
  then show ?thesis by (simp add: bo_get_known fun_upd_idem)
next
  case None
  show ?thesis by (simp add: bo_get_new [OF assms None])
qed

lemma bo_access_known:
  assumes "bo_inv bs d b" "i < bo_size b"
  shows "\<exists>c. bo_access bs i b = Some c"
  using assms by (auto simp: bo_inv_def bo_access_iff)

lemma bo_get_access_old:
  assumes "bo_inv bs d b" "i < bo_size b"
  shows "bo_access bs i (snd (bo_get bs d n b)) = bo_access bs i b"
proof (cases "map_of (bo_names b) n")
  case (Some j)
  then show ?thesis by (simp add: bo_get_known)
next
  case None
  have "i < bs * length (bo_buckets b)"
    using assms by (simp add: bo_inv_def)
  then have "bo_access bs i (snd (bo_lockless_extend bs d b)) = bo_access bs i b"
    by (rule bo_extend_props(7) [OF assms(1)])
  then show ?thesis
    by (metis bo_access_cong bo_get_new(4) [OF assms(1) None])
qed

lemma bo_get_access_new:
  assumes "bo_inv bs d b" "map_of (bo_names b) n = None"
  shows "bo_access bs (fst (bo_get bs d n b)) (snd (bo_get bs d n b)) = Some d"
proof -
  have "bo_access bs (bo_size b) (snd (bo_lockless_extend bs d b)) = Some d"
    using bo_extend_props(5) [OF assms(1)] by (intro bo_extend_props(8) [OF assms(1)]) auto
  then show ?thesis
    using bo_get_new(1,4) [OF assms] by (metis bo_access_cong)
qed

lemma bo_access_put:
  assumes "bo_inv bs d b" "i < bo_size b"
  shows "bo_access bs j (bo_put bs i c b) = (if j = i then Some c else bo_access bs j b)"
proof -
  have bs: "0 < bs" and len: "\<forall>k \<in> set (bo_buckets b). length k = bs"
    and lt: "i < bs * length (bo_buckets b)"
    using assms by (auto simp: bo_inv_def)
  have i1: "i div bs < length (bo_buckets b)"
    using lt bs by (metis div_less_iff_less_mult mult.commute)
  have lenn: "length (bo_buckets b ! (i div bs)) = bs"
    using i1 len by simp
  have "j = i" if "j div bs = i div bs" "j mod bs = i mod bs"
    using that by (metis div_mult_mod_eq)
  then show ?thesis
    using i1 lenn bs by (auto simp: bo_access_def bo_put_def nth_list_update)
qed

lemma bo_put_inv:
  assumes "bo_inv bs d b" "i < bo_size b"
  shows "bo_inv bs d (bo_put bs i c b)"
proof -
  have i1: "i div bs < length (bo_buckets b)"
    using assms by (metis bo_inv_def div_less_iff_less_mult mult.commute order_less_le_trans)
  have "\<forall>k \<in> set (bo_buckets (bo_put bs i c b)). length k = bs"
    using assms i1 by (auto simp: bo_inv_def bo_put_def dest!: set_update_subset_insert [THEN subsetD])
  then show ?thesis
    using assms bo_access_put [OF assms] unfolding bo_inv_def
    by (simp add: bo_put_def)
qed

subsection \<open>The contract\<close>

text \<open>
  What the users of the table rely on: \<open>get\<close> returns the number of a name and creates it when the
  name is new, numbers are never shared, and reading and writing a slot concern that slot only.
\<close>

locale name_table =
  fixes get :: "'n \<Rightarrow> 's \<Rightarrow> nat \<times> 's"
    and lookup :: "'s \<Rightarrow> 'n \<Rightarrow> nat option"
    and access :: "nat \<Rightarrow> 's \<Rightarrow> 'c option"
    and put :: "nat \<Rightarrow> 'c \<Rightarrow> 's \<Rightarrow> 's"
    and inv :: "'s \<Rightarrow> bool"
    and dflt :: 'c
  assumes inv_get: "inv s \<Longrightarrow> inv (snd (get n s))"
    and inv_put: "inv s \<Longrightarrow> lookup s n = Some i \<Longrightarrow> inv (put i c s)"
    and lookup_get: "inv s \<Longrightarrow> lookup (snd (get n s)) = (lookup s)(n \<mapsto> fst (get n s))"
    and get_known: "lookup s n = Some i \<Longrightarrow> get n s = (i, s)"
    and lookup_inj: "inv s \<Longrightarrow> lookup s n = Some i \<Longrightarrow> lookup s m = Some i \<Longrightarrow> n = m"
    and access_lookup: "inv s \<Longrightarrow> lookup s n = Some i \<Longrightarrow> \<exists>c. access i s = Some c"
    and access_get_old: "inv s \<Longrightarrow> lookup s m = Some i \<Longrightarrow> access i (snd (get n s)) = access i s"
    and access_get_new: "inv s \<Longrightarrow> lookup s n = None \<Longrightarrow> access (fst (get n s)) (snd (get n s)) = Some dflt"
    and access_put: "inv s \<Longrightarrow> lookup s n = Some i \<Longrightarrow> access j (put i c s) = (if j = i then Some c else access j s)"
    and lookup_put: "lookup (put i c s) = lookup s"
begin

lemma get_twice: "inv s \<Longrightarrow> get n (snd (get n s)) = get n s"
  by (metis fun_upd_same get_known lookup_get prod.collapse)

lemma get_distinct:
  "inv s \<Longrightarrow> n \<noteq> m \<Longrightarrow> fst (get n s) \<noteq> fst (get m (snd (get n s)))"
  by (metis fun_upd_other fun_upd_same inv_get lookup_get lookup_inj)

lemma get_fresh:
  "inv s \<Longrightarrow> lookup s n = None \<Longrightarrow> lookup s m = Some i \<Longrightarrow> i \<noteq> fst (get n s)"
  by (metis fun_upd_other fun_upd_same inv_get lookup_get lookup_inj option.distinct(1))

lemma access_get_any:
  "inv s \<Longrightarrow> lookup (snd (get n s)) m = Some i \<Longrightarrow>
   access i (snd (get n s)) = (if lookup s m = None then Some dflt else access i s)"
  by (cases "lookup s m = None")
    (auto simp: lookup_get access_get_new access_get_old get_known split: if_splits)

text \<open>Read, modify and write the slot of one name: the slots of the other names are untouched.\<close>

lemma update_frame:
  "inv s \<Longrightarrow> lookup s n = Some i \<Longrightarrow> lookup s m = Some j \<Longrightarrow> m \<noteq> n \<Longrightarrow>
   access j (put i c s) = access j s"
  by (metis access_put lookup_inj)

lemma update_self:
  "inv s \<Longrightarrow> lookup s n = Some i \<Longrightarrow> access i (put i c s) = Some c"
  by (simp add: access_put)

end

interpretation bo: name_table
  "bo_get bs d" "\<lambda>b. map_of (bo_names b)" "bo_access bs" "bo_put bs" "bo_inv bs d" d
  for bs :: nat and d :: 'c
proof (unfold_locales, goal_cases)
  case (1 s n) then show ?case by (rule bo_get_inv)
next
  case (2 s n i c) then show ?case by (auto intro: bo_put_inv bo_ids(1))
next
  case (3 s n) then show ?case by (rule bo_get_lookup)
next
  case (4 s n i) then show ?case by (rule bo_get_known)
next
  case (5 s n i m) then show ?case by (rule bo_ids(2))
next
  case (6 s n i) then show ?case by (auto intro: bo_access_known bo_ids(1))
next
  case (7 s m i n) then show ?case by (auto intro: bo_get_access_old bo_ids(1))
next
  case (8 s n) then show ?case by (rule bo_get_access_new)
next
  case (9 s n i j c) then show ?case by (blast intro: bo_access_put bo_ids(1))
next
  case (10 i c s) then show ?case by (simp add: bo_put_def)
qed

end
