(* ===== verification/Monitoring.thy ===== *)
theory Monitoring
  imports BucketsOf
begin

text \<open>
  \<^verbatim>\<open>monitoring/src/cpp/lib\<close>: the process-wide table of named 64-bit counters and gauges. The state is
  the static pointer \<^verbatim>\<open>Monitoring::inner\<close> (null until first used) to a \<open>BucketsOf\<close> table with buckets
  of 256 atomics; a \<open>Counter\<close> or \<open>Gauge\<close> object is the number of its name in that table.
\<close>

type_synonym monitoring_inner = "(u64, string) buckets_of"
type_synonym monitoring = "monitoring_inner option"
type_synonym counter = nat

definition mon_bucket :: nat where
  "mon_bucket = 256"

definition mon_construct :: "(monitoring, unit) prog" where
  "mon_construct = pmodify (\<lambda>s. case s of None \<Rightarrow> Some bo_empty | Some t \<Rightarrow> Some t)"

definition mon_find :: "string \<Rightarrow> (monitoring, nat) prog" where
  "mon_find name = (\<lambda>s.
     let t = (case s of None \<Rightarrow> bo_empty | Some t \<Rightarrow> t);
         (x, t') = bo_get mon_bucket 0 name t
     in (Inr x, Some t'))"

text \<open>
  \<^verbatim>\<open>inner -> access(id)\<close> read and written back: the operand of \<^verbatim>\<open>+=\<close>, \<^verbatim>\<open>-=\<close> and \<^verbatim>\<open>=\<close>. Using a null
  \<^verbatim>\<open>inner\<close> or a number outside the table is undefined.
\<close>

definition mon_access :: "nat \<Rightarrow> (monitoring, u64) prog" where
  "mon_access i = (\<lambda>s. case s of
     None \<Rightarrow> (Inl Undefined, s)
   | Some t \<Rightarrow> (case bo_access mon_bucket i t of None \<Rightarrow> (Inl Undefined, s) | Some v \<Rightarrow> (Inr v, s)))"

definition mon_store :: "nat \<Rightarrow> u64 \<Rightarrow> (monitoring, unit) prog" where
  "mon_store i v = pmodify (map_option (bo_put mon_bucket i v))"

definition mon_add :: "nat \<Rightarrow> u64 \<Rightarrow> (monitoring, unit) prog" where
  "mon_add i delta = pbind (mon_access i) (\<lambda>v. mon_store i (v + delta))"

definition mon_set :: "nat \<Rightarrow> u64 \<Rightarrow> (monitoring, unit) prog" where
  "mon_set i delta = pbind (mon_access i) (\<lambda>v. mon_store i delta)"

definition mon_sub :: "nat \<Rightarrow> u64 \<Rightarrow> (monitoring, unit) prog" where
  "mon_sub i delta = pbind (mon_access i) (\<lambda>v. mon_store i (v - delta))"

definition mon_max :: "nat \<Rightarrow> u64 \<Rightarrow> (monitoring, unit) prog" where
  "mon_max i v = pret ()"

definition mon_get :: "nat \<Rightarrow> (monitoring, u64) prog" where
  "mon_get i = mon_access i"

text \<open>\<^verbatim>\<open>report\<close> calls its argument on every (name, value) pair: the model returns the pairs in call order.\<close>

fun mon_report_names :: "(string \<times> nat) list \<Rightarrow> (monitoring, (string \<times> u64) list) prog" where
  "mon_report_names [] = pret []"
| "mon_report_names ((n, i) # ns) =
     pbind (mon_access i) (\<lambda>v. pbind (mon_report_names ns) (\<lambda>r. pret ((n, v) # r)))"

definition mon_report :: "(monitoring, (string \<times> u64) list) prog" where
  "mon_report = (\<lambda>s. case s of None \<Rightarrow> (Inl Undefined, s) | Some t \<Rightarrow> mon_report_names (bo_getNames t) s)"

subsection \<open>\<^verbatim>\<open>Counter\<close> and \<^verbatim>\<open>Gauge\<close>\<close>

definition counter_new :: "string \<Rightarrow> (monitoring, counter) prog" where
  "counter_new name = mon_find name"

definition counter_add :: "counter \<Rightarrow> u64 \<Rightarrow> (monitoring, unit) prog" where
  "counter_add c x = mon_add c x"

definition counter_incr :: "counter \<Rightarrow> (monitoring, unit) prog" where
  "counter_incr c = mon_add c 1"

definition gauge_new :: "string \<Rightarrow> (monitoring, counter) prog" where
  "gauge_new name = mon_find name"

definition gauge_set :: "counter \<Rightarrow> u64 \<Rightarrow> (monitoring, unit) prog" where
  "gauge_set g x = mon_set g x"

definition gauge_incr :: "counter \<Rightarrow> (monitoring, unit) prog" where
  "gauge_incr g = mon_add g 1"

definition gauge_decr :: "counter \<Rightarrow> (monitoring, unit) prog" where
  "gauge_decr g = mon_sub g 1"

definition gauge_add :: "counter \<Rightarrow> u64 \<Rightarrow> (monitoring, unit) prog" where
  "gauge_add g x = mon_add g x"

definition gauge_sub :: "counter \<Rightarrow> u64 \<Rightarrow> (monitoring, unit) prog" where
  "gauge_sub g x = mon_sub g x"

definition gauge_get :: "counter \<Rightarrow> (monitoring, u64) prog" where
  "gauge_get g = mon_get g"

definition gauge_max :: "counter \<Rightarrow> u64 \<Rightarrow> (monitoring, unit) prog" where
  "gauge_max g x = mon_max g x"

text \<open>\<^verbatim>\<open>Counter("name")++\<close>, the form in which the rest of the program counts events.\<close>

definition count_event :: "string \<Rightarrow> (monitoring, unit) prog" where
  "count_event name = pbind (counter_new name) counter_incr"

subsection \<open>Invariant and readings\<close>

definition mon_inv :: "monitoring \<Rightarrow> bool" where
  "mon_inv s \<longleftrightarrow> (case s of None \<Rightarrow> True | Some t \<Rightarrow> bo_inv mon_bucket 0 t)"

definition mon_value :: "monitoring \<Rightarrow> string \<Rightarrow> u64 option" where
  "mon_value s name =
     (case s of None \<Rightarrow> None
      | Some t \<Rightarrow> (case map_of (bo_names t) name of None \<Rightarrow> None | Some i \<Rightarrow> bo_access mon_bucket i t))"

definition mon_table :: "monitoring \<Rightarrow> monitoring_inner" where
  "mon_table s = (case s of None \<Rightarrow> bo_empty | Some t \<Rightarrow> t)"

lemma mon_table_inv: "mon_inv s \<Longrightarrow> bo_inv mon_bucket 0 (mon_table s)"
  by (auto simp: mon_inv_def mon_table_def mon_bucket_def bo_inv_empty split: option.splits)

lemma mon_value_table:
  "mon_value s name = (case map_of (bo_names (mon_table s)) name of None \<Rightarrow> None
                       | Some i \<Rightarrow> bo_access mon_bucket i (mon_table s))"
  by (auto simp: mon_value_def mon_table_def bo_empty_def split: option.splits)

lemma mon_find_eq:
  "mon_find name s = (Inr (fst (bo_get mon_bucket 0 name (mon_table s))),
                      Some (snd (bo_get mon_bucket 0 name (mon_table s))))"
  by (simp add: mon_find_def mon_table_def split: prod.splits)

lemma mon_find_inv [inv_intros]: "preserves mon_inv (mon_find name)"
  by (intro preservesI) (simp add: mon_find_eq mon_inv_def bo.inv_get mon_table_inv)

lemma mon_find_value:
  assumes "mon_inv s"
  shows "mon_value (snd (mon_find name s)) m =
           (if m = name then Some (case mon_value s name of None \<Rightarrow> 0 | Some v \<Rightarrow> v) else mon_value s m)"
proof -
  let ?t = "mon_table s" and ?t' = "snd (bo_get mon_bucket 0 name (mon_table s))"
  note I = mon_table_inv [OF assms]
  have look: "map_of (bo_names ?t') = (map_of (bo_names ?t))(name \<mapsto> fst (bo_get mon_bucket 0 name ?t))"
    by (rule bo.lookup_get [OF I])
  have val': "mon_value (snd (mon_find name s)) m =
      (case map_of (bo_names ?t') m of None \<Rightarrow> None | Some i \<Rightarrow> bo_access mon_bucket i ?t')"
    by (simp add: mon_value_def mon_find_eq)
  show ?thesis
  proof (cases "m = name")
    case True
    show ?thesis
    proof (cases "map_of (bo_names ?t) name")
      case None
      with True look bo.access_get_new [OF I None] show ?thesis
        unfolding val' mon_value_table [of s] by simp
    next
      case (Some i)
      with bo.access_lookup [OF I Some] True look show ?thesis
        unfolding val' mon_value_table [of s] by (auto simp: bo.get_known [OF Some])
    qed
  next
    case False
    show ?thesis
    proof (cases "map_of (bo_names ?t) m")
      case None
      with False look show ?thesis
        unfolding val' mon_value_table [of s] by simp
    next
      case (Some i)
      with False look bo.access_get_old [OF I Some, of name] show ?thesis
        unfolding val' mon_value_table [of s] by simp
    qed
  qed
qed

lemma mon_find_lookup:
  assumes "mon_inv s"
  obtains i t v where "mon_find name s = (Inr i, Some t)" "bo_inv mon_bucket 0 t"
    "map_of (bo_names t) name = Some i" "bo_access mon_bucket i t = Some v"
    "mon_value (Some t) name = Some v"
proof -
  let ?t' = "snd (bo_get mon_bucket 0 name (mon_table s))"
  note I = mon_table_inv [OF assms]
  have inv: "bo_inv mon_bucket 0 ?t'" by (rule bo.inv_get [OF I])
  have look: "map_of (bo_names ?t') name = Some (fst (bo_get mon_bucket 0 name (mon_table s)))"
    by (simp add: bo.lookup_get [OF I])
  obtain v where v: "bo_access mon_bucket (fst (bo_get mon_bucket 0 name (mon_table s))) ?t' = Some v"
    using bo.access_lookup [OF inv look] by blast
  show thesis
    by (rule that [OF mon_find_eq inv look v]) (simp add: mon_value_def look v)
qed

lemma mon_update_value:
  assumes inv: "bo_inv mon_bucket 0 t" and look: "map_of (bo_names t) name = Some i"
  shows "mon_value (Some (bo_put mon_bucket i w t)) m =
           (if m = name then Some w else mon_value (Some t) m)"
    and "mon_inv (Some (bo_put mon_bucket i w t))"
proof -
  show "mon_value (Some (bo_put mon_bucket i w t)) m =
           (if m = name then Some w else mon_value (Some t) m)"
  proof (cases "m = name")
    case True
    then show ?thesis
      by (simp add: mon_value_def bo.lookup_put look bo.update_self [OF inv look])
  next
    case False
    show ?thesis
    proof (cases "map_of (bo_names t) m")
      case None
      with False show ?thesis by (simp add: mon_value_def bo.lookup_put)
    next
      case (Some j)
      with False show ?thesis
        by (simp add: mon_value_def bo.lookup_put bo.update_frame [OF inv look Some False])
    qed
  qed
  show "mon_inv (Some (bo_put mon_bucket i w t))"
    by (simp add: mon_inv_def bo.inv_put [OF inv look])
qed

text \<open>The value a name reads as when a \<open>Counter\<close> or \<open>Gauge\<close> of that name is next constructed.\<close>

definition mon_reading :: "monitoring \<Rightarrow> string \<Rightarrow> u64" where
  "mon_reading s name = (case mon_value s name of None \<Rightarrow> 0 | Some v \<Rightarrow> v)"

lemma mon_find_reading [simp]:
  "mon_inv s \<Longrightarrow> mon_reading (snd (mon_find name s)) m = mon_reading s m"
  by (simp add: mon_reading_def mon_find_value)

text \<open>Constructing an instrument and updating it: shared by every kind of update.\<close>

lemma mon_find_then_store:
  assumes "mon_inv s"
  shows "pbind (mon_find name) (\<lambda>i. pbind (mon_access i) (\<lambda>v. mon_store i (f v))) s
           = (Inr (), snd (pbind (mon_find name) (\<lambda>i. pbind (mon_access i) (\<lambda>v. mon_store i (f v))) s))"
    and "mon_inv (snd (pbind (mon_find name) (\<lambda>i. pbind (mon_access i) (\<lambda>v. mon_store i (f v))) s))"
    and "mon_reading (snd (pbind (mon_find name) (\<lambda>i. pbind (mon_access i) (\<lambda>v. mon_store i (f v))) s)) m
           = (if m = name then f (mon_reading s name) else mon_reading s m)"
proof -
  obtain i t v where f: "mon_find name s = (Inr i, Some t)" and I: "bo_inv mon_bucket 0 t"
    and l: "map_of (bo_names t) name = Some i" and a: "bo_access mon_bucket i t = Some v"
    and w: "mon_value (Some t) name = Some v"
    by (rule mon_find_lookup [OF assms])
  have eq: "pbind (mon_find name) (\<lambda>i. pbind (mon_access i) (\<lambda>v. mon_store i (f v))) s
          = (Inr (), Some (bo_put mon_bucket i (f v) t))"
    using f by (simp add: pbind_apply mon_access_def a mon_store_def)
  have r: "mon_reading (Some t) m = mon_reading s m" for m
    using mon_find_reading [OF assms, of name m] f by simp
  have v: "v = mon_reading s name"
    using r [of name] w by (simp add: mon_reading_def)
  show "pbind (mon_find name) (\<lambda>i. pbind (mon_access i) (\<lambda>v. mon_store i (f v))) s
           = (Inr (), snd (pbind (mon_find name) (\<lambda>i. pbind (mon_access i) (\<lambda>v. mon_store i (f v))) s))"
    by (simp add: eq)
  show "mon_inv (snd (pbind (mon_find name) (\<lambda>i. pbind (mon_access i) (\<lambda>v. mon_store i (f v))) s))"
    by (simp add: eq mon_update_value(2) [OF I l])
  show "mon_reading (snd (pbind (mon_find name) (\<lambda>i. pbind (mon_access i) (\<lambda>v. mon_store i (f v))) s)) m
           = (if m = name then f (mon_reading s name) else mon_reading s m)"
    using r [of m] by (simp add: eq mon_reading_def mon_update_value(1) [OF I l] v)
qed

lemma count_event_alt:
  "count_event name = pbind (mon_find name) (\<lambda>i. pbind (mon_access i) (\<lambda>v. mon_store i (v + 1)))"
proof -
  have "counter_incr = (\<lambda>i. pbind (mon_access i) (\<lambda>v. mon_store i (v + 1)))"
    by (rule ext) (simp add: counter_incr_def mon_add_def)
  then show ?thesis
    by (simp add: count_event_def counter_new_def)
qed

fun count_events :: "string list \<Rightarrow> (monitoring, unit) prog" where
  "count_events [] = pret ()"
| "count_events (n # ns) = pthen (count_event n) (count_events ns)"

lemma count_event_props:
  assumes "mon_inv s"
  shows "fst (count_event n s) = Inr ()" "mon_inv (snd (count_event n s))"
    "mon_reading (snd (count_event n s)) m = mon_reading s m + (if m = n then 1 else 0)"
proof -
  note P = mon_find_then_store [OF assms, of n "\<lambda>v. v + 1", folded count_event_alt]
  show "fst (count_event n s) = Inr ()"
    by (subst P(1)) simp
  show "mon_inv (snd (count_event n s))"
    by (rule P(2))
  show "mon_reading (snd (count_event n s)) m = mon_reading s m + (if m = n then 1 else 0)"
    by (simp add: P(3))
qed

text \<open>
  Counters never interfere and never lose an event: whatever events are counted, in whatever
  order and starting from any consistent table (the still unallocated one included), every name reads
  as its old value plus the number of events of that name, modulo 2^64, and no event raises.
\<close>

lemma counters_count:
  assumes "mon_inv s"
  shows "fst (count_events ns s) = Inr () \<and>
         mon_reading (snd (count_events ns s)) name = mon_reading s name + of_nat (count_list ns name)"
  using assms
proof (induction ns arbitrary: s)
  case Nil
  then show ?case by simp
next
  case (Cons n ns)
  note P = count_event_props [OF Cons.prems, where n = n]
  have "count_events (n # ns) s = count_events ns (snd (count_event n s))"
    using P(1) by (cases "count_event n s") simp
  with Cons.IH [OF P(2)] P(3) show ?case by simp
qed

lemma counters_count_example:
  "fst (count_events [''a'', ''b'', ''a''] None) = Inr () \<and>
   mon_reading (snd (count_events [''a'', ''b'', ''a''] None)) ''a'' = 2"
  using counters_count [of None "[''a'', ''b'', ''a'']" "''a''"]
  by (simp add: mon_inv_def mon_reading_def mon_value_def)

end
