(* ===== verification/CxxStd.thy ===== *)
theory CxxStd
  imports Prelude
begin

text \<open>
  The parts of the C++ standard library that the sources use on strings and that several components
  share: \<^verbatim>\<open>std::stoi\<close>, \<^verbatim>\<open>std::to_string\<close>, \<^verbatim>\<open>substr\<close> and \<^verbatim>\<open>find_last_of\<close>.
\<close>

subsection \<open>Characters and decimal numbers\<close>

definition is_digit :: "char \<Rightarrow> bool" where
  "is_digit c \<longleftrightarrow> (48::nat) \<le> of_char c \<and> of_char c \<le> (57::nat)"

definition is_space :: "char \<Rightarrow> bool" where
  "is_space c \<longleftrightarrow> (of_char c :: nat) = 32 \<or> (9 \<le> (of_char c :: nat) \<and> (of_char c :: nat) \<le> 13)"

definition digit_value :: "char \<Rightarrow> nat" where
  "digit_value c = of_char c - 48"

definition digit_char :: "nat \<Rightarrow> char" where
  "digit_char n = char_of (48 + n)"

definition dec_value :: "string \<Rightarrow> nat" where
  "dec_value ds = foldl (\<lambda>v c. 10 * v + digit_value c) 0 ds"

fun nat_str :: "nat \<Rightarrow> string" where
  "nat_str n = (if n < 10 then [digit_char n] else nat_str (n div 10) @ [digit_char (n mod 10)])"

declare nat_str.simps [simp del]

definition int_str :: "int \<Rightarrow> string" where
  "int_str i = (if i < 0 then CHR ''-'' # nat_str (nat (- i)) else nat_str (nat i))"

text \<open>
  \<^verbatim>\<open>std::stoi\<close>: leading white space, an optional sign, the longest run of digits; what follows is
  ignored; nothing to convert and a value outside \<^verbatim>\<open>int\<close> are exceptions.
\<close>

definition std_stoi :: "string \<Rightarrow> exn + int" where
  "std_stoi s =
     (let s1 = dropWhile is_space s;
          neg = (s1 \<noteq> [] \<and> hd s1 = CHR ''-'');
          s2 = (if s1 \<noteq> [] \<and> (hd s1 = CHR ''-'' \<or> hd s1 = CHR ''+'') then tl s1 else s1);
          ds = takeWhile is_digit s2;
          v = (if neg then - int (dec_value ds) else int (dec_value ds))
      in if ds = [] then Inl (InvalidArgument ''stoi'')
         else if v < - (2 ^ 31) \<or> 2 ^ 31 \<le> v then Inl (OutOfRange ''stoi'')
         else Inr v)"

lemma digit_char_simps:
  "digit_char 0 = CHR ''0''" "digit_char (Suc 0) = CHR ''1''" "digit_char 1 = CHR ''1''"
  "digit_char 2 = CHR ''2''" "digit_char 3 = CHR ''3''" "digit_char 4 = CHR ''4''"
  "digit_char 5 = CHR ''5''" "digit_char 6 = CHR ''6''" "digit_char 7 = CHR ''7''"
  "digit_char 8 = CHR ''8''" "digit_char 9 = CHR ''9''"
  by code_simp+

lemma digit_char_props:
  assumes "n < 10"
  shows "is_digit (digit_char n)" "digit_value (digit_char n) = n" "\<not> is_space (digit_char n)"
    "digit_char n \<noteq> CHR ''-''" "digit_char n \<noteq> CHR ''+''"
proof -
  have c: "of_char (digit_char n) = 48 + n"
    using assms by (simp add: digit_char_def)
  show "is_digit (digit_char n)" "digit_value (digit_char n) = n" "\<not> is_space (digit_char n)"
    using assms by (simp_all add: is_digit_def digit_value_def is_space_def c)
  show "digit_char n \<noteq> CHR ''-''" "digit_char n \<noteq> CHR ''+''"
    using c by auto
qed

lemma dec_value_snoc [simp]: "dec_value (ds @ [c]) = 10 * dec_value ds + digit_value c"
  by (simp add: dec_value_def)

lemma nat_str_digits: "\<forall>c \<in> set (nat_str n). is_digit c"
  by (induction n rule: nat_str.induct) (subst nat_str.simps, auto simp: digit_char_props)

lemma nat_str_nonempty [simp]: "nat_str n \<noteq> []"
  by (subst nat_str.simps) simp

lemma dec_value_nat_str [simp]: "dec_value (nat_str n) = n"
proof (induction n rule: nat_str.induct)
  case (1 n)
  show ?case
  proof (cases "n < 10")
    case True
    then show ?thesis
      by (subst nat_str.simps) (simp add: dec_value_def digit_char_props)
  next
    case False
    then have "dec_value (nat_str n) = 10 * (n div 10) + n mod 10"
      by (subst nat_str.simps) (simp add: 1 digit_char_props)
    then show ?thesis by simp
  qed
qed

lemma digit_not_special:
  assumes "is_digit c" shows "\<not> is_space c" "c \<noteq> CHR ''-''" "c \<noteq> CHR ''+''" "c \<noteq> CHR '':''" "c \<noteq> CHR ''/''"
  using assms by (auto simp: is_digit_def is_space_def)

lemma takeWhile_append_stop:
  assumes "\<forall>c \<in> set ds. P c" "r = [] \<or> \<not> P (hd r)"
  shows "takeWhile P (ds @ r) = ds"
  using assms by (cases r) (auto simp: takeWhile_append)

lemma stoi_digits:
  assumes "ds \<noteq> []" "\<forall>c \<in> set ds. is_digit c" "r = [] \<or> \<not> is_digit (hd r)" "dec_value ds < 2 ^ 31"
  shows "std_stoi (ds @ r) = Inr (int (dec_value ds))"
proof -
  obtain d ds' where ds: "ds = d # ds'" "is_digit d"
    using assms(1,2) by (cases ds) auto
  have tw: "takeWhile is_digit (ds @ r) = ds"
    by (rule takeWhile_append_stop [OF assms(2,3)])
  have dw: "dropWhile is_space (ds @ r) = ds @ r"
    using ds by (simp add: digit_not_special)
  have hd: "hd (ds @ r) = d" using ds by simp
  have "int (dec_value ds) < 2 ^ 31" using assms(4) by simp
  then show ?thesis
    using assms(1) digit_not_special [OF ds(2)]
    by (simp add: std_stoi_def Let_def dw hd tw)
qed

lemma stoi_negative:
  assumes "ds \<noteq> []" "\<forall>c \<in> set ds. is_digit c" "r = [] \<or> \<not> is_digit (hd r)" "dec_value ds \<le> 2 ^ 31"
  shows "std_stoi (CHR ''-'' # ds @ r) = Inr (- int (dec_value ds))"
proof -
  have tw: "takeWhile is_digit (ds @ r) = ds"
    by (rule takeWhile_append_stop [OF assms(2,3)])
  have "int (dec_value ds) \<le> 2 ^ 31" using assms(4) by simp
  then show ?thesis
    using assms(1) by (simp add: std_stoi_def Let_def is_space_def tw)
qed

lemma stoi_plus:
  assumes "ds \<noteq> []" "\<forall>c \<in> set ds. is_digit c" "r = [] \<or> \<not> is_digit (hd r)" "dec_value ds < 2 ^ 31"
  shows "std_stoi (CHR ''+'' # ds @ r) = Inr (int (dec_value ds))"
proof -
  have tw: "takeWhile is_digit (ds @ r) = ds"
    by (rule takeWhile_append_stop [OF assms(2,3)])
  have "int (dec_value ds) < 2 ^ 31" using assms(4) by simp
  then show ?thesis
    using assms(1) by (simp add: std_stoi_def Let_def is_space_def tw)
qed

lemma stoi_int_str:
  assumes "- (2 ^ 31) \<le> i" "i < 2 ^ 31" "r = [] \<or> \<not> is_digit (hd r)"
  shows "std_stoi (int_str i @ r) = Inr i"
proof (cases "i < 0")
  case True
  have "dec_value (nat_str (nat (- i))) \<le> 2 ^ 31"
    using assms(1) by simp
  from stoi_negative [OF nat_str_nonempty nat_str_digits assms(3) this] True show ?thesis
    by (simp add: int_str_def)
next
  case False
  have "dec_value (nat_str (nat i)) < 2 ^ 31"
    using assms(2) False by simp
  from stoi_digits [OF nat_str_nonempty nat_str_digits assms(3) this] False show ?thesis
    by (simp add: int_str_def)
qed

lemma stoi_range: "std_stoi s = Inr v \<Longrightarrow> - (2 ^ 31) \<le> v \<and> v < 2 ^ 31"
  by (auto simp: std_stoi_def Let_def split: if_splits)

subsection \<open>Searching and cutting strings\<close>

text \<open>\<^verbatim>\<open>s.substr(pos, n)\<close>, which throws when \<^verbatim>\<open>pos\<close> is past the end.\<close>

definition std_substr :: "string \<Rightarrow> nat \<Rightarrow> nat \<Rightarrow> exn + string" where
  "std_substr s pos n =
     (if length s < pos then Inl (OutOfRange ''basic_string::substr'') else Inr (take n (drop pos s)))"

text \<open>\<^verbatim>\<open>s.find_last_of(c)\<close>, \<open>None\<close> for \<^verbatim>\<open>npos\<close>.\<close>

fun std_find_last_of :: "char \<Rightarrow> string \<Rightarrow> nat option" where
  "std_find_last_of c [] = None"
| "std_find_last_of c (x # xs) =
     (case std_find_last_of c xs of
        Some i \<Rightarrow> Some (Suc i)
      | None \<Rightarrow> (if x = c then Some 0 else None))"

lemma find_last_of_Some:
  "std_find_last_of c s = Some i \<Longrightarrow> i < length s \<and> s ! i = c"
  by (induction c s arbitrary: i rule: std_find_last_of.induct) (auto split: option.splits if_splits)

text \<open>
  \<^verbatim>\<open>while (std::getline(ss, item, delim)) out.push_back(item)\<close> on a string stream: the pieces between
  delimiters, without the piece after a trailing delimiter and none for the empty string.
\<close>

fun getline_split :: "char \<Rightarrow> string \<Rightarrow> string list" where
  "getline_split d [] = []"
| "getline_split d (c # cs) =
     (if c = d then [] # getline_split d cs
      else (case getline_split d cs of [] \<Rightarrow> [[c]] | p # ps \<Rightarrow> (c # p) # ps))"

lemma getline_split_nonempty: "s \<noteq> [] \<Longrightarrow> getline_split d s \<noteq> []"
  by (cases s) (auto split: list.splits)

lemma getline_split_piece:
  assumes "d \<notin> set p"
  shows "getline_split d (p @ d # r) = p # getline_split d r"
  using assms
proof (induction p)
  case (Cons c p)
  then show ?case by auto
qed simp

lemma getline_split_last:
  assumes "d \<notin> set p" "p \<noteq> []"
  shows "getline_split d p = [p]"
  using assms
proof (induction p)
  case (Cons c p)
  then show ?case by (cases p) auto
qed simp

end
