(* ===== verification/Karma.thy ===== *)
theory Karma
  imports BucketsOf CxxStd
begin

text \<open>
  \<^verbatim>\<open>mt-core/karma/src/cpp\<close>: what a connected agent may do is limited by an account of karma points.
  Every action has a textual effect in the configuration; \<open>KarmaPolicyBasic\<close> applies it to the
  account, refuses the action when the balance would be negative, and refills accounts with time. The
  policy's table of accounts is a \<open>BucketsOf\<close>; the global tick variables are part of the state.
\<close>

subsection \<open>Exceptions, accounts and the state of the policy\<close>

definition mk_XKarma :: "string \<Rightarrow> exn" where
  "mk_XKarma action = XKarma (''Karma limit reached attempting:'' @ action)"

definition mk_XDisconnect :: "string \<Rightarrow> exn" where
  "mk_XDisconnect reason = XDisconnect (''Disconnect because:'' @ reason)"

text \<open>The policy an account belongs to: no policy (a void account), \<open>KarmaPolicyNone\<close> or \<open>KarmaPolicyBasic\<close>.\<close>

datatype policy_ref = VoidPolicy | PolicyNone | PolicyBasic

record karma_account =
  ka_id :: nat
  ka_policy :: policy_ref
  ka_name :: string

record kp_account =
  acc_karma :: int
  acc_when :: u64

record karma_state =
  ks_accounts :: "(kp_account, string) buckets_of"
  ks_config :: "(string \<times> string) list"
  ks_tick_amounts :: u64
  ks_tick_counter :: u64

definition MAX_KARMA :: nat where
  "MAX_KARMA = 10000"

definition kp_bucket :: nat where
  "kp_bucket = 1024"

definition acc_init :: kp_account where
  "acc_init = \<lparr>acc_karma = int MAX_KARMA, acc_when = 0\<rparr>"

definition kp_new :: "(string \<times> string) list \<Rightarrow> karma_state" where
  "kp_new config =
     \<lparr>ks_accounts = snd (bo_get kp_bucket acc_init ''(null karma account)'' bo_empty),
      ks_config = foldl (\<lambda>m kv. omap_insert (fst kv) (snd kv) m) [] config,
      ks_tick_amounts = 0, ks_tick_counter = 0\<rparr>"

subsection \<open>\<^verbatim>\<open>KarmaPolicyBasic\<close>\<close>

text \<open>
  \<^verbatim>\<open>karma + diff * tick_amounts\<close> is unsigned 64-bit arithmetic: the signed balance is sign-extended.
  Run by one thread, the compare-and-exchange loop ends in its first round.
\<close>

definition acc_bringUpToDate :: "u64 \<Rightarrow> u64 \<Rightarrow> kp_account \<Rightarrow> kp_account" where
  "acc_bringUpToDate tick_amounts tc a =
     (let diff = tc - acc_when a;
          new_karma = min (unat (word_of_int (acc_karma a) + diff * tick_amounts)) MAX_KARMA
      in a\<lparr>acc_karma := int new_karma, acc_when := tc\<rparr>)"

definition kp_access :: "nat \<Rightarrow> (karma_state, kp_account) prog" where
  "kp_access i = (\<lambda>s. case bo_access kp_bucket i (ks_accounts s) of
     None \<Rightarrow> (Inl Undefined, s) | Some a \<Rightarrow> (Inr a, s))"

definition kp_store :: "nat \<Rightarrow> kp_account \<Rightarrow> (karma_state, unit) prog" where
  "kp_store i a = pmodify (\<lambda>s. s\<lparr>ks_accounts := bo_put kp_bucket i a (ks_accounts s)\<rparr>)"

definition kp_bringUpToDate :: "nat \<Rightarrow> (karma_state, unit) prog" where
  "kp_bringUpToDate i =
     pbind (kp_access i) (\<lambda>a. pbind (pget (\<lambda>s. acc_bringUpToDate (ks_tick_amounts s) (ks_tick_counter s) a))
       (\<lambda>a'. kp_store i a'))"

definition kp_getBalance :: "karma_account \<Rightarrow> (karma_state, string) prog" where
  "kp_getBalance acct = pbind (kp_access (ka_id acct)) (\<lambda>a.
     pret (''account='' @ ka_name acct @ ''  karma='' @ int_str (acc_karma a) @ ''/'' @ nat_str MAX_KARMA))"

definition kp_getAccountNumber :: "string \<Rightarrow> (karma_state, nat) prog" where
  "kp_getAccountNumber n = (\<lambda>s.
     let (i, t) = bo_get kp_bucket acc_init n (ks_accounts s) in (Inr i, s\<lparr>ks_accounts := t\<rparr>))"

definition kp_getAccount :: "string \<Rightarrow> string \<Rightarrow> (karma_state, karma_account) prog" where
  "kp_getAccount pubkey ip =
     (if 0 < length pubkey then
        pbind (kp_getAccountNumber pubkey) (\<lambda>i. pret \<lparr>ka_id = i, ka_policy = PolicyBasic, ka_name = pubkey\<rparr>)
      else if 0 < length ip then
        pbind (kp_getAccountNumber ip) (\<lambda>i. pret \<lparr>ka_id = i, ka_policy = PolicyBasic, ka_name = ip\<rparr>)
      else pret \<lparr>ka_id = 0, ka_policy = PolicyBasic, ka_name = ''DEFAULT_KARMA_ACCOUNT''\<rparr>)"

text \<open>\<^verbatim>\<open>upgrade\<close> replaces the caller's account; the model returns the new value of that account.\<close>

definition kp_upgrade :: "karma_account \<Rightarrow> string \<Rightarrow> string \<Rightarrow> (karma_state, karma_account) prog" where
  "kp_upgrade account pubkey ip = kp_getAccount pubkey ip"

function tokenise :: "char \<Rightarrow> string \<Rightarrow> string list" where
  "tokenise delim s =
     (let s' = dropWhile (\<lambda>c. c = delim) s
      in if s' = [] then []
         else takeWhile (\<lambda>c. c \<noteq> delim) s' # tokenise delim (dropWhile (\<lambda>c. c \<noteq> delim) s'))"
  by pat_completeness auto

lemma dropWhile_shorter: "s \<noteq> [] \<Longrightarrow> P (hd s) \<Longrightarrow> length (dropWhile P s) < length s"
  by (cases s) (auto simp: less_Suc_eq_le length_dropWhile_le)

termination tokenise
proof (relation "measure (length \<circ> snd)", goal_cases)
  case 1
  then show ?case by simp
next
  case (2 delim s s')
  have "hd s' \<noteq> delim"
    using 2 hd_dropWhile [of "\<lambda>c. c = delim" s] by auto
  then have "length (dropWhile (\<lambda>c. c \<noteq> delim) s') < length s'"
    using 2 by (intro dropWhile_shorter) auto
  moreover have "length s' \<le> length s"
    using 2(1) by (simp add: length_dropWhile_le)
  ultimately show ?case by simp
qed

declare tokenise.simps [simp del]

definition kp_getPolicy :: "(string \<times> string) list \<Rightarrow> string \<Rightarrow> string" where
  "kp_getPolicy config action =
     (case map_of config action of
        Some p \<Rightarrow> p
      | None \<Rightarrow> (case map_of config ''*'' of Some p \<Rightarrow> p | None \<Rightarrow> ''0''))"

definition kp_getPolicies :: "(string \<times> string) list \<Rightarrow> string \<Rightarrow> string list" where
  "kp_getPolicies config action =
     (let actions = tokenise (CHR '','') action;
          actions = (if actions = [] then [''*''] else actions)
      in map (kp_getPolicy config) actions)"

definition kp_getLessSpecificAction :: "string \<Rightarrow> string" where
  "kp_getLessSpecificAction action =
     (if action = ''*'' then action
      else case std_find_last_of (CHR ''.'') action of
             None \<Rightarrow> ''*''
           | Some r \<Rightarrow> if r = 0 then ''*'' else take (r - 1) action)"

text \<open>\<^verbatim>\<open>currentBalance + delta\<close> on \<^verbatim>\<open>int32_t\<close>: signed overflow is undefined.\<close>

definition i32_add :: "int \<Rightarrow> int \<Rightarrow> exn + int" where
  "i32_add a b = (if - (2 ^ 31) \<le> a + b \<and> a + b < 2 ^ 31 then Inr (a + b) else Inl Undefined)"

definition kp_parseEffect :: "int \<Rightarrow> string \<Rightarrow> exn + int" where
  "kp_parseEffect currentBalance effect =
     (if effect = [] then Inr currentBalance
      else if hd effect = CHR ''X'' then Inl (mk_XDisconnect ''Disconnect due to Karma policy'')
      else if is_digit (hd effect) \<or> hd effect = CHR ''+'' \<or> hd effect = CHR ''-''
        then ebind (std_stoi effect) (\<lambda>delta. i32_add currentBalance delta)
      else if hd effect = CHR ''='' then std_stoi (tl effect)
      else Inr currentBalance)"

fun kp_worst :: "int \<Rightarrow> int \<Rightarrow> string list \<Rightarrow> exn + int" where
  "kp_worst currentBalance worst [] = Inr worst"
| "kp_worst currentBalance worst (p # ps) =
     ebind (kp_parseEffect currentBalance p)
       (\<lambda>r. kp_worst currentBalance (if r < worst then r else worst) ps)"

definition kp_afterwards :: "(string \<times> string) list \<Rightarrow> int \<Rightarrow> string \<Rightarrow> exn + int" where
  "kp_afterwards config currentBalance actions =
     (case kp_worst currentBalance currentBalance (kp_getPolicies config actions) of
        Inl (XKarma x) \<Rightarrow> Inl (mk_XKarma (''actions:'' @ actions @ '' result in disconnect due to Karma policy''))
      | r \<Rightarrow> r)"

definition kp_refreshCycle :: "(karma_state, unit) prog" where
  "kp_refreshCycle =
     pbind (pget (\<lambda>s. kp_parseEffect 0 (hd (kp_getPolicies (ks_config s) ''refresh'')))) (\<lambda>r.
     pbind (plift r) (\<lambda>a.
     pmodify (\<lambda>s. s\<lparr>ks_tick_amounts := word_of_int a, ks_tick_counter := ks_tick_counter s + 1\<rparr>)))"

definition kp_perform :: "karma_account \<Rightarrow> string \<Rightarrow> bool \<Rightarrow> (karma_state, bool) prog" where
  "kp_perform identifier event force =
     pthen (kp_bringUpToDate (ka_id identifier))
     (pbind (kp_access (ka_id identifier)) (\<lambda>a.
      pbind (pget (\<lambda>s. kp_afterwards (ks_config s) (acc_karma a) event)) (\<lambda>r.
      pbind (plift r) (\<lambda>next.
        if 0 \<le> next \<or> force
        then pthen (kp_store (ka_id identifier) (a\<lparr>acc_karma := next\<rparr>)) (pret True)
        else pthrow (mk_XKarma event)))))"

definition kp_couldPerform :: "karma_account \<Rightarrow> string \<Rightarrow> (karma_state, bool) prog" where
  "kp_couldPerform identifier action =
     pthen (kp_bringUpToDate (ka_id identifier))
     (pbind (kp_access (ka_id identifier)) (\<lambda>a.
      pbind (pget (\<lambda>s. kp_afterwards (ks_config s) (acc_karma a) (kp_getPolicy (ks_config s) action))) (\<lambda>r.
      pbind (plift r) (\<lambda>next. pret (0 \<le> next)))))"

subsection \<open>\<^verbatim>\<open>KarmaAccount\<close> and \<^verbatim>\<open>KarmaPolicyNone\<close>\<close>

definition kpn_getAccount :: "string \<Rightarrow> string \<Rightarrow> (karma_state, karma_account) prog" where
  "kpn_getAccount pubkey ip = pret \<lparr>ka_id = 0, ka_policy = PolicyNone, ka_name = ''NO_KARMA_POLICY''\<rparr>"

definition kpn_perform :: "karma_account \<Rightarrow> string \<Rightarrow> bool \<Rightarrow> (karma_state, bool) prog" where
  "kpn_perform identifier action force = pret True"

text \<open>The account's own \<^verbatim>\<open>force\<close> argument is not passed on to the policy.\<close>

definition ka_perform :: "karma_account \<Rightarrow> string \<Rightarrow> bool \<Rightarrow> (karma_state, bool) prog" where
  "ka_perform a action force = (case ka_policy a of
     VoidPolicy \<Rightarrow> pret False
   | PolicyNone \<Rightarrow> kpn_perform a action False
   | PolicyBasic \<Rightarrow> kp_perform a action False)"

definition ka_couldPerform :: "karma_account \<Rightarrow> string \<Rightarrow> (karma_state, bool) prog" where
  "ka_couldPerform a action = (case ka_policy a of
     VoidPolicy \<Rightarrow> pret False
   | PolicyNone \<Rightarrow> pret True
   | PolicyBasic \<Rightarrow> kp_couldPerform a action)"

text \<open>\<open>KarmaPolicyNone\<close> inherits the empty \<^verbatim>\<open>upgrade\<close> of \<open>IKarmaPolicy\<close>; a void account calls through null.\<close>

definition ka_upgrade :: "karma_account \<Rightarrow> string \<Rightarrow> string \<Rightarrow> (karma_state, karma_account) prog" where
  "ka_upgrade a pubkey ip = (case ka_policy a of
     VoidPolicy \<Rightarrow> pthrow Undefined
   | PolicyNone \<Rightarrow> pret a
   | PolicyBasic \<Rightarrow> kp_upgrade a pubkey ip)"

definition ka_getBalance :: "karma_account \<Rightarrow> (karma_state, string) prog" where
  "ka_getBalance a = (case ka_policy a of
     VoidPolicy \<Rightarrow> pthrow Undefined
   | PolicyNone \<Rightarrow> pret ''ACCEPT ALL''
   | PolicyBasic \<Rightarrow> kp_getBalance a)"

definition ka_compare :: "karma_account \<Rightarrow> karma_account \<Rightarrow> exn + int" where
  "ka_compare a b =
     (if ka_policy a \<noteq> ka_policy b
      then Inl (LogicError ''KarmaAccounts are not comparable between policies.'')
      else if ka_id b < ka_id a then Inr 1
      else if ka_id a < ka_id b then Inr (- 1)
      else Inr 0)"

definition ka_eq :: "karma_account \<Rightarrow> karma_account \<Rightarrow> exn + bool" where
  "ka_eq a b = ebind (ka_compare a b) (\<lambda>c. Inr (c = 0))"

definition ka_less :: "karma_account \<Rightarrow> karma_account \<Rightarrow> exn + bool" where
  "ka_less a b = ebind (ka_compare a b) (\<lambda>c. Inr (c = - 1))"

text \<open>The constructors: an account without a policy, the null account of a policy, a full one, and a copy.\<close>

definition ka_void :: karma_account where
  "ka_void = \<lparr>ka_id = 0, ka_policy = VoidPolicy, ka_name = []\<rparr>"

definition ka_null :: "policy_ref \<Rightarrow> karma_account" where
  "ka_null p = \<lparr>ka_id = 0, ka_policy = p, ka_name = ''NULL_KARMA_ACCOUNT''\<rparr>"

definition ka_make :: "nat \<Rightarrow> policy_ref \<Rightarrow> string \<Rightarrow> karma_account" where
  "ka_make i p name = \<lparr>ka_id = i, ka_policy = p, ka_name = name\<rparr>"

definition ka_copy :: "karma_account \<Rightarrow> karma_account \<Rightarrow> karma_account" where
  "ka_copy a other = a\<lparr>ka_id := ka_id other, ka_policy := ka_policy other, ka_name := ka_name other\<rparr>"

text \<open>Accounts of one policy are ordered by their numbers, so two copies are never told apart.\<close>

lemma ka_order:
  assumes "ka_policy a = ka_policy b"
  shows "ka_less a b = Inr (ka_id a < ka_id b)" "ka_eq a b = Inr (ka_id a = ka_id b)" "ka_eq (ka_copy c a) a = Inr True"
  using assms by (simp_all add: ka_less_def ka_eq_def ka_compare_def ka_copy_def)

definition ka_swap :: "karma_account \<Rightarrow> karma_account \<Rightarrow> exn + karma_account \<times> karma_account" where
  "ka_swap a b =
     (if ka_policy a \<noteq> ka_policy b
      then Inl (LogicError ''KarmaAccounts are not swappable between policies.'')
      else Inr (a\<lparr>ka_id := ka_id b, ka_name := ka_name b\<rparr>, b\<lparr>ka_id := ka_id a, ka_name := ka_name a\<rparr>))"

subsection \<open>Invariant\<close>

text \<open>
  The table is well formed, account 0 (the null account) exists and every balance is between 0 and
  \<open>MAX_KARMA\<close>. \<open>kp_valid s i\<close>: \<open>i\<close> is the number of some account.
\<close>

definition kp_valid :: "karma_state \<Rightarrow> nat \<Rightarrow> bool" where
  "kp_valid s i \<longleftrightarrow> i \<in> ran (map_of (bo_names (ks_accounts s)))"

definition kp_inv :: "karma_state \<Rightarrow> bool" where
  "kp_inv s \<longleftrightarrow>
     bo_inv kp_bucket acc_init (ks_accounts s) \<and> kp_valid s 0 \<and>
     (\<forall>i a. kp_valid s i \<longrightarrow> bo_access kp_bucket i (ks_accounts s) = Some a \<longrightarrow>
            0 \<le> acc_karma a \<and> acc_karma a \<le> int MAX_KARMA)"

lemma kp_validE:
  assumes "kp_valid s i"
  obtains n where "map_of (bo_names (ks_accounts s)) n = Some i"
  using assms by (auto simp: kp_valid_def ran_def)

lemma kp_inv_access:
  assumes "kp_inv s" "kp_valid s i"
  obtains a where "kp_access i s = (Inr a, s)" "bo_access kp_bucket i (ks_accounts s) = Some a"
    "0 \<le> acc_karma a" "acc_karma a \<le> int MAX_KARMA"
proof -
  from assms(2) obtain n where "map_of (bo_names (ks_accounts s)) n = Some i" by (rule kp_validE)
  with assms(1) obtain a where "bo_access kp_bucket i (ks_accounts s) = Some a"
    unfolding kp_inv_def by (blast dest: bo.access_lookup)
  then show thesis
    using assms that by (auto simp: kp_access_def kp_inv_def)
qed

lemma bringUpToDate_bounds:
  "0 \<le> acc_karma (acc_bringUpToDate t tc a)" "acc_karma (acc_bringUpToDate t tc a) \<le> int MAX_KARMA"
  by (simp_all add: acc_bringUpToDate_def Let_def MAX_KARMA_def)

text \<open>Storing an in-range account at a valid number keeps the invariant and the set of valid numbers.\<close>

lemma kp_store_props:
  assumes "kp_inv s" "kp_valid s i" "0 \<le> acc_karma a" "acc_karma a \<le> int MAX_KARMA"
  shows "kp_inv (s\<lparr>ks_accounts := bo_put kp_bucket i a (ks_accounts s)\<rparr>)"
    and "kp_valid (s\<lparr>ks_accounts := bo_put kp_bucket i a (ks_accounts s)\<rparr>) j = kp_valid s j"
    and "bo_access kp_bucket j (bo_put kp_bucket i a (ks_accounts s)) =
         (if j = i then Some a else bo_access kp_bucket j (ks_accounts s))"
proof -
  obtain n where n: "map_of (bo_names (ks_accounts s)) n = Some i"
    using assms(2) by (rule kp_validE)
  have I: "bo_inv kp_bucket acc_init (ks_accounts s)"
    using assms(1) by (simp add: kp_inv_def)
  show v: "kp_valid (s\<lparr>ks_accounts := bo_put kp_bucket i a (ks_accounts s)\<rparr>) j = kp_valid s j" for j
    by (simp add: kp_valid_def bo.lookup_put)
  show acc: "bo_access kp_bucket j (bo_put kp_bucket i a (ks_accounts s)) =
         (if j = i then Some a else bo_access kp_bucket j (ks_accounts s))" for j
    by (rule bo.access_put [OF I n])
  show "kp_inv (s\<lparr>ks_accounts := bo_put kp_bucket i a (ks_accounts s)\<rparr>)"
    using assms unfolding kp_inv_def v by (auto simp: acc bo.inv_put [OF I n])
qed

lemma kp_bringUpToDate_eq:
  assumes "kp_inv s" "kp_valid s i"
  obtains a where "bo_access kp_bucket i (ks_accounts s) = Some a"
    and "kp_bringUpToDate i s = (Inr (), s\<lparr>ks_accounts := bo_put kp_bucket i
           (acc_bringUpToDate (ks_tick_amounts s) (ks_tick_counter s) a) (ks_accounts s)\<rparr>)"
proof -
  obtain a where "kp_access i s = (Inr a, s)" "bo_access kp_bucket i (ks_accounts s) = Some a"
    using assms by (rule kp_inv_access)
  then show thesis
    by (intro that) (auto simp: kp_bringUpToDate_def pbind_apply kp_store_def)
qed

lemma kp_getAccountNumber_props:
  fixes n :: string
  assumes "kp_inv s"
  defines "r \<equiv> kp_getAccountNumber n s"
  shows "fst r = Inr (fst (bo_get kp_bucket acc_init n (ks_accounts s)))"
    and "kp_inv (snd r)" and "kp_valid (snd r) (fst (bo_get kp_bucket acc_init n (ks_accounts s)))"
    and "kp_valid s j \<Longrightarrow> kp_valid (snd r) j"
    and "map_of (bo_names (ks_accounts (snd r))) =
         (map_of (bo_names (ks_accounts s)))(n \<mapsto> fst (bo_get kp_bucket acc_init n (ks_accounts s)))"
    and "ks_config (snd r) = ks_config s" "ks_tick_amounts (snd r) = ks_tick_amounts s"
        "ks_tick_counter (snd r) = ks_tick_counter s"
proof -
  have I: "bo_inv kp_bucket acc_init (ks_accounts s)"
    using assms by (simp add: kp_inv_def)
  let ?t = "snd (bo_get kp_bucket acc_init n (ks_accounts s))"
  have r: "r = (Inr (fst (bo_get kp_bucket acc_init n (ks_accounts s))), s\<lparr>ks_accounts := ?t\<rparr>)"
    by (simp add: r_def kp_getAccountNumber_def split: prod.splits)
  show "fst r = Inr (fst (bo_get kp_bucket acc_init n (ks_accounts s)))"
    "ks_config (snd r) = ks_config s" "ks_tick_amounts (snd r) = ks_tick_amounts s"
    "ks_tick_counter (snd r) = ks_tick_counter s"
    by (simp_all add: r)
  show look: "map_of (bo_names (ks_accounts (snd r))) =
         (map_of (bo_names (ks_accounts s)))(n \<mapsto> fst (bo_get kp_bucket acc_init n (ks_accounts s)))"
    by (simp add: r bo.lookup_get [OF I])
  show "kp_valid (snd r) (fst (bo_get kp_bucket acc_init n (ks_accounts s)))"
    by (auto simp: kp_valid_def look ran_def)
  show mono: "kp_valid (snd r) j" if j: "kp_valid s j" for j
  proof -
    obtain m where m: "map_of (bo_names (ks_accounts s)) m = Some j"
      using j by (rule kp_validE)
    have "map_of (bo_names (ks_accounts (snd r))) m = Some j"
      using m by (cases "m = n") (auto simp: look bo.get_known)
    then show ?thesis by (auto simp: kp_valid_def ran_def)
  qed
  have bnd: "0 \<le> acc_karma a \<and> acc_karma a \<le> int MAX_KARMA"
    if v: "kp_valid (snd r) i" and a: "bo_access kp_bucket i ?t = Some a" for i a
  proof -
    obtain m where m: "map_of (bo_names ?t) m = Some i"
      using v r by (auto elim: kp_validE)
    show ?thesis
    proof (cases "map_of (bo_names (ks_accounts s)) m")
      case None
      with a m bo.access_get_any [OF I m] show ?thesis by (auto simp: acc_init_def)
    next
      case (Some j)
      then have "j = i"
        using m look r bo.get_known [OF Some] by (auto split: if_splits)
      with a m Some bo.access_get_any [OF I m] show ?thesis
        using assms(1) unfolding kp_inv_def kp_valid_def by (auto simp: ran_def)
    qed
  qed
  show "kp_inv (snd r)"
    unfolding kp_inv_def using bnd assms(1) mono bo.inv_get [OF I]
    by (auto simp: r kp_inv_def)
qed

lemma kp_new_inv: "kp_inv (kp_new config)"
proof -
  have I: "bo_inv kp_bucket acc_init bo_empty"
    by (rule bo_inv_empty) (simp add: kp_bucket_def)
  let ?n = "''(null karma account)''"
  have none: "map_of (bo_names (bo_empty :: (kp_account, string) buckets_of)) ?n = None"
    by (simp add: bo_empty_def)
  have id: "fst (bo_get kp_bucket acc_init ?n bo_empty) = 0"
    using bo_get_new(1) [OF I none] by (simp add: bo_empty_def)
  have look: "map_of (bo_names (snd (bo_get kp_bucket acc_init ?n bo_empty))) = [?n \<mapsto> 0]"
    using bo.lookup_get [OF I, of ?n] id by (simp add: bo_empty_def)
  have "bo_access kp_bucket 0 (snd (bo_get kp_bucket acc_init ?n bo_empty)) = Some acc_init"
    using bo.access_get_new [OF I none] id by simp
  then show ?thesis
    using look bo.inv_get [OF I, of ?n] by (auto simp: kp_inv_def kp_valid_def kp_new_def acc_init_def ran_def)
qed

lemma kp_getAccount_inv [inv_intros]: "preserves kp_inv (kp_getAccount p ip)"
proof -
  have *: "preserves kp_inv (kp_getAccountNumber n)" for n
    by (intro preservesI kp_getAccountNumber_props)
  show ?thesis
    unfolding kp_getAccount_def by (auto intro!: inv_intros *)
qed

subsection \<open>What an action does to a balance\<close>

lemma kp_worst_le: "kp_worst c w ps = Inr r \<Longrightarrow> r \<le> w"
  by (induction c w ps rule: kp_worst.induct) (force simp: ebind_Inr_iff split: if_splits)+

lemma kp_afterwards_le: "kp_afterwards cfg c e = Inr r \<Longrightarrow> r \<le> c"
  by (auto simp: kp_afterwards_def dest!: kp_worst_le split: sum.splits exn.splits)

lemma kp_refreshCycle_inv [inv_intros]: "preserves kp_inv kp_refreshCycle"
  unfolding kp_refreshCycle_def
  by (intro inv_intros preserves_pmodify) (simp add: kp_inv_def kp_valid_def)

text \<open>
  What an observer reads as the balance of a name: the balance its account would have when brought up
  to date now (a name without an account would get a fresh one).
\<close>

definition kp_account_of :: "(kp_account, string) buckets_of \<Rightarrow> string \<Rightarrow> kp_account" where
  "kp_account_of t n = (case map_of (bo_names t) n of
     None \<Rightarrow> acc_init
   | Some i \<Rightarrow> (case bo_access kp_bucket i t of None \<Rightarrow> acc_init | Some a \<Rightarrow> a))"

definition kp_reading :: "karma_state \<Rightarrow> string \<Rightarrow> int" where
  "kp_reading s n = acc_karma (acc_bringUpToDate (ks_tick_amounts s) (ks_tick_counter s)
     (kp_account_of (ks_accounts s) n))"

lemma bringUpToDate_idem:
  assumes "0 \<le> k" "k \<le> int MAX_KARMA"
  shows "acc_bringUpToDate t tc \<lparr>acc_karma = k, acc_when = tc\<rparr> = \<lparr>acc_karma = k, acc_when = tc\<rparr>"
proof -
  have "unat (word_of_int k :: u64) = nat k"
    using assms by (simp add: unsigned_of_int take_bit_int_eq_self MAX_KARMA_def)
  then show ?thesis
    using assms by (simp add: acc_bringUpToDate_def min_def nat_le_iff)
qed

lemma bringUpToDate_when: "acc_when (acc_bringUpToDate t tc a) = tc"
  by (simp add: acc_bringUpToDate_def Let_def)

lemma bringUpToDate_twice:
  "acc_bringUpToDate t tc (acc_bringUpToDate t tc a) = acc_bringUpToDate t tc a"
proof -
  have "acc_bringUpToDate t tc a = \<lparr>acc_karma = acc_karma (acc_bringUpToDate t tc a), acc_when = tc\<rparr>"
    by (simp add: acc_bringUpToDate_def Let_def)
  then show ?thesis
    by (metis bringUpToDate_idem bringUpToDate_bounds)
qed

text \<open>Bringing an account up to date changes no reading and no account but its own.\<close>

lemma kp_store_reading:
  assumes "kp_inv s" "map_of (bo_names (ks_accounts s)) n = Some i"
    "0 \<le> acc_karma a" "acc_karma a \<le> int MAX_KARMA" "acc_when a = ks_tick_counter s"
  shows "kp_reading (s\<lparr>ks_accounts := bo_put kp_bucket i a (ks_accounts s)\<rparr>) m =
           (if m = n then acc_karma a else kp_reading s m)"
proof -
  have I: "bo_inv kp_bucket acc_init (ks_accounts s)"
    using assms(1) by (simp add: kp_inv_def)
  have a: "a = \<lparr>acc_karma = acc_karma a, acc_when = ks_tick_counter s\<rparr>"
    using assms(5) by simp
  have up: "acc_bringUpToDate t (ks_tick_counter s) a = a" for t
    using bringUpToDate_idem [OF assms(3,4), of t "ks_tick_counter s"] a by simp
  show ?thesis
  proof (cases "m = n")
    case True
    then show ?thesis
      by (simp add: kp_reading_def kp_account_of_def bo.lookup_put assms(2) bo.update_self [OF I assms(2)] up)
  next
    case False
    then show ?thesis
      by (cases "map_of (bo_names (ks_accounts s)) m")
         (simp_all add: kp_reading_def kp_account_of_def bo.lookup_put bo.update_frame [OF I assms(2)])
  qed
qed

lemma kp_reading_known:
  assumes "map_of (bo_names (ks_accounts s)) n = Some i" "bo_access kp_bucket i (ks_accounts s) = Some a"
  shows "kp_reading s n = acc_karma (acc_bringUpToDate (ks_tick_amounts s) (ks_tick_counter s) a)"
  by (simp add: kp_reading_def kp_account_of_def assms)

text \<open>The effect of \<^verbatim>\<open>bringUpToDate\<close> on a whole state, in the terms the operations below need.\<close>

lemma kp_bringUpToDate_state:
  assumes "kp_inv s" "map_of (bo_names (ks_accounts s)) n = Some i"
  obtains s' a where "kp_bringUpToDate i s = (Inr (), s')" "kp_inv s'"
    "kp_access i s' = (Inr a, s')" "acc_karma a = kp_reading s n" "acc_when a = ks_tick_counter s'"
    "0 \<le> acc_karma a" "acc_karma a \<le> int MAX_KARMA"
    "\<And>m. kp_reading s' m = kp_reading s m" "ks_config s' = ks_config s"
    "bo_names (ks_accounts s') = bo_names (ks_accounts s)"
proof -
  have v: "kp_valid s i" using assms(2) by (auto simp: kp_valid_def ran_def)
  obtain a0 where a0: "bo_access kp_bucket i (ks_accounts s) = Some a0"
    and e: "kp_bringUpToDate i s = (Inr (), s\<lparr>ks_accounts := bo_put kp_bucket i
           (acc_bringUpToDate (ks_tick_amounts s) (ks_tick_counter s) a0) (ks_accounts s)\<rparr>)"
    by (rule kp_bringUpToDate_eq [OF assms(1) v])
  let ?a = "acc_bringUpToDate (ks_tick_amounts s) (ks_tick_counter s) a0"
  let ?s = "s\<lparr>ks_accounts := bo_put kp_bucket i ?a (ks_accounts s)\<rparr>"
  note P = kp_store_props [OF assms(1) v bringUpToDate_bounds]
  have r: "acc_karma ?a = kp_reading s n"
    by (simp add: kp_reading_known [OF assms(2) a0])
  show thesis
  proof (rule that [OF e, of ?a])
    show "kp_inv ?s" by (rule P(1))
    show "kp_access i ?s = (Inr ?a, ?s)" by (simp add: kp_access_def P(3))
    show "acc_karma ?a = kp_reading s n" by (rule r)
    show "acc_when ?a = ks_tick_counter ?s" by (simp add: bringUpToDate_when)
    show "0 \<le> acc_karma ?a" "acc_karma ?a \<le> int MAX_KARMA" by (rule bringUpToDate_bounds)+
    show "kp_reading ?s m = kp_reading s m" for m
      using r by (simp add: kp_store_reading [OF assms bringUpToDate_bounds bringUpToDate_when])
    show "ks_config ?s = ks_config s" "bo_names (ks_accounts ?s) = bo_names (ks_accounts s)"
      by (simp_all add: bo_put_def)
  qed
qed

text \<open>\<^verbatim>\<open>perform\<close> without \<^verbatim>\<open>force\<close> on every branch, stated over readings.\<close>

lemma kp_perform_cases:
  assumes "kp_inv s" "map_of (bo_names (ks_accounts s)) n = Some (ka_id acct)"
  obtains (refused) e s' where "kp_perform acct event False s = (Inl e, s')" "kp_inv s'"
      "\<And>m. kp_reading s' m = kp_reading s m"
      "bo_names (ks_accounts s') = bo_names (ks_accounts s)"
      "kp_afterwards (ks_config s) (kp_reading s n) event = Inl e \<or>
       (\<exists>next. kp_afterwards (ks_config s) (kp_reading s n) event = Inr next \<and> next < 0 \<and> e = mk_XKarma event)"
  | (allowed) "next" s' where "kp_perform acct event False s = (Inr True, s')" "kp_inv s'"
      "kp_afterwards (ks_config s) (kp_reading s n) event = Inr next" "0 \<le> next" "next \<le> kp_reading s n"
      "\<And>m. kp_reading s' m = (if m = n then next else kp_reading s m)"
      "bo_names (ks_accounts s') = bo_names (ks_accounts s)"
proof -
  obtain s' a where B: "kp_bringUpToDate (ka_id acct) s = (Inr (), s')" "kp_inv s'"
    "kp_access (ka_id acct) s' = (Inr a, s')" "acc_karma a = kp_reading s n" "acc_when a = ks_tick_counter s'"
    "0 \<le> acc_karma a" "acc_karma a \<le> int MAX_KARMA"
    "\<And>m. kp_reading s' m = kp_reading s m" "ks_config s' = ks_config s"
    "bo_names (ks_accounts s') = bo_names (ks_accounts s)"
    by (rule kp_bringUpToDate_state [OF assms], blast)
  have n': "map_of (bo_names (ks_accounts s')) n = Some (ka_id acct)"
    using assms(2) B(10) by simp
  have v': "kp_valid s' (ka_id acct)" using n' by (auto simp: kp_valid_def ran_def)
  show thesis
  proof (cases "kp_afterwards (ks_config s) (kp_reading s n) event")
    case (Inl e)
    then show thesis
      using B by (intro refused [of e s']) (simp_all add: kp_perform_def pbind_apply pthen_apply)
  next
    case (Inr nxt)
    show thesis
    proof (cases "0 \<le> nxt")
      case False
      with Inr B show thesis
        by (intro refused [of "mk_XKarma event" s']) (simp_all add: kp_perform_def pbind_apply pthen_apply)
    next
      case True
      have le: "nxt \<le> kp_reading s n" using Inr by (rule kp_afterwards_le)
      let ?s = "s'\<lparr>ks_accounts := bo_put kp_bucket (ka_id acct) (a\<lparr>acc_karma := nxt\<rparr>) (ks_accounts s')\<rparr>"
      have b: "0 \<le> acc_karma (a\<lparr>acc_karma := nxt\<rparr>)" "acc_karma (a\<lparr>acc_karma := nxt\<rparr>) \<le> int MAX_KARMA"
        "acc_when (a\<lparr>acc_karma := nxt\<rparr>) = ks_tick_counter s'"
        using True le B by simp_all
      show thesis
      proof (rule allowed [of ?s nxt])
        show "kp_perform acct event False s = (Inr True, ?s)"
          using B Inr True by (simp add: kp_perform_def pbind_apply pthen_apply kp_store_def)
        show "kp_inv ?s" by (rule kp_store_props(1) [OF B(2) v' b(1,2)])
        show "kp_reading ?s m = (if m = n then nxt else kp_reading s m)" for m
          by (simp add: kp_store_reading [OF B(2) n' b] B(8))
        show "bo_names (ks_accounts ?s) = bo_names (ks_accounts s)"
          by (simp add: bo_put_def B(10))
      qed (use Inr True le in simp_all)
    qed
  qed
qed

subsection \<open>The policy contract\<close>

text \<open>
  What the rest of the program relies on in an \<^verbatim>\<open>IKarmaPolicy\<close>: accounts it hands out stay usable,
  operations keep its invariant, and \<^verbatim>\<open>perform\<close> ``returns True or throws''. \<open>attempts\<close> is a client that
  performs actions one after the other and swallows the exceptions.
\<close>

fun attempts :: "('a \<Rightarrow> string \<Rightarrow> bool \<Rightarrow> ('s, bool) prog) \<Rightarrow> ('a \<times> string) list \<Rightarrow> ('s, bool list) prog" where
  "attempts perform [] = pret []"
| "attempts perform ((a, e) # xs) =
     pbind (pcatch (perform a e False) (\<lambda>_. pret False)) (\<lambda>b.
     pbind (attempts perform xs) (\<lambda>bs. pret (b # bs)))"

locale policy_contract =
  fixes get_account :: "string \<Rightarrow> string \<Rightarrow> ('s, 'a) prog"
    and perform :: "'a \<Rightarrow> string \<Rightarrow> bool \<Rightarrow> ('s, bool) prog"
    and inv :: "'s \<Rightarrow> bool"
    and valid :: "'s \<Rightarrow> 'a \<Rightarrow> bool"
  assumes get_inv: "inv s \<Longrightarrow> inv (snd (get_account p ip s))"
    and get_valid: "inv s \<Longrightarrow> \<exists>a. fst (get_account p ip s) = Inr a \<and> valid (snd (get_account p ip s)) a"
    and get_keeps: "inv s \<Longrightarrow> valid s b \<Longrightarrow> valid (snd (get_account p ip s)) b"
    and perform_inv: "inv s \<Longrightarrow> valid s a \<Longrightarrow> inv (snd (perform a e False s))"
    and perform_keeps: "inv s \<Longrightarrow> valid s a \<Longrightarrow> valid s b \<Longrightarrow> valid (snd (perform a e False s)) b"
    and perform_true: "inv s \<Longrightarrow> valid s a \<Longrightarrow> fst (perform a e False s) = Inr r \<Longrightarrow> r"
begin

lemma attempt_step:
  assumes "inv s" "valid s a"
  obtains b s' where "pcatch (perform a e False) (\<lambda>_. pret False) s = (Inr b, s')" "inv s'"
    "\<And>c. valid s c \<Longrightarrow> valid s' c"
  using perform_inv [OF assms, of e] perform_keeps [OF assms, of _ e]
  by (cases "perform a e False s"; cases "fst (perform a e False s)") auto

lemma attempts_inv:
  assumes "inv s" "\<forall>x \<in> set xs. valid s (fst x)"
  shows "inv (snd (attempts perform xs s))"
    and "\<exists>bs. fst (attempts perform xs s) = Inr bs \<and> length bs = length xs"
proof -
  have "inv (snd (attempts perform xs s)) \<and>
        (\<exists>bs. fst (attempts perform xs s) = Inr bs \<and> length bs = length xs)"
    using assms
  proof (induction xs arbitrary: s)
    case Nil
    then show ?case by simp
  next
    case (Cons x xs)
    obtain a e where x: "x = (a, e)" by (cases x)
    have "valid s a" using Cons.prems x by simp
    then obtain b s' where b: "pcatch (perform a e False) (\<lambda>_. pret False) s = (Inr b, s')" "inv s'"
      "\<And>c. valid s c \<Longrightarrow> valid s' c"
      by (rule attempt_step [OF Cons.prems(1), where e = e], blast)
    have IH: "inv (snd (attempts perform xs s'))"
      "\<exists>bs. fst (attempts perform xs s') = Inr bs \<and> length bs = length xs"
      using Cons.IH [OF b(2)] Cons.prems(2) b(3) by auto
    then show ?case
      using b(1) x by (cases "attempts perform xs s'") (auto simp: pbind_apply)
  qed
  then show "inv (snd (attempts perform xs s))"
    "\<exists>bs. fst (attempts perform xs s) = Inr bs \<and> length bs = length xs"
    by simp_all
qed

end

definition kp_usable :: "karma_state \<Rightarrow> karma_account \<Rightarrow> bool" where
  "kp_usable s a \<longleftrightarrow> kp_valid s (ka_id a)"

lemma kp_getAccount_result:
  assumes "kp_inv s"
  shows "\<exists>a. fst (kp_getAccount p ip s) = Inr a \<and> kp_usable (snd (kp_getAccount p ip s)) a"
    and "kp_valid s j \<Longrightarrow> kp_valid (snd (kp_getAccount p ip s)) j"
proof -
  have num: "kp_getAccountNumber n s = (Inr (fst (bo_get kp_bucket acc_init n (ks_accounts s))),
               snd (kp_getAccountNumber n s))" for n
    using kp_getAccountNumber_props(1) [OF assms, of n] by (simp add: prod_eq_iff)
  note num' = kp_getAccountNumber_props(3,4) [OF assms]
  show "\<exists>a. fst (kp_getAccount p ip s) = Inr a \<and> kp_usable (snd (kp_getAccount p ip s)) a"
    using num'(1) [of p] num'(1) [of ip] num [of p] num [of ip] assms
    by (auto simp: kp_getAccount_def kp_usable_def pbind_apply kp_inv_def split: prod.splits)
  show "kp_valid (snd (kp_getAccount p ip s)) j" if "kp_valid s j"
    using num'(2) [OF that, of p] num'(2) [OF that, of ip] num [of p] num [of ip] that
    by (auto simp: kp_getAccount_def pbind_apply split: prod.splits)
qed

lemma kp_perform_keeps:
  assumes "kp_inv s" "kp_valid s (ka_id a)"
  shows "kp_inv (snd (kp_perform a e False s))"
    and "kp_valid (snd (kp_perform a e False s)) = kp_valid s"
    and "fst (kp_perform a e False s) = Inr r \<Longrightarrow> r"
proof -
  obtain n where n: "map_of (bo_names (ks_accounts s)) n = Some (ka_id a)"
    using assms(2) by (rule kp_validE)
  have "kp_inv (snd (kp_perform a e False s)) \<and> kp_valid (snd (kp_perform a e False s)) = kp_valid s \<and>
        (fst (kp_perform a e False s) = Inr r \<longrightarrow> r)"
    by (rule kp_perform_cases [OF assms(1) n, where event = e]) (auto simp: kp_valid_def fun_eq_iff)
  then show "kp_inv (snd (kp_perform a e False s))"
    "kp_valid (snd (kp_perform a e False s)) = kp_valid s"
    "fst (kp_perform a e False s) = Inr r \<Longrightarrow> r"
    by simp_all
qed

interpretation kp: policy_contract kp_getAccount kp_perform kp_inv kp_usable
proof (unfold_locales, goal_cases)
  case (1 s p ip)
  then show ?case by (rule preservesD [OF kp_getAccount_inv])
next
  case (2 s p ip)
  then show ?case by (rule kp_getAccount_result(1))
next
  case (3 s b p ip)
  then show ?case by (simp add: kp_usable_def kp_getAccount_result(2))
next
  case (4 s a e)
  then show ?case by (simp add: kp_usable_def kp_perform_keeps(1))
next
  case (5 s a b e)
  then show ?case by (simp add: kp_usable_def kp_perform_keeps(2))
next
  case (6 s a e r)
  then show ?case using kp_perform_keeps(3) [of s a e r] by (simp add: kp_usable_def)
qed

interpretation kpn: policy_contract kpn_getAccount kpn_perform "\<lambda>_. True" "\<lambda>_ _. True"
  by unfold_locales (simp_all add: kpn_getAccount_def kpn_perform_def)

text \<open>
  C29. Karma accounting is safe: whatever actions are attempted on whatever accounts of a basic policy,
  in whatever order, with whatever configuration of effects, granted or refused, they leave a
  well-formed state behind, one answer for each of them, and every stored balance stays between 0 and
  \<open>MAX_KARMA\<close>.
\<close>

theorem karma_balances_bounded:
  assumes "kp_inv s" "\<forall>x \<in> set xs. kp_usable s (fst x)"
  shows "kp_inv (snd (attempts kp_perform xs s)) \<and>
         (\<exists>bs. fst (attempts kp_perform xs s) = Inr bs \<and> length bs = length xs)"
  using kp.attempts_inv [OF assms] by simp

theorem karma_balances_bounded_witness:
  "let s = kp_new [(''login'', ''-6000'')]; a = \<lparr>ka_id = 0, ka_policy = PolicyBasic, ka_name = ''x''\<rparr>
   in kp_inv (snd (attempts kp_perform [(a, ''login''), (a, ''login'')] s))"
  unfolding Let_def
  by (rule karma_balances_bounded [THEN conjunct1])
     (use kp_new_inv [of "[(''login'', ''-6000'')]"] in \<open>simp_all add: kp_usable_def kp_inv_def\<close>)

text \<open>
  One action on one account: \<^verbatim>\<open>perform\<close> concerns the balance of that account only; it answers true
  exactly when the worst effect of the action leaves a balance that is not negative, which is then the
  new balance and never more than the old one; on every exception (effects that forbid the action, that
  cannot be parsed, or a balance that is too low) no balance changes.
\<close>

lemma karma_perform_spec:
  assumes "kp_inv s" "map_of (bo_names (ks_accounts s)) n = Some (ka_id acct)"
  shows "case kp_perform acct event False s of (r, s') \<Rightarrow>
           (\<forall>m. m \<noteq> n \<longrightarrow> kp_reading s' m = kp_reading s m) \<and>
           (case r of
              Inr b \<Rightarrow> b \<and> kp_afterwards (ks_config s) (kp_reading s n) event = Inr (kp_reading s' n) \<and>
                      0 \<le> kp_reading s' n \<and> kp_reading s' n \<le> kp_reading s n
            | Inl e \<Rightarrow> kp_reading s' n = kp_reading s n \<and>
                      (\<forall>next. kp_afterwards (ks_config s) (kp_reading s n) event = Inr next \<longrightarrow>
                              next < 0 \<and> e = mk_XKarma event))"
  by (rule kp_perform_cases [OF assms, where event = event]) auto

lemma karma_perform_spec_example:
  "let s = kp_new [(''login'', ''-6000'')]; a = \<lparr>ka_id = 0, ka_policy = PolicyBasic, ka_name = ''x''\<rparr>
   in case kp_perform a ''login'' False s of (r, s') \<Rightarrow>
        (\<forall>m. m \<noteq> ''(null karma account)'' \<longrightarrow> kp_reading s' m = kp_reading s m)"
proof -
  let ?s = "kp_new [(''login'', ''-6000'')]"
    and ?a = "\<lparr>ka_id = 0, ka_policy = PolicyBasic, ka_name = ''x''\<rparr>"
  have "map_of (bo_names (ks_accounts ?s)) ''(null karma account)'' = Some (ka_id ?a)"
    by (simp add: kp_new_def bo_get_def bo_empty_def bo_lockless_extend_def)
  from karma_perform_spec [OF kp_new_inv this, of "''login''"] show ?thesis
    by (simp add: Let_def split: prod.splits)
qed

subsection \<open>The effect language\<close>

text \<open>The effects a configuration can give to an action, and their text in the configuration file.\<close>

datatype keffect = Forbid | Change int | Assign int

fun effect_str :: "keffect \<Rightarrow> string" where
  "effect_str Forbid = ''X''"
| "effect_str (Change d) = int_str d"
| "effect_str (Assign v) = CHR ''='' # int_str v"

fun effect_ok :: "int \<Rightarrow> keffect \<Rightarrow> bool" where
  "effect_ok k Forbid = True"
| "effect_ok k (Change d) = (- (2 ^ 31) \<le> d \<and> d < 2 ^ 31 \<and> - (2 ^ 31) \<le> k + d \<and> k + d < 2 ^ 31)"
| "effect_ok k (Assign v) = (- (2 ^ 31) \<le> v \<and> v < 2 ^ 31)"

fun effect_on :: "int \<Rightarrow> keffect \<Rightarrow> int" where
  "effect_on k Forbid = k"
| "effect_on k (Change d) = k + d"
| "effect_on k (Assign v) = v"

lemma int_str_head:
  "int_str d \<noteq> [] \<and> (is_digit (hd (int_str d)) \<or> hd (int_str d) = CHR ''-'') \<and> hd (int_str d) \<noteq> CHR ''X''"
proof (cases "d < 0")
  case True
  then show ?thesis by (simp add: int_str_def)
next
  case False
  have "is_digit (hd (nat_str (nat d)))"
    using nat_str_digits [of "nat d"] by (cases "nat_str (nat d)") auto
  then show ?thesis
    using False by (auto simp: int_str_def is_digit_def)
qed

lemma parseEffect_str:
  assumes "effect_ok k e"
  shows "kp_parseEffect k (effect_str e) =
           (if e = Forbid then Inl (mk_XDisconnect ''Disconnect due to Karma policy'')
            else Inr (effect_on k e))"
proof (cases e)
  case Forbid
  then show ?thesis by (simp add: kp_parseEffect_def)
next
  case (Change d)
  then show ?thesis
    using assms int_str_head [of d] stoi_int_str [of d "[]"]
    by (auto simp: kp_parseEffect_def i32_add_def)
next
  case (Assign v)
  then show ?thesis
    using assms stoi_int_str [of v "[]"] by (simp add: kp_parseEffect_def is_digit_def)
qed

fun comma_join :: "string list \<Rightarrow> string" where
  "comma_join [] = []"
| "comma_join [a] = a"
| "comma_join (a # b # r) = a @ CHR '','' # comma_join (b # r)"

lemma tokenise_step:
  assumes "a \<noteq> []" "CHR '','' \<notin> set a" "r = [] \<or> hd r = CHR '',''"
  shows "tokenise (CHR '','') (a @ r) = a # tokenise (CHR '','') r"
    and "tokenise (CHR '','') (CHR '','' # r) = tokenise (CHR '','') r"
proof -
  obtain c a' where a: "a = c # a'" "c \<noteq> CHR '',''" using assms(1,2) by (cases a) auto
  have dw: "dropWhile (\<lambda>c. c = CHR '','') (a @ r) = a @ r" using a by simp
  have tw: "takeWhile (\<lambda>c. c \<noteq> CHR '','') (a @ r) = a"
    using assms(2,3) by (intro takeWhile_append_stop) auto
  have dd: "dropWhile (\<lambda>c. c \<noteq> CHR '','') (a @ r) = r"
    using assms(2,3) by (cases r) (auto simp: dropWhile_append)
  show "tokenise (CHR '','') (a @ r) = a # tokenise (CHR '','') r"
    using assms(1) by (subst tokenise.simps) (simp only: Let_def dw tw dd, simp)
  show "tokenise (CHR '','') (CHR '','' # r) = tokenise (CHR '','') r"
    by (subst (1 2) tokenise.simps) simp
qed

lemma tokenise_comma_join:
  "\<forall>a \<in> set as. a \<noteq> [] \<and> CHR '','' \<notin> set a \<Longrightarrow> tokenise (CHR '','') (comma_join as) = as"
proof (induction as rule: comma_join.induct)
  case 1
  show ?case by (subst tokenise.simps) simp
next
  case (2 a)
  have "tokenise (CHR '','') ([]::string) = []" by (subst tokenise.simps) simp
  with 2 tokenise_step(1) [of a "[]"] show ?case by simp
next
  case (3 a b r)
  have "tokenise (CHR '','') (CHR '','' # comma_join (b # r)) = tokenise (CHR '','') (comma_join (b # r))"
    by (subst (1 2) tokenise.simps) simp
  with 3 tokenise_step(1) [of a "CHR '','' # comma_join (b # r)"] show ?case by simp
qed

lemma kp_worst_min:
  assumes "\<forall>p \<in> set ps. kp_parseEffect c p = Inr (f p)"
  shows "kp_worst c w ps = Inr (Min (insert w (f ` set ps)))"
  using assms
proof (induction ps arbitrary: w)
  case Nil
  then show ?case by simp
next
  case (Cons p ps)
  have "Min (insert (min (f p) w) (f ` set ps)) = Min (insert w (insert (f p) (f ` set ps)))"
    by (cases "ps = []") (auto simp: Min_insert min.commute min.left_commute)
  moreover have "kp_worst c w (p # ps) = kp_worst c (min (f p) w) ps"
    using Cons.prems by (simp add: min_def)
  moreover have "kp_worst c (min (f p) w) ps = Inr (Min (insert (min (f p) w) (f ` set ps)))"
    by (rule Cons.IH) (use Cons.prems in simp)
  ultimately show ?case by simp
qed

lemma kp_worst_throw:
  assumes "\<forall>p \<in> set ps. kp_parseEffect c p \<in> range Inr \<or> kp_parseEffect c p = Inl x"
    and "p \<in> set ps" "kp_parseEffect c p = Inl x"
  shows "kp_worst c w ps = Inl x"
  using assms
proof (induction ps arbitrary: w)
  case (Cons q ps)
  then show ?case by (cases "kp_parseEffect c q") fastforce+
qed simp

text \<open>
  The effect language: an action is a comma-separated list of action names; when each has an effect
  in the configuration, the whole text is taken apart into exactly these names, a forbidden one
  disconnects, and otherwise the outcome is the worst single outcome (never better than the present
  balance, and the effects are not added up).
\<close>

lemma karma_worst_effect:
  assumes "aes \<noteq> []"
    and "\<forall>(a, e) \<in> set aes. a \<noteq> [] \<and> CHR '','' \<notin> set a \<and>
           map_of config a = Some (effect_str e) \<and> effect_ok k e"
  shows "kp_afterwards config k (comma_join (map fst aes)) =
           (if Forbid \<in> snd ` set aes then Inl (mk_XDisconnect ''Disconnect due to Karma policy'')
            else Inr (Min (insert k (effect_on k ` snd ` set aes))))"
proof -
  have tok: "tokenise (CHR '','') (comma_join (map fst aes)) = map fst aes"
    using assms(2) by (intro tokenise_comma_join) auto
  have pol: "kp_getPolicies config (comma_join (map fst aes)) = map (effect_str \<circ> snd) aes"
    using assms unfolding kp_getPolicies_def Let_def tok by (auto simp: kp_getPolicy_def)
  have ok: "kp_parseEffect k (effect_str (snd x)) =
      (if snd x = Forbid then Inl (mk_XDisconnect ''Disconnect due to Karma policy'')
       else Inr (effect_on k (snd x)))" if "x \<in> set aes" for x
    using assms(2) that by (intro parseEffect_str) auto
  show ?thesis
  proof (cases "Forbid \<in> snd ` set aes")
    case True
    then obtain x where x: "x \<in> set aes" "snd x = Forbid" by auto
    have "kp_worst k k (map (effect_str \<circ> snd) aes) = Inl (mk_XDisconnect ''Disconnect due to Karma policy'')"
    proof (rule kp_worst_throw)
      show "effect_str (snd x) \<in> set (map (effect_str \<circ> snd) aes)"
        using x(1) by (simp del: effect_str.simps)
      show "kp_parseEffect k (effect_str (snd x)) = Inl (mk_XDisconnect ''Disconnect due to Karma policy'')"
        using ok [OF x(1)] x(2) by (simp del: effect_str.simps)
    qed (use ok in auto)
    with True show ?thesis
      by (simp add: kp_afterwards_def pol mk_XDisconnect_def)
  next
    case False
    define f where "f p = (case kp_parseEffect k p of Inr r \<Rightarrow> r | Inl _ \<Rightarrow> 0)" for p
    have f: "f (effect_str (snd x)) = effect_on k (snd x)" if "x \<in> set aes" for x
    proof -
      have "snd x \<noteq> Forbid" using that False by force
      then show ?thesis using ok [OF that] by (simp add: f_def del: effect_str.simps)
    qed
    have "\<forall>p \<in> set (map (effect_str \<circ> snd) aes). kp_parseEffect k p = Inr (f p)"
    proof
      fix p assume "p \<in> set (map (effect_str \<circ> snd) aes)"
      then obtain x where "x \<in> set aes" "p = effect_str (snd x)" by auto
      moreover from this False have "snd x \<noteq> Forbid" by force
      ultimately show "kp_parseEffect k p = Inr (f p)"
        using ok f by (simp del: effect_str.simps)
    qed
    then have "kp_worst k k (map (effect_str \<circ> snd) aes) =
        Inr (Min (insert k (f ` set (map (effect_str \<circ> snd) aes))))"
      by (rule kp_worst_min)
    moreover have "f ` set (map (effect_str \<circ> snd) aes) = effect_on k ` snd ` set aes"
      using f by (auto simp: image_image)
    ultimately show ?thesis
      using False by (simp add: kp_afterwards_def pol)
  qed
qed

lemma karma_worst_effect_example:
  "kp_afterwards [(''oef.search'', ''-20''), (''login'', ''=50'')] 100 ''login,oef.search'' = Inr 50"
proof -
  have s: "int_str (- 20) = ''-20''" "int_str 50 = ''50''"
    by (simp_all add: int_str_def nat_str.simps digit_char_simps)
  have m: "Min {100, 50, 80 :: int} = 50" by simp
  show ?thesis
    using karma_worst_effect [of "[(''login'', Assign 50), (''oef.search'', Change (- 20))]"
        "[(''oef.search'', ''-20''), (''login'', ''=50'')]" 100] m
    by (simp add: s)
qed

subsection \<open>Refilling and asking first\<close>

definition kp_times :: "karma_state \<Rightarrow> bool" where
  "kp_times s \<longleftrightarrow> (\<forall>i a. kp_valid s i \<longrightarrow> bo_access kp_bucket i (ks_accounts s) = Some a \<longrightarrow>
                     unat (acc_when a) \<le> unat (ks_tick_counter s))"

lemma unat_word_of_nat: "n < 2 ^ 64 \<Longrightarrow> unat (word_of_int (int n) :: u64) = n"
  by (simp add: unsigned_of_nat take_bit_nat_eq_self)

lemma acc_refill:
  assumes "0 \<le> acc_karma a" "acc_karma a \<le> int MAX_KARMA" "unat (acc_when a) \<le> unat tc"
    and "MAX_KARMA + unat tc * r < 2 ^ 64"
    and "unat tc = 0 \<or> t = word_of_int (int r)"
  shows "acc_karma (acc_bringUpToDate t tc a) =
           min (acc_karma a + int ((unat tc - unat (acc_when a)) * r)) (int MAX_KARMA)"
proof -
  let ?d = "unat tc - unat (acc_when a)"
  have le: "?d * r \<le> unat tc * r" by (simp add: mult_right_mono)
  have d: "unat (tc - acc_when a) = ?d"
    using assms(3) by (rule unat_minus_small)
  have prod: "unat ((tc - acc_when a) * t) = ?d * r"
  proof (cases "unat tc = 0")
    case True
    then have "tc - acc_when a = 0" using d by (simp add: unat_eq_zero)
    then show ?thesis using True by simp
  next
    case False
    then have "r \<le> unat tc * r" by simp
    then have r: "r < 2 ^ 64" using assms(4) by linarith
    have "t = word_of_int (int r)" using False assms(5) by simp
    then have t: "unat t = r" using r unat_word_of_nat by simp
    have "?d * r < 2 ^ 64" using le assms(4) by linarith
    then show ?thesis by (simp add: unat_mult_lem [THEN iffD1] d t unat_word_ariths)
  qed
  obtain k where k: "acc_karma a = int k" "k \<le> MAX_KARMA"
    using assms(1,2) by (metis nonneg_int_cases of_nat_le_iff)
  have kw: "unat (word_of_int (int k) :: u64) = k"
    using k(2) by (intro unat_word_of_nat) (simp add: MAX_KARMA_def)
  have "k + ?d * r < 2 ^ 64" using le assms(4) k(2) by linarith
  then have "unat (word_of_int (int k) + (tc - acc_when a) * t) = k + ?d * r"
    using kw prod by (subst unat_plus_small) auto
  moreover have "acc_karma (acc_bringUpToDate t tc a) =
      int (min (unat (word_of_int (acc_karma a) + (tc - acc_when a) * t)) MAX_KARMA)"
    by (simp add: acc_bringUpToDate_def Let_def)
  ultimately show ?thesis
    by (simp only: k(1) of_nat_min of_nat_add)
qed

text \<open>
  Refilling: when the configuration's \<^verbatim>\<open>refresh\<close> effect is a non-negative amount, each refresh cycle
  raises the balance of every account, whether it was looked at in between or not, by exactly that
  amount, up to \<open>MAX_KARMA\<close>, as long as the product of ticks and amount fits 64 bits.
\<close>

lemma karma_refresh_refills:
  assumes "kp_inv s" "kp_times s"
    and "kp_parseEffect 0 (hd (kp_getPolicies (ks_config s) ''refresh'')) = Inr (int r)"
    and "ks_tick_counter s = 0 \<or> ks_tick_amounts s = word_of_int (int r)"
    and "MAX_KARMA + (unat (ks_tick_counter s) + 1) * r < 2 ^ 64" "unat (ks_tick_counter s) + 1 < 2 ^ 64"
  shows "case kp_refreshCycle s of (res, s') \<Rightarrow>
           res = Inr () \<and> kp_times s' \<and>
           kp_reading s' n = min (kp_reading s n + int r) (int MAX_KARMA)"
proof -
  let ?tc = "ks_tick_counter s"
  let ?s = "s\<lparr>ks_tick_amounts := word_of_int (int r), ks_tick_counter := ?tc + 1\<rparr>"
  have run: "kp_refreshCycle s = (Inr (), ?s)"
    using assms(3) by (simp add: kp_refreshCycle_def pbind_apply)
  have tc': "unat (?tc + 1) = unat ?tc + 1"
    using assms(6) by (subst unat_plus_small) auto
  have times: "kp_times ?s"
    using assms(2) by (fastforce simp: kp_times_def kp_valid_def tc')
  define a where "a = kp_account_of (ks_accounts s) n"
  have a: "0 \<le> acc_karma a \<and> acc_karma a \<le> int MAX_KARMA \<and> unat (acc_when a) \<le> unat ?tc"
    using assms(1,2) by (auto simp: a_def kp_account_of_def acc_init_def kp_inv_def kp_times_def kp_valid_def ran_def
        split: option.splits)
  have b: "MAX_KARMA + unat ?tc * r < 2 ^ 64" "unat ?tc = 0 \<or> ks_tick_amounts s = word_of_int (int r)"
    using assms(4,5) by auto
  have rd: "kp_reading s n = min (acc_karma a + int ((unat ?tc - unat (acc_when a)) * r)) (int MAX_KARMA)"
    using acc_refill [of a ?tc r "ks_tick_amounts s"] a b by (simp add: kp_reading_def a_def)
  have rd': "kp_reading ?s n =
      min (acc_karma a + int ((unat ?tc + 1 - unat (acc_when a)) * r)) (int MAX_KARMA)"
    using acc_refill [of a "?tc + 1" r "word_of_int (int r)"] a assms(5) tc' by (simp add: kp_reading_def a_def)
  have "(unat ?tc + 1 - unat (acc_when a)) * r = (unat ?tc - unat (acc_when a)) * r + r"
    using a by (simp add: Suc_diff_le)
  then have "kp_reading ?s n = min (kp_reading s n + int r) (int MAX_KARMA)"
    unfolding rd rd' by (simp add: min_def)
  with times show ?thesis
    unfolding run by simp
qed

lemma kp_new_config: "ks_config (kp_new cfg) = foldl (\<lambda>m kv. omap_insert (fst kv) (snd kv) m) [] cfg"
  by (simp add: kp_new_def)

lemma kp_new_times: "kp_times (kp_new cfg)"
proof -
  have "bo_inv kp_bucket acc_init (bo_empty :: (kp_account, string) buckets_of)"
    by (rule bo_inv_empty) (simp add: kp_bucket_def)
  from bo.access_get_any [OF this, of "''(null karma account)''"] show ?thesis
    by (fastforce simp: kp_times_def kp_valid_def kp_new_def ran_def acc_init_def bo_empty_def)
qed

lemma karma_refresh_refills_example:
  "case kp_refreshCycle (kp_new [(''refresh'', ''5'')]) of (res, s') \<Rightarrow>
     res = Inr () \<and> kp_times s' \<and>
     kp_reading s' ''agent'' = min (kp_reading (kp_new [(''refresh'', ''5'')]) ''agent'' + int 5) (int MAX_KARMA)"
proof (rule karma_refresh_refills)
  show "kp_parseEffect 0 (hd (kp_getPolicies (ks_config (kp_new [(''refresh'', ''5'')])) ''refresh'')) = Inr (int 5)"
    by code_simp
  show "kp_inv (kp_new [(''refresh'', ''5'')])" by (rule kp_new_inv)
  show "kp_times (kp_new [(''refresh'', ''5'')])" by (rule kp_new_times)
qed (simp_all add: MAX_KARMA_def kp_new_def)

lemma kp_perform_too_dear:
  assumes "kp_inv s" "map_of (bo_names (ks_accounts s)) n = Some (ka_id acct)"
    and "kp_afterwards (ks_config s) (kp_reading s n) e = Inr v" "v < 0"
  shows "fst (kp_perform acct e False s) = Inl (mk_XKarma e)"
  by (rule kp_perform_cases [OF assms(1,2), where event = e]) (use assms(3,4) in auto)

lemma login_too_dear:
  assumes "kp_inv s" "map_of (bo_names (ks_accounts s)) n = Some (ka_id a)" "ks_config s = [(''login'', ''-20000'')]"
  shows "fst (kp_perform a ''login'' False s) = Inl (mk_XKarma ''login'')"
proof (rule kp_perform_too_dear [OF assms(1,2)])
  have b: "0 \<le> kp_reading s n" "kp_reading s n \<le> 10000"
    using bringUpToDate_bounds by (simp_all add: kp_reading_def MAX_KARMA_def)
  have "int_str (- 20000) = ''-20000''"
    by (simp add: int_str_def nat_str.simps digit_char_simps)
  then have "kp_parseEffect (kp_reading s n) ''-20000'' = Inr (kp_reading s n - 20000)"
    using parseEffect_str [of "kp_reading s n" "Change (- 20000)"] b by simp
  moreover have "tokenise (CHR '','') ''login'' = [''login'']"
    using tokenise_comma_join [of "[''login'']"] by simp
  then have "kp_getPolicies (ks_config s) ''login'' = [''-20000'']"
    by (simp add: kp_getPolicies_def kp_getPolicy_def assms(3))
  ultimately show "kp_afterwards (ks_config s) (kp_reading s n) ''login'' = Inr (kp_reading s n - 20000)"
    by (simp add: kp_afterwards_def)
  show "kp_reading s n - 20000 < 0" using b by simp
qed

lemma kp_new_null: "map_of (bo_names (ks_accounts (kp_new config))) ''(null karma account)'' = Some 0"
  by (simp add: kp_new_def bo_get_def bo_empty_def bo_lockless_extend_def)

text \<open>
  \<^verbatim>\<open>couldPerform\<close> looks up the effect of its action and then evaluates that effect as if it were a
  list of action names: when the configuration has no entry of that name and no default, the answer is
  yes, whatever the action costs.
\<close>

lemma karma_couldPerform_ignores_cost:
  assumes "kp_inv s" "kp_usable s acct"
    and "map_of (ks_config s) action = Some eff" "eff \<noteq> []" "CHR '','' \<notin> set eff"
    and "map_of (ks_config s) eff = None" "map_of (ks_config s) ''*'' = None"
  shows "fst (kp_couldPerform acct action s) = Inr True"
proof -
  have v: "kp_valid s (ka_id acct)" using assms(2) by (simp add: kp_usable_def)
  obtain n where n: "map_of (bo_names (ks_accounts s)) n = Some (ka_id acct)"
    using v by (rule kp_validE)
  obtain s' a where B: "kp_bringUpToDate (ka_id acct) s = (Inr (), s')"
    "kp_access (ka_id acct) s' = (Inr a, s')" "ks_config s' = ks_config s"
    "0 \<le> acc_karma a" "acc_karma a \<le> int MAX_KARMA"
    by (rule kp_bringUpToDate_state [OF assms(1) n], blast)
  have "tokenise (CHR '','') eff = [eff]"
    using tokenise_comma_join [of "[eff]"] assms(4,5) by simp
  then have pol: "kp_getPolicies (ks_config s) eff = [''0'']"
    by (simp add: kp_getPolicies_def kp_getPolicy_def assms(6,7))
  have "kp_parseEffect (acc_karma a) ''0'' = Inr (acc_karma a)"
  proof -
    have "int_str 0 = ''0''" by code_simp
    then show ?thesis
      using parseEffect_str [of "acc_karma a" "Change 0"] B(4,5) by (simp add: MAX_KARMA_def)
  qed
  then have "kp_afterwards (ks_config s) (acc_karma a) eff = Inr (acc_karma a)"
    by (simp add: kp_afterwards_def pol)
  with B show ?thesis
    by (simp add: kp_couldPerform_def pbind_apply pthen_apply kp_getPolicy_def assms(3))
qed

lemma karma_couldPerform_ignores_cost_example:
  "let s = kp_new [(''login'', ''-20000'')]; a = \<lparr>ka_id = 0, ka_policy = PolicyBasic, ka_name = ''x''\<rparr>
   in fst (kp_couldPerform a ''login'' s) = Inr True \<and> fst (kp_perform a ''login'' False s) = Inl (mk_XKarma ''login'')"
proof -
  let ?s = "kp_new [(''login'', ''-20000'')]"
    and ?a = "\<lparr>ka_id = 0, ka_policy = PolicyBasic, ka_name = ''x''\<rparr>"
  have u: "kp_usable ?s ?a"
    using kp_new_inv [of "[(''login'', ''-20000'')]"] by (simp add: kp_usable_def kp_inv_def)
  have "fst (kp_couldPerform ?a ''login'' ?s) = Inr True"
    by (rule karma_couldPerform_ignores_cost [OF kp_new_inv u, where eff = "''-20000''"])
       (simp_all add: kp_new_config)
  moreover have "fst (kp_perform ?a ''login'' False ?s) = Inl (mk_XKarma ''login'')"
    using login_too_dear [OF kp_new_inv [of "[(''login'', ''-20000'')]"], of "''(null karma account)''" ?a] kp_new_null by (simp add: kp_new_config)
  ultimately show ?thesis unfolding Let_def by (rule conjI)
qed

end
