(* ===== verification/RingBuffer.thy ===== *)
theory RingBuffer
  imports Prelude
begin

text \<open>
  \<^verbatim>\<open>basic_comms/src/cpp/RingBuffer.hpp\<close>: the circular byte store between a socket and the message
  readers and senders. Sizes and positions are 64-bit words as in the code; the mutex is an explicit
  flag, so that locking it twice shows as a \<open>Deadlock\<close>. The locale \<open>byte_fifo\<close> is the contract the
  endpoint relies on: a first-in first-out queue of bytes of bounded capacity.
\<close>

subsection \<open>State\<close>

datatype ring_signal = SpaceReady | DataReady

record ring =
  rb_size :: u64
  rb_freeSpace :: u64
  rb_readp :: u64
  rb_writep :: u64
  rb_store :: "byte list"
  rb_mut :: bool
  rb_signals :: "ring_signal list"

text \<open>A buffer of \<^verbatim>\<open>boost::asio\<close> into the store: offset and length.\<close>

type_synonym region = "u64 \<times> u64"

definition rb_clear :: "ring \<Rightarrow> ring" where
  "rb_clear r = r\<lparr>rb_freeSpace := rb_size r, rb_writep := 0, rb_readp := 0\<rparr>"

text \<open>\<open>mem\<close> is what \<^verbatim>\<open>malloc\<close> returned.\<close>

definition rb_new :: "byte list \<Rightarrow> ring" where
  "rb_new mem = rb_clear \<lparr>rb_size = of_nat (length mem), rb_freeSpace = 0, rb_readp = 0, rb_writep = 0,
     rb_store = mem, rb_mut = False, rb_signals = []\<rparr>"

text \<open>\<^verbatim>\<open>Lock lock(mut)\<close> around the rest of a block.\<close>

definition rb_locked :: "(ring, 'a) prog \<Rightarrow> (ring, 'a) prog" where
  "rb_locked m = (\<lambda>r. if rb_mut r then (Inl Deadlock, r)
     else (case m (r\<lparr>rb_mut := True\<rparr>) of (x, r') \<Rightarrow> (x, r'\<lparr>rb_mut := False\<rparr>)))"

definition rb_lockless_getFreeSpace :: "ring \<Rightarrow> u64" where
  "rb_lockless_getFreeSpace r = rb_freeSpace r"

definition rb_lockless_getDataAvailable :: "ring \<Rightarrow> u64" where
  "rb_lockless_getDataAvailable r = rb_size r - rb_freeSpace r"

definition rb_getFreeSpace :: "(ring, u64) prog" where
  "rb_getFreeSpace = rb_locked (pget rb_lockless_getFreeSpace)"

definition rb_getDataAvailable :: "(ring, u64) prog" where
  "rb_getDataAvailable = rb_locked (pget rb_lockless_getDataAvailable)"

definition rb_hasFreeSpace :: "(ring, bool) prog" where
  "rb_hasFreeSpace = rb_locked (pget (\<lambda>r. 0 < rb_lockless_getFreeSpace r))"

definition rb_hasDataAvailable :: "(ring, bool) prog" where
  "rb_hasDataAvailable = rb_locked (pget (\<lambda>r. 0 < rb_lockless_getDataAvailable r))"

definition rb_empty :: "(ring, bool) prog" where
  "rb_empty = pbind rb_getFreeSpace (\<lambda>f. pget (\<lambda>r. f = rb_size r))"

definition rb_getSpaceBuffer :: "(ring, region) prog" where
  "rb_getSpaceBuffer = rb_locked (pbind rb_getFreeSpace (\<lambda>f.
     if f = 0 then pret (0, 0)
     else pget (\<lambda>r. (rb_writep r mod rb_size r,
                     min (rb_writep r + rb_lockless_getFreeSpace r) (rb_size r) - rb_writep r))))"

definition rb_getDataBuffer :: "(ring, region) prog" where
  "rb_getDataBuffer = rb_locked (pbind rb_getFreeSpace (\<lambda>f. pbind (pget rb_size) (\<lambda>size.
     if f = size then pret (0, 0)
     else pget (\<lambda>r. (rb_readp r mod rb_size r,
                     min (rb_readp r + rb_lockless_getDataAvailable r) (rb_size r) - rb_readp r)))))"

definition rb_getSpaceBuffers :: "(ring, region list) prog" where
  "rb_getSpaceBuffers = rb_locked (pget (\<lambda>r.
     if 0 < rb_lockless_getFreeSpace r then
       (let buffer1size = min (rb_writep r + rb_lockless_getFreeSpace r) (rb_size r) - rb_writep r;
            buffer2size = rb_lockless_getFreeSpace r - buffer1size
        in (rb_writep r, buffer1size) # (if buffer2size \<noteq> 0 then [(0, buffer2size)] else []))
     else []))"

definition rb_getDataBuffers :: "(ring, region list) prog" where
  "rb_getDataBuffers = rb_locked (pget (\<lambda>r.
     if rb_lockless_getDataAvailable r < rb_size r then
       (let buffer1size = min (rb_readp r + rb_lockless_getDataAvailable r) (rb_size r) - rb_readp r;
            buffer2size = rb_lockless_getDataAvailable r - buffer1size
        in (rb_readp r, buffer1size) # (if buffer2size \<noteq> 0 then [(0, buffer2size)] else []))
     else []))"

text \<open>The signals are recorded in the order they are raised (both callbacks are empty in the code).\<close>

definition rb_signal :: "ring_signal \<Rightarrow> (ring, unit) prog" where
  "rb_signal x = pmodify (\<lambda>r. r\<lparr>rb_signals := rb_signals r @ [x]\<rparr>)"

definition rb_markSpaceUsed :: "u64 \<Rightarrow> (ring, unit) prog" where
  "rb_markSpaceUsed amount =
     pbind (rb_locked (
       pthen (pmodify (\<lambda>r. r\<lparr>rb_writep := rb_writep r + amount\<rparr>))
      (pthen (pmodify (\<lambda>r. r\<lparr>rb_writep := rb_writep r mod rb_size r\<rparr>))
      (pbind (pget rb_lockless_getDataAvailable) (\<lambda>prevAvail.
       pthen (pmodify (\<lambda>r. r\<lparr>rb_freeSpace := rb_freeSpace r - amount\<rparr>))
       (pret prevAvail))))))
     (\<lambda>prevAvail. if prevAvail = 0 then rb_signal DataReady else pret ())"

definition rb_markDataUsed :: "u64 \<Rightarrow> (ring, unit) prog" where
  "rb_markDataUsed amount =
     pbind (rb_locked (
       pthen (pmodify (\<lambda>r. r\<lparr>rb_readp := rb_readp r + amount\<rparr>))
      (pthen (pmodify (\<lambda>r. r\<lparr>rb_readp := rb_readp r mod rb_size r\<rparr>))
      (pbind (pget rb_lockless_getFreeSpace) (\<lambda>prevSpace.
       pthen (pmodify (\<lambda>r. r\<lparr>rb_freeSpace := rb_freeSpace r + amount\<rparr>))
       (pret prevSpace))))))
     (\<lambda>prevSpace. if prevSpace = 0 then rb_signal SpaceReady else pret ())"

subsection \<open>Memory behind the regions\<close>

text \<open>
  What \<^verbatim>\<open>boost::asio\<close> and the character buffers do with the regions: \<open>gather\<close> reads them one after the
  other, \<open>scatter\<close> fills them one after the other.
\<close>

definition gather :: "region list \<Rightarrow> byte list \<Rightarrow> byte list list" where
  "gather rs st = map (\<lambda>(p, n). take (unat n) (drop (unat p) st)) rs"

fun scatter :: "region list \<Rightarrow> byte list list \<Rightarrow> byte list \<Rightarrow> byte list" where
  "scatter ((p, n) # rs) (b # bs) st = scatter rs bs (overwrite (unat p) b st)"
| "scatter _ _ st = st"

text \<open>Splitting a byte sequence over the regions, as a scatter read of the socket does.\<close>

fun split_over :: "region list \<Rightarrow> byte list \<Rightarrow> byte list list" where
  "split_over [] xs = []"
| "split_over ((p, n) # rs) xs = take (unat n) xs # split_over rs (drop (unat n) xs)"

subsection \<open>Invariant and contents\<close>

definition rb_inv :: "ring \<Rightarrow> bool" where
  "rb_inv r \<longleftrightarrow>
     0 < unat (rb_size r) \<and> unat (rb_size r) < 2 ^ 63 \<and> length (rb_store r) = unat (rb_size r) \<and>
     unat (rb_freeSpace r) \<le> unat (rb_size r) \<and>
     unat (rb_readp r) < unat (rb_size r) \<and>
     unat (rb_writep r) = (unat (rb_readp r) + (unat (rb_size r) - unat (rb_freeSpace r))) mod unat (rb_size r) \<and>
     \<not> rb_mut r"

definition rb_capacity :: "ring \<Rightarrow> nat" where
  "rb_capacity r = unat (rb_size r)"

text \<open>The bytes waiting in the ring, oldest first.\<close>

definition rb_data :: "ring \<Rightarrow> byte list" where
  "rb_data r = map (\<lambda>k. rb_store r ! ((unat (rb_readp r) + k) mod unat (rb_size r)))
                   [0..<unat (rb_size r) - unat (rb_freeSpace r)]"

lemma length_rb_data: "length (rb_data r) = unat (rb_size r) - unat (rb_freeSpace r)"
  by (simp add: rb_data_def)

definition two_regions :: "nat \<Rightarrow> nat \<Rightarrow> nat \<Rightarrow> (nat \<times> nat) list" where
  "two_regions p n sz =
     (let b1 = min (p + n) sz - p; b2 = n - b1
      in (p, b1) # (if b2 \<noteq> 0 then [(0, b2)] else []))"

definition nat_region :: "region \<Rightarrow> nat \<times> nat" where
  "nat_region x = (unat (fst x), unat (snd x))"

text \<open>The 64-bit computation of the regions has no overflow: it is \<open>two_regions\<close>.\<close>

lemma regions_nat:
  fixes p n sz :: u64
  assumes "unat p < unat sz" "unat sz < 2 ^ 63" "unat n \<le> unat sz"
  shows "map nat_region
           (let b1 = min (p + n) sz - p; b2 = n - b1
            in (p, b1) # (if b2 \<noteq> 0 then [(0, b2)] else [])) = two_regions (unat p) (unat n) (unat sz)"
proof -
  have s: "unat (p + n) = unat p + unat n"
    using assms by (intro unat_plus_small) simp
  have m: "unat (min (p + n) sz) = min (unat p + unat n) (unat sz)"
    using s by (simp add: min_def word_le_nat_alt)
  have b1: "unat (min (p + n) sz - p) = min (unat p + unat n) (unat sz) - unat p"
    using assms m by (subst unat_minus_small) auto
  have b2: "unat (n - (min (p + n) sz - p)) = unat n - (min (unat p + unat n) (unat sz) - unat p)"
    using assms b1 by (subst unat_minus_small) auto
  have z: "n - (min (p + n) sz - p) \<noteq> 0 \<longleftrightarrow> unat n - (min (unat p + unat n) (unat sz) - unat p) \<noteq> 0"
    using b2 by (metis unat_eq_zero)
  show ?thesis
    unfolding two_regions_def Let_def nat_region_def z by (auto simp: b1 b2)
qed

text \<open>Reading \<open>two_regions\<close> is reading round the ring.\<close>

lemma gather_two_regions:
  assumes "p < sz" "n \<le> sz" "length st = sz"
  shows "concat (map (\<lambda>(p, n). take n (drop p st)) (two_regions p n sz)) =
         map (\<lambda>k. st ! ((p + k) mod sz)) [0..<n]"
proof (rule nth_equalityI)
  show len: "length (concat (map (\<lambda>(p, n). take n (drop p st)) (two_regions p n sz))) =
        length (map (\<lambda>k. st ! ((p + k) mod sz)) [0..<n])"
    using assms by (auto simp: two_regions_def Let_def)
  fix i assume i: "i < length (concat (map (\<lambda>(p, n). take n (drop p st)) (two_regions p n sz)))"
  then have n: "i < n" using len by simp
  show "concat (map (\<lambda>(p, n). take n (drop p st)) (two_regions p n sz)) ! i =
        map (\<lambda>k. st ! ((p + k) mod sz)) [0..<n] ! i"
  proof (cases "p + i < sz")
    case True
    then show ?thesis
      using n assms by (auto simp: two_regions_def Let_def nth_append)
  next
    case False
    then have "(p + i) mod sz = p + i - sz"
      using n assms by (simp add: mod_if)
    with False show ?thesis
      using n assms by (auto simp: two_regions_def Let_def nth_append add.commute [of i p])
  qed
qed

text \<open>Writing a sequence that starts at \<open>p\<close> over the ring changes exactly the cells it runs over.\<close>

fun scatter_nat :: "(nat \<times> nat) list \<Rightarrow> 'a list \<Rightarrow> 'a list \<Rightarrow> 'a list" where
  "scatter_nat [] xs st = st"
| "scatter_nat ((p, n) # rs) xs st = scatter_nat rs (drop n xs) (overwrite p (take n xs) st)"

lemma scatter_split:
  "scatter rs (split_over rs xs) st = scatter_nat (map nat_region rs) xs st"
  by (induction rs xs arbitrary: st rule: split_over.induct) (auto simp: nat_region_def)

lemma scatter_two_regions:
  assumes "p < sz" "n \<le> sz" "length st = sz" "length xs \<le> n" "i < sz"
  shows "scatter_nat (two_regions p n sz) xs st ! i =
           (let k = (i + sz - p) mod sz in if k < length xs then xs ! k else st ! i)"
    and "length (scatter_nat (two_regions p n sz) xs st) = sz"
proof -
  have k: "(i + sz - p) mod sz = (if p \<le> i then i - p else i + sz - p)"
    using assms by (auto simp: mod_if)
  show "scatter_nat (two_regions p n sz) xs st ! i =
           (let k = (i + sz - p) mod sz in if k < length xs then xs ! k else st ! i)"
  proof (cases "p + n \<le> sz")
    case True
    then show ?thesis
      using assms by (auto simp: two_regions_def Let_def nth_overwrite k)
  next
    case False
    then have b1: "min (p + n) sz - p = sz - p" and ne: "n - (sz - p) \<noteq> 0" using assms(1) by auto
    have l1: "length (overwrite p (take (sz - p) xs) st) = sz"
      using assms by (intro length_overwrite [THEN trans]) auto
    show ?thesis
      using assms False l1
      by (auto simp: two_regions_def Let_def b1 nth_overwrite k add.commute [of "length st" i])
  qed
  show "length (scatter_nat (two_regions p n sz) xs st) = sz"
    using assms by (auto simp: two_regions_def Let_def)
qed

subsection \<open>Queue operations and the contract\<close>

text \<open>
  The two ways the endpoint uses a ring: a writer takes the space regions, fills them and marks what it
  wrote; a reader takes the data regions, looks at their bytes and marks what it used.
\<close>

definition rb_write :: "byte list \<Rightarrow> (ring, unit) prog" where
  "rb_write xs = pbind rb_getSpaceBuffers (\<lambda>rs.
     pthen (pmodify (\<lambda>r. r\<lparr>rb_store := scatter rs (split_over rs xs) (rb_store r)\<rparr>))
           (rb_markSpaceUsed (of_nat (length xs))))"

definition rb_peek :: "(ring, byte list) prog" where
  "rb_peek = pbind rb_getDataBuffers (\<lambda>rs. pget (\<lambda>r. concat (gather rs (rb_store r))))"

definition rb_consume :: "nat \<Rightarrow> (ring, unit) prog" where
  "rb_consume n = rb_markDataUsed (of_nat n)"

lemma if_both: "P a \<Longrightarrow> P b \<Longrightarrow> P (if c then a else b)"
  by simp

lemma rb_signals_frame [simp]:
  "rb_inv (r\<lparr>rb_signals := x\<rparr>) = rb_inv r" "rb_data (r\<lparr>rb_signals := x\<rparr>) = rb_data r"
  by (simp_all add: rb_inv_def rb_data_def)

lemma rb_locked_run: "\<not> rb_mut r \<Longrightarrow> rb_locked (pget f) r = (Inr (f (r\<lparr>rb_mut := True\<rparr>)), r)"
  by (simp add: rb_locked_def)

lemma gather_nat: "concat (gather rs st) = concat (map (\<lambda>(p, n). take n (drop p st)) (map nat_region rs))"
  by (simp add: gather_def nat_region_def comp_def split_def)

lemma rb_avail:
  "rb_inv r \<Longrightarrow> unat (rb_lockless_getDataAvailable r) = unat (rb_size r) - unat (rb_freeSpace r)"
  unfolding rb_inv_def rb_lockless_getDataAvailable_def by (intro unat_minus_small) simp

lemma rb_peek_data:
  assumes "rb_inv r"
  shows "rb_peek r = (Inr (if length (rb_data r) = rb_capacity r then [] else rb_data r), r)"
proof -
  note I = assms [unfolded rb_inv_def] and A = rb_avail [OF assms]
  have lock: "\<not> rb_mut r" using I by simp
  have full: "rb_lockless_getDataAvailable r < rb_size r \<longleftrightarrow> length (rb_data r) \<noteq> rb_capacity r"
    using A I by (auto simp: word_less_nat_alt length_rb_data rb_capacity_def)
  show ?thesis
  proof (cases "length (rb_data r) = rb_capacity r")
    case True
    with full show ?thesis
      by (simp add: rb_peek_def rb_getDataBuffers_def pbind_apply rb_locked_run [OF lock]
          rb_lockless_getDataAvailable_def gather_def)
  next
    case False
    let ?rs = "let b1 = min (rb_readp r + rb_lockless_getDataAvailable r) (rb_size r) - rb_readp r;
                   b2 = rb_lockless_getDataAvailable r - b1
               in (rb_readp r, b1) # (if b2 \<noteq> 0 then [(0, b2)] else [])"
    have "map nat_region ?rs = two_regions (unat (rb_readp r)) (unat (rb_lockless_getDataAvailable r)) (unat (rb_size r))"
      using I A by (intro regions_nat) auto
    then have "concat (gather ?rs (rb_store r)) = rb_data r"
      unfolding gather_nat using I A by (simp only: rb_data_def) (intro gather_two_regions, auto)
    moreover have "rb_getDataBuffers r = (Inr ?rs, r)"
      using False full by (simp add: rb_getDataBuffers_def rb_locked_run [OF lock]
          rb_lockless_getDataAvailable_def Let_def)
    ultimately show ?thesis
      using False by (simp add: rb_peek_def pbind_apply)
  qed
qed

lemma rb_consume_state:
  assumes "rb_inv r" "n \<le> length (rb_data r)"
  obtains r' where "rb_consume n r = (Inr (), r')" "rb_inv r'" "rb_data r' = drop n (rb_data r)"
    "rb_capacity r' = rb_capacity r"
    "rb_signals r' = rb_signals r @ (if length (rb_data r) = rb_capacity r then [SpaceReady] else [])"
proof -
  note I = assms(1) [unfolded rb_inv_def]
  let ?S = "unat (rb_size r)" and ?F = "unat (rb_freeSpace r)" and ?P = "unat (rb_readp r)"
  have n: "n \<le> ?S - ?F" using assms(2) by (simp add: length_rb_data)
  have "n < 2 ^ 64" using n I by auto
  then have nw: "unat (of_nat n :: u64) = n"
    by (simp add: unsigned_of_nat take_bit_nat_eq_self)
  have rp: "unat ((rb_readp r + of_nat n) mod rb_size r) = (?P + n) mod ?S"
  proof -
    have "unat (rb_readp r + of_nat n) = ?P + n"
      using I n nw by (subst unat_plus_small) auto
    then show ?thesis by (simp add: unat_mod_distrib)
  qed
  have fs: "unat (rb_freeSpace r + of_nat n) = ?F + n"
    using I n nw by (subst unat_plus_small) auto
  let ?q = "r\<lparr>rb_readp := (rb_readp r + of_nat n) mod rb_size r, rb_freeSpace := rb_freeSpace r + of_nat n\<rparr>"
  let ?r = "if rb_freeSpace r = 0 then ?q\<lparr>rb_signals := rb_signals r @ [SpaceReady]\<rparr> else ?q"
  have run: "rb_consume n r = (Inr (), ?r)"
    using I by (simp add: rb_consume_def rb_markDataUsed_def rb_locked_def pbind_apply pthen_apply
        rb_lockless_getFreeSpace_def rb_signal_def)
  have mod: "((?P + n) mod ?S + (?S - (?F + n))) mod ?S = (?P + (?S - ?F)) mod ?S"
  proof -
    have "?P + n + (?S - (?F + n)) = ?P + (?S - ?F)" using n I by auto
    then show ?thesis by (metis mod_add_left_eq)
  qed
  have "rb_inv ?q"
    unfolding rb_inv_def
  proof (intro conjI)
    show "unat (rb_freeSpace ?q) \<le> unat (rb_size ?q)" using I n by (auto simp: fs)
    show "unat (rb_writep ?q) = (unat (rb_readp ?q) + (unat (rb_size ?q) - unat (rb_freeSpace ?q))) mod unat (rb_size ?q)"
      using I mod by (simp add: rp fs)
  qed (use I in \<open>simp_all add: rp\<close>)
  then have inv: "rb_inv ?r" by (intro if_both [where P = rb_inv]) simp_all
  have "rb_data ?r = rb_data ?q"
    by (rule if_both [where P = "\<lambda>x. rb_data x = rb_data ?q"]) simp_all
  also have "rb_data ?q = map (\<lambda>k. rb_store r ! (((?P + n) mod ?S + k) mod ?S)) [0..<?S - (?F + n)]"
    by (simp add: rb_data_def rp fs)
  also have "\<dots> = drop n (rb_data r)"
    by (rule nth_equalityI) (auto simp: rb_data_def mod_add_left_eq add.assoc)
  finally have data: "rb_data ?r = drop n (rb_data r)" .
  have full: "rb_freeSpace r = 0 \<longleftrightarrow> length (rb_data r) = rb_capacity r"
    using I by (auto simp: length_rb_data rb_capacity_def unat_eq_zero [symmetric])
  show thesis
    by (rule that [OF run inv data]) (use full in \<open>simp_all add: rb_capacity_def\<close>)
qed

lemma ring_distance:
  fixes p k a s :: nat
  assumes "0 < s" "a \<le> s"
  shows "((p + k) mod s + s - (p + a) mod s) mod s = (k + (s - a)) mod s"
proof -
  have le: "(p + a) mod s \<le> (p + k) mod s + s"
    using assms(1) by (meson le_add2 mod_less_divisor order.strict_implies_order order_trans)
  have "int (((p + k) mod s + s - (p + a) mod s) mod s) =
        ((int p + int k) mod int s + int s - (int p + int a) mod int s) mod int s"
    using le by (simp add: of_nat_mod of_nat_diff)
  also have "\<dots> = (int k + (int s - int a)) mod int s"
  proof -
    have "((int p + int k) mod int s + int s - (int p + int a) mod int s) mod int s =
          ((int p + int k) + int s - (int p + int a)) mod int s"
      by (intro mod_diff_cong mod_add_cong) simp_all
    then show ?thesis by (simp add: algebra_simps)
  qed
  also have "\<dots> = int ((k + (s - a)) mod s)"
    using assms(2) by (simp add: of_nat_mod of_nat_diff add_diff_eq)
  finally show ?thesis by simp
qed

lemma rb_write_state:
  assumes "rb_inv r" "length xs + length (rb_data r) \<le> rb_capacity r"
  obtains r' where "rb_write xs r = (Inr (), r')" "rb_inv r'" "rb_data r' = rb_data r @ xs"
    "rb_capacity r' = rb_capacity r"
    "rb_signals r' = rb_signals r @ (if rb_data r = [] then [DataReady] else [])"
proof -
  note I = assms(1) [unfolded rb_inv_def]
  let ?S = "unat (rb_size r)" and ?F = "unat (rb_freeSpace r)" and ?P = "unat (rb_readp r)"
    and ?W = "unat (rb_writep r)" and ?n = "length xs"
  have n: "?n \<le> ?F" using assms(2) I by (auto simp: length_rb_data rb_capacity_def)
  have "?n < 2 ^ 64" using n I by auto
  then have nw: "unat (of_nat ?n :: u64) = ?n"
    by (simp add: unsigned_of_nat take_bit_nat_eq_self)
  have wlt: "?W < ?S" and S63: "?S < 2 ^ 63" and FS: "?F \<le> ?S" using I by simp_all
  have W64: "?W + ?n < 2 ^ 64" using wlt S63 FS n by simp
  have wp: "unat ((rb_writep r + of_nat ?n) mod rb_size r) = (?W + ?n) mod ?S"
  proof -
    have "unat (rb_writep r + of_nat ?n) = ?W + ?n"
      using W64 nw by (subst unat_plus_small) auto
    then show ?thesis by (simp add: unat_mod_distrib)
  qed
  have fs: "unat (rb_freeSpace r - of_nat ?n) = ?F - ?n"
    using n nw by (subst unat_minus_small) auto
  define st where "st = (if rb_freeSpace r = 0 then rb_store r else scatter_nat (two_regions ?W ?F ?S) xs (rb_store r))"
  have st_nth: "st ! i = (let k = (i + ?S - ?W) mod ?S in if k < ?n then xs ! k else rb_store r ! i)"
    and st_len: "length st = ?S" if "i < ?S" for i
    using scatter_two_regions [of ?W ?S ?F "rb_store r" xs i] I n wlt that
    by (auto simp: st_def Let_def)
  let ?rs = "let b1 = min (rb_writep r + rb_freeSpace r) (rb_size r) - rb_writep r;
                 b2 = rb_freeSpace r - b1
             in (rb_writep r, b1) # (if b2 \<noteq> 0 then [(0, b2)] else [])"
  have rs: "map nat_region ?rs = two_regions ?W ?F ?S"
    using I wlt by (intro regions_nat) auto
  have bufs: "rb_getSpaceBuffers r = (Inr (if rb_freeSpace r = 0 then [] else ?rs), r)"
    using I by (simp add: rb_getSpaceBuffers_def rb_locked_run rb_lockless_getFreeSpace_def Let_def word_gt_0)
  have store: "scatter (if rb_freeSpace r = 0 then [] else ?rs)
      (split_over (if rb_freeSpace r = 0 then [] else ?rs) xs) (rb_store r) = st"
    unfolding st_def by (cases "rb_freeSpace r = 0") (simp_all only: scatter_split rs if_True if_False refl, simp)
  let ?q = "r\<lparr>rb_store := st, rb_writep := (rb_writep r + of_nat ?n) mod rb_size r,
               rb_freeSpace := rb_freeSpace r - of_nat ?n\<rparr>"
  let ?r = "if rb_size r - rb_freeSpace r = 0 then ?q\<lparr>rb_signals := rb_signals r @ [DataReady]\<rparr> else ?q"
  have run: "rb_write xs r = (Inr (), ?r)"
    using I by (simp add: rb_write_def bufs pbind_apply store rb_markSpaceUsed_def rb_locked_def pthen_apply
        rb_lockless_getDataAvailable_def rb_signal_def)
  have mod: "(?W + ?n) mod ?S = (?P + (?S - (?F - ?n))) mod ?S"
  proof -
    have "?S - (?F - ?n) = ?S - ?F + ?n" using n I by auto
    then show ?thesis using I by (simp add: mod_add_left_eq add.assoc)
  qed
  have "rb_inv ?q"
    unfolding rb_inv_def
  proof (intro conjI)
    show "unat (rb_freeSpace ?q) \<le> unat (rb_size ?q)" using I n by (auto simp: fs)
    show "unat (rb_writep ?q) = (unat (rb_readp ?q) + (unat (rb_size ?q) - unat (rb_freeSpace ?q))) mod unat (rb_size ?q)"
      using mod by (simp add: wp fs)
  qed (use I st_len [of 0] in simp_all)
  then have inv: "rb_inv ?r" by (intro if_both [where P = rb_inv]) simp_all
  have "rb_data ?r = rb_data ?q"
    by (rule if_both [where P = "\<lambda>x. rb_data x = rb_data ?q"]) simp_all
  also have "rb_data ?q = map (\<lambda>k. st ! ((?P + k) mod ?S)) [0..<?S - (?F - ?n)]"
    by (simp add: rb_data_def fs)
  also have "\<dots> = rb_data r @ xs"
  proof (rule nth_equalityI)
    show "length (map (\<lambda>k. st ! ((?P + k) mod ?S)) [0..<?S - (?F - ?n)]) = length (rb_data r @ xs)"
      using n I by (auto simp: length_rb_data)
    fix k assume "k < length (map (\<lambda>k. st ! ((?P + k) mod ?S)) [0..<?S - (?F - ?n)])"
    then have kb: "k < ?S - (?F - ?n)" by simp
    then have k: "k < ?S - ?F + ?n" using n FS by simp
    have d: "((?P + k) mod ?S + ?S - ?W) mod ?S = (k + ?F) mod ?S"
      using I ring_distance [of ?S "?S - ?F" ?P k] by simp
    have lt: "(?P + k) mod ?S < ?S" using I by simp
    have v: "st ! ((?P + k) mod ?S) =
        (if (k + ?F) mod ?S < ?n then xs ! ((k + ?F) mod ?S) else rb_store r ! ((?P + k) mod ?S))"
      using st_nth [OF lt] by (simp only: d Let_def)
    have "map (\<lambda>k. st ! ((?P + k) mod ?S)) [0..<?S - (?F - ?n)] ! k = st ! ((?P + k) mod ?S)"
      using kb by simp
    also have "\<dots> = (rb_data r @ xs) ! k"
    proof (cases "k < ?S - ?F")
      case True
      then have "(k + ?F) mod ?S = k + ?F" by simp
      moreover have "\<not> k + ?F < ?n" using n by simp
      ultimately have "st ! ((?P + k) mod ?S) = rb_store r ! ((?P + k) mod ?S)" using v by simp
      also have "\<dots> = rb_data r ! k" using True by (simp add: rb_data_def)
      finally show ?thesis using True by (simp add: nth_append length_rb_data)
    next
      case False
      then have "k + ?F = k - (?S - ?F) + ?S" "k - (?S - ?F) < ?S" using k n FS wlt by auto
      then have "(k + ?F) mod ?S = k - (?S - ?F)" by (metis mod_add_self2 mod_less)
      moreover have "k - (?S - ?F) < ?n" using False k by simp
      ultimately have "st ! ((?P + k) mod ?S) = xs ! (k - (?S - ?F))" using v by simp
      then show ?thesis using False by (simp add: nth_append length_rb_data)
    qed
    finally show "map (\<lambda>k. st ! ((?P + k) mod ?S)) [0..<?S - (?F - ?n)] ! k = (rb_data r @ xs) ! k" .
  qed
  finally have data: "rb_data ?r = rb_data r @ xs" .
  have empty: "rb_size r - rb_freeSpace r = 0 \<longleftrightarrow> rb_data r = []"
    using rb_avail [OF assms(1)] by (auto simp: rb_lockless_getDataAvailable_def rb_data_def unat_eq_zero [symmetric])
  show thesis
    by (rule that [OF run inv data]) (use empty in \<open>simp_all add: rb_capacity_def\<close>)
qed

datatype fifo_op = Push "byte list" | Pull nat

text \<open>
  A producer and a consumer taking turns: \<open>Push\<close> writes its bytes when they fit, \<open>Pull n\<close> takes up to
  \<open>n\<close> of the bytes the queue shows. The result is what was put in and what was taken out.
\<close>

fun fifo_step :: "('s \<Rightarrow> nat) \<Rightarrow> (byte list \<Rightarrow> ('s, unit) prog) \<Rightarrow> ('s, byte list) prog \<Rightarrow>
    (nat \<Rightarrow> ('s, unit) prog) \<Rightarrow> fifo_op \<Rightarrow> ('s, byte list \<times> byte list) prog" where
  "fifo_step free enq peek deq (Push xs) = pbind (pget free) (\<lambda>f.
     if length xs \<le> f then pthen (enq xs) (pret (xs, [])) else pret ([], []))"
| "fifo_step free enq peek deq (Pull n) = pbind peek (\<lambda>d.
     pthen (deq (min n (length d))) (pret ([], take (min n (length d)) d)))"

fun fifo_run :: "('s \<Rightarrow> nat) \<Rightarrow> (byte list \<Rightarrow> ('s, unit) prog) \<Rightarrow> ('s, byte list) prog \<Rightarrow>
    (nat \<Rightarrow> ('s, unit) prog) \<Rightarrow> fifo_op list \<Rightarrow> ('s, byte list \<times> byte list) prog" where
  "fifo_run free enq peek deq [] = pret ([], [])"
| "fifo_run free enq peek deq (x # xs) =
     pbind (fifo_step free enq peek deq x) (\<lambda>(i, u).
     pbind (fifo_run free enq peek deq xs) (\<lambda>(is, us). pret (i @ is, u @ us)))"

locale byte_fifo =
  fixes free :: "'s \<Rightarrow> nat"
    and enq :: "byte list \<Rightarrow> ('s, unit) prog"
    and peek :: "('s, byte list) prog"
    and deq :: "nat \<Rightarrow> ('s, unit) prog"
    and contents :: "'s \<Rightarrow> byte list"
    and inv :: "'s \<Rightarrow> bool"
  assumes write_ok: "inv s \<Longrightarrow> length xs \<le> free s \<Longrightarrow>
      \<exists>s'. enq xs s = (Inr (), s') \<and> inv s' \<and> contents s' = contents s @ xs"
    and peek_ok: "inv s \<Longrightarrow> \<exists>d r. peek s = (Inr d, s) \<and> contents s = d @ r"
    and peek_all: "inv s \<Longrightarrow> 0 < free s \<Longrightarrow> peek s = (Inr (contents s), s)"
    and consume_ok: "inv s \<Longrightarrow> n \<le> length (contents s) \<Longrightarrow>
      \<exists>s'. deq n s = (Inr (), s') \<and> inv s' \<and> contents s' = drop n (contents s)"
begin

lemma step_stream:
  assumes "inv s"
  shows "\<exists>i u s'. fifo_step free enq peek deq x s = (Inr (i, u), s') \<and> inv s' \<and>
           contents s @ i = u @ contents s'"
proof (cases x)
  case (Push xs)
  then show ?thesis
    using write_ok [OF assms, of xs] assms by (auto simp: pbind_apply pthen_apply)
next
  case (Pull n)
  obtain d r where d: "peek s = (Inr d, s)" "contents s = d @ r"
    using peek_ok [OF assms] by blast
  obtain s' where "deq (min n (length d)) s = (Inr (), s')" "inv s'"
    "contents s' = drop (min n (length d)) (contents s)"
    using consume_ok [OF assms, of "min n (length d)"] d(2) by (auto simp: min_le_iff_disj trans_le_add1)
  then show ?thesis
    using Pull d by (auto simp: pbind_apply pthen_apply min_def)
qed

lemma run_stream:
  assumes "inv s"
  shows "\<exists>is us s'. fifo_run free enq peek deq xs s = (Inr (is, us), s') \<and> inv s' \<and>
           contents s @ is = us @ contents s'"
  using assms
proof (induction xs arbitrary: s)
  case Nil
  then show ?case by simp
next
  case (Cons x xs)
  obtain i u s1 where 1: "fifo_step free enq peek deq x s = (Inr (i, u), s1)" "inv s1"
    "contents s @ i = u @ contents s1"
    using step_stream [OF Cons.prems] by blast
  obtain ii us s2 where 2: "fifo_run free enq peek deq xs s1 = (Inr (ii, us), s2)" "inv s2"
    "contents s1 @ ii = us @ contents s2"
    using Cons.IH [OF 1(2)] by blast
  have "contents s @ i @ ii = u @ us @ contents s2"
    using 1(3) 2(3) by (metis append.assoc)
  then show ?case
    using 1 2 by (simp add: pbind_apply)
qed

text \<open>With room to spare, a \<open>Pull\<close> returns all it is asked for, if it is there.\<close>

lemma pull_progress:
  assumes "inv s" "0 < free s"
  shows "\<exists>s'. fifo_step free enq peek deq (Pull n) s = (Inr ([], take n (contents s)), s')"
  using peek_all [OF assms] consume_ok [OF assms(1), of "min n (length (contents s))"]
  by (auto simp: pbind_apply pthen_apply min_def)

end

definition rb_free :: "ring \<Rightarrow> nat" where
  "rb_free r = unat (rb_freeSpace r)"

lemma rb_free_data: "rb_inv r \<Longrightarrow> rb_free r + length (rb_data r) = rb_capacity r"
  by (auto simp: rb_inv_def rb_free_def length_rb_data rb_capacity_def)

interpretation rb: byte_fifo rb_free rb_write rb_peek rb_consume rb_data rb_inv
proof (unfold_locales, goal_cases)
  case (1 s xs)
  then have "length xs + length (rb_data s) \<le> rb_capacity s"
    using rb_free_data [OF 1(1)] by simp
  then show ?case by (rule rb_write_state [OF 1(1)]) blast
next
  case (2 s)
  then show ?case by (cases "length (rb_data s) = rb_capacity s") (auto simp: rb_peek_data)
next
  case (3 s)
  then show ?case using rb_free_data [OF 3(1)] by (simp add: rb_peek_data)
next
  case (4 s n)
  then show ?case by (rule rb_consume_state) blast
qed

lemma rb_new_inv: "0 < length mem \<Longrightarrow> length mem < 2 ^ 63 \<Longrightarrow> rb_inv (rb_new mem)"
  by (simp add: rb_inv_def rb_new_def rb_clear_def unsigned_of_nat take_bit_nat_eq_self)

lemma rb_new_data: "rb_data (rb_new mem) = []"
  by (simp add: rb_data_def rb_new_def rb_clear_def)

text \<open>
  C3. The ring is a lossless queue: whatever pieces are written through the space buffers and read
  through the data buffers, in whatever order and wrapping round the end of the store as often as they
  like, nothing blocks, and the bytes put in are the bytes taken out followed by those still waiting,
  in order.
\<close>

theorem ring_stream:
  assumes "rb_inv r"
  shows "case fifo_run rb_free rb_write rb_peek rb_consume ops r of (res, r') \<Rightarrow>
           \<exists>ins outs. res = Inr (ins, outs) \<and> rb_inv r' \<and> rb_data r @ ins = outs @ rb_data r'"
  using rb.run_stream [OF assms, of ops] by fastforce

theorem ring_stream_witness:
  "case fifo_run rb_free rb_write rb_peek rb_consume [Push [1, 2], Pull 1, Push [3, 4], Pull 2] (rb_new [0, 0, 0, 0])
     of (res, r') \<Rightarrow> \<exists>ins outs. res = Inr (ins, outs) \<and> rb_inv r' \<and>
          rb_data (rb_new [0, 0, 0, 0]) @ ins = outs @ rb_data r'"
  by (rule ring_stream) (simp add: rb_new_inv)

text \<open>
  A full ring cannot be read: when every byte of the store is in use, \<^verbatim>\<open>getDataBuffers\<close> shows no
  data at all, although there is data (and \<^verbatim>\<open>hasDataAvailable\<close> says so), because it compares the
  available bytes with the size instead of with zero.
\<close>

lemma ring_full_unreadable:
  assumes "rb_inv r" "length (rb_data r) = rb_capacity r"
  shows "rb_getDataBuffers r = (Inr [], r) \<and> rb_hasDataAvailable r = (Inr True, r)"
proof -
  note I = assms(1) [unfolded rb_inv_def]
  have "unat (rb_freeSpace r) = 0"
    using assms(2) I by (auto simp: length_rb_data rb_capacity_def)
  then have "rb_freeSpace r = 0" by (simp add: unat_eq_zero)
  moreover have "0 < rb_size r" using I by (simp add: word_less_nat_alt)
  ultimately show ?thesis
    using I by (simp add: rb_getDataBuffers_def rb_hasDataAvailable_def rb_locked_run rb_lockless_getDataAvailable_def)
qed

text \<open>
  \<^verbatim>\<open>getSpaceBuffer\<close> and \<^verbatim>\<open>getDataBuffer\<close> take the mutex and then call \<^verbatim>\<open>getFreeSpace\<close>, which takes it
  again: whatever the state, neither ever returns.
\<close>

lemma ring_single_buffer_deadlocks:
  "fst (rb_getSpaceBuffer r) = Inl Deadlock \<and> fst (rb_getDataBuffer r) = Inl Deadlock"
  by (simp add: rb_getSpaceBuffer_def rb_getDataBuffer_def rb_getFreeSpace_def rb_locked_def pbind_apply)

end
