(* ===== verification/CharBuffers.thy ===== *)
theory CharBuffers
  imports Prelude
begin

text \<open>
  \<^verbatim>\<open>basic_comms/src/cpp/CharArrayBuffer.hpp\<close> and \<^verbatim>\<open>ConstCharArrayBuffer.hpp\<close>: stream buffers over a
  list of memory regions. Both classes have the same members (the regions, the position \<^verbatim>\<open>current\<close> and
  the limit \<^verbatim>\<open>size\<close>, two \<^verbatim>\<open>int\<close>s) and are one record here; \<open>cb_\<close> functions model the first class, \<open>ccb_\<close>
  functions the second. The two numbers are unbounded here: they are the \<^verbatim>\<open>int\<close>s of the code as long as the regions
  have less than two gigabytes together, as those of a ring have (\<open>int_positions_keep\<close>, \<open>int_positions_wrap\<close>); above
  that the code overflows, which is undefined, and the model does not. A \<^verbatim>\<open>char\<close> is a byte; an \<^verbatim>\<open>int_type\<close> is an \<open>int\<close> with \<open>-1\<close> for \<^verbatim>\<open>eof()\<close>.
\<close>

subsection \<open>State and single characters\<close>

record char_buf =
  cb_buffers :: "byte list list"
  cb_current :: int
  cb_size :: int

definition eof :: int where
  "eof = - 1"

definition to_int_type :: "byte \<Rightarrow> int" where
  "to_int_type c = uint c"

definition to_char_type :: "int \<Rightarrow> byte" where
  "to_char_type i = word_of_int i"

definition cb_new :: "byte list list \<Rightarrow> char_buf" where
  "cb_new bs = \<lparr>cb_buffers = bs, cb_current = 0, cb_size = foldl (\<lambda>n b. n + int (length b)) 0 bs\<rparr>"

text \<open>The loops over the regions of \<^verbatim>\<open>put_char_at\<close> and \<^verbatim>\<open>get_char_at\<close>.\<close>

fun put_in :: "byte list list \<Rightarrow> int \<Rightarrow> byte \<Rightarrow> bool \<times> byte list list" where
  "put_in [] pos c = (False, [])"
| "put_in (b # bs) pos c =
     (if int (length b) \<le> pos
      then (case put_in bs (pos - int (length b)) c of (r, bs') \<Rightarrow> (r, b # bs'))
      else (True, b[nat pos := c] # bs))"

fun get_in :: "byte list list \<Rightarrow> int \<Rightarrow> byte" where
  "get_in [] pos = to_char_type eof"
| "get_in (b # bs) pos =
     (if int (length b) \<le> pos then get_in bs (pos - int (length b)) else b ! nat pos)"

definition cb_put_char_at :: "int \<Rightarrow> byte \<Rightarrow> char_buf \<Rightarrow> bool \<times> char_buf" where
  "cb_put_char_at pos c b =
     (if cb_size b \<le> pos then (False, b)
      else case put_in (cb_buffers b) pos c of (r, bs) \<Rightarrow> (r, b\<lparr>cb_buffers := bs\<rparr>))"

definition cb_get_char_at :: "int \<Rightarrow> char_buf \<Rightarrow> byte" where
  "cb_get_char_at pos b = (if cb_size b \<le> pos then to_char_type eof else get_in (cb_buffers b) pos)"

definition cb_remainingSpace :: "char_buf \<Rightarrow> int" where
  "cb_remainingSpace b = cb_size b - cb_current b"

definition cb_advance :: "int \<Rightarrow> char_buf \<Rightarrow> char_buf" where
  "cb_advance amount b = b\<lparr>cb_current := cb_current b + amount\<rparr>"

definition cb_oflow :: "int \<Rightarrow> char_buf \<Rightarrow> int \<times> char_buf" where
  "cb_oflow c b =
     (if cb_size b \<le> cb_current b then (eof, b)
      else (c, cb_advance 1 (snd (cb_put_char_at (cb_current b) (to_char_type c) b))))"

definition cb_sputc :: "int \<Rightarrow> char_buf \<Rightarrow> int \<times> char_buf" where
  "cb_sputc c b =
     (if cb_size b \<le> cb_current b then (eof, b)
      else (c, cb_advance 1 (snd (cb_put_char_at (cb_current b) (to_char_type c) b))))"

text \<open>\<^verbatim>\<open>overflow\<close> writes without moving on, and answers 1 whether or not it wrote.\<close>

definition cb_overflow :: "int \<Rightarrow> char_buf \<Rightarrow> int \<times> char_buf" where
  "cb_overflow ch b = (1, snd (cb_put_char_at (cb_current b) (to_char_type ch) b))"

text \<open>\<^verbatim>\<open>xsputn\<close> moves on past the end of the regions and answers \<open>n\<close> whether or not all was written.\<close>

fun cb_xsputn_loop :: "byte list \<Rightarrow> char_buf \<Rightarrow> char_buf" where
  "cb_xsputn_loop [] b = b"
| "cb_xsputn_loop (c # cs) b = cb_xsputn_loop cs (cb_advance 1 (snd (cb_put_char_at (cb_current b) c b)))"

definition cb_xsputn :: "byte list \<Rightarrow> char_buf \<Rightarrow> int \<times> char_buf" where
  "cb_xsputn s b = (int (length s), cb_xsputn_loop s b)"

definition cb_underflow :: "char_buf \<Rightarrow> int" where
  "cb_underflow b = (if cb_size b \<le> cb_current b then eof else to_int_type (cb_get_char_at (cb_current b) b))"

definition cb_uflow :: "char_buf \<Rightarrow> int \<times> char_buf" where
  "cb_uflow b =
     (if cb_size b \<le> cb_current b then (eof, b)
      else (to_int_type (cb_get_char_at (cb_current b) b), cb_advance 1 b))"

definition cb_showmanyc :: "char_buf \<Rightarrow> int" where
  "cb_showmanyc b = cb_size b"

text \<open>The comparison promotes the (signed) \<^verbatim>\<open>char\<close> to \<^verbatim>\<open>int\<close>.\<close>

definition cb_pbackfail :: "int \<Rightarrow> char_buf \<Rightarrow> int \<times> char_buf" where
  "cb_pbackfail ch b =
     (if cb_current b = 0 \<or> (ch \<noteq> eof \<and> ch \<noteq> sint (cb_get_char_at (cb_current b - 1) b)) then (eof, b)
      else (to_int_type (cb_get_char_at (cb_current b - 1) b), cb_advance (- 1) b))"

subsection \<open>Integers and strings\<close>

definition be_bytes :: "u32 \<Rightarrow> byte list" where
  "be_bytes i = [ucast (drop_bit 24 i), ucast (drop_bit 16 i), ucast (drop_bit 8 i), ucast i]"

definition be_value :: "byte \<Rightarrow> byte \<Rightarrow> byte \<Rightarrow> byte \<Rightarrow> u32" where
  "be_value c0 c1 c2 c3 =
     push_bit 24 (ucast c0) OR push_bit 16 (ucast c1) OR push_bit 8 (ucast c2) OR ucast c3"

text \<open>A run of \<^verbatim>\<open>oflow\<close> calls, and one of \<^verbatim>\<open>(uint8_t)uflow()\<close> calls.\<close>

fun cb_oflow_all :: "byte list \<Rightarrow> char_buf \<Rightarrow> char_buf" where
  "cb_oflow_all [] b = b"
| "cb_oflow_all (c # cs) b = cb_oflow_all cs (snd (cb_oflow (uint c) b))"

fun cb_uflow_n :: "nat \<Rightarrow> char_buf \<Rightarrow> byte list \<times> char_buf" where
  "cb_uflow_n 0 b = ([], b)"
| "cb_uflow_n (Suc n) b =
     (case cb_uflow b of (c, b1) \<Rightarrow> case cb_uflow_n n b1 of (cs, b2) \<Rightarrow> (to_char_type c # cs, b2))"

definition cb_write_u32 :: "u32 \<Rightarrow> char_buf \<Rightarrow> char_buf" where
  "cb_write_u32 i b = cb_oflow_all (be_bytes i) b"

definition cb_write_little_endian :: "u32 \<Rightarrow> char_buf \<Rightarrow> char_buf" where
  "cb_write_little_endian i b = cb_oflow_all (rev (be_bytes i)) b"

definition cb_write_i32 :: "int \<Rightarrow> char_buf \<Rightarrow> char_buf" where
  "cb_write_i32 i b = cb_oflow_all (be_bytes (word_of_int i)) b"

definition cb_write_string :: "byte list \<Rightarrow> char_buf \<Rightarrow> char_buf" where
  "cb_write_string s b = cb_oflow_all s b"

definition cb_read_u32 :: "char_buf \<Rightarrow> u32 \<times> char_buf" where
  "cb_read_u32 b = (case cb_uflow_n 4 b of (cs, b') \<Rightarrow> (be_value (cs ! 0) (cs ! 1) (cs ! 2) (cs ! 3), b'))"

definition cb_read_i32 :: "char_buf \<Rightarrow> int \<times> char_buf" where
  "cb_read_i32 b = (case cb_uflow_n 4 b of (cs, b') \<Rightarrow> (sint (be_value (cs ! 0) (cs ! 1) (cs ! 2) (cs ! 3)), b'))"

text \<open>One more character is taken after the string (the \<^verbatim>\<open>zero terminator\<close>, which \<^verbatim>\<open>write\<close> does not write).\<close>

definition cb_read_string :: "nat \<Rightarrow> char_buf \<Rightarrow> byte list \<times> char_buf" where
  "cb_read_string n b = (case cb_uflow_n n b of (cs, b') \<Rightarrow> (cs, snd (cb_uflow b')))"

subsection \<open>\<^verbatim>\<open>ConstCharArrayBuffer\<close>\<close>

definition ccb_new :: "byte list list \<Rightarrow> char_buf" where
  "ccb_new bs = \<lparr>cb_buffers = bs, cb_current = 0, cb_size = foldl (\<lambda>n b. n + int (length b)) 0 bs\<rparr>"

definition ccb_limit :: "char_buf \<Rightarrow> int \<Rightarrow> char_buf" where
  "ccb_limit other sizelimit =
     \<lparr>cb_buffers = cb_buffers other, cb_current = cb_current other, cb_size = sizelimit\<rparr>"

definition ccb_get_char_at :: "int \<Rightarrow> char_buf \<Rightarrow> byte" where
  "ccb_get_char_at pos b = (if cb_size b \<le> pos then to_char_type eof else get_in (cb_buffers b) pos)"

definition ccb_remainingData :: "char_buf \<Rightarrow> int" where
  "ccb_remainingData b = cb_size b - cb_current b"

definition ccb_underflow :: "char_buf \<Rightarrow> int" where
  "ccb_underflow b = (if cb_size b \<le> cb_current b then eof else to_int_type (ccb_get_char_at (cb_current b) b))"

definition ccb_uflow :: "char_buf \<Rightarrow> int \<times> char_buf" where
  "ccb_uflow b =
     (if cb_size b \<le> cb_current b then (eof, b)
      else (to_int_type (ccb_get_char_at (cb_current b) b), b\<lparr>cb_current := cb_current b + 1\<rparr>))"

definition ccb_advance :: "int \<Rightarrow> char_buf \<Rightarrow> char_buf" where
  "ccb_advance amount b = b\<lparr>cb_current := cb_current b + amount\<rparr>"

definition ccb_showmanyc :: "char_buf \<Rightarrow> int" where
  "ccb_showmanyc b = cb_size b"

definition ccb_pbackfail :: "int \<Rightarrow> char_buf \<Rightarrow> int \<times> char_buf" where
  "ccb_pbackfail ch b =
     (if cb_current b = 0 \<or> (ch \<noteq> eof \<and> ch \<noteq> sint (ccb_get_char_at (cb_current b - 1) b)) then (eof, b)
      else (to_int_type (ccb_get_char_at (cb_current b - 1) b), ccb_advance (- 1) b))"

definition ccb_tell :: "char_buf \<Rightarrow> int" where
  "ccb_tell b = cb_current b"

text \<open>Where the numbers fit the \<^verbatim>\<open>int\<close>s of the code, the operations keep them there, and they are what the code computes.\<close>

definition int_positions :: "char_buf \<Rightarrow> bool" where
  "int_positions b \<longleftrightarrow> 0 \<le> cb_current b \<and> cb_current b < 2 ^ 31 \<and> 0 \<le> cb_size b \<and> cb_size b < 2 ^ 31"

lemma foldl_region_lengths: "foldl (\<lambda>n b. n + int (length b)) k bs = k + int (length (concat bs))"
  by (induction bs arbitrary: k) auto

lemma int_positions_new: "length (concat bs) < 2 ^ 31 \<Longrightarrow> int_positions (cb_new bs) \<and> int_positions (ccb_new bs)"
  by (simp add: int_positions_def cb_new_def ccb_new_def foldl_region_lengths flip: length_concat)

lemma put_keeps_numbers [simp]:
  "cb_current (snd (cb_put_char_at pos c b)) = cb_current b" "cb_size (snd (cb_put_char_at pos c b)) = cb_size b"
  by (simp_all add: cb_put_char_at_def split: prod.split)

lemma int_positions_keep:
  assumes "int_positions b"
  shows "int_positions (snd (cb_oflow c b))" "int_positions (snd (cb_sputc c b))" "int_positions (snd (cb_overflow c b))"
    "int_positions (snd (cb_uflow b))" "int_positions (snd (ccb_uflow b))"
    "int_positions (snd (cb_pbackfail c b))" "int_positions (snd (ccb_pbackfail c b))"
    "0 \<le> cb_current b + n \<Longrightarrow> cb_current b + n < 2 ^ 31 \<Longrightarrow> int_positions (cb_advance n b) \<and> int_positions (ccb_advance n b)"
  using assms
  by (auto simp: int_positions_def cb_oflow_def cb_sputc_def cb_overflow_def cb_uflow_def ccb_uflow_def cb_pbackfail_def
      ccb_pbackfail_def cb_advance_def ccb_advance_def)

lemma int_positions_wrap:
  assumes "int_positions b"
  shows "sint (word_of_int (cb_current b) :: 32 word) = cb_current b" "sint (word_of_int (cb_size b) :: 32 word) = cb_size b"
  using assms by (simp_all add: int_positions_def sint_sbintrunc' signed_take_bit_int_eq_self)

fun ccb_uflow_n :: "nat \<Rightarrow> char_buf \<Rightarrow> byte list \<times> char_buf" where
  "ccb_uflow_n 0 b = ([], b)"
| "ccb_uflow_n (Suc n) b =
     (case ccb_uflow b of (c, b1) \<Rightarrow> case ccb_uflow_n n b1 of (cs, b2) \<Rightarrow> (to_char_type c # cs, b2))"

definition ccb_read_u32 :: "char_buf \<Rightarrow> u32 \<times> char_buf" where
  "ccb_read_u32 b = (case ccb_uflow_n 4 b of (cs, b') \<Rightarrow> (be_value (cs ! 0) (cs ! 1) (cs ! 2) (cs ! 3), b'))"

definition ccb_read_little_endian :: "char_buf \<Rightarrow> u32 \<times> char_buf" where
  "ccb_read_little_endian b =
     (case ccb_uflow_n 4 b of (cs, b') \<Rightarrow> (be_value (cs ! 3) (cs ! 2) (cs ! 1) (cs ! 0), b'))"

definition ccb_read_i32 :: "char_buf \<Rightarrow> int \<times> char_buf" where
  "ccb_read_i32 b = (case ccb_uflow_n 4 b of (cs, b') \<Rightarrow> (sint (be_value (cs ! 0) (cs ! 1) (cs ! 2) (cs ! 3)), b'))"

definition ccb_read_string :: "nat \<Rightarrow> char_buf \<Rightarrow> byte list \<times> char_buf" where
  "ccb_read_string n b = (case ccb_uflow_n n b of (cs, b') \<Rightarrow> (cs, snd (ccb_uflow b')))"

function ccb_copyOut :: "char_buf \<Rightarrow> byte list \<times> char_buf" where
  "ccb_copyOut b =
     (if cb_current b < cb_size b
      then (case ccb_copyOut (ccb_advance 1 b) of (cs, b') \<Rightarrow> (ccb_get_char_at (cb_current b) b # cs, b'))
      else ([], b))"
  by pat_completeness auto

termination ccb_copyOut
  by (relation "measure (\<lambda>b. nat (cb_size b - cb_current b))") (auto simp: ccb_advance_def)

declare ccb_copyOut.simps [simp del]

subsection \<open>Diagnostic output\<close>

text \<open>What the \<^verbatim>\<open>diagnostic\<close> functions print: the two tables of digits and the tab case differ.\<close>

fun hex_loop :: "nat \<Rightarrow> string \<Rightarrow> int \<Rightarrow> string" where
  "hex_loop 0 digits cc = []"
| "hex_loop (Suc j) digits cc =
     digits ! nat (drop_bit 4 (cc AND 0xF0)) # hex_loop j digits (push_bit 4 cc)"

definition diag_char :: "bool \<Rightarrow> string \<Rightarrow> byte \<Rightarrow> string" where
  "diag_char tabs digits c =
     (if c = 10 then [CHR 0x5C, CHR ''n'']
      else if tabs \<and> c = 9 then [CHR 0x5C, CHR ''t'']
      else if 32 \<le> c \<and> c \<le> 126 then [char_of (unat c)]
      else CHR 0x5C # CHR ''x'' # hex_loop 2 digits (uint c))"

definition cb_diagnostic_static :: "byte list \<Rightarrow> string" where
  "cb_diagnostic_static p = concat (map (diag_char False ''0123456789ABCDEF'') p) @ [CHR 0x0A]"

definition cb_diagnostic :: "char_buf \<Rightarrow> string" where
  "cb_diagnostic b =
     concat (map (\<lambda>i. diag_char True ''0123456789abcdef'' (cb_get_char_at (int i) b)) [0..<nat (cb_size b)]) @ [CHR 0x0A]"

definition ccb_diagnostic_static :: "byte list \<Rightarrow> string" where
  "ccb_diagnostic_static p = concat (map (diag_char False ''0123456789ABCDEF'') p) @ [CHR 0x0A]"

definition ccb_diagnostic :: "char_buf \<Rightarrow> string" where
  "ccb_diagnostic b =
     concat (map (\<lambda>i. diag_char True ''0123456789abcdef'' (ccb_get_char_at (int i) b)) [0..<nat (cb_size b)]) @ [CHR 0x0A]"

subsection \<open>The regions as one stretch of memory\<close>

definition cb_flat :: "char_buf \<Rightarrow> byte list" where
  "cb_flat b = concat (cb_buffers b)"

definition cb_ok :: "char_buf \<Rightarrow> bool" where
  "cb_ok b \<longleftrightarrow> 0 \<le> cb_current b \<and> cb_size b \<le> int (length (cb_flat b))"

lemma put_in_flat:
  assumes "0 \<le> pos" "pos < int (length (concat bs))"
  shows "fst (put_in bs pos c) \<and> concat (snd (put_in bs pos c)) = (concat bs)[nat pos := c] \<and>
         map length (snd (put_in bs pos c)) = map length bs"
  using assms
proof (induction bs pos c rule: put_in.induct)
  case (1 pos c)
  then show ?case by simp
next
  case (2 b bs pos c)
  show ?case
  proof (cases "int (length b) \<le> pos")
    case True
    with 2 have "fst (put_in bs (pos - int (length b)) c) \<and>
        concat (snd (put_in bs (pos - int (length b)) c)) = (concat bs)[nat (pos - int (length b)) := c] \<and>
        map length (snd (put_in bs (pos - int (length b)) c)) = map length bs"
      by auto
    moreover have "nat pos - length b = nat (pos - int (length b))" by simp
    ultimately show ?thesis
      using True 2(2) by (auto simp: list_update_append nat_less_iff split: prod.splits)
  next
    case False
    with 2(2) show ?thesis by (simp add: list_update_append nat_less_iff)
  qed
qed

lemma get_in_flat:
  assumes "0 \<le> pos" "pos < int (length (concat bs))"
  shows "get_in bs pos = concat bs ! nat pos"
  using assms
proof (induction bs pos rule: get_in.induct)
  case (1 pos)
  then show ?case by simp
next
  case (2 b bs pos)
  show ?case
  proof (cases "int (length b) \<le> pos")
    case True
    have "nat pos - length b = nat (pos - int (length b))" by simp
    with True 2 show ?thesis by (auto simp: nth_append nat_less_iff)
  next
    case False
    with 2(2) show ?thesis by (simp add: nth_append nat_less_iff)
  qed
qed

lemma to_char_to_int [simp]: "to_char_type (to_int_type c) = c" "to_char_type (uint c) = c"
  by (simp_all add: to_char_type_def to_int_type_def)

lemma oflow_flat:
  assumes "cb_ok b" "cb_current b < cb_size b"
  shows "cb_flat (snd (cb_oflow (uint c) b)) = (cb_flat b)[nat (cb_current b) := c]"
    and "cb_current (snd (cb_oflow (uint c) b)) = cb_current b + 1"
    and "cb_size (snd (cb_oflow (uint c) b)) = cb_size b"
    and "cb_ok (snd (cb_oflow (uint c) b))"
    and "map length (cb_buffers (snd (cb_oflow (uint c) b))) = map length (cb_buffers b)"
proof -
  have "0 \<le> cb_current b" "cb_current b < int (length (concat (cb_buffers b)))"
    using assms by (auto simp: cb_ok_def cb_flat_def)
  note P = put_in_flat [OF this, of c]
  show "cb_flat (snd (cb_oflow (uint c) b)) = (cb_flat b)[nat (cb_current b) := c]"
    "cb_current (snd (cb_oflow (uint c) b)) = cb_current b + 1"
    "cb_size (snd (cb_oflow (uint c) b)) = cb_size b"
    "map length (cb_buffers (snd (cb_oflow (uint c) b))) = map length (cb_buffers b)"
    using P assms by (auto simp: cb_flat_def cb_oflow_def cb_advance_def cb_put_char_at_def split: prod.splits)
  then show "cb_ok (snd (cb_oflow (uint c) b))"
    using assms by (simp add: cb_ok_def)
qed

text \<open>A run of writes that fits overwrites the memory from the position on, whatever the regions.\<close>

lemma oflow_all_flat:
  assumes "cb_ok b" "cb_current b + int (length cs) \<le> cb_size b"
  shows "cb_flat (cb_oflow_all cs b) = overwrite (nat (cb_current b)) cs (cb_flat b)"
    and "cb_current (cb_oflow_all cs b) = cb_current b + int (length cs)"
    and "cb_size (cb_oflow_all cs b) = cb_size b"
    and "cb_ok (cb_oflow_all cs b)"
    and "map length (cb_buffers (cb_oflow_all cs b)) = map length (cb_buffers b)"
proof -
  have "cb_flat (cb_oflow_all cs b) = overwrite (nat (cb_current b)) cs (cb_flat b) \<and>
        cb_current (cb_oflow_all cs b) = cb_current b + int (length cs) \<and>
        cb_size (cb_oflow_all cs b) = cb_size b \<and> cb_ok (cb_oflow_all cs b) \<and>
        map length (cb_buffers (cb_oflow_all cs b)) = map length (cb_buffers b)"
    using assms
  proof (induction cs arbitrary: b)
    case Nil
    then show ?case by simp
  next
    case (Cons c cs)
    then have lt: "cb_current b < cb_size b" by simp
    note O = oflow_flat [OF Cons.prems(1) lt, of c]
    have "cb_current (snd (cb_oflow (uint c) b)) + int (length cs) \<le> cb_size (snd (cb_oflow (uint c) b))"
      using Cons.prems(2) O(2,3) by simp
    note IH = Cons.IH [OF O(4) this]
    have pos: "0 \<le> cb_current b" "cb_size b \<le> int (length (cb_flat b))"
      using Cons.prems(1) by (auto simp: cb_ok_def)
    have nat_suc: "nat (cb_current b + 1) = Suc (nat (cb_current b))"
      using pos by simp
    have fit: "nat (cb_current b) + length (c # cs) \<le> length (cb_flat b)"
      using Cons.prems(2) pos by simp
    show ?case
      using IH O overwrite_Cons [OF fit] by (simp add: nat_suc)
  qed
  then show "cb_flat (cb_oflow_all cs b) = overwrite (nat (cb_current b)) cs (cb_flat b)"
    "cb_current (cb_oflow_all cs b) = cb_current b + int (length cs)"
    "cb_size (cb_oflow_all cs b) = cb_size b" "cb_ok (cb_oflow_all cs b)"
    "map length (cb_buffers (cb_oflow_all cs b)) = map length (cb_buffers b)"
    by simp_all
qed

lemma uflow_flat:
  assumes "cb_ok b" "cb_current b < cb_size b"
  shows "ccb_uflow b = (uint (cb_flat b ! nat (cb_current b)), b\<lparr>cb_current := cb_current b + 1\<rparr>)"
  using assms by (simp add: ccb_uflow_def ccb_get_char_at_def cb_ok_def cb_flat_def get_in_flat to_int_type_def)

lemma uflow_n_flat:
  assumes "cb_ok b" "cb_current b + int n \<le> cb_size b"
  shows "ccb_uflow_n n b = (take n (drop (nat (cb_current b)) (cb_flat b)), b\<lparr>cb_current := cb_current b + int n\<rparr>)"
  using assms
proof (induction n arbitrary: b)
  case 0
  then show ?case by simp
next
  case (Suc n)
  let ?b = "b\<lparr>cb_current := cb_current b + 1\<rparr>"
  have u: "ccb_uflow b = (uint (cb_flat b ! nat (cb_current b)), ?b)"
    using Suc.prems by (intro uflow_flat) auto
  have pos: "0 \<le> cb_current b" "nat (cb_current b) < length (cb_flat b)"
    using Suc.prems by (auto simp: cb_ok_def)
  have "ccb_uflow_n n ?b = (take n (drop (nat (cb_current ?b)) (cb_flat ?b)), ?b\<lparr>cb_current := cb_current ?b + int n\<rparr>)"
    using Suc.prems by (intro Suc.IH) (auto simp: cb_ok_def cb_flat_def)
  moreover have "nat (cb_current b + 1) = Suc (nat (cb_current b))" using pos by simp
  moreover have "take (Suc n) (drop (nat (cb_current b)) (cb_flat b)) =
      cb_flat b ! nat (cb_current b) # take n (drop (Suc (nat (cb_current b))) (cb_flat b))"
    using pos by (metis Cons_nth_drop_Suc take_Suc_Cons)
  moreover have "cb_flat ?b = cb_flat b" by (simp add: cb_flat_def)
  ultimately show ?case
    by (simp add: u add.assoc)
qed

text \<open>The two classes read alike.\<close>

lemma cb_uflow_ccb: "cb_uflow = ccb_uflow"
  by (rule ext) (simp add: cb_uflow_def ccb_uflow_def cb_get_char_at_def ccb_get_char_at_def cb_advance_def)

lemma cb_uflow_n_ccb: "cb_uflow_n n b = ccb_uflow_n n b"
  by (induction n arbitrary: b) (simp_all add: cb_uflow_ccb)

lemma be_roundtrip: "be_value (ucast (drop_bit 24 i)) (ucast (drop_bit 16 i)) (ucast (drop_bit 8 i)) (ucast i) = i"
proof (rule bit_word_eqI)
  fix n assume "n < LENGTH(32)"
  then consider "n < 8" | "8 \<le> n" "n < 16" | "16 \<le> n" "n < 24" | "24 \<le> n" "n < 32"
    by fastforce
  then show "bit (be_value (ucast (drop_bit 24 i)) (ucast (drop_bit 16 i)) (ucast (drop_bit 8 i)) (ucast i)) n = bit i n"
    by cases (auto simp: be_value_def bit_simps)
qed

lemma copyOut_flat:
  assumes "cb_ok b" "cb_current b \<le> cb_size b"
  shows "fst (ccb_copyOut b) = take (nat (cb_size b - cb_current b)) (drop (nat (cb_current b)) (cb_flat b))"
  using assms
proof (induction b rule: ccb_copyOut.induct)
  case (1 b)
  show ?case
  proof (cases "cb_current b < cb_size b")
    case False
    with 1 show ?thesis by (simp add: ccb_copyOut.simps)
  next
    case True
    have pos: "0 \<le> cb_current b" "nat (cb_current b) < length (cb_flat b)"
      using "1.prems" True by (auto simp: cb_ok_def)
    have adv: "cb_ok (ccb_advance 1 b)" "cb_flat (ccb_advance 1 b) = cb_flat b"
      "cb_current (ccb_advance 1 b) = cb_current b + 1" "cb_size (ccb_advance 1 b) = cb_size b"
      using "1.prems" by (auto simp: cb_ok_def cb_flat_def ccb_advance_def)
    have "fst (ccb_copyOut (ccb_advance 1 b)) =
        take (nat (cb_size b - (cb_current b + 1))) (drop (nat (cb_current b + 1)) (cb_flat b))"
      using "1.IH" [OF True] adv True by simp
    moreover have "ccb_get_char_at (cb_current b) b = cb_flat b ! nat (cb_current b)"
      using pos True by (simp add: ccb_get_char_at_def cb_flat_def get_in_flat nat_less_iff)
    moreover have "nat (cb_current b + 1) = Suc (nat (cb_current b))"
      "nat (cb_size b - cb_current b) = Suc (nat (cb_size b - (cb_current b + 1)))"
      using pos True by simp_all
    ultimately show ?thesis
      using pos True by (subst ccb_copyOut.simps) (simp add: split_beta, metis Cons_nth_drop_Suc take_Suc_Cons)
  qed
qed

subsection \<open>What is left to read\<close>

text \<open>\<open>cb_rest\<close> is the abstract value of a buffer that is being read: the bytes from the position to the limit.\<close>

definition cb_rest :: "char_buf \<Rightarrow> byte list" where
  "cb_rest b = take (nat (cb_size b - cb_current b)) (drop (nat (cb_current b)) (cb_flat b))"

definition cb_readable :: "char_buf \<Rightarrow> bool" where
  "cb_readable b \<longleftrightarrow> cb_ok b \<and> cb_current b \<le> cb_size b"

lemma length_cb_rest: "cb_readable b \<Longrightarrow> int (length (cb_rest b)) = ccb_remainingData b"
  unfolding cb_readable_def cb_ok_def cb_rest_def ccb_remainingData_def length_take length_drop
  by linarith

lemma cb_rest_skip:
  assumes "cb_readable b" "n \<le> length (cb_rest b)"
  shows "cb_rest (b\<lparr>cb_current := cb_current b + int n\<rparr>) = drop n (cb_rest b)"
    and "cb_readable (b\<lparr>cb_current := cb_current b + int n\<rparr>)"
proof -
  have n: "cb_current b + int n \<le> cb_size b" and pos: "0 \<le> cb_current b" and "cb_current b \<le> cb_size b"
    using assms length_cb_rest [OF assms(1)] by (auto simp: ccb_remainingData_def cb_readable_def cb_ok_def)
  have e: "nat (cb_current b + int n) = n + nat (cb_current b)"
    "nat (cb_size b - (cb_current b + int n)) = nat (cb_size b - cb_current b) - n"
    using pos n by linarith+
  have "cb_rest (b\<lparr>cb_current := cb_current b + int n\<rparr>) =
      take (nat (cb_size b - (cb_current b + int n))) (drop (nat (cb_current b + int n)) (cb_flat b))"
    by (simp add: cb_rest_def cb_flat_def)
  also have "\<dots> = drop n (cb_rest b)"
    unfolding e cb_rest_def drop_take drop_drop ..
  finally show "cb_rest (b\<lparr>cb_current := cb_current b + int n\<rparr>) = drop n (cb_rest b)" .
  show "cb_readable (b\<lparr>cb_current := cb_current b + int n\<rparr>)"
    using assms(1) n by (auto simp: cb_readable_def cb_ok_def cb_flat_def)
qed

lemma cb_rest_limit:
  assumes "cb_readable b" "n \<le> length (cb_rest b)"
  shows "cb_rest (ccb_limit b (cb_current b + int n)) = take n (cb_rest b)"
    and "cb_readable (ccb_limit b (cb_current b + int n))"
proof -
  have "cb_current b + int n \<le> cb_size b"
    using assms length_cb_rest [OF assms(1)] by (simp add: ccb_remainingData_def)
  then have n: "n \<le> nat (cb_size b - cb_current b)" and c: "cb_current b + int n \<le> cb_size b" by linarith+
  show "cb_rest (ccb_limit b (cb_current b + int n)) = take n (cb_rest b)"
    using n by (simp add: cb_rest_def ccb_limit_def cb_flat_def min_absorb1)
  show "cb_readable (ccb_limit b (cb_current b + int n))"
    using assms(1) c by (auto simp: ccb_limit_def cb_flat_def cb_readable_def cb_ok_def)
qed

lemma uflow_n_rest:
  assumes "cb_readable b" "n \<le> length (cb_rest b)"
  shows "ccb_uflow_n n b = (take n (cb_rest b), b\<lparr>cb_current := cb_current b + int n\<rparr>)"
proof -
  have "cb_current b + int n \<le> cb_size b"
    using assms length_cb_rest [OF assms(1)] by (simp add: ccb_remainingData_def)
  moreover from this have "n \<le> nat (cb_size b - cb_current b)" by linarith
  ultimately show ?thesis
    using assms(1) by (simp add: uflow_n_flat cb_readable_def cb_rest_def min_absorb1)
qed

definition be_at :: "byte list \<Rightarrow> u32" where
  "be_at d = be_value (d ! 0) (d ! 1) (d ! 2) (d ! 3)"

definition le_at :: "byte list \<Rightarrow> u32" where
  "le_at d = be_value (d ! 3) (d ! 2) (d ! 1) (d ! 0)"

lemma read_u32_rest:
  assumes "cb_readable b" "4 \<le> length (cb_rest b)"
  shows "ccb_read_u32 b = (be_at (cb_rest b), b\<lparr>cb_current := cb_current b + 4\<rparr>)"
    and "ccb_read_little_endian b = (le_at (cb_rest b), b\<lparr>cb_current := cb_current b + 4\<rparr>)"
  using uflow_n_rest [OF assms] assms(2)
  by (simp_all add: ccb_read_u32_def ccb_read_little_endian_def be_at_def le_at_def)

lemma length_be_bytes [simp]: "length (be_bytes i) = 4"
  by (simp add: be_bytes_def)

lemma be_at_bytes [simp]: "be_at (be_bytes i @ r) = i" "le_at (rev (be_bytes i) @ r) = i"
  by (simp_all add: be_at_def le_at_def be_bytes_def be_roundtrip numeral_2_eq_2 numeral_3_eq_3)

lemma copyOut_rest: "cb_readable b \<Longrightarrow> fst (ccb_copyOut b) = cb_rest b"
  by (simp add: copyOut_flat cb_readable_def cb_rest_def)

lemma ccb_new_rest: "cb_rest (ccb_new bs) = concat bs" "cb_readable (ccb_new bs)"
proof -
  have "foldl (\<lambda>n b. n + int (length b)) k bs = k + int (length (concat bs))" for k
    by (induction bs arbitrary: k) auto
  then show "cb_rest (ccb_new bs) = concat bs" "cb_readable (ccb_new bs)"
    by (simp_all add: cb_rest_def ccb_new_def cb_flat_def cb_readable_def cb_ok_def)
qed

text \<open>
  Characters, integers and strings written through the stream buffers land in memory as one
  contiguous stretch, however the memory is cut into regions, and nothing else changes; a 32-bit
  integer written in either byte order is read back unchanged in the same order.
\<close>

lemma char_buffer_write_read:
  assumes "cb_ok b" "cb_current b + int (length s) + 8 \<le> cb_size b"
  shows "let b' = cb_write_little_endian j (cb_write_u32 i (cb_write_string s b)); start = cb_current b;
             c0 = b'\<lparr>cb_current := start\<rparr>;
             (s', c1) = ccb_uflow_n (length s) c0; (i', c2) = ccb_read_u32 c1; (j', c3) = ccb_read_little_endian c2
         in s' = s \<and> i' = i \<and> j' = j \<and> cb_current c3 = cb_current b' \<and>
            cb_flat b' = overwrite (nat start) (s @ be_bytes i @ rev (be_bytes j)) (cb_flat b) \<and>
            map length (cb_buffers b') = map length (cb_buffers b)"
proof -
  let ?cs = "s @ be_bytes i @ rev (be_bytes j)"
  have app: "cb_oflow_all (xs @ ys) b = cb_oflow_all ys (cb_oflow_all xs b)" for xs ys b
    by (induction xs arbitrary: b) simp_all
  have b': "cb_write_little_endian j (cb_write_u32 i (cb_write_string s b)) = cb_oflow_all ?cs b"
    by (simp add: cb_write_little_endian_def cb_write_u32_def cb_write_string_def app)
  define b' where "b' = cb_oflow_all ?cs b"
  have fit: "cb_current b + int (length ?cs) \<le> cb_size b" using assms(2) by simp
  note W = oflow_all_flat [OF assms(1) fit, folded b'_def]
  define c0 where "c0 = b'\<lparr>cb_current := cb_current b\<rparr>"
  have pos: "0 \<le> cb_current b" "cb_size b \<le> int (length (cb_flat b))"
    using assms(1) by (auto simp: cb_ok_def)
  have r0: "cb_readable c0"
    using W fit pos by (simp add: c0_def cb_readable_def cb_ok_def cb_flat_def)
  have "drop (nat (cb_current b)) (cb_flat b') = ?cs @ drop (nat (cb_current b) + length ?cs) (cb_flat b)"
    using fit pos by (simp add: W(1) overwrite_def)
  then obtain tl where rest0: "cb_rest c0 = ?cs @ tl"
    using W(3) fit pos by (simp add: cb_rest_def c0_def cb_flat_def)
  have u0: "ccb_uflow_n (length s) c0 = (s, c0\<lparr>cb_current := cb_current c0 + int (length s)\<rparr>)"
    using uflow_n_rest [OF r0, of "length s"] by (simp add: rest0)
  define c1 where "c1 = c0\<lparr>cb_current := cb_current c0 + int (length s)\<rparr>"
  have c1: "cb_readable c1" "cb_rest c1 = be_bytes i @ rev (be_bytes j) @ tl"
    using cb_rest_skip [OF r0, of "length s"] by (simp_all add: rest0 c1_def)
  have u1: "ccb_read_u32 c1 = (i, c1\<lparr>cb_current := cb_current c1 + 4\<rparr>)"
    using read_u32_rest(1) [OF c1(1)] by (simp add: c1(2))
  define c2 where "c2 = c1\<lparr>cb_current := cb_current c1 + 4\<rparr>"
  have c2: "cb_readable c2" "cb_rest c2 = rev (be_bytes j) @ tl"
    using cb_rest_skip [OF c1(1), of 4] by (simp_all add: c1(2) c2_def)
  have u2: "ccb_read_little_endian c2 = (j, c2\<lparr>cb_current := cb_current c2 + 4\<rparr>)"
    using read_u32_rest(2) [OF c2(1)] by (simp add: c2(2))
  have "cb_current (c2\<lparr>cb_current := cb_current c2 + 4\<rparr>) = cb_current b'"
    using W(2) by (simp add: c2_def c1_def c0_def)
  then show ?thesis
    using W(1,5) by (simp add: Let_def b' b'_def [symmetric] c0_def [symmetric] u0 c1_def [symmetric] u1
        c2_def [symmetric] u2)
qed

lemma char_buffer_write_read_example:
  "cb_flat (cb_write_little_endian 7 (cb_write_u32 258 (cb_write_string [65]
     (cb_new [[0, 0, 0], [0, 0], [0, 0, 0, 0, 0]])))) = [65, 0, 0, 1, 2, 7, 0, 0, 0, 0]"
proof -
  let ?b = "cb_new [[0, 0, 0], [0, 0], [0, 0, 0, 0, 0]]"
  have "cb_ok ?b" "cb_current ?b + int (length [65::byte]) + 8 \<le> cb_size ?b"
    by (simp_all add: cb_ok_def cb_new_def cb_flat_def)
  from char_buffer_write_read [OF this, of 7 258]
  have "cb_flat (cb_write_little_endian 7 (cb_write_u32 258 (cb_write_string [65] ?b))) =
       overwrite 0 ([65] @ be_bytes 258 @ rev (be_bytes 7)) (cb_flat ?b)"
    by (simp add: Let_def split_beta cb_new_def)
  also have "\<dots> = [65, 0, 0, 1, 2, 7, 0, 0, 0, 0]"
    by code_simp
  finally show ?thesis .
qed

end
