(* ===== verification/Framing.thy ===== *)
theory Framing
  imports CharBuffers CxxStd
begin

text \<open>
  \<^verbatim>\<open>mt-core/comms/src/cpp/ProtoMessageReader.cpp\<close> and \<^verbatim>\<open>ProtoMessageSender.cpp\<close>: the wire format of the
  agent connections, a 32-bit length in one of two byte orders followed by a serialised message. The
  serialiser of the messages is protobuf: it is the parameters \<open>byteSize\<close> and \<open>serialize\<close>. The reader is
  proved to be an incremental parser of the stream of frames, and the inverse of the sender.
\<close>

subsection \<open>State\<close>

datatype endianness = DUNNO | LITTLE | NETWORK | BAD

text \<open>
  The byte order kept by the reader and by the sender of one \<open>ProtoMessageEndpoint\<close>, whether that
  endpoint can still be locked, the buffers passed to \<^verbatim>\<open>onComplete\<close> so far, and how often the sender
  woke the tasks that wait for room in the queue.
\<close>

record proto_state =
  ps_reader :: endianness
  ps_sender :: endianness
  ps_endpoint :: bool
  ps_delivered :: "char_buf list"
  ps_wakes :: nat

definition pme_new :: proto_state where
  "pme_new = \<lparr>ps_reader = DUNNO, ps_sender = DUNNO, ps_endpoint = True, ps_delivered = [], ps_wakes = 0\<rparr>"

definition pmr_setEndianness :: "endianness \<Rightarrow> proto_state \<Rightarrow> proto_state" where
  "pmr_setEndianness newstate s = s\<lparr>ps_reader := newstate\<rparr>"

definition pms_setEndianness :: "endianness \<Rightarrow> proto_state \<Rightarrow> proto_state" where
  "pms_setEndianness newstate s = s\<lparr>ps_sender := newstate\<rparr>"

definition pme_setEndianness :: "endianness \<Rightarrow> proto_state \<Rightarrow> proto_state" where
  "pme_setEndianness newstate s = pms_setEndianness newstate (pmr_setEndianness newstate s)"

definition pmr_setDetectedEndianness :: "endianness \<Rightarrow> proto_state \<Rightarrow> proto_state" where
  "pmr_setDetectedEndianness newstate s = (if ps_endpoint s then pme_setEndianness newstate s else s)"

subsection \<open>The reader\<close>

text \<open>The \<^verbatim>\<open>switch\<close> that reads the size of the next message.\<close>

definition pmr_read_size :: "char_buf \<Rightarrow> (proto_state, u32 \<times> char_buf) prog" where
  "pmr_read_size chars s =
     (case ps_reader s of
        BAD \<Rightarrow> (Inl (InvalidArgument ''Read attempted while endianness determined to be BAD.''), s)
      | DUNNO \<Rightarrow>
          (case ccb_read_little_endian chars of (n, chars1) \<Rightarrow>
             if n < 65535 then (Inr (n, chars1), pmr_setDetectedEndianness LITTLE s)
             else (case ccb_read_u32 chars1 of (n2, chars2) \<Rightarrow>
                if n2 < 65535 then (Inr (n2, chars2), pmr_setDetectedEndianness NETWORK s)
                else (Inl (InvalidArgument ''Could not determine endianness.''), s)))
      | LITTLE \<Rightarrow> (Inr (ccb_read_little_endian chars), s)
      | NETWORK \<Rightarrow> (Inr (ccb_read_u32 chars), s))"

text \<open>
  Handing a message on. \<open>onComplete\<close> is the handler, if one is set: it may throw, and what it does
  beyond that is not the reader's business.
\<close>

definition pmr_deliver :: "(char_buf \<Rightarrow> exn + unit) option \<Rightarrow> char_buf \<Rightarrow> (proto_state, unit) prog" where
  "pmr_deliver onComplete b s =
     (case onComplete of
        None \<Rightarrow> (Inr (), s)
      | Some h \<Rightarrow> (h b, s\<lparr>ps_delivered := ps_delivered s @ [b]\<rparr>))"

lemma ccb_uflow_n_frame:
  "cb_size (snd (ccb_uflow_n n b)) = cb_size b \<and> cb_current b \<le> cb_current (snd (ccb_uflow_n n b))"
proof (induction n arbitrary: b)
  case (Suc n)
  from Suc [of b] Suc [of "b\<lparr>cb_current := cb_current b + 1\<rparr>"] show ?case
    by (simp add: ccb_uflow_def split_beta)
qed simp

lemma ccb_uflow_n_moves:
  assumes "cb_current b < cb_size b" "0 < n"
  shows "cb_current b < cb_current (snd (ccb_uflow_n n b))"
proof -
  obtain m where m: "n = Suc m" using assms(2) by (cases n) auto
  have "cb_current b + 1 \<le> cb_current (snd (ccb_uflow_n m (b\<lparr>cb_current := cb_current b + 1\<rparr>)))"
    using ccb_uflow_n_frame [of m "b\<lparr>cb_current := cb_current b + 1\<rparr>"] by simp
  then show ?thesis
    using assms(1) by (simp add: m ccb_uflow_def split_beta)
qed

lemma read_frame:
  "cb_size (snd (ccb_read_u32 b)) = cb_size b" "cb_current b \<le> cb_current (snd (ccb_read_u32 b))"
  "cb_current b < cb_size b \<Longrightarrow> cb_current b < cb_current (snd (ccb_read_u32 b))"
  "cb_size (snd (ccb_read_little_endian b)) = cb_size b"
  "cb_current b \<le> cb_current (snd (ccb_read_little_endian b))"
  "cb_current b < cb_size b \<Longrightarrow> cb_current b < cb_current (snd (ccb_read_little_endian b))"
  using ccb_uflow_n_frame [of 4 b] ccb_uflow_n_moves [of b 4]
  by (simp_all add: ccb_read_u32_def ccb_read_little_endian_def split_beta)

lemma read_size_moves:
  assumes "pmr_read_size chars s = (Inr (n, chars'), s')" "cb_current chars < cb_size chars"
  shows "cb_current chars < cb_current chars' \<and> cb_size chars' = cb_size chars"
proof -
  note R = read_frame [of chars] and R1 = read_frame [of "snd (ccb_read_little_endian chars)"]
  show ?thesis
    using assms R R1 by (auto simp: pmr_read_size_def split_beta split: endianness.splits if_splits)
qed

text \<open>The \<^verbatim>\<open>while (true)\<close> loop of \<^verbatim>\<open>checkForMessage\<close>; the result is the pair (consumed, needed).\<close>

function pmr_loop :: "(char_buf \<Rightarrow> exn + unit) option \<Rightarrow> char_buf \<Rightarrow> nat \<Rightarrow> proto_state \<Rightarrow>
    (exn + nat \<times> nat) \<times> proto_state" where
  "pmr_loop onComplete chars consumed s =
     (if ccb_remainingData chars < 4 then (Inr (consumed, nat (4 - ccb_remainingData chars)), s)
      else
        (case pmr_read_size chars s of
           (Inl e, s1) \<Rightarrow> (Inl e, s1)
         | (Inr (n, chars1), s1) \<Rightarrow>
             if 10000 < unat n then
               (Inl (InvalidArgument (''Proto deserialisation refuses incoming '' @ nat_str (unat n) @ '' bytes message header.'')), s1)
             else if ccb_remainingData chars1 < int (unat n) then
               (Inr (consumed, nat (int (unat n) - ccb_remainingData chars1)), s1)
             else
               (case pmr_deliver onComplete (ccb_limit chars1 (cb_current chars1 + int (unat n))) s1 of
                  (Inl e, s2) \<Rightarrow> (Inl e, s2)
                | (Inr _, s2) \<Rightarrow>
                    pmr_loop onComplete (ccb_advance (int (unat n)) chars1) (consumed + 4 + unat n) s2)))"
  by pat_completeness auto

termination pmr_loop
proof (relation "measure (\<lambda>(_, chars, _, _). nat (cb_size chars - cb_current chars))", goal_cases)
  case 1
  then show ?case by simp
next
  case (2 onComplete chars consumed s r s1 nc n chars1 r2 s2 u)
  then have "cb_current chars < cb_current chars1 \<and> cb_size chars1 = cb_size chars"
    by (intro read_size_moves [of chars s n chars1 s1]) (auto simp: ccb_remainingData_def)
  moreover from this have "cb_current chars < cb_current chars1 + uint n"
    using uint_ge_0 [of n] by linarith
  ultimately show ?case
    using 2 by (auto simp: ccb_advance_def ccb_remainingData_def)
qed

declare pmr_loop.simps [simp del]

definition pmr_initial :: "nat \<times> nat" where
  "pmr_initial = (0, 1)"

definition pmr_checkForMessage ::
  "(char_buf \<Rightarrow> exn + unit) option \<Rightarrow> byte list list \<Rightarrow> (proto_state, nat \<times> nat) prog" where
  "pmr_checkForMessage onComplete data s = pmr_loop onComplete (ccb_new data) 0 s"

subsection \<open>The sender\<close>

text \<open>
  One message at a time while messages and room last. \<open>full\<close> is \<^verbatim>\<open>IsTXQFull\<close> as a function of the queue
  length. An empty queue that counts as full would make the code read the front of an empty queue.
\<close>

fun pms_loop :: "('m \<Rightarrow> nat) \<Rightarrow> ('m \<Rightarrow> byte list) \<Rightarrow> (nat \<Rightarrow> bool) \<Rightarrow> 'm list \<Rightarrow> char_buf \<Rightarrow> nat \<Rightarrow> proto_state \<Rightarrow>
    (exn + nat \<times> nat) \<times> 'm list \<times> char_buf \<times> proto_state" where
  "pms_loop byteSize serialize full txq chars consumed s =
     (if \<not> ps_endpoint s then (Inr (consumed, 0), txq, chars, s)
      else
        let s1 = (if full (length txq) then s else s\<lparr>ps_wakes := ps_wakes s + 1\<rparr>)
        in case txq of
             [] \<Rightarrow> (if full (length txq) then (Inl Undefined, txq, chars, s1) else (Inr (consumed, 0), txq, chars, s1))
           | m # rest \<Rightarrow>
               let body_size = (of_nat (byteSize m) :: u32); mesg_size = body_size + 4
               in if cb_remainingSpace chars < int (unat mesg_size) then (Inr (consumed, 0), txq, chars, s1)
                  else (case ps_sender s1 of
                      DUNNO \<Rightarrow> (Inl (InvalidArgument ''Refusing to send when endianness is DUNNO.''), txq, chars, s1)
                    | BAD \<Rightarrow> (Inl (InvalidArgument ''Refusing to send when endianness is BAD.''), txq, chars, s1)
                    | LITTLE \<Rightarrow> pms_loop byteSize serialize full rest
                        (snd (cb_xsputn (serialize m) (cb_write_little_endian body_size chars)))
                        (consumed + unat mesg_size) s1
                    | NETWORK \<Rightarrow> pms_loop byteSize serialize full rest
                        (snd (cb_xsputn (serialize m) (cb_write_u32 body_size chars)))
                        (consumed + unat mesg_size) s1))"

declare pms_loop.simps [simp del]

definition pms_checkForSpace :: "('m \<Rightarrow> nat) \<Rightarrow> ('m \<Rightarrow> byte list) \<Rightarrow> (nat \<Rightarrow> bool) \<Rightarrow> byte list list \<Rightarrow> 'm list \<Rightarrow>
    proto_state \<Rightarrow> (exn + nat \<times> nat) \<times> 'm list \<times> byte list list \<times> proto_state" where
  "pms_checkForSpace byteSize serialize full data txq s =
     (case pms_loop byteSize serialize full txq (cb_new data) 0 s of
        (r, txq', chars, s') \<Rightarrow> (r, txq', cb_buffers chars, s'))"

subsection \<open>The stream of frames\<close>

text \<open>
  The format: a frame is the length of the body in the byte order \<open>e\<close>, then the body. \<open>unframe e d\<close> takes
  \<open>d\<close> apart into the complete messages at its front and what follows them, \<open>None\<close> when a length is over
  the limit of 10000.
\<close>

definition head_value :: "endianness \<Rightarrow> byte list \<Rightarrow> u32" where
  "head_value e d = (if e = LITTLE then le_at d else be_at d)"

definition frame :: "endianness \<Rightarrow> byte list \<Rightarrow> byte list" where
  "frame e m = (let h = be_bytes (of_nat (length m)) in if e = LITTLE then rev h else h) @ m"

function unframe :: "endianness \<Rightarrow> byte list \<Rightarrow> (byte list list \<times> byte list) option" where
  "unframe e d =
     (if length d < 4 then Some ([], d)
      else let n = unat (head_value e d) in
        if 10000 < n then None
        else if length d < 4 + n then Some ([], d)
        else (case unframe e (drop (4 + n) d) of
                None \<Rightarrow> None
              | Some (ms, r) \<Rightarrow> Some (take n (drop 4 d) # ms, r)))"
  by pat_completeness auto

termination unframe
  by (relation "measure (\<lambda>(e, d). length d)") auto

declare unframe.simps [simp del]

lemma head_value_frame:
  "e = LITTLE \<or> e = NETWORK \<Longrightarrow> length m \<le> 10000 \<Longrightarrow> head_value e (frame e m @ d) = of_nat (length m)"
  by (auto simp: head_value_def frame_def)

lemma length_frame [simp]: "length (frame e m) = 4 + length m"
  by (simp add: frame_def Let_def)

lemma unat_small: "n \<le> 10000 \<Longrightarrow> unat (of_nat n :: u32) = n"
  by (simp add: unsigned_of_nat take_bit_nat_eq_self)

lemma unframe_frame:
  assumes "e = LITTLE \<or> e = NETWORK" "length m \<le> 10000"
  shows "unframe e (frame e m @ d) = (case unframe e d of None \<Rightarrow> None | Some (ms, r) \<Rightarrow> Some (m # ms, r))"
proof -
  have h: "unat (head_value e (frame e m @ d)) = length m"
    using assms by (simp add: head_value_frame unat_small)
  have "drop (4 + length m) (frame e m @ d) = d" "take (length m) (drop 4 (frame e m @ d)) = m"
    by (auto simp: frame_def Let_def)
  then show ?thesis
    using assms(2) by (subst unframe.simps) (simp add: h Let_def split: option.splits)
qed

lemma unframe_frames:
  assumes "e = LITTLE \<or> e = NETWORK" "\<forall>m \<in> set ms. length m \<le> 10000"
  shows "unframe e (concat (map (frame e) ms) @ d) =
           (case unframe e d of None \<Rightarrow> None | Some (ms', r) \<Rightarrow> Some (ms @ ms', r))"
  using assms(2)
proof (induction ms)
  case Nil
  then show ?case by (simp split: option.splits)
next
  case (Cons m ms)
  then show ?case
    using assms(1) by (simp add: unframe_frame split: option.splits)
qed

text \<open>Parsing a prefix first and the rest later is parsing all at once.\<close>

lemma unframe_append:
  assumes "unframe e d = Some (ms, r)"
  shows "unframe e (d @ d') = (case unframe e (r @ d') of None \<Rightarrow> None | Some (ms', r') \<Rightarrow> Some (ms @ ms', r'))"
  using assms
proof (induction e d arbitrary: ms r rule: unframe.induct)
  case (1 e d)
  let ?n = "unat (head_value e d)"
  show ?case
  proof (cases "length d < 4 \<or> (?n \<le> 10000 \<and> length d < 4 + ?n)")
    case True
    then have "unframe e d = Some ([], d)"
      by (subst unframe.simps) (auto simp: Let_def)
    then show ?thesis using "1.prems" by (auto split: option.splits)
  next
    case False
    then have c: "\<not> length d < 4" by simp
    have n: "\<not> 10000 < ?n"
      using "1.prems" c by (subst (asm) unframe.simps) (auto simp: Let_def split: if_splits)
    have l: "\<not> length d < 4 + ?n" using False n by auto
    from "1.prems" c n l obtain ms0 where
      u: "unframe e (drop (4 + ?n) d) = Some (ms0, r)" and ms: "ms = take ?n (drop 4 d) # ms0"
      by (subst (asm) unframe.simps) (auto simp: Let_def split: option.splits)
    have h: "head_value e (d @ d') = head_value e d"
      using c by (auto simp: head_value_def le_at_def be_at_def nth_append)
    have IH: "unframe e (drop (4 + ?n) d @ d') =
        (case unframe e (r @ d') of None \<Rightarrow> None | Some (ms', r') \<Rightarrow> Some (ms0 @ ms', r'))"
      by (rule "1.IH" [OF c refl n l u])
    show ?thesis
      using c n l IH by (subst unframe.simps) (simp add: h Let_def ms split: option.splits)
  qed
qed

lemma unframe_rest:
  assumes "unframe e d = Some (ms, r)"
  shows "length r \<le> length d \<and> r = drop (length d - length r) d"
  using assms
proof (induction e d arbitrary: ms r rule: unframe.induct)
  case (1 e d)
  let ?n = "unat (head_value e d)"
  show ?case
  proof (cases "length d < 4 \<or> (?n \<le> 10000 \<and> length d < 4 + ?n)")
    case True
    then have "unframe e d = Some ([], d)"
      by (subst unframe.simps) (auto simp: Let_def)
    then show ?thesis using "1.prems" by simp
  next
    case False
    then have c: "\<not> length d < 4" by simp
    have n: "\<not> 10000 < ?n"
      using "1.prems" c by (subst (asm) unframe.simps) (auto simp: Let_def split: if_splits)
    have l: "\<not> length d < 4 + ?n" using False n by auto
    from "1.prems" c n l obtain ms0 where u: "unframe e (drop (4 + ?n) d) = Some (ms0, r)"
      by (subst (asm) unframe.simps) (auto simp: Let_def split: option.splits)
    have "length d - (4 + ?n + length r) + (4 + ?n) = length d - length r"
      if "length r \<le> length d - (4 + ?n)" using l that by simp
    with "1.IH" [OF c refl n l u] show ?thesis
      by (auto simp: drop_drop)
  qed
qed

subsection \<open>The reader parses the stream\<close>

definition ps_messages :: "proto_state \<Rightarrow> byte list list" where
  "ps_messages s = map (\<lambda>b. fst (ccb_copyOut b)) (ps_delivered s)"

text \<open>How many more bytes the next frame needs.\<close>

definition lacking :: "endianness \<Rightarrow> byte list \<Rightarrow> nat" where
  "lacking e r = (if length r < 4 then 4 - length r else 4 + unat (head_value e r) - length r)"

lemma read_size_known:
  assumes "cb_readable chars" "4 \<le> length (cb_rest chars)" "ps_reader s = e" "e = LITTLE \<or> e = NETWORK"
  shows "pmr_read_size chars s = (Inr (head_value e (cb_rest chars), chars\<lparr>cb_current := cb_current chars + 4\<rparr>), s)"
  using assms read_u32_rest [OF assms(1,2)] by (auto simp: pmr_read_size_def head_value_def)

lemma reader_step:
  assumes "cb_readable chars" "4 \<le> length (cb_rest chars)" "ps_reader s = e" "e = LITTLE \<or> e = NETWORK"
    and "\<forall>b. h b = Inr ()"
  defines "n \<equiv> unat (head_value e (cb_rest chars))"
  shows "10000 < n \<Longrightarrow> \<exists>msg. pmr_loop (Some h) chars c s = (Inl (InvalidArgument msg), s)"
    and "n \<le> 10000 \<Longrightarrow> length (cb_rest chars) < 4 + n \<Longrightarrow>
         pmr_loop (Some h) chars c s = (Inr (c, 4 + n - length (cb_rest chars)), s)"
    and "n \<le> 10000 \<Longrightarrow> 4 + n \<le> length (cb_rest chars) \<Longrightarrow> \<exists>b chars'.
         pmr_loop (Some h) chars c s = pmr_loop (Some h) chars' (c + 4 + n) (s\<lparr>ps_delivered := ps_delivered s @ [b]\<rparr>) \<and>
         cb_readable chars' \<and> cb_rest chars' = drop (4 + n) (cb_rest chars) \<and>
         fst (ccb_copyOut b) = take n (drop 4 (cb_rest chars))"
proof -
  let ?c1 = "chars\<lparr>cb_current := cb_current chars + 4\<rparr>"
  have sz: "pmr_read_size chars s = (Inr (head_value e (cb_rest chars), ?c1), s)"
    by (rule read_size_known [OF assms(1-4)])
  have rem: "\<not> ccb_remainingData chars < 4"
    using length_cb_rest [OF assms(1)] assms(2) by simp
  have c1: "cb_readable ?c1" "cb_rest ?c1 = drop 4 (cb_rest chars)"
    using cb_rest_skip [OF assms(1,2)] by simp_all
  have rem1: "ccb_remainingData ?c1 = int (length (cb_rest chars)) - 4"
    using length_cb_rest [OF c1(1)] assms(2) by (simp add: c1(2))
  show "10000 < n \<Longrightarrow> \<exists>msg. pmr_loop (Some h) chars c s = (Inl (InvalidArgument msg), s)"
    using rem by (subst pmr_loop.simps) (simp add: sz n_def)
  show "pmr_loop (Some h) chars c s = (Inr (c, 4 + n - length (cb_rest chars)), s)"
    if le: "n \<le> 10000" and lt: "length (cb_rest chars) < 4 + n"
  proof -
    have "ccb_remainingData ?c1 < int n" using lt rem1 by simp
    moreover have "nat (int n - ccb_remainingData ?c1) = 4 + n - length (cb_rest chars)"
      using rem1 by simp
    ultimately show ?thesis
      using rem le by (subst pmr_loop.simps) (simp only: sz n_def split if_False if_True not_less prod.case sum.case,
          simp add: n_def [symmetric])
  qed
  show "\<exists>b chars'.
         pmr_loop (Some h) chars c s = pmr_loop (Some h) chars' (c + 4 + n) (s\<lparr>ps_delivered := ps_delivered s @ [b]\<rparr>) \<and>
         cb_readable chars' \<and> cb_rest chars' = drop (4 + n) (cb_rest chars) \<and>
         fst (ccb_copyOut b) = take n (drop 4 (cb_rest chars))"
    if le: "n \<le> 10000" and ge: "4 + n \<le> length (cb_rest chars)"
  proof -
    let ?b = "ccb_limit ?c1 (cb_current ?c1 + int n)" and ?c2 = "ccb_advance (int n) ?c1"
    have nl: "n \<le> length (cb_rest ?c1)" using ge by (simp add: c1(2))
    have "\<not> ccb_remainingData ?c1 < int n" using ge rem1 by simp
    then have "pmr_loop (Some h) chars c s =
        pmr_loop (Some h) ?c2 (c + 4 + n) (s\<lparr>ps_delivered := ps_delivered s @ [?b]\<rparr>)"
      using rem le assms(5) by (subst pmr_loop.simps) (simp add: sz n_def pmr_deliver_def)
    moreover have "cb_readable ?c2" "cb_rest ?c2 = drop (4 + n) (cb_rest chars)"
      using cb_rest_skip [OF c1(1) nl] by (simp_all add: ccb_advance_def c1(2) add.commute)
    moreover have "fst (ccb_copyOut ?b) = take n (drop 4 (cb_rest chars))"
      using cb_rest_limit [OF c1(1) nl] by (simp add: copyOut_rest c1(2))
    ultimately show ?thesis by blast
  qed
qed

lemma reader_unframe:
  assumes "cb_readable chars" "ps_reader s = e" "e = LITTLE \<or> e = NETWORK" "\<forall>b. h b = Inr ()"
  shows "case unframe e (cb_rest chars) of
           None \<Rightarrow> \<exists>msg s'. pmr_loop (Some h) chars c s = (Inl (InvalidArgument msg), s')
         | Some (ms, r) \<Rightarrow> \<exists>s'. pmr_loop (Some h) chars c s =
               (Inr (c + (length (cb_rest chars) - length r), lacking e r), s') \<and>
               ps_messages s' = ps_messages s @ ms \<and> ps_reader s' = e \<and> ps_sender s' = ps_sender s"
  using assms(1,2)
proof (induction "length (cb_rest chars)" arbitrary: chars c s rule: less_induct)
  case less
  let ?d = "cb_rest chars"
  let ?n = "unat (head_value e ?d)"
  show ?case
  proof (cases "length ?d < 4")
    case True
    then have "unframe e ?d = Some ([], ?d)" by (subst unframe.simps) simp
    moreover have "ccb_remainingData chars < 4" "nat (4 - ccb_remainingData chars) = 4 - length ?d"
      using True length_cb_rest [OF less.prems(1)] by auto
    then have "pmr_loop (Some h) chars c s = (Inr (c, 4 - length ?d), s)"
      by (subst pmr_loop.simps) simp
    ultimately show ?thesis
      using True less.prems(2) by (simp add: lacking_def)
  next
    case False
    then have ge: "4 \<le> length ?d" by simp
    note S = reader_step [OF less.prems(1) ge less.prems(2) assms(3,4), of c]
    consider "10000 < ?n" | "?n \<le> 10000" "length ?d < 4 + ?n" | "?n \<le> 10000" "4 + ?n \<le> length ?d"
      by linarith
    then show ?thesis
    proof cases
      case 1
      with ge have "unframe e ?d = None" by (subst unframe.simps) (simp add: Let_def)
      with S(1) [OF 1] show ?thesis by auto
    next
      case 2
      with ge have "unframe e ?d = Some ([], ?d)" by (subst unframe.simps) (simp add: Let_def)
      with S(2) [OF 2] ge less.prems(2) show ?thesis by (simp add: lacking_def)
    next
      case 3
      obtain b chars' where l: "pmr_loop (Some h) chars c s =
          pmr_loop (Some h) chars' (c + 4 + ?n) (s\<lparr>ps_delivered := ps_delivered s @ [b]\<rparr>)"
        and c': "cb_readable chars'" "cb_rest chars' = drop (4 + ?n) ?d"
        and b: "fst (ccb_copyOut b) = take ?n (drop 4 ?d)"
        using S(3) [OF 3] by blast
      let ?s = "s\<lparr>ps_delivered := ps_delivered s @ [b]\<rparr>"
      have u: "unframe e ?d = (case unframe e (cb_rest chars') of None \<Rightarrow> None
          | Some (ms, r) \<Rightarrow> Some (take ?n (drop 4 ?d) # ms, r))"
        using 3 ge by (subst unframe.simps) (simp add: Let_def c'(2))
      have "length (cb_rest chars') < length ?d" using 3 ge by (simp add: c'(2))
      from less.hyps [OF this c'(1), of ?s "c + 4 + ?n"] less.prems(2)
      have IH: "case unframe e (cb_rest chars') of
           None \<Rightarrow> \<exists>msg s'. pmr_loop (Some h) chars c s = (Inl (InvalidArgument msg), s')
         | Some (ms, r) \<Rightarrow> \<exists>s'. pmr_loop (Some h) chars c s =
               (Inr (c + 4 + ?n + (length (cb_rest chars') - length r), lacking e r), s') \<and>
               ps_messages s' = ps_messages ?s @ ms \<and> ps_reader s' = e \<and> ps_sender s' = ps_sender s"
        unfolding l by (simp split: option.splits prod.splits)
      show ?thesis
      proof (cases "unframe e (cb_rest chars')")
        case None
        with IH u show ?thesis by simp
      next
        case (Some mr)
        obtain ms r where mr: "mr = (ms, r)" by (cases mr)
        have "length r \<le> length (cb_rest chars')"
          using unframe_rest [of e "cb_rest chars'" ms r] Some mr by simp
        then have len: "c + 4 + ?n + (length (cb_rest chars') - length r) = c + (length ?d - length r)"
          using 3(2) by (simp add: c'(2))
        have m: "ps_messages ?s = ps_messages s @ [take ?n (drop 4 ?d)]"
          by (simp add: ps_messages_def b)
        show ?thesis using IH u by (simp add: Some mr len m)
      qed
    qed
  qed
qed

lemma unframe_stuck:
  assumes "unframe e d = Some (ms, r)"
  shows "unframe e r = Some ([], r)"
  using assms
proof (induction e d arbitrary: ms r rule: unframe.induct)
  case (1 e d)
  let ?n = "unat (head_value e d)"
  show ?case
  proof (cases "length d < 4 \<or> (?n \<le> 10000 \<and> length d < 4 + ?n)")
    case True
    then have "unframe e d = Some ([], d)"
      by (subst unframe.simps) (auto simp: Let_def)
    then show ?thesis using "1.prems" by simp
  next
    case False
    then have c: "\<not> length d < 4" by simp
    have n: "\<not> 10000 < ?n"
      using "1.prems" c by (subst (asm) unframe.simps) (auto simp: Let_def split: if_splits)
    have l: "\<not> length d < 4 + ?n" using False n by auto
    from "1.prems" c n l obtain ms0 where u: "unframe e (drop (4 + ?n) d) = Some (ms0, r)"
      by (subst (asm) unframe.simps) (auto simp: Let_def split: option.splits)
    from "1.IH" [OF c refl n l u] show ?thesis .
  qed
qed

lemma unframe_None_append:
  "unframe e d = None \<Longrightarrow> unframe e (d @ d') = None"
proof (induction e d rule: unframe.induct)
  case (1 e d)
  let ?n = "unat (head_value e d)"
  have c: "\<not> length d < 4"
    using "1.prems" by (subst (asm) unframe.simps) (auto split: if_splits)
  then have h: "head_value e (d @ d') = head_value e d"
    by (auto simp: head_value_def le_at_def be_at_def nth_append)
  show ?case
  proof (cases "10000 < ?n")
    case True
    then show ?thesis using c h by (subst unframe.simps) (simp add: Let_def)
  next
    case False
    then have l: "\<not> length d < 4 + ?n"
      using "1.prems" c by (subst (asm) unframe.simps) (auto simp: Let_def split: if_splits)
    have "unframe e (drop (4 + ?n) d) = None"
      using "1.prems" c False l by (subst (asm) unframe.simps) (auto simp: Let_def split: option.splits)
    from "1.IH" [OF c refl False l this] c h False l show ?thesis
      by (subst unframe.simps) (simp add: Let_def)
  qed
qed

text \<open>
  A connection: data arrives in chunks, each is appended to what was not consumed yet, and the reader is
  called on the whole.
\<close>

fun pm_feed :: "(char_buf \<Rightarrow> exn + unit) \<Rightarrow> byte list list \<Rightarrow> byte list \<Rightarrow> (proto_state, byte list) prog" where
  "pm_feed h [] buf s = (Inr buf, s)"
| "pm_feed h (c # cs) buf s =
     (case pmr_checkForMessage (Some h) [buf @ c] s of
        (Inl e, s') \<Rightarrow> (Inl e, s')
      | (Inr (consumed, needed), s') \<Rightarrow> pm_feed h cs (drop consumed (buf @ c)) s')"

lemma feed_unframe:
  assumes "e = LITTLE \<or> e = NETWORK" "\<forall>b. h b = Inr ()" "ps_reader s = e"
    and "unframe e buf = Some ([], buf)" "unframe e (buf @ concat cs) = Some (ms, r)"
  shows "\<exists>s'. pm_feed h cs buf s = (Inr r, s') \<and> ps_messages s' = ps_messages s @ ms \<and> ps_reader s' = e"
  using assms(3-5)
proof (induction cs arbitrary: buf s ms)
  case Nil
  then show ?case by simp
next
  case (Cons c cs)
  obtain ms1 r1 where u1: "unframe e (buf @ c) = Some (ms1, r1)"
    using Cons.prems(3) unframe_None_append [of e "buf @ c" "concat cs"] by fastforce
  obtain ms2 where u2: "unframe e (r1 @ concat cs) = Some (ms2, r)" "ms = ms1 @ ms2"
    using Cons.prems(3) unframe_append [OF u1, of "concat cs"] by (auto split: option.splits)
  have "cb_readable (ccb_new [buf @ c])" "cb_rest (ccb_new [buf @ c]) = buf @ c"
    using ccb_new_rest [of "[buf @ c]"] by simp_all
  from reader_unframe [OF this(1) Cons.prems(1) assms(1,2), of 0] this(2) u1
  obtain s1 where s1: "pmr_checkForMessage (Some h) [buf @ c] s =
      (Inr (length (buf @ c) - length r1, lacking e r1), s1)"
    "ps_messages s1 = ps_messages s @ ms1" "ps_reader s1 = e"
    by (auto simp: pmr_checkForMessage_def)
  have r1: "drop (length (buf @ c) - length r1) (buf @ c) = r1"
    using unframe_rest [OF u1] by simp
  obtain s2 where "pm_feed h cs r1 s1 = (Inr r, s2)" "ps_messages s2 = ps_messages s1 @ ms2" "ps_reader s2 = e"
    using Cons.IH [OF s1(3) unframe_stuck [OF u1] u2(1)] by blast
  then show ?case
    using s1 r1 u2(2) by simp
qed

text \<open>
  C1. The reader parses the stream whatever way the network cuts it: once the byte order is known, a
  stream that consists of frames of messages of at most 10000 bytes, arriving in any chunks, is
  delivered to \<^verbatim>\<open>onComplete\<close> as exactly these messages in order, and nothing is left over.
\<close>

theorem reader_any_chunks:
  assumes "e = LITTLE \<or> e = NETWORK" "\<forall>b. h b = Inr ()" "ps_reader s = e"
    and "\<forall>m \<in> set ms. length m \<le> 10000" "concat chunks = concat (map (frame e) ms)"
  shows "\<exists>s'. pm_feed h chunks [] s = (Inr [], s') \<and> ps_messages s' = ps_messages s @ ms"
proof -
  have nil: "unframe e [] = Some ([], [])" by (subst unframe.simps) simp
  have "unframe e ([] @ concat chunks) = Some (ms, [])"
    using unframe_frames [OF assms(1,4), of "[]"] assms(5) nil by simp
  from feed_unframe [OF assms(1-3) nil this] show ?thesis by blast
qed

theorem reader_any_chunks_witness:
  "\<exists>s'. pm_feed (\<lambda>_. Inr ()) [[2], [0, 0], [0, 7, 8, 1, 0, 0], [0, 9]] [] (pme_new\<lparr>ps_reader := LITTLE\<rparr>) = (Inr [], s') \<and>
     ps_messages s' = ps_messages (pme_new\<lparr>ps_reader := LITTLE\<rparr>) @ [[7, 8], [9]]"
proof (rule reader_any_chunks)
  have "frame LITTLE [7, 8] = [2, 0, 0, 0, 7, 8]" "frame LITTLE [9] = [1, 0, 0, 0, 9]"
    by code_simp+
  then show "concat [[2], [0, 0], [0, 7, 8, 1, 0, 0], [0, 9]] = concat (map (frame LITTLE) [[7, 8], [9]])"
    by simp
qed (simp_all add: pme_new_def)

subsection \<open>The sender, and both together\<close>

lemma xsputn_oflow:
  "cb_current b + int (length cs) \<le> cb_size b \<Longrightarrow> cb_xsputn_loop cs b = cb_oflow_all cs b"
proof (induction cs arbitrary: b)
  case (Cons c cs)
  have "cb_oflow (uint c) b = (uint c, cb_advance 1 (snd (cb_put_char_at (cb_current b) c b)))"
    using Cons.prems by (simp add: cb_oflow_def)
  moreover have "cb_current (cb_advance 1 (snd (cb_put_char_at (cb_current b) c b))) = cb_current b + 1"
    "cb_size (cb_advance 1 (snd (cb_put_char_at (cb_current b) c b))) = cb_size b"
    by (auto simp: cb_advance_def cb_put_char_at_def split: prod.splits)
  ultimately show ?case
    using Cons by simp
qed simp

lemma oflow_all_append: "cb_oflow_all (xs @ ys) b = cb_oflow_all ys (cb_oflow_all xs b)"
  by (induction xs arbitrary: b) simp_all

definition write_message :: "endianness \<Rightarrow> byte list \<Rightarrow> char_buf \<Rightarrow> char_buf" where
  "write_message e m b = snd (cb_xsputn m
     (if e = LITTLE then cb_write_little_endian (of_nat (length m)) b else cb_write_u32 (of_nat (length m)) b))"

lemma write_message_frame:
  assumes "cb_ok b" "cb_current b + int (length (frame e m)) \<le> cb_size b"
  shows "write_message e m b = cb_oflow_all (frame e m) b"
proof -
  have h: "write_message e m b = snd (cb_xsputn m (cb_oflow_all (take 4 (frame e m)) b))"
    by (simp add: write_message_def frame_def cb_write_little_endian_def cb_write_u32_def Let_def)
  have "cb_current b + int (length (take 4 (frame e m))) \<le> cb_size b"
    using assms(2) by simp
  note O = oflow_all_flat [OF assms(1) this]
  have "snd (cb_xsputn m (cb_oflow_all (take 4 (frame e m)) b)) = cb_oflow_all m (cb_oflow_all (take 4 (frame e m)) b)"
    using O(2,3) assms(2) by (simp add: cb_xsputn_def xsputn_oflow)
  also have "\<dots> = cb_oflow_all (frame e m) b"
    by (simp add: oflow_all_append [symmetric] frame_def Let_def)
  finally show ?thesis using h by simp
qed

text \<open>What protobuf documents of its serialiser, and a queue limit that an empty queue does not reach.\<close>

definition sender_params_ok :: "('m \<Rightarrow> nat) \<Rightarrow> ('m \<Rightarrow> byte list) \<Rightarrow> (nat \<Rightarrow> bool) \<Rightarrow> bool" where
  "sender_params_ok byteSize serialize full \<longleftrightarrow>
     (\<forall>m. byteSize m = length (serialize m)) \<and> (\<forall>m. length (serialize m) < 2 ^ 31) \<and> \<not> full 0"

lemma sender_frames:
  assumes "sender_params_ok byteSize serialize full" "ps_endpoint s" "ps_sender s = e" "e = LITTLE \<or> e = NETWORK"
    and "cb_ok chars"
  shows "\<exists>k s'. pms_loop byteSize serialize full txq chars c s =
           (Inr (c + length (concat (map (frame e \<circ> serialize) (take k txq))), 0), drop k txq,
            cb_oflow_all (concat (map (frame e \<circ> serialize) (take k txq))) chars, s') \<and>
         s' = s\<lparr>ps_wakes := ps_wakes s'\<rparr> \<and> k \<le> length txq \<and>
         cb_current chars + int (length (concat (map (frame e \<circ> serialize) (take k txq)))) \<le> max (cb_current chars) (cb_size chars) \<and>
         (k < length txq \<longrightarrow> cb_remainingSpace chars <
            int (length (concat (map (frame e \<circ> serialize) (take (Suc k) txq)))))"
  using assms(2,3,5)
proof (induction txq arbitrary: chars c s)
  case Nil
  then have "pms_loop byteSize serialize full [] chars c s = (Inr (c, 0), [], chars, s\<lparr>ps_wakes := ps_wakes s + 1\<rparr>)"
    using assms(1) by (subst pms_loop.simps) (simp add: sender_params_ok_def Let_def)
  then show ?case by (intro exI [of _ 0]) simp
next
  case (Cons m txq)
  let ?b = "serialize m"
  define s1 where "s1 = (if full (length (m # txq)) then s else s\<lparr>ps_wakes := ps_wakes s + 1\<rparr>)"
  have s1: "ps_endpoint s1" "ps_sender s1 = e" "s1 = s\<lparr>ps_wakes := ps_wakes s1\<rparr>"
    using Cons.prems by (simp_all add: s1_def)
  have bs: "byteSize m = length ?b" "length ?b < 2 ^ 31"
    using assms(1) by (auto simp: sender_params_ok_def)
  have w: "unat (of_nat (length ?b) + 4 :: u32) = length ?b + 4"
    using bs(2) by (subst unat_plus_small) (simp_all add: unsigned_of_nat take_bit_nat_eq_self)
  then have wi: "uint (of_nat (length ?b) + 4 :: u32) = int (length ?b) + 4"
    by (metis of_nat_add of_nat_numeral uint_nat)
  show ?case
  proof (cases "cb_remainingSpace chars < int (length (frame e ?b))")
    case True
    then have "pms_loop byteSize serialize full (m # txq) chars c s = (Inr (c, 0), m # txq, chars, s1)"
      using Cons.prems(1) wi bs by (subst pms_loop.simps) (simp add: Let_def s1_def)
    with True s1 show ?thesis by (intro exI [of _ 0]) auto
  next
    case False
    then have fit: "cb_current chars + int (length (frame e ?b)) \<le> cb_size chars"
      by (simp add: cb_remainingSpace_def)
    have "pms_loop byteSize serialize full (m # txq) chars c s =
        pms_loop byteSize serialize full txq (write_message e ?b chars) (c + (length ?b + 4)) s1"
      using Cons.prems(1,2) False w wi bs assms(4)
      by (subst pms_loop.simps) (auto simp: Let_def s1_def write_message_def)
    then have step: "pms_loop byteSize serialize full (m # txq) chars c s =
        pms_loop byteSize serialize full txq (cb_oflow_all (frame e ?b) chars) (c + length (frame e ?b)) s1"
      by (simp add: write_message_frame [OF Cons.prems(3) fit] add.commute)
    note O = oflow_all_flat [OF Cons.prems(3) fit]
    let ?ch = "cb_oflow_all (frame e ?b) chars" and ?fr = "\<lambda>k. concat (map (frame e \<circ> serialize) (take k txq))"
    obtain k s' where IH: "pms_loop byteSize serialize full txq ?ch (c + length (frame e ?b)) s1 =
           (Inr (c + length (frame e ?b) + length (?fr k), 0), drop k txq, cb_oflow_all (?fr k) ?ch, s')"
         "s' = s1\<lparr>ps_wakes := ps_wakes s'\<rparr>" "k \<le> length txq"
         "cb_current ?ch + int (length (?fr k)) \<le> max (cb_current ?ch) (cb_size ?ch)"
         "k < length txq \<longrightarrow> cb_remainingSpace ?ch < int (length (?fr (Suc k)))"
      using Cons.IH [OF s1(1,2) O(4), of "c + length (frame e ?b)"] by blast
    show ?thesis
    proof (intro exI [of _ "Suc k"] exI [of _ s'] conjI)
      show "pms_loop byteSize serialize full (m # txq) chars c s =
           (Inr (c + length (concat (map (frame e \<circ> serialize) (take (Suc k) (m # txq)))), 0), drop (Suc k) (m # txq),
            cb_oflow_all (concat (map (frame e \<circ> serialize) (take (Suc k) (m # txq)))) chars, s')"
        using IH(1) by (simp add: step oflow_all_append)
      show "s' = s\<lparr>ps_wakes := ps_wakes s'\<rparr>"
        using IH(2) s1(3) by (metis (no_types, lifting) proto_state.update_convs(5) proto_state.surjective proto_state.select_convs(5))
      show "Suc k \<le> length (m # txq)" using IH(3) by simp
      show "cb_current chars + int (length (concat (map (frame e \<circ> serialize) (take (Suc k) (m # txq)))))
          \<le> max (cb_current chars) (cb_size chars)"
        using IH(4) O(2,3) fit by simp
      show "Suc k < length (m # txq) \<longrightarrow> cb_remainingSpace chars <
            int (length (concat (map (frame e \<circ> serialize) (take (Suc (Suc k)) (m # txq)))))"
        using IH(5) O(2,3) by (auto simp: cb_remainingSpace_def)
    qed
  qed
qed

text \<open>
  C2. What the sender writes the reader reads: from a queue of messages and any regions of free space the
  sender writes whole frames, in queue order, until the queue is empty or the next frame does not fit;
  it reports exactly the bytes it wrote; and a reader of the same byte order that is given these bytes
  delivers the serialisations of the messages that left the queue, in order, consumes all bytes and asks
  for the four bytes of the next head.
\<close>

theorem sender_reader_roundtrip:
  assumes "sender_params_ok byteSize serialize full" "e = LITTLE \<or> e = NETWORK" "\<forall>b. h b = Inr ()"
    and "ps_endpoint s" "ps_sender s = e" "ps_reader t = e" "\<forall>m \<in> set txq. length (serialize m) \<le> 10000"
  shows "case pms_checkForSpace byteSize serialize full regions txq s of (res, txq', regions', s') \<Rightarrow>
           \<exists>n k t'. res = Inr (n, 0) \<and> txq' = drop k txq \<and> n \<le> length (concat regions) \<and>
             map length regions' = map length regions \<and> drop n (concat regions') = drop n (concat regions) \<and>
             (k < length txq \<longrightarrow> length (concat regions) < n + 4 + length (serialize (txq ! k))) \<and>
             pmr_checkForMessage (Some h) [take n (concat regions')] t = (Inr (n, 4), t') \<and>
             ps_messages t' = ps_messages t @ map serialize (take k txq)"
proof -
  let ?b = "cb_new regions"
  have nb: "?b = ccb_new regions" by (simp add: cb_new_def ccb_new_def)
  have R: "cb_readable ?b" "cb_rest ?b = concat regions"
    using ccb_new_rest [of regions] nb by simp_all
  have ok: "cb_ok ?b" using R(1) by (simp add: cb_readable_def)
  have b0: "cb_current ?b = 0" "cb_flat ?b = concat regions" by (simp_all add: cb_new_def cb_flat_def)
  have sz: "cb_size ?b = int (length (concat regions))"
    using length_cb_rest [OF R(1)] by (simp add: R(2) ccb_remainingData_def b0)
  define fr where "fr k = concat (map (frame e \<circ> serialize) (take k txq))" for k
  obtain k s' where S: "pms_loop byteSize serialize full txq ?b 0 s =
      (Inr (length (fr k), 0), drop k txq, cb_oflow_all (fr k) ?b, s')" "k \<le> length txq"
    "cb_current ?b + int (length (fr k)) \<le> max (cb_current ?b) (cb_size ?b)"
    "k < length txq \<longrightarrow> cb_remainingSpace ?b < int (length (fr (Suc k)))"
    using sender_frames [OF assms(1,4,5,2) ok, of txq 0] by (auto simp: fr_def)
  have fit: "cb_current ?b + int (length (fr k)) \<le> cb_size ?b"
    using S(3) by (simp add: b0 sz)
  note O = oflow_all_flat [OF ok fit]
  let ?n = "length (fr k)" and ?regs = "cb_buffers (cb_oflow_all (fr k) ?b)"
  have le: "?n \<le> length (concat regions)" using fit by (simp add: b0 sz)
  have flat: "concat ?regs = fr k @ drop ?n (concat regions)"
    using O(1) b0 by (simp add: cb_flat_def overwrite_def)
  have next_big: "k < length txq \<longrightarrow> length (concat regions) < ?n + 4 + length (serialize (txq ! k))"
    using S(4) by (auto simp: cb_remainingSpace_def b0 sz fr_def take_Suc_conv_app_nth)
  have "unframe e (fr k) = Some (map serialize (take k txq), [])"
  proof -
    have "unframe e [] = Some ([], [])" by (subst unframe.simps) simp
    then show ?thesis
      using unframe_frames [OF assms(2), of "map serialize (take k txq)" "[]"] assms(7)
      by (auto simp: fr_def comp_def dest: in_set_takeD)
  qed
  then obtain t' where "pmr_checkForMessage (Some h) [fr k] t = (Inr (?n, 4), t')"
    "ps_messages t' = ps_messages t @ map serialize (take k txq)"
    using reader_unframe [OF _ assms(6,2,3), of "ccb_new [fr k]" 0] ccb_new_rest [of "[fr k]"]
    by (auto simp: pmr_checkForMessage_def lacking_def)
  then show ?thesis
    using S(1) flat le next_big O(5)
    by (auto simp: pms_checkForSpace_def cb_new_def)
qed

theorem sender_reader_roundtrip_witness:
  "case pms_checkForSpace (\<lambda>m. length (take 10000 m)) (take 10000) (\<lambda>n. 50 \<le> n) [[0, 0, 0], [0, 0, 0, 0]] [[5, 6], [7]]
     (pme_new\<lparr>ps_sender := NETWORK\<rparr>) of (res, txq', regions', s') \<Rightarrow>
       \<exists>n k t'. res = Inr (n, 0) \<and> txq' = drop k [[5, 6], [7]] \<and>
         pmr_checkForMessage (Some (\<lambda>_. Inr ())) [take n (concat regions')] (pme_new\<lparr>ps_reader := NETWORK\<rparr>) = (Inr (n, 4), t') \<and>
         ps_messages t' = ps_messages (pme_new\<lparr>ps_reader := NETWORK\<rparr>) @ map (take 10000) (take k [[5, 6], [7]])"
proof -
  have "sender_params_ok (\<lambda>m. length (take 10000 m)) (take 10000 :: byte list \<Rightarrow> byte list) (\<lambda>n. 50 \<le> n)"
    by (simp add: sender_params_ok_def min_less_iff_disj)
  from sender_reader_roundtrip [OF this, of NETWORK "\<lambda>_. Inr ()" "pme_new\<lparr>ps_sender := NETWORK\<rparr>"
      "pme_new\<lparr>ps_reader := NETWORK\<rparr>" "[[5, 6], [7]]" "[[0, 0, 0], [0, 0, 0, 0]]"]
  show ?thesis
    by (auto simp: pme_new_def split: prod.splits)
qed

text \<open>
  Detection of the byte order, little-endian side: a reader that does not know the byte order yet and
  is given a stream of little-endian frames treats it exactly as one that knows, and sets the byte order
  of its endpoint's reader and sender.
\<close>

lemma detects_little_endian:
  assumes "ps_reader s = DUNNO" "ps_endpoint s"
    and "length m \<le> 10000" "concat data = frame LITTLE m @ d"
  shows "pmr_checkForMessage (Some h) data s = pmr_checkForMessage (Some h) data (pme_setEndianness LITTLE s)"
proof -
  let ?c = "ccb_new data"
  have R: "cb_readable ?c" "cb_rest ?c = frame LITTLE m @ d"
    using ccb_new_rest [of data] assms(4) by simp_all
  have len: "4 \<le> length (cb_rest ?c)" by (simp add: R(2))
  have v: "le_at (cb_rest ?c) = of_nat (length m)"
    using head_value_frame [of LITTLE m d] assms(3) by (simp add: R(2) head_value_def)
  have "(of_nat (length m) :: u32) < 65535"
    using unat_small [OF assms(3)] assms(3) by (simp add: word_less_nat_alt)
  then have "pmr_read_size ?c s = pmr_read_size ?c (pme_setEndianness LITTLE s)"
    using assms(1,2) read_u32_rest(2) [OF R(1) len]
    by (simp add: pmr_read_size_def v pmr_setDetectedEndianness_def pme_setEndianness_def
        pms_setEndianness_def pmr_setEndianness_def)
  moreover have "\<not> ccb_remainingData ?c < 4"
    using length_cb_rest [OF R(1)] len by simp
  ultimately show ?thesis
    unfolding pmr_checkForMessage_def by (subst (1 2) pmr_loop.simps) simp
qed

lemma detects_little_endian_example:
  "pmr_checkForMessage (Some (\<lambda>_. Inr ())) [[1, 0], [0, 0, 9]] pme_new =
   pmr_checkForMessage (Some (\<lambda>_. Inr ())) [[1, 0], [0, 0, 9]] (pme_setEndianness LITTLE pme_new)"
proof (rule detects_little_endian)
  have "frame LITTLE [9] = [1, 0, 0, 0, 9]" by code_simp
  then show "concat [[1, 0], [0, 0, 9]] = frame LITTLE [9] @ []" by simp
qed (simp_all add: pme_new_def)

lemma be_small_le_big:
  assumes "le_at (be_bytes i) < 65535" "i < 65536"
  shows "i = 0"
proof -
  have x: "le_at (be_bytes i) = be_value (ucast i) (ucast (drop_bit 8 i)) (ucast (drop_bit 16 i)) (ucast (drop_bit 24 i))"
    by (simp add: le_at_def be_bytes_def numeral_2_eq_2 numeral_3_eq_3)
  have hi: "\<not> bit w n" if "w < 65536" "16 \<le> n" for w :: u32 and n
  proof -
    have "unat (take_bit 16 w) = unat w"
      using that(1) by (simp add: unsigned_take_bit_eq take_bit_nat_eq_self word_less_nat_alt)
    then have "take_bit 16 w = w" by (simp add: word_unat_eq_iff)
    then show ?thesis using that(2) by (metis bit_take_bit_iff not_less)
  qed
  have small: "le_at (be_bytes i) < 65536"
    using assms(1) by (simp add: word_less_nat_alt)
  have lo: "\<not> bit i n" if n: "n < 16" for n
  proof (cases "n < 8")
    case True
    then have "bit (le_at (be_bytes i)) (24 + n) = bit i n"
      by (auto simp: x be_value_def bit_simps)
    then show ?thesis using hi [of "le_at (be_bytes i)" "24 + n"] small by simp
  next
    case False
    then have "bit (le_at (be_bytes i)) (8 + n) = bit i n"
      using n by (auto simp: x be_value_def bit_simps)
    then show ?thesis using hi [of "le_at (be_bytes i)" "8 + n"] small False by simp
  qed
  show ?thesis
    by (rule bit_word_eqI) (metis bit_0_eq bot_apply bot_bool_def hi [OF assms(2)] lo not_less)
qed

text \<open>
  Detection of the byte order, network side: a client that starts with a network-order frame is
  refused unless the first four bytes of its message happen to read as a number below 65535, because
  the reader reads those instead of reading the head again.
\<close>

lemma network_order_refused:
  assumes "ps_reader s = DUNNO" "4 \<le> length m" "length m \<le> 10000" "65535 \<le> be_at m"
    and "concat data = frame NETWORK m @ d"
  shows "pmr_checkForMessage onComplete data s = (Inl (InvalidArgument ''Could not determine endianness.''), s)"
proof -
  let ?c = "ccb_new data"
  have fr: "frame NETWORK m = be_bytes (of_nat (length m)) @ m" by (simp add: frame_def)
  have R: "cb_readable ?c" "cb_rest ?c = be_bytes (of_nat (length m)) @ m @ d"
    using ccb_new_rest [of data] assms(5) by (simp_all add: fr)
  have len: "4 \<le> length (cb_rest ?c)" by (simp add: R(2))
  let ?c1 = "?c\<lparr>cb_current := cb_current ?c + 4\<rparr>"
  have c1: "cb_readable ?c1" "cb_rest ?c1 = m @ d"
    using cb_rest_skip [OF R(1) len] by (simp_all add: R(2))
  have le: "le_at (cb_rest ?c) = le_at (be_bytes (of_nat (length m)))"
    by (simp add: R(2) le_at_def nth_append)
  have "(of_nat (length m) :: u32) \<noteq> 0" "(of_nat (length m) :: u32) < 65536"
    using unat_small [OF assms(3)] assms(2,3) by (auto simp: word_less_nat_alt unat_eq_zero [symmetric])
  then have big: "\<not> le_at (cb_rest ?c) < 65535"
    using be_small_le_big [of "of_nat (length m)"] by (auto simp: le)
  have "be_at (m @ d) = be_at m"
    using assms(2) by (auto simp: be_at_def nth_append)
  then have "pmr_read_size ?c s = (Inl (InvalidArgument ''Could not determine endianness.''), s)"
    using assms(1,2,4) big read_u32_rest(2) [OF R(1) len] read_u32_rest(1) [OF c1(1)]
    by (simp add: pmr_read_size_def c1(2) not_less)
  moreover have "\<not> ccb_remainingData ?c < 4"
    using length_cb_rest [OF R(1)] len by simp
  ultimately show ?thesis
    unfolding pmr_checkForMessage_def by (subst pmr_loop.simps) simp
qed

lemma network_order_refused_example:
  "pmr_checkForMessage None [[0, 0, 0, 5, 10, 3, 65, 66, 67]] pme_new =
     (Inl (InvalidArgument ''Could not determine endianness.''), pme_new)"
proof (rule network_order_refused)
  show "concat [[0, 0, 0, 5, 10, 3, 65, 66, 67]] = frame NETWORK [10, 3, 65, 66, 67] @ []"
    by code_simp
  show "65535 \<le> be_at [10, 3, 65, 66, 67]" by code_simp
qed (simp_all add: pme_new_def)

end
