(* ===== verification/Uris.thy ===== *)
theory Uris
  imports CxxStd
begin

text \<open>
  Addresses: \<^verbatim>\<open>cpp-utils/src/cpp/lib/Uri.cpp\<close> (addresses of listeners and of the search service) and
  \<^verbatim>\<open>mt-core/tasks/src/cpp/utils.hpp\<close> (\<^verbatim>\<open>OEFURI\<close>: addresses of agents).
\<close>

subsection \<open>\<^verbatim>\<open>Uri\<close>\<close>

record uri =
  uri_s :: string
  uri_proto :: string
  uri_host :: string
  uri_path :: string
  uri_port :: u16
  uri_valid :: bool

text \<open>The character class of the regular expression, and the characters that \<^verbatim>\<open>.\<close> does not match.\<close>

definition uri_char :: "char \<Rightarrow> bool" where
  "uri_char c \<longleftrightarrow> c = CHR ''-'' \<or> c = CHR ''.'' \<or> is_digit c \<or>
     ((65::nat) \<le> of_char c \<and> of_char c \<le> (90::nat)) \<or> ((97::nat) \<le> of_char c \<and> of_char c \<le> (122::nat))"

definition line_end :: "char \<Rightarrow> bool" where
  "line_end c \<longleftrightarrow> c = CHR 0x0A \<or> c = CHR 0x0D"

text \<open>
  \<^verbatim>\<open>^([-a-zA-Z0-9\.]+:)?//([-a-zA-Z0-9\.]+)(:[0-9]+)?(/.*)?$\<close>: no class contains a character that can
  follow it, so a match is unique and is found by taking the longest run at each step. The result is the
  four groups, empty when a group took no part in the match.
\<close>

definition uri_match_tail :: "string \<Rightarrow> string \<Rightarrow> string list option" where
  "uri_match_tail proto s =
     (let host = takeWhile uri_char s; s1 = dropWhile uri_char s;
          ds = (if s1 \<noteq> [] \<and> hd s1 = CHR '':'' then takeWhile is_digit (tl s1) else []);
          port = (if ds \<noteq> [] then CHR '':'' # ds else []);
          path = (if ds \<noteq> [] then dropWhile is_digit (tl s1) else s1)
      in if host \<noteq> [] \<and> (path = [] \<or> (hd path = CHR ''/'' \<and> (\<forall>c \<in> set (tl path). \<not> line_end c)))
         then Some [proto, host, port, path] else None)"

definition uri_match :: "string \<Rightarrow> string list option" where
  "uri_match s =
     (let p = takeWhile uri_char s; s1 = dropWhile uri_char s
      in if p \<noteq> [] \<and> take 3 s1 = ''://'' then uri_match_tail (p @ '':'') (drop 3 s1)
         else if take 2 s = ''//'' then uri_match_tail [] (drop 2 s)
         else None)"

datatype uri_what = WALL | WPROTO | WHOST | WPORT | WPATH

text \<open>The loop over the groups with its \<^verbatim>\<open>switch\<close>, fall-through included.\<close>

definition uri_part_path :: "string \<Rightarrow> uri \<Rightarrow> uri" where
  "uri_part_path part u = u\<lparr>uri_path := part\<rparr>"

definition uri_part_port :: "string \<Rightarrow> uri_what \<Rightarrow> uri \<Rightarrow> exn + uri_what \<times> uri" where
  "uri_part_port part w u =
     (if part \<noteq> [] \<and> hd part = CHR '':'' then
        ebind (std_stoi (tl part)) (\<lambda>n. Inr (WPATH, u\<lparr>uri_port := word_of_int n\<rparr>))
      else Inr (w, uri_part_path part u))"

definition uri_part_host :: "string \<Rightarrow> uri \<Rightarrow> exn + uri_what \<times> uri" where
  "uri_part_host part u = Inr (WPORT, u\<lparr>uri_host := part\<rparr>)"

definition uri_part :: "string \<Rightarrow> uri_what \<Rightarrow> uri \<Rightarrow> exn + uri_what \<times> uri" where
  "uri_part part w u = (case w of
     WALL \<Rightarrow> Inr (WPROTO, u)
   | WPROTO \<Rightarrow> (if part \<noteq> [] \<and> last part = CHR '':'' then Inr (WHOST, u\<lparr>uri_proto := part\<rparr>)
               else uri_part_host part u)
   | WHOST \<Rightarrow> uri_part_host part u
   | WPORT \<Rightarrow> uri_part_port part w u
   | WPATH \<Rightarrow> Inr (w, uri_part_path part u))"

fun uri_parts :: "string list \<Rightarrow> uri_what \<Rightarrow> uri \<Rightarrow> exn + uri" where
  "uri_parts [] w u = Inr u"
| "uri_parts (p # ps) w u = ebind (uri_part p w u) (\<lambda>(w', u'). uri_parts ps w' u')"

definition uri_parse :: "string \<Rightarrow> exn + uri" where
  "uri_parse s =
     (let u = \<lparr>uri_s = s, uri_proto = [], uri_host = [], uri_path = [], uri_port = 0, uri_valid = False\<rparr>
      in case uri_match s of
           None \<Rightarrow> Inr u
         | Some groups \<Rightarrow> ebind (uri_parts (s # groups) WALL u) (\<lambda>u'. Inr (u'\<lparr>uri_valid := True\<rparr>)))"

subsection \<open>\<^verbatim>\<open>OEFURI::URI\<close> and its builder\<close>

record oef_uri =
  ou_protocol :: string
  ou_coreURI :: string
  ou_coreKey :: string
  ou_namespaces :: "string list"
  ou_agentKey :: string
  ou_agentAlias :: string
  ou_empty :: bool

definition oef_uri_new :: oef_uri where
  "oef_uri_new = \<lparr>ou_protocol = ''tcp'', ou_coreURI = [], ou_coreKey = [], ou_namespaces = [],
     ou_agentKey = [], ou_agentAlias = [], ou_empty = True\<rparr>"

text \<open>
  \<^verbatim>\<open>split\<close> adds a last empty piece for a trailing slash (whatever the delimiter); \<^verbatim>\<open>back()\<close> of an empty
  string is undefined.
\<close>

definition oef_split :: "string \<Rightarrow> char \<Rightarrow> exn + string list" where
  "oef_split str delim =
     (if str = [] then Inl Undefined
      else Inr (getline_split delim str @ (if last str = CHR ''/'' then [[]] else [])))"

definition oef_toString :: "oef_uri \<Rightarrow> string" where
  "oef_toString u =
     (let nspaces = (if ou_namespaces u \<noteq> []
                     then butlast (concat (map (\<lambda>n. n @ ''/'') (ou_namespaces u))) else [])
      in ou_protocol u @ ''://'' @ ou_coreURI u @ ''/'' @ ou_coreKey u @ ''/'' @ nspaces @ ''/'' @
         ou_agentKey u @ ''/'' @ ou_agentAlias u)"

definition oef_agentPartAsString :: "oef_uri \<Rightarrow> string" where
  "oef_agentPartAsString u =
     ou_agentKey u @ (if 0 < length (ou_agentAlias u) then ''/'' @ ou_agentAlias u else [])"

definition oef_parse :: "string \<Rightarrow> oef_uri \<Rightarrow> exn + oef_uri" where
  "oef_parse s u = ebind (oef_split s (CHR ''/'')) (\<lambda>vec.
     if length vec < 7 then Inr u
     else Inr (u\<lparr>ou_empty := False, ou_protocol := take (length (vec ! 0) - 1) (vec ! 0),
                 ou_coreURI := vec ! 2, ou_coreKey := vec ! 3,
                 ou_agentAlias := vec ! (length vec - 1), ou_agentKey := vec ! (length vec - 2),
                 ou_namespaces := ou_namespaces u @ map ((!) vec) [4..<length vec - 2]\<rparr>))"

definition oef_parseAgent :: "string \<Rightarrow> oef_uri \<Rightarrow> exn + oef_uri" where
  "oef_parseAgent s u =
     (if CHR ''/'' \<notin> set s then Inr (u\<lparr>ou_agentKey := s\<rparr>)
      else ebind (oef_split s (CHR ''/'')) (\<lambda>vec.
        if length vec \<noteq> 2 then Inr u
        else Inr (u\<lparr>ou_empty := False, ou_agentKey := vec ! 0, ou_agentAlias := vec ! 1\<rparr>)))"

definition ob_protocol :: "string \<Rightarrow> oef_uri \<Rightarrow> oef_uri" where
  "ob_protocol p u = u\<lparr>ou_protocol := p\<rparr>"

definition ob_coreAddress :: "string \<Rightarrow> int \<Rightarrow> oef_uri \<Rightarrow> oef_uri" where
  "ob_coreAddress host port u = u\<lparr>ou_coreURI := host @ int_str port\<rparr>"

definition ob_coreKey :: "string \<Rightarrow> oef_uri \<Rightarrow> oef_uri" where
  "ob_coreKey k u = u\<lparr>ou_coreKey := k\<rparr>"

definition ob_agentKey :: "string \<Rightarrow> oef_uri \<Rightarrow> oef_uri" where
  "ob_agentKey k u = u\<lparr>ou_agentKey := k\<rparr>"

definition ob_addNamespace :: "string \<Rightarrow> oef_uri \<Rightarrow> oef_uri" where
  "ob_addNamespace n u = u\<lparr>ou_namespaces := ou_namespaces u @ [n]\<rparr>"

definition ob_agentAlias :: "string \<Rightarrow> oef_uri \<Rightarrow> oef_uri" where
  "ob_agentAlias a u = u\<lparr>ou_agentAlias := a\<rparr>"

lemma parseAgent_total: "\<exists>u'. oef_parseAgent s u = Inr u'"
  by (auto simp: oef_parseAgent_def oef_split_def)

subsection \<open>Parsing addresses\<close>

lemma uri_char_not: "\<not> uri_char (CHR '':'')" "\<not> uri_char (CHR ''/'')"
  by (simp_all add: uri_char_def is_digit_def)

lemma takeWhile_dropWhile_stop:
  assumes "\<forall>c \<in> set ds. P c" "r = [] \<or> \<not> P (hd r)"
  shows "takeWhile P (ds @ r) = ds" "dropWhile P (ds @ r) = r"
  using assms by (cases r; auto simp: takeWhile_append dropWhile_append)+

definition uri_path_ok :: "string \<Rightarrow> bool" where
  "uri_path_ok p \<longleftrightarrow> p = [] \<or> (hd p = CHR ''/'' \<and> (\<forall>c \<in> set (tl p). \<not> line_end c))"

lemma match_tail:
  assumes "h \<noteq> []" "\<forall>c \<in> set h. uri_char c" "uri_path_ok path"
  shows "uri_match_tail p (h @ CHR '':'' # nat_str n @ path) = Some [p, h, CHR '':'' # nat_str n, path]"
    and "uri_match_tail p (h @ path) = Some [p, h, [], path]"
proof -
  have a: "takeWhile uri_char (h @ CHR '':'' # nat_str n @ path) = h"
    "dropWhile uri_char (h @ CHR '':'' # nat_str n @ path) = CHR '':'' # nat_str n @ path"
    using takeWhile_dropWhile_stop [OF assms(2), of "CHR '':'' # nat_str n @ path"] by (simp_all add: uri_char_not)
  have pd: "path = [] \<or> \<not> is_digit (hd path)"
    using assms(3) by (auto simp: uri_path_ok_def is_digit_def)
  have b: "takeWhile is_digit (nat_str n @ path) = nat_str n" "dropWhile is_digit (nat_str n @ path) = path"
    using takeWhile_dropWhile_stop [OF nat_str_digits pd] by simp_all
  show "uri_match_tail p (h @ CHR '':'' # nat_str n @ path) = Some [p, h, CHR '':'' # nat_str n, path]"
    using assms(1,3) by (simp add: uri_match_tail_def Let_def a b uri_path_ok_def)
  have pc: "path = [] \<or> \<not> uri_char (hd path)"
    using assms(3) by (auto simp: uri_path_ok_def uri_char_not)
  have c: "takeWhile uri_char (h @ path) = h" "dropWhile uri_char (h @ path) = path"
    using takeWhile_dropWhile_stop [OF assms(2) pc] by simp_all
  have "\<not> (path \<noteq> [] \<and> hd path = CHR '':'')"
    using assms(3) by (auto simp: uri_path_ok_def)
  then show "uri_match_tail p (h @ path) = Some [p, h, [], path]"
    using assms(1,3) by (auto simp: uri_match_tail_def Let_def c uri_path_ok_def)
qed

lemma match_proto:
  assumes "p \<noteq> []" "\<forall>c \<in> set p. uri_char c"
  shows "uri_match (p @ ''://'' @ r) = uri_match_tail (p @ '':'') r"
    and "uri_match (''//'' @ r) = uri_match_tail [] r"
proof -
  have "takeWhile uri_char (p @ ''://'' @ r) = p" "dropWhile uri_char (p @ ''://'' @ r) = ''://'' @ r"
    using takeWhile_dropWhile_stop [OF assms(2), of "''://'' @ r"] by (simp_all add: uri_char_not)
  then show "uri_match (p @ ''://'' @ r) = uri_match_tail (p @ '':'') r"
    using assms(1) unfolding uri_match_def Let_def by simp
  show "uri_match (''//'' @ r) = uri_match_tail [] r"
    by (simp add: uri_match_def uri_char_not)
qed

text \<open>The port text of an address, and the port number the code stores for it.\<close>

definition uri_port_text :: "nat option \<Rightarrow> string" where
  "uri_port_text n = (case n of None \<Rightarrow> [] | Some k \<Rightarrow> CHR '':'' # nat_str k)"

lemma stoi_nat_str: "n < 2 ^ 31 \<Longrightarrow> std_stoi (nat_str n) = Inr (int n)"
  using stoi_digits [OF nat_str_nonempty nat_str_digits, of "[]" n] by simp

lemma match_tail_port:
  assumes "h \<noteq> []" "\<forall>c \<in> set h. uri_char c" "uri_path_ok path"
  shows "uri_match_tail p (h @ uri_port_text n @ path) = Some [p, h, uri_port_text n, path]"
  using match_tail [OF assms] by (simp add: uri_port_text_def split: option.splits)

lemma path_not_colon: "uri_path_ok path \<Longrightarrow> path \<noteq> [] \<Longrightarrow> hd path \<noteq> CHR '':''"
  by (auto simp: uri_path_ok_def)

text \<open>
  Addresses with a protocol are taken apart as written: for a protocol, a host, an optional port that
  fits an \<^verbatim>\<open>int\<close> and an optional path, parsing yields exactly these parts (the protocol with its colon),
  and the port is the given number truncated to 16 bits.
\<close>

lemma uri_parse_full:
  assumes "p \<noteq> []" "\<forall>c \<in> set p. uri_char c" "h \<noteq> []" "\<forall>c \<in> set h. uri_char c" "uri_path_ok path"
    and "\<forall>k. n = Some k \<longrightarrow> k < 2 ^ 31"
  shows "uri_parse (p @ ''://'' @ h @ uri_port_text n @ path) =
           Inr \<lparr>uri_s = p @ ''://'' @ h @ uri_port_text n @ path, uri_proto = p @ '':'', uri_host = h,
                uri_path = path, uri_port = (case n of None \<Rightarrow> 0 | Some k \<Rightarrow> of_nat k), uri_valid = True\<rparr>"
proof -
  have m: "uri_match (p @ ''://'' @ h @ uri_port_text n @ path) = Some [p @ '':'', h, uri_port_text n, path]"
    using match_proto(1) [OF assms(1,2)] match_tail_port [OF assms(3-5)] by simp
  show ?thesis
  proof (cases n)
    case None
    then show ?thesis
      using path_not_colon [OF assms(5)] unfolding uri_parse_def Let_def m
      by (auto simp: uri_port_text_def uri_part_def uri_part_host_def uri_part_port_def uri_part_path_def)
  next
    case (Some k)
    then show ?thesis
      using stoi_nat_str [of k] assms(6) unfolding uri_parse_def Let_def m
      by (simp add: uri_port_text_def uri_part_def uri_part_host_def uri_part_port_def uri_part_path_def)
  qed
qed

lemma uri_parse_full_example:
  "uri_parse ''tcp://127.0.0.1:10000/x'' =
     Inr \<lparr>uri_s = ''tcp://127.0.0.1:10000/x'', uri_proto = ''tcp:'', uri_host = ''127.0.0.1'',
          uri_path = ''/x'', uri_port = 10000, uri_valid = True\<rparr>"
proof -
  have "nat_str 10000 = ''10000''" by (simp add: nat_str.simps digit_char_simps)
  then show ?thesis
    using uri_parse_full [of "''tcp''" "''127.0.0.1''" "''/x''" "Some 10000"]
    by (simp add: uri_port_text_def uri_char_def is_digit_def uri_path_ok_def line_end_def)
qed

text \<open>
  Addresses without a protocol lose their host: the regular expression accepts them and they are
  called valid, but the empty first group falls through to the host, so the host is empty; port and path
  are as written.
\<close>

lemma uri_without_proto_loses_host:
  assumes "h \<noteq> []" "\<forall>c \<in> set h. uri_char c" "uri_path_ok path" "\<forall>k. n = Some k \<longrightarrow> k < 2 ^ 31"
  shows "uri_parse (''//'' @ h @ uri_port_text n @ path) =
           Inr \<lparr>uri_s = ''//'' @ h @ uri_port_text n @ path, uri_proto = [], uri_host = [],
                uri_path = path, uri_port = (case n of None \<Rightarrow> 0 | Some k \<Rightarrow> of_nat k), uri_valid = True\<rparr>"
proof -
  have m: "uri_match (''//'' @ h @ uri_port_text n @ path) = Some [[], h, uri_port_text n, path]"
    using match_proto(2) [of "''a''"] match_tail_port [OF assms(1-3)] by (simp add: uri_char_def)
  have hc: "hd h \<noteq> CHR '':''"
    using assms(1,2) uri_char_not by (cases h) auto
  show ?thesis
  proof (cases n)
    case None
    then show ?thesis
      using path_not_colon [OF assms(3)] hc unfolding uri_parse_def Let_def m
      by (auto simp: uri_port_text_def uri_part_def uri_part_host_def uri_part_port_def uri_part_path_def)
  next
    case (Some k)
    then show ?thesis
      using stoi_nat_str [of k] assms(4) hc unfolding uri_parse_def Let_def m
      by (simp add: uri_port_text_def uri_part_def uri_part_host_def uri_part_port_def uri_part_path_def)
  qed
qed

lemma uri_without_proto_loses_host_example:
  "uri_parse ''//search/q'' =
     Inr \<lparr>uri_s = ''//search/q'', uri_proto = [], uri_host = [], uri_path = ''/q'', uri_port = 0, uri_valid = True\<rparr>"
  using uri_without_proto_loses_host [of "''search''" "''/q''" None]
  by (simp add: uri_port_text_def uri_char_def is_digit_def uri_path_ok_def line_end_def)

subsection \<open>Agent addresses: printing and parsing\<close>

definition slashed :: "string list \<Rightarrow> string" where
  "slashed ps = concat (map (\<lambda>p. p @ ''/'') ps)"

definition no_slash :: "string \<Rightarrow> bool" where
  "no_slash s \<longleftrightarrow> CHR ''/'' \<notin> set s"

lemma split_slashed:
  assumes "\<forall>p \<in> set ps. no_slash p" "no_slash q"
  shows "getline_split (CHR ''/'') (slashed ps @ q) = ps @ (if q = [] then [] else [q])"
  using assms(1)
proof (induction ps)
  case Nil
  then show ?case using assms(2) by (simp add: slashed_def no_slash_def getline_split_last)
next
  case (Cons p ps)
  then have "getline_split (CHR ''/'') (p @ CHR ''/'' # (slashed ps @ q)) = p # getline_split (CHR ''/'') (slashed ps @ q)"
    by (intro getline_split_piece) (simp add: no_slash_def)
  with Cons show ?case by (simp add: slashed_def)
qed

lemma oef_split_slashed:
  assumes "\<forall>p \<in> set ps. no_slash p" "no_slash q" "ps \<noteq> []"
  shows "oef_split (slashed ps @ q) (CHR ''/'') = Inr (ps @ [q])"
proof -
  have ne: "slashed ps @ q \<noteq> []" using assms(3) by (cases ps) (auto simp: slashed_def)
  have "q = [] \<Longrightarrow> last (slashed ps @ q) = CHR ''/''"
    using assms(3) by (induction ps rule: rev_induct) (simp_all add: slashed_def)
  moreover have "q \<noteq> [] \<Longrightarrow> last (slashed ps @ q) \<noteq> CHR ''/''"
    using assms(2) by (metis last_appendR last_in_set no_slash_def)
  ultimately show ?thesis
    using ne split_slashed [OF assms(1,2)] by (auto simp: oef_split_def)
qed

text \<open>The namespaces as they come back: an empty list prints, and parses, as one empty namespace.\<close>

definition printed_namespaces :: "string list \<Rightarrow> string list" where
  "printed_namespaces ns = (if ns = [] then [[]] else ns)"

lemma oef_toString_slashed:
  "oef_toString u = slashed ([ou_protocol u @ '':'', [], ou_coreURI u, ou_coreKey u] @
      printed_namespaces (ou_namespaces u) @ [ou_agentKey u]) @ ou_agentAlias u"
proof -
  have "butlast (concat (map (\<lambda>n. n @ ''/'') ns)) @ ''/'' = slashed ns" if "ns \<noteq> []" for ns
    using that by (induction ns rule: rev_induct) (simp_all add: slashed_def butlast_append)
  then have "(if ou_namespaces u \<noteq> [] then butlast (concat (map (\<lambda>n. n @ ''/'') (ou_namespaces u))) else []) @ ''/'' =
      slashed (printed_namespaces (ou_namespaces u))"
    by (auto simp: printed_namespaces_def slashed_def)
  then show ?thesis
    by (simp add: oef_toString_def Let_def slashed_def)
qed

lemma map_nth_middle:
  "map ((!) (xs @ ys @ zs)) [length xs..<length xs + length ys] = ys"
  by (rule nth_equalityI) (simp_all add: nth_append)

text \<open>
  Agent addresses survive printing and parsing: for fields without slashes, parsing the printed form
  into a fresh \<^verbatim>\<open>URI\<close> gives every field back, with the address marked non-empty; only an empty list of
  namespaces comes back as one empty namespace.
\<close>

lemma oef_uri_roundtrip:
  assumes "\<forall>x \<in> set ([ou_protocol u, ou_coreURI u, ou_coreKey u, ou_agentKey u, ou_agentAlias u] @ ou_namespaces u). no_slash x"
  shows "oef_parse (oef_toString u) oef_uri_new =
           Inr (u\<lparr>ou_namespaces := printed_namespaces (ou_namespaces u), ou_empty := False\<rparr>)"
proof -
  let ?ns = "printed_namespaces (ou_namespaces u)"
  let ?vec = "[ou_protocol u @ '':'', [], ou_coreURI u, ou_coreKey u] @ ?ns @ [ou_agentKey u, ou_agentAlias u]"
  have "\<forall>x \<in> set ?ns. no_slash x"
    using assms by (auto simp: printed_namespaces_def no_slash_def)
  then have "oef_split (oef_toString u) (CHR ''/'') =
      Inr (([ou_protocol u @ '':'', [], ou_coreURI u, ou_coreKey u] @ ?ns @ [ou_agentKey u]) @ [ou_agentAlias u])"
    unfolding oef_toString_slashed using assms
    by (intro oef_split_slashed) (auto simp: no_slash_def)
  then have vec: "oef_split (oef_toString u) (CHR ''/'') = Inr ?vec" by simp
  define v where "v = ?vec"
  have "0 < length ?ns" by (simp add: printed_namespaces_def)
  then have len: "length v = 6 + length ?ns" "\<not> length v < 7" by (simp_all add: v_def)
  have "length v - 2 = length [ou_protocol u @ '':'', [], ou_coreURI u, ou_coreKey u] + length ?ns"
    "(4::nat) = length [ou_protocol u @ '':'', [], ou_coreURI u, ou_coreKey u]"
    by (simp_all add: len)
  then have ns: "map ((!) v) [4..<length v - 2] = ?ns"
    by (simp only: v_def map_nth_middle)
  have parts: "v ! 0 = ou_protocol u @ '':''" "v ! 2 = ou_coreURI u" "v ! 3 = ou_coreKey u"
    "v ! (length v - 1) = ou_agentAlias u" "v ! (length v - 2) = ou_agentKey u"
    unfolding len by (simp_all add: v_def nth_append numeral_eq_Suc)
  show ?thesis
    using len(2) vec [folded v_def] unfolding oef_parse_def
    by (simp add: ns parts parts [unfolded One_nat_def] oef_uri_new_def)
qed

lemma oef_uri_roundtrip_example:
  "oef_parse (oef_toString (ob_agentAlias ''bob'' (ob_addNamespace ''ns'' (ob_agentKey ''key'' oef_uri_new)))) oef_uri_new =
     Inr \<lparr>ou_protocol = ''tcp'', ou_coreURI = [], ou_coreKey = [], ou_namespaces = [''ns''],
          ou_agentKey = ''key'', ou_agentAlias = ''bob'', ou_empty = False\<rparr>"
  using oef_uri_roundtrip [of "ob_agentAlias ''bob'' (ob_addNamespace ''ns'' (ob_agentKey ''key'' oef_uri_new))"]
  by (simp add: ob_agentAlias_def ob_addNamespace_def ob_agentKey_def oef_uri_new_def no_slash_def printed_namespaces_def)

end
