(* ===== verification/PathFraming.thy ===== *)
theory PathFraming
  imports Framing Uris
begin

text \<open>
  \<^verbatim>\<open>mt-core/conversations/src/cpp/ProtoPathMessageReader.cpp\<close> and \<^verbatim>\<open>ProtoPathMessageSender.cpp\<close>: the wire
  format of the connection to the search service, two 32-bit lengths in network order followed by a
  serialised \<^verbatim>\<open>TransportHeader\<close> (the leader) and a payload. The protobuf parser and serialiser of the
  leader, and the serialiser of the payload, are parameters.
\<close>

subsection \<open>State\<close>

record leader =
  ld_uri :: string
  ld_id :: u64
  ld_success :: bool
  ld_error_code :: int
  ld_narrative :: "string list"

text \<open>A call of \<^verbatim>\<open>onComplete\<close> or \<^verbatim>\<open>onError\<close>.\<close>

datatype path_event = PathComplete bool u64 char_buf | PathError u64 int string

record path_state =
  pp_events :: "path_event list"
  pp_read_consumed :: u64
  pp_read_requested :: u64
  pp_read_handled :: u64
  pp_read_errors :: u64

type_synonym path_handlers = "(path_event \<Rightarrow> exn + unit) option \<times> (path_event \<Rightarrow> exn + unit) option"

definition pp_new :: path_state where
  "pp_new = \<lparr>pp_events = [], pp_read_consumed = 0, pp_read_requested = 0, pp_read_handled = 0, pp_read_errors = 0\<rparr>"

subsection \<open>The reader\<close>

text \<open>
  What happens to a complete message: an error status goes to \<^verbatim>\<open>onError\<close>, with the pieces of the
  narrative joined and a missing error code replaced by 132; anything else goes to \<^verbatim>\<open>onComplete\<close>.
\<close>

definition ppr_dispatch :: "path_handlers \<Rightarrow> leader \<Rightarrow> char_buf \<Rightarrow> (path_state, unit) prog" where
  "ppr_dispatch hs ld payload s =
     (if \<not> ld_success ld then
        let msg = concat (ld_narrative ld);
            code = (if ld_error_code ld = 0 then 132 else ld_error_code ld);
            s = s\<lparr>pp_read_errors := pp_read_errors s + 1\<rparr>
        in (case snd hs of
              None \<Rightarrow> (Inr (), s)
            | Some onError \<Rightarrow> (let ev = PathError (ld_id ld) code msg in (onError ev, s\<lparr>pp_events := pp_events s @ [ev]\<rparr>)))
      else
        (case fst hs of
           None \<Rightarrow> (Inr (), s)
         | Some onComplete \<Rightarrow>
             (let s = s\<lparr>pp_read_handled := pp_read_handled s + 1\<rparr>; ev = PathComplete (ld_success ld) (ld_id ld) payload
              in (onComplete ev, s\<lparr>pp_events := pp_events s @ [ev]\<rparr>))))"

definition ppr_read_sizes :: "char_buf \<Rightarrow> nat \<times> nat \<times> char_buf" where
  "ppr_read_sizes chars =
     (case ccb_read_u32 chars of (l, chars1) \<Rightarrow> case ccb_read_u32 chars1 of (p, chars2) \<Rightarrow> (unat l, unat p, chars2))"

lemma read_sizes_moves:
  assumes "ppr_read_sizes chars = (l, p, chars')" "cb_current chars < cb_size chars"
  shows "cb_current chars < cb_current chars' \<and> cb_size chars' = cb_size chars"
  using assms read_frame(1,3) [of chars] read_frame(1,2) [of "snd (ccb_read_u32 chars)"]
  by (auto simp: ppr_read_sizes_def split_beta)

definition ppr_count :: "nat \<Rightarrow> path_state \<Rightarrow> path_state" where
  "ppr_count n s = s\<lparr>pp_read_consumed := pp_read_consumed s + of_nat n\<rparr>"

definition ppr_request :: "nat \<Rightarrow> nat \<Rightarrow> path_state \<Rightarrow> (exn + nat \<times> nat) \<times> path_state" where
  "ppr_request consumed needed s =
     (Inr (consumed, needed), s\<lparr>pp_read_requested := pp_read_requested s + of_nat needed\<rparr>)"

function ppr_loop :: "(byte list \<Rightarrow> leader option) \<Rightarrow> path_handlers \<Rightarrow> char_buf \<Rightarrow> nat \<Rightarrow> path_state \<Rightarrow>
    (exn + nat \<times> nat) \<times> path_state" where
  "ppr_loop parse hs chars consumed s =
     (if ccb_remainingData chars < 8 then ppr_request consumed (nat (8 - ccb_remainingData chars)) s
      else
        (case ppr_read_sizes chars of (leader_size, payload_size, chars1) \<Rightarrow>
           if 10000 < leader_size + payload_size then
             (Inl (InvalidArgument (''Proto deserialisation refuses incoming '' @
                nat_str (leader_size + payload_size) @ '' bytes message header.'')), s)
           else if ccb_remainingData chars1 < int (leader_size + payload_size) then
             ppr_request consumed (nat (int (leader_size + payload_size) - ccb_remainingData chars1)) s
           else
             (case parse (fst (ccb_copyOut (ccb_limit chars1 (cb_current chars1 + int leader_size)))) of
                None \<Rightarrow> (Inl (InvalidArgument ''Proto deserialization refuses incoming invalid leader message!''), s)
              | Some ld \<Rightarrow>
                  let chars2 = ccb_advance (int leader_size) chars1;
                      s1 = ppr_count (leader_size + payload_size) (ppr_count 8 s)
                  in (case ppr_dispatch hs ld (ccb_limit chars2 (cb_current chars2 + int payload_size)) s1 of
                        (Inl e, s2) \<Rightarrow> (Inl e, s2)
                      | (Inr _, s2) \<Rightarrow>
                          ppr_loop parse hs (ccb_advance (int payload_size) chars2)
                            (consumed + 8 + (leader_size + payload_size)) s2))))"
  by pat_completeness auto

termination ppr_loop
proof (relation "measure (\<lambda>(_, _, chars, _, _). nat (cb_size chars - cb_current chars))", goal_cases)
  case 1
  then show ?case by simp
next
  case (2 parse hs chars consumed s l rest p chars1 ld chars2 s1 r s2 u)
  then have "cb_current chars < cb_current chars1 \<and> cb_size chars1 = cb_size chars"
    by (intro read_sizes_moves [of chars l p chars1]) (auto simp: ccb_remainingData_def)
  with 2 show ?case
    by (auto simp: ccb_advance_def ccb_remainingData_def)
qed

declare ppr_loop.simps [simp del]

definition ppr_initial :: "nat \<times> nat" where
  "ppr_initial = (0, 1)"

definition ppr_checkForMessage :: "(byte list \<Rightarrow> leader option) \<Rightarrow> path_handlers \<Rightarrow> byte list list \<Rightarrow>
    (path_state, nat \<times> nat) prog" where
  "ppr_checkForMessage parse hs data s = ppr_loop parse hs (ccb_new data) 0 s"

subsection \<open>The sender\<close>

record path_send_state =
  ppw_endpoint :: bool
  ppw_wakes :: nat
  ppw_produced :: u64
  ppw_requested :: u64
  ppw_handled :: u64

text \<open>The leader of an outgoing message: the address's path without its slash, and its port as identifier.\<close>

definition ppw_leader :: "uri \<Rightarrow> exn + leader" where
  "ppw_leader u = ebind (std_substr (uri_path u) 1 (length (uri_path u))) (\<lambda>p.
     Inr \<lparr>ld_uri = p, ld_id = ucast (uri_port u), ld_success = True, ld_error_code = 0, ld_narrative = []\<rparr>)"

fun ppw_loop :: "('m \<Rightarrow> nat) \<Rightarrow> ('m \<Rightarrow> byte list) \<Rightarrow> (leader \<Rightarrow> nat) \<Rightarrow> (leader \<Rightarrow> byte list) \<Rightarrow> (nat \<Rightarrow> bool) \<Rightarrow>
    (uri \<times> 'm) list \<Rightarrow> char_buf \<Rightarrow> nat \<Rightarrow> path_send_state \<Rightarrow>
    (exn + nat \<times> nat) \<times> (uri \<times> 'm) list \<times> char_buf \<times> path_send_state" where
  "ppw_loop byteSize serialize leaderSize serLeader full txq chars consumed s =
     (let stop = (\<lambda>s. (Inr (consumed, 0), txq, chars, s\<lparr>ppw_requested := ppw_requested s + of_nat consumed\<rparr>))
      in if \<not> ppw_endpoint s then stop s
      else
        let s1 = (if full (length txq) then s else s\<lparr>ppw_wakes := ppw_wakes s + 1\<rparr>)
        in case txq of
             [] \<Rightarrow> (if full (length txq) then (Inl Undefined, txq, chars, s1) else stop s1)
           | (u, m) # rest \<Rightarrow>
               (case ppw_leader u of
                  Inl e \<Rightarrow> (Inl e, txq, chars, s1)
                | Inr ld \<Rightarrow>
                    let payload_size = (of_nat (byteSize m) :: u32);
                        leader_size = (of_nat (leaderSize ld) :: u32);
                        mesg_size = 4 + leader_size + 4 + payload_size
                    in if cb_remainingSpace chars < int (unat mesg_size) then stop s1
                       else
                         let chars1 = cb_write_u32 payload_size (cb_write_u32 leader_size chars);
                             chars2 = snd (cb_xsputn (serialize m) (snd (cb_xsputn (serLeader ld) chars1)));
                             s2 = s1\<lparr>ppw_produced := ppw_produced s1 + 8 + ucast leader_size + ucast payload_size,
                                     ppw_handled := ppw_handled s1 + 1\<rparr>
                         in ppw_loop byteSize serialize leaderSize serLeader full rest chars2
                              (consumed + unat mesg_size) s2))"

declare ppw_loop.simps [simp del]

definition ppw_checkForSpace :: "('m \<Rightarrow> nat) \<Rightarrow> ('m \<Rightarrow> byte list) \<Rightarrow> (leader \<Rightarrow> nat) \<Rightarrow> (leader \<Rightarrow> byte list) \<Rightarrow> (nat \<Rightarrow> bool) \<Rightarrow>
    byte list list \<Rightarrow> (uri \<times> 'm) list \<Rightarrow> path_send_state \<Rightarrow>
    (exn + nat \<times> nat) \<times> (uri \<times> 'm) list \<times> byte list list \<times> path_send_state" where
  "ppw_checkForSpace byteSize serialize leaderSize serLeader full data txq s =
     (case ppw_loop byteSize serialize leaderSize serLeader full txq (cb_new data) 0 s of
        (r, txq', chars, s') \<Rightarrow> (r, txq', cb_buffers chars, s'))"

subsection \<open>The stream of path frames\<close>

definition pframe :: "byte list \<Rightarrow> byte list \<Rightarrow> byte list" where
  "pframe lb m = be_bytes (of_nat (length lb)) @ be_bytes (of_nat (length m)) @ lb @ m"

lemma length_pframe [simp]: "length (pframe lb m) = 8 + (length lb + length m)"
  by (simp add: pframe_def)

text \<open>What a frame means to the client of the reader, payloads as bytes.\<close>

datatype path_msg = Reply u64 "byte list" | Failure u64 int string

definition path_meaning :: "leader \<Rightarrow> byte list \<Rightarrow> path_msg" where
  "path_meaning ld m =
     (if ld_success ld then Reply (ld_id ld) m
      else Failure (ld_id ld) (if ld_error_code ld = 0 then 132 else ld_error_code ld) (concat (ld_narrative ld)))"

fun path_view :: "path_event \<Rightarrow> path_msg" where
  "path_view (PathComplete b i c) = Reply i (fst (ccb_copyOut c))"
| "path_view (PathError i code msg) = Failure i code msg"

definition pp_messages :: "path_state \<Rightarrow> path_msg list" where
  "pp_messages s = map path_view (pp_events s)"

definition accepting :: path_handlers where
  "accepting = (Some (\<lambda>_. Inr ()), Some (\<lambda>_. Inr ()))"

lemma dispatch_meaning:
  "cb_readable payload \<Longrightarrow> \<exists>s'. ppr_dispatch accepting ld payload s = (Inr (), s') \<and>
     pp_messages s' = pp_messages s @ [path_meaning ld (cb_rest payload)] \<and>
     pp_read_consumed s' = pp_read_consumed s"
  by (auto simp: ppr_dispatch_def accepting_def pp_messages_def path_meaning_def Let_def copyOut_rest)

lemma path_step:
  assumes "cb_readable chars" "cb_rest chars = pframe lb m @ d" "length lb + length m \<le> 10000" "parse lb = Some ld"
  shows "\<exists>chars' s'. ppr_loop parse accepting chars c s = ppr_loop parse accepting chars' (c + length (pframe lb m)) s' \<and>
     cb_readable chars' \<and> cb_rest chars' = d \<and> pp_messages s' = pp_messages s @ [path_meaning ld m] \<and>
     pp_read_consumed s' = pp_read_consumed s + of_nat (length (pframe lb m))"
proof -
  let ?c1 = "chars\<lparr>cb_current := cb_current chars + 4\<rparr>"
  have len: "4 \<le> length (cb_rest chars)" by (simp add: assms(2))
  have c1: "cb_readable ?c1" "cb_rest ?c1 = be_bytes (of_nat (length m)) @ lb @ m @ d"
    using cb_rest_skip [OF assms(1) len] by (simp_all add: assms(2) pframe_def)
  have len1: "4 \<le> length (cb_rest ?c1)" by (simp add: c1(2))
  let ?c2 = "?c1\<lparr>cb_current := cb_current ?c1 + 4\<rparr>"
  have c2: "cb_readable ?c2" "cb_rest ?c2 = lb @ m @ d"
    using cb_rest_skip [OF c1(1) len1] by (simp_all add: c1(2))
  have small: "length lb \<le> 10000" "length m \<le> 10000" using assms(3) by simp_all
  have sizes: "ppr_read_sizes chars = (length lb, length m, ?c2)"
    using read_u32_rest(1) [OF assms(1) len] read_u32_rest(1) [OF c1(1) len1]
    by (simp add: ppr_read_sizes_def assms(2) pframe_def c1(2) unat_small small)
  obtain k2 where k2: "ppr_read_sizes chars = (length lb, length m, k2)" "cb_readable k2" "cb_rest k2 = lb @ m @ d"
    using sizes c2 by blast
  have rem: "\<not> ccb_remainingData chars < 8"
    using length_cb_rest [OF assms(1)] by (simp add: assms(2))
  have rem2: "\<not> ccb_remainingData k2 < int (length lb + length m)"
    using length_cb_rest [OF k2(2)] unfolding k2(3) by simp
  have lim: "fst (ccb_copyOut (ccb_limit k2 (cb_current k2 + int (length lb)))) = lb"
    using cb_rest_limit [OF k2(2), of "length lb"] by (simp add: copyOut_rest k2(3))
  define k3 where "k3 = ccb_advance (int (length lb)) k2"
  have c3: "cb_readable k3" "cb_rest k3 = m @ d"
    using cb_rest_skip [OF k2(2), of "length lb"] by (simp_all add: k3_def ccb_advance_def k2(3))
  let ?pay = "ccb_limit k3 (cb_current k3 + int (length m))" and ?s1 = "ppr_count (length lb + length m) (ppr_count 8 s)"
  have pay: "cb_readable ?pay" "cb_rest ?pay = m"
    using cb_rest_limit [OF c3(1), of "length m"] by (simp_all add: c3(2))
  obtain s2 where s2: "ppr_dispatch accepting ld ?pay ?s1 = (Inr (), s2)"
    "pp_messages s2 = pp_messages ?s1 @ [path_meaning ld m]" "pp_read_consumed s2 = pp_read_consumed ?s1"
    using dispatch_meaning [OF pay(1), of ld ?s1] pay(2) by auto
  have "ppr_loop parse accepting chars c s =
      ppr_loop parse accepting (ccb_advance (int (length m)) k3) (c + 8 + (length lb + length m)) s2"
    using rem rem2 assms(3)
    by (subst ppr_loop.simps) (simp add: k2(1) lim assms(4) Let_def k3_def [symmetric] s2(1))
  moreover have "cb_readable (ccb_advance (int (length m)) k3)" "cb_rest (ccb_advance (int (length m)) k3) = d"
    using cb_rest_skip [OF c3(1), of "length m"] by (simp_all add: ccb_advance_def c3(2))
  moreover have "pp_messages ?s1 = pp_messages s" "pp_read_consumed ?s1 = pp_read_consumed s + of_nat (length (pframe lb m))"
    by (simp_all add: pp_messages_def ppr_count_def)
  ultimately show ?thesis
    using s2(2,3) by (auto simp: add.assoc)
qed

lemma path_reader:
  assumes "\<forall>(lb, m, ld) \<in> set fs. length lb + length m \<le> 10000 \<and> parse lb = Some ld"
    and "cb_readable chars" "cb_rest chars = concat (map (\<lambda>(lb, m, ld). pframe lb m) fs)"
  shows "\<exists>s'. ppr_loop parse accepting chars c s = (Inr (c + length (cb_rest chars), 8), s') \<and>
           pp_messages s' = pp_messages s @ map (\<lambda>(lb, m, ld). path_meaning ld m) fs \<and>
           pp_read_consumed s' = pp_read_consumed s + of_nat (length (cb_rest chars))"
  using assms
proof (induction fs arbitrary: chars c s)
  case Nil
  then have "ccb_remainingData chars = 0"
    using length_cb_rest [OF Nil.prems(2)] by simp
  with Nil.prems(3) show ?case
    by (subst ppr_loop.simps) (simp add: ppr_request_def pp_messages_def)
next
  case (Cons f fs)
  obtain lb m ld where f: "f = (lb, m, ld)" by (cases f)
  let ?d = "concat (map (\<lambda>(lb, m, ld). pframe lb m) fs)"
  have r: "cb_rest chars = pframe lb m @ ?d" using Cons.prems(3) by (simp add: f)
  obtain chars' s1 where 1: "ppr_loop parse accepting chars c s = ppr_loop parse accepting chars' (c + length (pframe lb m)) s1"
    "cb_readable chars'" "cb_rest chars' = ?d" "pp_messages s1 = pp_messages s @ [path_meaning ld m]"
    "pp_read_consumed s1 = pp_read_consumed s + of_nat (length (pframe lb m))"
    using path_step [OF Cons.prems(2) r, of parse ld c s] Cons.prems(1) by (auto simp: f)
  obtain s2 where 2: "ppr_loop parse accepting chars' (c + length (pframe lb m)) s1 =
      (Inr (c + length (pframe lb m) + length (cb_rest chars'), 8), s2)"
    "pp_messages s2 = pp_messages s1 @ map (\<lambda>(lb, m, ld). path_meaning ld m) fs"
    "pp_read_consumed s2 = pp_read_consumed s1 + of_nat (length (cb_rest chars'))"
    using Cons.IH [OF _ 1(2,3), of "c + length (pframe lb m)" s1] Cons.prems(1) by auto
  show ?case
    using 1 2 by (auto simp: r f)
qed

subsection \<open>Sender and reader together\<close>

definition uri_leader :: "uri \<Rightarrow> leader" where
  "uri_leader u = \<lparr>ld_uri = tl (uri_path u), ld_id = ucast (uri_port u), ld_success = True,
                   ld_error_code = 0, ld_narrative = []\<rparr>"

lemma ppw_leader_eq: "uri_path u \<noteq> [] \<Longrightarrow> ppw_leader u = Inr (uri_leader u)"
  by (cases "uri_path u") (simp_all add: ppw_leader_def std_substr_def uri_leader_def)

text \<open>What protobuf documents of the parser and the serialisers.\<close>

definition path_params_ok :: "('m \<Rightarrow> nat) \<Rightarrow> ('m \<Rightarrow> byte list) \<Rightarrow> (leader \<Rightarrow> nat) \<Rightarrow> (leader \<Rightarrow> byte list) \<Rightarrow>
    (byte list \<Rightarrow> leader option) \<Rightarrow> (nat \<Rightarrow> bool) \<Rightarrow> leader set \<Rightarrow> bool" where
  "path_params_ok byteSize serialize leaderSize serLeader parse full lds \<longleftrightarrow>
     (\<forall>m. byteSize m = length (serialize m) \<and> length (serialize m) < 2 ^ 30) \<and>
     (\<forall>l \<in> lds. leaderSize l = length (serLeader l) \<and> length (serLeader l) < 2 ^ 30 \<and> parse (serLeader l) = Some l) \<and>
     \<not> full 0"

definition path_item :: "(leader \<Rightarrow> byte list) \<Rightarrow> ('m \<Rightarrow> byte list) \<Rightarrow> uri \<times> 'm \<Rightarrow> byte list" where
  "path_item serLeader serialize x = pframe (serLeader (uri_leader (fst x))) (serialize (snd x))"

lemma write_pframe:
  assumes "cb_ok b" "cb_current b + int (length (pframe lb m)) \<le> cb_size b"
  shows "snd (cb_xsputn m (snd (cb_xsputn lb (cb_write_u32 (of_nat (length m)) (cb_write_u32 (of_nat (length lb)) b))))) =
         cb_oflow_all (pframe lb m) b"
proof -
  let ?h = "be_bytes (of_nat (length lb)) @ be_bytes (of_nat (length m))"
  have h: "cb_write_u32 (of_nat (length m)) (cb_write_u32 (of_nat (length lb)) b) = cb_oflow_all ?h b"
    by (simp add: cb_write_u32_def oflow_all_append)
  have "cb_current b + int (length ?h) \<le> cb_size b" using assms(2) by simp
  note O = oflow_all_flat [OF assms(1) this]
  have l: "snd (cb_xsputn lb (cb_oflow_all ?h b)) = cb_oflow_all lb (cb_oflow_all ?h b)"
    using O(2,3) assms(2) by (simp add: cb_xsputn_def xsputn_oflow)
  have "cb_current (cb_oflow_all ?h b) + int (length lb) \<le> cb_size (cb_oflow_all ?h b)"
    using O(2,3) assms(2) by simp
  note O2 = oflow_all_flat [OF O(4) this]
  have "snd (cb_xsputn m (cb_oflow_all lb (cb_oflow_all ?h b))) = cb_oflow_all m (cb_oflow_all lb (cb_oflow_all ?h b))"
    using O(2,3) O2(2,3) assms(2) by (simp add: cb_xsputn_def xsputn_oflow)
  then show ?thesis
    unfolding h l by (simp add: pframe_def oflow_all_append)
qed

lemma path_sender_frames:
  assumes "path_params_ok byteSize serialize leaderSize serLeader parse full lds"
    and "ppw_endpoint s" "\<forall>x \<in> set txq. uri_path (fst x) \<noteq> [] \<and> uri_leader (fst x) \<in> lds" "cb_ok chars"
  shows "\<exists>k s'. ppw_loop byteSize serialize leaderSize serLeader full txq chars c s =
           (Inr (c + length (concat (map (path_item serLeader serialize) (take k txq))), 0), drop k txq,
            cb_oflow_all (concat (map (path_item serLeader serialize) (take k txq))) chars, s') \<and> k \<le> length txq \<and>
         cb_current chars + int (length (concat (map (path_item serLeader serialize) (take k txq)))) \<le> max (cb_current chars) (cb_size chars) \<and>
         (k < length txq \<longrightarrow> cb_remainingSpace chars <
            int (length (concat (map (path_item serLeader serialize) (take (Suc k) txq)))))"
  using assms(2-4)
proof (induction txq arbitrary: chars c s)
  case Nil
  then have "\<exists>s'. ppw_loop byteSize serialize leaderSize serLeader full [] chars c s = (Inr (c, 0), [], chars, s')"
    using assms(1) by (subst ppw_loop.simps) (simp add: path_params_ok_def Let_def)
  then show ?case by auto
next
  case (Cons x txq)
  obtain u m where x: "x = (u, m)" by (cases x)
  let ?b = "serialize m" and ?l = "serLeader (uri_leader u)"
  let ?s1 = "if full (length (x # txq)) then s else s\<lparr>ppw_wakes := ppw_wakes s + 1\<rparr>"
  have ld: "ppw_leader u = Inr (uri_leader u)"
    using Cons.prems(2) by (intro ppw_leader_eq) (simp add: x)
  have bs: "byteSize m = length ?b" "leaderSize (uri_leader u) = length ?l" "length ?b < 2 ^ 30" "length ?l < 2 ^ 30"
    using assms(1) Cons.prems(2) by (auto simp: path_params_ok_def x)
  have w1: "unat (4 + of_nat (length ?l) :: u32) = 4 + length ?l"
    using bs(4) by (subst unat_plus_small) (simp_all add: unsigned_of_nat take_bit_nat_eq_self)
  have w2: "unat (4 + of_nat (length ?l) + 4 :: u32) = 8 + length ?l"
    using bs(4) w1 by (subst unat_plus_small) simp_all
  have w: "unat (4 + of_nat (length ?l) + 4 + of_nat (length ?b) :: u32) = length (pframe ?l ?b)"
    using bs(3,4) w2 by (subst unat_plus_small) (simp_all add: unsigned_of_nat take_bit_nat_eq_self)
  show ?case
  proof (cases "cb_remainingSpace chars < int (length (pframe ?l ?b))")
    case True
    then have "\<exists>s'. ppw_loop byteSize serialize leaderSize serLeader full (x # txq) chars c s = (Inr (c, 0), x # txq, chars, s')"
      using Cons.prems(1)
      by (subst ppw_loop.simps) (simp only: x Let_def list.case prod.case ld sum.case bs w if_True simp_thms if_False, blast)
    with True show ?thesis by (intro exI [of _ 0]) (auto simp: path_item_def x)
  next
    case False
    then have fit: "cb_current chars + int (length (pframe ?l ?b)) \<le> cb_size chars"
      by (simp add: cb_remainingSpace_def)
    obtain s2 where step: "ppw_loop byteSize serialize leaderSize serLeader full (x # txq) chars c s =
        ppw_loop byteSize serialize leaderSize serLeader full txq (cb_oflow_all (pframe ?l ?b) chars) (c + length (pframe ?l ?b)) s2"
      "ppw_endpoint s2"
    proof -
      let ?s2 = "?s1\<lparr>ppw_produced := ppw_produced ?s1 + 8 + ucast (of_nat (length ?l) :: u32) + ucast (of_nat (length ?b) :: u32),
          ppw_handled := ppw_handled ?s1 + 1\<rparr>"
      have "ppw_loop byteSize serialize leaderSize serLeader full (x # txq) chars c s =
        ppw_loop byteSize serialize leaderSize serLeader full txq (cb_oflow_all (pframe ?l ?b) chars) (c + length (pframe ?l ?b)) ?s2"
        using Cons.prems(1) False
        by (subst ppw_loop.simps) (simp only: x Let_def list.case prod.case ld sum.case bs w if_True simp_thms if_False
            write_pframe [OF Cons.prems(3) fit])
      moreover have "ppw_endpoint ?s2" using Cons.prems(1) by simp
      ultimately show thesis by (rule that)
    qed
    note O = oflow_all_flat [OF Cons.prems(3) fit]
    let ?ch = "cb_oflow_all (pframe ?l ?b) chars" and ?fr = "\<lambda>k. concat (map (path_item serLeader serialize) (take k txq))"
    obtain k s' where IH: "ppw_loop byteSize serialize leaderSize serLeader full txq ?ch (c + length (pframe ?l ?b)) s2 =
           (Inr (c + length (pframe ?l ?b) + length (?fr k), 0), drop k txq, cb_oflow_all (?fr k) ?ch, s')"
         "k \<le> length txq"
         "cb_current ?ch + int (length (?fr k)) \<le> max (cb_current ?ch) (cb_size ?ch)"
         "k < length txq \<longrightarrow> cb_remainingSpace ?ch < int (length (?fr (Suc k)))"
      using Cons.IH [OF step(2) _ O(4), of "c + length (pframe ?l ?b)"] Cons.prems(2) by auto
    have item: "path_item serLeader serialize x = pframe ?l ?b" by (simp add: path_item_def x)
    show ?thesis
    proof (intro exI [of _ "Suc k"] exI [of _ s'] conjI)
      show "ppw_loop byteSize serialize leaderSize serLeader full (x # txq) chars c s =
           (Inr (c + length (concat (map (path_item serLeader serialize) (take (Suc k) (x # txq)))), 0), drop (Suc k) (x # txq),
            cb_oflow_all (concat (map (path_item serLeader serialize) (take (Suc k) (x # txq)))) chars, s')"
        using IH(1) by (simp add: step(1) item oflow_all_append)
      show "Suc k \<le> length (x # txq)" using IH(2) by simp
      show "cb_current chars + int (length (concat (map (path_item serLeader serialize) (take (Suc k) (x # txq)))))
          \<le> max (cb_current chars) (cb_size chars)"
        using IH(3) O(2,3) fit by (simp add: item)
      show "Suc k < length (x # txq) \<longrightarrow> cb_remainingSpace chars <
            int (length (concat (map (path_item serLeader serialize) (take (Suc (Suc k)) (x # txq)))))"
        using IH(4) O(2,3) by (auto simp: cb_remainingSpace_def item)
    qed
  qed
qed

text \<open>
  C4. Requests to the search service survive the wire: the sender writes whole frames, in queue order,
  until the queue is empty or the next one does not fit, and reports exactly the bytes it wrote; the
  reader, given these bytes, delivers for each message that left the queue its payload with the port of
  its address as the identifier, in order, and asks for the eight bytes of the next head.
\<close>

theorem path_sender_reader_roundtrip:
  assumes "path_params_ok byteSize serialize leaderSize serLeader parse full lds" "ppw_endpoint s"
    and "\<forall>x \<in> set txq. uri_path (fst x) \<noteq> [] \<and> uri_leader (fst x) \<in> lds \<and>
           length (serLeader (uri_leader (fst x))) + length (serialize (snd x)) \<le> 10000"
  shows "case ppw_checkForSpace byteSize serialize leaderSize serLeader full regions txq s of (res, txq', regions', s') \<Rightarrow>
           \<exists>n k t'. res = Inr (n, 0) \<and> txq' = drop k txq \<and> n \<le> length (concat regions) \<and>
             (k < length txq \<longrightarrow> length (concat regions) < n + length (path_item serLeader serialize (txq ! k))) \<and>
             ppr_checkForMessage parse accepting [take n (concat regions')] t = (Inr (n, 8), t') \<and>
             pp_messages t' = pp_messages t @ map (\<lambda>(u, m). Reply (ucast (uri_port u)) (serialize m)) (take k txq)"
proof -
  let ?b = "cb_new regions"
  have nb: "?b = ccb_new regions" by (simp add: cb_new_def ccb_new_def)
  have R: "cb_readable ?b" "cb_rest ?b = concat regions"
    using ccb_new_rest [of regions] nb by simp_all
  have ok: "cb_ok ?b" using R(1) by (simp add: cb_readable_def)
  have b0: "cb_current ?b = 0" "cb_flat ?b = concat regions" by (simp_all add: cb_new_def cb_flat_def)
  have sz: "cb_size ?b = int (length (concat regions))"
    using length_cb_rest [OF R(1)] by (simp add: R(2) ccb_remainingData_def b0)
  define fr where "fr k = concat (map (path_item serLeader serialize) (take k txq))" for k
  obtain k s' where S: "ppw_loop byteSize serialize leaderSize serLeader full txq ?b 0 s =
      (Inr (length (fr k), 0), drop k txq, cb_oflow_all (fr k) ?b, s')"
    "cb_current ?b + int (length (fr k)) \<le> max (cb_current ?b) (cb_size ?b)"
    "k < length txq \<longrightarrow> cb_remainingSpace ?b < int (length (fr (Suc k)))"
    using path_sender_frames [OF assms(1,2) _ ok, of txq 0] assms(3) by (auto simp: fr_def)
  have fit: "cb_current ?b + int (length (fr k)) \<le> cb_size ?b" using S(2) by (simp add: b0 sz)
  note O = oflow_all_flat [OF ok fit]
  let ?n = "length (fr k)" and ?regs = "cb_buffers (cb_oflow_all (fr k) ?b)"
  have le: "?n \<le> length (concat regions)" using fit by (simp add: b0 sz)
  have flat: "concat ?regs = fr k @ drop ?n (concat regions)"
    using O(1) b0 by (simp add: cb_flat_def overwrite_def)
  have next_big: "k < length txq \<longrightarrow> length (concat regions) < ?n + length (path_item serLeader serialize (txq ! k))"
    using S(3) by (auto simp: cb_remainingSpace_def b0 sz fr_def take_Suc_conv_app_nth)
  let ?fs = "map (\<lambda>x. (serLeader (uri_leader (fst x)), serialize (snd x), uri_leader (fst x))) (take k txq)"
  have fs: "\<forall>(lb, m, ld) \<in> set ?fs. length lb + length m \<le> 10000 \<and> parse lb = Some ld"
    using assms(1,3) by (auto simp: path_params_ok_def dest!: in_set_takeD)
  have "cb_rest (ccb_new [fr k]) = concat (map (\<lambda>(lb, m, ld). pframe lb m) ?fs)"
    using ccb_new_rest(1) [of "[fr k]"] by (simp add: fr_def path_item_def [abs_def] comp_def)
  from path_reader [OF fs ccb_new_rest(2) this, of 0 t] ccb_new_rest(1) [of "[fr k]"]
  obtain t' where "ppr_checkForMessage parse accepting [fr k] t = (Inr (?n, 8), t')"
    "pp_messages t' = pp_messages t @ map (\<lambda>(u, m). Reply (ucast (uri_port u)) (serialize m)) (take k txq)"
    by (auto simp: ppr_checkForMessage_def path_meaning_def uri_leader_def split_beta comp_def)
  then show ?thesis
    using S(1) flat le next_big by (auto simp: ppw_checkForSpace_def)
qed

definition search_uri :: uri where
  "search_uri = \<lparr>uri_s = ''outbound:/search'', uri_proto = [], uri_host = [], uri_path = ''/search'', uri_port = 5, uri_valid = True\<rparr>"

theorem path_sender_reader_roundtrip_witness:
  "case ppw_checkForSpace (\<lambda>m. length [m]) (\<lambda>m. [m]) (\<lambda>l. 1) (\<lambda>l. [77]) (\<lambda>n. 50 \<le> n) [replicate 9 0, replicate 3 0] [(search_uri, 42)]
     \<lparr>ppw_endpoint = True, ppw_wakes = 0, ppw_produced = 0, ppw_requested = 0, ppw_handled = 0\<rparr> of (res, txq', regions', s') \<Rightarrow>
       \<exists>n k t'. res = Inr (n, 0) \<and> txq' = drop k [(search_uri, 42)] \<and>
         ppr_checkForMessage (\<lambda>b. if b = [77] then Some (uri_leader search_uri) else None) accepting
           [take n (concat regions')] pp_new = (Inr (n, 8), t') \<and>
         pp_messages t' = map (\<lambda>(u, m). Reply (ucast (uri_port u)) [m]) (take k [(search_uri, 42)])"
proof -
  have "path_params_ok (\<lambda>m :: byte. length [m]) (\<lambda>m. [m]) (\<lambda>l. 1) (\<lambda>l. [77])
      (\<lambda>b. if b = [77] then Some (uri_leader search_uri) else None) (\<lambda>n. 50 \<le> n) {uri_leader search_uri}"
    by (simp add: path_params_ok_def)
  from path_sender_reader_roundtrip [OF this, of
      "\<lparr>ppw_endpoint = True, ppw_wakes = 0, ppw_produced = 0, ppw_requested = 0, ppw_handled = 0\<rparr>"
      "[(search_uri, 42)]" "[replicate 9 0, replicate 3 0]" pp_new]
  show ?thesis
    by (auto simp: search_uri_def pp_new_def pp_messages_def split: prod.splits)
qed

text \<open>
  C26. Responses from the search service are dispatched completely: from a stream of frames whose leaders
  parse, every response reaches exactly one handler, in order: successes reach \<^verbatim>\<open>onComplete\<close> with
  identifier and payload, failures reach \<^verbatim>\<open>onError\<close> with the identifier, the joined narrative and an
  error code that is never zero; the consumed-bytes counter grows by the length of the stream.
\<close>

theorem path_reader_dispatches:
  assumes "\<forall>(lb, m, ld) \<in> set fs. length lb + length m \<le> 10000 \<and> parse lb = Some ld"
    and "concat data = concat (map (\<lambda>(lb, m, ld). pframe lb m) fs)"
  shows "\<exists>s'. ppr_checkForMessage parse accepting data s = (Inr (length (concat data), 8), s') \<and>
           pp_messages s' = pp_messages s @ map (\<lambda>(lb, m, ld). path_meaning ld m) fs \<and>
           pp_read_consumed s' = pp_read_consumed s + of_nat (length (concat data))"
  using path_reader [OF assms(1) ccb_new_rest(2), of data 0 s] ccb_new_rest(1) [of data] assms(2)
  by (simp add: ppr_checkForMessage_def)

theorem path_reader_dispatches_witness:
  "let parse = (\<lambda>b. if b = [1] then Some \<lparr>ld_uri = [], ld_id = 9, ld_success = False, ld_error_code = 0, ld_narrative = [''no'', ''pe'']\<rparr> else None)
   in \<exists>s'. ppr_checkForMessage parse accepting [pframe [1] []] pp_new = (Inr (length (pframe [1] []), 8), s') \<and>
        pp_messages s' = [Failure 9 132 ''nope'']"
proof -
  let ?ld = "\<lparr>ld_uri = [], ld_id = 9, ld_success = False, ld_error_code = 0, ld_narrative = [''no'', ''pe'']\<rparr>"
  let ?parse = "\<lambda>b. if b = [1] then Some ?ld else None"
  have fs: "\<forall>(lb, m, ld) \<in> set [([1 :: byte], [] :: byte list, ?ld)]. length lb + length m \<le> 10000 \<and> ?parse lb = Some ld"
    and data: "concat [pframe [1] []] = concat (map (\<lambda>(lb, m, ld). pframe lb m) [([1], [], ?ld)])"
    by simp_all
  obtain s' where "ppr_checkForMessage ?parse accepting [pframe [1] []] pp_new = (Inr (length (concat [pframe [1] []]), 8), s')"
    "pp_messages s' = pp_messages pp_new @ map (\<lambda>(lb, m, ld). path_meaning ld m) [([1 :: byte], [], ?ld)]"
    using path_reader_dispatches [OF fs data, of pp_new] by (elim exE conjE)
  moreover have "path_meaning ?ld [] = Failure 9 132 ''nope''" by (simp add: path_meaning_def)
  ultimately show ?thesis
    unfolding Let_def by (intro exI [of _ s'] conjI) (simp_all only: concat.simps append_Nil2, simp add: pp_messages_def pp_new_def)
qed

end
