(* ===== verification/Notifications.thy ===== *)
theory Notifications
  imports Prelude
begin

text \<open>
  \<^verbatim>\<open>threading/src/cpp/lib/Notification.hpp\<close>, \<^verbatim>\<open>Notification.cpp\<close> and \<^verbatim>\<open>Waitable.cpp\<close>: one-shot events with
  handlers, and lists of them to wake. Notifications are shared by pointer: they live in a store and are
  named by their address. A callback is a value of type \<open>'cb\<close>, and calling it is recorded in a log, in
  order; what a callback does is its owner's business. Operations run to completion here, except in the
  last section, which interleaves a resolving thread with a builder's destructor step by step.
\<close>

subsection \<open>Notifications\<close>

datatype notif_state = NWaiting | NSuccess | NFailed | NTimedout

record 'cb notif =
  nt_state :: notif_state
  nt_success :: "'cb option"
  nt_failure :: "'cb option"
  nt_complete :: "'cb option"

record 'cb notif_store =
  ns_heap :: "'cb notif list"
  ns_log :: "'cb list"

definition n_new :: "'cb notif" where
  "n_new = \<lparr>nt_state = NWaiting, nt_success = None, nt_failure = None, nt_complete = None\<rparr>"

definition n_create :: "'cb notif_store \<Rightarrow> nat \<times> 'cb notif_store" where
  "n_create s = (length (ns_heap s), s\<lparr>ns_heap := ns_heap s @ [n_new]\<rparr>)"

definition n_isWaiting :: "nat \<Rightarrow> 'cb notif_store \<Rightarrow> bool" where
  "n_isWaiting n s \<longleftrightarrow> nt_state (ns_heap s ! n) = NWaiting"

definition n_handler :: "'cb notif \<Rightarrow> 'cb option" where
  "n_handler x = (case nt_state x of NSuccess \<Rightarrow> nt_success x | NFailed \<Rightarrow> nt_failure x | _ \<Rightarrow> None)"

definition opt_list :: "'a option \<Rightarrow> 'a list" where
  "opt_list x = (case x of None \<Rightarrow> [] | Some y \<Rightarrow> [y])"

definition n_dispatchCallbacks :: "nat \<Rightarrow> 'cb notif_store \<Rightarrow> 'cb notif_store" where
  "n_dispatchCallbacks n s =
     (let x = ns_heap s ! n
      in s\<lparr>ns_log := ns_log s @ opt_list (n_handler x) @ opt_list (nt_complete x),
           ns_heap := (ns_heap s)[n := x\<lparr>nt_success := None, nt_failure := None, nt_complete := None\<rparr>]\<rparr>)"

definition n_updateState :: "notif_state \<Rightarrow> nat \<Rightarrow> 'cb notif_store \<Rightarrow> 'cb notif_store" where
  "n_updateState st n s =
     (if n_isWaiting n s
      then n_dispatchCallbacks n (s\<lparr>ns_heap := (ns_heap s)[n := (ns_heap s ! n)\<lparr>nt_state := st\<rparr>]\<rparr>)
      else s)"

definition n_notify :: "nat \<Rightarrow> 'cb notif_store \<Rightarrow> 'cb notif_store" where
  "n_notify = n_updateState NSuccess"

definition n_fail :: "nat \<Rightarrow> 'cb notif_store \<Rightarrow> 'cb notif_store" where
  "n_fail = n_updateState NFailed"

definition n_setSuccessCallback :: "'cb option \<Rightarrow> nat \<Rightarrow> 'cb notif_store \<Rightarrow> 'cb notif_store" where
  "n_setSuccessCallback cb n s = s\<lparr>ns_heap := (ns_heap s)[n := (ns_heap s ! n)\<lparr>nt_success := cb\<rparr>]\<rparr>"

definition n_setFailureCallback :: "'cb option \<Rightarrow> nat \<Rightarrow> 'cb notif_store \<Rightarrow> 'cb notif_store" where
  "n_setFailureCallback cb n s = s\<lparr>ns_heap := (ns_heap s)[n := (ns_heap s ! n)\<lparr>nt_failure := cb\<rparr>]\<rparr>"

definition n_setCompletionCallback :: "'cb option \<Rightarrow> nat \<Rightarrow> 'cb notif_store \<Rightarrow> 'cb notif_store" where
  "n_setCompletionCallback cb n s = s\<lparr>ns_heap := (ns_heap s)[n := (ns_heap s ! n)\<lparr>nt_complete := cb\<rparr>]\<rparr>"

subsection \<open>Builders\<close>

record 'cb notif_builder =
  nb_notification :: "nat option"
  nb_success :: "'cb option"
  nb_failure :: "'cb option"
  nb_complete :: "'cb option"

definition nb_new :: "nat \<Rightarrow> 'cb notif_builder" where
  "nb_new n = \<lparr>nb_notification = Some n, nb_success = None, nb_failure = None, nb_complete = None\<rparr>"

definition nb_empty :: "'cb notif_builder" where
  "nb_empty = \<lparr>nb_notification = None, nb_success = None, nb_failure = None, nb_complete = None\<rparr>"

definition nb_then :: "'cb \<Rightarrow> 'cb notif_builder \<Rightarrow> 'cb notif_builder" where
  "nb_then cb b = b\<lparr>nb_success := Some cb\<rparr>"

definition nb_catch :: "'cb \<Rightarrow> 'cb notif_builder \<Rightarrow> 'cb notif_builder" where
  "nb_catch cb b = b\<lparr>nb_failure := Some cb\<rparr>"

definition nb_finally :: "'cb \<Rightarrow> 'cb notif_builder \<Rightarrow> 'cb notif_builder" where
  "nb_finally cb b = b\<lparr>nb_complete := Some cb\<rparr>"

definition nb_cancel :: "'cb notif_builder \<Rightarrow> 'cb notif_builder" where
  "nb_cancel b = b\<lparr>nb_notification := None\<rparr>"

definition nb_waiting :: "'cb notif_builder \<Rightarrow> 'cb notif_store \<Rightarrow> bool" where
  "nb_waiting b s = (case nb_notification b of None \<Rightarrow> False | Some n \<Rightarrow> n_isWaiting n s)"

text \<open>The move constructor: the new builder, and the old one, which keeps its pointer and callbacks.\<close>

definition nb_move :: "'cb notif_builder \<Rightarrow> 'cb notif_builder \<times> 'cb notif_builder" where
  "nb_move other =
     (\<lparr>nb_notification = nb_notification other, nb_success = nb_success other,
       nb_failure = nb_failure other, nb_complete = nb_complete other\<rparr>, other)"

definition nb_destroy :: "'cb notif_builder \<Rightarrow> 'cb notif_store \<Rightarrow> 'cb notif_store" where
  "nb_destroy b s = (case nb_notification b of
     None \<Rightarrow> s
   | Some n \<Rightarrow>
       (let s = n_setCompletionCallback (nb_complete b) n
                  (n_setFailureCallback (nb_failure b) n (n_setSuccessCallback (nb_success b) n s))
        in if \<not> n_isWaiting n s then n_dispatchCallbacks n s else s))"

subsection \<open>Waitables\<close>

record waitable =
  wt_waiting :: "nat list"
  wt_cancelled :: bool

definition wt_new :: waitable where
  "wt_new = \<lparr>wt_waiting = [], wt_cancelled = False\<rparr>"

definition wt_makeNotification :: "waitable \<times> 'cb notif_store \<Rightarrow> 'cb notif_builder \<times> waitable \<times> 'cb notif_store" where
  "wt_makeNotification = (\<lambda>(w, s). case n_create s of (n, s') \<Rightarrow>
     (nb_new n, w\<lparr>wt_waiting := wt_waiting w @ [n]\<rparr>, s'))"

definition wt_wake :: "waitable \<times> 'cb notif_store \<Rightarrow> waitable \<times> 'cb notif_store" where
  "wt_wake = (\<lambda>(w, s). (w\<lparr>wt_waiting := []\<rparr>, fold n_notify (wt_waiting w) s))"

definition wt_cancel :: "waitable \<times> 'cb notif_store \<Rightarrow> waitable \<times> 'cb notif_store" where
  "wt_cancel = (\<lambda>(w, s). (w\<lparr>wt_cancelled := True, wt_waiting := []\<rparr>, fold n_fail (wt_waiting w) s))"

definition wt_isCancelled :: "waitable \<Rightarrow> bool" where
  "wt_isCancelled w = wt_cancelled w"

definition wt_swap :: "waitable \<Rightarrow> waitable \<Rightarrow> waitable \<times> waitable" where
  "wt_swap a b = (b, a)"

subsection \<open>Exactly once\<close>

definition n_resolve_all :: "notif_state list \<Rightarrow> nat \<Rightarrow> 'cb notif_store \<Rightarrow> 'cb notif_store" where
  "n_resolve_all sts n = fold (\<lambda>st. n_updateState st n) sts"

lemma resolve_first:
  assumes "n < length (ns_heap s)" "n_isWaiting n s" "st \<noteq> NWaiting"
  shows "n_updateState st n s =
     s\<lparr>ns_log := ns_log s @ opt_list (n_handler ((ns_heap s ! n)\<lparr>nt_state := st\<rparr>)) @ opt_list (nt_complete (ns_heap s ! n)),
       ns_heap := (ns_heap s)[n := \<lparr>nt_state = st, nt_success = None, nt_failure = None, nt_complete = None\<rparr>]\<rparr>"
  using assms by (cases "ns_heap s ! n") (simp add: n_updateState_def n_dispatchCallbacks_def Let_def)

lemma resolve_again: "\<not> n_isWaiting n s \<Longrightarrow> n_resolve_all sts n s = s"
  by (induction sts) (simp_all add: n_resolve_all_def n_updateState_def)

lemma resolve_all_first:
  assumes "n < length (ns_heap s)" "n_isWaiting n s" "st \<noteq> NWaiting"
  shows "n_resolve_all (st # sts) n s = n_updateState st n s"
proof -
  have "n_resolve_all (st # sts) n s = n_resolve_all sts n (n_updateState st n s)"
    by (simp add: n_resolve_all_def)
  moreover have "\<not> n_isWaiting n (n_updateState st n s)"
    using assms by (simp add: resolve_first n_isWaiting_def)
  ultimately show ?thesis by (simp add: resolve_again)
qed

text \<open>The callbacks a builder's owner is owed when the event is resolved as \<open>st\<close>.\<close>

definition nb_owed :: "notif_state \<Rightarrow> 'cb notif_builder \<Rightarrow> 'cb list" where
  "nb_owed st b =
     opt_list (case st of NSuccess \<Rightarrow> nb_success b | NFailed \<Rightarrow> nb_failure b | _ \<Rightarrow> None) @ opt_list (nb_complete b)"

text \<open>
  C16. Handlers run exactly once, each call of the notification taken as one step: whatever sequence of resolutions comes before the builder installs its
  handlers and whatever sequence comes after, the log grows by exactly the handler of the first
  resolution and the completion handler, and by nothing when there is no resolution.
\<close>

theorem notification_exactly_once:
  assumes "nb_notification b = Some n" "n = length (ns_heap s)" "NWaiting \<notin> set (before @ after)"
  shows "ns_log (n_resolve_all after n (nb_destroy b (n_resolve_all before n (snd (n_create s))))) =
           ns_log s @ (case before @ after of [] \<Rightarrow> [] | st # _ \<Rightarrow> nb_owed st b)"
proof -
  let ?s0 = "snd (n_create s)"
  have s0: "n < length (ns_heap ?s0)" "n_isWaiting n ?s0" "ns_heap ?s0 ! n = n_new" "ns_log ?s0 = ns_log s"
    using assms(2) by (simp_all add: n_create_def n_isWaiting_def n_new_def)
  show ?thesis
  proof (cases before)
    case (Cons st sts)
    then have st: "st \<noteq> NWaiting" using assms(3) by auto
    let ?s1 = "n_resolve_all before n ?s0"
    have s1: "?s1 = ?s0\<lparr>ns_log := ns_log s,
        ns_heap := (ns_heap ?s0)[n := \<lparr>nt_state = st, nt_success = None, nt_failure = None, nt_complete = None\<rparr>]\<rparr>"
      using s0 st by (simp add: Cons resolve_all_first resolve_first n_handler_def n_new_def opt_list_def split: notif_state.splits)
    let ?s2 = "nb_destroy b ?s1"
    have "\<not> n_isWaiting n ?s2" "ns_log ?s2 = ns_log s @ nb_owed st b"
      using s0(1) st assms(1)
      by (auto simp: s1 nb_destroy_def n_setCompletionCallback_def n_setFailureCallback_def n_setSuccessCallback_def
          n_isWaiting_def n_dispatchCallbacks_def Let_def nb_owed_def n_handler_def split: notif_state.splits)
    then show ?thesis by (simp add: resolve_again Cons)
  next
    case Nil
    let ?s2 = "nb_destroy b ?s0"
    have s2: "n < length (ns_heap ?s2)" "n_isWaiting n ?s2" "ns_log ?s2 = ns_log s"
      "ns_heap ?s2 ! n = \<lparr>nt_state = NWaiting, nt_success = nb_success b, nt_failure = nb_failure b, nt_complete = nb_complete b\<rparr>"
      using s0 assms(1) by (simp_all add: nb_destroy_def n_setCompletionCallback_def n_setFailureCallback_def
          n_setSuccessCallback_def n_isWaiting_def Let_def n_new_def)
    have b: "n_resolve_all before n ?s0 = ?s0" by (simp add: Nil n_resolve_all_def)
    show ?thesis
    proof (cases after)
      case Nil
      then show ?thesis using \<open>before = []\<close> s2(3) by (simp add: b n_resolve_all_def)
    next
      case (Cons st sts)
      then have "st \<noteq> NWaiting" using assms(3) by auto
      with s2 Cons show ?thesis
        unfolding b using \<open>before = []\<close>
        by (auto simp: resolve_all_first resolve_first nb_owed_def n_handler_def split: notif_state.splits)
    qed
  qed
qed

theorem notification_exactly_once_witness:
  "let s = \<lparr>ns_heap = [], ns_log = []\<rparr>; b = nb_finally ''c'' (nb_then ''s'' (nb_new 0))
   in ns_log (n_resolve_all [NFailed, NSuccess] 0 (nb_destroy b (n_resolve_all [NSuccess] 0 (snd (n_create s))))) = [''s'', ''c'']"
  using notification_exactly_once [of "nb_finally ''c'' (nb_then ''s'' (nb_new 0))" 0
      "\<lparr>ns_heap = [], ns_log = []\<rparr>" "[NSuccess]" "[NFailed, NSuccess]"]
  by (simp add: Let_def nb_new_def nb_then_def nb_finally_def nb_owed_def opt_list_def)

subsection \<open>Waking and cancelling\<close>

text \<open>\<open>wt_join w s bs\<close>: for each builder text, take a notification from the waitable and destroy its builder.\<close>

fun wt_join :: "('cb notif_builder \<Rightarrow> 'cb notif_builder) list \<Rightarrow> waitable \<times> 'cb notif_store \<Rightarrow> waitable \<times> 'cb notif_store" where
  "wt_join [] ws = ws"
| "wt_join (f # fs) ws = (case wt_makeNotification ws of (b, w, s) \<Rightarrow> wt_join fs (w, nb_destroy (f b) s))"

text \<open>A setting of handlers that leaves the notification in place (\<^verbatim>\<open>Then\<close>, \<^verbatim>\<open>Catch\<close>, \<^verbatim>\<open>Finally\<close>, not \<^verbatim>\<open>Cancel\<close>).\<close>

definition nb_keeps :: "('cb notif_builder \<Rightarrow> 'cb notif_builder) \<Rightarrow> bool" where
  "nb_keeps f \<longleftrightarrow> (\<forall>b n. nb_notification b = Some n \<longrightarrow> nb_notification (f b) = Some n)"

text \<open>Every waiting address is a waiting notification with the handlers of its builder.\<close>

definition wt_pending :: "waitable \<times> 'cb notif_store \<Rightarrow> 'cb notif_builder list \<Rightarrow> bool" where
  "wt_pending ws bs \<longleftrightarrow> distinct (wt_waiting (fst ws)) \<and>
     list_all2 (\<lambda>n b. n < length (ns_heap (snd ws)) \<and> ns_heap (snd ws) ! n =
        \<lparr>nt_state = NWaiting, nt_success = nb_success b, nt_failure = nb_failure b, nt_complete = nb_complete b\<rparr>)
       (wt_waiting (fst ws)) bs"

definition nb_waiting_notif :: "'cb notif_builder \<Rightarrow> 'cb notif" where
  "nb_waiting_notif b =
     \<lparr>nt_state = NWaiting, nt_success = nb_success b, nt_failure = nb_failure b, nt_complete = nb_complete b\<rparr>"

lemma wt_pending_alt:
  "wt_pending ws bs \<longleftrightarrow> distinct (wt_waiting (fst ws)) \<and>
     list_all2 (\<lambda>n b. n < length (ns_heap (snd ws)) \<and> ns_heap (snd ws) ! n = nb_waiting_notif b) (wt_waiting (fst ws)) bs"
  by (simp add: wt_pending_def nb_waiting_notif_def)

lemma join_destroy:
  assumes "nb_notification b = Some (length (ns_heap s))"
  shows "nb_destroy b (snd (n_create s)) = s\<lparr>ns_heap := ns_heap s @ [nb_waiting_notif b]\<rparr>"
  by (simp add: nb_destroy_def assms n_setCompletionCallback_def n_setFailureCallback_def n_setSuccessCallback_def
      n_create_def n_isWaiting_def n_new_def Let_def nb_waiting_notif_def)

lemma wt_join_pending:
  assumes "wt_pending (w, s) bs" "\<forall>f \<in> set fs. nb_keeps f"
  shows "\<exists>w' s' bs'. wt_join fs (w, s) = (w', s') \<and> wt_pending (w', s') (bs @ bs') \<and> ns_log s' = ns_log s \<and>
           list_all2 (\<lambda>f b. \<exists>n. b = f (nb_new n)) fs bs'"
  using assms
proof (induction fs arbitrary: w s bs)
  case Nil
  then show ?case by simp
next
  case (Cons f fs)
  let ?n = "length (ns_heap s)" and ?b = "f (nb_new (length (ns_heap s)))"
  have fb: "nb_notification ?b = Some ?n" using Cons.prems(2) by (simp add: nb_keeps_def nb_new_def)
  let ?w = "w\<lparr>wt_waiting := wt_waiting w @ [?n]\<rparr>" and ?s = "s\<lparr>ns_heap := ns_heap s @ [nb_waiting_notif ?b]\<rparr>"
  have step: "wt_join (f # fs) (w, s) = wt_join fs (?w, ?s)"
    using join_destroy [OF fb] by (simp add: wt_makeNotification_def n_create_def)
  have lt: "\<forall>n \<in> set (wt_waiting w). n < ?n"
    using Cons.prems(1) by (auto simp: wt_pending_def list_all2_conv_all_nth in_set_conv_nth)
  have "list_all2 (\<lambda>n b. n < length (ns_heap ?s) \<and> ns_heap ?s ! n = nb_waiting_notif b) (wt_waiting w) bs"
    using Cons.prems(1) unfolding wt_pending_alt by (auto elim!: list_all2_mono simp: nth_append)
  then have "wt_pending (?w, ?s) (bs @ [?b])"
    using Cons.prems(1) lt by (auto simp: wt_pending_alt intro!: list_all2_appendI)
  from Cons.IH [OF this] Cons.prems(2) obtain w' s' bs' where
    "wt_join fs (?w, ?s) = (w', s')" "wt_pending (w', s') ((bs @ [?b]) @ bs')" "ns_log s' = ns_log ?s"
    "list_all2 (\<lambda>f b. \<exists>n. b = f (nb_new n)) fs bs'"
    by auto
  then show ?case
    unfolding step by (intro exI [of _ w'] exI [of _ s'] exI [of _ "?b # bs'"]) auto
qed

lemma resolve_pending:
  assumes "distinct ns" "st \<noteq> NWaiting"
    and "list_all2 (\<lambda>n b. n < length (ns_heap s) \<and> ns_heap s ! n = nb_waiting_notif b) ns bs"
  shows "ns_log (fold (n_updateState st) ns s) = ns_log s @ concat (map (nb_owed st) bs)"
  using assms(1,3)
proof (induction ns arbitrary: s bs)
  case Nil
  then show ?case by simp
next
  case (Cons n ns)
  obtain b bs' where bs: "bs = b # bs'" "n < length (ns_heap s)" "ns_heap s ! n = nb_waiting_notif b"
    "list_all2 (\<lambda>n b. n < length (ns_heap s) \<and> ns_heap s ! n = nb_waiting_notif b) ns bs'"
    using Cons.prems(2) by (auto simp: list_all2_Cons1)
  let ?s = "n_updateState st n s"
  have s: "?s = s\<lparr>ns_log := ns_log s @ nb_owed st b,
      ns_heap := (ns_heap s)[n := \<lparr>nt_state = st, nt_success = None, nt_failure = None, nt_complete = None\<rparr>]\<rparr>"
    using bs(2,3) assms(2)
    by (subst resolve_first) (auto simp: n_isWaiting_def nb_waiting_notif_def nb_owed_def n_handler_def split: notif_state.splits)
  have "list_all2 (\<lambda>n b. n < length (ns_heap ?s) \<and> ns_heap ?s ! n = nb_waiting_notif b) ns bs'"
    using bs(4) Cons.prems(1)
    by (auto simp: s list_all2_conv_all_nth) (metis nth_list_update_neq nth_mem)
  from Cons.IH [OF _ this] Cons.prems(1) show ?case
    by (simp add: s bs(1))
qed

text \<open>
  C19. Everyone who waits is woken once: after any number of waiters joined an empty \<^verbatim>\<open>Waitable\<close>, \<^verbatim>\<open>wake\<close>
  calls the success and completion handlers of each of them, in the order in which they joined, and a
  second \<^verbatim>\<open>wake\<close> or \<^verbatim>\<open>cancel\<close> calls nothing; \<^verbatim>\<open>cancel\<close> does the same with the failure handlers.
\<close>

theorem waitable_wakes_each_once:
  assumes "\<forall>f \<in> set fs. nb_keeps f" "wt_waiting w = []"
  shows "\<exists>bs. list_all2 (\<lambda>f b. \<exists>n. b = f (nb_new n)) fs bs \<and>
           ns_log (snd (wt_join fs (w, s))) = ns_log s \<and>
           ns_log (snd (wt_wake (wt_join fs (w, s)))) = ns_log s @ concat (map (nb_owed NSuccess) bs) \<and>
           ns_log (snd (wt_cancel (wt_join fs (w, s)))) = ns_log s @ concat (map (nb_owed NFailed) bs) \<and>
           wt_cancel (wt_wake (wt_join fs (w, s))) =
             (let (w', s') = wt_wake (wt_join fs (w, s)) in (w'\<lparr>wt_cancelled := True\<rparr>, s')) \<and>
           wt_wake (wt_wake (wt_join fs (w, s))) = wt_wake (wt_join fs (w, s))"
proof -
  have "wt_pending (w, s) []" using assms(2) by (simp add: wt_pending_def)
  then obtain w' s' bs where J: "wt_join fs (w, s) = (w', s')" "wt_pending (w', s') bs" "ns_log s' = ns_log s"
    "list_all2 (\<lambda>f b. \<exists>n. b = f (nb_new n)) fs bs"
    using wt_join_pending [of w s "[]" fs] assms(1) by auto
  note P = J(2) [unfolded wt_pending_alt fst_conv snd_conv]
  have "ns_log (fold n_notify (wt_waiting w') s') = ns_log s @ concat (map (nb_owed NSuccess) bs)"
    "ns_log (fold n_fail (wt_waiting w') s') = ns_log s @ concat (map (nb_owed NFailed) bs)"
    using resolve_pending [OF conjunct1 [OF P] _ conjunct2 [OF P], of NSuccess]
      resolve_pending [OF conjunct1 [OF P] _ conjunct2 [OF P], of NFailed] J(3)
    by (simp_all add: n_notify_def n_fail_def)
  then show ?thesis
    using J by (intro exI [of _ bs]) (simp add: wt_wake_def wt_cancel_def)
qed

theorem waitable_wakes_each_once_witness:
  "ns_log (snd (wt_wake (wt_join [nb_then ''a'', nb_then ''b'' \<circ> nb_finally ''c''] (wt_new, \<lparr>ns_heap = [], ns_log = []\<rparr>)))) = [''a'', ''b'', ''c'']"
  using waitable_wakes_each_once [of "[nb_then ''a'', nb_then ''b'' \<circ> nb_finally ''c'']" wt_new "\<lparr>ns_heap = [], ns_log = []\<rparr>"]
  by (auto simp: nb_keeps_def nb_then_def nb_finally_def wt_new_def nb_owed_def nb_new_def opt_list_def list_all2_Cons1)

subsection \<open>Two threads\<close>

text \<open>
  The thread that resolves a notification and the thread that destroys its builder, cut into the steps
  between which the other may run: the locked test-and-set of the state, the two calls and the three
  clears of \<^verbatim>\<open>DispatchCallbacks\<close>, the three sets and the test of the builder's destructor. A step answers
  whether its thread goes on.
\<close>

datatype 'cb nstep = TryResolve notif_state | CallHandler | CallComplete | ClearSuccess | ClearFailure | ClearComplete
  | SetSuccess "'cb option" | SetFailure "'cb option" | SetComplete "'cb option" | TestResolved

type_synonym 'cb nconf = "'cb notif \<times> 'cb list"

fun nstep_run :: "'cb nstep \<Rightarrow> 'cb nconf \<Rightarrow> 'cb nconf \<times> bool" where
  "nstep_run (TryResolve st) (x, l) = (if nt_state x = NWaiting then ((x\<lparr>nt_state := st\<rparr>, l), True) else ((x, l), False))"
| "nstep_run CallHandler (x, l) = ((x, l @ opt_list (n_handler x)), True)"
| "nstep_run CallComplete (x, l) = ((x, l @ opt_list (nt_complete x)), True)"
| "nstep_run ClearSuccess (x, l) = ((x\<lparr>nt_success := None\<rparr>, l), True)"
| "nstep_run ClearFailure (x, l) = ((x\<lparr>nt_failure := None\<rparr>, l), True)"
| "nstep_run ClearComplete (x, l) = ((x\<lparr>nt_complete := None\<rparr>, l), True)"
| "nstep_run (SetSuccess cb) (x, l) = ((x\<lparr>nt_success := cb\<rparr>, l), True)"
| "nstep_run (SetFailure cb) (x, l) = ((x\<lparr>nt_failure := cb\<rparr>, l), True)"
| "nstep_run (SetComplete cb) (x, l) = ((x\<lparr>nt_complete := cb\<rparr>, l), True)"
| "nstep_run TestResolved (x, l) = ((x, l), nt_state x \<noteq> NWaiting)"

definition dispatch_steps :: "'cb nstep list" where
  "dispatch_steps = [CallHandler, CallComplete, ClearSuccess, ClearFailure, ClearComplete]"

definition resolver_thread :: "notif_state \<Rightarrow> 'cb nstep list" where
  "resolver_thread st = TryResolve st # dispatch_steps"

definition builder_thread :: "'cb notif_builder \<Rightarrow> 'cb nstep list" where
  "builder_thread b = [SetSuccess (nb_success b), SetFailure (nb_failure b), SetComplete (nb_complete b), TestResolved] @ dispatch_steps"

inductive two_threads :: "'cb nconf \<times> 'cb nstep list \<times> 'cb nstep list \<Rightarrow> 'cb nconf \<times> 'cb nstep list \<times> 'cb nstep list \<Rightarrow> bool" where
  first: "nstep_run a c = (c', goon) \<Longrightarrow> two_threads (c, a # as, bs) (c', if goon then as else [], bs)"
| second: "nstep_run b c = (c', goon) \<Longrightarrow> two_threads (c, as, b # bs) (c', as, if goon then bs else [])"

inductive_cases two_threadsE: "two_threads (c, as, bs) d"

text \<open>An execution that follows a given schedule (true: the first thread).\<close>

fun two_schedule :: "bool list \<Rightarrow> 'cb nconf \<times> 'cb nstep list \<times> 'cb nstep list \<Rightarrow> 'cb nconf \<times> 'cb nstep list \<times> 'cb nstep list" where
  "two_schedule (True # ts) (c, a # as, bs) =
     (case nstep_run a c of (c', goon) \<Rightarrow> two_schedule ts (c', if goon then as else [], bs))"
| "two_schedule (False # ts) (c, as, b # bs) =
     (case nstep_run b c of (c', goon) \<Rightarrow> two_schedule ts (c', as, if goon then bs else []))"
| "two_schedule _ d = d"

lemma two_schedule_reach: "two_threads\<^sup>*\<^sup>* d (two_schedule ts d)"
proof (induction ts d rule: two_schedule.induct)
  case (1 ts c a as bs)
  obtain c' g where r: "nstep_run a c = (c', g)" by (cases "nstep_run a c")
  have "two_threads (c, a # as, bs) (c', if g then as else [], bs)" by (rule first [OF r])
  from converse_rtranclp_into_rtranclp [OF this 1 [OF r [symmetric]]] show ?case by (simp add: r)
next
  case (2 ts c as b bs)
  obtain c' g where r: "nstep_run b c = (c', g)" by (cases "nstep_run b c")
  have "two_threads (c, as, b # bs) (c', as, if g then bs else [])" by (rule second [OF r])
  from converse_rtranclp_into_rtranclp [OF this 2 [OF r [symmetric]]] show ?case by (simp add: r)
qed simp_all

text \<open>
  The handlers are not protected against a race: when a notification is resolved by one thread while
  its builder is destroyed by another, there are schedules in which both threads finish and the success
  handler was called twice, and schedules in which both finish and it was never called.
\<close>

lemma notification_race:
  "(\<exists>x. two_threads\<^sup>*\<^sup>* ((n_new, []), resolver_thread NSuccess, builder_thread (nb_then cb (nb_new 0))) ((x, [cb, cb]), [], [])) \<and>
   (\<exists>x. two_threads\<^sup>*\<^sup>* ((n_new, []), resolver_thread NSuccess, builder_thread (nb_then cb (nb_new 0))) ((x, []), [], []))"
proof -
  let ?d = "((n_new, []), resolver_thread NSuccess, builder_thread (nb_then cb (nb_new 0)))"
  let ?twice = "[True, False, False, False, False, True, False] @ replicate 4 True @ replicate 4 False"
  let ?never = "[True, True, False, False, False, False] @ replicate 4 True @ replicate 5 False"
  note defs = resolver_thread_def builder_thread_def dispatch_steps_def n_new_def nb_then_def nb_new_def
    n_handler_def opt_list_def numeral_eq_Suc
  have "\<exists>x. two_schedule ?twice ?d = ((x, [cb, cb]), [], [])" by (simp add: defs)
  moreover have "\<exists>x. two_schedule ?never ?d = ((x, []), [], [])" by (simp add: defs)
  ultimately show ?thesis
    using two_schedule_reach [of ?d ?twice] two_schedule_reach [of ?d ?never] by auto
qed

end
