(* ===== verification/Tasks.thy ===== *)
theory Tasks
  imports Prelude
begin

text \<open>
  \<^verbatim>\<open>threading/src/cpp/lib/Task.cpp\<close> and \<^verbatim>\<open>Taskpool.cpp\<close>: the scheduler on which everything in the
  server runs. Tasks are named by their address. The program has one pool: the pool pointer of a task is
  set or null. The mutex of the pool is an explicit flag. What a task does when it runs is a parameter;
  the clock is an argument. Counters and log output are left out.
\<close>

subsection \<open>State\<close>

datatype exit_state = COMPLETE | DEFER | CANCELLED | ERRORED

record task =
  ta_pool :: bool
  ta_cancelled :: bool
  ta_group :: nat
  ta_id :: nat

text \<open>A task and the time at which it is due.\<close>

type_synonym future_task = "nat \<times> nat"

record 'u tworld =
  tw_tasks :: "nat \<Rightarrow> task"
  tw_pending :: "nat list"
  tw_running :: "(nat \<times> nat) list"
  tw_suspended :: "nat list"
  tw_future :: "future_task list"
  tw_quit :: bool
  tw_locked :: bool
  tw_default :: bool
  tw_thread_group :: nat
  tw_id_counter :: nat
  tw_user :: 'u

definition tw_set :: "nat \<Rightarrow> (task \<Rightarrow> task) \<Rightarrow> 'u tworld \<Rightarrow> 'u tworld" where
  "tw_set t f w = w\<lparr>tw_tasks := (tw_tasks w)(t := f (tw_tasks w t))\<rparr>"

text \<open>\<^verbatim>\<open>Lock lock(mutex)\<close> over a block that ends by returning.\<close>

definition tp_locked :: "('u tworld, 'a) prog \<Rightarrow> ('u tworld, 'a) prog" where
  "tp_locked m = (\<lambda>w. if tw_locked w then (Inl Deadlock, w)
     else (case m (w\<lparr>tw_locked := True\<rparr>) of
             (Inl Deadlock, w') \<Rightarrow> (Inl Deadlock, w')
           | (r, w') \<Rightarrow> (r, w'\<lparr>tw_locked := False\<rparr>)))"

subsection \<open>Operations of the pool\<close>

text \<open>\<^verbatim>\<open>std::set<TaskP>\<close> iterates in address order.\<close>

definition set_insert :: "nat \<Rightarrow> nat list \<Rightarrow> nat list" where
  "set_insert t ts = (if t \<in> set ts then ts else insort t ts)"

text \<open>
  The priority queue, earliest first. Its comparison answers true for equal times in both directions, so
  the order among tasks due at the same time is not defined by the code; here the newer one comes first.
\<close>

fun future_push :: "future_task \<Rightarrow> future_task list \<Rightarrow> future_task list" where
  "future_push x [] = [x]"
| "future_push x (y # ys) = (if snd y < snd x then y # future_push x ys else x # y # ys)"

definition tp_suspend :: "nat \<Rightarrow> ('u tworld, unit) prog" where
  "tp_suspend t = pmodify (\<lambda>w. (tw_set t (\<lambda>x. x\<lparr>ta_pool := True\<rparr>) w)\<lparr>tw_suspended := set_insert t (tw_suspended w)\<rparr>)"

definition tp_submit :: "(nat \<Rightarrow> 'u \<Rightarrow> bool) \<Rightarrow> nat \<Rightarrow> ('u tworld, unit) prog" where
  "tp_submit isRunnable t = pbind (pget (\<lambda>w. isRunnable t (tw_user w))) (\<lambda>r.
     if r then tp_locked (pmodify (\<lambda>w. w\<lparr>tw_pending := tw_pending w @ [t]\<rparr>))
     else tp_suspend t)"

definition tp_after :: "nat \<Rightarrow> nat \<Rightarrow> nat \<Rightarrow> ('u tworld, unit) prog" where
  "tp_after now t delay = tp_locked (pmodify (\<lambda>w. w\<lparr>tw_future := future_push (t, now + delay) (tw_future w)\<rparr>))"

definition tp_remove :: "nat \<Rightarrow> ('u tworld, unit) prog" where
  "tp_remove t = tp_locked (pmodify (\<lambda>w. w\<lparr>tw_pending := filter (\<lambda>x. x \<noteq> t) (tw_pending w),
                                           tw_suspended := filter (\<lambda>x. x \<noteq> t) (tw_suspended w)\<rparr>))"

definition tp_makeRunnable :: "nat \<Rightarrow> ('u tworld, unit) prog" where
  "tp_makeRunnable t = tp_locked (pmodify (\<lambda>w.
     if t \<in> set (tw_suspended w)
     then w\<lparr>tw_suspended := filter (\<lambda>x. x \<noteq> t) (tw_suspended w), tw_pending := t # tw_pending w\<rparr>
     else w))"

definition tp_getNextWakeTime :: "nat \<Rightarrow> nat \<Rightarrow> 'u tworld \<Rightarrow> nat" where
  "tp_getNextWakeTime current_time deflt w =
     (case tw_future w of [] \<Rightarrow> current_time + deflt | (t, due) # _ \<Rightarrow> due)"

fun future_next :: "(nat \<Rightarrow> bool) \<Rightarrow> nat \<Rightarrow> future_task list \<Rightarrow> nat option \<times> future_task list" where
  "future_next cancelled now [] = (None, [])"
| "future_next cancelled now ((t, due) # fs) =
     (if due \<le> now then (if cancelled t then future_next cancelled now fs else (Some t, fs))
      else (None, (t, due) # fs))"

definition tp_getNextFutureWork :: "nat \<Rightarrow> ('u tworld, nat option) prog" where
  "tp_getNextFutureWork current_time = (\<lambda>w.
     case future_next (\<lambda>t. ta_cancelled (tw_tasks w t)) current_time (tw_future w) of
       (None, fs) \<Rightarrow> (Inr None, w\<lparr>tw_future := fs\<rparr>)
     | (Some t, fs) \<Rightarrow> (Inr (Some t), tw_set t (\<lambda>x. x\<lparr>ta_pool := False\<rparr>) (w\<lparr>tw_future := fs\<rparr>)))"

text \<open>\<^verbatim>\<open>pending\<close>, \<^verbatim>\<open>running\<close>, \<^verbatim>\<open>suspended\<close> and \<^verbatim>\<open>future\<close> gauges.\<close>

definition tp_updateStatus :: "('u tworld, nat \<times> nat \<times> nat \<times> nat) prog" where
  "tp_updateStatus = tp_locked (pget (\<lambda>w.
     (length (tw_pending w), length (tw_running w), length (tw_suspended w), length (tw_future w))))"

subsection \<open>Operations of a task\<close>

definition tk_new :: "nat \<Rightarrow> 'u tworld \<Rightarrow> 'u tworld" where
  "tk_new t w = (tw_set t (\<lambda>_. \<lparr>ta_pool = False, ta_cancelled = False, ta_group = tw_thread_group w,
                               ta_id = tw_id_counter w\<rparr>) w)\<lparr>tw_id_counter := tw_id_counter w + 1\<rparr>"

definition tk_cancel :: "nat \<Rightarrow> ('u tworld, unit) prog" where
  "tk_cancel t =
     pthen (pmodify (tw_set t (\<lambda>x. x\<lparr>ta_cancelled := True\<rparr>)))
     (pbind (pget (\<lambda>w. ta_pool (tw_tasks w t))) (\<lambda>p. if p then tp_remove t else pret ()))"

definition tk_setGroupId :: "nat \<Rightarrow> nat \<Rightarrow> ('u tworld, nat) prog" where
  "tk_setGroupId t g = pbind (pget (\<lambda>w. ta_group (tw_tasks w t))) (\<lambda>old.
     pthen (pmodify (tw_set t (\<lambda>x. x\<lparr>ta_group := g\<rparr>))) (pret old))"

definition tk_setThreadGroupId :: "nat \<Rightarrow> ('u tworld, unit) prog" where
  "tk_setThreadGroupId g = pmodify (\<lambda>w. w\<lparr>tw_thread_group := g\<rparr>)"

definition tk_submit_pool :: "(nat \<Rightarrow> 'u \<Rightarrow> bool) \<Rightarrow> nat \<Rightarrow> ('u tworld, bool) prog" where
  "tk_submit_pool isRunnable t = pbind (pget (\<lambda>w. ta_pool (tw_tasks w t))) (\<lambda>p.
     if p then pret True
     else pthen (pmodify (tw_set t (\<lambda>x. x\<lparr>ta_pool := True\<rparr>))) (pthen (tp_submit isRunnable t) (pret True)))"

text \<open>
  Without a default pool \<^verbatim>\<open>x\<close> is null, and so is the pool of a task that was never submitted: the test
  \<^verbatim>\<open>pool == x\<close> succeeds.
\<close>

definition tk_submit :: "(nat \<Rightarrow> 'u \<Rightarrow> bool) \<Rightarrow> nat \<Rightarrow> ('u tworld, bool) prog" where
  "tk_submit isRunnable t = pbind (pget (\<lambda>w. (ta_pool (tw_tasks w t), tw_default w))) (\<lambda>(p, x).
     if p = x then pret True else if x then tk_submit_pool isRunnable t else pret False)"

definition tk_submit_pool_delay :: "nat \<Rightarrow> nat \<Rightarrow> nat \<Rightarrow> ('u tworld, bool) prog" where
  "tk_submit_pool_delay now t delay = pbind (pget (\<lambda>w. ta_pool (tw_tasks w t))) (\<lambda>p.
     if p then pret True
     else pthen (pmodify (tw_set t (\<lambda>x. x\<lparr>ta_pool := True\<rparr>))) (pthen (tp_after now t delay) (pret True)))"

definition tk_submit_delay :: "nat \<Rightarrow> nat \<Rightarrow> nat \<Rightarrow> ('u tworld, bool) prog" where
  "tk_submit_delay now t delay = pbind (pget tw_default) (\<lambda>x.
     if x then tk_submit_pool_delay now t delay else pret False)"

definition tk_makeRunnable :: "nat \<Rightarrow> ('u tworld, unit) prog" where
  "tk_makeRunnable t = pbind (pget (\<lambda>w. ta_pool (tw_tasks w t))) (\<lambda>p. if p then tp_makeRunnable t else pret ())"

subsection \<open>Stopping and cancelling groups\<close>

fun tk_cancel_all :: "nat list \<Rightarrow> ('u tworld, unit) prog" where
  "tk_cancel_all [] = pret ()"
| "tk_cancel_all (t # ts) = pthen (tk_cancel t) (tk_cancel_all ts)"

definition tp_stop :: "('u tworld, unit) prog" where
  "tp_stop = tp_locked (
     pthen (pmodify (\<lambda>w. w\<lparr>tw_quit := True\<rparr>))
    (pbind (pget tw_pending) (\<lambda>ts. pthen (tk_cancel_all ts)
    (pthen (pmodify (\<lambda>w. w\<lparr>tw_pending := []\<rparr>))
    (pbind (pget tw_running) (\<lambda>rs. tk_cancel_all (map snd rs)))))))"

definition tp_cancelTaskGroup :: "nat \<Rightarrow> ('u tworld, unit) prog" where
  "tp_cancelTaskGroup g =
     pbind (tp_locked (pbind (pget (\<lambda>w. filter (\<lambda>t. ta_group (tw_tasks w t) = g) (tw_pending w) @
                                       filter (\<lambda>t. ta_group (tw_tasks w t) = g) (tw_suspended w))) (\<lambda>ts.
       pthen (pmodify (\<lambda>w. w\<lparr>tw_pending := filter (\<lambda>t. ta_group (tw_tasks w t) \<noteq> g) (tw_pending w),
                             tw_suspended := filter (\<lambda>t. ta_group (tw_tasks w t) \<noteq> g) (tw_suspended w)\<rparr>))
             (pret ts)))) tk_cancel_all"

subsection \<open>A worker thread\<close>

text \<open>
  The calls that tasks, while they run, and other threads make on tasks and on the pool; the wait for work is left out.
  \<open>body t u\<close> is what running task \<open>t\<close> does in user state \<open>u\<close>: calls, new user state, and its exit state or
  exception.
\<close>

datatype task_call = CallSubmit nat | CallDelay nat nat nat | CallMakeRunnable nat | CallCancel nat | CallCancelGroup nat | CallStop

type_synonym 'u task_body = "nat \<Rightarrow> 'u \<Rightarrow> task_call list \<times> 'u \<times> (exn + exit_state)"

fun task_call_run :: "(nat \<Rightarrow> 'u \<Rightarrow> bool) \<Rightarrow> task_call \<Rightarrow> ('u tworld, unit) prog" where
  "task_call_run ir (CallSubmit t) = pthen (tk_submit ir t) (pret ())"
| "task_call_run ir (CallDelay now t d) = pthen (tk_submit_delay now t d) (pret ())"
| "task_call_run ir (CallMakeRunnable t) = tk_makeRunnable t"
| "task_call_run ir (CallCancel t) = tk_cancel t"
| "task_call_run ir (CallCancelGroup g) = tp_cancelTaskGroup g"
| "task_call_run ir CallStop = tp_stop"

fun task_calls_run :: "(nat \<Rightarrow> 'u \<Rightarrow> bool) \<Rightarrow> task_call list \<Rightarrow> ('u tworld, unit) prog" where
  "task_calls_run ir [] = pret ()"
| "task_calls_run ir (c # cs) = pthen (task_call_run ir c) (task_calls_run ir cs)"

definition tk_runThunk :: "(nat \<Rightarrow> 'u \<Rightarrow> bool) \<Rightarrow> 'u task_body \<Rightarrow> nat \<Rightarrow> ('u tworld, exit_state) prog" where
  "tk_runThunk ir body t =
     pthen (pmodify (\<lambda>w. w\<lparr>tw_thread_group := ta_group (tw_tasks w t)\<rparr>))
     (pbind (pget (\<lambda>w. body t (tw_user w))) (\<lambda>(calls, u, res).
      pthen (pmodify (\<lambda>w. w\<lparr>tw_user := u\<rparr>))
     (pthen (task_calls_run ir calls) (plift res))))"

definition tp_pop :: "('u tworld, nat option) prog" where
  "tp_pop = tp_locked (\<lambda>w. case tw_pending w of
     [] \<Rightarrow> (Inr None, w)
   | t # ts \<Rightarrow> (Inr (Some t), (tw_set t (\<lambda>x. x\<lparr>ta_pool := False\<rparr>) w)\<lparr>tw_pending := ts\<rparr>))"

definition tp_take :: "nat \<Rightarrow> ('u tworld, nat option) prog" where
  "tp_take now =
     pbind (tp_locked (tp_getNextFutureWork now)) (\<lambda>m.
       case m of Some t \<Rightarrow> pret (Some t) | None \<Rightarrow> tp_pop)"

definition tp_execute :: "(nat \<Rightarrow> 'u \<Rightarrow> bool) \<Rightarrow> 'u task_body \<Rightarrow> nat \<Rightarrow> nat \<Rightarrow> ('u tworld, exit_state) prog" where
  "tp_execute ir body thread t =
     pthen (tp_locked (pmodify (\<lambda>w. w\<lparr>tw_running := omap_insert thread t (tw_running w)\<rparr>)))
     (pbind (pcatch (pbind (pget (\<lambda>w. ta_cancelled (tw_tasks w t))) (\<lambda>c.
                       if c then pret CANCELLED else tk_runThunk ir body t))
                    (\<lambda>e. if e = Deadlock then pthrow Deadlock else pret ERRORED)) (\<lambda>status.
      pthen (tp_locked (pmodify (\<lambda>w. w\<lparr>tw_running := omap_erase thread (tw_running w)\<rparr>)))
      (pret status)))"

text \<open>One turn of the loop of \<^verbatim>\<open>Taskpool::run\<close>: the exit state of the task that ran, if there was one.\<close>

definition tp_turn :: "(nat \<Rightarrow> 'u \<Rightarrow> bool) \<Rightarrow> 'u task_body \<Rightarrow> nat \<Rightarrow> nat \<Rightarrow> ('u tworld, (nat \<times> exit_state) option) prog" where
  "tp_turn ir body thread now =
     pbind (pget tw_quit) (\<lambda>q. if q then pret None else
     pbind (tp_take now) (\<lambda>m. case m of
       None \<Rightarrow> pret None
     | Some t \<Rightarrow> pbind (tp_execute ir body thread t) (\<lambda>status.
         (case status of DEFER \<Rightarrow> pthen (tp_suspend t) (pret (Some (t, status))) | _ \<Rightarrow> pret (Some (t, status))))))"

subsection \<open>Invariant\<close>

text \<open>
  The mutex is free, no task is in two places or twice in one, whatever waits in the pool has its pool
  pointer set, and the two ordered containers are ordered. \<open>X\<close> is a set of tasks that are in none.
\<close>

definition tw_places :: "'u tworld \<Rightarrow> nat list" where
  "tw_places w = tw_pending w @ tw_suspended w @ map fst (tw_future w)"

definition tw_ok :: "nat set \<Rightarrow> 'u tworld \<Rightarrow> bool" where
  "tw_ok X w \<longleftrightarrow> \<not> tw_locked w \<and> distinct (tw_places w) \<and> (\<forall>t \<in> set (tw_places w). ta_pool (tw_tasks w t)) \<and>
     sorted (tw_suspended w) \<and> sorted (map snd (tw_future w)) \<and> set (tw_places w) \<inter> X = {}"

definition keeps :: "nat set \<Rightarrow> ('u tworld, 'a) prog \<Rightarrow> bool" where
  "keeps X m \<longleftrightarrow> (\<forall>w. tw_ok X w \<longrightarrow> (\<exists>r w'. m w = (Inr r, w') \<and> tw_ok X w'))"

lemma keepsI: "(\<And>w. tw_ok X w \<Longrightarrow> \<exists>r w'. m w = (Inr r, w') \<and> tw_ok X w') \<Longrightarrow> keeps X m"
  by (simp add: keeps_def)

lemma keepsD: "keeps X m \<Longrightarrow> tw_ok X w \<Longrightarrow> \<exists>r w'. m w = (Inr r, w') \<and> tw_ok X w'"
  by (simp add: keeps_def)

lemma keeps_pret: "keeps X (pret x)" "keeps X (Pair (Inr x))"
  by (simp_all add: keeps_def)

lemma keeps_pbind: "keeps X m \<Longrightarrow> (\<And>x. keeps X (f x)) \<Longrightarrow> keeps X (pbind m f)"
  unfolding keeps_def by (metis pbind_Inr)

lemma keeps_pthen: "keeps X m \<Longrightarrow> keeps X n \<Longrightarrow> keeps X (pthen m n)"
  unfolding keeps_def by (metis pthen_Inr)

lemma keeps_pget: "keeps X (pget f)"
  by (simp add: keeps_def)

lemma keeps_pmodify: "(\<And>w. tw_ok X w \<Longrightarrow> tw_ok X (f w)) \<Longrightarrow> keeps X (pmodify f)"
  by (simp add: keeps_def)

lemma tw_set_simps [simp]:
  "tw_pending (tw_set t f w) = tw_pending w" "tw_suspended (tw_set t f w) = tw_suspended w"
  "tw_future (tw_set t f w) = tw_future w" "tw_locked (tw_set t f w) = tw_locked w"
  "tw_running (tw_set t f w) = tw_running w" "tw_quit (tw_set t f w) = tw_quit w"
  "tw_user (tw_set t f w) = tw_user w" "tw_default (tw_set t f w) = tw_default w"
  "tw_tasks (tw_set t f w) x = (if x = t then f (tw_tasks w t) else tw_tasks w x)"
  by (simp_all add: tw_set_def)

lemma set_set_insert [simp]: "set (set_insert t ts) = insert t (set ts)"
  by (auto simp: set_insert_def set_insort_key)

lemma sorted_set_insert [simp]: "sorted ts \<Longrightarrow> sorted (set_insert t ts)"
  by (simp add: set_insert_def sorted_insort)

lemma distinct_set_insert [simp]: "distinct ts \<Longrightarrow> distinct (set_insert t ts)"
  by (simp add: set_insert_def distinct_insort)

lemma mset_future_push [simp]: "mset (future_push x fs) = add_mset x (mset fs)"
  by (induction x fs rule: future_push.induct) auto

lemma set_future_push [simp]: "set (future_push x fs) = insert x (set fs)"
  using mset_future_push [of x fs] by (metis set_mset_add_mset_insert set_mset_mset)

lemma distinct_future_push:
  "fst x \<notin> fst ` set fs \<Longrightarrow> distinct (map fst fs) \<Longrightarrow> distinct (map fst (future_push x fs))"
  by (induction x fs rule: future_push.induct) auto

lemma sorted_future_push: "sorted (map snd fs) \<Longrightarrow> sorted (map snd (future_push x fs))"
  by (induction x fs rule: future_push.induct) auto

lemma keeps_submit_pool:
  fixes ir :: "nat \<Rightarrow> 'u \<Rightarrow> bool"
  assumes "t \<notin> X" shows "keeps X (tk_submit_pool ir t)"
proof (rule keepsI)
  fix w :: "'u tworld" assume ok: "tw_ok X w"
  show "\<exists>r w'. tk_submit_pool ir t w = (Inr r, w') \<and> tw_ok X w'"
  proof (cases "ta_pool (tw_tasks w t)")
    case True
    then have "tk_submit_pool ir t w = (Inr True, w)" by (simp add: tk_submit_pool_def pbind_apply)
    with ok show ?thesis by blast
  next
    case False
    then have "t \<notin> set (tw_places w)" using ok by (auto simp: tw_ok_def)
    with False ok assms show ?thesis
      by (auto simp: tk_submit_pool_def pbind_apply pthen_apply tp_submit_def tp_locked_def tp_suspend_def
          tw_ok_def tw_places_def)
  qed
qed

lemma keeps_submit: "t \<notin> X \<Longrightarrow> keeps X (tk_submit ir t)"
  unfolding tk_submit_def by (auto intro!: keeps_pbind keeps_pget keeps_submit_pool keeps_pret split: prod.splits)

lemma keeps_submit_delay:
  assumes "t \<notin> X" shows "keeps X (tk_submit_delay now t d :: ('u tworld, bool) prog)"
proof -
  have "keeps X (tk_submit_pool_delay now t d :: ('u tworld, bool) prog)"
  proof (rule keepsI)
    fix w :: "'u tworld" assume ok: "tw_ok X w"
    show "\<exists>r w'. tk_submit_pool_delay now t d w = (Inr r, w') \<and> tw_ok X w'"
    proof (cases "ta_pool (tw_tasks w t)")
      case True
      then have "tk_submit_pool_delay now t d w = (Inr True, w)"
        by (simp add: tk_submit_pool_delay_def pbind_apply)
      with ok show ?thesis by blast
    next
      case False
      then have "t \<notin> set (tw_places w)" using ok by (auto simp: tw_ok_def)
      with False ok assms show ?thesis
        by (auto simp: tk_submit_pool_delay_def pbind_apply pthen_apply tp_after_def tp_locked_def
            tw_ok_def tw_places_def distinct_future_push sorted_future_push)
    qed
  qed
  then show ?thesis
    unfolding tk_submit_delay_def by (auto intro!: keeps_pbind keeps_pget keeps_pret)
qed

lemma keeps_makeRunnable: "keeps X (tk_makeRunnable t)"
  by (rule keepsI)
     (auto simp: tk_makeRunnable_def pbind_apply tp_makeRunnable_def tp_locked_def tw_ok_def tw_places_def
        sorted_wrt_filter)

lemma keeps_remove: "keeps X (tp_remove t)"
  by (rule keepsI) (auto simp: tp_remove_def tp_locked_def tw_ok_def tw_places_def sorted_wrt_filter)

lemma keeps_cancel: "keeps X (tk_cancel t)"
proof -
  have "keeps X (if p then tp_remove t else pret ())" for p :: bool
    by (cases p) (simp_all only: if_True if_False keeps_remove keeps_pret)
  then show ?thesis
    unfolding tk_cancel_def
    by (intro keeps_pthen keeps_pbind keeps_pget keeps_pmodify)
       (auto simp: tw_ok_def tw_places_def intro: keeps_remove keeps_pret)
qed

lemma keeps_cancel_all: "keeps X (tk_cancel_all ts)"
  by (induction ts) (auto intro!: keeps_pret keeps_pthen keeps_cancel)

lemma keeps_cancelTaskGroup: "keeps X (tp_cancelTaskGroup g)"
  unfolding tp_cancelTaskGroup_def
  by (intro keeps_pbind keeps_cancel_all, rule keepsI)
     (auto simp: tp_locked_def pbind_apply pthen_apply tw_ok_def tw_places_def sorted_wrt_filter)

fun call_submits :: "task_call \<Rightarrow> nat set" where
  "call_submits (CallSubmit t) = {t}"
| "call_submits (CallDelay now t d) = {t}"
| "call_submits _ = {}"

lemma keeps_call: "\<lbrakk>call_submits c \<inter> X = {}; c \<noteq> CallStop\<rbrakk> \<Longrightarrow> keeps X (task_call_run ir c)"
  by (cases c) (auto intro!: keeps_pthen keeps_submit keeps_submit_delay keeps_pret keeps_makeRunnable
      keeps_cancel keeps_cancelTaskGroup)

lemma keeps_calls: "\<forall>c \<in> set cs. call_submits c \<inter> X = {} \<and> c \<noteq> CallStop \<Longrightarrow> keeps X (task_calls_run ir cs)"
  by (induction cs) (auto intro!: keeps_pret keeps_pthen keeps_call)

lemma tw_ok_insert: "tw_ok (insert t X) w \<longleftrightarrow> tw_ok X w \<and> t \<notin> set (tw_places w)"
  by (auto simp: tw_ok_def)

lemma tw_ok_user [simp]: "tw_ok X (w\<lparr>tw_user := u\<rparr>) = tw_ok X w"
  "tw_ok X (w\<lparr>tw_thread_group := g\<rparr>) = tw_ok X w" "tw_ok X (w\<lparr>tw_running := rs\<rparr>) = tw_ok X w"
  by (simp_all add: tw_ok_def tw_places_def)

lemma future_next_some:
  "future_next c now fs = (Some t, fs') \<Longrightarrow>
     \<exists>ds due. fs = ds @ (t, due) # fs' \<and> due \<le> now \<and> \<not> c t \<and> (\<forall>d \<in> set ds. c (fst d) \<and> snd d \<le> now)"
proof (induction c now fs rule: future_next.induct)
  case (2 c now t' due' fs)
  show ?case
  proof (cases "due' \<le> now \<and> c t'")
    case True
    with 2 obtain ds due where "fs = ds @ (t, due) # fs'" "due \<le> now" "\<not> c t"
      "\<forall>d \<in> set ds. c (fst d) \<and> snd d \<le> now" by auto
    with True show ?thesis by (intro exI [of _ "(t', due') # ds"] exI [of _ due]) auto
  next
    case False
    with 2 show ?thesis by (intro exI [of _ "[]"]) (auto split: if_splits)
  qed
qed simp

lemma future_next_none:
  "future_next c now fs = (None, fs') \<Longrightarrow>
     \<exists>ds. fs = ds @ fs' \<and> (\<forall>d \<in> set ds. c (fst d) \<and> snd d \<le> now) \<and> (fs' = [] \<or> now < snd (hd fs'))"
proof (induction c now fs rule: future_next.induct)
  case (2 c now t' due' fs)
  show ?case
  proof (cases "due' \<le> now")
    case True
    with 2 obtain ds where "fs = ds @ fs'" "\<forall>d \<in> set ds. c (fst d) \<and> snd d \<le> now"
      "fs' = [] \<or> now < snd (hd fs')" by (auto split: if_splits)
    with True 2 show ?thesis by (intro exI [of _ "(t', due') # ds"]) (auto split: if_splits)
  next
    case False
    with 2 show ?thesis by (intro exI [of _ "[]"]) auto
  qed
qed simp

lemma tw_ok_future_suffix:
  assumes "tw_ok X w" "tw_future w = ds @ fs"
  shows "tw_ok X (w\<lparr>tw_future := fs\<rparr>)"
proof -
  have sub: "set (tw_places (w\<lparr>tw_future := fs\<rparr>)) \<subseteq> set (tw_places w)"
    using assms(2) by (auto simp: tw_places_def)
  moreover have "distinct (tw_places (w\<lparr>tw_future := fs\<rparr>))"
    using assms by (simp add: tw_ok_def tw_places_def Int_Un_distrib image_Un)
  moreover have "sorted (map snd fs)"
    using assms by (simp add: tw_ok_def sorted_append)
  ultimately show ?thesis
    using assms(1) unfolding tw_ok_def by auto
qed

lemma tw_ok_future_next_none:
  assumes "tw_ok X w" "future_next c now (tw_future w) = (None, fs')"
  shows "tw_ok X (w\<lparr>tw_future := fs'\<rparr>)"
  using future_next_none [OF assms(2)] tw_ok_future_suffix [OF assms(1)] by blast

lemma tw_ok_take:
  assumes "tw_ok X w" "t \<notin> set (tw_places w)"
  shows "tw_ok (insert t X) (tw_set t f w)"
  using assms by (auto simp: tw_ok_def tw_places_def)

lemma tw_ok_future_next_some:
  assumes "tw_ok X w" "future_next c now (tw_future w) = (Some t, fs')"
  shows "t \<notin> X \<and> tw_ok (insert t X) (tw_set t (\<lambda>x. x\<lparr>ta_pool := False\<rparr>) (w\<lparr>tw_future := fs'\<rparr>))"
proof -
  obtain ds due where w: "tw_future w = ds @ (t, due) # fs'"
    using future_next_some [OF assms(2)] by blast
  then have "tw_future w = (ds @ [(t, due)]) @ fs'" by simp
  note ok = tw_ok_future_suffix [OF assms(1) this]
  moreover have "t \<notin> set (tw_places (w\<lparr>tw_future := fs'\<rparr>))"
    using assms(1) w unfolding tw_ok_def tw_places_def by (simp add: image_Un)
  moreover have "t \<notin> X" using assms(1) w by (auto simp: tw_ok_def tw_places_def)
  ultimately show ?thesis by (simp add: tw_ok_take)
qed

lemma future_work_keeps:
  assumes ok: "tw_ok X w"
  shows "\<exists>m w'. tp_locked (tp_getNextFutureWork now) w = (Inr m, w') \<and>
     (case m of None \<Rightarrow> tw_ok X w' | Some t \<Rightarrow> t \<notin> X \<and> tw_ok (insert t X) w')"
proof (cases "future_next (\<lambda>t. ta_cancelled (tw_tasks w t)) now (tw_future w)")
  case (Pair m fs)
  have lock: "\<not> tw_locked w" using ok by (simp add: tw_ok_def)
  show ?thesis
  proof (cases m)
    case (Some t)
    have "tp_locked (tp_getNextFutureWork now) w = (Inr (Some t), tw_set t (\<lambda>x. x\<lparr>ta_pool := False\<rparr>) (w\<lparr>tw_future := fs\<rparr>))"
      using lock Pair Some by (simp add: tp_locked_def tp_getNextFutureWork_def tw_set_def)
    with tw_ok_future_next_some [OF ok, of "\<lambda>t. ta_cancelled (tw_tasks w t)"] Pair Some show ?thesis by simp
  next
    case None
    have "tp_locked (tp_getNextFutureWork now) w = (Inr None, w\<lparr>tw_future := fs\<rparr>)"
      using lock Pair None by (simp add: tp_locked_def tp_getNextFutureWork_def)
    with tw_ok_future_next_none [OF ok] Pair None show ?thesis by simp
  qed
qed

lemma pop_keeps:
  assumes ok: "tw_ok X w"
  shows "\<exists>m w'. tp_pop w = (Inr m, w') \<and> (case m of None \<Rightarrow> tw_ok X w' | Some t \<Rightarrow> t \<notin> X \<and> tw_ok (insert t X) w')"
proof (cases "tw_pending w")
  case Nil
  then show ?thesis using ok by (simp add: tp_pop_def tp_locked_def tw_ok_def tw_places_def)
next
  case (Cons t ts)
  then have "tp_pop w = (Inr (Some t), (tw_set t (\<lambda>x. x\<lparr>ta_pool := False\<rparr>) w)\<lparr>tw_pending := ts\<rparr>)"
    using ok by (simp add: tp_pop_def tp_locked_def tw_ok_def tw_set_def)
  moreover have "t \<notin> X \<and> tw_ok (insert t X) ((tw_set t (\<lambda>x. x\<lparr>ta_pool := False\<rparr>) w)\<lparr>tw_pending := ts\<rparr>)"
    using ok Cons by (auto simp: tw_ok_def tw_places_def)
  ultimately show ?thesis by simp
qed

lemma keeps_suspend:
  assumes "tw_ok (insert t X) w" "t \<notin> X"
  shows "\<exists>w'. tp_suspend t w = (Inr (), w') \<and> tw_ok X w'"
  using assms by (auto simp: tp_suspend_def tw_ok_def tw_places_def)

lemma tw_ok_mono: "tw_ok X w \<Longrightarrow> Y \<subseteq> X \<Longrightarrow> tw_ok Y w"
  by (auto simp: tw_ok_def)

text \<open>What a turn records for a body that ended with \<open>res\<close>.\<close>

definition thunk_status :: "exn + exit_state \<Rightarrow> exit_state" where
  "thunk_status res = (case res of Inl _ \<Rightarrow> ERRORED | Inr s \<Rightarrow> s)"

lemma locked_running:
  "\<not> tw_locked w \<Longrightarrow> tp_locked (pmodify (\<lambda>w. w\<lparr>tw_running := f (tw_running w)\<rparr>)) w =
     (Inr (), w\<lparr>tw_running := f (tw_running w)\<rparr>)"
  by (cases w) (simp add: tp_locked_def)

lemma turn_after_take:
  assumes "tp_take now w = (Inr (Some t), w')" "\<not> tw_quit w"
    "tp_execute ir body thread t w' = (Inr s, w'')"
  shows "tp_turn ir body thread now w =
     (case s of DEFER \<Rightarrow> pthen (tp_suspend t) (pret (Some (t, s))) w'' | _ \<Rightarrow> (Inr (Some (t, s)), w''))"
  using assms by (cases s) (simp_all add: tp_turn_def pbind_apply)

subsection \<open>Stopping\<close>

text \<open>
  Stopping a pool ends in a deadlock exactly when a task is waiting to run, or a running task is in the pool: \<^verbatim>\<open>stop\<close>
  holds the mutex while it cancels the task, and cancelling a task that is in the pool locks it again.
\<close>

definition stop_safe :: "'u tworld \<Rightarrow> bool" where
  "stop_safe w \<longleftrightarrow> tw_pending w = [] \<and> (\<forall>t \<in> set (map snd (tw_running w)). \<not> ta_pool (tw_tasks w t))"

lemma pool_cancelled: "ta_pool (tw_tasks (tw_set t (\<lambda>x. x\<lparr>ta_cancelled := True\<rparr>) w) u) = ta_pool (tw_tasks w u)"
  by simp

lemma cancel_all_unpooled:
  "\<forall>t \<in> set ts. \<not> ta_pool (tw_tasks w t) \<Longrightarrow>
    tk_cancel_all ts w = (Inr (), fold (\<lambda>t. tw_set t (\<lambda>x. x\<lparr>ta_cancelled := True\<rparr>)) ts w)"
  by (induction ts arbitrary: w) (simp_all add: pthen_apply pbind_apply tk_cancel_def pool_cancelled del: tw_set_simps)

lemma cancel_all_pooled:
  "\<lbrakk>tw_locked w; t \<in> set ts; ta_pool (tw_tasks w t)\<rbrakk> \<Longrightarrow> fst (tk_cancel_all ts w) = Inl Deadlock"
proof (induction ts arbitrary: w)
  case (Cons u ts)
  let ?w = "tw_set u (\<lambda>x. x\<lparr>ta_cancelled := True\<rparr>) w"
  show ?case
  proof (cases "ta_pool (tw_tasks w u)")
    case True
    then show ?thesis using Cons.prems(1) by (simp add: pthen_apply pbind_apply tk_cancel_def tp_remove_def tp_locked_def)
  next
    case False
    then have t: "t \<in> set ts" using Cons.prems(2,3) by auto
    have p: "ta_pool (tw_tasks ?w t)" using Cons.prems(3) by auto
    have "tk_cancel u w = (Inr (), ?w)" using False by (simp add: pthen_apply pbind_apply tk_cancel_def)
    then show ?thesis using Cons.IH [of ?w, OF _ t p] Cons.prems(1) by (simp add: pthen_apply)
  qed
qed simp

lemma fold_cancel:
  "tw_pending (fold (\<lambda>t. tw_set t (\<lambda>x. x\<lparr>ta_cancelled := True\<rparr>)) ts w) = tw_pending w \<and>
   tw_suspended (fold (\<lambda>t. tw_set t (\<lambda>x. x\<lparr>ta_cancelled := True\<rparr>)) ts w) = tw_suspended w \<and>
   tw_future (fold (\<lambda>t. tw_set t (\<lambda>x. x\<lparr>ta_cancelled := True\<rparr>)) ts w) = tw_future w \<and>
   ta_pool (tw_tasks (fold (\<lambda>t. tw_set t (\<lambda>x. x\<lparr>ta_cancelled := True\<rparr>)) ts w) u) = ta_pool (tw_tasks w u)"
  by (induction ts arbitrary: w) auto

lemma stop_keeps:
  assumes ok: "tw_ok X w" and safe: "stop_safe w"
  shows "\<exists>w'. tp_stop w = (Inr (), w') \<and> tw_ok X w'"
proof -
  let ?v = "w\<lparr>tw_locked := True, tw_quit := True, tw_pending := []\<rparr>"
  let ?w = "fold (\<lambda>t. tw_set t (\<lambda>x. x\<lparr>ta_cancelled := True\<rparr>)) (map snd (tw_running w)) ?v"
  have lock: "\<not> tw_locked w" "tw_pending w = []" using ok safe by (simp_all add: tw_ok_def stop_safe_def)
  have "tk_cancel_all (map snd (tw_running w)) ?v = (Inr (), ?w)"
    using safe by (intro cancel_all_unpooled) (simp add: stop_safe_def)
  then have run: "tp_stop w = (Inr (), ?w\<lparr>tw_locked := False\<rparr>)"
    using lock by (simp add: tp_stop_def tp_locked_def pthen_apply pbind_apply)
  have "tw_ok X (?w\<lparr>tw_locked := False\<rparr>)"
    using ok lock(2) fold_cancel [of "map snd (tw_running w)" ?v] by (simp add: tw_ok_def tw_places_def)
  with run show ?thesis by blast
qed

lemma unsafe_stop_deadlocks:
  assumes ok: "tw_ok X w" and unsafe: "\<not> stop_safe w"
  shows "fst (tp_stop w) = Inl Deadlock"
proof (cases "tw_pending w")
  case (Cons t ts)
  with ok have "\<not> tw_locked w" "ta_pool (tw_tasks w t)" by (auto simp: tw_ok_def tw_places_def)
  with Cons show ?thesis
    by (simp add: tp_stop_def tp_locked_def pthen_apply pbind_apply tk_cancel_def tp_remove_def)
next
  case Nil
  let ?v = "w\<lparr>tw_locked := True, tw_quit := True, tw_pending := []\<rparr>"
  obtain t where "t \<in> set (map snd (tw_running w))" "ta_pool (tw_tasks w t)" using unsafe Nil by (auto simp: stop_safe_def)
  then have "fst (tk_cancel_all (map snd (tw_running w)) ?v) = Inl Deadlock" by (intro cancel_all_pooled [of _ t]) simp_all
  then show ?thesis using ok Nil
    by (cases "tk_cancel_all (map snd (tw_running w)) ?v") (auto simp: tp_stop_def tp_locked_def pthen_apply pbind_apply tw_ok_def)
qed

subsection \<open>Worker threads step by step\<close>

text \<open>
  A worker runs its task without the mutex. Its turn is cut where it takes and gives back the mutex, and at every call
  that the task makes, so that other threads come in between. \<open>WIdle\<close>: at the top of the loop. \<open>WLooking\<close>: no future work
  was due. \<open>WTaken\<close>: it has a task, which is in no container. \<open>WEntered\<close>: the task is among the running ones.
  \<open>WRunning\<close>: the calls the task still makes, and what it ends with. \<open>WRan\<close>: the exit state is known. What a task
  does is decided when it starts, by \<open>body\<close>; the group of a thread is read by no step.
\<close>

datatype phase = WIdle | WLooking | WTaken nat | WEntered nat | WRunning nat "task_call list" "exn + exit_state" | WRan nat exit_state

fun worker_step :: "(nat \<Rightarrow> 'u \<Rightarrow> bool) \<Rightarrow> 'u task_body \<Rightarrow> nat \<Rightarrow> nat \<Rightarrow> phase \<Rightarrow> ('u tworld, phase) prog" where
  "worker_step ir body thread now WIdle = pbind (pget tw_quit) (\<lambda>q. if q then pret WIdle else
     pbind (tp_locked (tp_getNextFutureWork now)) (\<lambda>m. pret (case m of Some t \<Rightarrow> WTaken t | None \<Rightarrow> WLooking)))"
| "worker_step ir body thread now WLooking = pbind tp_pop (\<lambda>m. pret (case m of Some t \<Rightarrow> WTaken t | None \<Rightarrow> WIdle))"
| "worker_step ir body thread now (WTaken t) =
     pthen (tp_locked (pmodify (\<lambda>w. w\<lparr>tw_running := omap_insert thread t (tw_running w)\<rparr>))) (pret (WEntered t))"
| "worker_step ir body thread now (WEntered t) = pbind (pget (\<lambda>w. ta_cancelled (tw_tasks w t))) (\<lambda>c.
     if c then pret (WRunning t [] (Inr CANCELLED))
     else pthen (pmodify (\<lambda>w. w\<lparr>tw_thread_group := ta_group (tw_tasks w t)\<rparr>))
         (pbind (pget (\<lambda>w. body t (tw_user w))) (\<lambda>(calls, u, res).
          pthen (pmodify (\<lambda>w. w\<lparr>tw_user := u\<rparr>)) (pret (WRunning t calls res)))))"
| "worker_step ir body thread now (WRunning t (c # calls) res) = pthen (task_call_run ir c) (pret (WRunning t calls res))"
| "worker_step ir body thread now (WRunning t [] res) = (if res = Inl Deadlock then pthrow Deadlock else
     pthen (tp_locked (pmodify (\<lambda>w. w\<lparr>tw_running := omap_erase thread (tw_running w)\<rparr>))) (pret (WRan t (thunk_status res))))"
| "worker_step ir body thread now (WRan t status) = (case status of DEFER \<Rightarrow> pthen (tp_suspend t) (pret WIdle) | _ \<Rightarrow> pret WIdle)"

fun worker_steps :: "nat \<Rightarrow> (nat \<Rightarrow> 'u \<Rightarrow> bool) \<Rightarrow> 'u task_body \<Rightarrow> nat \<Rightarrow> nat \<Rightarrow> phase \<Rightarrow> ('u tworld, phase) prog" where
  "worker_steps 0 ir body thread now p = pret p"
| "worker_steps (Suc n) ir body thread now p = pbind (worker_step ir body thread now p) (worker_steps n ir body thread now)"

text \<open>A turn that nothing interrupts is what the code of the loop does from top to bottom.\<close>

lemma steps_add:
  "worker_steps (m + n) ir body thread now p = pbind (worker_steps m ir body thread now p) (worker_steps n ir body thread now)"
  by (induction m arbitrary: p) (simp_all add: fun_eq_iff pbind_apply split: prod.splits sum.splits)

lemma running_steps:
  "task_calls_run ir cs w = (Inr (), w') \<Longrightarrow>
    worker_steps (length cs) ir body thread now (WRunning t cs res) w = (Inr (WRunning t [] res), w')"
  by (induction cs arbitrary: w) (auto simp: pthen_apply pbind_apply split: prod.splits sum.splits)

text \<open>The only thing that a call can fail with is a deadlock.\<close>

definition locks_only :: "('u tworld, 'a) prog \<Rightarrow> bool" where
  "locks_only m \<longleftrightarrow> (\<forall>w e w'. m w = (Inl e, w') \<longrightarrow> e = Deadlock)"

lemma locks_onlyD: "locks_only m \<Longrightarrow> m w = (Inl e, w') \<Longrightarrow> e = Deadlock"
  unfolding locks_only_def by blast

lemma locked_held: "tw_locked w \<Longrightarrow> tp_locked m w = (Inl Deadlock, w)"
  by (simp add: tp_locked_def)

lemma locks_only_locked:
  assumes "locks_only m"
  shows "locks_only (tp_locked m)"
  unfolding locks_only_def
proof (intro allI impI)
  fix w e w'
  assume run: "tp_locked m w = (Inl e, w')"
  obtain r v where m: "m (w\<lparr>tw_locked := True\<rparr>) = (r, v)" by fastforce
  show "e = Deadlock"
  proof (cases r)
    case (Inl f)
    then have "f = Deadlock" using locks_onlyD [OF assms] m by blast
    then show ?thesis using run m Inl by (auto simp: tp_locked_def split: if_splits)
  next
    case (Inr x)
    then show ?thesis using run m by (auto simp: tp_locked_def split: if_splits)
  qed
qed

lemma locks_only_intros:
  "locks_only (pret x)" "locks_only (Pair (Inr x))" "locks_only (pget f)" "locks_only (pmodify g)"
  "locks_only m \<Longrightarrow> (\<And>x. locks_only (h x)) \<Longrightarrow> locks_only (pbind m h)"
  "locks_only m' \<Longrightarrow> locks_only n' \<Longrightarrow> locks_only (pthen m' n')"
  "(p \<Longrightarrow> locks_only a) \<Longrightarrow> (\<not> p \<Longrightarrow> locks_only b) \<Longrightarrow> locks_only (if p then a else b)"
  by (auto simp: locks_only_def pbind_apply pthen_apply split: prod.splits sum.splits)

lemma locks_only_cancel: "locks_only (tk_cancel t)" "locks_only (tk_cancel_all ts)"
proof -
  show c: "locks_only (tk_cancel t)" for t unfolding tk_cancel_def tp_remove_def by (intro locks_only_intros locks_only_locked)
  show "locks_only (tk_cancel_all ts)" by (induction ts) (auto intro: locks_only_intros c)
qed

lemma locks_only_call:
  fixes ir :: "nat \<Rightarrow> 'a \<Rightarrow> bool"
  shows "locks_only (task_call_run ir c)"
proof -
  have sub: "locks_only (tp_submit ir t)" for t unfolding tp_submit_def tp_suspend_def by (intro locks_only_intros locks_only_locked)
  have "locks_only (tk_submit ir t)" "locks_only (tk_submit_delay now t d :: ('a tworld, bool) prog)"
    "locks_only (tk_makeRunnable t :: ('a tworld, unit) prog)" for t now d
    unfolding tk_submit_def tk_submit_pool_def tk_submit_delay_def tk_submit_pool_delay_def tk_makeRunnable_def tp_makeRunnable_def
      tp_after_def split_beta
    by (intro locks_only_intros locks_only_locked sub)+
  moreover have "locks_only (tp_stop :: ('a tworld, unit) prog)" "locks_only (tp_cancelTaskGroup g :: ('a tworld, unit) prog)" for g
    unfolding tp_stop_def tp_cancelTaskGroup_def by (intro locks_only_intros locks_only_locked locks_only_cancel)+
  ultimately show ?thesis by (cases c) (auto intro: locks_only_intros locks_only_cancel)
qed

lemma locks_only_calls: "locks_only (task_calls_run ir cs)"
  by (induction cs) (auto intro: locks_only_intros locks_only_call)

lemma execute_steps:
  assumes run: "tp_execute ir body thread t w = (Inr s, w')"
  shows "\<exists>n. worker_steps n ir body thread now (WTaken t) w = (Inr (WRan t s), w')"
proof -
  let ?w = "w\<lparr>tw_running := omap_insert thread t (tw_running w)\<rparr>"
  have lock: "\<not> tw_locked w" using run by (cases "tw_locked w") (auto simp: tp_execute_def pthen_apply tp_locked_def)
  show ?thesis
  proof (cases "ta_cancelled (tw_tasks w t)")
    case True
    then have "worker_steps (Suc (Suc (Suc 0))) ir body thread now (WTaken t) w = (Inr (WRan t s), w')"
      using run lock by (auto simp: tp_execute_def locked_running pbind_apply pthen_apply pcatch_apply thunk_status_def)
    then show ?thesis by blast
  next
    case False
    obtain cs u res where body: "body t (tw_user w) = (cs, u, res)" by (cases "body t (tw_user w)")
    let ?v = "?w\<lparr>tw_thread_group := ta_group (tw_tasks w t), tw_user := u\<rparr>"
    obtain r v where calls: "task_calls_run ir cs ?v = (r, v)" by fastforce
    have r: "r = Inr ()"
    proof (cases r)
      case (Inl e)
      then have "e = Deadlock" using locks_onlyD [OF locks_only_calls] calls by blast
      then show ?thesis using run lock False body calls Inl
        by (simp add: tp_execute_def tk_runThunk_def locked_running pbind_apply pthen_apply pcatch_apply)
    qed simp
    have res: "res \<noteq> Inl Deadlock" using run lock False body calls r
      by (auto simp: tp_execute_def tk_runThunk_def locked_running pbind_apply pthen_apply pcatch_apply)
    have lock': "\<not> tw_locked v" using run lock False body calls r res
      by (cases res; cases "tw_locked v")
         (simp_all add: tp_execute_def tk_runThunk_def locked_running locked_held pbind_apply pthen_apply pcatch_apply)
    have s: "s = thunk_status res" "w' = v\<lparr>tw_running := omap_erase thread (tw_running v)\<rparr>"
      using run lock lock' False body calls r res
      by (cases res; simp add: tp_execute_def tk_runThunk_def locked_running pbind_apply pthen_apply pcatch_apply thunk_status_def split: if_splits)+
    have "worker_steps (Suc (Suc (length cs + 1))) ir body thread now (WTaken t) w = (Inr (WRan t s), w')"
      using lock lock' False body calls r res
      by (simp add: steps_add locked_running pbind_apply pthen_apply running_steps s del: add_Suc_right)
    then show ?thesis by blast
  qed
qed

lemma turn_is_steps:
  assumes "tp_turn ir body thread now w = (Inr r, w')"
  shows "\<exists>n > 0. worker_steps n ir body thread now WIdle w = (Inr WIdle, w')"
proof (cases "tw_quit w")
  case True
  then show ?thesis using assms by (intro exI [of _ 1]) (simp add: tp_turn_def pbind_apply)
next
  case False
  obtain m v where take: "tp_take now w = (Inr m, v)"
    using assms False by (cases "tp_take now w"; cases "fst (tp_take now w)") (auto simp: tp_turn_def pbind_apply)
  then obtain k where k: "0 < k" "worker_steps k ir body thread now WIdle w = (Inr (case m of Some t \<Rightarrow> WTaken t | None \<Rightarrow> WIdle), v)"
  proof (cases "fst (tp_locked (tp_getNextFutureWork now) w)")
    case (Inr f)
    then show thesis
      using take False that [of 1] that [of "Suc 1"]
      by (cases f; cases "tp_locked (tp_getNextFutureWork now) w") (auto simp: tp_take_def pbind_apply split: sum.splits prod.splits)
  qed (cases "tp_locked (tp_getNextFutureWork now) w"; auto simp: tp_take_def pbind_apply)
  show ?thesis
  proof (cases m)
    case None
    then show ?thesis using k assms take False by (intro exI [of _ k]) (simp add: tp_turn_def pbind_apply)
  next
    case (Some t)
    obtain s u where e: "tp_execute ir body thread t v = (Inr s, u)"
      using assms take False Some
      by (cases "tp_execute ir body thread t v"; cases "fst (tp_execute ir body thread t v)") (auto simp: tp_turn_def pbind_apply)
    obtain n where n: "worker_steps n ir body thread now (WTaken t) v = (Inr (WRan t s), u)" using execute_steps [OF e] by blast
    have "worker_steps (k + (n + 1)) ir body thread now WIdle w = (Inr WIdle, w')"
      using k(2) n assms turn_after_take [OF take [unfolded Some] False e] Some
      by (cases s) (simp_all add: steps_add pbind_apply pthen_apply tp_suspend_def del: add_Suc_right)
    then show ?thesis using k(1) by (intro exI [of _ "k + (n + 1)"]) simp
  qed
qed

subsection \<open>The pool at work\<close>

text \<open>
  The pool with its worker threads, by number: a thread does its next step, or another thread makes a call.
\<close>

record 'u pool_run =
  pr_world :: "'u tworld"
  pr_phases :: "phase list"

datatype sched_event = Step nat nat | Call task_call

definition sched_step :: "(nat \<Rightarrow> 'u \<Rightarrow> bool) \<Rightarrow> 'u task_body \<Rightarrow> sched_event \<Rightarrow> ('u pool_run, unit) prog" where
  "sched_step ir body e = (\<lambda>s. case e of
     Step i now \<Rightarrow>
       if length (pr_phases s) \<le> i then (Inr (), s)
       else (case worker_step ir body i now (pr_phases s ! i) (pr_world s) of
               (Inl x, w) \<Rightarrow> (Inl x, s\<lparr>pr_world := w\<rparr>)
             | (Inr p, w) \<Rightarrow> (Inr (), s\<lparr>pr_world := w, pr_phases := (pr_phases s)[i := p]\<rparr>))
   | Call c \<Rightarrow> (case task_call_run ir c (pr_world s) of (r, w) \<Rightarrow> (r, s\<lparr>pr_world := w\<rparr>)))"

fun sched_run :: "(nat \<Rightarrow> 'u \<Rightarrow> bool) \<Rightarrow> 'u task_body \<Rightarrow> sched_event list \<Rightarrow> ('u pool_run, unit) prog" where
  "sched_run ir body [] = pret ()"
| "sched_run ir body (e # es) = pthen (sched_step ir body e) (sched_run ir body es)"

text \<open>The task that a worker has taken and has not begun to run, or that it is about to put to sleep.\<close>

fun task_held :: "phase \<Rightarrow> nat option" where
  "task_held (WTaken t) = Some t"
| "task_held (WEntered t) = Some t"
| "task_held (WRunning t cs res) = (if res = Inr DEFER then Some t else None)"
| "task_held (WRan t status) = (if status = DEFER then Some t else None)"
| "task_held _ = None"

text \<open>The call that an event makes, and the calls that are in order: nothing submits a task that a worker holds, and
  the pool is stopped only when no task waits to run and no running task is in the pool.\<close>

definition call_made :: "sched_event \<Rightarrow> 'u pool_run \<Rightarrow> task_call option" where
  "call_made e s = (case e of
     Call c \<Rightarrow> Some c
   | Step i now \<Rightarrow> if length (pr_phases s) \<le> i then None
       else (case pr_phases s ! i of WRunning t (c # cs) res \<Rightarrow> Some c | _ \<Rightarrow> None))"

definition call_in_order :: "task_call \<Rightarrow> 'u pool_run \<Rightarrow> bool" where
  "call_in_order c s \<longleftrightarrow> (\<forall>p \<in> set (pr_phases s). case task_held p of None \<Rightarrow> True | Some t \<Rightarrow> t \<notin> call_submits c) \<and>
     (c = CallStop \<longrightarrow> stop_safe (pr_world s))"

fun calls_in_order :: "(nat \<Rightarrow> 'u \<Rightarrow> bool) \<Rightarrow> 'u task_body \<Rightarrow> sched_event list \<Rightarrow> 'u pool_run \<Rightarrow> bool" where
  "calls_in_order ir body [] s \<longleftrightarrow> True"
| "calls_in_order ir body (e # es) s \<longleftrightarrow> (case call_made e s of None \<Rightarrow> True | Some c \<Rightarrow> call_in_order c s) \<and>
     calls_in_order ir body es (snd (sched_step ir body e s))"

text \<open>
  The invariant: the pool is well formed without the tasks that are held, no task is held twice, and no task ends in a
  deadlock of its own.
\<close>

definition all_held :: "phase list \<Rightarrow> nat set" where
  "all_held ps = {t. \<exists>i < length ps. task_held (ps ! i) = Some t}"

definition pool_ok :: "'u pool_run \<Rightarrow> bool" where
  "pool_ok s \<longleftrightarrow> tw_ok (all_held (pr_phases s)) (pr_world s) \<and>
     (\<forall>i < length (pr_phases s). \<forall>j < length (pr_phases s). \<forall>t.
        task_held (pr_phases s ! i) = Some t \<and> task_held (pr_phases s ! j) = Some t \<longrightarrow> i = j) \<and>
     (\<forall>p \<in> set (pr_phases s). \<forall>t cs. p \<noteq> WRunning t cs (Inl Deadlock))"

definition held_by_others :: "nat \<Rightarrow> phase list \<Rightarrow> nat set" where
  "held_by_others i ps = {t. \<exists>j < length ps. j \<noteq> i \<and> task_held (ps ! j) = Some t}"

lemma all_held_update:
  "i < length ps \<Longrightarrow> all_held (ps[i := p]) = held_by_others i ps \<union> set_option (task_held p)"
  by (auto simp: all_held_def held_by_others_def nth_list_update split: if_splits)

lemma all_held_split: "i < length ps \<Longrightarrow> all_held ps = held_by_others i ps \<union> set_option (task_held (ps ! i))"
  using all_held_update [of i ps "ps ! i"] by simp

text \<open>What a step needs from the others: that they hold \<open>Y\<close>.\<close>

lemma worker_step_keeps:
  assumes ok: "tw_ok (Y \<union> set_option (task_held p)) w" and alone: "Y \<inter> set_option (task_held p) = {}"
    and nodead: "\<forall>t cs. p \<noteq> WRunning t cs (Inl Deadlock)" "\<forall>t u. snd (snd (body t u)) \<noteq> Inl Deadlock"
    and call: "\<forall>t c cs res. p = WRunning t (c # cs) res \<longrightarrow>
      call_submits c \<inter> (Y \<union> set_option (task_held p)) = {} \<and> (c = CallStop \<longrightarrow> stop_safe w)"
  shows "\<exists>q w'. worker_step ir body i now p w = (Inr q, w') \<and> tw_ok (Y \<union> set_option (task_held q)) w' \<and>
    Y \<inter> set_option (task_held q) = {} \<and> (\<forall>t cs. q \<noteq> WRunning t cs (Inl Deadlock))"
proof (cases p)
  case WIdle
  show ?thesis
  proof (cases "tw_quit w")
    case False
    obtain m w' where "tp_locked (tp_getNextFutureWork now) w = (Inr m, w')"
      "case m of None \<Rightarrow> tw_ok Y w' | Some t \<Rightarrow> t \<notin> Y \<and> tw_ok (insert t Y) w'"
      using future_work_keeps [of Y w now] ok WIdle by auto
    then show ?thesis using WIdle False by (cases m) (auto simp: pbind_apply)
  qed (use WIdle ok in \<open>simp add: pbind_apply\<close>)
next
  case WLooking
  obtain m w' where "tp_pop w = (Inr m, w')" "case m of None \<Rightarrow> tw_ok Y w' | Some t \<Rightarrow> t \<notin> Y \<and> tw_ok (insert t Y) w'"
    using pop_keeps [of Y w] ok WLooking by auto
  then show ?thesis using WLooking by (cases m) (auto simp: pbind_apply)
next
  case (WTaken t)
  then show ?thesis using ok alone by (simp add: locked_running pthen_apply tw_ok_def tw_places_def)
next
  case (WEntered t)
  obtain cs u res where body: "body t (tw_user w) = (cs, u, res)" by (cases "body t (tw_user w)")
  then have "res \<noteq> Inl Deadlock" using nodead(2) by (metis snd_conv)
  moreover have "tw_ok Y w" "t \<notin> Y" using tw_ok_mono [OF ok] alone WEntered by auto
  ultimately show ?thesis using WEntered ok body
    by (cases "ta_cancelled (tw_tasks w t)") (auto simp: pbind_apply pthen_apply)
next
  case (WRunning t cs res)
  show ?thesis
  proof (cases cs)
    case Nil
    then show ?thesis using WRunning ok alone nodead(1)
      by (cases res) (auto simp: locked_running pthen_apply tw_ok_def tw_places_def thunk_status_def)
  next
    case (Cons c cs')
    have "\<exists>w'. task_call_run ir c w = (Inr (), w') \<and> tw_ok (Y \<union> set_option (task_held p)) w'"
    proof (cases "c = CallStop")
      case True
      then show ?thesis using stop_keeps [OF ok] call WRunning Cons by auto
    next
      case False
      have "call_submits c \<inter> (Y \<union> set_option (task_held p)) = {}" using call WRunning Cons by auto
      from keepsD [OF keeps_call [OF this False] ok, of ir] show ?thesis by auto
    qed
    then show ?thesis using WRunning Cons alone nodead(1) by (auto simp: pthen_apply)
  qed
next
  case (WRan t s)
  then show ?thesis using ok alone keeps_suspend [of t Y w] by (cases s) (auto simp: pthen_apply)
qed

lemma sched_step_keeps:
  assumes ok: "pool_ok s" and nodead: "\<forall>t u. snd (snd (body t u)) \<noteq> Inl Deadlock"
    and call: "case call_made e s of None \<Rightarrow> True | Some c \<Rightarrow> call_in_order c s"
  shows "\<exists>s'. sched_step ir body e s = (Inr (), s') \<and> pool_ok s'"
proof (cases e)
  case (Call c)
  have c: "call_in_order c s" using call Call by (simp add: call_made_def)
  have free: "call_submits c \<inter> all_held (pr_phases s) = {}"
    using c by (fastforce simp: call_in_order_def all_held_def in_set_conv_nth split: option.splits)
  have "\<exists>w'. task_call_run ir c (pr_world s) = (Inr (), w') \<and> tw_ok (all_held (pr_phases s)) w'"
  proof (cases "c = CallStop")
    case True
    then show ?thesis using stop_keeps [of "all_held (pr_phases s)" "pr_world s"] ok c by (simp add: pool_ok_def call_in_order_def)
  next
    case False
    from keepsD [OF keeps_call [OF free False], of "pr_world s" ir] ok show ?thesis by (auto simp: pool_ok_def)
  qed
  then show ?thesis using ok Call by (auto simp: sched_step_def pool_ok_def)
next
  case (Step i now)
  show ?thesis
  proof (cases "length (pr_phases s) \<le> i")
    case True
    then show ?thesis using ok Step by (simp add: sched_step_def)
  next
    case False
    let ?ps = "pr_phases s" let ?p = "pr_phases s ! i" let ?Y = "held_by_others i (pr_phases s)"
    have i: "i < length ?ps" using False by simp
    have alone: "?Y \<inter> set_option (task_held ?p) = {}" using ok i by (auto simp: pool_ok_def held_by_others_def)
    have calls: "\<forall>t c cs res. ?p = WRunning t (c # cs) res \<longrightarrow>
        call_submits c \<inter> (?Y \<union> set_option (task_held ?p)) = {} \<and> (c = CallStop \<longrightarrow> stop_safe (pr_world s))"
    proof (intro allI impI)
      fix t c cs res assume p: "?p = WRunning t (c # cs) res"
      then have c: "call_in_order c s" using call Step False by (simp add: call_made_def)
      then have "call_submits c \<inter> all_held ?ps = {}"
        by (fastforce simp: call_in_order_def all_held_def in_set_conv_nth split: option.splits)
      with c show "call_submits c \<inter> (?Y \<union> set_option (task_held ?p)) = {} \<and> (c = CallStop \<longrightarrow> stop_safe (pr_world s))"
        by (simp add: all_held_split [OF i] call_in_order_def)
    qed
    have world: "tw_ok (?Y \<union> set_option (task_held ?p)) (pr_world s)" "\<forall>t cs. ?p \<noteq> WRunning t cs (Inl Deadlock)"
      using ok i by (auto simp: pool_ok_def all_held_split [OF i])
    obtain q w' where q: "worker_step ir body i now ?p (pr_world s) = (Inr q, w')"
      "tw_ok (?Y \<union> set_option (task_held q)) w'" "?Y \<inter> set_option (task_held q) = {}" "\<forall>t cs. q \<noteq> WRunning t cs (Inl Deadlock)"
      using worker_step_keeps [OF world(1) alone world(2) nodead calls, of ir i now] by blast
    let ?s = "s\<lparr>pr_world := w', pr_phases := ?ps[i := q]\<rparr>"
    have uniq: "j = k" if "j < length ?ps" "k < length ?ps" "task_held (?ps ! j) = Some t" "task_held (?ps ! k) = Some t" for j k t
      using ok that unfolding pool_ok_def by blast
    have other: "t \<in> ?Y" if "j < length ?ps" "j \<noteq> i" "task_held (?ps ! j) = Some t" for j t
      using that unfolding held_by_others_def by blast
    have "j = k" if "j < length ?ps" "k < length ?ps" "task_held (?ps[i := q] ! j) = Some t" "task_held (?ps[i := q] ! k) = Some t" for j k t
    proof -
      have "t \<notin> set_option (task_held q)" if "t \<in> ?Y" using that q(3) by blast
      then show ?thesis
        using that uniq [of j k t] other [of j t] other [of k t] by (cases "j = i"; cases "k = i") simp_all
    qed
    moreover have "\<forall>p \<in> set (?ps[i := q]). \<forall>t cs. p \<noteq> WRunning t cs (Inl Deadlock)"
      using ok q(4) set_update_subset_insert [of ?ps i q] unfolding pool_ok_def by blast
    ultimately have "pool_ok ?s" using q(2) i
      unfolding pool_ok_def pool_run.simps length_list_update by (intro conjI allI impI) (simp_all add: all_held_update)
    then show ?thesis using Step False q(1) by (simp add: sched_step_def)
  qed
qed

subsection \<open>Properties\<close>

text \<open>
  A concrete pool: task 1 is pending, task 2 sleeps, task 3 is due at time 5. WRunning a task adds one to the
  user state; task 1 then sleeps after waking task 2, task 2 completes, task 3 throws.
\<close>

definition demo_world :: "nat tworld" where
  "demo_world = \<lparr>tw_tasks = (\<lambda>t. \<lparr>ta_pool = True, ta_cancelled = False, ta_group = t mod 2, ta_id = t\<rparr>),
     tw_pending = [1], tw_running = [], tw_suspended = [2], tw_future = [(3, 5)], tw_quit = False,
     tw_locked = False, tw_default = True, tw_thread_group = 0, tw_id_counter = 4, tw_user = 0\<rparr>"

definition demo_body :: "nat task_body" where
  "demo_body t n = (if t = 1 then ([CallMakeRunnable 2], n + 1, Inr DEFER)
     else if t = 2 then ([], n + 1, Inr COMPLETE) else ([CallSubmit 3], n + 1, Inl OtherException))"

lemma demo_world_ok: "tw_ok {} demo_world"
  by (simp add: tw_ok_def tw_places_def demo_world_def)

lemma demo_body_ends: "snd (snd (demo_body t u)) \<noteq> Inl Deadlock"
  by (simp add: demo_body_def)

text \<open>Two workers; the second one takes task 3, which is cancelled in the meantime, and the pool is stopped at the end.\<close>

definition demo_schedule :: "sched_event list" where
  "demo_schedule = [Step 0 1, Step 1 6, Step 0 1, Step 0 1, Call (CallCancel 3), Step 1 6, Step 0 1, Step 1 6, Step 0 1,
     Step 1 6, Step 0 1, Step 0 1, Call (CallSubmit 4), Step 1 7, Step 1 7, Step 1 7, Step 0 7, Step 0 7, Step 1 7, Call CallStop]"



text \<open>
  A task that another thread submits while a worker holds it, and that then sleeps, waits to run and sleeps at once: it has
  no pool pointer while it runs, so that the submission is not refused.
\<close>

lemma submitted_while_held_is_twice:
  "let s = snd (sched_run (\<lambda>_ _. True) demo_body ([Step 0 1, Step 0 1, Step 0 1, Call (CallSubmit 1)] @ replicate 4 (Step 0 1))
      \<lparr>pr_world = demo_world, pr_phases = [WIdle]\<rparr>)
   in 1 \<in> set (tw_pending (pr_world s)) \<and> 1 \<in> set (tw_suspended (pr_world s))"
  by code_simp

text \<open>
  The future work due is taken in order of time: cancelled tasks that are due are dropped, the
  earliest task that is due and not cancelled is taken, and nothing is taken only when all that is left is due
  later.
\<close>

lemma future_work_in_order:
  assumes "sorted (map snd (tw_future w))" "tp_getNextFutureWork now w = (Inr m, w')"
  shows "\<exists>ds. (\<forall>d \<in> set ds. ta_cancelled (tw_tasks w (fst d)) \<and> snd d \<le> now) \<and>
    (case m of
       None \<Rightarrow> tw_future w = ds @ tw_future w' \<and> (\<forall>f \<in> set (tw_future w'). now < snd f)
     | Some t \<Rightarrow> \<exists>due. tw_future w = ds @ (t, due) # tw_future w' \<and> due \<le> now \<and>
         \<not> ta_cancelled (tw_tasks w t) \<and> \<not> ta_pool (tw_tasks w' t) \<and> (\<forall>f \<in> set (tw_future w'). due \<le> snd f))"
proof (cases "future_next (\<lambda>t. ta_cancelled (tw_tasks w t)) now (tw_future w)")
  case (Pair r fs)
  show ?thesis
  proof (cases r)
    case None
    with Pair assms have m: "m = None" and fs: "tw_future w' = fs"
      by (auto simp: tp_getNextFutureWork_def)
    from future_next_none [OF Pair [unfolded None]] obtain ds where
      ds: "tw_future w = ds @ fs" "\<forall>d \<in> set ds. ta_cancelled (tw_tasks w (fst d)) \<and> snd d \<le> now"
      "fs = [] \<or> now < snd (hd fs)" by blast
    have "\<forall>f \<in> set fs. now < snd f" using ds assms(1) by (cases fs) (auto simp: sorted_append)
    with ds m fs show ?thesis by auto
  next
    case (Some t)
    with Pair assms have m: "m = Some t" "tw_future w' = fs" "\<not> ta_pool (tw_tasks w' t)"
      by (auto simp: tp_getNextFutureWork_def)
    from future_next_some [OF Pair [unfolded Some]] obtain ds due where
      ds: "tw_future w = ds @ (t, due) # fs" "due \<le> now" "\<not> ta_cancelled (tw_tasks w t)"
      "\<forall>d \<in> set ds. ta_cancelled (tw_tasks w (fst d)) \<and> snd d \<le> now" by blast
    have "\<forall>f \<in> set fs. due \<le> snd f" using ds assms(1) by (auto simp: sorted_append)
    with ds m show ?thesis by auto
  qed
qed

lemma future_work_in_order_example:
  "\<exists>ds. (\<forall>d \<in> set ds. ta_cancelled (tw_tasks demo_world (fst d)) \<and> snd d \<le> 6) \<and>
     (\<exists>due. tw_future demo_world = ds @ (3, due) # [] \<and> due \<le> 6)"
proof -
  have "\<exists>w'. tp_getNextFutureWork 6 demo_world = (Inr (Some 3), w') \<and> tw_future w' = []"
    by (simp add: tp_getNextFutureWork_def demo_world_def tw_set_def)
  then obtain w' where w': "tp_getNextFutureWork 6 demo_world = (Inr (Some 3), w')" "tw_future w' = []"
    by blast
  have "sorted (map snd (tw_future demo_world))" by (simp add: demo_world_def)
  from future_work_in_order [OF this w'(1)] w'(2) show ?thesis by auto
qed

text \<open>
  A task that another thread wakes while it is running, and that then defers, sleeps: the wake-up is
  lost, because a running task has no pool pointer and \<^verbatim>\<open>makeRunnable\<close> then does nothing.
\<close>

lemma wakeup_while_running_is_lost:
  assumes ok: "tw_ok {} w" and run: "\<not> tw_quit w" "tw_pending w = t # ts" "\<not> ta_cancelled (tw_tasks w t)"
    and early: "\<forall>f \<in> set (tw_future w). now < snd f"
    and body: "body t (tw_user w) = ([CallMakeRunnable t], u', Inr DEFER)"
  shows "\<exists>w'. tp_turn ir body thread now w = (Inr (Some (t, DEFER)), w') \<and>
     t \<in> set (tw_suspended w') \<and> tw_pending w' = ts"
proof -
  have fut: "future_next c now (tw_future w) = (None, tw_future w)" for c
    using early by (cases "tw_future w") auto
  have lock: "\<not> tw_locked w" using ok by (simp add: tw_ok_def)
  let ?w = "(tw_set t (\<lambda>x. x\<lparr>ta_pool := False\<rparr>) w)\<lparr>tw_pending := ts\<rparr>"
  have take: "tp_take now w = (Inr (Some t), ?w)"
    using lock fut run(2)
    by (simp add: tp_take_def tp_pop_def tp_locked_def tp_getNextFutureWork_def pbind_apply tw_set_def)
  let ?v = "?w\<lparr>tw_running := omap_insert thread t (tw_running w),
     tw_thread_group := ta_group (tw_tasks w t), tw_user := u'\<rparr>"
  have "tk_runThunk ir body t (?w\<lparr>tw_running := omap_insert thread t (tw_running w)\<rparr>) = (Inr DEFER, ?v)"
    using body by (simp add: tk_runThunk_def pbind_apply pthen_apply tk_makeRunnable_def)
  then have "tp_execute ir body thread t ?w =
      (Inr DEFER, ?v\<lparr>tw_running := omap_erase thread (tw_running ?v)\<rparr>)"
    using lock run(3)
    by (simp add: tp_execute_def locked_running pbind_apply pthen_apply pcatch_apply)
  from turn_after_take [OF take run(1) this] show ?thesis
    by (auto simp: tp_suspend_def pthen_apply)
qed

lemma wakeup_while_running_is_lost_example:
  "\<exists>w'. tp_turn (\<lambda>_ _. True) (\<lambda>t u. ([CallMakeRunnable t], u, Inr DEFER)) 0 1 demo_world = (Inr (Some (1, DEFER)), w') \<and>
     1 \<in> set (tw_suspended w') \<and> tw_pending w' = []"
  by (rule wakeup_while_running_is_lost [OF demo_world_ok]) (simp_all add: demo_world_def)

lemma stop_with_pending_deadlocks_example: "fst (tp_stop demo_world) = Inl Deadlock"
  by (rule unsafe_stop_deadlocks [OF demo_world_ok]) (simp add: demo_world_def stop_safe_def)

lemma cancel_removed:
  assumes ok: "tw_ok X w" and t: "t \<notin> set (tw_pending w)" "t \<notin> set (tw_suspended w)"
  shows "tk_cancel t w = (Inr (), tw_set t (\<lambda>x. x\<lparr>ta_cancelled := True\<rparr>) w)"
  using assms
  by (cases w) (auto simp: tk_cancel_def pthen_apply pbind_apply tp_remove_def tp_locked_def tw_ok_def tw_set_def
      intro!: filter_True)

lemma tw_ok_cancel [simp]: "tw_ok X (tw_set t (\<lambda>x. x\<lparr>ta_cancelled := True\<rparr>) w) = tw_ok X w"
  by (auto simp: tw_ok_def tw_places_def)

lemma cancel_all_removed:
  assumes "tw_ok X w" "set ts \<inter> (set (tw_pending w) \<union> set (tw_suspended w)) = {}"
  shows "\<exists>w'. tk_cancel_all ts w = (Inr (), w') \<and> tw_pending w' = tw_pending w \<and>
     tw_suspended w' = tw_suspended w \<and> tw_future w' = tw_future w \<and> tw_running w' = tw_running w \<and>
     (\<forall>t. ta_cancelled (tw_tasks w' t) = (ta_cancelled (tw_tasks w t) \<or> t \<in> set ts))"
  using assms
proof (induction ts arbitrary: w)
  case (Cons t ts)
  let ?w = "tw_set t (\<lambda>x. x\<lparr>ta_cancelled := True\<rparr>) w"
  have "tw_ok X ?w" "set ts \<inter> (set (tw_pending ?w) \<union> set (tw_suspended ?w)) = {}" using Cons.prems by auto
  from Cons.IH [OF this] Cons.prems show ?case by (auto simp: cancel_removed pthen_apply)
qed simp

text \<open>
  Cancelling a task group cancels exactly the tasks of the group that wait to run or sleep, and takes
  them out of the pool; the other tasks keep their places. Tasks of the group that are scheduled for a later
  time, or running, are neither cancelled nor removed.
\<close>

lemma cancelTaskGroup_spec:
  assumes ok: "tw_ok X w"
  shows "\<exists>w'. tp_cancelTaskGroup g w = (Inr (), w') \<and>
     tw_pending w' = filter (\<lambda>t. ta_group (tw_tasks w t) \<noteq> g) (tw_pending w) \<and>
     tw_suspended w' = filter (\<lambda>t. ta_group (tw_tasks w t) \<noteq> g) (tw_suspended w) \<and>
     tw_future w' = tw_future w \<and> tw_running w' = tw_running w \<and>
     (\<forall>t. ta_cancelled (tw_tasks w' t) = (ta_cancelled (tw_tasks w t) \<or>
        (ta_group (tw_tasks w t) = g \<and> t \<in> set (tw_pending w) \<union> set (tw_suspended w))))"
proof -
  let ?p = "\<lambda>t. ta_group (tw_tasks w t) = g"
  let ?ts = "filter ?p (tw_pending w) @ filter ?p (tw_suspended w)"
  let ?w = "w\<lparr>tw_pending := filter (\<lambda>t. \<not> ?p t) (tw_pending w), tw_suspended := filter (\<lambda>t. \<not> ?p t) (tw_suspended w)\<rparr>"
  have "\<not> tw_locked w" using ok by (simp add: tw_ok_def)
  then have run: "tp_cancelTaskGroup g w = tk_cancel_all ?ts ?w"
    by (cases w) (simp add: tp_cancelTaskGroup_def tp_locked_def pbind_apply pthen_apply)
  have "tw_ok X ?w"
    using ok by (auto simp: tw_ok_def tw_places_def sorted_wrt_filter)
  moreover have "set ?ts \<inter> (set (tw_pending ?w) \<union> set (tw_suspended ?w)) = {}" by auto
  ultimately show ?thesis
    using run cancel_all_removed [of X ?w ?ts] by auto
qed

lemma cancelTaskGroup_spec_example:
  "\<exists>w'. tp_cancelTaskGroup 1 demo_world = (Inr (), w') \<and> tw_pending w' = [] \<and> tw_suspended w' = [2] \<and>
     tw_future w' = [(3, 5)] \<and> \<not> ta_cancelled (tw_tasks w' 3)"
proof -
  from cancelTaskGroup_spec [OF demo_world_ok, of 1] obtain w' where
    "tp_cancelTaskGroup 1 demo_world = (Inr (), w')"
    "tw_pending w' = filter (\<lambda>t. ta_group (tw_tasks demo_world t) \<noteq> 1) (tw_pending demo_world)"
    "tw_suspended w' = filter (\<lambda>t. ta_group (tw_tasks demo_world t) \<noteq> 1) (tw_suspended demo_world)"
    "tw_future w' = tw_future demo_world"
    "\<forall>t. ta_cancelled (tw_tasks w' t) = (ta_cancelled (tw_tasks demo_world t) \<or>
       (ta_group (tw_tasks demo_world t) = 1 \<and> t \<in> set (tw_pending demo_world) \<union> set (tw_suspended demo_world)))"
    by blast
  then show ?thesis by (simp add: demo_world_def)
qed

text \<open>
  Without a default pool, \<^verbatim>\<open>submit()\<close> on a task that is in no pool answers true and does nothing: the task
  will never run, and the branch that counts the failure and answers false is only reached for a task that
  is in a pool already.
\<close>

lemma submit_without_default_pool:
  assumes "\<not> tw_default w"
  shows "tk_submit ir t w = (Inr (\<not> ta_pool (tw_tasks w t)), w)"
  using assms by (simp add: tk_submit_def pbind_apply)

end
