(* ===== verification/Workers.thy ===== *)
theory Workers
  imports Tasks
begin

text \<open>
  The three kinds of task the server is built from: \<^verbatim>\<open>threading/src/cpp/lib/StateMachineTask.hpp\<close> (a table of
  state functions), \<^verbatim>\<open>mt-core/tasks-base/src/cpp/TWorkerTask.hpp\<close> (a queue served one entry at a time) and
  \<^verbatim>\<open>TNonBlockingWorkerTask.hpp\<close> (a queue served up to \<open>N\<close> entries at a time). What the subclasses do (the state
  functions, \<^verbatim>\<open>process\<close>) is a parameter, as it is in the templates.
\<close>

subsection \<open>\<^verbatim>\<open>StateMachineTask\<close>\<close>

text \<open>The member pointer \<^verbatim>\<open>state\<close> is an index into \<^verbatim>\<open>entrypoints\<close>, or null.\<close>

record 'u smt =
  sm_state :: "nat option"
  sm_runnable :: bool
  sm_user :: 'u

type_synonym 'u entry_point = "('u, int \<times> exit_state) prog"

definition sm_new :: "'u \<Rightarrow> 'u smt" where
  "sm_new u = \<lparr>sm_state = Some 0, sm_runnable = True, sm_user = u\<rparr>"

definition sm_isRunnable :: "'u smt \<Rightarrow> bool" where
  "sm_isRunnable s = sm_runnable s"

text \<open>
  The loop of \<^verbatim>\<open>run\<close>, at most \<open>n\<close> rounds: \<open>None\<close> means that it has not returned by then. Calling through
  the null pointer and an index outside of the table are undefined.
\<close>

fun sm_run :: "nat \<Rightarrow> 'u entry_point list \<Rightarrow> 'u smt \<Rightarrow> ((exn + exit_state) \<times> 'u smt) option" where
  "sm_run 0 entrypoints s = None"
| "sm_run (Suc n) entrypoints s =
     (case sm_state s of
        None \<Rightarrow> Some (Inl Undefined, s)
      | Some k \<Rightarrow>
          (case (entrypoints ! k) (sm_user s) of
             (Inl e, u) \<Rightarrow> Some (Inl e, s\<lparr>sm_user := u\<rparr>)
           | (Inr (first, status), u) \<Rightarrow>
               if first < 0 \<or> int (length entrypoints) \<le> first then Some (Inl Undefined, s\<lparr>sm_user := u\<rparr>)
               else let s' = s\<lparr>sm_user := u, sm_state := (if first \<noteq> 0 then Some (nat first) else None)\<rparr>
               in (case status of
                     COMPLETE \<Rightarrow> if sm_state s' = None then Some (Inr COMPLETE, s') else sm_run n entrypoints s'
                   | DEFER \<Rightarrow> Some (Inr DEFER, s')
                   | CANCELLED \<Rightarrow> Some (Inr CANCELLED, s')
                   | ERRORED \<Rightarrow> Some (Inr ERRORED, s'))))"

subsection \<open>\<^verbatim>\<open>TWorkerTask\<close>\<close>

datatype processed = P_COMPLETE | P_NOT_COMPLETE | P_NOT_STARTED

datatype workload_state = START | RESUME

text \<open>A queue entry: the workload, and the number of the waitable that \<^verbatim>\<open>post\<close> made for it.\<close>

type_synonym 'w entry = "'w \<times> nat"

type_synonym ('w, 'u) processor = "'w \<Rightarrow> workload_state \<Rightarrow> ('u, processed) prog"

text \<open>
  Besides the members: how many waitables were made, which were woken, how often \<^verbatim>\<open>makeRunnable\<close> was called,
  and the answered calls of \<^verbatim>\<open>process\<close>.
\<close>

record ('w, 'u) bworker =
  bw_queue :: "'w entry list"
  bw_current :: "'w entry option"
  bw_last :: processed
  bw_waitables :: nat
  bw_woken :: "nat list"
  bw_pokes :: nat
  bw_calls :: "('w entry \<times> workload_state \<times> processed) list"
  bw_user :: 'u

definition bw_post :: "'w \<Rightarrow> ('w, 'u) bworker \<Rightarrow> nat \<times> ('w, 'u) bworker" where
  "bw_post w s = (bw_waitables s, s\<lparr>bw_queue := bw_queue s @ [(w, bw_waitables s)],
     bw_waitables := bw_waitables s + 1, bw_pokes := bw_pokes s + 1\<rparr>)"

definition bw_isRunnable :: "('w, 'u) bworker \<Rightarrow> bool" where
  "bw_isRunnable s = (bw_queue s \<noteq> [])"

definition bw_hasCurrentTask :: "('w, 'u) bworker \<Rightarrow> bool" where
  "bw_hasCurrentTask s = (bw_current s \<noteq> None)"

text \<open>
  The entry to work on in this round, and the state to pass. For an entry kept from an earlier run it is always
  \<^verbatim>\<open>RESUME\<close>: the code sets \<^verbatim>\<open>START\<close> when \<^verbatim>\<open>last_result\<close> is \<^verbatim>\<open>NOT_STARTED\<close> and overwrites it on the next line.
\<close>

definition bw_next :: "('w, 'u) bworker \<Rightarrow> ('w entry \<times> workload_state \<times> ('w, 'u) bworker) option" where
  "bw_next s =
     (case bw_current s of
        None \<Rightarrow> (case bw_queue s of
            [] \<Rightarrow> None
          | e # q \<Rightarrow> Some (e, START, s\<lparr>bw_current := Some e, bw_queue := q\<rparr>))
      | Some e \<Rightarrow> Some (e, RESUME, s))"

definition bw_load :: "('w, 'u) bworker \<Rightarrow> nat" where
  "bw_load s = length (bw_queue s) + (case bw_current s of None \<Rightarrow> 0 | Some _ \<Rightarrow> 1)"

function bw_run :: "('w, 'u) processor \<Rightarrow> ('w, 'u) bworker \<Rightarrow> (exn + exit_state) \<times> ('w, 'u) bworker" where
  "bw_run process s =
     (case bw_next s of
        None \<Rightarrow> (Inr DEFER, s)
      | Some (e, st, s1) \<Rightarrow>
          (case process (fst e) st (bw_user s1) of
             (Inl ex, u) \<Rightarrow> (Inl ex, s1\<lparr>bw_user := u\<rparr>)
           | (Inr r, u) \<Rightarrow>
               let s2 = s1\<lparr>bw_user := u, bw_last := r, bw_calls := bw_calls s1 @ [(e, st, r)]\<rparr>
               in if r = P_COMPLETE
                  then bw_run process (s2\<lparr>bw_woken := bw_woken s2 @ [snd e], bw_current := None\<rparr>)
                  else (Inr DEFER, s2)))"
  by pat_completeness auto

termination bw_run
  by (relation "measure (\<lambda>(_, s). bw_load s)")
     (auto simp: bw_next_def bw_load_def split: option.splits list.splits)

declare bw_run.simps [simp del]

subsection \<open>\<^verbatim>\<open>TNonBlockingWorkerTask\<close>\<close>

text \<open>
  \<^verbatim>\<open>current\<close> is an \<^verbatim>\<open>unordered_set\<close>: here the list of its elements in iteration order. How an insertion changes
  that order is the library's business: it is the parameter \<open>ins\<close>.
\<close>

record ('w, 'u) nworker =
  nw_queue :: "'w entry list"
  nw_current :: "'w entry list"
  nw_not_started :: "'w entry set"
  nw_waitables :: nat
  nw_woken :: "nat list"
  nw_pokes :: nat
  nw_calls :: "('w entry \<times> workload_state \<times> processed) list"
  nw_user :: 'u

definition nw_new :: "'u \<Rightarrow> ('w, 'u) nworker" where
  "nw_new u = \<lparr>nw_queue = [], nw_current = [], nw_not_started = {}, nw_waitables = 0, nw_woken = [], nw_pokes = 0,
     nw_calls = [], nw_user = u\<rparr>"

definition nw_post :: "'w \<Rightarrow> ('w, 'u) nworker \<Rightarrow> nat \<times> ('w, 'u) nworker" where
  "nw_post w s = (nw_waitables s, s\<lparr>nw_queue := nw_queue s @ [(w, nw_waitables s)],
     nw_waitables := nw_waitables s + 1, nw_pokes := nw_pokes s + 1\<rparr>)"

definition nw_isRunnable :: "('w, 'u) nworker \<Rightarrow> bool" where
  "nw_isRunnable s = (nw_queue s \<noteq> [])"

text \<open>Moving entries from the queue to \<^verbatim>\<open>current\<close>.\<close>

fun nw_fill_loop :: "('w entry \<Rightarrow> 'w entry list \<Rightarrow> 'w entry list) \<Rightarrow> nat \<Rightarrow> 'w entry list \<Rightarrow> 'w entry list \<Rightarrow>
    'w entry set \<Rightarrow> 'w entry list \<times> 'w entry list \<times> 'w entry set" where
  "nw_fill_loop ins N [] cur ns = ([], cur, ns)"
| "nw_fill_loop ins N (e # q) cur ns =
     (if length cur < N then nw_fill_loop ins N q (if e \<in> set cur then cur else ins e cur) (insert e ns)
      else (e # q, cur, ns))"

definition nw_fill :: "('w entry \<Rightarrow> 'w entry list \<Rightarrow> 'w entry list) \<Rightarrow> nat \<Rightarrow> ('w, 'u) nworker \<Rightarrow> ('w, 'u) nworker" where
  "nw_fill ins N s =
     (case nw_fill_loop ins N (nw_queue s) (nw_current s) (nw_not_started s) of
        (q, cur, ns) \<Rightarrow> s\<lparr>nw_queue := q, nw_current := cur, nw_not_started := ns\<rparr>)"

text \<open>What the loop records for an answer: a wake-up on \<^verbatim>\<open>COMPLETE\<close>, and that the entry was started.\<close>

definition nw_answer :: "'w entry \<Rightarrow> workload_state \<Rightarrow> processed \<Rightarrow> ('w, 'u) nworker \<Rightarrow> ('w, 'u) nworker" where
  "nw_answer e st r s = s\<lparr>nw_calls := nw_calls s @ [(e, st, r)],
     nw_woken := (if r = P_COMPLETE then nw_woken s @ [snd e] else nw_woken s),
     nw_not_started := (if r = P_NOT_STARTED then nw_not_started s else nw_not_started s - {e})\<rparr>"

lemma nw_answer_sel [simp]:
  "nw_queue (nw_answer e st r s) = nw_queue s" "nw_current (nw_answer e st r s) = nw_current s"
  "nw_waitables (nw_answer e st r s) = nw_waitables s" "nw_user (nw_answer e st r s) = nw_user s"
  "nw_pokes (nw_answer e st r s) = nw_pokes s" "nw_calls (nw_answer e st r s) = nw_calls s @ [(e, st, r)]"
  "nw_woken (nw_answer e st r s) = (if r = P_COMPLETE then nw_woken s @ [snd e] else nw_woken s)"
  "nw_not_started (nw_answer e st r s) = (if r = P_NOT_STARTED then nw_not_started s else nw_not_started s - {e})"
  by (simp_all add: nw_answer_def)

definition nw_start_state :: "('w, 'u) nworker \<Rightarrow> 'w entry \<Rightarrow> workload_state" where
  "nw_start_state s e = (if e \<in> nw_not_started s then START else RESUME)"

text \<open>One pass over \<^verbatim>\<open>current\<close>: \<open>seen\<close> are the entries the iterator has passed and kept.\<close>

fun nw_pass :: "('w, 'u) processor \<Rightarrow> 'w entry list \<Rightarrow> 'w entry list \<Rightarrow> ('w, 'u) nworker \<Rightarrow>
    (exn + unit) \<times> ('w, 'u) nworker" where
  "nw_pass process seen [] s = (Inr (), s\<lparr>nw_current := seen\<rparr>)"
| "nw_pass process seen (e # es) s =
     (case process (fst e) (nw_start_state s e) (nw_user s) of
        (Inl ex, u) \<Rightarrow> (Inl ex, s\<lparr>nw_user := u, nw_current := seen @ e # es\<rparr>)
      | (Inr r, u) \<Rightarrow> nw_pass process (if r = P_COMPLETE then seen else seen @ [e]) es
          (nw_answer e (nw_start_state s e) r (s\<lparr>nw_user := u\<rparr>)))"

lemma nw_pass_queue: "nw_queue (snd (nw_pass process seen es s)) = nw_queue s"
  by (induction process seen es s rule: nw_pass.induct) (auto split: prod.split sum.split)

lemma nw_fill_loop_queue:
  "length (fst (nw_fill_loop ins N q cur ns)) \<le> length q"
  "length cur < N \<Longrightarrow> q \<noteq> [] \<Longrightarrow> length (fst (nw_fill_loop ins N q cur ns)) < length q"
proof -
  show le: "length (fst (nw_fill_loop ins N q cur ns)) \<le> length q" for q cur ns
    by (induction ins N q cur ns rule: nw_fill_loop.induct) auto
  assume "length cur < N" "q \<noteq> []"
  then show "length (fst (nw_fill_loop ins N q cur ns)) < length q"
    using le by (cases q) (auto simp: le_imp_less_Suc)
qed

lemma nw_fill_queue:
  "length (nw_queue (nw_fill ins N s)) \<le> length (nw_queue s)"
  "length (nw_current s) < N \<Longrightarrow> nw_queue s \<noteq> [] \<Longrightarrow> length (nw_queue (nw_fill ins N s)) < length (nw_queue s)"
  using nw_fill_loop_queue [where q = "nw_queue s" and cur = "nw_current s" and ns = "nw_not_started s" and ins = ins and N = N]
  by (auto simp: nw_fill_def split: prod.splits)

function nw_run :: "('w entry \<Rightarrow> 'w entry list \<Rightarrow> 'w entry list) \<Rightarrow> nat \<Rightarrow> ('w, 'u) processor \<Rightarrow> ('w, 'u) nworker \<Rightarrow>
    (exn + exit_state) \<times> ('w, 'u) nworker" where
  "nw_run ins N process s =
     (let s1 = nw_fill ins N s
      in case nw_pass process [] (nw_current s1) s1 of
           (Inl ex, s2) \<Rightarrow> (Inl ex, s2)
         | (Inr _, s2) \<Rightarrow>
             if nw_queue s2 = [] \<or> N \<le> length (nw_current s2) then (Inr DEFER, s2)
             else nw_run ins N process s2)"
  by pat_completeness auto

termination nw_run
proof (relation "measure (\<lambda>(_, N, _, s). 2 * length (nw_queue s) + (if N \<le> length (nw_current s) then 1 else 0))",
    goal_cases)
  case (2 ins N process s s1 r s2 u)
  then have q: "nw_queue s2 = nw_queue s1"
    using nw_pass_queue [of process "[]" "nw_current s1" s1] by (metis snd_conv)
  have le: "length (nw_queue s2) \<le> length (nw_queue s)" and N: "\<not> N \<le> length (nw_current s2)" "nw_queue s2 \<noteq> []"
    using 2 q nw_fill_queue(1) [where ins = ins and N = N and s = s] by simp_all
  have "length (nw_queue s2) < length (nw_queue s)" if "length (nw_current s) < N"
    using nw_fill_queue(2) [OF that, where ins = ins] N(2) q 2(1) le by (cases "nw_queue s") auto
  then show ?case
    using le N(1) by (cases "length (nw_current s) < N") auto
qed simp

declare nw_run.simps [simp del]

subsection \<open>Invariant of the non-blocking worker\<close>

text \<open>
  \<open>declined log e\<close>: every answer for \<open>e\<close> so far was \<^verbatim>\<open>NOT_STARTED\<close>. A log is right when each call was passed
  \<^verbatim>\<open>START\<close> exactly as long as that was so.
\<close>

definition declined :: "('w entry \<times> workload_state \<times> processed) list \<Rightarrow> 'w entry \<Rightarrow> bool" where
  "declined log e \<longleftrightarrow> (\<forall>c \<in> set log. fst c = e \<longrightarrow> snd (snd c) = P_NOT_STARTED)"

definition log_ok :: "('w entry \<times> workload_state \<times> processed) list \<Rightarrow> bool" where
  "log_ok log \<longleftrightarrow> (\<forall>i < length log. fst (snd (log ! i)) = START \<longleftrightarrow> declined (take i log) (fst (log ! i)))"

definition completed :: "('w entry \<times> workload_state \<times> processed) list \<Rightarrow> nat list" where
  "completed log = map (\<lambda>c. snd (fst c)) (filter (\<lambda>c. snd (snd c) = P_COMPLETE) log)"

lemma declined_snoc [simp]:
  "declined (log @ [(e', st, r)]) e \<longleftrightarrow> declined log e \<and> (e' = e \<longrightarrow> r = P_NOT_STARTED)"
  by (auto simp: declined_def)

lemma log_ok_snoc [simp]:
  "log_ok (log @ [(e, st, r)]) \<longleftrightarrow> log_ok log \<and> (st = START \<longleftrightarrow> declined log e)"
  by (auto simp: log_ok_def nth_append less_Suc_eq)

lemma completed_snoc [simp]:
  "completed (log @ [(e, st, r)]) = completed log @ (if r = P_COMPLETE then [snd e] else [])"
  by (simp add: completed_def)

text \<open>The worker with \<open>cur\<close> in the place of \<^verbatim>\<open>current\<close> (a pass has its own view of it).\<close>

definition nw_ids :: "'w entry list \<Rightarrow> ('w, 'u) nworker \<Rightarrow> nat list" where
  "nw_ids cur s = nw_woken s @ map snd cur @ map snd (nw_queue s)"

definition nw_ok :: "nat \<Rightarrow> 'w entry list \<Rightarrow> ('w, 'u) nworker \<Rightarrow> bool" where
  "nw_ok N cur s \<longleftrightarrow> mset (nw_ids cur s) = mset [0..<nw_waitables s] \<and> length cur \<le> N \<and>
     nw_not_started s \<subseteq> set cur \<and> (\<forall>e \<in> set cur. e \<in> nw_not_started s \<longleftrightarrow> declined (nw_calls s) e) \<and>
     log_ok (nw_calls s) \<and> nw_woken s = completed (nw_calls s) \<and>
     (\<forall>c \<in> set (nw_calls s). fst c \<notin> set (nw_queue s) \<and> snd (fst c) < nw_waitables s)"

lemma nw_ok_distinct: "nw_ok N cur s \<Longrightarrow> distinct (nw_ids cur s)"
  unfolding nw_ok_def by (metis distinct_upt mset_eq_imp_distinct_iff)

lemma nw_ok_new: "nw_ok N [] (nw_new u)"
  by (simp add: nw_ok_def nw_ids_def nw_new_def log_ok_def completed_def)

lemma nw_ok_user [simp]: "nw_ok N cur (s\<lparr>nw_user := u\<rparr>) = nw_ok N cur s"
  "nw_ok N cur (s\<lparr>nw_current := c\<rparr>) = nw_ok N cur s"
  by (simp_all add: nw_ok_def nw_ids_def)

lemma nw_ok_post:
  assumes "nw_ok N cur s"
  shows "nw_ok N cur (snd (nw_post w s))"
proof -
  have "mset (nw_ids cur (snd (nw_post w s))) = add_mset (nw_waitables s) (mset (nw_ids cur s))"
    by (simp add: nw_ids_def nw_post_def)
  with assms show ?thesis
    by (auto simp: nw_ok_def nw_post_def)
qed

lemma nw_ok_answer:
  assumes ok: "nw_ok N (seen @ e # es) s"
  shows "nw_ok N ((if r = P_COMPLETE then seen else seen @ [e]) @ es) (nw_answer e (nw_start_state s e) r s)"
proof -
  let ?cur = "(if r = P_COMPLETE then seen else seen @ [e]) @ es"
  let ?s = "nw_answer e (nw_start_state s e) r s"
  have dist: "distinct (nw_ids (seen @ e # es) s)" using ok by (rule nw_ok_distinct)
  then have e: "e \<notin> set (nw_queue s)" "e \<notin> set seen" "e \<notin> set es" by (auto simp: nw_ids_def)
  have "mset (nw_ids ?cur ?s) = mset (nw_ids (seen @ e # es) s)" by (simp add: nw_ids_def)
  moreover have "snd e < nw_waitables s"
  proof -
    have "set (nw_ids (seen @ e # es) s) = {0..<nw_waitables s}"
      using ok unfolding nw_ok_def by (metis set_mset_mset set_upt)
    moreover have "snd e \<in> set (nw_ids (seen @ e # es) s)" by (simp add: nw_ids_def)
    ultimately show ?thesis by simp
  qed
  moreover have "nw_start_state s e = START \<longleftrightarrow> declined (nw_calls s) e"
    using ok by (simp add: nw_start_state_def nw_ok_def)
  moreover have "\<forall>x \<in> set ?cur. x \<in> nw_not_started ?s \<longleftrightarrow> declined (nw_calls ?s) x"
    using ok e by (cases r) (auto simp: nw_ok_def)
  moreover have "nw_not_started ?s \<subseteq> set ?cur"
    using ok by (cases r) (auto simp: nw_ok_def)
  ultimately show ?thesis
    using ok e unfolding nw_ok_def by auto
qed

lemma nw_ok_pass:
  assumes "nw_ok N (seen @ es) s" "nw_pass process seen es s = (r, s')"
  shows "nw_ok N (nw_current s') s'"
  using assms
proof (induction es arbitrary: seen s)
  case (Cons e es)
  show ?case
  proof (cases "process (fst e) (nw_start_state s e) (nw_user s)")
    case (Pair m u)
    show ?thesis
    proof (cases m)
      case (Inl ex)
      with Pair Cons.prems show ?thesis by auto
    next
      case (Inr a)
      have st: "nw_start_state s e = nw_start_state (s\<lparr>nw_user := u\<rparr>) e" by (simp add: nw_start_state_def)
      have "nw_ok N (seen @ e # es) (s\<lparr>nw_user := u\<rparr>)" using Cons.prems(1) by simp
      from Cons.IH [OF nw_ok_answer [OF this, of a, folded st]] Cons.prems(2) Pair Inr show ?thesis by simp
    qed
  qed
qed auto

lemma nw_ok_fill_loop:
  assumes "hash_insert ins" "nw_ok N cur (s\<lparr>nw_queue := q, nw_not_started := ns\<rparr>)"
    "nw_fill_loop ins N q cur ns = (q', cur', ns')"
  shows "nw_ok N cur' (s\<lparr>nw_queue := q', nw_not_started := ns'\<rparr>) \<and> (q' = [] \<or> length cur' = N)"
  using assms
proof (induction ins N q cur ns rule: nw_fill_loop.induct)
  case (2 ins N e q cur ns)
  show ?case
  proof (cases "length cur < N")
    case True
    have dist: "distinct (nw_ids cur (s\<lparr>nw_queue := e # q, nw_not_started := ns\<rparr>))"
      using 2(3) by (rule nw_ok_distinct)
    then have e: "e \<notin> set cur" "e \<notin> set q" by (auto simp: nw_ids_def)
    have ms: "mset (ins e cur) = add_mset e (mset cur)" using 2(2) unfolding hash_insert_def by blast
    then have len: "length (ins e cur) = Suc (length cur)" and set: "set (ins e cur) = insert e (set cur)"
      by (metis size_add_mset size_mset, metis set_mset_add_mset_insert set_mset_mset)
    have "nw_ok N (ins e cur) (s\<lparr>nw_queue := q, nw_not_started := insert e ns\<rparr>)"
      using 2(3) True e by (auto simp: nw_ok_def nw_ids_def ms len set declined_def)
    with 2(1) [OF True 2(2)] 2(4) True e show ?thesis by simp
  next
    case False
    with 2 show ?thesis by (auto simp: nw_ok_def)
  qed
qed auto

lemma nw_ok_fill:
  assumes "hash_insert ins" "nw_ok N (nw_current s) s"
  shows "nw_ok N (nw_current (nw_fill ins N s)) (nw_fill ins N s)"
proof (cases "nw_fill_loop ins N (nw_queue s) (nw_current s) (nw_not_started s)")
  case (fields q cur ns)
  have "nw_ok N cur (s\<lparr>nw_queue := q, nw_not_started := ns\<rparr>)"
    using nw_ok_fill_loop [OF assms(1) _ fields, of s] assms(2) by simp
  then show ?thesis
    by (auto simp: nw_fill_def fields nw_ok_def nw_ids_def)
qed

lemma nw_ok_run:
  assumes "hash_insert ins" "nw_ok N (nw_current s) s"
  shows "nw_ok N (nw_current (snd (nw_run ins N process s))) (snd (nw_run ins N process s)) \<and>
    (\<forall>st. fst (nw_run ins N process s) = Inr st \<longrightarrow> st = DEFER \<and>
       (nw_queue (snd (nw_run ins N process s)) = [] \<or> length (nw_current (snd (nw_run ins N process s))) = N))"
  using assms
proof (induction ins N process s rule: nw_run.induct)
  case (1 ins N process s)
  let ?s = "nw_fill ins N s"
  obtain r s2 where pass: "nw_pass process [] (nw_current ?s) ?s = (r, s2)"
    by (cases "nw_pass process [] (nw_current ?s) ?s")
  have ok2: "nw_ok N (nw_current s2) s2"
    using nw_ok_pass [OF _ pass, of N] nw_ok_fill [OF 1(2,3)] by simp
  then have "length (nw_current s2) \<le> N" by (simp add: nw_ok_def)
  with pass ok2 1 show ?case
    by (cases r) (auto simp: nw_run.simps [of ins N process s] Let_def)
qed

datatype 'w nw_op = Post 'w | Run

fun nw_ops :: "('w entry \<Rightarrow> 'w entry list \<Rightarrow> 'w entry list) \<Rightarrow> nat \<Rightarrow> ('w, 'u) processor \<Rightarrow> 'w nw_op list \<Rightarrow>
    ('w, 'u) nworker \<Rightarrow> ('w, 'u) nworker" where
  "nw_ops ins N process [] s = s"
| "nw_ops ins N process (Post w # ops) s = nw_ops ins N process ops (snd (nw_post w s))"
| "nw_ops ins N process (Run # ops) s = nw_ops ins N process ops (snd (nw_run ins N process s))"

lemma nw_post_current [simp]: "nw_current (snd (nw_post w s)) = nw_current s"
  by (simp add: nw_post_def)

lemma nw_ok_ops:
  "hash_insert ins \<Longrightarrow> nw_ok N (nw_current s) s \<Longrightarrow>
     nw_ok N (nw_current (nw_ops ins N process ops s)) (nw_ops ins N process ops s)"
proof (induction ins N process ops s rule: nw_ops.induct)
  case (2 ins N process w ops s)
  then show ?case using nw_ok_post [of N "nw_current s" s w] by simp
next
  case (3 ins N process ops s)
  then show ?case using nw_ok_run [of ins N s process] by simp
qed simp

subsection \<open>Properties\<close>

text \<open>
  C21. The non-blocking worker loses and repeats nothing: after any sequence of posts and runs, whatever
  \<^verbatim>\<open>process\<close> answers or throws and in whatever order the set iterates, every posted entry is in exactly one of
  three places (woken, in progress, queued); at most \<open>N\<close> are in progress; the entries woken are those for which
  \<^verbatim>\<open>process\<close> answered \<^verbatim>\<open>COMPLETE\<close>, once each, in that order; and \<^verbatim>\<open>process\<close> was told \<^verbatim>\<open>START\<close> exactly as long as
  all it had answered for the entry was \<^verbatim>\<open>NOT_STARTED\<close>. A further run that returns leaves no entry queued
  unless \<open>N\<close> are in progress.
\<close>

theorem nonblocking_worker_serves:
  assumes "hash_insert ins" "s = nw_ops ins N process ops (nw_new u)"
  shows "mset (nw_woken s @ map snd (nw_current s) @ map snd (nw_queue s)) = mset [0..<nw_waitables s] \<and>
    length (nw_current s) \<le> N \<and> nw_woken s = completed (nw_calls s) \<and> log_ok (nw_calls s) \<and>
    (case nw_run ins N process s of
       (Inl ex, s') \<Rightarrow> True
     | (Inr st, s') \<Rightarrow> st = DEFER \<and> (nw_queue s' = [] \<or> length (nw_current s') = N))"
proof -
  have "nw_current (nw_new u :: ('a, 'b) nworker) = []" by (simp add: nw_new_def)
  then have "nw_ok N (nw_current s) s"
    using nw_ok_ops [OF assms(1), of N "nw_new u" process ops] assms(2) nw_ok_new [of N u] by simp
  with nw_ok_run [OF assms(1) this, of process] show ?thesis
    by (auto simp: nw_ok_def nw_ids_def split: prod.split sum.split)
qed

definition demo_process :: "(nat, nat) processor" where
  "demo_process w st n = (Inr (if st = START \<and> n = 0 then P_NOT_STARTED else if st = START \<and> w = 7 then P_NOT_COMPLETE
     else P_COMPLETE), n + 1)"

lemma hash_insert_Cons: "hash_insert (#)"
  by (simp add: hash_insert_def)

theorem nonblocking_worker_serves_witness:
  "completed (nw_calls (nw_ops (#) 2 demo_process [Post 7, Post 8, Post 9, Run, Run] (nw_new 0))) = [1, 0, 2]"
proof -
  let ?s = "nw_ops (#) 2 demo_process [Post 7, Post 8, Post 9, Run, Run] (nw_new 0)"
  have "nw_woken ?s = [1, 0, 2]" by code_simp
  moreover have "nw_woken ?s = completed (nw_calls ?s)"
    using nonblocking_worker_serves [OF hash_insert_Cons refl, where N = 2 and process = demo_process and
      ops = "[Post 7, Post 8, Post 9, Run, Run]" and u = 0] by (elim conjE)
  ultimately show ?thesis by simp
qed

text \<open>
  The table of a state machine is forward when every state function answers an index of the table, and goes on
  (\<^verbatim>\<open>COMPLETE\<close>) only to the null state or to a later state.
\<close>

definition sm_forward :: "'u entry_point list \<Rightarrow> bool" where
  "sm_forward entrypoints \<longleftrightarrow> (\<forall>k < length entrypoints. \<forall>u first status u'.
     (entrypoints ! k) u = (Inr (first, status), u') \<longrightarrow> 0 \<le> first \<and> first < int (length entrypoints) \<and>
       (status = COMPLETE \<longrightarrow> first = 0 \<or> int k < first))"

definition sm_valid :: "'u entry_point list \<Rightarrow> 'u smt \<Rightarrow> bool" where
  "sm_valid entrypoints s \<longleftrightarrow> (case sm_state s of None \<Rightarrow> True | Some k \<Rightarrow> k < length entrypoints)"

lemma sm_run_step:
  assumes "sm_state s = Some k" "(entrypoints ! k) (sm_user s) = (Inr (first, status), u)"
    "0 \<le> first" "first < int (length entrypoints)"
  shows "sm_run (Suc n) entrypoints s =
    (let s' = s\<lparr>sm_user := u, sm_state := (if first \<noteq> 0 then Some (nat first) else None)\<rparr>
     in if status = COMPLETE \<and> first \<noteq> 0 then sm_run n entrypoints s' else Some (Inr status, s'))"
  using assms by (cases status) (simp_all add: Let_def)

text \<open>
  C34. A forward state machine always returns from \<^verbatim>\<open>run\<close>, after at most as many calls as the table has
  states. When it returns \<^verbatim>\<open>COMPLETE\<close> it is in the null state; in every case it is in the null state or in a
  state of the table, so that a run that deferred to a state is followed by a run that calls that state; and it
  throws nothing that its state functions did not throw.
\<close>

theorem state_machine_returns:
  assumes "sm_forward entrypoints" "sm_state s = Some k" "k < length entrypoints" "length entrypoints - k \<le> n"
  shows "\<exists>r s'. sm_run n entrypoints s = Some (r, s') \<and> sm_valid entrypoints s' \<and>
    (case r of Inl e \<Rightarrow> (\<exists>j u u'. j < length entrypoints \<and> (entrypoints ! j) u = (Inl e, u'))
     | Inr status \<Rightarrow> (status = COMPLETE \<longrightarrow> sm_state s' = None))"
  using assms
proof (induction n arbitrary: s k)
  case (Suc n)
  obtain m u where call: "(entrypoints ! k) (sm_user s) = (m, u)" by (cases "(entrypoints ! k) (sm_user s)")
  show ?case
  proof (cases m)
    case (Inl e)
    then show ?thesis using Suc.prems(2,3) call by (auto simp: sm_valid_def)
  next
    case (Inr a)
    obtain first status where a: "a = (first, status)" by (cases a)
    have f: "0 \<le> first" "first < int (length entrypoints)" "status = COMPLETE \<Longrightarrow> first = 0 \<or> int k < first"
      using Suc.prems(1,3) call Inr a unfolding sm_forward_def by blast+
    let ?s = "s\<lparr>sm_user := u, sm_state := (if first \<noteq> 0 then Some (nat first) else None)\<rparr>"
    note step = sm_run_step [OF Suc.prems(2) call [unfolded Inr a] f(1,2), of n]
    show ?thesis
    proof (cases "status = COMPLETE \<and> first \<noteq> 0")
      case True
      then have "sm_state ?s = Some (nat first)" "nat first < length entrypoints" "length entrypoints - nat first \<le> n"
        using f Suc.prems(4) by auto
      from Suc.IH [OF Suc.prems(1) this] True step show ?thesis by (simp add: Let_def)
    next
      case False
      then show ?thesis using step f by (auto simp: Let_def sm_valid_def)
    qed
  qed
qed simp

definition demo_entries :: "nat entry_point list" where
  "demo_entries = [\<lambda>n. (Inr (1, COMPLETE), n + 1), \<lambda>n. (Inr (2, DEFER), n + 1), \<lambda>n. (Inr (0, COMPLETE), n + 1)]"

lemma demo_entries_forward: "sm_forward demo_entries"
  by (auto simp: sm_forward_def demo_entries_def less_Suc_eq nth_Cons' split: if_splits)

theorem state_machine_returns_witness:
  "\<exists>r s'. sm_run 3 demo_entries (sm_new 0) = Some (r, s') \<and> sm_valid demo_entries s'"
proof -
  have "sm_state (sm_new (0::nat)) = Some 0" "0 < length demo_entries" "length demo_entries - 0 \<le> 3"
    by (simp_all add: sm_new_def demo_entries_def)
  from state_machine_returns [OF demo_entries_forward this] show ?thesis by blast
qed

text \<open>
  In the one-at-a-time worker, a workload for which \<^verbatim>\<open>process\<close> answered \<^verbatim>\<open>NOT_STARTED\<close> is resumed, not
  started: the next call of \<^verbatim>\<open>process\<close> for it gets \<^verbatim>\<open>RESUME\<close>.
\<close>

lemma not_started_is_resumed:
  assumes "bw_current s = None" "bw_queue s = e # q" "process (fst e) START (bw_user s) = (Inr P_NOT_STARTED, u)"
    and "process (fst e) RESUME u = (Inr r, u')" "r \<noteq> P_COMPLETE"
  shows "bw_calls (snd (bw_run process (snd (bw_run process s)))) =
    bw_calls s @ [(e, START, P_NOT_STARTED), (e, RESUME, r)]"
  using assms by (simp add: bw_run.simps bw_next_def Let_def)

lemma not_started_is_resumed_example:
  "\<exists>s :: (nat, nat) bworker. bw_calls (snd (bw_run (\<lambda>w st n. (Inr (if st = START then P_NOT_STARTED else P_NOT_COMPLETE), n))
     (snd (bw_run (\<lambda>w st n. (Inr (if st = START then P_NOT_STARTED else P_NOT_COMPLETE), n)) s)))) =
     [((5, 0), START, P_NOT_STARTED), ((5, 0), RESUME, P_NOT_COMPLETE)]"
proof -
  let ?s = "\<lparr>bw_queue = [(5, 0)], bw_current = None, bw_last = P_COMPLETE, bw_waitables = 1, bw_woken = [],
    bw_pokes = 1, bw_calls = [], bw_user = 0\<rparr> :: (nat, nat) bworker"
  have "bw_calls (snd (bw_run (\<lambda>w st n. (Inr (if st = START then P_NOT_STARTED else P_NOT_COMPLETE), n))
     (snd (bw_run (\<lambda>w st n. (Inr (if st = START then P_NOT_STARTED else P_NOT_COMPLETE), n)) ?s)))) =
     bw_calls ?s @ [((5, 0), START, P_NOT_STARTED), ((5, 0), RESUME, P_NOT_COMPLETE)]"
    by (rule not_started_is_resumed) auto
  then show ?thesis by auto
qed

end
