(* ===== verification/Endpoint.thy ===== *)
theory Endpoint
  imports RingBuffer Framing Notifications
begin

text \<open>
  \<^verbatim>\<open>basic_comms/src/cpp/EndpointBase.cpp\<close> and \<^verbatim>\<open>Endpoint.cpp\<close>: one connection. Two rings hold the bytes on
  their way in and out, a reader takes messages from the one and a writer puts queued messages into the other.
  The reader and the writer are an interface, here the parameters \<open>checkForMessage\<close> and \<open>checkForSpace\<close> over a
  state of their own; the agent protocol of \<^verbatim>\<open>Framing\<close> provides it. The socket is \<^verbatim>\<open>boost::asio\<close>: requests to
  it are recorded, its completions are calls of \<^verbatim>\<open>complete_reading\<close> and \<^verbatim>\<open>complete_sending\<close>.
\<close>

subsection \<open>State\<close>

text \<open>\<^verbatim>\<open>EndpointState\<close>: a set of flags in an \<^verbatim>\<open>int\<close>.\<close>

definition RUNNING_ENDPOINT :: nat where "RUNNING_ENDPOINT = 1"
definition CLOSED_ENDPOINT :: nat where "CLOSED_ENDPOINT = 2"
definition EOF_ENDPOINT :: nat where "EOF_ENDPOINT = 4"
definition ERRORED_ENDPOINT :: nat where "ERRORED_ENDPOINT = 8"

definition BUFFER_SIZE_LIMIT :: nat where "BUFFER_SIZE_LIMIT = 50"

datatype ep_error = EcOk | EcEof | EcAborted | EcOther int

text \<open>What the endpoint did to the world: handlers called, and requests to the socket.\<close>

datatype ep_effect =
    OnStart
  | OnEof
  | OnError ep_error
  | OnProtoError string
  | AsyncRead nat
  | AsyncWrite "byte list"
  | SocketClose
  | AsyncAccept
  | WsClose
  | AsyncHandshake
  | TlsShutdown
  | TcpShutdown

record ('m, 'p) endpoint =
  ep_state :: nat
  ep_sendBuffer :: ring
  ep_readBuffer :: ring
  ep_read_needed :: u64
  ep_asio_sending :: bool
  ep_asio_reading :: bool
  ep_onStart :: bool
  ep_onEof :: bool
  ep_onError :: bool
  ep_onProtoError :: bool
  ep_txq :: "'m list"
  ep_proto :: 'p
  ep_log :: "ep_effect list"

type_synonym 'p reader_if = "byte list list \<Rightarrow> ('p, nat \<times> nat) prog"
type_synonym ('m, 'p) writer_if =
  "byte list list \<Rightarrow> 'm list \<Rightarrow> 'p \<Rightarrow> (exn + nat \<times> nat) \<times> 'm list \<times> byte list list \<times> 'p"

definition ep_new :: "byte list \<Rightarrow> byte list \<Rightarrow> 'p \<Rightarrow> ('m, 'p) endpoint" where
  "ep_new send_mem read_mem p = \<lparr>ep_state = 0, ep_sendBuffer = rb_new send_mem, ep_readBuffer = rb_new read_mem,
     ep_read_needed = 0, ep_asio_sending = False, ep_asio_reading = False, ep_onStart = False, ep_onEof = False,
     ep_onError = False, ep_onProtoError = False, ep_txq = [], ep_proto = p, ep_log = []\<rparr>"

definition ep_record :: "ep_effect \<Rightarrow> (('m, 'p) endpoint, unit) prog" where
  "ep_record x = pmodify (\<lambda>s. s\<lparr>ep_log := ep_log s @ [x]\<rparr>)"

definition ep_flag :: "nat \<Rightarrow> (('m, 'p) endpoint, unit) prog" where
  "ep_flag f = pmodify (\<lambda>s. s\<lparr>ep_state := ep_state s OR f\<rparr>)"

definition on_read_ring :: "(ring, 'a) prog \<Rightarrow> (('m, 'p) endpoint, 'a) prog" where
  "on_read_ring m = (\<lambda>s. case m (ep_readBuffer s) of (r, rb) \<Rightarrow> (r, s\<lparr>ep_readBuffer := rb\<rparr>))"

definition on_send_ring :: "(ring, 'a) prog \<Rightarrow> (('m, 'p) endpoint, 'a) prog" where
  "on_send_ring m = (\<lambda>s. case m (ep_sendBuffer s) of (r, rb) \<Rightarrow> (r, s\<lparr>ep_sendBuffer := rb\<rparr>))"

subsection \<open>Closing\<close>

definition ep_close :: "(('m, 'p) endpoint, unit) prog" where
  "ep_close = pthen (ep_flag CLOSED_ENDPOINT) (ep_record SocketClose)"

definition ep_drop_handlers :: "(('m, 'p) endpoint, unit) prog" where
  "ep_drop_handlers = pmodify (\<lambda>s. s\<lparr>ep_onEof := False, ep_onError := False, ep_onProtoError := False\<rparr>)"

text \<open>The three ways a connection ends: flags, socket, then the handler that was set, once; what it throws is dropped.\<close>

definition ep_finish :: "nat \<Rightarrow> (('m, 'p) endpoint \<Rightarrow> bool) \<Rightarrow> ep_effect \<Rightarrow> (('m, 'p) endpoint, unit) prog" where
  "ep_finish flag handler effect = pbind (pget (\<lambda>s. ep_state s AND flag \<noteq> 0)) (\<lambda>done.
     if done then pret ()
     else pthen (ep_flag flag) (pthen (ep_flag CLOSED_ENDPOINT) (pthen (ep_record SocketClose)
          (pbind (pget handler) (\<lambda>h. pthen ep_drop_handlers (if h then ep_record effect else pret ()))))))"

definition ep_eof :: "(('m, 'p) endpoint, unit) prog" where
  "ep_eof = ep_finish EOF_ENDPOINT ep_onEof OnEof"

definition ep_error_op :: "ep_error \<Rightarrow> (('m, 'p) endpoint, unit) prog" where
  "ep_error_op ec = ep_finish ERRORED_ENDPOINT ep_onError (OnError ec)"

definition ep_proto_error :: "string \<Rightarrow> (('m, 'p) endpoint, unit) prog" where
  "ep_proto_error msg = ep_finish ERRORED_ENDPOINT ep_onProtoError (OnProtoError msg)"

text \<open>\<^verbatim>\<open>catch (std::exception &)\<close>: what it catches, and \<^verbatim>\<open>what()\<close>.\<close>

definition is_std_exception :: "exn \<Rightarrow> bool" where
  "is_std_exception e \<longleftrightarrow> e \<noteq> OtherException \<and> e \<noteq> Deadlock \<and> e \<noteq> Aborted \<and> e \<noteq> Undefined"

definition is_exception :: "exn \<Rightarrow> bool" where
  "is_exception e \<longleftrightarrow> e \<noteq> Deadlock \<and> e \<noteq> Aborted \<and> e \<noteq> Undefined"

fun exn_what :: "exn \<Rightarrow> string" where
  "exn_what (XKarma s) = s"
| "exn_what (XDisconnect s) = s"
| "exn_what (XError s) = s"
| "exn_what (InvalidArgument s) = s"
| "exn_what (OutOfRange s) = s"
| "exn_what (LogicError s) = s"
| "exn_what (RuntimeError s) = s"
| "exn_what StdException = ''std::exception''"
| "exn_what _ = ''unknown protocol error''"

subsection \<open>Sending\<close>

definition ep_create_messages :: "('m, 'p) writer_if \<Rightarrow> (('m, 'p) endpoint, unit) prog" where
  "ep_create_messages checkForSpace = pbind (on_send_ring rb_getSpaceBuffers) (\<lambda>rs s.
     case checkForSpace (gather rs (rb_store (ep_sendBuffer s))) (ep_txq s) (ep_proto s) of (r, txq, bufs, p) \<Rightarrow>
       let s' = s\<lparr>ep_txq := txq, ep_proto := p, ep_sendBuffer := (ep_sendBuffer s)
                   \<lparr>rb_store := scatter rs bufs (rb_store (ep_sendBuffer s))\<rparr>\<rparr>
       in (case r of
             Inl e \<Rightarrow> (Inl e, s')
           | Inr (consumed, needed) \<Rightarrow> on_send_ring (rb_markSpaceUsed (of_nat consumed)) s'))"

definition ep_async_write :: "(('m, 'p) endpoint, unit) prog" where
  "ep_async_write = pbind (on_send_ring rb_getDataBuffers) (\<lambda>rs.
     pbind (pget (\<lambda>s. concat (gather rs (rb_store (ep_sendBuffer s))))) (\<lambda>d. ep_record (AsyncWrite d)))"

definition ep_run_sending :: "('m, 'p) writer_if \<Rightarrow> (('m, 'p) endpoint, unit) prog" where
  "ep_run_sending checkForSpace =
     pbind (pget (\<lambda>s. ep_asio_sending s \<or> ep_state s \<noteq> RUNNING_ENDPOINT)) (\<lambda>exit1.
     if exit1 then pret () else
     pbind (on_send_ring rb_getDataAvailable) (\<lambda>avail.
     pthen (if avail = 0 then ep_create_messages checkForSpace else pret ())
    (pbind (on_send_ring rb_getDataAvailable) (\<lambda>avail2.
     if avail2 = 0 then pret ()
     else pthen (pmodify (\<lambda>s. s\<lparr>ep_asio_sending := True\<rparr>)) ep_async_write))))"

definition ep_complete_sending :: "('m, 'p) writer_if \<Rightarrow> ep_error \<Rightarrow> nat \<Rightarrow> (('m, 'p) endpoint, unit) prog" where
  "ep_complete_sending checkForSpace ec bytes = pcatch
     (pbind (pget (\<lambda>s. RUNNING_ENDPOINT < ep_state s)) (\<lambda>dead.
      if dead then pret ()
      else if ec = EcEof \<or> ec = EcAborted then pthen (ep_flag CLOSED_ENDPOINT) ep_eof
      else if ec \<noteq> EcOk then ep_error_op ec
      else pthen (on_send_ring (rb_markDataUsed (of_nat bytes)))
          (pthen (ep_create_messages checkForSpace)
          (pthen (pmodify (\<lambda>s. s\<lparr>ep_asio_sending := False\<rparr>)) (ep_run_sending checkForSpace)))))
     (\<lambda>e. if is_std_exception e then ep_close else pthrow e)"

text \<open>\<^verbatim>\<open>send\<close>: queued, or the number of messages that must leave first is waited for.\<close>

datatype send_result = Queued | MustWait

definition ep_send :: "'m \<Rightarrow> (('m, 'p) endpoint, send_result) prog" where
  "ep_send m = (\<lambda>s. if length (ep_txq s) < BUFFER_SIZE_LIMIT
     then (Inr Queued, s\<lparr>ep_txq := ep_txq s @ [m]\<rparr>) else (Inr MustWait, s))"

definition ep_IsTXQFull :: "('m, 'p) endpoint \<Rightarrow> bool" where
  "ep_IsTXQFull s \<longleftrightarrow> BUFFER_SIZE_LIMIT \<le> length (ep_txq s)"

definition ep_connected :: "('m, 'p) endpoint \<Rightarrow> bool" where
  "ep_connected s \<longleftrightarrow> ep_state s = RUNNING_ENDPOINT"

subsection \<open>Reading\<close>

definition ep_async_read :: "u64 \<Rightarrow> (('m, 'p) endpoint, unit) prog" where
  "ep_async_read n = pbind (on_read_ring rb_getSpaceBuffers) (\<lambda>rs. ep_record (AsyncRead (unat n)))"

definition ep_run_reading :: "(('m, 'p) endpoint, unit) prog" where
  "ep_run_reading =
     pbind (pget (\<lambda>s. ep_asio_reading s \<or> ep_state s \<noteq> RUNNING_ENDPOINT)) (\<lambda>exit1.
     if exit1 then pret () else
     pbind (pget ep_read_needed) (\<lambda>needed.
     if needed = 0 then pret () else
     pbind (on_read_ring rb_getFreeSpace) (\<lambda>free.
     let read_needed_local = (if free < needed then free else needed) in
     pthen (pmodify (\<lambda>s. s\<lparr>ep_read_needed := 0, ep_asio_reading := True\<rparr>))
           (if read_needed_local = 0 then pret () else ep_async_read read_needed_local))))"

text \<open>The reader's part of \<^verbatim>\<open>complete_reading\<close>: what it throws becomes a protocol error (\<open>None\<close>).\<close>

definition ep_check_message :: "'p reader_if \<Rightarrow> (('m, 'p) endpoint, (nat \<times> nat) option) prog" where
  "ep_check_message checkForMessage = pbind (on_read_ring rb_getDataBuffers) (\<lambda>rs s.
     case checkForMessage (gather rs (rb_store (ep_readBuffer s))) (ep_proto s) of
       (Inr cn, p) \<Rightarrow> (Inr (Some cn), s\<lparr>ep_proto := p\<rparr>)
     | (Inl e, p) \<Rightarrow>
         if is_exception e then pthen (ep_proto_error (exn_what e)) (pret None) (s\<lparr>ep_proto := p\<rparr>)
         else (Inl e, s\<lparr>ep_proto := p\<rparr>))"

definition ep_complete_reading :: "'p reader_if \<Rightarrow> ep_error \<Rightarrow> nat \<Rightarrow> (('m, 'p) endpoint, unit) prog" where
  "ep_complete_reading checkForMessage ec bytes = pcatch
     (pbind (pget (\<lambda>s. RUNNING_ENDPOINT < ep_state s)) (\<lambda>dead.
      if dead then pret ()
      else if ec = EcEof \<or> ec = EcAborted then pthen (ep_flag CLOSED_ENDPOINT) ep_eof
      else if ec \<noteq> EcOk then pthen (ep_flag ERRORED_ENDPOINT) (pthen (ep_error_op ec) ep_close)
      else pthen (on_read_ring (rb_markSpaceUsed (of_nat bytes)))
          (pbind (ep_check_message checkForMessage) (\<lambda>m. case m of
             None \<Rightarrow> pret ()
           | Some (consumed, needed) \<Rightarrow>
               pthen (on_read_ring (rb_markDataUsed (of_nat consumed)))
              (pthen (pmodify (\<lambda>s. s\<lparr>ep_read_needed := of_nat needed, ep_asio_reading := False\<rparr>))
                     ep_run_reading)))))
     (\<lambda>e. if is_std_exception e then ep_close else pthrow e)"

text \<open>
  \<open>remote\<close> is the address of the peer, or what asking the socket for it, or setting the option of the socket, throws,
  as when the peer is gone; \<open>start\<close> is what the start handler ends with. The address is only shown.
\<close>

definition ep_go :: "exn + string \<Rightarrow> exn + unit \<Rightarrow> (('m, 'p) endpoint, unit) prog" where
  "ep_go remote start =
     pbind (plift remote) (\<lambda>remote_id.
     pbind (pget ep_onStart) (\<lambda>h.
     pthen (if h then pthen (pmodify (\<lambda>s. s\<lparr>ep_onStart := False\<rparr>)) (pthen (ep_record OnStart)
              (case start of
                 Inl e \<Rightarrow> pthen (ep_flag ERRORED_ENDPOINT) (pthen (ep_flag CLOSED_ENDPOINT) (ep_record SocketClose))
               | Inr _ \<Rightarrow> pret ()))
            else pret ())
    (pthen (ep_flag RUNNING_ENDPOINT)
    (pthen (pmodify (\<lambda>s. s\<lparr>ep_read_needed := ep_read_needed s + 1\<rparr>)) ep_run_reading))))"

subsection \<open>Events\<close>

text \<open>
  What can happen to an endpoint: \<^verbatim>\<open>go\<close>, a completed read (the socket put the bytes into the space regions) or
  write, a call of \<^verbatim>\<open>run_sending\<close>, \<^verbatim>\<open>run_reading\<close>, \<^verbatim>\<open>send\<close> or \<^verbatim>\<open>close\<close>.
\<close>

datatype 'm ep_event = Go "exn + string" "exn + unit" | ReadDone ep_error "byte list" | WriteDone ep_error nat
  | RunSending | RunReading | Send 'm | Close

definition ep_fill :: "byte list \<Rightarrow> (('m, 'p) endpoint, unit) prog" where
  "ep_fill bs = on_read_ring (pbind rb_getSpaceBuffers (\<lambda>rs.
     pmodify (\<lambda>r. r\<lparr>rb_store := scatter rs (split_over rs bs) (rb_store r)\<rparr>)))"

fun ep_event_run :: "'p reader_if \<Rightarrow> ('m, 'p) writer_if \<Rightarrow> 'm ep_event \<Rightarrow> (('m, 'p) endpoint, unit) prog" where
  "ep_event_run rd wr (Go remote start) = ep_go remote start"
| "ep_event_run rd wr (ReadDone ec bs) = pthen (ep_fill bs) (ep_complete_reading rd ec (length bs))"
| "ep_event_run rd wr (WriteDone ec n) = ep_complete_sending wr ec n"
| "ep_event_run rd wr RunSending = ep_run_sending wr"
| "ep_event_run rd wr RunReading = ep_run_reading"
| "ep_event_run rd wr (Send m) = pthen (ep_send m) (pret ())"
| "ep_event_run rd wr Close = ep_close"

text \<open>Events one after the other; what one of them throws reaches its caller and not the endpoint.\<close>

fun ep_events :: "'p reader_if \<Rightarrow> ('m, 'p) writer_if \<Rightarrow> 'm ep_event list \<Rightarrow> ('m, 'p) endpoint \<Rightarrow> ('m, 'p) endpoint" where
  "ep_events rd wr [] s = s"
| "ep_events rd wr (e # es) s = ep_events rd wr es (snd (ep_event_run rd wr e s))"

fun is_end :: "ep_effect \<Rightarrow> bool" where
  "is_end OnEof = True"
| "is_end (OnError ec) = True"
| "is_end (OnProtoError m) = True"
| "is_end _ = False"

definition ends :: "('m, 'p) endpoint \<Rightarrow> ep_effect list" where
  "ends s = filter is_end (ep_log s)"

subsection \<open>An endpoint ends at most once\<close>

definition ends_once :: "('m, 'p) endpoint \<Rightarrow> bool" where
  "ends_once s \<longleftrightarrow> ends s = [] \<or>
     (length (ends s) = 1 \<and> \<not> ep_onEof s \<and> \<not> ep_onError s \<and> \<not> ep_onProtoError s)"

text \<open>A predicate that looks only at the flags, the log and the handlers.\<close>

definition surface :: "(('m, 'p) endpoint \<Rightarrow> bool) \<Rightarrow> bool" where
  "surface P \<longleftrightarrow> (\<forall>s s'. ep_state s = ep_state s' \<longrightarrow> ep_log s = ep_log s' \<longrightarrow> ep_onEof s = ep_onEof s' \<longrightarrow>
     ep_onError s = ep_onError s' \<longrightarrow> ep_onProtoError s = ep_onProtoError s' \<longrightarrow> P s = P s')"

lemma surfaceD:
  "surface P \<Longrightarrow> ep_state s = ep_state s' \<Longrightarrow> ep_log s = ep_log s' \<Longrightarrow> ep_onEof s = ep_onEof s' \<Longrightarrow>
     ep_onError s = ep_onError s' \<Longrightarrow> ep_onProtoError s = ep_onProtoError s' \<Longrightarrow> P s \<Longrightarrow> P s'"
  unfolding surface_def by blast

lemma surface_rings:
  assumes "surface P"
  shows "preserves P (on_read_ring m)" "preserves P (on_send_ring m')"
proof -
  have "P (snd (on_read_ring m s))" "P (snd (on_send_ring m' s))" if "P s" for s
    by (rule surfaceD [OF assms _ _ _ _ _ that]; simp add: on_read_ring_def on_send_ring_def split_beta)+
  then show "preserves P (on_read_ring m)" "preserves P (on_send_ring m')"
    by (simp_all add: preserves_def)
qed

lemma surface_send:
  assumes "surface P"
  shows "preserves P (ep_send m)" "preserves P (ep_fill bs)"
proof -
  have "P (snd (ep_send m s))" if "P s" for s
    by (rule surfaceD [OF assms _ _ _ _ _ that]) (simp_all add: ep_send_def)
  then show "preserves P (ep_send m)" by (simp add: preserves_def)
  show "preserves P (ep_fill bs)"
    unfolding ep_fill_def by (rule surface_rings(1) [OF assms])
qed

lemma surface_create:
  assumes "surface P"
  shows "preserves P (ep_create_messages wr)"
  unfolding ep_create_messages_def
proof (rule preserves_pbind [OF surface_rings(2) [OF assms]], rule preservesI)
  fix rs s assume P: "P s"
  let ?s = "\<lambda>txq p bufs. s\<lparr>ep_txq := txq, ep_proto := p, ep_sendBuffer := (ep_sendBuffer s)
                   \<lparr>rb_store := scatter rs bufs (rb_store (ep_sendBuffer s))\<rparr>\<rparr>"
  have "P (?s txq p bufs)" for txq p bufs by (rule surfaceD [OF assms _ _ _ _ _ P]) simp_all
  then have "P (?s txq p bufs)" "P (snd (on_send_ring (rb_markSpaceUsed n) (?s txq p bufs)))" for txq p bufs n
    using preservesD [OF surface_rings(2) [OF assms]] by blast+
  then show "P (snd (case wr (gather rs (rb_store (ep_sendBuffer s))) (ep_txq s) (ep_proto s) of (r, txq, bufs, p) \<Rightarrow>
       let s' = ?s txq p bufs
       in (case r of Inl e \<Rightarrow> (Inl e, s')
           | Inr (consumed, needed) \<Rightarrow> on_send_ring (rb_markSpaceUsed (of_nat consumed)) s')))"
    by (auto simp: Let_def split: prod.split sum.split)
qed

lemma preserves_if [inv_intros]: "preserves P m \<Longrightarrow> preserves P n \<Longrightarrow> preserves P (if b then m else n)"
  by simp

text \<open>What a predicate must withstand to be kept by every event.\<close>

definition steady :: "(('m, 'p) endpoint \<Rightarrow> bool) \<Rightarrow> bool" where
  "steady P \<longleftrightarrow> surface P \<and> (\<forall>f. preserves P (ep_flag f)) \<and>
     (\<forall>x. \<not> is_end x \<longrightarrow> preserves P (ep_record x)) \<and>
     preserves P ep_eof \<and> (\<forall>ec. preserves P (ep_error_op ec)) \<and> (\<forall>m. preserves P (ep_proto_error m))"

lemma steady_surface: "steady P \<Longrightarrow> surface P"
  by (simp add: steady_def)

lemma steady_intros:
  assumes "steady P"
  shows "preserves P (ep_flag f)" "preserves P (ep_record SocketClose)" "preserves P (ep_record OnStart)"
    "preserves P (ep_record (AsyncRead n))" "preserves P (ep_record (AsyncWrite d))"
    "preserves P ep_eof" "preserves P (ep_error_op ec)" "preserves P (ep_proto_error msg)"
  using assms by (auto simp: steady_def)

lemma steady_modify:
  assumes "steady P"
  shows "preserves P (pmodify (\<lambda>s. s\<lparr>ep_asio_sending := b\<rparr>))"
    "preserves P (pmodify (\<lambda>s. s\<lparr>ep_read_needed := n, ep_asio_reading := b\<rparr>))"
    "preserves P (pmodify (\<lambda>s. s\<lparr>ep_read_needed := ep_read_needed s + 1\<rparr>))"
    "preserves P (pmodify (\<lambda>s. s\<lparr>ep_onStart := b\<rparr>))"
  by (auto intro!: preserves_pmodify intro: surfaceD [OF steady_surface [OF assms]])

lemma steady_check:
  assumes "steady P"
  shows "preserves P (ep_check_message rd)"
  unfolding ep_check_message_def
proof (rule preserves_pbind [OF surface_rings(1) [OF steady_surface [OF assms]]], rule preservesI)
  fix rs s assume P: "P s"
  have p: "P (s\<lparr>ep_proto := p\<rparr>)" for p
    by (rule surfaceD [OF steady_surface [OF assms] _ _ _ _ _ P]) simp_all
  have "P (snd (pthen (ep_proto_error msg) (pret None) (s\<lparr>ep_proto := p\<rparr>)))" for msg p
    by (rule preservesD [OF preserves_pthen [OF steady_intros(8) [OF assms] preserves_pret] p])
  with p show "P (snd (case rd (gather rs (rb_store (ep_readBuffer s))) (ep_proto s) of
       (Inr cn, p) \<Rightarrow> (Inr (Some cn), s\<lparr>ep_proto := p\<rparr>)
     | (Inl e, p) \<Rightarrow> if is_exception e then pthen (ep_proto_error (exn_what e)) (pret None) (s\<lparr>ep_proto := p\<rparr>)
         else (Inl e, s\<lparr>ep_proto := p\<rparr>)))"
    by (auto split: prod.split sum.split)
qed

lemma steady_event:
  assumes "steady P"
  shows "preserves P (ep_event_run rd wr e)"
proof -
  note rings = surface_rings [OF steady_surface [OF assms]]
  note intros = inv_intros steady_intros [OF assms] steady_modify [OF assms] rings
    surface_send [OF steady_surface [OF assms]] surface_create [OF steady_surface [OF assms]] steady_check [OF assms]
  have close: "preserves P ep_close" unfolding ep_close_def by (intro intros)
  have reading: "preserves P ep_run_reading"
    unfolding ep_run_reading_def ep_async_read_def Let_def by (intro intros)
  have sending: "preserves P (ep_run_sending wr)"
    unfolding ep_run_sending_def ep_async_write_def by (intro intros)
  show ?thesis
  proof (cases e)
    case (Go remote start)
    have "preserves P (case start of
           Inl e \<Rightarrow> pthen (ep_flag ERRORED_ENDPOINT) (pthen (ep_flag CLOSED_ENDPOINT) (ep_record SocketClose))
         | Inr _ \<Rightarrow> pret ())"
      by (cases start) (simp_all only: sum.case, (intro intros)+)
    then show ?thesis unfolding Go ep_event_run.simps ep_go_def by (intro intros reading)
  next
    case (ReadDone ec bs)
    have "preserves P (case m of None \<Rightarrow> pret () | Some (consumed, needed) \<Rightarrow>
               pthen (on_read_ring (rb_markDataUsed (of_nat consumed)))
              (pthen (pmodify (\<lambda>s. s\<lparr>ep_read_needed := of_nat needed, ep_asio_reading := False\<rparr>)) ep_run_reading))" for m
      by (cases m) (simp_all only: option.case prod.case split_beta, (intro intros reading)+)
    then show ?thesis unfolding ReadDone ep_event_run.simps ep_complete_reading_def
      by (intro intros close)
  next
    case (WriteDone ec n)
    then show ?thesis unfolding WriteDone ep_event_run.simps ep_complete_sending_def by (intro intros close sending)
  next
    case (Send m)
    then show ?thesis unfolding Send ep_event_run.simps by (intro intros)
  qed (simp_all add: close reading sending)
qed

lemma steady_events: "steady P \<Longrightarrow> P s \<Longrightarrow> P (ep_events rd wr es s)"
  by (induction es arbitrary: s) (auto intro: preservesD [OF steady_event])

lemma or_nat_ge: "(x::nat) \<le> x OR y"
proof -
  have "int x \<le> int x OR int y" by (rule or_greater_eq) simp
  then show ?thesis by (simp add: of_nat_or_eq [symmetric] del: of_nat_or_eq)
qed

lemma surface_ends: "surface ends_once" "surface (\<lambda>s. RUNNING_ENDPOINT < ep_state s \<and> ends s = k)"
  by (auto simp: surface_def ends_once_def ends_def)

lemma finish_apply:
  "ep_finish flag handler effect s =
     (if ep_state s AND flag \<noteq> 0 then (Inr (), s)
      else (Inr (), let s1 = s\<lparr>ep_state := ep_state s OR flag OR CLOSED_ENDPOINT, ep_log := ep_log s @ [SocketClose]\<rparr>;
                  s2 = s1\<lparr>ep_onEof := False, ep_onError := False, ep_onProtoError := False\<rparr>
              in if handler s1 then s2\<lparr>ep_log := ep_log s2 @ [effect]\<rparr> else s2))"
  by (simp add: ep_finish_def pbind_apply pthen_apply ep_flag_def ep_record_def ep_drop_handlers_def Let_def or.assoc)

lemma ends_once_steady: "steady (ends_once :: ('m, 'p) endpoint \<Rightarrow> bool)"
proof -
  have fin: "preserves ends_once (ep_finish flag handler effect)"
    if "is_end effect" "\<And>s. handler s \<Longrightarrow> ep_onEof s \<or> ep_onError s \<or> ep_onProtoError s"
    for flag effect and handler :: "('m, 'p) endpoint \<Rightarrow> bool"
  proof (rule preservesI)
    fix s :: "('m, 'p) endpoint" assume s: "ends_once s"
    let ?s1 = "s\<lparr>ep_state := ep_state s OR flag OR CLOSED_ENDPOINT, ep_log := ep_log s @ [SocketClose]\<rparr>"
    have "handler ?s1 \<Longrightarrow> ends s = []" using that(2) [of ?s1] s by (auto simp: ends_once_def)
    with s that(1) show "ends_once (snd (ep_finish flag handler effect s))"
      by (auto simp: finish_apply Let_def ends_once_def ends_def)
  qed
  have "preserves (ends_once :: ('m, 'p) endpoint \<Rightarrow> bool) (ep_record x)" if "\<not> is_end x" for x
    using that by (auto simp: preserves_def ep_record_def ends_once_def ends_def)
  moreover have "preserves (ends_once :: ('m, 'p) endpoint \<Rightarrow> bool) (ep_flag f)" for f
    by (simp add: preserves_def ep_flag_def ends_once_def ends_def)
  moreover have "preserves ends_once (ep_eof :: (('m, 'p) endpoint, unit) prog)"
    "preserves ends_once (ep_error_op ec :: (('m, 'p) endpoint, unit) prog)"
    "preserves ends_once (ep_proto_error m :: (('m, 'p) endpoint, unit) prog)" for ec m
    unfolding ep_eof_def ep_error_op_def ep_proto_error_def by (rule fin; simp)+
  ultimately show ?thesis
    using surface_ends(1) unfolding steady_def by blast
qed

text \<open>
  C12. A connection ends at most once for its owner: from a state in which no end was reported yet, whatever
  reads and writes complete in whatever order, with data or with errors, and whatever calls come in between, at
  most one of the handlers \<^verbatim>\<open>onEof\<close>, \<^verbatim>\<open>onError\<close> and \<^verbatim>\<open>onProtoError\<close> is called, and that one only once.
\<close>

theorem endpoint_ends_once:
  assumes "ends s = []"
  shows "length (ends (ep_events rd wr es s)) \<le> 1"
proof -
  have "ends_once s" using assms by (simp add: ends_once_def)
  from steady_events [OF ends_once_steady this, of rd wr es] show ?thesis by (auto simp: ends_once_def)
qed

definition idle_reader :: "unit reader_if" where
  "idle_reader bs u = (Inr (0, 1), u)"

definition idle_writer :: "(nat, unit) writer_if" where
  "idle_writer bs txq u = (Inr (0, 0), txq, bs, u)"

definition demo_endpoint :: "(nat, unit) endpoint" where
  "demo_endpoint = (ep_new [0, 0, 0, 0] [0, 0, 0, 0] ())\<lparr>ep_onStart := True, ep_onEof := True, ep_onError := True,
     ep_onProtoError := True\<rparr>"

lemma demo_endpoint_ends: "ends demo_endpoint = []"
  by (simp add: demo_endpoint_def ends_def ep_new_def)

theorem endpoint_ends_once_witness:
  "length (ends (ep_events idle_reader idle_writer [Go (Inr ''peer'') (Inr ()), ReadDone EcOk [1, 2], WriteDone EcEof 0, ReadDone EcEof []]
     demo_endpoint)) \<le> 1"
  by (rule endpoint_ends_once [OF demo_endpoint_ends])

text \<open>Once the state is more than running, the completions do nothing and the other calls report nothing.\<close>

definition dead :: "ep_effect list \<Rightarrow> ('m, 'p) endpoint \<Rightarrow> bool" where
  "dead k s \<longleftrightarrow> RUNNING_ENDPOINT < ep_state s \<and> ends s = k"

lemma dead_completions:
  "dead k s \<Longrightarrow> ep_complete_reading rd ec n s = (Inr (), s)"
  "dead k s \<Longrightarrow> ep_complete_sending wr ec n s = (Inr (), s)"
  by (simp_all add: ep_complete_reading_def ep_complete_sending_def pcatch_apply pbind_apply dead_def)

lemma dead_calls:
  "dead k s \<Longrightarrow> ep_run_reading s = (Inr (), s)" "dead k s \<Longrightarrow> ep_run_sending wr s = (Inr (), s)"
  by (simp_all add: ep_run_reading_def ep_run_sending_def pbind_apply dead_def)

lemma dead_intros:
  "preserves (dead k) (ep_flag f)" "\<not> is_end x \<Longrightarrow> preserves (dead k) (ep_record x)" "surface (dead k)"
  by (auto simp: preserves_def ep_flag_def ep_record_def dead_def ends_def surface_def
      intro: less_le_trans [OF _ or_nat_ge])

lemma dead_event:
  "preserves (dead k) (ep_event_run rd wr e)"
proof (cases e)
  case (Go remote start)
  have h: "preserves (dead k) (case start of
           Inl e \<Rightarrow> pthen (ep_flag ERRORED_ENDPOINT) (pthen (ep_flag CLOSED_ENDPOINT) (ep_record SocketClose))
         | Inr _ \<Rightarrow> pret ())"
    by (cases start) (simp_all only: sum.case, (intro inv_intros dead_intros; simp)+)
  have m: "preserves (dead k) (pmodify (\<lambda>s. s\<lparr>ep_read_needed := ep_read_needed s + 1\<rparr>))"
    "preserves (dead k) (pmodify (\<lambda>s. s\<lparr>ep_onStart := False\<rparr>))"
    by (auto simp: preserves_def dead_def ends_def)
  have r: "preserves (dead k) ep_run_reading" by (rule preservesI) (simp add: dead_calls)
  show ?thesis unfolding Go ep_event_run.simps ep_go_def
    by (intro inv_intros dead_intros h m r) simp
next
  case (ReadDone ec bs)
  have "preserves (dead k) (ep_complete_reading rd ec (length bs))" by (rule preservesI) (simp add: dead_completions)
  with surface_send(2) [OF dead_intros(3)] show ?thesis
    unfolding ReadDone ep_event_run.simps by (intro preserves_pthen)
next
  case (Send m)
  show ?thesis unfolding Send ep_event_run.simps by (intro inv_intros surface_send dead_intros)
next
  case Close
  show ?thesis unfolding Close ep_event_run.simps ep_close_def by (intro inv_intros dead_intros) simp
qed (simp_all add: preserves_def dead_completions dead_calls)

lemma dead_events: "dead k s \<Longrightarrow> dead k (ep_events rd wr es s)"
  by (induction es arbitrary: s) (auto intro: preservesD [OF dead_event])

text \<open>
  A read that fails is never reported: when a read on a running connection completes with an error other
  than end of file or cancellation, the connection is closed, and neither then nor after any further events is
  any of the three handlers called, so that its owner keeps it for ever. (\<^verbatim>\<open>complete_reading\<close> sets the flag that
  makes \<^verbatim>\<open>error\<close> return at once.)
\<close>

lemma read_error_is_silent:
  assumes "ep_state s = RUNNING_ENDPOINT" "rb_inv (ep_readBuffer s)"
  shows "ends (ep_events rd wr (ReadDone (EcOther n) [] # es) s) = ends s \<and>
    ep_log (snd (ep_event_run rd wr (ReadDone (EcOther n) []) s)) = ep_log s @ [SocketClose]"
proof -
  let ?s = "snd (ep_event_run rd wr (ReadDone (EcOther n) []) s)"
  have fill: "\<exists>rb. ep_fill [] s = (Inr (), s\<lparr>ep_readBuffer := rb\<rparr>)"
  proof -
    obtain rs where "rb_getSpaceBuffers (ep_readBuffer s) = (Inr rs, ep_readBuffer s)"
      using assms(2) by (auto simp: rb_getSpaceBuffers_def rb_locked_def rb_inv_def pbind_apply Let_def)
    then show ?thesis by (auto simp: ep_fill_def on_read_ring_def pbind_apply)
  qed
  then obtain rb where fill: "ep_fill [] s = (Inr (), s\<lparr>ep_readBuffer := rb\<rparr>)" by blast
  have run: "?s = s\<lparr>ep_readBuffer := rb, ep_state := (1 OR 8) OR 2, ep_log := ep_log s @ [SocketClose]\<rparr>"
    using assms(1) fill
    by (simp add: pthen_apply pbind_apply ep_complete_reading_def pcatch_apply ep_flag_def ep_record_def
        ep_error_op_def ep_finish_def ep_close_def RUNNING_ENDPOINT_def ERRORED_ENDPOINT_def CLOSED_ENDPOINT_def)
  then have "dead (ends s) ?s" by (simp add: dead_def RUNNING_ENDPOINT_def ends_def)
  from dead_events [OF this, of rd wr es] run show ?thesis by (simp add: dead_def)
qed

lemma read_error_is_silent_example:
  "ends (ep_events idle_reader idle_writer [ReadDone (EcOther 104) [], RunSending, WriteDone EcEof 0]
     (demo_endpoint\<lparr>ep_state := RUNNING_ENDPOINT, ep_asio_reading := True\<rparr>)) = []"
proof -
  let ?s = "demo_endpoint\<lparr>ep_state := RUNNING_ENDPOINT, ep_asio_reading := True\<rparr>"
  have "rb_inv (ep_readBuffer ?s)"
    using rb_new_inv [of "[0, 0, 0, 0]"] by (simp add: demo_endpoint_def ep_new_def)
  from read_error_is_silent [OF _ this, of idle_reader idle_writer 104 "[RunSending, WriteDone EcEof 0]"]
  show ?thesis by (simp add: demo_endpoint_ends [unfolded ends_def] ends_def)
qed

subsection \<open>Reading a stream\<close>

text \<open>What the ring shows and takes, in the steps in which the endpoint uses it.\<close>

lemma ring_regions:
  assumes "rb_inv r"
  shows "\<exists>rs. rb_getDataBuffers r = (Inr rs, r) \<and>
    concat (gather rs (rb_store r)) = (if length (rb_data r) = rb_capacity r then [] else rb_data r)"
proof -
  have "\<exists>rs. rb_getDataBuffers r = (Inr rs, r)"
    using assms by (auto simp: rb_getDataBuffers_def rb_locked_def rb_inv_def pbind_apply Let_def)
  with rb_peek_data [OF assms] show ?thesis by (auto simp: rb_peek_def pbind_apply)
qed

lemma ring_fill_mark:
  assumes "rb_write bs r = (Inr (), r')" "rb_inv r"
  shows "\<exists>r1. pbind rb_getSpaceBuffers (\<lambda>rs. pmodify (\<lambda>r. r\<lparr>rb_store := scatter rs (split_over rs bs) (rb_store r)\<rparr>)) r
      = (Inr (), r1) \<and> rb_markSpaceUsed (of_nat (length bs)) r1 = (Inr (), r')"
proof -
  obtain rs where "rb_getSpaceBuffers r = (Inr rs, r)"
    using assms(2) by (auto simp: rb_getSpaceBuffers_def rb_locked_def rb_inv_def pbind_apply Let_def)
  with assms(1) show ?thesis by (auto simp: rb_write_def pbind_apply pthen_apply)
qed

lemma ring_space: "rb_inv r \<Longrightarrow> \<exists>rs. rb_getSpaceBuffers r = (Inr rs, r)"
  by (auto simp: rb_getSpaceBuffers_def rb_locked_def rb_inv_def pbind_apply Let_def)

lemma ring_free: "rb_inv r \<Longrightarrow> rb_getFreeSpace r = (Inr (rb_freeSpace r), r)"
  by (simp add: rb_getFreeSpace_def rb_locked_run rb_inv_def rb_lockless_getFreeSpace_def)

lemma of_nat_u64: "n < 2 ^ 64 \<Longrightarrow> unat (of_nat n :: u64) = n"
  by (simp add: unsigned_of_nat take_bit_nat_eq_self)

text \<open>The completion of a read, when the reader takes the data.\<close>

lemma complete_reading_step:
  assumes st: "ep_state s = RUNNING_ENDPOINT" and inv: "rb_inv (ep_readBuffer s)"
    and fit: "length (rb_data (ep_readBuffer s)) + length c < rb_capacity (ep_readBuffer s)"
    and check: "\<And>bs. concat bs = rb_data (ep_readBuffer s) @ c \<Longrightarrow>
      \<exists>p'. rd bs (ep_proto s) = (Inr (n, k), p') \<and> Q p'"
    and n: "n \<le> length (rb_data (ep_readBuffer s) @ c)"
    and k: "0 < k" "length (rb_data (ep_readBuffer s) @ c) - n + k \<le> rb_capacity (ep_readBuffer s)"
  shows "\<exists>s'. ep_event_run rd wr (ReadDone EcOk c) s = (Inr (), s') \<and> ep_state s' = RUNNING_ENDPOINT \<and>
    ep_asio_reading s' \<and> rb_inv (ep_readBuffer s') \<and> rb_capacity (ep_readBuffer s') = rb_capacity (ep_readBuffer s) \<and>
    rb_data (ep_readBuffer s') = drop n (rb_data (ep_readBuffer s) @ c) \<and> Q (ep_proto s') \<and>
    ep_log s' = ep_log s @ [AsyncRead k]"
proof -
  let ?r = "ep_readBuffer s"
  obtain r2 where w: "rb_write c ?r = (Inr (), r2)" and r2: "rb_inv r2" "rb_data r2 = rb_data ?r @ c" "rb_capacity r2 = rb_capacity ?r"
    by (rule rb_write_state [OF inv, of c]) (use fit in auto)
  obtain r1 where fill: "pbind rb_getSpaceBuffers (\<lambda>rs. pmodify (\<lambda>r. r\<lparr>rb_store := scatter rs (split_over rs c) (rb_store r)\<rparr>)) ?r
      = (Inr (), r1)" and mark: "rb_markSpaceUsed (of_nat (length c)) r1 = (Inr (), r2)"
    using ring_fill_mark [OF w inv] by blast
  obtain rs where regs: "rb_getDataBuffers r2 = (Inr rs, r2)" "concat (gather rs (rb_store r2)) = rb_data ?r @ c"
    using ring_regions [OF r2(1)] r2(2,3) fit by auto
  obtain r3 where cons: "rb_markDataUsed (of_nat n) r2 = (Inr (), r3)" and r3: "rb_inv r3"
      "rb_data r3 = drop n (rb_data ?r @ c)" "rb_capacity r3 = rb_capacity ?r"
    by (rule rb_consume_state [OF r2(1), of n]) (use n r2 in \<open>auto simp: rb_consume_def\<close>)
  obtain p' where chk: "rd (gather rs (rb_store r2)) (ep_proto s) = (Inr (n, k), p')" and Q: "Q p'"
    using check [OF regs(2)] by blast
  have cap: "rb_capacity ?r < 2 ^ 63" using inv by (simp add: rb_inv_def rb_capacity_def)
  then have kw: "unat (of_nat k :: u64) = k" using k(2) by (intro of_nat_u64) simp
  then have k0: "(of_nat k :: u64) \<noteq> 0" using k(1) by (auto simp: unat_eq_zero [symmetric])
  have "rb_free r3 + length (rb_data r3) = rb_capacity ?r" using rb_free_data [OF r3(1)] r3(3) by simp
  then have "\<not> rb_freeSpace r3 < of_nat k"
    using k(2) n by (simp add: word_less_nat_alt kw r3(2) rb_free_def)
  moreover obtain rs' where "rb_getSpaceBuffers r3 = (Inr rs', r3)" using ring_space [OF r3(1)] by blast
  ultimately have run: "ep_event_run rd wr (ReadDone EcOk c) s =
      (Inr (), s\<lparr>ep_readBuffer := r3, ep_proto := p', ep_read_needed := 0, ep_asio_reading := True,
                 ep_log := ep_log s @ [AsyncRead k]\<rparr>)"
    using st fill mark regs cons chk ring_free [OF r3(1)] k0
    by (simp add: pthen_apply pbind_apply ep_fill_def on_read_ring_def ep_complete_reading_def pcatch_apply
        ep_check_message_def ep_run_reading_def ep_async_read_def ep_record_def Let_def kw RUNNING_ENDPOINT_def)
  then show ?thesis using st r3 Q by simp
qed

text \<open>
  The contract of a reader: on data that parses it takes the complete messages at its front, keeps the rest,
  and asks for what the next message lacks; and parsing is incremental. \<open>limit\<close> bounds what it keeps and asks for.
\<close>

locale stream_reader =
  fixes check :: "'p reader_if"
    and parse :: "byte list \<Rightarrow> ('x list \<times> byte list) option"
    and lacks :: "byte list \<Rightarrow> nat"
    and limit :: nat
    and messages :: "'p \<Rightarrow> 'x list"
    and inv :: "'p \<Rightarrow> bool"
  assumes check_ok: "inv p \<Longrightarrow> parse (concat bs) = Some (ms, r) \<Longrightarrow>
      \<exists>p'. check bs p = (Inr (length (concat bs) - length r, lacks r), p') \<and> inv p' \<and> messages p' = messages p @ ms"
    and parse_rest: "parse d = Some (ms, r) \<Longrightarrow> length r \<le> length d \<and> r = drop (length d - length r) d"
    and parse_stuck: "parse d = Some (ms, r) \<Longrightarrow> parse r = Some ([], r)"
    and parse_append: "parse d = Some (ms, r) \<Longrightarrow>
      parse (d @ d') = (case parse (r @ d') of None \<Rightarrow> None | Some (ms', r') \<Rightarrow> Some (ms @ ms', r'))"
    and parse_None: "parse d = None \<Longrightarrow> parse (d @ d') = None"
    and lacks_limit: "parse r = Some ([], r) \<Longrightarrow> 0 < lacks r \<and> length r + lacks r \<le> limit"

begin

text \<open>The endpoint between two reads: what is in the ring is the beginning of a message, and a read is under way.\<close>

definition waiting :: "('m, 'p) endpoint \<Rightarrow> bool" where
  "waiting s \<longleftrightarrow> ep_state s = RUNNING_ENDPOINT \<and> ep_asio_reading s \<and> rb_inv (ep_readBuffer s) \<and>
     inv (ep_proto s) \<and> parse (rb_data (ep_readBuffer s)) = Some ([], rb_data (ep_readBuffer s))"

lemma read_step:
  assumes w: "waiting s" and c: "length c + limit \<le> rb_capacity (ep_readBuffer s)"
    and p: "parse (rb_data (ep_readBuffer s) @ c) = Some (ms, r)"
  shows "\<exists>s'. ep_event_run check wr (ReadDone EcOk c) s = (Inr (), s') \<and> waiting s' \<and>
    rb_capacity (ep_readBuffer s') = rb_capacity (ep_readBuffer s) \<and> rb_data (ep_readBuffer s') = r \<and>
    messages (ep_proto s') = messages (ep_proto s) @ ms \<and> ep_log s' = ep_log s @ [AsyncRead (lacks r)]"
proof -
  let ?d = "rb_data (ep_readBuffer s) @ c"
  have fit: "length (rb_data (ep_readBuffer s)) + length c < rb_capacity (ep_readBuffer s)"
    using lacks_limit [of "rb_data (ep_readBuffer s)"] w c by (auto simp: waiting_def)
  have r: "length r \<le> length ?d" "drop (length ?d - length r) ?d = r" using parse_rest [OF p] by simp_all
  have stuck: "parse r = Some ([], r)" by (rule parse_stuck [OF p])
  have k: "0 < lacks r" "length ?d - (length ?d - length r) + lacks r \<le> rb_capacity (ep_readBuffer s)"
    using lacks_limit [OF stuck] c r(1) by auto
  have "\<exists>p'. check bs (ep_proto s) = (Inr (length ?d - length r, lacks r), p') \<and>
      (inv p' \<and> messages p' = messages (ep_proto s) @ ms)" if "concat bs = ?d" for bs
    using check_ok [of "ep_proto s" bs ms r] w p that by (simp add: waiting_def)
  from complete_reading_step [where s = s and c = c and rd = check and wr = wr and n = "length ?d - length r" and k = "lacks r"
      and Q = "\<lambda>p'. inv p' \<and> messages p' = messages (ep_proto s) @ ms", OF _ _ fit this _ k] w r(2) stuck
  show ?thesis by (auto simp: waiting_def)
qed

lemma read_stream:
  assumes "waiting s" "\<forall>c \<in> set cs. length c + limit \<le> rb_capacity (ep_readBuffer s)"
    and "parse (rb_data (ep_readBuffer s) @ concat cs) = Some (ms, r)"
  shows "\<exists>ns. (let s' = ep_events check wr (map (ReadDone EcOk) cs) s in waiting s' \<and>
    rb_data (ep_readBuffer s') = r \<and> messages (ep_proto s') = messages (ep_proto s) @ ms \<and>
    ep_log s' = ep_log s @ map AsyncRead ns \<and> length ns = length cs \<and> (\<forall>n \<in> set ns. 0 < n))"
  using assms
proof (induction cs arbitrary: s ms)
  case Nil
  then show ?case by (auto simp: waiting_def Let_def)
next
  case (Cons c cs)
  let ?d = "rb_data (ep_readBuffer s)"
  obtain ms1 r1 where p1: "parse (?d @ c) = Some (ms1, r1)"
    using Cons.prems(3) parse_None [of "?d @ c" "concat cs"] by (cases "parse (?d @ c)") auto
  obtain ms2 where p2: "parse (r1 @ concat cs) = Some (ms2, r)" "ms = ms1 @ ms2"
    using Cons.prems(3) parse_append [OF p1, of "concat cs"] by (auto split: option.splits)
  obtain s1 where s1: "ep_event_run check wr (ReadDone EcOk c) s = (Inr (), s1)" "waiting s1"
    "rb_capacity (ep_readBuffer s1) = rb_capacity (ep_readBuffer s)" "rb_data (ep_readBuffer s1) = r1"
    "messages (ep_proto s1) = messages (ep_proto s) @ ms1" "ep_log s1 = ep_log s @ [AsyncRead (lacks r1)]"
    using read_step [OF Cons.prems(1) _ p1] Cons.prems(2) by auto
  obtain ns where "let s' = ep_events check wr (map (ReadDone EcOk) cs) s1 in waiting s' \<and>
    rb_data (ep_readBuffer s') = r \<and> messages (ep_proto s') = messages (ep_proto s1) @ ms2 \<and>
    ep_log s' = ep_log s1 @ map AsyncRead ns \<and> length ns = length cs \<and> (\<forall>n \<in> set ns. 0 < n)"
    using Cons.IH [OF s1(2), of ms2] Cons.prems(2) p2(1) s1(3,4) by auto
  moreover have "0 < lacks r1" using lacks_limit [OF parse_stuck [OF p1]] by simp
  ultimately show ?case
    using s1 p2(2) by (intro exI [of _ "lacks r1 # ns"]) (simp add: Let_def)
qed

end

subsection \<open>The agent protocol on an endpoint\<close>

definition accept_all :: "char_buf \<Rightarrow> exn + unit" where
  "accept_all b = Inr ()"

lemma unframe_lacking:
  assumes "unframe e r = Some ([], r)"
  shows "0 < lacking e r \<and> length r + lacking e r \<le> 10004"
proof (cases "length r < 4")
  case False
  then have "unat (head_value e r) \<le> 10000" "length r < 4 + unat (head_value e r)"
    using assms by (subst (asm) unframe.simps; auto simp: Let_def split: if_splits option.splits)+
  with False show ?thesis by (simp add: lacking_def)
qed (simp add: lacking_def)

lemma agent_reader:
  assumes "e = LITTLE \<or> e = NETWORK"
  shows "stream_reader (pmr_checkForMessage (Some accept_all)) (unframe e) (lacking e) 10004 ps_messages
    (\<lambda>p. ps_reader p = e)"
proof (unfold_locales, goal_cases)
  case (1 p bs ms r)
  from reader_unframe [OF ccb_new_rest(2) 1(1) assms, of accept_all bs 0] 1(2) show ?case
    by (auto simp: ccb_new_rest(1) pmr_checkForMessage_def accept_all_def)
next
  case (2 d ms r) then show ?case by (rule unframe_rest)
next
  case (3 d ms r) then show ?case by (rule unframe_stuck)
next
  case (4 d ms r d') then show ?case by (rule unframe_append)
next
  case (5 d d') then show ?case by (rule unframe_None_append)
next
  case (6 r) then show ?case by (rule unframe_lacking)
qed

interpretation little: stream_reader "pmr_checkForMessage (Some accept_all)" "unframe LITTLE" "lacking LITTLE" 10004
    ps_messages "\<lambda>p. ps_reader p = LITTLE"
  by (rule agent_reader) simp

interpretation network: stream_reader "pmr_checkForMessage (Some accept_all)" "unframe NETWORK" "lacking NETWORK" 10004
    ps_messages "\<lambda>p. ps_reader p = NETWORK"
  by (rule agent_reader) simp

text \<open>
  C5. A connection delivers its stream: on a running endpoint whose byte order is known and which has a read
  under way and an empty ring, frames of messages of at most 10000 bytes, arriving in any chunks that leave
  10004 bytes of the ring free, are delivered to \<^verbatim>\<open>onComplete\<close> as exactly these messages in order; the
  connection keeps running, its ring is empty again, and after every chunk exactly one new read of at least one
  byte was requested. This ties the ring buffer, the reader and the endpoint together.
\<close>

theorem endpoint_reads_stream:
  assumes e: "e = LITTLE \<or> e = NETWORK"
    and s: "ep_state s = RUNNING_ENDPOINT" "ep_asio_reading s" "rb_inv (ep_readBuffer s)" "rb_data (ep_readBuffer s) = []"
      "ps_reader (ep_proto s) = e"
    and ms: "\<forall>m \<in> set ms. length m \<le> 10000" "concat chunks = concat (map (frame e) ms)"
    and fit: "\<forall>c \<in> set chunks. length c + 10004 \<le> rb_capacity (ep_readBuffer s)"
    and s': "s' = ep_events (pmr_checkForMessage (Some accept_all)) wr (map (ReadDone EcOk) chunks) s"
  shows "ps_messages (ep_proto s') = ps_messages (ep_proto s) @ ms \<and> ep_state s' = RUNNING_ENDPOINT \<and>
    rb_data (ep_readBuffer s') = [] \<and>
    (\<exists>ns. ep_log s' = ep_log s @ map AsyncRead ns \<and> length ns = length chunks \<and> (\<forall>n \<in> set ns. 0 < n))"
proof -
  have nil: "unframe e [] = Some ([], [])" by (subst unframe.simps) simp
  have "unframe e (concat chunks) = Some (ms, [])"
    using unframe_frames [OF e ms(1), of "[]"] ms(2) nil by simp
  then show ?thesis
    using e
  proof (elim disjE)
    assume l: "e = LITTLE" and u: "unframe e (concat chunks) = Some (ms, [])"
    have "little.waiting s" using s nil l by (simp add: little.waiting_def)
    from little.read_stream [OF this, of chunks ms "[]" wr] fit u s(4) l show ?thesis
      by (auto simp: s' Let_def little.waiting_def)
  next
    assume l: "e = NETWORK" and u: "unframe e (concat chunks) = Some (ms, [])"
    have "network.waiting s" using s nil l by (simp add: network.waiting_def)
    from network.read_stream [OF this, of chunks ms "[]" wr] fit u s(4) l show ?thesis
      by (auto simp: s' Let_def network.waiting_def)
  qed
qed

definition demo_connection :: "(nat, proto_state) endpoint" where
  "demo_connection = (ep_new [0, 0] (replicate 10020 0) (pme_new\<lparr>ps_reader := LITTLE\<rparr>))
     \<lparr>ep_state := RUNNING_ENDPOINT, ep_asio_reading := True\<rparr>"

lemma demo_connection_ring:
  "rb_inv (ep_readBuffer demo_connection)" "rb_data (ep_readBuffer demo_connection) = []"
  "rb_capacity (ep_readBuffer demo_connection) = 10020"
proof -
  have r: "ep_readBuffer demo_connection = rb_new (replicate 10020 0)" by (simp add: demo_connection_def ep_new_def)
  show "rb_inv (ep_readBuffer demo_connection)" unfolding r by (rule rb_new_inv) simp_all
  show "rb_data (ep_readBuffer demo_connection) = []" unfolding r by (rule rb_new_data)
  show "rb_capacity (ep_readBuffer demo_connection) = 10020"
    unfolding r by (simp add: rb_capacity_def rb_new_def rb_clear_def)
qed

definition no_writer :: "(nat, proto_state) writer_if" where
  "no_writer bs txq p = (Inr (0, 0), txq, bs, p)"

theorem endpoint_reads_stream_witness:
  "ps_messages (ep_proto (ep_events (pmr_checkForMessage (Some accept_all)) no_writer
     (map (ReadDone EcOk) [[2], [0, 0], [0, 7, 8, 1, 0, 0], [0, 9]]) demo_connection)) = [[7, 8], [9]]"
proof -
  have fr: "frame LITTLE [7, 8] = [2, 0, 0, 0, 7, 8]" "frame LITTLE [9] = [1, 0, 0, 0, 9]"
    by code_simp+
  have "ps_messages (ep_proto demo_connection) = []"
    by (simp add: demo_connection_def ep_new_def pme_new_def ps_messages_def)
  moreover have "ep_state demo_connection = RUNNING_ENDPOINT" "ep_asio_reading demo_connection"
    "ps_reader (ep_proto demo_connection) = LITTLE"
    by (simp_all add: demo_connection_def ep_new_def)
  ultimately show ?thesis
    using endpoint_reads_stream [of LITTLE demo_connection "[[7, 8], [9]]" "[[2], [0, 0], [0, 7, 8, 1, 0, 0], [0, 9]]", OF _ _ _ _ _ _ _ _ _ refl, of no_writer]
    by (simp add: demo_connection_ring fr)
qed

text \<open>
  A read that fills the ring stops the connection: when a chunk exactly fills the read ring of a running
  endpoint, nothing of it reaches the reader, no further read is requested, and the endpoint believes one is
  under way, so that \<^verbatim>\<open>run_reading\<close> never requests one again. No handler is told. (\<^verbatim>\<open>getDataBuffers\<close> shows
  nothing of a full ring, and \<^verbatim>\<open>run_reading\<close> sets its flag before it finds that there is no room.)
\<close>

lemma full_read_ring_stalls:
  assumes s: "ep_state s = RUNNING_ENDPOINT" "rb_inv (ep_readBuffer s)"
    and full: "length (rb_data (ep_readBuffer s)) + length c = rb_capacity (ep_readBuffer s)"
  shows "\<exists>s'. ep_event_run (pmr_checkForMessage (Some h)) wr (ReadDone EcOk c) s = (Inr (), s') \<and>
    ep_log s' = ep_log s \<and> ep_proto s' = ep_proto s \<and> ep_asio_reading s' \<and>
    rb_data (ep_readBuffer s') = rb_data (ep_readBuffer s) @ c \<and> ep_run_reading s' = (Inr (), s')"
proof -
  let ?r = "ep_readBuffer s"
  obtain r2 where w: "rb_write c ?r = (Inr (), r2)" and r2: "rb_inv r2" "rb_data r2 = rb_data ?r @ c" "rb_capacity r2 = rb_capacity ?r"
    by (rule rb_write_state [OF s(2), of c]) (use full in auto)
  obtain r1 where fill: "pbind rb_getSpaceBuffers (\<lambda>rs. pmodify (\<lambda>r. r\<lparr>rb_store := scatter rs (split_over rs c) (rb_store r)\<rparr>)) ?r
      = (Inr (), r1)" and mark: "rb_markSpaceUsed (of_nat (length c)) r1 = (Inr (), r2)"
    using ring_fill_mark [OF w s(2)] by blast
  have regs: "rb_getDataBuffers r2 = (Inr [], r2)"
    using ring_full_unreadable [OF r2(1)] r2(2,3) full by simp
  have chk: "pmr_checkForMessage (Some h) [] p = (Inr (0, 4), p)" for p
    by (simp add: pmr_checkForMessage_def pmr_loop.simps ccb_new_def ccb_remainingData_def)
  obtain r3 where cons: "rb_markDataUsed 0 r2 = (Inr (), r3)" and r3: "rb_inv r3" "rb_data r3 = rb_data ?r @ c"
      "rb_capacity r3 = rb_capacity ?r"
    by (rule rb_consume_state [OF r2(1), of 0]) (use r2 in \<open>auto simp: rb_consume_def\<close>)
  have "rb_free r3 = 0" using rb_free_data [OF r3(1)] r3(2,3) full by simp
  then have "rb_freeSpace r3 = 0" by (simp add: rb_free_def unat_eq_zero)
  then have "ep_event_run (pmr_checkForMessage (Some h)) wr (ReadDone EcOk c) s =
      (Inr (), s\<lparr>ep_readBuffer := r3, ep_proto := ep_proto s, ep_read_needed := 0, ep_asio_reading := True\<rparr>)"
    using s(1) fill mark regs cons chk ring_free [OF r3(1)]
    by (simp add: pthen_apply pbind_apply ep_fill_def on_read_ring_def ep_complete_reading_def pcatch_apply
        ep_check_message_def ep_run_reading_def ep_async_read_def ep_record_def Let_def RUNNING_ENDPOINT_def gather_def)
  then show ?thesis using r3 by (simp add: ep_run_reading_def pbind_apply)
qed

lemma full_read_ring_stalls_example:
  "\<exists>s'. ep_event_run (pmr_checkForMessage (Some accept_all)) no_writer (ReadDone EcOk (replicate 10020 1)) demo_connection
     = (Inr (), s') \<and> ep_log s' = [] \<and> ep_asio_reading s' \<and> ep_run_reading s' = (Inr (), s')"
proof -
  have "ep_state demo_connection = RUNNING_ENDPOINT" "ep_log demo_connection = []"
    by (simp_all add: demo_connection_def ep_new_def)
  with full_read_ring_stalls [of demo_connection "replicate 10020 1" accept_all no_writer] demo_connection_ring
  show ?thesis by auto
qed

end
