(* ===== verification/EndpointSending.thy ===== *)
theory EndpointSending
  imports Endpoint
begin

text \<open>
  The sending side of a connection: the contract of a writer, the proof that the sender of the agent protocol
  keeps it, and that an endpoint puts the frames of its queue on the wire, in order and without loss.
\<close>

subsection \<open>Filling the free regions of the ring\<close>

lemma unat_split: "map length bufs = map (unat \<circ> snd) rs \<Longrightarrow> split_over rs (concat bufs) = bufs"
proof (induction rs arbitrary: bufs)
  case (Cons x rs)
  then obtain b bs where "bufs = b # bs" "length b = unat (snd x)" "map length bs = map (unat \<circ> snd) rs"
    by (cases bufs) auto
  with Cons.IH [of bs] show ?case by (cases x) simp
qed simp

text \<open>Writing to all of the free space and marking only the first \<open>n\<close> bytes used.\<close>

lemma ring_write_part:
  assumes inv: "rb_inv r" and rs: "rb_getSpaceBuffers r = (Inr rs, r)"
    and fit: "length xs + length (rb_data r) \<le> rb_capacity r" and n: "n \<le> length xs"
  shows "\<exists>r2. rb_markSpaceUsed (of_nat n) (r\<lparr>rb_store := scatter rs (split_over rs xs) (rb_store r)\<rparr>) = (Inr (), r2) \<and>
    rb_inv r2 \<and> rb_data r2 = rb_data r @ take n xs \<and> rb_capacity r2 = rb_capacity r"
proof -
  note I = inv [unfolded rb_inv_def]
  let ?S = "unat (rb_size r)" and ?F = "unat (rb_freeSpace r)" and ?P = "unat (rb_readp r)" and ?W = "unat (rb_writep r)"
  define st where "st = scatter rs (split_over rs xs) (rb_store r)"
  obtain r' where w: "rb_write xs r = (Inr (), r')" "rb_inv r'" "rb_data r' = rb_data r @ xs" "rb_capacity r' = rb_capacity r"
    by (rule rb_write_state [OF inv fit])
  have fld: "rb_store r' = st" "rb_readp r' = rb_readp r" "rb_size r' = rb_size r"
    using w(1) I rs
    by (auto simp: rb_write_def pbind_apply pthen_apply rb_markSpaceUsed_def rb_locked_def rb_signal_def st_def split: if_splits)
  have len: "length st = ?S" using w(2) fld by (simp add: rb_inv_def)
  have nF: "n \<le> ?F" using fit n I by (auto simp: length_rb_data rb_capacity_def)
  have nw: "unat (of_nat n :: u64) = n" using nF I by (intro of_nat_u64) simp
  have "?W < ?S" "?S < 2 ^ 63" "?F \<le> ?S" using I by simp_all
  then have "?W + n < 2 ^ 64" using nF by simp
  then have "unat (rb_writep r + of_nat n) = ?W + n"
    using nw by (subst unat_plus_small) auto
  then have wp: "unat ((rb_writep r + of_nat n) mod rb_size r) = (?W + n) mod ?S" by (simp add: unat_mod_distrib)
  have fs: "unat (rb_freeSpace r - of_nat n) = ?F - n" using nF nw by (subst unat_minus_small) auto
  let ?q = "r\<lparr>rb_store := st, rb_writep := (rb_writep r + of_nat n) mod rb_size r, rb_freeSpace := rb_freeSpace r - of_nat n\<rparr>"
  let ?r = "if rb_size r - rb_freeSpace r = 0 then ?q\<lparr>rb_signals := rb_signals r @ [DataReady]\<rparr> else ?q"
  have run: "rb_markSpaceUsed (of_nat n) (r\<lparr>rb_store := st\<rparr>) = (Inr (), ?r)"
    using I by (simp add: rb_markSpaceUsed_def rb_locked_def pbind_apply pthen_apply
        rb_lockless_getDataAvailable_def rb_signal_def)
  have mod: "(?W + n) mod ?S = (?P + (?S - (?F - n))) mod ?S"
  proof -
    have "?S - (?F - n) = ?S - ?F + n" using nF I by auto
    then show ?thesis using I by (simp add: mod_add_left_eq add.assoc)
  qed
  have "rb_inv ?q"
    unfolding rb_inv_def
  proof (intro conjI)
    show "unat (rb_freeSpace ?q) \<le> unat (rb_size ?q)" using I nF by (auto simp: fs)
    show "unat (rb_writep ?q) = (unat (rb_readp ?q) + (unat (rb_size ?q) - unat (rb_freeSpace ?q))) mod unat (rb_size ?q)"
      using mod by (simp add: wp fs)
  qed (use I len in simp_all)
  then have inv2: "rb_inv ?r" by (intro if_both [where P = rb_inv]) simp_all
  have amount: "?S - unat (rb_freeSpace r') = ?S - ?F + length xs"
    using arg_cong [OF w(3), of length] fld(3) by (simp add: length_rb_data)
  have "rb_data ?r = rb_data ?q" by (rule if_both [where P = "\<lambda>x. rb_data x = rb_data ?q"]) simp_all
  also have "\<dots> = map (\<lambda>k. st ! ((?P + k) mod ?S)) [0..<?S - ?F + n]"
    using nF I by (simp add: rb_data_def fs)
  also have "\<dots> = take (?S - ?F + n) (rb_data r')"
    by (rule nth_equalityI) (use n in \<open>auto simp: rb_data_def fld amount\<close>)
  also have "\<dots> = rb_data r @ take n xs" by (simp add: w(3) length_rb_data)
  finally have data: "rb_data ?r = rb_data r @ take n xs" .
  have "rb_capacity ?r = rb_capacity r" by (simp add: rb_capacity_def)
  with run inv2 data show ?thesis unfolding st_def by blast
qed

lemma two_regions_lengths:
  assumes "w < sz" "f \<le> sz"
  shows "length st = sz \<Longrightarrow> map length (map (\<lambda>(p, n). take n (drop p st)) (two_regions w f sz)) = map snd (two_regions w f sz)"
    and "sum_list (map snd (two_regions w f sz)) = f"
  using assms by (auto simp: two_regions_def Let_def)

lemma ring_space_lengths:
  assumes "rb_inv r" "rb_getSpaceBuffers r = (Inr rs, r)"
  shows "map length (gather rs (rb_store r)) = map (unat \<circ> snd) rs"
    and "length (concat (gather rs (rb_store r))) = rb_free r"
proof -
  note I = assms(1) [unfolded rb_inv_def]
  let ?S = "unat (rb_size r)" and ?F = "unat (rb_freeSpace r)" and ?W = "unat (rb_writep r)"
  let ?rs = "let b1 = min (rb_writep r + rb_freeSpace r) (rb_size r) - rb_writep r;
                 b2 = rb_freeSpace r - b1
             in (rb_writep r, b1) # (if b2 \<noteq> 0 then [(0, b2)] else [])"
  have "rb_getSpaceBuffers r = (Inr (if rb_freeSpace r = 0 then [] else ?rs), r)"
    using I by (simp add: rb_getSpaceBuffers_def rb_locked_run rb_lockless_getFreeSpace_def Let_def word_gt_0)
  then have rs: "rs = (if rb_freeSpace r = 0 then [] else ?rs)" using assms(2) by simp
  have W: "?W < ?S" using I by simp
  have nat: "map nat_region ?rs = two_regions ?W ?F ?S" using I W by (intro regions_nat) auto
  have "map length (map (\<lambda>(p, n). take n (drop p (rb_store r))) (two_regions ?W ?F ?S)) = map snd (two_regions ?W ?F ?S)"
    using I by (intro two_regions_lengths(1) W) auto
  moreover have "map (unat \<circ> snd) ?rs = map snd (map nat_region ?rs)"
    by (simp add: nat_region_def comp_def)
  moreover have "map length (gather ?rs (rb_store r)) =
      map length (map (\<lambda>(p, n). take n (drop p (rb_store r))) (map nat_region ?rs))"
    by (simp add: gather_def nat_region_def comp_def split_def)
  ultimately have len: "map length (gather ?rs (rb_store r)) = map (unat \<circ> snd) ?rs"
    unfolding nat by simp
  show "map length (gather rs (rb_store r)) = map (unat \<circ> snd) rs"
    unfolding rs using len by (cases "rb_freeSpace r = 0") (simp_all only: if_True if_False, simp add: gather_def)
  have "length (concat (gather ?rs (rb_store r))) = ?F"
  proof -
    have "length (concat (gather ?rs (rb_store r))) = sum_list (map (unat \<circ> snd) ?rs)"
      unfolding len [symmetric] by (simp add: length_concat)
    also have "\<dots> = sum_list (map snd (two_regions ?W ?F ?S))"
      unfolding nat [symmetric] by (simp add: nat_region_def comp_def)
    also have "\<dots> = ?F" using I by (intro two_regions_lengths(2) W) auto
    finally show ?thesis .
  qed
  then show "length (concat (gather rs (rb_store r))) = rb_free r"
    unfolding rs by (cases "rb_freeSpace r = 0") (simp_all only: if_True if_False rb_free_def, simp add: gather_def)
qed

subsection \<open>The contract of a writer\<close>

text \<open>
  A writer encodes messages from the front of the queue, one after the other, into the space it is given, as
  long as the next one fits, and leaves the rest of the space as it was.
\<close>

locale stream_writer =
  fixes put :: "('m, 'p) writer_if"
    and encode :: "'m \<Rightarrow> byte list"
    and winv :: "'p \<Rightarrow> bool"
  assumes put_ok: "winv p \<Longrightarrow> \<exists>k bufs p'. let out = concat (map encode (take k txq)) in
      put space txq p = (Inr (length out, 0), drop k txq, bufs, p') \<and> winv p' \<and> k \<le> length txq \<and>
      length out \<le> length (concat space) \<and> map length bufs = map length space \<and>
      concat bufs = out @ drop (length out) (concat space) \<and>
      (k < length txq \<longrightarrow> length (concat space) < length out + length (encode (txq ! k)))"
begin

text \<open>Of everything accepted, what is on the wire or in the ring, then what the queue still holds.\<close>

definition sending_ok :: "('m, 'p) endpoint \<Rightarrow> bool" where
  "sending_ok s \<longleftrightarrow> ep_state s = RUNNING_ENDPOINT \<and> rb_inv (ep_sendBuffer s) \<and> winv (ep_proto s)"

lemma create_messages:
  assumes "sending_ok s"
  shows "\<exists>k s'. ep_create_messages put s = (Inr (), s') \<and> sending_ok s' \<and> ep_txq s' = drop k (ep_txq s) \<and>
    rb_capacity (ep_sendBuffer s') = rb_capacity (ep_sendBuffer s) \<and> ep_log s' = ep_log s \<and>
    ep_asio_sending s' = ep_asio_sending s \<and>
    rb_data (ep_sendBuffer s') = rb_data (ep_sendBuffer s) @ concat (map encode (take k (ep_txq s))) \<and>
    (k < length (ep_txq s) \<longrightarrow> rb_capacity (ep_sendBuffer s) < length (rb_data (ep_sendBuffer s')) + length (encode (ep_txq s ! k)))"
proof -
  let ?r = "ep_sendBuffer s"
  have inv: "rb_inv ?r" using assms by (simp add: sending_ok_def)
  obtain rs where rs: "rb_getSpaceBuffers ?r = (Inr rs, ?r)" using ring_space [OF inv] by blast
  note L = ring_space_lengths [OF inv rs]
  define space where "space = gather rs (rb_store ?r)"
  obtain k bufs p' where P: "put space (ep_txq s) (ep_proto s) =
      (Inr (length (concat (map encode (take k (ep_txq s)))), 0), drop k (ep_txq s), bufs, p')"
    "winv p'" "k \<le> length (ep_txq s)" "length (concat (map encode (take k (ep_txq s)))) \<le> length (concat space)"
    "map length bufs = map length space"
    "concat bufs = concat (map encode (take k (ep_txq s))) @ drop (length (concat (map encode (take k (ep_txq s))))) (concat space)"
    "k < length (ep_txq s) \<longrightarrow> length (concat space) < length (concat (map encode (take k (ep_txq s)))) + length (encode (ep_txq s ! k))"
    using put_ok [of "ep_proto s" "ep_txq s" space] assms unfolding sending_ok_def Let_def by blast
  let ?out = "concat (map encode (take k (ep_txq s)))"
  have bufs: "split_over rs (concat bufs) = bufs" by (rule unat_split) (simp add: P(5) space_def L(1))
  have total: "length (concat bufs) = rb_free ?r" "length (concat space) = rb_free ?r"
    using P(4,6) L(2) by (simp_all add: space_def)
  have fit: "length (concat bufs) + length (rb_data ?r) \<le> rb_capacity ?r"
    using rb_free_data [OF inv] total(1) by simp
  have n: "length ?out \<le> length (concat bufs)" using P(4) total by simp
  obtain r2 where r2: "rb_markSpaceUsed (of_nat (length ?out)) (?r\<lparr>rb_store := scatter rs bufs (rb_store ?r)\<rparr>) = (Inr (), r2)"
    "rb_inv r2" "rb_data r2 = rb_data ?r @ take (length ?out) (concat bufs)" "rb_capacity r2 = rb_capacity ?r"
    using ring_write_part [OF inv rs fit n] by (auto simp: bufs)
  have data: "rb_data r2 = rb_data ?r @ ?out" using r2(3) by (simp add: P(6))
  have "ep_create_messages put s = (Inr (), s\<lparr>ep_txq := drop k (ep_txq s), ep_proto := p', ep_sendBuffer := r2\<rparr>)"
    using rs P(1) r2(1)
    by (simp add: ep_create_messages_def pbind_apply on_send_ring_def space_def Let_def)
  then show ?thesis
    using assms P(2,7) r2(2,4) data total(2) rb_free_data [OF inv]
    by (intro exI [of _ k] exI) (auto simp: sending_ok_def)
qed

end

subsection \<open>A connection that sends\<close>

definition writes :: "('m, 'p) endpoint \<Rightarrow> byte list list" where
  "writes s = concat (map (\<lambda>x. case x of AsyncWrite d \<Rightarrow> [d] | _ \<Rightarrow> []) (ep_log s))"

lemma writes_txq [simp]: "writes (s\<lparr>ep_txq := q\<rparr>) = writes s"
  by (simp add: writes_def)

text \<open>
  Messages are offered, \<^verbatim>\<open>run_sending\<close> is called, and the socket reports that it has written all it was given
  (what \<^verbatim>\<open>async_write\<close> promises). The first component collects the accepted messages.
\<close>

datatype 'm wire_event = WSend 'm | WRun | WAck

fun wire_step :: "('m, 'p) writer_if \<Rightarrow> 'm wire_event \<Rightarrow> 'm list \<times> ('m, 'p) endpoint \<Rightarrow> 'm list \<times> ('m, 'p) endpoint" where
  "wire_step put (WSend m) (acc, s) = (case ep_send m s of
     (Inr Queued, s') \<Rightarrow> (acc @ [m], s') | (_, s') \<Rightarrow> (acc, s'))"
| "wire_step put WRun (acc, s) = (acc, snd (ep_run_sending put s))"
| "wire_step put WAck (acc, s) = (if ep_asio_sending s
     then (acc, snd (ep_complete_sending put EcOk (length (last (writes s))) s)) else (acc, s))"

definition wire_run :: "('m, 'p) writer_if \<Rightarrow> 'm wire_event list \<Rightarrow> 'm list \<times> ('m, 'p) endpoint \<Rightarrow> 'm list \<times> ('m, 'p) endpoint" where
  "wire_run put es = fold (wire_step put) es"

context stream_writer
begin

abbreviation enc :: "'m list \<Rightarrow> byte list" where
  "enc ms \<equiv> concat (map encode ms)"

lemma run_sending:
  assumes ok: "sending_ok s" and idle: "\<not> ep_asio_sending s"
  shows "\<exists>s'. ep_run_sending put s = (Inr (), s') \<and> sending_ok s' \<and> rb_capacity (ep_sendBuffer s') = rb_capacity (ep_sendBuffer s) \<and>
    set (ep_txq s') \<subseteq> set (ep_txq s) \<and>
    rb_data (ep_sendBuffer s') @ enc (ep_txq s') = rb_data (ep_sendBuffer s) @ enc (ep_txq s) \<and>
    (if ep_asio_sending s'
     then \<exists>d rest. writes s' = writes s @ [d] \<and> rb_data (ep_sendBuffer s') = d @ rest
     else writes s' = writes s \<and> rb_data (ep_sendBuffer s') = [] \<and>
       (ep_txq s' = [] \<or> rb_capacity (ep_sendBuffer s) < length (encode (hd (ep_txq s')))))"
proof -
  have avail: "rb_getDataAvailable r = (Inr (rb_lockless_getDataAvailable r), r)"
    "rb_lockless_getDataAvailable r = 0 \<longleftrightarrow> rb_data r = []" if "rb_inv r" for r
  proof -
    show "rb_getDataAvailable r = (Inr (rb_lockless_getDataAvailable r), r)"
      using that by (simp add: rb_getDataAvailable_def rb_locked_run rb_inv_def rb_lockless_getDataAvailable_def)
    show "rb_lockless_getDataAvailable r = 0 \<longleftrightarrow> rb_data r = []"
      using rb_avail [OF that] by (auto simp: unat_eq_zero [symmetric] rb_data_def)
  qed
  have inv: "rb_inv (ep_sendBuffer s)" and st: "ep_state s = RUNNING_ENDPOINT" using ok by (simp_all add: sending_ok_def)
  obtain s1 where s1: "(if rb_data (ep_sendBuffer s) = [] then ep_create_messages put else pret ()) s = (Inr (), s1)"
    "sending_ok s1" "rb_capacity (ep_sendBuffer s1) = rb_capacity (ep_sendBuffer s)" "ep_log s1 = ep_log s"
    "rb_data (ep_sendBuffer s1) @ enc (ep_txq s1) = rb_data (ep_sendBuffer s) @ enc (ep_txq s)" "\<not> ep_asio_sending s1" "set (ep_txq s1) \<subseteq> set (ep_txq s)"
    "rb_data (ep_sendBuffer s1) = [] \<longrightarrow> ep_txq s1 = [] \<or> rb_capacity (ep_sendBuffer s) < length (encode (hd (ep_txq s1)))"
  proof (cases "rb_data (ep_sendBuffer s) = []")
    case True
    obtain k s1 where c: "ep_create_messages put s = (Inr (), s1)" "sending_ok s1" "ep_txq s1 = drop k (ep_txq s)"
      "rb_capacity (ep_sendBuffer s1) = rb_capacity (ep_sendBuffer s)" "ep_log s1 = ep_log s"
      "ep_asio_sending s1 = ep_asio_sending s"
      "rb_data (ep_sendBuffer s1) = rb_data (ep_sendBuffer s) @ enc (take k (ep_txq s))"
      "k < length (ep_txq s) \<longrightarrow> rb_capacity (ep_sendBuffer s) < length (rb_data (ep_sendBuffer s1)) + length (encode (ep_txq s ! k))"
      using create_messages [OF ok] by blast
    have "rb_data (ep_sendBuffer s1) @ enc (ep_txq s1) = rb_data (ep_sendBuffer s) @ enc (ep_txq s)"
      by (simp add: c(3,7) concat_append [symmetric] map_append [symmetric] del: concat_append map_append)
    moreover have "rb_data (ep_sendBuffer s1) = [] \<longrightarrow> ep_txq s1 = [] \<or> rb_capacity (ep_sendBuffer s) < length (encode (hd (ep_txq s1)))"
    proof (cases "k < length (ep_txq s)")
      case True
      with c(3,8) show ?thesis by (auto simp: hd_drop_conv_nth)
    qed (simp add: c(3))
    ultimately show thesis
      using c(1,2,4,5,6) True idle set_drop_subset [of k "ep_txq s"] by (intro that [of s1]) (simp_all add: c(3))
  next
    case False
    then show thesis using ok idle by (intro that [of s]) auto
  qed
  have inv1: "rb_inv (ep_sendBuffer s1)" using s1(2) by (simp add: sending_ok_def)
  have head: "ep_run_sending put s = (if rb_data (ep_sendBuffer s1) = [] then (Inr (), s1)
      else ep_async_write (s1\<lparr>ep_asio_sending := True\<rparr>))"
    using idle st s1(1) avail [OF inv] avail [OF inv1]
    by (auto simp: ep_run_sending_def pbind_apply pthen_apply on_send_ring_def split: if_splits)
  show ?thesis
  proof (cases "rb_data (ep_sendBuffer s1) = []")
    case True
    then show ?thesis using head s1 by (auto simp: writes_def)
  next
    case False
    obtain rs where rs: "rb_getDataBuffers (ep_sendBuffer s1) = (Inr rs, ep_sendBuffer s1)"
      "\<exists>rest. rb_data (ep_sendBuffer s1) = concat (gather rs (rb_store (ep_sendBuffer s1))) @ rest"
      using ring_regions [OF inv1] by (metis append.left_neutral append.right_neutral)
    let ?d = "concat (gather rs (rb_store (ep_sendBuffer s1)))"
    have "ep_run_sending put s = (Inr (), s1\<lparr>ep_asio_sending := True, ep_log := ep_log s1 @ [AsyncWrite ?d]\<rparr>)"
      using head False rs(1) by (simp add: ep_async_write_def pbind_apply on_send_ring_def ep_record_def)
    then show ?thesis using s1 rs(2) by (auto simp: sending_ok_def writes_def)
  qed
qed

text \<open>The invariant: what was written and acknowledged, the ring, the queue.\<close>

definition wire_ok :: "'m list \<times> ('m, 'p) endpoint \<Rightarrow> bool" where
  "wire_ok x \<longleftrightarrow> (case x of (acc, s) \<Rightarrow> sending_ok s \<and> set (ep_txq s) \<subseteq> set acc \<and>
     (\<exists>W d. concat (writes s) = W @ d \<and> W @ rb_data (ep_sendBuffer s) @ enc (ep_txq s) = enc acc \<and>
       (if ep_asio_sending s then writes s \<noteq> [] \<and> last (writes s) = d \<and> (\<exists>rest. rb_data (ep_sendBuffer s) = d @ rest)
        else d = [])))"

lemma wire_after_run:
  assumes "sending_ok s" "\<not> ep_asio_sending s" "concat (writes s) @ rb_data (ep_sendBuffer s) @ enc (ep_txq s) = enc acc"
    and queued: "set (ep_txq s) \<subseteq> set acc"
  shows "\<exists>s'. ep_run_sending put s = (Inr (), s') \<and> wire_ok (acc, s') \<and>
    rb_capacity (ep_sendBuffer s') = rb_capacity (ep_sendBuffer s) \<and>
    (\<not> ep_asio_sending s' \<longrightarrow> rb_data (ep_sendBuffer s') = [] \<and>
       (ep_txq s' = [] \<or> rb_capacity (ep_sendBuffer s) < length (encode (hd (ep_txq s')))))"
proof -
  obtain s' where s': "ep_run_sending put s = (Inr (), s')" "sending_ok s'"
    "rb_capacity (ep_sendBuffer s') = rb_capacity (ep_sendBuffer s)" "set (ep_txq s') \<subseteq> set (ep_txq s)"
    "rb_data (ep_sendBuffer s') @ enc (ep_txq s') = rb_data (ep_sendBuffer s) @ enc (ep_txq s)"
    "if ep_asio_sending s'
     then \<exists>d rest. writes s' = writes s @ [d] \<and> rb_data (ep_sendBuffer s') = d @ rest
     else writes s' = writes s \<and> rb_data (ep_sendBuffer s') = [] \<and>
       (ep_txq s' = [] \<or> rb_capacity (ep_sendBuffer s) < length (encode (hd (ep_txq s'))))"
    using run_sending [OF assms(1,2)] by blast
  have "wire_ok (acc, s')"
  proof (cases "ep_asio_sending s'")
    case True
    then obtain d rest where d: "writes s' = writes s @ [d]" "rb_data (ep_sendBuffer s') = d @ rest" using s'(6) by auto
    with s'(2,4,5) assms(3) queued True show ?thesis
      unfolding wire_ok_def by (auto intro!: exI [of _ "concat (writes s)"] exI [of _ d])
  next
    case False
    with s' assms(3) queued show ?thesis by (auto simp: wire_ok_def)
  qed
  with s' show ?thesis by (cases "ep_asio_sending s'") auto
qed

lemma wire_step_ok:
  assumes W: "wire_ok (acc, s)"
  shows "wire_ok (wire_step put e (acc, s)) \<and>
    rb_capacity (ep_sendBuffer (snd (wire_step put e (acc, s)))) = rb_capacity (ep_sendBuffer s)"
proof (cases e)
  case (WSend m)
  then show ?thesis
    using W by (cases "ep_asio_sending s"; cases "length (ep_txq s) < BUFFER_SIZE_LIMIT")
      (auto simp: ep_send_def wire_ok_def sending_ok_def)
next
  case WRun
  show ?thesis
  proof (cases "ep_asio_sending s")
    case True
    then show ?thesis using W WRun by (simp add: ep_run_sending_def pbind_apply)
  next
    case False
    with W have "sending_ok s" "concat (writes s) @ rb_data (ep_sendBuffer s) @ enc (ep_txq s) = enc acc" "set (ep_txq s) \<subseteq> set acc"
      by (auto simp: wire_ok_def)
    from wire_after_run [OF this(1) False this(2,3)] WRun show ?thesis by auto
  qed
next
  case WAck
  show ?thesis
  proof (cases "ep_asio_sending s")
    case False
    then show ?thesis using W WAck by simp
  next
    case True
    from W True obtain W0 rest where ok: "sending_ok s" and w: "concat (writes s) = W0 @ last (writes s)"
      "W0 @ rb_data (ep_sendBuffer s) @ enc (ep_txq s) = enc acc" "rb_data (ep_sendBuffer s) = last (writes s) @ rest"
      by (auto simp: wire_ok_def)
    let ?n = "length (last (writes s))"
    have inv: "rb_inv (ep_sendBuffer s)" using ok by (simp add: sending_ok_def)
    obtain r1 where r1: "rb_markDataUsed (of_nat ?n) (ep_sendBuffer s) = (Inr (), r1)" "rb_inv r1"
      "rb_data r1 = rest" "rb_capacity r1 = rb_capacity (ep_sendBuffer s)"
      by (rule rb_consume_state [OF inv, of ?n]) (auto simp: w(3) rb_consume_def)
    let ?s1 = "s\<lparr>ep_sendBuffer := r1\<rparr>"
    have ok1: "sending_ok ?s1" using ok r1(2) by (simp add: sending_ok_def)
    obtain k s2 where c: "ep_create_messages put ?s1 = (Inr (), s2)" "sending_ok s2" "ep_txq s2 = drop k (ep_txq s)"
      "rb_capacity (ep_sendBuffer s2) = rb_capacity r1" "ep_log s2 = ep_log s"
      "rb_data (ep_sendBuffer s2) = rest @ enc (take k (ep_txq s))"
      using create_messages [OF ok1] r1(3) by auto
    let ?s3 = "s2\<lparr>ep_asio_sending := False\<rparr>"
    have ok3: "sending_ok ?s3" "\<not> ep_asio_sending ?s3" using c(2) by (simp_all add: sending_ok_def)
    have "enc (ep_txq s) = enc (take k (ep_txq s)) @ enc (drop k (ep_txq s))"
      by (simp add: concat_append [symmetric] map_append [symmetric] del: concat_append map_append)
    then have tot: "concat (writes ?s3) @ rb_data (ep_sendBuffer ?s3) @ enc (ep_txq ?s3) = enc acc"
      using w c(3,5,6) by (simp add: writes_def)
    obtain s4 where s4: "ep_run_sending put ?s3 = (Inr (), s4)" "wire_ok (acc, s4)"
      "rb_capacity (ep_sendBuffer s4) = rb_capacity (ep_sendBuffer ?s3)"
      using wire_after_run [OF ok3 tot] W c(3) set_drop_subset [of k "ep_txq s"] by (auto simp: wire_ok_def)
    have "ep_state s = RUNNING_ENDPOINT" using ok by (simp add: sending_ok_def)
    then have "ep_complete_sending put EcOk ?n s = (Inr (), s4)"
      using r1(1) c(1) s4(1)
      by (simp add: ep_complete_sending_def pcatch_apply pbind_apply pthen_apply on_send_ring_def)
    with True WAck s4 c(4) r1(4) show ?thesis by simp
  qed
qed

lemma wire_run_ok:
  "wire_ok x \<Longrightarrow> wire_ok (wire_run put es x) \<and>
     rb_capacity (ep_sendBuffer (snd (wire_run put es x))) = rb_capacity (ep_sendBuffer (snd x))"
proof (induction es arbitrary: x)
  case (Cons e es)
  from wire_step_ok [of "fst x" "snd x" e] Cons show ?case by (simp add: wire_run_def)
qed (simp add: wire_run_def)

lemma wire_stream:
  assumes "wire_ok x" "wire_run put es x = (acc, s)"
  shows "\<exists>pending. concat (writes s) @ pending = enc acc"
proof -
  have "wire_ok (acc, s)" using wire_run_ok [OF assms(1), of es] assms(2) by simp
  then show ?thesis by (cases "ep_asio_sending s") (auto simp: wire_ok_def)
qed

lemma wire_drained:
  assumes "wire_ok x" "wire_run put (es @ [WRun]) x = (acc, s)" "\<not> ep_asio_sending s"
    and "\<forall>m \<in> set acc. length (encode m) \<le> rb_capacity (ep_sendBuffer (snd x))"
  shows "concat (writes s) = enc acc"
proof -
  obtain acc0 s0 where s0: "wire_run put es x = (acc0, s0)" by (cases "wire_run put es x")
  then have W: "wire_ok (acc0, s0)" "rb_capacity (ep_sendBuffer s0) = rb_capacity (ep_sendBuffer (snd x))"
    using wire_run_ok [OF assms(1), of es] by auto
  have s: "acc = acc0" "s = snd (ep_run_sending put s0)" using assms(2) s0 by (auto simp: wire_run_def)
  have idle: "\<not> ep_asio_sending s0"
    using assms(3) s(2) by (cases "ep_asio_sending s0") (auto simp: ep_run_sending_def pbind_apply)
  with W have "sending_ok s0" "concat (writes s0) @ rb_data (ep_sendBuffer s0) @ enc (ep_txq s0) = enc acc" "set (ep_txq s0) \<subseteq> set acc"
    by (auto simp: wire_ok_def s(1))
  from wire_after_run [OF this(1) idle this(2,3)] s assms(3) have after: "wire_ok (acc, s)" "rb_data (ep_sendBuffer s) = []"
    "ep_txq s = [] \<or> rb_capacity (ep_sendBuffer s0) < length (encode (hd (ep_txq s)))"
    by auto
  moreover have "\<not> rb_capacity (ep_sendBuffer s0) < length (encode (hd (ep_txq s)))" if "ep_txq s \<noteq> []"
    using assms(4) W(2) after(1) hd_in_set [OF that] by (auto simp: not_less wire_ok_def)
  ultimately have "ep_txq s = []" by blast
  with after assms(3) show ?thesis by (auto simp: wire_ok_def)
qed

end

subsection \<open>The agent protocol\<close>

lemma agent_writer:
  assumes "sender_params_ok byteSize serialize full" "e = LITTLE \<or> e = NETWORK"
  shows "stream_writer (pms_checkForSpace byteSize serialize full) (frame e \<circ> serialize)
    (\<lambda>p. ps_endpoint p \<and> ps_sender p = e)"
proof (unfold_locales, goal_cases)
  case (1 p txq space)
  let ?b = "cb_new space"
  have nb: "?b = ccb_new space" by (simp add: cb_new_def ccb_new_def)
  have R: "cb_readable ?b" "cb_rest ?b = concat space" using ccb_new_rest [of space] nb by simp_all
  have ok: "cb_ok ?b" using R(1) by (simp add: cb_readable_def)
  have b0: "cb_current ?b = 0" "cb_flat ?b = concat space" by (simp_all add: cb_new_def cb_flat_def)
  have sz: "cb_size ?b = int (length (concat space))"
    using length_cb_rest [OF R(1)] by (simp add: R(2) ccb_remainingData_def b0)
  define fr where "fr k = concat (map (frame e \<circ> serialize) (take k txq))" for k
  obtain k s' where S: "pms_loop byteSize serialize full txq ?b 0 p =
      (Inr (length (fr k), 0), drop k txq, cb_oflow_all (fr k) ?b, s')" "s' = p\<lparr>ps_wakes := ps_wakes s'\<rparr>" "k \<le> length txq"
    "cb_current ?b + int (length (fr k)) \<le> max (cb_current ?b) (cb_size ?b)"
    "k < length txq \<longrightarrow> cb_remainingSpace ?b < int (length (fr (Suc k)))"
    using sender_frames [OF assms(1) _ _ assms(2) ok, of p txq 0] 1 by (auto simp: fr_def)
  have fit: "cb_current ?b + int (length (fr k)) \<le> cb_size ?b" using S(4) by (simp add: b0 sz)
  note O = oflow_all_flat [OF ok fit]
  have le: "length (fr k) \<le> length (concat space)" using fit by (simp add: b0 sz)
  have flat: "concat (cb_buffers (cb_oflow_all (fr k) ?b)) = fr k @ drop (length (fr k)) (concat space)"
    using O(1) b0 by (simp add: cb_flat_def overwrite_def)
  have big: "k < length txq \<longrightarrow> length (concat space) < length (fr k) + length ((frame e \<circ> serialize) (txq ! k))"
    using S(5) by (auto simp: cb_remainingSpace_def b0 sz fr_def take_Suc_conv_app_nth)
  have w: "ps_endpoint s' \<and> ps_sender s' = e" using S(2) 1 by (metis proto_state.select_convs(2,3) proto_state.surjective proto_state.update_convs(5))
  show ?case
    using S(1,3) le flat big w O(5)
    by (intro exI [of _ k] exI [of _ "cb_buffers (cb_oflow_all (fr k) ?b)"] exI [of _ s'])
       (simp add: pms_checkForSpace_def fr_def [symmetric] cb_new_def Let_def)
qed

text \<open>The contract on messages of one byte.\<close>

definition byte_writer :: "(byte, proto_state) writer_if" where
  "byte_writer = pms_checkForSpace (\<lambda>_. 1) (\<lambda>b. [b]) (\<lambda>n. BUFFER_SIZE_LIMIT \<le> n)"

lemma byte_params: "sender_params_ok (\<lambda>_. 1) (\<lambda>b :: byte. [b]) (\<lambda>n. BUFFER_SIZE_LIMIT \<le> n)"
  by (simp add: sender_params_ok_def BUFFER_SIZE_LIMIT_def)

interpretation byte_wire: stream_writer byte_writer "frame LITTLE \<circ> (\<lambda>b. [b])" "\<lambda>p. ps_endpoint p \<and> ps_sender p = LITTLE"
  unfolding byte_writer_def by (rule agent_writer [OF byte_params]) simp

text \<open>
  C6. A connection sends its queue: on a running endpoint with nothing queued, buffered or under way, whatever
  messages are offered and however sending and completions of writes interleave, what was given to the socket
  is a prefix of the frames of the accepted messages, in the order in which they were accepted; and whenever
  after a call of \<^verbatim>\<open>run_sending\<close> no write is under way, all of them are on the wire, provided that the frame of
  every accepted message fits into the ring (one that does not stays in the queue for ever, and everything behind it). This ties the queue, the writer, the ring and the endpoint together.
\<close>

theorem endpoint_sends_stream:
  assumes par: "sender_params_ok byteSize serialize (\<lambda>n. BUFFER_SIZE_LIMIT \<le> n)" and e: "e = LITTLE \<or> e = NETWORK"
    and s: "ep_state s = RUNNING_ENDPOINT" "\<not> ep_asio_sending s" "rb_inv (ep_sendBuffer s)" "rb_data (ep_sendBuffer s) = []"
      "ep_txq s = []" "writes s = []" "ps_endpoint (ep_proto s)" "ps_sender (ep_proto s) = e"
    and run: "wire_run (pms_checkForSpace byteSize serialize (\<lambda>n. BUFFER_SIZE_LIMIT \<le> n)) es ([], s) = (acc, s')"
  shows "(\<exists>pending. concat (writes s') @ pending = concat (map (frame e \<circ> serialize) acc)) \<and>
    (\<forall>es'. es = es' @ [WRun] \<and> \<not> ep_asio_sending s' \<and> (\<forall>m \<in> set acc. 4 + length (serialize m) \<le> rb_capacity (ep_sendBuffer s)) \<longrightarrow>
       concat (writes s') = concat (map (frame e \<circ> serialize) acc))"
proof -
  let ?put = "pms_checkForSpace byteSize serialize (\<lambda>n. BUFFER_SIZE_LIMIT \<le> n)"
  note sw = agent_writer [OF par e]
  have "stream_writer.wire_ok (frame e \<circ> serialize) (\<lambda>p. ps_endpoint p \<and> ps_sender p = e) ([], s)"
    using s by (simp add: stream_writer.wire_ok_def [OF sw] stream_writer.sending_ok_def [OF sw])
  note ok = this
  have len: "length ((frame e \<circ> serialize) m) = 4 + length (serialize m)" for m using e by auto
  have "concat (writes s') = concat (map (frame e \<circ> serialize) acc)"
    if "es = es' @ [WRun]" "\<not> ep_asio_sending s'" "\<forall>m \<in> set acc. 4 + length (serialize m) \<le> rb_capacity (ep_sendBuffer s)" for es'
    using stream_writer.wire_drained [OF sw ok _ that(2), of es'] run that(1,3) len by simp
  then show ?thesis using stream_writer.wire_stream [OF sw ok run] by blast
qed

definition demo_sender :: "(byte, proto_state) endpoint" where
  "demo_sender = (ep_new [0, 0, 0, 0, 0, 0, 0, 0] [0] (pme_new\<lparr>ps_sender := LITTLE\<rparr>))\<lparr>ep_state := RUNNING_ENDPOINT\<rparr>"

lemma demo_sender_drains:
  "let x = wire_run byte_writer [WSend 7, WRun, WSend 8, WAck, WAck, WRun] ([], demo_sender)
   in fst x = [7, 8] \<and> \<not> ep_asio_sending (snd x)"
  by code_simp

theorem endpoint_sends_stream_witness:
  "let x = wire_run byte_writer [WSend 7, WRun, WSend 8, WAck, WAck, WRun] ([], demo_sender)
   in fst x = [7, 8] \<and> concat (writes (snd x)) = [1, 0, 0, 0, 7, 1, 0, 0, 0, 8]"
proof -
  let ?es = "[WSend 7, WRun, WSend 8, WAck, WAck, WRun]"
  have "rb_inv (rb_new [0, 0, 0, 0, 0, 0, 0, 0])" by (rule rb_new_inv) simp_all
  then have s: "ep_state demo_sender = RUNNING_ENDPOINT" "\<not> ep_asio_sending demo_sender" "rb_inv (ep_sendBuffer demo_sender)"
    "rb_data (ep_sendBuffer demo_sender) = []" "ep_txq demo_sender = []" "writes demo_sender = []"
    "ps_endpoint (ep_proto demo_sender)" "ps_sender (ep_proto demo_sender) = LITTLE"
    by (simp_all add: demo_sender_def ep_new_def rb_new_data writes_def pme_new_def)
  have cap: "rb_capacity (ep_sendBuffer demo_sender) = 8"
    by (simp add: demo_sender_def ep_new_def rb_capacity_def rb_new_def rb_clear_def)
  obtain acc s' where run: "wire_run byte_writer ?es ([], demo_sender) = (acc, s')" by fastforce
  with demo_sender_drains have "acc = [7, 8]" "\<not> ep_asio_sending s'" by (simp_all add: Let_def)
  moreover have "?es = [WSend 7, WRun, WSend 8, WAck, WAck] @ [WRun]" by simp
  ultimately have "concat (writes s') = concat (map (frame LITTLE \<circ> (\<lambda>b. [b])) acc)"
    using endpoint_sends_stream [OF byte_params _ s, folded byte_writer_def, OF _ run] cap by fastforce
  moreover have "rev (be_bytes 1) = [1, 0, 0, 0]" by code_simp
  ultimately show ?thesis using run \<open>acc = [7, 8]\<close> by (simp add: frame_def)
qed

end
