(* ===== verification/Delivery.thy ===== *)
theory Delivery
  imports EndpointSending Tasks
begin

text \<open>
  The tasks that put one message on a connection: \<^verbatim>\<open>TSendProtoTask\<close> (\<^verbatim>\<open>mt-core/tasks-base/src/cpp\<close>) and the
  body of \<^verbatim>\<open>AgentToAgentMessageTask\<close> (\<^verbatim>\<open>mt-core/tasks/src/cpp\<close>), with \<^verbatim>\<open>Agent\<close> forwarding to its endpoint. A
  task that defers is made runnable by the notification of the endpoint's queue.
\<close>

definition agent_send :: "'m \<Rightarrow> (('m, 'p) endpoint, send_result) prog" where
  "agent_send m = ep_send m"

definition agent_run_sending :: "('m, 'p) writer_if \<Rightarrow> (('m, 'p) endpoint, unit) prog" where
  "agent_run_sending wr = ep_run_sending wr"

definition send_task_run :: "('m, 'p) writer_if \<Rightarrow> 'm \<Rightarrow> (('m, 'p) endpoint, exit_state) prog" where
  "send_task_run wr m = pbind (ep_send m) (\<lambda>r. case r of
     MustWait \<Rightarrow> pret DEFER
   | Queued \<Rightarrow> pthen (ep_run_sending wr) (pret COMPLETE))"

definition a2a_run :: "('m, 'p) writer_if \<Rightarrow> 'm \<Rightarrow> (('m, 'p) endpoint, exit_state) prog" where
  "a2a_run wr m = pbind (agent_send m) (\<lambda>r. case r of
     MustWait \<Rightarrow> pret DEFER
   | Queued \<Rightarrow> pthen (agent_run_sending wr) (pret COMPLETE))"

text \<open>A delivery is a send followed by a run of the sender; it defers exactly when the queue is full.\<close>

lemma send_task_wire:
  "send_task_run wr m s = (if ep_IsTXQFull s then (Inr DEFER, s)
     else case ep_run_sending wr (s\<lparr>ep_txq := ep_txq s @ [m]\<rparr>) of
       (Inl e, s') \<Rightarrow> (Inl e, s') | (Inr u, s') \<Rightarrow> (Inr COMPLETE, s'))"
  by (simp add: send_task_run_def ep_send_def ep_IsTXQFull_def pbind_apply pthen_apply not_less split: prod.split sum.split)

lemma a2a_run_eq: "a2a_run = send_task_run"
  unfolding a2a_run_def [abs_def] send_task_run_def [abs_def] agent_send_def agent_run_sending_def ..

end
