(* ===== verification/Session.thy ===== *)
theory Session
  imports Karma Uris Endpoint
begin

text \<open>
  A connected agent: \<^verbatim>\<open>mt-core/comms/src/cpp/OefAgentEndpoint.cpp\<close>, the handshakes and the dispatcher of
  requests under \<^verbatim>\<open>mt-core/oef-functions/src/cpp\<close>, \<^verbatim>\<open>mt-core/agents\<close>, and the constructor of
  \<^verbatim>\<open>AgentToAgentMessageTask\<close>. Connections and agents share one table of agents and one karma policy. The
  protobuf parsers are parameters; tasks are recorded as they are submitted, with their group.
\<close>

subsection \<open>Messages\<close>

datatype dialogue_payload = NoPayload | Content "byte list" | Fipa "byte list"

text \<open>\<^verbatim>\<open>Agent.Message\<close>: an absent string field reads as the empty string.\<close>

record agent_message =
  am_dialogue_id :: int
  am_destination :: string
  am_target_uri :: string
  am_source_uri :: string
  am_payload :: dialogue_payload

datatype payload =
    PPong
  | PSendMessage agent_message
  | PRegisterService "byte list"
  | PUnregisterService "byte list"
  | PRegisterDescription "byte list"
  | PUnregisterDescription
  | PSearchAgents "byte list"
  | PSearchServices "byte list"
  | PSearchServicesWide "byte list"
  | PNotSet
  | PUnknown

record envelope =
  en_msg_id :: int
  en_agent_uri :: string
  en_payload :: payload

datatype operation = REGISTER_SERVICE | UNREGISTER_SERVICE | REGISTER_DESCRIPTION | UNREGISTER_DESCRIPTION
  | SEARCH_SERVICES | SEARCH_SERVICES_WIDE | SEARCH_AGENTS | SEND_MESSAGE | OTHER

text \<open>What the server sends: the answer id first where there is one.\<close>

datatype server_message =
    SPhrase string
  | SConnected bool
  | SPing int
  | SContent int string string int string dialogue_payload
  | SDialogueError int int string
  | SOefError int operation string string

subsection \<open>State\<close>

datatype hs_state = WAITING_FOR_Agent_Server_ID | WAITING_FOR_Agent_Server_Answer

text \<open>The task factory of a connection: a handshake with the public key claimed so far, or the dispatcher.\<close>

datatype factory = Handshake hs_state string | SslHandshake string | Functions string

record conn =
  cn_ident :: nat
  cn_factory :: "factory option"
  cn_states :: "(string \<times> bool) list"
  cn_heartbeats :: u32
  cn_account :: karma_account
  cn_will_heartbeat :: bool
  cn_remote :: string

record agent =
  ag_key :: string
  ag_conn :: nat

text \<open>
  Tasks, with the connection they serve: sending a message, the heartbeat, delivering a message to an agent, and
  the search conversations (message id, core key, agent, and what else the task was given).
\<close>

datatype job =
    SendJob nat server_message
  | HeartbeatJob nat
  | DeliverJob nat server_message
  | UpdateJob nat int string string "byte list"
  | RemoveJob nat int string string "byte list option" bool
  | QueryJob nat int string string "byte list" nat

datatype effect = Submit nat job | CancelGroup nat | CloseSocket nat

record server =
  sv_conns :: "nat \<Rightarrow> conn"
  sv_agents :: "(string \<times> agent) list"
  sv_karma :: karma_state
  sv_core_key :: string
  sv_count :: nat
  sv_thread_group :: nat
  sv_log :: "effect list"

record parsers =
  pr_id :: "byte list \<Rightarrow> (string \<times> nat) option"
  pr_answer :: "byte list \<Rightarrow> (bool \<times> nat) option"
  pr_envelope :: "byte list \<Rightarrow> (envelope \<times> nat) option"

definition sv_set :: "nat \<Rightarrow> (conn \<Rightarrow> conn) \<Rightarrow> (server, unit) prog" where
  "sv_set c f = pmodify (\<lambda>w. w\<lparr>sv_conns := (sv_conns w)(c := f (sv_conns w c))\<rparr>)"

definition sv_record :: "effect \<Rightarrow> (server, unit) prog" where
  "sv_record e = pmodify (\<lambda>w. w\<lparr>sv_log := sv_log w @ [e]\<rparr>)"

text \<open>A new task belongs to the group of the thread that makes it.\<close>

definition sv_submit :: "job \<Rightarrow> (server, unit) prog" where
  "sv_submit j = pbind (pget sv_thread_group) (\<lambda>g. sv_record (Submit g j))"

subsection \<open>\<^verbatim>\<open>Agents\<close>\<close>

definition ags_add :: "string \<Rightarrow> nat \<Rightarrow> (server, unit) prog" where
  "ags_add key c = pmodify (\<lambda>w. w\<lparr>sv_agents := omap_insert key \<lparr>ag_key = key, ag_conn = c\<rparr> (sv_agents w)\<rparr>)"

definition ags_remove :: "string \<Rightarrow> (server, unit) prog" where
  "ags_remove key = pmodify (\<lambda>w. w\<lparr>sv_agents := omap_erase key (sv_agents w)\<rparr>)"

definition ags_find :: "string \<Rightarrow> server \<Rightarrow> agent option" where
  "ags_find key w = map_of (sv_agents w) key"

subsection \<open>\<^verbatim>\<open>OefAgentEndpoint\<close>\<close>

text \<open>The identity of an endpoint is the value of the gauge that counts the endpoints alive.\<close>

definition oae_new :: "nat \<Rightarrow> string \<Rightarrow> factory \<Rightarrow> (server, unit) prog" where
  "oae_new c remote f = pmodify (\<lambda>w. w\<lparr>sv_count := sv_count w + 1,
     sv_conns := (sv_conns w)(c := \<lparr>cn_ident = sv_count w + 1, cn_factory = Some f, cn_states = [], cn_heartbeats = 0,
       cn_account = \<lparr>ka_id = 0, ka_policy = VoidPolicy, ka_name = []\<rparr>, cn_will_heartbeat = False, cn_remote = remote\<rparr>)\<rparr>)"

definition oae_destroy :: "nat \<Rightarrow> (server, unit) prog" where
  "oae_destroy c = pmodify (\<lambda>w. w\<lparr>sv_count := sv_count w - 1\<rparr>)"

definition oae_close :: "nat \<Rightarrow> (server, unit) prog" where
  "oae_close c = sv_record (CloseSocket c)"

definition oae_setState :: "nat \<Rightarrow> string \<Rightarrow> bool \<Rightarrow> (server, unit) prog" where
  "oae_setState c n v = sv_set c (\<lambda>x. x\<lparr>cn_states := omap_insert n v (cn_states x)\<rparr>)"

definition oae_getState :: "nat \<Rightarrow> string \<Rightarrow> server \<Rightarrow> bool" where
  "oae_getState c n w = (case map_of (cn_states (sv_conns w c)) n of None \<Rightarrow> False | Some v \<Rightarrow> v)"

definition on_karma :: "(karma_state, 'a) prog \<Rightarrow> (server, 'a) prog" where
  "on_karma m = (\<lambda>w. case m (sv_karma w) of (r, k) \<Rightarrow> (r, w\<lparr>sv_karma := k\<rparr>))"

text \<open>\<^verbatim>\<open>karma . perform(action)\<close>; its answer is not looked at.\<close>

definition oae_perform :: "nat \<Rightarrow> string \<Rightarrow> (server, unit) prog" where
  "oae_perform c action = pbind (pget (\<lambda>w. cn_account (sv_conns w c))) (\<lambda>a.
     pthen (on_karma (ka_perform a action False)) (pret ()))"

definition oae_upgrade :: "nat \<Rightarrow> string \<Rightarrow> string \<Rightarrow> (server, unit) prog" where
  "oae_upgrade c pubkey ip = pbind (pget (\<lambda>w. cn_account (sv_conns w c))) (\<lambda>a.
     pbind (on_karma (ka_upgrade a pubkey ip)) (\<lambda>a'. sv_set c (\<lambda>x. x\<lparr>cn_account := a'\<rparr>)))"

text \<open>The start handler: the account of the remote address, of the policy the server was configured with.\<close>

definition oae_on_start :: "bool \<Rightarrow> nat \<Rightarrow> (server, unit) prog" where
  "oae_on_start basic c = pbind (pget (\<lambda>w. cn_remote (sv_conns w c))) (\<lambda>r.
     pbind (on_karma (if basic then kp_getAccount r [] else kpn_getAccount r [])) (\<lambda>a.
     pthen (sv_set c (\<lambda>x. x\<lparr>cn_account := a\<rparr>)) (oae_perform c ''login'')))"

definition oae_setFactory :: "nat \<Rightarrow> factory \<Rightarrow> (server, unit) prog" where
  "oae_setFactory c f = sv_set c (\<lambda>x. x\<lparr>cn_factory := Some f\<rparr>)"

definition oae_heartbeat :: "nat \<Rightarrow> (server, unit) prog" where
  "oae_heartbeat c = pcatch
     (pbind (pget (\<lambda>w. cn_heartbeats (sv_conns w c))) (\<lambda>n.
      pthen (if 0 < n then oae_perform c (''comms.outstanding_heartbeats.'' @ nat_str (unat n)) else pret ())
     (pthen (sv_submit (SendJob c (SPing 0)))
            (sv_set c (\<lambda>x. x\<lparr>cn_heartbeats := cn_heartbeats x + 1\<rparr>)))))
     (\<lambda>e. case e of XKarma x \<Rightarrow> oae_close c | _ \<Rightarrow> pthrow e)"

definition oae_heartbeat_recvd :: "nat \<Rightarrow> (server, unit) prog" where
  "oae_heartbeat_recvd c = sv_set c (\<lambda>x. x\<lparr>cn_heartbeats := cn_heartbeats x - 1\<rparr>)"

text \<open>
  The heartbeat task and the login timeout: \<open>alive\<close> is whether the weak pointer still locks. The heartbeat
  submits itself again after a second.
\<close>

definition heartbeat_run :: "bool \<Rightarrow> nat \<Rightarrow> (server, bool) prog" where
  "heartbeat_run alive c = (if alive then pthen (oae_heartbeat c) (pret True) else pret False)"

definition login_timeout_run :: "bool \<Rightarrow> nat \<Rightarrow> (server, unit) prog" where
  "login_timeout_run alive c = (if alive then pbind (pget (oae_getState c ''loggedin'')) (\<lambda>l.
     if \<not> l then oae_close c else pret ()) else pret ())"

subsection \<open>Reading protobufs\<close>

text \<open>\<open>parse\<close> gives the message and how many bytes the stream gave up.\<close>

definition read_sized :: "(byte list \<Rightarrow> ('a \<times> nat) option) \<Rightarrow> byte list \<Rightarrow> nat \<Rightarrow> exn + 'a" where
  "read_sized parse chars expected_size = (case parse chars of
     None \<Rightarrow> Inl (InvalidArgument ''Failed proto deserialisation.'')
   | Some (m, eaten) \<Rightarrow>
       if eaten \<noteq> expected_size
       then Inl (InvalidArgument (''Proto deserialisation used '' @ nat_str eaten @ '' bytes instead of '' @
              nat_str expected_size @ ''.''))
       else Inr m)"

definition read_all :: "(byte list \<Rightarrow> ('a \<times> nat) option) \<Rightarrow> byte list \<Rightarrow> exn + 'a" where
  "read_all parse chars = (case parse chars of
     None \<Rightarrow> Inl (InvalidArgument ''Failed proto deserialisation.'')
   | Some (m, eaten) \<Rightarrow>
       if length chars - eaten \<noteq> 0
       then Inl (InvalidArgument (''Proto deserialisation left used '' @ nat_str (length chars - eaten) @ ''unused bytes.''))
       else Inr m)"

subsection \<open>The handshakes\<close>

text \<open>The white list and what the TLS layer knows: the peer's key on a connection, and its short form.\<close>

record tls =
  tl_peer_key :: "nat \<Rightarrow> string"
  tl_short :: "string \<Rightarrow> string"
  tl_white_list :: "string list"
  tl_enabled :: bool

definition hs_become :: "nat \<Rightarrow> factory \<Rightarrow> (server, unit) prog" where
  "hs_become c f = sv_set c (\<lambda>x. x\<lparr>cn_factory := Some f\<rparr>)"

definition hs_set_heartbeat :: "nat \<Rightarrow> bool \<Rightarrow> (server, unit) prog" where
  "hs_set_heartbeat c b = sv_set c (\<lambda>x. x\<lparr>cn_will_heartbeat := b\<rparr>)"

definition hs_id :: "parsers \<Rightarrow> nat \<Rightarrow> byte list \<Rightarrow> (server, unit) prog" where
  "hs_id ps c data = pbind (plift (read_all (pr_id ps) data)) (\<lambda>key.
     pthen (hs_become c (Handshake WAITING_FOR_Agent_Server_ID key))
    (pthen (sv_submit (SendJob c (SPhrase ''RandomlyGeneratedString'')))
           (hs_become c (Handshake WAITING_FOR_Agent_Server_Answer key))))"

text \<open>What both handshakes do for an agent they accept.\<close>

definition hs_enter :: "nat \<Rightarrow> string \<Rightarrow> (server, unit) prog" where
  "hs_enter c key =
     pthen (ags_add key c)
    (pthen (oae_upgrade c [] key)
    (pthen (oae_perform c ''login'')
    (pbind (pget (\<lambda>w. cn_will_heartbeat (sv_conns w c))) (\<lambda>h.
     pthen (if h then sv_submit (HeartbeatJob c) else pret ())
           (oae_setState c ''loggedin'' True)))))"

definition hs_answer :: "parsers \<Rightarrow> nat \<Rightarrow> string \<Rightarrow> byte list \<Rightarrow> (server, unit) prog" where
  "hs_answer ps c key data = pbind (plift (read_all (pr_answer ps) data)) (\<lambda>will.
     pthen (hs_set_heartbeat c will)
    (pthen (sv_submit (SendJob c (SConnected True)))
    (pthen (hs_become c (Handshake WAITING_FOR_Agent_Server_Answer key))
    (pthen (hs_enter c key)
           (oae_setFactory c (Functions key))))))"

text \<open>\<^verbatim>\<open>throw ex\<close> copies the caught object as a \<^verbatim>\<open>std::exception\<close>.\<close>

definition hs_rethrow :: "exn \<Rightarrow> (server, unit) prog" where
  "hs_rethrow e = pthrow (if is_std_exception e then StdException else e)"

definition hs_process :: "parsers \<Rightarrow> hs_state \<Rightarrow> string \<Rightarrow> nat \<Rightarrow> byte list \<Rightarrow> (server, unit) prog" where
  "hs_process ps st key c data = pcatch
     (case st of WAITING_FOR_Agent_Server_ID \<Rightarrow> hs_id ps c data | WAITING_FOR_Agent_Server_Answer \<Rightarrow> hs_answer ps c key data)
     hs_rethrow"

definition ssl_process :: "parsers \<Rightarrow> tls \<Rightarrow> nat \<Rightarrow> byte list \<Rightarrow> (server, unit) prog" where
  "ssl_process ps tls c data = pbind (plift (read_all (pr_answer ps) data)) (\<lambda>will.
     pthen (hs_set_heartbeat c will)
    (let ssl_key = tl_peer_key tls c; key = tl_short tls ssl_key in
     pthen (hs_become c (SslHandshake key))
    (if ssl_key \<in> set (tl_white_list tls) \<or> \<not> tl_enabled tls
     then pthen (sv_submit (SendJob c (SConnected True)))
         (pthen (hs_enter c key)
         (pthen (oae_setState c ''ssl'' True)
                (oae_setFactory c (Functions key))))
     else sv_submit (SendJob c (SConnected False)))))"

subsection \<open>\<^verbatim>\<open>AgentToAgentMessageTask\<close>\<close>

definition a2a_message :: "int \<Rightarrow> agent_message \<Rightarrow> oef_uri \<Rightarrow> string \<Rightarrow> server_message" where
  "a2a_message i m uri public_key = SContent i (am_source_uri m)
     (if length (am_target_uri m) = 0 then oef_toString uri else am_target_uri m) (am_dialogue_id m) public_key (am_payload m)"

definition a2a_dialogue_error :: "int \<Rightarrow> agent_message \<Rightarrow> server_message" where
  "a2a_dialogue_error i m = SDialogueError i (am_dialogue_id m) (am_destination m)"

text \<open>The constructor, and the submission that follows it. The source agent may be null.\<close>

definition a2a_task :: "string \<Rightarrow> int \<Rightarrow> agent_message \<Rightarrow> (server, unit) prog" where
  "a2a_task key i m = pbind (pget (ags_find key)) (\<lambda>src.
     pbind (plift (oef_parseAgent (am_destination m) oef_uri_new)) (\<lambda>uri.
     pbind (pget (ags_find (ou_agentKey uri))) (\<lambda>dst.
     case src of None \<Rightarrow> pthrow Undefined | Some s \<Rightarrow>
       (case dst of
          None \<Rightarrow> sv_submit (DeliverJob (ag_conn s) (a2a_dialogue_error i m))
        | Some d \<Rightarrow> sv_submit (DeliverJob (ag_conn d) (a2a_message i m uri (ag_key s)))))))"

subsection \<open>\<^verbatim>\<open>OefFunctionsTaskFactory\<close>\<close>

fun fn_operation :: "payload \<Rightarrow> operation" where
  "fn_operation (PSendMessage m) = SEND_MESSAGE"
| "fn_operation (PRegisterService d) = REGISTER_SERVICE"
| "fn_operation (PUnregisterService d) = UNREGISTER_SERVICE"
| "fn_operation (PRegisterDescription d) = REGISTER_DESCRIPTION"
| "fn_operation PUnregisterDescription = UNREGISTER_DESCRIPTION"
| "fn_operation (PSearchAgents q) = SEARCH_AGENTS"
| "fn_operation (PSearchServices q) = SEARCH_SERVICES"
| "fn_operation (PSearchServicesWide q) = SEARCH_SERVICES_WIDE"
| "fn_operation _ = OTHER"

definition fn_conversation :: "nat \<Rightarrow> string \<Rightarrow> (string \<Rightarrow> job) \<Rightarrow> (server, unit) prog" where
  "fn_conversation c action task = pthen (oae_perform c action)
     (pbind (pget sv_core_key) (\<lambda>core. sv_submit (task core)))"

text \<open>The switch. An empty description is the empty list of bytes.\<close>

definition fn_switch :: "string \<Rightarrow> nat \<Rightarrow> oef_uri \<Rightarrow> envelope \<Rightarrow> (server, unit) prog" where
  "fn_switch key c uri en =
     (let i = en_msg_id en; agent = oef_agentPartAsString uri; whole = oef_toString uri in
      case en_payload en of
        PUnknown \<Rightarrow> pthen (oae_perform c ''oef.bad.unknown-message'') (pthrow (XError ''unknown message''))
      | PPong \<Rightarrow> oae_heartbeat_recvd c
      | PSendMessage m \<Rightarrow> pthen (oae_perform c ''oef.kSendMessage'') (a2a_task key i m)
      | PRegisterService d \<Rightarrow> fn_conversation c ''oef.kRegisterService'' (\<lambda>core. UpdateJob c i core agent d)
      | PUnregisterService d \<Rightarrow> fn_conversation c ''oef.kUnregisterService'' (\<lambda>core. RemoveJob c i core agent (Some d) False)
      | PRegisterDescription d \<Rightarrow> fn_conversation c ''oef.kRegisterDescription'' (\<lambda>core. UpdateJob c i core agent d)
      | PUnregisterDescription \<Rightarrow> fn_conversation c ''oef.kUnregisterDescription'' (\<lambda>core. RemoveJob c i core agent (Some []) False)
      | PSearchAgents q \<Rightarrow> fn_conversation c ''oef.kSearchAgents'' (\<lambda>core. QueryJob c i core whole q 1)
      | PSearchServices q \<Rightarrow> fn_conversation c ''oef.kSearchServices'' (\<lambda>core. QueryJob c i core whole q 1)
      | PSearchServicesWide q \<Rightarrow> fn_conversation c ''oef.kSearchServicesWide'' (\<lambda>core. QueryJob c i core whole q 4)
      | PNotSet \<Rightarrow> pthen (oae_perform c ''oef.bad.nopayload'') (pthrow (XError ''payload not set'')))"

definition fn_error :: "nat \<Rightarrow> int \<Rightarrow> operation \<Rightarrow> exn \<Rightarrow> (server, unit) prog" where
  "fn_error c i op e = (case e of
     XError x \<Rightarrow> sv_submit (SendJob c (SOefError i op ''ERROR'' x))
   | XKarma x \<Rightarrow> sv_submit (SendJob c (SOefError i op ''KARMA'' x))
   | _ \<Rightarrow> pthrow e)"

definition fn_serve :: "string \<Rightarrow> nat \<Rightarrow> oef_uri \<Rightarrow> envelope \<Rightarrow> (server, unit) prog" where
  "fn_serve key c uri en = pcatch (fn_switch key c uri en) (fn_error c (en_msg_id en) (fn_operation (en_payload en)))"

definition fn_process :: "parsers \<Rightarrow> string \<Rightarrow> nat \<Rightarrow> byte list \<Rightarrow> (server, unit) prog" where
  "fn_process ps key c data = pbind (plift (read_sized (pr_envelope ps) data (length data))) (\<lambda>en.
     pbind (plift (oef_parse (en_agent_uri en) oef_uri_new)) (\<lambda>uri.
     fn_serve key c (uri\<lparr>ou_agentKey := key\<rparr>) en))"

text \<open>The search is told to forget the agent, under a random message id, in the group of no connection.\<close>

definition fn_endpointClosed :: "string \<Rightarrow> nat \<Rightarrow> nat \<Rightarrow> (server, unit) prog" where
  "fn_endpointClosed key c random = pthen (ags_remove key)
     (pbind (pget sv_core_key) (\<lambda>core. sv_record (Submit 0 (RemoveJob c (int random) core key None True))))"

subsection \<open>The handlers of a connection\<close>

definition fa_process :: "parsers \<Rightarrow> tls \<Rightarrow> factory \<Rightarrow> nat \<Rightarrow> byte list \<Rightarrow> (server, unit) prog" where
  "fa_process ps tls f c data = (case f of
     Handshake st key \<Rightarrow> hs_process ps st key c data
   | SslHandshake key \<Rightarrow> ssl_process ps tls c data
   | Functions key \<Rightarrow> fn_process ps key c data)"

definition fa_closed :: "factory \<Rightarrow> nat \<Rightarrow> nat \<Rightarrow> (server, unit) prog" where
  "fa_closed f c random = (case f of Functions key \<Rightarrow> fn_endpointClosed key c random | _ \<Rightarrow> pret ())"

definition oae_on_complete :: "parsers \<Rightarrow> tls \<Rightarrow> nat \<Rightarrow> byte list \<Rightarrow> (server, unit) prog" where
  "oae_on_complete ps tls c data = pthen (oae_perform c ''message'')
     (pthen (pmodify (\<lambda>w. w\<lparr>sv_thread_group := cn_ident (sv_conns w c)\<rparr>))
     (pbind (pget (\<lambda>w. cn_factory (sv_conns w c))) (\<lambda>f.
      case f of None \<Rightarrow> pthrow Undefined | Some f \<Rightarrow> fa_process ps tls f c data)))"

text \<open>The error, end-of-file and protocol-error handlers differ in the karma action alone.\<close>

definition oae_on_end :: "string \<Rightarrow> nat \<Rightarrow> nat \<Rightarrow> (server, unit) prog" where
  "oae_on_end action random c = pthen (oae_perform c action)
     (pbind (pget (\<lambda>w. cn_factory (sv_conns w c))) (\<lambda>f.
      case f of None \<Rightarrow> pthrow Undefined | Some f \<Rightarrow>
        pthen (fa_closed f c random)
       (pthen (sv_set c (\<lambda>x. x\<lparr>cn_factory := None\<rparr>))
       (pbind (pget (\<lambda>w. cn_ident (sv_conns w c))) (\<lambda>g. sv_record (CancelGroup g))))))"

definition oae_on_error :: "nat \<Rightarrow> nat \<Rightarrow> (server, unit) prog" where
  "oae_on_error = oae_on_end ''error.comms''"

definition oae_on_eof :: "nat \<Rightarrow> nat \<Rightarrow> (server, unit) prog" where
  "oae_on_eof = oae_on_end ''eof''"

definition oae_on_proto_error :: "nat \<Rightarrow> nat \<Rightarrow> (server, unit) prog" where
  "oae_on_proto_error = oae_on_end ''error.proto''"

subsection \<open>Evaluation\<close>

lemma sv_set_apply [simp]: "sv_set c f w = (Inr (), w\<lparr>sv_conns := (sv_conns w)(c := f (sv_conns w c))\<rparr>)"
  by (simp add: sv_set_def)

lemma sv_record_apply [simp]: "sv_record e w = (Inr (), w\<lparr>sv_log := sv_log w @ [e]\<rparr>)"
  by (simp add: sv_record_def)

lemma sv_submit_apply [simp]: "sv_submit j w = (Inr (), w\<lparr>sv_log := sv_log w @ [Submit (sv_thread_group w) j]\<rparr>)"
  by (simp add: sv_submit_def pbind_apply)

lemma perform_state:
  obtains r k where "oae_perform c action w = (r, w\<lparr>sv_karma := k\<rparr>)"
  by (cases "ka_perform (cn_account (sv_conns w c)) action False (sv_karma w)"; cases "fst (ka_perform (cn_account (sv_conns w c)) action False (sv_karma w))")
    (auto simp: oae_perform_def on_karma_def pbind_apply pthen_apply)

lemma perform_log: "sv_log (snd (oae_perform c action w)) = sv_log w"
proof -
  obtain r k where "oae_perform c action w = (r, w\<lparr>sv_karma := k\<rparr>)" by (rule perform_state)
  then show ?thesis by simp
qed

lemma perform_none [simp]:
  "ka_policy (cn_account (sv_conns w c)) = PolicyNone \<Longrightarrow> oae_perform c action w = (Inr (), w)"
  by (simp add: oae_perform_def on_karma_def pbind_apply pthen_apply ka_perform_def kpn_perform_def)

lemma a2a_apply:
  "a2a_task key i m w = (case ags_find key w of
     None \<Rightarrow> (Inl Undefined, w)
   | Some s \<Rightarrow> (let uri = projr (oef_parseAgent (am_destination m) oef_uri_new) in
       (Inr (), w\<lparr>sv_log := sv_log w @ [Submit (sv_thread_group w)
          (case ags_find (ou_agentKey uri) w of
             None \<Rightarrow> DeliverJob (ag_conn s) (a2a_dialogue_error i m)
           | Some d \<Rightarrow> DeliverJob (ag_conn d) (a2a_message i m uri (ag_key s)))]\<rparr>)))"
  using parseAgent_total [of "am_destination m" oef_uri_new]
  by (auto simp: a2a_task_def pbind_apply Let_def split: option.split)

subsection \<open>Requests\<close>

text \<open>The karma action of a request, the task that serves it, and the message id a task carries.\<close>

fun fn_action :: "payload \<Rightarrow> string" where
  "fn_action PPong = []"
| "fn_action (PSendMessage m) = ''oef.kSendMessage''"
| "fn_action (PRegisterService d) = ''oef.kRegisterService''"
| "fn_action (PUnregisterService d) = ''oef.kUnregisterService''"
| "fn_action (PRegisterDescription d) = ''oef.kRegisterDescription''"
| "fn_action PUnregisterDescription = ''oef.kUnregisterDescription''"
| "fn_action (PSearchAgents q) = ''oef.kSearchAgents''"
| "fn_action (PSearchServices q) = ''oef.kSearchServices''"
| "fn_action (PSearchServicesWide q) = ''oef.kSearchServicesWide''"
| "fn_action PNotSet = ''oef.bad.nopayload''"
| "fn_action PUnknown = ''oef.bad.unknown-message''"

definition served_by_delivery :: "job \<Rightarrow> bool" where
  "served_by_delivery j = (case j of DeliverJob d s \<Rightarrow> True | _ \<Rightarrow> False)"

definition served_by_update :: "nat \<Rightarrow> byte list \<Rightarrow> job \<Rightarrow> bool" where
  "served_by_update c x j = (case j of UpdateJob c' i core a y \<Rightarrow> c' = c \<and> y = x | _ \<Rightarrow> False)"

definition served_by_remove :: "nat \<Rightarrow> byte list \<Rightarrow> job \<Rightarrow> bool" where
  "served_by_remove c x j = (case j of RemoveJob c' i core a y whole \<Rightarrow> c' = c \<and> y = Some x \<and> \<not> whole | _ \<Rightarrow> False)"

definition served_by_query :: "nat \<Rightarrow> byte list \<Rightarrow> nat \<Rightarrow> job \<Rightarrow> bool" where
  "served_by_query c x n j = (case j of QueryJob c' i core a y hops \<Rightarrow> c' = c \<and> y = x \<and> hops = n | _ \<Rightarrow> False)"

definition served_by_error :: "nat \<Rightarrow> job \<Rightarrow> bool" where
  "served_by_error c j = (case j of
     SendJob c' (SOefError i op cause detail) \<Rightarrow> c' = c \<and> op = OTHER \<and> cause = ''ERROR'' | _ \<Rightarrow> False)"

lemmas served_simps = served_by_delivery_def served_by_update_def served_by_remove_def served_by_query_def served_by_error_def

fun serves :: "payload \<Rightarrow> nat \<Rightarrow> job \<Rightarrow> bool" where
  "serves PPong c j = False"
| "serves (PSendMessage m) c j = served_by_delivery j"
| "serves (PRegisterService x) c j = served_by_update c x j"
| "serves (PRegisterDescription x) c j = served_by_update c x j"
| "serves (PUnregisterService x) c j = served_by_remove c x j"
| "serves PUnregisterDescription c j = served_by_remove c [] j"
| "serves (PSearchAgents x) c j = served_by_query c x 1 j"
| "serves (PSearchServices x) c j = served_by_query c x 1 j"
| "serves (PSearchServicesWide x) c j = served_by_query c x 4 j"
| "serves PNotSet c j = served_by_error c j"
| "serves PUnknown c j = served_by_error c j"

fun message_id :: "server_message \<Rightarrow> int option" where
  "message_id (SContent i s t d org p) = Some i"
| "message_id (SDialogueError i d org) = Some i"
| "message_id (SOefError i op cause detail) = Some i"
| "message_id (SPing i) = Some i"
| "message_id _ = None"

fun job_id :: "job \<Rightarrow> int option" where
  "job_id (SendJob c m) = message_id m"
| "job_id (DeliverJob c m) = message_id m"
| "job_id (UpdateJob c i core a d) = Some i"
| "job_id (RemoveJob c i core a d w) = Some i"
| "job_id (QueryJob c i core a q h) = Some i"
| "job_id (HeartbeatJob c) = None"

text \<open>When its karma action is allowed, a request makes exactly one task.\<close>

lemma switch_allowed:
  assumes "en_payload en \<noteq> PPong" "(\<forall>m. en_payload en \<noteq> PSendMessage m) \<or> ags_find key w = Some a"
    and "oae_perform c (fn_action (en_payload en)) w = (Inr (), w\<lparr>sv_karma := k\<rparr>)"
  shows "\<exists>j. fn_serve key c uri en w = (Inr (), w\<lparr>sv_karma := k, sv_log := sv_log w @ [Submit (sv_thread_group w) j]\<rparr>) \<and>
    job_id j = Some (en_msg_id en) \<and> serves (en_payload en) c j"
proof (cases "\<exists>m. en_payload en = PSendMessage m")
  case True
  then obtain m where m: "en_payload en = PSendMessage m" by blast
  with assms(2) have a: "ags_find key w = Some a" by simp
  let ?uri = "projr (oef_parseAgent (am_destination m) oef_uri_new)"
  let ?j = "case ags_find (ou_agentKey ?uri) w of
      None \<Rightarrow> DeliverJob (ag_conn a) (a2a_dialogue_error (en_msg_id en) m)
    | Some d \<Rightarrow> DeliverJob (ag_conn d) (a2a_message (en_msg_id en) m ?uri (ag_key a))"
  have "fn_serve key c uri en w = (Inr (), w\<lparr>sv_karma := k, sv_log := sv_log w @ [Submit (sv_thread_group w) ?j]\<rparr>)"
    using m assms(3) a by (simp add: fn_serve_def fn_switch_def pcatch_apply pthen_apply a2a_apply ags_find_def Let_def)
  moreover have "job_id ?j = Some (en_msg_id en) \<and> serves (en_payload en) c ?j"
    by (simp add: m served_simps a2a_message_def a2a_dialogue_error_def split: option.split)
  ultimately show ?thesis by blast
next
  case False
  show ?thesis
    using assms(1,3)
    by (cases "en_payload en")
      (simp_all add: False [simplified] fn_serve_def fn_switch_def fn_conversation_def fn_error_def pcatch_apply pthen_apply
        pbind_apply Let_def served_simps, auto simp: False [simplified])
qed

lemma serves_delivery: "serves p c (DeliverJob d m) \<Longrightarrow> \<exists>a. p = PSendMessage a"
  by (cases p) (simp_all add: served_simps)

lemma switch_refused:
  assumes "en_payload en \<noteq> PPong"
    and "oae_perform c (fn_action (en_payload en)) w = (Inl e, w\<lparr>sv_karma := k\<rparr>)"
  shows "fn_serve key c uri en w = fn_error c (en_msg_id en) (fn_operation (en_payload en)) e (w\<lparr>sv_karma := k\<rparr>)"
  using assms
  by (cases "en_payload en") (auto simp: fn_serve_def fn_switch_def fn_conversation_def pcatch_apply pthen_apply Let_def)

text \<open>
  C10. A request of a registered agent makes one task, unless the karma policy throws something else than a refusal.
  Whatever the request (a pong apart), it changes no connection and no registration. When the karma policy allows the
  action of the request, exactly one task is submitted, the one that serves it (for an unknown or missing payload, the
  error reply), and it carries the message id of the request; when the policy refuses with \<open>XKarma\<close> or \<open>XError\<close>,
  exactly one, the reply with the message id that names the operation and the cause. Any other exception of the
  policy, such as the \<open>XDisconnect\<close> of a policy that disconnects, leaves with that exception: no task is made and
  nothing is replied.
\<close>

theorem request_yields_one_job:
  assumes "ags_find key w = Some a" "en_payload en \<noteq> PPong" "fn_serve key c uri en w = (r, w')"
  shows "sv_conns w' = sv_conns w \<and> sv_agents w' = sv_agents w \<and>
    (case fst (oae_perform c (fn_action (en_payload en)) w) of
       Inr _ \<Rightarrow> r = Inr () \<and> (\<exists>j. sv_log w' = sv_log w @ [Submit (sv_thread_group w) j] \<and>
         job_id j = Some (en_msg_id en) \<and> serves (en_payload en) c j)
     | Inl (XKarma x) \<Rightarrow> r = Inr () \<and> sv_log w' = sv_log w @ [Submit (sv_thread_group w)
         (SendJob c (SOefError (en_msg_id en) (fn_operation (en_payload en)) ''KARMA'' x))]
     | Inl (XError x) \<Rightarrow> r = Inr () \<and> sv_log w' = sv_log w @ [Submit (sv_thread_group w)
         (SendJob c (SOefError (en_msg_id en) (fn_operation (en_payload en)) ''ERROR'' x))]
     | Inl e \<Rightarrow> r = Inl e \<and> sv_log w' = sv_log w)"
proof -
  obtain q k where p: "oae_perform c (fn_action (en_payload en)) w = (q, w\<lparr>sv_karma := k\<rparr>)"
    by (rule perform_state)
  show ?thesis
  proof (cases q)
    case (Inl e)
    show ?thesis
      using switch_refused [OF assms(2) p [unfolded Inl], of key uri] assms(3) p Inl
      by (cases e) (auto simp: fn_error_def)
  next
    case (Inr x)
    with p have p: "oae_perform c (fn_action (en_payload en)) w = (Inr (), w\<lparr>sv_karma := k\<rparr>)" by simp
    show ?thesis using switch_allowed [OF assms(2) disjI2 [OF assms(1)] p, of uri] assms(3) p by auto
  qed
qed

definition demo_account :: karma_account where
  "demo_account = \<lparr>ka_id = 0, ka_policy = PolicyNone, ka_name = ''NO_KARMA_POLICY''\<rparr>"

definition demo_conn :: "nat \<Rightarrow> factory \<Rightarrow> conn" where
  "demo_conn i f = \<lparr>cn_ident = i, cn_factory = Some f, cn_states = [], cn_heartbeats = 0, cn_account = demo_account,
     cn_will_heartbeat = False, cn_remote = ''10.0.0.1''\<rparr>"

definition demo_server :: "(nat \<Rightarrow> conn) \<Rightarrow> (string \<times> agent) list \<Rightarrow> server" where
  "demo_server cs as = \<lparr>sv_conns = cs, sv_agents = as, sv_karma = \<lparr>ks_accounts = bo_empty, ks_config = [], ks_tick_amounts = 0, ks_tick_counter = 0\<rparr>, sv_core_key = ''core'', sv_count = 2,
     sv_thread_group = 0, sv_log = []\<rparr>"

theorem request_yields_one_job_witness:
  "let w = demo_server (\<lambda>c. demo_conn c (Functions ''a'')) [(''a'', \<lparr>ag_key = ''a'', ag_conn = 3\<rparr>)];
       en = \<lparr>en_msg_id = 9, en_agent_uri = [], en_payload = PSearchAgents [1, 2]\<rparr>
   in \<exists>j. sv_log (snd (fn_serve ''a'' 3 oef_uri_new en w)) = [Submit 0 j] \<and> job_id j = Some 9 \<and>
        serves (PSearchAgents [1, 2]) 3 j"
proof -
  let ?w = "demo_server (\<lambda>c. demo_conn c (Functions ''a'')) [(''a'', \<lparr>ag_key = ''a'', ag_conn = 3\<rparr>)]"
  let ?en = "\<lparr>en_msg_id = 9, en_agent_uri = [], en_payload = PSearchAgents [1, 2]\<rparr>"
  have "ags_find ''a'' ?w = Some \<lparr>ag_key = ''a'', ag_conn = 3\<rparr>" "en_payload ?en \<noteq> PPong"
    "ka_policy (cn_account (sv_conns ?w 3)) = PolicyNone" "sv_log ?w = []" "sv_thread_group ?w = 0"
    by (simp_all add: ags_find_def demo_server_def demo_conn_def demo_account_def)
  with request_yields_one_job [of "''a''" ?w _ ?en 3 oef_uri_new, OF _ _ surjective_pairing] show ?thesis
    unfolding Let_def by auto
qed

end
