(* ===== verification/Routing.thy ===== *)
theory Routing
  imports Session
begin

text \<open>
  The table of agents over time: what the connections of a server do to it, the invariant that every agent is
  reached on a connection that claimed its key, and what follows for the messages the server delivers.
\<close>

subsection \<open>Routing\<close>

text \<open>What can happen to a server; a new connection is an object other than those the table of agents keeps alive.\<close>

datatype sv_event =
    New nat string bool
  | Start bool nat
  | Message nat "byte list"
  | End string nat nat
  | Beat bool nat
  | Timeout bool nat
  | Destroy nat

fun sv_event_run :: "parsers \<Rightarrow> tls \<Rightarrow> sv_event \<Rightarrow> (server, unit) prog" where
  "sv_event_run ps tls (New c remote ssl) = (\<lambda>w.
     if c \<in> ag_conn ` snd ` set (sv_agents w) then (Inr (), w)
     else oae_new c remote (if ssl then SslHandshake [] else Handshake WAITING_FOR_Agent_Server_ID []) w)"
| "sv_event_run ps tls (Start basic c) = oae_on_start basic c"
| "sv_event_run ps tls (Message c data) = oae_on_complete ps tls c data"
| "sv_event_run ps tls (End action random c) = oae_on_end action random c"
| "sv_event_run ps tls (Beat alive c) = pthen (heartbeat_run alive c) (pret ())"
| "sv_event_run ps tls (Timeout alive c) = login_timeout_run alive c"
| "sv_event_run ps tls (Destroy c) = oae_destroy c"

definition sv_run :: "parsers \<Rightarrow> tls \<Rightarrow> sv_event list \<Rightarrow> server \<Rightarrow> server" where
  "sv_run ps tls es w = foldl (\<lambda>w e. snd (sv_event_run ps tls e w)) w es"

text \<open>
  Every agent is registered under its own key, on a connection that is gone or has claimed that key.
\<close>

definition claims :: "tls \<Rightarrow> nat \<Rightarrow> factory option \<Rightarrow> string \<Rightarrow> bool" where
  "claims tls c f k = (case f of
     None \<Rightarrow> True
   | Some (Functions k') \<Rightarrow> k' = k
   | Some (Handshake st k') \<Rightarrow> st = WAITING_FOR_Agent_Server_Answer \<and> k' = k
   | Some (SslHandshake k') \<Rightarrow> k = tl_short tls (tl_peer_key tls c))"

definition routes_in :: "tls \<Rightarrow> (string \<times> agent) list \<Rightarrow> (nat \<Rightarrow> factory option) \<Rightarrow> bool" where
  "routes_in tls A F \<longleftrightarrow> (\<forall>k a. map_of A k = Some a \<longrightarrow> ag_key a = k \<and> claims tls (ag_conn a) (F (ag_conn a)) k)"

definition routes :: "tls \<Rightarrow> server \<Rightarrow> bool" where
  "routes tls w = routes_in tls (sv_agents w) (\<lambda>c. cn_factory (sv_conns w c))"

text \<open>Operations that concern neither the table of agents nor the task factories.\<close>

definition still :: "(string \<times> agent) list \<Rightarrow> (nat \<Rightarrow> factory option) \<Rightarrow> server \<Rightarrow> bool" where
  "still A F w \<longleftrightarrow> sv_agents w = A \<and> (\<lambda>c. cn_factory (sv_conns w c)) = F"

lemma still_set: "(\<And>x. cn_factory (f x) = cn_factory x) \<Longrightarrow> preserves (still A F) (sv_set c f)"
  by (auto simp: preserves_def still_def fun_eq_iff)

lemma still_log [inv_intros]: "preserves (still A F) (sv_record e)" "preserves (still A F) (sv_submit j)"
  by (auto simp: preserves_def still_def)

lemma still_perform [inv_intros]: "preserves (still A F) (oae_perform c action)"
proof (rule preservesI)
  fix w assume "still A F w"
  moreover obtain r k where "oae_perform c action w = (r, w\<lparr>sv_karma := k\<rparr>)" by (rule perform_state)
  ultimately show "still A F (snd (oae_perform c action w))" by (simp add: still_def)
qed

lemma still_on_karma [inv_intros]: "preserves (still A F) (on_karma m)"
  by (auto simp: preserves_def still_def on_karma_def split: prod.splits)

lemma still_conn [inv_intros]:
  "preserves (still A F) (oae_setState c n v)" "preserves (still A F) (hs_set_heartbeat c b)"
  "preserves (still A F) (oae_heartbeat_recvd c)" "preserves (still A F) (oae_upgrade c p i)"
  "preserves (still A F) (oae_close c)" "preserves (still A F) (pmodify (\<lambda>w. w\<lparr>sv_thread_group := g w\<rparr>))"
  "preserves (still A F) (oae_destroy c)"
  unfolding oae_setState_def hs_set_heartbeat_def oae_heartbeat_recvd_def oae_upgrade_def oae_close_def oae_destroy_def
  by (intro inv_intros still_set preserves_pmodify; simp add: still_def)+

lemma still_on_start [inv_intros]: "preserves (still A F) (oae_on_start basic c)"
  unfolding oae_on_start_def by (intro inv_intros still_set) simp_all

lemma still_heartbeat [inv_intros]: "preserves (still A F) (oae_heartbeat c)"
  unfolding oae_heartbeat_def by (intro inv_intros still_set) (auto intro!: inv_intros split: if_split exn.split)

lemma still_a2a [inv_intros]: "preserves (still A F) (a2a_task key i m)"
  by (auto simp: preserves_def still_def a2a_apply Let_def split: option.split)

lemma still_conversation [inv_intros]: "preserves (still A F) (fn_conversation c action task)"
  unfolding fn_conversation_def by (intro inv_intros)

lemma still_switch [inv_intros]: "preserves (still A F) (fn_switch key c uri en)"
  by (cases "en_payload en") (auto simp: fn_switch_def Let_def intro!: inv_intros)

lemma still_serve [inv_intros]: "preserves (still A F) (fn_serve key c uri en)"
  unfolding fn_serve_def fn_error_def by (intro inv_intros) (auto intro!: inv_intros split: exn.split)

lemma still_fn [inv_intros]: "preserves (still A F) (fn_process ps key c data)"
  unfolding fn_process_def by (intro inv_intros)

lemma still_timeout [inv_intros]: "preserves (still A F) (login_timeout_run alive c)"
  "preserves (still A F) (heartbeat_run alive c)"
  unfolding login_timeout_run_def heartbeat_run_def by (auto intro!: inv_intros)

text \<open>Such an operation keeps the routes.\<close>

lemma still_routes:
  assumes "\<And>A F. preserves (still A F) m"
  shows "preserves (routes tls) m"
proof (rule preservesI)
  fix w assume "routes tls w"
  moreover have "still (sv_agents w) (\<lambda>c. cn_factory (sv_conns w c)) (snd (m w))"
    by (rule preservesD [OF assms]) (simp add: still_def)
  ultimately show "routes tls (snd (m w))" by (simp add: routes_def still_def)
qed

lemma routes_set_factory:
  assumes "routes tls w" "\<And>k. claims tls c (cn_factory (sv_conns w c)) k \<Longrightarrow> claims tls c (cn_factory (f (sv_conns w c))) k"
  shows "routes tls (snd (sv_set c f w))"
  using assms by (auto simp: routes_def routes_in_def)

lemma routes_new: "routes tls w \<Longrightarrow> c \<notin> ag_conn ` snd ` set (sv_agents w) \<Longrightarrow> routes tls (snd (oae_new c remote f w))"
  by (force simp: oae_new_def routes_def routes_in_def dest: map_of_SomeD)

lemma routes_remove [inv_intros]: "preserves (routes tls) (ags_remove key)"
  by (auto simp: preserves_def ags_remove_def routes_def routes_in_def split: if_splits)

lemma routes_add:
  "routes tls w \<Longrightarrow> claims tls c (cn_factory (sv_conns w c)) key \<Longrightarrow> routes tls (snd (ags_add key c w))"
  by (auto simp: ags_add_def routes_def routes_in_def split: if_splits)

text \<open>The routes, with the factory of one connection fixed.\<close>

definition routes_at :: "tls \<Rightarrow> nat \<Rightarrow> factory \<Rightarrow> server \<Rightarrow> bool" where
  "routes_at tls c f w \<longleftrightarrow> routes tls w \<and> cn_factory (sv_conns w c) = Some f"

lemma still_routes_at:
  assumes "\<And>A F. preserves (still A F) m"
  shows "preserves (routes_at tls c f) m"
proof (rule preservesI)
  fix w assume "routes_at tls c f w"
  moreover have "still (sv_agents w) (\<lambda>c. cn_factory (sv_conns w c)) (snd (m w))"
    by (rule preservesD [OF assms]) (simp add: still_def)
  ultimately show "routes_at tls c f (snd (m w))" by (simp add: routes_at_def routes_def still_def fun_eq_iff)
qed

lemma routes_at_add:
  assumes "claims tls c (Some f) key"
  shows "preserves (routes_at tls c f) (ags_add key c)"
proof (rule preservesI)
  fix w assume "routes_at tls c f w"
  then have "routes tls (snd (ags_add key c w))" using routes_add [of tls w c key] assms by (simp add: routes_at_def)
  with \<open>routes_at tls c f w\<close> show "routes_at tls c f (snd (ags_add key c w))" by (simp add: routes_at_def ags_add_def)
qed

lemma routes_at_enter:
  assumes "claims tls c (Some f) key"
  shows "preserves (routes_at tls c f) (hs_enter c key)"
  unfolding hs_enter_def
  by (intro inv_intros routes_at_add [OF assms] still_routes_at)

lemma routes_at_become:
  assumes "routes_at tls c f w" "\<And>k. claims tls c (Some f) k \<Longrightarrow> claims tls c (Some f') k"
  shows "routes_at tls c f' (snd (hs_become c f' w))"
  using routes_set_factory [of tls w c "\<lambda>x. x\<lparr>cn_factory := Some f'\<rparr>"] assms
  by (simp add: routes_at_def hs_become_def)

text \<open>A program whose first part changes the invariant.\<close>

lemma preserves_then:
  assumes "preserves P m" "\<And>s. P s \<Longrightarrow> P (snd (m s)) \<Longrightarrow> Q (snd (m s))" "\<And>s. Q s \<Longrightarrow> Q (snd (n s))" "P s"
  shows "Q (snd (pthen m n s))"
  using preservesD [OF assms(1,4)] assms(2) [OF assms(4)] assms(3)
  by (auto simp: pthen_apply split: prod.split sum.split)

lemma routes_id:
  assumes "routes_at tls c (Handshake WAITING_FOR_Agent_Server_ID k0) w"
  shows "routes tls (snd (hs_id ps c data w))"
proof -
  have a: "routes_at tls c (Handshake WAITING_FOR_Agent_Server_ID k) (w\<lparr>sv_conns := (sv_conns w)(c := (sv_conns w c)\<lparr>cn_factory := Some (Handshake WAITING_FOR_Agent_Server_ID k)\<rparr>)\<rparr>)" for k
    using routes_at_become [OF assms, of "Handshake WAITING_FOR_Agent_Server_ID k"] by (simp add: hs_become_def claims_def)
  show ?thesis
  proof (cases "read_all (pr_id ps) data")
    case (Inl e)
    then show ?thesis using assms by (simp add: hs_id_def pbind_apply routes_at_def)
  next
    case (Inr k)
    then have run: "snd (hs_id ps c data w) = w\<lparr>sv_log := sv_log w @ [Submit (sv_thread_group w) (SendJob c (SPhrase ''RandomlyGeneratedString''))],
        sv_conns := (sv_conns w)(c := (sv_conns w c)\<lparr>cn_factory := Some (Handshake WAITING_FOR_Agent_Server_Answer k)\<rparr>)\<rparr>"
      by (simp add: hs_id_def pbind_apply pthen_apply hs_become_def)
    have "\<not> claims tls c (Some (Handshake WAITING_FOR_Agent_Server_ID k0)) k'" for k' by (simp add: claims_def)
    then show ?thesis using assms unfolding run by (fastforce simp: routes_at_def routes_def routes_in_def)
  qed
qed

lemma routes_setFactory:
  assumes "routes_at tls c f w" "\<And>k. claims tls c (Some f) k \<Longrightarrow> claims tls c (Some f') k"
  shows "routes tls (snd (oae_setFactory c f' w))"
  using routes_at_become [OF assms] by (simp add: oae_setFactory_def hs_become_def routes_at_def)

lemma routes_answer:
  assumes "routes_at tls c (Handshake WAITING_FOR_Agent_Server_Answer key) w"
  shows "routes tls (snd (hs_answer ps c key data w))"
proof -
  let ?f = "Handshake WAITING_FOR_Agent_Server_Answer key"
  let ?Q = "routes_at tls c ?f"
  have become: "preserves ?Q (hs_become c ?f)"
    by (rule preservesI) (erule routes_at_become)
  have body: "?Q v \<Longrightarrow> routes tls (snd (pthen (hs_enter c key) (oae_setFactory c (Functions key)) v))" for v
  proof -
    assume v: "?Q v"
    obtain r u where e: "hs_enter c key v = (r, u)" by fastforce
    have u: "?Q u" using preservesD [OF routes_at_enter v, of key] e by (simp add: claims_def)
    show ?thesis
      using routes_setFactory [OF u, of "Functions key"] u
      by (cases r) (simp_all add: pthen_apply e claims_def routes_at_def)
  qed
  show ?thesis
  proof (cases "read_all (pr_answer ps) data")
    case (Inl e)
    then show ?thesis using assms by (simp add: hs_answer_def pbind_apply routes_at_def)
  next
    case (Inr b)
    have hb: "?Q (snd (hs_set_heartbeat c b w))" by (rule preservesD [OF still_routes_at [OF still_conn(2)] assms])
    have sub: "preserves ?Q (sv_submit (SendJob c (SConnected True)))" by (intro still_routes_at inv_intros)
    show ?thesis
      using body [OF preservesD [OF become preservesD [OF sub hb]]] Inr
      by (simp add: hs_answer_def pbind_apply pthen_apply hs_set_heartbeat_def hs_become_def)
  qed
qed

lemma routes_ssl:
  assumes "routes_at tls c (SslHandshake k0) w"
  shows "routes tls (snd (ssl_process ps tls c data w))"
proof (cases "read_all (pr_answer ps) data")
  case (Inl e)
  then show ?thesis using assms by (simp add: ssl_process_def pbind_apply routes_at_def)
next
  case (Inr b)
  let ?key = "tl_short tls (tl_peer_key tls c)"
  let ?f = "SslHandshake ?key" and ?Q = "routes_at tls c (SslHandshake ?key)"
  let ?n = "pthen (hs_enter c ?key) (pthen (oae_setState c ''ssl'' True) (oae_setFactory c (Functions ?key)))"
  let ?w = "snd (hs_become c ?f (snd (hs_set_heartbeat c b w)))"
  have w: "?Q ?w"
    by (rule routes_at_become [OF preservesD [OF still_routes_at [OF still_conn(2)] assms]]) (simp add: claims_def)
  have sub: "preserves ?Q (sv_submit j)" for j by (intro still_routes_at inv_intros)
  have ent: "?Q v \<Longrightarrow> routes tls (snd (?n v))" for v
  proof -
    assume v: "?Q v"
    obtain r u where e: "hs_enter c ?key v = (r, u)" by fastforce
    have u: "?Q u" using preservesD [OF routes_at_enter v, of ?key] e by (simp add: claims_def)
    have "?Q (snd (oae_setState c ''ssl'' True u))" by (rule preservesD [OF still_routes_at [OF still_conn(1)] u])
    from routes_setFactory [OF this, of "Functions ?key"] u show ?thesis
      by (cases r) (simp_all add: pthen_apply e claims_def routes_at_def oae_setState_def)
  qed
  show ?thesis
    using Inr ent [OF preservesD [OF sub w]] preservesD [OF sub w]
    by (simp add: ssl_process_def pbind_apply pthen_apply hs_set_heartbeat_def hs_become_def Let_def routes_at_def)
qed

lemma routes_process:
  assumes "routes_at tls c f w"
  shows "routes tls (snd (fa_process ps tls f c data w))"
proof (cases f)
  case (Handshake st key)
  have "routes tls (snd ((case st of WAITING_FOR_Agent_Server_ID \<Rightarrow> hs_id ps c data
      | WAITING_FOR_Agent_Server_Answer \<Rightarrow> hs_answer ps c key data) w))"
    using assms Handshake by (auto intro: routes_id routes_answer split: hs_state.split)
  then show ?thesis
    unfolding Handshake fa_process_def factory.case hs_process_def hs_rethrow_def pcatch_apply
    by (auto split: prod.split sum.split)
next
  case (SslHandshake key)
  then show ?thesis using assms routes_ssl by (simp add: fa_process_def)
next
  case (Functions key)
  then show ?thesis
    using assms preservesD [OF still_routes, of "fn_process ps key c data"] still_fn
    by (auto simp: fa_process_def routes_at_def)
qed

lemma routes_complete [inv_intros]: "preserves (routes tls) (oae_on_complete ps tls c data)"
proof -
  have "preserves (routes tls) (pbind (pget (\<lambda>w. cn_factory (sv_conns w c)))
      (\<lambda>f. case f of None \<Rightarrow> pthrow Undefined | Some f \<Rightarrow> fa_process ps tls f c data))"
    using routes_process [of tls c] by (auto simp: preserves_def pbind_apply routes_at_def split: option.split)
  moreover have "preserves (routes tls) (oae_perform c ''message'')"
    "preserves (routes tls) (pmodify (\<lambda>w. w\<lparr>sv_thread_group := cn_ident (sv_conns w c)\<rparr>))"
    by (intro still_routes inv_intros)+
  ultimately show ?thesis unfolding oae_on_complete_def by (intro preserves_pthen)
qed

lemma routes_end [inv_intros]: "preserves (routes tls) (oae_on_end action random c)"
proof -
  have drop: "preserves (routes tls) (sv_set c (\<lambda>x. x\<lparr>cn_factory := None\<rparr>))"
    by (rule preservesI, rule routes_set_factory) (simp_all add: claims_def)
  have log: "preserves (routes tls) (sv_record e)" for e by (intro still_routes inv_intros)
  have closed: "preserves (routes tls) (fa_closed f c random)" for f
    by (cases f) (auto simp: fa_closed_def fn_endpointClosed_def intro!: inv_intros log)
  have perf: "preserves (routes tls) (oae_perform c action)" by (intro still_routes inv_intros)
  show ?thesis
    unfolding oae_on_end_def by (intro inv_intros perf) (auto intro!: inv_intros drop log closed split: option.split)
qed

lemma routes_event: "preserves (routes tls) (sv_event_run ps tls e)"
proof (cases e)
  case (New c remote ssl)
  then show ?thesis by (auto simp: preserves_def intro!: routes_new)
next
  case (Start basic c)
  then show ?thesis by (auto intro!: still_routes inv_intros)
next
  case (Beat alive c)
  then show ?thesis by (auto intro!: still_routes inv_intros)
next
  case (Timeout alive c)
  then show ?thesis by (auto intro!: still_routes inv_intros)
next
  case (Destroy c)
  then show ?thesis by (auto intro!: still_routes inv_intros)
qed (auto intro!: inv_intros)

lemma routes_run: "routes tls w \<Longrightarrow> routes tls (sv_run ps tls es w)"
  unfolding sv_run_def by (induction es arbitrary: w) (auto dest: preservesD [OF routes_event])

text \<open>The agent key of a destination; the tasks that deliver messages come from requests to send one.\<close>

definition destination_key :: "string \<Rightarrow> string" where
  "destination_key s = ou_agentKey (projr (oef_parseAgent s oef_uri_new))"

lemma not_delivered:
  assumes "en_payload en \<noteq> PPong" "\<forall>m. en_payload en \<noteq> PSendMessage m"
    and "Submit g (DeliverJob d s) \<in> set (drop (length (sv_log w)) (sv_log (snd (fn_serve key c uri en w))))"
  shows False
proof -
  obtain q k where p: "oae_perform c (fn_action (en_payload en)) w = (q, w\<lparr>sv_karma := k\<rparr>)" by (rule perform_state)
  show False
  proof (cases q)
    case (Inl e)
    then show False using switch_refused [OF assms(1) p [unfolded Inl], of key uri] assms(3)
      by (cases e) (auto simp: fn_error_def)
  next
    case (Inr x)
    with p have "oae_perform c (fn_action (en_payload en)) w = (Inr (), w\<lparr>sv_karma := k\<rparr>)" by simp
    from switch_allowed [OF assms(1) disjI1 [OF assms(2)] this, of key uri] assms(2,3) show False
      by (auto dest!: serves_delivery)
  qed
qed

lemma serve_delivers:
  assumes "fn_serve key c uri en w = (r, w')"
    and "Submit g (DeliverJob d (SContent i source target did org body)) \<in> set (drop (length (sv_log w)) (sv_log w'))"
  shows "\<exists>m a b. en_payload en = PSendMessage m \<and> ags_find key w = Some a \<and> ags_find (destination_key (am_destination m)) w = Some b \<and>
    g = sv_thread_group w \<and> d = ag_conn b \<and> i = en_msg_id en \<and> source = am_source_uri m \<and> did = am_dialogue_id m \<and>
    org = ag_key a \<and> body = am_payload m"
proof (cases "en_payload en")
  case (PSendMessage m)
  obtain q k where p: "oae_perform c ''oef.kSendMessage'' w = (q, w\<lparr>sv_karma := k\<rparr>)" by (rule perform_state)
  show ?thesis
  proof (cases q)
    case (Inl e)
    with p assms PSendMessage show ?thesis
      by (cases e) (auto simp: fn_serve_def fn_switch_def fn_error_def pcatch_apply pthen_apply Let_def)
  next
    case (Inr x)
    with p assms PSendMessage show ?thesis
      by (auto simp: fn_serve_def fn_switch_def fn_error_def pcatch_apply pthen_apply Let_def a2a_apply ags_find_def
          destination_key_def a2a_message_def a2a_dialogue_error_def split: option.splits)
  qed
next
  case PPong
  with assms show ?thesis by (auto simp: fn_serve_def fn_switch_def pcatch_apply oae_heartbeat_recvd_def Let_def)
qed (insert assms not_delivered [of en g d "SContent i source target did org body" w key c uri], auto)

lemma complete_serves:
  assumes "cn_factory (sv_conns w c) = Some (Functions key)"
    and "Submit g j \<in> set (drop (length (sv_log w)) (sv_log (snd (oae_on_complete ps tls c data w))))"
  shows "\<exists>en uri v. read_sized (pr_envelope ps) data (length data) = Inr en \<and>
    sv_agents v = sv_agents w \<and> sv_thread_group v = cn_ident (sv_conns w c) \<and> length (sv_log v) = length (sv_log w) \<and>
    Submit g j \<in> set (drop (length (sv_log v)) (sv_log (snd (fn_serve key c uri en v))))"
proof -
  obtain q k where p: "oae_perform c ''message'' w = (q, w\<lparr>sv_karma := k\<rparr>)" by (rule perform_state)
  from assms p obtain en where en: "read_sized (pr_envelope ps) data (length data) = Inr en"
    by (cases q; cases "read_sized (pr_envelope ps) data (length data)")
      (auto simp: oae_on_complete_def pthen_apply pbind_apply fa_process_def fn_process_def)
  from assms p en obtain u where u: "oef_parse (en_agent_uri en) oef_uri_new = Inr u"
    by (cases q; cases "oef_parse (en_agent_uri en) oef_uri_new")
      (auto simp: oae_on_complete_def pthen_apply pbind_apply fa_process_def fn_process_def)
  let ?v = "w\<lparr>sv_karma := k, sv_thread_group := cn_ident (sv_conns w c)\<rparr>"
  from assms p en u show ?thesis
    by (intro exI [of _ en] exI [of _ "u\<lparr>ou_agentKey := key\<rparr>"] exI [of _ ?v], cases q)
      (auto simp: oae_on_complete_def pthen_apply pbind_apply fa_process_def fn_process_def)
qed

text \<open>
  C8. Delivered messages are authentic and reach the agent they name. On any server that started without agents,
  after any sequence of connections, handshakes, requests, refusals and ends, when a connection that serves the
  agent \<open>key\<close> makes a task that delivers content, then the origin of that content is \<open>key\<close>, whatever the request
  said; dialogue, body and message id are those of the request; the task is in the group of that connection; and
  the connection it is delivered to is gone or has claimed the key that the destination names. (Nothing of this
  holds of the source address, which is copied from the request.)
\<close>

theorem delivered_messages_authentic:
  assumes "sv_agents w0 = []" "w = sv_run ps tls es w0" "cn_factory (sv_conns w c) = Some (Functions key)"
    and "w' = snd (sv_event_run ps tls (Message c data) w)"
    and "Submit g (DeliverJob d (SContent i source target did origin body)) \<in> set (drop (length (sv_log w)) (sv_log w'))"
  shows "origin = key \<and> g = cn_ident (sv_conns w c) \<and>
    (\<exists>en m. read_sized (pr_envelope ps) data (length data) = Inr en \<and> en_payload en = PSendMessage m \<and>
       i = en_msg_id en \<and> did = am_dialogue_id m \<and> body = am_payload m \<and> source = am_source_uri m \<and>
       claims tls d (cn_factory (sv_conns w d)) (destination_key (am_destination m)))"
proof -
  have r: "routes tls w" using assms(1,2) routes_run [of tls w0 ps es] by (simp add: routes_def routes_in_def)
  obtain en uri v where en: "read_sized (pr_envelope ps) data (length data) = Inr en"
    and v: "sv_agents v = sv_agents w" "sv_thread_group v = cn_ident (sv_conns w c)"
    and d: "Submit g (DeliverJob d (SContent i source target did origin body)) \<in>
        set (drop (length (sv_log v)) (sv_log (snd (fn_serve key c uri en v))))"
    using complete_serves [OF assms(3)] assms(4,5) unfolding sv_event_run.simps by blast
  obtain m a b where m: "en_payload en = PSendMessage m" "ags_find key v = Some a"
      "ags_find (destination_key (am_destination m)) v = Some b" "g = sv_thread_group v" "d = ag_conn b"
      "i = en_msg_id en" "source = am_source_uri m" "did = am_dialogue_id m" "origin = ag_key a" "body = am_payload m"
    using serve_delivers [OF surjective_pairing d] by blast
  have "ag_key a = key" "claims tls (ag_conn b) (cn_factory (sv_conns w (ag_conn b))) (destination_key (am_destination m))"
    using r m(2,3) v(1) by (auto simp: routes_def routes_in_def ags_find_def)
  with en m v show ?thesis by auto
qed

definition demo_parsers :: "envelope \<Rightarrow> parsers" where
  "demo_parsers en = \<lparr>pr_id = (\<lambda>data. Some (''a'', length data)), pr_answer = (\<lambda>data. Some (False, length data)),
     pr_envelope = (\<lambda>data. Some (en, length data))\<rparr>"

definition demo_tls :: tls where
  "demo_tls = \<lparr>tl_peer_key = (\<lambda>c. ''peer''), tl_short = id, tl_white_list = [], tl_enabled = True\<rparr>"

definition demo_message :: agent_message where
  "demo_message = \<lparr>am_dialogue_id = 7, am_destination = ''b'', am_target_uri = [], am_source_uri = ''forged'', am_payload = Content [1]\<rparr>"

definition demo_envelope :: envelope where
  "demo_envelope = \<lparr>en_msg_id = 9, en_agent_uri = ''/'', en_payload = PSendMessage demo_message\<rparr>"

definition demo_start :: server where
  "demo_start = demo_server (\<lambda>c. demo_conn c (Handshake WAITING_FOR_Agent_Server_Answer (if c = 1 then ''a'' else ''b''))) []"

definition demo_delivery :: effect where
  "demo_delivery = Submit 1 (DeliverJob 2 (SContent 9 ''forged'' ''tcp://///b/'' 7 ''a'' (Content [1])))"

lemmas session_eval = sv_run_def oae_on_complete_def oae_on_end_def pthen_apply pbind_apply pcatch_apply fa_process_def
  fa_closed_def fn_endpointClosed_def hs_process_def hs_answer_def hs_enter_def hs_set_heartbeat_def hs_become_def hs_rethrow_def
  read_all_def read_sized_def oae_setState_def oae_setFactory_def ags_add_def ags_remove_def oae_upgrade_def on_karma_def
  ka_upgrade_def fn_process_def fn_serve_def fn_switch_def a2a_apply ags_find_def a2a_message_def a2a_dialogue_error_def Let_def

lemmas demo_defs = demo_start_def demo_server_def demo_conn_def demo_account_def demo_parsers_def demo_envelope_def
  demo_message_def demo_tls_def

lemma demo_addresses:
  "oef_parse ''/'' oef_uri_new = Inr oef_uri_new"
  "oef_parseAgent ''b'' oef_uri_new = Inr (oef_uri_new\<lparr>ou_agentKey := ''b''\<rparr>)"
  "oef_toString (oef_uri_new\<lparr>ou_agentKey := ''b''\<rparr>) = ''tcp://///b/''"
  by code_simp+

theorem delivered_messages_authentic_witness:
  "demo_delivery \<in> set (sv_log (sv_run (demo_parsers demo_envelope) demo_tls [Message 1 [0], Message 2 [0], Message 1 [1]] demo_start)) \<and>
   claims demo_tls 2 (cn_factory (sv_conns (sv_run (demo_parsers demo_envelope) demo_tls [Message 1 [0], Message 2 [0]] demo_start) 2)) ''b''"
proof -
  let ?w = "sv_run (demo_parsers demo_envelope) demo_tls [Message 1 [0], Message 2 [0]] demo_start"
  let ?w' = "snd (sv_event_run (demo_parsers demo_envelope) demo_tls (Message 1 [1]) ?w)"
  have f: "cn_factory (sv_conns ?w 1) = Some (Functions ''a'')" "sv_agents demo_start = []" "length (sv_log ?w) = 2"
    "sv_log ?w' = sv_log ?w @ [demo_delivery]"
    by (simp_all add: session_eval demo_defs demo_addresses demo_delivery_def)
  have d: "demo_delivery \<in> set (drop (length (sv_log ?w)) (sv_log ?w'))" by (simp only: f(4)) simp
  from delivered_messages_authentic [OF f(2) refl f(1) refl d [unfolded demo_delivery_def]]
  have "claims demo_tls 2 (cn_factory (sv_conns ?w 2)) ''b''"
    by (auto simp: demo_parsers_def read_sized_def demo_envelope_def demo_message_def destination_key_def demo_addresses)
  moreover have "demo_delivery \<in> set (sv_log ?w')" using d by (rule in_set_dropD)
  ultimately show ?thesis by (simp add: sv_run_def)
qed

subsection \<open>Entering and leaving\<close>

lemma upgrade_state:
  obtains r k a where "oae_upgrade c p i w = (r, w\<lparr>sv_karma := k, sv_conns := (sv_conns w)(c := (sv_conns w c)\<lparr>cn_account := a\<rparr>)\<rparr>)"
    "ka_policy (cn_account (sv_conns w c)) \<noteq> VoidPolicy \<Longrightarrow> r = Inr ()"
proof -
  obtain q k where p: "ka_upgrade (cn_account (sv_conns w c)) p i (sv_karma w) = (q, k)" by fastforce
  have ok: "ka_policy (cn_account (sv_conns w c)) \<noteq> VoidPolicy \<Longrightarrow> \<exists>a. q = Inr a"
    using p by (cases "ka_policy (cn_account (sv_conns w c))")
      (auto simp: ka_upgrade_def kp_upgrade_def kp_getAccount_def kp_getAccountNumber_def pbind_apply split: if_splits prod.splits)
  show ?thesis
  proof (cases q)
    case (Inr a)
    with p that [where r = "Inr ()" and k = k and a = a] show ?thesis by (simp add: oae_upgrade_def on_karma_def pbind_apply)
  next
    case (Inl e)
    with p ok that [where r = "Inl e" and k = k and a = "cn_account (sv_conns w c)"] show ?thesis
      by (auto simp: oae_upgrade_def on_karma_def pbind_apply)
  qed
qed

text \<open>What entering does, whether the policy lets the agent in or not.\<close>

lemma enter_spec:
  assumes "hs_enter c key w = (r, w')"
  shows "sv_agents w' = omap_insert key \<lparr>ag_key = key, ag_conn = c\<rparr> (sv_agents w) \<and>
    cn_factory \<circ> sv_conns w' = cn_factory \<circ> sv_conns w \<and> sv_thread_group w' = sv_thread_group w \<and>
    (r = Inr () \<longrightarrow> oae_getState c ''loggedin'' w' \<and> sv_log w' = sv_log w @
       (if cn_will_heartbeat (sv_conns w c) then [Submit (sv_thread_group w) (HeartbeatJob c)] else [])) \<and>
    (r \<noteq> Inr () \<longrightarrow> sv_log w' = sv_log w \<and> cn_states (sv_conns w' c) = cn_states (sv_conns w c))"
proof -
  let ?w1 = "w\<lparr>sv_agents := omap_insert key \<lparr>ag_key = key, ag_conn = c\<rparr> (sv_agents w)\<rparr>"
  obtain q k a where u: "oae_upgrade c [] key ?w1 =
      (q, ?w1\<lparr>sv_karma := k, sv_conns := (sv_conns w)(c := (sv_conns w c)\<lparr>cn_account := a\<rparr>)\<rparr>)"
    by (rule upgrade_state [of c "[]" key ?w1]) auto
  let ?w2 = "?w1\<lparr>sv_karma := k, sv_conns := (sv_conns w)(c := (sv_conns w c)\<lparr>cn_account := a\<rparr>)\<rparr>"
  obtain q' k' where p: "oae_perform c ''login'' ?w2 = (q', ?w2\<lparr>sv_karma := k'\<rparr>)" by (rule perform_state)
  show ?thesis
    using assms u p
    by (cases q; cases q') (auto simp: hs_enter_def ags_add_def pthen_apply pbind_apply oae_setState_def oae_getState_def fun_eq_iff)
qed

lemma answer_spec:
  assumes "pr_answer ps data = Some (will, length data)" "hs_answer ps c key data w = (r, w')"
  shows "sv_agents w' = omap_insert key \<lparr>ag_key = key, ag_conn = c\<rparr> (sv_agents w) \<and>
    (r = Inr () \<longrightarrow> cn_factory (sv_conns w' c) = Some (Functions key) \<and> oae_getState c ''loggedin'' w' \<and>
       sv_log w' = sv_log w @ map (Submit (sv_thread_group w)) (SendJob c (SConnected True) # (if will then [HeartbeatJob c] else []))) \<and>
    (r \<noteq> Inr () \<longrightarrow> cn_factory (sv_conns w' c) = Some (Handshake WAITING_FOR_Agent_Server_Answer key) \<and>
       cn_states (sv_conns w' c) = cn_states (sv_conns w c) \<and>
       sv_log w' = sv_log w @ [Submit (sv_thread_group w) (SendJob c (SConnected True))])"
proof -
  let ?v = "w\<lparr>sv_log := sv_log w @ [Submit (sv_thread_group w) (SendJob c (SConnected True))],
      sv_conns := (sv_conns w)(c := (sv_conns w c)\<lparr>cn_will_heartbeat := will,
        cn_factory := Some (Handshake WAITING_FOR_Agent_Server_Answer key)\<rparr>)\<rparr>"
  obtain q u where e: "hs_enter c key ?v = (q, u)" by fastforce
  have run: "hs_answer ps c key data w = pthen (hs_enter c key) (oae_setFactory c (Functions key)) ?v"
    using assms(1)
    by (simp add: hs_answer_def pthen_apply [of "plift _"] pbind_apply read_all_def hs_set_heartbeat_def hs_become_def pthen_apply)
  then have run: "(r, w') = (case q of Inl x \<Rightarrow> (Inl x, u) | Inr _ \<Rightarrow> oae_setFactory c (Functions key) u)"
    using assms(2) e by (cases q) (simp_all add: pthen_apply)
  have fac: "cn_factory (sv_conns u c) = Some (Handshake WAITING_FOR_Agent_Server_Answer key)"
    using enter_spec [OF e] by (auto simp: fun_eq_iff)
  show ?thesis
    using enter_spec [OF e] run fac
    by (cases q) (auto simp: oae_setFactory_def oae_getState_def)
qed

text \<open>
  C14. The handshake admits the key that was claimed. When a connection in its initial state sends an identification
  with any key and then any well-formed answer, and the karma policy lets both pass, the connection serves that
  key, is marked as logged in, is the connection registered for the key (in place of any earlier one) and no other
  registration changes; it was sent the phrase and the confirmation, in this order, and gets a heartbeat when it
  asked for one. The answer is not compared with the phrase.
\<close>

theorem handshake_admits_claimed_key:
  assumes "cn_factory (sv_conns w c) = Some (Handshake WAITING_FOR_Agent_Server_ID k0)"
    and "pr_id ps idata = Some (key, length idata)" "pr_answer ps adata = Some (will, length adata)"
    and "oae_on_complete ps tls c idata w = (Inr (), w1)" "oae_on_complete ps tls c adata w1 = (Inr (), w2)"
  shows "cn_factory (sv_conns w2 c) = Some (Functions key) \<and> oae_getState c ''loggedin'' w2 \<and>
    (\<forall>k. ags_find k w2 = (if k = key then Some \<lparr>ag_key = key, ag_conn = c\<rparr> else ags_find k w)) \<and>
    sv_log w2 = sv_log w @ map (Submit (cn_ident (sv_conns w c)))
      ([SendJob c (SPhrase ''RandomlyGeneratedString''), SendJob c (SConnected True)] @ (if will then [HeartbeatJob c] else []))"
proof -
  obtain q k where p: "oae_perform c ''message'' w = (q, w\<lparr>sv_karma := k\<rparr>)" by (rule perform_state)
  let ?g = "cn_ident (sv_conns w c)"
  have w1: "sv_agents w1 = sv_agents w \<and> cn_factory (sv_conns w1 c) = Some (Handshake WAITING_FOR_Agent_Server_Answer key) \<and>
      cn_ident (sv_conns w1 c) = ?g \<and> sv_log w1 = sv_log w @ [Submit ?g (SendJob c (SPhrase ''RandomlyGeneratedString''))]"
    using assms(1,2,4) p
    by (cases q) (auto simp: oae_on_complete_def pthen_apply pbind_apply pcatch_apply fa_process_def hs_process_def hs_id_def
        hs_become_def read_all_def)
  obtain q' k' where p': "oae_perform c ''message'' w1 = (q', w1\<lparr>sv_karma := k'\<rparr>)" by (rule perform_state)
  let ?v = "w1\<lparr>sv_karma := k', sv_thread_group := ?g\<rparr>"
  have "hs_answer ps c key adata ?v = (Inr (), w2)"
    using p' assms(5) w1
    by (cases q'; cases "hs_answer ps c key adata ?v"; cases "fst (hs_answer ps c key adata ?v)")
      (auto simp: oae_on_complete_def pthen_apply pbind_apply pcatch_apply fa_process_def hs_process_def hs_rethrow_def
        split: if_splits)
  from answer_spec [OF assms(3) this] w1 show ?thesis by (auto simp: ags_find_def)
qed

definition demo_fresh :: server where
  "demo_fresh = demo_server (\<lambda>c. demo_conn c (Handshake WAITING_FOR_Agent_Server_ID [])) []"

theorem handshake_admits_claimed_key_witness:
  "let w = sv_run (demo_parsers demo_envelope) demo_tls [Message 4 [1, 2], Message 4 [3]] demo_fresh
   in cn_factory (sv_conns w 4) = Some (Functions ''a'') \<and> ags_find ''a'' w = Some \<lparr>ag_key = ''a'', ag_conn = 4\<rparr>"
proof -
  let ?ps = "demo_parsers demo_envelope"
  let ?w1 = "snd (oae_on_complete ?ps demo_tls 4 [1, 2] demo_fresh)"
  let ?w2 = "snd (oae_on_complete ?ps demo_tls 4 [3] ?w1)"
  have ok: "oae_on_complete ?ps demo_tls 4 [1, 2] demo_fresh = (Inr (), ?w1)" "oae_on_complete ?ps demo_tls 4 [3] ?w1 = (Inr (), ?w2)"
    by (simp_all add: session_eval demo_defs demo_fresh_def hs_id_def)
  have "cn_factory (sv_conns demo_fresh 4) = Some (Handshake WAITING_FOR_Agent_Server_ID [])"
    "pr_id ?ps [1, 2] = Some (''a'', length [1::byte, 2])" "pr_answer ?ps [3] = Some (False, length [3::byte])"
    by (simp_all add: demo_fresh_def demo_defs)
  from handshake_admits_claimed_key [OF this ok] show ?thesis by (simp add: sv_run_def)
qed

text \<open>
  C15. The white list is a gate: whatever a TLS connection sends in its handshake, if the key of its peer is not on
  an enabled white list then no registration changes and the connection serves no key; a well-formed message is
  answered with a refusal and nothing else. If the key is on the list, or the list is disabled, a handshake that
  passes the karma policy registers the short form of that very key.
\<close>

theorem ssl_white_list_gate:
  assumes "cn_factory (sv_conns w c) = Some (SslHandshake k0)" "oae_on_complete ps tls c data w = (r, w')"
  shows "if tl_enabled tls \<and> tl_peer_key tls c \<notin> set (tl_white_list tls)
    then sv_agents w' = sv_agents w \<and> (\<forall>k. cn_factory (sv_conns w' c) \<noteq> Some (Functions k)) \<and>
      (r = Inr () \<longrightarrow> sv_log w' = sv_log w @ [Submit (cn_ident (sv_conns w c)) (SendJob c (SConnected False))])
    else r = Inr () \<longrightarrow> (let key = tl_short tls (tl_peer_key tls c)
      in cn_factory (sv_conns w' c) = Some (Functions key) \<and> oae_getState c ''loggedin'' w' \<and>
         ags_find key w' = Some \<lparr>ag_key = key, ag_conn = c\<rparr>)"
proof -
  obtain q k where p: "oae_perform c ''message'' w = (q, w\<lparr>sv_karma := k\<rparr>)" by (rule perform_state)
  let ?v = "w\<lparr>sv_karma := k, sv_thread_group := cn_ident (sv_conns w c)\<rparr>"
  have "oae_on_complete ps tls c data w = (case q of Inl e \<Rightarrow> (Inl e, w\<lparr>sv_karma := k\<rparr>) | Inr _ \<Rightarrow> ssl_process ps tls c data ?v)"
    using assms(1) p by (cases q) (simp_all add: oae_on_complete_def pthen_apply pbind_apply fa_process_def)
  note run = this [unfolded assms(2)]
  show ?thesis
  proof (cases "\<exists>will. q = Inr () \<and> read_all (pr_answer ps) data = Inr will")
    case False
    then show ?thesis
      using run assms(1) by (cases q; cases "read_all (pr_answer ps) data") (auto simp: ssl_process_def pbind_apply)
  next
    case True
    then obtain will where q: "q = Inr ()" and will: "read_all (pr_answer ps) data = Inr will" by blast
    let ?key = "tl_short tls (tl_peer_key tls c)"
    let ?x = "(sv_conns w c)\<lparr>cn_will_heartbeat := will, cn_factory := Some (SslHandshake ?key)\<rparr>"
    let ?u = "?v\<lparr>sv_conns := (sv_conns w)(c := ?x), sv_log := sv_log w @ [Submit (cn_ident (sv_conns w c)) (SendJob c (SConnected True))]\<rparr>"
    obtain s u where e: "hs_enter c ?key ?u = (s, u)" by fastforce
    show ?thesis
      using run q will e enter_spec [OF e]
      by (cases s) (auto simp: ssl_process_def pbind_apply pthen_apply hs_set_heartbeat_def hs_become_def Let_def
        oae_setState_def oae_setFactory_def oae_getState_def ags_find_def)
  qed
qed

theorem ssl_white_list_gate_witness:
  "let w = demo_server (\<lambda>c. demo_conn c (SslHandshake [])) [(''a'', \<lparr>ag_key = ''a'', ag_conn = 1\<rparr>)]
   in sv_agents (snd (oae_on_complete (demo_parsers demo_envelope) demo_tls 4 [3] w)) = sv_agents w"
proof -
  let ?w = "demo_server (\<lambda>c. demo_conn c (SslHandshake [])) [(''a'', \<lparr>ag_key = ''a'', ag_conn = 1\<rparr>)]"
  have "cn_factory (sv_conns ?w 4) = Some (SslHandshake [])" by (simp add: demo_defs)
  from ssl_white_list_gate [OF this surjective_pairing, where ps = "demo_parsers demo_envelope" and tls = demo_tls and data = "[3]"]
  show ?thesis by (simp add: demo_tls_def Let_def)
qed

text \<open>
  A refused agent stays registered. When the karma policy refuses the login that follows a well-formed answer
  (under an account of a basic policy), the agent has been told that it is connected and is registered under the
  key it claimed, though it is not logged in; and when the connection then ends, in whichever way and whether or
  not the policy lets the end pass, the registration remains.
\<close>

lemma refused_login_stays_registered:
  assumes "pr_answer ps data = Some (will, length data)" "cn_factory (sv_conns w c) = Some (Handshake WAITING_FOR_Agent_Server_Answer key)"
    and "hs_process ps WAITING_FOR_Agent_Server_Answer key c data w = (Inl e, w1)"
  shows "ags_find key w1 = Some \<lparr>ag_key = key, ag_conn = c\<rparr> \<and>
    sv_log w1 = sv_log w @ [Submit (sv_thread_group w) (SendJob c (SConnected True))] \<and>
    oae_getState c ''loggedin'' w1 = oae_getState c ''loggedin'' w \<and>
    ags_find key (snd (oae_on_end action random c w1)) = Some \<lparr>ag_key = key, ag_conn = c\<rparr>"
proof -
  obtain r v where a: "hs_answer ps c key data w = (r, v)" by fastforce
  have r: "r \<noteq> Inr ()" and v: "v = w1"
    using assms(3) a by (cases r; auto simp: hs_process_def pcatch_apply hs_rethrow_def)+
  obtain q k where p: "oae_perform c action w1 = (q, w1\<lparr>sv_karma := k\<rparr>)" by (rule perform_state)
  note spec = answer_spec [OF assms(1) a, unfolded v]
  have "sv_agents (snd (oae_on_end action random c w1)) = sv_agents w1"
    using p r spec by (cases q) (simp_all add: oae_on_end_def pthen_apply pbind_apply fa_closed_def)
  then show ?thesis using spec r by (simp add: ags_find_def oae_getState_def)
qed

definition demo_strict :: server where
  "demo_strict = (demo_server (\<lambda>c. (demo_conn c (Handshake WAITING_FOR_Agent_Server_Answer []))\<lparr>cn_account :=
     \<lparr>ka_id = 0, ka_policy = PolicyBasic, ka_name = ''x''\<rparr>\<rparr>) [])\<lparr>sv_karma := kp_new [(''login'', ''-20000'')]\<rparr>"

lemma refused_login_stays_registered_example:
  "let w1 = snd (hs_process (demo_parsers demo_envelope) WAITING_FOR_Agent_Server_Answer [] 4 [3] demo_strict)
   in ags_find [] (snd (oae_on_end ''eof'' 0 4 w1)) = Some \<lparr>ag_key = [], ag_conn = 4\<rparr>"
proof -
  let ?ps = "demo_parsers demo_envelope"
  let ?k = "kp_new [(''login'', ''-20000'')]" and ?a = "\<lparr>ka_id = 0, ka_policy = PolicyBasic, ka_name = ''DEFAULT_KARMA_ACCOUNT''\<rparr>"
  obtain k where k: "kp_perform ?a ''login'' False ?k = (Inl (mk_XKarma ''login''), k)"
    using login_too_dear [where a = ?a and s = ?k and n = "''(null karma account)''", OF kp_new_inv] kp_new_null
    by (cases "kp_perform ?a ''login'' False ?k") (simp add: kp_new_config)
  have "\<exists>e. fst (hs_process ?ps WAITING_FOR_Agent_Server_Answer [] 4 [3] demo_strict) = Inl e"
    using k by (simp add: hs_process_def hs_answer_def read_all_def pcatch_apply pbind_apply pthen_apply hs_become_def
        hs_set_heartbeat_def hs_enter_def ags_add_def oae_upgrade_def on_karma_def ka_upgrade_def kp_upgrade_def kp_getAccount_def
        oae_perform_def ka_perform_def demo_strict_def demo_parsers_def demo_server_def demo_conn_def hs_rethrow_def)
  then obtain e where "hs_process ?ps WAITING_FOR_Agent_Server_Answer [] 4 [3] demo_strict =
      (Inl e, snd (hs_process ?ps WAITING_FOR_Agent_Server_Answer [] 4 [3] demo_strict))"
    by (metis surjective_pairing)
  from refused_login_stays_registered [OF _ _ this, where will = False and action = "''eof''" and random = 0] show ?thesis
    unfolding Let_def by (simp add: demo_strict_def demo_server_def demo_conn_def demo_parsers_def)
qed

text \<open>
  Two connections with one key: when two connections serve the same key and one of them ends, the key is
  registered for neither, although the other connection goes on to serve it; the next message that the other one
  asks to send, to whomever, goes through a null pointer.
\<close>

lemma duplicate_login_breaks_survivor:
  assumes "cn_factory (sv_conns w c1) = Some (Functions key)" "cn_factory (sv_conns w c2) = Some (Functions key)" "c1 \<noteq> c2"
    and "oae_on_end action random c1 w = (Inr (), w1)"
    and "pr_envelope ps data = Some (en, length data)" "en_payload en = PSendMessage m" "en_agent_uri en \<noteq> []"
    and "ka_policy (cn_account (sv_conns w c2)) = PolicyNone"
  shows "ags_find key w1 = None \<and> cn_factory (sv_conns w1 c2) = Some (Functions key) \<and>
    fst (oae_on_complete ps tls c2 data w1) = Inl Undefined"
proof -
  obtain q k where p: "oae_perform c1 action w = (q, w\<lparr>sv_karma := k\<rparr>)" by (rule perform_state)
  have w1: "ags_find key w1 = None" "sv_conns w1 c2 = sv_conns w c2"
    using assms(1,3,4) p
    by (cases q; auto simp: oae_on_end_def pthen_apply pbind_apply fa_closed_def fn_endpointClosed_def ags_remove_def ags_find_def)+
  obtain u where u: "oef_parse (en_agent_uri en) oef_uri_new = Inr u"
    using assms(7)
    by (cases "oef_parse (en_agent_uri en) oef_uri_new") (auto simp: oef_parse_def oef_split_def split: if_splits)
  have "fst (oae_on_complete ps tls c2 data w1) = Inl Undefined"
    using assms(2,5,6,8) u w1
    by (simp add: oae_on_complete_def pthen_apply pbind_apply fa_process_def fn_process_def read_sized_def fn_serve_def
        pcatch_apply fn_switch_def Let_def a2a_apply ags_find_def fn_error_def)
  then show ?thesis using w1 assms(2) by simp
qed

lemma duplicate_login_breaks_survivor_example:
  "let w = demo_server (\<lambda>c. demo_conn c (Functions ''a'')) [(''a'', \<lparr>ag_key = ''a'', ag_conn = 2\<rparr>)]
   in fst (oae_on_complete (demo_parsers demo_envelope) demo_tls 2 [1] (snd (oae_on_eof 0 1 w))) = Inl Undefined"
proof -
  let ?w = "demo_server (\<lambda>c. demo_conn c (Functions ''a'')) [(''a'', \<lparr>ag_key = ''a'', ag_conn = 2\<rparr>)]"
  have "oae_on_end ''eof'' 0 1 ?w = (Inr (), snd (oae_on_end ''eof'' 0 1 ?w))"
    by (simp add: session_eval demo_defs)
  from duplicate_login_breaks_survivor [OF _ _ _ this, where ?c2.0 = 2 and key = "''a''" and ps = "demo_parsers demo_envelope"
      and data = "[1]" and en = demo_envelope and m = demo_message and tls = demo_tls]
  show ?thesis by (simp add: oae_on_eof_def demo_defs)
qed

end
