(* ===== verification/Conversations.thy ===== *)
theory Conversations
  imports Workers Notifications EndpointSending PathFraming Uris
begin

text \<open>
  Conversations with the search: \<^verbatim>\<open>mt-core/comms/src/cpp/OutboundConversations.cpp\<close>, and in
  \<^verbatim>\<open>mt-core/conversations/src/cpp\<close> the creator of conversations with its worker task
  (\<^verbatim>\<open>OutboundSearchConversationCreator.cpp\<close>) and the tasks that hold them (\<^verbatim>\<open>SearchConversationTask.hpp\<close>,
  \<^verbatim>\<open>SearchQueryTask\<close>, \<^verbatim>\<open>SearchUpdateTask\<close>, \<^verbatim>\<open>SearchRemoveTask\<close>, \<^verbatim>\<open>SearchAddressUpdateTask\<close>). A task is a
  \<^verbatim>\<open>StateMachineTask\<close>, the worker a \<^verbatim>\<open>TNonBlockingWorkerTask\<close>, a conversation a \<^verbatim>\<open>Waitable\<close>, the connection
  an endpoint: the models of these parts are used as they are. A callback of a notification is the number of the
  task that it makes runnable. Parsing of replies and dialling the search are parameters.
\<close>

subsection \<open>Messages\<close>

text \<open>Descriptions, models and addresses are passed on as they are; a score or distance is the bits of a double.\<close>

record agent_search =
  as_query :: "byte list"
  as_query_v2 :: "byte list option"

datatype query_body = QueryModel "byte list" | QueryV2 "byte list"

datatype request =
    UpdateModels string string "byte list"
  | UpdateAddress string "byte list"
  | RemoveModels string bool "string option" "(string \<times> byte list) option"
  | SearchQuery string query_body u16

record sr_item =
  si_key :: string
  si_ip :: string
  si_port :: u32
  si_info :: string
  si_distance :: u64
  si_agents :: "(string \<times> u64) list"

text \<open>The status of an update or a removal is \<open>0\<close> on success.\<close>

datatype response = UpdateResponse int | RemoveResponse int | SearchResponse "sr_item list"

datatype conv_class = UpdateClass | RemoveClass | SearchClass

datatype conv_type = SEARCH_NARROW | SEARCH_WIDE | UPDATE | REMOVE

datatype conv_operation = OpRegisterService | OpUnregisterService

datatype answer =
    Agents int "string list"
  | AgentsWide int "sr_item list"
  | OefError int conv_operation
  | PlainResponse "response option"

subsection \<open>A conversation\<close>

text \<open>\<^verbatim>\<open>status_code\<close> has no value before the first message or error.\<close>

record conversation =
  cv_class :: conv_class
  cv_type :: conv_type
  cv_ident :: u64
  cv_uri :: uri
  cv_initiator :: request
  cv_responses :: "response list"
  cv_status :: "int option"
  cv_error :: string
  cv_waitable :: waitable

definition cv_new :: "conv_class \<Rightarrow> conv_type \<Rightarrow> u64 \<Rightarrow> uri \<Rightarrow> request \<Rightarrow> conversation" where
  "cv_new cl t i u r = \<lparr>cv_class = cl, cv_type = t, cv_ident = i, cv_uri = u, cv_initiator = r, cv_responses = [],
     cv_status = None, cv_error = [], cv_waitable = wt_new\<rparr>"

definition cv_wake :: "conversation \<times> nat notif_store \<Rightarrow> conversation \<times> nat notif_store" where
  "cv_wake = (\<lambda>(c, s). case wt_wake (cv_waitable c, s) of (w, s') \<Rightarrow> (c\<lparr>cv_waitable := w\<rparr>, s'))"

definition cv_handleMessage :: "(conv_class \<Rightarrow> byte list \<Rightarrow> response option) \<Rightarrow> byte list \<Rightarrow>
    conversation \<times> nat notif_store \<Rightarrow> conversation \<times> nat notif_store" where
  "cv_handleMessage parse buffer = (\<lambda>(c, s). case parse (cv_class c) buffer of
     None \<Rightarrow> cv_wake (c\<lparr>cv_status := Some 91, cv_error := []\<rparr>, s)
   | Some r \<Rightarrow> cv_wake (c\<lparr>cv_status := Some 0, cv_responses := cv_responses c @ [r]\<rparr>, s))"

definition cv_handleError :: "int \<Rightarrow> string \<Rightarrow> conversation \<times> nat notif_store \<Rightarrow> conversation \<times> nat notif_store" where
  "cv_handleError code msg = (\<lambda>(c, s). (c\<lparr>cv_status := Some code, cv_error := msg\<rparr>, s))"

definition cv_getAvailableReplyCount :: "conversation \<Rightarrow> nat" where
  "cv_getAvailableReplyCount c = length (cv_responses c)"

definition cv_getReply :: "nat \<Rightarrow> conversation \<Rightarrow> exn + response option" where
  "cv_getReply n c = (if length (cv_responses c) = 0 then Inr None
     else if n < length (cv_responses c) then Inr (Some (cv_responses c ! n)) else Inl Undefined)"

definition cv_getErrorCode :: "conversation \<Rightarrow> exn + int" where
  "cv_getErrorCode c = (case cv_status c of None \<Rightarrow> Inl Undefined | Some n \<Rightarrow> Inr n)"

definition cv_success :: "conversation \<Rightarrow> exn + bool" where
  "cv_success c = (case cv_status c of None \<Rightarrow> Inl Undefined | Some n \<Rightarrow> Inr (n = 0))"

definition cv_getErrorMessage :: "conversation \<Rightarrow> string" where
  "cv_getErrorMessage c = cv_error c"

subsection \<open>State\<close>

text \<open>
  A workload of the worker is a conversation, of which it reads the identity, the address and the request.
  \<open>nt_registrations\<close> counts the address tasks submitted. The world: the conversations made, the table
  \<^verbatim>\<open>ident2conversation\<close>, the creator's counter, the registered creators (there is one kind), the worker, the
  notifications and the replies submitted to agents.
\<close>

type_synonym workload = "u64 \<times> uri \<times> request"

record 'p netw =
  nt_ep :: "(uri \<times> request, 'p) endpoint option"
  nt_registrations :: nat

record 'p searchw =
  sw_convs :: "conversation list"
  sw_table :: "(u64 \<times> nat) list"
  sw_next :: u64
  sw_creators :: "(string \<times> unit) list"
  sw_worker :: "(workload, 'p netw) nworker"
  sw_store :: "nat notif_store"
  sw_replies :: "(nat \<times> answer) list"

definition sw_new :: "'p searchw" where
  "sw_new = \<lparr>sw_convs = [], sw_table = [], sw_next = 1, sw_creators = [],
     sw_worker = nw_new \<lparr>nt_ep = None, nt_registrations = 0\<rparr>, sw_store = \<lparr>ns_heap = [], ns_log = []\<rparr>, sw_replies = []\<rparr>"

subsection \<open>Starting conversations\<close>

definition obs_add :: "string \<Rightarrow> ('p searchw, unit) prog" where
  "obs_add target = pmodify (\<lambda>w. w\<lparr>sw_creators := omap_insert target () (sw_creators w)\<rparr>)"

definition obs_del :: "string \<Rightarrow> ('p searchw, unit) prog" where
  "obs_del target = pmodify (\<lambda>w. w\<lparr>sw_creators := omap_erase target (sw_creators w)\<rparr>)"

definition cc_kind :: "string \<Rightarrow> exn + conv_type \<times> conv_class" where
  "cc_kind path =
     (if path = ''/update'' then Inr (UPDATE, UpdateClass)
      else if path = ''/remove'' then Inr (REMOVE, RemoveClass)
      else if path = ''/search'' then Inr (UPDATE, SearchClass)
      else Inl (InvalidArgument (path @ '' is not a valid target, to start a OutboundSearchConversationCreator!'')))"

text \<open>The result is the number of the new conversation.\<close>

definition cc_start :: "uri \<Rightarrow> request \<Rightarrow> ('p searchw, nat) prog" where
  "cc_start target initiator = pbind (pget sw_next) (\<lambda>this_id.
     pthen (pmodify (\<lambda>w. w\<lparr>sw_next := sw_next w + 1\<rparr>))
    (pbind (plift (cc_kind (uri_path target))) (\<lambda>(t, cl).
     pbind (pget (\<lambda>w. length (sw_convs w))) (\<lambda>n.
     pthen (pmodify (\<lambda>w. w\<lparr>sw_convs := sw_convs w @ [cv_new cl t this_id target initiator],
                          sw_table := omap_insert this_id n (sw_table w),
                          sw_worker := snd (nw_post (this_id, target, initiator) (sw_worker w))\<rparr>))
           (pret n)))))"

definition obs_startConversation :: "uri \<Rightarrow> request \<Rightarrow> ('p searchw, nat) prog" where
  "obs_startConversation target initiator = pbind (pget (\<lambda>w. map_of (sw_creators w) (uri_host target))) (\<lambda>cr.
     case cr of Some u \<Rightarrow> cc_start target initiator | None \<Rightarrow> pthrow (InvalidArgument (uri_host target)))"

subsection \<open>The worker\<close>

definition wk_ready :: "'p netw \<Rightarrow> bool" where
  "wk_ready n = (case nt_ep n of None \<Rightarrow> False | Some e \<Rightarrow> ep_connected e)"

definition on_ep :: "((uri \<times> request, 'p) endpoint, 'a) prog \<Rightarrow> ('p netw, 'a) prog" where
  "on_ep m = (\<lambda>n. case nt_ep n of
     None \<Rightarrow> (Inl Undefined, n)
   | Some e \<Rightarrow> (case m e of (r, e') \<Rightarrow> (r, n\<lparr>nt_ep := Some e'\<rparr>)))"

text \<open>
  What dialling gives: whether connecting threw, what \<^verbatim>\<open>go\<close> learns of the peer's address, and the new endpoint with its
  reader and writer.
\<close>

type_synonym 'p dialled = "(exn + unit) \<times> (exn + string) \<times> (uri \<times> request, 'p) endpoint"

definition wk_connect :: "'p dialled \<Rightarrow> ('p netw, bool) prog" where
  "wk_connect dial = pcatch
     (pthen (pmodify (\<lambda>n. n\<lparr>nt_ep := Some (snd (snd dial))\<rparr>))
     (pthen (plift (fst dial))
     (pthen (on_ep (ep_go (fst (snd dial)) (Inr ())))
     (pthen (pmodify (\<lambda>n. n\<lparr>nt_registrations := nt_registrations n + 1\<rparr>)) (pret True)))))
     (\<lambda>x. if is_std_exception x then pret False else pthrow x)"

text \<open>What \<^verbatim>\<open>send\<close> answers is not looked at.\<close>

definition wk_send :: "(uri \<times> request, 'p) writer_if \<Rightarrow> workload \<Rightarrow> ('p netw, processed) prog" where
  "wk_send wr = (\<lambda>(i, u, r).
     pthen (on_ep (ep_send (u\<lparr>uri_port := ucast i\<rparr>, r)))
    (pthen (on_ep (ep_run_sending wr)) (pret P_COMPLETE)))"

definition wk_process :: "'p dialled \<Rightarrow> (uri \<times> request, 'p) writer_if \<Rightarrow>
    workload \<Rightarrow> workload_state \<Rightarrow> ('p netw, processed) prog" where
  "wk_process dial wr w state = pbind (pget wk_ready) (\<lambda>ready.
     if ready then wk_send wr w
     else pbind (wk_connect dial) (\<lambda>ok. if \<not> ok then pret P_NOT_STARTED else wk_send wr w))"

text \<open>A run of the worker, which serves up to five conversations at a time.\<close>

definition wk_run :: "(workload entry \<Rightarrow> workload entry list \<Rightarrow> workload entry list) \<Rightarrow>
    'p dialled \<Rightarrow> (uri \<times> request, 'p) writer_if \<Rightarrow> ('p searchw, exit_state) prog" where
  "wk_run ins dial wr = (\<lambda>w. case nw_run ins 5 (wk_process dial wr) (sw_worker w) of
     (r, nw) \<Rightarrow> (r, w\<lparr>sw_worker := nw\<rparr>))"

subsection \<open>Replies from the search\<close>

text \<open>The reader's two handlers look the conversation up by the identifier of the message.\<close>

definition cb_update :: "nat \<Rightarrow> (conversation \<times> nat notif_store \<Rightarrow> conversation \<times> nat notif_store) \<Rightarrow>
    'p searchw \<Rightarrow> 'p searchw" where
  "cb_update n f w = (case f (sw_convs w ! n, sw_store w) of (c, s) \<Rightarrow> w\<lparr>sw_convs := (sw_convs w)[n := c], sw_store := s\<rparr>)"

definition cb_onComplete :: "(conv_class \<Rightarrow> byte list \<Rightarrow> response option) \<Rightarrow> u64 \<Rightarrow> byte list \<Rightarrow> ('p searchw, unit) prog" where
  "cb_onComplete parse i buffer = pmodify (\<lambda>w. case map_of (sw_table w) i of
     None \<Rightarrow> w | Some n \<Rightarrow> cb_update n (cv_handleMessage parse buffer) w)"

definition cb_onError :: "u64 \<Rightarrow> int \<Rightarrow> string \<Rightarrow> ('p searchw, unit) prog" where
  "cb_onError i code msg = pmodify (\<lambda>w. case map_of (sw_table w) i of
     None \<Rightarrow> w | Some n \<Rightarrow> cb_update n (cv_handleError code msg) w)"

fun cb_message :: "(conv_class \<Rightarrow> byte list \<Rightarrow> response option) \<Rightarrow> path_msg \<Rightarrow> ('p searchw, unit) prog" where
  "cb_message parse (Reply i m) = cb_onComplete parse i m"
| "cb_message parse (Failure i code msg) = cb_onError i code msg"

subsection \<open>The tasks\<close>

text \<open>What the four kinds of task hold of their own; a missing description is \<open>None\<close>.\<close>

datatype task_kind =
    KUpdate "byte list"
  | KRemove "byte list option" bool
  | KQuery agent_search u16
  | KAddress string "byte list"

record ctask =
  ct_id :: nat
  ct_kind :: task_kind
  ct_endpoint :: nat
  ct_msg_id :: int
  ct_core_key :: string
  ct_agent_uri :: string
  ct_sendReply :: bool

fun ct_path :: "task_kind \<Rightarrow> string" where
  "ct_path (KUpdate d) = ''update''"
| "ct_path (KRemove d all) = ''remove''"
| "ct_path (KQuery q ttl) = ''search''"
| "ct_path (KAddress k a) = ''update''"

text \<open>The request of each kind of task.\<close>

definition ut_request :: "string \<Rightarrow> string \<Rightarrow> byte list \<Rightarrow> request" where
  "ut_request core_key agent_uri d = UpdateModels core_key agent_uri d"

definition rt_request :: "string \<Rightarrow> string \<Rightarrow> byte list option \<Rightarrow> bool \<Rightarrow> request" where
  "rt_request core_key agent_uri d remove_row =
     RemoveModels core_key remove_row (if remove_row then Some agent_uri else None) (map_option (\<lambda>x. (agent_uri, x)) d)"

definition qt_request :: "string \<Rightarrow> agent_search \<Rightarrow> u16 \<Rightarrow> request" where
  "qt_request core_key q ttl =
     SearchQuery core_key (case as_query_v2 q of Some x \<Rightarrow> QueryV2 x | None \<Rightarrow> QueryModel (as_query q)) ttl"

definition at_request :: "string \<Rightarrow> byte list \<Rightarrow> request" where
  "at_request k a = UpdateAddress k a"

fun make_request_proto :: "string \<Rightarrow> string \<Rightarrow> task_kind \<Rightarrow> request" where
  "make_request_proto core_key agent_uri (KUpdate d) = ut_request core_key agent_uri d"
| "make_request_proto core_key agent_uri (KRemove d all) = rt_request core_key agent_uri d all"
| "make_request_proto core_key agent_uri (KQuery q ttl) = qt_request core_key q ttl"
| "make_request_proto core_key agent_uri (KAddress k a) = at_request k a"

text \<open>The constructors; a task answers its agent only once \<^verbatim>\<open>setDefaultSendReplyFunc\<close> was called.\<close>

definition ct_new :: "nat \<Rightarrow> task_kind \<Rightarrow> nat \<Rightarrow> int \<Rightarrow> string \<Rightarrow> string \<Rightarrow> ctask" where
  "ct_new i k endpoint msg_id core_key agent_uri = \<lparr>ct_id = i, ct_kind = k, ct_endpoint = endpoint, ct_msg_id = msg_id,
     ct_core_key = core_key, ct_agent_uri = agent_uri, ct_sendReply = False\<rparr>"

definition ct_setDefaultSendReplyFunc :: "ctask \<Rightarrow> ctask" where
  "ct_setDefaultSendReplyFunc t = t\<lparr>ct_sendReply := True\<rparr>"

definition ut_new :: "nat \<Rightarrow> byte list \<Rightarrow> nat \<Rightarrow> int \<Rightarrow> string \<Rightarrow> string \<Rightarrow> ctask" where
  "ut_new i d endpoint msg_id core_key agent_uri = ct_new i (KUpdate d) endpoint msg_id core_key agent_uri"

definition rt_new :: "nat \<Rightarrow> byte list option \<Rightarrow> nat \<Rightarrow> int \<Rightarrow> string \<Rightarrow> string \<Rightarrow> bool \<Rightarrow> ctask" where
  "rt_new i d endpoint msg_id core_key agent_uri remove_row = ct_new i (KRemove d remove_row) endpoint msg_id core_key agent_uri"

definition qt_new :: "nat \<Rightarrow> agent_search \<Rightarrow> nat \<Rightarrow> int \<Rightarrow> string \<Rightarrow> string \<Rightarrow> u16 \<Rightarrow> ctask" where
  "qt_new i q endpoint msg_id core_key agent_uri ttl = ct_new i (KQuery q ttl) endpoint msg_id core_key agent_uri"

definition adt_new :: "nat \<Rightarrow> string \<Rightarrow> byte list \<Rightarrow> nat \<Rightarrow> ctask" where
  "adt_new i k a endpoint = ct_new i (KAddress k a) endpoint 1 [] []"

text \<open>
  The task that a new connection to the search submits, to announce the address of the core. \<open>ser\<close> serialises the address; the task
  has no connection to an agent (\<open>none\<close>) and sends no answer.
\<close>

record update_address =
  ua_ip :: string
  ua_port :: u16
  ua_key :: string
  ua_signature :: string

definition register_address :: "(update_address \<Rightarrow> byte list) \<Rightarrow> nat \<Rightarrow> string \<Rightarrow> uri \<Rightarrow> nat \<Rightarrow> ctask" where
  "register_address ser i core_key core_uri none =
     (let address = \<lparr>ua_ip = uri_host core_uri, ua_port = uri_port core_uri, ua_key = core_key, ua_signature = ''Sign''\<rparr>
      in adt_new i (ua_key address) (ser address) none)"

lemma register_address_request:
  "make_request_proto (ct_core_key t) (ct_agent_uri t) (ct_kind t) = UpdateAddress core_key (ser
     \<lparr>ua_ip = uri_host core_uri, ua_port = uri_port core_uri, ua_key = core_key, ua_signature = ''Sign''\<rparr>)
   \<and> ct_path (ct_kind t) = ''update'' \<and> \<not> ct_sendReply t"
  if "t = register_address ser i core_key core_uri none"
  using that by (simp add: register_address_def adt_new_def ct_new_def at_request_def Let_def)

text \<open>The state of a task: the world, and the conversation it holds. The builder dies at the end of the condition.\<close>

type_synonym 'p ctstate = "'p searchw \<times> nat option"

definition on_world :: "('p searchw, 'a) prog \<Rightarrow> ('p ctstate, 'a) prog" where
  "on_world m = (\<lambda>(w, c). case m w of (r, w') \<Rightarrow> (r, (w', c)))"

definition ct_listen :: "nat \<Rightarrow> nat \<Rightarrow> ('p searchw, bool) prog" where
  "ct_listen tid n = (\<lambda>w. case wt_makeNotification (cv_waitable (sw_convs w ! n), sw_store w) of (b, wt, s) \<Rightarrow>
     (let b = nb_then tid b
      in (Inr (nb_waiting b s), w\<lparr>sw_convs := (sw_convs w)[n := (sw_convs w ! n)\<lparr>cv_waitable := wt\<rparr>],
            sw_store := nb_destroy b s\<rparr>)))"

definition ct_start :: "ctask \<Rightarrow> ('p searchw, nat) prog" where
  "ct_start t = pbind (plift (uri_parse (''outbound://search/'' @ ct_path (ct_kind t)))) (\<lambda>u.
     obs_startConversation u (make_request_proto (ct_core_key t) (ct_agent_uri t) (ct_kind t)))"

definition createConv :: "ctask \<Rightarrow> 'p ctstate entry_point" where
  "createConv t = pbind (on_world (ct_start t)) (\<lambda>n.
     pthen (pmodify (\<lambda>(w, c). (w, Some n)))
    (pbind (on_world (ct_listen (ct_id t) n)) (\<lambda>waiting. pret (1, if waiting then DEFER else COMPLETE))))"

text \<open>The conversation of a task: calling through a null pointer is undefined.\<close>

definition ct_conversation :: "('p ctstate, conversation) prog" where
  "ct_conversation = pbind (pget (\<lambda>(w, c). map_option (\<lambda>n. sw_convs w ! n) c)) (\<lambda>x.
     case x of Some c \<Rightarrow> pret c | None \<Rightarrow> pthrow Undefined)"

definition ct_reply :: "ctask \<Rightarrow> answer \<Rightarrow> ('p ctstate, unit) prog" where
  "ct_reply t a = pmodify (\<lambda>(w, c). (if ct_sendReply t then w\<lparr>sw_replies := sw_replies w @ [(ct_endpoint t, a)]\<rparr> else w, c))"

definition qt_narrow :: "sr_item list \<Rightarrow> exn + string list" where
  "qt_narrow items = fold (\<lambda>(k, score) acc. ebind acc (\<lambda>xs.
     ebind (oef_parseAgent k oef_uri_new) (\<lambda>u. Inr (xs @ [oef_agentPartAsString u]))))
     (concat (map si_agents items)) (Inr [])"

definition qt_answer :: "ctask \<Rightarrow> u16 \<Rightarrow> response \<Rightarrow> ('p ctstate, int \<times> exit_state) prog" where
  "qt_answer t ttl r = (case r of
     SearchResponse items \<Rightarrow>
       pbind (plift (if ttl = 1 then ebind (qt_narrow items) (\<lambda>xs. Inr (Agents (ct_msg_id t) xs))
                     else Inr (AgentsWide (ct_msg_id t) items))) (\<lambda>a.
       pthen (ct_reply t a) (pret (0, COMPLETE)))
   | _ \<Rightarrow> pthrow Undefined)"

definition qt_handleResponse :: "ctask \<Rightarrow> u16 \<Rightarrow> 'p ctstate entry_point" where
  "qt_handleResponse t ttl = pbind ct_conversation (\<lambda>c.
     if cv_getAvailableReplyCount c = 0 then pret (0, ERRORED)
     else pbind (plift (cv_success c)) (\<lambda>ok.
       if \<not> ok then pret (0, ERRORED)
       else if cv_getAvailableReplyCount c = 0 then pret (0, DEFER)
       else pbind (plift (cv_getReply 0 c)) (\<lambda>r. case r of
         None \<Rightarrow> pthrow Undefined | Some r \<Rightarrow> qt_answer t ttl r)))"

definition ut_handleResponse :: "ctask \<Rightarrow> 'p ctstate entry_point" where
  "ut_handleResponse t = pbind ct_conversation (\<lambda>c.
     if cv_getAvailableReplyCount c = 0 then pret (0, ERRORED)
     else pbind (plift (cv_getReply 0 c)) (\<lambda>r. case r of
         None \<Rightarrow> pret (0, ERRORED)
       | Some (UpdateResponse status) \<Rightarrow>
           pthen (if status \<noteq> 0 then ct_reply t (OefError (ct_msg_id t) OpRegisterService) else pret ()) (pret (0, COMPLETE))
       | Some _ \<Rightarrow> pthrow Undefined))"

definition rt_handleResponse :: "ctask \<Rightarrow> 'p ctstate entry_point" where
  "rt_handleResponse t = pbind ct_conversation (\<lambda>c.
     if cv_getAvailableReplyCount c = 0 then pret (0, ERRORED)
     else pbind (plift (cv_getReply 0 c)) (\<lambda>r. case r of
         Some (RemoveResponse status) \<Rightarrow>
           pthen (if status \<noteq> 0 then ct_reply t (OefError (ct_msg_id t) OpUnregisterService) else pret ()) (pret (0, COMPLETE))
       | _ \<Rightarrow> pthrow Undefined))"

definition at_handleResponse :: "ctask \<Rightarrow> 'p ctstate entry_point" where
  "at_handleResponse t = pbind ct_conversation (\<lambda>c.
     pbind (plift (cv_getReply 0 c)) (\<lambda>r. pthen (ct_reply t (PlainResponse r)) (pret (0, COMPLETE))))"

definition ct_handleResponse :: "ctask \<Rightarrow> 'p ctstate entry_point" where
  "ct_handleResponse t = (case ct_kind t of
     KUpdate d \<Rightarrow> ut_handleResponse t
   | KRemove d all \<Rightarrow> rt_handleResponse t
   | KQuery q ttl \<Rightarrow> qt_handleResponse t ttl
   | KAddress k a \<Rightarrow> at_handleResponse t)"

definition ct_entryPoints :: "ctask \<Rightarrow> 'p ctstate entry_point list" where
  "ct_entryPoints t = [createConv t, ct_handleResponse t]"

subsection \<open>Invariants\<close>

text \<open>
  The conversations are numbered from 1 in the order in which they started and the table has exactly these
  numbers (nothing is ever erased); every waiter is a waiting notification with a task to make runnable, and no
  two conversations share one.
\<close>

definition sw_waiting :: "'p searchw \<Rightarrow> nat \<Rightarrow> nat list" where
  "sw_waiting w j = wt_waiting (cv_waitable (sw_convs w ! j))"

definition numbered :: "'p searchw \<Rightarrow> bool" where
  "numbered w \<longleftrightarrow> sw_next w = of_nat (length (sw_convs w) + 1) \<and>
     (\<forall>i. map_of (sw_table w) i = (if 1 \<le> unat i \<and> unat i \<le> length (sw_convs w) then Some (unat i - 1) else None)) \<and>
     (\<forall>j < length (sw_convs w). cv_ident (sw_convs w ! j) = of_nat (j + 1))"

definition waiter :: "nat notif_store \<Rightarrow> nat \<Rightarrow> bool" where
  "waiter s n \<longleftrightarrow> n < length (ns_heap s) \<and> (\<exists>t. ns_heap s ! n = nb_waiting_notif (nb_then t (nb_new n)))"

definition waiters_ok :: "'p searchw \<Rightarrow> bool" where
  "waiters_ok w \<longleftrightarrow> (\<forall>j < length (sw_convs w). distinct (sw_waiting w j) \<and> (\<forall>n \<in> set (sw_waiting w j). waiter (sw_store w) n)) \<and>
     (\<forall>i < length (sw_convs w). \<forall>j < length (sw_convs w). i \<noteq> j \<longrightarrow> set (sw_waiting w i) \<inter> set (sw_waiting w j) = {})"

definition waiting_tasks :: "'p searchw \<Rightarrow> nat \<Rightarrow> nat list" where
  "waiting_tasks w j = map (\<lambda>n. the (nt_success (ns_heap (sw_store w) ! n))) (sw_waiting w j)"

definition sw_ok :: "'p searchw \<Rightarrow> bool" where
  "sw_ok w \<longleftrightarrow> numbered w \<and> waiters_ok w"

lemma sw_ok_new: "sw_ok sw_new"
  by (auto simp: sw_ok_def numbered_def waiters_ok_def sw_new_def)

lemma notify_heap:
  "length (ns_heap (fold n_notify ns s)) = length (ns_heap s) \<and>
   (m \<notin> set ns \<longrightarrow> ns_heap (fold n_notify ns s) ! m = ns_heap s ! m)"
  by (induction ns arbitrary: s) (auto simp: n_notify_def n_updateState_def n_dispatchCallbacks_def Let_def)

lemma notify_log:
  assumes "distinct ns" "\<forall>n \<in> set ns. waiter s n"
  shows "ns_log (fold n_notify ns s) = ns_log s @ map (\<lambda>n. the (nt_success (ns_heap s ! n))) ns"
proof -
  let ?b = "\<lambda>n. nb_then (the (nt_success (ns_heap s ! n))) (nb_new n)"
  have w: "ns_heap s ! n = nb_waiting_notif (?b n)" if "n \<in> set ns" for n
    using assms(2) that by (auto simp: waiter_def nb_waiting_notif_def nb_then_def)
  have "list_all2 (\<lambda>n b. n < length (ns_heap s) \<and> ns_heap s ! n = nb_waiting_notif b) ns (map ?b ns)"
    using assms(2) w by (auto simp: list_all2_conv_all_nth waiter_def)
  from resolve_pending [OF assms(1) _ this, of NSuccess]
  have "ns_log (fold n_notify ns s) = ns_log s @ concat (map (nb_owed NSuccess) (map ?b ns))" by (simp add: n_notify_def)
  also have "concat (map (nb_owed NSuccess) (map ?b ns)) = map (\<lambda>n. the (nt_success (ns_heap s ! n))) ns"
    by (induction ns) (simp_all add: nb_owed_def nb_then_def nb_new_def opt_list_def)
  finally show ?thesis .
qed

text \<open>A conversation changed without a change of identity or of waiters; one that is woken.\<close>

lemma waiters_ok_update:
  assumes "waiters_ok w" "j < length (sw_convs w)" "cv_waitable c = (cv_waitable (sw_convs w ! j))\<lparr>wt_waiting := []\<rparr>"
    and "s = fold n_notify (sw_waiting w j) (sw_store w)"
  shows "waiters_ok (w\<lparr>sw_convs := (sw_convs w)[j := c], sw_store := s\<rparr>)"
proof -
  let ?w = "w\<lparr>sw_convs := (sw_convs w)[j := c], sw_store := s\<rparr>"
  have wait: "sw_waiting ?w i = (if i = j then [] else sw_waiting w i)" if "i < length (sw_convs w)" for i
    using assms(2,3) that by (simp add: sw_waiting_def nth_list_update)
  have "waiter s n" if "i < length (sw_convs w)" "i \<noteq> j" "n \<in> set (sw_waiting w i)" for i n
  proof -
    have "n \<notin> set (sw_waiting w j)" using assms(1,2) that unfolding waiters_ok_def by blast
    then show ?thesis
      using assms(1,4) that notify_heap [of "sw_waiting w j" "sw_store w" n] by (auto simp: waiters_ok_def waiter_def)
  qed
  with assms(1) show ?thesis by (auto simp: waiters_ok_def wait)
qed

text \<open>What a message does to the conversation it is for.\<close>

definition answered :: "(conv_class \<Rightarrow> byte list \<Rightarrow> response option) \<Rightarrow> byte list \<Rightarrow> conversation \<Rightarrow> conversation" where
  "answered parse m c = (case parse (cv_class c) m of
     None \<Rightarrow> c\<lparr>cv_status := Some 91, cv_error := [], cv_waitable := (cv_waitable c)\<lparr>wt_waiting := []\<rparr>\<rparr>
   | Some r \<Rightarrow> c\<lparr>cv_status := Some 0, cv_responses := cv_responses c @ [r], cv_waitable := (cv_waitable c)\<lparr>wt_waiting := []\<rparr>\<rparr>)"

lemma handleMessage_apply:
  "cv_handleMessage parse m (c, s) = (answered parse m c, fold n_notify (wt_waiting (cv_waitable c)) s)"
  by (simp add: cv_handleMessage_def answered_def cv_wake_def wt_wake_def split: option.split)

lemma answered_sel [simp]:
  "cv_ident (answered parse m c) = cv_ident c" "cv_waitable (answered parse m c) = (cv_waitable c)\<lparr>wt_waiting := []\<rparr>"
  by (simp_all add: answered_def split: option.split)

lemma reply_step:
  assumes "sw_ok w" "1 \<le> unat i" "unat i \<le> length (sw_convs w)" "j = unat i - 1"
  shows "\<exists>s. cb_onComplete parse i m w = (Inr (), w\<lparr>sw_convs := (sw_convs w)[j := answered parse m (sw_convs w ! j)], sw_store := s\<rparr>) \<and>
    s = fold n_notify (sw_waiting w j) (sw_store w) \<and> ns_log s = ns_log (sw_store w) @ waiting_tasks w j \<and>
    sw_ok (w\<lparr>sw_convs := (sw_convs w)[j := answered parse m (sw_convs w ! j)], sw_store := s\<rparr>)"
proof -
  have j: "j < length (sw_convs w)" and t: "map_of (sw_table w) i = Some j"
    using assms by (auto simp: sw_ok_def numbered_def)
  let ?s = "fold n_notify (sw_waiting w j) (sw_store w)"
  let ?w = "w\<lparr>sw_convs := (sw_convs w)[j := answered parse m (sw_convs w ! j)], sw_store := ?s\<rparr>"
  have "numbered ?w" using assms(1) j by (auto simp: sw_ok_def numbered_def nth_list_update)
  moreover have "waiters_ok ?w" using assms(1) j by (auto simp: sw_ok_def intro!: waiters_ok_update)
  moreover have "ns_log ?s = ns_log (sw_store w) @ waiting_tasks w j"
    using assms(1) j by (auto simp: sw_ok_def waiters_ok_def waiting_tasks_def intro!: notify_log)
  moreover have "cb_onComplete parse i m w = (Inr (), ?w)"
    by (simp add: cb_onComplete_def t cb_update_def handleMessage_apply sw_waiting_def)
  ultimately show ?thesis by (auto simp: sw_ok_def)
qed

subsection \<open>Runs\<close>

text \<open>What happens to the world; a task listens to a conversation that exists.\<close>

datatype sw_event =
    SAdd string
  | SDel string
  | SStart ctask
  | SListen nat nat
  | SMessage path_msg
  | SRun

fun sw_event_run :: "(conv_class \<Rightarrow> byte list \<Rightarrow> response option) \<Rightarrow> ('p searchw, exit_state) prog \<Rightarrow> sw_event \<Rightarrow>
    'p searchw \<Rightarrow> 'p searchw" where
  "sw_event_run parse run (SAdd t) w = snd (obs_add t w)"
| "sw_event_run parse run (SDel t) w = snd (obs_del t w)"
| "sw_event_run parse run (SStart t) w = snd (ct_start t w)"
| "sw_event_run parse run (SListen t n) w = (if n < length (sw_convs w) then snd (ct_listen t n w) else w)"
| "sw_event_run parse run (SMessage m) w = snd (cb_message parse m w)"
| "sw_event_run parse run SRun w = snd (run w)"

definition sw_events :: "(conv_class \<Rightarrow> byte list \<Rightarrow> response option) \<Rightarrow> ('p searchw, exit_state) prog \<Rightarrow> sw_event list \<Rightarrow>
    'p searchw \<Rightarrow> 'p searchw" where
  "sw_events parse run es w = fold (sw_event_run parse run) es w"

text \<open>A conversation that fails keeps its waiters.\<close>

lemma error_step:
  assumes "sw_ok w"
  shows "cb_onError i code msg w = (Inr (), case map_of (sw_table w) i of
      None \<Rightarrow> w | Some j \<Rightarrow> w\<lparr>sw_convs := (sw_convs w)[j := (sw_convs w ! j)\<lparr>cv_status := Some code, cv_error := msg\<rparr>]\<rparr>)"
    and "sw_ok (snd (cb_onError i code msg w))"
proof -
  show run: "cb_onError i code msg w = (Inr (), case map_of (sw_table w) i of
      None \<Rightarrow> w | Some j \<Rightarrow> w\<lparr>sw_convs := (sw_convs w)[j := (sw_convs w ! j)\<lparr>cv_status := Some code, cv_error := msg\<rparr>]\<rparr>)"
    by (simp add: cb_onError_def cb_update_def cv_handleError_def split: option.split)
  have "sw_ok (w\<lparr>sw_convs := (sw_convs w)[j := (sw_convs w ! j)\<lparr>cv_status := Some code, cv_error := msg\<rparr>]\<rparr>)"
    if "j < length (sw_convs w)" for j
  proof -
    let ?w = "w\<lparr>sw_convs := (sw_convs w)[j := (sw_convs w ! j)\<lparr>cv_status := Some code, cv_error := msg\<rparr>]\<rparr>"
    have "sw_waiting ?w = sw_waiting w"
      using that by (auto simp: sw_waiting_def fun_eq_iff nth_list_update)
    then show ?thesis using assms that by (simp add: sw_ok_def numbered_def waiters_ok_def nth_list_update)
  qed
  then show "sw_ok (snd (cb_onError i code msg w))"
    using assms unfolding run by (auto simp: sw_ok_def numbered_def split: if_splits)
qed

lemma unat_ident: "m < 2 ^ 64 \<Longrightarrow> unat (of_nat m :: u64) = m"
  by (simp add: unsigned_of_nat take_bit_nat_eq_self)

lemma start_step:
  assumes "sw_ok w" "length (sw_convs w) + 1 < 2 ^ 64" "obs_startConversation u r w = (Inr n, w')"
  shows "n = length (sw_convs w) \<and> sw_ok w' \<and> sw_store w' = sw_store w \<and> sw_replies w' = sw_replies w \<and>
    nw_queue (sw_worker w') = nw_queue (sw_worker w) @ [((of_nat (n + 1), u, r), nw_waitables (sw_worker w))] \<and>
    (\<exists>t cl. cc_kind (uri_path u) = Inr (t, cl) \<and> sw_convs w' = sw_convs w @ [cv_new cl t (of_nat (n + 1)) u r])"
proof -
  obtain t cl where k: "cc_kind (uri_path u) = Inr (t, cl)"
    using assms(3) by (cases "cc_kind (uri_path u)"; cases "map_of (sw_creators w) (uri_host u)")
      (auto simp: obs_startConversation_def cc_start_def pbind_apply pthen_apply)
  let ?n = "length (sw_convs w)"
  let ?c = "cv_new cl t (of_nat (?n + 1)) u r"
  have w': "n = ?n \<and> w' = w\<lparr>sw_next := sw_next w + 1, sw_convs := sw_convs w @ [?c],
      sw_table := omap_insert (of_nat (?n + 1)) ?n (sw_table w),
      sw_worker := snd (nw_post (of_nat (?n + 1), u, r) (sw_worker w))\<rparr>"
    using assms(1,3) k by (cases "map_of (sw_creators w) (uri_host u)")
      (auto simp: obs_startConversation_def cc_start_def pbind_apply pthen_apply sw_ok_def numbered_def)
  have un: "unat (of_nat (?n + 1) :: u64) = ?n + 1" by (rule unat_ident) (use assms(2) in simp)
  have "numbered w'"
  proof -
    have "map_of (sw_table w') i = (if 1 \<le> unat i \<and> unat i \<le> length (sw_convs w') then Some (unat i - 1) else None)" for i
    proof (cases "i = of_nat (?n + 1)")
      case True
      then have "unat i = ?n + 1" using un by blast
      then show ?thesis using w' True by (simp del: of_nat_add)
    next
      case False
      then have "unat i \<noteq> ?n + 1" using un by (metis word_unat_eq_iff)
      then show ?thesis using w' False assms(1) by (auto simp: sw_ok_def numbered_def)
    qed
    then show ?thesis
      using w' assms(1) by (auto simp: sw_ok_def numbered_def nth_append cv_new_def less_Suc_eq)
  qed
  moreover have "sw_waiting w' j = (if j = ?n then [] else sw_waiting w j)" if "j < Suc ?n" for j
    using w' that by (auto simp: sw_waiting_def nth_append cv_new_def wt_new_def)
  ultimately show ?thesis
    using assms(1) w' k by (auto simp: sw_ok_def waiters_ok_def nw_post_def less_Suc_eq)
qed

lemma listen_step:
  assumes "sw_ok w" "n < length (sw_convs w)"
  shows "\<exists>w'. ct_listen t n w = (Inr True, w') \<and> sw_ok w' \<and> waiting_tasks w' n = waiting_tasks w n @ [t] \<and>
    sw_worker w' = sw_worker w \<and> sw_replies w' = sw_replies w \<and> ns_log (sw_store w') = ns_log (sw_store w) \<and>
    length (sw_convs w') = length (sw_convs w) \<and>
    (\<forall>j < length (sw_convs w). cv_responses (sw_convs w' ! j) = cv_responses (sw_convs w ! j) \<and>
       cv_class (sw_convs w' ! j) = cv_class (sw_convs w ! j) \<and> cv_status (sw_convs w' ! j) = cv_status (sw_convs w ! j))"
proof -
  let ?m = "length (ns_heap (sw_store w))"
  let ?b = "nb_then t (nb_new ?m)"
  let ?c = "(sw_convs w ! n)\<lparr>cv_waitable := (cv_waitable (sw_convs w ! n))\<lparr>wt_waiting := sw_waiting w n @ [?m]\<rparr>\<rparr>"
  let ?s = "(sw_store w)\<lparr>ns_heap := ns_heap (sw_store w) @ [nb_waiting_notif ?b]\<rparr>"
  let ?w = "w\<lparr>sw_convs := (sw_convs w)[n := ?c], sw_store := ?s\<rparr>"
  have run: "ct_listen t n w = (Inr True, ?w)"
    using join_destroy [of ?b "sw_store w"]
    by (simp add: ct_listen_def wt_makeNotification_def n_create_def nb_waiting_def nb_then_def nb_new_def n_isWaiting_def
        n_new_def sw_waiting_def Let_def)
  have lt: "\<forall>x \<in> set (sw_waiting w j). x < ?m" if "j < length (sw_convs w)" for j
    using assms(1) that by (auto simp: sw_ok_def waiters_ok_def waiter_def)
  have wait: "sw_waiting ?w j = (if j = n then sw_waiting w n @ [?m] else sw_waiting w j)" if "j < length (sw_convs w)" for j
    using that assms(2) by (simp add: sw_waiting_def nth_list_update)
  have old: "waiter ?s x" if "waiter (sw_store w) x" for x
    using that by (auto simp: waiter_def nth_append)
  have new: "waiter ?s ?m" by (auto simp: waiter_def nb_waiting_notif_def nb_then_def)
  have dis: "set (sw_waiting w i) \<inter> set (sw_waiting w j) = {}" if "i < length (sw_convs w)" "j < length (sw_convs w)" "i \<noteq> j" for i j
    using assms(1) that by (auto simp: sw_ok_def waiters_ok_def)
  have "waiters_ok ?w"
    unfolding waiters_ok_def
  proof (intro conjI allI impI)
    fix j assume "j < length (sw_convs ?w)"
    then show "distinct (sw_waiting ?w j)" "\<forall>x \<in> set (sw_waiting ?w j). waiter (sw_store ?w) x"
      using assms lt [of n] old new by (auto simp: wait sw_ok_def waiters_ok_def)
  next
    fix i j assume "i < length (sw_convs ?w)" "j < length (sw_convs ?w)" "i \<noteq> j"
    then show "set (sw_waiting ?w i) \<inter> set (sw_waiting ?w j) = {}"
      using dis [of i j] lt [of i] lt [of j] by (auto simp: wait)
  qed
  moreover have "numbered ?w" using assms by (auto simp: sw_ok_def numbered_def nth_list_update)
  moreover have "waiting_tasks ?w n = waiting_tasks w n @ [t]"
    unfolding waiting_tasks_def wait [OF assms(2)] using lt [OF assms(2)]
    by (auto simp: nth_append nb_waiting_notif_def nb_then_def)
  ultimately show ?thesis
    using run assms(2) by (intro exI [of _ ?w]) (simp add: sw_ok_def nth_list_update)
qed

lemma conv_uris:
  "uri_parse ''outbound://search/update'' = Inr \<lparr>uri_s = ''outbound://search/update'', uri_proto = ''outbound:'', uri_host = ''search'',
     uri_path = ''/update'', uri_port = 0, uri_valid = True\<rparr>"
  "uri_parse ''outbound://search/remove'' = Inr \<lparr>uri_s = ''outbound://search/remove'', uri_proto = ''outbound:'', uri_host = ''search'',
     uri_path = ''/remove'', uri_port = 0, uri_valid = True\<rparr>"
  "uri_parse ''outbound://search/search'' = Inr \<lparr>uri_s = ''outbound://search/search'', uri_proto = ''outbound:'', uri_host = ''search'',
     uri_path = ''/search'', uri_port = 0, uri_valid = True\<rparr>"
  by code_simp+

text \<open>The class of the conversation of a task.\<close>

fun ct_class :: "task_kind \<Rightarrow> conv_class" where
  "ct_class (KUpdate d) = UpdateClass"
| "ct_class (KRemove d all) = RemoveClass"
| "ct_class (KQuery q ttl) = SearchClass"
| "ct_class (KAddress k a) = UpdateClass"

definition ct_uri :: "ctask \<Rightarrow> uri" where
  "ct_uri t = projr (uri_parse (''outbound://search/'' @ ct_path (ct_kind t)))"

lemma ct_uri_parse:
  "uri_parse (''outbound://search/'' @ ct_path (ct_kind t)) = Inr (ct_uri t) \<and> uri_host (ct_uri t) = ''search'' \<and>
   (\<exists>ty. cc_kind (uri_path (ct_uri t)) = Inr (ty, ct_class (ct_kind t)))"
  by (cases "ct_kind t") (simp_all add: ct_uri_def conv_uris cc_kind_def)

lemma ct_start_step:
  assumes "sw_ok w" "length (sw_convs w) + 1 < 2 ^ 64"
  shows "(map_of (sw_creators w) ''search'' = None \<longrightarrow> ct_start t w = (Inl (InvalidArgument ''search''), w)) \<and>
    (map_of (sw_creators w) ''search'' \<noteq> None \<longrightarrow> (\<exists>w' ty. ct_start t w = (Inr (length (sw_convs w)), w') \<and> sw_ok w' \<and>
       sw_store w' = sw_store w \<and> sw_replies w' = sw_replies w \<and>
       nw_queue (sw_worker w') = nw_queue (sw_worker w) @ [((of_nat (length (sw_convs w) + 1), ct_uri t,
         make_request_proto (ct_core_key t) (ct_agent_uri t) (ct_kind t)), nw_waitables (sw_worker w))] \<and>
       sw_convs w' = sw_convs w @ [cv_new (ct_class (ct_kind t)) ty (of_nat (length (sw_convs w) + 1)) (ct_uri t)
         (make_request_proto (ct_core_key t) (ct_agent_uri t) (ct_kind t))]))"
proof (intro conjI impI)
  note u = ct_uri_parse [of t]
  assume "map_of (sw_creators w) ''search'' = None"
  with u show "ct_start t w = (Inl (InvalidArgument ''search''), w)"
    by (simp add: ct_start_def pbind_apply obs_startConversation_def)
next
  note u = ct_uri_parse [of t]
  let ?r = "make_request_proto (ct_core_key t) (ct_agent_uri t) (ct_kind t)"
  assume c: "map_of (sw_creators w) ''search'' \<noteq> None"
  have run: "ct_start t w = obs_startConversation (ct_uri t) ?r w"
    using u by (simp add: ct_start_def pbind_apply)
  obtain n w' where s: "obs_startConversation (ct_uri t) ?r w = (Inr n, w')"
    using u c by (auto simp: obs_startConversation_def cc_start_def pbind_apply pthen_apply)
  from start_step [OF assms s] u show "\<exists>w' ty. ct_start t w = (Inr (length (sw_convs w)), w') \<and> sw_ok w' \<and>
       sw_store w' = sw_store w \<and> sw_replies w' = sw_replies w \<and>
       nw_queue (sw_worker w') = nw_queue (sw_worker w) @ [((of_nat (length (sw_convs w) + 1), ct_uri t, ?r), nw_waitables (sw_worker w))] \<and>
       sw_convs w' = sw_convs w @ [cv_new (ct_class (ct_kind t)) ty (of_nat (length (sw_convs w) + 1)) (ct_uri t) ?r]"
    unfolding run s by auto
qed

text \<open>Every event keeps the invariant and the conversations already started.\<close>

lemma message_step: "sw_ok w \<Longrightarrow> sw_ok (snd (cb_message parse m w)) \<and> length (sw_convs (snd (cb_message parse m w))) = length (sw_convs w)"
proof (cases m)
  case (Reply i b)
  assume ok: "sw_ok w"
  show ?thesis
  proof (cases "1 \<le> unat i \<and> unat i \<le> length (sw_convs w)")
    case True
    then show ?thesis using reply_step [OF ok, of i "unat i - 1" parse b] Reply by auto
  next
    case False
    then show ?thesis using ok Reply by (auto simp: cb_onComplete_def sw_ok_def numbered_def)
  qed
next
  case (Failure i code msg)
  assume ok: "sw_ok w"
  then show ?thesis using error_step [OF ok, of i code msg] Failure by (auto split: option.split)
qed

lemma sw_event_step:
  assumes "sw_ok w" "\<And>v. sw_ok v \<Longrightarrow> sw_ok (snd (run v)) \<and> length (sw_convs (snd (run v))) = length (sw_convs v)"
    and "length (sw_convs w) + 1 < 2 ^ 64"
  shows "sw_ok (sw_event_run parse run e w) \<and> length (sw_convs w) \<le> length (sw_convs (sw_event_run parse run e w))"
proof (cases e)
  case (SAdd t)
  then show ?thesis using assms(1) by (simp add: obs_add_def sw_ok_def numbered_def waiters_ok_def sw_waiting_def)
next
  case (SDel t)
  then show ?thesis using assms(1) by (simp add: obs_del_def sw_ok_def numbered_def waiters_ok_def sw_waiting_def)
next
  case (SStart t)
  then show ?thesis using ct_start_step [OF assms(1,3), of t] assms(1) by (cases "map_of (sw_creators w) ''search''") auto
next
  case (SListen t n)
  then show ?thesis using listen_step [OF assms(1), of n t] assms(1) by auto
next
  case (SMessage m)
  then show ?thesis using message_step [OF assms(1), of parse m] by simp
next
  case SRun
  then show ?thesis using assms(2) [OF assms(1)] by simp
qed

lemma wk_run_step: "sw_ok w \<Longrightarrow> sw_ok (snd (wk_run ins dial wr w)) \<and> length (sw_convs (snd (wk_run ins dial wr w))) = length (sw_convs w)"
  by (simp add: wk_run_def sw_ok_def numbered_def waiters_ok_def sw_waiting_def split: prod.split)

lemma sw_event_mono: "length (sw_convs w) \<le> length (sw_convs (sw_event_run parse (wk_run ins dial wr) e w))"
proof (cases e)
  case (SStart t)
  show ?thesis
    unfolding SStart using ct_uri_parse [of t]
    by (cases "map_of (sw_creators w) ''search''")
      (auto simp: ct_start_def pbind_apply pthen_apply obs_startConversation_def cc_start_def)
next
  case (SMessage m)
  then show ?thesis
    by (cases m) (auto simp: cb_onComplete_def cb_onError_def cb_update_def split: option.split prod.split)
qed (auto simp: obs_add_def obs_del_def wk_run_def ct_listen_def Let_def split: prod.split)

lemma sw_events_ok:
  assumes "sw_ok w" "length (sw_convs (sw_events parse (wk_run ins dial wr) es w)) + 1 < 2 ^ 64"
  shows "sw_ok (sw_events parse (wk_run ins dial wr) es w)"
  using assms
proof (induction es rule: rev_induct)
  case Nil
  then show ?case by (simp add: sw_events_def)
next
  case (snoc e es)
  let ?v = "sw_events parse (wk_run ins dial wr) es w"
  have last: "sw_events parse (wk_run ins dial wr) (es @ [e]) w = sw_event_run parse (wk_run ins dial wr) e ?v"
    by (simp add: sw_events_def)
  have len: "length (sw_convs ?v) + 1 < 2 ^ 64"
    using snoc.prems(2) sw_event_mono [of ?v parse ins dial wr e] by (simp add: last)
  from sw_event_step [OF snoc.IH [OF snoc.prems(1) len] _ len, where run = "wk_run ins dial wr" and parse = parse and e = e] wk_run_step
  show ?case unfolding last by blast
qed

subsection \<open>Properties\<close>

text \<open>The identifier that the search sends back: that of the frame, whose leader takes it from the address's port.\<close>

definition wire_id :: "conversation \<Rightarrow> u64" where
  "wire_id c = ld_id (uri_leader ((cv_uri c)\<lparr>uri_port := ucast (cv_ident c)\<rparr>))"

lemma port_of_ident: "unat (ucast (ucast (x :: u64) :: u16) :: u64) = unat x mod 65536"
  by (simp add: unsigned_ucast_eq take_bit_eq_mod unat_mod)

lemma wire_id_eq:
  assumes "numbered w" "j < length (sw_convs w)" "length (sw_convs w) + 1 < 2 ^ 64"
  shows "unat (wire_id (sw_convs w ! j)) = (j + 1) mod 65536"
proof -
  have "cv_ident (sw_convs w ! j) = of_nat (j + 1)" using assms by (simp add: numbered_def)
  moreover have "unat (of_nat (j + 1) :: u64) = j + 1" by (rule unat_ident) (use assms in simp)
  ultimately have "unat (cv_ident (sw_convs w ! j)) = j + 1" by metis
  then show ?thesis using port_of_ident [of "cv_ident (sw_convs w ! j)"] by (simp add: wire_id_def uri_leader_def)
qed

text \<open>
  C27. A reply reaches its conversation: in any world that can arise, while at most 65535 conversations have been
  started, the reply to the request of a conversation goes to that conversation alone: it gets the parsed reply,
  or the status 91 when the reply does not parse; the tasks that wait for it, and no others, are made runnable,
  each once, and none waits any longer; every other conversation keeps its replies and its waiters.
\<close>

theorem search_reply_routed:
  assumes w: "w = sw_events parse (wk_run ins dial wr) es sw_new" "length (sw_convs w) < 65536" "j < length (sw_convs w)"
    and w': "w' = snd (cb_message parse (Reply (wire_id (sw_convs w ! j)) m) w)"
  shows "sw_convs w' ! j = answered parse m (sw_convs w ! j) \<and>
    ns_log (sw_store w') = ns_log (sw_store w) @ waiting_tasks w j \<and> waiting_tasks w' j = [] \<and>
    (\<forall>k < length (sw_convs w). k \<noteq> j \<longrightarrow> sw_convs w' ! k = sw_convs w ! k \<and> waiting_tasks w' k = waiting_tasks w k)"
proof -
  have ok: "sw_ok w" unfolding w(1) by (rule sw_events_ok [OF sw_ok_new]) (use w(1,2) in simp)
  have i: "unat (wire_id (sw_convs w ! j)) = j + 1"
    using wire_id_eq [of w j] ok w(2,3) by (simp add: sw_ok_def)
  obtain s where s: "w' = w\<lparr>sw_convs := (sw_convs w)[j := answered parse m (sw_convs w ! j)], sw_store := s\<rparr>"
    "s = fold n_notify (sw_waiting w j) (sw_store w)" "ns_log s = ns_log (sw_store w) @ waiting_tasks w j"
    using reply_step [OF ok, of "wire_id (sw_convs w ! j)" j parse m] i w(3) w' by auto
  have "waiting_tasks w' k = waiting_tasks w k" if k: "k < length (sw_convs w)" "k \<noteq> j" for k
  proof -
    have "n \<notin> set (sw_waiting w j)" if "n \<in> set (sw_waiting w k)" for n
      using ok k w(3) that unfolding sw_ok_def waiters_ok_def by blast
    moreover have "sw_waiting w' k = sw_waiting w k" using k by (simp add: s(1) sw_waiting_def)
    moreover have "sw_store w' = s" by (simp add: s(1))
    ultimately show ?thesis
      using notify_heap [of "sw_waiting w j" "sw_store w"] by (simp add: waiting_tasks_def s(2))
  qed
  then show ?thesis using s w(3) by (simp add: waiting_tasks_def sw_waiting_def)
qed

definition demo_task :: "task_kind \<Rightarrow> ctask" where
  "demo_task k = \<lparr>ct_id = 3, ct_kind = k, ct_endpoint = 8, ct_msg_id = 77, ct_core_key = ''core'', ct_agent_uri = ''agent'', ct_sendReply = True\<rparr>"

definition demo_parse :: "conv_class \<Rightarrow> byte list \<Rightarrow> response option" where
  "demo_parse cl m = (if m = [] then None else Some (case cl of
     UpdateClass \<Rightarrow> UpdateResponse (int (unat (hd m))) | RemoveClass \<Rightarrow> RemoveResponse (int (unat (hd m))) | SearchClass \<Rightarrow> SearchResponse []))"

lemma starts_length:
  assumes "n + 1 < 2 ^ 64" "map_of (sw_creators w) ''search'' \<noteq> None" "sw_ok w" "sw_convs w = []"
  shows "length (sw_convs (fold (sw_event_run parse run) (replicate n (SStart t)) w)) = n \<and>
    map_of (sw_creators (fold (sw_event_run parse run) (replicate n (SStart t)) w)) ''search'' \<noteq> None \<and>
    sw_ok (fold (sw_event_run parse run) (replicate n (SStart t)) w) \<and>
    sw_store (fold (sw_event_run parse run) (replicate n (SStart t)) w) = sw_store w \<and>
    (\<forall>j < n. sw_waiting (fold (sw_event_run parse run) (replicate n (SStart t)) w) j = [])"
  using assms(1)
proof (induction n)
  case 0
  then show ?case using assms by simp
next
  case (Suc n)
  let ?v = "fold (sw_event_run parse run) (replicate n (SStart t)) w"
  have v: "length (sw_convs ?v) = n" "map_of (sw_creators ?v) ''search'' \<noteq> None" "sw_ok ?v"
    "sw_store ?v = sw_store w" "\<forall>j < n. sw_waiting ?v j = []" using Suc by simp_all
  have "fold (sw_event_run parse run) (replicate (Suc n) (SStart t)) w = snd (ct_start t ?v)"
    by (simp add: replicate_append_same [symmetric] del: replicate_Suc)
  moreover have "sw_creators (snd (ct_start t ?v)) = sw_creators ?v"
    using ct_uri_parse [of t] by (auto simp: ct_start_def pbind_apply pthen_apply obs_startConversation_def cc_start_def split: option.split)
  ultimately show ?case
    using ct_start_step [OF v(3), of t] v(1,2,4,5) Suc.prems
    by (auto simp: sw_waiting_def nth_append less_Suc_eq cv_new_def wt_new_def)
qed

definition demo_dial :: "unit dialled" where
  "demo_dial = (Inl (RuntimeError ''no route''), Inr ''peer'', ep_new [0] [0] ())"

definition demo_writer :: "(uri \<times> request, unit) writer_if" where
  "demo_writer bs txq p = (Inr (0, 0), txq, bs, p)"

definition demo_search :: "nat \<Rightarrow> unit searchw" where
  "demo_search n = sw_events demo_parse (wk_run (#) demo_dial demo_writer)
     (SAdd ''search'' # replicate n (SStart (demo_task (KUpdate []))) @ [SListen 3 0]) sw_new"

lemma demo_search_ok:
  assumes "1 \<le> n" "n + 1 < 2 ^ 64"
  shows "length (sw_convs (demo_search n)) = n \<and> waiting_tasks (demo_search n) 0 = [3] \<and> ns_log (sw_store (demo_search n)) = []"
proof -
  let ?w0 = "snd (obs_add ''search'' sw_new) :: unit searchw"
  let ?v = "fold (sw_event_run demo_parse (wk_run (#) demo_dial demo_writer)) (replicate n (SStart (demo_task (KUpdate [])))) ?w0"
  have w0: "map_of (sw_creators ?w0) ''search'' \<noteq> None" "sw_ok ?w0" "sw_convs ?w0 = []" "ns_log (sw_store ?w0) = []"
    using sw_ok_new by (simp_all add: obs_add_def sw_ok_def numbered_def waiters_ok_def sw_waiting_def sw_new_def)
  note v = starts_length [OF assms(2) w0(1,2,3), of demo_parse "wk_run (#) demo_dial demo_writer" "demo_task (KUpdate [])"]
  have "\<exists>v. demo_search n = snd (ct_listen 3 0 v) \<and> length (sw_convs v) = n \<and> sw_ok v \<and> ns_log (sw_store v) = [] \<and>
      sw_waiting v 0 = []"
    by (rule exI [of _ ?v]) (use v w0(4) assms(1) in \<open>simp add: demo_search_def sw_events_def del: fold_replicate\<close>)
  then obtain v where v: "demo_search n = snd (ct_listen 3 0 v)" "length (sw_convs v) = n" "sw_ok v" "ns_log (sw_store v) = []"
      "sw_waiting v 0 = []"
    by blast
  have "0 < length (sw_convs v)" using v(2) assms(1) by simp
  from listen_step [OF v(3) this, of 3] v(1,2,4,5) show ?thesis
    by (auto simp: waiting_tasks_def [of v])
qed

theorem search_reply_routed_witness:
  "ns_log (sw_store (snd (cb_message demo_parse (Reply (wire_id (sw_convs (demo_search 2) ! 0)) [0]) (demo_search 2)))) = [3]"
  using search_reply_routed [OF demo_search_def [of 2] _ _ refl, where j = 0 and m = "[0]"] demo_search_ok [of 2]
  by simp

text \<open>
  Identifiers wrap: the identity of a conversation travels in the 16-bit port of an address, and the table is
  never cleared, so once 65536 more conversations have been started the reply to a conversation goes to an old
  one: the conversation that asked keeps waiting, and the old one gets a reply that is not its own.
\<close>

lemma search_reply_misrouted:
  assumes w: "w = sw_events parse (wk_run ins dial wr) es sw_new" "length (sw_convs w) + 1 < 2 ^ 64"
    and j: "j + 65536 < length (sw_convs w)" "j < 65535"
    and w': "w' = snd (cb_message parse (Reply (wire_id (sw_convs w ! (j + 65536))) m) w)"
  shows "sw_convs w' ! (j + 65536) = sw_convs w ! (j + 65536) \<and> sw_convs w' ! j = answered parse m (sw_convs w ! j) \<and>
    ns_log (sw_store w') = ns_log (sw_store w) @ waiting_tasks w j"
proof -
  have ok: "sw_ok w" unfolding w(1) by (rule sw_events_ok [OF sw_ok_new]) (use w in simp)
  have "(j + 65536 + 1) mod 65536 = j + 1" using j(2) by (simp add: mod_if)
  then have i: "unat (wire_id (sw_convs w ! (j + 65536))) = j + 1"
    using wire_id_eq [of w "j + 65536"] ok w(2) j by (simp add: sw_ok_def)
  from reply_step [OF ok, of "wire_id (sw_convs w ! (j + 65536))" j parse m] i j(1) w' show ?thesis by auto
qed

lemma search_reply_misrouted_example:
  "ns_log (sw_store (snd (cb_message demo_parse (Reply (wire_id (sw_convs (demo_search 65537) ! 65536)) [0]) (demo_search 65537)))) = [3]"
proof -
  have "length (sw_convs (demo_search 65537)) = 65537" "waiting_tasks (demo_search 65537) 0 = [3]" "ns_log (sw_store (demo_search 65537)) = []"
    using demo_search_ok [of 65537] by simp_all
  then show ?thesis
    using search_reply_misrouted [OF demo_search_def [of 65537] _ _ _ refl, where j = 0 and m = "[0]"] by simp
qed

text \<open>
  A failed request strands its task: when the search answers the request of a conversation with an error, the
  status is recorded and no task is made runnable; the tasks that wait for the conversation go on waiting, and no
  agent is told.
\<close>

lemma search_error_strands_tasks:
  assumes w: "w = sw_events parse (wk_run ins dial wr) es sw_new" "length (sw_convs w) < 65536" "j < length (sw_convs w)"
    and w': "w' = snd (cb_message parse (Failure (wire_id (sw_convs w ! j)) code msg) w)"
  shows "cv_status (sw_convs w' ! j) = Some code \<and> cv_error (sw_convs w' ! j) = msg \<and>
    sw_store w' = sw_store w \<and> waiting_tasks w' j = waiting_tasks w j \<and> sw_replies w' = sw_replies w"
proof -
  have ok: "sw_ok w" unfolding w(1) by (rule sw_events_ok [OF sw_ok_new]) (use w(1,2) in simp)
  have i: "unat (wire_id (sw_convs w ! j)) = j + 1"
    using wire_id_eq [of w j] ok w(2,3) by (simp add: sw_ok_def)
  then have "map_of (sw_table w) (wire_id (sw_convs w ! j)) = Some j"
    using ok w(3) by (simp add: sw_ok_def numbered_def)
  with error_step(1) [OF ok] w(3) w' show ?thesis by (simp add: waiting_tasks_def sw_waiting_def)
qed

lemma search_error_strands_tasks_example:
  "waiting_tasks (snd (cb_message demo_parse (Failure (wire_id (sw_convs (demo_search 2) ! 0)) 7 ''down'') (demo_search 2))) 0 = [3]"
  using search_error_strands_tasks [OF demo_search_def [of 2] _ _ refl, where j = 0 and code = 7 and msg = "''down''"] demo_search_ok [of 2]
  by simp

subsection \<open>A query from request to answer\<close>

definition shown_agent :: "string \<Rightarrow> string" where
  "shown_agent k = oef_agentPartAsString (projr (oef_parseAgent k oef_uri_new))"

lemma qt_narrow_fold:
  "fold (\<lambda>(k, score) acc. ebind acc (\<lambda>xs. ebind (oef_parseAgent k oef_uri_new) (\<lambda>u. Inr (xs @ [oef_agentPartAsString u]))))
     ys (Inr zs) = Inr (zs @ map (shown_agent \<circ> fst) ys)"
proof (induction ys arbitrary: zs)
  case (Cons y ys)
  obtain k sc where y: "y = (k, sc)" by (cases y)
  obtain u where "oef_parseAgent k oef_uri_new = Inr u" using parseAgent_total by blast
  then show ?case using Cons.IH by (simp add: shown_agent_def y)
qed simp

lemma qt_narrow_eq: "qt_narrow items = Inr (map (shown_agent \<circ> fst) (concat (map si_agents items)))"
  by (simp add: qt_narrow_def qt_narrow_fold)

definition query_answer :: "int \<Rightarrow> u16 \<Rightarrow> sr_item list \<Rightarrow> answer" where
  "query_answer i ttl items = (if ttl = 1 then Agents i (map (shown_agent \<circ> fst) (concat (map si_agents items)))
     else AgentsWide i items)"

text \<open>The first run of a task: it starts its conversation, listens to it and defers.\<close>

lemma task_first_run:
  assumes "sw_ok w" "length (sw_convs w) + 1 < 2 ^ 64" "map_of (sw_creators w) ''search'' \<noteq> None"
  shows "\<exists>w1. sm_run (Suc n) (ct_entryPoints t) (sm_new (w, None)) =
      Some (Inr DEFER, \<lparr>sm_state = Some 1, sm_runnable = True, sm_user = (w1, Some (length (sw_convs w)))\<rparr>) \<and>
    sw_ok w1 \<and> length (sw_convs w1) = Suc (length (sw_convs w)) \<and> waiting_tasks w1 (length (sw_convs w)) = [ct_id t] \<and>
    sw_replies w1 = sw_replies w \<and> ns_log (sw_store w1) = ns_log (sw_store w) \<and>
    cv_class (sw_convs w1 ! length (sw_convs w)) = ct_class (ct_kind t) \<and> cv_responses (sw_convs w1 ! length (sw_convs w)) = [] \<and>
    (\<exists>q. nw_queue (sw_worker w1) = nw_queue (sw_worker w) @ [((of_nat (length (sw_convs w) + 1), ct_uri t,
       make_request_proto (ct_core_key t) (ct_agent_uri t) (ct_kind t)), q)])"
proof -
  let ?n = "length (sw_convs w)"
  obtain v ty where v: "ct_start t w = (Inr ?n, v)" "sw_ok v" "sw_store v = sw_store w" "sw_replies v = sw_replies w"
    "nw_queue (sw_worker v) = nw_queue (sw_worker w) @ [((of_nat (?n + 1), ct_uri t,
       make_request_proto (ct_core_key t) (ct_agent_uri t) (ct_kind t)), nw_waitables (sw_worker w))]"
    "sw_convs v = sw_convs w @ [cv_new (ct_class (ct_kind t)) ty (of_nat (?n + 1)) (ct_uri t)
       (make_request_proto (ct_core_key t) (ct_agent_uri t) (ct_kind t))]"
    using ct_start_step [OF assms(1,2), of t] assms(3) by auto
  have "?n < length (sw_convs v)" by (simp add: v(6))
  from listen_step [OF v(2) this, of "ct_id t"] obtain w1 where l: "ct_listen (ct_id t) ?n v = (Inr True, w1)" "sw_ok w1"
    "waiting_tasks w1 ?n = waiting_tasks v ?n @ [ct_id t]" "sw_worker w1 = sw_worker v" "sw_replies w1 = sw_replies v"
    "ns_log (sw_store w1) = ns_log (sw_store v)" "length (sw_convs w1) = length (sw_convs v)"
    "cv_responses (sw_convs w1 ! ?n) = cv_responses (sw_convs v ! ?n)" "cv_class (sw_convs w1 ! ?n) = cv_class (sw_convs v ! ?n)"
    using \<open>?n < length (sw_convs v)\<close> by auto
  have "createConv t (w, None) = (Inr (1, DEFER), (w1, Some ?n))"
    using v(1) l(1) by (simp add: createConv_def pbind_apply pthen_apply on_world_def)
  then have "sm_run (Suc n) (ct_entryPoints t) (sm_new (w, None)) =
      Some (Inr DEFER, \<lparr>sm_state = Some 1, sm_runnable = True, sm_user = (w1, Some ?n)\<rparr>)"
    by (simp add: ct_entryPoints_def sm_new_def Let_def)
  moreover have "waiting_tasks v ?n = []" by (simp add: waiting_tasks_def sw_waiting_def v(6) cv_new_def wt_new_def)
  ultimately show ?thesis using l v by (intro exI [of _ w1]) (simp add: cv_new_def)
qed

text \<open>
  C11. A query is answered: in any world that can arise, with the search registered and fewer than 65535
  conversations so far, the task of a query puts one request into the worker's queue and sleeps; the search's reply
  to that request makes exactly this task runnable; and its next run completes and sends the agent one answer,
  which carries the message id of the request and the agents found, shown as addresses, or for a wide search the
  items as they came.
\<close>

theorem query_answered:
  assumes w: "w = sw_events parse (wk_run ins dial wr) es sw_new" "length (sw_convs w) < 65535" "map_of (sw_creators w) ''search'' \<noteq> None"
    and t: "ct_kind t = KQuery q ttl" "ct_sendReply t" "parse SearchClass m = Some (SearchResponse items)"
  shows "\<exists>s1 s3. sm_run 2 (ct_entryPoints t) (sm_new (w, None)) = Some (Inr DEFER, s1) \<and>
    (\<exists>n. nw_queue (sw_worker (fst (sm_user s1))) = nw_queue (sw_worker w) @ [((of_nat (length (sw_convs w) + 1), ct_uri t,
       make_request_proto (ct_core_key t) (ct_agent_uri t) (KQuery q ttl)), n)]) \<and>
    (let w2 = snd (cb_message parse (Reply (wire_id (sw_convs (fst (sm_user s1)) ! length (sw_convs w))) m) (fst (sm_user s1)))
     in ns_log (sw_store w2) = ns_log (sw_store w) @ [ct_id t] \<and>
        sm_run 2 (ct_entryPoints t) (s1\<lparr>sm_user := (w2, snd (sm_user s1))\<rparr>) = Some (Inr COMPLETE, s3) \<and>
        sw_replies (fst (sm_user s3)) = sw_replies w @ [(ct_endpoint t, query_answer (ct_msg_id t) ttl items)])"
proof -
  let ?n = "length (sw_convs w)"
  have ok: "sw_ok w" unfolding w(1) by (rule sw_events_ok [OF sw_ok_new]) (use w(1,2) in simp)
  have len: "?n + 1 < 2 ^ 64" using w(2) by simp
  from task_first_run [OF ok len w(3), of "Suc 0" t] obtain w1 where
    r: "sm_run 2 (ct_entryPoints t) (sm_new (w, None)) =
      Some (Inr DEFER, \<lparr>sm_state = Some 1, sm_runnable = True, sm_user = (w1, Some ?n)\<rparr>)"
    and w1: "sw_ok w1" "length (sw_convs w1) = Suc ?n" "waiting_tasks w1 ?n = [ct_id t]" "sw_replies w1 = sw_replies w"
      "ns_log (sw_store w1) = ns_log (sw_store w)" "cv_class (sw_convs w1 ! ?n) = SearchClass" "cv_responses (sw_convs w1 ! ?n) = []"
      "\<exists>x. nw_queue (sw_worker w1) = nw_queue (sw_worker w) @ [((of_nat (?n + 1), ct_uri t,
         make_request_proto (ct_core_key t) (ct_agent_uri t) (KQuery q ttl)), x)]"
    by (auto simp: t(1) numeral_2_eq_2)
  have i: "unat (wire_id (sw_convs w1 ! ?n)) = ?n + 1"
    using wire_id_eq [of w1 ?n] w1(1,2) w(2) by (simp add: sw_ok_def)
  let ?c = "answered parse m (sw_convs w1 ! ?n)"
  obtain s where s: "cb_onComplete parse (wire_id (sw_convs w1 ! ?n)) m w1 =
      (Inr (), w1\<lparr>sw_convs := (sw_convs w1)[?n := ?c], sw_store := s\<rparr>)" "ns_log s = ns_log (sw_store w) @ [ct_id t]"
    using reply_step [OF w1(1), of "wire_id (sw_convs w1 ! ?n)" ?n parse m] i w1(2,3,5) by auto
  let ?w2 = "w1\<lparr>sw_convs := (sw_convs w1)[?n := ?c], sw_store := s\<rparr>"
  let ?w3 = "?w2\<lparr>sw_replies := sw_replies w @ [(ct_endpoint t, query_answer (ct_msg_id t) ttl items)]\<rparr>"
  have c: "cv_responses ?c = [SearchResponse items]" "cv_status ?c = Some 0"
    using w1(6,7) t(3) by (simp_all add: answered_def)
  have "qt_handleResponse t ttl (?w2, Some ?n) = (Inr (0, COMPLETE), (?w3, Some ?n))"
    using c w1(2,4) t(2)
    by (simp add: qt_handleResponse_def ct_conversation_def pbind_apply pthen_apply cv_getAvailableReplyCount_def cv_success_def
        cv_getReply_def qt_answer_def ct_reply_def qt_narrow_eq query_answer_def)
  then have "sm_run 2 (ct_entryPoints t) \<lparr>sm_state = Some 1, sm_runnable = True, sm_user = (?w2, Some ?n)\<rparr> =
      Some (Inr COMPLETE, \<lparr>sm_state = None, sm_runnable = True, sm_user = (?w3, Some ?n)\<rparr>)"
    by (simp add: numeral_2_eq_2 ct_entryPoints_def ct_handleResponse_def t(1) Let_def)
  with r w1(8) s show ?thesis
    by (intro exI [of _ "\<lparr>sm_state = Some 1, sm_runnable = True, sm_user = (w1, Some ?n)\<rparr>"]
        exI [of _ "\<lparr>sm_state = None, sm_runnable = True, sm_user = (?w3, Some ?n)\<rparr>"]) (simp add: Let_def)
qed


definition demo_idle :: "unit searchw" where
  "demo_idle = sw_events demo_parse (wk_run (#) demo_dial demo_writer) [SAdd ''search''] sw_new"

definition demo_query :: ctask where
  "demo_query = demo_task (KQuery \<lparr>as_query = [1], as_query_v2 = None\<rparr> 1)"

theorem query_answered_witness:
  "\<exists>s1. sm_run 2 (ct_entryPoints demo_query) (sm_new (demo_idle, None)) = Some (Inr DEFER, s1)"
proof -
  have "length (sw_convs demo_idle) < 65535" "map_of (sw_creators demo_idle) ''search'' \<noteq> None"
    by (simp_all add: demo_idle_def sw_events_def obs_add_def sw_new_def)
  from query_answered [OF demo_idle_def this, of demo_query "\<lparr>as_query = [1], as_query_v2 = None\<rparr>" 1 "[0]" "[]"]
  show ?thesis by (auto simp: demo_query_def demo_task_def demo_parse_def)
qed

end
