(* ===== verification/Queries.thy ===== *)
theory Queries
  imports Prelude
begin

text \<open>
  Data models, instances and queries of \<^verbatim>\<open>oef-core-functions/src/cpp/lib/schema.hpp\<close> and \<^verbatim>\<open>schema.cpp\<close>: the
  model of what an agent offers, the instances of it, the constraints of a search and how they are checked, and
  the directory of schemas. The messages of \<^verbatim>\<open>protos/src/protos/query.proto\<close> are the data; reading a field of a
  \<^verbatim>\<open>oneof\<close> that is not the one set gives its default, as protobuf documents. A \<^verbatim>\<open>double\<close> is its 64 bits, with the
  comparisons of IEEE 754 written out; its arithmetic, which only the distance of two places uses, is a parameter.
\<close>

subsection \<open>Doubles\<close>

type_synonym double = u64

definition d_sign :: "double \<Rightarrow> bool" where
  "d_sign a \<longleftrightarrow> 2 ^ 63 \<le> unat a"

definition d_magnitude :: "double \<Rightarrow> nat" where
  "d_magnitude a = unat a mod 2 ^ 63"

definition d_nan :: "double \<Rightarrow> bool" where
  "d_nan a \<longleftrightarrow> 0x7FF0000000000000 < d_magnitude a"

text \<open>The bits of two numbers of the same sign are ordered as their magnitudes; the two zeros are equal.\<close>

definition d_key :: "double \<Rightarrow> int" where
  "d_key a = (if d_sign a then - int (d_magnitude a) else int (d_magnitude a))"

definition d_eq :: "double \<Rightarrow> double \<Rightarrow> bool" where
  "d_eq a b \<longleftrightarrow> \<not> d_nan a \<and> \<not> d_nan b \<and> d_key a = d_key b"

definition d_lt :: "double \<Rightarrow> double \<Rightarrow> bool" where
  "d_lt a b \<longleftrightarrow> \<not> d_nan a \<and> \<not> d_nan b \<and> d_key a < d_key b"

definition d_le :: "double \<Rightarrow> double \<Rightarrow> bool" where
  "d_le a b \<longleftrightarrow> \<not> d_nan a \<and> \<not> d_nan b \<and> d_key a \<le> d_key b"

record arithmetic =
  fp_add :: "double \<Rightarrow> double \<Rightarrow> double"
  fp_sub :: "double \<Rightarrow> double \<Rightarrow> double"
  fp_mul :: "double \<Rightarrow> double \<Rightarrow> double"
  fp_div :: "double \<Rightarrow> double \<Rightarrow> double"
  fp_sqrt :: "double \<Rightarrow> double"
  fp_sin :: "double \<Rightarrow> double"
  fp_cos :: "double \<Rightarrow> double"
  fp_asin :: "double \<Rightarrow> double"

subsection \<open>Places\<close>

record location =
  loc_lon :: double
  loc_lat :: double

definition loc_eq :: "location \<Rightarrow> location \<Rightarrow> bool" where
  "loc_eq l m \<longleftrightarrow> d_eq (loc_lon l) (loc_lon m) \<and> d_eq (loc_lat l) (loc_lat m)"

definition loc_lt :: "location \<Rightarrow> location \<Rightarrow> bool" where
  "loc_lt l m \<longleftrightarrow> d_lt (loc_lat l) (loc_lat m)"

definition loc_le :: "location \<Rightarrow> location \<Rightarrow> bool" where
  "loc_le l m \<longleftrightarrow> d_le (loc_lat l) (loc_lat m)"

text \<open>The constants are \<open>M_PI\<close>, \<open>180.0\<close>, \<open>2\<close> and \<open>6372.8\<close>.\<close>

definition degree_to_radian :: "arithmetic \<Rightarrow> double \<Rightarrow> double" where
  "degree_to_radian fp angle = fp_div fp (fp_mul fp 0x400921FB54442D18 angle) 0x4066800000000000"

definition loc_distance :: "arithmetic \<Rightarrow> location \<Rightarrow> location \<Rightarrow> double" where
  "loc_distance fp l rhs =
     (let two = 0x4000000000000000;
          latRad1 = degree_to_radian fp (loc_lat l); latRad2 = degree_to_radian fp (loc_lat rhs);
          lonRad1 = degree_to_radian fp (loc_lon l); lonRad2 = degree_to_radian fp (loc_lon rhs);
          diffLa = fp_sub fp latRad2 latRad1; doffLo = fp_sub fp lonRad2 lonRad1;
          sinLa = fp_sin fp (fp_div fp diffLa two); sinLo = fp_sin fp (fp_div fp doffLo two);
          computation = fp_asin fp (fp_sqrt fp (fp_add fp (fp_mul fp sinLa sinLa)
            (fp_mul fp (fp_mul fp (fp_mul fp (fp_cos fp latRad1) (fp_cos fp latRad2)) sinLo) sinLo)))
      in fp_mul fp (fp_mul fp two 0x40B8E4CCCCCCCCCD) computation)"

subsection \<open>Values and attributes\<close>

datatype atype = T_DOUBLE | T_INT | T_BOOL | T_STRING | T_LOCATION

text \<open>\<^verbatim>\<open>VariantType\<close>, the value of an attribute in the program, and \<^verbatim>\<open>Query.Value\<close>, its message.\<close>

datatype vtype = VarInt u32 | VarDouble double | VarString string | VarBool bool | VarLocation location

datatype pvalue = ValS string | ValD double | ValB bool | ValI u64 | ValL location | ValNone

record attribute =
  at_name :: string
  at_type :: atype
  at_required :: bool
  at_description :: "string option"

fun vtype_type :: "vtype \<Rightarrow> atype" where
  "vtype_type (VarInt i) = T_INT"
| "vtype_type (VarDouble d) = T_DOUBLE"
| "vtype_type (VarString s) = T_STRING"
| "vtype_type (VarBool b) = T_BOOL"
| "vtype_type (VarLocation l) = T_LOCATION"

definition at_new :: "string \<Rightarrow> atype \<Rightarrow> bool \<Rightarrow> attribute" where
  "at_new name t required = \<lparr>at_name = name, at_type = t, at_required = required, at_description = None\<rparr>"

definition at_new_described :: "string \<Rightarrow> atype \<Rightarrow> bool \<Rightarrow> string \<Rightarrow> attribute" where
  "at_new_described name t required description = (at_new name t required)\<lparr>at_description := Some description\<rparr>"

definition at_validate :: "attribute \<Rightarrow> vtype \<Rightarrow> bool" where
  "at_validate a v \<longleftrightarrow> at_type a = vtype_type v"

text \<open>Printing a value, \<^verbatim>\<open>to_string(VariantType)\<close>, is declared and not defined in the sources: a parameter.\<close>

definition at_instantiate :: "(vtype \<Rightarrow> string) \<Rightarrow> (string \<times> vtype) list \<Rightarrow> attribute \<Rightarrow> exn + string \<times> string" where
  "at_instantiate to_string values a = (case map_of values (at_name a) of
     None \<Rightarrow> if at_required a then Inl (InvalidArgument (''Missing value: '' @ at_name a)) else Inr (at_name a, '''')
   | Some v \<Rightarrow> if at_validate a v then Inr (at_name a, to_string v)
       else Inl (InvalidArgument (at_name a @ '' has a wrong type of value '' @ to_string v)))"

subsection \<open>Relations\<close>

datatype rel_op = EQ | LT | LTEQ | GT | GTEQ | NOTEQ

record relation =
  rl_op :: rel_op
  rl_val :: pvalue

definition rl_new_string :: "rel_op \<Rightarrow> string \<Rightarrow> relation" where
  "rl_new_string op s = \<lparr>rl_op = op, rl_val = ValS s\<rparr>"

definition rl_new_int :: "rel_op \<Rightarrow> u32 \<Rightarrow> relation" where
  "rl_new_int op i = \<lparr>rl_op = op, rl_val = ValI (scast i)\<rparr>"

definition rl_new_bool :: "rel_op \<Rightarrow> bool \<Rightarrow> relation" where
  "rl_new_bool op b = \<lparr>rl_op = op, rl_val = ValB b\<rparr>"

definition rl_new_double :: "rel_op \<Rightarrow> double \<Rightarrow> relation" where
  "rl_new_double op d = \<lparr>rl_op = op, rl_val = ValD d\<rparr>"

definition rl_new_location :: "rel_op \<Rightarrow> location \<Rightarrow> relation" where
  "rl_new_location op l = \<lparr>rl_op = op, rl_val = ValL l\<rparr>"

text \<open>\<^verbatim>\<open>get<T>\<close>, for the five types at which it is used; an integer constant is narrowed to 32 bits.\<close>

fun rl_get_int :: "pvalue \<Rightarrow> u32" where
  "rl_get_int (ValI i) = ucast i" | "rl_get_int v = 0"

fun rl_get_double :: "pvalue \<Rightarrow> double" where
  "rl_get_double (ValD d) = d" | "rl_get_double v = 0"

fun rl_get_string :: "pvalue \<Rightarrow> string" where
  "rl_get_string (ValS s) = s" | "rl_get_string v = ''''"

fun rl_get_bool :: "pvalue \<Rightarrow> bool" where
  "rl_get_bool (ValB b) = b" | "rl_get_bool v = False"

fun rl_get_location :: "pvalue \<Rightarrow> location" where
  "rl_get_location (ValL l) = l" | "rl_get_location v = \<lparr>loc_lon = 0, loc_lat = 0\<rparr>"

text \<open>\<^verbatim>\<open>check_value<T>\<close>, with the operators of \<^verbatim>\<open>T\<close>.\<close>

definition rl_check_value :: "('t \<Rightarrow> 't \<Rightarrow> bool) \<Rightarrow> ('t \<Rightarrow> 't \<Rightarrow> bool) \<Rightarrow> ('t \<Rightarrow> 't \<Rightarrow> bool) \<Rightarrow> rel_op \<Rightarrow> 't \<Rightarrow> 't \<Rightarrow> bool" where
  "rl_check_value eq lt le op s v = (case op of
     EQ \<Rightarrow> eq s v | NOTEQ \<Rightarrow> \<not> eq s v | LT \<Rightarrow> lt v s | LTEQ \<Rightarrow> le v s | GT \<Rightarrow> lt s v | GTEQ \<Rightarrow> le s v)"

definition int_lt :: "u32 \<Rightarrow> u32 \<Rightarrow> bool" where
  "int_lt a b \<longleftrightarrow> sint a < sint b"

definition int_le :: "u32 \<Rightarrow> u32 \<Rightarrow> bool" where
  "int_le a b \<longleftrightarrow> sint a \<le> sint b"

fun rl_check :: "relation \<Rightarrow> vtype \<Rightarrow> bool" where
  "rl_check r (VarInt i) = rl_check_value (=) int_lt int_le (rl_op r) (rl_get_int (rl_val r)) i"
| "rl_check r (VarDouble d) = rl_check_value d_eq d_lt d_le (rl_op r) (rl_get_double (rl_val r)) d"
| "rl_check r (VarString s) = rl_check_value (=) (<) (\<le>) (rl_op r) (rl_get_string (rl_val r)) s"
| "rl_check r (VarBool b) = rl_check_value (=) (<) (\<le>) (rl_op r) (rl_get_bool (rl_val r)) b"
| "rl_check r (VarLocation l) = rl_check_value loc_eq loc_lt loc_le (rl_op r) (rl_get_location (rl_val r)) l"

definition rl_valid :: "relation \<Rightarrow> atype \<Rightarrow> bool" where
  "rl_valid r t = (let equal = (rl_op r = EQ \<or> rl_op r = NOTEQ)
     in case rl_val r of
       ValS s \<Rightarrow> t = T_STRING | ValI i \<Rightarrow> t = T_INT | ValD d \<Rightarrow> t = T_DOUBLE
     | ValL l \<Rightarrow> t = T_LOCATION \<and> equal | ValB b \<Rightarrow> t = T_BOOL \<and> equal | ValNone \<Rightarrow> False)"

subsection \<open>Sets, distances and ranges\<close>

datatype set_op = SET_IN | SET_NOTIN

datatype set_values =
    SetS "string list" | SetD "double list" | SetB "bool list" | SetI "u64 list" | SetL "location list" | SetNone

record qset =
  st_op :: set_op
  st_vals :: set_values

text \<open>The argument of the constructor: the elements of an unordered set, in the order of its iteration.\<close>

datatype set_arg = ArgInts "u32 list" | ArgDoubles "double list" | ArgStrings "string list" | ArgBools "bool list"

fun st_new :: "set_op \<Rightarrow> set_arg \<Rightarrow> qset" where
  "st_new op (ArgInts xs) = \<lparr>st_op = op, st_vals = SetI (map scast xs)\<rparr>"
| "st_new op (ArgDoubles xs) = \<lparr>st_op = op, st_vals = SetD xs\<rparr>"
| "st_new op (ArgStrings xs) = \<lparr>st_op = op, st_vals = SetS xs\<rparr>"
| "st_new op (ArgBools xs) = \<lparr>st_op = op, st_vals = SetB xs\<rparr>"

fun st_valid :: "qset \<Rightarrow> atype \<Rightarrow> bool" where
  "st_valid s t = (case st_vals s of SetS x \<Rightarrow> t = T_STRING | SetI x \<Rightarrow> t = T_INT | SetD x \<Rightarrow> t = T_DOUBLE
     | SetL x \<Rightarrow> t = T_LOCATION | SetB x \<Rightarrow> t = T_BOOL | SetNone \<Rightarrow> False)"

text \<open>Is the value among those of the set? An integer is widened for the comparison.\<close>

fun st_member :: "set_values \<Rightarrow> vtype \<Rightarrow> bool" where
  "st_member (SetI xs) (VarInt i) = list_ex (\<lambda>x. x = scast i) xs"
| "st_member (SetD xs) (VarDouble d) = list_ex (\<lambda>x. d_eq x d) xs"
| "st_member (SetS xs) (VarString s) = list_ex (\<lambda>x. x = s) xs"
| "st_member (SetB xs) (VarBool b) = list_ex (\<lambda>x. x = b) xs"
| "st_member (SetL xs) (VarLocation l) = list_ex (\<lambda>x. d_eq (loc_lat l) (loc_lat x) \<and> d_eq (loc_lon l) (loc_lon x)) xs"
| "st_member xs v = False"

definition st_check :: "qset \<Rightarrow> vtype \<Rightarrow> bool" where
  "st_check s v = (let res = st_member (st_vals s) v in if st_op s = SET_NOTIN then \<not> res else res)"

record distance =
  ds_center :: location
  ds_distance :: double

definition ds_new :: "location \<Rightarrow> double \<Rightarrow> distance" where
  "ds_new center d = \<lparr>ds_center = center, ds_distance = d\<rparr>"

definition ds_valid :: "distance \<Rightarrow> atype \<Rightarrow> bool" where
  "ds_valid d t \<longleftrightarrow> t = T_LOCATION"

definition ds_check :: "arithmetic \<Rightarrow> distance \<Rightarrow> vtype \<Rightarrow> bool" where
  "ds_check fp d v = (case v of VarLocation l \<Rightarrow> d_le (loc_distance fp (ds_center d) l) (ds_distance d) | _ \<Rightarrow> False)"

datatype range =
    RangeS string string | RangeI u64 u64 | RangeD double double | RangeL location location | RangeNone

definition rg_new_int :: "u32 \<times> u32 \<Rightarrow> range" where
  "rg_new_int r = RangeI (scast (fst r)) (scast (snd r))"

definition rg_new_double :: "double \<times> double \<Rightarrow> range" where
  "rg_new_double r = RangeD (fst r) (snd r)"

definition rg_new_string :: "string \<times> string \<Rightarrow> range" where
  "rg_new_string r = RangeS (fst r) (snd r)"

definition min_max :: "double \<Rightarrow> double \<Rightarrow> double \<times> double" where
  "min_max a b = (if d_lt a b then (a, b) else (b, a))"

fun rg_valid :: "range \<Rightarrow> atype \<Rightarrow> bool" where
  "rg_valid (RangeS a b) t \<longleftrightarrow> t = T_STRING"
| "rg_valid (RangeI a b) t \<longleftrightarrow> t = T_INT"
| "rg_valid (RangeD a b) t \<longleftrightarrow> t = T_DOUBLE"
| "rg_valid (RangeL a b) t \<longleftrightarrow> t = T_LOCATION"
| "rg_valid RangeNone t \<longleftrightarrow> False"

fun rg_int :: "range \<Rightarrow> u64 \<times> u64" where
  "rg_int (RangeI a b) = (a, b)" | "rg_int r = (0, 0)"

fun rg_double :: "range \<Rightarrow> double \<times> double" where
  "rg_double (RangeD a b) = (a, b)" | "rg_double r = (0, 0)"

fun rg_string :: "range \<Rightarrow> string \<times> string" where
  "rg_string (RangeS a b) = (a, b)" | "rg_string r = ('''', '''')"

fun rg_location :: "range \<Rightarrow> location \<times> location" where
  "rg_location (RangeL a b) = (a, b)" | "rg_location r = (\<lparr>loc_lon = 0, loc_lat = 0\<rparr>, \<lparr>loc_lon = 0, loc_lat = 0\<rparr>)"

fun rg_check :: "range \<Rightarrow> vtype \<Rightarrow> bool" where
  "rg_check r (VarInt i) = (case rg_int r of (a, b) \<Rightarrow> sint a \<le> sint i \<and> sint i \<le> sint b)"
| "rg_check r (VarDouble d) = (case rg_double r of (a, b) \<Rightarrow> d_le a d \<and> d_le d b)"
| "rg_check r (VarString s) = (case rg_string r of (a, b) \<Rightarrow> a \<le> s \<and> s \<le> b)"
| "rg_check r (VarLocation s) = (case rg_location r of (p, q) \<Rightarrow>
     (case min_max (loc_lat p) (loc_lat q) of (min_lat, max_lat) \<Rightarrow> case min_max (loc_lon p) (loc_lon q) of (min_lon, max_lon) \<Rightarrow>
        d_le min_lat (loc_lat s) \<and> d_le (loc_lat s) max_lat \<and> d_le min_lon (loc_lon s) \<and> d_le (loc_lon s) max_lon))"
| "rg_check r (VarBool b) = False"

subsection \<open>Data models and instances\<close>

record datamodel =
  dm_name :: string
  dm_attributes :: "attribute list"
  dm_description :: "string option"

definition dm_new :: "string \<Rightarrow> attribute list \<Rightarrow> exn + datamodel" where
  "dm_new name attributes =
     (if \<not> distinct (map at_name attributes) then Inl (InvalidArgument ''Duplicate attribute name'')
      else Inr \<lparr>dm_name = name, dm_attributes = attributes, dm_description = None\<rparr>)"

definition dm_new_described :: "string \<Rightarrow> attribute list \<Rightarrow> string \<Rightarrow> exn + datamodel" where
  "dm_new_described name attributes description =
     ebind (dm_new name attributes) (\<lambda>m. Inr (m\<lparr>dm_description := Some description\<rparr>))"

definition dm_eq :: "datamodel \<Rightarrow> datamodel \<Rightarrow> bool" where
  "dm_eq m n \<longleftrightarrow> dm_name m = dm_name n"

definition dm_attribute :: "datamodel \<Rightarrow> string \<Rightarrow> attribute option" where
  "dm_attribute m name = find (\<lambda>a. at_name a = name) (dm_attributes m)"

fun collect :: "(exn + 'a) list \<Rightarrow> exn + 'a list" where
  "collect [] = Inr []"
| "collect (r # rs) = ebind r (\<lambda>x. ebind (collect rs) (\<lambda>xs. Inr (x # xs)))"

definition dm_instantiate :: "(vtype \<Rightarrow> string) \<Rightarrow> datamodel \<Rightarrow> (string \<times> vtype) list \<Rightarrow> exn + (string \<times> string) list" where
  "dm_instantiate to_string m values = collect (map (at_instantiate to_string values) (dm_attributes m))"

text \<open>
  An instance keeps its message (model and values) and an \<^verbatim>\<open>unordered_map\<close> of the values, here its entries in the
  order of iteration.
\<close>

record instance_of =
  in_model :: datamodel
  in_message :: "(string \<times> pvalue) list"
  in_values :: "(string \<times> vtype) list"

fun in_convert :: "atype \<Rightarrow> vtype \<Rightarrow> exn + pvalue" where
  "in_convert t (VarInt i) = (if t \<noteq> T_INT then Inl (InvalidArgument ''Attribute is not an int in data model.'') else Inr (ValI (scast i)))"
| "in_convert t (VarDouble d) = (if t \<noteq> T_DOUBLE then Inl (InvalidArgument ''Attribute is not a double in data model.'') else Inr (ValD d))"
| "in_convert t (VarString s) = (if t \<noteq> T_STRING then Inl (InvalidArgument ''Attribute is not a string in data model.'') else Inr (ValS s))"
| "in_convert t (VarLocation l) =
     (if t \<noteq> T_LOCATION then Inl (InvalidArgument ''Attribute is not a location in data model.'') else Inr (ValL l))"
| "in_convert t (VarBool b) = (if t \<noteq> T_BOOL then Inl (InvalidArgument ''Attribute is not a bool in data model.'') else Inr (ValB b))"

text \<open>The loop over the values, with the number of required attributes not seen so far.\<close>

fun in_loop :: "datamodel \<Rightarrow> (string \<times> vtype) list \<Rightarrow> u64 \<Rightarrow> (string \<times> pvalue) list \<Rightarrow> exn + u64 \<times> (string \<times> pvalue) list" where
  "in_loop m [] nb acc = Inr (nb, acc)"
| "in_loop m ((k, v) # values) nb acc = (case dm_attribute m k of
     None \<Rightarrow> Inl (InvalidArgument ''Attribute does not exist in data model.'')
   | Some a \<Rightarrow> ebind (in_convert (at_type a) v) (\<lambda>x.
       in_loop m values (if at_required a then nb - 1 else nb) (acc @ [(k, x)])))"

definition in_new :: "datamodel \<Rightarrow> (string \<times> vtype) list \<Rightarrow> exn + instance_of" where
  "in_new m values =
     (let nb_required = length (filter at_required (dm_attributes m))
      in if length values > length (dm_attributes m) then Inl (InvalidArgument ''Too many attributes'')
         else if length values < nb_required then Inl (InvalidArgument ''Not enough attributes'')
         else ebind (in_loop m values (of_nat nb_required) []) (\<lambda>(nb, message).
           if nb > 0 then Inl (InvalidArgument ''Not enough attributes.'')
           else Inr \<lparr>in_model = m, in_message = message, in_values = values\<rparr>))"

text \<open>Reading an instance back from its message: a value that is not set is skipped, an integer narrowed.\<close>

fun in_value_of :: "pvalue \<Rightarrow> vtype option" where
  "in_value_of (ValS s) = Some (VarString s)"
| "in_value_of (ValD d) = Some (VarDouble d)"
| "in_value_of (ValB b) = Some (VarBool b)"
| "in_value_of (ValI i) = Some (VarInt (ucast i))"
| "in_value_of (ValL l) = Some (VarLocation l)"
| "in_value_of ValNone = None"

text \<open>Assigning through \<^verbatim>\<open>values_[key]\<close>; \<open>ins\<close> places a new entry in the iteration order.\<close>

definition hash_assign :: "(string \<times> vtype \<Rightarrow> (string \<times> vtype) list \<Rightarrow> (string \<times> vtype) list) \<Rightarrow> string \<Rightarrow> vtype \<Rightarrow>
    (string \<times> vtype) list \<Rightarrow> (string \<times> vtype) list" where
  "hash_assign ins k v values = (if k \<in> fst ` set values then map (\<lambda>(k', v'). (k', if k' = k then v else v')) values
     else ins (k, v) values)"

definition in_parse :: "(string \<times> vtype \<Rightarrow> (string \<times> vtype) list \<Rightarrow> (string \<times> vtype) list) \<Rightarrow> datamodel \<Rightarrow>
    (string \<times> pvalue) list \<Rightarrow> instance_of" where
  "in_parse ins m message = \<lparr>in_model = m, in_message = message, in_values =
     fold (\<lambda>(k, x) values. case in_value_of x of Some v \<Rightarrow> hash_assign ins k v values | None \<Rightarrow> values) message []\<rparr>"

fun vtype_eq :: "vtype \<Rightarrow> vtype \<Rightarrow> bool" where
  "vtype_eq (VarInt a) (VarInt b) = (a = b)"
| "vtype_eq (VarDouble a) (VarDouble b) = d_eq a b"
| "vtype_eq (VarString a) (VarString b) = (a = b)"
| "vtype_eq (VarBool a) (VarBool b) = (a = b)"
| "vtype_eq (VarLocation a) (VarLocation b) = loc_eq a b"
| "vtype_eq a b = False"

definition in_eq :: "instance_of \<Rightarrow> instance_of \<Rightarrow> bool" where
  "in_eq i other =
     (if dm_name (in_model i) \<noteq> dm_name (in_model other) then False
      else list_all (\<lambda>(k, v). case map_of (in_values other) k of None \<Rightarrow> False | Some v' \<Rightarrow> vtype_eq v' v) (in_values i))"

definition in_value :: "instance_of \<Rightarrow> string \<Rightarrow> vtype option" where
  "in_value i name = map_of (in_values i) name"

definition in_instantiate :: "(vtype \<Rightarrow> string) \<Rightarrow> instance_of \<Rightarrow> exn + (string \<times> string) list" where
  "in_instantiate to_string i = dm_instantiate to_string (in_model i) (in_values i)"

text \<open>\<^verbatim>\<open>std::hash\<close> of the four types is a parameter.\<close>

record hashes =
  hash_string :: "string \<Rightarrow> u64"
  hash_int :: "u32 \<Rightarrow> u64"
  hash_double :: "double \<Rightarrow> u64"
  hash_bool :: "bool \<Rightarrow> u64"

fun vtype_hash :: "hashes \<Rightarrow> vtype \<Rightarrow> u64" where
  "vtype_hash h (VarInt i) = hash_int h i"
| "vtype_hash h (VarDouble d) = hash_double h d"
| "vtype_hash h (VarString s) = hash_string h s"
| "vtype_hash h (VarLocation l) = hash_double h (loc_lon l) XOR push_bit 1 (hash_double h (loc_lat l))"
| "vtype_hash h (VarBool b) = hash_bool h b"

definition in_hash :: "hashes \<Rightarrow> instance_of \<Rightarrow> u64" where
  "in_hash hs i = fold (\<lambda>(k, v) h. vtype_hash hs v XOR push_bit 2 (hash_string hs k XOR push_bit 1 h))
     (in_values i) (hash_string hs (dm_name (in_model i)))"

subsection \<open>Constraints and expressions\<close>

datatype cbody = CSet qset | CRange range | CRelation relation | CDistance distance | CNotSet

record constraint =
  cn_attribute :: string
  cn_body :: cbody

definition cn_new_range :: "string \<Rightarrow> range \<Rightarrow> constraint" where
  "cn_new_range name r = \<lparr>cn_attribute = name, cn_body = CRange r\<rparr>"

definition cn_new_relation :: "string \<Rightarrow> relation \<Rightarrow> constraint" where
  "cn_new_relation name r = \<lparr>cn_attribute = name, cn_body = CRelation r\<rparr>"

definition cn_new_set :: "string \<Rightarrow> qset \<Rightarrow> constraint" where
  "cn_new_set name s = \<lparr>cn_attribute = name, cn_body = CSet s\<rparr>"

text \<open>
  The constructor from a distance copies the message of the distance into that of a set: protobuf checks that both
  have one type and otherwise ends the process.
\<close>

definition cn_new_distance :: "string \<Rightarrow> distance \<Rightarrow> exn + constraint" where
  "cn_new_distance name d = Inl Aborted"

definition cn_check_value :: "arithmetic \<Rightarrow> constraint \<Rightarrow> vtype \<Rightarrow> bool" where
  "cn_check_value fp c v = (case cn_body c of
     CSet s \<Rightarrow> st_check s v | CRange r \<Rightarrow> rg_check r v | CRelation r \<Rightarrow> rl_check r v | CDistance d \<Rightarrow> ds_check fp d v
   | CNotSet \<Rightarrow> False)"

definition cn_valid :: "constraint \<Rightarrow> datamodel \<Rightarrow> bool" where
  "cn_valid c m = (case find (\<lambda>a. cn_attribute c = at_name a) (dm_attributes m) of
     None \<Rightarrow> False
   | Some a \<Rightarrow> (case cn_body c of
       CSet s \<Rightarrow> st_valid s (at_type a) | CRange r \<Rightarrow> rg_valid r (at_type a) | CRelation r \<Rightarrow> rl_valid r (at_type a)
     | CDistance d \<Rightarrow> ds_valid d (at_type a) | CNotSet \<Rightarrow> False))"

text \<open>The look-up of the attribute in the model has no effect on the result.\<close>

definition cn_check :: "arithmetic \<Rightarrow> constraint \<Rightarrow> instance_of \<Rightarrow> bool" where
  "cn_check fp c i = (case in_value i (cn_attribute c) of None \<Rightarrow> False | Some v \<Rightarrow> cn_check_value fp c v)"

datatype cexpr = COr "cexpr list" | CAnd "cexpr list" | CNot cexpr | CConstraint constraint | CExprNotSet

definition or_new :: "cexpr list \<Rightarrow> exn + cexpr" where
  "or_new es = (if length es < 2 then Inl (InvalidArgument ''Not enough parameters.'') else Inr (COr es))"

definition and_new :: "cexpr list \<Rightarrow> exn + cexpr" where
  "and_new es = (if length es < 2 then Inl (InvalidArgument ''Not enough parameters.'') else Inr (CAnd es))"

definition not_new :: "cexpr \<Rightarrow> cexpr" where
  "not_new e = CNot e"

definition ce_not :: "cexpr \<Rightarrow> cexpr" where
  "ce_not e = not_new e"

definition ce_and :: "cexpr \<Rightarrow> cexpr \<Rightarrow> exn + cexpr" where
  "ce_and lhs rhs = and_new [lhs, rhs]"

definition ce_or :: "cexpr \<Rightarrow> cexpr \<Rightarrow> exn + cexpr" where
  "ce_or lhs rhs = or_new [lhs, rhs]"

text \<open>
  The classes \<^verbatim>\<open>Or\<close>, \<^verbatim>\<open>And\<close> and \<^verbatim>\<open>Not\<close>, with the function that checks a part: each loop stops at the first
  part that decides it. An instance and a single value are checked by the same code.
\<close>

definition or_check :: "('c \<Rightarrow> bool) \<Rightarrow> 'c list \<Rightarrow> bool" where
  "or_check f es = list_ex f es"

definition and_check :: "('c \<Rightarrow> bool) \<Rightarrow> 'c list \<Rightarrow> bool" where
  "and_check f es = list_all f es"

definition not_check :: "('c \<Rightarrow> bool) \<Rightarrow> 'c \<Rightarrow> bool" where
  "not_check f e = (\<not> f e)"

definition or_valid :: "('c \<Rightarrow> bool) \<Rightarrow> 'c list \<Rightarrow> bool" where
  "or_valid f es \<longleftrightarrow> list_all f es \<and> length es > 1"

definition and_valid :: "('c \<Rightarrow> bool) \<Rightarrow> 'c list \<Rightarrow> bool" where
  "and_valid f es \<longleftrightarrow> list_all f es \<and> length es > 1"

definition not_valid :: "('c \<Rightarrow> bool) \<Rightarrow> 'c \<Rightarrow> bool" where
  "not_valid f e = f e"

lemmas parts_defs [simp] = or_check_def and_check_def not_check_def or_valid_def and_valid_def not_valid_def

lemma parts_cong [fundef_cong]:
  "xs = ys \<Longrightarrow> (\<And>x. x \<in> set ys \<Longrightarrow> f x = g x) \<Longrightarrow> or_check f xs = or_check g ys"
  "xs = ys \<Longrightarrow> (\<And>x. x \<in> set ys \<Longrightarrow> f x = g x) \<Longrightarrow> and_check f xs = and_check g ys"
  "xs = ys \<Longrightarrow> (\<And>x. x \<in> set ys \<Longrightarrow> f x = g x) \<Longrightarrow> or_valid f xs = or_valid g ys"
  "xs = ys \<Longrightarrow> (\<And>x. x \<in> set ys \<Longrightarrow> f x = g x) \<Longrightarrow> and_valid f xs = and_valid g ys"
  "x = y \<Longrightarrow> f y = g y \<Longrightarrow> not_check f x = not_check g y"
  "x = y \<Longrightarrow> f y = g y \<Longrightarrow> not_valid f x = not_valid g y"
  by (auto simp: list_ex_iff list_all_iff)

fun ce_check_value :: "arithmetic \<Rightarrow> cexpr \<Rightarrow> vtype \<Rightarrow> bool" where
  "ce_check_value fp (COr es) v = or_check (\<lambda>c. ce_check_value fp c v) es"
| "ce_check_value fp (CAnd es) v = and_check (\<lambda>c. ce_check_value fp c v) es"
| "ce_check_value fp (CNot e) v = not_check (\<lambda>c. ce_check_value fp c v) e"
| "ce_check_value fp (CConstraint c) v = cn_check_value fp c v"
| "ce_check_value fp CExprNotSet v = False"

fun ce_check :: "arithmetic \<Rightarrow> cexpr \<Rightarrow> instance_of \<Rightarrow> bool" where
  "ce_check fp (COr es) i = or_check (\<lambda>c. ce_check fp c i) es"
| "ce_check fp (CAnd es) i = and_check (\<lambda>c. ce_check fp c i) es"
| "ce_check fp (CNot e) i = not_check (\<lambda>c. ce_check fp c i) e"
| "ce_check fp (CConstraint c) i = cn_check fp c i"
| "ce_check fp CExprNotSet i = False"

fun ce_valid :: "cexpr \<Rightarrow> datamodel \<Rightarrow> bool" where
  "ce_valid (COr es) m = or_valid (\<lambda>c. ce_valid c m) es"
| "ce_valid (CAnd es) m = and_valid (\<lambda>c. ce_valid c m) es"
| "ce_valid (CNot e) m = not_valid (\<lambda>c. ce_valid c m) e"
| "ce_valid (CConstraint c) m = cn_valid c m"
| "ce_valid CExprNotSet m = False"

subsection \<open>Queries\<close>

record query =
  qm_constraints :: "cexpr list"
  qm_model :: "datamodel option"

definition qm_new :: "cexpr list \<Rightarrow> exn + query" where
  "qm_new cs = (if length cs < 1 then Inl (InvalidArgument ''Not enough parameters.'')
     else Inr \<lparr>qm_constraints = cs, qm_model = None\<rparr>)"

definition qm_new_model :: "cexpr list \<Rightarrow> datamodel \<Rightarrow> exn + query" where
  "qm_new_model cs m = ebind (qm_new cs) (\<lambda>q.
     if \<not> list_all (\<lambda>c. ce_valid c m) cs then Inl (InvalidArgument ''Mismatch between constraints in data model.'')
     else Inr (q\<lparr>qm_model := Some m\<rparr>))"

definition qm_check_value :: "arithmetic \<Rightarrow> query \<Rightarrow> vtype \<Rightarrow> bool" where
  "qm_check_value fp q v = list_all (\<lambda>c. ce_check_value fp c v) (qm_constraints q)"

definition qm_valid :: "query \<Rightarrow> bool" where
  "qm_valid q = (if length (qm_constraints q) < 1 then False
     else case qm_model q of None \<Rightarrow> True | Some m \<Rightarrow> list_all (\<lambda>c. ce_valid c m) (qm_constraints q))"

definition qm_check :: "arithmetic \<Rightarrow> query \<Rightarrow> instance_of \<Rightarrow> bool" where
  "qm_check fp q i =
     (if (case qm_model q of None \<Rightarrow> False | Some m \<Rightarrow> dm_name m \<noteq> dm_name (in_model i)) then False
      else list_all (\<lambda>c. ce_check fp c i) (qm_constraints q))"

subsection \<open>Schemas\<close>

text \<open>The versions of a schema, oldest first; the largest \<^verbatim>\<open>uint32_t\<close> asks for the next version, or the last.\<close>

type_synonym schemas = "(u32 \<times> datamodel) list"

definition sch_add :: "u32 \<Rightarrow> datamodel \<Rightarrow> schemas \<Rightarrow> u32 \<times> schemas" where
  "sch_add version m ss = (let v = (if version = -1 then of_nat (length ss) + 1 else version) in (v, ss @ [(v, m)]))"

definition sch_get :: "u32 \<Rightarrow> schemas \<Rightarrow> (u32 \<times> datamodel) option" where
  "sch_get version ss = (if ss = [] then None else if version = -1 then Some (last ss)
     else case find (\<lambda>p. version \<le> fst p) ss of Some p \<Rightarrow> Some p | None \<Rightarrow> Some (last ss))"

definition sd_get :: "string \<Rightarrow> u32 \<Rightarrow> (string \<rightharpoonup> schemas) \<Rightarrow> (u32 \<times> datamodel) option" where
  "sd_get key version d = (case d key of Some ss \<Rightarrow> sch_get version ss | None \<Rightarrow> None)"

definition sd_add :: "string \<Rightarrow> datamodel \<Rightarrow> u32 \<Rightarrow> (string \<rightharpoonup> schemas) \<Rightarrow> u32 \<times> (string \<rightharpoonup> schemas)" where
  "sd_add key m version d = (case sch_add version m (case d key of Some ss \<Rightarrow> ss | None \<Rightarrow> []) of
     (v, ss) \<Rightarrow> (v, d(key \<mapsto> ss)))"

subsection \<open>Data\<close>

text \<open>
  The constructor moves its arguments into the members and then copies the moved-from arguments into the message;
  what a moved-from string holds is left open by the standard: the parameter \<open>moved\<close>.
\<close>

record data_message =
  dt_name :: string
  dt_type :: string
  dt_values :: "string list"

record data =
  dt_own :: data_message
  dt_message :: data_message

definition dt_new :: "(string \<Rightarrow> string) \<Rightarrow> string \<Rightarrow> string \<Rightarrow> string list \<Rightarrow> data" where
  "dt_new moved name type values = \<lparr>dt_own = \<lparr>dt_name = name, dt_type = type, dt_values = values\<rparr>,
     dt_message = \<lparr>dt_name = moved name, dt_type = moved type, dt_values = values\<rparr>\<rparr>"

definition dt_parse :: "('b \<Rightarrow> data_message) \<Rightarrow> 'b \<Rightarrow> data" where
  "dt_parse parse buffer = (let m = parse buffer in \<lparr>dt_own = m, dt_message = m\<rparr>)"

end
