(* ===== verification/QueryTypes.thy ===== *)
theory QueryTypes
  imports Queries
begin

text \<open>
  What queries promise. A reference reading of a constraint, which compares a value with the constants of the
  constraint only when both are of one type and is undefined otherwise, and which compares integers as numbers;
  the theorem that a query that was checked against a data model never leaves this reading on the instances of
  that model; the contract of the constructor of instances, and its inverse; sets and ranges as combinations of
  relations; and the directory of schemas.
\<close>

subsection \<open>The operators of a relation\<close>

text \<open>
  The template \<^verbatim>\<open>check_value<T>\<close> relies on the operators of \<^verbatim>\<open>T\<close>. What a reader expects of the six relations holds
  when \<^verbatim>\<open><=\<close> is \<^verbatim>\<open><\<close> or \<^verbatim>\<open>==\<close>; and for a total order the six relations come in pairs of opposites.
\<close>

locale compared =
  fixes eq lt le :: "'t \<Rightarrow> 't \<Rightarrow> bool"
  assumes le_iff: "le a b \<longleftrightarrow> lt a b \<or> eq a b"
    and eq_sym: "eq a b \<longleftrightarrow> eq b a"
begin

lemma lteq_gteq:
  "rl_check_value eq lt le LTEQ s v \<longleftrightarrow> rl_check_value eq lt le LT s v \<or> rl_check_value eq lt le EQ s v"
  "rl_check_value eq lt le GTEQ s v \<longleftrightarrow> rl_check_value eq lt le GT s v \<or> rl_check_value eq lt le EQ s v"
  using le_iff eq_sym by (auto simp: rl_check_value_def)

end

locale compared_total = compared +
  assumes not_lt: "\<not> lt a b \<longleftrightarrow> le b a"
begin

lemma opposites:
  "rl_check_value eq lt le GTEQ s v \<longleftrightarrow> \<not> rl_check_value eq lt le LT s v"
  "rl_check_value eq lt le LTEQ s v \<longleftrightarrow> \<not> rl_check_value eq lt le GT s v"
  "rl_check_value eq lt le NOTEQ s v \<longleftrightarrow> \<not> rl_check_value eq lt le EQ s v"
  using not_lt by (auto simp: rl_check_value_def)

end

lemma int_order: "int_le a b \<longleftrightarrow> int_lt a b \<or> a = b" "\<not> int_lt a b \<longleftrightarrow> int_le b a"
  by (auto simp: int_le_def int_lt_def le_less intro: signed_word_eqI)

interpretation ints: compared_total "(=)" int_lt int_le
  by unfold_locales (use int_order in auto)

interpretation strings: compared_total "(=)" "(<) :: string \<Rightarrow> string \<Rightarrow> bool" "(\<le>)"
  by unfold_locales auto

interpretation bools: compared_total "(=)" "(<) :: bool \<Rightarrow> bool \<Rightarrow> bool" "(\<le>)"
  by unfold_locales auto

interpretation doubles: compared d_eq d_lt d_le
  by unfold_locales (auto simp: d_eq_def d_lt_def d_le_def)

lemma relation_operators:
  "\<forall>l. v \<noteq> VarLocation l \<Longrightarrow> rl_check \<lparr>rl_op = LTEQ, rl_val = x\<rparr> v \<longleftrightarrow>
     rl_check \<lparr>rl_op = LT, rl_val = x\<rparr> v \<or> rl_check \<lparr>rl_op = EQ, rl_val = x\<rparr> v"
  "vtype_type v \<in> {T_INT, T_STRING, T_BOOL} \<Longrightarrow> rl_check \<lparr>rl_op = GTEQ, rl_val = x\<rparr> v \<longleftrightarrow> \<not> rl_check \<lparr>rl_op = LT, rl_val = x\<rparr> v"
  by (cases v; simp add: ints.lteq_gteq strings.lteq_gteq bools.lteq_gteq doubles.lteq_gteq)
     (cases v; simp add: ints.opposites strings.opposites bools.opposites)

text \<open>
  Two places of one latitude are each \<^verbatim>\<open><=\<close> the other, and neither \<^verbatim>\<open><\<close> nor \<^verbatim>\<open>==\<close>: the order of places is by
  latitude only, so that the template's contract does not hold for them.
\<close>

lemma places_not_compared:
  "\<not> compared loc_eq loc_lt loc_le"
proof
  assume "compared loc_eq loc_lt loc_le"
  then have "loc_le l m \<longleftrightarrow> loc_lt l m \<or> loc_eq l m" for l m by (rule compared.le_iff)
  from this [of "\<lparr>loc_lon = 0, loc_lat = 0\<rparr>" "\<lparr>loc_lon = 1, loc_lat = 0\<rparr>"] show False
    by (simp add: loc_le_def loc_lt_def loc_eq_def d_le_def d_lt_def d_eq_def d_nan_def d_magnitude_def d_key_def d_sign_def)
qed

subsection \<open>The reference reading\<close>

text \<open>The six relations on any type with the three operators; on integers as numbers.\<close>

fun typed_relation :: "relation \<Rightarrow> vtype \<Rightarrow> bool option" where
  "typed_relation r v = (case (rl_val r, v) of
     (ValI i, VarInt x) \<Rightarrow> Some (rl_check_value (=) (<) (\<le>) (rl_op r) (sint i) (sint x))
   | (ValD d, VarDouble x) \<Rightarrow> Some (rl_check_value d_eq d_lt d_le (rl_op r) d x)
   | (ValS s, VarString x) \<Rightarrow> Some (rl_check_value (=) (<) (\<le>) (rl_op r) s x)
   | (ValB b, VarBool x) \<Rightarrow> (if rl_op r = EQ then Some (b = x) else if rl_op r = NOTEQ then Some (b \<noteq> x) else None)
   | (ValL l, VarLocation x) \<Rightarrow> (if rl_op r = EQ then Some (loc_eq l x) else if rl_op r = NOTEQ then Some (\<not> loc_eq l x) else None)
   | _ \<Rightarrow> None)"

definition typed_member :: "set_values \<Rightarrow> vtype \<Rightarrow> bool option" where
  "typed_member xs v = (case (xs, v) of
     (SetI xs, VarInt x) \<Rightarrow> Some (sint x \<in> sint ` set xs)
   | (SetD xs, VarDouble x) \<Rightarrow> Some (\<exists>d \<in> set xs. d_eq d x)
   | (SetS xs, VarString x) \<Rightarrow> Some (x \<in> set xs)
   | (SetB xs, VarBool x) \<Rightarrow> Some (x \<in> set xs)
   | (SetL xs, VarLocation x) \<Rightarrow> Some (\<exists>l \<in> set xs. loc_eq x l)
   | _ \<Rightarrow> None)"

definition between :: "double \<Rightarrow> double \<Rightarrow> double \<Rightarrow> bool" where
  "between a b x \<longleftrightarrow> (d_le a x \<and> d_le x b) \<or> (d_le b x \<and> d_le x a)"

fun typed_range :: "range \<Rightarrow> vtype \<Rightarrow> bool option" where
  "typed_range r v = (case (r, v) of
     (RangeI a b, VarInt x) \<Rightarrow> Some (sint x \<in> {sint a .. sint b})
   | (RangeD a b, VarDouble x) \<Rightarrow> Some (d_le a x \<and> d_le x b)
   | (RangeS a b, VarString x) \<Rightarrow> Some (x \<in> {a .. b})
   | (RangeL a b, VarLocation x) \<Rightarrow> Some (between (loc_lat a) (loc_lat b) (loc_lat x) \<and> between (loc_lon a) (loc_lon b) (loc_lon x))
   | _ \<Rightarrow> None)"

definition typed_constraint :: "arithmetic \<Rightarrow> constraint \<Rightarrow> instance_of \<Rightarrow> bool option" where
  "typed_constraint fp c i = (case in_value i (cn_attribute c) of None \<Rightarrow> Some False | Some v \<Rightarrow>
     (case cn_body c of
        CSet s \<Rightarrow> map_option (\<lambda>b. if st_op s = SET_NOTIN then \<not> b else b) (typed_member (st_vals s) v)
      | CRange r \<Rightarrow> typed_range r v
      | CRelation r \<Rightarrow> typed_relation r v
      | CDistance d \<Rightarrow> (case v of VarLocation l \<Rightarrow> Some (d_le (loc_distance fp (ds_center d) l) (ds_distance d)) | _ \<Rightarrow> None)
      | CNotSet \<Rightarrow> None))"

text \<open>An expression is read only when all its parts can be read.\<close>

fun typed_expr :: "arithmetic \<Rightarrow> cexpr \<Rightarrow> instance_of \<Rightarrow> bool option" where
  "typed_expr fp (COr es) i = (if list_all (\<lambda>e. typed_expr fp e i \<noteq> None) es
     then Some (\<exists>e \<in> set es. typed_expr fp e i = Some True) else None)"
| "typed_expr fp (CAnd es) i = (if list_all (\<lambda>e. typed_expr fp e i \<noteq> None) es
     then Some (\<forall>e \<in> set es. typed_expr fp e i = Some True) else None)"
| "typed_expr fp (CNot e) i = map_option Not (typed_expr fp e i)"
| "typed_expr fp (CConstraint c) i = typed_constraint fp c i"
| "typed_expr fp CExprNotSet i = None"

text \<open>The integer constants of the relations of an expression fit the 32 bits to which the code narrows them.\<close>

definition cn_fits :: "constraint \<Rightarrow> bool" where
  "cn_fits c \<longleftrightarrow> (case cn_body c of CRelation r \<Rightarrow> (case rl_val r of ValI i \<Rightarrow> - (2 ^ 31) \<le> sint i \<and> sint i < 2 ^ 31 | _ \<Rightarrow> True) | _ \<Rightarrow> True)"

fun ce_fits :: "cexpr \<Rightarrow> bool" where
  "ce_fits (COr es) = list_all ce_fits es"
| "ce_fits (CAnd es) = list_all ce_fits es"
| "ce_fits (CNot e) = ce_fits e"
| "ce_fits (CConstraint c) = cn_fits c"
| "ce_fits CExprNotSet = True"

subsection \<open>Machine integers\<close>

lemma sint_narrow:
  fixes i :: u64
  assumes "- (2 ^ 31) \<le> sint i" "sint i < 2 ^ 31"
  shows "sint (ucast i :: u32) = sint i"
proof -
  have "sint (ucast i :: u32) = signed_take_bit 31 (sint i)"
    by (transfer; simp add: signed_take_bit_take_bit)
  also have "\<dots> = sint i" using assms by (simp add: signed_take_bit_int_eq_self)
  finally show ?thesis .
qed

lemma sint_widen: "sint (scast (x :: u32) :: u64) = sint x"
  by (transfer; simp add: signed_take_bit_signed_take_bit)

lemma narrow_widen: "ucast (scast (x :: u32) :: u64) = x"
  by (transfer; simp add: take_bit_signed_take_bit)

subsection \<open>Checked queries stay in the reference reading\<close>

lemma relation_typed:
  assumes "rl_valid r (vtype_type v)" "cn_fits \<lparr>cn_attribute = n, cn_body = CRelation r\<rparr>"
  shows "typed_relation r v = Some (rl_check r v)"
proof (cases v)
  case (VarInt x)
  then obtain i where r: "rl_val r = ValI i" using assms(1) by (cases "rl_val r") (auto simp: rl_valid_def)
  then have i: "sint (ucast i :: u32) = sint i" using assms(2) by (intro sint_narrow) (auto simp: cn_fits_def)
  then have "ucast i = x \<longleftrightarrow> sint i = sint x" by (metis signed_word_eqI)
  then show ?thesis using VarInt r i by (simp add: rl_check_value_def int_lt_def int_le_def split: rel_op.split)
qed (use assms(1) in \<open>cases "rl_val r"; auto simp: rl_valid_def rl_check_value_def Let_def split: rel_op.split\<close>)+

lemma list_ex_set: "list_ex P xs \<longleftrightarrow> (\<exists>x \<in> set xs. P x)"
  by (simp add: list_ex_iff)

lemma set_typed:
  assumes "st_valid s (vtype_type v)"
  shows "typed_member (st_vals s) v = Some (st_member (st_vals s) v)"
proof -
  have "x = scast i \<longleftrightarrow> sint x = sint i" for x :: u64 and i :: u32
    by (metis sint_widen signed_word_eqI)
  moreover have "(\<exists>y \<in> set xs. sint y = sint i) \<longleftrightarrow> sint i \<in> sint ` set xs" for xs :: "u64 list" and i :: u32
    by (auto simp: image_iff) metis
  ultimately show ?thesis
    using assms by (cases v; cases "st_vals s") (auto simp: typed_member_def list_ex_set loc_eq_def d_eq_def)
qed

lemma between_min_max:
  "(case min_max a b of (m, n) \<Rightarrow> d_le m x \<and> d_le x n) = between a b x"
  by (auto simp: min_max_def between_def d_le_def d_lt_def)

lemma range_typed: "rg_valid r (vtype_type v) \<Longrightarrow> typed_range r v = Some (rg_check r v)"
  by (cases r; cases v) (auto simp: between_min_max [symmetric] split: prod.splits)

lemma constraint_typed:
  assumes "cn_valid c m" "cn_fits c"
    and "\<forall>v. in_value i (cn_attribute c) = Some v \<longrightarrow>
      (\<exists>a. dm_attribute m (cn_attribute c) = Some a \<and> at_type a = vtype_type v)"
  shows "typed_constraint fp c i = Some (cn_check fp c i)"
proof (cases "in_value i (cn_attribute c)")
  case None
  then show ?thesis by (simp add: typed_constraint_def cn_check_def)
next
  case (Some v)
  then obtain a where a: "dm_attribute m (cn_attribute c) = Some a" "at_type a = vtype_type v" using assms(3) by blast
  have f: "find (\<lambda>a. cn_attribute c = at_name a) (dm_attributes m) = Some a"
    using a(1) by (simp add: dm_attribute_def eq_commute)
  have fits: "cn_fits \<lparr>cn_attribute = x, cn_body = CRelation r\<rparr>" if "cn_body c = CRelation r" for x r
    using assms(2) that by (simp add: cn_fits_def)
  show ?thesis
  proof (cases "cn_body c")
    case (CDistance d)
    then show ?thesis using Some a(2) assms(1) f
      by (cases v) (auto simp: typed_constraint_def cn_check_def cn_check_value_def cn_valid_def ds_valid_def ds_check_def)
  qed (use Some a(2) assms(1) f fits in
      \<open>auto simp: typed_constraint_def cn_check_def cn_check_value_def cn_valid_def st_check_def Let_def set_typed range_typed
        simp del: typed_relation.simps typed_range.simps st_valid.simps intro!: relation_typed\<close>)
qed

text \<open>The values of an instance are those of attributes of its model, each of the attribute's type.\<close>

definition in_typed :: "instance_of \<Rightarrow> bool" where
  "in_typed i \<longleftrightarrow> (\<forall>(k, v) \<in> set (in_values i). \<exists>a. dm_attribute (in_model i) k = Some a \<and> at_type a = vtype_type v)"

lemma expr_typed:
  assumes "in_typed i" "ce_valid e (in_model i)" "ce_fits e"
  shows "typed_expr fp e i = Some (ce_check fp e i)"
  using assms(2,3)
proof (induction e)
  case (CConstraint c)
  have "\<exists>a. dm_attribute (in_model i) (cn_attribute c) = Some a \<and> at_type a = vtype_type v"
    if "in_value i (cn_attribute c) = Some v" for v
    using assms(1) that by (auto simp: in_typed_def in_value_def dest: map_of_SomeD)
  with CConstraint show ?case by (auto intro!: constraint_typed [of c "in_model i"])
qed (auto simp: list_all_iff list_ex_iff)

subsection \<open>The constructor of instances\<close>

fun vtype_message :: "vtype \<Rightarrow> pvalue" where
  "vtype_message (VarInt i) = ValI (scast i)"
| "vtype_message (VarDouble d) = ValD d"
| "vtype_message (VarString s) = ValS s"
| "vtype_message (VarBool b) = ValB b"
| "vtype_message (VarLocation l) = ValL l"

lemma in_convert_eq: "t = vtype_type v \<Longrightarrow> in_convert t v = Inr (vtype_message v)"
  "t \<noteq> vtype_type v \<Longrightarrow> \<exists>e. in_convert t v = Inl (InvalidArgument e)"
  by (cases v; simp)+

lemma in_value_of_message: "in_value_of (vtype_message v) = Some v"
  by (cases v) (simp_all add: narrow_widen)

definition well_typed :: "datamodel \<Rightarrow> (string \<times> vtype) list \<Rightarrow> bool" where
  "well_typed m vals \<longleftrightarrow> (\<forall>(k, v) \<in> set vals. \<exists>a. dm_attribute m k = Some a \<and> at_type a = vtype_type v)"

definition is_required :: "datamodel \<Rightarrow> string \<Rightarrow> bool" where
  "is_required m k \<longleftrightarrow> (case dm_attribute m k of Some a \<Rightarrow> at_required a | None \<Rightarrow> False)"

lemma in_loop_typed:
  "well_typed m vals \<Longrightarrow> in_loop m vals nb acc =
     Inr (nb - of_nat (length (filter (is_required m) (map fst vals))), acc @ map (\<lambda>(k, v). (k, vtype_message v)) vals)"
proof (induction vals arbitrary: nb acc)
  case (Cons y vals)
  obtain k v where y: "y = (k, v)" by (cases y)
  then obtain a where a: "dm_attribute m k = Some a" "at_type a = vtype_type v"
    using Cons.prems by (auto simp: well_typed_def)
  have "well_typed m vals" using Cons.prems by (simp add: well_typed_def)
  from Cons.IH [OF this] show ?case using a by (simp add: y in_convert_eq is_required_def)
qed simp

lemma in_loop_untyped:
  "\<not> well_typed m vals \<Longrightarrow> \<exists>e. in_loop m vals nb acc = Inl (InvalidArgument e)"
proof (induction vals arbitrary: nb acc)
  case (Cons y vals)
  obtain k v where y: "y = (k, v)" by (cases y)
  show ?case
  proof (cases "\<exists>a. dm_attribute m k = Some a \<and> at_type a = vtype_type v")
    case True
    then have "\<not> well_typed m vals" using Cons.prems by (auto simp: well_typed_def y)
    with Cons.IH True show ?thesis by (auto simp: y in_convert_eq)
  next
    case False
    show ?thesis
    proof (cases "dm_attribute m k")
      case (Some a)
      with False obtain e where "in_convert (at_type a) v = Inl (InvalidArgument e)" using in_convert_eq(2) by blast
      with Some show ?thesis by (simp add: y)
    qed (simp add: y)
  qed
qed (simp add: well_typed_def)

text \<open>Keys without repetition, and names of attributes without repetition.\<close>

lemma dm_attribute_eq:
  assumes "distinct (map at_name (dm_attributes m))"
  shows "dm_attribute m k = Some a \<longleftrightarrow> a \<in> set (dm_attributes m) \<and> at_name a = k"
proof -
  have "find (\<lambda>a. at_name a = k) xs = Some a \<longleftrightarrow> a \<in> set xs \<and> at_name a = k"
    if "distinct (map at_name xs)" for xs
    using that by (induction xs) (auto simp: image_iff)
  then show ?thesis using assms by (simp add: dm_attribute_def)
qed

lemma required_count:
  assumes "distinct (map at_name (dm_attributes m))" "distinct (map fst vals)" "well_typed m vals"
  defines "seen \<equiv> length (filter (is_required m) (map fst vals))"
    and "required \<equiv> length (filter at_required (dm_attributes m))"
  shows "seen \<le> required" "seen \<le> length vals" "length vals \<le> length (dm_attributes m)"
    and "seen = required \<longleftrightarrow> (\<forall>a \<in> set (dm_attributes m). at_required a \<longrightarrow> at_name a \<in> fst ` set vals)"
proof -
  let ?R = "at_name ` {a \<in> set (dm_attributes m). at_required a}" and ?S = "{k \<in> fst ` set vals. is_required m k}"
  have inj: "inj_on at_name (set (dm_attributes m))" and d: "distinct (dm_attributes m)"
    using assms(1) by (simp_all add: distinct_map)
  have "card (set (filter (is_required m) (map fst vals))) = seen"
    unfolding seen_def using assms(2) by (intro distinct_card distinct_filter)
  moreover have "set (filter (is_required m) (map fst vals)) = ?S" by auto
  ultimately have S: "card ?S = seen" by simp
  have "card ?R = card {a \<in> set (dm_attributes m). at_required a}"
    by (rule card_image) (rule inj_on_subset [OF inj], auto)
  also have "\<dots> = required" using d distinct_card [OF distinct_filter [OF d, of at_required]] by (simp add: required_def)
  finally have R: "card ?R = required" .
  have sub: "?S \<subseteq> ?R"
  proof
    fix k assume "k \<in> ?S"
    then obtain a where "dm_attribute m k = Some a" "at_required a" by (auto simp: is_required_def split: option.splits)
    then have "a \<in> set (dm_attributes m)" "at_name a = k" by (simp_all add: dm_attribute_eq [OF assms(1)])
    with \<open>at_required a\<close> show "k \<in> ?R" by (intro image_eqI [where x = a]) simp_all
  qed
  have fin: "finite ?R" by simp
  show "seen \<le> required" using card_mono [OF fin sub] by (simp only: S R)
  show "seen \<le> length vals" by (simp add: seen_def)
  have "fst ` set vals \<subseteq> at_name ` set (dm_attributes m)"
  proof
    fix k assume "k \<in> fst ` set vals"
    then obtain v where "(k, v) \<in> set vals" by auto
    then obtain a where "dm_attribute m k = Some a" using assms(3) by (auto simp: well_typed_def)
    then have "a \<in> set (dm_attributes m)" "at_name a = k" by (simp_all add: dm_attribute_eq [OF assms(1)])
    then show "k \<in> at_name ` set (dm_attributes m)" by (intro image_eqI [where x = a]) simp_all
  qed
  then have "card (fst ` set vals) \<le> card (at_name ` set (dm_attributes m))" by (intro card_mono) auto
  then show "length vals \<le> length (dm_attributes m)"
    using assms(1,2) distinct_card [of "map fst vals"] distinct_card [of "map at_name (dm_attributes m)"] by simp
  have "seen = required \<longleftrightarrow> ?S = ?R"
  proof
    assume "seen = required"
    then have "card ?S = card ?R" by (simp only: S R)
    then show "?S = ?R" by (rule card_subset_eq [OF fin sub])
  next
    assume "?S = ?R"
    then show "seen = required" by (simp only: S [symmetric] R [symmetric])
  qed
  also have "\<dots> \<longleftrightarrow> (\<forall>a \<in> set (dm_attributes m). at_required a \<longrightarrow> at_name a \<in> fst ` set vals)"
  proof
    assume eq: "?S = ?R"
    show "\<forall>a \<in> set (dm_attributes m). at_required a \<longrightarrow> at_name a \<in> fst ` set vals"
    proof (intro ballI impI)
      fix a assume "a \<in> set (dm_attributes m)" "at_required a"
      then have "at_name a \<in> ?R" by blast
      then have "at_name a \<in> ?S" by (simp only: eq)
      then show "at_name a \<in> fst ` set vals" by simp
    qed
  next
    assume all: "\<forall>a \<in> set (dm_attributes m). at_required a \<longrightarrow> at_name a \<in> fst ` set vals"
    have "?R \<subseteq> ?S"
    proof
      fix k assume "k \<in> ?R"
      then obtain a where a: "a \<in> set (dm_attributes m)" "at_required a" "k = at_name a" by blast
      then have "dm_attribute m k = Some a" by (simp add: dm_attribute_eq [OF assms(1)])
      with a all show "k \<in> ?S" by (simp add: is_required_def)
    qed
    with sub show "?S = ?R" by (rule subset_antisym)
  qed
  finally show "seen = required \<longleftrightarrow> (\<forall>a \<in> set (dm_attributes m). at_required a \<longrightarrow> at_name a \<in> fst ` set vals)" .
qed

lemma in_new_InrD:
  assumes "in_new m vals = Inr i"
  shows "in_model i = m" "in_values i = vals" "in_message i = map (\<lambda>(k, v). (k, vtype_message v)) vals" "well_typed m vals"
proof -
  show t: "well_typed m vals"
  proof (rule ccontr)
    assume "\<not> well_typed m vals"
    then obtain e where "in_loop m vals (of_nat (length (filter at_required (dm_attributes m)))) [] = Inl (InvalidArgument e)"
      using in_loop_untyped by blast
    then show False using assms by (simp add: in_new_def Let_def split: if_splits)
  qed
  show "in_model i = m" "in_values i = vals" "in_message i = map (\<lambda>(k, v). (k, vtype_message v)) vals"
    using assms by (auto simp: in_new_def Let_def in_loop_typed [OF t] split: if_splits)
qed

lemma in_new_typed: "in_new m vals = Inr i \<Longrightarrow> in_typed i"
  using in_new_InrD [of m vals i] by (simp add: in_typed_def well_typed_def)

text \<open>A data model and an instance of it, for the examples, and an arithmetic (none of them uses it).\<close>

definition demo_fp :: arithmetic where
  "demo_fp = \<lparr>fp_add = (+), fp_sub = (-), fp_mul = (*), fp_div = (div), fp_sqrt = id, fp_sin = id, fp_cos = id, fp_asin = id\<rparr>"

definition demo_attributes :: "attribute list" where
  "demo_attributes = [at_new ''price'' T_INT True, at_new ''city'' T_STRING False]"

definition demo_model :: datamodel where
  "demo_model = \<lparr>dm_name = ''shop'', dm_attributes = demo_attributes, dm_description = None\<rparr>"

definition demo_instance :: "u32 \<Rightarrow> instance_of" where
  "demo_instance n = \<lparr>in_model = demo_model, in_message = [(''price'', ValI (scast n))], in_values = [(''price'', VarInt n)]\<rparr>"

lemma demo_instance_new: "in_new demo_model [(''price'', VarInt n)] = Inr (demo_instance n)"
  by (simp add: in_new_def demo_model_def demo_attributes_def at_new_def dm_attribute_def demo_instance_def Let_def)

definition demo_relation :: "u64 \<Rightarrow> cexpr" where
  "demo_relation c = CConstraint (cn_new_relation ''price'' \<lparr>rl_op = LT, rl_val = ValI c\<rparr>)"

lemma demo_relation_valid: "ce_valid (demo_relation c) demo_model"
  by (simp add: demo_relation_def cn_new_relation_def cn_valid_def demo_model_def demo_attributes_def at_new_def rl_valid_def)

text \<open>
  C13. Queries are well typed: a query built against a data model and an instance built on the same model never
  compare a value with a constant of another type. Every constraint can be read in the reference semantics, and
  the query accepts the instance exactly when all of them hold there; integer constants have to fit 32 bits.
\<close>

theorem query_well_typed:
  assumes "in_new m vals = Inr i" "qm_new_model cs m = Inr q" "\<forall>e \<in> set cs. ce_fits e"
  shows "(\<forall>e \<in> set cs. typed_expr fp e i \<noteq> None) \<and>
    (qm_check fp q i \<longleftrightarrow> (\<forall>e \<in> set cs. typed_expr fp e i = Some True))"
proof -
  have q: "q = \<lparr>qm_constraints = cs, qm_model = Some m\<rparr>" "\<forall>e \<in> set cs. ce_valid e m"
    using assms(2) by (auto simp: qm_new_model_def qm_new_def list_all_iff split: if_splits)
  have "typed_expr fp e i = Some (ce_check fp e i)" if "e \<in> set cs" for e
    using that q(2) assms(3) in_new_InrD(1) [OF assms(1)] by (intro expr_typed [OF in_new_typed [OF assms(1)]]) auto
  then show ?thesis using in_new_InrD(1) [OF assms(1)] by (simp add: q(1) qm_check_def list_all_iff)
qed

theorem query_well_typed_witness:
  "qm_check demo_fp \<lparr>qm_constraints = [demo_relation 10], qm_model = Some demo_model\<rparr> (demo_instance 5) \<longleftrightarrow>
    typed_expr demo_fp (demo_relation 10) (demo_instance 5) = Some True"
proof -
  have "qm_new_model [demo_relation 10] demo_model = Inr \<lparr>qm_constraints = [demo_relation 10], qm_model = Some demo_model\<rparr>"
    by (simp add: qm_new_model_def qm_new_def demo_relation_valid)
  moreover have "\<forall>e \<in> set [demo_relation 10]. ce_fits e"
    by (simp add: demo_relation_def cn_new_relation_def cn_fits_def)
  ultimately show ?thesis using query_well_typed [OF demo_instance_new [of 5]] by simp
qed

text \<open>Outside 32 bits the constant of a relation is cut off: a price of 5 is not below $2^{32}$.\<close>

lemma relation_constant_cut_off:
  "\<not> ce_check fp (demo_relation (2 ^ 32)) (demo_instance 5)" "typed_expr fp (demo_relation (2 ^ 32)) (demo_instance 5) = Some True"
  by (simp_all add: demo_relation_def demo_instance_def cn_new_relation_def cn_check_def cn_check_value_def in_value_def
      rl_check_value_def int_lt_def typed_constraint_def)

definition printed :: "(vtype \<Rightarrow> string) \<Rightarrow> (string \<times> vtype) list \<Rightarrow> attribute \<Rightarrow> string \<times> string" where
  "printed pr vals a = (at_name a, case map_of vals (at_name a) of Some v \<Rightarrow> pr v | None \<Rightarrow> '''')"

lemma collect_map: "(\<And>x. x \<in> set xs \<Longrightarrow> f x = Inr (g x)) \<Longrightarrow> collect (map f xs) = Inr (map g xs)"
  by (induction xs) auto

lemma instantiate_printed:
  assumes "distinct (map at_name (dm_attributes m))" "well_typed m vals"
    and "\<forall>a \<in> set (dm_attributes m). at_required a \<longrightarrow> at_name a \<in> fst ` set vals"
  shows "dm_instantiate pr m vals = Inr (map (printed pr vals) (dm_attributes m))"
  unfolding dm_instantiate_def
proof (rule collect_map)
  fix a assume a: "a \<in> set (dm_attributes m)"
  show "at_instantiate pr vals a = Inr (printed pr vals a)"
  proof (cases "map_of vals (at_name a)")
    case None
    then have "\<not> at_required a" using a assms(3) by (auto simp: map_of_eq_None_iff)
    with None show ?thesis by (simp add: at_instantiate_def printed_def)
  next
    case (Some v)
    then have "(at_name a, v) \<in> set vals" by (rule map_of_SomeD)
    then obtain b where "dm_attribute m (at_name a) = Some b" "at_type b = vtype_type v"
      using assms(2) by (auto simp: well_typed_def)
    moreover have "dm_attribute m (at_name a) = Some a" using a by (simp add: dm_attribute_eq [OF assms(1)])
    ultimately show ?thesis using Some by (simp add: at_instantiate_def at_validate_def printed_def)
  qed
qed

lemma word_counter: "n \<le> m \<Longrightarrow> m < 2 ^ 64 \<Longrightarrow> of_nat m - of_nat n = (0 :: u64) \<longleftrightarrow> n = m"
proof -
  assume "n \<le> m" "m < 2 ^ 64"
  then have "unat (of_nat m - of_nat n :: u64) = m - n"
    by (simp add: unsigned_of_nat take_bit_nat_eq_self flip: of_nat_diff)
  then show ?thesis using \<open>n \<le> m\<close> by (metis diff_diff_cancel diff_self_eq_0 diff_zero unat_eq_zero)
qed

lemma in_new_run:
  assumes "distinct (map at_name (dm_attributes m))" "distinct (map fst vals)" "well_typed m vals" "length (dm_attributes m) < 2 ^ 64"
  shows "in_new m vals =
    (if length vals < length (filter at_required (dm_attributes m)) then Inl (InvalidArgument ''Not enough attributes'')
     else if \<exists>a \<in> set (dm_attributes m). at_required a \<and> at_name a \<notin> fst ` set vals then Inl (InvalidArgument ''Not enough attributes.'')
     else Inr \<lparr>in_model = m, in_message = map (\<lambda>(k, v). (k, vtype_message v)) vals, in_values = vals\<rparr>)"
proof -
  note cnt = required_count [OF assms(1-3)]
  have "length (filter at_required (dm_attributes m)) < 2 ^ 64" using le_less_trans [OF length_filter_le assms(4)] .
  from word_counter [OF cnt(1) this] cnt(3,4) show ?thesis
    by (auto simp: in_new_def Let_def in_loop_typed [OF assms(3)] word_neq_0_conv [symmetric])
qed

text \<open>
  C23. The contract of instances: values are accepted exactly when each of them is for an attribute of the data
  model and has the attribute's type, and every required attribute has one; the instance then has the model and
  these values, and printing it gives one text per attribute, in the order of the model. Everything else is
  refused with an exception.
\<close>

theorem instance_contract:
  assumes "dm_new name attrs = Inr m" "distinct (map fst vals)" "length attrs < 2 ^ 64"
  defines "ok \<equiv> (\<forall>(k, v) \<in> set vals. \<exists>a \<in> set attrs. at_name a = k \<and> at_type a = vtype_type v) \<and>
     (\<forall>a \<in> set attrs. at_required a \<longrightarrow> at_name a \<in> fst ` set vals)"
  shows "(ok \<longrightarrow> (\<exists>i. in_new m vals = Inr i \<and> in_values i = vals \<and> in_model i = m \<and>
      in_instantiate pr i = Inr (map (\<lambda>a. (at_name a, case map_of vals (at_name a) of Some v \<Rightarrow> pr v | None \<Rightarrow> '''')) attrs))) \<and>
    (\<not> ok \<longrightarrow> (\<exists>e. in_new m vals = Inl (InvalidArgument e)))"
proof -
  have m: "dm_attributes m = attrs" "distinct (map at_name (dm_attributes m))"
    using assms(1) by (auto simp: dm_new_def split: if_splits)
  have typed: "well_typed m vals \<longleftrightarrow> (\<forall>(k, v) \<in> set vals. \<exists>a \<in> set attrs. at_name a = k \<and> at_type a = vtype_type v)"
    unfolding well_typed_def dm_attribute_eq [OF m(2)] m(1) by (intro ball_cong refl) auto
  show ?thesis
  proof (cases "well_typed m vals")
    case False
    then obtain e where "in_loop m vals (of_nat (length (filter at_required attrs))) [] = Inl (InvalidArgument e)"
      using in_loop_untyped by blast
    then have "\<exists>e. in_new m vals = Inl (InvalidArgument e)" by (simp add: in_new_def m(1) Let_def)
    moreover have "\<not> ok" unfolding ok_def using False typed by blast
    ultimately show ?thesis by simp
  next
    case True
    have all: "ok \<longleftrightarrow> (\<forall>a \<in> set attrs. at_required a \<longrightarrow> at_name a \<in> fst ` set vals)"
      unfolding ok_def using True typed by blast
    note run = in_new_run [OF m(2) assms(2) True, unfolded m(1), OF assms(3)]
    note cnt = required_count [OF m(2) assms(2) True, unfolded m(1)]
    show ?thesis
    proof (cases ok)
      case yes: True
      have len: "length (filter at_required attrs) \<le> length vals"
        using cnt(2) unfolding cnt(4) [THEN iffD2, OF all [THEN iffD1, OF yes]] .
      have "in_new m vals = Inr \<lparr>in_model = m, in_message = map (\<lambda>(k, v). (k, vtype_message v)) vals, in_values = vals\<rparr>"
        using run len yes all by auto
      then show ?thesis
        using yes instantiate_printed [OF m(2) True, of pr] all m(1) by (simp add: in_instantiate_def printed_def [abs_def])
    next
      case False
      then show ?thesis using run all by auto
    qed
  qed
qed

theorem instance_contract_witness:
  "\<exists>i. in_new demo_model [(''price'', VarInt 5)] = Inr i \<and>
    in_instantiate (\<lambda>v. ''5'') i = Inr [(''price'', ''5''), (''city'', '''')]"
proof -
  have "dm_new ''shop'' demo_attributes = Inr demo_model"
    by (simp add: dm_new_def demo_attributes_def demo_model_def at_new_def)
  from instance_contract [OF this, of "[(''price'', VarInt 5)]" "\<lambda>v. ''5''"]
  show ?thesis by (auto simp: demo_attributes_def at_new_def)
qed

subsection \<open>Messages of instances\<close>

lemma hash_assign_new:
  assumes "hash_insert ins" "distinct (map fst cur)" "k \<notin> fst ` set cur"
  shows "set (hash_assign ins k v cur) = insert (k, v) (set cur) \<and> distinct (map fst (hash_assign ins k v cur))"
  using hash_insert_set [OF assms(1)] hash_insert_distinct [OF assms(1,2), of "(k, v)"] assms(3)
  by (simp add: hash_assign_def)

lemma parse_fold:
  assumes "hash_insert ins" "distinct (map fst cur)" "distinct (map fst vals)" "fst ` set vals \<inter> fst ` set cur = {}"
  defines "r \<equiv> fold (\<lambda>(k, x) vs. case in_value_of x of Some v \<Rightarrow> hash_assign ins k v vs | None \<Rightarrow> vs)
      (map (\<lambda>(k, v). (k, vtype_message v)) vals) cur"
  shows "set r = set cur \<union> set vals \<and> distinct (map fst r)"
  unfolding r_def using assms(2-4)
proof (induction vals arbitrary: cur)
  case (Cons y vals)
  obtain k v where y: "y = (k, v)" by (cases y)
  have "k \<notin> fst ` set cur" using Cons.prems(3) by (simp add: y)
  note new = hash_assign_new [OF assms(1) Cons.prems(1) this, of v]
  have "fst ` set vals \<inter> fst ` set (hash_assign ins k v cur) = {}"
    using new Cons.prems(2,3) by (auto simp: y)
  with Cons.IH [of "hash_assign ins k v cur"] new Cons.prems(2) show ?case
    by (simp add: y in_value_of_message)
qed simp

lemma ce_check_cong:
  assumes "in_value i = in_value j"
  shows "ce_check fp e i = ce_check fp e j"
  using assms by (induction e) (auto simp: list_all_iff list_ex_iff cn_check_def)

text \<open>
  An instance survives its message: read back from the message that the constructor built, it has the same
  value for every attribute, and every query accepts it if and only if it accepts the original.
\<close>

lemma instance_message_roundtrip:
  assumes "in_new m vals = Inr i" "distinct (map fst vals)" "hash_insert ins"
  shows "in_value (in_parse ins (in_model i) (in_message i)) = in_value i \<and>
    qm_check fp q (in_parse ins (in_model i) (in_message i)) = qm_check fp q i"
proof -
  note i = in_new_InrD [OF assms(1)]
  let ?j = "in_parse ins (in_model i) (in_message i)"
  have "set (in_values ?j) = set vals \<and> distinct (map fst (in_values ?j))"
    using parse_fold [OF assms(3), of "[]" vals] assms(2) by (simp add: in_parse_def i(3))
  then have "in_value ?j = in_value i"
    using assms(2) by (simp add: in_value_def [abs_def] i(2) map_of_inject_set)
  moreover have "in_model ?j = in_model i" by (simp add: in_parse_def)
  ultimately show ?thesis by (simp add: qm_check_def ce_check_cong [of ?j i] split: option.split)
qed

lemma instance_message_roundtrip_example:
  "in_value (in_parse (#) demo_model [(''price'', ValI 5)]) ''price'' = Some (VarInt 5)"
proof -
  have h: "hash_insert ((#) :: string \<times> vtype \<Rightarrow> _)" by (simp add: hash_insert_def)
  from instance_message_roundtrip [OF demo_instance_new [of 5] _ h]
  show ?thesis by (simp add: demo_instance_def in_value_def)
qed

subsection \<open>Sets and ranges as combinations of relations\<close>

text \<open>The relations that say that a value is one of a set, or that it lies in a range.\<close>

fun equal_to_each :: "set_arg \<Rightarrow> relation list" where
  "equal_to_each (ArgInts xs) = map (rl_new_int EQ) xs"
| "equal_to_each (ArgDoubles xs) = map (rl_new_double EQ) xs"
| "equal_to_each (ArgStrings xs) = map (rl_new_string EQ) xs"
| "equal_to_each (ArgBools xs) = map (rl_new_bool EQ) xs"

fun arg_type :: "set_arg \<Rightarrow> atype" where
  "arg_type (ArgInts xs) = T_INT"
| "arg_type (ArgDoubles xs) = T_DOUBLE"
| "arg_type (ArgStrings xs) = T_STRING"
| "arg_type (ArgBools xs) = T_BOOL"

datatype range_arg = ArgInt "u32 \<times> u32" | ArgDouble "double \<times> double" | ArgString "string \<times> string"

fun rg_new :: "range_arg \<Rightarrow> range" where
  "rg_new (ArgInt r) = rg_new_int r"
| "rg_new (ArgDouble r) = rg_new_double r"
| "rg_new (ArgString r) = rg_new_string r"

fun bounds_of :: "range_arg \<Rightarrow> relation list" where
  "bounds_of (ArgInt r) = [rl_new_int GTEQ (fst r), rl_new_int LTEQ (snd r)]"
| "bounds_of (ArgDouble r) = [rl_new_double GTEQ (fst r), rl_new_double LTEQ (snd r)]"
| "bounds_of (ArgString r) = [rl_new_string GTEQ (fst r), rl_new_string LTEQ (snd r)]"

fun range_type :: "range_arg \<Rightarrow> atype" where
  "range_type (ArgInt r) = T_INT"
| "range_type (ArgDouble r) = T_DOUBLE"
| "range_type (ArgString r) = T_STRING"

definition related :: "string \<Rightarrow> relation \<Rightarrow> cexpr" where
  "related n r = CConstraint (cn_new_relation n r)"

lemma scast_eq_iff: "(scast (a :: u32) :: u64) = scast b \<longleftrightarrow> a = b"
  by (metis narrow_widen)

lemma member_relations:
  "vtype_type v = arg_type xs \<Longrightarrow> st_member (st_vals (st_new op xs)) v = list_ex (\<lambda>r. rl_check r v) (equal_to_each xs)"
  by (cases xs; cases v) (auto simp: list_ex_iff rl_new_int_def rl_new_double_def rl_new_string_def rl_new_bool_def
      rl_check_value_def narrow_widen scast_eq_iff)

lemma range_relations:
  "vtype_type v = range_type r \<Longrightarrow> rg_check (rg_new r) v = list_all (\<lambda>c. rl_check c v) (bounds_of r)"
  by (cases r; cases v) (auto simp: rg_new_int_def rg_new_double_def rg_new_string_def rl_new_int_def rl_new_double_def
      rl_new_string_def rl_check_value_def narrow_widen int_le_def sint_widen)

text \<open>
  Sets and ranges are shorthands: being in a set is the disjunction of the equalities with its elements, being
  outside it is having a value for which none of them holds, and lying in a range is the conjunction of the
  relations with its two ends, for integers, numbers, texts and truth values alike.
\<close>

lemma sets_and_ranges_as_relations:
  assumes "\<forall>v. in_value i n = Some v \<longrightarrow> vtype_type v = arg_type xs"
    and "\<forall>v. in_value i p = Some v \<longrightarrow> vtype_type v = range_type r"
  shows "ce_check fp (CConstraint (cn_new_set n (st_new SET_IN xs))) i = ce_check fp (COr (map (related n) (equal_to_each xs))) i \<and>
    ce_check fp (CConstraint (cn_new_set n (st_new SET_NOTIN xs))) i =
      (in_value i n \<noteq> None \<and> ce_check fp (CNot (COr (map (related n) (equal_to_each xs)))) i) \<and>
    ce_check fp (CConstraint (cn_new_range p (rg_new r))) i = ce_check fp (CAnd (map (related p) (bounds_of r))) i"
proof -
  have st: "st_op (st_new op xs) = op" for op by (cases xs) simp_all
  note defs = cn_new_set_def cn_new_range_def cn_new_relation_def cn_check_def cn_check_value_def related_def st_check_def
  have "ce_check fp (CConstraint (cn_new_set n (st_new SET_IN xs))) i = ce_check fp (COr (map (related n) (equal_to_each xs))) i"
    "ce_check fp (CConstraint (cn_new_set n (st_new SET_NOTIN xs))) i =
      (in_value i n \<noteq> None \<and> ce_check fp (CNot (COr (map (related n) (equal_to_each xs)))) i)"
    using assms(1) by (cases "in_value i n"; simp add: defs st member_relations list_ex_iff)+
  moreover have "bounds_of r \<noteq> []" by (cases r) simp_all
  then have "ce_check fp (CConstraint (cn_new_range p (rg_new r))) i = ce_check fp (CAnd (map (related p) (bounds_of r))) i"
    using assms(2) by (cases "in_value i p") (auto simp: defs range_relations list_all_iff neq_Nil_conv)
  ultimately show ?thesis by blast
qed

lemma sets_and_ranges_as_relations_example:
  "ce_check demo_fp (CConstraint (cn_new_set ''price'' (st_new SET_IN (ArgInts [4, 5])))) (demo_instance 5)"
proof -
  have "\<forall>v. in_value (demo_instance 5) ''price'' = Some v \<longrightarrow> vtype_type v = arg_type (ArgInts [4, 5])"
    "\<forall>v. in_value (demo_instance 5) ''price'' = Some v \<longrightarrow> vtype_type v = range_type (ArgInt (0, 9))"
    by (simp_all add: in_value_def demo_instance_def)
  from sets_and_ranges_as_relations [OF this, of demo_fp]
  show ?thesis
    by (simp add: related_def cn_new_relation_def cn_check_def cn_check_value_def in_value_def demo_instance_def
        rl_new_int_def rl_check_value_def narrow_widen)
qed

subsection \<open>The directory of schemas\<close>

definition add_all :: "string \<Rightarrow> datamodel list \<Rightarrow> (string \<rightharpoonup> schemas) \<Rightarrow> (string \<rightharpoonup> schemas)" where
  "add_all key ms d = fold (\<lambda>m d. snd (sd_add key m (-1) d)) ms d"

lemma add_all_versions:
  "d key = None \<Longrightarrow> add_all key ms d key =
     (if ms = [] then None else Some (map (\<lambda>k. (of_nat (Suc k), ms ! k)) [0..<length ms]))"
proof (induction ms rule: rev_induct)
  case (snoc m ms)
  have "add_all key (ms @ [m]) d = snd (sd_add key m (-1) (add_all key ms d))" by (simp add: add_all_def)
  then show ?case
    using snoc by (auto simp: sd_add_def sch_add_def Let_def nth_append split: if_splits)
qed (simp add: add_all_def)

lemma find_snoc: "find P (xs @ [y]) = (case find P xs of None \<Rightarrow> if P y then Some y else None | Some x \<Rightarrow> Some x)"
  by (induction xs) auto

lemma find_version:
  assumes "v < 2 ^ 32" "n < 2 ^ 32"
  shows "find (\<lambda>p. (of_nat v :: u32) \<le> fst p) (map (\<lambda>k. (of_nat (Suc k), f k)) [0..<n]) =
    (if v \<le> n \<and> 0 < n then Some (of_nat (max 1 v), f (max 1 v - 1)) else None)"
  using assms(2)
proof (induction n)
  case (Suc n)
  have le: "(of_nat v :: u32) \<le> of_nat (Suc n) \<longleftrightarrow> v \<le> Suc n"
    using assms(1) Suc.prems by (simp add: word_le_nat_alt unsigned_of_nat take_bit_nat_eq_self del: of_nat_Suc)
  show ?case
  proof (cases "v \<le> n \<and> 0 < n")
    case True
    then show ?thesis using Suc by (simp add: find_snoc)
  next
    case False
    then have "max 1 v = Suc n" if "v \<le> Suc n" using that by (auto simp: max_def)
    with False show ?thesis using Suc le by (auto simp: find_snoc simp del: of_nat_Suc)
  qed
qed simp

text \<open>
  Versions: schemas added to a key one after the other, without a version of their own, get the versions 1, 2,
  and so on; asking for one of these versions gives exactly that schema, asking for a version that does not
  exist yet or for none gives the last one, and other keys are not touched.
\<close>

lemma schema_versions:
  assumes "d key = None" "ms \<noteq> []" "length ms < 2 ^ 32 - 1" "d' = add_all key ms d"
  shows "sd_get key (-1) d' = Some (of_nat (length ms), last ms) \<and>
    (\<forall>v. 1 \<le> v \<and> v \<le> length ms \<longrightarrow> sd_get key (of_nat v) d' = Some (of_nat v, ms ! (v - 1))) \<and>
    (\<forall>v. length ms < v \<and> v < 2 ^ 32 \<longrightarrow> sd_get key (of_nat v) d' = Some (of_nat (length ms), last ms)) \<and>
    (\<forall>k. k \<noteq> key \<longrightarrow> d' k = d k)"
proof -
  let ?ss = "map (\<lambda>k. (of_nat (Suc k) :: u32, ms ! k)) [0..<length ms]"
  have d: "d' key = Some ?ss" using add_all_versions [of d key ms] assms(1,2,4) by simp
  have other: "k \<noteq> key \<Longrightarrow> add_all key ms' d k = d k" for k ms'
    by (induction ms' rule: rev_induct) (simp_all add: add_all_def sd_add_def split: prod.split)
  have last: "last ?ss = (of_nat (length ms), last ms)"
    using assms(2) by (cases ms rule: rev_exhaust) simp_all
  have max: "(of_nat v :: u32) \<noteq> - 1" if "v < 2 ^ 32 - 1" for v
  proof
    assume "(of_nat v :: u32) = - 1"
    then have "unat (of_nat v :: u32) = 2 ^ 32 - 1" by (simp add: unsigned_minus_1_eq_mask mask_eq_exp_minus_1)
    then show False using that by (simp add: unsigned_of_nat take_bit_nat_eq_self)
  qed
  have get: "sd_get key (of_nat v) d' = (if v \<le> length ms then Some (of_nat v, ms ! (v - 1)) else Some (of_nat (length ms), last ms))"
    if "1 \<le> v" "v < 2 ^ 32" for v
  proof -
    have "sd_get key (of_nat v) d' = (if (of_nat v :: u32) = - 1 then Some (last ?ss)
        else case find (\<lambda>p. of_nat v \<le> fst p) ?ss of Some p \<Rightarrow> Some p | None \<Rightarrow> Some (last ?ss))"
      using assms(2) by (simp add: sd_get_def d sch_get_def del: of_nat_Suc)
    then show ?thesis
      using find_version [OF that(2), of "length ms" "\<lambda>k. ms ! k"] assms(2,3) that last max [of v]
      by (auto simp: max_def simp del: of_nat_Suc)
  qed
  have "sd_get key (-1) d' = Some (of_nat (length ms), last ms)"
    using assms(2) last by (simp add: sd_get_def d sch_get_def del: of_nat_Suc)
  then show ?thesis using get other assms(3,4) by auto
qed

lemma schema_versions_example:
  "sd_get ''shop'' 2 (add_all ''shop'' [demo_model, demo_model\<lparr>dm_name := ''market''\<rparr>] Map.empty) =
     Some (2, demo_model\<lparr>dm_name := ''market''\<rparr>)"
  using schema_versions [OF _ _ _ refl, of Map.empty "''shop''" "[demo_model, demo_model\<lparr>dm_name := ''market''\<rparr>]"]
  by (auto dest!: spec [of _ 2])

end
