(* ===== verification/SearchClient.thy ===== *)
theory SearchClient
  imports Queries PathFraming Conversations "HOL-Library.Multiset"
begin

text \<open>
  The earlier core's client of the search service, \<^verbatim>\<open>oef-core-functions/src/cpp/lib/oef_search_client.cpp\<close> and
  \<^verbatim>\<open>oef_search_client.hpp\<close>, with the table of \<^verbatim>\<open>msg_handle.hpp\<close>. Requests of agents are framed and written,
  answers are read one at a time and handed to the continuation saved under the identifier of the message. The
  serialisers and parsers of protobuf, the hash of strings and what the sockets do are parameters; a continuation
  is a value of \<open>'k\<close>, and calling it is recorded. A write takes its bytes from memory that nothing keeps alive until it is
  done, and writes of one socket may overlap: what leaves is an argument of the events.
\<close>

subsection \<open>Messages\<close>

text \<open>The header is the leader of \<^verbatim>\<open>ProtoPathMessageReader\<close>: both are a \<^verbatim>\<open>TransportHeader\<close>.\<close>

record net_address =
  na_ip :: string
  na_port :: u32
  na_key :: string
  na_signature :: string

record model_instance =
  mi_key :: string
  mi_model :: datamodel
  mi_values :: "(string \<times> pvalue) list"

record update =
  up_key :: string
  up_models :: "model_instance list"
  up_addresses :: "net_address list"

record search_query =
  sq_source_key :: string
  sq_model :: query
  sq_ttl :: u32

datatype search_request = UpdateRequest update | QueryRequest search_query

datatype search_reply = Nothing | LocalAgents "string list" | WideAgents "sr_item list"

datatype error_code = Ok | Failed int | NoMessageAvailable

text \<open>
  \<^verbatim>\<open>pbs::serialize\<close> and \<^verbatim>\<open>pbs::deserialize\<close> for the messages of the client. Only the one for the header looks
  at the answer of protobuf.
\<close>

record codec =
  ser_header :: "leader \<Rightarrow> byte list"
  ser_request :: "search_request \<Rightarrow> byte list"
  parse_header :: "byte list \<Rightarrow> leader option"
  parse_search :: "byte list \<Rightarrow> sr_item list"

subsection \<open>State\<close>

text \<open>\<^verbatim>\<open>MsgHandle\<close>: without a continuation it is the handle of nobody, which only prints.\<close>

record 'k msg_handle =
  mh_operation :: string
  mh_continuation :: "'k option"
  mh_amsg_id :: u32
  mh_agent_id :: string

text \<open>
  A write that has been started: what its completion captured, the bytes that its buffers held when it was started, and
  the bytes that have left so far. The buffers of the two sizes, the header and the payload die when the function that
  starts the write returns, since the completion captures none of them; what leaves is what their memory holds then.
  \<open>cl_listening\<close> says that a read of the next two sizes is outstanding, \<open>cl_calls\<close> are the calls of continuations,
  \<open>cl_wire\<close> the bytes that have left.
\<close>

record 'k captured =
  pn_smsg_id :: u64
  pn_operation :: string
  pn_continuation :: 'k
  pn_msg_id :: u32
  pn_agent :: string

record 'k pending = "'k captured" +
  pn_frame :: "byte list"
  pn_sent :: "byte list"

record 'k client =
  cl_core_ip_addr :: string
  cl_core_port :: u32
  cl_core_id :: string
  cl_updated_address :: bool
  cl_handles :: "(u32 \<times> 'k msg_handle) list"
  cl_pending :: "'k pending list"
  cl_listening :: bool
  cl_calls :: "('k \<times> error_code \<times> search_reply) list"
  cl_wire :: "byte list"

definition cl_new :: "string \<Rightarrow> string \<Rightarrow> u32 \<Rightarrow> 'k client" where
  "cl_new core_id ip port = \<lparr>cl_core_ip_addr = ip, cl_core_port = port, cl_core_id = core_id, cl_updated_address = True,
     cl_handles = [], cl_pending = [], cl_listening = True, cl_calls = [], cl_wire = []\<rparr>"

subsection \<open>Message factories\<close>

definition generate_smsg_id :: "(string \<Rightarrow> u64) \<Rightarrow> string \<Rightarrow> u32 \<Rightarrow> u64" where
  "generate_smsg_id hash agent msg_id = hash agent XOR ucast (push_bit 1 msg_id)"

definition generate_header :: "string \<Rightarrow> u32 \<Rightarrow> leader" where
  "generate_header uri msg_id = \<lparr>ld_uri = uri, ld_id = ucast msg_id, ld_success = True, ld_error_code = 0, ld_narrative = []\<rparr>"

definition generate_update_add_naddr :: "update \<Rightarrow> ('k client, update) prog" where
  "generate_update_add_naddr u = pbind (pget cl_updated_address) (\<lambda>fresh.
     if \<not> fresh then pret u
     else pthen (pmodify (\<lambda>s. s\<lparr>cl_updated_address := False\<rparr>))
         (pget (\<lambda>s. u\<lparr>up_addresses := up_addresses u @
           [\<lparr>na_ip = cl_core_ip_addr s, na_port = cl_core_port s, na_key = cl_core_id s, na_signature = ''Sign''\<rparr>]\<rparr>)))"

text \<open>A string given as a C string ends at its first zero character.\<close>

definition c_str :: "string \<Rightarrow> string" where
  "c_str s = takeWhile (\<lambda>c. c \<noteq> CHR 0x00) s"

definition generate_update :: "instance_of \<Rightarrow> string \<Rightarrow> ('k client, update) prog" where
  "generate_update service agent = pbind (pget cl_core_id) (\<lambda>core_id.
     generate_update_add_naddr \<lparr>up_key = core_id,
       up_models = [\<lparr>mi_key = c_str agent, mi_model = in_model service, mi_values = in_message service\<rparr>], up_addresses = []\<rparr>)"

definition generate_search :: "query \<Rightarrow> u32 \<Rightarrow> ('k client, search_query) prog" where
  "generate_search q ttl = pget (\<lambda>s. \<lparr>sq_source_key = cl_core_id s, sq_model = q, sq_ttl = ttl\<rparr>)"

text \<open>The removal copies a data model into the message of an instance: protobuf ends the process.\<close>

definition generate_remove :: "instance_of \<Rightarrow> ('k client, search_request) prog" where
  "generate_remove i = pthrow Aborted"

subsection \<open>Sending\<close>

text \<open>Two sizes in network order, the header and the payload.\<close>

definition cl_send :: "byte list \<Rightarrow> byte list \<Rightarrow> 'k captured \<Rightarrow> ('k client, unit) prog" where
  "cl_send header payload c = pmodify (\<lambda>s. s\<lparr>cl_pending := cl_pending s @
     [\<lparr>pn_smsg_id = pn_smsg_id c, pn_operation = pn_operation c, pn_continuation = pn_continuation c, pn_msg_id = pn_msg_id c,
       pn_agent = pn_agent c, pn_frame = be_bytes (of_nat (length header)) @ be_bytes (of_nat (length payload)) @ header @ payload,
       pn_sent = []\<rparr>]\<rparr>)"

text \<open>More bytes of a started write leave; which ones, its memory decides.\<close>

definition cl_leave :: "nat \<Rightarrow> byte list \<Rightarrow> ('k client, unit) prog" where
  "cl_leave n bs = pmodify (\<lambda>s. s\<lparr>cl_wire := cl_wire s @ bs,
     cl_pending := (cl_pending s)[n := (cl_pending s ! n)\<lparr>pn_sent := pn_sent (cl_pending s ! n) @ bs\<rparr>]\<rparr>)"

definition register_service :: "codec \<Rightarrow> (string \<Rightarrow> u64) \<Rightarrow> instance_of \<Rightarrow> string \<Rightarrow> u32 \<Rightarrow> 'k \<Rightarrow> ('k client, unit) prog" where
  "register_service cd hash service agent msg_id k =
     (let smsg_id = generate_smsg_id hash agent msg_id; header = generate_header ''update'' (ucast smsg_id)
      in pbind (generate_update service agent) (\<lambda>u.
         cl_send (ser_header cd header) (ser_request cd (UpdateRequest u))
           \<lparr>pn_smsg_id = smsg_id, pn_operation = ''update'', pn_continuation = k, pn_msg_id = msg_id, pn_agent = agent\<rparr>))"

definition unregister_service :: "codec \<Rightarrow> (string \<Rightarrow> u64) \<Rightarrow> instance_of \<Rightarrow> string \<Rightarrow> u32 \<Rightarrow> 'k \<Rightarrow> ('k client, unit) prog" where
  "unregister_service cd hash service agent msg_id k =
     (let smsg_id = generate_smsg_id hash agent msg_id; header = generate_header ''remove'' (ucast smsg_id)
      in pbind (generate_remove service) (\<lambda>u.
         cl_send (ser_header cd header) (ser_request cd u)
           \<lparr>pn_smsg_id = smsg_id, pn_operation = ''remove'', pn_continuation = k, pn_msg_id = msg_id, pn_agent = agent\<rparr>))"

definition search_service :: "codec \<Rightarrow> (string \<Rightarrow> u64) \<Rightarrow> query \<Rightarrow> string \<Rightarrow> u32 \<Rightarrow> 'k \<Rightarrow> ('k client, unit) prog" where
  "search_service cd hash q agent msg_id k =
     (let smsg_id = generate_smsg_id hash agent msg_id; header = generate_header ''search'' (ucast smsg_id)
      in pbind (generate_search q 1) (\<lambda>sq.
         cl_send (ser_header cd header) (ser_request cd (QueryRequest sq))
           \<lparr>pn_smsg_id = smsg_id, pn_operation = ''search-local'', pn_continuation = k, pn_msg_id = msg_id, pn_agent = agent\<rparr>))"

definition search_service_wide :: "codec \<Rightarrow> (string \<Rightarrow> u64) \<Rightarrow> query \<Rightarrow> string \<Rightarrow> u32 \<Rightarrow> 'k \<Rightarrow> ('k client, unit) prog" where
  "search_service_wide cd hash q agent msg_id k =
     (let smsg_id = generate_smsg_id hash agent msg_id; header = generate_header ''search'' (ucast smsg_id)
      in pbind (generate_search q 3) (\<lambda>sq.
         cl_send (ser_header cd header) (ser_request cd (QueryRequest sq))
           \<lparr>pn_smsg_id = smsg_id, pn_operation = ''search-wide'', pn_continuation = k, pn_msg_id = msg_id, pn_agent = agent\<rparr>))"

definition register_description :: "codec \<Rightarrow> (string \<Rightarrow> u64) \<Rightarrow> instance_of \<Rightarrow> string \<Rightarrow> u32 \<Rightarrow> 'k \<Rightarrow> ('k client, unit) prog" where
  "register_description = register_service"

definition unregister_description :: "codec \<Rightarrow> (string \<Rightarrow> u64) \<Rightarrow> instance_of \<Rightarrow> string \<Rightarrow> u32 \<Rightarrow> 'k \<Rightarrow> ('k client, unit) prog" where
  "unregister_description = unregister_service"

definition search_agents :: "codec \<Rightarrow> (string \<Rightarrow> u64) \<Rightarrow> query \<Rightarrow> string \<Rightarrow> u32 \<Rightarrow> 'k \<Rightarrow> ('k client, unit) prog" where
  "search_agents = search_service"

subsection \<open>The table of handles\<close>

definition msg_handle_save :: "u32 \<Rightarrow> 'k msg_handle \<Rightarrow> ('k client, bool) prog" where
  "msg_handle_save i h = pbind (pget (\<lambda>s. map_of (cl_handles s) i)) (\<lambda>old.
     if old \<noteq> None then pret False
     else pthen (pmodify (\<lambda>s. s\<lparr>cl_handles := (i, h) # cl_handles s\<rparr>)) (pret True))"

definition msg_handle_erase :: "u32 \<Rightarrow> ('k client, bool) prog" where
  "msg_handle_erase i = pbind (pget (\<lambda>s. map_of (cl_handles s) i \<noteq> None)) (\<lambda>there.
     pthen (pmodify (\<lambda>s. s\<lparr>cl_handles := omap_erase i (cl_handles s)\<rparr>)) (pret there))"

definition mh_nobody :: "'k msg_handle" where
  "mh_nobody = \<lparr>mh_operation = '''', mh_continuation = None, mh_amsg_id = 0, mh_agent_id = ''NoOne''\<rparr>"

definition mh_new :: "string \<Rightarrow> 'k \<Rightarrow> u32 \<Rightarrow> string \<Rightarrow> 'k msg_handle" where
  "mh_new op k amsg_id agent = \<lparr>mh_operation = op, mh_continuation = Some k, mh_amsg_id = amsg_id, mh_agent_id = agent\<rparr>"

definition msg_handle_get :: "u32 \<Rightarrow> ('k client, 'k msg_handle) prog" where
  "msg_handle_get i = pget (\<lambda>s. case map_of (cl_handles s) i of Some h \<Rightarrow> h | None \<Rightarrow> mh_nobody)"

text \<open>What the table answers to \<^verbatim>\<open>msg_handle_save\<close> is not looked at; the identifier is cut to 32 bits.\<close>

definition schedule_rcv_callback :: "u32 \<Rightarrow> string \<Rightarrow> 'k \<Rightarrow> u32 \<Rightarrow> string \<Rightarrow> ('k client, unit) prog" where
  "schedule_rcv_callback smsg_id operation k amsg_id agent =
     pthen (msg_handle_save smsg_id (mh_new operation k amsg_id agent)) (pret ())"

definition cl_call :: "'k option \<Rightarrow> error_code \<Rightarrow> search_reply \<Rightarrow> ('k client, unit) prog" where
  "cl_call k ec r = (case k of None \<Rightarrow> pret () | Some k \<Rightarrow> pmodify (\<lambda>s. s\<lparr>cl_calls := cl_calls s @ [(k, ec, r)]\<rparr>))"

text \<open>The completion of the write at place \<open>n\<close> of the started ones.\<close>

definition cl_sent :: "nat \<Rightarrow> error_code \<Rightarrow> ('k client, unit) prog" where
  "cl_sent n ec = pbind (pget (\<lambda>s. cl_pending s ! n)) (\<lambda>p.
     pthen (pmodify (\<lambda>s. s\<lparr>cl_pending := take n (cl_pending s) @ drop (Suc n) (cl_pending s)\<rparr>))
    (if ec \<noteq> Ok then cl_call (Some (pn_continuation p)) ec Nothing
     else schedule_rcv_callback (ucast (pn_smsg_id p)) (pn_operation p) (pn_continuation p) (pn_msg_id p) (pn_agent p)))"

subsection \<open>Answers\<close>

definition process_message :: "codec \<Rightarrow> leader \<Rightarrow> byte list option \<Rightarrow> ('k client, unit) prog" where
  "process_message cd header payload =
     (let smsg_id = ucast (ld_id header)
      in pbind (msg_handle_get smsg_id) (\<lambda>h.
         pthen (msg_handle_erase smsg_id)
        (let ec = (if ld_success header then Ok else NoMessageAvailable)
         in case payload of
              None \<Rightarrow> cl_call (mh_continuation h) ec Nothing
            | Some b \<Rightarrow>
                if mh_operation h = ''update'' then cl_call (mh_continuation h) ec Nothing
                else if mh_operation h = ''remove'' then cl_call (mh_continuation h) ec Nothing
                else if mh_operation h = ''search-local''
                then cl_call (mh_continuation h) ec (LocalAgents (map fst (concat (map si_agents (parse_search cd b)))))
                else if mh_operation h = ''search-wide'' then cl_call (mh_continuation h) ec (WideAgents (parse_search cd b))
                else cl_call (mh_continuation h) NoMessageAvailable Nothing)))"

text \<open>
  The completion of the read of the two sizes, with the bytes read; \<open>body\<close> is what the blocking read of so many
  bytes gives. The sum of the sizes has 32 bits, and the two parts are copied by their own sizes.
\<close>

definition cl_received :: "codec \<Rightarrow> error_code \<Rightarrow> byte list \<Rightarrow> (nat \<Rightarrow> error_code \<times> byte list) \<Rightarrow> ('k client, unit) prog" where
  "cl_received cd ec sizes body =
     pthen (pmodify (\<lambda>s. s\<lparr>cl_listening := False\<rparr>))
    (if ec \<noteq> Ok then pret ()
     else
       (let header_size = be_value (sizes ! 0) (sizes ! 1) (sizes ! 2) (sizes ! 3);
            payload_size = be_value (sizes ! 4) (sizes ! 5) (sizes ! 6) (sizes ! 7);
            (ec2, data) = body (unat (header_size + payload_size))
        in if ec2 \<noteq> Ok then pret ()
           else if length data < unat header_size + unat payload_size then pthrow Undefined
           else
             (let header_buffer = take (unat header_size) data;
                  payload_buffer = take (unat payload_size) (drop (unat header_size) data)
              in case parse_header cd header_buffer of
                   None \<Rightarrow> pret ()
                 | Some header \<Rightarrow>
                     pthen (process_message cd header (if payload_size = 0 then None else Some payload_buffer))
                           (pmodify (\<lambda>s. s\<lparr>cl_listening := True\<rparr>)))))"

subsection \<open>Runs\<close>

text \<open>
  What can happen to a client: a request of an agent, some bytes of one of the started writes leaving, its completion,
  which is a success only when as many bytes have left as were to be written, and the completion of the read of two
  sizes while one is outstanding. Removals end the process and are left out.
\<close>

datatype 'k cl_event =
    CRegister instance_of string u32 'k
  | CSearch query string u32 'k
  | CWide query string u32 'k
  | CLeave nat "byte list"
  | CSent nat error_code
  | CReceived error_code "byte list" "nat \<Rightarrow> error_code \<times> byte list"

definition may_leave :: "nat \<Rightarrow> byte list \<Rightarrow> 'k client \<Rightarrow> bool" where
  "may_leave n bs s \<longleftrightarrow> n < length (cl_pending s) \<and>
     length (pn_sent (cl_pending s ! n)) + length bs \<le> length (pn_frame (cl_pending s ! n))"

definition may_end :: "nat \<Rightarrow> error_code \<Rightarrow> 'k client \<Rightarrow> bool" where
  "may_end n ec s \<longleftrightarrow> n < length (cl_pending s) \<and>
     (ec = Ok \<longrightarrow> length (pn_sent (cl_pending s ! n)) = length (pn_frame (cl_pending s ! n)))"

fun cl_event_run :: "codec \<Rightarrow> (string \<Rightarrow> u64) \<Rightarrow> 'k cl_event \<Rightarrow> 'k client \<Rightarrow> 'k client" where
  "cl_event_run cd hash (CRegister i agent m k) s = snd (register_service cd hash i agent m k s)"
| "cl_event_run cd hash (CSearch q agent m k) s = snd (search_service cd hash q agent m k s)"
| "cl_event_run cd hash (CWide q agent m k) s = snd (search_service_wide cd hash q agent m k s)"
| "cl_event_run cd hash (CLeave n bs) s = (if may_leave n bs s then snd (cl_leave n bs s) else s)"
| "cl_event_run cd hash (CSent n ec) s = (if may_end n ec s then snd (cl_sent n ec s) else s)"
| "cl_event_run cd hash (CReceived ec sizes body) s = (if cl_listening s then snd (cl_received cd ec sizes body s) else s)"

definition cl_events :: "codec \<Rightarrow> (string \<Rightarrow> u64) \<Rightarrow> 'k cl_event list \<Rightarrow> 'k client \<Rightarrow> 'k client" where
  "cl_events cd hash es s = fold (cl_event_run cd hash) es s"

fun started :: "'k cl_event \<Rightarrow> 'k list" where
  "started (CRegister i agent m k) = [k]"
| "started (CSearch q agent m k) = [k]"
| "started (CWide q agent m k) = [k]"
| "started e = []"

subsection \<open>Steps\<close>

text \<open>What a request does besides its bytes: it starts one write.\<close>

definition enqueued :: "'k \<Rightarrow> u64 \<Rightarrow> u32 \<Rightarrow> string \<Rightarrow> 'k client \<Rightarrow> 'k client \<Rightarrow> bool" where
  "enqueued k i m agent s s' \<longleftrightarrow> (\<exists>p. cl_pending s' = cl_pending s @ [p] \<and> pn_continuation p = k \<and> pn_smsg_id p = i \<and> pn_msg_id p = m \<and> pn_agent p = agent) \<and>
     cl_handles s' = cl_handles s \<and> cl_calls s' = cl_calls s \<and> cl_listening s' = cl_listening s"

lemmas request_defs = register_service_def search_service_def search_service_wide_def generate_update_def
  generate_search_def generate_update_add_naddr_def cl_send_def pbind_apply pthen_apply Let_def

lemma request_enqueues:
  "enqueued k (generate_smsg_id hash agent m) m agent s (snd (register_service cd hash i agent m k s))"
  "enqueued k (generate_smsg_id hash agent m) m agent s (snd (search_service cd hash q agent m k s))"
  "enqueued k (generate_smsg_id hash agent m) m agent s (snd (search_service_wide cd hash q agent m k s))"
  by (simp_all add: enqueued_def request_defs split: if_split)

lemma requests_total:
  "fst (register_service cd hash i agent m k s) = Inr ()" "fst (search_service cd hash q agent m k s) = Inr ()"
  "fst (search_service_wide cd hash q agent m k s) = Inr ()"
  by (simp_all add: request_defs split: if_split)

lemma process_total: "fst (process_message cd header payload s) = Inr ()"
  by (simp add: process_message_def msg_handle_get_def msg_handle_erase_def cl_call_def pbind_apply pthen_apply Let_def
      split: option.split if_split)

text \<open>The continuation a handle of the table stands for.\<close>

definition handle_continuations :: "u32 \<Rightarrow> 'k client \<Rightarrow> 'k list" where
  "handle_continuations i s = (case map_of (cl_handles s) i of None \<Rightarrow> [] | Some h \<Rightarrow> (case mh_continuation h of None \<Rightarrow> [] | Some k \<Rightarrow> [k]))"

lemma process_step:
  fixes s :: "'k client"
  defines "s' \<equiv> \<lambda>cd header payload. snd (process_message cd header payload s)"
  shows "cl_handles (s' cd header payload) = omap_erase (ucast (ld_id header)) (cl_handles s)"
    "cl_pending (s' cd header payload) = cl_pending s" "cl_listening (s' cd header payload) = cl_listening s"
    "cl_wire (s' cd header payload) = cl_wire s"
    "\<exists>ec r. cl_calls (s' cd header payload) = cl_calls s @ map (\<lambda>k. (k, ec, r)) (handle_continuations (ucast (ld_id header)) s)"
  unfolding s'_def
  by (simp_all add: process_message_def msg_handle_get_def msg_handle_erase_def cl_call_def mh_nobody_def pbind_apply pthen_apply
      handle_continuations_def Let_def split: option.split)

subsection \<open>Every continuation is called once at most\<close>

definition held :: "(u32 \<times> 'k msg_handle) list \<Rightarrow> 'k list" where
  "held hs = concat (map (\<lambda>e. case mh_continuation (snd e) of None \<Rightarrow> [] | Some k \<Rightarrow> [k]) hs)"

definition conts :: "'k client \<Rightarrow> 'k multiset" where
  "conts s = mset (map pn_continuation (cl_pending s)) + mset (held (cl_handles s)) + mset (map fst (cl_calls s))"

lemma held_simps [simp]:
  "held [] = []" "held (e # hs) = (case mh_continuation (snd e) of None \<Rightarrow> [] | Some k \<Rightarrow> [k]) @ held hs"
  by (simp_all add: held_def)

lemma held_erase:
  "mset (case map_of hs i of None \<Rightarrow> [] | Some h \<Rightarrow> (case mh_continuation h of None \<Rightarrow> [] | Some k \<Rightarrow> [k])) +
     mset (held (omap_erase i hs)) \<subseteq># mset (held hs)"
proof (induction hs)
  case (Cons e hs)
  have "mset (held (omap_erase i hs)) \<subseteq># mset (held hs)"
    using Cons.IH subset_mset.order_trans[OF mset_subset_eq_add_right] by blast
  then show ?case
    using Cons.IH by (cases e) (auto simp: omap_erase_def subset_mset.add_left_mono ac_simps split: option.splits)
qed (simp add: omap_erase_def)

lemma conts_request: "enqueued k i m agent s s' \<Longrightarrow> conts s' = conts s + {#k#}"
  by (auto simp: enqueued_def conts_def)

lemma conts_sent:
  assumes n: "n < length (cl_pending s)"
  shows "conts (snd (cl_sent n ec s)) \<subseteq># conts s"
proof -
  let ?p = "cl_pending s ! n" and ?rest = "take n (cl_pending s) @ drop (Suc n) (cl_pending s)"
  have p: "mset (map pn_continuation (cl_pending s)) = add_mset (pn_continuation ?p) (mset (map pn_continuation ?rest))"
    by (subst id_take_nth_drop[OF n]) simp
  show ?thesis
    unfolding conts_def p
    by (simp add: cl_sent_def cl_call_def schedule_rcv_callback_def msg_handle_save_def mh_new_def pbind_apply pthen_apply)
qed

lemma conts_process: "conts (snd (process_message cd header payload s)) \<subseteq># conts s"
proof -
  obtain ec r where c: "cl_calls (snd (process_message cd header payload s)) =
      cl_calls s @ map (\<lambda>k. (k, ec, r)) (handle_continuations (ucast (ld_id header)) s)"
    using process_step(5) by blast
  show ?thesis
    using held_erase[of "cl_handles s" "ucast (ld_id header)"]
    by (simp add: conts_def process_step c handle_continuations_def comp_def ac_simps)
qed

lemma process_then:
  "pthen (process_message cd header p) (pmodify f) s = (Inr (), f (snd (process_message cd header p s)))"
  by (cases "process_message cd header p s") (use process_total[of cd header p s] in \<open>simp add: pthen_apply\<close>)

text \<open>A read either stops the client listening and does nothing else, or hands one message over and listens again.\<close>

lemma received_cases:
  obtains "snd (cl_received cd ec sizes body s) = s\<lparr>cl_listening := False\<rparr>"
  | header p where "snd (cl_received cd ec sizes body s) =
      (snd (process_message cd header p (s\<lparr>cl_listening := False\<rparr>)))\<lparr>cl_listening := True\<rparr>"
proof -
  let ?s = "s\<lparr>cl_listening := False\<rparr>"
  have m: "pthen (pmodify (\<lambda>s. s\<lparr>cl_listening := False\<rparr>)) q s = q ?s" for q :: "('a client, unit) prog"
    by (simp add: pthen_apply)
  have "snd (cl_received cd ec sizes body s) = ?s \<or> (\<exists>header p. snd (cl_received cd ec sizes body s) =
      snd (pthen (process_message cd header p) (pmodify (\<lambda>s. s\<lparr>cl_listening := True\<rparr>)) ?s))"
    unfolding cl_received_def Let_def m by (auto split: prod.split option.split)
  then show thesis using that unfolding process_then by auto
qed

lemma conts_received: "conts (snd (cl_received cd ec sizes body s)) \<subseteq># conts s"
proof (cases rule: received_cases[of cd ec sizes body s])
  case 1
  then show ?thesis by (simp add: conts_def)
next
  case (2 header p)
  then show ?thesis using conts_process[of cd header p "s\<lparr>cl_listening := False\<rparr>"] by (simp add: conts_def)
qed

lemma map_continuation_leave:
  "n < length ps \<Longrightarrow> map pn_continuation (ps[n := (ps ! n)\<lparr>pn_sent := bs\<rparr>]) = map pn_continuation ps"
  by (simp add: map_update) (metis list_update_id map_update)

lemma conts_leave: "n < length (cl_pending s) \<Longrightarrow> conts (snd (cl_leave n bs s)) = conts s"
  by (simp add: conts_def cl_leave_def map_continuation_leave)

lemma conts_event: "conts (cl_event_run cd hash e s) \<subseteq># conts s + mset (started e)"
proof (cases e)
  case (CRegister i agent m k)
  then show ?thesis by (simp add: conts_request[OF request_enqueues(1)])
next
  case (CSearch q agent m k)
  then show ?thesis by (simp add: conts_request[OF request_enqueues(2)])
next
  case (CWide q agent m k)
  then show ?thesis by (simp add: conts_request[OF request_enqueues(3)])
qed (simp_all add: conts_sent conts_received conts_leave may_leave_def may_end_def)

lemma conts_events: "conts (cl_events cd hash es s) \<subseteq># conts s + mset (concat (map started es))"
proof (induction es arbitrary: s)
  case (Cons e es)
  have "conts (cl_events cd hash (e # es) s) \<subseteq># conts (cl_event_run cd hash e s) + mset (concat (map started es))"
    using Cons.IH[of "cl_event_run cd hash e s"] by (simp add: cl_events_def)
  also have "\<dots> \<subseteq># (conts s + mset (started e)) + mset (concat (map started es))"
    using conts_event subset_mset.add_right_mono by blast
  finally show ?case by (simp add: ac_simps)
qed (simp add: cl_events_def)


subsection \<open>Requests and their answers\<close>

definition ask :: "bool \<Rightarrow> query \<Rightarrow> string \<Rightarrow> u32 \<Rightarrow> 'k \<Rightarrow> 'k cl_event" where
  "ask wide = (if wide then CWide else CSearch)"

definition asked :: "bool \<Rightarrow> query \<Rightarrow> string \<Rightarrow> search_query" where
  "asked wide q core = \<lparr>sq_source_key = core, sq_model = q, sq_ttl = (if wide then 3 else 1)\<rparr>"

definition reply :: "bool \<Rightarrow> sr_item list \<Rightarrow> search_reply" where
  "reply wide items = (if wide then WideAgents items else LocalAgents (map fst (concat (map si_agents items))))"

text \<open>The arrival of a framed message, with nothing going wrong on the socket.\<close>

definition arrival :: "byte list \<Rightarrow> byte list \<Rightarrow> 'k cl_event" where
  "arrival hb pb = CReceived Ok (take 8 (pframe hb pb)) (\<lambda>n. (Ok, take n (hb @ pb)))"

definition fits :: "byte list \<Rightarrow> byte list \<Rightarrow> bool" where
  "fits hb pb \<longleftrightarrow> length hb + length pb < 2 ^ 32"

lemma be_value_frame:
  "be_value (pframe hb pb ! 0) (pframe hb pb ! 1) (pframe hb pb ! 2) (pframe hb pb ! 3) = of_nat (length hb)"
  "be_value (pframe hb pb ! 4) (pframe hb pb ! 5) (pframe hb pb ! 6) (pframe hb pb ! 7) = of_nat (length pb)"
  by (simp_all add: pframe_def be_bytes_def be_roundtrip)

text \<open>What a search is to put on the wire, and the events of a write that ends well: the parts it leaves in.\<close>

definition search_frame :: "codec \<Rightarrow> (string \<Rightarrow> u64) \<Rightarrow> bool \<Rightarrow> query \<Rightarrow> string \<Rightarrow> u32 \<Rightarrow> 'k client \<Rightarrow> byte list" where
  "search_frame cd hash wide q agent m s =
     pframe (ser_header cd (generate_header ''search'' (ucast (generate_smsg_id hash agent m))))
            (ser_request cd (QueryRequest (asked wide q (cl_core_id s))))"

definition write_events :: "nat \<Rightarrow> byte list list \<Rightarrow> 'k cl_event list" where
  "write_events n parts = map (CLeave n) parts @ [CSent n Ok]"

definition asking :: "codec \<Rightarrow> (string \<Rightarrow> u64) \<Rightarrow> bool \<Rightarrow> query \<Rightarrow> string \<Rightarrow> u32 \<Rightarrow> 'k \<Rightarrow> 'k client \<Rightarrow> 'k pending" where
  "asking cd hash wide q agent m k s = \<lparr>pn_smsg_id = generate_smsg_id hash agent m,
     pn_operation = (if wide then ''search-wide'' else ''search-local''), pn_continuation = k, pn_msg_id = m, pn_agent = agent,
     pn_frame = search_frame cd hash wide q agent m s, pn_sent = []\<rparr>"

lemma asking_simps [simp]:
  "pn_smsg_id (asking cd hash wide q agent m k s) = generate_smsg_id hash agent m"
  "pn_operation (asking cd hash wide q agent m k s) = (if wide then ''search-wide'' else ''search-local'')"
  "pn_continuation (asking cd hash wide q agent m k s) = k" "pn_msg_id (asking cd hash wide q agent m k s) = m"
  "pn_agent (asking cd hash wide q agent m k s) = agent"
  "pn_frame (asking cd hash wide q agent m k s) = search_frame cd hash wide q agent m s"
  "pn_sent (asking cd hash wide q agent m k s) = []"
  by (simp_all add: asking_def)

lemma ask_run:
  "cl_event_run cd hash (ask wide q agent m k) s = s\<lparr>cl_pending := cl_pending s @ [asking cd hash wide q agent m k s]\<rparr>"
  by (simp add: ask_def asked_def asking_def search_frame_def pframe_def search_service_def search_service_wide_def
      generate_search_def cl_send_def pbind_apply Let_def)

lemma leave_run:
  assumes "cl_pending s = ps @ [p]" "length (pn_sent p) + length bs \<le> length (pn_frame p)"
  shows "cl_event_run cd hash (CLeave (length ps) bs) s =
    s\<lparr>cl_wire := cl_wire s @ bs, cl_pending := ps @ [p\<lparr>pn_sent := pn_sent p @ bs\<rparr>]\<rparr>"
  using assms by (simp add: may_leave_def cl_leave_def)

lemma leaves_run:
  assumes "cl_pending s = ps @ [p]" "length (pn_sent p) + length (concat parts) \<le> length (pn_frame p)"
  shows "fold (cl_event_run cd hash) (map (CLeave (length ps)) parts) s =
    s\<lparr>cl_wire := cl_wire s @ concat parts, cl_pending := ps @ [p\<lparr>pn_sent := pn_sent p @ concat parts\<rparr>]\<rparr>"
  using assms
proof (induction parts arbitrary: s p)
  case (Cons bs parts)
  let ?p = "p\<lparr>pn_sent := pn_sent p @ bs\<rparr>"
  have e: "cl_event_run cd hash (CLeave (length ps) bs) s = s\<lparr>cl_wire := cl_wire s @ bs, cl_pending := ps @ [?p]\<rparr>"
    using Cons.prems by (intro leave_run) simp_all
  show ?case using Cons.IH [of "s\<lparr>cl_wire := cl_wire s @ bs, cl_pending := ps @ [?p]\<rparr>" ?p] Cons.prems(2)
    by (simp add: e del: cl_event_run.simps)
qed simp

lemma sent_run:
  assumes "cl_pending s = ps @ [p]" "length (pn_sent p) = length (pn_frame p)"
  shows "cl_event_run cd hash (CSent (length ps) Ok) s =
     (case map_of (cl_handles s) (ucast (pn_smsg_id p)) of Some _ \<Rightarrow> s\<lparr>cl_pending := ps\<rparr>
      | None \<Rightarrow> s\<lparr>cl_pending := ps, cl_handles := (ucast (pn_smsg_id p),
          mh_new (pn_operation p) (pn_continuation p) (pn_msg_id p) (pn_agent p)) # cl_handles s\<rparr>)"
  using assms
  by (simp add: may_end_def cl_sent_def schedule_rcv_callback_def msg_handle_save_def pbind_apply pthen_apply split: option.split)

lemma arrival_prog:
  assumes "fits hb pb"
  shows "cl_received cd Ok (take 8 (pframe hb pb)) (\<lambda>n. (Ok, take n (hb @ pb))) s =
    (Inr (), case parse_header cd hb of None \<Rightarrow> s\<lparr>cl_listening := False\<rparr>
     | Some header \<Rightarrow> (snd (process_message cd header (if pb = [] then None else Some pb)
         (s\<lparr>cl_listening := False\<rparr>)))\<lparr>cl_listening := True\<rparr>)"
proof -
  have u: "unat (word_of_nat (length hb) :: u32) = length hb" "unat (word_of_nat (length pb) :: u32) = length pb"
    "unat (word_of_nat (length hb) + word_of_nat (length pb) :: u32) = length hb + length pb"
    using assms(1) by (simp_all add: fits_def unat_of_nat take_bit_nat_eq_self_iff flip: of_nat_add)
  have z: "(word_of_nat (length pb) :: u32) = 0 \<longleftrightarrow> pb = []"
    using u(2) by (metis length_0_conv unat_eq_zero unat_0)
  show ?thesis
    by (simp add: cl_received_def be_value_frame[unfolded One_nat_def] u z pthen_apply[of "pmodify f" for f] process_then Let_def
        split: option.split)
qed

lemma arrival_run:
  assumes "fits hb pb" "cl_listening s"
  shows "cl_event_run cd hash (arrival hb pb) s =
    (case parse_header cd hb of None \<Rightarrow> s\<lparr>cl_listening := False\<rparr>
     | Some header \<Rightarrow> (snd (process_message cd header (if pb = [] then None else Some pb)
         (s\<lparr>cl_listening := False\<rparr>)))\<lparr>cl_listening := True\<rparr>)"
  using assms(2) arrival_prog[OF assms(1), of cd s] by (simp add: arrival_def)

lemma sent_total: "fst (cl_sent n ec s) = Inr ()"
  by (simp add: cl_sent_def cl_call_def schedule_rcv_callback_def msg_handle_save_def pbind_apply pthen_apply)

lemma search_process:
  assumes "map_of (cl_handles s) (ucast (ld_id header)) = Some (mh_new (if wide then ''search-wide'' else ''search-local'') k m agent)"
    "pb \<noteq> []"
  shows "snd (process_message cd header (if pb = [] then None else Some pb) s) = s\<lparr>cl_handles := omap_erase (ucast (ld_id header)) (cl_handles s),
    cl_calls := cl_calls s @ [(k, if ld_success header then Ok else NoMessageAvailable, reply wide (parse_search cd pb))]\<rparr>"
  using assms by (simp add: process_message_def msg_handle_get_def msg_handle_erase_def cl_call_def mh_new_def reply_def
      pbind_apply pthen_apply Let_def)

lemma nobody_process:
  assumes "map_of (cl_handles s) (ucast (ld_id header)) = None"
  shows "snd (process_message cd header p s) = s\<lparr>cl_handles := omap_erase (ucast (ld_id header)) (cl_handles s)\<rparr>"
  using assms by (simp add: process_message_def msg_handle_get_def msg_handle_erase_def cl_call_def mh_nobody_def
      pbind_apply pthen_apply Let_def split: option.split)


lemma cl_events_simps [simp]:
  "cl_events cd hash [] s = s" "cl_events cd hash (e # es) s = cl_events cd hash es (cl_event_run cd hash e s)"
  by (simp_all add: cl_events_def)

definition answered :: "codec \<Rightarrow> leader \<Rightarrow> bool \<Rightarrow> byte list \<Rightarrow> 'k \<Rightarrow> 'k \<times> error_code \<times> search_reply" where
  "answered cd header wide pb k = (k, if ld_success header then Ok else NoMessageAvailable, reply wide (parse_search cd pb))"

text \<open>A search whose identifier is free, its write done: the state waits for the answer.\<close>

lemma written_run:
  assumes "length (concat parts) = length (search_frame cd hash wide q agent m s)"
  shows "cl_events cd hash (ask wide q agent m k # write_events (length (cl_pending s)) parts) s =
    (case map_of (cl_handles s) (ucast (generate_smsg_id hash agent m)) of
       Some _ \<Rightarrow> s\<lparr>cl_wire := cl_wire s @ concat parts\<rparr>
     | None \<Rightarrow> s\<lparr>cl_wire := cl_wire s @ concat parts, cl_handles := (ucast (generate_smsg_id hash agent m),
         mh_new (if wide then ''search-wide'' else ''search-local'') k m agent) # cl_handles s\<rparr>)"
proof -
  let ?p = "asking cd hash wide q agent m k s"
  let ?t = "s\<lparr>cl_pending := cl_pending s @ [?p]\<rparr>"
  let ?u = "?t\<lparr>cl_wire := cl_wire s @ concat parts, cl_pending := cl_pending s @ [?p\<lparr>pn_sent := concat parts\<rparr>]\<rparr>"
  have len: "length (pn_sent ?p) + length (concat parts) \<le> length (pn_frame ?p)" using assms by simp
  have leaves: "fold (cl_event_run cd hash) (map (CLeave (length (cl_pending s))) parts) ?t = ?u"
    using leaves_run [of ?t "cl_pending s" ?p parts cd hash] len by simp
  have sent: "length (pn_sent (?p\<lparr>pn_sent := concat parts\<rparr>)) = length (pn_frame (?p\<lparr>pn_sent := concat parts\<rparr>))"
    using assms by simp
  have pend: "cl_pending ?u = cl_pending s @ [?p\<lparr>pn_sent := concat parts\<rparr>]" by simp
  show ?thesis
    unfolding write_events_def cl_events_def fold_simps ask_run comp_apply fold_append leaves sent_run [OF pend sent]
    by (cases s) (simp split: option.split)
qed

lemma asked_run:
  assumes "map_of (cl_handles s) (ucast (generate_smsg_id hash agent m)) = None"
    and "length (concat parts) = length (search_frame cd hash wide q agent m s)"
  shows "cl_events cd hash (ask wide q agent m k # write_events (length (cl_pending s)) parts) s = s\<lparr>
    cl_wire := cl_wire s @ concat parts,
    cl_handles := (ucast (generate_smsg_id hash agent m),
      mh_new (if wide then ''search-wide'' else ''search-local'') k m agent) # cl_handles s\<rparr>"
  using written_run [OF assms(2)] assms(1) by simp

lemma asked_again_run:
  assumes "map_of (cl_handles s) (ucast (generate_smsg_id hash agent m)) \<noteq> None"
    and "length (concat parts) = length (search_frame cd hash wide q agent m s)"
  shows "cl_events cd hash (ask wide q agent m k # write_events (length (cl_pending s)) parts) s = s\<lparr>cl_wire := cl_wire s @ concat parts\<rparr>"
  using written_run [OF assms(2)] assms(1) by auto

lemma answer_run:
  assumes "fits hb pb" "pb \<noteq> []" "parse_header cd hb = Some header" "cl_listening s"
    and "map_of (cl_handles s) (ucast (ld_id header)) = Some (mh_new (if wide then ''search-wide'' else ''search-local'') k m agent)"
  shows "cl_event_run cd hash (arrival hb pb) s = s\<lparr>cl_handles := omap_erase (ucast (ld_id header)) (cl_handles s),
    cl_calls := cl_calls s @ [answered cd header wide pb k]\<rparr>"
proof -
  have "map_of (cl_handles (s\<lparr>cl_listening := False\<rparr>)) (ucast (ld_id header)) =
      Some (mh_new (if wide then ''search-wide'' else ''search-local'') k m agent)"
    using assms(5) by simp
  then show ?thesis
    unfolding arrival_run[OF assms(1,4)] assms(3) option.case
    by (subst search_process[OF _ assms(2)]) (use assms(4) in \<open>cases s; simp add: answered_def\<close>)+
qed

lemma stray_run:
  assumes "fits hb pb" "parse_header cd hb = Some header" "cl_listening s"
    and "map_of (cl_handles s) (ucast (ld_id header)) = None"
  shows "cl_event_run cd hash (arrival hb pb) s = s\<lparr>cl_handles := omap_erase (ucast (ld_id header)) (cl_handles s)\<rparr>"
  unfolding arrival_run[OF assms(1,3)] assms(2) option.case
  by (subst nobody_process) (use assms(3,4) in \<open>cases s; simp\<close>)+

declare cl_event_run.simps [simp del]

text \<open>Two messages for one handle: its continuation is called for the first, nobody for the second.\<close>

lemma answers_run:
  assumes "fits hb pb" "pb \<noteq> []" "parse_header cd hb = Some header" "ucast (ld_id header) = i" "cl_listening s"
    and "map_of (cl_handles s) i = Some (mh_new (if wide then ''search-wide'' else ''search-local'') k m agent)"
  shows "cl_event_run cd hash (arrival hb pb) s = s\<lparr>cl_handles := omap_erase i (cl_handles s),
      cl_calls := cl_calls s @ [answered cd header wide pb k]\<rparr>" (is "?s' = _")
    and "\<lbrakk>fits hb2 pb2; parse_header cd hb2 = Some header2; ucast (ld_id header2) = i\<rbrakk> \<Longrightarrow>
      cl_calls (cl_event_run cd hash (arrival hb2 pb2) (cl_event_run cd hash (arrival hb pb) s)) =
      cl_calls s @ [answered cd header wide pb k]"
proof -
  show 1: "?s' = s\<lparr>cl_handles := omap_erase i (cl_handles s), cl_calls := cl_calls s @ [answered cd header wide pb k]\<rparr>"
    using answer_run[OF assms(1-3,5)] assms(4,6) by simp
  assume 2: "fits hb2 pb2" "parse_header cd hb2 = Some header2" "ucast (ld_id header2) = i"
  show "cl_calls (cl_event_run cd hash (arrival hb2 pb2) ?s') = cl_calls s @ [answered cd header wide pb k]"
    unfolding 1 by (subst stray_run[OF 2(1,2)]) (use assms(5) 2(3) in simp_all)
qed

lemma colliding_id: "generate_smsg_id hash agent (m XOR 0x80000000) = generate_smsg_id hash agent m"
proof -
  have "push_bit 1 (0x80000000 :: u32) = 0" by (simp add: push_bit_eq_mult)
  then show ?thesis by (simp only: generate_smsg_id_def push_bit_xor xor.right_neutral)
qed

text \<open>While no read is outstanding only failed writes call continuations.\<close>

definition only_failures :: "('k \<times> error_code \<times> search_reply) list \<Rightarrow> bool" where
  "only_failures cs \<longleftrightarrow> list_all (\<lambda>(k, ec, r). ec \<noteq> Ok \<and> r = Nothing) cs"

lemma deaf_event:
  assumes "\<not> cl_listening s"
  shows "\<not> cl_listening (cl_event_run cd hash e s) \<and> (\<exists>cs. cl_calls (cl_event_run cd hash e s) = cl_calls s @ cs \<and> only_failures cs)"
proof (cases e)
  case (CRegister i agent m k)
  then show ?thesis using request_enqueues(1)[of k hash agent m s cd i] assms
    by (simp add: enqueued_def cl_event_run.simps only_failures_def)
next
  case (CSearch q agent m k)
  then show ?thesis using request_enqueues(2)[of k hash agent m s cd q] assms
    by (simp add: enqueued_def cl_event_run.simps only_failures_def)
next
  case (CWide q agent m k)
  then show ?thesis using request_enqueues(3)[of k hash agent m s cd q] assms
    by (simp add: enqueued_def cl_event_run.simps only_failures_def)
qed (use assms in \<open>simp_all add: cl_event_run.simps only_failures_def cl_sent_def cl_call_def schedule_rcv_callback_def
    msg_handle_save_def cl_leave_def pbind_apply pthen_apply\<close>)

lemma deaf_events:
  "\<not> cl_listening s \<Longrightarrow> \<not> cl_listening (cl_events cd hash es s) \<and>
     (\<exists>cs. cl_calls (cl_events cd hash es s) = cl_calls s @ cs \<and> only_failures cs)"
proof (induction es arbitrary: s)
  case (Cons e es)
  obtain cs where "\<not> cl_listening (cl_event_run cd hash e s)" "cl_calls (cl_event_run cd hash e s) = cl_calls s @ cs" "only_failures cs"
    using deaf_event[OF Cons.prems] by blast
  then show ?case using Cons.IH[of "cl_event_run cd hash e s"] by (auto simp: only_failures_def)
qed (simp add: only_failures_def)

text \<open>The arrivals after which the client does not read again: a failed read, or a header protobuf does not take.\<close>

definition deafening :: "codec \<Rightarrow> 'k cl_event \<Rightarrow> bool" where
  "deafening cd e = (case e of
     CReceived ec sizes body \<Rightarrow> ec \<noteq> Ok \<or>
       (let n = be_value (sizes ! 0) (sizes ! 1) (sizes ! 2) (sizes ! 3);
            m = be_value (sizes ! 4) (sizes ! 5) (sizes ! 6) (sizes ! 7);
            (ec2, data) = body (unat (n + m))
        in ec2 \<noteq> Ok \<or> parse_header cd (take (unat n) data) = None)
   | _ \<Rightarrow> False)"

subsection \<open>Properties\<close>

text \<open>
  Whatever requests are made, whichever writes succeed or fail and whatever arrives, no continuation is called
  more often than it was given to a request.
\<close>

lemma continuations_called_once:
  "mset (map fst (cl_calls (cl_events cd hash es (cl_new core ip port)))) \<subseteq># mset (concat (map started es))"
proof -
  have "mset (map fst (cl_calls (cl_events cd hash es (cl_new core ip port)))) \<subseteq># conts (cl_events cd hash es (cl_new core ip port))"
    by (simp add: conts_def)
  also have "\<dots> \<subseteq># mset (concat (map started es))"
    using conts_events[of cd hash es "cl_new core ip port"] by (simp add: conts_def cl_new_def)
  finally show ?thesis .
qed

text \<open>
  C30. A search is answered. Asking starts one write, of the framed header and query, a local one for one hop and a wide one
  for three, and nothing has left yet. In whatever parts as many bytes leave, the wire gets what the memory of the
  buffers holds then, which is the frame as long as that memory is intact: nothing keeps it alive. When the identifier was free,
  that write has ended well, and only then a message with the identifier arrives, exactly the continuation of the search
  is called, with the agents the payload lists (all of its items for a wide search); the identifier is free
  again, the client listens, and a second answer calls nobody. An answer that arrives before the write has ended
  calls nobody (\<open>early_answer_is_lost\<close>).
\<close>

theorem search_answered:
  assumes "cl_listening s" "map_of (cl_handles s) i = None" "i = ucast (generate_smsg_id hash agent m)"
    and "fits hb pb" "pb \<noteq> []" "parse_header cd hb = Some header" "ucast (ld_id header) = i"
    and "F = pframe (ser_header cd (generate_header ''search'' i)) (ser_request cd (QueryRequest (asked wide q (cl_core_id s))))"
    and "length (concat parts) = length F"
  shows "\<exists>s1 s' w. cl_event_run cd hash (ask wide q agent m k) s = s1 \<and>
    cl_wire s1 = cl_wire s \<and> cl_pending s1 = cl_pending s @ [w] \<and> pn_frame w = F \<and> pn_sent w = [] \<and>
    cl_events cd hash (write_events (length (cl_pending s)) parts @ [arrival hb pb]) s1 = s' \<and>
    cl_wire s' = cl_wire s @ concat parts \<and>
    cl_calls s' = cl_calls s @ [answered cd header wide pb k] \<and>
    map_of (cl_handles s') i = None \<and> cl_pending s' = cl_pending s \<and> cl_listening s' \<and>
    cl_calls (cl_event_run cd hash (arrival hb pb) s') = cl_calls s'"
proof -
  have free: "map_of (cl_handles s) (ucast (generate_smsg_id hash agent m)) = None" using assms(2,3) by simp
  have frame: "search_frame cd hash wide q agent m s = F" using assms(3,8) by (simp add: search_frame_def)
  let ?s1 = "cl_event_run cd hash (ask wide q agent m k) s"
  obtain s2 where s2: "cl_events cd hash (write_events (length (cl_pending s)) parts) ?s1 = s2" by blast
  have run: "s2 = s\<lparr>cl_wire := cl_wire s @ concat parts, cl_handles := (ucast (generate_smsg_id hash agent m),
      mh_new (if wide then ''search-wide'' else ''search-local'') k m agent) # cl_handles s\<rparr>"
    using asked_run [OF free, of parts cd wide q k] s2 assms(9) frame by simp
  have h: "cl_listening s2" "map_of (cl_handles s2) i = Some (mh_new (if wide then ''search-wide'' else ''search-local'') k m agent)"
    using assms(1,3) by (simp_all add: run)
  have "cl_events cd hash (write_events (length (cl_pending s)) parts @ [arrival hb pb]) ?s1 = cl_event_run cd hash (arrival hb pb) s2"
    using s2 by (simp add: cl_events_def)
  moreover have "?s1 = s\<lparr>cl_pending := cl_pending s @ [asking cd hash wide q agent m k s]\<rparr>" by (rule ask_run)
  ultimately show ?thesis
    using answers_run(1) [OF assms(4-7) h] answers_run(2) [OF assms(4-7) h assms(4,6,7)] assms(1,3) frame
    by (intro exI [of _ ?s1] exI [of _ "cl_event_run cd hash (arrival hb pb) s2"] exI [of _ "asking cd hash wide q agent m k s"])
       (simp add: run)
qed

text \<open>
  The handle of a request is saved when its write has ended: an answer that comes before that, while all bytes may have
  left, is given to nobody, and the continuation is not called for it.
\<close>

lemma early_answer_is_lost:
  assumes "cl_listening s" "map_of (cl_handles s) i = None" "i = ucast (generate_smsg_id hash agent m)"
    and "fits hb pb" "parse_header cd hb = Some header" "ucast (ld_id header) = i"
    and "length (concat parts) \<le> length (search_frame cd hash wide q agent m s)"
  shows "cl_calls (cl_events cd hash (ask wide q agent m k # map (CLeave (length (cl_pending s))) parts @ [arrival hb pb]) s) = cl_calls s"
proof -
  let ?p = "asking cd hash wide q agent m k s"
  let ?t = "s\<lparr>cl_pending := cl_pending s @ [?p]\<rparr>"
  have "fold (cl_event_run cd hash) (map (CLeave (length (cl_pending s))) parts) ?t =
      ?t\<lparr>cl_wire := cl_wire s @ concat parts, cl_pending := cl_pending s @ [?p\<lparr>pn_sent := concat parts\<rparr>]\<rparr>" (is "_ = ?u")
    using leaves_run [of ?t "cl_pending s" ?p parts cd hash] assms(7) by simp
  moreover have "cl_event_run cd hash (arrival hb pb) ?u = ?u\<lparr>cl_handles := omap_erase i (cl_handles ?u)\<rparr>"
    using stray_run [OF assms(4,5), of ?u hash] assms(1,2,6) by simp
  ultimately show ?thesis by (simp only: cl_events_def fold_simps ask_run fold_append comp_apply) simp
qed

text \<open>
  Two requests of an agent whose message identifiers differ in the top bit have one identifier on the wire: the
  second is not entered in the table, and of the two answers the first goes to the first request and the second to
  nobody.
\<close>

lemma colliding_search_unanswered:
  assumes "cl_listening s" "map_of (cl_handles s) i = None" "i = ucast (generate_smsg_id hash agent m)"
    and "fits hb pb" "pb \<noteq> []" "parse_header cd hb = Some header" "ucast (ld_id header) = i"
    and "fits hb2 pb2" "parse_header cd hb2 = Some header2" "ucast (ld_id header2) = i"
    and "length (concat parts) = length (search_frame cd hash wide q agent m s)"
    and "length (concat parts2) = length (search_frame cd hash wide2 q2 agent (m XOR 0x80000000) s)"
  shows "cl_calls (cl_events cd hash
      ((ask wide q agent m k # write_events (length (cl_pending s)) parts) @
       (ask wide2 q2 agent (m XOR 0x80000000) k2 # write_events (length (cl_pending s)) parts2) @
       [arrival hb pb, arrival hb2 pb2]) s) = cl_calls s @ [answered cd header wide pb k]"
proof -
  have free: "map_of (cl_handles s) (ucast (generate_smsg_id hash agent m)) = None" using assms(2,3) by simp
  obtain s1 where s1: "cl_events cd hash (ask wide q agent m k # write_events (length (cl_pending s)) parts) s = s1" by blast
  note run1 = asked_run [OF free assms(11), of k, unfolded s1]
  have taken: "map_of (cl_handles s1) (ucast (generate_smsg_id hash agent (m XOR 0x80000000))) \<noteq> None"
    by (simp add: run1 colliding_id)
  have same: "cl_pending s1 = cl_pending s" "search_frame cd hash wide2 q2 agent (m XOR 0x80000000) s1 =
      search_frame cd hash wide2 q2 agent (m XOR 0x80000000) s" by (simp_all add: run1 search_frame_def)
  obtain s2 where s2: "cl_events cd hash (ask wide2 q2 agent (m XOR 0x80000000) k2 # write_events (length (cl_pending s1)) parts2) s1 = s2"
    by blast
  note run2 = asked_again_run [OF taken, of parts2 cd wide2 q2 k2, unfolded same(2) s2, OF assms(12)]
  have h: "cl_listening s2" "map_of (cl_handles s2) i = Some (mh_new (if wide then ''search-wide'' else ''search-local'') k m agent)"
    "cl_calls s2 = cl_calls s"
    using assms(1,3) by (simp_all add: run1 run2)
  have "cl_events cd hash ((ask wide q agent m k # write_events (length (cl_pending s)) parts) @
       (ask wide2 q2 agent (m XOR 0x80000000) k2 # write_events (length (cl_pending s)) parts2) @ [arrival hb pb, arrival hb2 pb2]) s =
      cl_events cd hash [arrival hb pb, arrival hb2 pb2] s2"
    using s1 s2 same(1) by (simp only: cl_events_def fold_append comp_apply)
  then show ?thesis using answers_run(2) [OF assms(4-7) h(1,2) assms(8-10)] h(3) by simp
qed

text \<open>
  After one read that fails, or one message whose header protobuf does not take, the client never listens again:
  whatever is requested, written and sent to it afterwards, no continuation is called any more, but for the
  writes that fail.
\<close>

lemma client_goes_deaf:
  assumes "cl_listening s" "deafening cd e"
  shows "\<not> cl_listening (cl_events cd hash (e # es) s) \<and>
    (\<exists>cs. cl_calls (cl_events cd hash (e # es) s) = cl_calls s @ cs \<and> only_failures cs)"
proof -
  have "cl_event_run cd hash e s = s\<lparr>cl_listening := False\<rparr>"
    using assms by (auto simp: deafening_def cl_event_run.simps cl_received_def pthen_apply[of "pmodify f" for f] Let_def
        split: cl_event.splits prod.splits)
  then show ?thesis using deaf_events[of "s\<lparr>cl_listening := False\<rparr>" cd hash es] by simp
qed

subsection \<open>A codec and its runs\<close>

text \<open>A codec whose headers are their identifier and whose payloads are numbers of agents.\<close>

definition small_codec :: codec where
  "small_codec = \<lparr>ser_header = (\<lambda>h. [ucast (ld_id h)]), ser_request = (\<lambda>_. [7]),
     parse_header = (\<lambda>bs. case bs of [b] \<Rightarrow> Some \<lparr>ld_uri = [], ld_id = ucast b, ld_success = True, ld_error_code = 0, ld_narrative = []\<rparr> | _ \<Rightarrow> None),
     parse_search = (\<lambda>_. [])\<rparr>"

definition small_header :: leader where
  "small_header = \<lparr>ld_uri = [], ld_id = 10, ld_success = True, ld_error_code = 0, ld_narrative = []\<rparr>"

definition small_query :: query where
  "small_query = \<lparr>qm_constraints = [], qm_model = None\<rparr>"

definition small_client :: "nat client" where
  "small_client = cl_new ''core'' ''ip'' 1"

lemma small_client_simps:
  "cl_listening small_client" "cl_handles small_client = []" "length (cl_pending small_client) = 0" "cl_calls small_client = []"
  "cl_wire small_client = []"
  by (simp_all add: small_client_def cl_new_def)

lemma small_free: "map_of (cl_handles small_client) 10 = None"
  by (simp add: small_client_simps)

lemma small_id: "10 = ucast (generate_smsg_id (\<lambda>_. 0) ''a'' 5)"
  by (simp add: generate_smsg_id_def push_bit_eq_mult)

lemma small_arrival: "fits [10] [1]" "[1 :: byte] \<noteq> []" "parse_header small_codec [10] = Some small_header" "ucast (ld_id small_header) = (10 :: u32)"
  by (simp_all add: fits_def small_codec_def small_header_def)

lemma small_answered:
  "answered small_codec small_header wide [1] k = (k, Ok, if wide then WideAgents [] else LocalAgents [])"
  by (simp add: answered_def small_header_def reply_def small_codec_def)

lemma small_frame:
  "pframe (ser_header small_codec (generate_header ''search'' 10)) (ser_request small_codec r) = [0, 0, 0, 1, 0, 0, 0, 1, 10, 7]"
proof -
  have "be_bytes 1 = [0, 0, 0, 1]" by code_simp
  then show ?thesis by (simp add: pframe_def small_codec_def generate_header_def)
qed

lemma small_search_frame: "length (search_frame small_codec (\<lambda>_. 0) wide q ''a'' 5 s) = 10"
  "length (search_frame small_codec (\<lambda>_. 0) wide q ''a'' (5 XOR 0x80000000) s) = 10"
  using small_id by (simp_all only: search_frame_def colliding_id small_frame [symmetric] flip: small_id) (simp_all add: small_frame)

lemma search_answered_witness:
  "\<exists>s'. cl_events small_codec (\<lambda>_. 0)
       (ask True small_query ''a'' 5 1 # write_events 0 [[0, 0, 0, 1], [0, 0, 0, 1, 10, 7]] @ [arrival [10] [1]]) small_client = s' \<and>
    cl_wire s' = [0, 0, 0, 1, 0, 0, 0, 1, 10, 7] \<and> cl_calls s' = [(1, Ok, WideAgents [])]"
  using search_answered [OF small_client_simps(1) small_free small_id small_arrival small_frame [symmetric], where
      parts = "[[0, 0, 0, 1], [0, 0, 0, 1, 10, 7]]" and wide = True and q = small_query and k = 1]
  unfolding small_client_simps(3-5) small_answered by (auto simp: cl_events_def)

lemma colliding_search_unanswered_witness:
  "cl_calls (cl_events small_codec (\<lambda>_. 0)
      ((ask False small_query ''a'' 5 1 # write_events 0 [replicate 10 0]) @
       (ask False small_query ''a'' (5 XOR 0x80000000) 2 # write_events 0 [replicate 10 0]) @
       [arrival [10] [1], arrival [10] [1]]) small_client) = [(1, Ok, LocalAgents [])]"
  using colliding_search_unanswered [OF small_client_simps(1) small_free small_id small_arrival small_arrival(1,3,4), where
      parts = "[replicate 10 0]" and ?parts2.0 = "[replicate 10 0]" and wide = False and ?wide2.0 = False and q = small_query and
      ?q2.0 = small_query and k = 1 and ?k2.0 = 2]
  unfolding small_client_simps(3,4) small_answered using small_search_frame [of False small_query small_client]
  by (simp del: cl_events_simps)

end
