(* ===== verification/CoreServer.thy ===== *)
theory CoreServer
  imports SearchClient Session
begin

text \<open>
  The earlier core's server: the directory of agents (\<^verbatim>\<open>oef-core-functions/src/cpp/lib/agent_directory.hpp\<close>), the
  sessions (\<^verbatim>\<open>agent_session.cpp\<close>), the handshake (\<^verbatim>\<open>core_server.cpp\<close>) and the sockets they use
  (\<^verbatim>\<open>asio_communicator.cpp\<close>, \<^verbatim>\<open>asio_acceptor.cpp\<close>), composed with the client of the search service. A handler of a
  completion is one step. The parsers and serialisers of protobuf are parameters.
\<close>

subsection \<open>Messages\<close>

text \<open>A request, with its description as a data model and the values of an instance; integers are their 32 bits.\<close>

datatype core_request =
    QSendMessage agent_message
  | QRegisterService datamodel "(string \<times> pvalue) list"
  | QUnregisterService datamodel "(string \<times> pvalue) list"
  | QRegisterDescription datamodel "(string \<times> pvalue) list"
  | QUnregisterDescription
  | QSearchAgents query
  | QSearchServices query
  | QSearchServicesWide query
  | QPong
  | QNotSet

record core_envelope =
  qe_msg_id :: u32
  qe_agent_uri :: string
  qe_request :: core_request

datatype core_reply =
    RPhrase string
  | RFailure
  | RConnected bool
  | RContent u32 string string u32 string dialogue_payload
  | RDialogueError u32 u32 string
  | RError u32 operation
  | RAgents u32 "string list"
  | RAgentsWide u32 "sr_item list"

text \<open>\<open>kc_insert\<close> places a new value in the iteration order of an instance.\<close>

record core_codec =
  kc_reply :: "core_reply \<Rightarrow> byte list"
  kc_id :: "byte list \<Rightarrow> string"
  kc_envelope :: "byte list \<Rightarrow> core_envelope"
  kc_search :: codec
  kc_hash :: "string \<Rightarrow> u64"
  kc_insert :: "string \<times> vtype \<Rightarrow> (string \<times> vtype) list \<Rightarrow> (string \<times> vtype) list"

subsection \<open>State\<close>

text \<open>Who waits for a message, and how far its reading is: a size first, then so many bytes.\<close>

datatype reader = AwaitId | AwaitAnswer string | AwaitRequest nat

datatype reading = NotReading | ReadSize reader | ReadData nat reader

text \<open>What the completion of a write does: nothing, or the dialogue error of a message passed on by a session.\<close>

datatype written = NoReport | ReportDialogue nat u32 u32 string

text \<open>
  A write that has been started: the bytes that its buffers held then, those that have left so far, and what its completion
  does. The size lies in a local variable that is gone when the function returns, and nothing keeps the data alive: what
  leaves is what the memory holds then. Writes of one connection may overlap. \<open>cm_wire\<close> are the bytes that have left.
\<close>

record comm_write =
  cw_frame :: "byte list"
  cw_sent :: "byte list"
  cw_report :: written

record comm =
  cm_reading :: reading
  cm_wire :: "byte list"
  cm_writes :: "comm_write list"

text \<open>A session has the number of its connection.\<close>

record core_session =
  cs_key :: string
  cs_description :: "instance_of option"

text \<open>The continuations given to the client of the search: which session asked, and the identifier of the request.\<close>

datatype search_cont =
    OnRegisterDescription nat u32
  | OnUnregisterDescription nat u32
  | OnRegisterService nat u32
  | OnUnregisterService nat u32
  | OnSearchAgents nat u32
  | OnSearchService nat u32
  | OnSearchWide nat u32

text \<open>\<open>co_next\<close> numbers the connections, \<open>co_accepts\<close> counts the outstanding accepts, \<open>co_threads\<close> says which threads run.\<close>

record core =
  co_next :: nat
  co_comms :: "nat \<Rightarrow> comm"
  co_sessions :: "nat \<Rightarrow> core_session"
  co_directory :: "(string \<times> nat) list"
  co_search :: "search_cont client"
  co_accepts :: nat
  co_threads :: "bool list"
  co_stopped :: bool

definition core_new :: "string \<Rightarrow> string \<Rightarrow> u32 \<Rightarrow> nat \<Rightarrow> core" where
  "core_new core_key ip port nbThreads = \<lparr>co_next = 0, co_comms = (\<lambda>_. \<lparr>cm_reading = NotReading, cm_wire = [], cm_writes = []\<rparr>),
     co_sessions = (\<lambda>_. \<lparr>cs_key = [], cs_description = None\<rparr>), co_directory = [], co_search = cl_new core_key ip port,
     co_accepts = 0, co_threads = replicate nbThreads False, co_stopped = False\<rparr>"

subsection \<open>\<^verbatim>\<open>AgentDirectory\<close>\<close>

definition ad_exist :: "string \<Rightarrow> (core, bool) prog" where
  "ad_exist key = pget (\<lambda>w. map_of (co_directory w) key \<noteq> None)"

definition ad_add :: "string \<Rightarrow> nat \<Rightarrow> (core, bool) prog" where
  "ad_add key s = pbind (ad_exist key) (\<lambda>there.
     if there then pret False
     else pthen (pmodify (\<lambda>w. w\<lparr>co_directory := (key, s) # co_directory w\<rparr>)) (pret True))"

definition ad_remove :: "string \<Rightarrow> (core, bool) prog" where
  "ad_remove key = pbind (pget (\<lambda>w. map_of (co_directory w) key \<noteq> None)) (\<lambda>there.
     pthen (pmodify (\<lambda>w. w\<lparr>co_directory := omap_erase key (co_directory w)\<rparr>)) (pret there))"

definition ad_session :: "string \<Rightarrow> (core, nat option) prog" where
  "ad_session key = pget (\<lambda>w. map_of (co_directory w) key)"

definition ad_size :: "core \<Rightarrow> nat" where
  "ad_size w = length (co_directory w)"

definition ad_clear :: "(core, unit) prog" where
  "ad_clear = pmodify (\<lambda>w. w\<lparr>co_directory := []\<rparr>)"

subsection \<open>\<^verbatim>\<open>AsioComm\<close>\<close>

definition ac_set :: "nat \<Rightarrow> (comm \<Rightarrow> comm) \<Rightarrow> (core, unit) prog" where
  "ac_set c f = pmodify (\<lambda>w. w\<lparr>co_comms := (co_comms w)(c := f (co_comms w c))\<rparr>)"

text \<open>A size of 32 bits in the order of the machine, least byte first, and so many bytes.\<close>

definition ac_frame :: "byte list \<Rightarrow> byte list" where
  "ac_frame b = (let len = of_nat (length b) :: u32 in rev (be_bytes len) @ take (unat len) b)"

lemma ac_frame_short: "length b < 2 ^ 32 \<Longrightarrow> ac_frame b = rev (be_bytes (of_nat (length b))) @ b"
  by (simp add: ac_frame_def Let_def unat_of_nat take_bit_nat_eq_self_iff)

definition ac_send :: "nat \<Rightarrow> byte list \<Rightarrow> written \<Rightarrow> (core, unit) prog" where
  "ac_send c b k = ac_set c (\<lambda>m. m\<lparr>cm_writes := cm_writes m @ [\<lparr>cw_frame = ac_frame b, cw_sent = [], cw_report = k\<rparr>]\<rparr>)"

text \<open>More bytes of a started write leave.\<close>

definition ac_leave :: "nat \<Rightarrow> nat \<Rightarrow> byte list \<Rightarrow> (core, unit) prog" where
  "ac_leave c n bs = ac_set c (\<lambda>m. m\<lparr>cm_wire := cm_wire m @ bs,
     cm_writes := (cm_writes m)[n := (cm_writes m ! n)\<lparr>cw_sent := cw_sent (cm_writes m ! n) @ bs\<rparr>]\<rparr>)"

definition ac_receive :: "nat \<Rightarrow> reader \<Rightarrow> (core, unit) prog" where
  "ac_receive c r = ac_set c (\<lambda>m. m\<lparr>cm_reading := ReadSize r\<rparr>)"

subsection \<open>\<^verbatim>\<open>AgentSession\<close>\<close>

definition cs_send :: "core_codec \<Rightarrow> nat \<Rightarrow> core_reply \<Rightarrow> (core, unit) prog" where
  "cs_send kc s m = ac_send s (kc_reply kc m) NoReport"

definition cs_send_continued :: "core_codec \<Rightarrow> nat \<Rightarrow> core_reply \<Rightarrow> written \<Rightarrow> (core, unit) prog" where
  "cs_send_continued kc s m k = ac_send s (kc_reply kc m) k"

definition cs_send_error :: "core_codec \<Rightarrow> nat \<Rightarrow> u32 \<Rightarrow> operation \<Rightarrow> (core, unit) prog" where
  "cs_send_error kc s msg_id op = cs_send kc s (RError msg_id op)"

definition cs_send_dialog_error :: "core_codec \<Rightarrow> nat \<Rightarrow> u32 \<Rightarrow> u32 \<Rightarrow> string \<Rightarrow> (core, unit) prog" where
  "cs_send_dialog_error kc s msg_id did origin = cs_send kc s (RDialogueError msg_id did origin)"

definition cs_set_description :: "nat \<Rightarrow> instance_of option \<Rightarrow> (core, unit) prog" where
  "cs_set_description s d = pmodify (\<lambda>w. w\<lparr>co_sessions := (co_sessions w)(s := (co_sessions w s)\<lparr>cs_description := d\<rparr>)\<rparr>)"

definition cs_match :: "arithmetic \<Rightarrow> query \<Rightarrow> nat \<Rightarrow> core \<Rightarrow> bool" where
  "cs_match fp q s w = (case cs_description (co_sessions w s) of None \<Rightarrow> False | Some d \<Rightarrow> qm_check fp q d)"

text \<open>A call of the client of the search.\<close>

definition with_search :: "(search_cont client, unit) prog \<Rightarrow> (core, unit) prog" where
  "with_search p = (\<lambda>w. case p (co_search w) of (r, s) \<Rightarrow> (r, w\<lparr>co_search := s\<rparr>))"

definition cs_register_description :: "core_codec \<Rightarrow> nat \<Rightarrow> u32 \<Rightarrow> datamodel \<Rightarrow> (string \<times> pvalue) list \<Rightarrow> (core, unit) prog" where
  "cs_register_description kc s msg_id m vs =
     (let d = in_parse (kc_insert kc) m vs
      in pthen (cs_set_description s (Some d))
        (pbind (pget (\<lambda>w. cs_key (co_sessions w s))) (\<lambda>key.
           with_search (register_description (kc_search kc) (kc_hash kc) d key msg_id (OnRegisterDescription s msg_id)))))"

definition cs_unregister_description :: "core_codec \<Rightarrow> nat \<Rightarrow> u32 \<Rightarrow> (core, unit) prog" where
  "cs_unregister_description kc s msg_id = pbind (pget (\<lambda>w. co_sessions w s)) (\<lambda>ses.
     case cs_description ses of
       None \<Rightarrow> pret ()
     | Some d \<Rightarrow> with_search (unregister_description (kc_search kc) (kc_hash kc) d (cs_key ses) msg_id (OnUnregisterDescription s msg_id)))"

text \<open>The agent part of an address, with the key of the session in place of the one it names.\<close>

definition own_uri :: "string \<Rightarrow> string \<Rightarrow> exn + string" where
  "own_uri agent_uri key = ebind (oef_parse agent_uri oef_uri_new) (\<lambda>u. Inr (oef_agentPartAsString (u\<lparr>ou_agentKey := key\<rparr>)))"

definition cs_register_service :: "core_codec \<Rightarrow> nat \<Rightarrow> u32 \<Rightarrow> datamodel \<Rightarrow> (string \<times> pvalue) list \<Rightarrow> string \<Rightarrow> (core, unit) prog" where
  "cs_register_service kc s msg_id m vs agent_uri =
     pbind (pget (\<lambda>w. cs_key (co_sessions w s))) (\<lambda>key. pbind (plift (own_uri agent_uri key)) (\<lambda>a.
       with_search (register_service (kc_search kc) (kc_hash kc) (in_parse (kc_insert kc) m vs) a msg_id (OnRegisterService s msg_id))))"

definition cs_unregister_service :: "core_codec \<Rightarrow> nat \<Rightarrow> u32 \<Rightarrow> datamodel \<Rightarrow> (string \<times> pvalue) list \<Rightarrow> string \<Rightarrow> (core, unit) prog" where
  "cs_unregister_service kc s msg_id m vs agent_uri =
     pbind (pget (\<lambda>w. cs_key (co_sessions w s))) (\<lambda>key. pbind (plift (own_uri agent_uri key)) (\<lambda>a.
       with_search (unregister_service (kc_search kc) (kc_hash kc) (in_parse (kc_insert kc) m vs) a msg_id (OnUnregisterService s msg_id))))"

definition cs_search_agents :: "core_codec \<Rightarrow> nat \<Rightarrow> u32 \<Rightarrow> query \<Rightarrow> (core, unit) prog" where
  "cs_search_agents kc s msg_id q = pbind (pget (\<lambda>w. cs_key (co_sessions w s))) (\<lambda>key.
     with_search (search_agents (kc_search kc) (kc_hash kc) q key msg_id (OnSearchAgents s msg_id)))"

definition cs_search_service :: "core_codec \<Rightarrow> nat \<Rightarrow> u32 \<Rightarrow> query \<Rightarrow> (core, unit) prog" where
  "cs_search_service kc s msg_id q = pbind (pget (\<lambda>w. cs_key (co_sessions w s))) (\<lambda>key.
     with_search (search_service (kc_search kc) (kc_hash kc) q key msg_id (OnSearchService s msg_id)))"

definition cs_search_service_wide :: "core_codec \<Rightarrow> nat \<Rightarrow> u32 \<Rightarrow> query \<Rightarrow> (core, unit) prog" where
  "cs_search_service_wide kc s msg_id q = pbind (pget (\<lambda>w. cs_key (co_sessions w s))) (\<lambda>key.
     with_search (search_service_wide (kc_search kc) (kc_hash kc) q key msg_id (OnSearchWide s msg_id)))"

definition cs_message :: "core_codec \<Rightarrow> nat \<Rightarrow> u32 \<Rightarrow> agent_message \<Rightarrow> (core, unit) prog" where
  "cs_message kc s msg_id msg = pbind (plift (oef_parseAgent (am_destination msg) oef_uri_new)) (\<lambda>u.
     pbind (ad_session (ou_agentKey u)) (\<lambda>session. pbind (pget (\<lambda>w. cs_key (co_sessions w s))) (\<lambda>key.
     let did = word_of_int (am_dialogue_id msg)
     in case session of
          Some d \<Rightarrow>
            cs_send_continued kc d
              (RContent msg_id (am_source_uri msg) (if am_target_uri msg = [] then oef_toString u else am_target_uri msg)
                 did key (am_payload msg))
              (ReportDialogue s msg_id did (am_destination msg))
        | None \<Rightarrow> cs_send_dialog_error kc s msg_id did (am_destination msg))))"

definition cs_process :: "core_codec \<Rightarrow> nat \<Rightarrow> byte list \<Rightarrow> (core, unit) prog" where
  "cs_process kc s b =
     (let e = kc_envelope kc b; msg_id = qe_msg_id e
      in case qe_request e of
           QSendMessage m \<Rightarrow> cs_message kc s msg_id m
         | QRegisterService m vs \<Rightarrow> cs_register_service kc s msg_id m vs (qe_agent_uri e)
         | QUnregisterService m vs \<Rightarrow> cs_unregister_service kc s msg_id m vs (qe_agent_uri e)
         | QRegisterDescription m vs \<Rightarrow> cs_register_description kc s msg_id m vs
         | QUnregisterDescription \<Rightarrow> cs_unregister_description kc s msg_id
         | QSearchAgents q \<Rightarrow> cs_search_agents kc s msg_id q
         | QSearchServices q \<Rightarrow> cs_search_service kc s msg_id q
         | QSearchServicesWide q \<Rightarrow> cs_search_service_wide kc s msg_id q
         | QPong \<Rightarrow> pret ()
         | QNotSet \<Rightarrow> pret ())"

definition cs_read :: "nat \<Rightarrow> (core, unit) prog" where
  "cs_read s = ac_receive s (AwaitRequest s)"

definition cs_on_read :: "core_codec \<Rightarrow> nat \<Rightarrow> error_code \<Rightarrow> byte list \<Rightarrow> (core, unit) prog" where
  "cs_on_read kc s ec b =
     (if ec \<noteq> Ok then pbind (pget (\<lambda>w. cs_key (co_sessions w s))) (\<lambda>key. pthen (ad_remove key) (pret ()))
      else pthen (cs_process kc s b) (cs_read s))"

subsection \<open>Answers of the search\<close>

fun agent_parts :: "string list \<Rightarrow> exn + string list" where
  "agent_parts [] = Inr []"
| "agent_parts (a # as) = ebind (oef_parseAgent a oef_uri_new) (\<lambda>u. ebind (agent_parts as) (\<lambda>ps. Inr (oef_agentPartAsString u # ps)))"

definition reply_agents :: "search_reply \<Rightarrow> string list" where
  "reply_agents r = (case r of LocalAgents as \<Rightarrow> as | _ \<Rightarrow> [])"

definition reply_wide :: "search_reply \<Rightarrow> sr_item list" where
  "reply_wide r = (case r of WideAgents is \<Rightarrow> is | _ \<Rightarrow> [])"

definition on_register_description :: "core_codec \<Rightarrow> nat \<Rightarrow> u32 \<Rightarrow> error_code \<Rightarrow> search_reply \<Rightarrow> (core, unit) prog" where
  "on_register_description kc s m ec r = (if ec \<noteq> Ok then cs_send_error kc s m REGISTER_DESCRIPTION else pret ())"

definition on_unregister_description :: "core_codec \<Rightarrow> nat \<Rightarrow> u32 \<Rightarrow> error_code \<Rightarrow> search_reply \<Rightarrow> (core, unit) prog" where
  "on_unregister_description kc s m ec r =
     (if ec \<noteq> Ok then cs_send_error kc s m UNREGISTER_DESCRIPTION else cs_set_description s None)"

definition on_register_service :: "core_codec \<Rightarrow> nat \<Rightarrow> u32 \<Rightarrow> error_code \<Rightarrow> search_reply \<Rightarrow> (core, unit) prog" where
  "on_register_service kc s m ec r = (if ec \<noteq> Ok then cs_send_error kc s m REGISTER_SERVICE else pret ())"

definition on_unregister_service :: "core_codec \<Rightarrow> nat \<Rightarrow> u32 \<Rightarrow> error_code \<Rightarrow> search_reply \<Rightarrow> (core, unit) prog" where
  "on_unregister_service kc s m ec r = (if ec \<noteq> Ok then cs_send_error kc s m UNREGISTER_SERVICE else pret ())"

definition on_search_agents :: "core_codec \<Rightarrow> nat \<Rightarrow> u32 \<Rightarrow> error_code \<Rightarrow> search_reply \<Rightarrow> (core, unit) prog" where
  "on_search_agents kc s m ec r = (if ec \<noteq> Ok then cs_send_error kc s m REGISTER_SERVICE
     else pbind (plift (agent_parts (reply_agents r))) (\<lambda>ps. cs_send kc s (RAgents m ps)))"

definition on_search_service :: "core_codec \<Rightarrow> nat \<Rightarrow> u32 \<Rightarrow> error_code \<Rightarrow> search_reply \<Rightarrow> (core, unit) prog" where
  "on_search_service kc s m ec r = (if ec \<noteq> Ok then cs_send_error kc s m REGISTER_SERVICE
     else pbind (plift (agent_parts (reply_agents r))) (\<lambda>ps. cs_send kc s (RAgents m ps)))"

definition on_search_wide :: "core_codec \<Rightarrow> nat \<Rightarrow> u32 \<Rightarrow> error_code \<Rightarrow> search_reply \<Rightarrow> (core, unit) prog" where
  "on_search_wide kc s m ec r = (if ec \<noteq> Ok then cs_send_error kc s m REGISTER_SERVICE
     else cs_send kc s (RAgentsWide m (reply_wide r)))"

lemmas on_replies = on_register_description_def on_unregister_description_def on_register_service_def
  on_unregister_service_def on_search_agents_def on_search_service_def on_search_wide_def

fun cs_continue :: "core_codec \<Rightarrow> search_cont \<Rightarrow> error_code \<Rightarrow> search_reply \<Rightarrow> (core, unit) prog" where
  "cs_continue kc (OnRegisterDescription s m) = on_register_description kc s m"
| "cs_continue kc (OnUnregisterDescription s m) = on_unregister_description kc s m"
| "cs_continue kc (OnRegisterService s m) = on_register_service kc s m"
| "cs_continue kc (OnUnregisterService s m) = on_unregister_service kc s m"
| "cs_continue kc (OnSearchAgents s m) = on_search_agents kc s m"
| "cs_continue kc (OnSearchService s m) = on_search_service kc s m"
| "cs_continue kc (OnSearchWide s m) = on_search_wide kc s m"

fun run_calls :: "core_codec \<Rightarrow> (search_cont \<times> error_code \<times> search_reply) list \<Rightarrow> (core, unit) prog" where
  "run_calls kc [] = pret ()"
| "run_calls kc ((k, ec, r) # cs) = pthen (cs_continue kc k ec r) (run_calls kc cs)"

text \<open>A completion of the client of the search, and the continuations it calls.\<close>

definition search_completes :: "core_codec \<Rightarrow> (search_cont client, unit) prog \<Rightarrow> (core, unit) prog" where
  "search_completes kc p = pbind (pget (\<lambda>w. length (cl_calls (co_search w)))) (\<lambda>n.
     pthen (with_search p) (pbind (pget (\<lambda>w. drop n (cl_calls (co_search w)))) (run_calls kc)))"

subsection \<open>\<^verbatim>\<open>CoreServer\<close>\<close>

definition srv_newSession :: "nat \<Rightarrow> (core, unit) prog" where
  "srv_newSession c = ac_receive c AwaitId"

definition srv_secretHandshake :: "core_codec \<Rightarrow> string \<Rightarrow> nat \<Rightarrow> (core, unit) prog" where
  "srv_secretHandshake kc key c =
     pthen (ac_send c (kc_reply kc (RPhrase ''RandomlyGeneratedString'')) NoReport) (ac_receive c (AwaitAnswer key))"

definition srv_on_id :: "core_codec \<Rightarrow> nat \<Rightarrow> error_code \<Rightarrow> byte list \<Rightarrow> (core, unit) prog" where
  "srv_on_id kc c ec b =
     (if ec \<noteq> Ok then pret ()
      else pcatch
        (let key = kc_id kc b
         in pbind (ad_exist key) (\<lambda>there.
              if \<not> there then srv_secretHandshake kc key c else ac_send c (kc_reply kc RFailure) NoReport))
        (\<lambda>_. ac_send c (kc_reply kc RFailure) NoReport))"

definition cs_new :: "nat \<Rightarrow> string \<Rightarrow> (core, unit) prog" where
  "cs_new c key = pmodify (\<lambda>w. w\<lparr>co_sessions := (co_sessions w)(c := \<lparr>cs_key = key, cs_description = None\<rparr>)\<rparr>)"

text \<open>Whatever the answer says, it is not compared with anything.\<close>

definition srv_on_answer :: "core_codec \<Rightarrow> string \<Rightarrow> nat \<Rightarrow> error_code \<Rightarrow> byte list \<Rightarrow> (core, unit) prog" where
  "srv_on_answer kc key c ec b =
     (if ec \<noteq> Ok then pret ()
      else pcatch
        (pthen (cs_new c key) (pbind (ad_add key c) (\<lambda>added.
           if added then pthen (cs_read c) (cs_send kc c (RConnected True))
           else cs_send kc c (RConnected False))))
        (\<lambda>_. ac_send c (kc_reply kc (RConnected False)) NoReport))"

definition srv_do_accept :: "(core, unit) prog" where
  "srv_do_accept = pmodify (\<lambda>w. w\<lparr>co_accepts := co_accepts w + 1\<rparr>)"

text \<open>An accept that fails calls nothing, so that its chain of accepts ends.\<close>

definition srv_accepted :: "error_code \<Rightarrow> (core, unit) prog" where
  "srv_accepted ec = pthen (pmodify (\<lambda>w. w\<lparr>co_accepts := co_accepts w - 1\<rparr>))
     (if ec \<noteq> Ok then pret ()
      else pbind (pget co_next) (\<lambda>c. pthen (pmodify (\<lambda>w. w\<lparr>co_next := co_next w + 1\<rparr>))
             (pthen (srv_newSession c) srv_do_accept)))"

fun start_threads :: "bool list \<Rightarrow> (core, unit) prog" where
  "start_threads [] = pret ()"
| "start_threads (t # ts) = pthen (if t then pret () else srv_do_accept) (start_threads ts)"

definition srv_run :: "(core, unit) prog" where
  "srv_run = pthen (pbind (pget co_threads) start_threads) (pmodify (\<lambda>w. w\<lparr>co_threads := map (\<lambda>_. True) (co_threads w)\<rparr>))"

definition srv_run_in_thread :: "(core, unit) prog" where
  "srv_run_in_thread = srv_do_accept"

definition srv_nb_agents :: "core \<Rightarrow> nat" where
  "srv_nb_agents w = ad_size w"

definition srv_stop :: "(core, unit) prog" where
  "srv_stop = pmodify (\<lambda>w. w\<lparr>co_stopped := True\<rparr>)"

definition srv_destroy :: "(core, unit) prog" where
  "srv_destroy = pthen srv_stop ad_clear"

subsection \<open>Completions of a connection\<close>

definition read_done :: "core_codec \<Rightarrow> nat \<Rightarrow> reader \<Rightarrow> error_code \<Rightarrow> byte list \<Rightarrow> (core, unit) prog" where
  "read_done kc c r ec b = (case r of
     AwaitId \<Rightarrow> srv_on_id kc c ec b
   | AwaitAnswer key \<Rightarrow> srv_on_answer kc key c ec b
   | AwaitRequest s \<Rightarrow> cs_on_read kc s ec b)"

definition ac_received :: "core_codec \<Rightarrow> nat \<Rightarrow> error_code \<Rightarrow> byte list \<Rightarrow> (core, unit) prog" where
  "ac_received kc c ec b = pbind (pget (\<lambda>w. cm_reading (co_comms w c))) (\<lambda>r.
     pthen (ac_set c (\<lambda>m. m\<lparr>cm_reading := NotReading\<rparr>))
    (case r of
       NotReading \<Rightarrow> pret ()
     | ReadSize k \<Rightarrow>
         if ec \<noteq> Ok then read_done kc c k ec []
         else ac_set c (\<lambda>m. m\<lparr>cm_reading := ReadData (unat (le_at b)) k\<rparr>)
     | ReadData n k \<Rightarrow> read_done kc c k ec b))"

text \<open>The write at place \<open>n\<close> of the started ones completes. On an error its continuation is not called.\<close>

definition ac_written :: "core_codec \<Rightarrow> nat \<Rightarrow> nat \<Rightarrow> error_code \<Rightarrow> (core, unit) prog" where
  "ac_written kc c n ec = pbind (pget (\<lambda>w. cm_writes (co_comms w c) ! n)) (\<lambda>k.
     pthen (ac_set c (\<lambda>m. m\<lparr>cm_writes := take n (cm_writes m) @ drop (Suc n) (cm_writes m)\<rparr>))
    (if ec \<noteq> Ok then pret ()
     else case cw_report k of
       NoReport \<Rightarrow> pret ()
     | ReportDialogue s msg_id did destination \<Rightarrow>
         if ec \<noteq> Ok then cs_send_dialog_error kc s msg_id did destination else pret ()))"

subsection \<open>Runs\<close>

text \<open>
  A read that succeeds delivers as many bytes as it was started for; bytes of started writes leave, in any order among
  the writes, and a write succeeds only when as many have left as it was started for.
\<close>

datatype core_event =
    Accepted error_code
  | Received nat error_code "byte list"
  | Leaves nat nat "byte list"
  | Written nat nat error_code
  | SearchLeaves nat "byte list"
  | SearchWritten nat error_code
  | SearchReceived error_code "byte list" "nat \<Rightarrow> error_code \<times> byte list"

fun enabled :: "core_event \<Rightarrow> core \<Rightarrow> bool" where
  "enabled (Accepted ec) w = (0 < co_accepts w)"
| "enabled (Received c ec b) w = (case cm_reading (co_comms w c) of
     NotReading \<Rightarrow> False | ReadSize _ \<Rightarrow> ec \<noteq> Ok \<or> length b = 4 | ReadData n _ \<Rightarrow> ec \<noteq> Ok \<or> length b = n)"
| "enabled (Leaves c n bs) w = (let ws = cm_writes (co_comms w c) in n < length ws \<and>
     length (cw_sent (ws ! n)) + length bs \<le> length (cw_frame (ws ! n)))"
| "enabled (Written c n ec) w = (let ws = cm_writes (co_comms w c) in n < length ws \<and>
     (ec = Ok \<longrightarrow> length (cw_sent (ws ! n)) = length (cw_frame (ws ! n))))"
| "enabled (SearchLeaves n bs) w = may_leave n bs (co_search w)"
| "enabled (SearchWritten n ec) w = may_end n ec (co_search w)"
| "enabled (SearchReceived ec sizes body) w = cl_listening (co_search w)"

fun core_step :: "core_codec \<Rightarrow> core_event \<Rightarrow> (core, unit) prog" where
  "core_step kc (Accepted ec) = srv_accepted ec"
| "core_step kc (Received c ec b) = ac_received kc c ec b"
| "core_step kc (Leaves c n bs) = ac_leave c n bs"
| "core_step kc (Written c n ec) = ac_written kc c n ec"
| "core_step kc (SearchLeaves n bs) = with_search (cl_leave n bs)"
| "core_step kc (SearchWritten n ec) = search_completes kc (cl_sent n ec)"
| "core_step kc (SearchReceived ec sizes body) = search_completes kc (cl_received (kc_search kc) ec sizes body)"

text \<open>Events that cannot happen are skipped; an exception that leaves a handler ends the process.\<close>

definition core_event_run :: "core_codec \<Rightarrow> core_event \<Rightarrow> (core, unit) prog" where
  "core_event_run kc e = pbind (pget (enabled e)) (\<lambda>on. if on then core_step kc e else pret ())"

fun core_events :: "core_codec \<Rightarrow> core_event list \<Rightarrow> (core, unit) prog" where
  "core_events kc [] = pret ()"
| "core_events kc (e # es) = pthen (core_event_run kc e) (core_events kc es)"

subsection \<open>What the steps keep\<close>

definition reader_of :: "reading \<Rightarrow> reader option" where
  "reader_of r = (case r of NotReading \<Rightarrow> None | ReadSize k \<Rightarrow> Some k | ReadData _ k \<Rightarrow> Some k)"

text \<open>A connection serves its session while it waits for the next request of the agent.\<close>

definition serving :: "core \<Rightarrow> nat \<Rightarrow> bool" where
  "serving w c \<longleftrightarrow> reader_of (cm_reading (co_comms w c)) = Some (AwaitRequest c)"

text \<open>Requests and answers of the search change neither the directory, nor who reads, nor any key.\<close>

definition quiet :: "core \<Rightarrow> core \<Rightarrow> bool" where
  "quiet w w' \<longleftrightarrow> co_directory w' = co_directory w \<and> co_next w' = co_next w \<and>
     (\<forall>c. cm_reading (co_comms w' c) = cm_reading (co_comms w c)) \<and>
     (\<forall>c. cs_key (co_sessions w' c) = cs_key (co_sessions w c))"

lemma quiet_refl [simp]: "quiet w w"
  by (simp add: quiet_def)

lemma quiet_trans: "quiet u v \<Longrightarrow> quiet v w \<Longrightarrow> quiet u w"
  by (simp add: quiet_def)

lemma quiet_ac_send [inv_intros]: "preserves (quiet u) (ac_send c b k)"
  by (simp add: preserves_def quiet_def ac_send_def ac_set_def)

lemma quiet_set_description [inv_intros]: "preserves (quiet u) (cs_set_description s d)"
  by (simp add: preserves_def quiet_def cs_set_description_def)

lemma quiet_with_search [inv_intros]: "preserves (quiet u) (with_search p)"
  by (simp add: preserves_def quiet_def with_search_def split: prod.split)

lemma quiet_writes [inv_intros]: "preserves (quiet u) (ac_set c (\<lambda>m. m\<lparr>cm_writes := f (cm_writes m)\<rparr>))"
  by (simp add: preserves_def quiet_def ac_set_def)

lemma quiet_leave [inv_intros]: "preserves (quiet u) (ac_leave c n bs)"
  by (simp add: preserves_def quiet_def ac_leave_def ac_set_def)

lemmas cs_sends = cs_send_def cs_send_continued_def cs_send_error_def cs_send_dialog_error_def

lemma quiet_process: "preserves (quiet u) (cs_process kc s b)"
  by (auto simp: cs_process_def Let_def cs_message_def ad_session_def cs_sends cs_register_service_def
      cs_unregister_service_def cs_register_description_def cs_unregister_description_def cs_search_agents_def
      cs_search_service_def cs_search_service_wide_def split: core_request.split option.split intro!: inv_intros)

lemma quiet_continue: "preserves (quiet u) (cs_continue kc k ec r)"
  by (cases k) (auto simp: on_replies cs_sends intro!: inv_intros)

lemma quiet_run_calls: "preserves (quiet u) (run_calls kc cs)"
proof (induction cs)
  case Nil
  show ?case unfolding run_calls.simps by (rule preserves_pret)
next
  case (Cons x cs)
  then show ?case by (cases x) (auto intro!: preserves_pthen quiet_continue)
qed

lemma quiet_search_completes: "preserves (quiet u) (search_completes kc p)"
  by (auto simp: search_completes_def intro!: inv_intros quiet_run_calls)

lemma quiet_written: "preserves (quiet u) (ac_written kc c n ec)"
  by (auto simp: ac_written_def cs_sends split: written.split intro!: inv_intros)

subsection \<open>The directory lists exactly the connections that serve\<close>

definition core_inv :: "core \<Rightarrow> bool" where
  "core_inv w \<longleftrightarrow> distinct (map fst (co_directory w)) \<and>
     (\<forall>k c. map_of (co_directory w) k = Some c \<longleftrightarrow> serving w c \<and> cs_key (co_sessions w c) = k) \<and>
     (\<forall>c s. reader_of (cm_reading (co_comms w c)) = Some (AwaitRequest s) \<longrightarrow> s = c) \<and>
     (\<forall>c \<ge> co_next w. cm_reading (co_comms w c) = NotReading)"

lemma core_inv_quiet: "quiet w w' \<Longrightarrow> core_inv w \<Longrightarrow> core_inv w'"
  by (simp add: quiet_def core_inv_def serving_def)

lemma core_inv_new: "core_inv (core_new k ip port n)"
  by (simp add: core_inv_def core_new_def serving_def reader_of_def)

definition halted :: "nat \<Rightarrow> core \<Rightarrow> core" where
  "halted c w = w\<lparr>co_comms := (co_comms w)(c := (co_comms w c)\<lparr>cm_reading := NotReading\<rparr>)\<rparr>"

lemma halted_simps [simp]:
  "co_directory (halted c w) = co_directory w" "co_sessions (halted c w) = co_sessions w" "co_next (halted c w) = co_next w"
  "co_search (halted c w) = co_search w"
  "co_comms (halted c w) = (co_comms w)(c := (co_comms w c)\<lparr>cm_reading := NotReading\<rparr>)"
  by (simp_all add: halted_def)

text \<open>A connection that is not serving may read on as anything but a session.\<close>

lemma core_inv_other:
  assumes "core_inv w" "\<not> serving w c" "c < co_next w" "\<forall>s. reader_of (cm_reading (co_comms w' c)) \<noteq> Some (AwaitRequest s)"
    and "co_directory w' = co_directory w" "co_next w' = co_next w"
    and "\<forall>d. d \<noteq> c \<longrightarrow> co_comms w' d = co_comms w d" "\<forall>d. d \<noteq> c \<longrightarrow> co_sessions w' d = co_sessions w d"
  shows "core_inv w'"
proof -
  have same: "serving w' d \<longleftrightarrow> serving w d \<and> d \<noteq> c" for d
    using assms(2,4,7) by (cases "d = c") (auto simp: serving_def)
  have reg: "map_of (co_directory w) k = Some d \<longleftrightarrow> serving w d \<and> cs_key (co_sessions w d) = k" for k d
    using assms(1) by (simp add: core_inv_def)
  have "map_of (co_directory w') k = Some d \<longleftrightarrow> serving w' d \<and> cs_key (co_sessions w' d) = k" for k d
    using reg[of k d] same[of d] assms(2,5,8) by (cases "d = c") simp_all
  moreover have "reader_of (cm_reading (co_comms w' d)) = Some (AwaitRequest s) \<longrightarrow> s = d" for d s
    using assms(1,4,7) by (cases "d = c") (auto simp: core_inv_def)
  moreover have "co_next w' \<le> d \<longrightarrow> cm_reading (co_comms w' d) = NotReading" for d
    using assms(1,3,6,7) by (cases "d = c") (auto simp: core_inv_def)
  ultimately show ?thesis using assms(1,5) by (simp add: core_inv_def)
qed

lemma reading_known:
  assumes "core_inv w" "reader_of (cm_reading (co_comms w c)) = Some k"
  shows "c < co_next w"
proof (rule ccontr)
  assume "\<not> c < co_next w"
  then have "cm_reading (co_comms w c) = NotReading" using assms(1) by (simp add: core_inv_def)
  then show False using assms(2) by (simp add: reader_of_def)
qed

text \<open>The handlers, each on the connection that has just stopped reading.\<close>

lemma inv_on_id:
  assumes "core_inv w" "reader_of (cm_reading (co_comms w c)) = Some AwaitId"
  shows "core_inv (snd (srv_on_id kc c ec b (halted c w)))"
proof -
  have "\<not> serving w c" "c < co_next w"
    using assms reading_known[OF assms] by (simp_all add: serving_def)
  then show ?thesis
    by (auto intro!: core_inv_other[OF assms(1), of c] simp: srv_on_id_def ad_exist_def srv_secretHandshake_def ac_send_def
        ac_receive_def ac_set_def reader_of_def prog_simps Let_def split: if_splits)
qed

lemma core_inv_add:
  assumes "core_inv w" "\<not> serving w c" "c < co_next w" "map_of (co_directory w) key = None"
    and "co_directory w' = (key, c) # co_directory w" "co_next w' = co_next w"
    and "reader_of (cm_reading (co_comms w' c)) = Some (AwaitRequest c)" "cs_key (co_sessions w' c) = key"
    and "\<forall>d. d \<noteq> c \<longrightarrow> co_comms w' d = co_comms w d" "\<forall>d. d \<noteq> c \<longrightarrow> co_sessions w' d = co_sessions w d"
  shows "core_inv w'"
proof -
  have same: "serving w' d \<longleftrightarrow> serving w d \<or> d = c" for d
    using assms(7,9) by (cases "d = c") (simp_all add: serving_def)
  have reg: "map_of (co_directory w) k = Some d \<longleftrightarrow> serving w d \<and> cs_key (co_sessions w d) = k" for k d
    using assms(1) by (simp add: core_inv_def)
  have free: "serving w d \<Longrightarrow> cs_key (co_sessions w d) \<noteq> key" for d
    using reg[of key d] assms(4) by auto
  have "map_of (co_directory w') k = Some d \<longleftrightarrow> serving w' d \<and> cs_key (co_sessions w' d) = k" for k d
    using reg[of k d] same[of d] free[of d] assms(2,5,8,10) by (cases "d = c") (auto split: if_splits)
  moreover have "reader_of (cm_reading (co_comms w' d)) = Some (AwaitRequest s) \<longrightarrow> s = d" for d s
    using assms(1,7,9) by (cases "d = c") (auto simp: core_inv_def)
  moreover have "co_next w' \<le> d \<longrightarrow> cm_reading (co_comms w' d) = NotReading" for d
    using assms(1,3,6,9) by (cases "d = c") (auto simp: core_inv_def)
  moreover have "distinct (map fst (co_directory w'))"
    using assms(1,4,5) by (auto simp: core_inv_def map_of_eq_None_iff)
  ultimately show ?thesis by (simp add: core_inv_def)
qed

lemma inv_on_answer:
  assumes "core_inv w" "reader_of (cm_reading (co_comms w c)) = Some (AwaitAnswer key)"
  shows "core_inv (snd (srv_on_answer kc key c ec b (halted c w)))"
proof -
  have c: "\<not> serving w c" "c < co_next w"
    using assms reading_known[OF assms] by (simp_all add: serving_def)
  note run = srv_on_answer_def cs_new_def ad_add_def ad_exist_def cs_read_def cs_send_def ac_send_def ac_receive_def
    ac_set_def reader_of_def prog_simps
  show ?thesis
  proof (cases "ec = Ok \<and> map_of (co_directory w) key = None")
    case True
    then show ?thesis
      by (auto intro!: core_inv_add[OF assms(1) c, of key] simp: run)
  next
    case False
    then show ?thesis
      by (auto intro!: core_inv_other[OF assms(1) c] simp: run)
  qed
qed

lemma core_inv_remove:
  assumes "core_inv w" "serving w c" "co_directory w' = omap_erase (cs_key (co_sessions w c)) (co_directory w)"
    and "co_next w' = co_next w" "cm_reading (co_comms w' c) = NotReading"
    and "\<forall>d. d \<noteq> c \<longrightarrow> co_comms w' d = co_comms w d" "co_sessions w' = co_sessions w"
  shows "core_inv w'"
proof -
  have same: "serving w' d \<longleftrightarrow> serving w d \<and> d \<noteq> c" for d
    using assms(5,6) by (cases "d = c") (simp_all add: serving_def reader_of_def)
  have reg: "map_of (co_directory w) k = Some d \<longleftrightarrow> serving w d \<and> cs_key (co_sessions w d) = k" for k d
    using assms(1) by (simp add: core_inv_def)
  have only: "serving w d \<and> cs_key (co_sessions w d) = cs_key (co_sessions w c) \<Longrightarrow> d = c" for d
    using reg[of _ d] reg[of _ c] assms(2) by (metis option.inject)
  have "map_of (co_directory w') k = Some d \<longleftrightarrow> serving w' d \<and> cs_key (co_sessions w' d) = k" for k d
    using reg[of k d] same[of d] only[of d] assms(3,7) by auto
  moreover have "reader_of (cm_reading (co_comms w' d)) = Some (AwaitRequest s) \<longrightarrow> s = d" for d s
    using assms(1,5,6) by (cases "d = c") (auto simp: core_inv_def reader_of_def)
  moreover have "co_next w' \<le> d \<longrightarrow> cm_reading (co_comms w' d) = NotReading" for d
    using assms(1,4,5,6) by (cases "d = c") (auto simp: core_inv_def)
  moreover have "distinct (map fst (co_directory w'))"
    using assms(1,3) by (auto simp: core_inv_def omap_erase_def distinct_map inj_on_def)
  ultimately show ?thesis by (simp add: core_inv_def)
qed


lemma process_run:
  assumes "cs_process kc s b w = (r, w')"
  shows "quiet w w'"
  using preservesD[OF quiet_process[of w kc s b], of w] assms by simp

text \<open>Reading on as before after something that keeps the directory.\<close>

lemma core_inv_resume:
  assumes "core_inv w" "serving w c" "quiet (halted c w) w'"
    and "w'' = w'\<lparr>co_comms := (co_comms w')(c := (co_comms w' c)\<lparr>cm_reading := ReadSize (AwaitRequest c)\<rparr>)\<rparr>"
  shows "core_inv w''"
proof -
  have read: "reader_of (cm_reading (co_comms w'' d)) = reader_of (cm_reading (co_comms w d))" for d
    using assms(2,3,4) by (cases "d = c") (simp_all add: quiet_def reader_of_def serving_def)
  have none: "cm_reading (co_comms w d) = NotReading \<Longrightarrow> cm_reading (co_comms w'' d) = NotReading" for d
    using read[of d] by (auto simp: reader_of_def split: reading.splits)
  have "co_directory w'' = co_directory w" "co_next w'' = co_next w" "cs_key (co_sessions w'' d) = cs_key (co_sessions w d)" for d
    using assms(3,4) by (simp_all add: quiet_def)
  then show ?thesis using assms(1) none unfolding core_inv_def serving_def read by auto
qed

lemma inv_on_read:
  assumes "core_inv w" "reader_of (cm_reading (co_comms w c)) = Some (AwaitRequest s)"
    and "cs_on_read kc s ec b (halted c w) = (Inr (), w')"
  shows "core_inv w'"
proof -
  have s: "s = c" "serving w c" using assms(1,2) by (auto simp: core_inv_def serving_def)
  show ?thesis
  proof (cases "ec = Ok")
    case True
    then obtain w1 where "cs_process kc c b (halted c w) = (Inr (), w1)"
      "w' = w1\<lparr>co_comms := (co_comms w1)(c := (co_comms w1 c)\<lparr>cm_reading := ReadSize (AwaitRequest c)\<rparr>)\<rparr>"
      using assms(3) by (auto simp: s cs_on_read_def pthen_apply cs_read_def ac_receive_def ac_set_def split: prod.splits sum.splits)
    then show ?thesis using core_inv_resume[OF assms(1) s(2)] process_run by blast
  next
    case False
    then show ?thesis
      using assms(3) by (auto simp: s cs_on_read_def ad_remove_def prog_simps reader_of_def intro!: core_inv_remove[OF assms(1) s(2)])
  qed
qed

lemma inv_read_done:
  assumes "core_inv w" "reader_of (cm_reading (co_comms w c)) = Some k" "read_done kc c k ec b (halted c w) = (Inr (), w')"
  shows "core_inv w'"
proof (cases k)
  case AwaitId
  then show ?thesis using inv_on_id[OF assms(1), of c kc ec b] assms(2,3) by (simp add: read_done_def)
next
  case (AwaitAnswer key)
  then show ?thesis using inv_on_answer[OF assms(1), of c key kc ec b] assms(2,3) by (simp add: read_done_def)
next
  case (AwaitRequest s)
  then show ?thesis using inv_on_read[OF assms(1)] assms(2,3) by (simp add: read_done_def)
qed

lemma received_run:
  "ac_received kc c ec b w = (case cm_reading (co_comms w c) of
     NotReading \<Rightarrow> (Inr (), halted c w)
   | ReadSize k \<Rightarrow> if ec \<noteq> Ok then read_done kc c k ec [] (halted c w)
       else (Inr (), w\<lparr>co_comms := (co_comms w)(c := (co_comms w c)\<lparr>cm_reading := ReadData (unat (le_at b)) k\<rparr>)\<rparr>)
   | ReadData n k \<Rightarrow> read_done kc c k ec b (halted c w))"
proof -
  have "(\<lambda>w. w\<lparr>co_comms := (co_comms w)(c := co_comms w c\<lparr>cm_reading := NotReading\<rparr>)\<rparr>) w = halted c w"
    by (simp add: halted_def)
  then show ?thesis
    by (auto simp: ac_received_def ac_set_def pbind_apply pthen_apply halted_def fun_upd_idem_iff split: reading.split)
qed

lemma inv_received:
  assumes "core_inv w" "ac_received kc c ec b w = (Inr (), w')"
  shows "core_inv w'"
proof (cases "cm_reading (co_comms w c)")
  case NotReading
  then have "cm_reading (co_comms w' d) = cm_reading (co_comms w d)" for d
    using assms(2) by (auto simp: received_run)
  then have "quiet w w'" using NotReading assms(2) by (auto simp: received_run quiet_def)
  then show ?thesis using core_inv_quiet assms(1) by blast
next
  case (ReadSize k)
  show ?thesis
  proof (cases "ec = Ok")
    case True
    have c: "c < co_next w" using reading_known[OF assms(1)] ReadSize by (simp add: reader_of_def)
    have r: "reader_of (cm_reading (co_comms w' d)) = reader_of (cm_reading (co_comms w d))" for d
      using assms(2) True ReadSize by (auto simp: received_run reader_of_def)
    have n: "co_next w \<le> d \<Longrightarrow> cm_reading (co_comms w' d) = cm_reading (co_comms w d)" for d
      using assms(2) True ReadSize c by (auto simp: received_run)
    have "co_directory w' = co_directory w" "co_next w' = co_next w" "co_sessions w' = co_sessions w"
      using assms(2) True ReadSize by (auto simp: received_run)
    then show ?thesis using assms(1) n unfolding core_inv_def serving_def r by auto
  next
    case False
    then show ?thesis using inv_read_done[OF assms(1), of c k kc ec "[]"] assms(2) ReadSize by (simp add: received_run reader_of_def)
  qed
next
  case (ReadData n k)
  then show ?thesis using inv_read_done[OF assms(1), of c k kc ec b] assms(2) ReadData by (simp add: received_run reader_of_def)
qed

lemma inv_accepted:
  assumes "core_inv w"
  shows "core_inv (snd (srv_accepted ec w))"
proof (cases "ec = Ok")
  case True
  let ?c = "co_next w"
  let ?w = "w\<lparr>co_next := Suc ?c\<rparr>"
  have n: "cm_reading (co_comms w ?c) = NotReading" using assms by (simp add: core_inv_def)
  then have "core_inv ?w" "\<not> serving ?w ?c" using assms by (auto simp: core_inv_def serving_def reader_of_def)
  then show ?thesis
    using True by (auto intro!: core_inv_other[of ?w ?c] simp: srv_accepted_def srv_newSession_def ac_receive_def ac_set_def srv_do_accept_def
        reader_of_def prog_simps)
next
  case False
  then show ?thesis
    by (auto intro!: core_inv_quiet[OF _ assms] simp: srv_accepted_def prog_simps quiet_def)
qed

lemma core_inv_step:
  assumes "core_inv w" "core_event_run kc e w = (Inr (), w')"
  shows "core_inv w'"
proof (cases "enabled e w")
  case True
  then have step: "core_step kc e w = (Inr (), w')" using assms(2) by (simp add: core_event_run_def pbind_apply)
  show ?thesis
  proof (cases e)
    case (Accepted ec)
    then show ?thesis using inv_accepted[OF assms(1), of ec] step by simp
  next
    case (Received c ec b)
    then show ?thesis using inv_received[OF assms(1)] step by simp
  next
    case (Leaves c n bs)
    then have "quiet w w'" using preservesD[OF quiet_leave[of w c n bs], of w] step by simp
    then show ?thesis using core_inv_quiet assms(1) by blast
  next
    case (Written c n ec)
    then have "quiet w w'" using preservesD[OF quiet_written[of w kc c n ec], of w] step by simp
    then show ?thesis using core_inv_quiet assms(1) by blast
  next
    case (SearchLeaves n bs)
    then have "quiet w w'" using preservesD[OF quiet_with_search[of w "cl_leave n bs"], of w] step by simp
    then show ?thesis using core_inv_quiet assms(1) by blast
  next
    case (SearchWritten n ec)
    then have "quiet w w'" using preservesD[OF quiet_search_completes[of w kc "cl_sent n ec"], of w] step by simp
    then show ?thesis using core_inv_quiet assms(1) by blast
  next
    case (SearchReceived ec sizes body)
    then have "quiet w w'"
      using preservesD[OF quiet_search_completes[of w kc "cl_received (kc_search kc) ec sizes body"], of w] step by simp
    then show ?thesis using core_inv_quiet assms(1) by blast
  qed
next
  case False
  then show ?thesis using assms by (simp add: core_event_run_def pbind_apply)
qed

lemma core_inv_events: "core_inv w \<Longrightarrow> core_events kc es w = (Inr (), w') \<Longrightarrow> core_inv w'"
proof (induction es arbitrary: w)
  case (Cons e es)
  then obtain w1 where "core_event_run kc e w = (Inr (), w1)" "core_events kc es w1 = (Inr (), w')"
    by (auto simp: pthen_apply split: prod.splits sum.splits)
  then show ?case using Cons.IH core_inv_step[OF Cons.prems(1)] by blast
qed simp


subsection \<open>Requests of a serving session\<close>

text \<open>The bytes of one message, as the two reads of a connection deliver them.\<close>

definition arrives :: "nat \<Rightarrow> byte list \<Rightarrow> core_event list" where
  "arrives c b = [Received c Ok (take 4 (ac_frame b)), Received c Ok (drop 4 (ac_frame b))]"

text \<open>One write of a reply was started on a connection, none on the others, and no byte has left.\<close>

definition sent_to :: "core_codec \<Rightarrow> nat \<Rightarrow> core_reply \<Rightarrow> core \<Rightarrow> core \<Rightarrow> bool" where
  "sent_to kc c m w w' \<longleftrightarrow> (\<exists>k. \<forall>d. cm_wire (co_comms w' d) = cm_wire (co_comms w d) \<and>
     cm_writes (co_comms w' d) = cm_writes (co_comms w d) @
       (if d = c then [\<lparr>cw_frame = ac_frame (kc_reply kc m), cw_sent = [], cw_report = k\<rparr>] else []))"

text \<open>
  The write that was started last on a connection since \<open>w\<close> ends well, in whatever parts and with whatever bytes it
  leaves: these bytes are on the wire, and nothing else is.
\<close>

definition leaves_whole :: "core_codec \<Rightarrow> nat \<Rightarrow> byte list \<Rightarrow> core \<Rightarrow> core \<Rightarrow> bool" where
  "leaves_whole kc d F w w' \<longleftrightarrow> (\<forall>parts. length (concat parts) = length F \<longrightarrow>
     (let n = length (cm_writes (co_comms w d)); (r, w'') = core_events kc (map (Leaves d n) parts @ [Written d n Ok]) w' in
      r = Inr () \<and> (\<forall>e. cm_wire (co_comms w'' e) = cm_wire (co_comms w e) @ (if e = d then concat parts else []) \<and>
        cm_writes (co_comms w'' e) = cm_writes (co_comms w e)) \<and> quiet w' w''))"

text \<open>At a message boundary.\<close>

definition idle :: "core \<Rightarrow> nat \<Rightarrow> bool" where
  "idle w c \<longleftrightarrow> cm_reading (co_comms w c) = ReadSize (AwaitRequest c)"

lemma idle_serving: "idle w c \<Longrightarrow> serving w c"
  by (simp add: idle_def serving_def reader_of_def)

definition reads_on :: "nat \<Rightarrow> core \<Rightarrow> core" where
  "reads_on c w = w\<lparr>co_comms := (co_comms w)(c := (co_comms w c)\<lparr>cm_reading := ReadSize (AwaitRequest c)\<rparr>)\<rparr>"

lemma frame_parts:
  assumes "length b < 2 ^ 32"
  shows "length (take 4 (ac_frame b)) = 4" "drop 4 (ac_frame b) = b" "unat (le_at (take 4 (ac_frame b))) = length b"
proof -
  have "length (rev (be_bytes (of_nat (length b)))) = 4" by simp
  then show "length (take 4 (ac_frame b)) = 4" "drop 4 (ac_frame b) = b" by (simp_all add: ac_frame_short [OF assms])
  have "le_at (take 4 (ac_frame b)) = of_nat (length b)"
    using be_at_bytes(2)[of "of_nat (length b)" "[]"] by (simp add: ac_frame_short [OF assms])
  then show "unat (le_at (take 4 (ac_frame b))) = length b"
    using assms by (simp add: unat_of_nat take_bit_nat_eq_self_iff)
qed

lemma arrives_run:
  assumes "idle w c" "length b < 2 ^ 32"
  shows "core_events kc (arrives c b) w = pthen (cs_process kc c b) (cs_read c) (halted c w)"
proof -
  let ?w = "w\<lparr>co_comms := (co_comms w)(c := (co_comms w c)\<lparr>cm_reading := ReadData (length b) (AwaitRequest c)\<rparr>)\<rparr>"
  have 1: "core_event_run kc (Received c Ok (take 4 (ac_frame b))) w = (Inr (), ?w)"
    using assms frame_parts[OF assms(2)] by (simp add: core_event_run_def pbind_apply received_run idle_def)
  have "halted c ?w = halted c w" by (simp add: halted_def)
  then have 2: "core_event_run kc (Received c Ok b) ?w = pthen (cs_process kc c b) (cs_read c) (halted c w)"
    by (simp add: core_event_run_def pbind_apply received_run read_done_def cs_on_read_def)
  have ret: "pthen p (pret ()) v = p v" for p :: "(core, unit) prog" and v
    by (simp add: pthen_apply split: prod.split sum.split)
  show ?thesis unfolding arrives_def frame_parts(2)[OF assms(2)]
    by (simp add: 1 2 ret)
qed

lemma halted_comm:
  "cm_wire (co_comms (halted c w) d) = cm_wire (co_comms w d)" "cm_writes (co_comms (halted c w) d) = cm_writes (co_comms w d)"
  by simp_all

lemma message_run:
  assumes "idle w c" "length b < 2 ^ 32" "qe_request (kc_envelope kc b) = QSendMessage msg"
    and "oef_parseAgent (am_destination msg) oef_uri_new = Inr u"
  shows "\<exists>w'. core_events kc (arrives c b) w = (Inr (), w') \<and> idle w' c \<and>
    (case map_of (co_directory w) (ou_agentKey u) of
       Some d \<Rightarrow> sent_to kc d (RContent (qe_msg_id (kc_envelope kc b)) (am_source_uri msg)
         (if am_target_uri msg = [] then oef_toString u else am_target_uri msg) (word_of_int (am_dialogue_id msg))
         (cs_key (co_sessions w c)) (am_payload msg)) w w'
     | None \<Rightarrow> sent_to kc c (RDialogueError (qe_msg_id (kc_envelope kc b)) (word_of_int (am_dialogue_id msg)) (am_destination msg)) w w')"
proof (cases "map_of (co_directory w) (ou_agentKey u)")
  case None
  then show ?thesis
    unfolding arrives_run[OF assms(1,2)]
    by (auto simp: cs_process_def Let_def assms(3,4) cs_message_def ad_session_def cs_sends ac_send_def ac_set_def cs_read_def
        ac_receive_def pbind_apply pthen_apply sent_to_def idle_def)
next
  case (Some d)
  then show ?thesis
    unfolding arrives_run[OF assms(1,2)]
    by (auto simp: cs_process_def Let_def assms(3,4) cs_message_def ad_session_def cs_sends ac_send_def ac_set_def cs_read_def
        ac_receive_def pbind_apply pthen_apply sent_to_def idle_def)
qed

lemma core_events_append: "core_events kc (es @ fs) w = pthen (core_events kc es) (core_events kc fs) w"
  by (induction es arbitrary: w) (auto simp: pthen_apply split: prod.splits sum.splits)

lemma core_events_one: "core_event_run kc e w = (Inr (), w') \<Longrightarrow> core_events kc (e # es) w = core_events kc es w'"
  by simp

text \<open>A started write leaves and ends.\<close>

definition with_write :: "nat \<Rightarrow> byte list \<Rightarrow> comm_write list \<Rightarrow> core \<Rightarrow> core" where
  "with_write d wire ws w = w\<lparr>co_comms := (co_comms w)(d := (co_comms w d)\<lparr>cm_wire := wire, cm_writes := ws\<rparr>)\<rparr>"

lemma with_write_simps [simp]:
  "cm_writes (co_comms (with_write d wire ws w) d) = ws" "cm_wire (co_comms (with_write d wire ws w) d) = wire"
  "with_write d wire' ws' (with_write d wire ws w) = with_write d wire' ws' w"
  "e \<noteq> d \<Longrightarrow> co_comms (with_write d wire ws w) e = co_comms w e" "quiet w (with_write d wire ws w)"
  by (simp_all add: with_write_def quiet_def)

lemma with_write_id:
  assumes "cm_writes (co_comms w d) = ws"
  shows "with_write d (cm_wire (co_comms w d)) ws w = w"
proof -
  have "(co_comms w d)\<lparr>cm_wire := cm_wire (co_comms w d), cm_writes := ws\<rparr> = co_comms w d"
    using assms by (cases "co_comms w d") simp
  then have "(co_comms w)(d := (co_comms w d)\<lparr>cm_wire := cm_wire (co_comms w d), cm_writes := ws\<rparr>) = co_comms w"
    by (simp only: fun_upd_triv)
  then show ?thesis by (simp only: with_write_def) simp
qed

lemma leave_steps:
  assumes "cm_writes (co_comms w d) = ws @ [x]" "length (cw_sent x) + length (concat parts) \<le> length (cw_frame x)"
  shows "core_events kc (map (Leaves d (length ws)) parts) w =
    (Inr (), with_write d (cm_wire (co_comms w d) @ concat parts) (ws @ [x\<lparr>cw_sent := cw_sent x @ concat parts\<rparr>]) w)"
  using assms
proof (induction parts arbitrary: w x)
  case Nil
  then show ?case by (simp add: with_write_id)
next
  case (Cons bs parts)
  let ?x = "x\<lparr>cw_sent := cw_sent x @ bs\<rparr>"
  let ?w = "with_write d (cm_wire (co_comms w d) @ bs) (ws @ [?x]) w"
  have "core_event_run kc (Leaves d (length ws) bs) w = (Inr (), ?w)"
    using Cons.prems by (simp add: core_event_run_def pbind_apply ac_leave_def ac_set_def with_write_def)
  then show ?case using Cons.IH [of ?w ?x] Cons.prems(2) by (simp add: pthen_apply)
qed

lemma sent_leaves:
  assumes "sent_to kc d m w w'"
  shows "leaves_whole kc d (ac_frame (kc_reply kc m)) w w'"
  unfolding leaves_whole_def
proof (intro allI impI)
  fix parts :: "byte list list"
  assume len: "length (concat parts) = length (ac_frame (kc_reply kc m))"
  obtain k where k: "\<And>e. cm_wire (co_comms w' e) = cm_wire (co_comms w e)"
    "\<And>e. cm_writes (co_comms w' e) = cm_writes (co_comms w e) @
       (if e = d then [\<lparr>cw_frame = ac_frame (kc_reply kc m), cw_sent = [], cw_report = k\<rparr>] else [])"
    using assms unfolding sent_to_def by blast
  let ?ws = "cm_writes (co_comms w d)"
  let ?v = "with_write d (cm_wire (co_comms w' d) @ concat parts)
     (?ws @ [\<lparr>cw_frame = ac_frame (kc_reply kc m), cw_sent = concat parts, cw_report = k\<rparr>]) w'"
  let ?u = "with_write d (cm_wire (co_comms w' d) @ concat parts) ?ws w'"
  have 1: "core_events kc (map (Leaves d (length ?ws)) parts) w' = (Inr (), ?v)"
    using leave_steps [of w' d ?ws _ parts kc] k(2) [of d] len by simp
  have "ac_set d (\<lambda>m. m\<lparr>cm_writes := take (length ?ws) (cm_writes m) @ drop (Suc (length ?ws)) (cm_writes m)\<rparr>) ?v = (Inr (), ?u)"
    by (simp add: ac_set_def with_write_def)
  then have 2: "core_event_run kc (Written d (length ?ws) Ok) ?v = (Inr (), ?u)"
    using len by (simp add: core_event_run_def pbind_apply ac_written_def pthen_apply split: written.split)
  have "core_events kc (map (Leaves d (length ?ws)) parts @ [Written d (length ?ws) Ok]) w' = (Inr (), ?u)"
    unfolding core_events_append pthen_apply 1 by (simp add: 2 pthen_apply)
  moreover have "cm_wire (co_comms ?u e) = cm_wire (co_comms w e) @ (if e = d then concat parts else []) \<and>
      cm_writes (co_comms ?u e) = cm_writes (co_comms w e)" for e
    using k [of e] by (cases "e = d") simp_all
  ultimately show "let n = length ?ws; (r, w'') = core_events kc (map (Leaves d n) parts @ [Written d n Ok]) w' in
      r = Inr () \<and> (\<forall>e. cm_wire (co_comms w'' e) = cm_wire (co_comms w e) @ (if e = d then concat parts else []) \<and>
        cm_writes (co_comms w'' e) = cm_writes (co_comms w e)) \<and> quiet w' w''"
    by (simp add: Let_def)
qed

subsection \<open>Searches\<close>

lemma search_completes_run:
  assumes "p (co_search w) = (Inr (), s)"
  shows "search_completes kc p w = run_calls kc (drop (length (cl_calls (co_search w))) (cl_calls s)) (w\<lparr>co_search := s\<rparr>)"
  by (simp add: search_completes_def pbind_apply pthen_apply with_search_def assms)

lemma with_search_ask:
  "with_search (search_service cd hash q key m k) w = (Inr (), w\<lparr>co_search := cl_event_run cd hash (ask False q key m k) (co_search w)\<rparr>)"
  "with_search (search_agents cd hash q key m k) w = (Inr (), w\<lparr>co_search := cl_event_run cd hash (ask False q key m k) (co_search w)\<rparr>)"
  "with_search (search_service_wide cd hash q key m k) w = (Inr (), w\<lparr>co_search := cl_event_run cd hash (ask True q key m k) (co_search w)\<rparr>)"
  by (simp_all add: with_search_def ask_def cl_event_run.simps search_agents_def case_prod_beta requests_total)

lemma agent_parts_total: "\<exists>ps. agent_parts as = Inr ps"
proof (induction as)
  case (Cons a as)
  then show ?case using parseAgent_total[of a oef_uri_new] by auto
qed simp

text \<open>The searches of a session, and what it sends when the agents it found are \<open>items\<close>.\<close>

definition found :: "core_request \<Rightarrow> u32 \<Rightarrow> bool \<Rightarrow> sr_item list \<Rightarrow> core_reply" where
  "found r m ok items = (if \<not> ok then RError m REGISTER_SERVICE
     else case r of QSearchServicesWide q \<Rightarrow> RAgentsWide m items
      | _ \<Rightarrow> RAgents m (projr (agent_parts (map fst (concat (map si_agents items))))))"

definition search_of :: "core_request \<Rightarrow> (bool \<times> query) option" where
  "search_of r = (case r of QSearchAgents q \<Rightarrow> Some (False, q) | QSearchServices q \<Rightarrow> Some (False, q)
     | QSearchServicesWide q \<Rightarrow> Some (True, q) | _ \<Rightarrow> None)"

definition cont_of :: "core_request \<Rightarrow> nat \<Rightarrow> u32 \<Rightarrow> search_cont" where
  "cont_of r s m = (case r of QSearchAgents q \<Rightarrow> OnSearchAgents s m | QSearchServicesWide q \<Rightarrow> OnSearchWide s m | _ \<Rightarrow> OnSearchService s m)"

lemma search_request_run:
  assumes "idle w c" "length b < 2 ^ 32" "search_of (qe_request (kc_envelope kc b)) = Some (wide, q)"
  shows "core_events kc (arrives c b) w = (Inr (), reads_on c (halted c w)\<lparr>co_search :=
    cl_event_run (kc_search kc) (kc_hash kc) (ask wide q (cs_key (co_sessions w c)) (qe_msg_id (kc_envelope kc b))
      (cont_of (qe_request (kc_envelope kc b)) c (qe_msg_id (kc_envelope kc b)))) (co_search w)\<rparr>)"
  unfolding arrives_run[OF assms(1,2)] using assms(3)
  by (auto simp: cs_process_def Let_def search_of_def cont_of_def cs_search_agents_def cs_search_service_def cs_search_service_wide_def
      pbind_apply pthen_apply with_search_ask cs_read_def ac_receive_def ac_set_def reads_on_def split: core_request.splits)

lemma reads_on_halted: "idle w c \<Longrightarrow> reads_on c (halted c w) = w"
  by (cases w) (auto simp: reads_on_def halted_def idle_def fun_eq_iff)

lemma continue_found:
  assumes "search_of r = Some (wide, q)"
  shows "\<exists>w'. cs_continue kc (cont_of r c m) (if ok then Ok else NoMessageAvailable) (reply wide items) w = (Inr (), w') \<and>
    sent_to kc c (found r m ok items) w w' \<and> quiet w w'"
proof -
  obtain ps where ps: "agent_parts (map fst (concat (map si_agents items))) = Inr ps" using agent_parts_total by blast
  show ?thesis
    using assms ps
    by (auto simp: on_replies search_of_def cont_of_def found_def reply_def reply_agents_def reply_wide_def cs_sends ac_send_def ac_set_def
        pbind_apply sent_to_def quiet_def split: core_request.splits)
qed


lemma search_written_run:
  assumes "may_end n ec (co_search w)" "cl_event_run (kc_search kc) (kc_hash kc) (CSent n ec) (co_search w) = s"
    and "cl_calls s = cl_calls (co_search w)"
  shows "core_event_run kc (SearchWritten n ec) w = (Inr (), w\<lparr>co_search := s\<rparr>)"
proof -
  have "cl_sent n ec (co_search w) = (Inr (), s)"
    using assms(1,2) sent_total[of n ec "co_search w"] by (cases "cl_sent n ec (co_search w)") (simp add: cl_event_run.simps)
  then show ?thesis using assms(1,3) by (simp add: core_event_run_def pbind_apply search_completes_run)
qed

lemma search_leaves_run:
  "core_events kc (map (SearchLeaves n) parts) w =
    (Inr (), w\<lparr>co_search := fold (cl_event_run (kc_search kc) (kc_hash kc)) (map (CLeave n) parts) (co_search w)\<rparr>)"
proof (induction parts arbitrary: w)
  case (Cons bs parts)
  have "core_event_run kc (SearchLeaves n bs) w =
      (Inr (), w\<lparr>co_search := cl_event_run (kc_search kc) (kc_hash kc) (CLeave n bs) (co_search w)\<rparr>)"
    by (simp add: core_event_run_def pbind_apply with_search_def cl_event_run.simps cl_leave_def)
  then show ?case by (simp add: Cons.IH pthen_apply)
qed simp

lemma search_received_run:
  assumes "fits hb pb" "cl_listening (co_search w)"
    and "cl_event_run (kc_search kc) (kc_hash kc) (arrival hb pb) (co_search w) = s"
  shows "core_event_run kc (SearchReceived Ok (take 8 (pframe hb pb)) (\<lambda>n. (Ok, take n (hb @ pb)))) w =
    run_calls kc (drop (length (cl_calls (co_search w))) (cl_calls s)) (w\<lparr>co_search := s\<rparr>)"
proof -
  have "cl_received (kc_search kc) Ok (take 8 (pframe hb pb)) (\<lambda>n. (Ok, take n (hb @ pb))) (co_search w) = (Inr (), s)"
    unfolding arrival_prog[OF assms(1)] assms(3)[symmetric] arrival_run[OF assms(1,2)] ..
  then show ?thesis using assms(2) by (simp add: core_event_run_def pbind_apply search_completes_run)
qed

text \<open>A request of a session, the write of its search in parts, and the arrival of the answer.\<close>

definition search_events :: "nat \<Rightarrow> nat \<Rightarrow> byte list \<Rightarrow> byte list list \<Rightarrow> byte list \<Rightarrow> byte list \<Rightarrow> core_event list" where
  "search_events c n b parts hb pb = arrives c b @ map (SearchLeaves n) parts @
     [SearchWritten n Ok, SearchReceived Ok (take 8 (pframe hb pb)) (\<lambda>n. (Ok, take n (hb @ pb)))]"

lemma search_run:
  assumes "idle w c" "length b < 2 ^ 32" "kc_envelope kc b = e" "search_of (qe_request e) = Some (wide, q)"
    and "cl_listening (co_search w)" "map_of (cl_handles (co_search w)) i = None"
    and "i = ucast (generate_smsg_id (kc_hash kc) (cs_key (co_sessions w c)) (qe_msg_id e))"
    and "fits hb pb" "pb \<noteq> []" "parse_header (kc_search kc) hb = Some header" "ucast (ld_id header) = i"
    and "length (concat parts) = length (search_frame (kc_search kc) (kc_hash kc) wide q (cs_key (co_sessions w c)) (qe_msg_id e) (co_search w))"
  shows "\<exists>w'. core_events kc (search_events c (length (cl_pending (co_search w))) b parts hb pb) w = (Inr (), w') \<and>
    sent_to kc c (found (qe_request e) (qe_msg_id e) (ld_success header) (parse_search (kc_search kc) pb)) w w' \<and> idle w' c"
proof -
  let ?m = "qe_msg_id e" and ?key = "cs_key (co_sessions w c)" and ?s = "co_search w"
  let ?k = "cont_of (qe_request e) c ?m" and ?n = "length (cl_pending ?s)"
  let ?run = "cl_event_run (kc_search kc) (kc_hash kc)"
  let ?p = "asking (kc_search kc) (kc_hash kc) wide q ?key ?m ?k ?s"
  have free: "map_of (cl_handles ?s) (ucast (generate_smsg_id (kc_hash kc) ?key ?m)) = None" using assms(6,7) by simp
  obtain s1 where s1: "?run (ask wide q ?key ?m ?k) ?s = s1" by blast
  obtain sl where sl: "fold ?run (map (CLeave ?n) parts) s1 = sl" by blast
  obtain s2 where s2: "?run (CSent ?n Ok) sl = s2" by blast
  obtain s3 where s3: "?run (arrival hb pb) s2 = s3" by blast
  have s1': "s1 = ?s\<lparr>cl_pending := cl_pending ?s @ [?p]\<rparr>" by (simp add: s1[symmetric] ask_run)
  have sl': "sl = s1\<lparr>cl_wire := cl_wire s1 @ concat parts, cl_pending := cl_pending ?s @ [?p\<lparr>pn_sent := concat parts\<rparr>]\<rparr>"
    using leaves_run[of s1 "cl_pending ?s" ?p parts "kc_search kc" "kc_hash kc"] assms(12) s1' sl by simp
  have 1: "may_end ?n Ok sl" "cl_calls sl = cl_calls ?s" using assms(12) s1' by (simp_all add: sl' may_end_def)
  have run: "s2 = ?s\<lparr>cl_wire := cl_wire ?s @ concat parts, cl_handles := (ucast (generate_smsg_id (kc_hash kc) ?key ?m),
      mh_new (if wide then ''search-wide'' else ''search-local'') ?k ?m ?key) # cl_handles ?s\<rparr>"
    using asked_run[OF free assms(12), of ?k] s1 sl s2 by (simp add: cl_events_def write_events_def)
  have 2: "cl_calls s2 = cl_calls ?s" "cl_listening s2"
    "map_of (cl_handles s2) i = Some (mh_new (if wide then ''search-wide'' else ''search-local'') ?k ?m ?key)"
    using assms(5,7) by (simp_all add: run)
  have 3: "cl_calls s3 = cl_calls ?s @ [(?k, if ld_success header then Ok else NoMessageAvailable, reply wide (parse_search (kc_search kc) pb))]"
    using answers_run(1)[OF assms(8-11) 2(2,3), of "kc_hash kc"] 2(1) by (simp add: s3 answered_def)
  have r1: "core_events kc (arrives c b) w = (Inr (), w\<lparr>co_search := s1\<rparr>)"
    using search_request_run[OF assms(1,2), of kc wide q] assms(3,4) reads_on_halted[OF assms(1)] s1 by simp
  have rl: "core_events kc (map (SearchLeaves ?n) parts) (w\<lparr>co_search := s1\<rparr>) = (Inr (), w\<lparr>co_search := sl\<rparr>)"
    using search_leaves_run[of kc ?n parts "w\<lparr>co_search := s1\<rparr>"] sl by simp
  have r2: "core_event_run kc (SearchWritten ?n Ok) (w\<lparr>co_search := sl\<rparr>) = (Inr (), w\<lparr>co_search := s2\<rparr>)"
    using search_written_run[of ?n Ok "w\<lparr>co_search := sl\<rparr>" kc s2] 1 2(1) s2 by simp
  obtain w' where w': "cs_continue kc ?k (if ld_success header then Ok else NoMessageAvailable)
      (reply wide (parse_search (kc_search kc) pb)) (w\<lparr>co_search := s3\<rparr>) = (Inr (), w')"
    "sent_to kc c (found (qe_request e) ?m (ld_success header) (parse_search (kc_search kc) pb)) (w\<lparr>co_search := s3\<rparr>) w'"
    "quiet (w\<lparr>co_search := s3\<rparr>) w'"
    using continue_found[OF assms(4)] by blast
  have r3: "core_event_run kc (SearchReceived Ok (take 8 (pframe hb pb)) (\<lambda>n. (Ok, take n (hb @ pb)))) (w\<lparr>co_search := s2\<rparr>) = (Inr (), w')"
    using search_received_run[OF assms(8), of "w\<lparr>co_search := s2\<rparr>" kc s3] 2 3 s3 w'(1) by (simp add: pthen_apply)
  have "core_events kc (search_events c ?n b parts hb pb) w = (Inr (), w')"
    unfolding search_events_def core_events_append pthen_apply r1 sum.case prod.case rl
    by (simp only: core_events.simps(1) core_events_one[OF r2] core_events_one[OF r3] pret_apply)
  then show ?thesis
    using w'(2,3) assms(1) by (simp add: sent_to_def idle_def quiet_def)
qed


subsection \<open>Properties\<close>

text \<open>A server whose threads have been started.\<close>

definition core_started :: "string \<Rightarrow> string \<Rightarrow> u32 \<Rightarrow> nat \<Rightarrow> core" where
  "core_started core_key ip port nbThreads = snd (srv_run (core_new core_key ip port nbThreads))"

lemma start_threads_quiet: "preserves (quiet u) (start_threads ts)"
proof (induction ts)
  case Nil
  show ?case unfolding start_threads.simps by (rule preserves_pret)
next
  case (Cons t ts)
  moreover have "preserves (quiet u) (if t then pret () else srv_do_accept)"
    by (simp add: preserves_def srv_do_accept_def quiet_def)
  ultimately show ?case unfolding start_threads.simps by (rule preserves_pthen[rotated])
qed

lemma core_inv_started: "core_inv (core_started k ip port n)"
proof -
  have "preserves (quiet u) srv_run" for u
    unfolding srv_run_def
    by (intro preserves_pthen preserves_pbind preserves_pget start_threads_quiet preserves_pmodify) (simp add: quiet_def)
  then have "quiet (core_new k ip port n) (core_started k ip port n)"
    unfolding core_started_def by (rule preservesD) simp
  then show ?thesis using core_inv_quiet core_inv_new by blast
qed

text \<open>
  C22. Whatever connections are accepted, break, identify themselves, answer and send in whatever order, as long as the
  process lives the directory has a key for exactly the connections that wait for a request of an agent, each under the
  key of its session and one per key; the number of agents it reports is the number of these connections.
\<close>

theorem directory_lists_serving:
  assumes "core_events kc es (core_started core_key ip port n) = (Inr (), w)"
  shows "(\<forall>key c. map_of (co_directory w) key = Some c \<longleftrightarrow> serving w c \<and> cs_key (co_sessions w c) = key) \<and>
    srv_nb_agents w = card {c. serving w c}"
proof -
  have inv: "core_inv w" using core_inv_events[OF core_inv_started assms] .
  then have reg: "map_of (co_directory w) k = Some c \<longleftrightarrow> serving w c \<and> cs_key (co_sessions w c) = k" for k c
    by (simp add: core_inv_def)
  have d: "distinct (map fst (co_directory w))" using inv by (simp add: core_inv_def)
  then have e: "(k, c) \<in> set (co_directory w) \<longleftrightarrow> serving w c \<and> cs_key (co_sessions w c) = k" for k c
    using reg[of k c] map_of_eq_Some_iff[of "co_directory w" k c] by simp
  have key: "fst x = cs_key (co_sessions w (snd x))" if "x \<in> set (co_directory w)" for x
    using e[of "fst x" "snd x"] that by simp
  have "inj_on snd (set (co_directory w))"
  proof (rule inj_onI)
    fix x y assume "x \<in> set (co_directory w)" "y \<in> set (co_directory w)" "snd x = snd y"
    then show "x = y" using key[of x] key[of y] by (intro prod_eqI) (simp_all only:)
  qed
  moreover have "{c. serving w c} = snd ` set (co_directory w)"
  proof (intro set_eqI iffI)
    fix c assume "c \<in> {c. serving w c}"
    then have "(cs_key (co_sessions w c), c) \<in> set (co_directory w)" using e by simp
    then show "c \<in> snd ` set (co_directory w)" by (rule rev_image_eqI) simp
  next
    fix c assume "c \<in> snd ` set (co_directory w)"
    then show "c \<in> {c. serving w c}" using e by auto
  qed
  moreover have "distinct (co_directory w)" using d by (simp add: distinct_map)
  ultimately have "card {c. serving w c} = length (co_directory w)"
    by (simp add: card_image distinct_card)
  then have "srv_nb_agents w = card {c. serving w c}" by (simp only: srv_nb_agents_def ad_size_def)
  then show ?thesis by (intro conjI allI reg)
qed

text \<open>
  C28. A message of an agent goes to the one connection that serves the key it names. When it arrives, exactly one write is
  started, on that connection, of the framed message with the key of the sender's own session as its origin; when no
  connection serves that key, exactly one write of a dialogue error, on the sender's connection. No byte has left yet, no
  other connection is written to, and the sender's connection waits for its next request. When no other
  write leaves on that connection before this one has ended, and it ends well, then as many bytes as the frame has are on
  its wire, in whatever parts they left, and nothing is on any other: the bytes that the memory holds as they leave, the
  frame exactly when it is intact. Nothing keeps that memory alive (\<open>dead_size_garbles\<close>), and writes of one
  connection that overlap mix their bytes (\<open>overlapping_writes_mix\<close>).
\<close>

theorem core_message_routed:
  assumes "core_events kc es (core_started core_key ip port n) = (Inr (), w)"
    and "idle w c" "length b < 2 ^ 32" "qe_request (kc_envelope kc b) = QSendMessage msg"
    and "oef_parseAgent (am_destination msg) oef_uri_new = Inr u"
  shows "\<exists>w' d m. core_events kc (arrives c b) w = (Inr (), w') \<and> idle w' c \<and>
    (case map_of (co_directory w) (ou_agentKey u) of
       Some d' \<Rightarrow> d = d' \<and> serving w d \<and> cs_key (co_sessions w d) = ou_agentKey u \<and>
         m = RContent (qe_msg_id (kc_envelope kc b)) (am_source_uri msg)
           (if am_target_uri msg = [] then oef_toString u else am_target_uri msg) (word_of_int (am_dialogue_id msg))
           (cs_key (co_sessions w c)) (am_payload msg)
     | None \<Rightarrow> (\<forall>d. serving w d \<longrightarrow> cs_key (co_sessions w d) \<noteq> ou_agentKey u) \<and> d = c \<and>
         m = RDialogueError (qe_msg_id (kc_envelope kc b)) (word_of_int (am_dialogue_id msg)) (am_destination msg)) \<and>
    sent_to kc d m w w' \<and> leaves_whole kc d (ac_frame (kc_reply kc m)) w w'"
proof -
  have "core_inv w" using core_inv_events[OF core_inv_started assms(1)] .
  then have reg: "map_of (co_directory w) k = Some d \<longleftrightarrow> serving w d \<and> cs_key (co_sessions w d) = k" for k d
    by (simp add: core_inv_def)
  show ?thesis
  proof (cases "map_of (co_directory w) (ou_agentKey u)")
    case None
    then have "\<forall>d. serving w d \<longrightarrow> cs_key (co_sessions w d) \<noteq> ou_agentKey u" using reg[of "ou_agentKey u"] by simp
    then show ?thesis using message_run[OF assms(2-5)] None sent_leaves by fastforce
  next
    case (Some d)
    then show ?thesis using message_run[OF assms(2-5)] reg[of "ou_agentKey u" d] sent_leaves by fastforce
  qed
qed

text \<open>
  The memory of the size is gone when the function that starts a write has returned. With other bytes in its place the
  write still ends well, and the other side waits for a message of another size.
\<close>

lemma dead_size_garbles:
  assumes "sent_to kc d m w w'" "length (kc_reply kc m) < 2 ^ 32" "cm_wire (co_comms w d) = []"
  shows "\<exists>w''. core_events kc [Leaves d (length (cm_writes (co_comms w d))) (rev (be_bytes other) @ kc_reply kc m),
      Written d (length (cm_writes (co_comms w d))) Ok] w' = (Inr (), w'') \<and> le_at (take 4 (cm_wire (co_comms w'' d))) = other"
proof -
  let ?n = "length (cm_writes (co_comms w d))" let ?parts = "[rev (be_bytes other) @ kc_reply kc m]"
  have "length (concat ?parts) = length (ac_frame (kc_reply kc m))" by (simp add: ac_frame_short [OF assms(2)])
  with sent_leaves [OF assms(1)] have "let (r, w'') = core_events kc (map (Leaves d ?n) ?parts @ [Written d ?n Ok]) w' in
      r = Inr () \<and> cm_wire (co_comms w'' d) = cm_wire (co_comms w d) @ concat ?parts"
    unfolding leaves_whole_def Let_def by fastforce
  then show ?thesis using assms(3) be_at_bytes(2) [of other "[]"] by (auto simp: split_beta prod_eq_iff)
qed

text \<open>Two writes of one connection: the parts in which they leave may alternate.\<close>

lemma overlapping_writes_mix:
  assumes "cm_writes (co_comms w d) = [\<lparr>cw_frame = [1, 2], cw_sent = [], cw_report = NoReport\<rparr>, \<lparr>cw_frame = [3, 4], cw_sent = [], cw_report = NoReport\<rparr>]"
    and "cm_wire (co_comms w d) = []"
  shows "\<exists>w'. core_events kc [Leaves d 0 [1], Leaves d 1 [3], Leaves d 0 [2], Leaves d 1 [4], Written d 0 Ok, Written d 0 Ok] w = (Inr (), w') \<and>
    cm_wire (co_comms w' d) = [1, 3, 2, 4] \<and> cm_writes (co_comms w' d) = []"
  using assms by (simp add: core_event_run_def ac_leave_def ac_written_def ac_set_def pbind_apply pthen_apply)

text \<open>
  A search of an agent (for agents, for services, or a wide one) whose identifier is free, whose write ends well and
  whose answer arrives then is answered to that agent alone, under the identifier of its request: with the agent parts of
  the addresses the search service found, or for a wide search with the items; a refusal by the search service becomes
  an error.
\<close>

lemma core_search_answered:
  assumes "idle w c" "length b < 2 ^ 32" "kc_envelope kc b = e" "search_of (qe_request e) = Some (wide, q)"
    and "cl_listening (co_search w)" "map_of (cl_handles (co_search w)) i = None"
    and "i = ucast (generate_smsg_id (kc_hash kc) (cs_key (co_sessions w c)) (qe_msg_id e))"
    and "fits hb pb" "pb \<noteq> []" "parse_header (kc_search kc) hb = Some header" "ucast (ld_id header) = i"
    and "length (concat parts) = length (search_frame (kc_search kc) (kc_hash kc) wide q (cs_key (co_sessions w c)) (qe_msg_id e) (co_search w))"
  shows "\<exists>w'. core_events kc (search_events c (length (cl_pending (co_search w))) b parts hb pb) w = (Inr (), w') \<and>
    sent_to kc c (found (qe_request e) (qe_msg_id e) (ld_success header) (parse_search (kc_search kc) pb)) w w' \<and> idle w' c"
  by (rule search_run[OF assms])

text \<open>
  No completion of a write, failed or not, starts another: the dialogue error for a message that could not be
  delivered to a connected agent is never sent.
\<close>

lemma failed_delivery_unreported:
  "\<exists>w'. core_step kc (Written c n ec) w = (Inr (), w') \<and> (\<forall>d. cm_wire (co_comms w' d) = cm_wire (co_comms w d) \<and>
     length (cm_writes (co_comms w' d)) \<le> length (cm_writes (co_comms w d)))"
  by (auto simp: ac_written_def ac_set_def pbind_apply pthen_apply split: written.split)

text \<open>
  One agent that unregisters a service ends the process of the server for all.
\<close>

lemma unregister_ends_server:
  assumes "idle w c" "length b < 2 ^ 32" "qe_request (kc_envelope kc b) = QUnregisterService m vs" "qe_agent_uri (kc_envelope kc b) \<noteq> []"
  shows "fst (core_events kc (arrives c b @ es) w) = Inl Aborted"
proof -
  have "\<exists>u. oef_parse s oef_uri_new = Inr u" if "s \<noteq> []" for s
    using that by (simp add: oef_parse_def oef_split_def Let_def)
  then obtain u where "oef_parse (qe_agent_uri (kc_envelope kc b)) oef_uri_new = Inr u" using assms(4) by blast
  then have "\<exists>a. own_uri (qe_agent_uri (kc_envelope kc b)) key = Inr a" for key
    by (simp add: own_uri_def)
  then obtain a where a: "own_uri (qe_agent_uri (kc_envelope kc b)) (cs_key (co_sessions w c)) = Inr a" by blast
  then show ?thesis
    unfolding core_events_append
    by (simp add: pthen_apply[of "core_events kc (arrives c b)"] arrives_run[OF assms(1,2)] cs_process_def Let_def assms(3)
        cs_unregister_service_def with_search_def unregister_service_def generate_remove_def pbind_apply pthen_apply)
qed


subsection \<open>A small server and its runs\<close>

definition tiny_codec :: core_codec where
  "tiny_codec = \<lparr>kc_reply = (\<lambda>_. [7]), kc_id = (\<lambda>_. ''a''),
     kc_envelope = (\<lambda>b. \<lparr>qe_msg_id = 5, qe_agent_uri = ''u'', qe_request =
       (if b = [] then QSendMessage \<lparr>am_dialogue_id = 1, am_destination = ''a'', am_target_uri = ''t'', am_source_uri = [], am_payload = NoPayload\<rparr>
        else if b = [1] then QSearchServicesWide small_query
        else QUnregisterService \<lparr>dm_name = [], dm_attributes = [], dm_description = None\<rparr> [])\<rparr>),
     kc_search = small_codec, kc_hash = (\<lambda>_. 0), kc_insert = Cons\<rparr>"

text \<open>One agent connects, says who it is, and answers the phrase.\<close>

definition tiny_events :: "core_event list" where
  "tiny_events = [Accepted Ok, Received 0 Ok [0, 0, 0, 0], Received 0 Ok [], Received 0 Ok [0, 0, 0, 0], Received 0 Ok []]"

definition tiny_core :: core where
  "tiny_core = snd (core_events tiny_codec tiny_events (core_started ''c'' ''ip'' 1 1))"

lemmas tiny_steps = core_started_def srv_run_def core_new_def srv_do_accept_def core_event_run_def srv_accepted_def srv_newSession_def
  received_run read_done_def srv_on_id_def srv_secretHandshake_def srv_on_answer_def cs_new_def ad_add_def ad_exist_def cs_read_def
  cs_send_def ac_send_def ac_receive_def ac_set_def halted_def pbind_apply pthen_apply pcatch_apply le_at_def be_value_def

lemma tiny_simps: "kc_reply tiny_codec m = [7]" "kc_id tiny_codec b = ''a''"
  by (simp_all add: tiny_codec_def)

lemma tiny_start:
  "core_started ''c'' ''ip'' 1 1 = \<lparr>co_next = 0, co_comms = (\<lambda>_. \<lparr>cm_reading = NotReading, cm_wire = [], cm_writes = []\<rparr>),
     co_sessions = (\<lambda>_. \<lparr>cs_key = [], cs_description = None\<rparr>), co_directory = [], co_search = cl_new ''c'' ''ip'' 1,
     co_accepts = 1, co_threads = [True], co_stopped = False\<rparr>"
  by (simp add: core_started_def srv_run_def core_new_def srv_do_accept_def pbind_apply pthen_apply)

lemma tiny_eval:
  "fst (core_events tiny_codec tiny_events (core_started ''c'' ''ip'' 1 1)) = Inr ()" "idle tiny_core 0"
  "co_directory tiny_core = [(''a'', 0)]" "co_sessions tiny_core 0 = \<lparr>cs_key = ''a'', cs_description = None\<rparr>"
  "co_search tiny_core = cl_new ''c'' ''ip'' 1"
  unfolding tiny_core_def tiny_events_def tiny_start
  by (simp_all add: tiny_steps idle_def tiny_simps Let_def)

lemma tiny_run: "core_events tiny_codec tiny_events (core_started ''c'' ''ip'' 1 1) = (Inr (), tiny_core)"
  unfolding tiny_core_def using tiny_eval(1) by (metis prod.collapse)

lemma tiny_client:
  "cl_listening (co_search tiny_core)" "map_of (cl_handles (co_search tiny_core)) i = None" "cl_pending (co_search tiny_core) = []"
  by (simp_all add: tiny_eval cl_new_def)

lemma directory_lists_serving_witness: "srv_nb_agents tiny_core = card {c. serving tiny_core c} \<and> serving tiny_core 0"
  using directory_lists_serving[OF tiny_run] idle_serving[OF tiny_eval(2)] by blast

lemma core_message_routed_witness:
  "\<exists>w'. core_events tiny_codec (arrives 0 []) tiny_core = (Inr (), w') \<and>
     sent_to tiny_codec 0 (RContent 5 [] ''t'' 1 ''a'' NoPayload) tiny_core w' \<and>
     leaves_whole tiny_codec 0 (ac_frame [7]) tiny_core w'"
proof -
  let ?msg = "\<lparr>am_dialogue_id = 1, am_destination = ''a'', am_target_uri = ''t'', am_source_uri = [], am_payload = NoPayload\<rparr>"
  have q: "kc_envelope tiny_codec [] = \<lparr>qe_msg_id = 5, qe_agent_uri = ''u'', qe_request = QSendMessage ?msg\<rparr>"
    by (simp add: tiny_codec_def)
  have u: "oef_parseAgent (am_destination ?msg) oef_uri_new = Inr (oef_uri_new\<lparr>ou_agentKey := ''a''\<rparr>)"
    by (simp add: oef_parseAgent_def)
  show ?thesis
    using core_message_routed[OF tiny_run tiny_eval(2) _ _ u, of "[]"] by (auto simp: q tiny_eval tiny_simps)
qed

lemma core_search_answered_witness:
  "\<exists>w'. core_events tiny_codec (search_events 0 0 [1] [[0, 0, 0, 1], [0, 0, 0, 1, 10, 7]] [10] [1]) tiny_core = (Inr (), w') \<and>
    sent_to tiny_codec 0 (RAgentsWide 5 []) tiny_core w'"
proof -
  let ?e = "\<lparr>qe_msg_id = 5, qe_agent_uri = ''u'', qe_request = QSearchServicesWide small_query\<rparr>"
  have e: "kc_envelope tiny_codec [1] = ?e" "kc_search tiny_codec = small_codec" by (simp_all add: tiny_codec_def)
  have s: "search_of (qe_request ?e) = Some (True, small_query)" by (simp add: search_of_def)
  have i: "10 = ucast (generate_smsg_id (kc_hash tiny_codec) (cs_key (co_sessions tiny_core 0)) (qe_msg_id ?e))"
    by (simp add: tiny_codec_def generate_smsg_id_def push_bit_eq_mult)
  have h: "parse_header (kc_search tiny_codec) [10] = Some small_header" using small_arrival(3) by (simp add: e)
  have l: "length (search_frame (kc_search tiny_codec) (kc_hash tiny_codec) True small_query (cs_key (co_sessions tiny_core 0))
      (qe_msg_id ?e) (co_search tiny_core)) = 10"
    unfolding search_frame_def e(2) i[symmetric] small_frame by simp
  have f: "found (QSearchServicesWide small_query) 5 (ld_success small_header) (parse_search (kc_search tiny_codec) [1]) = RAgentsWide 5 []"
    by (simp add: found_def small_header_def e small_codec_def)
  show ?thesis
    using core_search_answered[OF tiny_eval(2) _ e(1) s tiny_client(1,2) i small_arrival(1,2) h small_arrival(4), where
        parts = "[[0, 0, 0, 1], [0, 0, 0, 1, 10, 7]]"] l
    by (auto simp: f tiny_client(3) simp del: core_events.simps)
qed

lemma unregister_ends_server_witness: "fst (core_events tiny_codec (arrives 0 [2]) tiny_core) = Inl Aborted"
  using unregister_ends_server[OF tiny_eval(2), of "[2]" tiny_codec _ _ "[]"] by (simp add: tiny_codec_def)


end
