(* ===== verification/PublicKeys.thy ===== *)
theory PublicKeys
  imports Session "HOL-Library.AList"
begin

text \<open>
  \<^verbatim>\<open>mt-core/secure/experimental/cpp/public_key_utils.hpp\<close> and \<^verbatim>\<open>.cpp\<close>: the wrappers of certificates and
  public keys that the TLS listener uses, and \<^verbatim>\<open>MtCore::load_ssl_pub_keys\<close>, which fills the white list. The
  functions of OpenSSL are a parameter: a certificate \<open>'x\<close> may hold a key \<open>'k\<close>, a key has a base type and may give
  an RSA key \<open>'r\<close>, an RSA key may be printed. A handle of OpenSSL is a number, with the count of its references.
\<close>

subsection \<open>The library\<close>

datatype pk_type = EVP_PKEY_RSA | EVP_PKEY_RSA2 | EVP_PKEY_OTHER int

record ('x, 'k, 'r) openssl =
  X509_get_pubkey :: "'x \<Rightarrow> 'k option"
  PEM_read_PUBKEY :: "string \<Rightarrow> 'k option"
  EVP_PKEY_base_id :: "'k \<Rightarrow> pk_type"
  EVP_PKEY_get1_RSA :: "'k \<Rightarrow> 'r option"
  EVP_PKEY_cmp :: "'k \<Rightarrow> 'k \<Rightarrow> int"
  RSA_print :: "'r \<Rightarrow> string option"
  BIO_new_mem :: bool
  BIO_new_base64 :: bool
  BIO_base64_text :: "string \<Rightarrow> string"
  ERR_text :: string

text \<open>\<^verbatim>\<open>fopen\<close> for reading: the message of \<^verbatim>\<open>strerror\<close>, or the contents of the file.\<close>

type_synonym file_system = "string \<Rightarrow> string + string"

definition path_c_str :: "string \<Rightarrow> string" where
  "path_c_str s = takeWhile (\<lambda>c. c \<noteq> CHR 0x00) s"

subsection \<open>Certificates and keys\<close>

definition X509CertP :: "('x, 'k, 'r) openssl \<Rightarrow> 'x option \<Rightarrow> exn + 'x" where
  "X509CertP ssl peer = (case peer of None \<Rightarrow> Inl (RuntimeError (ERR_text ssl)) | Some x \<Rightarrow> Inr x)"

definition evp_from_cert :: "('x, 'k, 'r) openssl \<Rightarrow> 'x \<Rightarrow> exn + 'k" where
  "evp_from_cert ssl cert = (case X509_get_pubkey ssl cert of None \<Rightarrow> Inl (RuntimeError (ERR_text ssl)) | Some k \<Rightarrow> Inr k)"

definition evp_from_file :: "('x, 'k, 'r) openssl \<Rightarrow> file_system \<Rightarrow> string \<Rightarrow> exn + 'k" where
  "evp_from_file ssl fopen pem_file_path = (case fopen (path_c_str pem_file_path) of
     Inl e \<Rightarrow> Inl (RuntimeError e)
   | Inr text \<Rightarrow> (case PEM_read_PUBKEY ssl text of None \<Rightarrow> Inl (RuntimeError (ERR_text ssl)) | Some k \<Rightarrow> Inr k))"

definition evp_eq :: "('x, 'k, 'r) openssl \<Rightarrow> 'k \<Rightarrow> 'k \<Rightarrow> bool" where
  "evp_eq ssl a b \<longleftrightarrow> EVP_PKEY_cmp ssl a b = 1"

text \<open>
  The constructor of \<^verbatim>\<open>RSAKey\<close> makes an exception when there is no RSA key, and does not throw it: the wrapper then
  holds a null pointer, which \<^verbatim>\<open>RSA_print\<close> follows.
\<close>

definition RSAKey :: "('x, 'k, 'r) openssl \<Rightarrow> 'k \<Rightarrow> 'r option" where
  "RSAKey ssl k = EVP_PKEY_get1_RSA ssl k"

definition rsa_to_string :: "('x, 'k, 'r) openssl \<Rightarrow> 'r option \<Rightarrow> exn + string" where
  "rsa_to_string ssl rsa =
     (if \<not> BIO_new_mem ssl then Inr []
      else case rsa of
        None \<Rightarrow> Inl Undefined
      | Some r \<Rightarrow> (case RSA_print ssl r of None \<Rightarrow> Inr [] | Some text \<Rightarrow> Inr text))"

text \<open>
  The base64 filter is pushed in front of the memory; when there is no filter, \<^verbatim>\<open>mem\<close> is the memory itself, and the
  flags of a null pointer are set when there is neither. \<open>BIO_base64_text\<close> is what the memory holds of a text written through
  the filter.
\<close>

definition rsa_to_string_base64 :: "('x, 'k, 'r) openssl \<Rightarrow> 'r option \<Rightarrow> exn + string" where
  "rsa_to_string_base64 ssl rsa =
     (if \<not> BIO_new_mem ssl \<and> \<not> BIO_new_base64 ssl then Inl Undefined
      else if \<not> BIO_new_base64 ssl then Inr []
      else case rsa of
        None \<Rightarrow> Inl Undefined
      | Some r \<Rightarrow> if \<not> BIO_new_mem ssl then Inr []
                  else (case RSA_print ssl r of None \<Rightarrow> Inr [] | Some text \<Rightarrow> Inr (BIO_base64_text ssl text)))"

text \<open>Both texts of a key: what a conversion throws as a \<^verbatim>\<open>std::exception\<close> leaves the text empty.\<close>

definition evp_text :: "('x, 'k, 'r) openssl \<Rightarrow> ('r option \<Rightarrow> exn + string) \<Rightarrow> 'k \<Rightarrow> exn + string" where
  "evp_text ssl text_of k =
     (if EVP_PKEY_base_id ssl k = EVP_PKEY_RSA \<or> EVP_PKEY_base_id ssl k = EVP_PKEY_RSA2
      then (case text_of (RSAKey ssl k) of
              Inl e \<Rightarrow> if is_std_exception e then Inr [] else Inl e
            | Inr t \<Rightarrow> Inr t)
      else Inr [])"

definition evp_to_string :: "('x, 'k, 'r) openssl \<Rightarrow> 'k \<Rightarrow> exn + string" where
  "evp_to_string ssl k = evp_text ssl (rsa_to_string ssl) k"

definition evp_to_string_base64 :: "('x, 'k, 'r) openssl \<Rightarrow> 'k \<Rightarrow> exn + string" where
  "evp_to_string_base64 ssl k = evp_text ssl (rsa_to_string_base64 ssl) k"

definition evp_less :: "('x, 'k, 'r) openssl \<Rightarrow> 'k \<Rightarrow> 'k \<Rightarrow> exn + bool" where
  "evp_less ssl a b = ebind (evp_to_string ssl a) (\<lambda>s. ebind (evp_to_string ssl b) (\<lambda>t. Inr (s < t)))"

subsection \<open>The modulus\<close>

definition modulus_text :: "string \<Rightarrow> string" where
  "modulus_text rsa_str = (let PREFIX = 35; SUFFIX = 28 in
     if length rsa_str < PREFIX + SUFFIX then [] else take (length rsa_str - PREFIX - SUFFIX) (drop PREFIX rsa_str))"

definition short_text :: "string \<Rightarrow> string" where
  "short_text rsa_str_mod = (let PREFIX = 5; NBYTES = 23 in
     if length rsa_str_mod < PREFIX + NBYTES then [] else take NBYTES (drop PREFIX rsa_str_mod))"

definition RSA_Modulus :: "('x, 'k, 'r) openssl \<Rightarrow> 'k \<Rightarrow> exn + string" where
  "RSA_Modulus ssl k = ebind (evp_to_string ssl k) (\<lambda>s. Inr (modulus_text s))"

definition RSA_Modulus_short :: "('x, 'k, 'r) openssl \<Rightarrow> 'k \<Rightarrow> exn + string" where
  "RSA_Modulus_short ssl k = ebind (RSA_Modulus ssl k) (\<lambda>s. Inr (short_text s))"

subsection \<open>The white list\<close>

text \<open>
  \<^verbatim>\<open>load_ssl_pub_keys\<close>: each line that is not empty is the path of a file with one key. Announcing a key prints its
  short modulus. A file that cannot be opened has no lines.
\<close>

definition load_line :: "('x, 'k, 'r) openssl \<Rightarrow> file_system \<Rightarrow> string \<Rightarrow> (string list, unit) prog" where
  "load_line ssl fopen line =
     pbind (plift (evp_from_file ssl fopen line)) (\<lambda>pub_key.
     pbind (plift (RSA_Modulus_short ssl pub_key)) (\<lambda>_.
     pbind (plift (evp_to_string ssl pub_key)) (\<lambda>text. pmodify (List.insert text))))"

fun load_lines :: "('x, 'k, 'r) openssl \<Rightarrow> file_system \<Rightarrow> string list \<Rightarrow> (string list, unit) prog" where
  "load_lines ssl fopen [] = pret ()"
| "load_lines ssl fopen (line # lines) =
     (if line = [] then load_lines ssl fopen lines
      else pthen (pcatch (load_line ssl fopen line) (\<lambda>e. if is_std_exception e then pret () else pthrow e))
                 (load_lines ssl fopen lines))"

definition load_ssl_pub_keys :: "('x, 'k, 'r) openssl \<Rightarrow> file_system \<Rightarrow> string \<Rightarrow> (string list, bool) prog" where
  "load_ssl_pub_keys ssl fopen white_list_file = pcatch
     (pthen (load_lines ssl fopen (case fopen (path_c_str white_list_file) of Inl _ \<Rightarrow> [] | Inr text \<Rightarrow> getline_split (CHR 0x0A) text))
            (pret True))
     (\<lambda>e. if is_std_exception e then pret False else pthrow e)"

text \<open>What \<^verbatim>\<open>InitialSslHandshakeTaskFactory\<close> sees of a loaded list, given the key of the peer of each connection.\<close>

definition tls_of :: "('x, 'k, 'r) openssl \<Rightarrow> (nat \<Rightarrow> 'k) \<Rightarrow> string list \<Rightarrow> bool \<Rightarrow> tls" where
  "tls_of ssl peer wl enabled = \<lparr>
     tl_peer_key = (\<lambda>c. case evp_to_string ssl (peer c) of Inl _ \<Rightarrow> [] | Inr s \<Rightarrow> s),
     tl_short = (\<lambda>s. short_text (modulus_text s)), tl_white_list = wl, tl_enabled = enabled\<rparr>"

subsection \<open>Ownership of keys\<close>

text \<open>
  An \<^verbatim>\<open>EvpPublicKey\<close> object holds a handle: copying counts one reference more, the destructor gives one back, and
  the handle with the last reference is freed. \<open>up\<close> is what \<^verbatim>\<open>EVP_PKEY_up_ref\<close> returns. Each moving operation takes
  its operand by reference to const and does what the copying one does.
\<close>

record 'k pk_store =
  ps_keys :: "nat \<Rightarrow> ('k \<times> nat) option"
  ps_fresh :: nat
  ps_objs :: "(nat \<times> nat) list"

definition ps_empty :: "'k pk_store" where
  "ps_empty = \<lparr>ps_keys = (\<lambda>_. None), ps_fresh = 0, ps_objs = []\<rparr>"

definition pk_handle :: "nat \<Rightarrow> ('k pk_store, nat) prog" where
  "pk_handle obj = (\<lambda>s. case map_of (ps_objs s) obj of None \<Rightarrow> (Inl Undefined, s) | Some h \<Rightarrow> (Inr h, s))"

definition EVP_PKEY_up_ref :: "bool \<Rightarrow> nat \<Rightarrow> ('k pk_store, bool) prog" where
  "EVP_PKEY_up_ref up h = (\<lambda>s. case ps_keys s h of
     None \<Rightarrow> (Inl Undefined, s)
   | Some (k, n) \<Rightarrow> if up then (Inr True, s\<lparr>ps_keys := (ps_keys s)(h \<mapsto> (k, n + 1))\<rparr>) else (Inr False, s))"

definition EVP_PKEY_free :: "nat \<Rightarrow> ('k pk_store, unit) prog" where
  "EVP_PKEY_free h = (\<lambda>s. case ps_keys s h of
     None \<Rightarrow> (Inl Undefined, s)
   | Some (k, n) \<Rightarrow> (Inr (), s\<lparr>ps_keys := (ps_keys s)(h := if n \<le> 1 then None else Some (k, n - 1))\<rparr>))"

definition pk_make :: "nat \<Rightarrow> 'k \<Rightarrow> ('k pk_store, unit) prog" where
  "pk_make obj k = pmodify (\<lambda>s. s\<lparr>ps_keys := (ps_keys s)(ps_fresh s \<mapsto> (k, 1)), ps_fresh := ps_fresh s + 1,
     ps_objs := (obj, ps_fresh s) # ps_objs s\<rparr>)"

definition pk_copy :: "bool \<Rightarrow> nat \<Rightarrow> nat \<Rightarrow> ('k pk_store, unit) prog" where
  "pk_copy up obj original =
     pbind (pk_handle original) (\<lambda>h.
     pbind (EVP_PKEY_up_ref up h) (\<lambda>ok.
     if ok then pmodify (\<lambda>s. s\<lparr>ps_objs := (obj, h) # ps_objs s\<rparr>) else pthrow (RuntimeError [])))"

definition pk_assign :: "bool \<Rightarrow> nat \<Rightarrow> nat \<Rightarrow> ('k pk_store, unit) prog" where
  "pk_assign up obj original =
     pbind (pk_handle original) (\<lambda>h.
     pthen (pmodify (\<lambda>s. s\<lparr>ps_objs := AList.update obj h (ps_objs s)\<rparr>))
    (pbind (EVP_PKEY_up_ref up h) (\<lambda>ok.
     if ok then pret () else pthrow (RuntimeError []))))"

definition pk_destroy :: "nat \<Rightarrow> ('k pk_store, unit) prog" where
  "pk_destroy obj =
     pbind (pk_handle obj) (\<lambda>h.
     pthen (EVP_PKEY_free h) (pmodify (\<lambda>s. s\<lparr>ps_objs := AList.delete obj (ps_objs s)\<rparr>)))"

text \<open>
  The operations, each count of references with whether it succeeds. A constructor that throws builds no object; its caller, or the caller of an
  assignment that throws, catches the exception and goes on.
\<close>

datatype 'k pk_op = MakeKey nat 'k | CopyKey bool nat nat | AssignKey bool nat nat | DestroyKey nat

fun pk_run :: "'k pk_op \<Rightarrow> ('k pk_store, unit) prog" where
  "pk_run (MakeKey obj k) = pk_make obj k"
| "pk_run (CopyKey up obj original) = pk_copy up obj original"
| "pk_run (AssignKey up obj original) = pk_assign up obj original"
| "pk_run (DestroyKey obj) = pk_destroy obj"

fun pk_runs :: "'k pk_op list \<Rightarrow> ('k pk_store, unit) prog" where
  "pk_runs [] = pret ()"
| "pk_runs (op # ops) = pthen (pcatch (pk_run op) (\<lambda>e. if is_std_exception e then pret () else pthrow e)) (pk_runs ops)"

text \<open>What the language gives: objects are built once, used while they are alive and destroyed once.\<close>

fun scoped :: "nat set \<Rightarrow> 'k pk_op list \<Rightarrow> bool" where
  "scoped L [] \<longleftrightarrow> True"
| "scoped L (MakeKey obj k # ops) \<longleftrightarrow> obj \<notin> L \<and> scoped (insert obj L) ops"
| "scoped L (CopyKey up obj original # ops) \<longleftrightarrow> obj \<notin> L \<and> original \<in> L \<and> scoped (if up then insert obj L else L) ops"
| "scoped L (AssignKey up obj original # ops) \<longleftrightarrow> obj \<in> L \<and> original \<in> L \<and> scoped L ops"
| "scoped L (DestroyKey obj # ops) \<longleftrightarrow> obj \<in> L \<and> scoped (L - {obj}) ops"

fun assignments :: "'k pk_op list \<Rightarrow> nat" where
  "assignments [] = 0"
| "assignments (AssignKey up obj original # ops) = Suc (assignments ops)"
| "assignments (op # ops) = assignments ops"

definition references :: "'k pk_store \<Rightarrow> nat \<Rightarrow> nat" where
  "references s h = (case ps_keys s h of None \<Rightarrow> 0 | Some (k, n) \<Rightarrow> n)"

definition holders :: "'k pk_store \<Rightarrow> nat \<Rightarrow> nat" where
  "holders s h = length (filter (\<lambda>p. snd p = h) (ps_objs s))"

definition owned :: "'k pk_store \<Rightarrow> bool" where
  "owned s \<longleftrightarrow> (\<forall>h. holders s h \<le> references s h) \<and> (\<forall>h k n. ps_keys s h = Some (k, n) \<longrightarrow> 1 \<le> n \<and> h < ps_fresh s) \<and>
     distinct (map fst (ps_objs s))"

lemma holding_update:
  "map_of xs obj = Some g \<Longrightarrow> length (filter (\<lambda>p. snd p = h') (AList.update obj h xs)) + (if g = h' then 1 else 0) =
     length (filter (\<lambda>p. snd p = h') xs) + (if h = h' then 1 else 0)"
  by (induction xs) (auto split: if_splits)

lemma delete_absent: "obj \<notin> fst ` set xs \<Longrightarrow> AList.delete obj xs = xs"
  by (induction xs) auto

lemma holding_delete:
  "\<lbrakk>distinct (map fst xs); map_of xs obj = Some g\<rbrakk> \<Longrightarrow>
   length (filter (\<lambda>p. snd p = h') (AList.delete obj xs)) + (if g = h' then 1 else 0) = length (filter (\<lambda>p. snd p = h') xs)"
  by (induction xs) (auto simp: delete_absent split: if_splits)

lemma length_delete_one: "\<lbrakk>distinct (map fst xs); map_of xs obj = Some g\<rbrakk> \<Longrightarrow> Suc (length (AList.delete obj xs)) = length xs"
  by (induction xs) (auto simp: delete_absent split: if_splits)

lemma length_update_present: "obj \<in> fst ` set xs \<Longrightarrow> length (AList.update obj h xs) = length xs"
  by (induction xs) auto

definition outstanding :: "'k pk_store \<Rightarrow> nat" where
  "outstanding s = sum (references s) {..<ps_fresh s}"

definition balanced :: "nat set \<Rightarrow> nat \<Rightarrow> 'k pk_store \<Rightarrow> bool" where
  "balanced L m s \<longleftrightarrow> owned s \<and> fst ` set (ps_objs s) = L \<and> outstanding s = length (ps_objs s) + m"

lemma sum_at:
  fixes f :: "nat \<Rightarrow> nat"
  assumes "h < n"
  shows "sum (f(h := v)) {..<n} + f h = sum f {..<n} + v"
proof -
  have "sum (f(h := v)) ({..<n} - {h}) = sum f ({..<n} - {h})" by (intro sum.cong) auto
  then show ?thesis
    using assms by (simp add: sum.remove [of "{..<n}" h "f(h := v)"] sum.remove [of "{..<n}" h f] fun_upd_same del: fun_upd_apply)
qed

text \<open>The handle of a living object is a key that is not freed.\<close>

lemma live_handle:
  assumes "owned s" "obj \<in> fst ` set (ps_objs s)"
  obtains h k n where "map_of (ps_objs s) obj = Some h" "ps_keys s h = Some (k, n)" "1 \<le> n" "h < ps_fresh s"
    "holders s h \<le> n" "1 \<le> holders s h"
proof -
  obtain h where h: "map_of (ps_objs s) obj = Some h" using assms(2) by (metis map_of_eq_None_iff not_None_eq)
  then have "(obj, h) \<in> set (filter (\<lambda>p. snd p = h) (ps_objs s))" by (auto dest: map_of_SomeD)
  then have 1: "1 \<le> holders s h" unfolding holders_def by (metis One_nat_def Suc_leI length_pos_if_in_set)
  moreover have 2: "holders s h \<le> references s h" using assms(1) by (simp add: owned_def)
  ultimately obtain k n where kn: "ps_keys s h = Some (k, n)" by (auto simp: references_def split: option.splits)
  then show thesis using that [OF h kn] 1 2 assms(1) by (auto simp: owned_def references_def)
qed

lemma balanced_make:
  assumes "balanced L m s" "obj \<notin> L"
  shows "balanced (insert obj L) m (snd (pk_make obj k s))"
proof -
  let ?s = "snd (pk_make obj k s)"
  have o: "owned s" and L: "fst ` set (ps_objs s) = L" and t: "outstanding s = length (ps_objs s) + m"
    using assms(1) by (simp_all add: balanced_def)
  have free: "ps_keys s (ps_fresh s) = None"
    using o by (cases "ps_keys s (ps_fresh s)") (auto simp: owned_def)
  have r: "references ?s = (references s)(ps_fresh s := 1)" and f: "ps_fresh ?s = Suc (ps_fresh s)"
    and obs: "ps_objs ?s = (obj, ps_fresh s) # ps_objs s"
    by (auto simp: pk_make_def references_def)
  have hs: "holders ?s h = holders s h + (if h = ps_fresh s then 1 else 0)" for h
    by (simp add: holders_def obs)
  have zero: "holders s (ps_fresh s) = 0"
    using o free unfolding owned_def references_def by (metis le_zero_eq option.simps(4))
  have "outstanding ?s = outstanding s + 1" by (simp add: outstanding_def r f)
  moreover have "owned ?s"
  proof -
    have "holders ?s h \<le> references ?s h" for h using o by (simp add: hs r zero owned_def)
    moreover have "1 \<le> n \<and> h < ps_fresh ?s" if "ps_keys ?s h = Some (k', n)" for h k' n
      using that o by (auto simp: pk_make_def owned_def less_Suc_eq split: if_splits)
    moreover have "distinct (map fst (ps_objs ?s))" using o L assms(2) by (auto simp: obs owned_def)
    ultimately show ?thesis unfolding owned_def by blast
  qed
  ultimately show ?thesis using L t by (simp add: balanced_def obs)
qed

lemma balanced_copy:
  assumes "balanced L m s" "obj \<notin> L" "original \<in> L"
  shows "fst (pk_copy True obj original s) = Inr () \<and> balanced (insert obj L) m (snd (pk_copy True obj original s))"
proof -
  have o: "owned s" and L: "fst ` set (ps_objs s) = L" and t: "outstanding s = length (ps_objs s) + m"
    using assms(1) by (simp_all add: balanced_def)
  obtain h k n where h: "map_of (ps_objs s) original = Some h" "ps_keys s h = Some (k, n)" "1 \<le> n" "h < ps_fresh s"
    "holders s h \<le> n" by (rule live_handle [OF o]) (use assms(3) L in auto)
  let ?s = "s\<lparr>ps_keys := (ps_keys s)(h \<mapsto> (k, n + 1)), ps_objs := (obj, h) # ps_objs s\<rparr>"
  have run: "pk_copy True obj original s = (Inr (), ?s)"
    using h by (simp add: pk_copy_def pk_handle_def EVP_PKEY_up_ref_def pbind_apply)
  have r: "references ?s = (references s)(h := n + 1)" and rh: "references s h = n" using h by (auto simp: references_def)
  have hs: "holders ?s g = holders s g + (if g = h then 1 else 0)" for g by (simp add: holders_def)
  have "outstanding ?s = outstanding s + 1"
    unfolding outstanding_def r using sum_at [OF h(4), of "references s" "n + 1"] by (simp add: rh)
  moreover have "owned ?s"
  proof -
    have "holders ?s g \<le> references ?s g" for g
      using o h unfolding hs r by (auto simp: owned_def le_Suc_eq)
    moreover have "1 \<le> n' \<and> g < ps_fresh ?s" if "ps_keys ?s g = Some (k', n')" for g k' n'
      using that o h by (auto simp: owned_def split: if_splits)
    moreover have "distinct (map fst (ps_objs ?s))" using o L assms(2) by (auto simp: owned_def)
    ultimately show ?thesis unfolding owned_def by blast
  qed
  ultimately show ?thesis using L t run by (simp add: balanced_def)
qed

lemma balanced_assign:
  assumes "balanced L m s" "obj \<in> L" "original \<in> L"
  shows "fst (pk_assign True obj original s) = Inr () \<and> balanced L (Suc m) (snd (pk_assign True obj original s))"
proof -
  have o: "owned s" and L: "fst ` set (ps_objs s) = L" and t: "outstanding s = length (ps_objs s) + m"
    using assms(1) by (simp_all add: balanced_def)
  obtain h k n where h: "map_of (ps_objs s) original = Some h" "ps_keys s h = Some (k, n)" "1 \<le> n" "h < ps_fresh s"
    "holders s h \<le> n" by (rule live_handle [OF o]) (use assms(3) L in auto)
  obtain g where g: "map_of (ps_objs s) obj = Some g" by (rule live_handle [OF o]) (use assms(2) L in auto)
  let ?s = "s\<lparr>ps_objs := AList.update obj h (ps_objs s), ps_keys := (ps_keys s)(h \<mapsto> (k, n + 1))\<rparr>"
  have run: "pk_assign True obj original s = (Inr (), ?s)"
    using h by (simp add: pk_assign_def pk_handle_def EVP_PKEY_up_ref_def pbind_apply pthen_apply)
  have r: "references ?s = (references s)(h := n + 1)" and rh: "references s h = n" using h by (auto simp: references_def)
  have hs: "holders ?s i \<le> holders s i + (if i = h then 1 else 0)" for i
    using holding_update [OF g, of i h] by (auto simp: holders_def split: if_splits)
  have keys: "map fst (ps_objs ?s) = map fst (ps_objs s)" using assms(2) L by (auto simp: update_keys)
  have "outstanding ?s = outstanding s + 1"
    unfolding outstanding_def r using sum_at [OF h(4), of "references s" "n + 1"] by (simp add: rh)
  moreover have "owned ?s"
  proof -
    have "holders ?s i \<le> references ?s i" for i
      using o h hs [of i] unfolding r by (cases "i = h") (auto simp: owned_def intro: le_trans)
    moreover have "1 \<le> n' \<and> i < ps_fresh ?s" if "ps_keys ?s i = Some (k', n')" for i k' n'
      using that o h by (auto simp: owned_def split: if_splits)
    moreover have "distinct (map fst (ps_objs ?s))" using o keys by (simp add: owned_def)
    ultimately show ?thesis unfolding owned_def by blast
  qed
  moreover have "length (ps_objs ?s) = length (ps_objs s)" "fst ` set (ps_objs ?s) = L"
    using keys L map_eq_imp_length_eq [OF keys] by (simp, metis keys list.set_map L)
  ultimately show ?thesis using t run by (simp add: balanced_def)
qed

lemma balanced_destroy:
  assumes "balanced L m s" "obj \<in> L"
  shows "fst (pk_destroy obj s) = Inr () \<and> balanced (L - {obj}) m (snd (pk_destroy obj s))"
proof -
  have o: "owned s" and L: "fst ` set (ps_objs s) = L" and t: "outstanding s = length (ps_objs s) + m"
    using assms(1) by (simp_all add: balanced_def)
  obtain h k n where h: "map_of (ps_objs s) obj = Some h" "ps_keys s h = Some (k, n)" "1 \<le> n" "h < ps_fresh s"
    "holders s h \<le> n" "1 \<le> holders s h" by (rule live_handle [OF o]) (use assms(2) L in auto)
  let ?s = "s\<lparr>ps_keys := (ps_keys s)(h := if n \<le> 1 then None else Some (k, n - 1)), ps_objs := AList.delete obj (ps_objs s)\<rparr>"
  have run: "pk_destroy obj s = (Inr (), ?s)"
    using h by (simp add: pk_destroy_def pk_handle_def EVP_PKEY_free_def pbind_apply pthen_apply)
  have r: "references ?s = (references s)(h := n - 1)" and rh: "references s h = n" using h by (auto simp: references_def)
  have d: "distinct (map fst (ps_objs s))" using o by (simp add: owned_def)
  have hs: "holders ?s i + (if h = i then 1 else 0) = holders s i" for i
    using holding_delete [OF d h(1), of i] by (simp add: holders_def)
  have "outstanding ?s + 1 = outstanding s"
    unfolding outstanding_def r using sum_at [OF h(4), of "references s" "n - 1"] h(3) by (simp add: rh)
  moreover have "Suc (length (ps_objs ?s)) = length (ps_objs s)" using length_delete_one [OF d h(1)] by simp
  moreover have "owned ?s"
  proof -
    have "holders ?s i \<le> references ?s i" for i
      using o h hs [of i] unfolding r by (cases "i = h") (auto simp: owned_def)
    moreover have "1 \<le> n' \<and> i < ps_fresh ?s" if "ps_keys ?s i = Some (k', n')" for i k' n'
      using that o h by (auto simp: owned_def split: if_splits)
    moreover have "distinct (map fst (ps_objs ?s))" using d by (simp add: distinct_delete)
    ultimately show ?thesis unfolding owned_def by blast
  qed
  moreover have "fst ` set (ps_objs ?s) = L - {obj}" using L by (auto simp: AList.delete_eq rev_image_eqI)
  ultimately show ?thesis using t run by (simp add: balanced_def)
qed

text \<open>No assignment finds that its key cannot be counted once more.\<close>

definition assignments_counted :: "'k pk_op list \<Rightarrow> bool" where
  "assignments_counted ops \<longleftrightarrow> (\<forall>op \<in> set ops. \<forall>up obj original. op = AssignKey up obj original \<longrightarrow> up)"

text \<open>A copy that cannot be counted throws and changes nothing.\<close>

lemma failed_copy:
  assumes "balanced L m s" "original \<in> L"
  shows "pk_copy False obj original s = (Inl (RuntimeError []), s)"
proof -
  have o: "owned s" and L: "fst ` set (ps_objs s) = L" using assms(1) by (simp_all add: balanced_def)
  obtain h k n where "map_of (ps_objs s) original = Some h" "ps_keys s h = Some (k, n)"
    by (rule live_handle [OF o]) (use assms(2) L in auto)
  then show ?thesis by (simp add: pk_copy_def pk_handle_def EVP_PKEY_up_ref_def pbind_apply)
qed

lemma balanced_runs:
  "\<lbrakk>balanced L m s; scoped L ops; assignments_counted ops\<rbrakk> \<Longrightarrow>
   fst (pk_runs ops s) = Inr () \<and> (\<exists>L'. balanced L' (m + assignments ops) (snd (pk_runs ops s)))"
proof (induction ops arbitrary: L m s)
  case (Cons op ops)
  have step: "\<exists>s' L' m'. pcatch (pk_run op) (\<lambda>e. if is_std_exception e then pret () else pthrow e) s = (Inr (), s') \<and>
      balanced L' m' s' \<and> scoped L' ops \<and> m + assignments (op # ops) = m' + assignments ops"
  proof (cases op)
    case (MakeKey obj k)
    then show ?thesis
      using balanced_make [OF Cons.prems(1)] Cons.prems(2) by (auto simp: pk_make_def pcatch_apply)
  next
    case (CopyKey up obj original)
    show ?thesis
    proof (cases up)
      case True
      then have "fst (pk_copy True obj original s) = Inr ()" "balanced (insert obj L) m (snd (pk_copy True obj original s))"
        using balanced_copy [OF Cons.prems(1), of obj original] Cons.prems(2) CopyKey by auto
      then show ?thesis using CopyKey True Cons.prems(2) by (auto simp: prod_eq_iff pcatch_apply split_beta intro!: exI)
    next
      case False
      then have "pk_run op s = (Inl (RuntimeError []), s)" "scoped L ops"
        using failed_copy [OF Cons.prems(1), of original obj] Cons.prems(2) CopyKey by auto
      then show ?thesis using CopyKey Cons.prems(1) by (auto simp: pcatch_apply is_std_exception_def)
    qed
  next
    case (AssignKey up obj original)
    then have up: "up" using Cons.prems(3) by (auto simp: assignments_counted_def)
    then have "fst (pk_assign True obj original s) = Inr ()" "balanced L (Suc m) (snd (pk_assign True obj original s))"
      using balanced_assign [OF Cons.prems(1), of obj original] Cons.prems(2) AssignKey by auto
    then show ?thesis using AssignKey up Cons.prems(2) by (auto simp: prod_eq_iff pcatch_apply split_beta intro!: exI)
  next
    case (DestroyKey obj)
    then have "fst (pk_destroy obj s) = Inr ()" "balanced (L - {obj}) m (snd (pk_destroy obj s))"
      using balanced_destroy [OF Cons.prems(1), of obj] Cons.prems(2) by auto
    then show ?thesis using DestroyKey Cons.prems(2) by (auto simp: prod_eq_iff pcatch_apply split_beta intro!: exI)
  qed
  then obtain s' L' m' where "pcatch (pk_run op) (\<lambda>e. if is_std_exception e then pret () else pthrow e) s = (Inr (), s')"
    "balanced L' m' s'" "scoped L' ops" "m + assignments (op # ops) = m' + assignments ops" by blast
  moreover have "assignments_counted ops" using Cons.prems(3) unfolding assignments_counted_def by (meson list.set_intros(2))
  ultimately show ?case using Cons.IH [of L' m' s'] by (simp add: pthen_apply del: pret_apply)
qed auto

lemma balanced_empty: "balanced {} 0 ps_empty"
  by (simp add: balanced_def owned_def ps_empty_def holders_def outstanding_def)

text \<open>
  C31. Keys are never used after they are freed, and what leaks is known exactly, as long as no assignment is refused the
  reference that it counts: whatever well-scoped sequence of constructions, copies, assignments and destructions of key objects is run,
  copies that are refused their reference and throw among them, nothing undefined happens, every living object
  holds a key that is not freed, and the references outstanding are one for each living object and one more for each
  assignment that was carried out, since an assignment never gives back the reference of the key it replaces. An assignment that is refused
  breaks this (\<open>failed_assignment_frees_twice\<close>).
\<close>

theorem keys_are_owned:
  assumes "scoped {} ops" "assignments_counted ops"
  shows "let (r, s) = pk_runs ops ps_empty in
    r = Inr () \<and> (\<forall>(obj, h) \<in> set (ps_objs s). ps_keys s h \<noteq> None) \<and>
    sum (references s) {..<ps_fresh s} = length (ps_objs s) + assignments ops"
proof -
  obtain L where b: "fst (pk_runs ops ps_empty) = Inr ()" "balanced L (assignments ops) (snd (pk_runs ops ps_empty))"
    using balanced_runs [OF balanced_empty assms] by auto
  have "ps_keys (snd (pk_runs ops ps_empty)) h \<noteq> None" if "(obj, h) \<in> set (ps_objs (snd (pk_runs ops ps_empty)))" for obj h
  proof -
    have o: "owned (snd (pk_runs ops ps_empty))" using b(2) by (simp add: balanced_def)
    then have "map_of (ps_objs (snd (pk_runs ops ps_empty))) obj = Some h" using that by (simp add: owned_def)
    moreover have "obj \<in> fst ` set (ps_objs (snd (pk_runs ops ps_empty)))" using that by force
    ultimately show ?thesis by (metis live_handle [OF o] option.distinct(1) option.inject)
  qed
  with b show ?thesis by (auto simp: balanced_def outstanding_def split_beta)
qed

theorem keys_are_owned_witness:
  "let s = snd (pk_runs [MakeKey 0 ''a'', MakeKey 1 ''b'', CopyKey False 2 0, AssignKey True 0 1, DestroyKey 0, DestroyKey 1] ps_empty)
   in ps_objs s = [] \<and> sum (references s) {..<ps_fresh s} = 1"
  using keys_are_owned [of "[MakeKey 0 ''a'', MakeKey 1 ''b'', CopyKey False 2 0, AssignKey True 0 1, DestroyKey 0, DestroyKey 1]"]
  by (simp add: pthen_apply pbind_apply pcatch_apply pk_make_def pk_copy_def pk_assign_def pk_destroy_def pk_handle_def EVP_PKEY_up_ref_def
      EVP_PKEY_free_def ps_empty_def assignments_counted_def is_std_exception_def)

text \<open>
  An assignment whose count of references fails leaves the object with a handle that it does not own: the
  destructors of the two objects then free the key twice.
\<close>

lemma failed_assignment_frees_twice:
  "fst (pk_runs [MakeKey 0 k, MakeKey 1 l, AssignKey False 0 1, DestroyKey 0, DestroyKey 1] ps_empty) = Inl Undefined"
  by (simp add: pthen_apply pbind_apply pcatch_apply is_std_exception_def pk_make_def pk_assign_def pk_destroy_def pk_handle_def EVP_PKEY_up_ref_def
      EVP_PKEY_free_def ps_empty_def)

subsection \<open>The white list as a gate\<close>

text \<open>RSA keys whose RSA part the library can give: none of the conversions is undefined.\<close>

definition rsa_present :: "('x, 'k, 'r) openssl \<Rightarrow> bool" where
  "rsa_present ssl \<longleftrightarrow> (\<forall>k. EVP_PKEY_base_id ssl k \<in> {EVP_PKEY_RSA, EVP_PKEY_RSA2} \<longrightarrow> EVP_PKEY_get1_RSA ssl k \<noteq> None)"

lemma text_defined: "rsa_present ssl \<Longrightarrow> \<exists>s. evp_to_string ssl k = Inr s"
  by (auto simp: evp_to_string_def evp_text_def rsa_to_string_def RSAKey_def rsa_present_def split: option.splits)

lemma text_of_other_key: "EVP_PKEY_base_id ssl k = EVP_PKEY_OTHER t \<Longrightarrow> evp_to_string ssl k = Inr []"
  by (simp add: evp_to_string_def evp_text_def)

lemma file_errors_are_std: "evp_from_file ssl fopen line = Inl e \<Longrightarrow> is_std_exception e"
  by (auto simp: evp_from_file_def is_std_exception_def split: sum.splits option.splits)

text \<open>The keys that the lines of a file name.\<close>

definition named_keys :: "('x, 'k, 'r) openssl \<Rightarrow> file_system \<Rightarrow> string list \<Rightarrow> string set" where
  "named_keys ssl fopen lines = {s. \<exists>line \<in> set lines. line \<noteq> [] \<and> (\<exists>k. evp_from_file ssl fopen line = Inr k \<and> evp_to_string ssl k = Inr s)}"

lemma load_lines_spec:
  assumes "rsa_present ssl"
  shows "\<exists>wl'. load_lines ssl fopen lines wl = (Inr (), wl') \<and> set wl' = set wl \<union> named_keys ssl fopen lines"
proof (induction lines arbitrary: wl)
  case Nil
  then show ?case by (simp add: named_keys_def)
next
  case (Cons line lines)
  show ?case
  proof (cases "line = [] \<or> (\<exists>e. evp_from_file ssl fopen line = Inl e)")
    case True
    then have "named_keys ssl fopen (line # lines) = named_keys ssl fopen lines" by (auto simp: named_keys_def)
    moreover have "load_lines ssl fopen (line # lines) wl = load_lines ssl fopen lines wl"
      using True file_errors_are_std [of ssl fopen line] by (auto simp: pthen_apply pcatch_apply load_line_def pbind_apply)
    ultimately show ?thesis using Cons.IH [of wl] by simp
  next
    case False
    then obtain k where l: "line \<noteq> []" and k: "evp_from_file ssl fopen line = Inr k"
      by (cases "evp_from_file ssl fopen line") auto
    obtain s where s: "evp_to_string ssl k = Inr s" using text_defined [OF assms] by blast
    have "named_keys ssl fopen (line # lines) = insert s (named_keys ssl fopen lines)"
      using l k s by (auto simp: named_keys_def)
    moreover have "load_lines ssl fopen (line # lines) wl = load_lines ssl fopen lines (List.insert s wl)"
      using l k s by (simp add: pthen_apply pcatch_apply load_line_def pbind_apply RSA_Modulus_short_def RSA_Modulus_def)
    ultimately show ?thesis using Cons.IH [of "List.insert s wl"] by auto
  qed
qed

text \<open>
  C24. Who passes a white list. Loading a file always reports success, also when the file cannot be opened, and leaves
  on the list the printed texts of the keys that its lines name, besides those that were there. So a TLS peer whose
  key the program cannot print (any key that is not RSA) is on the list exactly when the empty text is, which one
  line naming a key that is not RSA is enough for, whosever it is.
\<close>

theorem white_list_of_texts:
  assumes "rsa_present ssl" "load_ssl_pub_keys ssl fopen file [] = (r, wl)"
  shows "r = Inr True \<and> set wl = named_keys ssl fopen (case fopen (path_c_str file) of Inl _ \<Rightarrow> [] | Inr text \<Rightarrow> getline_split (CHR 0x0A) text) \<and>
    (\<forall>c t enabled. EVP_PKEY_base_id ssl (peer c) = EVP_PKEY_OTHER t \<longrightarrow>
       (tl_peer_key (tls_of ssl peer wl enabled) c \<in> set (tl_white_list (tls_of ssl peer wl enabled)) \<longleftrightarrow> [] \<in> set wl))"
proof -
  let ?lines = "case fopen (path_c_str file) of Inl _ \<Rightarrow> [] | Inr text \<Rightarrow> getline_split (CHR 0x0A) text"
  obtain wl' where "load_lines ssl fopen ?lines [] = (Inr (), wl')" "set wl' = named_keys ssl fopen ?lines"
    using load_lines_spec [OF assms(1), of fopen ?lines "[]"] by auto
  then show ?thesis using assms(2)
    by (auto simp: load_ssl_pub_keys_def pcatch_apply pthen_apply tls_of_def text_of_other_key)
qed

text \<open>A library with RSA keys, printed as a modulus, and elliptic keys; a list that names one elliptic key.\<close>

definition demo_openssl :: "(nat, string, string) openssl" where
  "demo_openssl = \<lparr>X509_get_pubkey = (\<lambda>_. None), PEM_read_PUBKEY = (\<lambda>text. if text = [] then None else Some text),
     EVP_PKEY_base_id = (\<lambda>k. if take 3 k = ''RSA'' then EVP_PKEY_RSA else EVP_PKEY_OTHER 408), EVP_PKEY_get1_RSA = Some,
     EVP_PKEY_cmp = (\<lambda>a b. if a = b then 1 else 0), RSA_print = Some, BIO_new_mem = True, BIO_new_base64 = True,
     BIO_base64_text = id, ERR_text = ''error''\<rparr>"

definition demo_files :: file_system where
  "demo_files path = (if path = ''list'' then Inr (''friend'' @ [CHR 0x0A])
     else if path = ''friend'' then Inr ''EC friend'' else Inl ''No such file or directory'')"

theorem white_list_of_texts_witness:
  "let wl = snd (load_ssl_pub_keys demo_openssl demo_files ''list'' []) in wl = [[]] \<and>
     tl_peer_key (tls_of demo_openssl (\<lambda>_. ''EC stranger'') wl True) 3 \<in> set wl"
proof -
  have p: "rsa_present demo_openssl" by (simp add: rsa_present_def demo_openssl_def)
  have wl: "snd (load_ssl_pub_keys demo_openssl demo_files ''list'' []) = [[]]"
    by (simp add: load_ssl_pub_keys_def load_line_def demo_openssl_def demo_files_def path_c_str_def pthen_apply pbind_apply
        pcatch_apply evp_from_file_def evp_to_string_def evp_text_def RSA_Modulus_short_def RSA_Modulus_def)
  from white_list_of_texts [OF p surjective_pairing, of demo_files "''list''" "\<lambda>_. ''EC stranger''"]
  have "tl_peer_key (tls_of demo_openssl (\<lambda>_. ''EC stranger'') [[]] True) 3 \<in> set (tl_white_list (tls_of demo_openssl (\<lambda>_. ''EC stranger'') [[]] True))"
    unfolding wl by (auto simp: demo_openssl_def)
  then show ?thesis unfolding wl by (simp add: tls_of_def Let_def)
qed

text \<open>Two keys of a type that cannot be printed are neither less than each other nor equal: a set ordered by \<open>evp_less\<close> takes them for one.\<close>

lemma unprintable_keys_are_equivalent:
  "\<lbrakk>EVP_PKEY_base_id ssl a = EVP_PKEY_OTHER t; EVP_PKEY_base_id ssl b = EVP_PKEY_OTHER u; EVP_PKEY_cmp ssl a b \<noteq> 1\<rbrakk> \<Longrightarrow>
   evp_less ssl a b = Inr False \<and> evp_less ssl b a = Inr False \<and> \<not> evp_eq ssl a b"
  by (simp add: evp_less_def text_of_other_key evp_eq_def)

subsection \<open>The identity of a TLS agent\<close>

lemma short_text_of_modulus:
  assumes "length pre = 40" "length bytes = 23" "28 \<le> length suf"
  shows "short_text (modulus_text (pre @ bytes @ suf)) = bytes"
  using assms by (simp add: short_text_def modulus_text_def Let_def)

text \<open>
  Seven bytes are an identity. An agent that connects with TLS is registered under the 23 characters of its printed
  key from the 41st: two RSA keys whose texts agree there are one agent, whatever the rest of the modulus is, and a
  text too short for them is the empty identity, as is that of each key that cannot be printed.
\<close>

lemma tls_identity_is_23_characters:
  "short_text (modulus_text text) = (if length text < 91 then [] else take 23 (drop 40 text))"
  by (auto simp: short_text_def modulus_text_def Let_def min_def drop_take ac_simps)

end
