(* ===== verification/Connections.thy ===== *)
theory Connections
  imports PublicKeys Endpoint
begin

text \<open>
  The other kinds of connection, on top of \<^verbatim>\<open>EndpointBase\<close>: \<^verbatim>\<open>EndpointBase::connect\<close>, the websocket of
  \<^verbatim>\<open>EndpointWebSocket.cpp\<close>, the TLS connection of \<^verbatim>\<open>EndpointSSL.cpp\<close> and the forwarding wrappers. A call of the
  virtual \<^verbatim>\<open>async_read\<close> is the effect \<open>AsyncRead\<close>; what each kind does with it is here.
\<close>

subsection \<open>Connecting\<close>

text \<open>
  \<^verbatim>\<open>connect\<close> tests an error code that nothing sets: an address that refuses throws out of it. The counter of
  identities is beside the endpoint and its own identity.
\<close>

record ('m, 'p) connecting =
  cg_endpoint :: "('m, 'p) endpoint"
  cg_ident :: nat
  cg_next_ident :: nat

definition ep_connect :: "exn + 'a list \<Rightarrow> ('a \<Rightarrow> exn + unit) \<Rightarrow> (('m, 'p) connecting, bool) prog" where
  "ep_connect results connect = pbind (plift results) (\<lambda>endpoints. case endpoints of
     [] \<Rightarrow> pthen (pmodify (\<lambda>s. s\<lparr>cg_ident := cg_next_ident s, cg_next_ident := cg_next_ident s + 1\<rparr>)) (pret False)
   | endpoint # _ \<Rightarrow>
       pbind (plift (connect endpoint)) (\<lambda>_.
       pthen (pmodify (\<lambda>s. s\<lparr>cg_endpoint := (cg_endpoint s)\<lparr>ep_state := RUNNING_ENDPOINT\<rparr>\<rparr>)) (pret True)))"

text \<open>One address that refuses is enough to fail, whatever addresses follow.\<close>

lemma connect_tries_one:
  "connect a = Inl e \<Longrightarrow> ep_connect (Inr (a # others)) connect s = (Inl e, s)"
  by (simp add: ep_connect_def pbind_apply)

subsection \<open>The websocket\<close>

text \<open>
  \<^verbatim>\<open>async_read\<close> asks for bytes with \<^verbatim>\<open>async_read_some\<close> until enough have come. The handler holds references to
  \<^verbatim>\<open>bytes_read\<close> and \<^verbatim>\<open>space\<close>, which lived on the stack of functions that have returned. What that memory holds when
  the handler runs is an argument of the model: of \<^verbatim>\<open>bytes_read\<close> \<open>None\<close> when the memory was used again and \<open>Some n\<close>
  when it holds the number \<open>n\<close>, of \<^verbatim>\<open>space\<close> whether it still holds the buffers. A use of memory that was used again is
  \<open>Undefined\<close>.
\<close>

definition ws_close :: "(('m, 'p) endpoint, unit) prog" where
  "ws_close = pthen (ep_flag CLOSED_ENDPOINT) (ep_record WsClose)"

definition ws_go :: "(('m, 'p) endpoint, unit) prog" where
  "ws_go = ep_record AsyncAccept"

text \<open>The error of the accept is not looked at.\<close>

definition ws_on_accept :: "exn + string \<Rightarrow> exn + unit \<Rightarrow> ep_error \<Rightarrow> (('m, 'p) endpoint, unit) prog" where
  "ws_on_accept remote start ec = ep_go remote start"

definition ws_async_read_at_least :: "nat \<Rightarrow> nat \<Rightarrow> bool \<Rightarrow> (('m, 'p) endpoint, unit) prog" where
  "ws_async_read_at_least bytes_needed bytes_read space =
     pbind (pget ep_state) (\<lambda>st.
     if st \<noteq> RUNNING_ENDPOINT then pret ()
     else if bytes_needed \<le> bytes_read then pret ()
     else if space then ep_record (AsyncRead 1)
     else pthrow Undefined)"

definition ws_async_read :: "nat \<Rightarrow> (('m, 'p) endpoint, unit) prog" where
  "ws_async_read bytes_needed = pbind (on_read_ring rb_getSpaceBuffers) (\<lambda>_. ws_async_read_at_least bytes_needed 0 True)"

definition ws_read_done :: "'p reader_if \<Rightarrow> nat \<Rightarrow> nat option \<Rightarrow> bool \<Rightarrow> ep_error \<Rightarrow> nat \<Rightarrow> (('m, 'p) endpoint, unit) prog" where
  "ws_read_done rd bytes_needed bytes_read space ec bytes = (case bytes_read of
     None \<Rightarrow> pthrow Undefined
   | Some n \<Rightarrow>
       if bytes_needed \<le> n + bytes then ep_complete_reading rd ec bytes
       else ws_async_read_at_least bytes_needed (n + bytes) space)"

definition ws_async_write :: "(('m, 'p) endpoint, unit) prog" where
  "ws_async_write = ep_async_write"

text \<open>
  The completions that come in for one \<^verbatim>\<open>async_read\<close>, each with what the dead variables hold then: the number of bytes
  and whether the buffers are there. Each chunk fills the same space; as long as the read is not complete, another
  completion follows the read it asked for.
\<close>

type_synonym ws_completion = "nat option \<times> bool \<times> ep_error \<times> byte list"

fun ws_chunks :: "'p reader_if \<Rightarrow> nat \<Rightarrow> ws_completion list \<Rightarrow> (('m, 'p) endpoint, unit) prog" where
  "ws_chunks rd needed [] = pret ()"
| "ws_chunks rd needed ((bytes_read, space, ec, bs) # rest) =
     pthen (ep_fill bs)
    (pthen (ws_read_done rd needed bytes_read space ec (length bs))
    (pbind (pget ep_state) (\<lambda>st. case bytes_read of
       None \<Rightarrow> pret ()
     | Some n \<Rightarrow> if needed \<le> n + length bs \<or> st \<noteq> RUNNING_ENDPOINT then pret () else ws_chunks rd needed rest)))"

lemma ring_fill_state:
  assumes "rb_inv r" "length bs + length (rb_data r) \<le> rb_capacity r"
  obtains r1 where "pbind rb_getSpaceBuffers (\<lambda>rs. pmodify (\<lambda>r. r\<lparr>rb_store := scatter rs (split_over rs bs) (rb_store r)\<rparr>)) r = (Inr (), r1)"
    "rb_inv r1" "rb_data r1 = rb_data r" "rb_capacity r1 = rb_capacity r"
proof -
  obtain r2 where w: "rb_write bs r = (Inr (), r2)" and r2: "rb_inv r2" "rb_data r2 = rb_data r @ bs" "rb_capacity r2 = rb_capacity r"
    by (rule rb_write_state [OF assms])
  obtain r1 where fill: "pbind rb_getSpaceBuffers (\<lambda>rs. pmodify (\<lambda>r. r\<lparr>rb_store := scatter rs (split_over rs bs) (rb_store r)\<rparr>)) r = (Inr (), r1)"
    and mark: "rb_markSpaceUsed (of_nat (length bs)) r1 = (Inr (), r2)"
    using ring_fill_mark [OF w assms(1)] by blast
  obtain rs where "rb_getSpaceBuffers r = (Inr rs, r)" using ring_space [OF assms(1)] by blast
  then obtain st where r1: "r1 = r\<lparr>rb_store := st\<rparr>" using fill by (auto simp: pbind_apply)
  have f: "rb_store r2 = st" "rb_readp r2 = rb_readp r" "rb_size r2 = rb_size r"
    using mark r1 assms(1)
    by (auto simp: rb_markSpaceUsed_def rb_locked_def pbind_apply pthen_apply rb_signal_def rb_lockless_getDataAvailable_def rb_inv_def
        split: if_splits)
  have "length st = unat (rb_size r)" using r2(1) f by (simp add: rb_inv_def)
  then have "rb_inv r1" using assms(1) r1 by (simp add: rb_inv_def)
  moreover have "rb_data r1 = take (length (rb_data r)) (rb_data r2)"
  proof -
    have "length (rb_data r) \<le> length (rb_data r2)" using r2(2) by simp
    then show ?thesis using r1 f by (simp add: rb_data_def take_map min_def)
  qed
  ultimately show thesis using that [OF fill] r2(2) r1 by (simp add: rb_capacity_def)
qed

lemma fill_keeps_data:
  assumes "rb_inv (ep_readBuffer s)" "length bs + length (rb_data (ep_readBuffer s)) \<le> rb_capacity (ep_readBuffer s)"
  obtains r where "ep_fill bs s = (Inr (), s\<lparr>ep_readBuffer := r\<rparr>)" "rb_inv r" "rb_data r = rb_data (ep_readBuffer s)"
    "rb_capacity r = rb_capacity (ep_readBuffer s)"
proof -
  obtain r where "pbind rb_getSpaceBuffers (\<lambda>rs. pmodify (\<lambda>r. r\<lparr>rb_store := scatter rs (split_over rs bs) (rb_store r)\<rparr>)) (ep_readBuffer s) = (Inr (), r)"
    "rb_inv r" "rb_data r = rb_data (ep_readBuffer s)" "rb_capacity r = rb_capacity (ep_readBuffer s)"
    by (rule ring_fill_state [OF assms])
  then show thesis using that [of r] by (simp add: ep_fill_def on_read_ring_def)
qed

text \<open>What the completions bring, and the room for it.\<close>

definition chunk_of :: "ws_completion \<Rightarrow> byte list" where
  "chunk_of e = snd (snd (snd e))"

definition chunk_bytes :: "ws_completion list \<Rightarrow> nat" where
  "chunk_bytes es = sum_list (map (\<lambda>e. length (chunk_of e)) es)"

definition chunks_fit :: "('m, 'p) endpoint \<Rightarrow> ws_completion list \<Rightarrow> bool" where
  "chunks_fit s es \<longleftrightarrow> (\<forall>e \<in> set es. length (chunk_of e) + length (rb_data (ep_readBuffer s)) \<le> rb_capacity (ep_readBuffer s))"

text \<open>
  The dead variables at each completion, after \<open>n\<close> bytes: intact where they are used, or at the least either intact or
  known to be used again.
\<close>

fun intact :: "nat \<Rightarrow> nat \<Rightarrow> ws_completion list \<Rightarrow> bool" where
  "intact needed n [] \<longleftrightarrow> True"
| "intact needed n ((bytes_read, space, ec, bs) # rest) \<longleftrightarrow>
     bytes_read = Some n \<and> (space \<or> needed \<le> n + length bs) \<and> intact needed (n + length bs) rest"

fun intact_or_reused :: "nat \<Rightarrow> ws_completion list \<Rightarrow> bool" where
  "intact_or_reused n [] \<longleftrightarrow> True"
| "intact_or_reused n ((bytes_read, space, ec, bs) # rest) \<longleftrightarrow>
     (bytes_read = Some n \<or> bytes_read = None) \<and> intact_or_reused (n + length bs) rest"

lemma intact_append: "intact needed n (xs @ ys) \<longleftrightarrow> intact needed n xs \<and> intact needed (n + chunk_bytes xs) ys"
  by (induction xs arbitrary: n) (auto simp: chunk_bytes_def chunk_of_def add.assoc)

lemma intact_or_reused_append: "intact_or_reused n (xs @ ys) \<longleftrightarrow> intact_or_reused n xs \<and> intact_or_reused (n + chunk_bytes xs) ys"
  by (induction xs arbitrary: n) (auto simp: chunk_bytes_def chunk_of_def add.assoc)

text \<open>A websocket that reads: running, with a sound ring.\<close>

definition ws_reading :: "('m, 'p) endpoint \<Rightarrow> bool" where
  "ws_reading s \<longleftrightarrow> ep_state s = RUNNING_ENDPOINT \<and> rb_inv (ep_readBuffer s)"

lemma pthen_pget_unit: "pthen m (pbind (pget f) (\<lambda>_. pret ())) = m"
  by (rule ext) (simp add: pthen_apply pbind_apply split: prod.splits sum.splits)

lemma ws_short_chunks:
  assumes "ws_reading s" "chunks_fit s es" "n + chunk_bytes es < needed" "intact_or_reused n es"
  shows "if intact needed n es
    then \<exists>r. rb_inv r \<and> rb_data r = rb_data (ep_readBuffer s) \<and> rb_capacity r = rb_capacity (ep_readBuffer s) \<and>
      (\<forall>rest. ws_chunks rd needed (es @ rest) s = ws_chunks rd needed rest
         (s\<lparr>ep_readBuffer := r, ep_log := ep_log s @ replicate (length es) (AsyncRead 1)\<rparr>))
    else \<forall>rest. fst (ws_chunks rd needed (es @ rest) s) = Inl Undefined"
  using assms
proof (induction es arbitrary: n s)
  case Nil
  then show ?case by (auto simp: ws_reading_def chunk_bytes_def intro!: exI [of _ "ep_readBuffer s"])
next
  case (Cons e es)
  obtain mem space ec c where e: "e = (mem, space, ec, c)" by (cases e) auto
  have n: "n + length c < needed" "n + length c + chunk_bytes es < needed" and c: "chunk_of e = c"
    using Cons.prems(3) by (simp_all add: chunk_bytes_def chunk_of_def e)
  have inv: "rb_inv (ep_readBuffer s)" and run: "ep_state s = RUNNING_ENDPOINT" using Cons.prems(1) by (simp_all add: ws_reading_def)
  obtain r where fill: "ep_fill c s = (Inr (), s\<lparr>ep_readBuffer := r\<rparr>)" and r: "rb_inv r" "rb_data r = rb_data (ep_readBuffer s)"
    "rb_capacity r = rb_capacity (ep_readBuffer s)"
    by (rule fill_keeps_data [OF inv, of c]) (use Cons.prems(2) in \<open>auto simp: chunks_fit_def c\<close>)
  let ?s = "s\<lparr>ep_readBuffer := r, ep_log := ep_log s @ [AsyncRead 1]\<rparr>"
  show ?case
  proof (cases "mem = Some n \<and> space")
    case False
    then have "fst (ws_chunks rd needed ((e # es) @ rest) s) = Inl Undefined" for rest
      using n run Cons.prems(4)
      by (auto simp: e pthen_apply pbind_apply fill ws_read_done_def ws_async_read_at_least_def)
    moreover have "\<not> intact needed n (e # es)" using False n(1) by (auto simp: e)
    ultimately show ?thesis by simp
  next
    case True
    have step: "ws_chunks rd needed (e # (es @ rest)) s = ws_chunks rd needed (es @ rest) ?s" for rest
      using True n run by (simp add: e pthen_apply pbind_apply fill ws_read_done_def ws_async_read_at_least_def ep_record_def)
    have "ws_reading ?s" "chunks_fit ?s es" "intact_or_reused (n + length c) es" "intact needed n (e # es) = intact needed (n + length c) es"
      using True Cons.prems(2,4) run r by (auto simp: ws_reading_def chunks_fit_def e)
    note Cons.IH [OF this(1,2) n(2) this(3)] this(4)
    then show ?thesis
      using r by (auto simp: step simp del: One_nat_def split: if_splits intro!: exI)
  qed
qed

text \<open>
  C17. A websocket keeps the last chunk of a message, if it survives at all. When the bytes that a read needs come in more
  than one chunk and the dead variables that the handlers refer to are intact whenever they are used, what the connection
  hands to its reader is what an endpoint hands over that received the last chunk alone: all the chunks were written to
  the same place and only the last one is marked as received. When the memory was used again at any of the completions,
  the outcome is undefined.
\<close>

theorem websocket_keeps_last_chunk:
  assumes "ws_reading s" "chunks_fit s es" "chunk_bytes es < needed" "needed \<le> chunk_bytes es + length c"
    and "intact_or_reused 0 (es @ [(mem, space, ec, c)])"
  shows "if intact needed 0 (es @ [(mem, space, ec, c)])
    then \<exists>r. rb_data r = rb_data (ep_readBuffer s) \<and> rb_inv r \<and> rb_capacity r = rb_capacity (ep_readBuffer s) \<and>
      ws_chunks rd needed (es @ [(mem, space, ec, c)]) s = ep_event_run rd wr (ReadDone ec c)
        (s\<lparr>ep_readBuffer := r, ep_log := ep_log s @ replicate (length es) (AsyncRead 1)\<rparr>)
    else fst (ws_chunks rd needed (es @ [(mem, space, ec, c)]) s) = Inl Undefined"
proof -
  let ?l = "[(mem, space, ec, c)]"
  have es: "intact_or_reused 0 es" using assms(5) by (simp add: intact_or_reused_append)
  have last: "ws_chunks rd needed ?l = pthen (ep_fill c) (ep_complete_reading rd ec (length c))" if "mem = Some (chunk_bytes es)"
    using that assms(4) by (simp add: ws_read_done_def pthen_pget_unit)
  note short = ws_short_chunks [OF assms(1,2), of 0 needed rd, unfolded add_0, OF assms(3) es]
  show ?thesis
  proof (cases "intact needed 0 es")
    case False
    with short show ?thesis by (simp add: intact_append)
  next
    case True
    with short obtain r where r: "rb_inv r" "rb_data r = rb_data (ep_readBuffer s)" "rb_capacity r = rb_capacity (ep_readBuffer s)"
      and rest: "ws_chunks rd needed (es @ ?l) s = ws_chunks rd needed ?l
         (s\<lparr>ep_readBuffer := r, ep_log := ep_log s @ replicate (length es) (AsyncRead 1)\<rparr>)" by auto
    let ?s = "s\<lparr>ep_readBuffer := r, ep_log := ep_log s @ replicate (length es) (AsyncRead 1)\<rparr>"
    show ?thesis
    proof (cases "mem = Some (chunk_bytes es)")
      case True
      have "ws_chunks rd needed (es @ ?l) s = ep_event_run rd wr (ReadDone ec c) ?s"
        by (simp only: rest last [OF True] ep_event_run.simps)
      moreover have "intact needed 0 (es @ ?l)" using True \<open>intact needed 0 es\<close> assms(4) by (simp add: intact_append)
      ultimately show ?thesis using r by auto
    next
      case False
      then have "mem = None" using assms(5) by (auto simp: intact_or_reused_append)
      moreover obtain u where "ep_fill c ?s = (Inr (), u)"
        using ring_space [OF r(1)] by (auto simp: ep_fill_def on_read_ring_def pbind_apply)
      ultimately have "fst (ws_chunks rd needed ?l ?s) = Inl Undefined" by (simp add: ws_read_done_def pthen_apply)
      then show ?thesis using False by (simp only: rest) (simp add: intact_append)
    qed
  qed
qed

definition demo_websocket :: "(nat, proto_state) endpoint" where
  "demo_websocket = (ep_new (replicate 20 0) (replicate 20 0) (pme_new))\<lparr>ep_state := RUNNING_ENDPOINT\<rparr>"

theorem websocket_keeps_last_chunk_witness:
  "\<exists>r. rb_data r = [] \<and>
     ws_chunks (pmr_checkForMessage (Some accept_all)) 8 [(Some 0, True, EcOk, [4, 0, 0, 0]), (Some 4, False, EcOk, [1, 2, 3, 4])] demo_websocket =
     ep_event_run (pmr_checkForMessage (Some accept_all)) no_writer (ReadDone EcOk [1, 2, 3, 4])
       (demo_websocket\<lparr>ep_readBuffer := r, ep_log := [AsyncRead 1]\<rparr>)"
proof -
  have inv: "rb_inv (rb_new (replicate 20 0))" by (rule rb_new_inv) simp_all
  have d: "rb_data (ep_readBuffer demo_websocket) = []" "ws_reading demo_websocket" "ep_log demo_websocket = []"
    using inv by (simp_all add: demo_websocket_def ep_new_def rb_new_data ws_reading_def)
  have c: "rb_capacity (ep_readBuffer demo_websocket) = 20"
    by (simp add: demo_websocket_def ep_new_def rb_new_def rb_clear_def rb_capacity_def)
  have "chunks_fit demo_websocket [(Some 0, True, EcOk, [4, 0, 0, 0])]" by (simp add: chunks_fit_def chunk_of_def d c)
  from websocket_keeps_last_chunk [OF d(2) this, of 8 "[1, 2, 3, 4]" "Some 4" False EcOk "pmr_checkForMessage (Some accept_all)" no_writer] d
  show ?thesis by (auto simp: chunk_bytes_def chunk_of_def)
qed

text \<open>
  C18. A websocket never learns that its peer is gone. While a read waits for its bytes, the completions that report an
  error and no bytes, the one of a closed connection among them, neither end the connection nor call its owner: as long
  as the dead variables that the handlers refer to are intact, each asks for one more read, which fails again; when the
  memory was used again at one of them, the outcome is undefined.
\<close>

theorem websocket_ignores_close:
  assumes "ws_reading s" "length (rb_data (ep_readBuffer s)) \<le> rb_capacity (ep_readBuffer s)" "0 < needed"
    and "\<forall>e \<in> set failures. chunk_of e = []" "intact_or_reused 0 failures"
  shows "if intact needed 0 failures
    then \<exists>r. rb_data r = rb_data (ep_readBuffer s) \<and> ws_chunks rd needed failures s = (Inr (),
      s\<lparr>ep_readBuffer := r, ep_log := ep_log s @ replicate (length failures) (AsyncRead 1)\<rparr>)
    else fst (ws_chunks rd needed failures s) = Inl Undefined"
proof -
  have "chunk_bytes failures = 0" "chunks_fit s failures"
    using assms(2,4) by (auto simp: chunk_bytes_def chunks_fit_def)
  then show ?thesis using ws_short_chunks [OF assms(1), of failures 0 needed rd] assms(3,5)
    by (metis add_0 append_Nil2 pret_apply ws_chunks.simps(1))
qed

theorem websocket_ignores_close_witness:
  "ep_state (snd (ws_chunks (pmr_checkForMessage (Some accept_all)) 1 (replicate 1000 (Some 0, True, EcEof, [])) demo_websocket)) = RUNNING_ENDPOINT \<and>
   fst (ws_chunks (pmr_checkForMessage (Some accept_all)) 1 [(Some 0, False, EcEof, [])] demo_websocket) = Inl Undefined"
proof -
  have "rb_inv (rb_new (replicate 20 0))" by (rule rb_new_inv) simp_all
  then have d: "ws_reading demo_websocket" "length (rb_data (ep_readBuffer demo_websocket)) \<le> rb_capacity (ep_readBuffer demo_websocket)"
    by (simp_all add: demo_websocket_def ep_new_def rb_new_data ws_reading_def)
  have i: "intact 1 0 (replicate n (Some 0, True, EcEof, []))" "intact_or_reused 0 (replicate n (Some 0, True, EcEof, []))" for n
    by (induction n) auto
  have "\<forall>e \<in> set (replicate n (Some 0, True, EcEof, [])). chunk_of e = []" for n by (auto simp: chunk_of_def)
  from websocket_ignores_close [OF d _ this, of 1 1000 "pmr_checkForMessage (Some accept_all)"] i [of 1000] d(1)
    websocket_ignores_close [OF d, of 1 "[(Some 0, False, EcEof, [])]" "pmr_checkForMessage (Some accept_all)"]
  show ?thesis by (auto simp: ws_reading_def chunk_of_def)
qed

text \<open>A chunk with all the bytes makes a websocket do what a socket does.\<close>

lemma websocket_whole_chunk:
  "needed \<le> length c \<Longrightarrow> ws_chunks rd needed [(Some 0, space, ec, c)] s = ep_event_run rd wr (ReadDone ec c) s"
  by (simp add: ws_read_done_def pthen_pget_unit)

subsection \<open>The TLS connection\<close>

text \<open>
  The context and the stream of \<^verbatim>\<open>boost::asio::ssl\<close> are parameters: which of their calls throw. The two pointers of
  the endpoint have no initial value.
\<close>

record ssl_library =
  sl_context :: "exn + unit"
  sl_certificate_chain_file :: "string \<Rightarrow> exn + unit"
  sl_private_key_file :: "string \<Rightarrow> exn + unit"
  sl_tmp_dh_file :: "string \<Rightarrow> exn + unit"
  sl_stream :: "exn + unit"

datatype tls_ptr = Uninitialised | NullPtr | Allocated

record ('m, 'p) ssl_endpoint =
  se_base :: "('m, 'p) endpoint"
  se_ctx :: tls_ptr
  se_sock :: tls_ptr
  se_setup :: bool
  se_agent_key :: string
  se_agent_ssl_key :: string

definition on_base :: "(('m, 'p) endpoint, 'a) prog \<Rightarrow> (('m, 'p) ssl_endpoint, 'a) prog" where
  "on_base m = (\<lambda>s. case m (se_base s) of (r, b) \<Rightarrow> (r, s\<lparr>se_base := b\<rparr>))"

definition make_ssl_ctx :: "ssl_library \<Rightarrow> (string \<rightharpoonup> string) \<Rightarrow> exn + tls_ptr" where
  "make_ssl_ctx lib configMap = ebind (sl_context lib) (\<lambda>_.
     case configMap ''core_cert_pk_file'' of
       None \<Rightarrow> Inr NullPtr
     | Some sk_f \<Rightarrow>
         ebind (sl_certificate_chain_file lib sk_f) (\<lambda>_.
         ebind (sl_private_key_file lib sk_f) (\<lambda>_.
         case configMap ''tmp_dh_file'' of
           None \<Rightarrow> Inr NullPtr
         | Some dh_file \<Rightarrow> ebind (sl_tmp_dh_file lib dh_file) (\<lambda>_. Inr Allocated))))"

text \<open>The constructor: it goes through the context that it got, and gives up when something throws.\<close>

definition ssl_new :: "ssl_library \<Rightarrow> (string \<rightharpoonup> string) \<Rightarrow> ('m, 'p) endpoint \<Rightarrow> exn + ('m, 'p) ssl_endpoint" where
  "ssl_new lib configMap base =
     (let s = \<lparr>se_base = base, se_ctx = Uninitialised, se_sock = Uninitialised, se_setup = False, se_agent_key = [], se_agent_ssl_key = []\<rparr>
      in case make_ssl_ctx lib configMap of
           Inl e \<Rightarrow> if is_std_exception e then Inr s else Inl e
         | Inr ctx \<Rightarrow>
             if ctx = NullPtr then Inl Undefined
             else (case sl_stream lib of
                     Inl e \<Rightarrow> if is_std_exception e then Inr (s\<lparr>se_ctx := ctx\<rparr>) else Inl e
                   | Inr _ \<Rightarrow> Inr (s\<lparr>se_ctx := ctx, se_sock := Allocated, se_setup := True\<rparr>)))"

definition ssl_destroy :: "('m, 'p) ssl_endpoint \<Rightarrow> exn + unit" where
  "ssl_destroy s = (if se_ctx s = Uninitialised \<or> se_sock s = Uninitialised then Inl Undefined else Inr ())"

text \<open>What the three steps of closing end with; the first one that throws ends them.\<close>

record closing =
  cl_tls_shutdown :: "exn + unit"
  cl_tcp_shutdown :: "exn + unit"
  cl_tcp_close :: "exn + unit"

definition ssl_close :: "closing \<Rightarrow> (('m, 'p) ssl_endpoint, unit) prog" where
  "ssl_close down = pbind (pget se_setup) (\<lambda>ok.
     if \<not> ok then pret ()
     else pthen (on_base (ep_flag CLOSED_ENDPOINT))
         (pcatch
            (pthen (on_base (ep_record TlsShutdown)) (pthen (plift (cl_tls_shutdown down))
            (pthen (on_base (ep_record TcpShutdown)) (pthen (plift (cl_tcp_shutdown down))
            (pthen (on_base (ep_record SocketClose)) (plift (cl_tcp_close down)))))))
            (\<lambda>e. if is_std_exception e then pret () else pthrow e)))"

definition ssl_go :: "(('m, 'p) ssl_endpoint, unit) prog" where
  "ssl_go = pbind (pget se_sock) (\<lambda>p. if p = Allocated then on_base (ep_record AsyncHandshake) else pthrow Undefined)"

text \<open>The completion of the handshake.\<close>

definition get_peer_ssl_key :: "('x, 'k, 'r) openssl \<Rightarrow> 'x option \<Rightarrow> exn + 'k" where
  "get_peer_ssl_key ssl peer = ebind (X509CertP ssl peer) (evp_from_cert ssl)"

definition ssl_handshaken ::
    "('x, 'k, 'r) openssl \<Rightarrow> closing \<Rightarrow> ep_error \<Rightarrow> 'x option \<Rightarrow> exn + string \<Rightarrow> exn + unit \<Rightarrow> (('m, 'p) ssl_endpoint, unit) prog" where
  "ssl_handshaken ssl down error peer remote start =
     (if error = EcOk
      then (case ebind (ebind (X509CertP ssl peer) (evp_from_cert ssl)) (RSA_Modulus ssl) of
              Inl e \<Rightarrow> if is_std_exception e then pret () else pthrow e
            | Inr key \<Rightarrow> pthen (pmodify (\<lambda>s. s\<lparr>se_agent_ssl_key := key\<rparr>)) (on_base (ep_go remote start)))
      else ssl_close down)"

definition verify_agent_certificate :: "bool \<Rightarrow> 'x \<Rightarrow> bool" where
  "verify_agent_certificate preverified ctx = True"

definition ssl_agent_key :: "('m, 'p) ssl_endpoint \<Rightarrow> string" where
  "ssl_agent_key s = (if ep_state (se_base s) = RUNNING_ENDPOINT then se_agent_key s else [])"

definition ssl_async_write :: "(('m, 'p) ssl_endpoint, unit) prog" where
  "ssl_async_write = on_base ep_async_write"

definition ssl_async_read :: "u64 \<Rightarrow> (('m, 'p) ssl_endpoint, unit) prog" where
  "ssl_async_read bytes_needed = on_base (ep_async_read bytes_needed)"

text \<open>The members of a message endpoint that forward to the connection.\<close>

definition pipe_go :: "exn + string \<Rightarrow> exn + unit \<Rightarrow> (('m, 'p) endpoint, unit) prog" where
  "pipe_go remote start = ep_go remote start"

definition pipe_send :: "'m \<Rightarrow> (('m, 'p) endpoint, send_result) prog" where
  "pipe_send m = ep_send m"

definition pipe_run_sending :: "('m, 'p) writer_if \<Rightarrow> (('m, 'p) endpoint, unit) prog" where
  "pipe_run_sending wr = ep_run_sending wr"

definition pipe_IsTXQFull :: "('m, 'p) endpoint \<Rightarrow> bool" where
  "pipe_IsTXQFull s = ep_IsTXQFull s"

text \<open>A connection whose setup was caught failing cannot even be destroyed.\<close>

lemma ssl_new_Inr:
  "ssl_new lib cfg base = Inr s \<Longrightarrow> se_base s = base \<and> se_agent_key s = [] \<and> (se_setup s \<longleftrightarrow> se_sock s = Allocated) \<and>
     (se_sock s = Allocated \<or> se_sock s = Uninitialised)"
  by (auto simp: ssl_new_def Let_def split: sum.splits if_splits)

lemma failed_setup_is_fatal:
  assumes "ssl_new lib cfg base = Inr s"
  shows "(ssl_destroy s = Inr () \<longleftrightarrow> se_setup s) \<and> (fst (ssl_go s) = Inr () \<longleftrightarrow> se_setup s)"
  using assms
  by (auto simp: ssl_new_def ssl_destroy_def ssl_go_def pbind_apply on_base_def ep_record_def make_ssl_ctx_def Let_def
      split: sum.splits if_splits option.splits) (auto simp: ebind_def split: sum.splits option.splits)

lemma failed_tls_shutdown_keeps_socket:
  assumes "se_setup s" "cl_tls_shutdown down = Inl e" "is_std_exception e"
  shows "\<exists>s'. ssl_close down s = (Inr (), s') \<and> ep_log (se_base s') = ep_log (se_base s) @ [TlsShutdown]"
  using assms by (simp add: ssl_close_def pbind_apply pthen_apply pcatch_apply on_base_def ep_flag_def ep_record_def)

text \<open>An accepted handshake without a key leaves the connection as it is: neither started nor closed.\<close>

lemma keyless_peer_is_left_hanging:
  "ssl_handshaken ssl down EcOk None remote start s = (Inr (), s)"
  by (simp add: ssl_handshaken_def X509CertP_def is_std_exception_def)

text \<open>
  C25. A TLS connection runs only with a key. If a connection that was built from a configuration runs after its
  handshake, then the handshake succeeded, the peer presented a certificate whose key is the one the connection
  remembers, and the configuration named both files that the server needs.
\<close>

theorem tls_runs_with_key:
  assumes "ssl_new lib cfg base = Inr s" "ep_state base AND RUNNING_ENDPOINT = 0"
    and "pthen ssl_go (ssl_handshaken ssl down error peer remote start) s = (r, s')"
    and "ep_state (se_base s') AND RUNNING_ENDPOINT \<noteq> 0"
  shows "error = EcOk \<and> cfg ''core_cert_pk_file'' \<noteq> None \<and> cfg ''tmp_dh_file'' \<noteq> None \<and>
    (\<exists>cert k. peer = Some cert \<and> X509_get_pubkey ssl cert = Some k \<and> RSA_Modulus ssl k = Inr (se_agent_ssl_key s'))"
proof -
  have b: "se_base s = base" and p: "se_sock s = Allocated \<or> se_sock s = Uninitialised" using ssl_new_Inr [OF assms(1)] by auto
  have down0: "ep_state (se_base (snd (ssl_close down t))) AND RUNNING_ENDPOINT = ep_state (se_base t) AND RUNNING_ENDPOINT"
    for t :: "('a, 'b) ssl_endpoint"
    by (simp add: ssl_close_def pbind_apply pthen_apply pcatch_apply on_base_def ep_flag_def ep_record_def CLOSED_ENDPOINT_def
        RUNNING_ENDPOINT_def and_one_eq mod2_eq_if even_or_iff split: sum.splits)
  show ?thesis
  proof (cases "se_sock s = Allocated")
    case False
    then show ?thesis using assms(2-4) b by (auto simp: ssl_go_def pbind_apply pthen_apply)
  next
    case True
    let ?t = "s\<lparr>se_base := base\<lparr>ep_log := ep_log base @ [AsyncHandshake]\<rparr>\<rparr>"
    have run: "ssl_handshaken ssl down error peer remote start ?t = (r, s')"
      using assms(3) True b by (simp add: ssl_go_def pbind_apply pthen_apply on_base_def ep_record_def)
    have ok: "error = EcOk"
      using run assms(2,4) down0 [of ?t] by (cases "error = EcOk") (auto simp: ssl_handshaken_def)
    have cfg: "cfg ''core_cert_pk_file'' \<noteq> None \<and> cfg ''tmp_dh_file'' \<noteq> None"
      using assms(1) True
      by (auto simp: ssl_new_def make_ssl_ctx_def Let_def split: sum.splits if_splits option.splits)
         (auto simp: ebind_def split: sum.splits option.splits)
    have "\<exists>key. ebind (ebind (X509CertP ssl peer) (evp_from_cert ssl)) (RSA_Modulus ssl) = Inr key \<and> se_agent_ssl_key s' = key"
      using run ok assms(2,4)
      by (cases "ebind (ebind (X509CertP ssl peer) (evp_from_cert ssl)) (RSA_Modulus ssl)")
         (auto simp: ssl_handshaken_def pthen_apply on_base_def split: if_splits prod.splits)
    then obtain k where "ebind (X509CertP ssl peer) (evp_from_cert ssl) = Inr k" "RSA_Modulus ssl k = Inr (se_agent_ssl_key s')"
      by (auto simp: ebind_Inr_iff)
    then show ?thesis using ok cfg
      by (auto simp: ebind_Inr_iff X509CertP_def evp_from_cert_def split: option.splits)
  qed
qed

definition demo_ssl_library :: ssl_library where
  "demo_ssl_library = \<lparr>sl_context = Inr (), sl_certificate_chain_file = (\<lambda>_. Inr ()), sl_private_key_file = (\<lambda>_. Inr ()),
     sl_tmp_dh_file = (\<lambda>_. Inr ()), sl_stream = Inr ()\<rparr>"

definition demo_certificates :: "(string, string, string) openssl" where
  "demo_certificates = \<lparr>X509_get_pubkey = Some, PEM_read_PUBKEY = Some, EVP_PKEY_base_id = (\<lambda>_. EVP_PKEY_RSA), EVP_PKEY_get1_RSA = Some,
     EVP_PKEY_cmp = (\<lambda>a b. if a = b then 1 else 0), RSA_print = Some, BIO_new_mem = True, BIO_new_base64 = True,
     BIO_base64_text = id, ERR_text = ''error''\<rparr>"

theorem tls_runs_with_key_witness:
  "\<exists>s s' :: (nat, proto_state) ssl_endpoint.
     ssl_new demo_ssl_library [''core_cert_pk_file'' \<mapsto> ''pk'', ''tmp_dh_file'' \<mapsto> ''dh''] (ep_new (replicate 8 0) (replicate 8 0) pme_new) = Inr s \<and>
     snd (pthen ssl_go (ssl_handshaken demo_certificates \<lparr>cl_tls_shutdown = Inr (), cl_tcp_shutdown = Inr (), cl_tcp_close = Inr ()\<rparr>
       EcOk (Some ''a short text'') (Inr ''peer'') (Inr ())) s) = s' \<and> RSA_Modulus demo_certificates ''a short text'' = Inr (se_agent_ssl_key s')"
proof -
  let ?cfg = "[''core_cert_pk_file'' \<mapsto> ''pk'', ''tmp_dh_file'' \<mapsto> ''dh'']"
  let ?base = "ep_new (replicate 8 0) (replicate 8 0) pme_new :: (nat, proto_state) endpoint"
  let ?down = "\<lparr>cl_tls_shutdown = Inr (), cl_tcp_shutdown = Inr (), cl_tcp_close = Inr ()\<rparr> :: closing"
  let ?s = "\<lparr>se_base = ?base, se_ctx = Allocated, se_sock = Allocated, se_setup = True, se_agent_key = [], se_agent_ssl_key = []\<rparr>"
  have new: "ssl_new demo_ssl_library ?cfg ?base = Inr ?s"
    by (simp add: ssl_new_def make_ssl_ctx_def demo_ssl_library_def Let_def)
  let ?run = "pthen ssl_go (ssl_handshaken demo_certificates ?down EcOk (Some ''a short text'') (Inr ''peer'') (Inr ()))"
  have running: "ep_state (se_base (snd (?run ?s))) AND RUNNING_ENDPOINT \<noteq> 0"
    by (simp add: ssl_go_def pbind_apply pthen_apply on_base_def ep_record_def ssl_handshaken_def X509CertP_def evp_from_cert_def
        demo_certificates_def RSA_Modulus_def evp_to_string_def evp_text_def rsa_to_string_def RSAKey_def ep_go_def ep_new_def
        ep_flag_def RUNNING_ENDPOINT_def ep_run_reading_def on_read_ring_def rb_getFreeSpace_def rb_locked_def rb_new_def
        rb_clear_def rb_lockless_getFreeSpace_def Let_def ep_async_read_def rb_getSpaceBuffers_def)
  have "ep_state ?base AND RUNNING_ENDPOINT = 0" by (simp add: ep_new_def)
  from tls_runs_with_key [OF new this surjective_pairing running] show ?thesis
    by (intro exI [of _ ?s] exI [of _ "snd (?run ?s)"]) (use new in \<open>auto simp: demo_certificates_def\<close>)
qed

end
