(* ===== verification/MainServer.thy ===== *)
theory MainServer
  imports Connections Uris Monitoring Karma
begin

text \<open>
  The server around the connections: the event loop (\<^verbatim>\<open>basic_comms/src/cpp/Core.cpp\<close>), the thread pool
  (\<^verbatim>\<open>threading/src/cpp/lib/Threadpool.hpp\<close>), listeners (\<^verbatim>\<open>Listener.cpp\<close>, \<^verbatim>\<open>Oefv1Listener.cpp\<close>,
  \<^verbatim>\<open>OefListenerSet.hpp\<close>, \<^verbatim>\<open>OefListenerStarterTask.cpp\<close>), the configuration and start of the program
  (\<^verbatim>\<open>mt-core/main/src/cpp/MtCore.cpp\<close> and \<^verbatim>\<open>main.cpp\<close>), its reports to Prometheus and the memory gauges of
  \<^verbatim>\<open>mt-core/status/src/cpp/MonitoringTask.cpp\<close>. What the operating system answers is a parameter.
\<close>

subsection \<open>The event loop\<close>

record event_loop =
  co_work_deleted :: bool
  co_stopped :: bool
  co_monitoring :: monitoring

definition loop_new :: "monitoring \<Rightarrow> event_loop" where
  "loop_new m = \<lparr>co_work_deleted = False, co_stopped = False, co_monitoring = m\<rparr>"

definition loop_count :: "string \<Rightarrow> (event_loop, unit) prog" where
  "loop_count name = (\<lambda>s. case count_event name (co_monitoring s) of (r, m) \<Rightarrow> (r, s\<lparr>co_monitoring := m\<rparr>))"

text \<open>\<open>handlers\<close> is what running the handlers ends with: the loop lets an exception of a handler pass.\<close>

definition loop_run :: "exn + unit \<Rightarrow> (event_loop, unit) prog" where
  "loop_run handlers = pthen (loop_count ''mt-core.network.asio.run'')
     (pthen (plift handlers) (loop_count ''mt-core.network.asio.ended''))"

definition loop_stop :: "(event_loop, unit) prog" where
  "loop_stop = pbind (pget co_work_deleted) (\<lambda>gone.
     if gone then pthrow Undefined else pmodify (\<lambda>s. s\<lparr>co_work_deleted := True, co_stopped := True\<rparr>))"

definition loop_destroy :: "(event_loop, unit) prog" where
  "loop_destroy = loop_stop"

lemma loop_stopped_cannot_be_destroyed:
  "co_work_deleted s = False \<Longrightarrow> fst (pthen loop_stop loop_destroy s) = Inl Undefined"
  by (simp add: loop_stop_def loop_destroy_def pthen_apply pbind_apply)

text \<open>What a thread ends with: an exception that leaves its function ends the process.\<close>

definition thread_body :: "exn + unit \<Rightarrow> exn + unit" where
  "thread_body r = (case r of Inl _ \<Rightarrow> Inl Aborted | Inr _ \<Rightarrow> Inr ())"

subsection \<open>The thread pool\<close>

text \<open>
  A thread is its number and whether it is joinable; \<open>me\<close> is the calling thread and \<open>finishes\<close> tells the threads whose
  function returns: joining another one never returns (\<open>None\<close>). A thread that was joined has no number of its own.
\<close>

record thread_pool =
  thp_threads :: "(nat \<times> bool) list"
  thp_next :: nat

definition thp_start :: "nat \<Rightarrow> thread_pool \<Rightarrow> thread_pool" where
  "thp_start threadcount p = p\<lparr>thp_threads := thp_threads p @ map (\<lambda>i. (thp_next p + i, True)) [0..<threadcount],
     thp_next := thp_next p + threadcount\<rparr>"

fun thp_join :: "(nat \<Rightarrow> bool) \<Rightarrow> nat \<Rightarrow> (nat \<times> bool) list \<Rightarrow> ((exn + unit) \<times> (nat \<times> bool) list) option" where
  "thp_join finishes me [] = Some (Inr (), [])"
| "thp_join finishes me ((t, joinable) # ts) =
     (if joinable \<and> t = me then map_option (\<lambda>(r, us). (r, (t, joinable) # us)) (thp_join finishes me ts)
      else if \<not> joinable then Some (Inl (RuntimeError ''Invalid argument''), (t, joinable) # ts)
      else if finishes t then map_option (\<lambda>(r, us). (r, (t, False) # us)) (thp_join finishes me ts)
      else None)"

text \<open>\<^verbatim>\<open>threads.empty()\<close> at the end asks whether there are threads, and removes none.\<close>

definition thp_stop :: "(nat \<Rightarrow> bool) \<Rightarrow> nat \<Rightarrow> thread_pool \<Rightarrow> ((exn + unit) \<times> thread_pool) option" where
  "thp_stop finishes me p = map_option (\<lambda>(r, ts). (r, p\<lparr>thp_threads := ts\<rparr>)) (thp_join finishes me (thp_threads p))"

text \<open>The destructor drops what \<^verbatim>\<open>stop\<close> throws; destroying a joinable thread ends the process.\<close>

definition thp_destroy :: "(nat \<Rightarrow> bool) \<Rightarrow> nat \<Rightarrow> thread_pool \<Rightarrow> (exn + unit) option" where
  "thp_destroy finishes me p = map_option (\<lambda>(r, q). if \<exists>t \<in> set (thp_threads q). snd t then Inl Aborted else Inr ()) (thp_stop finishes me p)"

lemma thp_join_all:
  assumes "\<forall>(t, j) \<in> set ts. j \<and> finishes t \<and> t \<noteq> me"
  shows "thp_join finishes me ts = Some (Inr (), map (\<lambda>(t, j). (t, False)) ts)"
  using assms by (induction ts) auto

lemma thp_join_again:
  "ts \<noteq> [] \<Longrightarrow> thp_join finishes me (map (\<lambda>(t, j). (t, False)) ts) = Some (Inl (RuntimeError ''Invalid argument''), map (\<lambda>(t, j). (t, False)) ts)"
  by (cases ts) (auto split: prod.splits)

text \<open>Stopping a pool twice throws, though nothing is left to stop; destroying a pool that was stopped is fine.\<close>

lemma stopping_twice_throws:
  assumes "\<forall>(t, j) \<in> set (thp_threads p). j \<and> finishes t \<and> t \<noteq> me" "thp_threads p \<noteq> []"
  shows "\<exists>q. thp_stop finishes me p = Some (Inr (), q) \<and> (\<exists>e. thp_stop finishes me q = Some (Inl e, q)) \<and> thp_destroy finishes me q = Some (Inr ())"
  using assms(2) by (auto simp: thp_stop_def thp_destroy_def thp_join_all [OF assms(1)] thp_join_again split_beta)

lemma thp_join_self:
  assumes "(me, True) \<in> set ts" "\<forall>(t, j) \<in> set ts. j \<and> (t = me \<or> finishes t)"
  shows "\<exists>us. thp_join finishes me ts = Some (Inr (), us) \<and> (me, True) \<in> set us"
  using assms
proof (induction ts)
  case (Cons a ts)
  have all: "\<exists>us. thp_join finishes me rest = Some (Inr (), us)" if "\<forall>(t, j) \<in> set rest. j \<and> (t = me \<or> finishes t)" for rest
    using that by (induction rest) auto
  show ?case
  proof (cases "(me, True) \<in> set ts")
    case True
    then show ?thesis using Cons by (cases a) auto
  next
    case False
    then show ?thesis using Cons.prems all [of ts] by (cases a) auto
  qed
qed simp

text \<open>A pool that is destroyed by one of its own threads ends the process.\<close>

lemma destroyed_from_within:
  assumes "(me, True) \<in> set (thp_threads p)" "\<forall>(t, j) \<in> set (thp_threads p). j \<and> (t = me \<or> finishes t)"
  shows "thp_destroy finishes me p = Some (Inl Aborted)"
  using thp_join_self [OF assms] by (force simp: thp_destroy_def thp_stop_def)

subsection \<open>Listeners\<close>

text \<open>
  A listener creates a connection, asks for the next accept into it and, when one comes, starts it. \<open>ls_pending\<close> is the
  connection that an accept is under way for. The creator of \<^verbatim>\<open>Oefv1Listener\<close> builds the connection, its message endpoint and its
  agent endpoint with the factory; that is the effect \<open>LCreate\<close>.
\<close>

datatype listener_effect = LCount string | LCreate nat | LAsyncAccept nat | LGo nat

record listener =
  ls_port :: u16
  ls_next :: nat
  ls_pending :: "nat option"
  ls_log :: "listener_effect list"

text \<open>The acceptor takes the port as an \<^verbatim>\<open>unsigned short\<close>; \<open>bind\<close> is what opening it ends with.\<close>

definition listener_new :: "(u16 \<Rightarrow> exn + unit) \<Rightarrow> int \<Rightarrow> exn + listener" where
  "listener_new bind port = ebind (bind (word_of_int port)) (\<lambda>_.
     Inr \<lparr>ls_port = word_of_int port, ls_next = 0, ls_pending = None, ls_log = []\<rparr>)"

definition ls_record :: "listener_effect \<Rightarrow> (listener, unit) prog" where
  "ls_record x = pmodify (\<lambda>s. s\<lparr>ls_log := ls_log s @ [x]\<rparr>)"

definition listener_creator :: "(listener, nat) prog" where
  "listener_creator = pbind (pget ls_next) (\<lambda>c.
     pthen (pmodify (\<lambda>s. s\<lparr>ls_next := c + 1\<rparr>)) (pthen (ls_record (LCreate c)) (pret c)))"

definition start_accept :: "(listener, unit) prog" where
  "start_accept = pbind listener_creator (\<lambda>new_connection.
     pthen (ls_record (LCount ''mt-core.network.accept''))
    (pthen (ls_record (LAsyncAccept new_connection))
           (pmodify (\<lambda>s. s\<lparr>ls_pending := Some new_connection\<rparr>))))"

definition handle_accept :: "(nat \<Rightarrow> exn + unit) \<Rightarrow> nat \<Rightarrow> bool \<Rightarrow> (listener, unit) prog" where
  "handle_accept go new_connection error =
     pthen (ls_record (LCount ''mt-core.network.accepted''))
           (if \<not> error
            then pthen (ls_record (LGo new_connection)) (pthen (plift (go new_connection)) start_accept)
            else ls_record (LCount ''mt-core.network.accepterror''))"

text \<open>A completed accept takes the connection that was pending; without one there is nothing to complete.\<close>

definition accept_done :: "(nat \<Rightarrow> exn + unit) \<Rightarrow> bool \<Rightarrow> (listener, unit) prog" where
  "accept_done go error = pbind (pget ls_pending) (\<lambda>p. case p of
     None \<Rightarrow> pret ()
   | Some c \<Rightarrow> pthen (pmodify (\<lambda>s. s\<lparr>ls_pending := None\<rparr>)) (handle_accept go c error))"

fun accepts :: "(nat \<Rightarrow> exn + unit) \<Rightarrow> bool list \<Rightarrow> (listener, unit) prog" where
  "accepts go [] = pret ()"
| "accepts go (error # errors) = pthen (accept_done go error) (accepts go errors)"

definition connections_started :: "listener \<Rightarrow> nat list" where
  "connections_started l = [c. LGo c \<leftarrow> ls_log l]"

lemma accepts_deaf: "ls_pending l = None \<Longrightarrow> accepts go errors l = (Inr (), l)"
  by (induction errors) (simp_all add: accept_done_def pbind_apply pthen_apply)

lemma accepts_from:
  assumes "ls_pending l = Some c" "ls_next l = c + 1" "(r, l') = accepts go errors l"
  shows "case find (\<lambda>i. go i \<noteq> Inr ()) [c..<c + length (takeWhile Not errors)] of
      None \<Rightarrow> r = Inr () \<and> connections_started l' = connections_started l @ [c..<c + length (takeWhile Not errors)] \<and>
        (ls_pending l' \<noteq> None \<longleftrightarrow> True \<notin> set errors)
    | Some j \<Rightarrow> r = go j \<and> connections_started l' = connections_started l @ [c..<Suc j] \<and> ls_pending l' = None"
  using assms
proof (induction errors arbitrary: l c)
  case Nil
  then show ?case by simp
next
  case (Cons e errors)
  note step = accept_done_def handle_accept_def start_accept_def listener_creator_def pbind_apply pthen_apply ls_record_def
    connections_started_def
  have upt: "[c..<Suc (c + k)] = c # [Suc c..<Suc (c + k)]" for k by (simp add: upt_conv_Cons del: upt_Suc)
  consider (failed) e | (gone) x where "\<not> e" "go c = Inl x" | (started) "\<not> e" "go c = Inr ()"
    by (cases "go c") auto
  then show ?case
  proof cases
    case failed
    then have "\<exists>l1. accept_done go e l = (Inr (), l1) \<and> ls_pending l1 = None \<and> connections_started l1 = connections_started l"
      using Cons.prems by (simp add: step)
    then show ?thesis using failed Cons.prems(3) accepts_deaf [of _ go errors] by (auto simp: pthen_apply)
  next
    case gone
    then have "\<exists>l1. accept_done go e l = (Inl x, l1) \<and> ls_pending l1 = None \<and> connections_started l1 = connections_started l @ [c]"
      using Cons.prems by (simp add: step)
    then show ?thesis using gone Cons.prems(3) by (auto simp: pthen_apply upt upt_rec [of c "Suc c"] simp del: upt_Suc)
  next
    case started
    then have "\<exists>l1. accept_done go e l = (Inr (), l1) \<and> ls_pending l1 = Some (c + 1) \<and> ls_next l1 = c + 1 + 1 \<and>
        connections_started l1 = connections_started l @ [c]"
      using Cons.prems by (simp add: step)
    then obtain l1 where l1: "accept_done go e l = (Inr (), l1)" "ls_pending l1 = Some (c + 1)" "ls_next l1 = c + 1 + 1"
      "connections_started l1 = connections_started l @ [c]" by blast
    from l1(1) Cons.prems(3) have "(r, l') = accepts go errors l1" by (simp add: pthen_apply)
    from Cons.IH [OF l1(2,3) this] l1(4) started show ?thesis
      by (auto simp: upt upt_conv_Cons [of c] split: option.splits simp del: upt_Suc dest: find_Some_iff [THEN iffD1])
  qed
qed

text \<open>
  C20. A listener serves until something fails. Whatever the accepts of a listener that was started report and whatever starting
  each connection ends with, the connections that were accepted before the first failed accept are started, each once and in
  order, and when starting all of them succeeds, an accept is under way exactly if none has failed, so that after one
  failure, whatever its reason, nobody is ever accepted again. The first connection whose start throws, as when its peer is
  gone, is the last one: what it threw leaves the handler of the listener, and no accept is under way although
  none has failed.
\<close>

theorem listener_serves_until_failure:
  assumes "listener_new bind port = Inr l0"
  shows "let (r, l) = pthen start_accept (accepts go errors) l0; n = length (takeWhile Not errors) in
    case find (\<lambda>i. go i \<noteq> Inr ()) [0..<n] of
      None \<Rightarrow> r = Inr () \<and> connections_started l = [0..<n] \<and> (ls_pending l \<noteq> None \<longleftrightarrow> True \<notin> set errors)
    | Some j \<Rightarrow> r = go j \<and> connections_started l = [0..<Suc j] \<and> ls_pending l = None"
proof -
  obtain l1 where l1: "start_accept l0 = (Inr (), l1)" "ls_pending l1 = Some 0" "ls_next l1 = 0 + 1" "connections_started l1 = []"
    using assms(1)
    by (auto simp: listener_new_def start_accept_def listener_creator_def pbind_apply pthen_apply ls_record_def connections_started_def ebind_Inr_iff)
  obtain r l where run: "(r, l) = accepts go errors l1" by (metis surj_pair)
  from accepts_from [OF l1(2,3) this] l1(1,4) show ?thesis
    unfolding pthen_apply l1(1) sum.case prod.case run [symmetric] Let_def by (simp cong: option.case_cong del: upt_Suc)
qed

theorem listener_serves_until_failure_witness:
  "let l = snd (pthen start_accept (accepts (\<lambda>_. Inr ()) [False, True, False]) \<lparr>ls_port = 10, ls_next = 0, ls_pending = None, ls_log = []\<rparr>);
       gone = (\<lambda>i. if i = 1 then Inl OtherException else Inr ());
       (r, g) = pthen start_accept (accepts gone [False, False, False]) \<lparr>ls_port = 10, ls_next = 0, ls_pending = None, ls_log = []\<rparr>
   in connections_started l = [0] \<and> ls_pending l = None \<and> r = Inl OtherException \<and> connections_started g = [0, 1] \<and> ls_pending g = None"
proof -
  have "listener_new (\<lambda>_. Inr ()) 10 = Inr \<lparr>ls_port = 10, ls_next = 0, ls_pending = None, ls_log = []\<rparr>"
    by (simp add: listener_new_def)
  note serves = listener_serves_until_failure [OF this]
  from serves [of "\<lambda>_. Inr ()" "[False, True, False]"]
    serves [of "\<lambda>i. if i = 1 then Inl OtherException else Inr ()" "[False, False, False]"] show ?thesis
    by (auto simp: split_beta Let_def)
qed

text \<open>
  A peer that is gone when its connection is accepted ends the server: asking for its address throws, out of the
  handler of the listener, out of the event loop and out of the thread that runs it.
\<close>

lemma gone_peer_ends_server:
  assumes "remote_endpoint = Inl e" "ls_pending l = Some c"
    and "go = (\<lambda>i. fst (ep_go remote_endpoint start (ep_new m m' p)))"
  shows "thread_body (fst (loop_run (fst (accept_done go False l)) s)) = Inl Aborted \<or>
    fst (loop_count ''mt-core.network.asio.run'' s) \<noteq> Inr ()"
  using assms
  by (auto simp: loop_run_def pthen_apply pbind_apply accept_done_def handle_accept_def ls_record_def ep_go_def thread_body_def
      split: prod.splits sum.splits)

subsection \<open>The set of listeners\<close>

type_synonym listener_set = "(int \<times> nat) list"

definition los_has :: "int \<Rightarrow> (listener_set, bool) prog" where
  "los_has i = pget (\<lambda>s. map_of s i \<noteq> None)"

definition los_add :: "int \<Rightarrow> nat \<Rightarrow> (listener_set, bool) prog" where
  "los_add i new_listener = pbind (los_has i) (\<lambda>h. if h then pret False else pthen (pmodify (omap_insert i new_listener)) (pret True))"

definition los_clear :: "(listener_set, unit) prog" where
  "los_clear = pmodify (\<lambda>_. [])"

text \<open>
  The task that starts a listener: it starts before it is added. A listener that is not added goes with the task, and
  its pending accept with it. \<open>nt_listeners\<close> are the listeners by number, those that are gone removed.
\<close>

record net =
  nt_set :: listener_set
  nt_listeners :: "nat \<Rightarrow> listener option"
  nt_next :: nat

definition net_empty :: net where
  "net_empty = \<lparr>nt_set = [], nt_listeners = (\<lambda>_. None), nt_next = 0\<rparr>"

definition starter_run :: "(u16 \<Rightarrow> exn + unit) \<Rightarrow> int \<Rightarrow> (net, unit) prog" where
  "starter_run bind p = pbind (plift (listener_new bind p)) (\<lambda>l s.
     case start_accept l of
       (Inl e, _) \<Rightarrow> (Inl e, s)
     | (Inr _, l') \<Rightarrow>
         (case los_add p (nt_next s) (nt_set s) of
            (Inl e, _) \<Rightarrow> (Inl e, s)
          | (Inr added, set') \<Rightarrow>
              (Inr (), s\<lparr>nt_set := set', nt_next := nt_next s + 1,
                 nt_listeners := (if added then (nt_listeners s)(nt_next s \<mapsto> l') else nt_listeners s)\<rparr>)))"

text \<open>The tasks one after the other; what one of them throws is the end of that task alone.\<close>

fun starters_run :: "(u16 \<Rightarrow> exn + unit) \<Rightarrow> int list \<Rightarrow> net \<Rightarrow> net" where
  "starters_run bind [] s = s"
| "starters_run bind (p # ps) s = starters_run bind ps (snd (starter_run bind p s))"

definition listening :: "net \<Rightarrow> int \<Rightarrow> bool" where
  "listening s p \<longleftrightarrow> (\<exists>i l. map_of (nt_set s) p = Some i \<and> nt_listeners s i = Some l \<and> ls_pending l \<noteq> None \<and> ls_port l = word_of_int p)"

definition net_inv :: "net \<Rightarrow> bool" where
  "net_inv s \<longleftrightarrow> omap_ok (nt_set s) \<and> (\<forall>p i. map_of (nt_set s) p = Some i \<longrightarrow> i < nt_next s \<and> listening s p)"

lemma start_accept_pending: "\<exists>l'. start_accept l = (Inr (), l') \<and> ls_pending l' \<noteq> None \<and> ls_port l' = ls_port l"
  by (simp add: start_accept_def listener_creator_def pbind_apply pthen_apply ls_record_def)

lemma starter_run_cases:
  "starter_run bind p s =
     (case bind (word_of_int p) of
        Inl e \<Rightarrow> (Inl e, s)
      | Inr _ \<Rightarrow> (Inr (), let l' = snd (start_accept \<lparr>ls_port = word_of_int p, ls_next = 0, ls_pending = None, ls_log = []\<rparr>) in
          if map_of (nt_set s) p = None
          then s\<lparr>nt_set := omap_insert p (nt_next s) (nt_set s), nt_next := nt_next s + 1, nt_listeners := (nt_listeners s)(nt_next s \<mapsto> l')\<rparr>
          else s\<lparr>nt_next := nt_next s + 1\<rparr>))"
proof -
  obtain l' where "start_accept \<lparr>ls_port = word_of_int p, ls_next = 0, ls_pending = None, ls_log = []\<rparr> = (Inr (), l')"
    using start_accept_pending by blast
  then show ?thesis
    by (auto simp: starter_run_def listener_new_def pbind_apply pthen_apply los_add_def los_has_def Let_def split: sum.splits)
qed

lemma starter_step:
  assumes "net_inv s"
  shows "net_inv (snd (starter_run bind p s)) \<and>
    (\<forall>q. listening (snd (starter_run bind p s)) q \<longleftrightarrow> listening s q \<or> (q = p \<and> bind (word_of_int p) = Inr ()))"
proof (cases "bind (word_of_int p)")
  case (Inl e)
  then show ?thesis using assms by (simp add: starter_run_cases)
next
  case (Inr u)
  let ?l0 = "\<lparr>ls_port = word_of_int p, ls_next = 0, ls_pending = None, ls_log = []\<rparr>"
  obtain l' where l': "start_accept ?l0 = (Inr (), l')" "ls_pending l' \<noteq> None" "ls_port l' = word_of_int p"
    using start_accept_pending [of ?l0] by auto
  have less: "map_of (nt_set s) q = Some i \<Longrightarrow> i < nt_next s \<and> listening s q" for q i using assms by (simp add: net_inv_def)
  show ?thesis
  proof (cases "map_of (nt_set s) p")
    case None
    let ?s = "s\<lparr>nt_set := omap_insert p (nt_next s) (nt_set s), nt_next := nt_next s + 1, nt_listeners := (nt_listeners s)(nt_next s \<mapsto> l')\<rparr>"
    have run: "snd (starter_run bind p s) = ?s" using Inr None l'(1) by (simp add: starter_run_cases Let_def)
    have at: "listening ?s q \<longleftrightarrow> listening s q \<or> q = p" for q
      using less [of q] None l' by (cases "q = p"; cases "map_of (nt_set s) q") (auto simp: listening_def)
    have "net_inv ?s"
      unfolding net_inv_def using assms less at by (auto simp: net_inv_def less_Suc_eq)
    then show ?thesis using run at Inr by simp
  next
    case (Some i)
    then have run: "snd (starter_run bind p s) = s\<lparr>nt_next := nt_next s + 1\<rparr>" using Inr l'(1) by (simp add: starter_run_cases Let_def)
    have at: "listening (s\<lparr>nt_next := nt_next s + 1\<rparr>) q \<longleftrightarrow> listening s q" for q by (simp add: listening_def)
    have "net_inv (s\<lparr>nt_next := nt_next s + 1\<rparr>)"
      unfolding net_inv_def using assms less at by (auto simp: net_inv_def less_Suc_eq)
    then show ?thesis using run at Inr less [OF Some] by auto
  qed
qed

lemma starters_listen:
  "net_inv s \<Longrightarrow> net_inv (starters_run bind ps s) \<and>
     (listening (starters_run bind ps s) q \<longleftrightarrow> listening s q \<or> (q \<in> set ps \<and> bind (word_of_int q) = Inr ()))"
proof (induction ps arbitrary: s)
  case (Cons p ps)
  then show ?case using starter_step [OF Cons.prems, of bind p] by auto
qed auto

lemma net_empty_inv: "net_inv net_empty"
  by (simp add: net_inv_def net_empty_def)

text \<open>A second listener for a port number that is in the set is started all the same, and dropped.\<close>

lemma denied_listener_is_dropped:
  assumes "map_of (nt_set s) p = Some i" "bind (word_of_int p) = Inr ()"
  shows "\<exists>s'. starter_run bind p s = (Inr (), s') \<and> nt_set s' = nt_set s \<and> nt_listeners s' = nt_listeners s"
  using assms by (simp add: starter_run_cases Let_def)

subsection \<open>Configuration\<close>

record core_config =
  cf_core_key :: string
  cf_core_uri :: string
  cf_search_uri :: string
  cf_ws_uri :: string
  cf_comms_thread_count :: u32
  cf_tasks_thread_count :: u32
  cf_karma_policy :: "(string \<times> string) list"
  cf_karma_refresh_interval_ms :: u32
  cf_prometheus_log_file :: string
  cf_prometheus_log_interval :: u32
  cf_ssl_uri :: string
  cf_secure_uri :: string
  cf_white_list_file :: string
  cf_core_cert_pk_file :: string
  cf_core_pubkey_file :: string
  cf_tmp_dh_file :: string

definition config_default :: core_config where
  "config_default = \<lparr>cf_core_key = [], cf_core_uri = [], cf_search_uri = [], cf_ws_uri = [], cf_comms_thread_count = 0,
     cf_tasks_thread_count = 0, cf_karma_policy = [], cf_karma_refresh_interval_ms = 0, cf_prometheus_log_file = [],
     cf_prometheus_log_interval = 0, cf_ssl_uri = [], cf_secure_uri = [], cf_white_list_file = [], cf_core_cert_pk_file = [],
     cf_core_pubkey_file = [], cf_tmp_dh_file = []\<rparr>"

text \<open>\<open>parse\<close> is the reader of protobuf for JSON.\<close>

definition configureFromJson :: "(string \<Rightarrow> core_config option) \<Rightarrow> string \<Rightarrow> (core_config, bool) prog" where
  "configureFromJson parse config_json = (case parse config_json of
     None \<Rightarrow> pret False
   | Some c \<Rightarrow> pthen (pmodify (\<lambda>_. c)) (pret True))"

definition configureFromJsonFile :: "(string \<Rightarrow> core_config option) \<Rightarrow> file_system \<Rightarrow> string \<Rightarrow> (core_config, bool) prog" where
  "configureFromJsonFile parse fopen config_file = (case fopen (path_c_str config_file) of
     Inl _ \<Rightarrow> pret False
   | Inr text \<Rightarrow> configureFromJson parse (concat (getline_split (CHR 0x0A) text)))"

definition configure :: "(string \<Rightarrow> core_config option) \<Rightarrow> file_system \<Rightarrow> string \<Rightarrow> string \<Rightarrow> (core_config, bool) prog" where
  "configure parse fopen config_file config_json =
     (if config_file \<noteq> [] then configureFromJsonFile parse fopen config_file
      else if config_json \<noteq> [] then configureFromJson parse config_json
      else pret False)"

text \<open>\<^verbatim>\<open>main\<close>: the exit code, or the configuration with which the server runs. \<open>args\<close> is the parsed command line.\<close>

datatype main_result = ExitCode int | Running core_config

definition main_program :: "(string \<Rightarrow> core_config option) \<Rightarrow> file_system \<Rightarrow> exn + string \<times> string \<Rightarrow> exn + main_result" where
  "main_program parse fopen args = (case args of
     Inl e \<Rightarrow> if is_std_exception e then Inr (ExitCode 1) else Inl e
   | Inr (config_file, config_string) \<Rightarrow>
       if config_file = [] \<and> config_string = [] then Inr (ExitCode 1)
       else (case configure parse fopen config_file config_string config_default of
               (Inl e, _) \<Rightarrow> Inl e
             | (Inr False, _) \<Rightarrow> Inr (ExitCode 1)
             | (Inr True, c) \<Rightarrow> Inr (Running c)))"

text \<open>The file wins: the JSON text of the command line is not looked at when a file is named.\<close>

lemma file_before_text:
  "config_file \<noteq> [] \<Longrightarrow> main_program parse fopen (Inr (config_file, text)) = main_program parse fopen (Inr (config_file, []))"
  by (simp add: main_program_def configure_def)

lemma runs_iff_configured:
  "main_program parse fopen (Inr (config_file, text)) = Inr (Running c) \<longleftrightarrow>
   (if config_file \<noteq> [] then \<exists>t. fopen (path_c_str config_file) = Inr t \<and> parse (concat (getline_split (CHR 0x0A) t)) = Some c
    else text \<noteq> [] \<and> parse text = Some c)"
  by (auto simp: main_program_def configure_def configureFromJsonFile_def configureFromJson_def pthen_apply
      split: sum.splits option.splits bool.splits)

subsection \<open>Starting the server\<close>

definition minimum_thread_count :: u32 where
  "minimum_thread_count = 1"

definition comms_threads :: "core_config \<Rightarrow> u32" where
  "comms_threads c = max (cf_comms_thread_count c) minimum_thread_count"

definition tasks_threads :: "core_config \<Rightarrow> u32" where
  "tasks_threads c = max (cf_tasks_thread_count c) minimum_thread_count"

text \<open>The policy, and the interval of its refresh task when there is one.\<close>

definition run_karma :: "core_config \<Rightarrow> policy_ref \<times> u32 option" where
  "run_karma c =
     (if cf_karma_policy c \<noteq> []
      then (PolicyBasic, Some (if cf_karma_refresh_interval_ms c = 0 then 1000 else cf_karma_refresh_interval_ms c))
      else (PolicyNone, None))"

definition run_white_list :: "('x, 'k, 'r) openssl \<Rightarrow> file_system \<Rightarrow> core_config \<Rightarrow> exn + bool \<times> string list" where
  "run_white_list ssl fopen c =
     (if cf_white_list_file c \<noteq> []
      then (case load_ssl_pub_keys ssl fopen (cf_white_list_file c) [] of (Inl e, _) \<Rightarrow> Inl e | (Inr _, wl) \<Rightarrow> Inr (True, wl))
      else Inr (False, []))"

text \<open>A white list file that cannot be opened is an empty list: it is enabled, and keeps every TLS agent out.\<close>

lemma missing_white_list_refuses_all:
  "\<lbrakk>cf_white_list_file c \<noteq> []; fopen (path_c_str (cf_white_list_file c)) = Inl e\<rbrakk> \<Longrightarrow> run_white_list ssl fopen c = Inr (True, [])"
  by (simp add: run_white_list_def load_ssl_pub_keys_def pcatch_apply pthen_apply)

datatype transport = PlainEndpoint | WebSocketEndpoint | SslEndpoint
datatype handshake_kind = InitialHandshake | InitialSslHandshake | InitialSecureHandshake

text \<open>The tasks that \<^verbatim>\<open>startListeners\<close> submits; each of its connections gets the login timeout of a second.\<close>

record starter =
  st_port :: u16
  st_transport :: transport
  st_handshake :: handshake_kind
  st_config :: "string \<rightharpoonup> string"

definition submit_starter :: "u16 \<Rightarrow> transport \<Rightarrow> handshake_kind \<Rightarrow> (string \<rightharpoonup> string) \<Rightarrow> (starter list, unit) prog" where
  "submit_starter p t h cfg = pmodify (\<lambda>s. s @ [\<lparr>st_port = p, st_transport = t, st_handshake = h, st_config = cfg\<rparr>])"

definition startListeners :: "core_config \<Rightarrow> (starter list, unit) prog" where
  "startListeners c =
     pbind (plift (uri_parse (cf_core_uri c))) (\<lambda>core_uri.
     pthen (submit_starter (uri_port core_uri) PlainEndpoint InitialHandshake Map.empty)
    (pthen (if cf_ws_uri c \<noteq> []
            then pbind (plift (uri_parse (cf_ws_uri c))) (\<lambda>ws_uri.
                   submit_starter (uri_port ws_uri) WebSocketEndpoint InitialHandshake Map.empty)
            else pret ())
    (pthen (if cf_ssl_uri c \<noteq> []
            then pbind (plift (uri_parse (cf_ssl_uri c))) (\<lambda>ssl_uri.
                   if cf_core_cert_pk_file c \<noteq> [] \<and> cf_tmp_dh_file c \<noteq> []
                   then submit_starter (uri_port ssl_uri) SslEndpoint InitialSslHandshake
                          [''core_cert_pk_file'' \<mapsto> cf_core_cert_pk_file c, ''tmp_dh_file'' \<mapsto> cf_tmp_dh_file c]
                   else pret ())
            else pret ())
           (if cf_secure_uri c \<noteq> []
            then pbind (plift (uri_parse (cf_secure_uri c))) (\<lambda>secure_uri.
                   submit_starter (uri_port secure_uri) PlainEndpoint InitialSecureHandshake Map.empty)
            else pret ()))))"

text \<open>The ports that a configuration names.\<close>

definition address_port :: "string \<Rightarrow> int \<Rightarrow> bool" where
  "address_port a q \<longleftrightarrow> (\<exists>u. uri_parse a = Inr u \<and> q = uint (uri_port u))"

definition configured_port :: "core_config \<Rightarrow> int \<Rightarrow> bool" where
  "configured_port c q \<longleftrightarrow> address_port (cf_core_uri c) q \<or> (cf_ws_uri c \<noteq> [] \<and> address_port (cf_ws_uri c) q) \<or>
     (cf_ssl_uri c \<noteq> [] \<and> cf_core_cert_pk_file c \<noteq> [] \<and> cf_tmp_dh_file c \<noteq> [] \<and> address_port (cf_ssl_uri c) q) \<or>
     (cf_secure_uri c \<noteq> [] \<and> address_port (cf_secure_uri c) q)"

lemma starters_ports:
  assumes "startListeners c [] = (Inr (), sts)"
  shows "q \<in> set (map (\<lambda>st. uint (st_port st)) sts) \<longleftrightarrow> configured_port c q"
  using assms
  by (auto simp: startListeners_def pbind_apply pthen_apply submit_starter_def configured_port_def address_port_def
      split: sum.splits if_splits)

text \<open>
  C9. The server listens where its configuration says. When the starting of the listeners does not throw, then in whatever
  order the pool runs their tasks, exactly those configured ports are listened on that could be opened: the plain
  one always, the others when they are named, and the one for TLS when both of its files are named too.
\<close>

theorem server_listens:
  assumes "startListeners c [] = (Inr (), sts)" "mset ps = mset (map (\<lambda>st. uint (st_port st)) sts)"
  shows "listening (starters_run bind ps net_empty) q \<longleftrightarrow> configured_port c q \<and> bind (word_of_int q) = Inr ()"
proof -
  have "set ps = set (map (\<lambda>st. uint (st_port st)) sts)" by (rule mset_eq_setD [OF assms(2)])
  moreover have "\<not> listening net_empty q" by (simp add: listening_def net_empty_def)
  ultimately show ?thesis
    using starters_listen [OF net_empty_inv, of bind ps q] starters_ports [OF assms(1), of q] by auto
qed

definition demo_config :: core_config where
  "demo_config = config_default\<lparr>cf_core_uri := ''tcp://h:80'', cf_ws_uri := ''tcp://h:81''\<rparr>"

lemma demo_uris:
  "uri_parse ''tcp://h:80'' = Inr \<lparr>uri_s = ''tcp://h:80'', uri_proto = ''tcp:'', uri_host = ''h'', uri_path = [], uri_port = 80, uri_valid = True\<rparr>"
  "uri_parse ''tcp://h:81'' = Inr \<lparr>uri_s = ''tcp://h:81'', uri_proto = ''tcp:'', uri_host = ''h'', uri_path = [], uri_port = 81, uri_valid = True\<rparr>"
  by code_simp+

theorem server_listens_witness:
  "listening (starters_run (\<lambda>p. if p = 81 then Inr () else Inl (RuntimeError [])) [81, 80] net_empty) 81 \<and>
   \<not> listening (starters_run (\<lambda>p. if p = 81 then Inr () else Inl (RuntimeError [])) [81, 80] net_empty) 80"
proof -
  let ?sts = "[\<lparr>st_port = 80, st_transport = PlainEndpoint, st_handshake = InitialHandshake, st_config = Map.empty\<rparr>,
     \<lparr>st_port = 81, st_transport = WebSocketEndpoint, st_handshake = InitialHandshake, st_config = Map.empty\<rparr>]"
  have run: "startListeners demo_config [] = (Inr (), ?sts)"
    by (simp add: startListeners_def demo_config_def config_default_def demo_uris pbind_apply pthen_apply submit_starter_def)
  have ps: "mset [81, 80] = mset (map (\<lambda>st. uint (st_port st)) ?sts)" by simp
  have "configured_port demo_config 81"
    unfolding configured_port_def demo_config_def config_default_def address_port_def by (simp add: demo_uris)
  then show ?thesis
    using server_listens [OF run ps, of "\<lambda>p. if p = 81 then Inr () else Inl (RuntimeError [])" 81]
      server_listens [OF run ps, of "\<lambda>p. if p = 81 then Inr () else Inl (RuntimeError [])" 80] by simp
qed

subsection \<open>The start as a whole\<close>

record startup =
  su_comms_threads :: u32
  su_tasks_threads :: u32
  su_policy :: policy_ref
  su_refresh :: "u32 option"
  su_white_list :: "string list"
  su_white_list_enabled :: bool
  su_starters :: "starter list"

definition run_start :: "('x, 'k, 'r) openssl \<Rightarrow> file_system \<Rightarrow> core_config \<Rightarrow> exn + startup" where
  "run_start ssl fopen c =
     ebind (uri_parse (cf_core_uri c)) (\<lambda>core_uri.
     ebind (uri_parse (cf_search_uri c)) (\<lambda>search_uri.
     ebind (run_white_list ssl fopen c) (\<lambda>(enabled, wl).
     case startListeners c [] of
       (Inl e, _) \<Rightarrow> Inl e
     | (Inr _, sts) \<Rightarrow> Inr \<lparr>su_comms_threads = comms_threads c, su_tasks_threads = tasks_threads c,
         su_policy = fst (run_karma c), su_refresh = snd (run_karma c), su_white_list = wl, su_white_list_enabled = enabled,
         su_starters = sts\<rparr>)))"

text \<open>
  A start that succeeds has at least one thread of each kind, a refresh interval that is not zero when there is a policy, and
  a white list exactly when a file is named.
\<close>

lemma started_server:
  assumes "run_start ssl fopen c = Inr su"
  shows "1 \<le> su_comms_threads su \<and> 1 \<le> su_tasks_threads su \<and> su_refresh su \<noteq> Some 0 \<and>
    (su_refresh su \<noteq> None \<longleftrightarrow> cf_karma_policy c \<noteq> []) \<and> (su_white_list_enabled su \<longleftrightarrow> cf_white_list_file c \<noteq> [])"
proof -
  obtain enabled wl sts where wl: "run_white_list ssl fopen c = Inr (enabled, wl)"
    and su: "su = \<lparr>su_comms_threads = comms_threads c, su_tasks_threads = tasks_threads c, su_policy = fst (run_karma c),
      su_refresh = snd (run_karma c), su_white_list = wl, su_white_list_enabled = enabled, su_starters = sts\<rparr>"
    using assms by (cases "startListeners c []"; cases "fst (startListeners c [])") (auto simp: run_start_def ebind_Inr_iff)
  have "enabled \<longleftrightarrow> cf_white_list_file c \<noteq> []"
    using wl by (auto simp: run_white_list_def split: prod.splits sum.splits if_splits)
  then show ?thesis by (simp add: su run_karma_def comms_threads_def tasks_threads_def minimum_thread_count_def)
qed

end
