(* ===== verification/Reports.thy ===== *)
theory Reports
  imports Monitoring CxxStd
begin

text \<open>
  What the server tells about itself: the report for Prometheus in \<^verbatim>\<open>MtCore::run\<close> and
  \<^verbatim>\<open>prometheusUpThatNamingString\<close> (\<^verbatim>\<open>mt-core/main/src/cpp/MtCore.cpp\<close>), and the memory gauges of
  \<^verbatim>\<open>mt-core/status/src/cpp/MonitoringTask.cpp\<close> on Linux.
\<close>

subsection \<open>Names for Prometheus\<close>

definition is_lower :: "char \<Rightarrow> bool" where
  "is_lower c \<longleftrightarrow> (97::nat) \<le> of_char c \<and> of_char c \<le> (122::nat)"

definition to_upper :: "char \<Rightarrow> char" where
  "to_upper c = char_of (of_char c - 32 :: nat)"

text \<open>The loop over the name with its \<^verbatim>\<open>switch\<close>: only a lower-case letter uses a pending \<^verbatim>\<open>upshift\<close> up.\<close>

fun up_naming :: "string \<Rightarrow> bool \<Rightarrow> string" where
  "up_naming [] upshift = []"
| "up_naming (c # cs) upshift =
     (if c = CHR ''-'' \<or> c = CHR ''_'' then up_naming cs True
      else if c = CHR ''.'' then CHR ''_'' # up_naming cs upshift
      else if is_lower c \<and> upshift then to_upper c # up_naming cs False
      else c # up_naming cs upshift)"

definition prometheusUpThatNamingString :: "string \<Rightarrow> string" where
  "prometheusUpThatNamingString name = up_naming name False"

fun contains_at :: "string \<Rightarrow> string \<Rightarrow> bool" where
  "contains_at p [] \<longleftrightarrow> p = []"
| "contains_at p (c # cs) \<longleftrightarrow> take (length p) (c # cs) = p \<or> contains_at p cs"

subsection \<open>The report\<close>

text \<open>The names seen so far are kept with their new names.\<close>

type_synonym prom_names = "(string \<times> string) list"

definition prom_name :: "string \<Rightarrow> (prom_names, string) prog" where
  "prom_name name = pbind (pget (\<lambda>m. map_of m name)) (\<lambda>it. case it of
     None \<Rightarrow> (let new_name = prometheusUpThatNamingString name in
              pthen (pmodify (omap_insert name new_name)) (pret new_name))
   | Some n \<Rightarrow> pret n)"

definition newline :: string where
  "newline = [CHR 0x0A]"

definition prom_text :: "string \<Rightarrow> u64 \<Rightarrow> string" where
  "prom_text new_name value =
     (if contains_at ''_gauge_'' new_name
      then ''# TYPE '' @ new_name @ '' gauge'' @ newline @ new_name @ '' '' @ nat_str (unat value) @ newline
      else ''# TYPE '' @ new_name @ ''_total'' @ '' counter'' @ newline @ new_name @ ''_total'' @ '' '' @ nat_str (unat value) @ newline)"

definition prom_entry :: "string \<times> u64 \<Rightarrow> (prom_names, string) prog" where
  "prom_entry e = pbind (prom_name (fst e)) (\<lambda>n. pret (prom_text n (snd e)))"

fun prom_entries :: "(string \<times> u64) list \<Rightarrow> (prom_names, string) prog" where
  "prom_entries [] = pret []"
| "prom_entries (e # es) = pbind (prom_entry e) (\<lambda>t. pbind (prom_entries es) (\<lambda>ts. pret (t @ ts)))"

text \<open>
  One turn of the loop of \<^verbatim>\<open>run\<close>: how long it sleeps, and what it does to the files, with \<open>opened\<close> and
  \<open>renamed\<close> what the system answers. Without a file the report goes to the log.
\<close>

type_synonym files = "string \<Rightarrow> string option"

definition snooze :: "string \<Rightarrow> nat \<Rightarrow> nat" where
  "snooze log_file log_interval = (if log_file \<noteq> [] \<and> log_interval \<noteq> 0 then log_interval else 3)"

record reporting =
  rp_monitoring :: monitoring
  rp_names :: prom_names
  rp_files :: files

definition run_report :: "bool \<Rightarrow> bool \<Rightarrow> string \<Rightarrow> (reporting, unit) prog" where
  "run_report opened renamed final_file = (\<lambda>s. case mon_report (rp_monitoring s) of
     (Inl e, m) \<Rightarrow> (Inl e, s\<lparr>rp_monitoring := m\<rparr>)
   | (Inr pairs, m) \<Rightarrow>
       (let temp_file = final_file @ ''.tmp'' in
        if final_file = [] \<or> \<not> opened then (Inr (), s)
        else (case prom_entries pairs (rp_names s) of
                (Inl e, ns) \<Rightarrow> (Inl e, s\<lparr>rp_names := ns\<rparr>)
              | (Inr text, ns) \<Rightarrow>
                  (Inr (), s\<lparr>rp_names := ns, rp_files :=
                     (if renamed then (rp_files s)(temp_file := None, final_file := Some text)
                      else (rp_files s)(temp_file := Some text))\<rparr>))))"

text \<open>The names that are kept are those that would be computed.\<close>

definition names_ok :: "prom_names \<Rightarrow> bool" where
  "names_ok ns \<longleftrightarrow> (\<forall>n m. map_of ns n = Some m \<longrightarrow> m = prometheusUpThatNamingString n)"

lemma prom_name_spec:
  "names_ok ns \<Longrightarrow> \<exists>ns'. prom_name n ns = (Inr (prometheusUpThatNamingString n), ns') \<and> names_ok ns'"
  by (cases "map_of ns n") (auto simp: prom_name_def pbind_apply pthen_apply Let_def names_ok_def)

lemma prom_entries_spec:
  "names_ok ns \<Longrightarrow> \<exists>ns'. names_ok ns' \<and>
     prom_entries es ns = (Inr (concat (map (\<lambda>(n, v). prom_text (prometheusUpThatNamingString n) v) es)), ns')"
proof (induction es arbitrary: ns)
  case Nil
  then show ?case by auto
next
  case (Cons e es)
  obtain ns1 where 1: "prom_name (fst e) ns = (Inr (prometheusUpThatNamingString (fst e)), ns1)" "names_ok ns1"
    using prom_name_spec [OF Cons.prems] by blast
  obtain ns2 where "names_ok ns2"
    "prom_entries es ns1 = (Inr (concat (map (\<lambda>(n, v). prom_text (prometheusUpThatNamingString n) v) es)), ns2)"
    using Cons.IH [OF 1(2)] by blast
  with 1 show ?case by (cases e) (auto simp: prom_entry_def pbind_apply)
qed

text \<open>
  A report is a function of the counters. Whatever names earlier turns of the loop have kept, a turn that can write its file replaces it
  by one entry for each counter and gauge of the process, under its name for Prometheus and with its value, in the order
  of the table; it keeps only names that it would compute again, and leaves no temporary file.
\<close>

lemma report_is_function_of_counters:
  assumes "mon_report (rp_monitoring s) = (Inr pairs, m)" "names_ok (rp_names s)" "final_file \<noteq> []"
  shows "\<exists>s'. run_report True True final_file s = (Inr (), s') \<and> names_ok (rp_names s') \<and>
    rp_files s' final_file = Some (concat (map (\<lambda>(n, v). prom_text (prometheusUpThatNamingString n) v) pairs)) \<and>
    rp_files s' (final_file @ ''.tmp'') = None"
  using prom_entries_spec [OF assms(2), of pairs] assms(1,3) by (auto simp: run_report_def Let_def)

definition demo_reporting :: reporting where
  "demo_reporting = \<lparr>rp_monitoring = snd (count_event ''a.b-c'' None), rp_names = [], rp_files = (\<lambda>_. None)\<rparr>"

lemma report_is_function_of_counters_example:
  "rp_files (snd (run_report True True ''out'' demo_reporting)) ''out'' =
     Some (''# TYPE a_bC_total counter'' @ newline @ ''a_bC_total 1'' @ newline)"
proof -
  have "fst (mon_report (rp_monitoring demo_reporting)) = Inr [(''a.b-c'', 1)]" unfolding demo_reporting_def by code_simp
  then have r: "mon_report (rp_monitoring demo_reporting) = (Inr [(''a.b-c'', 1)], snd (mon_report (rp_monitoring demo_reporting)))"
    by (metis prod.collapse)
  have n: "prometheusUpThatNamingString ''a.b-c'' = ''a_bC''" by code_simp
  have t: "prom_text ''a_bC'' 1 = ''# TYPE a_bC_total counter'' @ newline @ ''a_bC_total 1'' @ newline" by code_simp
  from report_is_function_of_counters [OF r, of "''out''"] show ?thesis
    by (auto simp: demo_reporting_def names_ok_def n t)
qed
text \<open>Names that differ only in how their words are joined are one name for Prometheus: two entries of the report then have it.\<close>

lemma names_collide:
  "prometheusUpThatNamingString ''tasks-run'' = prometheusUpThatNamingString ''tasks_run''"
  "prometheusUpThatNamingString ''tasks.-run'' = prometheusUpThatNamingString ''tasks-.run''"
  by code_simp+

text \<open>A gauge whose name has no part \<open>gauge\<close> is reported as a counter: those of the connections are.\<close>

lemma connection_gauge_is_counter:
  "prom_text (prometheusUpThatNamingString ''mt-core.network.Endpoint'') 0 =
     ''# TYPE mtCore_network_Endpoint_total counter'' @ newline @ ''mtCore_network_Endpoint_total 0'' @ newline"
  "take 36 (prom_text (prometheusUpThatNamingString ''mt-core.gauge.rss'') 0) = ''# TYPE mtCore_gauge_rss gauge'' @ newline @ ''mtCore''"
  by code_simp+

text \<open>The characters Prometheus takes in a name, digits at the front apart.\<close>

definition is_upper :: "char \<Rightarrow> bool" where
  "is_upper c \<longleftrightarrow> (65::nat) \<le> of_char c \<and> of_char c \<le> (90::nat)"

definition name_char :: "char \<Rightarrow> bool" where
  "name_char c \<longleftrightarrow> is_lower c \<or> is_upper c \<or> is_digit c \<or> c = CHR ''_''"

lemma to_upper_upper: "is_lower c \<Longrightarrow> is_upper (to_upper c)"
  by (auto simp: is_lower_def is_upper_def to_upper_def)

lemma up_naming_chars:
  "\<lbrakk>\<forall>c \<in> set cs. is_lower c \<or> is_upper c \<or> is_digit c \<or> c \<in> {CHR ''-'', CHR ''_'', CHR ''.''}; d \<in> set (up_naming cs u)\<rbrakk> \<Longrightarrow> name_char d"
  by (induction cs u rule: up_naming.induct) (auto simp: name_char_def to_upper_upper split: if_splits)

lemma underscores_are_dots:
  "\<forall>c \<in> set cs. is_lower c \<longrightarrow> to_upper c \<noteq> CHR ''_'' \<Longrightarrow>
   length (filter (\<lambda>c. c = CHR ''_'') (up_naming cs u)) = length (filter (\<lambda>c. c = CHR ''.'') cs)"
  by (induction cs u rule: up_naming.induct) auto

subsection \<open>The memory of the process\<close>

text \<open>
  \<^verbatim>\<open>process_mem_usage\<close>: words of \<^verbatim>\<open>/proc/self/stat\<close>, split at white space: 22 that are skipped, then the
  virtual size in bytes and the resident pages, which the kernel writes without a sign. A number stops at the first
  character that is no digit; when it has none, or too many, the variable gets a substitute and nothing more is read. A
  variable that is not reached keeps what its memory held (\<open>junk\<close>).
\<close>

fun words_of :: "string \<Rightarrow> string \<Rightarrow> string list" where
  "words_of [] w = (if w = [] then [] else [w])"
| "words_of (c # cs) w = (if is_space c then (if w = [] then words_of cs [] else w # words_of cs []) else words_of cs (w @ [c]))"

text \<open>The value, and what is left of the word when the number could be read.\<close>

definition read_number :: "nat \<Rightarrow> string \<Rightarrow> nat \<times> string option" where
  "read_number limit w = (let d = takeWhile is_digit w in
     if d = [] then (0, None)
     else if dec_value d < limit then (dec_value d, Some (dropWhile is_digit w))
     else (limit - 1, None))"

definition stat_fields :: "string \<Rightarrow> nat \<times> nat \<Rightarrow> nat \<times> nat" where
  "stat_fields text junk = (case drop 22 (words_of text []) of
     [] \<Rightarrow> junk
   | w # ws \<Rightarrow> (case read_number (2 ^ 64) w of
       (vsize, None) \<Rightarrow> (vsize, snd junk)
     | (vsize, Some rest) \<Rightarrow> (case (if rest = [] then ws else rest # ws) of
         [] \<Rightarrow> (vsize, snd junk)
       | w2 # _ \<Rightarrow> (vsize, fst (read_number (2 ^ 63) w2)))))"

record mem_usage_result =
  mu_vsize :: nat
  mu_rss :: nat
  mu_ok :: bool

text \<open>\<open>dbl\<close> rounds an integer to a double. The product with the pages is one of \<^verbatim>\<open>long\<close>, whose overflow is undefined.\<close>

definition process_mem_usage :: "(nat \<Rightarrow> nat) \<Rightarrow> nat \<Rightarrow> nat \<times> nat \<Rightarrow> string option \<Rightarrow> exn + mem_usage_result" where
  "process_mem_usage dbl page_size junk stat = (case stat of
     None \<Rightarrow> Inr \<lparr>mu_vsize = 0, mu_rss = 0, mu_ok = False\<rparr>
   | Some text \<Rightarrow>
       (let (vsize, rss) = stat_fields text junk; page_size_kb = page_size div 1024
        in if 2 ^ 63 \<le> rss * page_size_kb * 1024 then Inl Undefined
           else Inr \<lparr>mu_vsize = dbl vsize * 1024, mu_rss = dbl (rss * page_size_kb * 1024), mu_ok = True\<rparr>))"

text \<open>A double that is put into a gauge is cut to an integer, which must fit.\<close>

definition gauge_put :: "string \<Rightarrow> nat \<Rightarrow> (monitoring, unit) prog" where
  "gauge_put name d = pbind (gauge_new name) (\<lambda>g. if d < 2 ^ 64 then gauge_set g (of_nat d) else pthrow Undefined)"

text \<open>The task submits itself again after ten seconds.\<close>

definition monitoring_run :: "(nat \<Rightarrow> nat) \<Rightarrow> nat \<Rightarrow> nat \<times> nat \<Rightarrow> string option \<Rightarrow> (monitoring, nat) prog" where
  "monitoring_run dbl page_size junk stat =
     pbind (plift (process_mem_usage dbl page_size junk stat)) (\<lambda>r_self.
     pthen (if mu_ok r_self
            then pthen (gauge_put ''status.linux'' 1)
                (pthen (gauge_put ''mt-core.gauge.vsize'' (mu_vsize r_self))
                (pthen (gauge_put ''mt-core.gauge.vsize.mb'' (mu_vsize r_self div 1024 div 1024))
                (pthen (gauge_put ''mt-core.gauge.rss'' (mu_rss r_self))
                       (gauge_put ''mt-core.gauge.rss.mb'' (mu_rss r_self div 1024 div 1024)))))
            else count_event ''status.not_linux'')
           (pret 10000))"

lemma gauge_put_props:
  assumes "mon_inv s" "d < 2 ^ 64"
  shows "fst (gauge_put n d s) = Inr ()" "mon_inv (snd (gauge_put n d s))"
    "mon_reading (snd (gauge_put n d s)) m = (if m = n then of_nat d else mon_reading s m)"
proof -
  have "gauge_put n d = pbind (mon_find n) (\<lambda>i. pbind (mon_access i) (\<lambda>v. mon_store i (of_nat d)))"
    using assms(2) by (simp add: gauge_put_def gauge_new_def gauge_set_def mon_set_def)
  note P = mon_find_then_store [OF assms(1), of n "\<lambda>v. of_nat d", folded this]
  show "fst (gauge_put n d s) = Inr ()" by (subst P(1)) simp
  show "mon_inv (snd (gauge_put n d s))" by (rule P(2))
  show "mon_reading (snd (gauge_put n d s)) m = (if m = n then of_nat d else mon_reading s m)" by (rule P(3))
qed

lemma gauge_put_run:
  assumes "mon_inv s" "d < 2 ^ 64"
  obtains s' where "gauge_put n d s = (Inr (), s')" "mon_inv s'" "\<And>m. mon_reading s' m = (if m = n then of_nat d else mon_reading s m)"
  using gauge_put_props [OF assms] by (metis prod.collapse)

lemma stat_fields_values:
  assumes "words_of text [] = pre @ nat_str v # nat_str r # post" "length pre = 22" "v < 2 ^ 64" "r < 2 ^ 63"
  shows "stat_fields text junk = (v, r)"
proof -
  have "read_number limit (nat_str n) = (n, Some [])" if "n < limit" for n limit
  proof -
    have "takeWhile is_digit (nat_str n) = nat_str n" "dropWhile is_digit (nat_str n) = []"
      using nat_str_digits [of n] by (simp_all add: takeWhile_eq_all_conv dropWhile_eq_Nil_conv)
    then show ?thesis using that by (simp only: read_number_def Let_def dec_value_nat_str nat_str_nonempty if_False if_True)
  qed
  from this [OF assms(3)] this [OF assms(4)] assms(1,2) show ?thesis
    by (simp only: stat_fields_def) simp
qed

lemma gauges_put:
  assumes "mon_inv m" "a < 2 ^ 64" "b < 2 ^ 64" "c < 2 ^ 64" "d < 2 ^ 64"
  obtains m' where "pthen (gauge_put ''status.linux'' 1) (pthen (gauge_put ''mt-core.gauge.vsize'' a)
      (pthen (gauge_put ''mt-core.gauge.vsize.mb'' b) (pthen (gauge_put ''mt-core.gauge.rss'' c)
      (gauge_put ''mt-core.gauge.rss.mb'' d)))) m = (Inr (), m')"
    "mon_reading m' ''mt-core.gauge.vsize'' = of_nat a" "mon_reading m' ''mt-core.gauge.vsize.mb'' = of_nat b"
    "mon_reading m' ''mt-core.gauge.rss'' = of_nat c" "mon_reading m' ''status.linux'' = 1"
proof -
  obtain m1 where m1: "gauge_put ''status.linux'' 1 m = (Inr (), m1)" "mon_inv m1" "\<And>x. mon_reading m1 x = (if x = ''status.linux'' then of_nat 1 else mon_reading m x)"
    by (rule gauge_put_run [OF assms(1), of 1 "''status.linux''"]) simp_all
  obtain m2 where m2: "gauge_put ''mt-core.gauge.vsize'' a m1 = (Inr (), m2)" "mon_inv m2"
    "\<And>x. mon_reading m2 x = (if x = ''mt-core.gauge.vsize'' then of_nat a else mon_reading m1 x)"
    by (rule gauge_put_run [OF m1(2) assms(2), of "''mt-core.gauge.vsize''"]) simp_all
  obtain m3 where m3: "gauge_put ''mt-core.gauge.vsize.mb'' b m2 = (Inr (), m3)" "mon_inv m3"
    "\<And>x. mon_reading m3 x = (if x = ''mt-core.gauge.vsize.mb'' then of_nat b else mon_reading m2 x)"
    by (rule gauge_put_run [OF m2(2) assms(3), of "''mt-core.gauge.vsize.mb''"]) simp_all
  obtain m4 where m4: "gauge_put ''mt-core.gauge.rss'' c m3 = (Inr (), m4)" "mon_inv m4"
    "\<And>x. mon_reading m4 x = (if x = ''mt-core.gauge.rss'' then of_nat c else mon_reading m3 x)"
    by (rule gauge_put_run [OF m3(2) assms(4), of "''mt-core.gauge.rss''"]) simp_all
  obtain m5 where m5: "gauge_put ''mt-core.gauge.rss.mb'' d m4 = (Inr (), m5)" "mon_inv m5"
    "\<And>x. mon_reading m5 x = (if x = ''mt-core.gauge.rss.mb'' then of_nat d else mon_reading m4 x)"
    by (rule gauge_put_run [OF m4(2) assms(5), of "''mt-core.gauge.rss.mb''"]) simp_all
  show thesis
    by (rule that [of m5]) (simp_all add: pthen_apply m1(1,3) m2(1,3) m3(1,3) m4(1,3) m5(1,3) del: One_nat_def)
qed

text \<open>
  What the memory gauges say. When the words of the process status are the expected ones and the numbers small enough for
  doubles to hold them, the gauge for the resident set is the resident pages in bytes, and the one for the virtual size is
  1024 times the virtual size in bytes, so that the gauge said to be in megabytes counts kilobytes.
\<close>

lemma memory_gauges:
  assumes "mon_inv m" "words_of text [] = pre @ nat_str v # nat_str r # post" "length pre = 22"
    and "\<forall>n < 2 ^ 53. dbl n = n" "v < 2 ^ 53" "r * (page_size div 1024) * 1024 < 2 ^ 53" "1024 \<le> page_size"
  shows "\<exists>m'. monitoring_run dbl page_size junk (Some text) m = (Inr 10000, m') \<and>
    mon_reading m' ''mt-core.gauge.vsize'' = of_nat (v * 1024) \<and> mon_reading m' ''mt-core.gauge.vsize.mb'' = of_nat (v div 1024) \<and>
    mon_reading m' ''mt-core.gauge.rss'' = of_nat (r * (page_size div 1024) * 1024) \<and> mon_reading m' ''status.linux'' = 1"
proof -
  define b where "b = r * (page_size div 1024) * 1024"
  have b: "b < 2 ^ 53" using assms(6) by (simp add: b_def)
  have "1 \<le> page_size div 1024" using assms(7) by (simp add: Suc_leI div_greater_zero_iff)
  then have "r * 1 \<le> r * (page_size div 1024)" by (rule mult_le_mono2)
  then have "r \<le> b" unfolding b_def by (metis mult.right_neutral le_trans mult_le_mono2 one_le_numeral)
  then have "r < 2 ^ 63" using b by simp
  then have "stat_fields text junk = (v, r)"
    using assms(5) by (intro stat_fields_values [OF assms(2,3)]) simp_all
  then have p: "process_mem_usage dbl page_size junk (Some text) = Inr \<lparr>mu_vsize = v * 1024, mu_rss = b, mu_ok = True\<rparr>"
    using assms(4,5) b by (simp add: process_mem_usage_def b_def)
  have lt: "n div 1024 \<le> n" "n div 1024 div 1024 \<le> n" for n :: nat by (simp, metis div_le_dividend le_trans)
  have "v * 1024 < 2 ^ 64" "v div 1024 < 2 ^ 64" "b < 2 ^ 64" "b div 1024 div 1024 < 2 ^ 64"
    using assms(5) b lt(1) [of v] lt(2) [of b] by simp_all
  then obtain m' where "pthen (gauge_put ''status.linux'' 1) (pthen (gauge_put ''mt-core.gauge.vsize'' (v * 1024))
      (pthen (gauge_put ''mt-core.gauge.vsize.mb'' (v div 1024)) (pthen (gauge_put ''mt-core.gauge.rss'' b)
      (gauge_put ''mt-core.gauge.rss.mb'' (b div 1024 div 1024))))) m = (Inr (), m')"
    "mon_reading m' ''mt-core.gauge.vsize'' = of_nat (v * 1024)" "mon_reading m' ''mt-core.gauge.vsize.mb'' = of_nat (v div 1024)"
    "mon_reading m' ''mt-core.gauge.rss'' = of_nat b" "mon_reading m' ''status.linux'' = 1"
    by (rule gauges_put [OF assms(1)])
  moreover have "v * 1024 div 1024 div 1024 = v div 1024" by simp
  ultimately show ?thesis
    unfolding b_def [symmetric]
    by (intro exI [of _ m']) (simp add: monitoring_run_def pbind_apply p pthen_apply [of _ "pret 10000"])
qed

lemma memory_gauges_example:
  "mon_reading (snd (monitoring_run (\<lambda>n. n) 4096 (0, 0) (Some (concat (replicate 22 ''x '') @ ''2048 3 0'')) None)) ''mt-core.gauge.vsize.mb'' = 2"
proof -
  have w: "words_of (concat (replicate 22 ''x '') @ ''2048 3 0'') [] = replicate 22 ''x'' @ nat_str 2048 # nat_str 3 # [''0'']"
    by code_simp
  have "mon_inv None" by (simp add: mon_inv_def)
  from memory_gauges [OF this w, of "\<lambda>n. n" 4096 "(0, 0)"] show ?thesis by auto
qed

text \<open>
  A process whose name has a space: each field is one word further, and when the word in the place of the size is no
  number the size is reported as 0 and the pages as what happens to be in memory.
\<close>

lemma displaced_fields:
  assumes "words_of text [] = pre @ w # post" "length pre = 22" "takeWhile is_digit w = []"
  shows "stat_fields text junk = (0, snd junk)"
  using assms by (simp add: stat_fields_def read_number_def)

text \<open>Without the file nothing but a counter changes; with a file that ends too early what happens to be in memory is reported.\<close>

lemma short_status_reports_junk:
  "\<lbrakk>length (words_of text []) \<le> 22; fst junk < 2 ^ 53; snd junk = 0; \<forall>n < 2 ^ 53. dbl n = n\<rbrakk> \<Longrightarrow>
   process_mem_usage dbl page_size junk (Some text) = Inr \<lparr>mu_vsize = fst junk * 1024, mu_rss = 0, mu_ok = True\<rparr>"
  by (cases junk) (simp add: process_mem_usage_def stat_fields_def)

end
