(* ===== verification/ByteArrays.thy ===== *)
theory ByteArrays
  imports CxxStd
begin

text \<open>
  \<^verbatim>\<open>fetch_teams/ledger/experimental/core/const_byte_array.hpp\<close> and \<^verbatim>\<open>byte_array.hpp\<close>: byte arrays that share their
  memory. The store is the list of the vectors allocated so far; an array is a value that refers to one of them, so two
  arrays with the same reference alias. An operation that writes an array takes it and returns it. A failed \<^verbatim>\<open>assert\<close> is
  \<open>Aborted\<close>; a read or write outside of a vector, through a null pointer or of overlapping regions by \<^verbatim>\<open>memcpy\<close> is
  \<open>Undefined\<close>. An empty vector has a null \<^verbatim>\<open>data()\<close>; moving zero bytes through it has no effect. Memory is never exhausted.
\<close>

subsection \<open>Vectors\<close>

type_synonym blocks = "byte list list"

definition VECTOR_MAX :: nat where
  "VECTOR_MAX = 2 ^ 63 - 1"

definition sa_new :: "u64 \<Rightarrow> (blocks, nat) prog" where
  "sa_new n = (\<lambda>h. if VECTOR_MAX < unat n then (Inl (LogicError ''cannot create std::vector larger than max_size()''), h)
     else (Inr (length h), h @ [replicate (unat n) 0]))"

text \<open>The shared pointer of an array; it is null in an array that has been moved from.\<close>

definition sa_size :: "blocks \<Rightarrow> nat option \<Rightarrow> exn + u64" where
  "sa_size h d = (case d of None \<Rightarrow> Inl Undefined | Some b \<Rightarrow> Inr (of_nat (length (h ! b))))"

type_synonym address = "(nat \<times> u64) option"

definition address_plus :: "address \<Rightarrow> u64 \<Rightarrow> address" where
  "address_plus p n = map_option (\<lambda>(b, i). (b, i + n)) p"

definition mem_read :: "blocks \<Rightarrow> address \<Rightarrow> u64 \<Rightarrow> exn + byte list" where
  "mem_read h p n =
     (if n = 0 then Inr []
      else case p of None \<Rightarrow> Inl Undefined
      | Some (b, i) \<Rightarrow> if b < length h \<and> unat i + unat n \<le> length (h ! b) then Inr (take (unat n) (drop (unat i) (h ! b))) else Inl Undefined)"

definition mem_write :: "address \<Rightarrow> byte list \<Rightarrow> (blocks, unit) prog" where
  "mem_write p bs = (\<lambda>h.
     if bs = [] then (Inr (), h)
     else case p of None \<Rightarrow> (Inl Undefined, h)
     | Some (b, i) \<Rightarrow> if b < length h \<and> unat i + length bs \<le> length (h ! b) then (Inr (), h[b := overwrite (unat i) bs (h ! b)]) else (Inl Undefined, h))"

definition regions_overlap :: "address \<Rightarrow> address \<Rightarrow> u64 \<Rightarrow> bool" where
  "regions_overlap p q n = (case (p, q) of (Some (b, i), Some (c, j)) \<Rightarrow> b = c \<and> unat i < unat j + unat n \<and> unat j < unat i + unat n | _ \<Rightarrow> False)"

definition mem_copy :: "address \<Rightarrow> address \<Rightarrow> u64 \<Rightarrow> (blocks, unit) prog" where
  "mem_copy dest src n =
     (if n \<noteq> 0 \<and> regions_overlap dest src n then pthrow Undefined
      else (\<lambda>h. pbind (plift (mem_read h src n)) (mem_write dest) h))"

definition SetZeroAfter :: "nat \<Rightarrow> u64 \<Rightarrow> (blocks, unit) prog" where
  "SetZeroAfter b n = (\<lambda>h. if unat n < length (h ! b)
     then mem_write (Some (b, n)) (replicate (length (h ! b) - unat n) 0) h else (Inr (), h))"

subsection \<open>Arrays\<close>

record cba =
  cb_data :: "nat option"
  cb_start :: u64
  cb_length :: u64
  cb_ptr :: address

definition UseCount :: "cba list \<Rightarrow> nat option \<Rightarrow> nat" where
  "UseCount live d = (case d of None \<Rightarrow> 0 | Some b \<Rightarrow> length (filter (\<lambda>a. cb_data a = Some b) live))"

definition IsUnique :: "cba list \<Rightarrow> nat option \<Rightarrow> bool" where
  "IsUnique live d \<longleftrightarrow> UseCount live d < 2"

definition cba_new :: "(blocks, cba) prog" where
  "cba_new = pbind (sa_new 0) (\<lambda>b. pret \<lparr>cb_data = Some b, cb_start = 0, cb_length = 0, cb_ptr = None\<rparr>)"

datatype ResizeParadigm = RELATIVE | ABSOLUTE

definition Reserve :: "u64 \<Rightarrow> ResizeParadigm \<Rightarrow> bool \<Rightarrow> cba \<Rightarrow> (blocks, cba) prog" where
  "Reserve n paradigm zero c = (\<lambda>h.
     pbind (plift (sa_size h (cb_data c))) (\<lambda>sz.
       let new_capacity = (case paradigm of RELATIVE \<Rightarrow> sz + n | ABSOLUTE \<Rightarrow> n)
       in if new_capacity \<le> sz then pret c
          else if new_capacity = 0 then pthrow Aborted
          else pbind (sa_new new_capacity) (\<lambda>b.
            pthen (mem_copy (Some (b, 0)) (map_option (\<lambda>d. (d, 0)) (cb_data c)) sz)
            (pthen (if zero then SetZeroAfter b sz else pret ())
            (pret (c\<lparr>cb_data := Some b, cb_ptr := Some (b, cb_start c)\<rparr>))))) h)"

definition Resize :: "u64 \<Rightarrow> ResizeParadigm \<Rightarrow> bool \<Rightarrow> cba \<Rightarrow> (blocks, cba) prog" where
  "Resize n paradigm zero c =
     (let new_length = (case paradigm of RELATIVE \<Rightarrow> cb_length c + n | ABSOLUTE \<Rightarrow> n)
      in pbind (Reserve (cb_start c + new_length) ABSOLUTE zero c) (\<lambda>c'. pret (c'\<lparr>cb_length := new_length\<rparr>)))"

definition capacity :: "blocks \<Rightarrow> cba \<Rightarrow> exn + u64" where
  "capacity h c = sa_size h (cb_data c)"

subsection \<open>Reading and writing\<close>

definition arr_get :: "blocks \<Rightarrow> cba \<Rightarrow> u64 \<Rightarrow> exn + byte" where
  "arr_get h c n = ebind (mem_read h (address_plus (cb_ptr c) n) 1) (\<lambda>bs. Inr (hd bs))"

definition cba_at :: "blocks \<Rightarrow> cba \<Rightarrow> u64 \<Rightarrow> exn + byte" where
  "cba_at h c n = (if n < cb_length c then arr_get h c n else Inl Aborted)"

definition cba_set :: "cba \<Rightarrow> u64 \<Rightarrow> byte \<Rightarrow> (blocks, unit) prog" where
  "cba_set c n b = (if n < cb_length c then mem_write (address_plus (cb_ptr c) n) [b] else pthrow Aborted)"

definition WriteBytes :: "byte list \<Rightarrow> u64 \<Rightarrow> cba \<Rightarrow> (blocks, unit) prog" where
  "WriteBytes src dest_offset c =
     (if dest_offset + of_nat (length src) \<le> cb_length c then mem_write (address_plus (cb_ptr c) dest_offset) src else pthrow Aborted)"

definition ReadBytes :: "u64 \<Rightarrow> u64 \<Rightarrow> cba \<Rightarrow> blocks \<Rightarrow> exn + byte list" where
  "ReadBytes dest_size src_offset c h =
     (if cb_length c < src_offset + dest_size then Inl (RuntimeError ''ReadBytes target array is too big'')
      else mem_read h (address_plus (cb_ptr c) src_offset) dest_size)"

definition cba_of_size :: "u64 \<Rightarrow> (blocks, cba) prog" where
  "cba_of_size n = pbind cba_new (Resize n ABSOLUTE True)"

definition cba_of_bytes :: "byte list \<Rightarrow> (blocks, cba) prog" where
  "cba_of_bytes bs = pbind cba_new (\<lambda>c.
     if bs = [] then pret c
     else pbind (Reserve (of_nat (length bs)) ABSOLUTE True c) (\<lambda>c1.
       pbind (Resize (of_nat (length bs)) ABSOLUTE True c1) (\<lambda>c2.
       pthen (WriteBytes bs 0 c2) (pret c2))))"

text \<open>From a C string (\<open>None\<close> for a null pointer; the bytes up to the terminator) and from a list of bytes.\<close>

definition cba_of_c_str :: "byte list option \<Rightarrow> (blocks, cba) prog" where
  "cba_of_c_str s = cba_of_bytes (case s of None \<Rightarrow> [] | Some bs \<Rightarrow> takeWhile (\<lambda>b. b \<noteq> 0) bs)"

fun cba_fill :: "byte list \<Rightarrow> u64 \<Rightarrow> cba \<Rightarrow> (blocks, unit) prog" where
  "cba_fill [] i c = pret ()"
| "cba_fill (a # l) i c = pthen (mem_write (map_option (\<lambda>b. (b, i)) (cb_data c)) [a]) (cba_fill l (i + 1) c)"

definition cba_of_list :: "byte list \<Rightarrow> (blocks, cba) prog" where
  "cba_of_list l = pbind cba_new (\<lambda>c. pbind (Resize (of_nat (length l)) ABSOLUTE True c) (\<lambda>c'. pthen (cba_fill l 0 c') (pret c')))"

text \<open>The window of an array: what the third constructor makes, and what assignment from a window does without its check.\<close>

definition cba_window :: "cba \<Rightarrow> u64 \<Rightarrow> u64 \<Rightarrow> blocks \<Rightarrow> exn + cba" where
  "cba_window other st n h =
     ebind (sa_size h (cb_data other)) (\<lambda>sz.
       if st + n \<le> sz
       then Inr \<lparr>cb_data = cb_data other, cb_start = st, cb_length = n, cb_ptr = map_option (\<lambda>b. (b, st)) (cb_data other)\<rparr>
       else Inl Aborted)"

definition FromByteArray :: "cba \<Rightarrow> u64 \<Rightarrow> u64 \<Rightarrow> exn + cba" where
  "FromByteArray other st n =
     (case cb_data other of None \<Rightarrow> Inl Undefined
      | Some b \<Rightarrow> Inr \<lparr>cb_data = Some b, cb_start = cb_start other + st, cb_length = n, cb_ptr = Some (b, cb_start other + st)\<rparr>)"

definition SubArray :: "cba \<Rightarrow> u64 \<Rightarrow> u64 \<Rightarrow> blocks \<Rightarrow> exn + cba" where
  "SubArray c st n h =
     (let n' = min n (cb_length c - st)
      in if st + n' \<le> cb_start c + cb_length c then cba_window c (st + cb_start c) n' h else Inl Aborted)"

definition Copy :: "cba \<Rightarrow> (blocks, cba) prog" where
  "Copy c = (\<lambda>h. pbind (plift (mem_read h (cb_ptr c) (cb_length c))) cba_of_bytes h)"

text \<open>\<^verbatim>\<open>ByteArray\<close> from a \<^verbatim>\<open>ConstByteArray\<close>, copied or, if it is the only one of its vector, moved: the result and what is left.\<close>

definition cba_move :: "cba \<Rightarrow> cba \<times> cba" where
  "cba_move c = (c, c\<lparr>cb_data := None\<rparr>)"

definition ByteArray_copy :: "cba \<Rightarrow> (blocks, cba) prog" where
  "ByteArray_copy c = Copy c"

definition ByteArray_move :: "cba list \<Rightarrow> cba \<Rightarrow> (blocks, cba \<times> cba) prog" where
  "ByteArray_move live c = (if IsUnique live (cb_data c) then pret (cba_move c) else pbind (Copy c) (\<lambda>r. pret (r, c)))"

subsection \<open>Comparing and searching\<close>

lemma unat_next: "i < (n :: 'a::len word) \<Longrightarrow> unat (i + 1) = Suc (unat i)"
proof -
  assume "i < n"
  then have "unat i < unat n" by (simp add: word_less_nat_alt)
  then have "unat i + 1 < 2 ^ LENGTH('a)" using unsigned_less[of n] by (metis One_nat_def Suc_leI Suc_eq_plus1 le_less_trans)
  then have "unat i + unat (1 :: 'a word) < 2 ^ LENGTH('a)" by simp
  then show ?thesis using unat_plus_small[of i 1] by simp
qed

lemma next_index: "i < (n :: u64) \<Longrightarrow> unat n - unat (i + 1) < unat n - unat i"
  using unat_next[of i n] by (simp add: word_less_nat_alt)

function cba_mismatch :: "blocks \<Rightarrow> cba \<Rightarrow> cba \<Rightarrow> u64 \<Rightarrow> u64 \<Rightarrow> exn + u64" where
  "cba_mismatch h a b n i =
     (if i < n then ebind (arr_get h a i) (\<lambda>x. ebind (arr_get h b i) (\<lambda>y. if x \<noteq> y then Inr i else cba_mismatch h a b n (i + 1)))
      else Inr i)"
  by pat_completeness auto

termination cba_mismatch
  by (relation "measure (\<lambda>(_, _, _, n, i). unat n - unat i)") (simp_all add: next_index)

declare cba_mismatch.simps [simp del]

definition cba_less :: "blocks \<Rightarrow> cba \<Rightarrow> cba \<Rightarrow> exn + bool" where
  "cba_less h a b =
     (let n = min (cb_length a) (cb_length b)
      in ebind (cba_mismatch h a b n 0) (\<lambda>i.
        if i < n then ebind (arr_get h a i) (\<lambda>x. ebind (arr_get h b i) (\<lambda>y. Inr (x < y)))
        else Inr (cb_length a < cb_length b)))"

definition cba_greater :: "blocks \<Rightarrow> cba \<Rightarrow> cba \<Rightarrow> exn + bool" where
  "cba_greater h a b = cba_less h b a"

function cba_eq_loop :: "blocks \<Rightarrow> cba \<Rightarrow> cba \<Rightarrow> u64 \<Rightarrow> bool \<Rightarrow> exn + bool" where
  "cba_eq_loop h a b i ret =
     (if i < cb_length a then ebind (arr_get h a i) (\<lambda>x. ebind (arr_get h b i) (\<lambda>y. cba_eq_loop h a b (i + 1) (ret \<and> x = y)))
      else Inr ret)"
  by pat_completeness auto

termination cba_eq_loop
  by (relation "measure (\<lambda>(_, a, _, i, _). unat (cb_length a) - unat i)") (simp_all add: next_index)

declare cba_eq_loop.simps [simp del]

definition cba_eq :: "blocks \<Rightarrow> cba \<Rightarrow> cba \<Rightarrow> exn + bool" where
  "cba_eq h a b = (if cb_length b \<noteq> cb_length a then Inr False else cba_eq_loop h a b 0 True)"

definition cba_neq :: "blocks \<Rightarrow> cba \<Rightarrow> cba \<Rightarrow> exn + bool" where
  "cba_neq h a b = ebind (cba_eq h a b) (\<lambda>r. Inr (\<not> r))"

text \<open>A \<^verbatim>\<open>char\<close> is signed: compared with a byte of an array, both become \<^verbatim>\<open>int\<close>.\<close>

definition char_eq :: "byte \<Rightarrow> byte \<Rightarrow> bool" where
  "char_eq c b \<longleftrightarrow> sint c = uint b"

fun cba_eq_c_str :: "blocks \<Rightarrow> cba \<Rightarrow> byte list \<Rightarrow> u64 \<Rightarrow> exn + bool" where
  "cba_eq_c_str h c [] i = Inr (i = cb_length c)"
| "cba_eq_c_str h c (s # str) i =
     (if s = 0 then Inr (i = cb_length c)
      else if i < cb_length c then ebind (arr_get h c i) (\<lambda>x. if char_eq s x then cba_eq_c_str h c str (i + 1) else Inr False)
      else Inr False)"

definition cba_eq_string :: "blocks \<Rightarrow> cba \<Rightarrow> byte list \<Rightarrow> exn + bool" where
  "cba_eq_string h c s = cba_eq_c_str h c s 0"

function Match_loop :: "blocks \<Rightarrow> cba \<Rightarrow> cba \<Rightarrow> u64 \<Rightarrow> u64 \<Rightarrow> exn + bool" where
  "Match_loop h c str p pos =
     (if pos < cb_length c \<and> p < cb_length str
      then ebind (cba_at h str p) (\<lambda>x. ebind (arr_get h c pos) (\<lambda>y.
        if x = y then Match_loop h c str (p + 1) (pos + 1) else Inr (p = cb_length str)))
      else Inr (p = cb_length str))"
  by pat_completeness auto

termination Match_loop
  by (relation "measure (\<lambda>(_, c, _, _, pos). unat (cb_length c) - unat pos)") (simp_all add: next_index)

declare Match_loop.simps [simp del]

definition Match :: "blocks \<Rightarrow> cba \<Rightarrow> cba \<Rightarrow> u64 \<Rightarrow> exn + bool" where
  "Match h c str pos = Match_loop h c str 0 pos"

fun Match_bytes :: "blocks \<Rightarrow> cba \<Rightarrow> byte list \<Rightarrow> u64 \<Rightarrow> exn + bool" where
  "Match_bytes h c [] pos = Inr True"
| "Match_bytes h c (s # str) pos =
     (if pos < cb_length c \<and> s \<noteq> 0
      then ebind (arr_get h c pos) (\<lambda>y. if s = y then Match_bytes h c str (pos + 1) else Inr (s = 0))
      else Inr (s = 0))"

definition NPOS :: u64 where
  "NPOS = - 1"

function Find_loop :: "blocks \<Rightarrow> cba \<Rightarrow> byte \<Rightarrow> u64 \<Rightarrow> exn + u64" where
  "Find_loop h c what pos =
     (if pos < cb_length c then ebind (arr_get h c pos) (\<lambda>x. if \<not> char_eq what x then Find_loop h c what (pos + 1) else Inr pos)
      else Inr pos)"
  by pat_completeness auto

termination Find_loop
  by (relation "measure (\<lambda>(_, c, _, pos). unat (cb_length c) - unat pos)") (simp_all add: next_index)

declare Find_loop.simps [simp del]

definition Find :: "blocks \<Rightarrow> cba \<Rightarrow> byte \<Rightarrow> u64 \<Rightarrow> exn + u64" where
  "Find h c what pos = ebind (Find_loop h c what pos) (\<lambda>p. if cb_length c \<le> p then Inr NPOS else Inr p)"

text \<open>The loop of \<^verbatim>\<open>Replace\<close> may not end; \<open>None\<close> stands for that.\<close>

partial_function (option) Replace_loop :: "byte \<Rightarrow> byte \<Rightarrow> cba \<Rightarrow> u64 \<Rightarrow> u64 \<Rightarrow> blocks \<Rightarrow> ((exn + u64) \<times> blocks) option" where
  "Replace_loop what w c pos n h =
     (if pos < cb_length c
      then case Find h c what pos of
          Inl e \<Rightarrow> Some (Inl e, h)
        | Inr p \<Rightarrow> if p = NPOS then Some (Inr n, h)
            else (case cba_set c p w h of
                (Inl e, h') \<Rightarrow> Some (Inl e, h')
              | (Inr _, h') \<Rightarrow> Replace_loop what w c p (n + 1) h')
      else Some (Inr n, h))"

definition Replace :: "byte \<Rightarrow> byte \<Rightarrow> cba \<Rightarrow> blocks \<Rightarrow> ((exn + u64) \<times> blocks) option" where
  "Replace what w c h = Replace_loop what w c 0 0 h"

subsection \<open>Appending\<close>

text \<open>The arguments of \<^verbatim>\<open>Append\<close> are references, so the array appended to may be among them.\<close>

datatype appended = Other cba | Itself | Byte byte

definition appended_size :: "cba \<Rightarrow> appended \<Rightarrow> u64" where
  "appended_size c x = (case x of Other a \<Rightarrow> cb_length a | Itself \<Rightarrow> cb_length c | Byte b \<Rightarrow> 1)"

definition append_copy :: "u64 \<Rightarrow> appended \<Rightarrow> cba \<Rightarrow> (blocks, unit) prog" where
  "append_copy acc x c =
     (let dest = address_plus (cb_ptr c) acc
      in case x of
        Other a \<Rightarrow> mem_copy dest (cb_ptr a) (cb_length a AND 0x7FFFFFFFFFFFFFFF)
      | Itself \<Rightarrow> mem_copy dest (cb_ptr c) (cb_length c AND 0x7FFFFFFFFFFFFFFF)
      | Byte b \<Rightarrow> mem_write dest [b])"

fun AppendInternal :: "u64 \<Rightarrow> appended list \<Rightarrow> cba \<Rightarrow> (blocks, cba) prog" where
  "AppendInternal acc [] c = Resize acc ABSOLUTE True c"
| "AppendInternal acc (x # others) c =
     pbind (AppendInternal (acc + appended_size c x) others c) (\<lambda>c'. pthen (append_copy acc x c') (pret c'))"

definition Append :: "appended list \<Rightarrow> cba \<Rightarrow> (blocks, cba) prog" where
  "Append others c = AppendInternal (cb_length c) others c"

definition cba_plus :: "cba \<Rightarrow> cba \<Rightarrow> (blocks, cba) prog" where
  "cba_plus a b = pbind cba_new (Append [Other a, Other b])"

definition c_str_plus :: "byte list option \<Rightarrow> cba \<Rightarrow> (blocks, cba) prog" where
  "c_str_plus s b = pbind (cba_of_c_str s) (\<lambda>a. cba_plus a b)"

subsection \<open>Text\<close>

text \<open>\<^verbatim>\<open>strtol\<close> in base 10: the value, cut off at the ends of \<^verbatim>\<open>long\<close>, and whether it was.\<close>

definition std_strtol :: "string \<Rightarrow> int \<times> bool" where
  "std_strtol s =
     (let s1 = dropWhile is_space s;
          neg = (s1 \<noteq> [] \<and> hd s1 = CHR ''-'');
          s2 = (if s1 \<noteq> [] \<and> (hd s1 = CHR ''-'' \<or> hd s1 = CHR ''+'') then tl s1 else s1);
          ds = takeWhile is_digit s2;
          v = (if neg then - int (dec_value ds) else int (dec_value ds))
      in if v < - (2 ^ 63) then (- (2 ^ 63), True) else if 2 ^ 63 \<le> v then (2 ^ 63 - 1, True) else (v, False))"

definition cba_string :: "blocks \<Rightarrow> cba \<Rightarrow> exn + string" where
  "cba_string h c = ebind (mem_read h (cb_ptr c) (cb_length c)) (\<lambda>bs. Inr (map (\<lambda>b. char_of (unat b)) bs))"

text \<open>The state is whether \<^verbatim>\<open>errno\<close> holds \<^verbatim>\<open>ERANGE\<close>: \<^verbatim>\<open>strtol\<close> sets it and never clears it.\<close>

definition AsInt :: "blocks \<Rightarrow> cba \<Rightarrow> (bool, int) prog" where
  "AsInt h c = (\<lambda>errno.
     pbind (plift (cba_string h c)) (\<lambda>value.
       let (ret, range) = std_strtol value
       in pthen (pmodify (\<lambda>e. e \<or> range))
         (pbind (pget (\<lambda>e. e)) (\<lambda>e.
           if e then pthen (pmodify (\<lambda>_. False)) (pthrow (LogicError (''AsInt() failed to convert value='' @ value @ '' to integer'')))
           else pret (signed_take_bit 31 ret)))) errno)"

text \<open>The same over \<^verbatim>\<open>strtod\<close>, which is a parameter: the value and whether it is out of range.\<close>

definition AsFloat :: "(string \<Rightarrow> 'd \<times> bool) \<Rightarrow> blocks \<Rightarrow> cba \<Rightarrow> (bool, 'd) prog" where
  "AsFloat strtod h c = (\<lambda>errno.
     pbind (plift (cba_string h c)) (\<lambda>value.
       let (ret, range) = strtod value
       in pthen (pmodify (\<lambda>e. e \<or> range))
         (pbind (pget (\<lambda>e. e)) (\<lambda>e.
           if e then pthen (pmodify (\<lambda>_. False)) (pthrow (LogicError (''AsFloat() failed to convert value='' @ value @ '' to double'')))
           else pret ret))) errno)"

text \<open>Printing puts the characters one by one.\<close>

function cba_print_loop :: "blocks \<Rightarrow> cba \<Rightarrow> u64 \<Rightarrow> string \<Rightarrow> exn + string" where
  "cba_print_loop h c i out =
     (if i < cb_length c then ebind (arr_get h c i) (\<lambda>b. cba_print_loop h c (i + 1) (out @ [char_of (unat b)])) else Inr out)"
  by pat_completeness auto

termination cba_print_loop
  by (relation "measure (\<lambda>(_, c, i, _). unat (cb_length c) - unat i)") (simp_all add: next_index)

declare cba_print_loop.simps [simp del]

definition cba_print :: "blocks \<Rightarrow> cba \<Rightarrow> string \<Rightarrow> exn + string" where
  "cba_print h c out = cba_print_loop h c 0 out"

definition cba_size :: "cba \<Rightarrow> u64" where "cba_size c = cb_length c"

definition cba_empty :: "cba \<Rightarrow> bool" where "cba_empty c \<longleftrightarrow> 0 = cb_length c"

definition cba_pointer :: "cba \<Rightarrow> address" where "cba_pointer c = cb_ptr c"

definition cba_ne_c_str :: "blocks \<Rightarrow> cba \<Rightarrow> byte list \<Rightarrow> exn + bool" where
  "cba_ne_c_str h c s = ebind (cba_eq_c_str h c s 0) (\<lambda>b. Inr (\<not> b))"


subsection \<open>The contents of an array\<close>

definition cba_bytes :: "blocks \<Rightarrow> cba \<Rightarrow> byte list" where
  "cba_bytes h c = (case cb_ptr c of None \<Rightarrow> [] | Some (b, i) \<Rightarrow> take (unat (cb_length c)) (drop (unat i) (h ! b)))"

definition cba_ok :: "blocks \<Rightarrow> cba \<Rightarrow> bool" where
  "cba_ok h c \<longleftrightarrow> (case cb_data c of None \<Rightarrow> False
     | Some b \<Rightarrow> b < length h \<and> length (h ! b) \<le> VECTOR_MAX \<and> unat (cb_start c) + unat (cb_length c) \<le> length (h ! b) \<and>
        (cb_ptr c = Some (b, cb_start c) \<or> cb_ptr c = None \<and> cb_start c = 0 \<and> h ! b = []))"

lemma cba_okE:
  assumes "cba_ok h c"
  obtains b where "cb_data c = Some b" "b < length h" "length (h ! b) < 2 ^ 63"
    "unat (cb_start c) + unat (cb_length c) \<le> length (h ! b)" "cb_ptr c = Some (b, cb_start c)"
  | b where "cb_data c = Some b" "b < length h" "h ! b = []" "cb_ptr c = None" "cb_start c = 0" "cb_length c = 0"
proof -
  have "n \<le> VECTOR_MAX \<Longrightarrow> n < 2 ^ 63" for n by (simp add: VECTOR_MAX_def)
  then show ?thesis
    using assms that by (auto simp: cba_ok_def unat_eq_zero split: option.splits)
qed

lemma length_cba_bytes: "cba_ok h c \<Longrightarrow> length (cba_bytes h c) = unat (cb_length c)"
  by (erule cba_okE) (auto simp: cba_bytes_def)

lemma read_all: "cba_ok h c \<Longrightarrow> mem_read h (cb_ptr c) (cb_length c) = Inr (cba_bytes h c)"
  by (erule cba_okE) (auto simp: cba_bytes_def mem_read_def)

text \<open>Nothing wraps around within an array.\<close>

lemma unat_within:
  fixes s i :: u64
  assumes "unat s + n \<le> k" "k < 2 ^ 63" "unat i \<le> n"
  shows "unat (s + i) = unat s + unat i"
  using assms by (intro unat_plus_small) simp

lemma get_ok:
  assumes "cba_ok h c" "i < cb_length c"
  shows "arr_get h c i = Inr (cba_bytes h c ! unat i)"
  using assms(1)
proof (cases rule: cba_okE)
  case (1 b)
  have i: "unat i < unat (cb_length c)" using assms(2) by (simp add: word_less_nat_alt)
  then have "unat (cb_start c + i) = unat (cb_start c) + unat i" using 1(3,4) by (intro unat_within) auto
  then show ?thesis
    using 1 i by (auto simp: arr_get_def mem_read_def address_plus_def cba_bytes_def hd_drop_conv_nth hd_take)
qed (use assms(2) in simp)

lemma overwrite_single: "p < length st \<Longrightarrow> overwrite p [x] st = st[p := x]"
  using overwrite_Cons[of p x "[]" st] by simp

text \<open>The store after writing one byte of an array.\<close>

definition blocks_put :: "blocks \<Rightarrow> cba \<Rightarrow> nat \<Rightarrow> byte \<Rightarrow> blocks" where
  "blocks_put h c i x = h[the (cb_data c) := (h ! the (cb_data c))[unat (cb_start c) + i := x]]"

lemma set_ok:
  assumes "cba_ok h c" "i < cb_length c"
  shows "cba_set c i x h = (Inr (), blocks_put h c (unat i) x)"
    "cba_ok (blocks_put h c (unat i) x) c" "cba_bytes (blocks_put h c (unat i) x) c = (cba_bytes h c)[unat i := x]"
proof -
  obtain b where b: "cb_data c = Some b" "b < length h" "length (h ! b) < 2 ^ 63"
      "unat (cb_start c) + unat (cb_length c) \<le> length (h ! b)" "cb_ptr c = Some (b, cb_start c)"
    using assms by (elim cba_okE) auto
  have i: "unat i < unat (cb_length c)" using assms(2) by (simp add: word_less_nat_alt)
  then have s: "unat (cb_start c + i) = unat (cb_start c) + unat i" using b(3,4) by (intro unat_within) auto
  show "cba_set c i x h = (Inr (), blocks_put h c (unat i) x)"
    using b i assms(2) by (simp add: cba_set_def mem_write_def address_plus_def s blocks_put_def overwrite_single)
  show "cba_ok (blocks_put h c (unat i) x) c"
    using b by (simp add: cba_ok_def blocks_put_def VECTOR_MAX_def)
  show "cba_bytes (blocks_put h c (unat i) x) c = (cba_bytes h c)[unat i := x]"
    using b i by (simp add: cba_bytes_def blocks_put_def drop_update_swap take_update_swap)
qed

lemma put_same:
  assumes "cba_ok h c" "i < cb_length c" "cba_bytes h c ! unat i = x"
  shows "blocks_put h c (unat i) x = h"
proof -
  obtain b where b: "cb_data c = Some b" "b < length h" "length (h ! b) < 2 ^ 63"
      "unat (cb_start c) + unat (cb_length c) \<le> length (h ! b)" "cb_ptr c = Some (b, cb_start c)"
    using assms(1,2) by (elim cba_okE) auto
  have "unat i < unat (cb_length c)" using assms(2) by (simp add: word_less_nat_alt)
  then have "h ! b ! (unat (cb_start c) + unat i) = x" using b assms(3) by (simp add: cba_bytes_def)
  then have "(h ! b)[unat (cb_start c) + unat i := x] = h ! b" by (metis list_update_id)
  then show ?thesis using b by (simp add: blocks_put_def)
qed

subsection \<open>Searching\<close>

lemma char_eq_iff: "char_eq c b \<longleftrightarrow> c = b \<and> unat c < 128"
proof -
  have "sint c = uint c" if "unat c < 128"
  proof -
    have "\<not> bit c 7"
    proof
      assume "bit c 7"
      then have "bit (unat c) 7" by (simp add: bit_unsigned_iff)
      then have "odd (unat c div 2 ^ 7)" by (simp add: bit_iff_odd)
      then show False using that by simp
    qed
    moreover have "uint c < 2 ^ 7" using that[THEN of_nat_less_iff[where ?'a = int, THEN iffD2]] by simp
    then have "take_bit 7 (uint c) = uint c" by (simp add: take_bit_int_eq_self)
    ultimately show ?thesis by (simp add: sint_uint signed_take_bit_eq_if_positive bit_uint_iff)
  qed
  moreover have "sint c < 0" if "\<not> unat c < 128"
  proof -
    have "bit c 7"
    proof -
      have "unat c < 2 ^ 8" using unsigned_less[of c] by simp
      then have "unat c div 2 ^ 7 = 1" using that by (simp add: div_nat_eqI)
      then show ?thesis using bit_iff_odd[of "unat c" 7] by (simp add: bit_unsigned_iff)
    qed
    then show ?thesis by (simp add: sint_uint bit_last_iff bit_uint_iff)
  qed
  ultimately show ?thesis unfolding char_eq_def
    by (metis not_less uint_ge_0 word_uint_eq_iff)
qed


text \<open>The first place from \<open>p\<close> on.\<close>

definition first_from :: "('a \<Rightarrow> bool) \<Rightarrow> 'a list \<Rightarrow> nat \<Rightarrow> nat" where
  "first_from P xs p = p + length (takeWhile (\<lambda>x. \<not> P x) (drop p xs))"

lemma first_from_step:
  "p < length xs \<Longrightarrow> first_from P xs p = (if P (xs ! p) then p else first_from P xs (Suc p))"
  by (simp add: first_from_def Cons_nth_drop_Suc[symmetric])

lemma first_from_end: "length xs \<le> p \<Longrightarrow> first_from P xs p = p"
  by (simp add: first_from_def)

lemma first_from_bounds: "p \<le> length xs \<Longrightarrow> p \<le> first_from P xs p \<and> first_from P xs p \<le> length xs"
  using length_takeWhile_le[of "\<lambda>x. \<not> P x" "drop p xs"] by (simp add: first_from_def)

lemma first_from_holds:
  assumes "first_from P xs p < length xs"
  shows "P (xs ! first_from P xs p)"
proof -
  have "length (takeWhile (\<lambda>x. \<not> P x) (drop p xs)) < length (drop p xs)"
    using assms by (simp add: first_from_def)
  then have "P (drop p xs ! length (takeWhile (\<lambda>x. \<not> P x) (drop p xs)))" using nth_length_takeWhile by blast
  then show ?thesis using assms by (simp add: first_from_def)
qed

lemma first_from_before:
  assumes "p \<le> i" "i < first_from P xs p"
  shows "\<not> P (xs ! i)"
proof -
  let ?t = "takeWhile (\<lambda>x. \<not> P x) (drop p xs)"
  have i: "i - p < length ?t" using assms by (simp add: first_from_def)
  have "?t ! (i - p) \<in> set ?t" by (rule nth_mem[OF i])
  then have "\<not> P (?t ! (i - p))" by (auto dest: set_takeWhileD)
  moreover have "?t ! (i - p) = drop p xs ! (i - p)" by (rule takeWhile_nth[OF i])
  moreover have "p \<le> length xs" using assms first_from_end[of xs p P] by (cases "length xs \<le> p") auto
  ultimately show ?thesis using assms(1) by simp
qed

lemma Find_loop_first:
  assumes "cba_ok h c"
  shows "\<exists>p. Find_loop h c what pos = Inr p \<and> unat p = first_from (char_eq what) (cba_bytes h c) (unat pos)"
  using assms
proof (induction h c what pos rule: Find_loop.induct)
  case (1 h c what pos)
  note len = length_cba_bytes[OF "1.prems"]
  show ?case
  proof (cases "pos < cb_length c")
    case True
    then have pos: "unat pos < length (cba_bytes h c)" by (simp add: len word_less_nat_alt)
    show ?thesis
    proof (cases "char_eq what (cba_bytes h c ! unat pos)")
      case hit: True
      then show ?thesis
        using True get_ok[OF "1.prems" True] pos by (subst Find_loop.simps) (simp add: first_from_step)
    next
      case miss: False
      then show ?thesis
        using True get_ok[OF "1.prems" True] "1.IH"[OF True miss "1.prems"] pos
        by (subst Find_loop.simps) (simp add: first_from_step unat_next[OF True])
    qed
  next
    case False
    then show ?thesis by (subst Find_loop.simps) (simp add: first_from_end len word_less_nat_alt)
  qed
qed

lemma Find_first:
  assumes "cba_ok h c"
  shows "Find h c what pos = Inr (let p = first_from (char_eq what) (cba_bytes h c) (unat pos)
     in if p < length (cba_bytes h c) then of_nat p else NPOS)"
proof -
  obtain p where p: "Find_loop h c what pos = Inr p" "unat p = first_from (char_eq what) (cba_bytes h c) (unat pos)"
    using Find_loop_first[OF assms] by blast
  have "p = of_nat (unat p)" by simp
  then show ?thesis
    using p by (simp add: Find_def Let_def length_cba_bytes[OF assms] word_le_nat_alt not_less)
qed


lemma first_from_split:
  assumes "p \<le> length xs"
  shows "drop p xs = drop p (take (first_from P xs p) xs) @ drop (first_from P xs p) xs"
    "\<forall>x \<in> set (drop p (take (first_from P xs p) xs)). \<not> P x"
proof -
  let ?q = "first_from P xs p"
  have q: "p \<le> ?q" using first_from_bounds[OF assms] by simp
  have "drop p (take ?q xs) = take (?q - p) (drop p xs)" by (simp add: drop_take)
  also have "\<dots> = takeWhile (\<lambda>x. \<not> P x) (drop p xs)" by (simp add: first_from_def takeWhile_eq_take[symmetric])
  finally have t: "drop p (take ?q xs) = takeWhile (\<lambda>x. \<not> P x) (drop p xs)" .
  then show "\<forall>x \<in> set (drop p (take ?q xs)). \<not> P x" by (auto dest: set_takeWhileD)
  have "drop p (take ?q xs @ drop ?q xs) = drop p (take ?q xs) @ drop (p - length (take ?q xs)) (drop ?q xs)"
    by (rule drop_append)
  moreover have "p - length (take ?q xs) = 0" using q first_from_bounds[OF assms, of P] by simp
  ultimately show "drop p xs = drop p (take ?q xs) @ drop ?q xs" by (simp only: append_take_drop_id drop_0)
qed

lemma first_from_none:
  assumes "p \<le> length xs" "filter P (drop p xs) = []"
  shows "first_from P xs p = length xs"
proof -
  have t: "takeWhile (\<lambda>x. \<not> P x) (drop p xs) = drop p xs"
    using assms(2) by (simp add: filter_empty_conv)
  show ?thesis unfolding first_from_def t using assms(1) by simp
qed

lemma first_from_some:
  assumes "p \<le> length xs" "filter P (drop p xs) \<noteq> []"
  shows "first_from P xs p < length xs"
proof (rule ccontr)
  assume "\<not> first_from P xs p < length xs"
  then have "drop p xs = drop p (take (first_from P xs p) xs)" using first_from_split(1)[OF assms(1), of P] by simp
  then show False using first_from_split(2)[OF assms(1), of P] assms(2) by (metis filter_False)
qed

definition replaced :: "byte \<Rightarrow> byte \<Rightarrow> byte list \<Rightarrow> byte list" where
  "replaced what w xs = map (\<lambda>x. if char_eq what x then w else x) xs"

lemma replaced_none: "\<forall>x \<in> set xs. \<not> char_eq what x \<Longrightarrow> replaced what w xs = xs"
  by (simp add: replaced_def map_idI)

lemma u64_bound: "unat (x :: u64) < 2 ^ 64"
proof -
  have "unat x < 2 ^ LENGTH(64)" by (rule unsigned_less)
  then show ?thesis by simp
qed

lemma Find_next:
  assumes "cba_ok h c" "pos \<le> cb_length c"
  shows "filter (char_eq what) (drop (unat pos) (cba_bytes h c)) = [] \<Longrightarrow> Find h c what pos = Inr NPOS"
    "filter (char_eq what) (drop (unat pos) (cba_bytes h c)) \<noteq> [] \<Longrightarrow>
       \<exists>p. Find h c what pos = Inr p \<and> p \<noteq> NPOS \<and> p < cb_length c \<and> unat p = first_from (char_eq what) (cba_bytes h c) (unat pos)"
proof -
  have len: "length (cba_bytes h c) = unat (cb_length c)" by (rule length_cba_bytes[OF assms(1)])
  have pos: "unat pos \<le> length (cba_bytes h c)" using assms(2) by (simp add: len word_le_nat_alt)
  show "Find h c what pos = Inr NPOS" if "filter (char_eq what) (drop (unat pos) (cba_bytes h c)) = []"
    using first_from_none[OF pos that] Find_first[OF assms(1), of what pos] by simp
  show "\<exists>p. Find h c what pos = Inr p \<and> p \<noteq> NPOS \<and> p < cb_length c \<and> unat p = first_from (char_eq what) (cba_bytes h c) (unat pos)"
    if "filter (char_eq what) (drop (unat pos) (cba_bytes h c)) \<noteq> []"
  proof -
    let ?q = "first_from (char_eq what) (cba_bytes h c) (unat pos)"
    have q: "?q < unat (cb_length c)" using first_from_some[OF pos that] len by simp
    then have "?q < 2 ^ 64" using u64_bound[of "cb_length c"] by simp
    then have u: "unat (of_nat ?q :: u64) = ?q" by (simp add: unat_of_nat take_bit_eq_mod)
    have l: "of_nat ?q < cb_length c" using q by (simp add: word_less_nat_alt u)
    then have "of_nat ?q \<noteq> NPOS" using word_n1_ge[of "cb_length c"] by (auto simp: NPOS_def)
    then show ?thesis using Find_first[OF assms(1), of what pos] q u l len by (simp add: Let_def)
  qed
qed

lemma Replace_loop_runs:
  assumes "cba_ok h c" "pos \<le> cb_length c" "\<not> char_eq what w"
  shows "\<exists>h'. Replace_loop what w c pos n h =
      Some (Inr (n + of_nat (length (filter (char_eq what) (drop (unat pos) (cba_bytes h c))))), h') \<and> cba_ok h' c \<and>
    cba_bytes h' c = take (unat pos) (cba_bytes h c) @ replaced what w (drop (unat pos) (cba_bytes h c))"
  using assms(1,2)
proof (induction "length (filter (char_eq what) (drop (unat pos) (cba_bytes h c)))" arbitrary: pos n h)
  case 0
  then have none: "filter (char_eq what) (drop (unat pos) (cba_bytes h c)) = []" by simp
  have "Replace_loop what w c pos n h = Some (Inr n, h)"
    using Find_next(1)[OF "0.prems" none] by (subst Replace_loop.simps) simp
  moreover have "replaced what w (drop (unat pos) (cba_bytes h c)) = drop (unat pos) (cba_bytes h c)"
    by (rule replaced_none) (use none in \<open>simp add: filter_empty_conv\<close>)
  ultimately show ?case using none "0.prems"(1) by simp
next
  case (Suc k)
  let ?A = "cba_bytes h c" let ?P = "char_eq what"
  have some: "filter ?P (drop (unat pos) ?A) \<noteq> []" using Suc.hyps(2) by auto
  obtain p where p: "Find h c what pos = Inr p" "p \<noteq> NPOS" "p < cb_length c" "unat p = first_from ?P ?A (unat pos)"
    using Find_next(2)[OF Suc.prems some] by blast
  have len: "length ?A = unat (cb_length c)" by (rule length_cba_bytes[OF Suc.prems(1)])
  have pl: "unat p < length ?A" and posl: "unat pos \<le> length ?A"
    using p(3) Suc.prems(2) by (simp_all add: len word_less_nat_alt word_le_nat_alt)
  have hit: "?P (?A ! unat p)" using first_from_holds[of ?P ?A "unat pos"] pl p(4) by simp
  note split = first_from_split[OF posl, of ?P, folded p(4)]
  define h1 where "h1 = blocks_put h c (unat p) w"
  have set: "cba_set c p w h = (Inr (), h1)" "cba_ok h1 c" "cba_bytes h1 c = ?A[unat p := w]"
    using set_ok[OF Suc.prems(1) p(3)] by (simp_all add: h1_def)
  have pos: "pos < cb_length c" using p(3,4) first_from_bounds[OF posl, of ?P] by (simp add: word_less_nat_alt)
  have run: "Replace_loop what w c pos n h = Replace_loop what w c p (n + 1) h1"
    using p(1,2) pos set(1) by (subst Replace_loop.simps) simp
  have dp: "drop (unat p) ?A = ?A ! unat p # drop (Suc (unat p)) ?A" using pl by (simp add: Cons_nth_drop_Suc)
  have d1: "drop (unat p) (cba_bytes h1 c) = w # drop (Suc (unat p)) ?A"
    using pl by (simp add: set(3) Cons_nth_drop_Suc[symmetric])
  have n: "length (filter ?P (drop (unat pos) ?A)) = Suc (length (filter ?P (drop (unat p) (cba_bytes h1 c))))"
    by (subst split(1)) (simp add: d1 dp hit assms(3) filter_False[OF split(2)])
  then have "k = length (filter ?P (drop (unat p) (cba_bytes h1 c)))" using Suc.hyps(2) by simp
  from Suc.hyps(1)[OF this set(2), of "n + 1"] p(3)[THEN less_imp_le]
  obtain h' where h': "Replace_loop what w c p (n + 1) h1 = Some (Inr (n + 1 + of_nat (length (filter ?P (drop (unat p) (cba_bytes h1 c))))), h')"
      "cba_ok h' c" "cba_bytes h' c = take (unat p) (cba_bytes h1 c) @ replaced what w (drop (unat p) (cba_bytes h1 c))"
    by auto
  have "take (unat pos) ?A @ replaced what w (drop (unat pos) ?A) =
      (take (unat pos) ?A @ drop (unat pos) (take (unat p) ?A)) @ replaced what w (drop (unat p) ?A)"
    by (subst split(1)) (use replaced_none[OF split(2)] in \<open>simp add: replaced_def\<close>)
  also have "take (unat pos) ?A @ drop (unat pos) (take (unat p) ?A) = take (unat p) ?A"
  proof -
    have "unat pos \<le> unat p" using p(4) first_from_bounds[OF posl, of ?P] by simp
    then have "take (unat pos) ?A = take (unat pos) (take (unat p) ?A)" by simp
    then show ?thesis by (simp only: append_take_drop_id)
  qed
  finally have "take (unat pos) ?A @ replaced what w (drop (unat pos) ?A) = cba_bytes h' c"
    unfolding h'(3) d1 dp by (simp add: set(3) replaced_def hit assms(3))
  then show ?case using h' run n by simp
qed

definition will_replace :: "byte \<Rightarrow> cba \<Rightarrow> u64 \<Rightarrow> blocks \<Rightarrow> bool" where
  "will_replace what c pos h \<longleftrightarrow> cba_ok h c \<and> pos \<le> cb_length c \<and> filter (char_eq what) (drop (unat pos) (cba_bytes h c)) \<noteq> []"

text \<open>Writing the byte that is there leaves the loop where it is.\<close>

lemma replace_same_step:
  assumes "will_replace what c pos h"
  shows "\<exists>p. pos < cb_length c \<and> Find h c what pos = Inr p \<and> p \<noteq> NPOS \<and> cba_set c p what h = (Inr (), h) \<and> will_replace what c p h"
proof -
  note ok = assms[unfolded will_replace_def, THEN conjunct1]
  note le = assms[unfolded will_replace_def, THEN conjunct2, THEN conjunct1]
  note some = assms[unfolded will_replace_def, THEN conjunct2, THEN conjunct2]
  obtain p where p: "Find h c what pos = Inr p" "p \<noteq> NPOS" "p < cb_length c" "unat p = first_from (char_eq what) (cba_bytes h c) (unat pos)"
    using Find_next(2)[OF ok le some] by blast
  have len: "length (cba_bytes h c) = unat (cb_length c)" by (rule length_cba_bytes[OF ok])
  have pl: "unat p < length (cba_bytes h c)" and posl: "unat pos \<le> length (cba_bytes h c)"
    using p(3) le by (simp_all add: len word_less_nat_alt word_le_nat_alt)
  have hit: "char_eq what (cba_bytes h c ! unat p)" using first_from_holds[of "char_eq what" "cba_bytes h c" "unat pos"] pl p(4) by simp
  then have same: "cba_bytes h c ! unat p = what" by (simp add: char_eq_iff)
  have "pos < cb_length c" using p(3,4) first_from_bounds[OF posl, of "char_eq what"] by (simp add: word_less_nat_alt)
  moreover have "filter (char_eq what) (drop (unat p) (cba_bytes h c)) \<noteq> []"
    using pl hit by (simp add: Cons_nth_drop_Suc[symmetric])
  ultimately show ?thesis
    using p set_ok(1)[OF ok p(3), of what] put_same[OF ok p(3) same] ok by (auto simp: will_replace_def)
qed

lemma Replace_loop_stuck: "Replace_loop what w c pos n h = Some r \<Longrightarrow> what = w \<Longrightarrow> \<not> will_replace what c pos h"
proof -
  have "what = w \<longrightarrow> \<not> will_replace what c pos h" if "Replace_loop what w c pos n h = Some r"
  proof (rule Replace_loop.raw_induct[where P = "\<lambda>what w c pos n h r. what = w \<longrightarrow> \<not> will_replace what c pos h", OF _ that])
    fix loop :: "byte \<Rightarrow> byte \<Rightarrow> cba \<Rightarrow> u64 \<Rightarrow> u64 \<Rightarrow> blocks \<Rightarrow> ((exn + u64) \<times> blocks) option" and what w c pos n h y
    assume IH: "\<And>what w c pos n h y. loop what w c pos n h = Some y \<Longrightarrow> what = w \<longrightarrow> \<not> will_replace what c pos h"
      and body: "(if pos < cb_length c
         then case Find h c what pos of
             Inl e \<Rightarrow> Some (Inl e, h)
           | Inr p \<Rightarrow> if p = NPOS then Some (Inr n, h)
               else (case cba_set c p w h of
                   (Inl e, h') \<Rightarrow> Some (Inl e, h')
                 | (Inr _, h') \<Rightarrow> loop what w c p (n + 1) h')
         else Some (Inr n, h)) = Some y"
    show "what = w \<longrightarrow> \<not> will_replace what c pos h"
    proof (intro impI notI)
      assume w: "what = w" "will_replace what c pos h"
      obtain p where p: "pos < cb_length c" "Find h c what pos = Inr p" "p \<noteq> NPOS" "cba_set c p what h = (Inr (), h)" "will_replace what c p h"
        using replace_same_step[OF w(2)] by blast
      have "loop what w c p (n + 1) h = Some y" using body p w(1) by simp
      then show False using IH w(1) p(5) by blast
    qed
  qed
  then show "Replace_loop what w c pos n h = Some r \<Longrightarrow> what = w \<Longrightarrow> \<not> will_replace what c pos h" by blast
qed

text \<open>
  C35. \<^verbatim>\<open>Replace\<close> of a \<^verbatim>\<open>char\<close> by another changes every occurrence and returns how many there were, but a byte above 127 is
  never found, the \<^verbatim>\<open>char\<close> being negative; of a \<^verbatim>\<open>char\<close> by itself it never returns, when the array has one.
\<close>

theorem replace_terminates:
  assumes "cba_ok h c"
  shows "if what = w \<and> unat what < 128 \<and> what \<in> set (cba_bytes h c) then Replace what w c h = None
     else \<exists>h'. Replace what w c h = Some (Inr (of_nat (length (filter (char_eq what) (cba_bytes h c)))), h') \<and> cba_ok h' c \<and>
        cba_bytes h' c = map (\<lambda>x. if x = what \<and> unat what < 128 then w else x) (cba_bytes h c)"
proof (cases "what = w \<and> unat what < 128 \<and> what \<in> set (cba_bytes h c)")
  case True
  then have "will_replace what c 0 h" using assms by (auto simp: will_replace_def filter_empty_conv char_eq_iff)
  then have "Replace_loop what w c 0 0 h = None" using Replace_loop_stuck True by (metis not_Some_eq)
  then show ?thesis unfolding if_P[OF True] Replace_def .
next
  case False
  have eq: "replaced what w xs = map (\<lambda>x. if x = what \<and> unat what < 128 then w else x) xs" for xs
    by (auto simp: replaced_def char_eq_iff)
  have "\<exists>h'. Replace what w c h = Some (Inr (of_nat (length (filter (char_eq what) (cba_bytes h c)))), h') \<and> cba_ok h' c \<and>
      cba_bytes h' c = replaced what w (cba_bytes h c)"
  proof (cases "char_eq what w")
    case eqw: True
    then have none: "\<forall>x \<in> set (cba_bytes h c). \<not> char_eq what x" using False by (auto simp: char_eq_iff)
    have "Replace_loop what w c 0 0 h = Some (Inr 0, h)"
      using Find_next(1)[OF assms, of 0 what] none by (subst Replace_loop.simps) (simp add: filter_empty_conv)
    then show ?thesis using assms none replaced_none[OF none] by (simp add: Replace_def filter_False)
  next
    case False
    show ?thesis using Replace_loop_runs[OF assms _ False, of 0 0] by (simp add: Replace_def)
  qed
  then show ?thesis unfolding if_not_P[OF False] eq .
qed

text \<open>An array of three bytes.\<close>

definition sample_blocks :: blocks where
  "sample_blocks = [[97, 98, 97]]"

definition sample_array :: cba where
  "sample_array = \<lparr>cb_data = Some 0, cb_start = 0, cb_length = 3, cb_ptr = Some (0, 0)\<rparr>"

lemma sample_ok: "cba_ok sample_blocks sample_array" "cba_bytes sample_blocks sample_array = [97, 98, 97]"
  by (simp_all add: cba_ok_def cba_bytes_def sample_blocks_def sample_array_def VECTOR_MAX_def)

lemma replace_terminates_witness:
  "Replace 97 97 sample_array sample_blocks = None \<and>
   (\<exists>h'. Replace 97 99 sample_array sample_blocks = Some (Inr 2, h') \<and> cba_bytes h' sample_array = [99, 98, 99])"
  using replace_terminates[OF sample_ok(1), of 97 97] replace_terminates[OF sample_ok(1), of 97 99]
  by (auto simp: sample_ok(2) char_eq_iff)

subsection \<open>Comparing\<close>

lemma append_less: "x \<noteq> y \<Longrightarrow> p @ x # xs < p @ y # ys \<longleftrightarrow> x < (y :: 'a::linorder)"
  by (induction p) auto

lemma less_append: "(xs :: 'a::linorder list) < xs @ ys \<longleftrightarrow> ys \<noteq> []" "\<not> xs @ ys < xs"
proof -
  have "[] < ys \<longleftrightarrow> ys \<noteq> []" by (cases ys) auto
  then show "xs < xs @ ys \<longleftrightarrow> ys \<noteq> []" by (induction xs) auto
  show "\<not> xs @ ys < xs" by (induction xs) auto
qed

lemma less_at:
  fixes xs ys :: "'a::linorder list"
  assumes "k < length xs" "k < length ys" "take k xs = take k ys" "xs ! k \<noteq> ys ! k"
  shows "xs < ys \<longleftrightarrow> xs ! k < ys ! k"
proof -
  have "xs = take k xs @ xs ! k # drop (Suc k) xs" by (rule id_take_nth_drop[OF assms(1)])
  moreover have "ys = take k xs @ ys ! k # drop (Suc k) ys" unfolding assms(3) by (rule id_take_nth_drop[OF assms(2)])
  ultimately show ?thesis using append_less[OF assms(4), of "take k xs" "drop (Suc k) xs" "drop (Suc k) ys"] by simp
qed

lemma less_prefix:
  fixes xs ys :: "'a::linorder list"
  assumes "take (min (length xs) (length ys)) xs = take (min (length xs) (length ys)) ys"
  shows "xs < ys \<longleftrightarrow> length xs < length ys"
proof (cases "length xs \<le> length ys")
  case True
  have t: "take (length xs) ys = xs" using assms[unfolded min_absorb1[OF True] take_all[OF order_refl]] by (rule sym)
  have e: "xs @ drop (length xs) ys = ys" using append_take_drop_id[of "length xs" ys] unfolding t .
  have "xs < ys \<longleftrightarrow> drop (length xs) ys \<noteq> []" using less_append(1)[of xs "drop (length xs) ys"] unfolding e .
  also have "\<dots> \<longleftrightarrow> length xs < length ys" by (simp only: drop_eq_Nil not_le)
  finally show ?thesis .
next
  case False
  then have le: "length ys \<le> length xs" by simp
  have t: "take (length ys) xs = ys" using assms unfolding min_absorb2[OF le] take_all[OF order_refl] .
  have e: "ys @ drop (length ys) xs = xs" using append_take_drop_id[of "length ys" xs] unfolding t .
  have "\<not> xs < ys" using less_append(2)[of ys "drop (length ys) xs"] unfolding e .
  then show ?thesis using le by (simp only: not_less[symmetric] simp_thms)
qed

lemma mismatch_first:
  assumes "cba_ok h a" "cba_ok h b" "n \<le> cb_length a" "n \<le> cb_length b" "i \<le> n"
    "take (unat i) (cba_bytes h a) = take (unat i) (cba_bytes h b)"
  shows "\<exists>k. cba_mismatch h a b n i = Inr k \<and> k \<le> n \<and> take (unat k) (cba_bytes h a) = take (unat k) (cba_bytes h b) \<and>
    (k < n \<longrightarrow> cba_bytes h a ! unat k \<noteq> cba_bytes h b ! unat k)"
  using assms
proof (induction h a b n i rule: cba_mismatch.induct)
  case (1 h a b n i)
  let ?A = "cba_bytes h a" let ?B = "cba_bytes h b"
  show ?case
  proof (cases "i < n")
    case True
    then have i: "i < cb_length a" "i < cb_length b" using "1.prems" by auto
    note get = get_ok[OF "1.prems"(1) i(1)] get_ok[OF "1.prems"(2) i(2)]
    show ?thesis
    proof (cases "?A ! unat i = ?B ! unat i")
      case same: True
      have "unat i < length ?A" "unat i < length ?B"
        using i by (simp_all add: length_cba_bytes "1.prems"(1,2) word_less_nat_alt)
      then have "take (unat (i + 1)) ?A = take (unat (i + 1)) ?B"
        using "1.prems"(6) same by (simp add: unat_next[OF True] take_Suc_conv_app_nth)
      moreover have "i + 1 \<le> n" using True unat_next[OF True] by (simp add: word_le_nat_alt word_less_nat_alt)
      ultimately obtain k where "cba_mismatch h a b n (i + 1) = Inr k" "k \<le> n" "take (unat k) ?A = take (unat k) ?B"
          "k < n \<longrightarrow> ?A ! unat k \<noteq> ?B ! unat k"
        using "1.IH"[OF True] "1.prems"(1-4) same by blast
      then show ?thesis using True get same by (subst cba_mismatch.simps) simp
    next
      case False
      then show ?thesis using True get "1.prems"(5,6) by (subst cba_mismatch.simps) simp
    qed
  next
    case False
    then show ?thesis using "1.prems"(5,6) by (subst cba_mismatch.simps) auto
  qed
qed

lemma eq_loop_rest:
  assumes "cba_ok h a" "cba_ok h b" "cb_length a = cb_length b" "i \<le> cb_length a"
  shows "cba_eq_loop h a b i ret = Inr (ret \<and> drop (unat i) (cba_bytes h a) = drop (unat i) (cba_bytes h b))"
  using assms
proof (induction h a b i ret rule: cba_eq_loop.induct)
  case (1 h a b i ret)
  note len = length_cba_bytes[OF "1.prems"(1)] length_cba_bytes[OF "1.prems"(2)]
  show ?case
  proof (cases "i < cb_length a")
    case True
    then have i: "i < cb_length b" "unat i < length (cba_bytes h a)" "unat i < length (cba_bytes h b)"
      using "1.prems"(3) by (simp_all add: len word_less_nat_alt)
    have "i + 1 \<le> cb_length a" using True unat_next[OF True] by (simp add: word_le_nat_alt word_less_nat_alt)
    then show ?thesis
      using True get_ok[OF "1.prems"(1) True] get_ok[OF "1.prems"(2) i(1)] "1.IH"[OF True "1.prems"(1-3)] i(2,3)
      by (subst cba_eq_loop.simps) (auto simp: unat_next[OF True] Cons_nth_drop_Suc[symmetric])
  next
    case False
    then show ?thesis using len "1.prems"(3,4) by (subst cba_eq_loop.simps) (simp add: word_le_nat_alt word_less_nat_alt)
  qed
qed

text \<open>
  The comparisons are those of the contents: equality of the bytes and their lexicographic order as unsigned numbers,
  which is total, so arrays can be keys of ordered containers.
\<close>

lemma comparisons_lexicographic:
  assumes "cba_ok h a" "cba_ok h b"
  shows "cba_eq h a b = Inr (cba_bytes h a = cba_bytes h b) \<and> cba_neq h a b = Inr (cba_bytes h a \<noteq> cba_bytes h b) \<and>
    cba_less h a b = Inr (cba_bytes h a < cba_bytes h b) \<and> cba_greater h a b = Inr (cba_bytes h b < cba_bytes h a)"
proof -
  note len = length_cba_bytes
  have eq: "cba_eq h a b = Inr (cba_bytes h a = cba_bytes h b)"
  proof (cases "cb_length a = cb_length b")
    case True
    then show ?thesis using eq_loop_rest[OF assms True, of 0 True] by (simp add: cba_eq_def)
  next
    case False
    then have "length (cba_bytes h a) \<noteq> length (cba_bytes h b)" by (simp add: len assms word_unat_eq_iff)
    then show ?thesis using False by (auto simp: cba_eq_def)
  qed
  have less: "cba_less h x y = Inr (cba_bytes h x < cba_bytes h y)" if ok: "cba_ok h x" "cba_ok h y" for x y
  proof -
    let ?n = "min (cb_length x) (cb_length y)"
    obtain k where k: "cba_mismatch h x y ?n 0 = Inr k" "k \<le> ?n" "take (unat k) (cba_bytes h x) = take (unat k) (cba_bytes h y)"
        "k < ?n \<longrightarrow> cba_bytes h x ! unat k \<noteq> cba_bytes h y ! unat k"
      using mismatch_first[OF ok, of ?n 0] by auto
    show ?thesis
    proof (cases "k < ?n")
      case True
      then have "k < cb_length x" "k < cb_length y" by simp_all
      then show ?thesis
        using k True get_ok[OF ok(1), of k] get_ok[OF ok(2), of k] less_at[of "unat k" "cba_bytes h x" "cba_bytes h y"]
        by (simp add: cba_less_def len ok word_less_nat_alt)
    next
      case False
      then have "k = ?n" using k(2) by (metis leI order.antisym)
      then have "unat k = min (length (cba_bytes h x)) (length (cba_bytes h y))"
        by (simp add: len ok min_def word_le_nat_alt)
      then have "cba_bytes h x < cba_bytes h y \<longleftrightarrow> cb_length x < cb_length y"
        using less_prefix[of "cba_bytes h x" "cba_bytes h y"] k(3) by (simp add: len ok word_less_nat_alt)
      then show ?thesis by (simp only: cba_less_def Let_def k(1) ebind_simps False if_False)
    qed
  qed
  show ?thesis using eq less[OF assms] less[OF assms(2,1)] by (simp add: cba_neq_def cba_greater_def)
qed

lemma comparisons_lexicographic_witness: "cba_eq sample_blocks sample_array sample_array = Inr True"
  using comparisons_lexicographic[OF sample_ok(1) sample_ok(1)] by simp


subsection \<open>Windows\<close>

text \<open>
  \<^verbatim>\<open>SubArray\<close> from a start within an array is a window of its bytes on the same memory. From a start past the end,
  with the default length, the subtractions and sums wrap around, every assertion holds, and the result claims nearly
  \<open>2 ^ 64\<close> bytes.
\<close>

lemma subarray_bounds:
  assumes "cba_ok h c"
  shows "if st \<le> cb_length c
     then \<exists>s. SubArray c st n h = Inr s \<and> cba_ok h s \<and> cb_data s = cb_data c \<and> cba_bytes h s = take (unat n) (drop (unat st) (cba_bytes h c))
     else \<exists>s. SubArray c st (- 1) h = Inr s \<and> unat (cb_length s) = 2 ^ 64 - (unat st - unat (cb_length c))"
proof -
  obtain b where b: "cb_data c = Some b" "b < length h" "length (h ! b) < 2 ^ 63"
      "unat (cb_start c) + unat (cb_length c) \<le> length (h ! b)" "cba_bytes h c = take (unat (cb_length c)) (drop (unat (cb_start c)) (h ! b))"
    using assms by (elim cba_okE) (auto simp: cba_bytes_def)
  have size: "sa_size h (Some b) = Inr (of_nat (length (h ! b)))" by (simp add: sa_size_def)
  have sz: "unat (of_nat (length (h ! b)) :: u64) = length (h ! b)" using b(3) by (simp add: unat_of_nat take_bit_eq_mod)
  show ?thesis
  proof (cases "st \<le> cb_length c")
    case True
    then have st: "unat st \<le> unat (cb_length c)" by (simp add: word_le_nat_alt)
    define m where "m = min n (cb_length c - st)"
    have m: "unat m = min (unat n) (unat (cb_length c) - unat st)"
      using unat_minus_small[OF st] by (simp add: m_def min_def word_le_nat_alt)
    have le: "unat st + unat m \<le> unat (cb_length c)" using m st by simp
    have s1: "unat (st + m) = unat st + unat m" using le u64_bound[of "cb_length c"] by (intro unat_plus_small) simp
    have s2: "unat (cb_start c + cb_length c) = unat (cb_start c) + unat (cb_length c)" using b(3,4) by (intro unat_plus_small) simp
    have s3: "unat (st + cb_start c) = unat st + unat (cb_start c)" using b(3,4) st by (intro unat_plus_small) simp
    have sum: "unat (st + cb_start c + m) = unat st + unat (cb_start c) + unat m"
      using unat_plus_small[of "st + cb_start c" m] s3 b(3,4) le by simp
    note sums = s1 s2 s3
    have "SubArray c st n h = Inr \<lparr>cb_data = Some b, cb_start = st + cb_start c, cb_length = m, cb_ptr = Some (b, st + cb_start c)\<rparr>"
      using b(4) le by (simp add: SubArray_def Let_def m_def[symmetric] cba_window_def size b(1) word_le_nat_alt sums sum sz)
    moreover have "cba_ok h \<lparr>cb_data = Some b, cb_start = st + cb_start c, cb_length = m, cb_ptr = Some (b, st + cb_start c)\<rparr>"
      using b(2-4) le by (simp add: cba_ok_def VECTOR_MAX_def s3)
    moreover have "cba_bytes h \<lparr>cb_data = Some b, cb_start = st + cb_start c, cb_length = m, cb_ptr = Some (b, st + cb_start c)\<rparr> =
        take (unat n) (drop (unat st) (cba_bytes h c))"
      unfolding b(5) by (simp add: cba_bytes_def s3 m drop_take min_def)
    ultimately show ?thesis unfolding if_P[OF True] b(1) by (intro exI conjI) simp_all
  next
    case False
    then have st: "unat (cb_length c) < unat st" by (simp add: word_le_nat_alt)
    have m: "min (- 1) (cb_length c - st) = cb_length c - st" by (rule min_absorb2[OF word_n1_ge])
    have "st + (cb_length c - st) = cb_length c" "st + cb_start c + (cb_length c - st) = cb_start c + cb_length c" by simp_all
    moreover have s: "unat (cb_start c + cb_length c) = unat (cb_start c) + unat (cb_length c)"
      using b(3,4) by (intro unat_plus_small) simp
    ultimately have run: "SubArray c st (- 1) h = Inr \<lparr>cb_data = Some b, cb_start = st + cb_start c, cb_length = cb_length c - st, cb_ptr = Some (b, st + cb_start c)\<rparr>"
      using b(4) by (simp add: SubArray_def Let_def m cba_window_def size b(1) word_le_nat_alt sz)
    have big: "unat (cb_length c - st) = 2 ^ 64 - (unat st - unat (cb_length c))"
      using st u64_bound[of st] by (simp add: unat_sub_if')
    show ?thesis unfolding if_not_P[OF False] using run big by simp
  qed
qed

lemma sample_length: "cb_length sample_array = 3"
  by (simp add: sample_array_def)

lemma subarray_bounds_witness:
  "(\<exists>s. SubArray sample_array 1 5 sample_blocks = Inr s \<and> cba_bytes sample_blocks s = [98, 97]) \<and>
   (\<exists>s. SubArray sample_array 4 (- 1) sample_blocks = Inr s \<and> unat (cb_length s) = 2 ^ 64 - 1)"
  using subarray_bounds[OF sample_ok(1), of 1 5] subarray_bounds[OF sample_ok(1), of 4 0]
  by (auto simp: sample_ok(2) sample_length)

subsection \<open>Growing\<close>

text \<open>The vector an array grows into.\<close>

definition grown :: "byte list \<Rightarrow> nat \<Rightarrow> byte list" where
  "grown v n = v @ replicate (n - length v) 0"

lemma Reserve_ok:
  assumes "cb_data c = Some b" "b < length h" "length (h ! b) < 2 ^ 63" "unat n \<le> VECTOR_MAX"
  shows "Reserve n ABSOLUTE z c h =
    (if unat n \<le> length (h ! b) then (Inr c, h)
     else (Inr (c\<lparr>cb_data := Some (length h), cb_ptr := Some (length h, cb_start c)\<rparr>), h @ [grown (h ! b) (unat n)]))"
proof -
  have sz: "unat (of_nat (length (h ! b)) :: u64) = length (h ! b)" using assms(3) by (simp add: unat_of_nat take_bit_eq_mod)
  have size: "sa_size h (Some b) = Inr (of_nat (length (h ! b)))" by (simp add: sa_size_def)
  show ?thesis
  proof (cases "unat n \<le> length (h ! b)")
    case True
    then show ?thesis by (simp add: Reserve_def pbind_apply assms(1) size word_le_nat_alt sz)
  next
    case False
    then have n: "n \<noteq> 0" "\<not> n \<le> of_nat (length (h ! b))" by (auto simp: word_le_nat_alt sz)
    let ?h = "h @ [replicate (unat n) 0]"
    have read: "mem_read ?h (Some (b, 0)) (of_nat (length (h ! b))) = Inr (h ! b)"
    proof (cases "h ! b = []")
      case False
      then have "(of_nat (length (h ! b)) :: u64) \<noteq> 0" using sz by (metis length_0_conv unsigned_0)
      then show ?thesis using assms(2) by (simp add: mem_read_def sz nth_append)
    qed (simp add: mem_read_def)
    have "mem_write (Some (length h, 0)) (h ! b) ?h = (Inr (), h @ [grown (h ! b) (unat n)])"
      using False by (simp add: mem_write_def overwrite_def grown_def)
    then have copy: "mem_copy (Some (length h, 0)) (Some (b, 0)) (of_nat (length (h ! b))) ?h = (Inr (), h @ [grown (h ! b) (unat n)])"
      using assms(2) by (simp add: mem_copy_def regions_overlap_def pbind_apply read)
    have zero: "SetZeroAfter (length h) (of_nat (length (h ! b))) (h @ [grown (h ! b) (unat n)]) = (Inr (), h @ [grown (h ! b) (unat n)])"
      using False by (simp add: SetZeroAfter_def mem_write_def sz grown_def overwrite_def)
    show ?thesis
      using False n assms(4) copy zero by (cases z) (simp_all add: Reserve_def pbind_apply pthen_apply size assms(1) sa_new_def Let_def)
  qed
qed

text \<open>What resizing makes of a sound array: itself if the vector has room, otherwise a copy in a new one.\<close>

definition resized :: "u64 \<Rightarrow> cba \<Rightarrow> blocks \<Rightarrow> cba \<times> blocks" where
  "resized n c h = (let v = h ! the (cb_data c); k = unat (cb_start c) + unat n
     in if k \<le> length v then (c\<lparr>cb_length := n\<rparr>, h)
        else (c\<lparr>cb_data := Some (length h), cb_length := n, cb_ptr := Some (length h, cb_start c)\<rparr>, h @ [grown v k]))"

lemma Resize_ok:
  assumes "cba_ok h c" "unat (cb_start c) + unat n \<le> VECTOR_MAX"
  shows "Resize n ABSOLUTE z c h = (Inr (fst (resized n c h)), snd (resized n c h))"
proof -
  obtain b where b: "cb_data c = Some b" "b < length h" "length (h ! b) < 2 ^ 63"
    using assms(1) by (elim cba_okE) auto
  have sum: "unat (cb_start c + n) = unat (cb_start c) + unat n"
    using assms(2) by (intro unat_plus_small) (simp add: VECTOR_MAX_def)
  show ?thesis
    using Reserve_ok[OF b, of "cb_start c + n" z] assms(2)
    by (simp add: Resize_def pbind_apply resized_def b(1) sum Let_def)
qed

lemma nth_append_left: "b < length h \<Longrightarrow> (h @ hs) ! b = h ! b"
  by (simp add: nth_append)

lemma resized_ok:
  assumes "cba_ok h c" "unat (cb_start c) + unat n \<le> VECTOR_MAX" "resized n c h = (c', h')"
  shows "cba_ok h' c'" "cb_length c' = n" "cb_start c' = cb_start c" "length h \<le> length h'" "\<forall>b < length h. h' ! b = h ! b"
    "unat (cb_length c) \<le> unat n \<Longrightarrow> take (unat (cb_length c)) (cba_bytes h' c') = cba_bytes h c"
proof -
  obtain b where b: "cb_data c = Some b" "b < length h" "length (h ! b) < 2 ^ 63"
      "unat (cb_start c) + unat (cb_length c) \<le> length (h ! b)"
      "cb_ptr c = Some (b, cb_start c) \<or> cb_ptr c = None \<and> cb_start c = 0 \<and> h ! b = []"
    using assms(1) by (elim cba_okE) auto
  let ?k = "unat (cb_start c) + unat n"
  have "(c', h') = (if ?k \<le> length (h ! b) then (c\<lparr>cb_length := n\<rparr>, h)
      else (c\<lparr>cb_data := Some (length h), cb_length := n, cb_ptr := Some (length h, cb_start c)\<rparr>, h @ [grown (h ! b) ?k]))"
    using assms(3) by (simp add: resized_def Let_def b(1))
  then consider "?k \<le> length (h ! b)" "c' = c\<lparr>cb_length := n\<rparr>" "h' = h"
    | "length (h ! b) < ?k" "c' = c\<lparr>cb_data := Some (length h), cb_length := n, cb_ptr := Some (length h, cb_start c)\<rparr>" "h' = h @ [grown (h ! b) ?k]"
    by (auto split: if_splits)
  note cs = this
  show "cba_ok h' c'"
    using cs by cases (use b assms(2) in \<open>auto simp: cba_ok_def VECTOR_MAX_def grown_def nth_append\<close>)
  show "cb_length c' = n" "cb_start c' = cb_start c" "length h \<le> length h'" "\<forall>b < length h. h' ! b = h ! b"
    using cs by (cases; simp add: nth_append)+
  show "take (unat (cb_length c)) (cba_bytes h' c') = cba_bytes h c" if "unat (cb_length c) \<le> unat n"
    using cs
  proof cases
    case 1
    then show ?thesis using that by (auto simp: cba_bytes_def split: option.split)
  next
    case 2
    have "cba_bytes h' c' = take (unat n) (drop (unat (cb_start c)) (grown (h ! b) ?k))"
      by (simp add: cba_bytes_def 2)
    then have "take (unat (cb_length c)) (cba_bytes h' c') = take (unat (cb_length c)) (drop (unat (cb_start c)) (h ! b))"
      using that b(4) by (simp add: grown_def)
    then show ?thesis using b(4,5) by (auto simp: cba_bytes_def)
  qed
qed

subsection \<open>Appending\<close>

text \<open>Writing into the last \<open>k\<close> bytes of an array.\<close>

lemma write_within:
  assumes "cba_ok h c" "unat p + length bs \<le> unat (cb_length c)"
  shows "\<exists>h'. mem_write (address_plus (cb_ptr c) p) bs h = (Inr (), h') \<and> cba_ok h' c \<and>
    cba_bytes h' c = overwrite (unat p) bs (cba_bytes h c) \<and>
    h' = h[the (cb_data c) := overwrite (unat (cb_start c) + unat p) bs (h ! the (cb_data c))]"
  using assms(1)
proof (cases rule: cba_okE)
  case (1 b)
  have sum: "unat (cb_start c + p) = unat (cb_start c) + unat p"
    using 1(3,4) assms(2) by (intro unat_plus_small) simp
  show ?thesis
  proof (cases "bs = []")
    case True
    then show ?thesis using assms(1) by (simp add: mem_write_def)
  next
    case False
    have "take (unat (cb_length c)) (drop (unat (cb_start c)) (overwrite (unat (cb_start c) + unat p) bs (h ! b))) =
        overwrite (unat p) bs (take (unat (cb_length c)) (drop (unat (cb_start c)) (h ! b)))"
      using 1(4) assms(2) by (intro nth_equalityI) (auto simp: nth_overwrite)
    then show ?thesis
      using False 1 assms(2)
      by (simp add: mem_write_def address_plus_def sum cba_bytes_def cba_ok_def VECTOR_MAX_def)
  qed
next
  case (2 b)
  then have "bs = []" using assms(2) by simp
  then show ?thesis using assms(1) by (simp add: mem_write_def)
qed

lemma overwrite_append:
  assumes "p + length xs + length ys \<le> length v"
  shows "overwrite p xs (overwrite (p + length xs) ys v) = overwrite p (xs @ ys) v"
  using assms by (intro nth_equalityI) (auto simp: nth_overwrite nth_append)

lemma drop_overwrite:
  assumes "p + length xs \<le> length v"
  shows "drop p (overwrite p xs v) = xs @ drop (p + length xs) v" "take p (overwrite p xs v) = take p v"
  using assms by (simp_all add: overwrite_def)

lemma mask_63: "unat (n :: u64) \<le> VECTOR_MAX \<Longrightarrow> n AND 0x7FFFFFFFFFFFFFFF = n"
proof -
  assume "unat n \<le> VECTOR_MAX"
  then have "unat n < 2 ^ 63" by (simp add: VECTOR_MAX_def)
  moreover have "n AND mask 63 = take_bit 63 n" by (simp add: take_bit_eq_mask)
  moreover have "take_bit 63 n = n" using \<open>unat n < 2 ^ 63\<close>
    by (intro word_unat_eq_iff[THEN iffD2]) (simp add: unsigned_take_bit_eq take_bit_nat_eq_self)
  ultimately show ?thesis by (simp add: mask_eq_exp_minus_1)
qed

lemma cba_length_max: "cba_ok h c \<Longrightarrow> unat (cb_length c) \<le> VECTOR_MAX"
  by (erule cba_okE) (auto simp: VECTOR_MAX_def)

text \<open>An array reads the same where its vector is the same.\<close>

lemma cba_same_block:
  assumes "cba_ok h a" "h' ! the (cb_data a) = h ! the (cb_data a)" "length h \<le> length h'"
  shows "cba_ok h' a" "cba_bytes h' a = cba_bytes h a"
  using assms by (auto simp: cba_ok_def cba_bytes_def split: option.splits)

lemma append_copy_ok:
  assumes "cba_ok h c" "cba_ok h a" "cb_data a \<noteq> cb_data c" "unat acc + unat (cb_length a) \<le> unat (cb_length c)"
  shows "\<exists>h'. append_copy acc (Other a) c h = (Inr (), h') \<and> cba_ok h' c \<and>
    cba_bytes h' c = overwrite (unat acc) (cba_bytes h a) (cba_bytes h c) \<and>
    h' = h[the (cb_data c) := overwrite (unat (cb_start c) + unat acc) (cba_bytes h a) (h ! the (cb_data c))]"
proof -
  have "\<not> regions_overlap (address_plus (cb_ptr c) acc) (cb_ptr a) n" for n
    using assms(1-3) by (elim cba_okE) (auto simp: regions_overlap_def address_plus_def)
  then have "append_copy acc (Other a) c h = mem_write (address_plus (cb_ptr c) acc) (cba_bytes h a) h"
    by (simp add: append_copy_def mask_63 cba_length_max[OF assms(2)] mem_copy_def pbind_apply read_all[OF assms(2)])
  then show ?thesis using write_within[OF assms(1), of acc "cba_bytes h a"] assms(4) length_cba_bytes[OF assms(2)] by simp
qed

definition total_length :: "cba list \<Rightarrow> nat" where
  "total_length as = sum_list (map (\<lambda>a. unat (cb_length a)) as)"

definition has_room :: "blocks \<Rightarrow> cba \<Rightarrow> nat \<Rightarrow> bool" where
  "has_room h c n \<longleftrightarrow> unat (cb_start c) + n \<le> length (h ! the (cb_data c))"

lemma AppendInternal_ok:
  assumes "cba_ok h c" "\<forall>a \<in> set as. cba_ok h a \<and> cb_data a \<noteq> cb_data c"
    "unat (cb_start c) + unat acc + total_length as \<le> VECTOR_MAX" "unat (cb_length c) \<le> unat acc"
  shows "\<exists>c' h'. AppendInternal acc (map Other as) c h = (Inr c', h') \<and> cba_ok h' c' \<and>
    unat (cb_length c') = unat acc + total_length as \<and> cb_start c' = cb_start c \<and> length h \<le> length h' \<and>
    take (unat (cb_length c)) (cba_bytes h' c') = cba_bytes h c \<and>
    drop (unat acc) (cba_bytes h' c') = concat (map (cba_bytes h) as) \<and>
    (if has_room h c (unat acc + total_length as)
     then cb_data c' = cb_data c \<and> h' = h[the (cb_data c) := overwrite (unat (cb_start c) + unat acc) (concat (map (cba_bytes h) as)) (h ! the (cb_data c))]
     else cb_data c' = Some (length h) \<and> (\<forall>i < length h. h' ! i = h ! i))"
  using assms(2-4)
proof (induction as arbitrary: acc)
  case Nil
  then have acc: "unat (cb_start c) + unat acc \<le> VECTOR_MAX" by (simp add: total_length_def)
  obtain c' h' where r: "resized acc c h = (c', h')" by (cases "resized acc c h")
  note ok = resized_ok[OF assms(1) acc r]
  have "if has_room h c (unat acc) then cb_data c' = cb_data c \<and> h' = h else cb_data c' = Some (length h) \<and> (\<forall>i < length h. h' ! i = h ! i)"
    using r by (auto simp: resized_def has_room_def Let_def nth_append split: if_splits)
  then show ?case
    using Resize_ok[OF assms(1) acc, of True] r ok Nil.prems(3) length_cba_bytes[OF ok(1)] by (simp add: total_length_def)
next
  case (Cons a as)
  let ?acc = "acc + cb_length a"
  have a: "cba_ok h a" "cb_data a \<noteq> cb_data c" using Cons.prems(1) by simp_all
  have tot: "total_length (a # as) = unat (cb_length a) + total_length as" by (simp add: total_length_def)
  have acc: "unat ?acc = unat acc + unat (cb_length a)"
    using Cons.prems(2) by (intro unat_plus_small) (simp add: tot VECTOR_MAX_def)
  have IHp: "\<forall>a \<in> set as. cba_ok h a \<and> cb_data a \<noteq> cb_data c" "unat (cb_start c) + unat ?acc + total_length as \<le> VECTOR_MAX"
      "unat (cb_length c) \<le> unat ?acc"
    using Cons.prems by (auto simp: acc tot)
  obtain c' h' where ih: "AppendInternal ?acc (map Other as) c h = (Inr c', h')" "cba_ok h' c'"
      "unat (cb_length c') = unat ?acc + total_length as" "cb_start c' = cb_start c" "length h \<le> length h'"
      "take (unat (cb_length c)) (cba_bytes h' c') = cba_bytes h c"
      "drop (unat ?acc) (cba_bytes h' c') = concat (map (cba_bytes h) as)"
      "if has_room h c (unat ?acc + total_length as)
       then cb_data c' = cb_data c \<and> h' = h[the (cb_data c) := overwrite (unat (cb_start c) + unat ?acc) (concat (map (cba_bytes h) as)) (h ! the (cb_data c))]
       else cb_data c' = Some (length h) \<and> (\<forall>i < length h. h' ! i = h ! i)"
    using Cons.IH[OF IHp] by blast
  have da: "\<exists>b. cb_data a = Some b \<and> b < length h" "\<exists>b. cb_data c = Some b \<and> b < length h"
    using a(1) assms(1) by (auto elim: cba_okE)
  then have same: "h' ! the (cb_data a) = h ! the (cb_data a)" "cb_data a \<noteq> cb_data c'"
    using ih(8) a(2) by (auto split: if_splits)
  note a' = cba_same_block[OF a(1) same(1) ih(5)]
  have len: "length (cba_bytes h a) = unat (cb_length a)" "length (cba_bytes h' c') = unat (cb_length c')"
    using length_cba_bytes a(1) ih(2) by simp_all
  obtain h2 where h2: "append_copy acc (Other a) c' h' = (Inr (), h2)" "cba_ok h2 c'"
      "cba_bytes h2 c' = overwrite (unat acc) (cba_bytes h a) (cba_bytes h' c')"
      "h2 = h'[the (cb_data c') := overwrite (unat (cb_start c) + unat acc) (cba_bytes h a) (h' ! the (cb_data c'))]"
    using append_copy_ok[OF ih(2) a'(1) same(2), of acc] ih(3,4) by (auto simp: acc a'(2))
  have run: "AppendInternal acc (map Other (a # as)) c h = (Inr c', h2)"
    using ih(1) h2(1) by (simp add: appended_size_def pthen_apply)
  have fits: "unat acc + length (cba_bytes h a) \<le> length (cba_bytes h' c')" by (simp add: len ih(3) acc)
  have rest: "drop (unat acc) (cba_bytes h2 c') = concat (map (cba_bytes h) (a # as))"
    unfolding h2(3) drop_overwrite(1)[OF fits] using ih(7) by (simp add: len acc)
  have front: "take (unat (cb_length c)) (cba_bytes h2 c') = cba_bytes h c"
  proof -
    have "take (unat (cb_length c)) (cba_bytes h2 c') = take (unat (cb_length c)) (take (unat acc) (cba_bytes h2 c'))"
      using Cons.prems(3) by simp
    also have "\<dots> = take (unat (cb_length c)) (take (unat acc) (cba_bytes h' c'))" by (simp only: h2(3) drop_overwrite(2)[OF fits])
    finally show ?thesis using ih(6) Cons.prems(3) by simp
  qed
  have n: "unat acc + total_length (a # as) = unat ?acc + total_length as" by (simp add: acc tot)
  have "if has_room h c (unat acc + total_length (a # as))
     then cb_data c' = cb_data c \<and> h2 = h[the (cb_data c) := overwrite (unat (cb_start c) + unat acc) (concat (map (cba_bytes h) (a # as))) (h ! the (cb_data c))]
     else cb_data c' = Some (length h) \<and> (\<forall>i < length h. h2 ! i = h ! i)"
  proof (cases "has_room h c (unat ?acc + total_length as)")
    case True
    have cat: "length (concat (map (cba_bytes h) as)) = total_length as"
      using ih(3,7) len(2) by (metis add_diff_cancel_left' length_drop)
    obtain b where b: "cb_data c = Some b" "b < length h" using da(2) by blast
    have "overwrite (unat (cb_start c) + unat acc) (cba_bytes h a)
        (overwrite (unat (cb_start c) + unat ?acc) (concat (map (cba_bytes h) as)) (h ! b)) =
      overwrite (unat (cb_start c) + unat acc) (concat (map (cba_bytes h) (a # as))) (h ! b)"
      using overwrite_append[of "unat (cb_start c) + unat acc" "cba_bytes h a" "concat (map (cba_bytes h) as)" "h ! b"] True
      by (simp add: len cat acc has_room_def b(1) add.assoc)
    then show ?thesis unfolding n using True ih(8) h2(4) b by simp
  next
    case False
    then show ?thesis unfolding n using ih(8) h2(4) by simp
  qed
  moreover have "length h \<le> length h2" using ih(5) h2(4) by simp
  moreover have "unat (cb_length c') = unat acc + total_length (a # as)" using ih(3) n by simp
  ultimately show ?case using run h2(2) ih(4) rest front by (intro exI[of _ c'] exI[of _ h2] conjI)
qed


text \<open>
  \<^verbatim>\<open>Append\<close> of arrays in other vectors makes the contents the concatenation. When the vector has room past the array
  it is written in place, so every other array on that vector sees the new bytes over its own; otherwise the array moves to a
  new vector and nothing else changes.
\<close>

lemma append_in_shared_memory:
  assumes "cba_ok h c" "\<forall>a \<in> set as. cba_ok h a \<and> cb_data a \<noteq> cb_data c"
    "unat (cb_start c) + unat (cb_length c) + total_length as \<le> VECTOR_MAX"
  shows "\<exists>c' h'. Append (map Other as) c h = (Inr c', h') \<and> cba_ok h' c' \<and>
    cba_bytes h' c' = cba_bytes h c @ concat (map (cba_bytes h) as) \<and>
    (if has_room h c (unat (cb_length c) + total_length as)
     then cb_data c' = cb_data c \<and> h' = h[the (cb_data c) := overwrite (unat (cb_start c) + unat (cb_length c)) (concat (map (cba_bytes h) as)) (h ! the (cb_data c))]
     else cb_data c' = Some (length h) \<and> (\<forall>i < length h. h' ! i = h ! i))"
  using AppendInternal_ok[OF assms order_refl] unfolding Append_def by (metis append_take_drop_id)

definition two_blocks :: blocks where
  "two_blocks = [[97, 98, 97], [120]]"

definition first_byte :: cba where
  "first_byte = \<lparr>cb_data = Some 0, cb_start = 0, cb_length = 1, cb_ptr = Some (0, 0)\<rparr>"

definition other_byte :: cba where
  "other_byte = \<lparr>cb_data = Some 1, cb_start = 0, cb_length = 1, cb_ptr = Some (1, 0)\<rparr>"

lemma two_blocks_ok:
  "cba_ok two_blocks first_byte" "cba_ok two_blocks other_byte" "cba_ok two_blocks sample_array" "cb_data other_byte \<noteq> cb_data first_byte"
  by (simp_all add: cba_ok_def two_blocks_def first_byte_def other_byte_def sample_array_def VECTOR_MAX_def)

text \<open>Appending to a window of the array \<open>aba\<close> changes the array.\<close>

lemma append_in_shared_memory_witness:
  "\<exists>c' h'. Append [Other other_byte] first_byte two_blocks = (Inr c', h') \<and> cba_bytes h' c' = [97, 120] \<and>
     cba_bytes two_blocks sample_array = [97, 98, 97] \<and> cba_bytes h' sample_array = [97, 120, 97]"
proof -
  have room: "unat (cb_start first_byte) + unat (cb_length first_byte) + total_length [other_byte] \<le> VECTOR_MAX"
      "has_room two_blocks first_byte (unat (cb_length first_byte) + total_length [other_byte])"
    by (simp_all add: first_byte_def other_byte_def total_length_def VECTOR_MAX_def has_room_def two_blocks_def)
  obtain c' h' where "Append (map Other [other_byte]) first_byte two_blocks = (Inr c', h')"
      "cba_bytes h' c' = cba_bytes two_blocks first_byte @ concat (map (cba_bytes two_blocks) [other_byte])"
      "h' = two_blocks[the (cb_data first_byte) := overwrite (unat (cb_start first_byte) + unat (cb_length first_byte))
        (concat (map (cba_bytes two_blocks) [other_byte])) (two_blocks ! the (cb_data first_byte))]"
    using append_in_shared_memory[OF two_blocks_ok(1) _ room(1)] two_blocks_ok room(2) by auto
  then show ?thesis
    by (simp add: cba_bytes_def first_byte_def other_byte_def sample_array_def two_blocks_def overwrite_def)
qed

text \<open>A fresh array is sound, and leaves the others alone.\<close>

lemma cba_new_ok:
  "cba_new h = (Inr \<lparr>cb_data = Some (length h), cb_start = 0, cb_length = 0, cb_ptr = None\<rparr>, h @ [[]])"
  by (simp add: cba_new_def pbind_apply sa_new_def)

lemma cba_empty_ok:
  "cba_ok (h @ [[]]) \<lparr>cb_data = Some (length h), cb_start = 0, cb_length = 0, cb_ptr = None\<rparr>"
  "cba_bytes (h @ [[]]) \<lparr>cb_data = Some (length h), cb_start = 0, cb_length = 0, cb_ptr = None\<rparr> = []"
  by (simp_all add: cba_ok_def cba_bytes_def)

lemma cba_ok_data: "cba_ok h c \<Longrightarrow> \<exists>b. cb_data c = Some b \<and> b < length h"
  by (erule cba_okE) auto

text \<open>
  C32. \<^verbatim>\<open>operator+\<close> refines concatenation: the result is in a vector of its own and every vector there was keeps its bytes.
\<close>

theorem plus_concatenates:
  assumes "cba_ok h a" "cba_ok h b" "unat (cb_length a) + unat (cb_length b) \<le> VECTOR_MAX"
  shows "\<exists>c h'. cba_plus a b h = (Inr c, h') \<and> cba_ok h' c \<and> cba_bytes h' c = cba_bytes h a @ cba_bytes h b \<and>
    length h \<le> the (cb_data c) \<and> (\<forall>i < length h. h' ! i = h ! i)"
proof -
  let ?h = "h @ [[]]" let ?c = "\<lparr>cb_data = Some (length h), cb_start = 0, cb_length = 0, cb_ptr = None\<rparr>"
  have ab: "cba_ok ?h x \<and> cba_bytes ?h x = cba_bytes h x \<and> cb_data x \<noteq> cb_data ?c" if "cba_ok h x" for x
    using cba_same_block[OF that, of ?h] cba_ok_data[OF that] by (auto simp: nth_append)
  have "\<forall>x \<in> set [a, b]. cba_ok ?h x \<and> cb_data x \<noteq> cb_data ?c" using ab[OF assms(1)] ab[OF assms(2)] by simp
  moreover have "unat (cb_start ?c) + unat (cb_length ?c) + total_length [a, b] \<le> VECTOR_MAX" using assms(3) by (simp add: total_length_def)
  ultimately obtain c' h' where c': "AppendInternal (cb_length ?c) (map Other [a, b]) ?c ?h = (Inr c', h')" "cba_ok h' c'"
      "take (unat (cb_length ?c)) (cba_bytes h' c') = cba_bytes ?h ?c" "drop (unat (cb_length ?c)) (cba_bytes h' c') = concat (map (cba_bytes ?h) [a, b])"
      "if has_room ?h ?c (unat (cb_length ?c) + total_length [a, b])
       then cb_data c' = cb_data ?c \<and> h' = ?h[the (cb_data ?c) := overwrite (unat (cb_start ?c) + unat (cb_length ?c)) (concat (map (cba_bytes ?h) [a, b])) (?h ! the (cb_data ?c))]
       else cb_data c' = Some (length ?h) \<and> (\<forall>i < length ?h. h' ! i = ?h ! i)"
    using AppendInternal_ok[OF cba_empty_ok(1) _ _ order_refl, of "[a, b]" h] by blast
  have "length h \<le> the (cb_data c') \<and> (\<forall>i < length h. h' ! i = h ! i)"
    using c'(5) by (auto simp: nth_append split: if_splits)
  moreover have "cba_bytes h' c' = cba_bytes h a @ cba_bytes h b"
    using c'(4) ab[OF assms(1)] ab[OF assms(2)] by simp
  moreover have "cba_plus a b h = (Inr c', h')"
    using c'(1) by (simp add: cba_plus_def pbind_Inr[OF cba_new_ok] Append_def del: AppendInternal.simps)
  ultimately show ?thesis using c'(2) by blast
qed

lemma plus_concatenates_witness:
  "\<exists>c h'. cba_plus sample_array sample_array sample_blocks = (Inr c, h') \<and> cba_bytes h' c = [97, 98, 97, 97, 98, 97]"
  using plus_concatenates[OF sample_ok(1) sample_ok(1)] by (auto simp: sample_length VECTOR_MAX_def sample_ok(2))

text \<open>An array appended to itself is read as long as it has become, over the end of what it was.\<close>

lemma append_itself_undefined:
  assumes "cba_ok h c" "cb_length c \<noteq> 0" "unat (cb_start c) + 2 * unat (cb_length c) \<le> VECTOR_MAX"
  shows "fst (Append [Itself] c h) = Inl Undefined"
proof -
  have twice: "unat (cb_length c + cb_length c) = 2 * unat (cb_length c)"
    using assms(3) unat_plus_small[of "cb_length c" "cb_length c"] by (simp add: VECTOR_MAX_def)
  have fit: "unat (cb_start c) + unat (cb_length c + cb_length c) \<le> VECTOR_MAX" using assms(3) twice by simp
  obtain c' h' where r: "resized (cb_length c + cb_length c) c h = (c', h')" by (cases "resized (cb_length c + cb_length c) c h")
  note ok = resized_ok[OF assms(1) fit r]
  have pos: "0 < unat (cb_length c)" using assms(2) by (simp add: unat_gt_0)
  have n: "unat (cb_length c') = 2 * unat (cb_length c)" "cb_length c' \<noteq> 0" using ok(2) twice pos by auto
  obtain b where b: "cb_ptr c' = Some (b, cb_start c)" "unat (cb_start c) + unat (cb_length c') < 2 ^ 63"
    using ok(1,3) n(2) by (elim cba_okE) auto
  have "unat (cb_start c + cb_length c) = unat (cb_start c) + unat (cb_length c)"
    using b(2) n(1) by (intro unat_plus_small) simp
  then have "append_copy (cb_length c) Itself c' = pthrow Undefined"
    using b n pos mask_63[OF cba_length_max[OF ok(1)]]
    by (simp add: append_copy_def mem_copy_def regions_overlap_def address_plus_def)
  then show ?thesis
    using Resize_ok[OF assms(1) fit, of True] r by (simp add: Append_def appended_size_def pbind_apply pthen_apply)
qed


subsection \<open>Copies\<close>

lemma cba_of_bytes_ok:
  assumes "length bs \<le> VECTOR_MAX"
  shows "\<exists>c h'. cba_of_bytes bs h = (Inr c, h') \<and> cba_ok h' c \<and> cba_bytes h' c = bs \<and> length h \<le> the (cb_data c) \<and> (\<forall>i < length h. h' ! i = h ! i)"
proof (cases "bs = []")
  case True
  then show ?thesis
    using cba_empty_ok[of h] by (simp add: cba_of_bytes_def pbind_Inr[OF cba_new_ok] nth_append)
next
  case False
  let ?n = "of_nat (length bs) :: u64"
  let ?c0 = "\<lparr>cb_data = Some (length h), cb_start = 0, cb_length = 0, cb_ptr = None\<rparr> :: cba"
  let ?c1 = "?c0\<lparr>cb_data := Some (Suc (length h)), cb_ptr := Some (Suc (length h), 0)\<rparr>"
  let ?h1 = "h @ [[]] @ [replicate (length bs) 0]"
  have n: "unat ?n = length bs" using assms by (simp add: VECTOR_MAX_def unat_of_nat take_bit_eq_mod)
  have res: "Reserve ?n ABSOLUTE True ?c0 (h @ [[]]) = (Inr ?c1, ?h1)"
    using Reserve_ok[of ?c0 "length h" "h @ [[]]" ?n True] False assms by (simp add: n grown_def nth_append)
  have ok1: "cba_ok ?h1 ?c1" using assms by (simp add: cba_ok_def nth_append)
  have siz: "Resize ?n ABSOLUTE True ?c1 ?h1 = (Inr (?c1\<lparr>cb_length := ?n\<rparr>), ?h1)"
    using Resize_ok[OF ok1, of ?n True] assms by (simp add: n resized_def Let_def nth_append)
  have ok2: "cba_ok ?h1 (?c1\<lparr>cb_length := ?n\<rparr>)" using assms by (simp add: cba_ok_def nth_append n)
  obtain h' where h': "mem_write (address_plus (cb_ptr (?c1\<lparr>cb_length := ?n\<rparr>)) 0) bs ?h1 = (Inr (), h')" "cba_ok h' (?c1\<lparr>cb_length := ?n\<rparr>)"
      "cba_bytes h' (?c1\<lparr>cb_length := ?n\<rparr>) = overwrite 0 bs (cba_bytes ?h1 (?c1\<lparr>cb_length := ?n\<rparr>))"
      "h' = ?h1[Suc (length h) := overwrite 0 bs (?h1 ! Suc (length h))]"
    using write_within[OF ok2, of 0 bs] by (auto simp: n)
  have "length (cba_bytes ?h1 (?c1\<lparr>cb_length := ?n\<rparr>)) = length bs" using length_cba_bytes[OF ok2] by (simp add: n)
  then have "cba_bytes h' (?c1\<lparr>cb_length := ?n\<rparr>) = bs" unfolding h'(3) by (simp add: overwrite_def)
  moreover have "cba_of_bytes bs h = (Inr (?c1\<lparr>cb_length := ?n\<rparr>), h')"
    using res siz h'(1) False by (simp add: cba_of_bytes_def pbind_Inr[OF cba_new_ok] pbind_apply pthen_apply WriteBytes_def)
  moreover have "\<forall>i < length h. h' ! i = h ! i" by (simp add: h'(4) nth_append)
  ultimately show ?thesis using h'(2) by auto
qed

lemma Copy_ok:
  assumes "cba_ok h c"
  shows "\<exists>r h'. Copy c h = (Inr r, h') \<and> cba_ok h' r \<and> cba_bytes h' r = cba_bytes h c \<and> length h \<le> the (cb_data r) \<and> (\<forall>i < length h. h' ! i = h ! i)"
  using cba_of_bytes_ok[of "cba_bytes h c" h] length_cba_bytes[OF assms] cba_length_max[OF assms]
  by (simp add: Copy_def pbind_apply read_all[OF assms])

text \<open>
  Making a \<^verbatim>\<open>ByteArray\<close> of a \<^verbatim>\<open>ConstByteArray\<close> gives one that shares its vector with no other array, and the same bytes; what
  a move leaves behind still has its length and its pointer.
\<close>

lemma ByteArray_move_unshared:
  assumes "cba_ok h c" "c \<in> set live" "\<forall>a \<in> set live. cba_ok h a"
  shows "\<exists>r rest h'. ByteArray_move live c h = (Inr (r, rest), h') \<and> cba_ok h' r \<and> cba_bytes h' r = cba_bytes h c \<and>
    cb_length rest = cb_length c \<and> cb_ptr rest = cb_ptr c \<and> (\<forall>a \<in> set (remove1 c live). cb_data a \<noteq> cb_data r)"
proof (cases "IsUnique live (cb_data c)")
  case True
  obtain b where b: "cb_data c = Some b" using cba_ok_data[OF assms(1)] by blast
  have "c \<in> set (filter (\<lambda>a. cb_data a = Some b) live)" using assms(2) b by simp
  then have "length (remove1 c (filter (\<lambda>a. cb_data a = Some b) live)) = length (filter (\<lambda>a. cb_data a = Some b) live) - 1"
    by (simp only: length_remove1 if_True)
  also have "\<dots> = 0" using True b by (simp add: IsUnique_def UseCount_def)
  finally have "filter (\<lambda>a. cb_data a = Some b) (remove1 c live) = []" by (simp add: filter_remove1)
  then have "\<forall>a \<in> set (remove1 c live). cb_data a \<noteq> cb_data c" using b by (simp add: filter_empty_conv)
  then show ?thesis using True assms(1) by (simp add: ByteArray_move_def cba_move_def)
next
  case False
  obtain r h' where r: "Copy c h = (Inr r, h')" "cba_ok h' r" "cba_bytes h' r = cba_bytes h c" "length h \<le> the (cb_data r)"
    using Copy_ok[OF assms(1)] by blast
  have "cb_data a \<noteq> cb_data r" if "a \<in> set live" for a
    using assms(3) that cba_ok_data[of h a] r(4) by auto
  then have "\<forall>a \<in> set (remove1 c live). cb_data a \<noteq> cb_data r" using notin_set_remove1 by fastforce
  then show ?thesis using False r by (simp add: ByteArray_move_def pbind_apply)
qed

subsection \<open>Numbers in arrays\<close>

lemma strtol_stoi: "std_stoi s = Inr v \<Longrightarrow> std_strtol s = (v, False)"
  by (auto simp: std_stoi_def std_strtol_def Let_def split: if_splits)

lemma signed_take_bit_small: "- (2 ^ 31) \<le> v \<Longrightarrow> v < 2 ^ 31 \<Longrightarrow> signed_take_bit 31 v = (v :: int)"
  by (simp add: signed_take_bit_int_eq_self)

text \<open>
  \<^verbatim>\<open>AsInt\<close> returns what \<^verbatim>\<open>std::stoi\<close> would of a text with a number in range when \<^verbatim>\<open>errno\<close> is clear, but after any
  earlier range error of the thread, it refuses every text, and clears \<^verbatim>\<open>errno\<close>.
\<close>

lemma as_int_stale_errno:
  assumes "cba_string h c = Inr s" "std_stoi s = Inr v"
  shows "AsInt h c False = (Inr v, False) \<and>
    AsInt h c True = (Inl (LogicError (''AsInt() failed to convert value='' @ s @ '' to integer'')), False)"
  using assms stoi_range[OF assms(2)] strtol_stoi[OF assms(2)]
  by (simp add: AsInt_def pbind_apply pthen_apply signed_take_bit_small)

text \<open>The digits 4 and 2.\<close>

lemma as_int_stale_errno_witness:
  "AsInt [[52, 50]] \<lparr>cb_data = Some 0, cb_start = 0, cb_length = 2, cb_ptr = Some (0, 0)\<rparr> False = (Inr 42, False)"
proof -
  have "cba_string [[52, 50]] \<lparr>cb_data = Some 0, cb_start = 0, cb_length = 2, cb_ptr = Some (0, 0)\<rparr> = Inr ''42''"
    by (simp add: cba_string_def mem_read_def) code_simp
  moreover have "std_stoi ''42'' = Inr 42" by code_simp
  ultimately show ?thesis using as_int_stale_errno by blast
qed


end
