(* ===== verification/Encoders.thy ===== *)
theory Encoders
  imports CharBuffers
begin

text \<open>
  \<^verbatim>\<open>fetch_teams/ledger/experimental/core/encoders.cpp\<close> and \<^verbatim>\<open>encode_decode.cpp\<close>: base 64, hexadecimal and binary
  texts of byte arrays. The output is a buffer of the size computed beforehand; an index outside of it fails the
  assertion of \<^verbatim>\<open>operator[]\<close>. Sizes are natural numbers: an array of \<open>2 ^ 61\<close> bytes does not fit a machine.
\<close>

subsection \<open>Tables\<close>

definition text_bytes :: "string \<Rightarrow> byte list" where
  "text_bytes s = map of_char s"

definition base64chars :: "byte list" where
  "base64chars = text_bytes ''ABCDEFGHIJKLMNOPQRSTUVWXYZabcdefghijklmnopqrstuvwxyz0123456789+/=''"

definition base64pad :: byte where
  "base64pad = of_char (CHR ''='')"

definition hexChars :: "byte list" where
  "hexChars = text_bytes ''0123456789abcdef''"

definition base64decode :: "byte list" where
  "base64decode = replicate 10 66 @ [64] @ replicate 32 66 @ [62, 66, 66, 66, 63] @
     [52, 53, 54, 55, 56, 57, 58, 59, 60, 61] @ [66, 66, 66, 65, 66, 66, 66] @
     [0, 1, 2, 3, 4, 5, 6, 7, 8, 9, 10, 11, 12, 13, 14, 15, 16, 17, 18, 19, 20, 21, 22, 23, 24, 25] @
     [66, 66, 66, 66, 66, 66] @
     [26, 27, 28, 29, 30, 31, 32, 33, 34, 35, 36, 37, 38, 39, 40, 41, 42, 43, 44, 45, 46, 47, 48, 49, 50, 51] @
     replicate 133 66"

definition DecodeHexChar :: "byte \<Rightarrow> exn + byte" where
  "DecodeHexChar c =
     (if of_char (CHR ''0'') \<le> c \<and> c \<le> of_char (CHR ''9'') then Inr (c - of_char (CHR ''0''))
      else if of_char (CHR ''A'') \<le> c \<and> c \<le> of_char (CHR ''F'') then Inr (c - of_char (CHR ''A'') + 10)
      else if of_char (CHR ''a'') \<le> c \<and> c \<le> of_char (CHR ''f'') then Inr (c - of_char (CHR ''a'') + 10)
      else Inl (RuntimeError ''Could not decode from hex''))"

subsection \<open>Writing a result\<close>

text \<open>The result so far and the next index; \<^verbatim>\<open>ret[idx++] = b\<close>.\<close>

type_synonym outbuf = "byte list \<times> nat"

definition out_put :: "byte \<Rightarrow> (outbuf, unit) prog" where
  "out_put b = (\<lambda>(ret, idx). if idx < length ret then (Inr (), (ret[idx := b], Suc idx)) else (Inl Aborted, (ret, idx)))"

fun out_puts :: "byte list \<Rightarrow> (outbuf, unit) prog" where
  "out_puts [] = pret ()"
| "out_puts (b # bs) = pthen (out_put b) (out_puts bs)"

definition out_run :: "nat \<Rightarrow> (outbuf, unit) prog \<Rightarrow> exn + byte list" where
  "out_run n p = (case p (replicate n 0, 0) of (Inl e, _) \<Rightarrow> Inl e | (Inr _, (ret, _)) \<Rightarrow> Inr ret)"

subsection \<open>Base 64\<close>

function b64_loop :: "byte list \<Rightarrow> nat \<Rightarrow> (outbuf, unit) prog" where
  "b64_loop str x = (if x < length str then
     (let temp0 = push_bit 16 (ucast (str ! x)) :: u32;
          temp1 = (if x + 1 < length str then temp0 + push_bit 8 (ucast (str ! (x + 1))) else temp0);
          temp = (if x + 2 < length str then temp1 + ucast (str ! (x + 2)) else temp1);
          n0 = ucast (drop_bit 18 temp AND 63) :: byte;
          n1 = ucast (drop_bit 12 temp AND 63) :: byte;
          n2 = ucast (drop_bit 6 temp AND 63) :: byte;
          n3 = ucast (temp AND 63) :: byte
      in pthen (out_put (base64chars ! unat n0)) (pthen (out_put (base64chars ! unat n1))
        (pthen (if x + 1 < length str then out_put (base64chars ! unat n2) else pret ())
        (pthen (if x + 2 < length str then out_put (base64chars ! unat n3) else pret ())
          (b64_loop str (x + 3))))))
     else pret ())"
  by pat_completeness auto

termination b64_loop
  by (relation "measure (\<lambda>(str, x). length str - x)") auto

declare b64_loop.simps [simp del]

definition ToBase64 :: "byte list \<Rightarrow> exn + byte list" where
  "ToBase64 str =
     (if length str = 0 then Inr []
      else
        (let N = length str; invPadCount = N mod 3;
             n = (if invPadCount = 0 then 4 * N div 3 else 4 * (N + (3 - invPadCount)) div 3)
         in out_run n (pthen (b64_loop str 0)
              (if 0 < invPadCount then out_puts (replicate (3 - invPadCount) base64pad) else pret ()))))"

subsection \<open>Hexadecimal and binary\<close>

definition hex_pair :: "byte \<Rightarrow> byte list" where
  "hex_pair c = [hexChars ! unat (drop_bit 4 c AND 0xF), hexChars ! unat (c AND 0xF)]"

fun each_byte :: "(byte \<Rightarrow> byte list) \<Rightarrow> byte list \<Rightarrow> (outbuf, unit) prog" where
  "each_byte f [] = pret ()"
| "each_byte f (c # cs) = pthen (out_puts (f c)) (each_byte f cs)"

definition ToHex :: "byte list \<Rightarrow> exn + byte list" where
  "ToHex str = out_run (2 * length str) (each_byte hex_pair str)"

definition Reverse :: "byte \<Rightarrow> byte" where
  "Reverse c0 =
     (let c1 = drop_bit 4 (c0 AND 0xF0) OR push_bit 4 (c0 AND 0x0F);
          c2 = drop_bit 2 (c1 AND 0xCC) OR push_bit 2 (c1 AND 0x33)
      in drop_bit 1 (c2 AND 0xAA) OR push_bit 1 (c2 AND 0x55))"

definition ToHexReverse :: "byte list \<Rightarrow> exn + byte list" where
  "ToHexReverse str = out_run (2 * length str) (each_byte (\<lambda>c. hex_pair (Reverse c)) str)"

definition bin_digits :: "byte \<Rightarrow> byte list" where
  "bin_digits c = map (\<lambda>m. if c AND m \<noteq> 0 then of_char (CHR ''1'') else of_char (CHR ''0'')) [0x80, 0x40, 0x20, 0x10, 0x08, 0x04, 0x02, 0x01]"

definition ToBin :: "byte list \<Rightarrow> exn + byte list" where
  "ToBin str = out_run (length str * 8) (each_byte bin_digits str)"

definition ToBinReverse :: "byte list \<Rightarrow> exn + byte list" where
  "ToBinReverse str = out_run (length str * 8) (each_byte (\<lambda>c. bin_digits (Reverse c)) str)"

subsection \<open>Outputs\<close>

lemma out_put_run:
  "out_put b (bs @ 0 # rest, length bs) = (Inr (), (bs @ b # rest, Suc (length bs)))"
  by (simp add: out_put_def)

text \<open>A result grows from the left; \<open>emits p bs\<close> says that a program writes exactly \<open>bs\<close> where there is room.\<close>

definition emits :: "(outbuf, unit) prog \<Rightarrow> byte list \<Rightarrow> bool" where
  "emits p bs \<longleftrightarrow> (\<forall>done rest n. n = length done \<and> length bs \<le> length rest \<longrightarrow>
     p (done @ rest, n) = (Inr (), (done @ bs @ drop (length bs) rest, n + length bs)))"

lemma emits_ret [simp]: "emits (pret ()) []"
  by (simp add: emits_def)

lemma emits_put [simp]: "emits (out_put b) [b]"
  unfolding emits_def
proof (intro allI impI)
  fix pre rest :: "byte list" and n assume "n = length pre \<and> length [b] \<le> length rest"
  then show "out_put b (pre @ rest, n) = (Inr (), (pre @ [b] @ drop (length [b]) rest, n + length [b]))"
    by (cases rest) (simp_all add: out_put_def)
qed

lemma emits_then:
  assumes "emits p bs" "emits q cs"
  shows "emits (pthen p q) (bs @ cs)"
  unfolding emits_def
proof (intro allI impI)
  fix pre rest :: "byte list" and n assume n: "n = length pre \<and> length (bs @ cs) \<le> length rest"
  then have "p (pre @ rest, n) = (Inr (), ((pre @ bs) @ drop (length bs) rest, n + length bs))"
    using assms(1) by (simp add: emits_def)
  moreover have "q ((pre @ bs) @ drop (length bs) rest, n + length bs) =
      (Inr (), ((pre @ bs) @ cs @ drop (length cs) (drop (length bs) rest), n + length bs + length cs))"
    using assms(2)[unfolded emits_def, rule_format, of "n + length bs" "pre @ bs" "drop (length bs) rest"] n by auto
  ultimately show "pthen p q (pre @ rest, n) = (Inr (), (pre @ (bs @ cs) @ drop (length (bs @ cs)) rest, n + length (bs @ cs)))"
    by (simp add: pthen_apply add.commute)
qed

lemma emits_puts [simp]: "emits (out_puts bs) bs"
proof (induction bs)
  case Nil
  show ?case unfolding out_puts.simps by (rule emits_ret)
next
  case (Cons b bs)
  then show ?case using emits_then[OF emits_put Cons.IH, of b] by simp
qed

lemma emits_each: "emits (each_byte f cs) (concat (map f cs))"
proof (induction cs)
  case Nil
  show ?case unfolding each_byte.simps list.map concat.simps by (rule emits_ret)
next
  case (Cons c cs)
  then show ?case using emits_then[OF emits_puts Cons.IH, of "f c"] by simp
qed

text \<open>A buffer of just the size is filled, without an index outside of it.\<close>

lemma out_run_emits:
  assumes "emits p bs" "n = length bs"
  shows "out_run n p = Inr bs"
proof -
  have "p ([] @ replicate n 0, 0) = (Inr (), ([] @ bs @ drop (length bs) (replicate n 0), 0 + length bs))"
    using assms(1)[unfolded emits_def, rule_format, of 0 "[]" "replicate n 0"] assms(2) by simp
  then show ?thesis using assms(2) by (simp add: out_run_def)
qed

subsection \<open>Hexadecimal and binary texts\<close>

lemma length_hexChars: "length hexChars = 16"
  by (simp add: hexChars_def text_bytes_def)

lemma nibble_less: "unat (c AND 0xF :: byte) < 16"
proof -
  have "c AND 0xF = take_bit 4 c" by (simp add: take_bit_eq_mask mask_eq_exp_minus_1)
  then have "unat (c AND 0xF) = take_bit 4 (unat c)" by (simp add: unsigned_take_bit_eq)
  then show ?thesis using take_bit_nat_less_exp[of 4 "unat c"] by simp
qed

lemma hexChars_eval: "hexChars = [48, 49, 50, 51, 52, 53, 54, 55, 56, 57, 97, 98, 99, 100, 101, 102]"
  by (simp add: hexChars_def text_bytes_def)

lemma DecodeHexChar_eval:
  "DecodeHexChar c = (if 48 \<le> c \<and> c \<le> 57 then Inr (c - 48) else if 65 \<le> c \<and> c \<le> 70 then Inr (c - 65 + 10)
     else if 97 \<le> c \<and> c \<le> 102 then Inr (c - 97 + 10) else Inl (RuntimeError ''Could not decode from hex''))"
  by (simp add: DecodeHexChar_def)

lemma hexChars_decode:
  assumes "n < 16"
  shows "DecodeHexChar (hexChars ! n) = Inr (of_nat n)"
proof -
  have "[0..<16] = [0, 1, 2, 3, 4, 5, 6, 7, 8, 9, 10, 11, 12, 13, 14, 15 :: nat]" by (simp add: upt_rec)
  then have "list_all (\<lambda>n. DecodeHexChar (hexChars ! n) = Inr (of_nat n)) [0..<16]"
    by (simp add: hexChars_eval DecodeHexChar_eval)
  then show ?thesis using assms by (simp add: list_all_iff)
qed

lemma mask_bits:
  "bit (0x0F :: byte) n = (n = 0 \<or> n = 1 \<or> n = 2 \<or> n = 3)" "bit (0xF0 :: byte) n = (n = 4 \<or> n = 5 \<or> n = 6 \<or> n = 7)"
  "bit (0x33 :: byte) n = (n = 0 \<or> n = 1 \<or> n = 4 \<or> n = 5)" "bit (0xCC :: byte) n = (n = 2 \<or> n = 3 \<or> n = 6 \<or> n = 7)"
  "bit (0x55 :: byte) n = (n = 0 \<or> n = 2 \<or> n = 4 \<or> n = 6)" "bit (0xAA :: byte) n = (n = 1 \<or> n = 3 \<or> n = 5 \<or> n = 7)"
  by (auto simp: bit_numeral_rec bit_1_iff split: nat.split)

lemmas mask_simps = bit_and_iff bit_or_iff bit_push_bit_iff bit_drop_bit_eq mask_bits comp_apply

lemma byte_index: "n < 8 \<Longrightarrow> n = 0 \<or> n = 1 \<or> n = 2 \<or> n = 3 \<or> n = 4 \<or> n = 5 \<or> n = 6 \<or> n = (7 :: nat)"
  by linarith

lemma nibbles: "push_bit 4 (drop_bit 4 c AND 0xF) OR (c AND 0xF) = (c :: byte)"
proof (rule bit_word_eqI)
  fix n assume "n < LENGTH(8)"
  then have "n < 8" by simp
  then show "bit (push_bit 4 (drop_bit 4 c AND 0xF) OR (c AND 0xF)) n = bit c n"
    unfolding mask_simps using byte_index[OF \<open>n < 8\<close>] by (elim disjE) simp_all
qed

lemma Reverse_bits:
  assumes "i < 8"
  shows "bit (Reverse c) i = bit c (7 - i)"
proof -
  have "bit (Reverse c) k = bit c (7 - k)" if "k = 0 \<or> k = 1 \<or> k = 2 \<or> k = 3 \<or> k = 4 \<or> k = 5 \<or> k = 6 \<or> k = 7" for k
    using that unfolding Reverse_def Let_def mask_simps by (elim disjE) simp_all
  then show ?thesis using byte_index[OF assms] by blast
qed

lemma Reverse_Reverse: "Reverse (Reverse c) = c"
  by (rule bit_word_eqI) (simp add: Reverse_bits)

text \<open>The bits of a byte, the highest first.\<close>

definition byte_bits :: "byte \<Rightarrow> bool list" where
  "byte_bits c = map (bit c) [7, 6, 5, 4, 3, 2, 1, 0]"

lemma bin_digits_bits: "bin_digits c = map (\<lambda>b. of_char (if b then CHR ''1'' else CHR ''0'')) (byte_bits c)"
proof -
  have single: "c AND push_bit k 1 \<noteq> 0 \<longleftrightarrow> bit c k" if "k < 8" for k
    using that bit_iff_and_push_bit_not_eq_0[of c k] by simp
  show ?thesis
    using single[of 7] single[of 6] single[of 5] single[of 4] single[of 3] single[of 2] single[of 1] single[of 0]
    by (simp add: bin_digits_def byte_bits_def push_bit_eq_mult)
qed

lemma byte_bits_Reverse: "byte_bits (Reverse c) = rev (byte_bits c)"
  by (simp add: byte_bits_def Reverse_bits)

subsection \<open>Base 64\<close>

text \<open>The six bits of a sextet, the highest first.\<close>

definition six_bits :: "byte \<Rightarrow> bool list" where
  "six_bits v = map (bit v) [5, 4, 3, 2, 1, 0]"

definition b64_temp :: "byte \<Rightarrow> byte \<Rightarrow> byte \<Rightarrow> u32" where
  "b64_temp a b c = push_bit 16 (ucast a) + push_bit 8 (ucast b) + ucast c"

lemma bit_b64_temp:
  "bit (b64_temp a b c) i = (if i < 8 then bit c i else if i < 16 then bit b (i - 8) else i < 24 \<and> bit a (i - 16))"
proof -
  have 1: "push_bit 16 (ucast a :: u32) + push_bit 8 (ucast b) = push_bit 16 (ucast a) OR push_bit 8 (ucast b)"
    by (rule disjunctive_add) (auto simp: bit_simps dest!: bit_imp_le_length)
  have 2: "(push_bit 16 (ucast a :: u32) OR push_bit 8 (ucast b)) + ucast c = (push_bit 16 (ucast a) OR push_bit 8 (ucast b)) OR ucast c"
    by (rule disjunctive_add) (auto simp: bit_simps dest!: bit_imp_le_length)
  show ?thesis
    unfolding b64_temp_def 1 2 by (auto simp: bit_simps dest: bit_imp_le_length)
qed

definition sextet :: "nat \<Rightarrow> u32 \<Rightarrow> byte" where
  "sextet k temp = ucast (drop_bit k temp AND 63)"

lemma bit_sextet: "bit (sextet k temp) i \<longleftrightarrow> i < 6 \<and> bit temp (k + i)"
proof -
  have "bit (63 :: u32) i \<longleftrightarrow> i < 6" for i
  proof -
    have "bit (mask 6 :: u32) i \<longleftrightarrow> i < 6" by (auto simp: bit_mask_iff)
    then show ?thesis by (simp add: mask_eq_exp_minus_1)
  qed
  then have "bit (sextet k temp) i \<longleftrightarrow> i < 8 \<and> bit temp (k + i) \<and> i < 6"
    unfolding sextet_def by (simp add: bit_unsigned_iff bit_and_iff bit_drop_bit_eq)
  then show ?thesis by auto
qed

lemma six_bits_sextet: "six_bits (sextet k temp) = map (bit temp) [k + 5, k + 4, k + 3, k + 2, k + 1, k]"
  by (simp add: six_bits_def bit_sextet)

lemma unat_sextet: "unat (sextet k temp) < 64"
proof -
  have "take_bit 6 (sextet k temp) = sextet k temp" by (rule bit_word_eqI) (auto simp: bit_take_bit_iff bit_sextet)
  then have "unat (sextet k temp) = take_bit 6 (unat (sextet k temp))" by (metis unsigned_take_bit_eq)
  then show ?thesis using take_bit_nat_less_exp[of 6 "unat (sextet k temp)"] by simp
qed

definition b64_char :: "nat \<Rightarrow> u32 \<Rightarrow> byte" where
  "b64_char k temp = base64chars ! unat (sextet k temp)"

text \<open>The text without its padding, in groups of three bytes.\<close>

fun b64_text :: "byte list \<Rightarrow> byte list" where
  "b64_text [] = []"
| "b64_text [a] = map (\<lambda>k. b64_char k (b64_temp a 0 0)) [18, 12]"
| "b64_text [a, b] = map (\<lambda>k. b64_char k (b64_temp a b 0)) [18, 12, 6]"
| "b64_text (a # b # c # cs) = map (\<lambda>k. b64_char k (b64_temp a b c)) [18, 12, 6, 0] @ b64_text cs"

lemma b64_chars:
  "base64chars ! unat (ucast (drop_bit 18 t AND 63) :: byte) = b64_char 18 t"
  "base64chars ! unat (ucast (drop_bit 12 t AND 63) :: byte) = b64_char 12 t"
  "base64chars ! unat (ucast (drop_bit 6 t AND 63) :: byte) = b64_char 6 t"
  "base64chars ! unat (ucast (t AND 63) :: byte) = b64_char 0 t"
  by (simp_all add: b64_char_def sextet_def)

lemma drop_ConsD:
  assumes "drop x xs = a # as"
  shows "x < length xs" "xs ! x = a" "drop (x + 1) xs = as"
proof -
  show x: "x < length xs" using assms by (metis drop_eq_Nil leI list.distinct(1))
  show "xs ! x = a" "drop (x + 1) xs = as" using Cons_nth_drop_Suc[OF x] assms by simp_all
qed

lemma drop_NilD: "drop x xs = [] \<Longrightarrow> \<not> x < length xs"
  by simp

lemma b64_loop_emits: "emits (b64_loop str x) (b64_text (drop x str))"
proof (induction str x rule: b64_loop.induct)
  case (1 str x)
  note run = b64_loop.simps[of str x] if_True Let_def
  show ?case
  proof (cases "drop x str" rule: b64_text.cases)
    case 1
    have "emits (b64_loop str x) []" unfolding run drop_NilD[OF 1, THEN Eq_FalseI] if_False by (rule emits_ret)
    then show ?thesis by (simp add: 1)
  next
    case (2 a)
    note a = drop_ConsD[OF 2]
    have IH: "emits (b64_loop str (x + 3)) (b64_text (drop (x + 3) str))" by (rule "1.IH") (use a(1) in simp_all)
    have n: "drop (x + 3) str = []" "(x + 1 < length str) = False" "(x + 2 < length str) = False"
      using a(3) by (auto simp: drop_eq_Nil)
    have t: "push_bit 16 (ucast a) = b64_temp a 0 0" by (simp add: b64_temp_def)
    have "emits (b64_loop str x) ([b64_char 18 (b64_temp a 0 0)] @ [b64_char 12 (b64_temp a 0 0)] @ [] @ [] @ b64_text (drop (x + 3) str))"
      unfolding run eqTrueI[OF a(1)] n(2,3) if_False a(2) t b64_chars[of "b64_temp a 0 0"]
      by (intro emits_then emits_put emits_ret IH)
    then show ?thesis by (simp add: 2 n(1))
  next
    case (3 a b)
    note a = drop_ConsD[OF 3] note b = drop_ConsD[OF a(3)]
    have IH: "emits (b64_loop str (x + 3)) (b64_text (drop (x + 3) str))" by (rule "1.IH") (use a(1) in simp_all)
    have n: "drop (x + 3) str = []" "(x + 2 < length str) = False"
      using b(3) by (auto simp: drop_eq_Nil)
    have t: "push_bit 16 (ucast a) + push_bit 8 (ucast b) = b64_temp a b 0" by (simp add: b64_temp_def)
    have "emits (b64_loop str x) ([b64_char 18 (b64_temp a b 0)] @ [b64_char 12 (b64_temp a b 0)] @ [b64_char 6 (b64_temp a b 0)] @ [] @ b64_text (drop (x + 3) str))"
      unfolding run eqTrueI[OF a(1)] eqTrueI[OF b(1)] n(2) if_False a(2) b(2) t b64_chars[of "b64_temp a b 0"]
      by (intro emits_then emits_put emits_ret IH)
    then show ?thesis by (simp add: 3 n(1))
  next
    case (4 a b c cs)
    note a = drop_ConsD[OF 4] note b = drop_ConsD[OF a(3)] note c = drop_ConsD[OF b(3), unfolded add.assoc one_add_one]
    have IH: "emits (b64_loop str (x + 3)) (b64_text (drop (x + 3) str))" by (rule "1.IH") (use a(1) in simp_all)
    have n: "drop (x + 3) str = cs" using c(3) by (simp add: add.assoc)
    have t: "push_bit 16 (ucast a) + push_bit 8 (ucast b) + ucast c = b64_temp a b c" by (simp add: b64_temp_def)
    have "emits (b64_loop str x) ([b64_char 18 (b64_temp a b c)] @ [b64_char 12 (b64_temp a b c)] @ [b64_char 6 (b64_temp a b c)] @ [b64_char 0 (b64_temp a b c)] @ b64_text (drop (x + 3) str))"
      unfolding run eqTrueI[OF a(1)] eqTrueI[OF b(1)] eqTrueI[OF c(1)] a(2) b(2) c(2) t b64_chars[of "b64_temp a b c"]
      by (intro emits_then emits_put IH)
    then show ?thesis by (simp add: 4 n)
  qed
qed

lemma base64chars_decode: "map (\<lambda>c. base64decode ! unat c) (take 64 base64chars) = map of_nat [0..<64]"
  by code_simp

lemma base64chars_pad: "base64pad \<notin> set (take 64 base64chars)" "length base64chars = 65"
  by (simp_all add: base64chars_def text_bytes_def base64pad_def)

lemma b64_char_decode: "base64decode ! unat (b64_char k t) = sextet k t"
proof -
  have n: "unat (sextet k t) < 64" by (rule unat_sextet)
  have "map (\<lambda>c. base64decode ! unat c) (take 64 base64chars) ! unat (sextet k t) = sextet k t"
    unfolding base64chars_decode using n by simp
  then show ?thesis using n by (simp add: b64_char_def base64chars_pad(2))
qed

lemma b64_char_member: "b64_char k t \<in> set (take 64 base64chars)"
proof -
  have "b64_char k t = take 64 base64chars ! unat (sextet k t)" by (simp add: b64_char_def unat_sextet)
  also have "\<dots> \<in> set (take 64 base64chars)" by (rule nth_mem) (simp add: base64chars_pad(2) unat_sextet)
  finally show ?thesis .
qed

lemma b64_text_member: "c \<in> set (b64_text bs) \<Longrightarrow> c \<in> set (take 64 base64chars)"
  by (induction bs rule: b64_text.induct) (auto simp: b64_char_member)

text \<open>What a reader of the text takes from it: the six bits of each character up to the padding.\<close>

definition b64_bits :: "byte list \<Rightarrow> bool list" where
  "b64_bits e = concat (map (\<lambda>c. six_bits (base64decode ! unat c)) (filter (\<lambda>c. c \<noteq> base64pad) e))"

lemma b64_bits_chars:
  "set e \<subseteq> set (take 64 base64chars) \<Longrightarrow> b64_bits (e @ replicate n base64pad) = concat (map (\<lambda>c. six_bits (base64decode ! unat c)) e)"
proof -
  assume "set e \<subseteq> set (take 64 base64chars)"
  then have "filter (\<lambda>c. c \<noteq> base64pad) e = e" using base64chars_pad(1) by (auto simp: filter_id_conv)
  then show ?thesis by (simp add: b64_bits_def)
qed

lemma b64_group_bits:
  "concat (map (\<lambda>c. six_bits (base64decode ! unat c)) (map (\<lambda>k. b64_char k (b64_temp a b c)) [18, 12, 6, 0])) =
   byte_bits a @ byte_bits b @ byte_bits c"
  by (simp add: b64_char_decode six_bits_sextet bit_b64_temp byte_bits_def numeral_2_eq_2)

lemma b64_text_bits:
  "take (8 * length bs) (concat (map (\<lambda>c. six_bits (base64decode ! unat c)) (b64_text bs))) = concat (map byte_bits bs)"
proof (induction bs rule: b64_text.induct)
  case (4 a b c cs)
  have "length (byte_bits v) = 8" for v by (simp add: byte_bits_def)
  then show ?case
    unfolding b64_text.simps map_append concat_append b64_group_bits using "4.IH" by simp
qed (simp_all add: b64_char_decode six_bits_sextet bit_b64_temp byte_bits_def)

lemma length_b64_text: "length (b64_text bs) + (if length bs mod 3 = 0 then 0 else 3 - length bs mod 3) = 4 * ((length bs + 2) div 3)"
proof (induction bs rule: b64_text.induct)
  case (4 a b c cs)
  have "(n + 3 + 2) div 3 = (n + 2) div 3 + 1" "(n + 3) mod 3 = n mod 3" for n :: nat
    by (presburger, simp)
  note n = this[of "length cs"]
  have len: "length (a # b # c # cs) = length cs + 3" by simp
  have "length (b64_text (a # b # c # cs)) = 4 + length (b64_text cs)" by simp
  then show ?case unfolding len n using "4.IH" by simp
qed simp_all

lemma b64_size: "(if n mod 3 = 0 then 4 * n div 3 else 4 * (n + (3 - n mod 3)) div 3) = 4 * ((n + 2) div 3)" for n :: nat
proof -
  obtain k r where n: "n = 3 * k + r" "r < 3" by (metis mult_div_mod_eq mod_less_divisor zero_less_numeral)
  then have m: "n mod 3 = r" "n div 3 = k" by simp_all
  have "r = 0 \<or> r = 1 \<or> r = 2" using n(2) by linarith
  then show ?thesis unfolding m(1) by (elim disjE) (simp_all add: n(1) algebra_simps)
qed

lemma ToBase64_text:
  "ToBase64 str = Inr (b64_text str @ replicate (if length str mod 3 = 0 then 0 else 3 - length str mod 3) base64pad)"
proof (cases "str = []")
  case True
  then show ?thesis by (simp add: ToBase64_def)
next
  case False
  let ?N = "length str"
  let ?p = "if ?N mod 3 = 0 then 0 else 3 - ?N mod 3"
  have "emits (if 0 < ?N mod 3 then out_puts (replicate (3 - ?N mod 3) base64pad) else pret ()) (replicate ?p base64pad)"
  proof (cases "?N mod 3 = 0")
    case True
    show ?thesis unfolding True by (simp only: less_irrefl if_False if_True replicate_0 emits_ret refl)
  next
    case False
    then have "0 < ?N mod 3" by simp
    then show ?thesis by (simp only: False if_True if_False emits_puts)
  qed
  then have e: "emits (pthen (b64_loop str 0) (if 0 < ?N mod 3 then out_puts (replicate (3 - ?N mod 3) base64pad) else pret ()))
      (b64_text str @ replicate ?p base64pad)"
    using emits_then[OF b64_loop_emits[of str 0, unfolded drop_0]] by blast
  have "(if ?N mod 3 = 0 then 4 * ?N div 3 else 4 * (?N + (3 - ?N mod 3)) div 3) = length (b64_text str @ replicate ?p base64pad)"
    unfolding b64_size using length_b64_text[of str] by simp
  from out_run_emits[OF e this] False show ?thesis unfolding ToBase64_def Let_def by simp
qed

text \<open>
  \<^verbatim>\<open>ToBase64\<close> of any array returns, without an index outside of its result, a text of the computed size over the 64
  characters and the pad, and the code's decoding table reads from it, up to the padding, the bits of the array.
\<close>

lemma base64_roundtrip:
  "\<exists>e. ToBase64 str = Inr e \<and> length e = 4 * ((length str + 2) div 3) \<and> set e \<subseteq> set base64chars \<and>
     take (8 * length str) (b64_bits e) = concat (map byte_bits str)"
proof -
  let ?p = "if length str mod 3 = 0 then 0 else 3 - length str mod 3"
  have t: "set (b64_text str) \<subseteq> set (take 64 base64chars)" using b64_text_member by blast
  moreover have "base64pad \<in> set base64chars" by (simp add: base64chars_def text_bytes_def base64pad_def)
  ultimately have "set (b64_text str @ replicate ?p base64pad) \<subseteq> set base64chars"
    using set_take_subset[of 64 base64chars] by auto
  moreover have "length (b64_text str @ replicate ?p base64pad) = 4 * ((length str + 2) div 3)"
    using length_b64_text[of str] by simp
  ultimately show ?thesis
    using b64_bits_chars[OF t] b64_text_bits[of str] ToBase64_text[of str] by auto
qed


text \<open>The inverse the code does not have: digits read two at a time by \<^verbatim>\<open>DecodeHexChar\<close>.\<close>

fun from_hex :: "byte list \<Rightarrow> exn + byte list" where
  "from_hex [] = Inr []"
| "from_hex [c] = Inl (RuntimeError ''Could not decode from hex'')"
| "from_hex (h # l # cs) =
     (case DecodeHexChar h of Inl e \<Rightarrow> Inl e | Inr hv \<Rightarrow>
       (case DecodeHexChar l of Inl e \<Rightarrow> Inl e | Inr lv \<Rightarrow>
         (case from_hex cs of Inl e \<Rightarrow> Inl e | Inr bs \<Rightarrow> Inr ((push_bit 4 hv OR lv) # bs))))"

lemma nibble_high_less: "unat (drop_bit 4 c AND 0xF :: byte) < 16"
  by (rule nibble_less)

lemma from_hex_pairs: "from_hex (concat (map hex_pair bs)) = Inr bs"
proof (induction bs)
  case (Cons c bs)
  have "DecodeHexChar (hexChars ! unat (c AND 0xF)) = Inr (c AND 0xF)" for c :: byte
    using hexChars_decode[OF nibble_less[of c]] by simp
  then show ?case using Cons.IH nibbles[of c] by (simp add: hex_pair_def)
qed simp

lemma length_concat_pairs: "(\<And>c. length (f c) = n) \<Longrightarrow> length (concat (map f bs)) = n * length bs"
  by (induction bs) simp_all

lemma run_each:
  assumes "\<And>c. length (f c) = n"
  shows "out_run (n * length str) (each_byte f str) = Inr (concat (map f str))"
  by (rule out_run_emits[OF emits_each]) (simp add: length_concat_pairs[OF assms])

lemma ToHex_text: "ToHex str = Inr (concat (map hex_pair str))"
  unfolding ToHex_def by (rule run_each) (simp add: hex_pair_def)

lemma ToHexReverse_text: "ToHexReverse str = Inr (concat (map hex_pair (map Reverse str)))"
proof -
  have "out_run (2 * length str) (each_byte (\<lambda>c. hex_pair (Reverse c)) str) = Inr (concat (map (\<lambda>c. hex_pair (Reverse c)) str))"
    by (rule run_each) (simp add: hex_pair_def)
  then show ?thesis by (simp add: ToHexReverse_def comp_def)
qed

text \<open>
  \<^verbatim>\<open>ToHex\<close> and \<^verbatim>\<open>ToHexReverse\<close> of any array fill their result exactly, two digits to a byte, and reading the digits back
  with \<^verbatim>\<open>DecodeHexChar\<close> gives the bytes, in the second case after \<^verbatim>\<open>Reverse\<close> has undone itself.
\<close>

lemma hex_roundtrip:
  "\<exists>e r. ToHex str = Inr e \<and> ToHexReverse str = Inr r \<and> length e = 2 * length str \<and> length r = 2 * length str \<and>
     from_hex e = Inr str \<and> map_sum id (map Reverse) (from_hex r) = Inr str"
proof -
  have len: "length (concat (map hex_pair bs)) = 2 * length bs" for bs
    by (rule length_concat_pairs) (simp add: hex_pair_def)
  have "map_sum id (map Reverse) (from_hex (concat (map hex_pair (map Reverse str)))) = Inr str"
    unfolding from_hex_pairs by (simp add: comp_def Reverse_Reverse)
  then show ?thesis
    using ToHex_text ToHexReverse_text len[of str] len[of "map Reverse str", unfolded length_map] from_hex_pairs[of str] by blast
qed

text \<open>The bits a text of binary digits stands for.\<close>

definition digit_bits :: "byte list \<Rightarrow> bool list" where
  "digit_bits t = map (\<lambda>d. d = of_char (CHR ''1'')) t"

lemma digit_bits_bin: "digit_bits (concat (map bin_digits bs)) = concat (map byte_bits bs)"
proof (induction bs)
  case (Cons c bs)
  have "digit_bits (bin_digits c) = byte_bits c"
    unfolding digit_bits_def bin_digits_bits by (simp add: comp_def byte_bits_def)
  then show ?case using Cons.IH by (simp add: digit_bits_def)
qed (simp add: digit_bits_def)

theorem binary_texts:
  "\<exists>t r. ToBin str = Inr t \<and> ToBinReverse str = Inr r \<and> length t = 8 * length str \<and> length r = 8 * length str \<and>
     digit_bits t = concat (map byte_bits str) \<and> digit_bits r = concat (map (\<lambda>c. rev (byte_bits c)) str)"
proof -
  have len: "length (bin_digits c) = 8" for c by (simp add: bin_digits_def)
  have t: "ToBin str = Inr (concat (map bin_digits str))"
    unfolding ToBin_def mult.commute[of _ 8] by (rule run_each[OF len])
  have r: "ToBinReverse str = Inr (concat (map bin_digits (map Reverse str)))"
    unfolding ToBinReverse_def mult.commute[of _ 8] using run_each[of "\<lambda>c. bin_digits (Reverse c)" 8 str] len by (simp add: comp_def)
  show ?thesis
    unfolding t r using length_concat_pairs[of bin_digits, OF len]
    by (simp only: sum.inject ex_simps simp_thms digit_bits_bin length_map) (simp add: comp_def byte_bits_Reverse)
qed


end
