(* ===== verification/Platform.thy ===== *)
theory Platform
  imports Prelude
begin

text \<open>
  \<^verbatim>\<open>fetch_teams/ledger/experimental/vectorise/platform.hpp\<close>: logarithms, powers of two and rounded divisions on
  machine integers. The compiler's count of leading or trailing zeros is undefined at zero.
\<close>

subsection \<open>Functions\<close>

definition builtin_clz :: "'a::len word \<Rightarrow> exn + nat" where
  "builtin_clz x = (if x = 0 then Inl Undefined else Inr (length (takeWhile (\<lambda>i. \<not> bit x i) (rev [0..<LENGTH('a)]))))"

definition builtin_ctz :: "'a::len word \<Rightarrow> exn + nat" where
  "builtin_ctz x = (if x = 0 then Inl Undefined else Inr (length (takeWhile (\<lambda>i. \<not> bit x i) [0..<LENGTH('a)])))"

definition CountLeadingZeroes64 :: "u64 \<Rightarrow> exn + u64" where
  "CountLeadingZeroes64 x = ebind (builtin_clz x) (\<lambda>n. Inr (of_nat n))"

definition CountTrailingZeroes64 :: "u64 \<Rightarrow> exn + u64" where
  "CountTrailingZeroes64 x = ebind (builtin_ctz x) (\<lambda>n. Inr (of_nat n))"

text \<open>On a little-endian machine: the bytes in reverse.\<close>

definition ConvertToBigEndian :: "u64 \<Rightarrow> u64" where
  "ConvertToBigEndian x = foldr (OR) (map (\<lambda>i. push_bit (8 * (7 - i)) (take_bit 8 (drop_bit (8 * i) x))) [0..<8]) 0"

text \<open>The loop \<^verbatim>\<open>while (x >>= 1) count++\<close> ends with \<open>x = 0\<close>.\<close>

function log2_loop :: "u64 \<Rightarrow> u64 \<Rightarrow> u64 \<times> u64" where
  "log2_loop x n = (let x' = drop_bit 1 x in if x' \<noteq> 0 then log2_loop x' (n + 1) else (x', n))"
  by pat_completeness auto

lemma unat_half: "unat (drop_bit 1 (x :: u64)) = unat x div 2"
  unfolding unat_drop_bit_eq by (simp add: drop_bit_Suc)

lemma half_less: "y = drop_bit 1 (x :: u64) \<Longrightarrow> y \<noteq> 0 \<Longrightarrow> unat y < unat x"
proof -
  assume y: "y = drop_bit 1 x" "y \<noteq> 0"
  have "unat y \<noteq> 0" using y(2) by (simp add: unat_eq_zero)
  moreover have "unat y = unat x div 2" unfolding y(1) by (rule unat_half)
  ultimately show ?thesis by simp
qed

termination log2_loop
proof (relation "measure (\<lambda>(x, _). unat x)", goal_cases)
  case (2 x n y)
  then show ?case using half_less[of y x] by simp
qed simp

declare log2_loop.simps [simp del]

definition Log2Ceil :: "u64 \<Rightarrow> u64" where
  "Log2Ceil x = (let (x', n) = log2_loop x 0 in if push_bit (unat n) 1 = x' then n else n + 1)"

definition ToLog2_32 :: "u32 \<Rightarrow> exn + u32" where
  "ToLog2_32 v = ebind (builtin_clz v) (\<lambda>n. Inr (32 - (of_nat n + 1)))"

definition ToLog2_64 :: "u64 \<Rightarrow> exn + u64" where
  "ToLog2_64 v = ebind (builtin_clz v) (\<lambda>n. Inr (64 - (of_nat n + 1)))"

definition IsLog2 :: "u64 \<Rightarrow> bool" where
  "IsLog2 v \<longleftrightarrow> v \<noteq> 0 \<and> v AND (v - 1) = 0"

text \<open>For an unsigned type; a division by zero is undefined.\<close>

definition DivideCeil :: "'a::len word \<Rightarrow> 'a word \<Rightarrow> exn + 'a word" where
  "DivideCeil x y = (if y = 0 then Inl Undefined
     else let ret = x div y in Inr (if y * ret < x then ret + 1 else ret))"

definition DivCeil :: "'a::len word \<Rightarrow> 'a word \<Rightarrow> 'a word" where
  "DivCeil divisor v = (v + (divisor - 1)) div divisor"

subsection \<open>What the compiler was asked for\<close>

text \<open>The macros that the compiler defines for the instructions it may use.\<close>

record cpu_features =
  def_AVX :: bool
  def_AVX2 :: bool
  def_SSE :: bool
  def_SSE2 :: bool
  def_SSE3 :: bool
  def_SSE4_1 :: bool
  def_SSE4_2 :: bool
  def_SSE42 :: bool

definition has_avx :: "cpu_features \<Rightarrow> bool" where "has_avx f = def_AVX f"
definition has_avx2 :: "cpu_features \<Rightarrow> bool" where "has_avx2 f = def_AVX2 f"
definition has_sse :: "cpu_features \<Rightarrow> bool" where "has_sse f = def_SSE f"
definition has_sse2 :: "cpu_features \<Rightarrow> bool" where "has_sse2 f = def_SSE2 f"
definition has_sse3 :: "cpu_features \<Rightarrow> bool" where "has_sse3 f = def_SSE3 f"
definition has_sse41 :: "cpu_features \<Rightarrow> bool" where "has_sse41 f = def_SSE4_1 f"
definition has_sse42 :: "cpu_features \<Rightarrow> bool" where "has_sse42 f = def_SSE4_2 f"

text \<open>\<^verbatim>\<open>VectorRegisterSize\<close>: the general template, and what the specialisations for a type say. These ask for a macro
  \<^verbatim>\<open>__SSE42__\<close>, where \<^verbatim>\<open>has_sse42\<close> asks for \<^verbatim>\<open>__SSE4_2__\<close>.\<close>

datatype register_type = RInt | RDouble | RFloat | ROther

definition register_default :: "cpu_features \<Rightarrow> nat" where
  "register_default f = (if def_AVX f then 256 else if def_SSE f then 128 else 32)"

definition VectorRegisterSize :: "cpu_features \<Rightarrow> register_type \<Rightarrow> nat" where
  "VectorRegisterSize f t =
     (if def_AVX2 f then (if t = RInt then 256 else register_default f)
      else if def_AVX f then (case t of RInt \<Rightarrow> 128 | RDouble \<Rightarrow> 256 | RFloat \<Rightarrow> 256 | ROther \<Rightarrow> register_default f)
      else if def_SSE42 f \<or> def_SSE3 f then (if t = ROther then register_default f else 128)
      else if t = RInt then 4 else register_default f)"

text \<open>The last specialisation counts bytes where the others count bits: without any of the macros an int has 4.\<close>

lemma int_register_in_bytes:
  "\<lbrakk>\<not> def_AVX2 f; \<not> def_AVX f; \<not> def_SSE42 f; \<not> def_SSE3 f\<rbrakk> \<Longrightarrow> VectorRegisterSize f RInt * 8 = 32"
  by (simp add: VectorRegisterSize_def)

subsection \<open>Logarithms\<close>

lemma takeWhile_rev_upt:
  assumes "k < n" "P k" "\<forall>i. k < i \<and> i < n \<longrightarrow> \<not> P i"
  shows "length (takeWhile (\<lambda>i. \<not> P i) (rev [0..<n])) = n - Suc k"
  using assms
proof (induction n)
  case (Suc n)
  show ?case
  proof (cases "k = n")
    case False
    then have "\<not> P n" using Suc.prems by simp
    then show ?thesis using Suc False by simp
  qed (use Suc.prems in simp)
qed simp

text \<open>The position of the highest bit.\<close>

lemma highest_bit:
  fixes v :: "'a::len word"
  assumes "v \<noteq> 0"
  obtains k where "k < LENGTH('a)" "bit v k" "\<forall>i > k. \<not> bit v i" "2 ^ k \<le> unat v" "unat v < 2 ^ Suc k"
proof -
  define S where "S = {i. bit v i}"
  have fin: "finite S" by (rule finite_subset[of _ "{..<LENGTH('a)}"]) (auto simp: S_def dest: bit_imp_le_length)
  have "S \<noteq> {}" using assms bit_word_eqI[of v 0] by (auto simp: S_def)
  define k where "k = Max S"
  have k: "bit v k" using Max_in[OF fin \<open>S \<noteq> {}\<close>] by (simp add: k_def S_def)
  have above: "\<not> bit v i" if "i > k" for i
  proof
    assume "bit v i"
    then have "i \<le> k" using Max_ge[OF fin, of i] by (simp add: k_def S_def)
    then show False using that by simp
  qed
  have len: "k < LENGTH('a)" using k by (rule bit_imp_le_length)
  have "take_bit (Suc k) v = v"
    by (rule bit_word_eqI) (use above in \<open>metis bit_take_bit_iff not_less_eq\<close>)
  then have "take_bit (Suc k) (unat v) = unat v" by (metis unsigned_take_bit_eq)
  then have "unat v < 2 ^ Suc k" by (metis take_bit_nat_less_exp)
  moreover have "bit (unat v) k" using k by (simp add: bit_unsigned_iff)
  then have "odd (unat v div 2 ^ k)" by (simp add: bit_iff_odd)
  then have "2 ^ k \<le> unat v" by (metis div_less even_zero not_less)
  ultimately show thesis using that k above len by blast
qed

lemma clz_highest:
  fixes v :: "'a::len word"
  assumes "bit v k" "\<forall>i > k. \<not> bit v i"
  shows "builtin_clz v = Inr (LENGTH('a) - Suc k)"
proof -
  have "v \<noteq> 0" using assms(1) by auto
  moreover have "k < LENGTH('a)" using assms(1) by (rule bit_imp_le_length)
  ultimately show ?thesis
    using takeWhile_rev_upt[of k "LENGTH('a)" "bit v"] assms by (simp add: builtin_clz_def)
qed

lemma log2_loop_end:
  assumes "2 ^ k \<le> unat x" "unat x < 2 ^ Suc k"
  shows "log2_loop x c = (0, c + of_nat k)"
  using assms
proof (induction k arbitrary: x c)
  case 0
  then have "unat (drop_bit 1 x) = 0" unfolding unat_half by simp
  then have "drop_bit 1 x = 0" by (simp only: unat_eq_zero)
  then show ?case by (subst log2_loop.simps) (simp only: Let_def, simp)
next
  case (Suc k)
  define y where "y = drop_bit 1 x"
  have "unat y = unat x div 2" unfolding y_def by (rule unat_half)
  then have y: "2 ^ k \<le> unat y" "unat y < 2 ^ Suc k" using Suc.prems by simp_all
  then have "y \<noteq> 0" by (metis not_le unat_0 zero_less_numeral zero_less_power)
  then have "log2_loop x c = log2_loop y (c + 1)" by (subst log2_loop.simps) (simp only: y_def[symmetric] Let_def, simp)
  then show ?case using Suc.IH[OF y, of "c + 1"] by (simp add: ac_simps)
qed

subsection \<open>Powers of two\<close>

lemma and_pred_nat: "0 < n \<Longrightarrow> ((n :: nat) AND (n - 1) = 0) = (\<exists>k. n = 2 ^ k)"
proof (induction n rule: less_induct)
  case (less n)
  show ?case
  proof (cases "odd n")
    case True
    then obtain u where u: "n = 2 * u + 1" by (auto elim: oddE)
    have "n AND (n - 1) = 2 * u" by (subst and_rec) (simp add: u)
    moreover have "(\<exists>k. n = 2 ^ k) \<longleftrightarrow> n = 1"
    proof
      assume "\<exists>k. n = 2 ^ k"
      then obtain k where "n = 2 ^ k" by blast
      then show "n = 1" using True by (cases k) simp_all
    next
      assume "n = 1"
      then show "\<exists>k. n = 2 ^ k" by (intro exI[of _ 0]) simp
    qed
    ultimately show ?thesis by (simp add: u)
  next
    case False
    then obtain u where u: "n = 2 * u" by (auto elim: evenE)
    then have "0 < u" "u < n" using less.prems by simp_all
    have "(n - 1) div 2 = u - 1" "n div 2 = u" using \<open>0 < u\<close> u by simp_all
    then have "n AND (n - 1) = 2 * (u AND (u - 1))" using False by (subst and_rec) simp
    moreover have "(\<exists>k. n = 2 ^ k) \<longleftrightarrow> (\<exists>k. u = 2 ^ k)"
    proof
      assume "\<exists>k. n = 2 ^ k"
      then obtain k where k: "n = 2 ^ k" by blast
      then show "\<exists>k. u = 2 ^ k" using False u by (cases k) auto
    next
      assume "\<exists>k. u = 2 ^ k"
      then obtain k where "u = 2 ^ k" by blast
      then show "\<exists>k. n = 2 ^ k" using u by (intro exI[of _ "Suc k"]) simp
    qed
    ultimately show ?thesis using less.IH[OF \<open>u < n\<close> \<open>0 < u\<close>] by simp
  qed
qed

lemma IsLog2_iff: "IsLog2 v \<longleftrightarrow> (\<exists>k. unat v = 2 ^ k)"
proof (cases "v = 0")
  case False
  then have p: "0 < unat v" by (simp add: unat_gt_0)
  have m: "unat (v - 1) = unat v - 1" using p by (intro unat_minus_one) (use False in simp)
  have "v AND (v - 1) = 0 \<longleftrightarrow> unat v AND (unat v - 1) = 0"
    by (metis m unat_eq_zero unsigned_and_eq)
  then show ?thesis using and_pred_nat[OF p] False by (simp add: IsLog2_def)
qed (simp add: IsLog2_def)

subsection \<open>Properties\<close>

lemma unat_below: "unat (x :: 'a::len word) < 2 ^ LENGTH('a)"
  by (rule unsigned_less)

text \<open>
  For every non-zero 64-bit number: \<^verbatim>\<open>ToLog2\<close> is the exponent of the largest power of two not above it,
  \<^verbatim>\<open>Log2Ceil\<close> is one more, also for a power of two (the comparison after its loop never holds), and
  \<^verbatim>\<open>IsLog2\<close> holds exactly when the number is that power of two.
\<close>

lemma logarithms:
  assumes "v \<noteq> 0"
  shows "\<exists>k < 64. 2 ^ k \<le> unat v \<and> unat v < 2 ^ Suc k \<and> CountLeadingZeroes64 v = Inr (of_nat (63 - k)) \<and>
    ToLog2_64 v = Inr (of_nat k) \<and> Log2Ceil v = of_nat (Suc k) \<and> (IsLog2 v \<longleftrightarrow> unat v = 2 ^ k)"
proof -
  obtain k where k: "k < LENGTH(64)" "bit v k" "\<forall>i > k. \<not> bit v i" "2 ^ k \<le> unat v" "unat v < 2 ^ Suc k"
    by (rule highest_bit[OF assms])
  have clz: "builtin_clz v = Inr (63 - k)" using clz_highest[OF k(2,3)] k(1) by simp
  have "(64 :: u64) - (of_nat (63 - k) + 1) = of_nat k"
    using k(1) by (simp add: of_nat_diff)
  then have log: "ToLog2_64 v = Inr (of_nat k)" by (simp add: ToLog2_64_def clz)
  have "push_bit (unat (of_nat k :: u64)) (1 :: u64) \<noteq> 0"
  proof -
    have "unat (of_nat k :: u64) = k" using k(1) by (simp add: unat_of_nat take_bit_eq_mod)
    moreover have "bit (push_bit k (1 :: u64)) k" using k(1) by (simp add: push_bit_eq_mult bit_exp_iff)
    ultimately show ?thesis by (metis bit_0_eq bot_fun_def bot_bool_def)
  qed
  then have ceil: "Log2Ceil v = of_nat (Suc k)" using log2_loop_end[OF k(4,5), of 0] by (simp add: Log2Ceil_def)
  have "unat v = 2 ^ j \<Longrightarrow> j = k" for j
    using k(4,5) by (metis less_antisym not_less_eq power_strict_increasing_iff one_less_numeral_iff semiring_norm(76) not_less)
  then have "IsLog2 v \<longleftrightarrow> unat v = 2 ^ k" unfolding IsLog2_iff by blast
  then show ?thesis using k clz log ceil by (intro exI[of _ k]) (simp add: CountLeadingZeroes64_def)
qed

lemma logarithms_witness: "ToLog2_64 8 = Inr 3 \<and> Log2Ceil 8 = 4"
proof -
  obtain k where k: "k < 64" "2 ^ k \<le> unat (8 :: u64)" "unat (8 :: u64) < 2 ^ Suc k" "ToLog2_64 8 = Inr (of_nat k)" "Log2Ceil 8 = of_nat (Suc k)"
    using logarithms[of 8] by auto
  have "2 ^ k < (2 :: nat) ^ 4" "(2 :: nat) ^ 3 < 2 ^ Suc k" using k(2,3) by simp_all
  then have "k < 4" "3 < Suc k" by (simp_all only: power_strict_increasing_iff one_less_numeral_iff semiring_norm(76))
  then have "k = 3" by simp
  then show ?thesis using k by simp
qed

text \<open>
  \<^verbatim>\<open>DivideCeil\<close> is the quotient rounded up for every dividend, \<^verbatim>\<open>DivCeil\<close> only when the sum with the divisor
  less one does not overflow; otherwise it divides what is left of the sum.
\<close>

lemma rounded_divisions:
  fixes x y :: "'a::len word"
  assumes "y \<noteq> 0"
  shows "(\<exists>q. DivideCeil x y = Inr q \<and> unat q = (unat x + unat y - 1) div unat y) \<and>
    unat (DivCeil y x) = ((unat x + unat y - 1) mod 2 ^ LENGTH('a)) div unat y"
proof -
  have y: "0 < unat y" using assms by (simp add: unat_gt_0)
  let ?q = "unat x div unat y"
  have mul: "unat (y * (x div y)) = unat y * ?q"
  proof -
    have "unat y * ?q \<le> unat x" by simp
    then have "unat y * ?q < 2 ^ LENGTH('a)" using unat_below[of x] by linarith
    moreover have "?q < 2 ^ LENGTH('a)" using unat_below[of x] div_le_dividend[of "unat x" "unat y"] by linarith
    ultimately show ?thesis by (simp add: unat_word_ariths unat_div)
  qed
  have ceil: "(unat x + unat y - 1) div unat y = (if unat y * ?q < unat x then ?q + 1 else ?q)"
  proof -
    have x: "unat x = unat y * ?q + unat x mod unat y" by simp
    have r: "unat x mod unat y < unat y" using y by simp
    show ?thesis
    proof (cases "unat x mod unat y = 0")
      case True
      then have e: "unat x = unat y * ?q" using x by linarith
      have "unat x + unat y - 1 = unat y - 1 + unat y * ?q" using e y by linarith
      moreover have "(unat y - 1 + unat y * ?q) div unat y = ?q" using y by (subst div_mult_self2) simp_all
      ultimately show ?thesis using e by simp
    next
      case False
      have "unat x + unat y - 1 = unat y * ?q + unat y + (unat x mod unat y - 1)" using x False y by linarith
      then have "unat x + unat y - 1 = unat y * (?q + 1) + (unat x mod unat y - 1)" by simp
      moreover have "(unat y * (?q + 1) + (unat x mod unat y - 1)) div unat y = ?q + 1"
      proof -
        have "unat x mod unat y - 1 < unat y" using r by linarith
        then show ?thesis using y by (subst div_mult_self4) simp_all
      qed
      moreover have "unat y * ?q < unat x" using x False by linarith
      ultimately show ?thesis by simp
    qed
  qed
  have "unat (x div y + 1) = ?q + 1" if "unat y * ?q < unat x"
  proof -
    have "?q < unat x" using that y by (metis le_less_trans mult_le_mono1 nat_mult_1 Suc_leI One_nat_def)
    then have "?q + 1 < 2 ^ LENGTH('a)" using unat_below[of x] by linarith
    moreover have "?q < 2 ^ LENGTH('a)" using calculation by linarith
    ultimately show ?thesis by (simp add: unat_word_ariths unat_div)
  qed
  then have "\<exists>q. DivideCeil x y = Inr q \<and> unat q = (unat x + unat y - 1) div unat y"
    using ceil assms by (simp add: DivideCeil_def word_less_nat_alt mul unat_div Let_def)
  moreover have "unat (x + (y - 1)) = (unat x + unat y - 1) mod 2 ^ LENGTH('a)"
    using unat_minus_one[OF assms] y by (simp add: unat_word_ariths(1))
  then have "unat (DivCeil y x) = ((unat x + unat y - 1) mod 2 ^ LENGTH('a)) div unat y"
    by (simp add: DivCeil_def unat_div)
  ultimately show ?thesis by blast
qed


lemma rounded_divisions_witness:
  "unat (DivCeil 4 (254 :: 8 word)) = 0 \<and> (\<exists>q. DivideCeil (254 :: 8 word) 4 = Inr q \<and> unat q = 64)"
  using rounded_divisions[of "4 :: 8 word" 254] by simp


end
