(* ===== verification/Hashing.thy ===== *)
theory Hashing
  imports Platform CxxStd
begin

text \<open>
  \<^verbatim>\<open>fetch_teams/ledger/experimental/crypto\<close>: the FNV hash (\<^verbatim>\<open>fnv_detail.hpp\<close>, \<^verbatim>\<open>fnv.cpp\<close>), the interface of stream
  hashers (\<^verbatim>\<open>stream_hasher.cpp\<close>, \<^verbatim>\<open>hash.hpp\<close>), SHA-256 over OpenSSL, whose functions are parameters (\<^verbatim>\<open>sha256.cpp\<close>), the
  Merkle tree (\<^verbatim>\<open>merkle_tree.cpp\<close>) and identities (\<^verbatim>\<open>identity.hpp\<close>). A byte array stands for its contents here: the
  operations used are those that \<open>ByteArrays\<close> shows to act on contents alone (copies, comparisons, concatenation).
\<close>

subsection \<open>FNV\<close>

record 'a fnv_config =
  fnv_prime :: 'a
  fnv_offset :: 'a

definition FNVConfig32 :: "u32 fnv_config" where
  "FNVConfig32 = \<lparr>fnv_prime = push_bit 24 1 + push_bit 8 1 + 0x93, fnv_offset = 0x811c9dc5\<rparr>"

definition FNVConfig64 :: "u64 fnv_config" where
  "FNVConfig64 = \<lparr>fnv_prime = push_bit 40 1 + push_bit 8 1 + 0xb3, fnv_offset = 0xcbf29ce484222325\<rparr>"

datatype eFnvAlgorithm = fnv1 | fnv1a | fnv0_deprecated

definition fnv1a_update :: "'a::len word fnv_config \<Rightarrow> byte list \<Rightarrow> 'a word \<Rightarrow> 'a word" where
  "fnv1a_update cfg bs context = foldl (\<lambda>c d. (c XOR ucast d) * fnv_prime cfg) context bs"

definition fnv1_update :: "'a::len word fnv_config \<Rightarrow> byte list \<Rightarrow> 'a word \<Rightarrow> 'a word" where
  "fnv1_update cfg bs context = foldl (\<lambda>c d. (c * fnv_prime cfg) XOR ucast d) context bs"

definition fnv_update :: "eFnvAlgorithm \<Rightarrow> 'a::len word fnv_config \<Rightarrow> byte list \<Rightarrow> 'a word \<Rightarrow> 'a word" where
  "fnv_update a cfg bs context = (case a of fnv1a \<Rightarrow> fnv1a_update cfg bs context | fnv1 \<Rightarrow> fnv1_update cfg bs context
     | fnv0_deprecated \<Rightarrow> fnv1_update cfg bs context)"

definition fnv_reset :: "eFnvAlgorithm \<Rightarrow> 'a::len word fnv_config \<Rightarrow> 'a word" where
  "fnv_reset a cfg = (case a of fnv0_deprecated \<Rightarrow> 0 | _ \<Rightarrow> fnv_offset cfg)"

subsection \<open>Stream hashers\<close>

text \<open>The virtual functions of a \<^verbatim>\<open>StreamHasher\<close>; \<open>hs_Final\<close> takes the buffer and returns it filled.\<close>

record 's hasher =
  hs_Reset :: "('s, unit) prog"
  hs_Update :: "byte list \<Rightarrow> ('s, bool) prog"
  hs_Final :: "byte list \<Rightarrow> ('s, byte list) prog"
  hs_GetSizeInBytes :: nat

definition StreamHasher_Final :: "'s hasher \<Rightarrow> ('s, byte list) prog" where
  "StreamHasher_Final h = hs_Final h (replicate (hs_GetSizeInBytes h) 0)"

text \<open>The bytes of a number in memory on a little-endian machine, and the number of the bytes.\<close>

definition pod_bytes :: "u64 \<Rightarrow> byte list" where
  "pod_bytes x = map (\<lambda>i. ucast (drop_bit (8 * i) x)) [0..<8]"

definition bytes_pod :: "byte list \<Rightarrow> u64" where
  "bytes_pod bs = foldr (\<lambda>b v. push_bit 8 v OR ucast b) bs 0"

definition StreamHasher_Final_pod :: "'s hasher \<Rightarrow> ('s, u64) prog" where
  "StreamHasher_Final_pod h = pbind (hs_Final h (replicate 8 0)) (\<lambda>bs. pret (bytes_pod bs))"

definition StreamHasher_Update_string :: "'s hasher \<Rightarrow> string \<Rightarrow> ('s, bool) prog" where
  "StreamHasher_Update_string h s = hs_Update h (map of_char s)"

definition StreamHasher_Update_pod :: "'s hasher \<Rightarrow> u64 \<Rightarrow> ('s, bool) prog" where
  "StreamHasher_Update_pod h x = hs_Update h (pod_bytes x)"

definition StreamHasher_Update_vector :: "'s hasher \<Rightarrow> u64 list \<Rightarrow> ('s, bool) prog" where
  "StreamHasher_Update_vector h xs = hs_Update h (concat (map pod_bytes xs))"

definition Hash :: "'s hasher \<Rightarrow> ('s, unit) prog \<Rightarrow> 's \<Rightarrow> byte list \<Rightarrow> exn + byte list" where
  "Hash h construct s str = fst (pthen construct (pthen (hs_Reset h) (pthen (hs_Update h str) (StreamHasher_Final h))) s)"

subsection \<open>The two hashers\<close>

definition FNV :: "u64 hasher" where
  "FNV = \<lparr>hs_Reset = pmodify (\<lambda>_. fnv_reset fnv1a FNVConfig64),
     hs_Update = (\<lambda>bs. pthen (pmodify (fnv_update fnv1a FNVConfig64 bs)) (pret True)),
     hs_Final = (\<lambda>buf. if length buf < 8 then pthrow (RuntimeError ''size of input buffer is smaller than hash size.'')
        else pget (\<lambda>context. overwrite 0 (pod_bytes context) buf)),
     hs_GetSizeInBytes = 8\<rparr>"

definition FNV_construct :: "(u64, unit) prog" where
  "FNV_construct = pmodify (\<lambda>_. fnv_reset fnv1a FNVConfig64)"

text \<open>OpenSSL's functions on a context: whether they succeeded, and the context after.\<close>

record 's sha_library =
  SHA256_Init :: "'s \<Rightarrow> bool \<times> 's"
  SHA256_Update :: "byte list \<Rightarrow> 's \<Rightarrow> bool \<times> 's"
  SHA256_Final :: "'s \<Rightarrow> (bool \<times> byte list) \<times> 's"

definition SHA256_DIGEST_LENGTH :: nat where
  "SHA256_DIGEST_LENGTH = 32"

definition ResetContext :: "'s sha_library \<Rightarrow> ('s, unit) prog" where
  "ResetContext lib = (\<lambda>s. case SHA256_Init lib s of (ok, s') \<Rightarrow>
     if \<not> ok then (Inl (RuntimeError ''could not intialialise SHA256.''), s') else (Inr (), s'))"

definition SHA256 :: "'s sha_library \<Rightarrow> 's hasher" where
  "SHA256 lib = \<lparr>hs_Reset = ResetContext lib,
     hs_Update = (\<lambda>bs s. case SHA256_Update lib bs s of (ok, s') \<Rightarrow> if \<not> ok then (Inr False, s') else (Inr True, s')),
     hs_Final = (\<lambda>buf. if length buf < SHA256_DIGEST_LENGTH
        then pthrow (RuntimeError ''size of input buffer is smaller than hash size.'')
        else (\<lambda>s. case SHA256_Final lib s of ((ok, digest), s') \<Rightarrow>
          if \<not> ok then (Inl (RuntimeError ''could not finalize SHA256.''), s') else (Inr (overwrite 0 digest buf), s'))),
     hs_GetSizeInBytes = SHA256_DIGEST_LENGTH\<rparr>"

definition Hash_SHA256 :: "'s sha_library \<Rightarrow> 's \<Rightarrow> byte list \<Rightarrow> exn + byte list" where
  "Hash_SHA256 lib s str = Hash (SHA256 lib) (ResetContext lib) s str"

subsection \<open>The Merkle tree\<close>

type_synonym digest = "byte list"

record merkle_tree =
  mt_leaf_nodes :: "digest list"
  mt_root :: digest

definition mt_new :: "nat \<Rightarrow> merkle_tree" where
  "mt_new n = \<lparr>mt_leaf_nodes = replicate n [], mt_root = []\<rparr>"

definition mt_at :: "nat \<Rightarrow> merkle_tree \<Rightarrow> exn + digest" where
  "mt_at n t = (if n < length (mt_leaf_nodes t) then Inr (mt_leaf_nodes t ! n) else Inl (OutOfRange ''vector::_M_range_check''))"

definition mt_set :: "nat \<Rightarrow> digest \<Rightarrow> (merkle_tree, unit) prog" where
  "mt_set n d = (\<lambda>t. if n < length (mt_leaf_nodes t) then (Inr (), t\<lparr>mt_leaf_nodes := (mt_leaf_nodes t)[n := d]\<rparr>)
     else (Inl (OutOfRange ''vector::_M_range_check''), t))"

partial_function (option) mt_pad :: "digest list \<Rightarrow> digest list option" where
  "mt_pad hashes = (if \<not> IsLog2 (of_nat (length hashes)) then mt_pad (hashes @ [[]]) else Some hashes)"

text \<open>One pass: each pair is hashed into the front half; an odd last one would be read past the end.\<close>

function mt_pass :: "(byte list \<Rightarrow> exn + digest) \<Rightarrow> nat \<Rightarrow> nat \<Rightarrow> digest list \<Rightarrow> exn + digest list" where
  "mt_pass H i j hashes =
     (if i < length hashes
      then if i + 1 < length hashes
        then case H (hashes ! i @ hashes ! (i + 1)) of Inl e \<Rightarrow> Inl e
          | Inr d \<Rightarrow> mt_pass H (i + 2) (j + 1) (hashes[j := d])
        else Inl Undefined
      else Inr hashes)"
  by pat_completeness auto

termination mt_pass
  by (relation "measure (\<lambda>(_, i, _, hashes). length hashes - i)") auto

declare mt_pass.simps [simp del]

lemma length_mt_pass: "mt_pass H i j hashes = Inr r \<Longrightarrow> length r = length hashes"
proof (induction H i j hashes arbitrary: r rule: mt_pass.induct)
  case (1 H i j hashes)
  show ?case using "1.prems" "1.IH" unfolding mt_pass.simps[of H i j hashes] by (auto split: if_splits sum.splits)
qed

function mt_condense :: "(byte list \<Rightarrow> exn + digest) \<Rightarrow> digest list \<Rightarrow> exn + digest list" where
  "mt_condense H hashes =
     (if 1 < length hashes
      then case mt_pass H 0 0 hashes of Inl e \<Rightarrow> Inl e
        | Inr r \<Rightarrow> mt_condense H (take (length r div 2) r)
      else Inr hashes)"
  by pat_completeness auto

termination mt_condense
  by (relation "measure (\<lambda>(_, hashes). length hashes)") (auto dest: length_mt_pass)

declare mt_condense.simps [simp del]

text \<open>\<open>None\<close> stands for a padding that never ends.\<close>

definition CalculateRoot :: "(byte list \<Rightarrow> exn + digest) \<Rightarrow> merkle_tree \<Rightarrow> (exn + merkle_tree) option" where
  "CalculateRoot H t =
     (if mt_leaf_nodes t = [] then Some (ebind (H []) (\<lambda>d. Inr (t\<lparr>mt_root := d\<rparr>)))
      else if length (mt_leaf_nodes t) = 1 then Some (Inr (t\<lparr>mt_root := mt_leaf_nodes t ! 0\<rparr>))
      else case mt_pad (mt_leaf_nodes t) of
          None \<Rightarrow> None
        | Some hashes \<Rightarrow> Some (ebind (mt_condense H hashes) (\<lambda>r.
            if length r = 1 then Inr (t\<lparr>mt_root := r ! 0\<rparr>) else Inl Aborted)))"

subsection \<open>Identities\<close>

definition curve_sn :: "byte list" where
  "curve_sn = map of_char ''secp256k1''"

definition publicKeySize :: nat where
  "publicKeySize = 64"

record identity =
  id_parameters :: "byte list"
  id_identifier :: "byte list"

definition InvalidIdentity :: identity where
  "InvalidIdentity = \<lparr>id_parameters = curve_sn, id_identifier = []\<rparr>"

definition Identity_of :: "byte list \<Rightarrow> identity" where
  "Identity_of identifier = \<lparr>id_parameters = curve_sn, id_identifier = identifier\<rparr>"

definition identity_valid :: "identity \<Rightarrow> bool" where
  "identity_valid i \<longleftrightarrow> id_parameters i = curve_sn \<and> length (id_identifier i) = publicKeySize"

definition identity_eq :: "identity \<Rightarrow> identity \<Rightarrow> bool" where
  "identity_eq i j \<longleftrightarrow> id_parameters i = id_parameters j \<and> id_identifier i = id_identifier j"

definition identity_less :: "identity \<Rightarrow> identity \<Rightarrow> bool" where
  "identity_less i j \<longleftrightarrow>
     (if id_identifier i < id_identifier j then True
      else if id_identifier i = id_identifier j then id_parameters i < id_parameters j
      else False)"

text \<open>A serializer takes and gives back byte arrays in order.\<close>

definition identity_serialize :: "identity \<Rightarrow> byte list list \<Rightarrow> byte list list" where
  "identity_serialize i out = out @ [id_identifier i] @ [id_parameters i]"

definition identity_deserialize :: "byte list list \<Rightarrow> (identity \<times> byte list list) option" where
  "identity_deserialize inp =
     (case inp of idf # params # rest \<Rightarrow>
        let data = \<lparr>id_parameters = params, id_identifier = idf\<rparr>
        in Some (if \<not> identity_valid data then InvalidIdentity else data, rest)
      | _ \<Rightarrow> None)"

definition identity_hash :: "identity \<Rightarrow> exn + u64" where
  "identity_hash i = fst (pthen FNV_construct (pthen (hs_Update FNV (id_identifier i)) (pthen (hs_Update FNV (id_parameters i)) (StreamHasher_Final_pod FNV))) 0)"

definition FETCH_IDENTITIES :: "string list" where
  "FETCH_IDENTITIES = [
    ''MnrRHdvCkdZodEwM855vemS5V3p2hiWmcSQ8JEzD4ZjPdsYtB'', ''2bBYqHp5uK8fQgTqeBP3B3rogHQPYiC6wZcnBP2WVocsuiMgg9'',
    ''LAxzfxivjQSgUhv6ju6Q6tMjc8G996HGBGtG482jZwH3P77MF'', ''2oTySoewvvu85Y5oBaY6GaHUi1A2jw9RyLdzPyeXHsBKBDpUe8'',
    ''yqjE1nCKLYRS3DUeFPmumR4sjQJFRYvKU2KQhdUFKQgkVUr6y'', ''7pwsmX7TGG3XRrDeTFDkBNcfKJGBeG9Rq85j6vcKEUTLZxzyu'',
    ''2ZfLWYyaHv66qsSeb9g1ki8ShH6nrFT3TPbeL4FUYoLdwq8qEH'', ''2SmuQo82jxVoi8qY5NitcRQVWzi4g9CyXpR1VJrDjjq9nrQwWN'',
    ''MfiLMVPWsCJXEuAT2j8z9gKoWZ5RumEYr97EJUK2XPyJc3xMu'', ''3yxLj2h1AsBpfacUjn1Pph3jJYi83oZNKbKMT2qVvn4M3Xja7'',
    ''vdYrsGTxk5pWLuvgFPuv4tCCJ7c7qaQrmiNsraqS7Gpwd58ij'', ''BDr2FmQK1yNpEY9RjCiauNZXcJkm2EjYtLta94N5cDyGVLWaf'',
    ''V4aL9eeLj3r42tVZztJq3mDLWJK3jPPNVc2bfAizmXozKhoru'', ''2Y7CS65GVgntrW4BohCTPpPCGExEFVzfEw1DYZJstv1PEVyjRE'',
    ''vtmD29suwXx63y6WhCu52oBGALcY59fcZmvqFh8MCETyc5k2e'', ''2cxb5h2HMer5uBDAs7X4EpXuBZSbfX5UUvhGwBHQMB3ZtCkMsm'',
    ''2KyS2GfJ9iYxGHVtHxv2pyreW5XZXgAxHH5jXYkSruYTj8KYcR'', ''Lz2yNwzXSDDMCEU3Mt8ARfK8aqRiX35d6XWGhdhWYiBQymtvB'',
    ''H381FKAkk9aVCF4SWcocDZYe9Wgs6dGxvFERMRkGYG5yt6dff'', ''2m5bhKu4SrRqJpbeKk3Th3gc5gedYDPfT7BELhLnpvTugjmS4r'']"

definition IsFetchIdentity :: "byte list \<Rightarrow> bool" where
  "IsFetchIdentity idf \<longleftrightarrow> idf \<in> set (map (map of_char) FETCH_IDENTITIES)"

subsection \<open>Hashing in pieces\<close>

text \<open>What the users of a stream hasher rely on: a reset forgets, an update depends on the bytes and not on how they are cut.\<close>

locale stream_hasher =
  fixes h :: "'s hasher" and start :: 's and upd :: "byte list \<Rightarrow> 's \<Rightarrow> 's" and digest :: "'s \<Rightarrow> byte list"
  assumes reset: "hs_Reset h s = (Inr (), start)"
    and update: "hs_Update h bs s = (Inr True, upd bs s)"
    and upd_append: "upd (xs @ ys) s = upd ys (upd xs s)"
    and upd_Nil: "upd [] s = s"
    and final: "length buf = hs_GetSizeInBytes h \<Longrightarrow> fst (hs_Final h buf s) = Inr (digest s)"
begin

lemma pieces_state: "foldl (\<lambda>s bs. snd (hs_Update h bs s)) s pieces = upd (concat pieces) s"
  by (induction pieces arbitrary: s) (simp_all add: update upd_append upd_Nil)

lemma final_digest: "fst (StreamHasher_Final h s) = Inr (digest s)"
  by (simp add: StreamHasher_Final_def final)

lemma hash_digest: "fst (construct s) = Inr () \<Longrightarrow> Hash h construct s str = Inr (digest (upd str start))"
  by (cases "construct s") (simp add: Hash_def pthen_apply reset update final_digest)

lemma hash_pieces:
  assumes "fst (construct s) = Inr ()"
  shows "fst (StreamHasher_Final h (foldl (\<lambda>s bs. snd (hs_Update h bs s)) (snd (hs_Reset h s')) pieces)) = Hash h construct s (concat pieces)"
  by (simp add: hash_digest[of construct s, OF assms] reset pieces_state final_digest)

end

lemma length_pod_bytes: "length (pod_bytes x) = 8"
  by (simp add: pod_bytes_def)

interpretation fnv: stream_hasher FNV "fnv_reset fnv1a FNVConfig64" "fnv_update fnv1a FNVConfig64" pod_bytes
proof unfold_locales
  show "length buf = hs_GetSizeInBytes FNV \<Longrightarrow> fst (hs_Final FNV buf s) = Inr (pod_bytes s)" for buf s
    by (simp add: FNV_def overwrite_def length_pod_bytes)
qed (simp_all add: FNV_def pthen_apply fnv_update_def fnv1a_update_def)

text \<open>
  Data given to the FNV hasher in pieces, after a \<^verbatim>\<open>Reset\<close> in any state, gives the digest that \<^verbatim>\<open>Hash\<close> gives for the whole.
\<close>

lemma fnv_in_pieces:
  "fst (StreamHasher_Final FNV (foldl (\<lambda>s bs. snd (hs_Update FNV bs s)) (snd (hs_Reset FNV s)) pieces)) = Hash FNV FNV_construct s' (concat pieces)"
  by (rule fnv.hash_pieces) (simp add: FNV_construct_def)

text \<open>The published value for the text \<open>a\<close>.\<close>

lemma fnv_of_a: "fnv_update fnv1a FNVConfig64 [97] (fnv_reset fnv1a FNVConfig64) = 0xaf63dc4c8601ec8c"
  by code_simp

lemma bit_bytes_pod: "bit (bytes_pod bs) n \<longleftrightarrow> n < 64 \<and> n < 8 * length bs \<and> bit (bs ! (n div 8)) (n mod 8)"
proof (induction bs arbitrary: n)
  case Nil
  then show ?case by (simp add: bytes_pod_def)
next
  case (Cons b bs)
  have step: "bytes_pod (b # bs) = push_bit 8 (bytes_pod bs) OR ucast b" by (simp add: bytes_pod_def)
  show ?case
  proof (cases "n < 8")
    case True
    then show ?thesis unfolding step by (simp add: bit_or_iff bit_push_bit_iff bit_unsigned_iff)
  next
    case False
    then have "n div 8 = Suc ((n - 8) div 8)" "n mod 8 = (n - 8) mod 8" by (simp_all add: le_div_geq le_mod_geq)
    moreover have "\<not> bit b n" using False by (auto dest: bit_imp_le_length)
    ultimately show ?thesis
      unfolding step using False Cons.IH[of "n - 8"] by (auto simp: bit_or_iff bit_push_bit_iff bit_unsigned_iff)
  qed
qed

lemma pod_roundtrip: "bytes_pod (pod_bytes x) = x"
proof (rule bit_word_eqI)
  fix n assume "n < LENGTH(64)"
  then have "n < 64" "n div 8 < 8" by simp_all
  then show "bit (bytes_pod (pod_bytes x)) n = bit x n"
    by (simp add: bit_bytes_pod length_pod_bytes) (simp add: pod_bytes_def bit_unsigned_iff bit_drop_bit_eq)
qed

text \<open>\<^verbatim>\<open>std::hash\<close> of an identity is the FNV value of its two arrays one after the other, so where one ends is not hashed.\<close>

lemma identity_hash_value:
  "identity_hash i = Inr (fnv_update fnv1a FNVConfig64 (id_identifier i @ id_parameters i) (fnv_reset fnv1a FNVConfig64))"
  by (simp add: identity_hash_def FNV_construct_def FNV_def pthen_apply StreamHasher_Final_pod_def pbind_apply overwrite_def length_pod_bytes
      pod_roundtrip fnv_update_def fnv1a_update_def)

subsection \<open>Merkle roots\<close>

text \<open>The reference: the root of a perfect tree over its leaves, and the strings that are hashed on the way to it.\<close>

fun tree_root :: "(byte list \<Rightarrow> digest) \<Rightarrow> nat \<Rightarrow> digest list \<Rightarrow> digest" where
  "tree_root h 0 xs = xs ! 0"
| "tree_root h (Suc k) xs = h (tree_root h k (take (2 ^ k) xs) @ tree_root h k (drop (2 ^ k) xs))"

fun tree_inputs :: "(byte list \<Rightarrow> digest) \<Rightarrow> nat \<Rightarrow> digest list \<Rightarrow> byte list set" where
  "tree_inputs h 0 xs = {}"
| "tree_inputs h (Suc k) xs = {tree_root h k (take (2 ^ k) xs) @ tree_root h k (drop (2 ^ k) xs)} \<union>
     tree_inputs h k (take (2 ^ k) xs) \<union> tree_inputs h k (drop (2 ^ k) xs)"

fun pair_up :: "(byte list \<Rightarrow> digest) \<Rightarrow> digest list \<Rightarrow> digest list" where
  "pair_up h (a # b # xs) = h (a @ b) # pair_up h xs"
| "pair_up h xs = []"

lemma twice_le_one: "2 * n \<le> Suc 0 \<longleftrightarrow> n = 0"
  by presburger

lemma take_pair_up: "2 * n \<le> length xs \<Longrightarrow> take n (pair_up h xs) = pair_up h (take (2 * n) xs)"
proof (induction h xs arbitrary: n rule: pair_up.induct)
  case (1 h a b xs)
  then show ?case by (cases n) auto
qed (auto simp: twice_le_one)

lemma drop_pair_up: "2 * n \<le> length xs \<Longrightarrow> drop n (pair_up h xs) = pair_up h (drop (2 * n) xs)"
proof (induction h xs arbitrary: n rule: pair_up.induct)
  case (1 h a b xs)
  then show ?case by (cases n) auto
qed (auto simp: twice_le_one)

lemma length_pair_up: "length (pair_up h xs) = length xs div 2"
  by (induction h xs rule: pair_up.induct) auto

lemma tree_root_pairs: "length xs = 2 ^ Suc k \<Longrightarrow> tree_root h (Suc k) xs = tree_root h k (pair_up h xs)"
proof (induction k arbitrary: xs)
  case 0
  then obtain a b where "xs = [a, b]" by (auto simp: length_Suc_conv numeral_2_eq_2)
  then show ?case by simp
next
  case (Suc k)
  have l: "length (take (2 ^ Suc k) xs) = 2 ^ Suc k" "length (drop (2 ^ Suc k) xs) = 2 ^ Suc k" using Suc.prems by simp_all
  have "tree_root h (Suc (Suc k)) xs = h (tree_root h (Suc k) (take (2 ^ Suc k) xs) @ tree_root h (Suc k) (drop (2 ^ Suc k) xs))"
    by (rule tree_root.simps(2))
  also have "\<dots> = h (tree_root h k (pair_up h (take (2 ^ Suc k) xs)) @ tree_root h k (pair_up h (drop (2 ^ Suc k) xs)))"
    by (simp only: Suc.IH[OF l(1)] Suc.IH[OF l(2)])
  also have "pair_up h (take (2 ^ Suc k) xs) = take (2 ^ k) (pair_up h xs)"
    using take_pair_up[of "2 ^ k" xs h] Suc.prems by simp
  also have "pair_up h (drop (2 ^ Suc k) xs) = drop (2 ^ k) (pair_up h xs)"
    using drop_pair_up[of "2 ^ k" xs h] Suc.prems by simp
  finally show ?case by (simp only: tree_root.simps(2))
qed

lemma mt_pass_pairs:
  assumes "\<And>x. H x = Inr (h x)" "j \<le> i" "i \<le> length hs" "even (length hs - i)"
  shows "\<exists>r. mt_pass H i j hs = Inr r \<and> length r = length hs \<and> take (j + (length hs - i) div 2) r = take j hs @ pair_up h (drop i hs)"
  using assms
proof (induction H i j hs rule: mt_pass.induct)
  case (1 H i j hs)
  show ?case
  proof (cases "i < length hs")
    case True
    have i1: "i + 1 < length hs"
    proof (rule ccontr)
      assume "\<not> i + 1 < length hs"
      then have "length hs - i = 1" using True by simp
      then show False using "1.prems"(4) by simp
    qed
    let ?d = "h (hs ! i @ hs ! (i + 1))"
    have d: "drop i hs = hs ! i # hs ! (i + 1) # drop (i + 2) hs"
      using True i1 by (metis Cons_nth_drop_Suc Suc_eq_plus1 add_2_eq_Suc')
    have "j + 1 \<le> i + 2" "i + 2 \<le> length (hs[j := ?d])" "even (length (hs[j := ?d]) - (i + 2))"
      using "1.prems"(2,4) i1 by auto
    from "1.IH"[OF True i1 "1.prems"(1) "1.prems"(1) this]
    obtain r where r: "mt_pass H (i + 2) (j + 1) (hs[j := ?d]) = Inr r" "length r = length hs"
        "take (j + 1 + (length hs - (i + 2)) div 2) r = take (j + 1) (hs[j := ?d]) @ pair_up h (drop (i + 2) (hs[j := ?d]))"
      by (simp only: length_list_update) blast
    have j: "j < length hs" using "1.prems"(2) True by simp
    have e1: "take (j + 1) (hs[j := ?d]) = take j hs @ [?d]" using j by (simp add: take_Suc_conv_app_nth)
    have e2: "drop (i + 2) (hs[j := ?d]) = drop (i + 2) hs" using "1.prems"(2) by simp
    have e3: "j + 1 + (length hs - (i + 2)) div 2 = j + (length hs - i) div 2"
    proof -
      have "length hs - i = Suc (Suc (length hs - (i + 2)))" using i1 by simp
      then show ?thesis by simp
    qed
    have "take (j + (length hs - i) div 2) r = (take j hs @ [?d]) @ pair_up h (drop (i + 2) hs)"
      using r(3) unfolding e1 e2 e3 .
    moreover have "pair_up h (drop i hs) = ?d # pair_up h (drop (i + 2) hs)" by (simp only: d pair_up.simps)
    moreover have "mt_pass H i j hs = Inr r"
      by (subst mt_pass.simps) (simp only: True i1 if_True "1.prems"(1) sum.case r(1))
    ultimately show ?thesis using r(2) by simp
  next
    case False
    then show ?thesis using "1.prems"(3) by (subst mt_pass.simps) simp
  qed
qed

lemma mt_condense_root:
  assumes "\<And>x. H x = Inr (h x)" "length hs = 2 ^ k"
  shows "mt_condense H hs = Inr [tree_root h k hs]"
  using assms(2)
proof (induction k arbitrary: hs)
  case 0
  then show ?case by (subst mt_condense.simps) (cases hs; simp)
next
  case (Suc k)
  obtain r where r: "mt_pass H 0 0 hs = Inr r" "length r = length hs" "take (length hs div 2) r = pair_up h hs"
    using mt_pass_pairs[of H h 0 0 hs] assms(1) Suc.prems by auto
  have "1 < length hs" unfolding Suc.prems by (rule one_less_power) simp_all
  then have "mt_condense H hs = mt_condense H (pair_up h hs)"
    using r by (subst mt_condense.simps) simp
  moreover have "length (pair_up h hs) = 2 ^ k" using Suc.prems by (simp add: length_pair_up)
  ultimately show ?case using Suc.IH tree_root_pairs[OF Suc.prems, of h] by simp
qed

lemma IsLog2_length:
  assumes "n \<le> 2 ^ 63"
  shows "IsLog2 (of_nat n) \<longleftrightarrow> (\<exists>k. n = 2 ^ k)"
proof -
  have "n < 2 ^ 64" using assms by (rule le_less_trans) (rule power_strict_increasing, simp_all)
  then have u: "unat (of_nat n :: u64) = n" by (simp add: unat_of_nat take_bit_eq_mod)
  show ?thesis unfolding IsLog2_iff u by (rule refl)
qed

lemma mt_pad_power:
  assumes "length hs \<le> 2 ^ k" "2 ^ k < 2 * length hs" "k \<le> 63"
  shows "mt_pad hs = Some (hs @ replicate (2 ^ k - length hs) [])"
  using assms
proof (induction "2 ^ k - length hs" arbitrary: hs)
  case 0
  have "(2 :: nat) ^ k \<le> 2 ^ 63" using assms(3) by (intro power_increasing) simp_all
  moreover have "length hs = 2 ^ k" using "0.hyps" "0.prems"(1) by simp
  ultimately have "IsLog2 (of_nat (length hs))" using IsLog2_length[of "length hs"] by simp
  then show ?case using \<open>length hs = 2 ^ k\<close> by (subst mt_pad.simps) simp
next
  case (Suc m)
  have le: "(2 :: nat) ^ k \<le> 2 ^ 63" using assms(3) by (intro power_increasing) simp_all
  have lt: "length hs < 2 ^ k" using Suc.hyps(2) by simp
  have "\<not> IsLog2 (of_nat (length hs))"
  proof
    assume "IsLog2 (of_nat (length hs))"
    moreover have "length hs \<le> 2 ^ 63" using le lt by linarith
    ultimately obtain j where j: "length hs = 2 ^ j" using IsLog2_length by blast
    then have "(2 :: nat) ^ j < 2 ^ k" "(2 :: nat) ^ k < 2 ^ Suc j" using lt Suc.prems(2) by simp_all
    then have "j < k" "k < Suc j" by (simp_all only: power_strict_increasing_iff one_less_numeral_iff semiring_norm(76))
    then show False by simp
  qed
  then have "mt_pad hs = mt_pad (hs @ [[]])" by (subst mt_pad.simps) simp
  also have "\<dots> = Some ((hs @ [[]]) @ replicate (2 ^ k - length (hs @ [[]])) [])"
    using Suc.hyps(2) Suc.prems lt by (intro Suc.hyps(1)) auto
  also have "(hs @ [[]]) @ replicate (2 ^ k - length (hs @ [[]])) [] = hs @ replicate (2 ^ k - length hs) []"
    using Suc.hyps(2)[symmetric] by simp
  finally show ?case .
qed

lemma power_above:
  assumes "2 \<le> (n :: nat)" "n \<le> 2 ^ 63"
  obtains k where "n \<le> 2 ^ k" "2 ^ k < 2 * n" "k \<le> 63"
proof -
  obtain j where j: "2 ^ j < n" "n \<le> 2 ^ (j + 1)" using ex_power_ivl2[of 2 n] assms(1) by auto
  then have "(2 :: nat) ^ j < 2 ^ 63" using assms(2) by linarith
  then have "j < 63" by (simp only: power_strict_increasing_iff one_less_numeral_iff semiring_norm(76))
  then show thesis using that[of "j + 1"] j by simp
qed

text \<open>The leaves of a tree with the empty digests that make them a power of two.\<close>

definition padded_leaves :: "nat \<Rightarrow> merkle_tree \<Rightarrow> digest list" where
  "padded_leaves k t = mt_leaf_nodes t @ replicate (2 ^ k - length (mt_leaf_nodes t)) []"

lemma CalculateRoot_tree:
  assumes "\<And>x. H x = Inr (h x)" "2 \<le> length (mt_leaf_nodes t)" "length (mt_leaf_nodes t) \<le> 2 ^ 63"
  obtains k where "length (mt_leaf_nodes t) \<le> 2 ^ k" "2 ^ k < 2 * length (mt_leaf_nodes t)"
    "CalculateRoot H t = Some (Inr (t\<lparr>mt_root := tree_root h k (padded_leaves k t)\<rparr>))"
proof -
  obtain k where k: "length (mt_leaf_nodes t) \<le> 2 ^ k" "2 ^ k < 2 * length (mt_leaf_nodes t)" "k \<le> 63"
    using power_above[OF assms(2,3)] by blast
  have "mt_condense H (padded_leaves k t) = Inr [tree_root h k (padded_leaves k t)]"
    using k(1) by (intro mt_condense_root assms(1)) (simp add: padded_leaves_def)
  then have "CalculateRoot H t = Some (Inr (t\<lparr>mt_root := tree_root h k (padded_leaves k t)\<rparr>))"
    using assms(2) mt_pad_power[OF k] by (auto simp: CalculateRoot_def padded_leaves_def[symmetric])
  then show thesis using that k by blast
qed

text \<open>
  C33. When SHA-256 succeeds, \<^verbatim>\<open>CalculateRoot\<close> returns for every tree of two to \<open>2 ^ 63\<close> leaves, and the root is that of the
  perfect tree over the leaves followed by empty digests up to the next power of two.
\<close>

theorem merkle_root_is_tree:
  assumes "\<And>x. Hash_SHA256 lib s x = Inr (h x)" "2 \<le> length (mt_leaf_nodes t)" "length (mt_leaf_nodes t) \<le> 2 ^ 63"
  shows "\<exists>k. length (mt_leaf_nodes t) \<le> 2 ^ k \<and> 2 ^ k < 2 * length (mt_leaf_nodes t) \<and>
    CalculateRoot (Hash_SHA256 lib s) t = Some (Inr (t\<lparr>mt_root := tree_root h k (padded_leaves k t)\<rparr>))"
  using CalculateRoot_tree[of "Hash_SHA256 lib s" h t] assms by metis

text \<open>A library that succeeds; its digest is the first 32 bytes, padded.\<close>

definition toy_sha :: "byte list sha_library" where
  "toy_sha = \<lparr>SHA256_Init = (\<lambda>s. (True, [])), SHA256_Update = (\<lambda>bs s. (True, s @ bs)),
     SHA256_Final = (\<lambda>s. ((True, take 32 (s @ replicate 32 0)), s))\<rparr>"

lemma toy_sha_hash: "Hash_SHA256 toy_sha [] x = Inr (take 32 (x @ replicate 32 0))"
  by (simp add: Hash_SHA256_def Hash_def SHA256_def ResetContext_def toy_sha_def pthen_apply StreamHasher_Final_def SHA256_DIGEST_LENGTH_def overwrite_def)

definition three_leaves :: merkle_tree where
  "three_leaves = \<lparr>mt_leaf_nodes = [[1], [2], [3]], mt_root = []\<rparr>"

lemma merkle_root_is_tree_witness:
  "\<exists>k. CalculateRoot (Hash_SHA256 toy_sha []) three_leaves =
     Some (Inr (three_leaves\<lparr>mt_root := tree_root (\<lambda>x. take 32 (x @ replicate 32 0)) k (padded_leaves k three_leaves)\<rparr>))"
proof -
  have "2 \<le> length (mt_leaf_nodes three_leaves)" "length (mt_leaf_nodes three_leaves) \<le> 2 ^ 63" by (simp_all add: three_leaves_def)
  from merkle_root_is_tree[OF toy_sha_hash this] show ?thesis by blast
qed

lemma length_tree_root:
  assumes "\<And>x. length (h x) = n" "length xs = 2 ^ k" "length ys = 2 ^ k" "\<forall>i < 2 ^ k. length (xs ! i) = length (ys ! i)"
  shows "length (tree_root h k xs) = length (tree_root h k ys)"
  using assms by (cases k) simp_all

lemma tree_root_binding:
  assumes "\<And>x. length (h x) = n" "length xs = 2 ^ k" "length ys = 2 ^ k" "\<forall>i < 2 ^ k. length (xs ! i) = length (ys ! i)"
    "tree_root h k xs = tree_root h k ys" "xs \<noteq> ys"
  shows "\<exists>x \<in> tree_inputs h k xs. \<exists>y \<in> tree_inputs h k ys. x \<noteq> y \<and> h x = h y"
  using assms(2-)
proof (induction k arbitrary: xs ys)
  case 0
  then obtain a b where "xs = [a]" "ys = [b]" by (auto simp: length_Suc_conv)
  then show ?case using "0.prems" by simp
next
  case (Suc k)
  let ?xl = "take (2 ^ k) xs" let ?xr = "drop (2 ^ k) xs" let ?yl = "take (2 ^ k) ys" let ?yr = "drop (2 ^ k) ys"
  have len: "length ?xl = 2 ^ k" "length ?yl = 2 ^ k" "length ?xr = 2 ^ k" "length ?yr = 2 ^ k" using Suc.prems(1,2) by simp_all
  have el: "\<forall>i < 2 ^ k. length (?xl ! i) = length (?yl ! i)" using Suc.prems(3) by simp
  have er: "\<forall>i < 2 ^ k. length (?xr ! i) = length (?yr ! i)" using Suc.prems(1,2,3) by simp
  show ?case
  proof (cases "tree_root h k ?xl @ tree_root h k ?xr = tree_root h k ?yl @ tree_root h k ?yr")
    case False
    then show ?thesis using Suc.prems(4) by auto
  next
    case True
    then have roots: "tree_root h k ?xl = tree_root h k ?yl" "tree_root h k ?xr = tree_root h k ?yr"
      using length_tree_root[OF assms(1) len(1,2) el] by simp_all
    have "?xl \<noteq> ?yl \<or> ?xr \<noteq> ?yr" using Suc.prems(5) by (metis append_take_drop_id)
    then show ?thesis
    proof
      assume "?xl \<noteq> ?yl"
      from Suc.IH[OF len(1,2) el roots(1) this] show ?thesis by auto
    next
      assume "?xr \<noteq> ?yr"
      from Suc.IH[OF len(3,4) er roots(2) this] show ?thesis by auto
    qed
  qed
qed

lemma power_between_unique:
  assumes "n \<le> 2 ^ j" "2 ^ j < 2 * (n :: nat)" "n \<le> 2 ^ k" "2 ^ k < 2 * n"
  shows "j = k"
proof -
  have "(2 :: nat) ^ j < 2 * 2 ^ k" using assms(2,3) by (meson less_le_trans mult_le_mono2)
  moreover have "(2 :: nat) ^ k < 2 * 2 ^ j" using assms(1,4) by (meson less_le_trans mult_le_mono2)
  ultimately have "(2 :: nat) ^ j < 2 ^ Suc k" "(2 :: nat) ^ k < 2 ^ Suc j" unfolding power_Suc .
  then have "j < Suc k" "k < Suc j" by (simp_all only: power_strict_increasing_iff one_less_numeral_iff semiring_norm(76))
  then show ?thesis by simp
qed

definition root_after :: "(exn + merkle_tree) option \<Rightarrow> digest option" where
  "root_after r = (case r of Some (Inr t) \<Rightarrow> Some (mt_root t) | _ \<Rightarrow> None)"

text \<open>
  Two trees with as many leaves, of the same sizes, that have the same root but different leaves give a collision of the
  hash: two different strings, among those hashed on the way to the two roots, with the same digest.
\<close>

lemma merkle_root_binding:
  assumes "\<And>x. Hash_SHA256 lib s x = Inr (h x)" "\<And>x. length (h x) = 32"
    "2 \<le> length (mt_leaf_nodes t)" "length (mt_leaf_nodes t) \<le> 2 ^ 63"
    "list_all2 (\<lambda>x y. length x = length y) (mt_leaf_nodes t) (mt_leaf_nodes u)" "mt_leaf_nodes t \<noteq> mt_leaf_nodes u"
    "root_after (CalculateRoot (Hash_SHA256 lib s) t) = root_after (CalculateRoot (Hash_SHA256 lib s) u)"
  shows "\<exists>k. \<exists>x \<in> tree_inputs h k (padded_leaves k t). \<exists>y \<in> tree_inputs h k (padded_leaves k u). x \<noteq> y \<and> h x = h y"
proof -
  let ?n = "length (mt_leaf_nodes t)"
  have lu: "length (mt_leaf_nodes u) = ?n" using assms(5) by (simp add: list_all2_lengthD)
  obtain k where k: "?n \<le> 2 ^ k" "2 ^ k < 2 * ?n"
      "CalculateRoot (Hash_SHA256 lib s) t = Some (Inr (t\<lparr>mt_root := tree_root h k (padded_leaves k t)\<rparr>))"
    by (rule CalculateRoot_tree[OF assms(1,3,4)])
  have u: "2 \<le> length (mt_leaf_nodes u)" "length (mt_leaf_nodes u) \<le> 2 ^ 63" using assms(3,4) by (simp_all only: lu)
  obtain j where j: "?n \<le> 2 ^ j" "2 ^ j < 2 * ?n"
      "CalculateRoot (Hash_SHA256 lib s) u = Some (Inr (u\<lparr>mt_root := tree_root h j (padded_leaves j u)\<rparr>))"
    by (rule CalculateRoot_tree[OF assms(1) u]) (simp only: lu)
  have "j = k" by (rule power_between_unique[OF j(1,2) k(1,2)])
  then have roots: "tree_root h k (padded_leaves k t) = tree_root h k (padded_leaves k u)"
    using assms(7) by (simp add: k(3) j(3) root_after_def)
  have lens: "length (padded_leaves k t) = 2 ^ k" "length (padded_leaves k u) = 2 ^ k"
    using k(1) by (simp_all add: padded_leaves_def lu)
  have same: "\<forall>i < 2 ^ k. length (padded_leaves k t ! i) = length (padded_leaves k u ! i)"
  proof (intro allI impI)
    fix i :: nat assume i: "i < 2 ^ k"
    show "length (padded_leaves k t ! i) = length (padded_leaves k u ! i)"
    proof (cases "i < ?n")
      case True
      then show ?thesis using list_all2_nthD[OF assms(5) True] by (simp add: padded_leaves_def nth_append lu)
    next
      case False
      then have "i - ?n < 2 ^ k - ?n" using i by simp
      then show ?thesis using False by (simp add: padded_leaves_def nth_append lu)
    qed
  qed
  have neq: "padded_leaves k t \<noteq> padded_leaves k u" using assms(6) by (simp add: padded_leaves_def lu)
  show ?thesis by (rule exI[of _ k]) (rule tree_root_binding[OF assms(2) lens same roots neq])
qed

text \<open>Hashing by a constant: any two trees collide.\<close>

definition constant_sha :: "unit sha_library" where
  "constant_sha = \<lparr>SHA256_Init = (\<lambda>s. (True, s)), SHA256_Update = (\<lambda>bs s. (True, s)), SHA256_Final = (\<lambda>s. ((True, replicate 32 0), s))\<rparr>"

lemma constant_sha_hash: "Hash_SHA256 constant_sha () x = Inr (replicate 32 0)"
  by (simp add: Hash_SHA256_def Hash_def SHA256_def ResetContext_def constant_sha_def pthen_apply StreamHasher_Final_def SHA256_DIGEST_LENGTH_def overwrite_def)

definition two_leaves :: "byte \<Rightarrow> merkle_tree" where
  "two_leaves b = \<lparr>mt_leaf_nodes = [[1], [b]], mt_root = []\<rparr>"

lemma constant_root: "root_after (CalculateRoot (Hash_SHA256 constant_sha ()) (two_leaves b)) = Some (replicate 32 0)"
proof -
  have n: "2 \<le> length (mt_leaf_nodes (two_leaves b))" "length (mt_leaf_nodes (two_leaves b)) \<le> 2 ^ 63" by (simp_all add: two_leaves_def)
  obtain k where k: "length (mt_leaf_nodes (two_leaves b)) \<le> 2 ^ k"
      "CalculateRoot (Hash_SHA256 constant_sha ()) (two_leaves b) =
        Some (Inr ((two_leaves b)\<lparr>mt_root := tree_root (\<lambda>_. replicate 32 0) k (padded_leaves k (two_leaves b))\<rparr>))"
    by (rule CalculateRoot_tree[OF constant_sha_hash n])
  have "k \<noteq> 0" using k(1) by (intro notI) (simp add: two_leaves_def)
  then show ?thesis using k(2) by (cases k) (simp_all add: root_after_def)
qed

lemma merkle_root_binding_witness:
  "\<exists>k. \<exists>x \<in> tree_inputs (\<lambda>_. replicate 32 0) k (padded_leaves k (two_leaves 2)).
     \<exists>y \<in> tree_inputs (\<lambda>_. replicate 32 0) k (padded_leaves k (two_leaves 3)). x \<noteq> y"
proof -
  have "root_after (CalculateRoot (Hash_SHA256 constant_sha ()) (two_leaves 2)) = root_after (CalculateRoot (Hash_SHA256 constant_sha ()) (two_leaves 3))"
    by (simp only: constant_root)
  from merkle_root_binding[OF constant_sha_hash _ _ _ _ _ this] show ?thesis by (simp add: two_leaves_def)
qed

text \<open>
  Nothing ties the root to the number of leaves: an empty digest after leaves that are no power of two, and the root of any
  tree as the single leaf of another, leave the root as it was.
\<close>

lemma merkle_root_ambiguous:
  assumes "2 \<le> length (mt_leaf_nodes t)" "\<not> IsLog2 (of_nat (length (mt_leaf_nodes t)))"
  shows "root_after (CalculateRoot H (t\<lparr>mt_leaf_nodes := mt_leaf_nodes t @ [[]]\<rparr>)) = root_after (CalculateRoot H t)"
    "CalculateRoot H (t\<lparr>mt_leaf_nodes := [d]\<rparr>) = Some (Inr (t\<lparr>mt_leaf_nodes := [d], mt_root := d\<rparr>))"
proof -
  have "mt_pad (mt_leaf_nodes t) = mt_pad (mt_leaf_nodes t @ [[]])" using assms(2) by (subst mt_pad.simps) simp
  moreover have "mt_leaf_nodes t \<noteq> []" "length (mt_leaf_nodes t) \<noteq> 1" using assms(1) by auto
  ultimately show "root_after (CalculateRoot H (t\<lparr>mt_leaf_nodes := mt_leaf_nodes t @ [[]]\<rparr>)) = root_after (CalculateRoot H t)"
    by (auto simp: CalculateRoot_def root_after_def ebind_def split: option.split sum.split)
  show "CalculateRoot H (t\<lparr>mt_leaf_nodes := [d]\<rparr>) = Some (Inr (t\<lparr>mt_leaf_nodes := [d], mt_root := d\<rparr>))"
    by (simp add: CalculateRoot_def)
qed

subsection \<open>Identities\<close>

text \<open>
  Identities are strictly and totally ordered, in agreement with equality; one that is read back is the one written when it
  is valid and otherwise the invalid one.
\<close>

lemma identity_order:
  "\<not> (identity_less i j \<and> identity_less j i)" "identity_less i j \<or> identity_eq i j \<or> identity_less j i"
  "identity_less i j \<Longrightarrow> \<not> identity_eq i j" "identity_less i j \<Longrightarrow> identity_less j k \<Longrightarrow> identity_less i k"
  by (auto simp: identity_less_def identity_eq_def split: if_splits)

lemma identity_roundtrip:
  "identity_deserialize (identity_serialize i [] @ rest) = Some (if identity_valid i then i else InvalidIdentity, rest)"
  by (cases i) (simp add: identity_serialize_def identity_deserialize_def Let_def)

end
