(* ===== verification/Signatures.thy ===== *)
theory Signatures
  imports Hashing
begin

text \<open>
  Keys and signatures of the ledger library (\<^verbatim>\<open>fetch_teams/ledger/experimental/crypto\<close>): \<^verbatim>\<open>openssl_common.hpp\<close>,
  \<^verbatim>\<open>openssl_ecdsa_public_key.hpp\<close>, \<^verbatim>\<open>openssl_ecdsa_private_key.hpp\<close>, \<^verbatim>\<open>ecdsa_signature.hpp\<close>, \<^verbatim>\<open>ecdsa.hpp\<close>,
  \<^verbatim>\<open>verify.cpp\<close> and the sessions of \<^verbatim>\<open>openssl_context_session.hpp\<close>. The curve and its signatures are OpenSSL's
  and a parameter, with a type \<open>'p\<close> of points; a big number is a natural number, a byte array its list of bytes. Reading past
  the end of an array is undefined.
\<close>

subsection \<open>Big numbers\<close>

definition bn_value :: "byte list \<Rightarrow> nat" where
  "bn_value bs = foldl (\<lambda>v b. v * 256 + unat b) 0 bs"

fun bn_bytes :: "nat \<Rightarrow> byte list" where
  "bn_bytes n = (if n = 0 then [] else bn_bytes (n div 256) @ [of_nat (n mod 256)])"

declare bn_bytes.simps [simp del]

definition BN_num_bytes :: "nat \<Rightarrow> nat" where
  "BN_num_bytes n = length (bn_bytes n)"

text \<open>\<^verbatim>\<open>BN_bin2bn(p, len, n)\<close> reads \<open>len\<close> bytes, whatever the array at \<open>p\<close> holds.\<close>

definition BN_bin2bn :: "byte list \<Rightarrow> nat \<Rightarrow> exn + nat" where
  "BN_bin2bn p len = (if length p < len then Inl Undefined else Inr (bn_value (take len p)))"

subsection \<open>Pairs of coordinates\<close>

definition privateKeySize :: nat where
  "privateKeySize = 32"

definition signatureSize :: nat where
  "signatureSize = 64"

definition x_size :: nat where
  "x_size = publicKeySize div 2"

definition y_size :: nat where
  "y_size = x_size"

datatype eECDSAEncoding = canonical | bin | DER

text \<open>
  \<^verbatim>\<open>Convert2Canonical\<close>: the index where a number starts is a difference of unsigned numbers. A first number that is
  too long makes it wrap around, a second one of up to 64 bytes is written over the first. \<^verbatim>\<open>BN_bn2bin\<close> returns
  how many bytes it wrote, so that zero counts as its failure.
\<close>

definition Convert2Canonical :: "nat \<Rightarrow> nat \<Rightarrow> exn + byte list" where
  "Convert2Canonical x y =
     (if x_size < BN_num_bytes x then Inl Undefined
      else if BN_num_bytes x = 0 then Inl (RuntimeError ''BN_bn2bin(r, ...) failed.'')
      else if x_size + y_size < BN_num_bytes y then Inl Undefined
      else if BN_num_bytes y = 0 then Inl (RuntimeError ''BN_bn2bin(r, ...) failed.'')
      else Inr (take (x_size + y_size - BN_num_bytes y)
                  (replicate (x_size - BN_num_bytes x) 0 @ bn_bytes x @ replicate (y_size - BN_num_bytes y) 0) @ bn_bytes y))"

definition ConvertFromCanonical :: "byte list \<Rightarrow> exn + nat \<times> nat" where
  "ConvertFromCanonical bin_data =
     ebind (BN_bin2bn bin_data x_size) (\<lambda>x.
     ebind (BN_bin2bn (drop x_size bin_data) y_size) (\<lambda>y. Inr (x, y)))"

subsection \<open>The library\<close>

record 'p ec_library =
  ec_key_new :: bool
  ec_group_new :: bool
  ec_point_new :: bool
  ec_generate_key :: "(nat \<times> 'p) option"
  ec_mul :: "nat \<Rightarrow> 'p option"
  ec_get_affine :: "'p \<Rightarrow> (nat \<times> nat) option"
  ec_set_affine :: "nat \<Rightarrow> nat \<Rightarrow> 'p option"
  ec_point2bn :: "'p \<Rightarrow> nat option"
  ec_bn2point :: "nat \<Rightarrow> 'p option"
  ec_set_private_key :: "nat \<Rightarrow> bool"
  ec_set_public_key :: "'p \<Rightarrow> bool"
  ec_do_sign :: "nat \<Rightarrow> byte list \<Rightarrow> (nat \<times> nat) option"
  ec_do_verify :: "'p \<Rightarrow> byte list \<Rightarrow> nat \<times> nat \<Rightarrow> int"
  ec_i2d_SIG :: "nat \<times> nat \<Rightarrow> byte list"
  ec_d2i_SIG :: "byte list \<Rightarrow> (nat \<times> nat) option"
  ec_i2d_PrivateKey :: "nat \<times> 'p option \<Rightarrow> byte list"
  ec_d2i_PrivateKey :: "byte list \<Rightarrow> (nat \<times> 'p option) option"

subsection \<open>Public keys\<close>

record 'p public_key =
  pb_point :: "'p option"
  pb_key :: "'p option"
  pb_binary :: "byte list"

definition pub_default :: "'p public_key" where
  "pub_default = \<lparr>pb_point = None, pb_key = None, pb_binary = []\<rparr>"

text \<open>The form of conversion is set on the new key before anything looks whether there is one.\<close>

definition ConvertToECKEY :: "'p ec_library \<Rightarrow> 'p \<Rightarrow> exn + 'p" where
  "ConvertToECKEY lib p =
     (if \<not> ec_key_new lib then Inl Undefined
      else if ec_set_public_key lib p then Inr p
      else Inl (RuntimeError ''EC_KEY_set_public_key(...) failed.''))"

text \<open>What getting the coordinates answers is not looked at: when it fails they are the zeros of new numbers.\<close>

definition pub_Convert2Canonical :: "'p ec_library \<Rightarrow> 'p \<Rightarrow> exn + byte list" where
  "pub_Convert2Canonical lib p =
     (case ec_get_affine lib p of None \<Rightarrow> Convert2Canonical 0 0 | Some (x, y) \<Rightarrow> Convert2Canonical x y)"

definition pub_Convert2Bin :: "'p ec_library \<Rightarrow> 'p \<Rightarrow> exn + byte list" where
  "pub_Convert2Bin lib p = (case ec_point2bn lib p of
     None \<Rightarrow> Inl (RuntimeError ''EC_POINT_point2bn(...) failed.'')
   | Some v \<Rightarrow> if BN_num_bytes v = 0 then Inl (RuntimeError ''BN_bn2bin(...) failed.'') else Inr (bn_bytes v))"

definition pub_Convert :: "'p ec_library \<Rightarrow> eECDSAEncoding \<Rightarrow> 'p \<Rightarrow> exn + byte list" where
  "pub_Convert lib enc p = (case enc of
     canonical \<Rightarrow> pub_Convert2Canonical lib p
   | bin \<Rightarrow> pub_Convert2Bin lib p
   | DER \<Rightarrow> Inl (LogicError ''Conversion in to DER encoded data is NOT implemented yet.''))"

definition pub_of_point :: "'p ec_library \<Rightarrow> eECDSAEncoding \<Rightarrow> 'p \<Rightarrow> exn + 'p public_key" where
  "pub_of_point lib enc p =
     ebind (ConvertToECKEY lib p) (\<lambda>k.
     ebind (pub_Convert lib enc p) (\<lambda>b. Inr \<lparr>pb_point = Some p, pb_key = Some k, pb_binary = b\<rparr>))"

definition pub_ConvertFromCanonical :: "'p ec_library \<Rightarrow> byte list \<Rightarrow> exn + 'p" where
  "pub_ConvertFromCanonical lib key_data =
     (if \<not> ec_group_new lib \<or> \<not> ec_point_new lib then Inl Undefined
      else ebind (ConvertFromCanonical key_data) (\<lambda>(x, y). case ec_set_affine lib x y of
             None \<Rightarrow> Inl (RuntimeError ''EC_POINT_set_affine_coordinates_GFp(...) function failed.'')
           | Some p \<Rightarrow> Inr p))"

definition pub_ConvertFromBin :: "'p ec_library \<Rightarrow> byte list \<Rightarrow> exn + 'p" where
  "pub_ConvertFromBin lib key_data =
     ebind (BN_bin2bn key_data (length key_data)) (\<lambda>v.
     if \<not> ec_group_new lib \<or> \<not> ec_point_new lib then Inl Undefined
     else (case ec_bn2point lib v of
             None \<Rightarrow> Inl (RuntimeError ''EC_POINT_bn2point(...) failed.'') | Some p \<Rightarrow> Inr p))"

definition pub_from_bytes :: "'p ec_library \<Rightarrow> eECDSAEncoding \<Rightarrow> byte list \<Rightarrow> exn + 'p public_key" where
  "pub_from_bytes lib enc key_data =
     ebind (case enc of
              canonical \<Rightarrow> pub_ConvertFromCanonical lib key_data
            | bin \<Rightarrow> pub_ConvertFromBin lib key_data
            | DER \<Rightarrow> Inl (LogicError ''Conversion from DER encoded data is NOT implemented yet.'')) (\<lambda>p.
     ebind (ConvertToECKEY lib p) (\<lambda>k. Inr \<lparr>pb_point = Some p, pb_key = Some k, pb_binary = key_data\<rparr>))"

text \<open>A copy in another encoding; converting the missing point of a default key is undefined.\<close>

definition pub_copy :: "'p ec_library \<Rightarrow> eECDSAEncoding \<Rightarrow> eECDSAEncoding \<Rightarrow> 'p public_key \<Rightarrow> exn + 'p public_key" where
  "pub_copy lib from_enc enc from_key =
     (if from_enc = enc then Inr from_key
      else if \<not> ec_group_new lib then Inl Undefined
      else (case pb_point from_key of
              None \<Rightarrow> Inl Undefined
            | Some p \<Rightarrow> ebind (pub_Convert lib enc p) (\<lambda>b. Inr (from_key\<lparr>pb_binary := b\<rparr>))))"

subsection \<open>Private keys\<close>

text \<open>The \<^verbatim>\<open>EC_KEY\<close> of a private key holds the number and the point.\<close>

record 'p private_key =
  pv_number :: nat
  pv_point :: "'p option"
  pv_public :: "'p public_key"

fun SupportedEncodingForPublicKey :: "eECDSAEncoding \<Rightarrow> eECDSAEncoding" where
  "SupportedEncodingForPublicKey DER = bin"
| "SupportedEncodingForPublicKey enc = enc"

definition Convert2BIGNUM :: "byte list \<Rightarrow> exn + nat" where
  "Convert2BIGNUM key_data =
     (if privateKeySize < length key_data
      then Inl (RuntimeError ''Length of provided byte array does not correspond to expected length for selected elliptic curve'')
      else BN_bin2bn key_data privateKeySize)"

definition ConvertPrivateKeyBN2ECKEY :: "'p ec_library \<Rightarrow> nat \<Rightarrow> exn + nat" where
  "ConvertPrivateKeyBN2ECKEY lib n =
     (if \<not> ec_key_new lib then Inl Undefined
      else if ec_set_private_key lib n then Inr n
      else Inl (RuntimeError ''EC_KEY_set_private_key(...) failed.''))"

text \<open>The point that the key has already gives its memory, if it has one.\<close>

definition DerivePublicKey :: "'p ec_library \<Rightarrow> eECDSAEncoding \<Rightarrow> nat \<Rightarrow> 'p option \<Rightarrow> exn + 'p option \<times> 'p public_key" where
  "DerivePublicKey lib enc n existing =
     (if existing = None \<and> \<not> ec_point_new lib then Inl (RuntimeError ''EC_POINT_(new/dup)(...) failed.'')
      else case ec_mul lib n of
             None \<Rightarrow> Inl (RuntimeError ''EC_POINT_mul(...) failed.'')
           | Some p \<Rightarrow>
               if \<not> ec_set_public_key lib p then Inl (RuntimeError ''EC_KEY_set_public_key(...) failed.'')
               else ebind (pub_of_point lib enc p) (\<lambda>k. Inr (Some p, k)))"

definition priv_from_bin :: "'p ec_library \<Rightarrow> eECDSAEncoding \<Rightarrow> byte list \<Rightarrow> exn + 'p private_key" where
  "priv_from_bin lib enc key_data =
     ebind (Convert2BIGNUM key_data) (\<lambda>n.
     ebind (ConvertPrivateKeyBN2ECKEY lib n) (\<lambda>k.
     ebind (DerivePublicKey lib (SupportedEncodingForPublicKey enc) n None) (\<lambda>(pt, public).
     Inr \<lparr>pv_number = k, pv_point = pt, pv_public = public\<rparr>)))"

definition priv_from_DER :: "'p ec_library \<Rightarrow> eECDSAEncoding \<Rightarrow> byte list \<Rightarrow> exn + 'p private_key" where
  "priv_from_DER lib enc key_data =
     (if \<not> ec_key_new lib then Inl Undefined
      else case ec_d2i_PrivateKey lib key_data of
             None \<Rightarrow> Inl (RuntimeError ''d2i_ECPrivateKey(...) failed.'')
           | Some (n, existing) \<Rightarrow>
               ebind (DerivePublicKey lib (SupportedEncodingForPublicKey enc) n existing) (\<lambda>(pt, public).
               Inr \<lparr>pv_number = n, pv_point = pt, pv_public = public\<rparr>))"

definition priv_from_bytes :: "'p ec_library \<Rightarrow> eECDSAEncoding \<Rightarrow> byte list \<Rightarrow> exn + 'p private_key" where
  "priv_from_bytes lib enc key_data = (case enc of DER \<Rightarrow> priv_from_DER lib enc key_data | _ \<Rightarrow> priv_from_bin lib enc key_data)"

definition GenerateKeyPair :: "'p ec_library \<Rightarrow> exn + nat \<times> 'p" where
  "GenerateKeyPair lib =
     (if \<not> ec_key_new lib then Inl Undefined
      else case ec_generate_key lib of None \<Rightarrow> Inl (RuntimeError ''EC_KEY_generate_key(...) failed.'') | Some k \<Rightarrow> Inr k)"

definition ExtractPublicKey :: "'p ec_library \<Rightarrow> eECDSAEncoding \<Rightarrow> 'p \<Rightarrow> exn + 'p public_key" where
  "ExtractPublicKey lib enc p =
     (if \<not> ec_point_new lib then Inl (RuntimeError ''EC_POINT_dup(...) failed.'') else pub_of_point lib enc p)"

definition priv_generate :: "'p ec_library \<Rightarrow> eECDSAEncoding \<Rightarrow> exn + 'p private_key" where
  "priv_generate lib enc =
     ebind (GenerateKeyPair lib) (\<lambda>(n, p).
     ebind (ExtractPublicKey lib (SupportedEncodingForPublicKey enc) p) (\<lambda>public.
     Inr \<lparr>pv_number = n, pv_point = Some p, pv_public = public\<rparr>))"

definition priv_Convert2Bin :: "nat \<Rightarrow> exn + byte list" where
  "priv_Convert2Bin n = (if BN_num_bytes n = 0 then Inl (RuntimeError ''BN_bn2bin(...) failed.'') else Inr (bn_bytes n))"

definition priv_Convert2DER :: "'p ec_library \<Rightarrow> 'p private_key \<Rightarrow> exn + byte list" where
  "priv_Convert2DER lib k =
     (let der = ec_i2d_PrivateKey lib (pv_number k, pv_point k)
      in if der = [] then Inl (RuntimeError ''i2d_ECPrivateKey(..., nullptr) failed.'') else Inr der)"

definition KeyAsBin :: "'p ec_library \<Rightarrow> eECDSAEncoding \<Rightarrow> 'p private_key \<Rightarrow> exn + byte list" where
  "KeyAsBin lib enc k = (case enc of DER \<Rightarrow> priv_Convert2DER lib k | _ \<Rightarrow> priv_Convert2Bin (pv_number k))"

definition priv_copy :: "'p ec_library \<Rightarrow> eECDSAEncoding \<Rightarrow> eECDSAEncoding \<Rightarrow> 'p private_key \<Rightarrow> exn + 'p private_key" where
  "priv_copy lib from_enc enc from_key =
     ebind (pub_copy lib (SupportedEncodingForPublicKey from_enc) (SupportedEncodingForPublicKey enc) (pv_public from_key))
       (\<lambda>public. Inr (from_key\<lparr>pv_public := public\<rparr>))"

subsection \<open>Signatures\<close>

record signature =
  sg_hash :: "byte list"
  sg_pair :: "(nat \<times> nat) option"
  sg_binary :: "byte list"

definition sig_default :: signature where
  "sig_default = \<lparr>sg_hash = [], sg_pair = None, sg_binary = []\<rparr>"

definition sig_Convert :: "'p ec_library \<Rightarrow> eECDSAEncoding \<Rightarrow> nat \<times> nat \<Rightarrow> exn + byte list" where
  "sig_Convert lib enc rs = (case enc of
     DER \<Rightarrow> (let der = ec_i2d_SIG lib rs in
              if der = [] then Inl (RuntimeError ''i2d_ECDSA_SIG(..., nullptr) failed.'') else Inr der)
   | _ \<Rightarrow> Convert2Canonical (fst rs) (snd rs))"

definition sig_ConvertFrom :: "'p ec_library \<Rightarrow> eECDSAEncoding \<Rightarrow> byte list \<Rightarrow> exn + nat \<times> nat" where
  "sig_ConvertFrom lib enc bin_sig = (case enc of
     DER \<Rightarrow> (case ec_d2i_SIG lib bin_sig of None \<Rightarrow> Inl (RuntimeError ''d2i_ECDSA_SIG(...) failed.'') | Some rs \<Rightarrow> Inr rs)
   | _ \<Rightarrow> ConvertFromCanonical bin_sig)"

definition sig_from_bytes :: "'p ec_library \<Rightarrow> eECDSAEncoding \<Rightarrow> byte list \<Rightarrow> exn + signature" where
  "sig_from_bytes lib enc binary_signature =
     ebind (sig_ConvertFrom lib enc binary_signature) (\<lambda>rs. Inr \<lparr>sg_hash = [], sg_pair = Some rs, sg_binary = binary_signature\<rparr>)"

definition sig_copy :: "'p ec_library \<Rightarrow> eECDSAEncoding \<Rightarrow> eECDSAEncoding \<Rightarrow> signature \<Rightarrow> exn + signature" where
  "sig_copy lib from_enc enc from_sig =
     (if from_enc = enc then Inr from_sig
      else case sg_pair from_sig of
             None \<Rightarrow> Inl Undefined
           | Some rs \<Rightarrow> ebind (sig_Convert lib enc rs) (\<lambda>b. Inr (from_sig\<lparr>sg_binary := b\<rparr>)))"

definition CreateSignature :: "'p ec_library \<Rightarrow> 'p private_key \<Rightarrow> byte list \<Rightarrow> exn + nat \<times> nat" where
  "CreateSignature lib private h = (case ec_do_sign lib (pv_number private) h of
     None \<Rightarrow> Inl (RuntimeError ''CreateSignature(..., hash, ...): ECDSA_do_sign(...) failed.'')
   | Some rs \<Rightarrow> Inr rs)"

definition SignHash :: "'p ec_library \<Rightarrow> eECDSAEncoding \<Rightarrow> 'p private_key \<Rightarrow> byte list \<Rightarrow> exn + signature" where
  "SignHash lib enc private h =
     ebind (CreateSignature lib private h) (\<lambda>rs.
     ebind (sig_Convert lib enc rs) (\<lambda>b. Inr \<lparr>sg_hash = h, sg_pair = Some rs, sg_binary = b\<rparr>))"

definition Sign :: "'p ec_library \<Rightarrow> (byte list \<Rightarrow> exn + byte list) \<Rightarrow> eECDSAEncoding \<Rightarrow> 'p private_key \<Rightarrow> byte list \<Rightarrow> exn + signature" where
  "Sign lib hasher enc private data = ebind (hasher data) (SignHash lib enc private)"

definition VerifyHash :: "'p ec_library \<Rightarrow> signature \<Rightarrow> 'p public_key \<Rightarrow> byte list \<Rightarrow> exn + bool" where
  "VerifyHash lib sg public h = (case (sg_pair sg, pb_key public) of
     (Some rs, Some p) \<Rightarrow>
       (let res = ec_do_verify lib p h rs in
        if res = 1 then Inr True else if res = 0 then Inr False
        else Inl (RuntimeError ''VerifyHash(): ECDSA_do_verify(...) failed.''))
   | _ \<Rightarrow> Inl Undefined)"

definition sig_Verify :: "'p ec_library \<Rightarrow> (byte list \<Rightarrow> exn + byte list) \<Rightarrow> signature \<Rightarrow> 'p public_key \<Rightarrow> byte list \<Rightarrow> exn + bool" where
  "sig_Verify lib hasher sg public data = ebind (hasher data) (VerifyHash lib sg public)"

subsection \<open>Signers and verifiers\<close>

text \<open>
  \<^verbatim>\<open>ecdsa.hpp\<close>: the state of a signer is its private key, reached under a lock that each operation takes once. Identities are
  those of Hashing.
\<close>

definition signer_SetPrivateKey :: "'p ec_library \<Rightarrow> byte list \<Rightarrow> ('p private_key, unit) prog" where
  "signer_SetPrivateKey lib key_data = pbind (plift (priv_from_bytes lib canonical key_data)) (\<lambda>k. pmodify (\<lambda>_. k))"

definition signer_Load :: "'p ec_library \<Rightarrow> byte list \<Rightarrow> ('p private_key, unit) prog" where
  "signer_Load lib key_data = signer_SetPrivateKey lib key_data"

definition signer_GenerateKeys :: "'p ec_library \<Rightarrow> ('p private_key, unit) prog" where
  "signer_GenerateKeys lib = pbind (plift (priv_generate lib canonical)) (\<lambda>k. pmodify (\<lambda>_. k))"

definition signer_Sign :: "'p ec_library \<Rightarrow> (byte list \<Rightarrow> exn + byte list) \<Rightarrow> byte list \<Rightarrow> ('p private_key, byte list) prog" where
  "signer_Sign lib hasher text = pbind (pget (\<lambda>k. k)) (\<lambda>k. pbind (plift (Sign lib hasher canonical k text)) (\<lambda>sg. pret (sg_binary sg)))"

definition signer_public_key :: "'p private_key \<Rightarrow> byte list" where
  "signer_public_key k = pb_binary (pv_public k)"

definition signer_private_key :: "'p ec_library \<Rightarrow> 'p private_key \<Rightarrow> exn + byte list" where
  "signer_private_key lib k = KeyAsBin lib canonical k"

definition signer_identity :: "'p private_key \<Rightarrow> identity" where
  "signer_identity k = \<lparr>id_parameters = curve_sn, id_identifier = signer_public_key k\<rparr>"

record 'p verifier =
  vf_identity :: identity
  vf_public_key :: "'p public_key"

definition ECDSAVerifier :: "'p ec_library \<Rightarrow> identity \<Rightarrow> exn + 'p verifier" where
  "ECDSAVerifier lib ident =
     ebind (if identity_valid ident then pub_from_bytes lib canonical (id_identifier ident) else Inr pub_default) (\<lambda>k.
     Inr \<lparr>vf_identity = ident, vf_public_key = k\<rparr>)"

definition verifier_Verify :: "'p ec_library \<Rightarrow> (byte list \<Rightarrow> exn + byte list) \<Rightarrow> 'p verifier \<Rightarrow> byte list \<Rightarrow> byte list \<Rightarrow> exn + bool" where
  "verifier_Verify lib hasher v data signature =
     (if \<not> identity_valid (vf_identity v) then Inr False
      else ebind (sig_from_bytes lib canonical signature) (\<lambda>sig. sig_Verify lib hasher sig (vf_public_key v) data))"

definition Verifier_Verify :: "'p ec_library \<Rightarrow> (byte list \<Rightarrow> exn + byte list) \<Rightarrow> identity \<Rightarrow> byte list \<Rightarrow> byte list \<Rightarrow> exn + bool" where
  "Verifier_Verify lib hasher ident data signature =
     ebind (ECDSAVerifier lib ident) (\<lambda>v. verifier_Verify lib hasher v data signature)"

definition Verify :: "'p ec_library \<Rightarrow> (byte list \<Rightarrow> exn + byte list) \<Rightarrow> byte list \<Rightarrow> byte list \<Rightarrow> byte list \<Rightarrow> exn + bool" where
  "Verify lib hasher key data signature = Verifier_Verify lib hasher (Identity_of key) data signature"

subsection \<open>Sessions of a context\<close>

text \<open>The state is how deep the context is nested; a session starts it once and ends it once.\<close>

record ossl_session =
  os_started :: bool

definition session_start :: "ossl_session \<Rightarrow> (nat, ossl_session) prog" where
  "session_start se = (if os_started se then pret se else pthen (pmodify Suc) (pret (se\<lparr>os_started := True\<rparr>)))"

definition session_new :: "bool \<Rightarrow> (nat, ossl_session) prog" where
  "session_new is_already_started = session_start \<lparr>os_started = is_already_started\<rparr>"

definition session_end :: "ossl_session \<Rightarrow> (nat, ossl_session) prog" where
  "session_end se = (if \<not> os_started se then pret se else pthen (pmodify (\<lambda>d. d - 1)) (pret (se\<lparr>os_started := False\<rparr>)))"

lemma session_balanced:
  "\<exists>se. session_new False d = (Inr se, Suc d) \<and> os_started se \<and> session_start se = pret se \<and>
     (\<exists>se'. session_end se (Suc d) = (Inr se', d) \<and> session_end se' = pret se')"
  by (simp add: session_new_def session_start_def session_end_def pthen_apply)

subsection \<open>Bytes of numbers\<close>

lemma bn_value_Nil [simp]: "bn_value [] = 0"
  by (simp add: bn_value_def)

lemma bn_value_snoc [simp]: "bn_value (bs @ [b]) = bn_value bs * 256 + unat b"
  by (simp add: bn_value_def)

lemma unat_byte: "unat (of_nat (n mod 256) :: byte) = n mod 256"
  by (simp add: unsigned_of_nat take_bit_eq_mod)

lemma bn_bytes_0 [simp]: "bn_bytes 0 = []"
  by (simp add: bn_bytes.simps)

lemma bn_value_bytes [simp]: "bn_value (bn_bytes n) = n"
proof (induction n rule: bn_bytes.induct)
  case (1 n)
  then show ?case by (cases "n = 0") (simp_all add: bn_bytes.simps [of n] unat_byte)
qed

lemma bn_bytes_value: "bn_bytes (bn_value bs) = dropWhile (\<lambda>b. b = 0) bs"
proof (induction bs rule: rev_induct)
  case (snoc b bs)
  have u: "unat b < 256" using unsigned_less [of b] by simp
  then have d: "(bn_value bs * 256 + unat b) div 256 = bn_value bs" "(bn_value bs * 256 + unat b) mod 256 = unat b" by simp_all
  have b: "(of_nat (unat b) :: byte) = b" by simp
  show ?case
  proof (cases "bn_value bs * 256 + unat b = 0")
    case True
    then have "bn_bytes (bn_value bs) = []" "b = 0" by (simp_all add: unat_eq_0)
    then have "dropWhile (\<lambda>b. b = 0) bs = []" using snoc by simp
    then show ?thesis using True \<open>b = 0\<close> by (simp add: dropWhile_eq_Nil_conv dropWhile_append2)
  next
    case False
    then have e: "bn_bytes (bn_value (bs @ [b])) = dropWhile (\<lambda>b. b = 0) bs @ [b]"
      by (simp add: bn_bytes.simps [of "bn_value bs * 256 + unat b"] d b snoc mod_less [OF u])
    show ?thesis
    proof (cases "\<forall>c \<in> set bs. c = 0")
      case True
      then have z: "dropWhile (\<lambda>b. b = 0) bs = []" by simp
      then have "bn_bytes (bn_value bs) = []" using snoc by simp
      then have "bn_value bs = 0" by (metis bn_value_Nil bn_value_bytes)
      then have "b \<noteq> 0" using False by auto
      then show ?thesis unfolding e using True z by (simp add: dropWhile_append2)
    next
      case False
      then show ?thesis unfolding e by (auto simp: dropWhile_append1)
    qed
  qed
qed simp

lemma bn_bytes_Nil_iff [simp]: "bn_bytes n = [] \<longleftrightarrow> n = 0"
  by (metis bn_bytes_0 bn_value_Nil bn_value_bytes)

lemma bn_bytes_length: "n < 256 ^ k \<Longrightarrow> length (bn_bytes n) \<le> k"
proof (induction n arbitrary: k rule: bn_bytes.induct)
  case (1 n)
  show ?case
  proof (cases "n = 0")
    case False
    then obtain j where k: "k = Suc j" using 1(2) by (cases k) auto
    then have "n div 256 < 256 ^ j" using 1(2) by (simp add: less_mult_imp_div_less mult.commute)
    then show ?thesis using 1(1) [OF False, of j] False k by (simp add: bn_bytes.simps [of n])
  qed simp
qed

lemma bn_value_zeros: "bn_value (replicate k 0 @ bs) = bn_value bs"
  by (induction bs rule: rev_induct) (simp_all add: append_assoc [symmetric] del: append_assoc, induction k, simp_all add: bn_value_def)

lemma bn_num_bytes_0 [simp]: "BN_num_bytes n = 0 \<longleftrightarrow> n = 0"
  by (simp add: BN_num_bytes_def)

lemma canonical_halves:
  "\<lbrakk>length xs = 32; length ys = 32\<rbrakk> \<Longrightarrow> ConvertFromCanonical (xs @ ys) = Inr (bn_value xs, bn_value ys)"
  by (simp add: ConvertFromCanonical_def BN_bin2bn_def x_size_def y_size_def publicKeySize_def)

text \<open>Two numbers of at most 32 bytes, neither of them zero, and their 64 bytes.\<close>

lemma canonical_pair:
  assumes "0 < x" "x < 2 ^ 256" "0 < y" "y < 2 ^ 256"
  obtains bs where "Convert2Canonical x y = Inr bs" "length bs = 64" "ConvertFromCanonical bs = Inr (x, y)"
proof -
  have p: "(2::nat) ^ 256 = 256 ^ 32" by (simp add: power_mult [symmetric, of 2 8 32, simplified])
  have x: "length (bn_bytes x) \<le> 32" and y: "length (bn_bytes y) \<le> 32"
    using assms(2,4) unfolding p by (auto intro: bn_bytes_length)
  let ?x = "replicate (32 - length (bn_bytes x)) 0 @ bn_bytes x" and ?y = "replicate (32 - length (bn_bytes y)) 0 @ bn_bytes y"
  have lx: "length ?x = 32" and ly: "length ?y = 32" using x y by simp_all
  have "take (64 - length (bn_bytes y)) (?x @ replicate (32 - length (bn_bytes y)) 0) = ?x @ replicate (32 - length (bn_bytes y)) 0"
    using lx y by simp
  then have "Convert2Canonical x y = Inr (?x @ ?y)"
    using x y assms(1,3) by (simp add: Convert2Canonical_def x_size_def y_size_def publicKeySize_def BN_num_bytes_def)
  moreover have "ConvertFromCanonical (?x @ ?y) = Inr (x, y)"
    using canonical_halves [OF lx ly] by (simp add: bn_value_zeros)
  ultimately show thesis using that lx ly by simp
qed

lemma canonical_outputs:
  assumes "Convert2Canonical x y = Inr bs" "x < 2 ^ 256" "y < 2 ^ 256"
  shows "length bs = 64 \<and> ConvertFromCanonical bs = Inr (x, y)"
proof -
  have "0 < x" "0 < y" using assms(1) by (auto simp: Convert2Canonical_def split: if_splits)
  then show ?thesis using canonical_pair [of x y] assms by auto
qed

text \<open>A canonical array that is too short is read past its end.\<close>

lemma short_canonical_undefined: "length bs < 64 \<Longrightarrow> ConvertFromCanonical bs = Inl Undefined"
  by (auto simp: ConvertFromCanonical_def BN_bin2bn_def x_size_def y_size_def publicKeySize_def)

subsection \<open>What the library promises\<close>

text \<open>
  Objects can be allocated; the coordinates of a multiple of the generator are numbers of the field, neither of them zero, and
  determine the point; the numbers of a signature are of the group and not zero, and a signature made with a
  number is accepted with its multiple of the generator; a generated pair is such a number with its multiple, which has coordinates.
\<close>

definition ec_lawful :: "'p ec_library \<Rightarrow> bool" where
  "ec_lawful lib \<longleftrightarrow> ec_key_new lib \<and> ec_group_new lib \<and> ec_point_new lib \<and>
     (\<forall>n p x y. ec_mul lib n = Some p \<longrightarrow> ec_get_affine lib p = Some (x, y) \<longrightarrow>
        x < 2 ^ 256 \<and> y < 2 ^ 256 \<and> ec_set_affine lib x y = Some p) \<and>
     (\<forall>n h r s. ec_do_sign lib n h = Some (r, s) \<longrightarrow>
        r < 2 ^ 256 \<and> s < 2 ^ 256 \<and> (\<forall>p. ec_mul lib n = Some p \<longrightarrow> ec_do_verify lib p h (r, s) = 1)) \<and>
     (\<forall>n p. ec_generate_key lib = Some (n, p) \<longrightarrow> ec_mul lib n = Some p)"

lemma canonical_public_key:
  assumes "ec_lawful lib" "ec_mul lib n = Some p" "pub_of_point lib canonical p = Inr k"
  shows "pb_point k = Some p \<and> pb_key k = Some p \<and> length (pb_binary k) = 64 \<and> pub_from_bytes lib canonical (pb_binary k) = Inr k"
proof -
  obtain b where key: "ConvertToECKEY lib p = Inr p" and conv: "pub_Convert2Canonical lib p = Inr b"
    and k: "k = \<lparr>pb_point = Some p, pb_key = Some p, pb_binary = b\<rparr>"
    using assms(3) by (auto simp: pub_of_point_def ebind_Inr_iff pub_Convert_def ConvertToECKEY_def split: if_splits)
  have "Convert2Canonical 0 0 \<noteq> Inr bs" for bs by (simp add: Convert2Canonical_def)
  then obtain x y where xy: "ec_get_affine lib p = Some (x, y)" "Convert2Canonical x y = Inr b"
    using conv by (cases "ec_get_affine lib p") (auto simp: pub_Convert2Canonical_def)
  have l: "x < 2 ^ 256" "y < 2 ^ 256" "ec_set_affine lib x y = Some p" "ec_group_new lib" "ec_point_new lib"
    using assms(1,2) xy(1) unfolding ec_lawful_def by blast+
  from canonical_outputs [OF xy(2) l(1,2)] have "length b = 64" "pub_ConvertFromCanonical lib b = Inr p"
    using l by (simp_all add: pub_ConvertFromCanonical_def)
  then show ?thesis using key k by (simp add: pub_from_bytes_def)
qed

text \<open>The keys that loading and generating give.\<close>

lemma signer_keys:
  assumes "ec_lawful lib" "priv_from_bin lib canonical key_data = Inr k \<or> priv_generate lib canonical = Inr k"
  obtains p where "ec_mul lib (pv_number k) = Some p" "pub_of_point lib canonical p = Inr (pv_public k)"
proof -
  have g: "ec_generate_key lib = Some (n, p) \<Longrightarrow> ec_mul lib n = Some p" for n p using assms(1) unfolding ec_lawful_def by blast
  show thesis
    using assms(2) that g
    by (auto simp: priv_from_bin_def priv_generate_def ebind_Inr_iff DerivePublicKey_def ConvertPrivateKeyBN2ECKEY_def GenerateKeyPair_def
        ExtractPublicKey_def split: if_splits option.splits)
qed

text \<open>
  C36. What a signer signs its identity verifies. With a library that keeps its promises, whatever key a signer has loaded or
  generated, a text that it signs is accepted by the verifier that anybody builds from its identity, which is always
  valid; and nothing on this way is read past its end.
\<close>

theorem signed_text_verifies:
  assumes "ec_lawful lib" "priv_from_bin lib canonical key_data = Inr k \<or> priv_generate lib canonical = Inr k"
    and "signer_Sign lib hasher text k = (Inr signature, k')"
  shows "k' = k \<and> identity_valid (signer_identity k) \<and> length signature = 64 \<and>
    Verifier_Verify lib hasher (signer_identity k) text signature = Inr True"
proof -
  obtain p where p: "ec_mul lib (pv_number k) = Some p" "pub_of_point lib canonical p = Inr (pv_public k)"
    by (rule signer_keys [OF assms(1,2)])
  note pub = canonical_public_key [OF assms(1) p]
  obtain h rs where h: "hasher text = Inr h" and rs: "ec_do_sign lib (pv_number k) h = Some rs"
    and sg: "Convert2Canonical (fst rs) (snd rs) = Inr signature" and k': "k' = k"
  proof -
    obtain sg where sg: "Sign lib hasher canonical k text = Inr sg" "signature = sg_binary sg" "k' = k"
      using assms(3) by (cases "Sign lib hasher canonical k text") (auto simp: signer_Sign_def pbind_apply)
    from sg(1) obtain h rs b where "hasher text = Inr h" "CreateSignature lib k h = Inr rs" "sig_Convert lib canonical rs = Inr b"
      "sg = \<lparr>sg_hash = h, sg_pair = Some rs, sg_binary = b\<rparr>"
      unfolding Sign_def SignHash_def ebind_Inr_iff by blast
    with sg(2,3) that show thesis by (simp add: CreateSignature_def sig_Convert_def split: option.splits)
  qed
  have r: "fst rs < 2 ^ 256" "snd rs < 2 ^ 256" "ec_do_verify lib p h rs = 1"
    using assms(1) rs p(1) unfolding ec_lawful_def by (metis prod.collapse)+
  note c = canonical_outputs [OF sg r(1,2)]
  have valid: "identity_valid (signer_identity k)"
    using pub by (simp add: identity_valid_def signer_identity_def signer_public_key_def publicKeySize_def)
  have "ECDSAVerifier lib (signer_identity k) = Inr \<lparr>vf_identity = signer_identity k, vf_public_key = pv_public k\<rparr>"
    using valid pub by (simp add: ECDSAVerifier_def) (simp add: signer_identity_def signer_public_key_def)
  then show ?thesis
    using valid k' c r(3) h pub
    by (simp add: Verifier_Verify_def verifier_Verify_def sig_from_bytes_def sig_ConvertFrom_def sig_Verify_def VerifyHash_def Let_def)
qed

text \<open>
  C37. A private key that begins with a zero byte does not survive being saved. From 32 bytes that a signer accepts it gives
  back the same bytes without the zeros at their front; loading these again gives the same key if there were no such zeros, and
  otherwise reads past the end of the array.
\<close>

theorem private_key_roundtrip:
  assumes "length key_data = 32" "priv_from_bin lib canonical key_data = Inr k" "KeyAsBin lib canonical k = Inr saved"
  shows "saved = dropWhile (\<lambda>b. b = 0) key_data \<and>
    priv_from_bin lib canonical saved = (if hd key_data \<noteq> 0 then Inr k else Inl Undefined)"
proof -
  have n: "pv_number k = bn_value key_data"
    using assms(1,2)
    by (auto simp: priv_from_bin_def Convert2BIGNUM_def BN_bin2bn_def privateKeySize_def ebind_Inr_iff ConvertPrivateKeyBN2ECKEY_def
        split: if_splits)
  have s: "saved = dropWhile (\<lambda>b. b = 0) key_data"
    using assms(3) by (auto simp: KeyAsBin_def priv_Convert2Bin_def n bn_bytes_value split: if_splits)
  obtain b bs where kd: "key_data = b # bs" using assms(1) by (cases key_data) auto
  show ?thesis
  proof (cases "b = 0")
    case True
    then have "length saved < 32" using assms(1) s kd length_dropWhile_le [of "\<lambda>b. b = 0" bs] by simp
    then show ?thesis using s True kd by (simp add: priv_from_bin_def Convert2BIGNUM_def BN_bin2bn_def privateKeySize_def)
  next
    case False
    then show ?thesis using s kd assms(2) by simp
  qed
qed

text \<open>A signature with less than 64 bytes is not refused: verifying it reads past its end.\<close>

lemma short_signature_undefined:
  assumes "identity_valid (vf_identity v)" "length signature < 64"
  shows "verifier_Verify lib hasher v data signature = Inl Undefined"
  using assms by (simp add: verifier_Verify_def sig_from_bytes_def sig_ConvertFrom_def short_canonical_undefined)

lemma invalid_identity_refuses:
  "\<not> identity_valid ident \<Longrightarrow> Verifier_Verify lib hasher ident data signature = Inr False"
  by (simp add: Verifier_Verify_def ECDSAVerifier_def verifier_Verify_def)

text \<open>A public key in DER can be neither read nor written.\<close>

lemma DER_public_keys_throw:
  "\<exists>e. pub_from_bytes lib DER bs = Inl (LogicError e)" "ec_key_new lib \<Longrightarrow> ec_set_public_key lib p \<Longrightarrow> \<exists>e. pub_of_point lib DER p = Inl (LogicError e)"
  by (simp_all add: pub_from_bytes_def pub_of_point_def ConvertToECKEY_def pub_Convert_def)

text \<open>A library that keeps its promises: a point is its number, and the signature of a text repeats it.\<close>

definition toy_ec :: "nat ec_library" where
  "toy_ec = \<lparr>ec_key_new = True, ec_group_new = True, ec_point_new = True, ec_generate_key = Some (7, 7),
     ec_mul = (\<lambda>n. if n < 2 ^ 256 then Some n else None), ec_get_affine = (\<lambda>p. Some (p, p)), ec_set_affine = (\<lambda>x y. Some x),
     ec_point2bn = Some, ec_bn2point = Some, ec_set_private_key = (\<lambda>n. True), ec_set_public_key = (\<lambda>p. True),
     ec_do_sign = (\<lambda>n h. if n < 2 ^ 256 then Some (n, 1) else None), ec_do_verify = (\<lambda>p h rs. if fst rs = p then 1 else 0),
     ec_i2d_SIG = (\<lambda>rs. []), ec_d2i_SIG = (\<lambda>bs. None), ec_i2d_PrivateKey = (\<lambda>k. []), ec_d2i_PrivateKey = (\<lambda>bs. None)\<rparr>"

lemma toy_ec_lawful: "ec_lawful toy_ec"
  by (auto simp: ec_lawful_def toy_ec_def split: if_splits)

lemma toy_canonical: "0 < x \<Longrightarrow> x < 2 ^ 256 \<Longrightarrow> 0 < y \<Longrightarrow> y < 2 ^ 256 \<Longrightarrow> \<exists>bs. Convert2Canonical x y = Inr bs"
  using canonical_pair by metis

lemma toy_key:
  assumes "0 < n" "n < 2 ^ 256" "bn_value key_data = n" "length key_data = 32"
  shows "\<exists>k. priv_from_bin toy_ec canonical key_data = Inr k \<and> pv_number k = n"
  using assms toy_canonical [of n n]
  by (auto simp: priv_from_bin_def Convert2BIGNUM_def BN_bin2bn_def privateKeySize_def ConvertPrivateKeyBN2ECKEY_def DerivePublicKey_def
      toy_ec_def pub_of_point_def ConvertToECKEY_def pub_Convert_def pub_Convert2Canonical_def)

theorem signed_text_verifies_witness:
  "\<exists>(k :: nat private_key) signature. Verifier_Verify toy_ec Inr (signer_identity k) [1, 2] signature = Inr True"
proof -
  have "bn_value (replicate 31 0 @ [5]) = 5" by (simp only: bn_value_zeros) (simp add: bn_value_def)
  then obtain k where k: "priv_from_bin toy_ec canonical (replicate 31 0 @ [5]) = Inr k" "pv_number k = 5"
    using toy_key [of 5 "replicate 31 0 @ [5]"] by auto
  obtain bs where bs: "Convert2Canonical 5 (Suc 0) = Inr bs" using toy_canonical [of 5 1] by auto
  have "signer_Sign toy_ec Inr [1, 2] k = (Inr bs, k)"
    by (simp add: signer_Sign_def pbind_apply Sign_def SignHash_def CreateSignature_def sig_Convert_def k(2) toy_ec_def bs)
  from signed_text_verifies [OF toy_ec_lawful disjI1 [OF k(1)] this] show ?thesis by blast
qed

theorem private_key_roundtrip_witness:
  "priv_from_bin toy_ec canonical [5] = Inl Undefined"
proof -
  have v: "bn_value (replicate 31 0 @ [5]) = 5" by (simp only: bn_value_zeros) (simp add: bn_value_def)
  then obtain k where k: "priv_from_bin toy_ec canonical (replicate 31 0 @ [5]) = Inr k" "pv_number k = 5"
    using toy_key [of 5 "replicate 31 0 @ [5]"] by auto
  have d: "dropWhile (\<lambda>b. b = 0) (replicate 31 0 @ [5]) = [5::byte]" by (subst dropWhile_append2) auto
  have "bn_bytes 5 = [5]" using bn_bytes_value [of "replicate 31 0 @ [5]"] v d by simp
  then have "KeyAsBin toy_ec canonical k = Inr [5]" by (simp add: KeyAsBin_def priv_Convert2Bin_def k(2))
  from private_key_roundtrip [OF _ k(1) this] show ?thesis by simp
qed

end
