(* ===== verification/Logs.thy ===== *)
theory Logs
  imports CxxStd Queries
begin

text \<open>
  The loggers of \<^verbatim>\<open>fetch_teams/ledger\<close>: the terminal codes of \<^verbatim>\<open>vt100.hpp\<close>, and of \<^verbatim>\<open>logger.hpp\<close> and
  \<^verbatim>\<open>logger.cpp\<close> the numbers of the threads, the contexts with their scoped life, the entries written at each
  level, the stack traces, the timings and the mutexes that guard all of it. A context is never changed once
  made and only points to contexts that were there before it, so a shared pointer to one is its value. The
  streams are the text written to them. What the standard library prints for a time, a pointer and a double
  is a parameter, and so is the arithmetic of doubles.
\<close>

subsection \<open>Terminal codes\<close>

definition escape_str :: string where
  "escape_str = char_of (27 :: nat) # ''[''"

definition color_map :: "(string \<times> u16) list" where
  "color_map =
     [(''black'', 0), (''red'', 1), (''green'', 2), (''yellow'', 3), (''blue'', 4), (''magenta'', 5),
      (''cyan'', 6), (''white'', 7), (''default'', 9), (''0'', 0), (''1'', 1), (''2'', 2),
      (''3'', 3), (''4'', 4), (''5'', 5), (''6'', 6), (''7'', 7), (''9'', 9)]"

definition lower_char :: "char \<Rightarrow> char" where
  "lower_char c = (if 65 \<le> (of_char c :: nat) \<and> (of_char c :: nat) \<le> 90 then char_of (of_char c + 32 :: nat) else c)"

definition ColorFromString :: "string \<Rightarrow> u16" where
  "ColorFromString name = (case map_of color_map (map lower_char name) of None \<Rightarrow> 9 | Some v \<Rightarrow> v)"

definition GetColor :: "bool \<Rightarrow> int \<Rightarrow> int \<Rightarrow> string" where
  "GetColor colour fg bg =
     (if \<not> colour then [] else escape_str @ ''3'' @ int_str fg @ '';4'' @ int_str bg @ ''m'')"

definition GetColor_names :: "bool \<Rightarrow> string \<Rightarrow> string \<Rightarrow> string" where
  "GetColor_names colour f b =
     (if \<not> colour then []
      else let fg = ColorFromString f; bg = ColorFromString b in
        escape_str @ ''3'' @ nat_str (unat fg) @ '';4'' @ nat_str (unat bg) @ ''m'')"

definition DefaultAttributes :: "bool \<Rightarrow> string" where
  "DefaultAttributes colour = (if colour then escape_str @ ''0m'' else [])"

definition ClearScreen :: string where "ClearScreen = escape_str @ ''2J''"

definition vt_Bold :: string where "vt_Bold = escape_str @ ''1m''"

definition vt_Return :: string where "vt_Return = [char_of (13 :: nat)]"

definition vt_Goto :: "u16 \<Rightarrow> u16 \<Rightarrow> string" where
  "vt_Goto x y = escape_str @ nat_str (unat y) @ '';'' @ nat_str (unat x) @ ''H''"

definition vt_Down :: "u16 \<Rightarrow> string" where "vt_Down y = escape_str @ nat_str (unat y) @ ''B''"

definition vt_Up :: "u16 \<Rightarrow> string" where "vt_Up y = escape_str @ nat_str (unat y) @ ''A''"

definition vt_Right :: "u16 \<Rightarrow> string" where "vt_Right y = escape_str @ nat_str (unat y) @ ''C''"

definition vt_Left :: "u16 \<Rightarrow> string" where "vt_Left y = escape_str @ nat_str (unat y) @ ''D''"

text \<open>\<^verbatim>\<open>std::setw\<close> fills the next item on its left with blanks.\<close>

definition setw :: "nat \<Rightarrow> string \<Rightarrow> string" where
  "setw n s = replicate (n - length s) (CHR '' '') @ s"

subsection \<open>The state of the loggers\<close>

type_synonym tid = nat

datatype context_details = ContextDetails
  (cd_context: string) (cd_filename: string) (cd_line: int) (cd_parent: "context_details option")
  (cd_derived: "context_details option") (cd_id: tid) (cd_instance: nat)

record timing =
  tm_total :: double
  tm_peak :: double
  tm_calls :: u64
  tm_line :: int
  tm_context :: string
  tm_filename :: string

text \<open>The three mutexes, and what a thread does to them.\<close>

datatype log_mutex = TimingMutex | LogMutex | ThreadsMutex

datatype lock_action = Acquire log_mutex | Release log_mutex

text \<open>
  \<open>lg_locks\<close> are the mutexes registered as held: what each prints and the thread it names. \<open>lg_trace\<close> is not a member of the
  code: it records the mutexes taken and given back, in order.
\<close>

record logs =
  rt_numbers :: "(tid \<times> int) list"
  rt_count :: int
  lg_log :: bool
  lg_contexts :: "(tid \<times> context_details option) list"
  lg_locks :: "(nat \<times> string \<times> tid) list"
  lg_mutex_timings :: "(string \<times> timing) list"
  lg_timings :: "(string \<times> timing) list"
  lg_cout :: string
  lg_cerr :: string
  lg_trace :: "lock_action list"

text \<open>
  What the build and the library decide: whether entries and colours are compiled in, how times, pointers and
  doubles are printed, and how doubles are computed.
\<close>

record log_env =
  le_output :: bool
  le_colour :: bool
  le_time :: "nat \<Rightarrow> string"
  le_pointer :: "nat \<Rightarrow> string"
  le_double :: "double \<Rightarrow> string"
  le_of_int :: "int \<Rightarrow> double"
  le_arithmetic :: arithmetic

definition logs_new :: logs where
  "logs_new = \<lparr>rt_numbers = [], rt_count = 0, lg_log = True, lg_contexts = [], lg_locks = [], lg_mutex_timings = [],
     lg_timings = [], lg_cout = [], lg_cerr = [], lg_trace = []\<rparr>"

definition cout :: "string \<Rightarrow> (logs, unit) prog" where
  "cout s = pmodify (lg_cout_update (\<lambda>o'. o' @ s))"

definition cerr :: "string \<Rightarrow> (logs, unit) prog" where
  "cerr s = pmodify (lg_cerr_update (\<lambda>o'. o' @ s))"

definition endl :: string where
  "endl = [char_of (10 :: nat)]"

definition mutex_do :: "lock_action \<Rightarrow> (logs, unit) prog" where
  "mutex_do a = pmodify (lg_trace_update (\<lambda>t. t @ [a]))"

text \<open>A scope with a \<^verbatim>\<open>std::lock_guard\<close>: the mutex is given back on every way out.\<close>

definition guarded :: "log_mutex \<Rightarrow> (logs, 'a) prog \<Rightarrow> (logs, 'a) prog" where
  "guarded m body =
     pthen (mutex_do (Acquire m))
       (\<lambda>s. case body s of (r, s') \<Rightarrow> pthen (mutex_do (Release m)) (plift r) s')"


subsection \<open>Numbers of threads\<close>

definition GetThreadID :: "tid \<Rightarrow> (logs, int) prog" where
  "GetThreadID t =
     pthen (mutex_do (Acquire ThreadsMutex))
     (pbind (pget rt_numbers) (\<lambda>ns.
      pthen (if map_of ns t = None
             then pmodify (\<lambda>s. s\<lparr>rt_count := rt_count s + 1, rt_numbers := omap_insert t (rt_count s + 1) ns\<rparr>)
             else pret ())
     (pbind (pget rt_numbers) (\<lambda>ns'.
      pthen (mutex_do (Release ThreadsMutex))
        (pret (case map_of ns' t of None \<Rightarrow> 0 | Some n \<Rightarrow> n))))))"

subsection \<open>Contexts\<close>

definition cd_root :: "tid \<Rightarrow> nat \<Rightarrow> context_details" where
  "cd_root t inst = ContextDetails ''(root)'' [] 0 None None t inst"

definition cd_new_derived ::
  "tid \<Rightarrow> context_details option \<Rightarrow> context_details option \<Rightarrow> string \<Rightarrow> string \<Rightarrow> int \<Rightarrow> nat \<Rightarrow> context_details" where
  "cd_new_derived t ctx parent context file line inst = ContextDetails context file line parent ctx t inst"

definition cd_new ::
  "tid \<Rightarrow> context_details option \<Rightarrow> string \<Rightarrow> string \<Rightarrow> int \<Rightarrow> nat \<Rightarrow> context_details" where
  "cd_new t parent context file line inst = ContextDetails context file line parent None t inst"

definition cd_context_upto :: "nat \<Rightarrow> context_details \<Rightarrow> string" where
  "cd_context_upto n c = (if n < length (cd_context c) then take n (cd_context c) else cd_context c)"

definition set_entry :: "'k \<Rightarrow> 'v \<Rightarrow> ('k \<times> 'v) list \<Rightarrow> ('k \<times> 'v) list" where
  "set_entry k v m =
     (if map_of m k = None then m @ [(k, v)] else map (\<lambda>e. if fst e = k then (k, v) else e) m)"

definition TopContextImpl :: "tid \<Rightarrow> (logs, context_details option) prog" where
  "TopContextImpl t =
     pbind (pget lg_contexts) (\<lambda>m.
       case map_of m t of
         Some c \<Rightarrow> pret c
       | None \<Rightarrow>
           pthen (pmodify (lg_contexts_update (set_entry t (Some (cd_root t 0))))) (pret (Some (cd_root t 0))))"

definition TopContext :: "tid \<Rightarrow> (logs, context_details option) prog" where
  "TopContext t = guarded LogMutex (TopContextImpl t)"

definition SetContext :: "tid \<Rightarrow> context_details option \<Rightarrow> (logs, unit) prog" where
  "SetContext t ctx =
     guarded LogMutex
       (pbind (pget lg_log) (\<lambda>on. if on then pmodify (lg_contexts_update (set_entry t ctx)) else pret ()))"

definition DisableLogger :: "(logs, unit) prog" where
  "DisableLogger = pmodify (lg_log_update (\<lambda>_. False))"

definition LogWrapper_destroy :: "(logs, unit) prog" where
  "LogWrapper_destroy = guarded LogMutex (pmodify (lg_log_update (\<lambda>_. False)))"

subsection \<open>Entries\<close>

datatype log_level = LvError | LvWarning | LvInfo | LvDebug | LvHighlight

fun level_name :: "log_level \<Rightarrow> string" where
  "level_name LvInfo = ''INFO  ''"
| "level_name LvWarning = ''WARN  ''"
| "level_name LvError = ''ERROR ''"
| "level_name LvDebug = ''DEBUG ''"
| "level_name LvHighlight = ''HLIGHT''"

fun level_color :: "log_level \<Rightarrow> int" where
  "level_color LvInfo = 3"
| "level_color LvWarning = 6"
| "level_color LvError = 1"
| "level_color LvDebug = 7"
| "level_color LvHighlight = 7"

fun level_background :: "log_level \<Rightarrow> int" where
  "level_background LvHighlight = 4"
| "level_background lv = 9"

text \<open>\<open>now\<close> is the time in milliseconds, \<open>t\<close> the calling thread; a null context is dereferenced.\<close>

definition StartEntry ::
  "log_env \<Rightarrow> nat \<Rightarrow> tid \<Rightarrow> log_level \<Rightarrow> string option \<Rightarrow> context_details option \<Rightarrow> (logs, unit) prog" where
  "StartEntry env now t lv name ctx =
     (if \<not> le_output env then pret ()
      else
        pbind (GetThreadID t) (\<lambda>n.
        pthen (cout (''[ '' @ GetColor (le_colour env) (level_color lv) (level_background lv) @ le_time env now @ ''.'' @
                     setw 3 (nat_str (now mod 1000)) @ DefaultAttributes (le_colour env)))
        (pthen (cout ('', #'' @ setw 2 (int_str n) @ '' '' @ level_name lv))
        (pthen
          (case ctx of
             None \<Rightarrow> pthrow Undefined
           | Some c \<Rightarrow>
               (case name of
                  Some nm \<Rightarrow>
                    if cd_instance c = 0 then cout ('': '' @ setw 35 nm @ '' ] '')
                    else cout ('': '' @ setw 15 (le_pointer env (cd_instance c)) @ setw 20 (cd_context_upto 18 c) @ '' ] '')
                | None \<Rightarrow>
                    cout ('': '' @ setw 15 (le_pointer env (cd_instance c)) @ setw 20 (cd_context_upto 18 c) @ '' ] '')))
          (cout (GetColor (le_colour env) (level_color lv) (level_background lv)))))))"

definition log_append :: "log_env \<Rightarrow> string \<Rightarrow> (logs, unit) prog" where
  "log_append env s = (if le_output env then cout s else pret ())"

definition CloseEntry :: "log_env \<Rightarrow> (logs, unit) prog" where
  "CloseEntry env = (if le_output env then cout (DefaultAttributes (le_colour env) @ endl) else pret ())"

fun Unroll :: "log_env \<Rightarrow> string list \<Rightarrow> (logs, unit) prog" where
  "Unroll env [] = pret ()"
| "Unroll env (v # vs) = pthen (log_append env v) (Unroll env vs)"


subsection \<open>Stack traces\<close>

definition frame_line :: "log_env \<Rightarrow> nat \<Rightarrow> context_details \<Rightarrow> int \<Rightarrow> string" where
  "frame_line env i c n =
     setw 3 (nat_str i) @ '': In thread #'' @ int_str n @ '': '' @
     GetColor (le_colour env) 5 9 @ cd_context c @ DefaultAttributes (le_colour env) @ '' '' @ cd_filename c @ '', '' @
     GetColor (le_colour env) 3 9 @ int_str (cd_line c) @ DefaultAttributes (le_colour env) @ endl"

text \<open>The loop goes to the context a context is derived from, or else to its parent; it ends as every context is made after those.\<close>

function PrintFrames :: "log_env \<Rightarrow> u32 \<Rightarrow> nat \<Rightarrow> context_details \<Rightarrow> (logs, unit) prog" where
  "PrintFrames env most i (ContextDetails ctx file line parent derived t inst) =
     pbind (GetThreadID t) (\<lambda>n.
     pthen (cout (frame_line env i (ContextDetails ctx file line parent derived t inst) n))
       (case derived of
          Some d \<Rightarrow> pthen (cout ''*'') (if unat most \<le> Suc i then pret () else PrintFrames env most (Suc i) d)
        | None \<Rightarrow>
            (case parent of
               None \<Rightarrow> pret ()
             | Some p \<Rightarrow> if unat most \<le> Suc i then pret () else PrintFrames env most (Suc i) p)))"
  by pat_completeness auto

termination PrintFrames
  by (relation "measure (\<lambda>(env, most, i, c). size c)") auto

definition PrintTrace :: "log_env \<Rightarrow> context_details option \<Rightarrow> u32 \<Rightarrow> (logs, unit) prog" where
  "PrintTrace env ctx most = (case ctx of None \<Rightarrow> pret () | Some c \<Rightarrow> PrintFrames env most 0 c)"

fun list_locks :: "(nat \<times> string \<times> tid) list \<Rightarrow> (logs, unit) prog" where
  "list_locks [] = pret ()"
| "list_locks (l # ls) = pthen (cout (''  - '' @ fst (snd l) @ endl)) (list_locks ls)"

text \<open>\<^verbatim>\<open>context_[id]\<close>: a thread without an entry gets a null context.\<close>

definition context_at :: "tid \<Rightarrow> (logs, context_details option) prog" where
  "context_at t =
     pbind (pget lg_contexts) (\<lambda>m.
       case map_of m t of
         Some c \<Rightarrow> pret c
       | None \<Rightarrow> pthen (pmodify (lg_contexts_update (set_entry t None))) (pret None))"

fun trace_locked :: "log_env \<Rightarrow> tid list \<Rightarrow> (logs, unit) prog" where
  "trace_locked env [] = pret ()"
| "trace_locked env (t # ts) =
     pbind (GetThreadID t) (\<lambda>n.
     pthen (cout (''Additionally trace for #'' @ int_str n @ endl))
     (pbind (context_at t) (\<lambda>c.
      pthen (PrintTrace env c (- 1)) (pthen (cout endl) (trace_locked env ts)))))"

definition StackTrace ::
  "log_env \<Rightarrow> context_details option \<Rightarrow> u32 \<Rightarrow> bool \<Rightarrow> string \<Rightarrow> (logs, unit) prog" where
  "StackTrace env ctx most show_locks name =
     (case ctx of
        None \<Rightarrow> cerr (''Stack trace context invalid'' @ endl)
      | Some c \<Rightarrow>
          pbind (GetThreadID (cd_id c)) (\<lambda>n.
          pthen (cout (name @ '' for #'' @ int_str n @ endl))
          (pthen (PrintTrace env (Some c) most)
            (if show_locks
             then pthen (cout (endl @ ''Active locks: '' @ endl))
                    (pbind (pget lg_locks) (\<lambda>ls.
                       pthen (list_locks ls) (pthen (cout endl) (trace_locked env (map (snd \<circ> snd) ls)))))
             else pret ()))))"

definition StackTrace_here :: "log_env \<Rightarrow> tid \<Rightarrow> u32 \<Rightarrow> bool \<Rightarrow> (logs, unit) prog" where
  "StackTrace_here env t most show_locks =
     pbind (TopContextImpl t) (\<lambda>ctx. StackTrace env ctx most show_locks ''Stack trace'')"

subsection \<open>The entries of each level\<close>

definition log_entry ::
  "log_env \<Rightarrow> nat \<Rightarrow> tid \<Rightarrow> log_level \<Rightarrow> string option \<Rightarrow> string list \<Rightarrow> (logs, unit) prog" where
  "log_entry env now t lv name args =
     pbind (TopContextImpl t) (\<lambda>ctx.
       pthen (StartEntry env now t lv name ctx) (pthen (Unroll env args) (CloseEntry env)))"

definition when_on :: "(logs, unit) prog \<Rightarrow> (logs, unit) prog" where
  "when_on m = guarded LogMutex (pbind (pget lg_log) (\<lambda>on. if on then m else pret ()))"

definition log_Info :: "log_env \<Rightarrow> nat \<Rightarrow> tid \<Rightarrow> string list \<Rightarrow> (logs, unit) prog" where
  "log_Info env now t args = when_on (log_entry env now t LvInfo None args)"

definition log_InfoWithName :: "log_env \<Rightarrow> nat \<Rightarrow> tid \<Rightarrow> string \<Rightarrow> string list \<Rightarrow> (logs, unit) prog" where
  "log_InfoWithName env now t name args = when_on (log_entry env now t LvInfo (Some name) args)"

definition log_Warn :: "log_env \<Rightarrow> nat \<Rightarrow> tid \<Rightarrow> string list \<Rightarrow> (logs, unit) prog" where
  "log_Warn env now t args = when_on (log_entry env now t LvWarning None args)"

definition log_WarnWithName :: "log_env \<Rightarrow> nat \<Rightarrow> tid \<Rightarrow> string \<Rightarrow> string list \<Rightarrow> (logs, unit) prog" where
  "log_WarnWithName env now t name args = when_on (log_entry env now t LvWarning (Some name) args)"

definition log_Highlight :: "log_env \<Rightarrow> nat \<Rightarrow> tid \<Rightarrow> string list \<Rightarrow> (logs, unit) prog" where
  "log_Highlight env now t args = when_on (log_entry env now t LvHighlight None args)"

definition log_HighlightWithName :: "log_env \<Rightarrow> nat \<Rightarrow> tid \<Rightarrow> string \<Rightarrow> string list \<Rightarrow> (logs, unit) prog" where
  "log_HighlightWithName env now t name args = when_on (log_entry env now t LvHighlight (Some name) args)"

definition log_Error :: "log_env \<Rightarrow> nat \<Rightarrow> tid \<Rightarrow> string list \<Rightarrow> (logs, unit) prog" where
  "log_Error env now t args =
     when_on (pthen (log_entry env now t LvError None args) (StackTrace_here env t (- 1) True))"

definition log_ErrorWithName :: "log_env \<Rightarrow> nat \<Rightarrow> tid \<Rightarrow> string \<Rightarrow> string list \<Rightarrow> (logs, unit) prog" where
  "log_ErrorWithName env now t name args =
     when_on (pthen (log_entry env now t LvError (Some name) args) (StackTrace_here env t (- 1) True))"

definition log_Debug :: "log_env \<Rightarrow> nat \<Rightarrow> tid \<Rightarrow> string list \<Rightarrow> (logs, unit) prog" where
  "log_Debug env now t args = when_on (log_entry env now t LvDebug None args)"

definition log_DebugWithName :: "log_env \<Rightarrow> nat \<Rightarrow> tid \<Rightarrow> string \<Rightarrow> string list \<Rightarrow> (logs, unit) prog" where
  "log_DebugWithName env now t name args = when_on (log_entry env now t LvDebug (Some name) args)"

definition log_Debug_items :: "log_env \<Rightarrow> nat \<Rightarrow> tid \<Rightarrow> string list \<Rightarrow> (logs, unit) prog" where
  "log_Debug_items env now t items = when_on (log_entry env now t LvDebug None items)"

text \<open>The macros: \<open>built\<close> is the level the build compiles in, three in this repository.\<close>

definition FETCH_LOG_DEBUG :: "nat \<Rightarrow> log_env \<Rightarrow> nat \<Rightarrow> tid \<Rightarrow> string \<Rightarrow> string list \<Rightarrow> (logs, unit) prog" where
  "FETCH_LOG_DEBUG built env now t name args = (if 4 \<le> built then log_DebugWithName env now t name args else pret ())"

definition FETCH_LOG_INFO :: "nat \<Rightarrow> log_env \<Rightarrow> nat \<Rightarrow> tid \<Rightarrow> string \<Rightarrow> string list \<Rightarrow> (logs, unit) prog" where
  "FETCH_LOG_INFO built env now t name args = (if 3 \<le> built then log_InfoWithName env now t name args else pret ())"

definition FETCH_LOG_WARN :: "nat \<Rightarrow> log_env \<Rightarrow> nat \<Rightarrow> tid \<Rightarrow> string \<Rightarrow> string list \<Rightarrow> (logs, unit) prog" where
  "FETCH_LOG_WARN built env now t name args = (if 2 \<le> built then log_WarnWithName env now t name args else pret ())"

definition FETCH_LOG_ERROR :: "nat \<Rightarrow> log_env \<Rightarrow> nat \<Rightarrow> tid \<Rightarrow> string \<Rightarrow> string list \<Rightarrow> (logs, unit) prog" where
  "FETCH_LOG_ERROR built env now t name args = (if 1 \<le> built then log_ErrorWithName env now t name args else pret ())"

definition ERROR_BACKTRACE ::
  "nat \<Rightarrow> log_env \<Rightarrow> nat \<Rightarrow> tid \<Rightarrow> string \<Rightarrow> string list \<Rightarrow> (logs, unit) prog" where
  "ERROR_BACKTRACE built env now t name callstack =
     (let trace = concat (map (\<lambda>f. f @ endl) (take 20 callstack)) in
      FETCH_LOG_INFO built env now t name [''Trace: '' @ endl, trace])"


subsection \<open>Registered mutexes and timings\<close>

definition AbstractMutex_AsString :: string where "AbstractMutex_AsString = ''(mutex)''"

text \<open>The thread that is no thread, what a default \<^verbatim>\<open>std::thread::id\<close> stands for.\<close>

definition AbstractMutex_thread_id :: tid where "AbstractMutex_thread_id = 0"

definition RegisterLock :: "nat \<times> string \<times> tid \<Rightarrow> (logs, unit) prog" where
  "RegisterLock l =
     when_on (pmodify (lg_locks_update (\<lambda>ls. if fst l \<in> fst ` set ls then ls else l # ls)))"

definition timing_new :: "string \<Rightarrow> string \<Rightarrow> int \<Rightarrow> timing" where
  "timing_new context file line =
     \<lparr>tm_total = 0, tm_peak = 0, tm_calls = 0, tm_line = line, tm_context = context, tm_filename = file\<rparr>"

definition timing_add :: "log_env \<Rightarrow> double \<Rightarrow> timing \<Rightarrow> timing" where
  "timing_add env spent t =
     t\<lparr>tm_total := fp_add (le_arithmetic env) (tm_total t) spent,
       tm_peak := (if d_lt (tm_peak t) spent then spent else tm_peak t),
       tm_calls := tm_calls t + 1\<rparr>"

definition timings_record ::
  "log_env \<Rightarrow> string \<Rightarrow> timing \<Rightarrow> double \<Rightarrow> (string \<times> timing) list \<Rightarrow> (string \<times> timing) list" where
  "timings_record env s fresh spent m =
     (let m' = (if map_of m s = None then set_entry s fresh m else m)
      in set_entry s (timing_add env spent (case map_of m' s of None \<Rightarrow> fresh | Some t \<Rightarrow> t)) m')"

definition RegisterUnlock :: "log_env \<Rightarrow> nat \<Rightarrow> double \<Rightarrow> string \<Rightarrow> int \<Rightarrow> (logs, unit) prog" where
  "RegisterUnlock env ptr spent file line =
     when_on
       (pthen (pmodify (lg_mutex_timings_update
                 (timings_record env (file @ int_str line) (timing_new ''Mutex'' file line) spent)))
         (pmodify (lg_locks_update (filter (\<lambda>l. fst l \<noteq> ptr)))))"

definition UpdateContextTime :: "log_env \<Rightarrow> context_details \<Rightarrow> double \<Rightarrow> (logs, unit) prog" where
  "UpdateContextTime env c spent =
     guarded TimingMutex
       (pmodify (lg_timings_update
          (timings_record env (cd_context c @ '', '' @ cd_filename c @ '' '' @ int_str (cd_line c))
             (timing_new (cd_context c) (cd_filename c) (cd_line c)) spent)))"

text \<open>
  \<^verbatim>\<open>std::sort\<close> by a comparison, as an insertion sort: the order of entries that compare equal is open.
\<close>

fun sort_in :: "('a \<Rightarrow> 'a \<Rightarrow> bool) \<Rightarrow> 'a \<Rightarrow> 'a list \<Rightarrow> 'a list" where
  "sort_in before x [] = [x]"
| "sort_in before x (y # ys) = (if before y x then y # sort_in before x ys else x # y # ys)"

definition std_sort :: "('a \<Rightarrow> 'a \<Rightarrow> bool) \<Rightarrow> 'a list \<Rightarrow> 'a list" where
  "std_sort before xs = foldr (sort_in before) xs []"

definition timing_mean :: "log_env \<Rightarrow> timing \<Rightarrow> double" where
  "timing_mean env t = fp_div (le_arithmetic env) (tm_total t) (le_of_int env (int (unat (tm_calls t))))"

definition timing_row :: "log_env \<Rightarrow> nat \<Rightarrow> timing \<Rightarrow> string" where
  "timing_row env i t =
     setw 3 (nat_str i) @ setw 20 (le_double env (timing_mean env t)) @ '' '' @
     setw 20 (le_double env (tm_peak t)) @ '' '' @
     setw 20 (nat_str (unat (tm_calls t))) @ '' '' @
     setw 20 (le_double env (tm_total t)) @ '' '' @
     tm_context t @ '' '' @ tm_filename t @ '' '' @ int_str (tm_line t) @ endl"

fun print_rows :: "log_env \<Rightarrow> nat \<Rightarrow> timing list \<Rightarrow> (logs, unit) prog" where
  "print_rows env i [] = pret ()"
| "print_rows env i (t # ts) = pthen (cout (timing_row env i t)) (print_rows env (Suc i) ts)"

definition PrintTimings :: "log_env \<Rightarrow> nat \<Rightarrow> (logs, unit) prog" where
  "PrintTimings env most =
     guarded TimingMutex (guarded LogMutex
       (pbind (pget lg_timings) (\<lambda>m.
          pthen (cout (''Profile for monitored function calls: '' @ endl))
          (pthen (print_rows env 0 (take most (std_sort (\<lambda>a b. d_lt (tm_peak b) (tm_peak a)) (map snd m))))
            (cout endl)))))"

definition PrintMutexTimings :: "log_env \<Rightarrow> nat \<Rightarrow> (logs, unit) prog" where
  "PrintMutexTimings env most =
     guarded LogMutex (guarded TimingMutex
       (pbind (pget lg_mutex_timings) (\<lambda>m.
          pthen (cout (''Mutex timings: '' @ endl))
          (pthen (print_rows env 0
                   (take most (std_sort (\<lambda>a b. d_lt (timing_mean env b) (timing_mean env a)) (map snd m))))
            (cout endl)))))"

subsection \<open>Scoped contexts\<close>

text \<open>An object of class \<^verbatim>\<open>Context\<close>: a copy is not primary, and has the epoch as its time of creation.\<close>

record log_context =
  cx_details :: context_details
  cx_primary :: bool
  cx_created :: int

definition cx_new_instance :: "int \<Rightarrow> tid \<Rightarrow> nat \<Rightarrow> (logs, log_context) prog" where
  "cx_new_instance now t inst =
     (let d = cd_root t inst in
      pthen (SetContext t (Some d)) (pret \<lparr>cx_details = d, cx_primary = True, cx_created = now\<rparr>))"

definition cx_new_derived ::
  "int \<Rightarrow> tid \<Rightarrow> context_details option \<Rightarrow> string \<Rightarrow> string \<Rightarrow> int \<Rightarrow> nat \<Rightarrow> (logs, log_context) prog" where
  "cx_new_derived now t ctx context file line inst =
     pbind (TopContext t) (\<lambda>top.
       let d = cd_new_derived t ctx top context file line inst in
       pthen (SetContext t (Some d)) (pret \<lparr>cx_details = d, cx_primary = True, cx_created = now\<rparr>))"

definition cx_new :: "int \<Rightarrow> tid \<Rightarrow> string \<Rightarrow> string \<Rightarrow> int \<Rightarrow> nat \<Rightarrow> (logs, log_context) prog" where
  "cx_new now t context file line inst =
     pbind (TopContext t) (\<lambda>top.
       let d = cd_new t top context file line inst in
       pthen (SetContext t (Some d)) (pret \<lparr>cx_details = d, cx_primary = True, cx_created = now\<rparr>))"

definition cx_copy :: "log_context \<Rightarrow> log_context" where
  "cx_copy c = \<lparr>cx_details = cx_details c, cx_primary = False, cx_created = 0\<rparr>"

text \<open>\<^verbatim>\<open>duration_cast<milliseconds>\<close> of nanoseconds rounds towards zero.\<close>

definition duration_millis :: "int \<Rightarrow> int" where
  "duration_millis d = (if d < 0 then - ((- d) div 1000000) else d div 1000000)"

definition cx_destroy :: "log_env \<Rightarrow> int \<Rightarrow> tid \<Rightarrow> log_context \<Rightarrow> (logs, unit) prog" where
  "cx_destroy env now t c =
     pthen (UpdateContextTime env (cx_details c) (le_of_int env (duration_millis (now - cx_created c))))
       (case cd_parent (cx_details c) of
          None \<Rightarrow> pret ()
        | Some p \<Rightarrow> if cx_primary c then SetContext t (Some p) else pret ())"


subsection \<open>The calls of a thread\<close>

definition log_say ::
  "log_env \<Rightarrow> nat \<Rightarrow> tid \<Rightarrow> log_level \<Rightarrow> string option \<Rightarrow> string list \<Rightarrow> (logs, unit) prog" where
  "log_say env now t lv name args =
     (case (lv, name) of
        (LvInfo, None) \<Rightarrow> log_Info env now t args
      | (LvInfo, Some nm) \<Rightarrow> log_InfoWithName env now t nm args
      | (LvWarning, None) \<Rightarrow> log_Warn env now t args
      | (LvWarning, Some nm) \<Rightarrow> log_WarnWithName env now t nm args
      | (LvHighlight, None) \<Rightarrow> log_Highlight env now t args
      | (LvHighlight, Some nm) \<Rightarrow> log_HighlightWithName env now t nm args
      | (LvError, None) \<Rightarrow> log_Error env now t args
      | (LvError, Some nm) \<Rightarrow> log_ErrorWithName env now t nm args
      | (LvDebug, None) \<Rightarrow> log_Debug env now t args
      | (LvDebug, Some nm) \<Rightarrow> log_DebugWithName env now t nm args)"

datatype log_call =
    CallSay nat log_level "string option" "string list"
  | CallItems nat "string list"
  | CallTopContext
  | CallSetContext "context_details option"
  | CallDisable
  | CallRegisterLock "nat \<times> string \<times> tid"
  | CallRegisterUnlock nat double string int
  | CallStackTrace "context_details option" u32 bool string
  | CallStackTraceHere u32 bool
  | CallUpdateTime context_details double
  | CallTimings nat
  | CallMutexTimings nat
  | CallContextInstance int nat
  | CallContext int string string int nat
  | CallContextDerived int "context_details option" string string int nat
  | CallDestroy int log_context

definition ignore_result :: "('s, 'a) prog \<Rightarrow> ('s, unit) prog" where
  "ignore_result m = pbind m (\<lambda>_. pret ())"

fun run_call :: "log_env \<Rightarrow> tid \<Rightarrow> log_call \<Rightarrow> (logs, unit) prog" where
  "run_call env t (CallSay now lv name args) = log_say env now t lv name args"
| "run_call env t (CallItems now items) = log_Debug_items env now t items"
| "run_call env t CallTopContext = ignore_result (TopContext t)"
| "run_call env t (CallSetContext ctx) = SetContext t ctx"
| "run_call env t CallDisable = DisableLogger"
| "run_call env t (CallRegisterLock l) = RegisterLock l"
| "run_call env t (CallRegisterUnlock p d file line) = RegisterUnlock env p d file line"
| "run_call env t (CallStackTrace ctx most locks name) = StackTrace env ctx most locks name"
| "run_call env t (CallStackTraceHere most locks) = StackTrace_here env t most locks"
| "run_call env t (CallUpdateTime c d) = UpdateContextTime env c d"
| "run_call env t (CallTimings n) = PrintTimings env n"
| "run_call env t (CallMutexTimings n) = PrintMutexTimings env n"
| "run_call env t (CallContextInstance now inst) = ignore_result (cx_new_instance now t inst)"
| "run_call env t (CallContext now nm file line inst) = ignore_result (cx_new now t nm file line inst)"
| "run_call env t (CallContextDerived now ctx nm file line inst) =
     ignore_result (cx_new_derived now t ctx nm file line inst)"
| "run_call env t (CallDestroy now c) = cx_destroy env now t c"

lemmas say_defs = log_say_def log_Info_def log_InfoWithName_def log_Warn_def log_WarnWithName_def log_Highlight_def
  log_HighlightWithName_def log_Error_def log_ErrorWithName_def log_Debug_def log_DebugWithName_def

lemmas entry_defs = when_on_def log_entry_def StartEntry_def log_append_def CloseEntry_def

lemmas context_defs = TopContext_def SetContext_def cx_new_instance_def cx_new_derived_def cx_new_def cx_destroy_def Let_def

subsection \<open>The mutexes are taken in one order\<close>

fun lock_rank :: "log_mutex \<Rightarrow> nat" where
  "lock_rank TimingMutex = 0" | "lock_rank LogMutex = 1" | "lock_rank ThreadsMutex = 2"

text \<open>A thread that holds \<open>h\<close> does the actions: it only takes a mutex above those it holds, and gives back the last one taken.\<close>

fun lock_run :: "log_mutex list \<Rightarrow> lock_action list \<Rightarrow> log_mutex list option" where
  "lock_run h [] = Some h"
| "lock_run h (Acquire m # tr) = (if \<forall>k \<in> set h. lock_rank k < lock_rank m then lock_run (m # h) tr else None)"
| "lock_run h (Release m # tr) = (if h \<noteq> [] \<and> hd h = m then lock_run (tl h) tr else None)"

lemma lock_run_append: "lock_run h tr = Some h' \<Longrightarrow> lock_run h (tr @ tr') = lock_run h' tr'"
  by (induction h tr rule: lock_run.induct) (auto split: if_splits)

definition orderly_locks :: "log_mutex list \<Rightarrow> (logs, 'a) prog \<Rightarrow> bool" where
  "orderly_locks h m \<longleftrightarrow>
     (\<forall>s. \<exists>tr. lg_trace (snd (m s)) = lg_trace s @ tr \<and> lock_run h tr = Some h)"

named_theorems lock_intros "operations that take the mutexes in order"

lemma disciplinedI: "(\<And>s. lg_trace (snd (m s)) = lg_trace s) \<Longrightarrow> orderly_locks h m"
  by (auto simp: orderly_locks_def)

lemma orderly_locks_basic [lock_intros]:
  "orderly_locks h (pret x)" "orderly_locks h (pthrow e)" "orderly_locks h (pget f)" "orderly_locks h (plift r)"
  "orderly_locks h (cout o')" "orderly_locks h (cerr o')"
  "orderly_locks h (pmodify (lg_contexts_update f1))" "orderly_locks h (pmodify (lg_log_update f2))"
  "orderly_locks h (pmodify (lg_locks_update f3))" "orderly_locks h (pmodify (lg_timings_update f4))"
  "orderly_locks h (pmodify (lg_mutex_timings_update f5))"
  by (rule disciplinedI, simp add: cout_def cerr_def)+

lemma orderly_locks_pbind [lock_intros]:
  assumes "orderly_locks h m" "\<And>x. orderly_locks h (f x)"
  shows "orderly_locks h (pbind m f)"
  unfolding orderly_locks_def
proof
  fix s
  obtain tr where m: "lg_trace (snd (m s)) = lg_trace s @ tr" "lock_run h tr = Some h"
    using assms(1) unfolding orderly_locks_def by blast
  show "\<exists>tr. lg_trace (snd (pbind m f s)) = lg_trace s @ tr \<and> lock_run h tr = Some h"
  proof (cases "m s")
    case (Pair r s')
    then show ?thesis
    proof (cases r)
      case (Inl e)
      with m Pair show ?thesis by auto
    next
      case (Inr x)
      obtain tr' where "lg_trace (snd (f x s')) = lg_trace s' @ tr'" "lock_run h tr' = Some h"
        using assms(2) unfolding orderly_locks_def by blast
      with m Pair Inr show ?thesis by (intro exI [of _ "tr @ tr'"]) (simp add: lock_run_append)
    qed
  qed
qed

lemma orderly_locks_pthen [lock_intros]: "orderly_locks h m \<Longrightarrow> orderly_locks h n \<Longrightarrow> orderly_locks h (pthen m n)"
  by (simp add: pthen_def orderly_locks_pbind)

lemma orderly_locks_guarded [lock_intros]:
  assumes "\<forall>k \<in> set h. lock_rank k < lock_rank m" "orderly_locks (m # h) body"
  shows "orderly_locks h (guarded m body)"
  unfolding orderly_locks_def
proof
  fix s :: logs
  define s1 where "s1 = lg_trace_update (\<lambda>t. t @ [Acquire m]) s"
  obtain tr where b: "lg_trace (snd (body s1)) = lg_trace s1 @ tr" "lock_run (m # h) tr = Some (m # h)"
    using assms(2) unfolding orderly_locks_def by blast
  have "guarded m body s = (fst (body s1), lg_trace_update (\<lambda>t. t @ [Release m]) (snd (body s1)))"
    by (simp add: guarded_def mutex_do_def pthen_apply s1_def split: prod.split)
  moreover have "lock_run h (Acquire m # tr @ [Release m]) = Some h" using assms(1) lock_run_append [OF b(2)] by simp
  ultimately show "\<exists>tr. lg_trace (snd (guarded m body s)) = lg_trace s @ tr \<and> lock_run h tr = Some h"
    using b(1) by (intro exI [of _ "Acquire m # tr @ [Release m]"]) (simp add: s1_def)
qed


lemma orderly_locks_GetThreadID [lock_intros]:
  assumes "\<forall>k \<in> set h. lock_rank k < 2"
  shows "orderly_locks h (GetThreadID t)"
  unfolding orderly_locks_def using assms
  by (intro allI exI [of _ "[Acquire ThreadsMutex, Release ThreadsMutex]"])
    (simp add: GetThreadID_def mutex_do_def pthen_apply pbind_apply)

lemma orderly_locks_case_option [lock_intros]:
  "orderly_locks h m \<Longrightarrow> (\<And>x. orderly_locks h (f x)) \<Longrightarrow> orderly_locks h (case v of None \<Rightarrow> m | Some x \<Rightarrow> f x)"
  by (cases v) simp_all

lemma orderly_locks_if [lock_intros]:
  "orderly_locks h m \<Longrightarrow> orderly_locks h n \<Longrightarrow> orderly_locks h (if b then m else n)"
  by simp

lemma orderly_locks_TopContextImpl [lock_intros]: "orderly_locks h (TopContextImpl t)"
  unfolding TopContextImpl_def by (intro lock_intros)

lemma orderly_locks_context_at [lock_intros]: "orderly_locks h (context_at t)"
  unfolding context_at_def by (intro lock_intros)

lemma orderly_locks_Unroll [lock_intros]: "orderly_locks h (Unroll env vs)"
  by (induction vs) (simp_all add: log_append_def lock_intros del: pret_apply)

lemma orderly_locks_list_locks [lock_intros]: "orderly_locks h (list_locks ls)"
  by (induction ls) (simp_all add: lock_intros del: pret_apply)

lemma orderly_locks_print_rows [lock_intros]: "orderly_locks h (print_rows env i ts)"
  by (induction ts arbitrary: i) (simp_all add: lock_intros del: pret_apply)

lemma orderly_locks_PrintFrames [lock_intros]:
  assumes "\<forall>k \<in> set h. lock_rank k < 2"
  shows "orderly_locks h (PrintFrames env most i c)"
proof (induction env most i c rule: PrintFrames.induct)
  case (1 env most i ctx fl ln parent derived t inst)
  then show ?case unfolding PrintFrames.simps by (cases derived; cases parent) (simp_all add: lock_intros assms del: pret_apply)
qed

lemma orderly_locks_PrintTrace [lock_intros]:
  "\<forall>k \<in> set h. lock_rank k < 2 \<Longrightarrow> orderly_locks h (PrintTrace env ctx most)"
  unfolding PrintTrace_def by (intro lock_intros)

lemma orderly_locks_trace_locked [lock_intros]:
  assumes "\<forall>k \<in> set h. lock_rank k < 2"
  shows "orderly_locks h (trace_locked env ts)"
  by (induction ts) (simp_all add: lock_intros assms del: pret_apply)

lemma orderly_locks_StackTrace [lock_intros]:
  "\<forall>k \<in> set h. lock_rank k < 2 \<Longrightarrow> orderly_locks h (StackTrace env ctx most locks name)"
  unfolding StackTrace_def by (intro lock_intros)

lemma orderly_locks_StackTrace_here [lock_intros]:
  "\<forall>k \<in> set h. lock_rank k < 2 \<Longrightarrow> orderly_locks h (StackTrace_here env t most locks)"
  unfolding StackTrace_here_def by (intro lock_intros)

lemma orderly_locks_log_entry [lock_intros]:
  "\<forall>k \<in> set h. lock_rank k < 2 \<Longrightarrow> orderly_locks h (log_entry env now t lv name args)"
  unfolding entry_defs by (intro lock_intros)

lemma orderly_locks_when_on [lock_intros]: "orderly_locks [LogMutex] m \<Longrightarrow> orderly_locks [] (when_on m)"
  unfolding when_on_def by (intro lock_intros) simp_all

lemma orderly_locks_say: "orderly_locks [] (log_say env now t lv name args)"
  by (cases lv; cases name) (simp_all add: say_defs lock_intros del: pret_apply)

lemma orderly_locks_TopContext [lock_intros]: "orderly_locks [] (TopContext t)"
  unfolding TopContext_def by (intro lock_intros) simp_all

lemma orderly_locks_SetContext [lock_intros]: "orderly_locks [] (SetContext t ctx)"
  unfolding SetContext_def by (intro lock_intros) simp_all

lemma orderly_locks_UpdateContextTime [lock_intros]: "orderly_locks [] (UpdateContextTime env c d)"
  unfolding UpdateContextTime_def by (intro lock_intros) simp_all

text \<open>Every call but one takes the mutexes in the order of their ranks.\<close>

definition orderly :: "log_call \<Rightarrow> bool" where
  "orderly c \<longleftrightarrow> (case c of CallMutexTimings n \<Rightarrow> False | _ \<Rightarrow> True)"

lemma orderly_locks_call: "orderly c \<Longrightarrow> orderly_locks [] (run_call env t c)"
proof (cases c)
  case (CallSay now lv name args)
  then show ?thesis by (simp add: orderly_locks_say)
next
  case (CallItems now items)
  then show ?thesis by (simp add: log_Debug_items_def lock_intros)
next
  case (CallRegisterLock l)
  then show ?thesis by (simp add: RegisterLock_def lock_intros)
next
  case (CallRegisterUnlock p d fl ln)
  then show ?thesis by (simp add: RegisterUnlock_def lock_intros)
next
  case (CallTimings n)
  then show ?thesis by (simp add: PrintTimings_def lock_intros)
qed (simp_all add: orderly_def ignore_result_def DisableLogger_def cx_new_instance_def cx_new_def cx_new_derived_def
       cx_destroy_def Let_def lock_intros del: pret_apply)

text \<open>What a thread does to the mutexes when it makes calls, each from whatever state it then finds.\<close>

inductive call_locks :: "log_env \<Rightarrow> lock_action list \<Rightarrow> bool" for env where
  no_calls: "call_locks env []"
| one_more: "call_locks env tr \<Longrightarrow> orderly c \<Longrightarrow> lg_trace (snd (run_call env t c s)) = lg_trace s @ tr' \<Longrightarrow>
    call_locks env (tr @ tr')"

lemma call_locks_run: "call_locks env tr \<Longrightarrow> lock_run [] tr = Some []"
proof (induction rule: call_locks.induct)
  case no_calls
  then show ?case by simp
next
  case (one_more tr c t s tr')
  obtain tr2 where "lg_trace (snd (run_call env t c s)) = lg_trace s @ tr2" "lock_run [] tr2 = Some []"
    using orderly_locks_call [OF one_more(2)] unfolding orderly_locks_def by blast
  with one_more show ?case by (simp add: lock_run_append)
qed

subsection \<open>Several threads\<close>

text \<open>
  Each thread is the mutexes it holds and the actions it still has to do; a thread that wants a mutex another holds,
  or holds itself, waits.
\<close>

type_synonym lock_thread = "log_mutex list \<times> lock_action list"

inductive lock_step :: "lock_thread list \<Rightarrow> lock_thread list \<Rightarrow> bool" where
  taken: "i < length ps \<Longrightarrow> ps ! i = (h, Acquire m # tr) \<Longrightarrow> \<forall>p \<in> set ps. m \<notin> set (fst p) \<Longrightarrow>
    lock_step ps (ps[i := (m # h, tr)])"
| given_back: "i < length ps \<Longrightarrow> ps ! i = (h, Release m # tr) \<Longrightarrow> lock_step ps (ps[i := (remove1 m h, tr)])"

inductive_cases lock_stepE: "lock_step ps ps'"

definition threads_done :: "lock_thread list \<Rightarrow> bool" where
  "threads_done ps \<longleftrightarrow> (\<forall>p \<in> set ps. snd p = [])"

definition orderly_threads :: "lock_thread list \<Rightarrow> bool" where
  "orderly_threads ps \<longleftrightarrow> (\<forall>p \<in> set ps. lock_run (fst p) (snd p) = Some [])"

lemma orderly_step: "lock_step ps ps' \<Longrightarrow> orderly_threads ps \<Longrightarrow> orderly_threads ps'"
proof (erule lock_stepE)
  fix i h m tr
  assume o: "orderly_threads ps" and i: "i < length ps" "ps ! i = (h, Acquire m # tr)" and p: "ps' = ps[i := (m # h, tr)]"
  have "lock_run h (Acquire m # tr) = Some []" using o i unfolding orderly_threads_def by (metis fst_conv nth_mem snd_conv)
  then have "lock_run (m # h) tr = Some []" by (simp split: if_splits)
  then show "orderly_threads ps'"
    using o p set_update_subset_insert [of ps i "(m # h, tr)"] unfolding orderly_threads_def by auto
next
  fix i h m tr
  assume o: "orderly_threads ps" and i: "i < length ps" "ps ! i = (h, Release m # tr)" and p: "ps' = ps[i := (remove1 m h, tr)]"
  have "lock_run h (Release m # tr) = Some []" using o i unfolding orderly_threads_def by (metis fst_conv nth_mem snd_conv)
  then have "lock_run (remove1 m h) tr = Some []" by (cases h) (simp_all split: if_splits)
  then show "orderly_threads ps'"
    using o p set_update_subset_insert [of ps i "(remove1 m h, tr)"] unfolding orderly_threads_def by auto
qed

lemma orderly_reachable: "lock_step\<^sup>*\<^sup>* ps ps' \<Longrightarrow> orderly_threads ps \<Longrightarrow> orderly_threads ps'"
  by (induction rule: rtranclp_induct) (auto intro: orderly_step)

text \<open>A thread waiting for a mutex of rank \<open>r\<close>: its holder can go on, or waits for one of a higher rank.\<close>

lemma holder_goes_on:
  assumes o: "orderly_threads ps" and p: "(h, Acquire m # tr) \<in> set ps"
  shows "\<exists>ps'. lock_step ps ps'"
  using p
proof (induction "3 - lock_rank m" arbitrary: h m tr rule: less_induct)
  case less
  obtain i where i: "i < length ps" "ps ! i = (h, Acquire m # tr)" using less(2) by (metis in_set_conv_nth)
  show ?case
  proof (cases "\<forall>p \<in> set ps. m \<notin> set (fst p)")
    case True
    then show ?thesis using lock_step.taken [OF i] by blast
  next
    case False
    then obtain h2 tr2 where q: "(h2, tr2) \<in> set ps" "m \<in> set h2" by (metis prod.collapse)
    have r: "lock_run h2 tr2 = Some []" using o q(1) unfolding orderly_threads_def by fastforce
    show ?thesis
    proof (cases tr2)
      case Nil
      with r q(2) show ?thesis by simp
    next
      case (Cons a tr3)
      show ?thesis
      proof (cases a)
        case (Release m')
        then show ?thesis using q(1) Cons lock_step.given_back by (metis in_set_conv_nth)
      next
        case (Acquire m')
        have "lock_rank m < lock_rank m'" using r q(2) Cons Acquire by (simp split: if_splits)
        moreover have "lock_rank m' < 3" by (cases m') simp_all
        ultimately have "3 - lock_rank m' < 3 - lock_rank m" by simp
        then show ?thesis using less(1) q(1) Cons Acquire by blast
      qed
    qed
  qed
qed


text \<open>
  C38. Threads that make any calls to the logger other than printing the timings of the mutexes, interleaved in any way, never
  all wait for each other: as long as one has something left to do, one of them can go on.
\<close>

theorem logger_never_deadlocks:
  assumes "\<forall>tr \<in> set trs. call_locks env tr" "lock_step\<^sup>*\<^sup>* (map (\<lambda>tr. ([], tr)) trs) ps"
  shows "threads_done ps \<or> (\<exists>ps'. lock_step ps ps')"
proof (cases "threads_done ps")
  case False
  then obtain h a tr where p: "(h, a # tr) \<in> set ps" unfolding threads_done_def by (metis list.exhaust prod.collapse)
  have o: "orderly_threads ps"
    using orderly_reachable [OF assms(2)] assms(1) call_locks_run by (auto simp: orderly_threads_def)
  show ?thesis
  proof (cases a)
    case (Acquire m)
    then show ?thesis using holder_goes_on [OF o] p by blast
  next
    case (Release m)
    then show ?thesis using p lock_step.given_back by (metis in_set_conv_nth)
  qed
qed simp

text \<open>Printing the timings of the mutexes takes the same two mutexes the other way round from printing those of the calls.\<close>

definition timings_locks :: "lock_action list" where
  "timings_locks = [Acquire TimingMutex, Acquire LogMutex, Release LogMutex, Release TimingMutex]"

definition mutex_timings_locks :: "lock_action list" where
  "mutex_timings_locks = [Acquire LogMutex, Acquire TimingMutex, Release TimingMutex, Release LogMutex]"

lemma timings_run: "lg_trace (snd (run_call env t (CallTimings n) logs_new)) = timings_locks"
  by (cases n) (simp_all add: PrintTimings_def guarded_def mutex_do_def pthen_apply pbind_apply logs_new_def timings_locks_def
    std_sort_def cout_def)

lemma mutex_timings_run: "lg_trace (snd (run_call env t (CallMutexTimings n) logs_new)) = mutex_timings_locks"
  by (cases n) (simp_all add: PrintMutexTimings_def guarded_def mutex_do_def pthen_apply pbind_apply logs_new_def
    mutex_timings_locks_def std_sort_def cout_def)

definition both_waiting :: "lock_thread list" where
  "both_waiting = [([TimingMutex], tl timings_locks), ([LogMutex], tl mutex_timings_locks)]"

lemma timings_deadlock:
  "lock_step\<^sup>*\<^sup>* [([], timings_locks), ([], mutex_timings_locks)] both_waiting"
  "\<not> threads_done both_waiting" "\<nexists>ps'. lock_step both_waiting ps'"
proof -
  have 1: "lock_step [([], timings_locks), ([], mutex_timings_locks)]
      [([TimingMutex], tl timings_locks), ([], mutex_timings_locks)]"
    using lock_step.taken [of 0 "[([], timings_locks), ([], mutex_timings_locks)]" "[]" TimingMutex "tl timings_locks"]
    by (simp add: timings_locks_def)
  have 2: "lock_step [([TimingMutex], tl timings_locks), ([], mutex_timings_locks)] both_waiting"
    using lock_step.taken [of 1 "[([TimingMutex], tl timings_locks), ([], mutex_timings_locks)]" "[]" LogMutex
        "tl mutex_timings_locks"]
    by (simp add: mutex_timings_locks_def both_waiting_def)
  show "lock_step\<^sup>*\<^sup>* [([], timings_locks), ([], mutex_timings_locks)] both_waiting"
    using converse_rtranclp_into_rtranclp [of lock_step, OF 1 r_into_rtranclp [of lock_step, OF 2]] by simp
  show "\<not> threads_done both_waiting" by (simp add: threads_done_def both_waiting_def timings_locks_def)
  show "\<nexists>ps'. lock_step both_waiting ps'"
    by (auto simp: both_waiting_def timings_locks_def mutex_timings_locks_def less_Suc_eq nth_Cons' elim!: lock_stepE split: if_splits)
qed

subsection \<open>Each thread has its number\<close>

definition threads_numbered :: "logs \<Rightarrow> bool" where
  "threads_numbered s \<longleftrightarrow> 0 \<le> rt_count s \<and> omap_ok (rt_numbers s) \<and> distinct (map snd (rt_numbers s)) \<and>
     snd ` set (rt_numbers s) = {1..rt_count s}"

lemma numbered_surface:
  "preserves threads_numbered (cout o')" "preserves threads_numbered (cerr o')" "preserves threads_numbered (mutex_do a)"
  "preserves threads_numbered (pmodify (lg_contexts_update f1))" "preserves threads_numbered (pmodify (lg_log_update f2))"
  "preserves threads_numbered (pmodify (lg_locks_update f3))" "preserves threads_numbered (pmodify (lg_timings_update f4))"
  "preserves threads_numbered (pmodify (lg_mutex_timings_update f5))"
  by (rule preservesI, simp add: threads_numbered_def cout_def cerr_def mutex_do_def)+

lemma numbered_GetThreadID: "preserves threads_numbered (GetThreadID t)"
proof (rule preservesI)
  fix s assume n: "threads_numbered s"
  show "threads_numbered (snd (GetThreadID t s))"
  proof (cases "map_of (rt_numbers s) t")
    case (Some n')
    then show ?thesis using n by (simp add: GetThreadID_def mutex_do_def pthen_apply pbind_apply threads_numbered_def)
  next
    case None
    have m: "mset (omap_insert t (rt_count s + 1) (rt_numbers s)) = add_mset (t, rt_count s + 1) (mset (rt_numbers s))"
      using None by (rule mset_omap_insert_new)
    then have "mset (map snd (omap_insert t (rt_count s + 1) (rt_numbers s))) = mset ((rt_count s + 1) # map snd (rt_numbers s))"
      by simp
    then have d: "distinct (map snd (omap_insert t (rt_count s + 1) (rt_numbers s))) \<longleftrightarrow>
        distinct ((rt_count s + 1) # map snd (rt_numbers s))"
      by (rule mset_eq_imp_distinct_iff)
    have eq: "snd (GetThreadID t s) = s\<lparr>lg_trace := lg_trace s @ [Acquire ThreadsMutex, Release ThreadsMutex],
        rt_count := rt_count s + 1, rt_numbers := omap_insert t (rt_count s + 1) (rt_numbers s)\<rparr>"
      using None by (simp add: GetThreadID_def mutex_do_def pthen_apply pbind_apply)
    have r: "snd ` set (rt_numbers s) = {1..rt_count s}" using n by (simp add: threads_numbered_def)
    have "set (omap_insert t (rt_count s + 1) (rt_numbers s)) = insert (t, rt_count s + 1) (set (rt_numbers s))"
      using arg_cong [OF m, of set_mset] by simp
    moreover have "insert (rt_count s + 1) {1..rt_count s} = {1..rt_count s + 1}" using n by (auto simp: threads_numbered_def)
    ultimately have "snd ` set (omap_insert t (rt_count s + 1) (rt_numbers s)) = {1..rt_count s + 1}"
      "distinct (map snd (omap_insert t (rt_count s + 1) (rt_numbers s)))"
      using n d r unfolding threads_numbered_def by simp_all
    then show ?thesis using n unfolding eq threads_numbered_def by simp
  qed
qed

lemma preserves_guarded:
  assumes "\<And>a. preserves P (mutex_do a)" "preserves P body"
  shows "preserves P (guarded m body)"
proof (rule preservesI)
  fix s assume "P s"
  then have "P (snd (body (snd (mutex_do (Acquire m) s))))" using assms by (blast intro: preservesD)
  then show "P (snd (guarded m body s))"
    using preservesD [OF assms(1) [of "Release m"]]
    by (auto simp: guarded_def mutex_do_def pthen_apply split: prod.split)
qed


lemma numbered_guarded [inv_intros]: "preserves threads_numbered body \<Longrightarrow> preserves threads_numbered (guarded m body)"
  by (rule preserves_guarded [OF numbered_surface(3)])

lemma preserves_option [inv_intros]:
  "preserves P m \<Longrightarrow> (\<And>x. preserves P (f x)) \<Longrightarrow> preserves P (case v of None \<Rightarrow> m | Some x \<Rightarrow> f x)"
  by (cases v) simp_all

lemma preserves_cond [inv_intros]: "preserves P m \<Longrightarrow> preserves P n \<Longrightarrow> preserves P (if b then m else n)"
  by simp

lemmas numbered_intros = inv_intros numbered_surface numbered_GetThreadID

lemma numbered_loops:
  "preserves threads_numbered (Unroll env vs)" "preserves threads_numbered (list_locks ls)" "preserves threads_numbered (print_rows env i ts)"
  by (induction vs; simp add: log_append_def numbered_intros del: pret_apply)
    (induction ls, simp_all add: numbered_intros del: pret_apply,
     induction ts arbitrary: i, simp_all add: numbered_intros del: pret_apply)

lemma numbered_PrintFrames: "preserves threads_numbered (PrintFrames env most i c)"
proof (induction env most i c rule: PrintFrames.induct)
  case (1 env most i ctx fl ln parent derived t inst)
  then show ?case
    unfolding PrintFrames.simps by (cases derived; cases parent) (simp_all add: numbered_intros del: pret_apply)
qed

lemma numbered_PrintTrace: "preserves threads_numbered (PrintTrace env ctx most)"
  unfolding PrintTrace_def by (intro numbered_intros numbered_PrintFrames)

lemma numbered_trace_locked: "preserves threads_numbered (trace_locked env ts)"
  by (induction ts)
    (simp_all add: context_at_def numbered_intros numbered_PrintTrace del: pret_apply)

lemma numbered_StackTrace: "preserves threads_numbered (StackTrace env ctx most locks name)"
  unfolding StackTrace_def by (intro numbered_intros numbered_PrintTrace numbered_loops numbered_trace_locked)

lemma numbered_TopContextImpl: "preserves threads_numbered (TopContextImpl t)"
  unfolding TopContextImpl_def by (intro numbered_intros)

lemma numbered_StackTrace_here: "preserves threads_numbered (StackTrace_here env t most locks)"
  unfolding StackTrace_here_def by (intro numbered_intros numbered_TopContextImpl numbered_StackTrace)

lemma numbered_log_entry: "preserves threads_numbered (log_entry env now t lv name args)"
  unfolding entry_defs by (intro numbered_intros numbered_TopContextImpl numbered_loops)

lemmas numbered_parts = numbered_intros numbered_loops numbered_TopContextImpl numbered_StackTrace numbered_StackTrace_here
  numbered_log_entry

lemma numbered_call: "preserves threads_numbered (run_call env t c)"
proof (cases c)
  case (CallSay now lv name args)
  then show ?thesis
    by (cases lv; cases name) (simp_all add: say_defs when_on_def numbered_parts del: pret_apply)
qed (simp_all add: log_Debug_items_def ignore_result_def DisableLogger_def RegisterLock_def RegisterUnlock_def when_on_def
       UpdateContextTime_def PrintTimings_def PrintMutexTimings_def context_defs numbered_parts del: pret_apply)

fun run_log_calls :: "log_env \<Rightarrow> (tid \<times> log_call) list \<Rightarrow> logs \<Rightarrow> logs" where
  "run_log_calls env [] s = s"
| "run_log_calls env ((t, c) # cs) s = run_log_calls env cs (snd (run_call env t c s))"

lemma numbered_run: "threads_numbered s \<Longrightarrow> threads_numbered (run_log_calls env cs s)"
  by (induction env cs s rule: run_log_calls.induct) (simp_all add: preservesD [OF numbered_call])

text \<open>
  Whatever the threads call of the logger, two different threads never have the same number in its entries and traces.
\<close>

lemma threads_have_numbers:
  assumes "s = run_log_calls env cs logs_new" "map_of (rt_numbers s) t = Some n" "map_of (rt_numbers s) t' = Some n"
  shows "t = t'"
proof -
  have "threads_numbered logs_new" by (simp add: threads_numbered_def logs_new_def)
  then have "distinct (map snd (rt_numbers s))" using numbered_run assms(1) unfolding threads_numbered_def by blast
  then show ?thesis using map_of_SomeD [OF assms(2)] map_of_SomeD [OF assms(3)] by (metis distinct_map fst_conv inj_onD snd_conv)
qed


subsection \<open>Nested scopes\<close>

text \<open>
  A function body with stack trace points: entries at any level, and inner scopes that each open with
  \<^verbatim>\<open>LOG_STACK_TRACE_POINT\<close>, make some copies of the context and end at the closing brace.
\<close>

datatype scoped_body =
    ScSay nat log_level "string option" "string list"
  | ScScope int int string string int nat nat "scoped_body list"

fun destroy_copies :: "log_env \<Rightarrow> int \<Rightarrow> tid \<Rightarrow> log_context \<Rightarrow> nat \<Rightarrow> (logs, unit) prog" where
  "destroy_copies env now t c 0 = pret ()"
| "destroy_copies env now t c (Suc n) = pthen (cx_destroy env now t (cx_copy c)) (destroy_copies env now t c n)"

fun run_scoped :: "log_env \<Rightarrow> tid \<Rightarrow> scoped_body list \<Rightarrow> (logs, unit) prog" where
  "run_scoped env t [] = pret ()"
| "run_scoped env t (ScSay now lv name args # cs) = pthen (log_say env now t lv name args) (run_scoped env t cs)"
| "run_scoped env t (ScScope start stop nm file line inst copies body # cs) =
     pbind (cx_new start t nm file line inst) (\<lambda>c.
       pthen (run_scoped env t body)
       (pthen (destroy_copies env stop t c copies) (pthen (cx_destroy env stop t c) (run_scoped env t cs))))"

definition stands :: "tid \<Rightarrow> context_details \<Rightarrow> logs \<Rightarrow> bool" where
  "stands t c s \<longleftrightarrow> lg_log s \<and> map_of (lg_contexts s) t = Some (Some c)"

definition settles :: "('s \<Rightarrow> bool) \<Rightarrow> ('s, 'a) prog \<Rightarrow> bool" where
  "settles P m \<longleftrightarrow> (\<forall>s. P s \<longrightarrow> (\<exists>r. fst (m s) = Inr r) \<and> P (snd (m s)))"

named_theorems settle_intros "operations that return and keep the context on top"

lemma map_of_set_entry [simp]: "map_of (set_entry k v m) = (map_of m)(k \<mapsto> v)"
proof (cases "map_of m k")
  case None
  then show ?thesis by (auto simp: set_entry_def fun_eq_iff map_add_def split: option.splits)
next
  case (Some w)
  have "map_of (map (\<lambda>e. if fst e = k then (k, v) else e) m) x =
      (if x = k \<and> map_of m k \<noteq> None then Some v else map_of m x)" for x
    by (induction m) auto
  then show ?thesis using Some by (auto simp: set_entry_def fun_eq_iff)
qed

lemma settles_basic [settle_intros]:
  "settles P (pret x)" "settles P (pget f)" "settles (stands t c) (cout o')" "settles (stands t c) (cerr o')"
  "settles (stands t c) (mutex_do a)" "settles (stands t c) (pmodify (lg_timings_update f1))"
  by (simp_all add: settles_def stands_def cout_def cerr_def mutex_do_def)

lemma settles_pbind [settle_intros]: "settles P m \<Longrightarrow> (\<And>x. settles P (f x)) \<Longrightarrow> settles P (pbind m f)"
  by (fastforce simp: settles_def pbind_def split: prod.splits sum.splits)

lemma settles_pthen [settle_intros]: "settles P m \<Longrightarrow> settles P n \<Longrightarrow> settles P (pthen m n)"
  by (simp add: pthen_def settles_pbind)

lemma settles_option [settle_intros]:
  "settles P m \<Longrightarrow> (\<And>x. settles P (f x)) \<Longrightarrow> settles P (case v of None \<Rightarrow> m | Some x \<Rightarrow> f x)"
  by (cases v) simp_all

lemma settles_if [settle_intros]: "settles P m \<Longrightarrow> settles P n \<Longrightarrow> settles P (if b then m else n)"
  by simp

lemma settles_guarded [settle_intros]: "settles (stands t c) body \<Longrightarrow> settles (stands t c) (guarded m body)"
proof (unfold settles_def, intro allI impI)
  fix s assume b: "\<forall>s. stands t c s \<longrightarrow> (\<exists>r. fst (body s) = Inr r) \<and> stands t c (snd (body s))" and s: "stands t c s"
  have "stands t c (snd (mutex_do (Acquire m) s))" using s by (simp add: stands_def mutex_do_def)
  with b obtain r s' where "body (snd (mutex_do (Acquire m) s)) = (Inr r, s')" "stands t c s'" by (metis prod.collapse)
  then show "(\<exists>r. fst (guarded m body s) = Inr r) \<and> stands t c (snd (guarded m body s))"
    by (simp add: guarded_def pthen_apply mutex_do_def stands_def)
qed

lemma settles_GetThreadID [settle_intros]: "settles (stands t c) (GetThreadID t')"
  by (simp add: settles_def stands_def GetThreadID_def mutex_do_def pthen_apply pbind_apply)

lemma top_of_standing: "stands t c s \<Longrightarrow> TopContextImpl t s = (Inr (Some c), s)"
  by (simp add: TopContextImpl_def stands_def pbind_apply)

lemma settles_context_at [settle_intros]: "settles (stands t c) (context_at t')"
  by (auto simp: settles_def stands_def context_at_def pbind_apply pthen_apply split: option.splits)

lemma settles_loops [settle_intros]:
  "settles (stands t c) (Unroll env vs)" "settles (stands t c) (list_locks ls)"
  by (induction vs; simp add: log_append_def settle_intros del: pret_apply)
    (induction ls, simp_all add: settle_intros del: pret_apply)

lemma settles_PrintFrames [settle_intros]: "settles (stands t c) (PrintFrames env most i d)"
proof (induction env most i d rule: PrintFrames.induct)
  case (1 env most i ctx fl ln parent derived t' inst)
  then show ?case
    unfolding PrintFrames.simps by (cases derived; cases parent) (simp_all add: settle_intros del: pret_apply)
qed

lemma settles_PrintTrace [settle_intros]: "settles (stands t c) (PrintTrace env ctx most)"
  unfolding PrintTrace_def by (intro settle_intros)

lemma settles_trace_locked [settle_intros]: "settles (stands t c) (trace_locked env ts)"
  by (induction ts) (simp_all add: settle_intros del: pret_apply)

lemma settles_StackTrace [settle_intros]: "settles (stands t c) (StackTrace env ctx most locks name)"
  unfolding StackTrace_def by (intro settle_intros)

lemma settles_top:
  assumes "\<And>ctx. ctx = Some c \<Longrightarrow> settles (stands t c) (f ctx)"
  shows "settles (stands t c) (pbind (TopContextImpl t) f)"
  using assms by (simp add: settles_def pbind_apply top_of_standing)

lemma settles_StartEntry: "settles (stands t c) (StartEntry env now t' lv name (Some d))"
  unfolding StartEntry_def option.simps by (intro settle_intros)

lemma settles_CloseEntry [settle_intros]: "settles (stands t c) (CloseEntry env)"
  unfolding CloseEntry_def by (intro settle_intros)

lemma settles_log_entry [settle_intros]: "settles (stands t c) (log_entry env now t lv name args)"
  unfolding log_entry_def by (rule settles_top) (simp add: settle_intros settles_StartEntry)

lemma settles_StackTrace_here [settle_intros]: "settles (stands t c) (StackTrace_here env t most locks)"
  unfolding StackTrace_here_def by (rule settles_top) (simp add: settle_intros)

lemma settles_say: "settles (stands t c) (log_say env now t lv name args)"
  by (cases lv; cases name) (simp_all add: say_defs when_on_def settle_intros del: pret_apply)

lemma settles_UpdateContextTime [settle_intros]: "settles (stands t c) (UpdateContextTime env d spent)"
  unfolding UpdateContextTime_def by (intro settle_intros)

lemma settles_copies: "settles (stands t c) (destroy_copies env now t cx n)"
  by (induction n) (simp_all add: cx_destroy_def cx_copy_def settle_intros del: pret_apply)

lemma SetContext_standing:
  "stands t c s \<Longrightarrow> fst (SetContext t (Some d) s) = Inr () \<and> stands t d (snd (SetContext t (Some d) s))"
  by (simp add: SetContext_def guarded_def mutex_do_def pthen_apply pbind_apply stands_def)

lemma TopContext_standing:
  assumes "stands t c s"
  shows "fst (TopContext t s) = Inr (Some c) \<and> stands t c (snd (TopContext t s))"
proof -
  have "stands t c (lg_trace_update (\<lambda>tr. tr @ [Acquire LogMutex]) s)" using assms by (simp add: stands_def)
  then show ?thesis by (simp add: TopContext_def guarded_def mutex_do_def pthen_apply top_of_standing) (simp add: stands_def)
qed

lemma cx_new_standing:
  assumes "stands t c s"
  obtains s' where "stands t (cd_new t (Some c) nm fl ln inst) s'"
    "cx_new start t nm fl ln inst s =
       (Inr \<lparr>cx_details = cd_new t (Some c) nm fl ln inst, cx_primary = True, cx_created = start\<rparr>, s')"
proof -
  obtain s1 where 1: "TopContext t s = (Inr (Some c), s1)" "stands t c s1"
    using TopContext_standing [OF assms] by (metis prod.collapse)
  obtain s2 where 2: "SetContext t (Some (cd_new t (Some c) nm fl ln inst)) s1 = (Inr (), s2)"
    "stands t (cd_new t (Some c) nm fl ln inst) s2"
    using SetContext_standing [OF 1(2)] by (metis prod.collapse)
  show ?thesis using that [OF 2(2)] 1(1) 2(1) by (simp add: cx_new_def Let_def pthen_apply pbind_apply)
qed

lemma cx_destroy_standing:
  assumes "stands t d s" "cd_parent (cx_details cx) = Some c" "cx_primary cx"
  obtains s' where "stands t c s'" "cx_destroy env now t cx s = (Inr (), s')"
proof -
  obtain s1 where 1: "UpdateContextTime env (cx_details cx) (le_of_int env (duration_millis (now - cx_created cx))) s = (Inr (), s1)"
    "stands t d s1"
    using settles_UpdateContextTime assms(1) unfolding settles_def by (metis (full_types) old.unit.exhaust prod.collapse)
  obtain s2 where "SetContext t (Some c) s1 = (Inr (), s2)" "stands t c s2"
    using SetContext_standing [OF 1(2)] by (metis prod.collapse)
  then show ?thesis using that assms(2,3) 1(1) by (simp add: cx_destroy_def pthen_apply)
qed

lemma settles_scoped: "settles (stands t c) (run_scoped env t cs)"
proof (induction env t cs arbitrary: c rule: run_scoped.induct)
  case (1 env t)
  show ?case by (simp add: settle_intros del: pret_apply)
next
  case (2 env t now lv name args cs)
  then show ?case by (simp add: settle_intros settles_say del: pret_apply)
next
  case (3 env t start stop nm fl ln inst copies body cs)
  show ?case unfolding settles_def
  proof (intro allI impI)
    fix s assume "stands t c s"
    define d where "d = cd_new t (Some c) nm fl ln inst"
    define cx where "cx = \<lparr>cx_details = d, cx_primary = True, cx_created = start\<rparr>"
    obtain s1 where 1: "cx_new start t nm fl ln inst s = (Inr cx, s1)" "stands t d s1"
      using cx_new_standing [OF \<open>stands t c s\<close>] unfolding cx_def d_def by metis
    have i: "settles (stands t d) (run_scoped env t body)" "\<And>c. settles (stands t c) (run_scoped env t cs)" using 3 by blast+
    obtain s2 where 2: "run_scoped env t body s1 = (Inr (), s2)" "stands t d s2"
      using i(1) 1(2) unfolding settles_def by (metis (full_types) old.unit.exhaust prod.collapse)
    obtain s3 where s3: "destroy_copies env stop t cx copies s2 = (Inr (), s3)" "stands t d s3"
      using settles_copies 2(2) unfolding settles_def by (metis (full_types) old.unit.exhaust prod.collapse)
    obtain s4 where s4: "cx_destroy env stop t cx s3 = (Inr (), s4)" "stands t c s4"
      using cx_destroy_standing [OF s3(2)] by (metis cd_new_def context_details.sel(4) cx_def d_def log_context.select_convs(1,2))
    have "run_scoped env t (ScScope start stop nm fl ln inst copies body # cs) s = run_scoped env t cs s4"
      using 1(1) 2(1) s3(1) s4(1) by (simp add: pthen_apply pbind_apply)
    then show "(\<exists>r. fst (run_scoped env t (ScScope start stop nm fl ln inst copies body # cs) s) = Inr r) \<and>
        stands t c (snd (run_scoped env t (ScScope start stop nm fl ln inst copies body # cs) s))"
      using i(2) s4(2) unfolding settles_def by simp
  qed
qed


text \<open>
  C39. While the logger is on, a thread whose context is on top gets it back: after any body of nested scopes, with entries
  at any level and copies of the contexts within, the body has returned and the same context is on top again.
\<close>

theorem scopes_restore_context:
  assumes "lg_log s" "map_of (lg_contexts s) t = Some (Some c)"
  shows "\<exists>s'. run_scoped env t cs s = (Inr (), s') \<and> map_of (lg_contexts s') t = Some (Some c)"
proof -
  have "stands t c s" using assms by (simp add: stands_def)
  then have "\<exists>r. fst (run_scoped env t cs s) = Inr r" "stands t c (snd (run_scoped env t cs s))"
    using settles_scoped unfolding settles_def by blast+
  then show ?thesis unfolding stands_def by (metis (full_types) old.unit.exhaust prod.collapse)
qed

text \<open>A context made for an instance alone has no parent: it stays on top of its thread after it is gone.\<close>

lemma instance_context_stays:
  assumes "lg_log s"
  shows "\<exists>s1 s2. cx_new_instance now t inst s = (Inr \<lparr>cx_details = cd_root t inst, cx_primary = True, cx_created = now\<rparr>, s1) \<and>
    cx_destroy env later t \<lparr>cx_details = cd_root t inst, cx_primary = True, cx_created = now\<rparr> s1 = (Inr (), s2) \<and>
    map_of (lg_contexts s2) t = Some (Some (cd_root t inst))"
  using assms
  by (simp add: cx_new_instance_def cx_destroy_def SetContext_def UpdateContextTime_def guarded_def mutex_do_def
    pthen_apply pbind_apply cd_root_def Let_def)

text \<open>A copy counts as one more call, which lasted since the epoch of the clock.\<close>

lemma copy_lasts_since_epoch:
  "cx_destroy env now t (cx_copy c) s = UpdateContextTime env (cx_details c) (le_of_int env (duration_millis now)) s"
proof -
  obtain r s' where u: "UpdateContextTime env (cx_details c) (le_of_int env (duration_millis now)) s = (Inr r, s')"
    unfolding UpdateContextTime_def guarded_def mutex_do_def by (simp add: pthen_apply)
  then show ?thesis by (cases "cd_parent (cx_details c)") (simp_all add: cx_destroy_def cx_copy_def pthen_apply)
qed

text \<open>
  A trace that finds a mutex held by a thread that has no context yet gives that thread a null context, and the first
  entry of that thread then dereferences it.
\<close>

definition unknown_locked :: "tid \<Rightarrow> (nat \<times> string) \<Rightarrow> logs \<Rightarrow> bool" where
  "unknown_locked t l s \<longleftrightarrow> map_of (lg_contexts s) t = None \<and> lg_log s \<and> lg_locks s = [(fst l, snd l, t)]"

lemma unknown_basic:
  "settles (unknown_locked t l) (GetThreadID u)" "settles (unknown_locked t l) (cout w)"
  by (simp_all add: settles_def unknown_locked_def GetThreadID_def mutex_do_def pthen_apply pbind_apply cout_def)

lemma unknown_PrintFrames: "settles (unknown_locked t l) (PrintFrames env most i c)"
proof (induction env most i c rule: PrintFrames.induct)
  case (1 env most i ctx fl ln parent derived u inst)
  then show ?case
    unfolding PrintFrames.simps
    by (cases derived; cases parent) (simp_all add: settle_intros unknown_basic del: pret_apply)
qed

lemma settles_run: "settles P m \<Longrightarrow> P s \<Longrightarrow> \<exists>r s'. m s = (Inr r, s') \<and> P s'"
  unfolding settles_def by (metis prod.collapse)

lemma unknown_trace_locked:
  assumes "unknown_locked t l s"
  shows "\<exists>s'. trace_locked env [t] s = (Inr (), s') \<and> lg_log s' \<and> map_of (lg_contexts s') t = Some None"
proof -
  obtain n s1 where 1: "GetThreadID t s = (Inr n, s1)" "unknown_locked t l s1"
    using settles_run [OF unknown_basic(1) assms] by blast
  then show ?thesis
    by (simp add: unknown_locked_def pbind_apply pthen_apply cout_def context_at_def PrintTrace_def)
qed

lemma traced_thread_is_undefined:
  assumes "unknown_locked t l s" "le_output env"
  shows "\<exists>s1 s2. StackTrace env (Some c) most True name s = (Inr (), s1) \<and>
    log_InfoWithName env now t nm args s1 = (Inl Undefined, s2)"
proof -
  obtain n s0 where 0: "GetThreadID (cd_id c) s = (Inr n, s0)" "unknown_locked t l s0"
    using settles_run [OF unknown_basic(1) assms(1)] by blast
  obtain s1 where 1: "cout (name @ '' for #'' @ int_str n @ endl) s0 = (Inr (), s1)" "unknown_locked t l s1"
    using settles_run [OF unknown_basic(2) 0(2)] by (metis (full_types) old.unit.exhaust)
  obtain s2 where 2: "PrintFrames env most 0 c s1 = (Inr (), s2)" "unknown_locked t l s2"
    using settles_run [OF unknown_PrintFrames 1(2)] by (metis (full_types) old.unit.exhaust)
  define s3 where "s3 = lg_cout_update
    (\<lambda>w. (w @ (endl @ ''Active locks: '' @ endl)) @ (''  - '' @ snd l @ endl) @ endl) s2"
  have "unknown_locked t l s3" using 2(2) by (simp add: s3_def unknown_locked_def)
  then obtain s' where 3: "trace_locked env [t] s3 = (Inr (), s')" "lg_log s'" "map_of (lg_contexts s') t = Some None"
    using unknown_trace_locked by blast
  have "lg_locks s2 = [(fst l, snd l, t)]" using 2(2) by (simp add: unknown_locked_def)
  then have "StackTrace env (Some c) most True name s = (Inr (), s')"
    using 3(1) 0(1) 1(1) 2(1)
    by (simp add: StackTrace_def PrintTrace_def pbind_apply pthen_apply cout_def s3_def comp_def del: trace_locked.simps)
  moreover have "\<exists>s2. log_InfoWithName env now t nm args s' = (Inl Undefined, s2)"
    using assms(2) 3(2,3)
    by (simp add: log_InfoWithName_def when_on_def log_entry_def guarded_def mutex_do_def pthen_apply pbind_apply
      TopContextImpl_def StartEntry_def GetThreadID_def cout_def)
  ultimately show ?thesis by blast
qed


subsection \<open>Concrete runs\<close>

definition plain_arithmetic :: arithmetic where
  "plain_arithmetic = \<lparr>fp_add = (\<lambda>a b. b), fp_sub = (\<lambda>a b. a), fp_mul = (\<lambda>a b. a), fp_div = (\<lambda>a b. a),
     fp_sqrt = (\<lambda>a. a), fp_sin = (\<lambda>a. a), fp_cos = (\<lambda>a. a), fp_asin = (\<lambda>a. a)\<rparr>"

definition plain_env :: log_env where
  "plain_env = \<lparr>le_output = True, le_colour = False, le_time = (\<lambda>_. ''2019-06-01 12:00:00''), le_pointer = nat_str,
     le_double = (\<lambda>_. ''0''), le_of_int = (\<lambda>_. 0), le_arithmetic = plain_arithmetic\<rparr>"

definition small_body :: "scoped_body list" where
  "small_body =
     [ScScope 0 2000000 ''run'' ''a.cpp'' 10 0 1
        [ScSay 0 LvInfo (Some ''Loop'') [''started''],
         ScScope 0 1000000 ''step'' ''a.cpp'' 20 7 0 [ScSay 1 LvError None [''failed'']]]]"

theorem scopes_restore_context_witness:
  "\<exists>s'. run_scoped plain_env 1 small_body (logs_new\<lparr>lg_contexts := [(1, Some (cd_root 1 0))]\<rparr>) = (Inr (), s') \<and>
     map_of (lg_contexts s') 1 = Some (Some (cd_root 1 0))"
  by (rule scopes_restore_context) (simp_all add: logs_new_def)

lemma called_timings: "call_locks env timings_locks"
  using call_locks.one_more [of env "[]" "CallTimings 0" 0 logs_new timings_locks] timings_run [of env 0 0]
  by (simp add: call_locks.no_calls orderly_def logs_new_def)

definition set_context_locks :: "lock_action list" where
  "set_context_locks = [Acquire LogMutex, Release LogMutex]"

lemma called_set_context: "call_locks env set_context_locks"
proof -
  have "lg_trace (snd (run_call env 0 (CallSetContext None) logs_new)) = lg_trace logs_new @ set_context_locks"
    by (simp add: SetContext_def guarded_def mutex_do_def pthen_apply pbind_apply logs_new_def set_context_locks_def)
  then show ?thesis using call_locks.one_more [of env "[]" "CallSetContext None" 0 logs_new set_context_locks]
    by (simp add: call_locks.no_calls orderly_def)
qed

theorem logger_never_deadlocks_witness:
  "\<exists>ps'. lock_step [([TimingMutex], tl timings_locks), ([], set_context_locks)] ps'"
proof -
  have "lock_step [([], timings_locks), ([], set_context_locks)] [([TimingMutex], tl timings_locks), ([], set_context_locks)]"
    using lock_step.taken [of 0 "[([], timings_locks), ([], set_context_locks)]" "[]" TimingMutex "tl timings_locks"]
    by (simp add: timings_locks_def)
  then have "threads_done [([TimingMutex], tl timings_locks), ([], set_context_locks)] \<or>
      (\<exists>ps'. lock_step [([TimingMutex], tl timings_locks), ([], set_context_locks)] ps')"
    using called_timings called_set_context
    by (intro logger_never_deadlocks [of "[timings_locks, set_context_locks]" plain_env]) auto
  moreover have "\<not> threads_done [([TimingMutex], tl timings_locks), ([], set_context_locks)]"
    by (simp add: threads_done_def timings_locks_def)
  ultimately show ?thesis by blast
qed

lemma threads_have_numbers_example:
  "\<exists>s. s = run_log_calls plain_env [(5, CallStackTraceHere 1 False), (3, CallStackTraceHere 1 False)] logs_new \<and>
     map_of (rt_numbers s) 5 = Some 1 \<and> map_of (rt_numbers s) 3 \<noteq> Some 1"
proof -
  define s where "s = run_log_calls plain_env [(5, CallStackTraceHere 1 False), (3, CallStackTraceHere 1 False)] logs_new"
  have n: "map_of (rt_numbers s) 5 = Some 1"
    by (simp add: s_def StackTrace_here_def StackTrace_def PrintTrace_def TopContextImpl_def GetThreadID_def mutex_do_def
      pthen_apply pbind_apply cout_def logs_new_def cd_root_def)
  then have "map_of (rt_numbers s) 3 \<noteq> Some 1" using threads_have_numbers [OF s_def n, of 3] by auto
  with n s_def show ?thesis by blast
qed


subsection \<open>The logger of the earlier core\<close>

text \<open>
  \<^verbatim>\<open>oef-core-functions/src/cpp/lib/logger.hpp\<close>: every section writes to one logger of the logging library, which
  the first section to find none makes and registers. Of the library the sources rely on: a logger is looked up by
  its name, registering a name twice throws, setting the level sets it of every registered logger, and a message below
  the level of its logger is not written. \<open>spd_written\<close> are the messages that reach the sinks, with their arguments.
\<close>

datatype LogLevel = Lv_trace | Lv_debug | Lv_info | Lv_warn | Lv_error | Lv_critical | Lv_off

fun LogLevel_number :: "LogLevel \<Rightarrow> nat" where
  "LogLevel_number Lv_trace = 0" | "LogLevel_number Lv_debug = 1" | "LogLevel_number Lv_info = 2"
| "LogLevel_number Lv_warn = 3" | "LogLevel_number Lv_error = 4" | "LogLevel_number Lv_critical = 5"
| "LogLevel_number Lv_off = 6"

record spd_logger =
  sp_sinks :: "string list"
  sp_level :: LogLevel

record spd_state =
  spd_heap :: "spd_logger list"
  spd_loggers :: "(string \<times> nat) list"
  spd_written :: "(nat \<times> LogLevel \<times> string \<times> string list) list"

record oef_logger =
  ol_section :: string
  ol_logger :: nat

definition ol_logger_name :: string where "ol_logger_name = ''fetch::oef::logger''"

definition spd_get :: "string \<Rightarrow> (spd_state, nat option) prog" where
  "spd_get name = pget (\<lambda>s. map_of (spd_loggers s) name)"

definition spd_make :: "string list \<Rightarrow> (spd_state, nat) prog" where
  "spd_make sinks = (\<lambda>s. (Inr (length (spd_heap s)), s\<lparr>spd_heap := spd_heap s @ [\<lparr>sp_sinks = sinks, sp_level = Lv_info\<rparr>]\<rparr>))"

definition spd_register :: "string \<Rightarrow> nat \<Rightarrow> (spd_state, unit) prog" where
  "spd_register name l =
     (\<lambda>s. if map_of (spd_loggers s) name \<noteq> None
          then (Inl (RuntimeError (''logger with name '' @ name @ '' already exists'')), s)
          else (Inr (), s\<lparr>spd_loggers := (name, l) # spd_loggers s\<rparr>))"

text \<open>The two halves of the constructor: the look-up, and what follows it.\<close>

definition ol_new_found :: "string \<Rightarrow> nat option \<Rightarrow> (spd_state, oef_logger) prog" where
  "ol_new_found section found =
     (case found of
        Some l \<Rightarrow> pret \<lparr>ol_section = section, ol_logger = l\<rparr>
      | None \<Rightarrow>
          pbind (spd_make [''color_sink'', ''rotating_sink log.txt'']) (\<lambda>l.
            pthen (spd_register ol_logger_name l) (pret \<lparr>ol_section = section, ol_logger = l\<rparr>)))"

definition ol_new :: "string \<Rightarrow> (spd_state, oef_logger) prog" where
  "ol_new section = pbind (spd_get ol_logger_name) (ol_new_found section)"

definition ol_log :: "oef_logger \<Rightarrow> LogLevel \<Rightarrow> string \<Rightarrow> string list \<Rightarrow> (spd_state, unit) prog" where
  "ol_log l lv fmt args =
     (let new_fmt = ''[{}] '' @ fmt in
      pmodify (\<lambda>s. if ol_logger l < length (spd_heap s) \<and>
                      LogLevel_number (sp_level (spd_heap s ! ol_logger l)) \<le> LogLevel_number lv
                   then s\<lparr>spd_written := spd_written s @ [(ol_logger l, lv, new_fmt, ol_section l # args)]\<rparr> else s))"

definition ol_trace :: "oef_logger \<Rightarrow> string \<Rightarrow> string list \<Rightarrow> (spd_state, unit) prog" where
  "ol_trace l fmt args = ol_log l Lv_trace fmt args"

definition ol_trace1 :: "oef_logger \<Rightarrow> string \<Rightarrow> (spd_state, unit) prog" where
  "ol_trace1 l arg = ol_trace l ''{}'' [arg]"

definition ol_debug :: "oef_logger \<Rightarrow> string \<Rightarrow> string list \<Rightarrow> (spd_state, unit) prog" where
  "ol_debug l fmt args = ol_log l Lv_debug fmt args"

definition ol_debug1 :: "oef_logger \<Rightarrow> string \<Rightarrow> (spd_state, unit) prog" where
  "ol_debug1 l arg = ol_debug l ''{}'' [arg]"

definition ol_info :: "oef_logger \<Rightarrow> string \<Rightarrow> string list \<Rightarrow> (spd_state, unit) prog" where
  "ol_info l fmt args = ol_log l Lv_info fmt args"

definition ol_info1 :: "oef_logger \<Rightarrow> string \<Rightarrow> (spd_state, unit) prog" where
  "ol_info1 l arg = ol_info l ''{}'' [arg]"

definition ol_warn :: "oef_logger \<Rightarrow> string \<Rightarrow> string list \<Rightarrow> (spd_state, unit) prog" where
  "ol_warn l fmt args = ol_log l Lv_warn fmt args"

definition ol_warn1 :: "oef_logger \<Rightarrow> string \<Rightarrow> (spd_state, unit) prog" where
  "ol_warn1 l arg = ol_warn l ''{}'' [arg]"

definition ol_error :: "oef_logger \<Rightarrow> string \<Rightarrow> string list \<Rightarrow> (spd_state, unit) prog" where
  "ol_error l fmt args = ol_log l Lv_error fmt args"

definition ol_error1 :: "oef_logger \<Rightarrow> string \<Rightarrow> (spd_state, unit) prog" where
  "ol_error1 l arg = ol_error l ''{}'' [arg]"

definition ol_critical :: "oef_logger \<Rightarrow> string \<Rightarrow> string list \<Rightarrow> (spd_state, unit) prog" where
  "ol_critical l fmt args = ol_log l Lv_critical fmt args"

definition ol_critical1 :: "oef_logger \<Rightarrow> string \<Rightarrow> (spd_state, unit) prog" where
  "ol_critical1 l arg = ol_critical l ''{}'' [arg]"

definition ol_level :: "LogLevel \<Rightarrow> (spd_state, unit) prog" where
  "ol_level lv =
     pmodify (\<lambda>s. s\<lparr>spd_heap := map (\<lambda>(i, l). if i \<in> snd ` set (spd_loggers s) then l\<lparr>sp_level := lv\<rparr> else l)
                                (List.enumerate 0 (spd_heap s))\<rparr>)"

text \<open>Sections made one after the other share the logger of the first.\<close>

lemma sections_share_logger:
  assumes "ol_new sec s = (Inr l, s1)"
  shows "ol_new sec' s1 = (Inr \<lparr>ol_section = sec', ol_logger = ol_logger l\<rparr>, s1)"
  using assms
  by (auto simp: ol_new_def ol_new_found_def spd_get_def spd_make_def spd_register_def pbind_apply pthen_apply
    split: option.splits if_splits)

text \<open>Two threads that both find no logger: the second to register throws.\<close>

lemma sections_race:
  assumes "map_of (spd_loggers s) ol_logger_name = None" "ol_new_found sec None s = (Inr l, s1)"
  shows "\<exists>w s2. ol_new_found sec' None s1 = (Inl (RuntimeError w), s2)"
  using assms by (auto simp: ol_new_found_def spd_make_def spd_register_def pbind_apply pthen_apply split: if_splits)

text \<open>The level is that of the loggers there are: set before the first section is made, it has no effect on it.\<close>

lemma early_level_lost:
  assumes "spd_loggers s = []"
  shows "ol_level lv s = (Inr (), s)"
  using assms by (simp add: ol_level_def case_prod_beta')

end
