(* ===== verification/CoreComms.thy ===== *)
theory CoreComms
  imports CoreServer
begin

text \<open>
  The blocking halves of the connections of the earlier core, and what a client of it sends: the sockets of
  \<^verbatim>\<open>oef-core-functions/src/cpp/lib/asio_communicator.cpp\<close> and \<^verbatim>\<open>asio_basic_communicator.hpp\<close>, the acceptor, the
  conversions of \<^verbatim>\<open>serialization.hpp\<close> and the messages of \<^verbatim>\<open>clientmsg.hpp\<close>. Of the socket library the code relies on
  what it documents: a blocking write or read transfers all that was asked for or reports an error and the
  bytes it did transfer, and closing or shutting down a socket that is not open throws. Serialisers and parsers of protobuf
  are parameters.
\<close>

subsection \<open>Sockets\<close>

text \<open>
  \<open>so_room\<close> is how many bytes the peer still takes before the connection fails, \<open>so_incoming\<close> all that it will
  ever send. \<open>so_warnings\<close> counts the messages on the error stream.
\<close>

record sync_socket =
  so_open :: bool
  so_written :: "byte list"
  so_room :: "nat option"
  so_incoming :: "byte list"
  so_warnings :: nat

definition socket_new :: sync_socket where
  "socket_new = \<lparr>so_open = False, so_written = [], so_room = None, so_incoming = [], so_warnings = 0\<rparr>"

definition so_warn :: "(sync_socket, unit) prog" where
  "so_warn = pmodify (\<lambda>s. s\<lparr>so_warnings := so_warnings s + 1\<rparr>)"

definition connection_reset :: error_code where "connection_reset = Failed 104"

definition end_of_file :: error_code where "end_of_file = Failed 2"

definition asio_write :: "byte list \<Rightarrow> (sync_socket, error_code \<times> nat) prog" where
  "asio_write bs = (\<lambda>s.
     let n = (case so_room s of None \<Rightarrow> length bs | Some r \<Rightarrow> min r (length bs)) in
     (Inr (if n < length bs then connection_reset else Ok, n),
      s\<lparr>so_written := so_written s @ take n bs, so_room := map_option (\<lambda>r. r - n) (so_room s)\<rparr>))"

definition asio_read :: "nat \<Rightarrow> (sync_socket, error_code \<times> byte list) prog" where
  "asio_read n = (\<lambda>s.
     (Inr (if length (so_incoming s) < n then end_of_file else Ok, take n (so_incoming s)),
      s\<lparr>so_incoming := drop n (so_incoming s)\<rparr>))"

text \<open>\<open>r\<close> is what resolving the address and connecting to it come to.\<close>

definition asio_connect :: "exn + unit \<Rightarrow> (sync_socket, unit) prog" where
  "asio_connect r = (case r of Inl e \<Rightarrow> pthrow e | Inr _ \<Rightarrow> pmodify (\<lambda>s. s\<lparr>so_open := True\<rparr>))"

text \<open>Shutting down throws on a socket that is not open, and \<open>r\<close> is what else may go wrong.\<close>

definition asio_shutdown :: "exn + unit \<Rightarrow> (sync_socket, unit) prog" where
  "asio_shutdown r =
     pbind (pget so_open) (\<lambda>on. if on then plift r else pthrow (RuntimeError ''shutdown: Bad file descriptor''))"

definition asio_close :: "(sync_socket, unit) prog" where
  "asio_close = pmodify (\<lambda>s. s\<lparr>so_open := False\<rparr>)"

subsection \<open>\<^verbatim>\<open>AsioComm\<close>, blocking\<close>

definition sc_connect :: "exn + unit \<Rightarrow> (sync_socket, unit) prog" where
  "sc_connect r = pcatch (asio_connect r) (\<lambda>e. if is_std_exception e then pthen so_warn (pthrow e) else pthrow e)"

definition sc_disconnect :: "exn + unit \<Rightarrow> (sync_socket, unit) prog" where
  "sc_disconnect r =
     pbind (pget so_open) (\<lambda>on.
       if \<not> on then so_warn
       else pcatch (pthen (asio_shutdown r) asio_close)
              (\<lambda>e. if is_std_exception e then so_warn else pthrow e))"

definition sc_send_sync :: "byte list \<Rightarrow> (sync_socket, error_code) prog" where
  "sc_send_sync buffer =
     (let len = (of_nat (length buffer) :: u32); expected = len + 4 in
      pbind (asio_write (rev (be_bytes len) @ take (unat len) buffer)) (\<lambda>(ec, n).
        pthen (if n \<noteq> unat expected then so_warn else pret ()) (pret ec)))"

text \<open>
  A group of buffers: the list given to the socket names the lengths by their address in a vector that grows in the loop.
  \<open>grow n\<close> is the capacity of a vector of \<open>n\<close> elements when it has just grown; growing moves the elements, and the
  addresses taken before are gone: \<open>LenAt m i\<close> is the address of element \<open>i\<close> after \<open>m\<close> moves.
\<close>

datatype gather_part = LenAt nat nat | DataOf "byte list"

record len_vector =
  lv_items :: "u32 list"
  lv_capacity :: nat
  lv_moves :: nat

definition lv_emplace_back :: "(nat \<Rightarrow> nat) \<Rightarrow> u32 \<Rightarrow> len_vector \<Rightarrow> len_vector" where
  "lv_emplace_back grow x v =
     (if length (lv_items v) < lv_capacity v then v\<lparr>lv_items := lv_items v @ [x]\<rparr>
      else \<lparr>lv_items = lv_items v @ [x], lv_capacity = grow (Suc (length (lv_items v))), lv_moves = lv_moves v + 1\<rparr>)"

fun gather_group :: "(nat \<Rightarrow> nat) \<Rightarrow> byte list list \<Rightarrow> len_vector \<Rightarrow> gather_part list \<Rightarrow> u32 \<Rightarrow>
    len_vector \<times> gather_part list \<times> u32" where
  "gather_group grow [] v parts acc = (v, parts, acc)"
| "gather_group grow (b # bs) v parts acc =
     (let len = (of_nat (length b) :: u32); v' = lv_emplace_back grow len v in
      gather_group grow bs v'
        (parts @ [LenAt (lv_moves v') (length (lv_items v') - 1), DataOf (take (unat len) b)]) (acc + (len + 4)))"

fun read_parts :: "len_vector \<Rightarrow> gather_part list \<Rightarrow> exn + byte list" where
  "read_parts v [] = Inr []"
| "read_parts v (LenAt m i # ps) =
     (if m \<noteq> lv_moves v then Inl Undefined
      else ebind (read_parts v ps) (\<lambda>bs. Inr (rev (be_bytes (lv_items v ! i)) @ bs)))"
| "read_parts v (DataOf d # ps) = ebind (read_parts v ps) (\<lambda>bs. Inr (d @ bs))"

definition sc_send_group :: "(nat \<Rightarrow> nat) \<Rightarrow> byte list list \<Rightarrow> (sync_socket, error_code) prog" where
  "sc_send_group grow buffers =
     (case gather_group grow buffers \<lparr>lv_items = [], lv_capacity = 0, lv_moves = 0\<rparr> [] 0 of
        (v, parts, expected) \<Rightarrow>
          pbind (plift (read_parts v parts)) (\<lambda>bs. pbind (asio_write bs) (\<lambda>(ec, n).
            pthen (if n \<noteq> unat expected then so_warn else pret ()) (pret ec))))"

text \<open>The buffer is handed over only when its length has been read.\<close>

definition sc_receive_sync :: "(sync_socket, error_code \<times> byte list option) prog" where
  "sc_receive_sync =
     pbind (asio_read 4) (\<lambda>(ec, l).
       if ec \<noteq> Ok \<or> length l \<noteq> 4 then pthen so_warn (pret (ec, None))
       else pbind (asio_read (unat (le_at l))) (\<lambda>(ec', d).
         let buffer = d @ replicate (unat (le_at l) - length d) 0 in
         if ec' \<noteq> Ok \<or> length d \<noteq> unat (le_at l) then pthen so_warn (pret (ec', Some buffer))
         else pret (ec', Some buffer)))"

text \<open>The third form sends the negated length before the data.\<close>

definition sc_send_negated :: "byte list \<Rightarrow> (sync_socket, error_code) prog" where
  "sc_send_negated buffer =
     (let len = - (of_nat (length buffer) :: u32); expected = len + 4 in
      pbind (asio_write (rev (be_bytes len) @ buffer)) (\<lambda>(ec, n).
        pthen (if n \<noteq> unat expected then so_warn else pret ()) (pret ec)))"

definition sc_destroy :: "exn + unit \<Rightarrow> (sync_socket, unit) prog" where
  "sc_destroy r = pcatch (sc_disconnect r) (\<lambda>_. pthrow Aborted)"

text \<open>The move constructor: the new object has the socket, the old one none.\<close>

definition sc_move :: "sync_socket \<Rightarrow> sync_socket \<times> sync_socket" where
  "sc_move s = (s, socket_new)"

subsection \<open>\<^verbatim>\<open>AsioBasicComm\<close>\<close>

text \<open>Writes and reads that have been started, with their continuations, and the calls of continuations.\<close>

datatype 'k basic_call = Wrote 'k error_code nat | Got 'k error_code "byte list"

record 'k basic_comm =
  bc_socket :: sync_socket
  bc_writes :: "(nat \<times> 'k) list"
  bc_reads :: "(nat \<times> 'k) list"
  bc_calls :: "'k basic_call list"

definition bc_new :: "'k basic_comm" where
  "bc_new = \<lparr>bc_socket = socket_new, bc_writes = [], bc_reads = [], bc_calls = []\<rparr>"

definition on_socket :: "(sync_socket, 'a) prog \<Rightarrow> ('k basic_comm, 'a) prog" where
  "on_socket p = (\<lambda>c. case p (bc_socket c) of (r, s) \<Rightarrow> (r, c\<lparr>bc_socket := s\<rparr>))"

definition bc_connected :: "exn + unit \<Rightarrow> ('k basic_comm, unit) prog" where
  "bc_connected r =
     on_socket (pcatch (asio_connect r) (\<lambda>e. if is_std_exception e then pthen so_warn (pthrow e) else pthrow e))"

definition bc_disconnect :: "exn + unit \<Rightarrow> ('k basic_comm, unit) prog" where
  "bc_disconnect r = on_socket (pthen (asio_shutdown r) asio_close)"

text \<open>A destructor that lets an exception out ends the process.\<close>

definition bc_destroy :: "exn + unit \<Rightarrow> ('k basic_comm, unit) prog" where
  "bc_destroy r = pcatch (bc_disconnect r) (\<lambda>_. pthrow Aborted)"

definition bc_move :: "'k basic_comm \<Rightarrow> 'k basic_comm \<times> 'k basic_comm" where
  "bc_move c = (c\<lparr>bc_writes := [], bc_reads := [], bc_calls := []\<rparr>, c\<lparr>bc_socket := socket_new\<rparr>)"

text \<open>A pointer and a number of bytes: reading past the object is undefined.\<close>

definition bytes_at :: "byte list \<Rightarrow> nat \<Rightarrow> exn + byte list" where
  "bytes_at b n = (if n \<le> length b then Inr (take n b) else Inl Undefined)"

fun bytes_of_all :: "byte list list \<Rightarrow> nat list \<Rightarrow> exn + byte list" where
  "bytes_of_all [] ns = Inr []"
| "bytes_of_all (b # bs) [] = Inl Undefined"
| "bytes_of_all (b # bs) (n # ns) = ebind (bytes_at b n) (\<lambda>d. ebind (bytes_of_all bs ns) (\<lambda>r. Inr (d @ r)))"

definition bc_send_sync :: "byte list \<Rightarrow> nat \<Rightarrow> ('k basic_comm, error_code) prog" where
  "bc_send_sync buffer nbytes =
     pbind (plift (bytes_at buffer nbytes)) (\<lambda>d. on_socket (pbind (asio_write d) (\<lambda>(ec, len).
       pthen (if len \<noteq> nbytes then so_warn else pret ()) (pret ec))))"

definition bc_send_group :: "bool \<Rightarrow> byte list list \<Rightarrow> nat list \<Rightarrow> ('k basic_comm, error_code) prog" where
  "bc_send_group asserts buffers nbytes =
     (if asserts \<and> length buffers \<noteq> length nbytes then pthrow Aborted
      else pbind (plift (bytes_of_all buffers nbytes)) (\<lambda>d. on_socket (pbind (asio_write d) (\<lambda>(ec, len).
        pthen (if len \<noteq> sum_list (take (length buffers) nbytes) then so_warn else pret ()) (pret ec)))))"

definition bc_receive_sync :: "nat \<Rightarrow> ('k basic_comm, error_code \<times> byte list) prog" where
  "bc_receive_sync nbytes =
     on_socket (pbind (asio_read nbytes) (\<lambda>(ec, d).
       pthen (if length d \<noteq> nbytes then so_warn else pret ()) (pret (ec, d))))"

definition bc_send_async_group :: "bool \<Rightarrow> byte list list \<Rightarrow> nat list \<Rightarrow> 'k \<Rightarrow> ('k basic_comm, unit) prog" where
  "bc_send_async_group asserts buffers nbytes k =
     (if asserts \<and> length buffers \<noteq> length nbytes then pthrow Aborted
      else pbind (plift (bytes_of_all buffers nbytes)) (\<lambda>d.
        pmodify (\<lambda>c. c\<lparr>bc_socket := (bc_socket c)\<lparr>so_written := so_written (bc_socket c) @ d\<rparr>,
                        bc_writes := bc_writes c @ [(sum_list (take (length buffers) nbytes), k)]\<rparr>)))"

definition bc_send_async :: "byte list \<Rightarrow> nat \<Rightarrow> 'k \<Rightarrow> ('k basic_comm, unit) prog" where
  "bc_send_async buffer nbytes k =
     pbind (plift (bytes_at buffer nbytes)) (\<lambda>d.
       pmodify (\<lambda>c. c\<lparr>bc_socket := (bc_socket c)\<lparr>so_written := so_written (bc_socket c) @ d\<rparr>,
                       bc_writes := bc_writes c @ [(nbytes, k)]\<rparr>))"

text \<open>The oldest write has ended: whatever the error, its continuation is called.\<close>

definition bc_written :: "error_code \<Rightarrow> nat \<Rightarrow> ('k basic_comm, unit) prog" where
  "bc_written ec len =
     pbind (pget bc_writes) (\<lambda>ws. case ws of
       [] \<Rightarrow> pret ()
     | (n, k) # rest \<Rightarrow>
         pthen (pmodify (\<lambda>c. c\<lparr>bc_writes := rest\<rparr>))
         (pthen (if ec \<noteq> Ok then on_socket so_warn else pret ())
           (pmodify (\<lambda>c. c\<lparr>bc_calls := bc_calls c @ [Wrote k ec len]\<rparr>))))"

definition bc_receive_async :: "nat \<Rightarrow> 'k \<Rightarrow> ('k basic_comm, unit) prog" where
  "bc_receive_async nbytes k = pmodify (\<lambda>c. c\<lparr>bc_reads := bc_reads c @ [(nbytes, k)]\<rparr>)"

definition bc_received :: "error_code \<Rightarrow> byte list \<Rightarrow> ('k basic_comm, unit) prog" where
  "bc_received ec d =
     pbind (pget bc_reads) (\<lambda>rs. case rs of
       [] \<Rightarrow> pret ()
     | (n, k) # rest \<Rightarrow>
         pthen (pmodify (\<lambda>c. c\<lparr>bc_reads := rest\<rparr>))
           (if ec \<noteq> Ok then pthen (on_socket so_warn) (pmodify (\<lambda>c. c\<lparr>bc_calls := bc_calls c @ [Got k ec []]\<rparr>))
            else pmodify (\<lambda>c. c\<lparr>bc_calls := bc_calls c @ [Got k ec d]\<rparr>)))"


subsection \<open>The acceptor\<close>

text \<open>The acceptor listens on its port; an accept that fails only warns, and its continuation is never called.\<close>

record 'k acceptor =
  aa_port :: u32
  aa_backlog :: u32
  aa_pending :: "'k list"
  aa_calls :: "('k \<times> sync_socket) list"
  aa_warnings :: nat

definition aa_new :: "exn + unit \<Rightarrow> u32 \<Rightarrow> u32 \<Rightarrow> exn + 'k acceptor" where
  "aa_new bound port backlog = ebind bound (\<lambda>_.
     Inr \<lparr>aa_port = port, aa_backlog = backlog, aa_pending = [], aa_calls = [], aa_warnings = 0\<rparr>)"

definition aa_do_accept_async :: "'k \<Rightarrow> ('k acceptor, unit) prog" where
  "aa_do_accept_async k = pmodify (\<lambda>a. a\<lparr>aa_pending := aa_pending a @ [k]\<rparr>)"

definition aa_accepted :: "error_code \<Rightarrow> sync_socket \<Rightarrow> ('k acceptor, unit) prog" where
  "aa_accepted ec s =
     pbind (pget aa_pending) (\<lambda>ks. case ks of
       [] \<Rightarrow> pret ()
     | k # rest \<Rightarrow>
         pthen (pmodify (\<lambda>a. a\<lparr>aa_pending := rest\<rparr>))
           (if ec \<noteq> Ok then pmodify (\<lambda>a. a\<lparr>aa_warnings := aa_warnings a + 1\<rparr>)
            else pmodify (\<lambda>a. a\<lparr>aa_calls := aa_calls a @ [(k, s)]\<rparr>)))"

definition aa_local_port :: "'k acceptor \<Rightarrow> u32" where
  "aa_local_port a = aa_port a"

subsection \<open>Serialisation\<close>

text \<open>Only the second form of \<^verbatim>\<open>deserialize\<close> tells its caller that the bytes do not parse; \<open>fresh\<close> is the message as far as it was read.\<close>

definition pbs_from_string :: "(byte list \<Rightarrow> bool \<times> 'm) \<Rightarrow> byte list \<Rightarrow> 'm" where
  "pbs_from_string parse s = snd (parse s)"

definition pbs_serialize :: "('m \<Rightarrow> nat) \<Rightarrow> ('m \<Rightarrow> byte list) \<Rightarrow> 'm \<Rightarrow> exn + byte list" where
  "pbs_serialize byteSize ser t =
     (let size = byteSize t; data = ser t in
      if size < length data then Inl Undefined else Inr (data @ replicate (size - length data) 0))"

definition pbs_deserialize_status :: "(byte list \<Rightarrow> bool \<times> 'm) \<Rightarrow> byte list \<Rightarrow> 'm \<times> bool" where
  "pbs_deserialize_status parse buffer = (snd (parse buffer), fst (parse buffer))"

definition pbs_deserialize :: "(byte list \<Rightarrow> bool \<times> 'm) \<Rightarrow> byte list \<Rightarrow> 'm \<times> nat" where
  "pbs_deserialize parse buffer = (snd (parse buffer), if fst (parse buffer) then 0 else 1)"

definition pbs_deserialize_string :: "(byte list \<Rightarrow> bool \<times> 'm) \<Rightarrow> byte list \<Rightarrow> 'm \<times> nat" where
  "pbs_deserialize_string parse buffer = (snd (parse buffer), if fst (parse buffer) then 0 else 1)"

text \<open>
  \<^verbatim>\<open>diagnostic\<close>: a line feed goes to the standard output instead of the result. The result and what is printed.
\<close>

definition hex_digit :: "nat \<Rightarrow> char" where
  "hex_digit n = ''0123456789ABCDEF'' ! n"

definition is_print :: "nat \<Rightarrow> bool" where
  "is_print c \<longleftrightarrow> 32 \<le> c \<and> c \<le> 126"

fun pbs_diagnostic :: "byte list \<Rightarrow> string \<times> string" where
  "pbs_diagnostic [] = ([], [])"
| "pbs_diagnostic (c # cs) =
     (case pbs_diagnostic cs of (out, printed) \<Rightarrow>
        if c = 10 then (out, [char_of (92 :: nat), CHR ''n''] @ printed)
        else if is_print (unat c) then (char_of (unat c) # out, printed)
        else ([char_of (92 :: nat), CHR ''x'', hex_digit (unat c div 16), hex_digit (unat c mod 16)] @ out, printed))"

definition serialize_size :: "u32 \<Rightarrow> byte list" where
  "serialize_size n = rev (be_bytes n)"

subsection \<open>What a client sends\<close>

text \<open>Messages between agents: a call for proposals, a proposal, and the two answers to it.\<close>

datatype cfp_payload = CfpQuery query | CfpContent string | CfpNothing

datatype propose_payload = ProposeObjects "(datamodel \<times> (string \<times> pvalue) list) list" | ProposeContent string

datatype fipa_msg = FipaCfp cfp_payload | FipaPropose propose_payload | FipaAccept | FipaDecline

record fipa_message =
  fm_target :: u32
  fm_msg :: fipa_msg

text \<open>The two variants of \<^verbatim>\<open>schema.hpp\<close> that carry their contents.\<close>

datatype CFPType = CFPText string | CFPQuery query | CFPNone

datatype ProposeType = ProposeText string | ProposeInstances "instance_of list"

definition string_bytes :: "string \<Rightarrow> byte list" where
  "string_bytes s = map (\<lambda>c. of_nat (of_char c)) s"

definition in_handle :: "instance_of \<Rightarrow> datamodel \<times> (string \<times> pvalue) list" where
  "in_handle i = (in_model i, in_message i)"

definition envelope_of :: "u32 \<Rightarrow> core_request \<Rightarrow> core_envelope" where
  "envelope_of msg_id r = \<lparr>qe_msg_id = msg_id, qe_agent_uri = [], qe_request = r\<rparr>"

definition msg_Register :: "u32 \<Rightarrow> instance_of \<Rightarrow> core_envelope" where
  "msg_Register msg_id i = envelope_of msg_id (case in_handle i of (m, vs) \<Rightarrow> QRegisterService m vs)"

definition msg_Unregister :: "u32 \<Rightarrow> instance_of \<Rightarrow> core_envelope" where
  "msg_Unregister msg_id i = envelope_of msg_id (case in_handle i of (m, vs) \<Rightarrow> QUnregisterService m vs)"

definition msg_UnregisterDescription :: "u32 \<Rightarrow> core_envelope" where
  "msg_UnregisterDescription msg_id = envelope_of msg_id QUnregisterDescription"

definition msg_SearchServices :: "u32 \<Rightarrow> query \<Rightarrow> core_envelope" where
  "msg_SearchServices msg_id model = envelope_of msg_id (QSearchServices model)"

definition msg_SearchAgents :: "u32 \<Rightarrow> query \<Rightarrow> core_envelope" where
  "msg_SearchAgents search_id model = envelope_of search_id (QSearchAgents model)"

definition msg_Description :: "u32 \<Rightarrow> instance_of \<Rightarrow> core_envelope" where
  "msg_Description msg_id i = envelope_of msg_id (case in_handle i of (m, vs) \<Rightarrow> QRegisterDescription m vs)"

definition send_message_of :: "u32 \<Rightarrow> u32 \<Rightarrow> string \<Rightarrow> dialogue_payload \<Rightarrow> core_envelope" where
  "send_message_of msg_id dialogueId dest p =
     envelope_of msg_id (QSendMessage \<lparr>am_dialogue_id = sint dialogueId, am_destination = dest, am_target_uri = [],
       am_source_uri = [], am_payload = p\<rparr>)"

definition msg_Message :: "u32 \<Rightarrow> u32 \<Rightarrow> string \<Rightarrow> string \<Rightarrow> core_envelope" where
  "msg_Message msg_id dialogueId dest msg = send_message_of msg_id dialogueId dest (Content (string_bytes msg))"

definition msg_fipa :: "(fipa_message \<Rightarrow> byte list) \<Rightarrow> u32 \<Rightarrow> u32 \<Rightarrow> string \<Rightarrow> u32 \<Rightarrow> fipa_msg \<Rightarrow> core_envelope" where
  "msg_fipa ser msgId dialogueId dest target m =
     send_message_of msgId dialogueId dest (Fipa (ser \<lparr>fm_target = target, fm_msg = m\<rparr>))"

definition msg_CFP :: "(fipa_message \<Rightarrow> byte list) \<Rightarrow> u32 \<Rightarrow> string \<Rightarrow> CFPType \<Rightarrow> u32 \<Rightarrow> u32 \<Rightarrow> core_envelope" where
  "msg_CFP ser dialogueId dest query msgId target =
     msg_fipa ser msgId dialogueId dest target (FipaCfp (case query of
       CFPText content \<Rightarrow> CfpContent content
     | CFPQuery q \<Rightarrow> CfpQuery q
     | CFPNone \<Rightarrow> CfpNothing))"

definition msg_Propose :: "(fipa_message \<Rightarrow> byte list) \<Rightarrow> u32 \<Rightarrow> string \<Rightarrow> ProposeType \<Rightarrow> u32 \<Rightarrow> u32 \<Rightarrow> core_envelope" where
  "msg_Propose ser dialogueId dest proposals msgId target =
     msg_fipa ser msgId dialogueId dest target (FipaPropose (case proposals of
       ProposeText content \<Rightarrow> ProposeContent content
     | ProposeInstances is \<Rightarrow> ProposeObjects (map in_handle is)))"

definition msg_Accept :: "(fipa_message \<Rightarrow> byte list) \<Rightarrow> u32 \<Rightarrow> string \<Rightarrow> u32 \<Rightarrow> u32 \<Rightarrow> core_envelope" where
  "msg_Accept ser dialogueId dest msgId target = msg_fipa ser msgId dialogueId dest target FipaAccept"

definition msg_Decline :: "(fipa_message \<Rightarrow> byte list) \<Rightarrow> u32 \<Rightarrow> string \<Rightarrow> u32 \<Rightarrow> u32 \<Rightarrow> core_envelope" where
  "msg_Decline ser dialogueId dest msgId target = msg_fipa ser msgId dialogueId dest target FipaDecline"


subsection \<open>A blocking exchange\<close>

text \<open>What one side has written is what arrives at the other.\<close>

definition delivers :: "sync_socket \<Rightarrow> sync_socket \<Rightarrow> sync_socket" where
  "delivers sender receiver = receiver\<lparr>so_incoming := so_incoming receiver @ so_written sender\<rparr>"

lemma length_sync_frame: "length (rev (be_bytes n) @ b) = 4 + length b"
  by simp

lemma send_sync_frame:
  assumes "length b + 4 < 2 ^ 32" "so_room s = None"
  shows "sc_send_sync b s = (Inr Ok, s\<lparr>so_written := so_written s @ ac_frame b\<rparr>)"
proof -
  have n: "unat (of_nat (length b) :: u32) = length b" using assms(1) by (simp add: unat_of_nat)
  have "unat ((of_nat (length b) :: u32) + 4) = length b + 4"
    using assms(1) n unat_plus_small [of "of_nat (length b) :: u32" 4] by simp
  then show ?thesis
    using assms(2) n
    by (simp add: sc_send_sync_def asio_write_def ac_frame_def pbind_apply pthen_apply Let_def)
qed

lemma receive_sync_frame:
  assumes "length b < 2 ^ 32" "so_incoming s = ac_frame b @ rest"
  shows "sc_receive_sync s = (Inr (Ok, Some b), s\<lparr>so_incoming := rest\<rparr>)"
proof -
  note f = frame_parts [OF assms(1)]
  have t: "take 4 (ac_frame b @ rest) = take 4 (ac_frame b)" "drop 4 (ac_frame b @ rest) = b @ rest"
    using f(1,2) by (simp_all add: ac_frame_def)
  have l: "4 \<le> length (ac_frame b @ rest)" using f(1) by (simp add: ac_frame_def)
  then show ?thesis
    unfolding sc_receive_sync_def
    using assms(2) f t
    by (simp add: asio_read_def pbind_apply pthen_apply Let_def end_of_file_def)
qed

fun send_all :: "byte list list \<Rightarrow> (sync_socket, error_code list) prog" where
  "send_all [] = pret []"
| "send_all (b # bs) = pbind (sc_send_sync b) (\<lambda>ec. pbind (send_all bs) (\<lambda>ecs. pret (ec # ecs)))"

fun receive_n :: "nat \<Rightarrow> (sync_socket, (error_code \<times> byte list option) list) prog" where
  "receive_n 0 = pret []"
| "receive_n (Suc n) = pbind sc_receive_sync (\<lambda>r. pbind (receive_n n) (\<lambda>rs. pret (r # rs)))"

lemma send_all_frames:
  assumes "\<forall>b \<in> set bs. length b + 4 < 2 ^ 32" "so_room s = None"
  shows "send_all bs s = (Inr (replicate (length bs) Ok), s\<lparr>so_written := so_written s @ concat (map ac_frame bs)\<rparr>)"
  using assms
proof (induction bs arbitrary: s)
  case (Cons b bs)
  then show ?case using send_sync_frame [of b s] by (simp add: pbind_apply)
qed simp

lemma receive_n_frames:
  assumes "\<forall>b \<in> set bs. length b < 2 ^ 32" "so_incoming s = concat (map ac_frame bs) @ rest"
  shows "receive_n (length bs) s = (Inr (map (\<lambda>b. (Ok, Some b)) bs), s\<lparr>so_incoming := rest\<rparr>)"
  using assms
proof (induction bs arbitrary: s)
  case (Cons b bs)
  have "sc_receive_sync s = (Inr (Ok, Some b), s\<lparr>so_incoming := concat (map ac_frame bs) @ rest\<rparr>)"
    using Cons.prems by (intro receive_sync_frame) simp_all
  then show ?case using Cons.IH [of "s\<lparr>so_incoming := concat (map ac_frame bs) @ rest\<rparr>"] Cons.prems
    by (simp add: pbind_apply)
qed simp

text \<open>
  C40. What one connection sends with \<open>send_sync\<close> of one shared buffer the other receives with \<open>receive_sync\<close>: the buffers
  come out one by one, unchanged and in order, each with a success, as long as the connection holds and each length and its
  frame fit 32 bits. The other two blocking sends are not meant: that of a group is undefined when the vector of its
  lengths moves (\<open>group_is_undefined\<close>), and that of a constant buffer sends a length the receiver cannot use
  (\<open>negated_length\<close>).
\<close>

theorem blocking_exchange:
  assumes "\<forall>b \<in> set bs. length b + 4 < 2 ^ 32" "so_room s = None" "so_written s = []" "so_incoming r = []"
    and "send_all bs s = (Inr ecs, s')"
  shows "\<exists>r'. receive_n (length bs) (delivers s' r) = (Inr (map (\<lambda>b. (Ok, Some b)) bs), r') \<and> so_incoming r' = [] \<and>
    ecs = replicate (length bs) Ok"
proof -
  have s': "so_written s' = concat (map ac_frame bs)" "ecs = replicate (length bs) Ok"
    using send_all_frames [OF assms(1,2)] assms(3,5) by auto
  then have "receive_n (length bs) (delivers s' r) = (Inr (map (\<lambda>b. (Ok, Some b)) bs), (delivers s' r)\<lparr>so_incoming := []\<rparr>)"
    using assms(1,4) by (intro receive_n_frames) (auto simp: delivers_def)
  then show ?thesis using s'(2) by simp
qed

theorem blocking_exchange_witness:
  "\<exists>r'. receive_n 2 (delivers (snd (send_all [[1, 2], []] socket_new)) socket_new) =
     (Inr [(Ok, Some [1, 2]), (Ok, Some [])], r') \<and> so_incoming r' = []"
proof -
  have s: "\<forall>b \<in> set [[1, 2], []]. length (b :: byte list) + 4 < 2 ^ 32" "so_room socket_new = None"
    "so_written socket_new = []" "so_incoming socket_new = []"
    by (simp_all add: socket_new_def)
  obtain ecs s' where "send_all [[1, 2], []] socket_new = (Inr ecs, s')" using send_all_frames [OF s(1,2)] by blast
  from blocking_exchange [OF s this] this show ?thesis
    by (auto simp: numeral_2_eq_2 simp del: send_all.simps receive_n.simps)
qed

text \<open>
  A group of two or more buffers reads the address of a length that has moved, wherever the first element of a vector
  gets room for itself only.
\<close>

lemma gather_moved:
  assumes "LenAt m i \<in> set parts" "m < lv_moves v" "gather_group grow bs v parts acc = (v', parts', acc')"
  shows "read_parts v' parts' = Inl Undefined"
proof -
  have "\<exists>m i. LenAt m i \<in> set parts' \<and> m < lv_moves v'"
    using assms
  proof (induction grow bs v parts acc arbitrary: m i rule: gather_group.induct)
    case (2 grow b bs v parts acc)
    have "lv_moves v \<le> lv_moves (lv_emplace_back grow (of_nat (length b)) v)" by (simp add: lv_emplace_back_def)
    then show ?case using "2.IH" [OF refl refl, of m i] "2.prems" by (simp add: Let_def)
  qed auto
  moreover have "LenAt m i \<in> set ps \<Longrightarrow> m < lv_moves v' \<Longrightarrow> read_parts v' ps = Inl Undefined" for m i ps
    by (induction v' ps rule: read_parts.induct) auto
  ultimately show ?thesis by blast
qed

lemma group_is_undefined:
  assumes "grow 1 = 1"
  shows "sc_send_group grow (b1 # b2 # bs) s = (Inl Undefined, s)"
proof -
  define v2 where "v2 = \<lparr>lv_items = [of_nat (length b1), of_nat (length b2)], lv_capacity = grow 2, lv_moves = 2\<rparr>"
  obtain v parts acc where g: "gather_group grow (b1 # b2 # bs) \<lparr>lv_items = [], lv_capacity = 0, lv_moves = 0\<rparr> [] 0 = (v, parts, acc)"
    by (metis prod_cases3)
  then have "\<exists>ps a. LenAt 1 0 \<in> set ps \<and> gather_group grow bs v2 ps a = (v, parts, acc)"
    using assms by (simp add: lv_emplace_back_def Let_def v2_def numeral_2_eq_2) (meson list.set_intros(1))
  then have "read_parts v parts = Inl Undefined" using gather_moved [of 1 0 _ v2] by (auto simp: v2_def)
  then show ?thesis using g by (simp add: sc_send_group_def pbind_apply)
qed

text \<open>A single buffer is sent as by the first form.\<close>

lemma group_of_one: "sc_send_group grow [b] = sc_send_sync b"
  by (simp add: sc_send_group_def sc_send_sync_def lv_emplace_back_def Let_def fun_eq_iff pbind_apply)

text \<open>The negated length of the third form is no length: the other side waits for nearly four gigabytes.\<close>

lemma negated_length:
  assumes "0 < length b" "length b < 2 ^ 31" "so_incoming r = rev (be_bytes (- of_nat (length b))) @ b"
  shows "\<exists>r' d. sc_receive_sync r = (Inr (end_of_file, Some d), r') \<and> length d = 2 ^ 32 - length b"
proof -
  have len: "(2 ^ 32 - length b) + length b = 2 ^ 32" using assms(2) by simp
  have "(of_nat (2 ^ 32 - length b) :: u32) + of_nat (length b) = of_nat (2 ^ 32)"
    unfolding of_nat_add [symmetric] len ..
  also have "\<dots> = 0" by simp
  finally have neg: "- of_nat (length b) = (of_nat (2 ^ 32 - length b) :: u32)" 
    by (simp add: minus_unique add.commute)
  have u: "unat (- of_nat (length b) :: u32) = 2 ^ 32 - length b"
    unfolding neg using assms(1) by (simp add: unat_of_nat)
  have l: "le_at (take 4 (so_incoming r)) = - of_nat (length b)"
    using be_at_bytes(2) [of "- of_nat (length b)" "[]"] assms(3) by simp
  have big: "length b < 2 ^ 32 - length b" using assms(2) by simp
  have e1: "asio_read 4 r = (Inr (Ok, take 4 (so_incoming r)), r\<lparr>so_incoming := b\<rparr>)"
    using assms(3) by (simp add: asio_read_def)
  have e2: "asio_read (2 ^ 32 - length b) (r\<lparr>so_incoming := b\<rparr>) = (Inr (end_of_file, b), r\<lparr>so_incoming := []\<rparr>)"
    using big by (simp add: asio_read_def)
  have "length (take 4 (so_incoming r)) = 4" using assms(3) by simp
  then show ?thesis
    using e1 e2 u l big
    by (simp add: sc_receive_sync_def pbind_apply pthen_apply Let_def so_warn_def end_of_file_def)
qed

text \<open>A basic connection that was never connected, or whose socket was moved away, ends the process when it is destroyed.\<close>

lemma unconnected_destructor: "bc_destroy r bc_new = (Inl Aborted, bc_new)"
  by (simp add: bc_destroy_def bc_disconnect_def on_socket_def asio_shutdown_def bc_new_def socket_new_def pcatch_apply
    pthen_apply pbind_apply)

lemma moved_from_destructor: "fst (bc_destroy r (snd (bc_move c))) = Inl Aborted"
  by (simp add: bc_destroy_def bc_disconnect_def on_socket_def asio_shutdown_def bc_move_def socket_new_def pcatch_apply
    pthen_apply pbind_apply)

lemma connection_destructor_safe:
  "\<exists>s'. sc_destroy (Inr ()) s = (Inr (), s')" "sc_destroy (Inl (RuntimeError w)) s \<noteq> (Inl Aborted, s')"
  by (auto simp: sc_destroy_def sc_disconnect_def asio_shutdown_def asio_close_def so_warn_def pcatch_apply pthen_apply
    pbind_apply is_std_exception_def)

text \<open>An accept that fails loses its continuation.\<close>

lemma failed_accept_forgotten:
  assumes "ec \<noteq> Ok" "aa_pending a = [k]"
  shows "\<exists>a'. aa_accepted ec s a = (Inr (), a') \<and> aa_pending a' = [] \<and> aa_calls a' = aa_calls a"
  using assms by (simp add: aa_accepted_def pbind_apply pthen_apply)


subsection \<open>Client and server together\<close>

text \<open>
  A message a client makes for a key arrives at the agent registered under it as it was made: same identifier, dialogue and
  contents, with the key of the sender; without such an agent the sender gets a dialogue error for the same dialogue.
\<close>

lemma client_message_delivered:
  assumes "idle w c" "length b < 2 ^ 32" "kc_envelope kc b = msg_Message i d dest txt" "CHR ''/'' \<notin> set dest"
  shows "\<exists>w'. core_events kc (arrives c b) w = (Inr (), w') \<and> idle w' c \<and>
    (case map_of (co_directory w) dest of
       Some r \<Rightarrow> sent_to kc r (RContent i [] (oef_toString (oef_uri_new\<lparr>ou_agentKey := dest\<rparr>)) d
         (cs_key (co_sessions w c)) (Content (string_bytes txt))) w w'
     | None \<Rightarrow> sent_to kc c (RDialogueError i d dest) w w')"
proof -
  have u: "oef_parseAgent dest oef_uri_new = Inr (oef_uri_new\<lparr>ou_agentKey := dest\<rparr>)"
    using assms(4) by (simp add: oef_parseAgent_def)
  have q: "qe_request (kc_envelope kc b) = QSendMessage \<lparr>am_dialogue_id = sint d, am_destination = dest, am_target_uri = [],
      am_source_uri = [], am_payload = Content (string_bytes txt)\<rparr>" "qe_msg_id (kc_envelope kc b) = i"
    by (simp_all add: assms(3) msg_Message_def send_message_of_def envelope_of_def)
  show ?thesis using message_run [OF assms(1,2) q(1), unfolded agent_message.simps, OF u] q(2)
    by (cases "map_of (co_directory w) dest") simp_all
qed

end
