(* ===== verification/Demos.thy ===== *)
theory Demos
  imports EndpointSending Tasks
begin

text \<open>
  The demonstration servers of \<^verbatim>\<open>test_text_server\<close>: connections that exchange lines of text
  (\<^verbatim>\<open>TextLineMessageReader.hpp\<close>, \<^verbatim>\<open>TextLineMessageSender.hpp\<close>) or framed messages
  (\<^verbatim>\<open>ProtoTextLineMessageReader.hpp\<close>, \<^verbatim>\<open>ProtoTextLineMessageSender.hpp\<close>), the collection of the connections
  (\<^verbatim>\<open>EndpointCollection.hpp\<close>), and the tasks that send what one says to all others. A connection is named by its address;
  the messages are opaque, and protobuf's parser and serialiser are parameters. Parsing from a stream takes all that is left in it, as protobuf
  documents.
\<close>

subsection \<open>Lines of text\<close>

record text_state =
  tx_lines :: "byte list list"

type_synonym line_handler = "(byte list \<Rightarrow> exn + unit) option"

definition trm_initial :: "nat \<times> nat" where "trm_initial = (0, 1)"

text \<open>The loops over the regions and their bytes: the line so far, what is consumed, and the bytes seen.\<close>

fun trm_bytes :: "line_handler \<Rightarrow> byte list \<Rightarrow> byte list \<times> nat \<times> nat \<Rightarrow> (text_state, byte list \<times> nat \<times> nat) prog" where
  "trm_bytes h [] st = pret st"
| "trm_bytes h (c # cs) (s, consumed, seen) =
     (if c = 13 then
        pthen (case h of None \<Rightarrow> pret ()
               | Some f \<Rightarrow> pthen (pmodify (\<lambda>x. x\<lparr>tx_lines := tx_lines x @ [s]\<rparr>)) (plift (f s)))
          (trm_bytes h cs ([], seen + 1, seen + 1))
      else if c = 10 then trm_bytes h cs (s, consumed, seen + 1)
      else trm_bytes h cs (s @ [c], consumed, seen + 1))"

fun trm_regions :: "line_handler \<Rightarrow> byte list list \<Rightarrow> byte list \<times> nat \<times> nat \<Rightarrow> (text_state, byte list \<times> nat \<times> nat) prog" where
  "trm_regions h [] st = pret st"
| "trm_regions h (b # bs) st = pbind (trm_bytes h b st) (trm_regions h bs)"

definition trm_checkForMessage :: "line_handler \<Rightarrow> (text_state) reader_if" where
  "trm_checkForMessage h data = pbind (trm_regions h data ([], 0, 0)) (\<lambda>(s, consumed, seen). pret (consumed, 1))"

text \<open>The sender. Each byte of a line makes it write the whole line once more.\<close>

fun tls_copies :: "byte list \<Rightarrow> nat \<Rightarrow> char_buf \<Rightarrow> char_buf" where
  "tls_copies s 0 chars = chars"
| "tls_copies s (Suc n) chars = tls_copies s n (snd (cb_sputc 10 (snd (cb_xsputn s chars))))"

text \<open>The room is a signed number compared with an unsigned one: past the end it counts as endless.\<close>

definition tls_fits :: "char_buf \<Rightarrow> byte list \<Rightarrow> bool" where
  "tls_fits chars s \<longleftrightarrow> \<not> ((word_of_int (cb_remainingSpace chars) :: u64) < of_nat (length s + 1))"

fun tls_loop :: "byte list list \<Rightarrow> char_buf \<Rightarrow> nat \<Rightarrow> nat \<times> byte list list \<times> char_buf" where
  "tls_loop [] chars consumed = (consumed, [], chars)"
| "tls_loop (s # txq) chars consumed =
     (if \<not> tls_fits chars s then (consumed, s # txq, chars)
      else tls_loop txq (tls_copies s (length s) chars) (consumed + length s + 1))"

definition tls_send :: "byte list \<Rightarrow> byte list list \<Rightarrow> byte list list" where
  "tls_send s txq = txq @ [s]"

definition tls_checkForSpace :: "(byte list, 'p) writer_if" where
  "tls_checkForSpace data txq p =
     (case tls_loop txq (cb_new data) 0 of (consumed, txq', chars) \<Rightarrow> (Inr (consumed, 0), txq', cb_buffers chars, p))"

subsection \<open>Framed messages\<close>

record 'm framed_state =
  fs_messages :: "'m list"

definition ptr_initial :: "nat \<times> nat" where "ptr_initial = (0, 1)"

definition ptr_deliver ::
  "(byte list \<Rightarrow> 'm option) \<Rightarrow> ('m \<Rightarrow> exn + unit) option \<Rightarrow> char_buf \<Rightarrow> u32 \<Rightarrow> ('m framed_state, char_buf) prog" where
  "ptr_deliver parse h chars body_size =
     (case ccb_copyOut chars of (d, chars') \<Rightarrow>
        case parse d of
          None \<Rightarrow> pthrow (InvalidArgument ''Failed proto deserialisation.'')
        | Some m \<Rightarrow>
            if length d \<noteq> unat body_size then
              pthrow (InvalidArgument (''Proto deserialisation used '' @ nat_str (length d) @ '' bytes instead of '' @
                nat_str (unat body_size) @ ''.''))
            else pthen (case h of None \<Rightarrow> pret ()
                        | Some f \<Rightarrow> pthen (pmodify (\<lambda>x. x\<lparr>fs_messages := fs_messages x @ [m]\<rparr>)) (plift (f m)))
                   (pret chars'))"

text \<open>One pass of the loop: \<open>Some\<close> the answer of the reader, or \<open>None\<close> and the buffer to go on with.\<close>

definition ptr_pass ::
  "(byte list \<Rightarrow> 'm option) \<Rightarrow> ('m \<Rightarrow> exn + unit) option \<Rightarrow> char_buf \<Rightarrow> nat \<Rightarrow>
   ('m framed_state, (nat \<times> nat) option \<times> char_buf \<times> nat) prog" where
  "ptr_pass parse h chars consumed =
     (if ccb_remainingData chars < 4 then pret (Some (consumed, nat (4 - ccb_remainingData chars)), chars, consumed)
      else (case ccb_read_u32 chars of (body_size, chars1) \<Rightarrow>
        if 10000 < unat body_size then
          pthrow (InvalidArgument (''Proto deserialisation refuses incoming '' @ nat_str (unat body_size) @ '' bytes message header.''))
        else if ccb_remainingData chars1 < int (unat body_size) then
          pret (Some (consumed, nat (int (unat body_size) - ccb_remainingData chars1)), chars1, consumed)
        else pbind (ptr_deliver parse h chars1 body_size) (\<lambda>chars2.
          pret (None, chars2, consumed + 4 + unat body_size))))"

text \<open>Every pass that goes on has taken all the data, so the second one ends: two are enough.\<close>

definition ptr_checkForMessage ::
  "(byte list \<Rightarrow> 'm option) \<Rightarrow> ('m \<Rightarrow> exn + unit) option \<Rightarrow> ('m framed_state) reader_if" where
  "ptr_checkForMessage parse h data =
     pbind (ptr_pass parse h (ccb_new data) 0) (\<lambda>(r, chars, consumed).
       case r of
         Some x \<Rightarrow> pret x
       | None \<Rightarrow> pbind (ptr_pass parse h chars consumed) (\<lambda>(r', chars', consumed').
           case r' of Some x \<Rightarrow> pret x | None \<Rightarrow> pthrow Undefined))"


subsection \<open>The connections\<close>

text \<open>
  A connection: its number, the queue of its sender, the notifications of those that found it full, how often it was told to send
  and whether it was closed. \<open>ch_kills\<close> counts the calls of \<^verbatim>\<open>onKill\<close>; \<open>ch_eps\<close> is the map of the collection, from numbers to addresses.
\<close>

record 'm chat_endpoint =
  ce_id :: nat
  ce_txq :: "'m list"
  ce_waiting :: "nat list"
  ce_sendings :: nat
  ce_closed :: bool

record 'm chat =
  ch_heap :: "'m chat_endpoint list"
  ch_eps :: "(nat \<times> nat) list"
  ch_counter :: nat
  ch_onKill :: bool
  ch_kills :: nat
  ch_notifs :: "nat notif_store"

definition ch_new :: "'m chat" where
  "ch_new = \<lparr>ch_heap = [], ch_eps = [], ch_counter = 0, ch_onKill = True, ch_kills = 0,
     ch_notifs = \<lparr>ns_heap = [], ns_log = []\<rparr>\<rparr>"

definition ce_set :: "nat \<Rightarrow> ('m chat_endpoint \<Rightarrow> 'm chat_endpoint) \<Rightarrow> ('m chat, unit) prog" where
  "ce_set a f = pmodify (\<lambda>w. w\<lparr>ch_heap := (ch_heap w)[a := f (ch_heap w ! a)]\<rparr>)"

definition ce_close :: "nat \<Rightarrow> ('m chat, unit) prog" where
  "ce_close a = ce_set a (\<lambda>e. e\<lparr>ce_closed := True\<rparr>)"

definition ce_run_sending :: "nat \<Rightarrow> ('m chat, unit) prog" where
  "ce_run_sending a = ce_set a (\<lambda>e. e\<lparr>ce_sendings := ce_sendings e + 1\<rparr>)"

subsection \<open>\<^verbatim>\<open>EndpointCollection\<close>\<close>

definition ec_getEndpointIdents :: "('m chat, nat list) prog" where
  "ec_getEndpointIdents = pget (\<lambda>w. map fst (ch_eps w))"

definition ec_getEndpoint :: "nat \<Rightarrow> ('m chat, nat option) prog" where
  "ec_getEndpoint i = pget (\<lambda>w. map_of (ch_eps w) i)"

fun ec_visit_all :: "(nat option \<Rightarrow> ('m chat, unit) prog) \<Rightarrow> nat list \<Rightarrow> ('m chat, unit) prog" where
  "ec_visit_all visitor [] = pret ()"
| "ec_visit_all visitor (i # is) = pbind (ec_getEndpoint i) (\<lambda>p. pthen (visitor p) (ec_visit_all visitor is))"

definition ec_visit :: "(nat option \<Rightarrow> ('m chat, unit) prog) \<Rightarrow> ('m chat, unit) prog" where
  "ec_visit visitor = pbind ec_getEndpointIdents (ec_visit_all visitor)"

definition ec_kill :: "('m chat, unit) prog" where
  "ec_kill = pmodify (\<lambda>w. if ch_onKill w then w\<lparr>ch_kills := ch_kills w + 1\<rparr> else w)"

definition ec_close :: "nat \<Rightarrow> ('m chat, unit) prog" where
  "ec_close i =
     pbind (ec_getEndpoint i) (\<lambda>p. case p of
       None \<Rightarrow> pret ()
     | Some a \<Rightarrow> pthen (ce_close a) (pmodify (\<lambda>w. w\<lparr>ch_eps := omap_erase i (ch_eps w)\<rparr>)))"

fun ec_close_all :: "(nat \<times> nat) list \<Rightarrow> ('m chat, unit) prog" where
  "ec_close_all [] = pret ()"
| "ec_close_all (e # es) = pthen (ce_close (snd e)) (ec_close_all es)"

text \<open>The destructor swaps the map away and closes all; the loop that waits for the map to be empty then ends at once.\<close>

definition ec_destroy :: "('m chat, unit) prog" where
  "ec_destroy =
     pbind (pget ch_eps) (\<lambda>local_eps. pthen (pmodify (\<lambda>w. w\<lparr>ch_eps := []\<rparr>)) (ec_close_all local_eps))"

definition ec_createNewConnection :: "('m chat, nat) prog" where
  "ec_createNewConnection = (\<lambda>w.
     let ident = ch_counter w + 1; a = length (ch_heap w) in
     (Inr a, w\<lparr>ch_counter := ident,
        ch_heap := ch_heap w @ [\<lparr>ce_id = ident, ce_txq = [], ce_waiting = [], ce_sendings = 0, ce_closed = False\<rparr>]\<rparr>))"

definition ec_Error :: "nat \<Rightarrow> ep_error \<Rightarrow> ('m chat, unit) prog" where
  "ec_Error i ec = ec_close i"

definition ec_ProtoError :: "nat \<Rightarrow> string \<Rightarrow> ('m chat, unit) prog" where
  "ec_ProtoError i msg = ec_close i"

definition ec_Eof :: "nat \<Rightarrow> ('m chat, unit) prog" where
  "ec_Eof i = ec_close i"

definition ec_size :: "('m chat, nat) prog" where
  "ec_size = pget (\<lambda>w. length (ch_eps w))"

definition ec_Start :: "nat \<Rightarrow> nat \<Rightarrow> ('m chat, unit) prog" where
  "ec_Start i a = pmodify (\<lambda>w. w\<lparr>ch_eps := omap_insert i a (ch_eps w)\<rparr>)"

subsection \<open>The sender of framed messages\<close>

definition pts_LIMIT :: nat where "pts_LIMIT = 3"

definition pts_send :: "nat \<Rightarrow> 'm \<Rightarrow> ('m chat, nat notif_builder) prog" where
  "pts_send a m =
     pbind (pget (\<lambda>w. length (ce_txq (ch_heap w ! a)))) (\<lambda>n.
       if n < pts_LIMIT then pthen (ce_set a (\<lambda>e. e\<lparr>ce_txq := ce_txq e @ [m]\<rparr>)) (pret nb_empty)
       else (\<lambda>w. case n_create (ch_notifs w) of (nt, ns) \<Rightarrow>
              pthen (ce_set a (\<lambda>e. e\<lparr>ce_waiting := ce_waiting e @ [nt]\<rparr>)) (pret (nb_new nt)) (w\<lparr>ch_notifs := ns\<rparr>)))"

text \<open>\<^verbatim>\<open>waiting.empty()\<close> only asks whether the list is empty: whoever waited once is notified every time.\<close>

fun pts_loop :: "('m \<Rightarrow> nat) \<Rightarrow> ('m \<Rightarrow> byte list) \<Rightarrow> nat list \<Rightarrow> 'm list \<Rightarrow> char_buf \<Rightarrow> nat \<Rightarrow> nat notif_store \<Rightarrow>
    nat \<times> 'm list \<times> char_buf \<times> nat notif_store" where
  "pts_loop byteSize serialize waiting txq chars consumed ns =
     (let ns' = (if length txq < pts_LIMIT then fold n_notify waiting ns else ns) in
      case txq of
        [] \<Rightarrow> (consumed, [], chars, ns')
      | m # rest \<Rightarrow>
          let body_size = (of_nat (byteSize m) :: u32); mesg_size = body_size + 4 in
          if cb_remainingSpace chars < int (unat mesg_size) then (consumed, txq, chars, ns')
          else pts_loop byteSize serialize waiting rest
                 (snd (cb_xsputn (serialize m) (cb_write_u32 body_size chars))) (consumed + unat mesg_size) ns')"

declare pts_loop.simps [simp del]

definition pts_checkForSpace ::
  "('m \<Rightarrow> nat) \<Rightarrow> ('m \<Rightarrow> byte list) \<Rightarrow> nat \<Rightarrow> byte list list \<Rightarrow> ('m chat, (nat \<times> nat) \<times> byte list list) prog" where
  "pts_checkForSpace byteSize serialize a data = (\<lambda>w.
     let e = ch_heap w ! a in
     case pts_loop byteSize serialize (ce_waiting e) (ce_txq e) (cb_new data) 0 (ch_notifs w) of
       (consumed, txq', chars, ns) \<Rightarrow>
         (Inr ((consumed, 0), cb_buffers chars), w\<lparr>ch_heap := (ch_heap w)[a := e\<lparr>ce_txq := txq'\<rparr>], ch_notifs := ns\<rparr>))"

subsection \<open>The tasks\<close>

text \<open>What is done to each connection of a broadcast; a connection that has left since the numbers were taken is a null pointer.\<close>

definition tb_visitor :: "'m \<Rightarrow> nat \<Rightarrow> nat option \<Rightarrow> ('m chat, unit) prog" where
  "tb_visitor s from p =
     (case p of
        None \<Rightarrow> pthrow Undefined
      | Some a \<Rightarrow>
          pbind (pget (\<lambda>w. ce_id (ch_heap w ! a))) (\<lambda>i.
            if i \<noteq> from then pthen (ce_set a (\<lambda>e. e\<lparr>ce_txq := ce_txq e @ [s]\<rparr>)) (ce_run_sending a) else pret ()))"

definition pb_visitor :: "'m \<Rightarrow> nat \<Rightarrow> nat option \<Rightarrow> ('m chat, unit) prog" where
  "pb_visitor s from p =
     (case p of
        None \<Rightarrow> pthrow Undefined
      | Some a \<Rightarrow>
          pbind (pget (\<lambda>w. ce_id (ch_heap w ! a))) (\<lambda>i.
            if i \<noteq> from then
              pbind (pts_send a s) (\<lambda>b. pthen (pmodify (\<lambda>w. w\<lparr>ch_notifs := nb_destroy b (ch_notifs w)\<rparr>)) (ce_run_sending a))
            else pret ()))"

definition tb_broadcast :: "'m \<Rightarrow> nat \<Rightarrow> ('m chat, unit) prog" where
  "tb_broadcast s from = ec_visit (tb_visitor s from)"

definition tb_run :: "'m \<Rightarrow> nat \<Rightarrow> ('m chat, exit_state) prog" where
  "tb_run s from = pthen (tb_broadcast s from) (pret COMPLETE)"

definition pb_broadcast :: "'m \<Rightarrow> nat \<Rightarrow> ('m chat, unit) prog" where
  "pb_broadcast s from = ec_visit (pb_visitor s from)"

definition pb_run :: "'m \<Rightarrow> nat \<Rightarrow> ('m chat, exit_state) prog" where
  "pb_run s from = pthen (pb_broadcast s from) (pret COMPLETE)"

text \<open>A suspended task has a flag that its \<^verbatim>\<open>makeRunnable\<close> sets; the delayed one wakes it when it has run. The calls of the pool are returned.\<close>

record 'm suspended_task =
  st_message :: 'm
  st_from :: nat
  st_state :: bool

definition su_new :: "'m \<Rightarrow> nat \<Rightarrow> 'm suspended_task" where
  "su_new s from = \<lparr>st_message = s, st_from = from, st_state = False\<rparr>"

definition st_isRunnable :: "'m suspended_task \<Rightarrow> bool" where
  "st_isRunnable t = st_state t"

definition st_makeRunnable :: "nat \<Rightarrow> 'm suspended_task \<Rightarrow> task_call list \<times> 'm suspended_task" where
  "st_makeRunnable self t = ([CallMakeRunnable self], t\<lparr>st_state := True\<rparr>)"

definition st_run :: "'m suspended_task \<Rightarrow> ('m chat, exit_state) prog" where
  "st_run t = pthen (pb_broadcast (st_message t) (st_from t)) (pret COMPLETE)"

definition dt_run :: "'m \<Rightarrow> nat \<Rightarrow> (nat \<times> 'm suspended_task) option \<Rightarrow>
    ('m chat, task_call list \<times> (nat \<times> 'm suspended_task) option \<times> exit_state) prog" where
  "dt_run s from wakeup =
     pthen (pb_broadcast s from)
       (case wakeup of
          None \<Rightarrow> pret ([], None, COMPLETE)
        | Some (self, t) \<Rightarrow> (case st_makeRunnable self t of (calls, t') \<Rightarrow> pret (calls, Some (self, t'), COMPLETE)))"

text \<open>What the connection does with a message: the tasks it submits, with their delay.\<close>

datatype 'm chat_task = BroadcastNow 'm | BroadcastWhenWoken 'm | BroadcastDelayed 'm nat | BroadcastStress 'm

definition chat_onComplete :: "string \<Rightarrow> ('m chat, string chat_task list) prog" where
  "chat_onComplete s = (if s = ''shutdown'' then pthen ec_kill (pret []) else pret [BroadcastNow s])"

definition proto_onComplete :: "string \<Rightarrow> ('m chat, string chat_task list) prog" where
  "proto_onComplete s =
     (if s = ''shutdown'' then pthen ec_kill (pret [])
      else pret [BroadcastNow s, BroadcastWhenWoken (s @ ''(suspended)''), BroadcastDelayed (s @ ''(delayed 2s)'') 2000])"

definition stress_onComplete :: "string \<Rightarrow> ('m chat, string chat_task list) prog" where
  "stress_onComplete s = (if s = ''shutdown'' then pthen ec_kill (pret []) else pret [BroadcastStress s])"

text \<open>The stress test: a hundred messages for each other connection, from the front of a list, until fewer than ten are left.\<close>

record stress_task =
  sb_text :: string
  sb_transmissions :: "(nat \<times> nat) list"

definition sb_new :: "string \<Rightarrow> nat \<Rightarrow> ('m chat, stress_task) prog" where
  "sb_new s from =
     pbind ec_getEndpointIdents (\<lambda>ids.
       pret \<lparr>sb_text = s, sb_transmissions = concat (map (\<lambda>i. map (\<lambda>n. (i, n)) [0..<100]) (filter (\<lambda>i. i \<noteq> from) ids))\<rparr>)"

fun sb_loop :: "nat \<Rightarrow> string \<Rightarrow> (nat \<times> nat) list \<Rightarrow> (string chat, exit_state \<times> (nat \<times> nat) list) prog" where
  "sb_loop self s [] = pret (COMPLETE, [])"
| "sb_loop self s ((i, n) # ts) =
     (if Suc (length ts) < 10 then pret (COMPLETE, (i, n) # ts)
      else pbind (ec_getEndpoint i) (\<lambda>p. case p of
        None \<Rightarrow> sb_loop self s ts
      | Some a \<Rightarrow>
          pbind (pts_send a (s @ ''/'' @ nat_str n)) (\<lambda>b. let b' = nb_then self b in
          pbind (pget (\<lambda>w. nb_waiting b' (ch_notifs w))) (\<lambda>waits.
          pthen (pmodify (\<lambda>w. w\<lparr>ch_notifs := nb_destroy b' (ch_notifs w)\<rparr>))
          (pthen (ce_run_sending a)
            (if waits then pret (DEFER, (i, n) # ts) else sb_loop self s ts))))))"

definition sb_run :: "nat \<Rightarrow> stress_task \<Rightarrow> (string chat, exit_state \<times> stress_task) prog" where
  "sb_run self t =
     pbind (sb_loop self (sb_text t) (sb_transmissions t)) (\<lambda>(r, ts). pret (r, t\<lparr>sb_transmissions := ts\<rparr>))"


subsection \<open>A connection delivers its lines\<close>

text \<open>
  The lines in the data, each ended by a carriage return and without its line feeds, and what follows the last;
  \<open>None\<close> when a line is \<open>L\<close> bytes or longer.
\<close>

function text_lines :: "nat \<Rightarrow> byte list \<Rightarrow> (byte list list \<times> byte list) option" where
  "text_lines L d =
     (let l = takeWhile (\<lambda>c. c \<noteq> 13) d in
      if L \<le> length l then None
      else if length l = length d then Some ([], d)
      else (case text_lines L (drop (Suc (length l)) d) of
              None \<Rightarrow> None
            | Some (ms, r) \<Rightarrow> Some (filter (\<lambda>c. c \<noteq> 10) l # ms, r)))"
  by pat_completeness auto

termination text_lines
proof (relation "measure (\<lambda>(L, d). length d)", goal_cases)
  case (2 L d l)
  then have "length l < length d" by (metis le_neq_implies_less length_takeWhile_le)
  then show ?case by simp
qed simp

declare text_lines.simps [simp del]

lemma takeWhile_full: "length (takeWhile P d) = length d \<longleftrightarrow> (\<forall>c \<in> set d. P c)"
  by (induction d) (auto simp: )

lemma split_line:
  assumes "length (takeWhile (\<lambda>c. c \<noteq> 13) d) \<noteq> length (d :: byte list)"
  shows "\<exists>l d'. d = l @ 13 # d' \<and> 13 \<notin> set l \<and> takeWhile (\<lambda>c. c \<noteq> 13) d = l"
proof -
  let ?l = "takeWhile (\<lambda>c. c \<noteq> 13) d"
  have ne: "dropWhile (\<lambda>c. c \<noteq> 13) d \<noteq> []" using assms by (metis append_Nil2 takeWhile_dropWhile_id)
  then have "hd (dropWhile (\<lambda>c. c \<noteq> 13) d) = 13" using hd_dropWhile [of "\<lambda>c. c \<noteq> 13" d] by auto
  then have "d = ?l @ 13 # tl (dropWhile (\<lambda>c. c \<noteq> 13) d)" using ne by (metis list.collapse takeWhile_dropWhile_id)
  moreover have "13 \<notin> set ?l" by (auto dest: set_takeWhileD)
  ultimately show ?thesis by blast
qed

lemma text_lines_line:
  assumes "13 \<notin> set l"
  shows "text_lines L (l @ 13 # d) = (if L \<le> length l then None
      else case text_lines L d of None \<Rightarrow> None | Some (ms, r) \<Rightarrow> Some (filter (\<lambda>c. c \<noteq> 10) l # ms, r))"
proof -
  have "takeWhile (\<lambda>c. c \<noteq> 13) (l @ 13 # d) = l" using assms by (induction l) auto
  then show ?thesis by (subst text_lines.simps) (simp add: Let_def)
qed

lemma text_lines_rest: "13 \<notin> set d \<Longrightarrow> text_lines L d = (if L \<le> length d then None else Some ([], d))"
proof -
  assume "13 \<notin> set d"
  then have t: "takeWhile (\<lambda>c. c \<noteq> 13) d = d" by (induction d) auto
  show ?thesis by (subst text_lines.simps) (simp add: Let_def t)
qed

lemma lines_induct [case_names rest line]:
  assumes "\<And>d. 13 \<notin> set d \<Longrightarrow> P d" "\<And>l d. 13 \<notin> set l \<Longrightarrow> P d \<Longrightarrow> P (l @ 13 # d)"
  shows "P (d :: byte list)"
proof (induction "length d" arbitrary: d rule: less_induct)
  case less
  show ?case
  proof (cases "13 \<in> set d")
    case True
    then have "length (takeWhile (\<lambda>c. c \<noteq> 13) d) \<noteq> length d" by (auto simp: takeWhile_full)
    then obtain l d' where "d = l @ 13 # d'" "13 \<notin> set l" using split_line by blast
    then show ?thesis using less assms(2) by simp
  qed (rule assms(1))
qed

lemma text_lines_suffix: "text_lines L d = Some (ms, r) \<Longrightarrow> \<exists>p. d = p @ r"
proof (induction d arbitrary: ms rule: lines_induct)
  case (rest d)
  then show ?case by (simp add: text_lines_rest split: if_splits)
next
  case (line l d)
  then obtain ms' where "text_lines L d = Some (ms', r)" by (auto simp: text_lines_line split: if_splits option.splits)
  then obtain p where "d = p @ r" using line by blast
  then show ?case by (intro exI [of _ "l @ 13 # p"]) simp
qed

lemma text_lines_end: "text_lines L d = Some (ms, r) \<Longrightarrow> 13 \<notin> set r \<and> length r < L"
  by (induction d arbitrary: ms rule: lines_induct)
    (auto simp: text_lines_rest text_lines_line split: if_splits option.splits)

lemma text_lines_stuck: "text_lines L d = Some (ms, r) \<Longrightarrow> text_lines L r = Some ([], r)"
  using text_lines_end [of L d ms r] by (simp add: text_lines_rest)

lemma text_lines_whole: "text_lines L d = Some ([], r) \<Longrightarrow> r = d"
  by (induction d rule: lines_induct) (auto simp: text_lines_rest text_lines_line split: if_splits option.splits)

lemma text_lines_append:
  "text_lines L d = Some (ms, r) \<Longrightarrow>
    text_lines L (d @ d') = (case text_lines L (r @ d') of None \<Rightarrow> None | Some (ms', r') \<Rightarrow> Some (ms @ ms', r'))"
proof (induction d arbitrary: ms rule: lines_induct)
  case (rest d)
  then show ?case by (auto simp: text_lines_rest split: if_splits option.splits)
next
  case (line l d)
  then obtain ms' where m: "text_lines L d = Some (ms', r)" "ms = filter (\<lambda>c. c \<noteq> 10) l # ms'" "\<not> L \<le> length l"
    by (auto simp: text_lines_line split: if_splits option.splits)
  then show ?case using line(1,2) by (auto simp: text_lines_line split: option.splits)
qed

lemma text_lines_None: "text_lines L d = None \<Longrightarrow> text_lines L (d @ d') = None"
proof (induction d rule: lines_induct)
  case (rest d)
  then have "L \<le> length (takeWhile (\<lambda>c. c \<noteq> 13) (d @ d'))"
    by (auto simp: text_lines_rest takeWhile_append split: if_splits)
  then show ?case by (subst text_lines.simps) (simp add: Let_def)
next
  case (line l d)
  then show ?case by (auto simp: text_lines_line split: if_splits option.splits)
qed

definition accept_line :: "byte list \<Rightarrow> exn + unit" where "accept_line s = Inr ()"

lemma trm_bytes_append: "trm_bytes h (xs @ ys) st = pbind (trm_bytes h xs st) (trm_bytes h ys)"
proof (induction xs arbitrary: st)
  case Nil
  show ?case by (rule ext) (simp add: pbind_apply)
next
  case (Cons c cs)
  obtain s k n where st: "st = (s, k, n)" by (cases st)
  show ?case using Cons by (auto simp: st fun_eq_iff pthen_apply pbind_apply split: prod.splits sum.splits)
qed

lemma trm_regions_concat: "trm_regions h bs st = trm_bytes h (concat bs) st"
proof (induction bs arbitrary: st)
  case (Cons b bs)
  then have "trm_regions h bs = trm_bytes h (concat bs)" by (rule ext)
  then show ?case by (simp add: trm_bytes_append)
qed simp

lemma trm_line:
  "13 \<notin> set l \<Longrightarrow> trm_bytes h l (s, k, n) p = (Inr (s @ filter (\<lambda>c. c \<noteq> 10) l, k, n + length l), p)"
  by (induction l arbitrary: s n) auto

lemma trm_return:
  "trm_bytes (Some accept_line) (13 # d) (s, k, n) p =
   trm_bytes (Some accept_line) d ([], n + 1, n + 1) (p\<lparr>tx_lines := tx_lines p @ [s]\<rparr>)"
  by (simp add: pthen_apply) (simp add: accept_line_def)

lemma trm_text:
  assumes "text_lines L d = Some (ms, r)"
  shows "\<exists>s. trm_bytes (Some accept_line) d ([], k, n) p =
    (Inr (s, if ms = [] then k else n + length d - length r, n + length d), p\<lparr>tx_lines := tx_lines p @ ms\<rparr>)"
  using assms
proof (induction d arbitrary: k n p ms rule: lines_induct)
  case (rest d)
  then show ?case using trm_line [of d "Some accept_line" "[]" k n p] by (auto simp: text_lines_rest split: if_splits)
next
  case (line l d)
  then obtain ms' where m: "text_lines L d = Some (ms', r)" "ms = filter (\<lambda>c. c \<noteq> 10) l # ms'"
    by (auto simp: text_lines_line split: if_splits option.splits)
  obtain q where q: "d = q @ r" using text_lines_suffix [OF m(1)] by blast
  have e: "ms' = [] \<Longrightarrow> q = []"
    using m(1) q text_lines_whole [of L d r] by simp
  let ?p = "p\<lparr>tx_lines := tx_lines p @ [filter (\<lambda>c. c \<noteq> 10) l]\<rparr>"
  obtain s where "trm_bytes (Some accept_line) d ([], n + length l + 1, n + length l + 1) ?p =
      (Inr (s, if ms' = [] then n + length l + 1 else n + length l + 1 + length d - length r, n + length l + 1 + length d),
       ?p\<lparr>tx_lines := tx_lines ?p @ ms'\<rparr>)"
    using line(2) [OF m(1), of "n + length l + 1" "n + length l + 1" ?p] by blast
  moreover have "trm_bytes (Some accept_line) (l @ 13 # d) ([], k, n) p =
      trm_bytes (Some accept_line) d ([], n + length l + 1, n + length l + 1) ?p"
    using trm_line [OF line(1), of "Some accept_line" "[]" k n p] 
    by (simp add: trm_bytes_append pbind_apply trm_return del: trm_bytes.simps)
  moreover have "length d = length q + length r" using q by simp
  ultimately show ?case using m(2) e by (intro exI [of _ s]) auto
qed


lemma text_reader:
  "stream_reader (trm_checkForMessage (Some accept_line)) (text_lines L) (\<lambda>r. 1) L tx_lines (\<lambda>p. True)"
proof (unfold_locales, goal_cases)
  case (1 p bs ms r)
  obtain q where q: "concat bs = q @ r" using text_lines_suffix [OF 1(2)] by blast
  have "ms = [] \<Longrightarrow> q = []" using 1(2) text_lines_whole q by fastforce
  moreover obtain s where "trm_bytes (Some accept_line) (concat bs) ([], 0, 0) p =
      (Inr (s, if ms = [] then 0 else 0 + length (concat bs) - length r, 0 + length (concat bs)), p\<lparr>tx_lines := tx_lines p @ ms\<rparr>)"
    using trm_text [OF 1(2), of 0 0 p] by blast
  ultimately have "trm_checkForMessage (Some accept_line) bs p =
      (Inr (length (concat bs) - length r, 1), p\<lparr>tx_lines := tx_lines p @ ms\<rparr>)"
    using q by (auto simp: trm_checkForMessage_def trm_regions_concat pbind_apply)
  then show ?case by simp
next
  case (2 d ms r)
  then obtain q where "d = q @ r" using text_lines_suffix by blast
  then show ?case by simp
next
  case (3 d ms r) then show ?case by (rule text_lines_stuck)
next
  case (4 d ms r d') then show ?case by (rule text_lines_append)
next
  case (5 d d') then show ?case by (rule text_lines_None)
next
  case (6 r) then show ?case using text_lines_end by fastforce
qed

interpretation text_stream: stream_reader "trm_checkForMessage (Some accept_line)" "text_lines L" "\<lambda>r. 1" L tx_lines "\<lambda>p. True"
  for L by (rule text_reader)

text \<open>What the lines of a text come to: ended by a carriage return, their line feeds dropped.\<close>

lemma text_lines_all:
  assumes "\<forall>l \<in> set ls. 13 \<notin> set l \<and> length l < L" "0 < L"
  shows "text_lines L (concat (map (\<lambda>l. l @ [13]) ls)) = Some (map (filter (\<lambda>c. c \<noteq> 10)) ls, [])"
  using assms
proof (induction ls)
  case Nil
  then show ?case using text_lines_rest [of "[]" L] by simp
next
  case (Cons l ls)
  then show ?case using text_lines_line [of l L "concat (map (\<lambda>l. l @ [13]) ls)"] by simp
qed

text \<open>
  A connection of the text server delivers its lines: on a running endpoint with a read under way and an empty ring,
  lines each ended by a carriage return, arriving in any chunks that leave room for the longest line, are given to
  \<^verbatim>\<open>onComplete\<close> in order without their line feeds; the connection keeps running and its ring is empty again.
\<close>

lemma text_connection_reads_lines:
  assumes "ep_state s = RUNNING_ENDPOINT" "ep_asio_reading s" "rb_inv (ep_readBuffer s)" "rb_data (ep_readBuffer s) = []"
    and "\<forall>l \<in> set ls. 13 \<notin> set l \<and> length l < L" "0 < L" "concat chunks = concat (map (\<lambda>l. l @ [13]) ls)"
    and "\<forall>c \<in> set chunks. length c + L \<le> rb_capacity (ep_readBuffer s)"
    and "s' = ep_events (trm_checkForMessage (Some accept_line)) wr (map (ReadDone EcOk) chunks) s"
  shows "tx_lines (ep_proto s') = tx_lines (ep_proto s) @ map (filter (\<lambda>c. c \<noteq> 10)) ls \<and>
    ep_state s' = RUNNING_ENDPOINT \<and> rb_data (ep_readBuffer s') = []"
proof -
  have "text_lines L [] = Some ([], [])" using text_lines_rest [of "[]" L] assms(6) by simp
  then have w: "text_stream.waiting L s" using assms(1-4) by (simp add: text_stream.waiting_def)
  have "text_lines L (rb_data (ep_readBuffer s) @ concat chunks) = Some (map (filter (\<lambda>c. c \<noteq> 10)) ls, [])"
    using text_lines_all [OF assms(5,6)] assms(4,7) by simp
  from text_stream.read_stream [OF w assms(8) this, of wr] show ?thesis
    by (auto simp: assms(9) Let_def text_stream.waiting_def)
qed

definition text_demo :: "(byte list, text_state) endpoint" where
  "text_demo = (ep_new [0, 0] (replicate 20 0) \<lparr>tx_lines = []\<rparr>)\<lparr>ep_state := RUNNING_ENDPOINT, ep_asio_reading := True\<rparr>"

lemma text_demo_ring:
  "rb_inv (ep_readBuffer text_demo)" "rb_data (ep_readBuffer text_demo) = []" "rb_capacity (ep_readBuffer text_demo) = 20"
proof -
  have r: "ep_readBuffer text_demo = rb_new (replicate 20 0)" by (simp add: text_demo_def ep_new_def)
  show "rb_inv (ep_readBuffer text_demo)" unfolding r by (rule rb_new_inv) simp_all
  show "rb_data (ep_readBuffer text_demo) = []" unfolding r by (rule rb_new_data)
  show "rb_capacity (ep_readBuffer text_demo) = 20"
    unfolding r by (simp add: rb_capacity_def rb_new_def rb_clear_def)
qed

lemma text_connection_reads_lines_example:
  "tx_lines (ep_proto (ep_events (trm_checkForMessage (Some accept_line)) tls_checkForSpace
     (map (ReadDone EcOk) [[104], [105, 13, 10, 111], [107, 13]]) text_demo)) = [[104, 105], [111, 107]]"
proof -
  have "ep_state text_demo = RUNNING_ENDPOINT" "ep_asio_reading text_demo" "tx_lines (ep_proto text_demo) = []"
    by (simp_all add: text_demo_def ep_new_def)
  moreover have "concat [[104], [105, 13, 10, 111], [107, 13]] =
      concat (map (\<lambda>l. l @ [13 :: byte]) [[104, 105], [10, 111, 107]])" by simp
  moreover have "map (filter (\<lambda>c. c \<noteq> 10)) [[104, 105], [10, 111, 107 :: byte]] = [[104, 105], [111, 107]]" by simp
  ultimately show ?thesis
    using text_connection_reads_lines [of text_demo "[[104, 105], [10, 111, 107]]" 10 "[[104], [105, 13, 10, 111], [107, 13]]" _
        tls_checkForSpace, OF _ _ text_demo_ring(1,2) _ _ _ _ refl]
    by (simp add: text_demo_ring(3) del: list.map ep_events.simps concat.simps)
qed


subsection \<open>What the senders write\<close>

lemma xsputn_sputc:
  assumes "cb_current b + int (length s) + 1 \<le> cb_size b"
  shows "snd (cb_sputc 10 (snd (cb_xsputn s b))) = cb_oflow_all (s @ [10]) b"
proof -
  have "snd (cb_xsputn s b) = cb_oflow_all s b" using assms xsputn_oflow [of b s] by (simp add: cb_xsputn_def)
  then show ?thesis by (simp add: oflow_all_append cb_sputc_def cb_oflow_def)
qed

lemma tls_copies_room:
  assumes "cb_ok b" "cb_current b + int (n * (length s + 1)) \<le> cb_size b"
  shows "tls_copies s n b = cb_oflow_all (concat (replicate n (s @ [10]))) b"
  using assms
proof (induction n arbitrary: b)
  case (Suc n)
  let ?b = "cb_oflow_all (s @ [10]) b"
  have "int (length (s @ [10])) \<le> int (Suc n * (length s + 1))" by (simp only: of_nat_le_iff) simp
  then have fit: "cb_current b + int (length (s @ [10])) \<le> cb_size b" using Suc.prems(2) by (meson add_left_mono order_trans)
  have "cb_ok ?b" "cb_current ?b + int (n * (length s + 1)) \<le> cb_size ?b"
    using oflow_all_flat(2,3,4) [OF Suc.prems(1) fit] Suc.prems(2) by simp_all
  then have "tls_copies s n ?b = cb_oflow_all (concat (replicate n (s @ [10]))) ?b" by (rule Suc.IH)
  then show ?case using xsputn_sputc [of b s] fit by (simp add: oflow_all_append)
qed simp

text \<open>
  A line of \<open>n\<close> bytes is written \<open>n\<close> times, although the sender reports one copy: with the room for all of them the memory after
  the reported bytes is overwritten, and an empty line sends whatever byte was there.
\<close>

lemma line_written_length_times:
  assumes "cb_ok b" "cb_current b + int (length s * (length s + 1)) \<le> cb_size b"
    and "cb_current b + int (length s) + 1 \<le> cb_size b" "cb_size b - cb_current b < 2 ^ 63"
  shows "tls_loop [s] b 0 = (length s + 1, [], cb_oflow_all (concat (replicate (length s) (s @ [10]))) b)"
proof -
  define room where "room = nat (cb_size b - cb_current b)"
  have room: "int room = cb_size b - cb_current b" "room < 2 ^ 64" "length s + 1 \<le> room"
    using assms(3,4) by (simp_all add: room_def)
  have "unat (of_nat (length s + 1) :: u64) \<le> unat (of_nat room :: u64)"
    using room(2,3) by (subst (1 2) of_nat_u64) simp_all
  then have "of_nat (length s + 1) \<le> (word_of_int (cb_size b - cb_current b) :: u64)"
    by (simp only: word_le_nat_alt flip: room(1)) (simp only: of_int_of_nat_eq)
  then have "tls_fits b s" by (simp add: tls_fits_def cb_remainingSpace_def not_less)
  then show ?thesis using tls_copies_room [OF assms(1,2)] by simp
qed

subsection \<open>What the reader of framed messages takes\<close>

lemma copyOut_end: "cb_current b \<le> cb_size b \<Longrightarrow> snd (ccb_copyOut b) = b\<lparr>cb_current := cb_size b\<rparr>"
proof (induction b rule: ccb_copyOut.induct)
  case (1 b)
  show ?case
  proof (cases "cb_current b < cb_size b")
    case True
    have "snd (ccb_copyOut b) = snd (ccb_copyOut (ccb_advance 1 b))"
      using True by (subst ccb_copyOut.simps) (simp add: split_beta)
    also have "\<dots> = (ccb_advance 1 b)\<lparr>cb_current := cb_size (ccb_advance 1 b)\<rparr>"
      using 1(1) [OF True] True by (simp add: ccb_advance_def)
    finally show ?thesis by (simp add: ccb_advance_def)
  next
    case False
    with 1(2) show ?thesis by (subst ccb_copyOut.simps) simp
  qed
qed

lemma ptr_first_pass:
  assumes "concat data = be_bytes n @ d" "unat n \<le> 10000" "unat n \<le> length d"
  shows "\<exists>b. cb_rest b = d \<and> cb_readable b \<and>
    ptr_pass parse h (ccb_new data) 0 = pbind (ptr_deliver parse h b n) (\<lambda>c. pret (None, c, 4 + unat n))"
proof -
  let ?c = "ccb_new data"
  define b where "b = ?c\<lparr>cb_current := cb_current ?c + 4\<rparr>"
  have r: "cb_rest ?c = be_bytes n @ d" "cb_readable ?c" using ccb_new_rest [of data] assms(1) by simp_all
  have b: "cb_rest b = d" "cb_readable b" using cb_rest_skip [OF r(2), of 4] r(1) by (simp_all add: b_def)
  have rd: "ccb_read_u32 ?c = (n, b)" using read_u32_rest(1) [OF r(2)] r(1) by (simp add: b_def)
  have un: "\<not> int (length d) < uint n" using assms(3) by (metis linorder_not_less of_nat_le_iff uint_nat)
  have "ccb_remainingData ?c = int (4 + length d)" "ccb_remainingData b = int (length d)"
    using length_cb_rest [OF r(2)] length_cb_rest [OF b(2)] r(1) b(1) by simp_all
  then have "ptr_pass parse h ?c 0 = pbind (ptr_deliver parse h b n) (\<lambda>c. pret (None, c, 4 + unat n))"
    using rd assms(2,3) un by (simp add: ptr_pass_def)
  then show ?thesis using b by blast
qed

text \<open>One message alone in the data is delivered.\<close>

lemma framed_message_read:
  assumes "concat data = be_bytes n @ d" "unat n \<le> 10000" "unat n = length d" "parse d = Some m" "h = Some (\<lambda>_. Inr ())"
  shows "ptr_checkForMessage parse h data s = (Inr (4 + length d, 4), s\<lparr>fs_messages := fs_messages s @ [m]\<rparr>)"
proof -
  obtain b where b: "cb_rest b = d" "cb_readable b"
    "ptr_pass parse h (ccb_new data) 0 = pbind (ptr_deliver parse h b n) (\<lambda>c. pret (None, c, 4 + unat n))"
    using ptr_first_pass [OF assms(1,2)] assms(3) by auto
  let ?b = "b\<lparr>cb_current := cb_size b\<rparr>"
  have c: "ccb_copyOut b = (d, ?b)"
    using copyOut_rest [OF b(2)] copyOut_end [of b] b(1,2) by (simp add: cb_readable_def prod_eq_iff)
  have "ptr_pass parse h ?b (4 + unat n) = pret (Some (4 + length d, 4), ?b, 4 + unat n)"
    using assms(3) by (simp add: ptr_pass_def ccb_remainingData_def del: pret_apply)
  moreover have "ptr_deliver parse h b n s = (Inr ?b, s\<lparr>fs_messages := fs_messages s @ [m]\<rparr>)"
    using c assms(3,4,5) by (simp add: ptr_deliver_def pthen_apply)
  ultimately show ?thesis by (simp add: ptr_checkForMessage_def b(3) pbind_apply)
qed

text \<open>
  When more has arrived than one message, the parser takes it all and the reader throws: a second message that comes
  in the same read ends the connection, whether the bytes parse or not.
\<close>

lemma second_message_refused:
  assumes "concat data = be_bytes n @ d" "unat n \<le> 10000" "unat n < length d"
  shows "\<exists>w. ptr_checkForMessage parse h data s = (Inl (InvalidArgument w), s)"
proof -
  obtain b where b: "cb_rest b = d" "cb_readable b"
    "ptr_pass parse h (ccb_new data) 0 = pbind (ptr_deliver parse h b n) (\<lambda>c. pret (None, c, 4 + unat n))"
    using ptr_first_pass [OF assms(1,2)] assms(3) by auto
  have "fst (ccb_copyOut b) = d" using copyOut_rest [OF b(2)] b(1) by simp
  then have "\<exists>w. ptr_deliver parse h b n s = (Inl (InvalidArgument w), s)"
    using assms(3) by (auto simp: ptr_deliver_def split: prod.split option.split)
  then show ?thesis by (auto simp: ptr_checkForMessage_def b(3) pbind_apply)
qed


subsection \<open>Broadcasts\<close>

text \<open>What happens to the collection: a connection is made, starts, or ends by an error, an end of file or a bad message.\<close>

datatype 'm chat_event = EvConnect | EvStart nat | EvEnd nat | EvBroadcast 'm nat

fun chat_event_run :: "'m chat_event \<Rightarrow> ('m chat, unit) prog" where
  "chat_event_run EvConnect = pbind ec_createNewConnection (\<lambda>_. pret ())"
| "chat_event_run (EvStart a) = (\<lambda>w. if a < length (ch_heap w) then ec_Start (ce_id (ch_heap w ! a)) a w else (Inr (), w))"
| "chat_event_run (EvEnd i) = ec_close i"
| "chat_event_run (EvBroadcast s from) = tb_broadcast s from"

fun chat_run :: "'m chat_event list \<Rightarrow> 'm chat \<Rightarrow> 'm chat" where
  "chat_run [] w = w"
| "chat_run (e # es) w = chat_run es (snd (chat_event_run e w))"

definition chat_ok :: "'m chat \<Rightarrow> bool" where
  "chat_ok w \<longleftrightarrow> omap_ok (ch_eps w) \<and>
     (\<forall>i a. map_of (ch_eps w) i = Some a \<longrightarrow> a < length (ch_heap w) \<and> ce_id (ch_heap w ! a) = i)"

lemma chat_ok_new: "chat_ok ch_new"
  by (simp add: chat_ok_def ch_new_def)

lemma chat_ok_set:
  assumes "chat_ok w" "\<And>e. ce_id (f e) = ce_id e"
  shows "chat_ok (w\<lparr>ch_heap := (ch_heap w)[a := f (ch_heap w ! a)]\<rparr>)"
  using assms unfolding chat_ok_def by (auto, metis nth_list_update_eq nth_list_update_neq)

lemma keeps_ce_set: "(\<And>e. ce_id (f e) = ce_id e) \<Longrightarrow> preserves chat_ok (ce_set a f)"
  unfolding ce_set_def by (rule preserves_pmodify) (rule chat_ok_set)

lemma keeps_tb_visitor: "preserves chat_ok (tb_visitor s from p)"
  unfolding tb_visitor_def ce_run_sending_def
  by (cases p) (auto intro!: inv_intros keeps_ce_set split: if_split)

lemma keeps_visit_all: "(\<And>p. preserves chat_ok (v p)) \<Longrightarrow> preserves chat_ok (ec_visit_all v is)"
proof (induction "is")
  case Nil
  show ?case unfolding ec_visit_all.simps by (rule preserves_pret)
next
  case (Cons i "is")
  show ?case unfolding ec_visit_all.simps ec_getEndpoint_def by (intro inv_intros Cons.prems Cons.IH)
qed

lemma keeps_close: "preserves chat_ok (ec_close i)"
proof (rule preservesI)
  fix w :: "'m chat" assume w: "chat_ok w"
  show "chat_ok (snd (ec_close i w))"
  proof (cases "map_of (ch_eps w) i")
    case None
    then show ?thesis using w by (simp add: ec_close_def ec_getEndpoint_def pbind_apply)
  next
    case (Some a)
    have "chat_ok (snd (ce_close a w))" unfolding ce_close_def using w keeps_ce_set by (rule preservesD [rotated]) simp
    then show ?thesis using Some
      by (auto simp: ec_close_def ec_getEndpoint_def pbind_apply pthen_apply ce_close_def ce_set_def chat_ok_def)
  qed
qed

lemma keeps_chat_event: "preserves chat_ok (chat_event_run e)"
proof (cases e)
  case EvConnect
  show ?thesis unfolding EvConnect
    by (rule preservesI)
      (auto simp: ec_createNewConnection_def Let_def pbind_apply chat_ok_def nth_append less_Suc_eq)
next
  case (EvStart a)
  show ?thesis unfolding EvStart
    by (rule preservesI) (auto simp: ec_Start_def chat_ok_def split: if_splits)
next
  case (EvEnd i)
  then show ?thesis by (simp add: keeps_close)
next
  case (EvBroadcast s frm)
  then show ?thesis unfolding EvBroadcast chat_event_run.simps tb_broadcast_def ec_visit_def ec_getEndpointIdents_def
    by (intro inv_intros keeps_visit_all keeps_tb_visitor)
qed

lemma chat_run_ok: "chat_ok w \<Longrightarrow> chat_ok (chat_run es w)"
  by (induction es w rule: chat_run.induct) (simp_all add: preservesD [OF keeps_chat_event])

lemma visit_each:
  assumes "chat_ok w" "distinct is" "set is \<subseteq> fst ` set (ch_eps w)"
  shows "\<exists>w'. ec_visit_all (tb_visitor s from) is w = (Inr (), w') \<and> ch_eps w' = ch_eps w \<and>
    length (ch_heap w') = length (ch_heap w) \<and>
    (\<forall>a < length (ch_heap w). ce_id (ch_heap w' ! a) = ce_id (ch_heap w ! a) \<and>
       ce_txq (ch_heap w' ! a) = ce_txq (ch_heap w ! a) @
         (if ce_id (ch_heap w ! a) \<in> set is - {from} \<and> map_of (ch_eps w) (ce_id (ch_heap w ! a)) = Some a then [s] else []))"
  using assms
proof (induction "is" arbitrary: w)
  case (Cons i "is")
  obtain a where a: "map_of (ch_eps w) i = Some a"
    using Cons.prems(3) by (metis insert_subset list.simps(15) map_of_eq_None_iff not_Some_eq)
  have ai: "a < length (ch_heap w)" "ce_id (ch_heap w ! a) = i" using Cons.prems(1) a by (simp_all add: chat_ok_def)
  define w1 where "w1 = snd (tb_visitor s from (Some a) w)"
  have v: "tb_visitor s from (Some a) w = (Inr (), w1)"
    by (simp add: w1_def tb_visitor_def pbind_apply pthen_apply ce_set_def ce_run_sending_def)
  have w1: "chat_ok w1" using preservesD [OF keeps_tb_visitor Cons.prems(1)] by (simp add: w1_def)
  have same: "ch_eps w1 = ch_eps w" "length (ch_heap w1) = length (ch_heap w)"
    "\<forall>b < length (ch_heap w). ce_id (ch_heap w1 ! b) = ce_id (ch_heap w ! b) \<and>
       ce_txq (ch_heap w1 ! b) = ce_txq (ch_heap w ! b) @ (if b = a \<and> i \<noteq> from then [s] else [])"
    using ai by (auto simp: w1_def tb_visitor_def pbind_apply pthen_apply ce_set_def ce_run_sending_def nth_list_update)
  obtain w' where w': "ec_visit_all (tb_visitor s from) is w1 = (Inr (), w')" "ch_eps w' = ch_eps w1"
    "length (ch_heap w') = length (ch_heap w1)"
    "\<forall>b < length (ch_heap w1). ce_id (ch_heap w' ! b) = ce_id (ch_heap w1 ! b) \<and>
       ce_txq (ch_heap w' ! b) = ce_txq (ch_heap w1 ! b) @
         (if ce_id (ch_heap w1 ! b) \<in> set is - {from} \<and> map_of (ch_eps w1) (ce_id (ch_heap w1 ! b)) = Some b then [s] else [])"
    using Cons.IH [OF w1] Cons.prems(2,3) same(1) by auto
  have "ec_visit_all (tb_visitor s from) (i # is) w = (Inr (), w')"
    using a v w'(1) by (simp add: ec_getEndpoint_def pbind_apply pthen_apply)
  moreover have "i \<notin> set is" using Cons.prems(2) by simp
  ultimately show ?case using w' same a ai by (intro exI [of _ w']) (auto split: if_splits)
qed auto

text \<open>
  A broadcast reaches every connection of the collection but its sender exactly once: whatever connections were made,
  started, ended and broadcast before, it completes, and the message is appended to the queue of each other connection that is
  in the collection and to no other queue.
\<close>

lemma broadcast_reaches_others:
  assumes "w = chat_run es ch_new"
  shows "\<exists>w'. tb_run s from w = (Inr COMPLETE, w') \<and> ch_eps w' = ch_eps w \<and>
    (\<forall>a < length (ch_heap w). ce_txq (ch_heap w' ! a) = ce_txq (ch_heap w ! a) @
       (if ce_id (ch_heap w ! a) \<noteq> from \<and> map_of (ch_eps w) (ce_id (ch_heap w ! a)) = Some a then [s] else []))"
proof -
  have ok: "chat_ok w" unfolding assms by (rule chat_run_ok [OF chat_ok_new])
  then have "distinct (map fst (ch_eps w))" by (simp add: chat_ok_def omap_ok_distinct)
  then obtain w' where w': "ec_visit_all (tb_visitor s from) (map fst (ch_eps w)) w = (Inr (), w')" "ch_eps w' = ch_eps w"
    "\<forall>a < length (ch_heap w). ce_txq (ch_heap w' ! a) = ce_txq (ch_heap w ! a) @
       (if ce_id (ch_heap w ! a) \<in> set (map fst (ch_eps w)) - {from} \<and>
           map_of (ch_eps w) (ce_id (ch_heap w ! a)) = Some a then [s] else [])"
    using visit_each [OF ok, of "map fst (ch_eps w)" s "from"] by auto
  have "map_of (ch_eps w) i = Some a \<Longrightarrow> i \<in> set (map fst (ch_eps w))" for i a
    using map_of_SomeD [of "ch_eps w" i a] by (metis fst_conv image_eqI list.set_map)
  then show ?thesis using w'
    by (intro exI [of _ w']) (auto simp: tb_run_def tb_broadcast_def ec_visit_def ec_getEndpointIdents_def pbind_apply pthen_apply)
qed

definition three_chats :: "string chat_event list" where
  "three_chats = [EvConnect, EvStart 0, EvConnect, EvStart 1, EvConnect, EvStart 2, EvEnd 2]"

lemma broadcast_reaches_others_example:
  "\<exists>w'. tb_run ''hi'' 1 (chat_run three_chats ch_new) = (Inr COMPLETE, w') \<and> ce_txq (ch_heap w' ! 2) = [''hi''] \<and>
     ce_txq (ch_heap w' ! 0) = []"
proof -
  define w where "w = chat_run three_chats ch_new"
  have c: "length (ch_heap w) = 3" "map_of (ch_eps w) 3 = Some 2" "ce_id (ch_heap w ! 2) = 3" "ce_id (ch_heap w ! 0) = 1"
    "ce_txq (ch_heap w ! 2) = []" "ce_txq (ch_heap w ! 0) = []"
    by (simp_all add: w_def three_chats_def ch_new_def ec_createNewConnection_def ec_Start_def ec_close_def ec_getEndpoint_def
      ce_close_def ce_set_def Let_def pbind_apply pthen_apply omap_erase_def)
  obtain w' where "tb_run ''hi'' 1 w = (Inr COMPLETE, w')"
    "\<forall>a < length (ch_heap w). ce_txq (ch_heap w' ! a) = ce_txq (ch_heap w ! a) @
       (if ce_id (ch_heap w ! a) \<noteq> 1 \<and> map_of (ch_eps w) (ce_id (ch_heap w ! a)) = Some a then [''hi''] else [])"
    using broadcast_reaches_others [OF w_def, of "''hi''" 1] by blast
  then show ?thesis unfolding w_def [symmetric] using c by auto
qed

text \<open>A connection that leaves between the numbers and the visit is a null pointer to the visitor.\<close>

lemma departed_connection_undefined:
  assumes "map_of (ch_eps w) i = None"
  shows "ec_visit_all (tb_visitor s from) (i # is) w = (Inl Undefined, w)"
    "ec_visit_all (pb_visitor s from) (i # is) w = (Inl Undefined, w)"
  using assms by (simp_all add: ec_getEndpoint_def pbind_apply pthen_apply tb_visitor_def pb_visitor_def)

text \<open>A framed broadcast to a connection whose queue is full is lost: the notification has no handler and the message is nowhere.\<close>

lemma full_queue_loses_broadcast:
  assumes "a < length (ch_heap w)" "pts_LIMIT \<le> length (ce_txq (ch_heap w ! a))" "ce_id (ch_heap w ! a) \<noteq> from"
  shows "\<exists>w'. pb_visitor s from (Some a) w = (Inr (), w') \<and> ce_txq (ch_heap w' ! a) = ce_txq (ch_heap w ! a)"
  using assms
  by (simp add: pb_visitor_def pts_send_def pbind_apply pthen_apply ce_set_def ce_run_sending_def n_create_def)

text \<open>The stress test never sends the last nine of its messages.\<close>

lemma stress_keeps_nine:
  assumes "sb_loop self s ts w = (Inr (r, ts'), w')" "r = COMPLETE" "9 \<le> length ts"
  shows "length ts' = 9"
  using assms
proof (induction self s ts arbitrary: w rule: sb_loop.induct)
  case (2 self s i n ts)
  show ?case
  proof (cases "Suc (length ts) < 10")
    case True
    then show ?thesis using 2(3-5) by auto
  next
    case False
    then show ?thesis using 2
      by (auto simp: ec_getEndpoint_def pbind_apply pthen_apply Let_def pts_send_def ce_set_def ce_run_sending_def n_create_def
        split: option.splits if_splits)
  qed
qed simp

end
