(* ===== verification/CoreMain.thy ===== *)
theory CoreMain
  imports CoreServer
begin

text \<open>
  The program of the earlier core (\<^verbatim>\<open>oef-core-functions/src/cpp/app/main.cpp\<close>): the whole constructor of
  \<^verbatim>\<open>CoreServer\<close>, with what happens when the search cannot be reached, and the run of the server until it ends. What
  the system answers to the binding of a port and to the connection with the search are parameters.
\<close>

subsection \<open>Construction\<close>

definition default_ip :: string where "default_ip = ''127.0.0.1''"

definition core_default_backlog :: u32 where "core_default_backlog = 256"

definition core_default_nb_threads :: nat where "core_default_nb_threads = 4"

definition Ports_ServiceDiscovery :: u32 where "Ports_ServiceDiscovery = 2222"
definition Ports_Agents :: u32 where "Ports_Agents = 3333"
definition Ports_Search :: u32 where "Ports_Search = 7501"

text \<open>
  The acceptor takes the lower 16 bits of the port. When the connection to the search fails, the constructor stops the server and
  leaves the client a null pointer; only handlers follow it, and a stopped server runs none.
\<close>

definition core_construct ::
  "(u16 \<Rightarrow> exn + unit) \<Rightarrow> (string \<Rightarrow> u32 \<Rightarrow> exn + unit) \<Rightarrow> string \<Rightarrow> string \<Rightarrow> u32 \<Rightarrow> string \<Rightarrow> u32 \<Rightarrow> nat \<Rightarrow> exn + core" where
  "core_construct bind_port dial core_key core_ip_addr core_port s_ip_addr s_port nbThreads =
     ebind (bind_port (ucast core_port)) (\<lambda>_.
       let w = core_new core_key core_ip_addr core_port nbThreads in
       case dial s_ip_addr s_port of
         Inr _ \<Rightarrow> Inr w
       | Inl e \<Rightarrow> if is_std_exception e then Inr (snd (srv_stop w)) else Inl e)"

definition core_construct_default ::
  "(u16 \<Rightarrow> exn + unit) \<Rightarrow> (string \<Rightarrow> u32 \<Rightarrow> exn + unit) \<Rightarrow> exn + core" where
  "core_construct_default bind_port dial =
     core_construct bind_port dial ''oef-core-pluto'' default_ip Ports_Agents default_ip Ports_Search core_default_nb_threads"

subsection \<open>The program\<close>

text \<open>The event loop of a stopped server returns at once; otherwise it runs the completions that come.\<close>

definition core_loop :: "core_codec \<Rightarrow> core_event list \<Rightarrow> (core, unit) prog" where
  "core_loop kc evs = pbind (pget co_stopped) (\<lambda>stopped. if stopped then pret () else core_events kc evs)"

text \<open>The server's destructor runs whether the loop returned or threw.\<close>

definition core_program :: "core_codec \<Rightarrow> (u16 \<Rightarrow> exn + unit) \<Rightarrow> (string \<Rightarrow> u32 \<Rightarrow> exn + unit) \<Rightarrow> string list \<Rightarrow> core_event list \<Rightarrow> exn + core" where
  "core_program kc bind_port dial argv evs =
     ebind (std_stoi (argv ! 3)) (\<lambda>port. ebind (std_stoi (argv ! 5)) (\<lambda>s_port.
     ebind (core_construct bind_port dial (argv ! 1) (argv ! 2) (word_of_int port) (argv ! 4) (word_of_int s_port)
              core_default_nb_threads) (\<lambda>w.
       case pthen srv_run_in_thread (core_loop kc evs) w of
         (r, w1) \<Rightarrow> ebind r (\<lambda>_. Inr (snd (srv_destroy w1))))))"

datatype core_exit = CoreUsage | CoreFailed exn | CoreEnded core

fun core_exit_code :: "core_exit \<Rightarrow> int" where
  "core_exit_code CoreUsage = 1"
| "core_exit_code (CoreFailed e) = 0"
| "core_exit_code (CoreEnded w) = 0"

definition core_main :: "core_codec \<Rightarrow> (u16 \<Rightarrow> exn + unit) \<Rightarrow> (string \<Rightarrow> u32 \<Rightarrow> exn + unit) \<Rightarrow> string list \<Rightarrow> core_event list \<Rightarrow> exn + core_exit" where
  "core_main kc bind_port dial argv evs =
     (if length argv \<noteq> 6 then Inr CoreUsage
      else case core_program kc bind_port dial argv evs of
             Inr w \<Rightarrow> Inr (CoreEnded w)
           | Inl e \<Rightarrow> if is_std_exception e then Inr (CoreFailed e) else Inl e)"

lemmas core_main_defs = core_main_def core_program_def core_construct_def core_loop_def Let_def

subsection \<open>What the exit code hides\<close>

text \<open>
  When the search is out of reach the program ends at once with status 0: no completion is handled, nobody has connected,
  and nothing tells the caller. The same status stands for a port that is taken or a port number that does not parse.
\<close>

lemma unreachable_search_exits:
  assumes "argv = [prog, key, ip, port, s_ip, s_port]" "std_stoi port = Inr p" "std_stoi s_port = Inr q"
    "bind_port (ucast (word_of_int p :: u32)) = Inr ()" "dial s_ip (word_of_int q) = Inl e" "is_std_exception e"
  shows "\<exists>w. core_main kc bind_port dial argv evs = Inr (CoreEnded w) \<and> core_exit_code (CoreEnded w) = 0 \<and>
    co_next w = 0 \<and> co_directory w = [] \<and> co_stopped w"
  using assms
  by (simp add: core_main_defs srv_run_in_thread_def srv_do_accept_def srv_stop_def srv_destroy_def ad_clear_def core_new_def
    pthen_apply pbind_apply)

lemma unreachable_search_example:
  "\<exists>w. core_main tiny_codec (\<lambda>_. Inr ()) (\<lambda>_ _. Inl (RuntimeError ''refused''))
      [''node'', ''k'', ''h'', ''3333'', ''s'', ''7501''] tiny_events = Inr (CoreEnded w) \<and> co_next w = 0"
proof -
  have "\<exists>p. std_stoi ''3333'' = Inr p" "\<exists>q. std_stoi ''7501'' = Inr q"
    by (simp_all add: std_stoi_def Let_def is_space_def is_digit_def dec_value_def digit_value_def)
  then obtain p q where pq: "std_stoi ''3333'' = Inr p" "std_stoi ''7501'' = Inr q" by blast
  have "is_std_exception (RuntimeError ''refused'')" by (simp add: is_std_exception_def)
  from unreachable_search_exits [OF refl pq _ _ this, of "\<lambda>_. Inr ()" "\<lambda>_ _. Inl (RuntimeError ''refused'')"]
  show ?thesis by blast
qed

lemma taken_port_status:
  assumes "length argv = 6" "std_stoi (argv ! 3) = Inr p" "std_stoi (argv ! 5) = Inr q"
    "bind_port (ucast (word_of_int p :: u32)) = Inl e" "is_std_exception e"
  shows "core_main kc bind_port dial argv evs = Inr (CoreFailed e) \<and> core_exit_code (CoreFailed e) = 0"
  using assms by (simp add: core_main_defs)

text \<open>A port above 65535 is not refused: another one is listened on.\<close>

lemma port_is_truncated:
  assumes "p mod 2 ^ 16 = q mod 2 ^ 16"
  shows "bind_port (ucast (word_of_int p :: u32)) = bind_port (ucast (word_of_int q :: u32) :: u16)"
proof -
  have "(ucast (word_of_int p :: u32) :: u16) = word_of_int p" for p
    by (rule bit_word_eqI) (simp add: bit_simps)
  moreover have "(word_of_int p :: u16) = word_of_int q"
    using assms by (simp add: word_of_int_eq_iff take_bit_eq_mod)
  ultimately show ?thesis by simp
qed

end
