(* ===== verification/SslClient.thy ===== *)
theory SslClient
  imports PublicKeys
begin

text \<open>
  \<^verbatim>\<open>mt-core/secure/experimental/cpp/sslclient.cpp\<close>: the program that connects to the TLS port of the server, prints the key of the
  server beside the key it expects, sends one text and prints as many bytes of the answer. OpenSSL is the parameter of PublicKeys;
  a connection is the log of the calls on its socket, and the completions are events. What is opened and not given back
  is counted: files, buffers, certificates, references to RSA keys, and the handles of keys in their store.
\<close>

subsection \<open>The client\<close>

datatype tc_call = TcVerifyNone | TcVerifyCallback | TcConnect | TcHandshake | TcWrite string | TcRead nat

datatype tc_handler = TcOnConnect | TcOnHandshake | TcOnWrite | TcOnRead nat

record 'k tls_client =
  tc_out :: "string list"
  tc_calls :: "tc_call list"
  tc_pending :: "tc_handler option"
  tc_request :: string
  tc_core_key_file :: string
  tc_store :: "'k pk_store"
  tc_files :: nat
  tc_bios :: nat
  tc_rsas :: nat
  tc_certs :: nat

definition tc_blank :: "string \<Rightarrow> 'k tls_client" where
  "tc_blank core_key_file = \<lparr>tc_out = [], tc_calls = [], tc_pending = None, tc_request = [], tc_core_key_file = core_key_file,
     tc_store = ps_empty, tc_files = 0, tc_bios = 0, tc_rsas = 0, tc_certs = 0\<rparr>"

definition tc_print :: "string \<Rightarrow> ('k tls_client, unit) prog" where
  "tc_print s = pmodify (\<lambda>c. c\<lparr>tc_out := tc_out c @ [s]\<rparr>)"

definition tc_calling :: "tc_call \<Rightarrow> ('k tls_client, unit) prog" where
  "tc_calling x = pmodify (\<lambda>c. c\<lparr>tc_calls := tc_calls c @ [x]\<rparr>)"

definition tc_async :: "tc_call \<Rightarrow> tc_handler \<Rightarrow> ('k tls_client, unit) prog" where
  "tc_async x h = pthen (tc_calling x) (pmodify (\<lambda>c. c\<lparr>tc_pending := Some h\<rparr>))"

definition tc_on_store :: "('k pk_store, 'a) prog \<Rightarrow> ('k tls_client, 'a) prog" where
  "tc_on_store p = (\<lambda>c. case p (tc_store c) of (r, s) \<Rightarrow> (r, c\<lparr>tc_store := s\<rparr>))"

text \<open>A key that OpenSSL hands out with one reference, and the key behind a handle.\<close>

definition pk_alloc :: "'k \<Rightarrow> ('k pk_store, nat) prog" where
  "pk_alloc k = (\<lambda>s. (Inr (ps_fresh s), s\<lparr>ps_keys := (ps_keys s)(ps_fresh s \<mapsto> (k, 1)), ps_fresh := ps_fresh s + 1\<rparr>))"

definition pk_at :: "nat \<Rightarrow> ('k pk_store, 'k) prog" where
  "pk_at h = (\<lambda>s. case ps_keys s h of None \<Rightarrow> (Inl Undefined, s) | Some (k, n) \<Rightarrow> (Inr k, s))"

subsection \<open>Keys\<close>

text \<open>
  The text without its first 35 and its last 27 characters. A length below 62 wraps around as an unsigned number, which no string can
  have, so that the constructor throws and the buffer is not freed; below 35 the pointer itself leaves the text.
\<close>

definition to_string_RSA :: "('x, 'k, 'r) openssl \<Rightarrow> 'r \<Rightarrow> ('k tls_client, string) prog" where
  "to_string_RSA ssl pk =
     (if \<not> BIO_new_mem ssl then pthen (tc_print ''[sslclient] while creating bio mem buf'') (pret [])
      else pthen (pmodify (\<lambda>c. c\<lparr>tc_bios := tc_bios c + 1\<rparr>))
       (let BIO_free = pmodify (\<lambda>c. c\<lparr>tc_bios := tc_bios c - 1\<rparr>) in
        case RSA_print ssl pk of
          None \<Rightarrow> pthen (tc_print ''[sslclient] while printing RSA key to bio'') (pthen BIO_free (pret []))
        | Some text \<Rightarrow>
            if text = [] then pthen (tc_print ''[sslclient] while getting bio char pointer'') (pthen BIO_free (pret []))
            else if length text < 35 then pthrow Undefined
            else if length text < 35 + 27 then pthrow (LogicError ''basic_string::_M_create'')
            else pthen BIO_free (pret (take (length text - 35 - 27) (drop 35 text)))))"

definition to_string_EVP_PKEY :: "('x, 'k, 'r) openssl \<Rightarrow> nat \<Rightarrow> ('k tls_client, string) prog" where
  "to_string_EVP_PKEY ssl pk =
     pbind (tc_on_store (pk_at pk)) (\<lambda>k.
       if EVP_PKEY_base_id ssl k = EVP_PKEY_RSA \<or> EVP_PKEY_base_id ssl k = EVP_PKEY_RSA2
       then (case EVP_PKEY_get1_RSA ssl k of
               None \<Rightarrow> pthen (tc_print ''[sslclient] error getting rsa key'') (pret [])
             | Some rsa \<Rightarrow>
                 pthen (pmodify (\<lambda>c. c\<lparr>tc_rsas := tc_rsas c + 1\<rparr>))
                (pbind (to_string_RSA ssl rsa) (\<lambda>out.
                 pthen (pmodify (\<lambda>c. c\<lparr>tc_rsas := tc_rsas c - 1\<rparr>)) (pret out))))
       else pret [])"

definition tc_fclose :: "('k tls_client, unit) prog" where
  "tc_fclose = pmodify (\<lambda>c. c\<lparr>tc_files := tc_files c - 1\<rparr>)"

text \<open>Opening the file and reading the key; on success the file is left open.\<close>

definition tc_read_PEM :: "('x, 'k, 'r) openssl \<Rightarrow> file_system \<Rightarrow> string \<Rightarrow> ('k tls_client, nat option) prog" where
  "tc_read_PEM ssl fopen file_path =
     (case fopen (path_c_str file_path) of
        Inl e \<Rightarrow> pthen (tc_print (''[sslclient] while trying to open pub key pem file : '' @ e)) (pret None)
      | Inr text \<Rightarrow>
          pthen (pmodify (\<lambda>c. c\<lparr>tc_files := tc_files c + 1\<rparr>))
            (case PEM_read_PUBKEY ssl text of
               None \<Rightarrow> pthen (tc_print (''[sslclient] while trying to read EVP_PKEY from pem file : '' @ ERR_text ssl))
                         (pthen tc_fclose (pret None))
             | Some k \<Rightarrow> pbind (tc_on_store (pk_alloc k)) (\<lambda>h. pret (Some h))))"

definition from_PEM_f :: "('x, 'k, 'r) openssl \<Rightarrow> file_system \<Rightarrow> string \<Rightarrow> ('k tls_client, nat option) prog" where
  "from_PEM_f ssl fopen file_path = tc_read_PEM ssl fopen file_path"

definition to_string_PEM_f :: "('x, 'k, 'r) openssl \<Rightarrow> file_system \<Rightarrow> string \<Rightarrow> ('k tls_client, string) prog" where
  "to_string_PEM_f ssl fopen file_path =
     pbind (tc_read_PEM ssl fopen file_path) (\<lambda>p. case p of
       None \<Rightarrow> pret []
     | Some pkey \<Rightarrow> pbind (to_string_EVP_PKEY ssl pkey) (\<lambda>out.
         pthen tc_fclose (pthen (tc_on_store (EVP_PKEY_free pkey)) (pret out))))"

definition are_equal :: "('x, 'k, 'r) openssl \<Rightarrow> nat \<Rightarrow> nat \<Rightarrow> ('k tls_client, bool) prog" where
  "are_equal ssl a b =
     pbind (tc_on_store (pk_at a)) (\<lambda>k. pbind (tc_on_store (pk_at b)) (\<lambda>l. pret (EVP_PKEY_cmp ssl k l = 1)))"

subsection \<open>The conversation\<close>

definition tc_connect :: "('k tls_client, unit) prog" where
  "tc_connect = tc_async TcConnect TcOnConnect"

definition tc_new :: "('x, 'k, 'r) openssl \<Rightarrow> file_system \<Rightarrow> ('k tls_client, unit) prog" where
  "tc_new ssl fopen =
     pthen (tc_calling TcVerifyNone) (pthen (tc_calling TcVerifyCallback)
    (pbind (pget tc_core_key_file) (\<lambda>core_key_file. pbind (from_PEM_f ssl fopen core_key_file) (\<lambda>core_id.
     pthen (case core_id of
              None \<Rightarrow> pret ()
            | Some h \<Rightarrow> pbind (to_string_EVP_PKEY ssl h) (\<lambda>s.
                pthen (tc_print (''[sslclient] Core ID: '' @ s)) (tc_on_store (EVP_PKEY_free h))))
       tc_connect))))"

text \<open>\<^verbatim>\<open>subject\<close> is the name that OpenSSL prints of a certificate, cut to the 256 bytes of the array with the final zero.\<close>

definition tc_verify_certificate :: "('x \<Rightarrow> string) \<Rightarrow> bool \<Rightarrow> 'x \<Rightarrow> ('k tls_client, bool) prog" where
  "tc_verify_certificate subject preverified cert = pthen (tc_print (''Verifying '' @ take 255 (subject cert))) (pret True)"

definition tc_handshake :: "('k tls_client, unit) prog" where
  "tc_handshake = tc_async TcHandshake TcOnHandshake"

text \<open>The completions: \<open>None\<close> for no error, or the message of the error.\<close>

definition tc_connected :: "string option \<Rightarrow> ('k tls_client, unit) prog" where
  "tc_connected err = (case err of None \<Rightarrow> tc_handshake | Some m \<Rightarrow> tc_print (''Connect failed: '' @ m))"

definition tc_send_request :: "('k tls_client, unit) prog" where
  "tc_send_request =
     pthen (tc_print ''Enter message: '') (pthen (pmodify (\<lambda>c. c\<lparr>tc_request := ''I am an ssl client''\<rparr>))
    (pbind (pget tc_request) (\<lambda>request. tc_async (TcWrite request) TcOnWrite)))"

definition tc_show_bool :: "bool \<Rightarrow> string" where
  "tc_show_bool b = (if b then ''1'' else ''0'')"

text \<open>The certificate and its key are never given back.\<close>

definition tc_compare :: "('x, 'k, 'r) openssl \<Rightarrow> file_system \<Rightarrow> 'x option \<Rightarrow> ('k tls_client, unit) prog" where
  "tc_compare ssl fopen peer =
     (case peer of
        None \<Rightarrow> tc_print (''[sslclient] Couldn'' @ [CHR 0x27] @ ''t get Agent public key from ssl socket : '' @ ERR_text ssl)
      | Some cert \<Rightarrow>
          pthen (pmodify (\<lambda>c. c\<lparr>tc_certs := tc_certs c + 1\<rparr>))
            (case X509_get_pubkey ssl cert of
               None \<Rightarrow> pret ()
             | Some k \<Rightarrow>
                 pbind (tc_on_store (pk_alloc k)) (\<lambda>pk. pbind (to_string_EVP_PKEY ssl pk) (\<lambda>s.
                 pthen (tc_print (''[sslclient] Got Core PubKey: '' @ s))
                (pbind (pget tc_core_key_file) (\<lambda>f. pbind (from_PEM_f ssl fopen f) (\<lambda>core_id. case core_id of
                   None \<Rightarrow> pret ()
                 | Some h \<Rightarrow> pbind (are_equal ssl pk h) (\<lambda>b.
                     pthen (tc_print (''[sslclient] -> How does it compare to Core id? '' @ tc_show_bool b))
                           (tc_on_store (EVP_PKEY_free h)))))))))) "

definition tc_shaken :: "('x, 'k, 'r) openssl \<Rightarrow> file_system \<Rightarrow> 'x option \<Rightarrow> string option \<Rightarrow> ('k tls_client, unit) prog" where
  "tc_shaken ssl fopen peer err =
     (case err of
        None \<Rightarrow> pthen (tc_compare ssl fopen peer) tc_send_request
      | Some m \<Rightarrow> tc_print (''Handshake failed: '' @ m))"

definition tc_receive_response :: "nat \<Rightarrow> ('k tls_client, unit) prog" where
  "tc_receive_response n = tc_async (TcRead n) (TcOnRead n)"

definition tc_written :: "string option \<Rightarrow> nat \<Rightarrow> ('k tls_client, unit) prog" where
  "tc_written err n = (case err of None \<Rightarrow> tc_receive_response n | Some m \<Rightarrow> tc_print (''Write failed: '' @ m))"

definition tc_received :: "string option \<Rightarrow> string \<Rightarrow> ('k tls_client, unit) prog" where
  "tc_received err reply = tc_print (case err of None \<Rightarrow> ''Reply: '' @ reply | Some m \<Rightarrow> ''Read failed: '' @ m)"

datatype 'x tc_event =
    TcConnected "string option"
  | TcVerify bool 'x
  | TcShaken "'x option" "string option"
  | TcWritten "string option"
  | TcReceived "string option" string

text \<open>
  Which completions can come: the one of the operation under way; certificates are shown during the handshake. A write that
  succeeds has written the whole request, a read that succeeds has what was asked for.
\<close>

fun tc_enabled :: "'x tc_event \<Rightarrow> 'k tls_client \<Rightarrow> bool" where
  "tc_enabled (TcConnected err) c \<longleftrightarrow> tc_pending c = Some TcOnConnect"
| "tc_enabled (TcVerify pre cert) c \<longleftrightarrow> tc_pending c = Some TcOnHandshake"
| "tc_enabled (TcShaken peer err) c \<longleftrightarrow> tc_pending c = Some TcOnHandshake"
| "tc_enabled (TcWritten err) c \<longleftrightarrow> tc_pending c = Some TcOnWrite"
| "tc_enabled (TcReceived err reply) c \<longleftrightarrow> (\<exists>n. tc_pending c = Some (TcOnRead n) \<and> (err = None \<longrightarrow> length reply = n))"

definition tc_done :: "('k tls_client, unit) prog" where
  "tc_done = pmodify (\<lambda>c. c\<lparr>tc_pending := None\<rparr>)"

fun tc_step :: "('x, 'k, 'r) openssl \<Rightarrow> file_system \<Rightarrow> ('x \<Rightarrow> string) \<Rightarrow> 'x tc_event \<Rightarrow> ('k tls_client, unit) prog" where
  "tc_step ssl fopen subject (TcConnected err) = pthen tc_done (tc_connected err)"
| "tc_step ssl fopen subject (TcVerify pre cert) = pbind (tc_verify_certificate subject pre cert) (\<lambda>_. pret ())"
| "tc_step ssl fopen subject (TcShaken peer err) = pthen tc_done (tc_shaken ssl fopen peer err)"
| "tc_step ssl fopen subject (TcWritten err) =
     pthen tc_done (pbind (pget tc_request) (\<lambda>request. tc_written err (length request)))"
| "tc_step ssl fopen subject (TcReceived err reply) = pthen tc_done (tc_received err reply)"

fun tc_run :: "('x, 'k, 'r) openssl \<Rightarrow> file_system \<Rightarrow> ('x \<Rightarrow> string) \<Rightarrow> 'x tc_event list \<Rightarrow> ('k tls_client, unit) prog" where
  "tc_run ssl fopen subject [] = pret ()"
| "tc_run ssl fopen subject (e # es) =
     pthen (pbind (pget (tc_enabled e)) (\<lambda>on. if on then tc_step ssl fopen subject e else pret ())) (tc_run ssl fopen subject es)"

subsection \<open>The program\<close>

datatype 'k tc_exit = TcUsage | TcFailed exn | TcEnded "(exn + unit) \<times> 'k tls_client"

fun tc_exit_code :: "'k tc_exit \<Rightarrow> int" where
  "tc_exit_code TcUsage = 1"
| "tc_exit_code (TcFailed e) = 0"
| "tc_exit_code (TcEnded r) = 0"

text \<open>\<open>resolved\<close> and \<open>loaded\<close>: what resolving the host and loading the certificate and the key of the client answer.\<close>

definition tc_main ::
  "('x, 'k, 'r) openssl \<Rightarrow> file_system \<Rightarrow> ('x \<Rightarrow> string) \<Rightarrow> (string \<Rightarrow> string \<Rightarrow> exn + unit) \<Rightarrow> (string \<Rightarrow> exn + unit) \<Rightarrow>
   string list \<Rightarrow> 'x tc_event list \<Rightarrow> exn + 'k tc_exit" where
  "tc_main ssl fopen subject resolved loaded argv evs =
     (if length argv \<noteq> 5 then Inr TcUsage
      else case ebind (resolved (argv ! 2) (argv ! 3)) (\<lambda>_. loaded (argv ! 1)) of
             Inl e \<Rightarrow> if is_std_exception e then Inr (TcFailed e) else Inl e
           | Inr _ \<Rightarrow> (case pthen (tc_new ssl fopen) (tc_run ssl fopen subject evs) (tc_blank (argv ! 4)) of
               (Inr _, c) \<Rightarrow> Inr (TcEnded (Inr (), c))
             | (Inl e, c) \<Rightarrow> if is_std_exception e then Inr (TcEnded (Inl e, c)) else Inl e))"


subsection \<open>Texts of keys\<close>

text \<open>Keys whose text OpenSSL prints in full, and what the client makes of it.\<close>

definition tc_printable :: "('x, 'k, 'r) openssl \<Rightarrow> 'k \<Rightarrow> string \<Rightarrow> bool" where
  "tc_printable ssl k s \<longleftrightarrow>
     (if EVP_PKEY_base_id ssl k = EVP_PKEY_RSA \<or> EVP_PKEY_base_id ssl k = EVP_PKEY_RSA2
      then BIO_new_mem ssl \<and> (\<exists>r text. EVP_PKEY_get1_RSA ssl k = Some r \<and> RSA_print ssl r = Some text \<and> 62 \<le> length text \<and>
             s = take (length text - 35 - 27) (drop 35 text))
      else s = [])"

lemma string_of_key:
  assumes "tc_printable ssl k s" "map_option fst (ps_keys (tc_store c) h) = Some k"
  shows "to_string_EVP_PKEY ssl h c = (Inr s, c)"
  using assms
  by (auto simp: tc_printable_def to_string_EVP_PKEY_def tc_on_store_def pk_at_def to_string_RSA_def pbind_apply pthen_apply
    Let_def split: if_splits)

text \<open>The client keeps one character more than the server does (the end of the line) of the text of a key.\<close>

lemma client_text_of_modulus:
  assumes "63 \<le> length text"
  shows "take (length text - 35 - 27) (drop 35 text) = modulus_text text @ [text ! (length text - 28)]"
proof -
  have "length text - 35 - 27 = Suc (length text - 63)" using assms by simp
  then show ?thesis using assms by (simp add: modulus_text_def take_Suc_conv_app_nth)
qed

text \<open>A key with a short text makes the construction throw: the buffer, the RSA key, the handle and the file stay.\<close>

lemma short_core_key_throws:
  assumes "fopen (path_c_str f) = Inr pem" "PEM_read_PUBKEY ssl pem = Some k" "EVP_PKEY_base_id ssl k = EVP_PKEY_RSA"
    "EVP_PKEY_get1_RSA ssl k = Some r" "BIO_new_mem ssl" "RSA_print ssl r = Some text" "35 \<le> length text" "length text < 62"
    "resolved host port = Inr ()" "loaded own = Inr ()"
  shows "\<exists>e c. tc_main ssl fopen subject resolved loaded [prog, own, host, port, f] evs = Inr (TcEnded (Inl e, c)) \<and>
    tc_bios c = 1 \<and> tc_rsas c = 1 \<and> tc_files c = 1 \<and> ps_keys (tc_store c) 0 = Some (k, 1) \<and> TcConnect \<notin> set (tc_calls c)"
proof -
  have "text \<noteq> []" using assms(7) by auto
  then show ?thesis using assms
    by (simp add: tc_main_def tc_new_def tc_blank_def tc_calling_def from_PEM_f_def tc_read_PEM_def tc_on_store_def pk_alloc_def
      to_string_EVP_PKEY_def pk_at_def to_string_RSA_def ps_empty_def pbind_apply pthen_apply Let_def is_std_exception_def)
qed

subsection \<open>A whole conversation\<close>

lemmas tc_conversation = tc_new_def tc_calling_def tc_print_def tc_async_def tc_connect_def tc_handshake_def from_PEM_f_def
  tc_read_PEM_def tc_on_store_def pk_alloc_def pk_at_def EVP_PKEY_free_def tc_done_def tc_connected_def tc_shaken_def
  tc_compare_def are_equal_def tc_send_request_def tc_written_def tc_receive_response_def tc_received_def

text \<open>
  When all goes well the client prints both keys, whether they are equal, and the answer. The request is sent whatever the comparison says;
  two files, the certificate and the key of the server are never given back.
\<close>

lemma client_conversation:
  assumes "fopen (path_c_str f) = Inr pem" "PEM_read_PUBKEY ssl pem = Some core" "tc_printable ssl core s"
    "X509_get_pubkey ssl cert = Some k" "tc_printable ssl k s'" "length reply = 18"
  shows "\<exists>c. pthen (tc_new ssl fopen)
      (tc_run ssl fopen subject [TcConnected None, TcShaken (Some cert) None, TcWritten None, TcReceived None reply]) (tc_blank f) = (Inr (), c) \<and>
    tc_out c = [''[sslclient] Core ID: '' @ s, ''[sslclient] Got Core PubKey: '' @ s',
      ''[sslclient] -> How does it compare to Core id? '' @ tc_show_bool (EVP_PKEY_cmp ssl k core = 1), ''Enter message: '',
      ''Reply: '' @ reply] \<and>
    tc_calls c = [TcVerifyNone, TcVerifyCallback, TcConnect, TcHandshake, TcWrite ''I am an ssl client'', TcRead 18] \<and>
    tc_files c = 2 \<and> tc_certs c = 1 \<and> tc_rsas c = 0 \<and> tc_bios c = 0 \<and> ps_keys (tc_store c) = [1 \<mapsto> (k, 1)]"
proof -
  have new: "tc_new ssl fopen (tc_blank f) = (Inr (), (tc_blank f)\<lparr>tc_out := [''[sslclient] Core ID: '' @ s],
      tc_calls := [TcVerifyNone, TcVerifyCallback, TcConnect], tc_pending := Some TcOnConnect,
      tc_store := ps_empty\<lparr>ps_fresh := 1\<rparr>, tc_files := 1\<rparr>)"
    using assms(1,2) by (simp add: tc_conversation tc_blank_def ps_empty_def pbind_apply pthen_apply string_of_key [OF assms(3)])
  have cmp: "tc_compare ssl fopen (Some cert) c = (Inr (), c\<lparr>tc_out := tc_out c @ [''[sslclient] Got Core PubKey: '' @ s',
      ''[sslclient] -> How does it compare to Core id? '' @ tc_show_bool (EVP_PKEY_cmp ssl k core = 1)],
      tc_store := \<lparr>ps_keys = [1 \<mapsto> (k, 1)], ps_fresh = 3, ps_objs = []\<rparr>, tc_files := tc_files c + 1, tc_certs := tc_certs c + 1\<rparr>)"
    if "tc_core_key_file c = f" "tc_store c = ps_empty\<lparr>ps_fresh := 1\<rparr>" for c
    using assms(1,2,4) that
    by (simp add: tc_conversation ps_empty_def pbind_apply pthen_apply string_of_key [OF assms(5)] fun_upd_twist)
  show ?thesis
    using assms(6) by (simp add: new [unfolded tc_blank_def] cmp pthen_apply pbind_apply tc_done_def tc_connected_def tc_handshake_def tc_async_def tc_calling_def
      tc_shaken_def tc_send_request_def tc_print_def tc_written_def tc_receive_response_def tc_received_def tc_blank_def)
qed

end
