(* ===== verification/Spec2Isabelle.thy ===== *)
theory Spec2Isabelle
  imports BucketsOf Monitoring CxxStd Karma RingBuffer CharBuffers Framing Uris PathFraming Notifications Tasks Workers Delivery Routing Conversations QueryTypes CoreServer MainServer Reports ByteArrays Encoders Signatures Logs CoreComms Demos CoreMain SslClient
begin

text \<open>
  The verification of the OEF core server: a C++ program that agents connect to over sockets, that identifies them,
  passes messages between them and forwards their descriptions and queries to a search service.

  \<^bold>\<open>How the program is put together.\<close> A socket belongs to an endpoint (\<^verbatim>\<open>basic_comms\<close>): a ring of received
  bytes that a reader cuts into messages, a queue of messages that a writer serialises into a ring of bytes to send.
  An \<^verbatim>\<open>OefAgentEndpoint\<close> (\<^verbatim>\<open>mt-core/comms\<close>) owns an endpoint and a task factory: first one of a handshake, after
  it the dispatcher of requests (\<^verbatim>\<open>mt-core/oef-functions\<close>), which makes one task per request. Tasks run on a pool
  (\<^verbatim>\<open>threading\<close>), sleep, and are woken by notifications. A task for the search starts a conversation
  (\<^verbatim>\<open>mt-core/conversations\<close>), whose worker sends requests on one connection to the search service and hands the
  replies back by an identifier. The table of agents (\<^verbatim>\<open>mt-core/agents\<close>) maps keys to connections; the karma
  policy (\<^verbatim>\<open>mt-core/karma\<close>) decides what an account may do. \<^verbatim>\<open>oef-core-functions\<close> is the earlier core: data models
  and queries, its own server, sessions and client of the search.

  \<^bold>\<open>Conventions.\<close> Prelude has the programs (\<open>prog\<close>: a state to an exception or a result and a state, the state
  kept when an exception is thrown), the exceptions (\<open>exn\<close>), the ordered association lists that stand for maps, and
  the words. A locked operation is one step; where the code takes a lock it already holds, the model has the mutex as
  a flag and the second locking is the exception \<open>Deadlock\<close>. Undefined behaviour of C++ is the exception
  \<open>Undefined\<close>, so that a theorem that an operation returns also says that it stays defined. An \<^verbatim>\<open>abort\<close> is
  \<open>Aborted\<close>. Where an operation that goes on after its function has returned reads memory that nothing keeps alive (the
  handlers of a websocket, the writes of the earlier core), what that memory holds is an argument of the events: the
  properties say what happens for any contents, or separately when they are intact and when they are not. Numbers that the code keeps in 8, 16, 32 or 64 bits are words, with their wrap-around.

  \<^bold>\<open>The theories.\<close>
  \<^item> BucketsOf and Monitoring: the table of names (\<^verbatim>\<open>cpp-utils/BucketsOf.hpp\<close>) and the counters and gauges
    over it (\<^verbatim>\<open>monitoring\<close>); the locale \<open>name_table\<close> is what the second needs of the first.
  \<^item> CxxStd: \<^verbatim>\<open>std::stoi\<close>, \<^verbatim>\<open>substr\<close> and relatives, shared by Karma and Uris.
  \<^item> Karma: accounts and the two policies. The locale \<open>policy_contract\<close> holds for both; the effects of actions
    are parsed, a cycle refreshes, balances stay between 0 and \<^verbatim>\<open>MAX_KARMA\<close>.
  \<^item> RingBuffer: the circular store; \<open>byte_fifo\<close> is the stream it refines, and the endpoints are built on that.
  \<^item> CharBuffers: the stream buffers over regions of the rings, and big- and little-endian numbers.
  \<^item> Framing, PathFraming: readers and senders of the two wire formats (agents; the search service), from frames to
    bytes and back, for any way in which the network cuts the bytes.
  \<^item> Uris: addresses of listeners and agents.
  \<^item> Endpoint, EndpointSending: one connection as a transition system over the completions of asio. The locales
    \<open>stream_reader\<close> and \<open>stream_writer\<close> are the contracts of readers and writers, interpreted on those of
    Framing; what a connection delivers and sends is proved from them for every sequence of events.
  \<^item> Notifications, Tasks, Workers: one-shot events, the pool of tasks, and the kinds of task built on it. The turn of a
    worker of the pool is cut at every lock and at every call of its task (\<open>worker_step\<close>; \<open>turn_is_steps\<close> relates it to
    the turn as the code writes it), and the invariant of the pool holds for any interleaving of several workers and
    callers that keeps to the two conditions of \<open>calls_in_order\<close>.
  \<^item> Delivery, Session, Routing: the tasks that put a message on a connection, the handshakes and the dispatcher of
    one connection, and the table of agents under any events of all connections of a server.
  \<^item> Conversations: requests to the search service and the way back of their replies.
  \<^item> Queries, QueryTypes: data models, instances and queries; typed reference semantics, contract of the
    constructor, versions of schemas. The locales \<open>compared\<close> and \<open>compared_total\<close> are interpreted on each type
    of constants.
  \<^item> SearchClient, CoreServer: the earlier core: its client of the search service, and its server (directory of
    agents, sessions, handshake, sockets) composed with that client, under any order of completions. A write is started
    with a frame; its bytes leave in parts, between those of other writes, as events.
  \<^item> PublicKeys, Connections: keys of TLS peers with their reference counts and texts, the white list file, and the
    connections other than plain sockets: websocket and TLS, on top of Endpoint.
  \<^item> MainServer, Reports: event loop, thread pool, listeners, configuration and start of the program; its report for
    Prometheus and its memory gauges.
  \<^item> Platform, ByteArrays, Encoders, Hashing, Signatures: the ledger library (\<^verbatim>\<open>fetch_teams/ledger\<close>). ByteArrays has arrays that share
    vectors, on an explicit store: growth, windows and appending with what they do to the arrays that share.
    Encoders are base 64, hexadecimal and binary texts; Hashing has FNV, the locale \<open>stream_hasher\<close> that a hasher
    meets, Merkle trees with their perfect tree as the reference, and identities; Signatures has keys, signatures,
    signers and verifiers.
  \<^item> Logs: the ledger library's logger (\<^verbatim>\<open>fetch_teams/ledger/logger.hpp\<close>) with its contexts, stack traces, timings and
    mutexes, the terminal codes, and the logger of the earlier core. Which calls can deadlock and that scopes restore
    the context of a thread is shown for any calls of any threads.
  \<^item> CoreComms, CoreMain: the rest of the earlier core: blocking connections, the acceptor, conversions to bytes, the
    messages a client makes, and the program with its exit codes.
  \<^item> Demos: the text server (\<^verbatim>\<open>test_text_server\<close>): its two wire formats on top of Endpoint, the collection of its
    connections, and the tasks of a broadcast on top of Tasks and Notifications.
  \<^item> SslClient: the test client of the TLS port (\<^verbatim>\<open>mt-core/secure/experimental/cpp/sslclient.cpp\<close>) and what it leaves open.

  \<^bold>\<open>What is a parameter.\<close> Serialisers and parsers of protobuf (the laws used are stated in \<open>sender_params_ok\<close> and
  its like), hashes of strings, arithmetic of doubles (their comparison is written out on the bits), the functions of
  OpenSSL (certificates, keys, digests), files and the answers of the operating system, the results of reads and writes
  of sockets, how times, pointers and doubles are printed or parsed, the work of a subclass in a base class of tasks. Time is a
  number that events carry.

  \<^bold>\<open>Bounds.\<close> The positions of CharBuffers are unbounded numbers, equal to the \<^verbatim>\<open>int\<close>s of the code below two gigabytes
  (\<open>int_positions_keep\<close>). \<^verbatim>\<open>BUFFER_SIZE_LIMIT\<close> (50) bounds the queue of a connection, \<^verbatim>\<open>MAX_KARMA\<close> a balance, 10000 the size of
  a message and 65536 the conversations that a 16-bit port can tell apart. Loops that consume their input are
  recursive on it. The only fuel is that of a state machine task, and \<open>state_machine_returns\<close> shows how
  much is enough.

  \<^bold>\<open>Not modelled.\<close> The parsing of JSON (a library), the memory gauges for macOS, the main programs of the demonstrations
  (they build the parts of Demos, Tasks and MainServer and wait), \<^verbatim>\<open>WakeUpTask.hpp\<close> and
  \<^verbatim>\<open>threading/experimental\<close> (they do not compile against the library as it is), \<^verbatim>\<open>mt-core/tasks/src/cpp/utils.hpp\<close> (a
  copy of the file of the earlier core that Uris models), type traits, abstract interfaces that only declare,
  destructors that only free memory, and the vendored libraries. Interleavings inside an operation are modelled only where its
  locking is at issue (Notifications, Logs, and the worker's turn in Tasks); what a task does when it runs is decided when it starts.
\<close>

end
